(* ===== verification/Prelude.thy ===== *)
theory Prelude
  imports "HOL-Library.Word"
begin

text \<open>
  Shared vocabulary of the development.

  \<^item> The machine types of the sources: \<open>uintptr_t\<close>, \<open>size_t\<close> and
    \<open>uint64_t\<close> are 64-bit words, so that arithmetic wraps as it does in C++.
  \<^item> \<open>Status<T>\<close> of \<^verbatim>\<open>src/junction/base/error.h\<close> is a sum: \<open>Inl\<close> an
    error number, \<open>Inr\<close> the value.
  \<^item> Generic facts on lists, options and words used by several components,
    and the rule collections they are gathered in.
\<close>

unbundle bit_operations_syntax

type_synonym uintptr = "64 word"
type_synonym u64 = "64 word"
type_synonym u32 = "32 word"

type_synonym errno = int
type_synonym 'a Status = "errno + 'a"

named_theorems errno_defs \<open>the numeric values of the error numbers\<close>

text \<open>The Linux error numbers, and the internal ones of \<open>error.h\<close> from 512 on.\<close>

definition EPERM :: errno where [errno_defs]: "EPERM = 1"
definition ENOENT :: errno where [errno_defs]: "ENOENT = 2"
definition ESRCH :: errno where [errno_defs]: "ESRCH = 3"
definition EINTR :: errno where [errno_defs]: "EINTR = 4"
definition EIO :: errno where [errno_defs]: "EIO = 5"
definition E2BIG :: errno where [errno_defs]: "E2BIG = 7"
definition ENOEXEC :: errno where [errno_defs]: "ENOEXEC = 8"
definition EBADF :: errno where [errno_defs]: "EBADF = 9"
definition ECHILD :: errno where [errno_defs]: "ECHILD = 10"
definition EAGAIN :: errno where [errno_defs]: "EAGAIN = 11"
definition ENOMEM :: errno where [errno_defs]: "ENOMEM = 12"
definition EACCES :: errno where [errno_defs]: "EACCES = 13"
definition EFAULT :: errno where [errno_defs]: "EFAULT = 14"
definition EBUSY :: errno where [errno_defs]: "EBUSY = 16"
definition EEXIST :: errno where [errno_defs]: "EEXIST = 17"
definition EXDEV :: errno where [errno_defs]: "EXDEV = 18"
definition ENODEV :: errno where [errno_defs]: "ENODEV = 19"
definition ENOTDIR :: errno where [errno_defs]: "ENOTDIR = 20"
definition EISDIR :: errno where [errno_defs]: "EISDIR = 21"
definition EINVAL :: errno where [errno_defs]: "EINVAL = 22"
definition ENFILE :: errno where [errno_defs]: "ENFILE = 23"
definition EMFILE :: errno where [errno_defs]: "EMFILE = 24"
definition ENOTTY :: errno where [errno_defs]: "ENOTTY = 25"
definition EFBIG :: errno where [errno_defs]: "EFBIG = 27"
definition ENOSPC :: errno where [errno_defs]: "ENOSPC = 28"
definition ESPIPE :: errno where [errno_defs]: "ESPIPE = 29"
definition EROFS :: errno where [errno_defs]: "EROFS = 30"
definition EPIPE :: errno where [errno_defs]: "EPIPE = 32"
definition ERANGE :: errno where [errno_defs]: "ERANGE = 34"
definition ENAMETOOLONG :: errno where [errno_defs]: "ENAMETOOLONG = 36"
definition ENOSYS :: errno where [errno_defs]: "ENOSYS = 38"
definition ENOTEMPTY :: errno where [errno_defs]: "ENOTEMPTY = 39"
definition ELOOP :: errno where [errno_defs]: "ELOOP = 40"
definition ESTALE :: errno where [errno_defs]: "ESTALE = 116"
definition ENODATA :: errno where [errno_defs]: "ENODATA = 61"
definition ENOTSOCK :: errno where [errno_defs]: "ENOTSOCK = 88"
definition EDESTADDRREQ :: errno where [errno_defs]: "EDESTADDRREQ = 89"
definition EMSGSIZE :: errno where [errno_defs]: "EMSGSIZE = 90"
definition EPROTOTYPE :: errno where [errno_defs]: "EPROTOTYPE = 91"
definition ENOPROTOOPT :: errno where [errno_defs]: "ENOPROTOOPT = 92"
definition EOPNOTSUPP :: errno where [errno_defs]: "EOPNOTSUPP = 95"
definition EAFNOSUPPORT :: errno where [errno_defs]: "EAFNOSUPPORT = 97"
definition EADDRINUSE :: errno where [errno_defs]: "EADDRINUSE = 98"
definition ECONNRESET :: errno where [errno_defs]: "ECONNRESET = 104"
definition EISCONN :: errno where [errno_defs]: "EISCONN = 106"
definition ENOTCONN :: errno where [errno_defs]: "ENOTCONN = 107"
definition ESHUTDOWN :: errno where [errno_defs]: "ESHUTDOWN = 108"
definition ETIMEDOUT :: errno where [errno_defs]: "ETIMEDOUT = 110"
definition ECONNREFUSED :: errno where [errno_defs]: "ECONNREFUSED = 111"
definition EALREADY :: errno where [errno_defs]: "EALREADY = 114"
definition EINPROGRESS :: errno where [errno_defs]: "EINPROGRESS = 115"
definition ERESTARTSYS :: errno where [errno_defs]: "ERESTARTSYS = 512"
definition ERESTARTNOINTR :: errno where [errno_defs]: "ERESTARTNOINTR = 513"
definition ERESTARTNOHAND :: errno where [errno_defs]: "ERESTARTNOHAND = 514"
definition EUNEXPECTEDEOF :: errno where [errno_defs]: "EUNEXPECTEDEOF = 515"
definition EKILLPROC :: errno where [errno_defs]: "EKILLPROC = 516"

definition assert_code_is_valid :: "int \<Rightarrow> bool" where
  "assert_code_is_valid code \<longleftrightarrow>
     (code > 0 \<and> code \<le> 121) \<or> (code \<ge> ERESTARTSYS \<and> code \<le> EUNEXPECTEDEOF)"

text \<open>The conversions of a failed \<open>Status\<close> to the negative number a system call returns.\<close>

definition MakeCError :: "errno \<Rightarrow> int" where
  "MakeCError e = - e"

definition MakeCErrorRestartSys :: "errno \<Rightarrow> int" where
  "MakeCErrorRestartSys e = (if e = EINTR then - ERESTARTSYS else - e)"

type_synonym i32 = "32 word"

named_theorems word_arith \<open>moving comparisons and sums of words to natural numbers\<close>

lemma word_less_unat [word_arith]: "(a::'a::len word) < b \<longleftrightarrow> unat a < unat b"
  by (simp add: word_less_nat_alt)

lemma word_le_unat [word_arith]: "(a::'a::len word) \<le> b \<longleftrightarrow> unat a \<le> unat b"
  by (simp add: word_le_nat_alt)

lemma unat_sub_le [word_arith]:
  "(b::'a::len word) \<le> a \<Longrightarrow> unat (a - b) = unat a - unat b"
  by (simp add: unat_sub)

lemma unat_add_no_wrap [word_arith]:
  "unat (a::'a::len word) + unat b < 2 ^ LENGTH('a) \<Longrightarrow> unat (a + b) = unat a + unat b"
  by (simp add: unat_word_ariths)

lemma word_zero_least [simp]: "(0::'a::len word) \<le> x"
  by (simp add: word_le_nat_alt)

lemma unat_lt_64 [simp]: "unat (a::64 word) < 2 ^ 64"
  using unsigned_less [where 'b=64 and 'a=nat] by simp

text \<open>Running a list of operations and collecting their results.\<close>

fun run_ops :: "('op \<Rightarrow> 's \<Rightarrow> 'r \<times> 's) \<Rightarrow> 'op list \<Rightarrow> 's \<Rightarrow> 'r list \<times> 's" where
  "run_ops f [] s = ([], s)"
| "run_ops f (x # xs) s =
     (case f x s of (r, s1) \<Rightarrow> case run_ops f xs s1 of (rs, s2) \<Rightarrow> (r # rs, s2))"

end
