(* ===== verification/Ring.thy ===== *)
theory Ring
  imports Prelude
begin

text \<open>
  The power-of-two ring buffers that \<open>ByteChannel\<close> and \<open>MessageChannel\<close> share:
  the constructor's rounding (\<open>std::bit_ceil\<close>), the masked index, and the copies that split at
  the end of the array.  The lemmas relate them to a \<^emph>\<open>view\<close>: the elements met when
  walking the array cyclically from a free-running position.
\<close>

named_theorems ring_simps \<open>reading and writing the cyclic view of an array\<close>

fun bit_width :: "nat \<Rightarrow> nat" where
  "bit_width n = (if n = 0 then 0 else Suc (bit_width (n div 2)))"

declare bit_width.simps [simp del]

text \<open>\<open>std::bit_ceil (std::max (size, 1))\<close>; the argument must not exceed \<open>2 ^ 63\<close>.\<close>

definition ring_size :: "u64 \<Rightarrow> u64" where
  "ring_size sz = of_nat (2 ^ bit_width (unat (max sz 1) - 1))"

definition ring_index :: "u64 \<Rightarrow> u64 \<Rightarrow> nat" where
  "ring_index msk pos = unat (pos AND msk)"

text \<open>Copy \<open>n\<close> elements out of the array from index \<open>p\<close> on, wrapping once.\<close>

definition ring_copy_out :: "nat \<Rightarrow> nat \<Rightarrow> nat \<Rightarrow> 'a list \<Rightarrow> 'a list" where
  "ring_copy_out n_to_end p n buf =
     (if n > n_to_end then take n_to_end (drop p buf) @ take (n - n_to_end) buf
      else take n (drop p buf))"

text \<open>\<open>std::copy_n\<close> to position \<open>p\<close> of the array, and the wrapping version of it.\<close>

definition copy_to :: "nat \<Rightarrow> 'a list \<Rightarrow> 'a list \<Rightarrow> 'a list" where
  "copy_to p xs buf = take p buf @ xs @ drop (p + length xs) buf"

definition ring_copy_in :: "nat \<Rightarrow> nat \<Rightarrow> 'a list \<Rightarrow> 'a list \<Rightarrow> 'a list" where
  "ring_copy_in n_to_end p xs buf =
     (if length xs > n_to_end then copy_to 0 (drop n_to_end xs) (copy_to p (take n_to_end xs) buf)
      else copy_to p xs buf)"

definition ring_view :: "'a list \<Rightarrow> nat \<Rightarrow> nat \<Rightarrow> 'a list" where
  "ring_view buf q n = map (\<lambda>i. buf ! ((q + i) mod length buf)) [0..<n]"

subsection \<open>Sizes and masks\<close>

lemma bit_width_bounds: "n < 2 ^ bit_width n \<and> (n > 0 \<longrightarrow> 2 ^ bit_width n \<le> 2 * n)"
proof (induction n rule: bit_width.induct)
  case (1 n)
  show ?case
  proof (cases "n = 0")
    case False
    then have "bit_width n = Suc (bit_width (n div 2))" by (simp add: bit_width.simps)
    moreover have "bit_width 0 = 0" by (simp add: bit_width.simps)
    ultimately show ?thesis using 1 [OF False] False
      by (cases "n div 2 = 0") auto
  qed (simp add: bit_width.simps)
qed

lemma bit_width_le: "n < 2 ^ k \<Longrightarrow> bit_width n \<le> k"
proof (induction n arbitrary: k rule: bit_width.induct)
  case (1 n)
  show ?case
  proof (cases "n = 0")
    case False
    with 1(2) obtain j where "k = Suc j" by (cases k) auto
    with 1 False show ?thesis by (subst bit_width.simps) simp
  qed (simp add: bit_width.simps)
qed

lemma unat_pow2: "k < 64 \<Longrightarrow> unat (2 ^ k :: 64 word) = 2 ^ k"
proof -
  assume "k < 64"
  then have "(2::nat) ^ k < 2 ^ 64" by (intro power_strict_increasing) simp_all
  moreover have "unat (of_nat n :: 64 word) = n" if "n < 2 ^ 64" for n
    using that by (simp add: unat_of_nat)
  ultimately have "unat (of_nat (2 ^ k) :: 64 word) = 2 ^ k" by blast
  then show ?thesis by simp
qed

text \<open>The rounded size is a power of two that is at least the requested size.\<close>

lemma ring_size_pow2:
  assumes "sz \<le> 2 ^ 63"
  shows "\<exists>k<64. ring_size sz = 2 ^ k \<and> sz \<le> 2 ^ k"
proof -
  let ?m = "unat (max sz 1)"
  let ?k = "bit_width (?m - 1)"
  have p63: "unat (2 ^ 63 :: 64 word) = 2 ^ 63" by simp
  have m: "0 < ?m" "?m \<le> 2 ^ 63" "unat sz \<le> ?m"
    using assms p63 by (auto simp: max_def word_le_nat_alt unat_eq_zero split: if_splits)
  then have k: "?k \<le> 63" using bit_width_le [of "?m - 1" 63] by linarith
  have "?m \<le> 2 ^ ?k" using bit_width_bounds [of "?m - 1"] m(1) by linarith
  moreover have "unat (2 ^ ?k :: 64 word) = 2 ^ ?k" using k by (simp add: unat_pow2)
  ultimately have "sz \<le> 2 ^ ?k" using m(3) by (simp add: word_le_nat_alt)
  then show ?thesis using k by (intro exI [of _ ?k]) (simp add: ring_size_def)
qed

lemma ring_index_mod [ring_simps]:
  assumes "k < 64"
  shows "ring_index (2 ^ k - 1) pos = unat pos mod 2 ^ k"
proof -
  have "pos AND (2 ^ k - 1) = take_bit k pos"
    by (simp add: take_bit_eq_mask mask_eq_exp_minus_1)
  then show ?thesis by (simp only: ring_index_def unsigned_take_bit_eq) (simp only: take_bit_eq_mod)
qed

lemma pos_add_mod:
  assumes "k \<le> 64"
  shows "unat (pos + of_nat n :: u64) mod 2 ^ k = (unat pos + n) mod 2 ^ k"
proof -
  have d: "(2 ^ k :: nat) dvd 2 ^ 64" using assms by (rule le_imp_power_dvd)
  have "unat (pos + of_nat n :: u64) = (unat pos + n) mod 2 ^ 64"
    by (simp add: unat_word_ariths unat_of_nat mod_add_right_eq)
  then show ?thesis using mod_mod_cancel [OF d] by simp
qed

subsection \<open>Views\<close>

lemma length_ring_view [simp]: "length (ring_view buf q n) = n"
  by (simp add: ring_view_def)

lemma nth_ring_view [simp]: "i < n \<Longrightarrow> ring_view buf q n ! i = buf ! ((q + i) mod length buf)"
  by (simp add: ring_view_def)

lemma ring_view_mod: "q mod length buf = q' mod length buf \<Longrightarrow> ring_view buf q n = ring_view buf q' n"
  unfolding ring_view_def
  by (intro map_cong refl arg_cong [where f = "nth buf"]) (metis mod_add_left_eq)

lemma take_ring_view [ring_simps]: "n \<le> m \<Longrightarrow> take n (ring_view buf q m) = ring_view buf q n"
  by (simp add: ring_view_def take_map take_upt)

lemma drop_ring_view [ring_simps]: "drop n (ring_view buf q m) = ring_view buf (q + n) (m - n)"
  by (rule nth_equalityI) (auto simp: add.assoc)

lemma ring_view_start [ring_simps]: "n \<le> length buf \<Longrightarrow> ring_view buf 0 n = take n buf"
  by (rule nth_equalityI) auto

lemma ring_copy_out_view:
  assumes "0 < length buf" "n \<le> length buf" "p = q mod length buf"
  shows "ring_copy_out (length buf - p) p n buf = ring_view buf q n"
proof (rule nth_equalityI)
  let ?S = "length buf"
  have p: "p < ?S" using assms by simp
  show "length (ring_copy_out (?S - p) p n buf) = length (ring_view buf q n)"
    using p assms(2) by (auto simp: ring_copy_out_def)
  fix i assume "i < length (ring_copy_out (?S - p) p n buf)"
  then have i: "i < n" using p assms(2) by (auto simp: ring_copy_out_def split: if_splits)
  have m: "(q + i) mod ?S = (p + i) mod ?S" using assms(3) by (simp add: mod_add_left_eq)
  show "ring_copy_out (?S - p) p n buf ! i = ring_view buf q n ! i"
  proof (cases "p + i < ?S")
    case True
    then show ?thesis using i p m by (auto simp: ring_copy_out_def nth_append)
  next
    case False
    then have "(q + i) mod ?S = p + i - ?S" using p i assms(2) m by (simp add: mod_if)
    moreover have "n > ?S - p" "?S - p \<le> i" "i - (?S - p) < n - (?S - p)" "i - (?S - p) = p + i - ?S"
      using False i p by linarith+
    ultimately show ?thesis using i p by (simp add: ring_copy_out_def nth_append)
  qed
qed

lemma length_copy_to [simp]: "p + length xs \<le> length buf \<Longrightarrow> length (copy_to p xs buf) = length buf"
  by (simp add: copy_to_def)

lemma nth_copy_to:
  "p + length xs \<le> length buf \<Longrightarrow> i < length buf \<Longrightarrow>
    copy_to p xs buf ! i = (if p \<le> i \<and> i < p + length xs then xs ! (i - p) else buf ! i)"
  by (auto simp: copy_to_def nth_append min_def)

lemma length_ring_copy_in [simp]:
  assumes "p < length buf" "length xs \<le> length buf"
  shows "length (ring_copy_in (length buf - p) p xs buf) = length buf"
  using assms by (auto simp: ring_copy_in_def)

text \<open>A wrapping write puts the elements at the next cyclic positions and leaves the others.\<close>

lemma nth_ring_copy_in:
  assumes "p < length buf" "length xs \<le> length buf" "j < length buf"
  shows "ring_copy_in (length buf - p) p xs buf ! ((p + j) mod length buf)
    = (if j < length xs then xs ! j else buf ! ((p + j) mod length buf))"
proof (cases "p + j < length buf")
  case True
  then show ?thesis using assms by (auto simp: ring_copy_in_def nth_copy_to)
next
  case False
  then have m: "(p + j) mod length buf = p + j - length buf" using assms by (simp add: mod_if)
  show ?thesis using False assms unfolding m
    by (auto simp: ring_copy_in_def nth_copy_to intro!: arg_cong [where f = "nth xs"])
qed

lemma ring_copy_in_view:
  assumes "0 < length buf" "m + length xs \<le> length buf" "p = (q + m) mod length buf"
  shows "ring_view (ring_copy_in (length buf - p) p xs buf) q (m + length xs) = ring_view buf q m @ xs"
proof (rule nth_equalityI)
  let ?S = "length buf"
  have p: "p < ?S" and l: "length xs \<le> ?S" using assms by auto
  fix i assume "i < length (ring_view (ring_copy_in (?S - p) p xs buf) q (m + length xs))"
  then have i: "i < m + length xs" by simp
  define j where "j = (if i < m then ?S - m + i else i - m)"
  have "(p + j) mod ?S = (q + m + j) mod ?S" using assms(3) by (simp add: mod_add_left_eq)
  moreover have "q + m + j = (if i < m then q + i + ?S else q + i)"
    using assms(2) i by (auto simp: j_def)
  ultimately have e: "(p + j) mod ?S = (q + i) mod ?S" by (simp split: if_splits)
  have j: "j < ?S" "j < length xs \<longleftrightarrow> m \<le> i" using assms(2) i by (auto simp: j_def)
  show "ring_view (ring_copy_in (?S - p) p xs buf) q (m + length xs) ! i = (ring_view buf q m @ xs) ! i"
    using nth_ring_copy_in [OF p l j(1)] i j(2) unfolding e
    by (auto simp: p l nth_append j_def)
qed simp

subsection \<open>Positions\<close>

text \<open>The representation invariant of a ring with free-running positions \<open>i\<close> (in) and \<open>u\<close>
  (out), and the elements it holds.\<close>

definition ring_ok :: "u64 \<Rightarrow> u64 \<Rightarrow> u64 \<Rightarrow> u64 \<Rightarrow> 'a list \<Rightarrow> bool" where
  "ring_ok i u sz msk buf \<longleftrightarrow>
     (\<exists>k<64. sz = 2 ^ k) \<and> msk = sz - 1 \<and> length buf = unat sz \<and> i - u \<le> sz"

definition ring_list :: "u64 \<Rightarrow> u64 \<Rightarrow> 'a list \<Rightarrow> 'a list" where
  "ring_list i u buf = ring_view buf (unat u) (unat (i - u))"

lemma ring_okE:
  assumes "ring_ok i u sz msk buf"
  obtains k where "k < 64" "sz = 2 ^ k" "msk = 2 ^ k - 1" "length buf = 2 ^ k"
    "unat (i - u) \<le> 2 ^ k" "0 < length buf"
  using assms by (auto simp: ring_ok_def unat_pow2 word_le_nat_alt)

lemma length_ring_list [simp]: "length (ring_list i u buf) = unat (i - u)"
  by (simp add: ring_list_def)

lemma ring_index_lt: "k < 64 \<Longrightarrow> ring_index (2 ^ k - 1) pos < 2 ^ k"
  by (simp add: ring_simps)

lemma n_to_end_eq:
  assumes "k < 64"
  shows "unat (2 ^ k - (pos AND (2 ^ k - 1)) :: u64) = 2 ^ k - ring_index (2 ^ k - 1) pos"
proof -
  have "unat (pos AND (2 ^ k - 1)) \<le> unat (2 ^ k :: u64)"
    using ring_index_lt [OF assms, of pos] by (simp add: ring_index_def unat_pow2 assms)
  then show ?thesis by (simp add: unat_sub word_le_nat_alt ring_index_def unat_pow2 assms)
qed

lemma ring_consume:
  assumes "ring_ok i u sz msk buf" "n \<le> unat (i - u)"
  shows "ring_ok i (u + of_nat n) sz msk buf \<and> ring_list i (u + of_nat n) buf = drop n (ring_list i u buf)"
proof -
  let ?d = "i - u"
  obtain k where k: "k < 64" "sz = 2 ^ k" "length buf = 2 ^ k" "unat ?d \<le> 2 ^ k"
    using assms(1) by (elim ring_okE)
  have n: "n < 2 ^ 64" using assms(2) unat_lt_64 [of ?d] by (simp add: le_less_trans)
  then have v: "unat (of_nat n :: u64) = n" by (simp add: unat_of_nat)
  have "i - (u + of_nat n) = ?d - of_nat n" by simp
  moreover have "unat (?d - of_nat n) = unat ?d - n"
    using assms(2) v by (simp add: unat_sub word_le_nat_alt)
  ultimately have d: "unat (i - (u + of_nat n)) = unat ?d - n" by (simp only:)
  have "ring_view buf (unat (u + of_nat n)) (unat ?d - n) = ring_view buf (unat u + n) (unat ?d - n)"
    by (rule ring_view_mod) (use k pos_add_mod [of k] in simp)
  then show ?thesis
    using assms(1) d k(4) by (auto simp: ring_ok_def ring_list_def drop_ring_view word_le_nat_alt)
qed

lemma ring_produce:
  assumes "ring_ok i u sz msk buf" "length buf' = length buf" "unat (i - u) + length xs \<le> unat sz"
    and "ring_view buf' (unat u) (unat (i - u) + length xs) = ring_list i u buf @ xs"
  shows "ring_ok (i + of_nat (length xs)) u sz msk buf' \<and>
    ring_list (i + of_nat (length xs)) u buf' = ring_list i u buf @ xs"
proof -
  let ?d = "i - u"
  obtain k where k: "k < 64" "sz = 2 ^ k" using assms(1) by (elim ring_okE)
  then have cap: "unat sz = 2 ^ k" "(2::nat) ^ k < 2 ^ 64"
    using power_strict_increasing [of k 64 "2::nat"] by (simp_all add: unat_pow2)
  then have s: "unat ?d + length xs < 2 ^ 64" "unat ?d + length xs \<le> 2 ^ k"
    using assms(3) by simp_all
  then have v: "unat (of_nat (length xs) :: u64) = length xs" by (simp add: unat_of_nat)
  have "i + of_nat (length xs) - u = ?d + of_nat (length xs)" by simp
  moreover have "unat (?d + of_nat (length xs)) = unat ?d + length xs"
    using s(1) v by (simp add: unat_add_no_wrap)
  ultimately have "unat (i + of_nat (length xs) - u) = unat ?d + length xs" by (simp only:)
  then show ?thesis
    using assms(1,2,4) s(2) k cap(1) by (auto simp: ring_ok_def ring_list_def word_le_nat_alt)
qed

text \<open>One element: the slot the out position selects is the head of the list, and storing into the slot
  the in position selects appends.\<close>

lemma ring_head:
  assumes "ring_ok i u sz msk buf" "i \<noteq> u"
  shows "ring_index msk u < length buf \<and> ring_list i u buf \<noteq> [] \<and>
    hd (ring_list i u buf) = buf ! ring_index msk u"
proof -
  obtain k where k: "k < 64" "msk = 2 ^ k - 1" "length buf = 2 ^ k" using assms(1) by (elim ring_okE)
  have d: "0 < unat (i - u)" using assms(2) by (simp add: unat_gt_0)
  then have ne: "ring_list i u buf \<noteq> []" using length_ring_list [of i u buf] by (metis length_0_conv less_numeral_extra(3))
  have "ring_list i u buf ! 0 = buf ! (unat u mod length buf)" using d by (simp add: ring_list_def)
  then show ?thesis using ne k ring_index_lt [OF k(1), of u] by (simp add: hd_conv_nth ring_index_mod)
qed

lemma ring_put:
  fixes x :: "'a"
  assumes "ring_ok i u sz msk buf" "\<not> i - u \<ge> sz"
  defines "buf' \<equiv> buf[ring_index msk i := x]"
  shows "ring_ok (i + 1) u sz msk buf' \<and> ring_list (i + 1) u buf' = ring_list i u buf @ [x]"
proof -
  obtain k where k: "k < 64" "sz = 2 ^ k" "msk = 2 ^ k - 1" "length buf = 2 ^ k" "0 < length buf"
    using assms(1) by (elim ring_okE)
  let ?m = "unat (i - u)" and ?p = "ring_index msk i"
  have m: "?m + length [x] \<le> unat sz" using assms(2) by (simp add: word_le_nat_alt)
  have "unat (u + of_nat ?m) mod 2 ^ k = (unat u + ?m) mod 2 ^ k" using k(1) by (intro pos_add_mod) simp
  then have p: "?p = (unat u + ?m) mod length buf" using k by (simp add: ring_index_mod)
  have pl: "?p < length buf" using ring_index_lt [OF k(1)] k by simp
  have b: "ring_copy_in (length buf - ?p) ?p [x] buf = buf'"
    using pl by (simp add: ring_copy_in_def copy_to_def buf'_def upd_conv_take_nth_drop)
  have "ring_view buf' (unat u) (?m + length [x]) = ring_list i u buf @ [x]"
    using ring_copy_in_view [OF k(5) _ p, of "[x]"] m k unfolding b ring_list_def by (simp add: unat_pow2)
  then show ?thesis
    using ring_produce [OF assms(1) _ m, of buf'] by (simp add: buf'_def)
qed

lemma ring_set_head:
  assumes "ring_ok i u sz msk buf" "i \<noteq> u"
  defines "p \<equiv> ring_index msk u"
  shows "ring_ok i u sz msk (buf[p := x]) \<and> ring_list i u (buf[p := x]) = x # tl (ring_list i u buf)"
proof
  show "ring_ok i u sz msk (buf[p := x])" using assms(1) by (simp add: ring_ok_def)
  obtain k where k: "k < 64" "msk = 2 ^ k - 1" "length buf = 2 ^ k" "unat (i - u) \<le> 2 ^ k"
    using assms(1) by (elim ring_okE)
  have p: "p = unat u mod length buf" "p < length buf"
    using k ring_index_lt [OF k(1), of u] by (simp_all add: p_def ring_index_mod)
  have d: "0 < unat (i - u)" using assms(2) by (simp add: unat_gt_0)
  show "ring_list i u (buf[p := x]) = x # tl (ring_list i u buf)"
  proof (rule nth_equalityI)
    show "length (ring_list i u (buf[p := x])) = length (x # tl (ring_list i u buf))" using d by simp
  next
    fix j assume "j < length (ring_list i u (buf[p := x]))"
    then have j: "j < unat (i - u)" by simp
    show "ring_list i u (buf[p := x]) ! j = (x # tl (ring_list i u buf)) ! j"
    proof (cases j)
      case 0
      then show ?thesis using d p by (simp add: ring_list_def)
    next
      case (Suc j')
      have "\<not> length buf dvd j" using j k(3,4) Suc by (auto dest: dvd_imp_le)
      then have "(unat u + j) mod length buf \<noteq> p"
        using mod_eq_dvd_iff_nat [of "unat u" "unat u + j" "length buf"] p(1) by auto
      then show ?thesis using j Suc by (simp add: ring_list_def nth_tl)
    qed
  qed
qed

end
