(* ===== verification/IoVec.thy ===== *)
theory IoVec
  imports Prelude
begin

text \<open>
  Scatter/gather helpers of \<^verbatim>\<open>src/junction/base/io.h\<close> and
  \<^verbatim>\<open>src/junction/base/io.cc\<close>.

  A source vector is the list of the byte strings its entries point to.  A destination vector is
  the list of the current contents of its entries; copying into it overwrites a prefix of their
  concatenation.  The reader and the writer that \<open>ReadFull\<close>, \<open>WriteFull\<close> and
  \<open>DoFull\<close> call are arguments: functions from a state and a request to a result and a state.
\<close>

type_synonym byte = "8 word"

definition SumIOV :: "byte list list \<Rightarrow> u64" where
  "SumIOV iov = fold (\<lambda>e len. len + of_nat (length e)) iov 0"

text \<open>\<open>PullIOV\<close> drops \<open>n\<close> bytes from the front of a vector: whole entries, then part
  of one.\<close>

fun PullIOV :: "byte list list \<Rightarrow> nat \<Rightarrow> byte list list" where
  "PullIOV [] n = []"
| "PullIOV (e # iov) n = (if n < length e then drop n e # iov else PullIOV iov (n - length e))"

text \<open>One call of the copy loop: \<open>src\<close> is what is left of the current source entry,
  \<open>dst\<close> what is left of the current destination entry, \<open>dw\<close> the bytes already
  written to it, \<open>out\<close> the finished destination entries.\<close>

function copyv_loop :: "byte list \<Rightarrow> byte list list \<Rightarrow> byte list \<Rightarrow> byte list \<Rightarrow> byte list list
    \<Rightarrow> byte list list \<Rightarrow> nat \<Rightarrow> nat \<times> byte list list" where
  "copyv_loop src srcv dw dst dstv out read =
     (if src = [] \<and> srcv = [] then (read, out @ [dw @ dst] @ dstv)
      else
        (let (src1, srcv1) = (if src = [] then (hd srcv, tl srcv) else (src, srcv)) in
         if dst = [] \<and> dstv = [] then (read, out @ [dw])
         else
           (let (out1, dw1, dst1, dstv1) =
                  (if dst = [] then (out @ [dw], [], hd dstv, tl dstv) else (out, dw, dst, dstv));
                to_copy = min (length src1) (length dst1)
            in copyv_loop (drop to_copy src1) srcv1 (dw1 @ take to_copy src1) (drop to_copy dst1) dstv1
                 out1 (read + to_copy))))"
  by pat_completeness auto
termination
proof (relation "measure (\<lambda>(src, srcv, dw, dst, dstv, out, read).
    length src + length (concat srcv) + length srcv + length dst + length (concat dstv) + length dstv)",
    goal_cases)
  case 1
  then show ?case by simp
next
  case (2 src srcv dw dst dstv out read)
  then show ?case
    by (cases src; cases srcv; cases dst; cases dstv) (auto simp: min_def)
qed

text \<open>The loop starts with no current entries, so the first finished entry is an artefact that is
  dropped.\<close>

definition GenericCopyv :: "byte list list \<Rightarrow> byte list list \<Rightarrow> nat \<times> byte list list" where
  "GenericCopyv srcv dstv = (case copyv_loop [] srcv [] [] dstv [] 0 of (n, out) \<Rightarrow> (n, tl out))"

definition GenericWritev :: "byte list list \<Rightarrow> byte list \<Rightarrow> nat \<times> byte list" where
  "GenericWritev srcv dst = (case GenericCopyv srcv [dst] of (n, out) \<Rightarrow> (n, concat out))"

definition GenericReadv :: "byte list \<Rightarrow> byte list list \<Rightarrow> nat \<times> byte list list" where
  "GenericReadv src dstv = GenericCopyv [src] dstv"

text \<open>\<open>ReadFull\<close> and \<open>WriteFull\<close> loop until the whole buffer is transferred; a
  reader that returns zero bytes ends the loop, a writer that does so does not.  \<open>None\<close> means the
  fuel ran out.\<close>

type_synonym ('s, 'r) io = "'s \<Rightarrow> 'r Status \<times> 's"

fun ReadFull :: "nat \<Rightarrow> (nat \<Rightarrow> ('s, byte list) io) \<Rightarrow> nat \<Rightarrow> byte list \<Rightarrow> 's
    \<Rightarrow> (byte list Status \<times> 's) option" where
  "ReadFull 0 rd len acc s = None"
| "ReadFull (Suc fuel) rd len acc s =
     (if length acc < len then
        (case rd (len - length acc) s of
           (Inl e, s') \<Rightarrow> Some (Inl e, s')
         | (Inr bs, s') \<Rightarrow> if bs = [] then Some (Inl EUNEXPECTEDEOF, s')
             else ReadFull fuel rd len (acc @ bs) s')
      else Some (Inr acc, s))"

fun WriteFull :: "nat \<Rightarrow> (byte list \<Rightarrow> ('s, nat) io) \<Rightarrow> byte list \<Rightarrow> 's
    \<Rightarrow> (unit Status \<times> 's) option" where
  "WriteFull 0 wr buf s = None"
| "WriteFull (Suc fuel) wr buf s =
     (if buf = [] then Some (Inr (), s)
      else (case wr buf s of
              (Inl e, s') \<Rightarrow> Some (Inl e, s')
            | (Inr n, s') \<Rightarrow> WriteFull fuel wr (drop n buf) s'))"

text \<open>The loop of \<open>DoFull\<close> for a vectored writer, after a first partial transfer of \<open>n\<close>
  bytes.\<close>

fun DoFull_loop :: "nat \<Rightarrow> (byte list list \<Rightarrow> ('s, nat) io) \<Rightarrow> byte list list \<Rightarrow> nat \<Rightarrow> 's
    \<Rightarrow> (unit Status \<times> 's) option" where
  "DoFull_loop 0 wr iov n s = None"
| "DoFull_loop (Suc fuel) wr iov n s =
     (let rest = PullIOV iov n in
      if rest = [] then Some (Inr (), s)
      else (case wr rest s of
              (Inl e, s') \<Rightarrow> Some (Inl e, s')
            | (Inr n', s') \<Rightarrow> DoFull_loop fuel wr rest n' s'))"

definition WritevFull :: "nat \<Rightarrow> (byte list list \<Rightarrow> ('s, nat) io) \<Rightarrow> byte list list \<Rightarrow> 's
    \<Rightarrow> (unit Status \<times> 's) option" where
  "WritevFull fuel wr iov s =
     (case wr iov s of
        (Inl e, s') \<Rightarrow> Some (Inl e, s')
      | (Inr n, s') \<Rightarrow> if of_nat n = SumIOV iov then Some (Inr (), s') else DoFull_loop fuel wr iov n s')"

subsection \<open>Copying\<close>

declare copyv_loop.simps [simp del]

lemma take_min_append:
  "take n xs @ take (m - n) (drop n xs @ ys) = take m (xs @ ys)" if "n \<le> length xs" "n \<le> m"
proof -
  have "take (n + (m - n)) (xs @ ys) = take n (xs @ ys) @ take (m - n) (drop n (xs @ ys))"
    by (rule take_add)
  then show ?thesis using that by simp
qed

lemma copyv_loop_correct:
  assumes "copyv_loop src srcv dw dst dstv out read = (n, out')"
  defines "S \<equiv> src @ concat srcv" and "D \<equiv> dst @ concat dstv"
  shows "n = read + min (length S) (length D) \<and>
    concat out' = concat out @ dw @ take (length D) S @ drop (length S) D \<and>
    map length out' = map length out @ (length dw + length dst) # map length dstv"
  using assms(1) unfolding S_def D_def
proof (induction src srcv dw dst dstv out read arbitrary: n out' rule: copyv_loop.induct)
  case (1 src srcv dw dst dstv out read)
  consider (nosrc) "src = []" "srcv = []" | (nodst) "\<not> (src = [] \<and> srcv = [])" "dst = []" "dstv = []"
    | (go) "\<not> (src = [] \<and> srcv = [])" "\<not> (dst = [] \<and> dstv = [])"
    by blast
  then show ?case
  proof cases
    case nosrc
    then show ?thesis using 1 by (auto simp: copyv_loop.simps)
  next
    case nodst
    then show ?thesis using 1 by (auto simp: copyv_loop.simps Let_def split: prod.splits if_splits)
  next
    case go
    define src1 srcv1 where "src1 = (if src = [] then hd srcv else src)"
      and "srcv1 = (if src = [] then tl srcv else srcv)"
    define out1 dw1 dst1 dstv1 where "out1 = (if dst = [] then out @ [dw] else out)"
      and "dw1 = (if dst = [] then [] else dw)" and "dst1 = (if dst = [] then hd dstv else dst)"
      and "dstv1 = (if dst = [] then tl dstv else dstv)"
    define c where "c = min (length src1) (length dst1)"
    have S: "src @ concat srcv = src1 @ concat srcv1"
      using go(1) by (cases srcv) (auto simp: src1_def srcv1_def)
    have D: "dst @ concat dstv = dst1 @ concat dstv1"
      using go(2) by (cases dstv) (auto simp: dst1_def dstv1_def)
    have W: "concat out1 @ dw1 = concat out @ dw"
      by (simp add: out1_def dw1_def)
    have L: "map length out1 @ (length dw1 + length dst1) # map length dstv1 =
        map length out @ (length dw + length dst) # map length dstv"
      using go(2) by (cases dstv) (auto simp: out1_def dw1_def dst1_def dstv1_def)
    have rec: "copyv_loop (drop c src1) srcv1 (dw1 @ take c src1) (drop c dst1) dstv1 out1 (read + c) = (n, out')"
      using "1.prems" go
      by (subst (asm) copyv_loop.simps)
        (auto simp: Let_def src1_def srcv1_def out1_def dw1_def dst1_def dstv1_def c_def)
    have IH: "n = read + c + min (length (drop c src1 @ concat srcv1)) (length (drop c dst1 @ concat dstv1)) \<and>
      concat out' = concat out1 @ (dw1 @ take c src1) @
        take (length (drop c dst1 @ concat dstv1)) (drop c src1 @ concat srcv1) @
        drop (length (drop c src1 @ concat srcv1)) (drop c dst1 @ concat dstv1) \<and>
      map length out' = map length out1 @ (length (dw1 @ take c src1) + length (drop c dst1)) # map length dstv1"
      using go
      by (intro "1.IH" [OF _ _ _ _ _ _ _ _ _ rec])
        (auto simp: src1_def srcv1_def out1_def dw1_def dst1_def dstv1_def c_def Let_def)
    have c: "c \<le> length src1" "c \<le> length dst1" by (simp_all add: c_def)
    have "take c src1 @ take (length (drop c dst1 @ concat dstv1)) (drop c src1 @ concat srcv1) =
        take (length (dst1 @ concat dstv1)) (src1 @ concat srcv1)"
      using take_min_append [of c src1 "length (dst1 @ concat dstv1)" "concat srcv1"] c by simp
    moreover have "drop (length (drop c src1 @ concat srcv1)) (drop c dst1 @ concat dstv1) =
        drop (length (src1 @ concat srcv1)) (dst1 @ concat dstv1)"
    proof -
      have "drop c dst1 @ concat dstv1 = drop c (dst1 @ concat dstv1)" using c by simp
      then show ?thesis using c by (simp only: drop_drop) (simp add: add.commute)
    qed
    ultimately show ?thesis
      unfolding S D using IH W L c by (auto simp: min_def)
  qed
qed

lemma GenericCopyv_correct:
  assumes "GenericCopyv srcv dstv = (n, dstv')"
  shows "n = min (length (concat srcv)) (length (concat dstv))"
    "concat dstv' = take n (concat srcv) @ drop n (concat dstv)"
    "map length dstv' = map length dstv"
proof -
  obtain out where l: "copyv_loop [] srcv [] [] dstv [] 0 = (n, out)" "dstv' = tl out"
    using assms by (auto simp: GenericCopyv_def split: prod.splits)
  note spec = copyv_loop_correct [OF l(1)]
  have n: "n = min (length (concat srcv)) (length (concat dstv))" using spec by simp
  obtain o1 out2 where out: "out = o1 # out2" "o1 = []" "map length out2 = map length dstv"
    using spec by (cases out) auto
  have "concat dstv' = take (length (concat dstv)) (concat srcv) @ drop (length (concat srcv)) (concat dstv)"
    using spec out l(2) by simp
  then show "concat dstv' = take n (concat srcv) @ drop n (concat dstv)"
    unfolding n by (auto simp: min_def)
  show "n = min (length (concat srcv)) (length (concat dstv))" by (rule n)
  show "map length dstv' = map length dstv" using out l(2) by simp
qed

lemma PullIOV_concat: "concat (PullIOV iov n) = drop n (concat iov)"
  by (induction iov n rule: PullIOV.induct) auto

lemma PullIOV_nonempty: "PullIOV iov n \<noteq> [] \<Longrightarrow> concat (PullIOV iov n) \<noteq> []"
  by (induction iov n rule: PullIOV.induct) (auto split: if_splits)

lemma SumIOV_length: "SumIOV iov = of_nat (length (concat iov))"
proof -
  have "fold (\<lambda>e len. len + of_nat (length e)) iov a = a + (of_nat (length (concat iov)) :: u64)" for a
    by (induction iov arbitrary: a) (simp_all add: add.assoc)
  then show ?thesis by (simp add: SumIOV_def)
qed

text \<open>What \<open>WritevFull\<close> needs of a writer, whose effect is read off as a log of bytes: a successful
  call takes a non-empty prefix of the request.\<close>

locale vectored_writer =
  fixes wr :: "byte list list \<Rightarrow> ('s, nat) io" and wlog :: "'s \<Rightarrow> byte list" and winv :: "'s \<Rightarrow> bool"
  assumes wr_prefix: "winv s \<Longrightarrow> wr iov s = (Inr n, s') \<Longrightarrow>
      n \<le> length (concat iov) \<and> wlog s' = wlog s @ take n (concat iov)"
    and wr_progress: "winv s \<Longrightarrow> wr iov s = (Inr n, s') \<Longrightarrow> concat iov \<noteq> [] \<Longrightarrow> 0 < n"
    and wr_inv: "winv s \<Longrightarrow> wr iov s = (r, s') \<Longrightarrow> winv s'"
begin

lemma DoFull_loop_correct:
  assumes "winv s" "length (concat iov) - n < fuel" "n \<le> length (concat iov)"
  shows "\<exists>r s'. DoFull_loop fuel wr iov n s = Some (r, s') \<and>
    (r = Inr () \<longrightarrow> wlog s' = wlog s @ drop n (concat iov))"
  using assms
proof (induction fuel arbitrary: iov n s)
  case (Suc fuel)
  let ?rest = "PullIOV iov n"
  show ?case
  proof (cases "?rest = []")
    case True
    then have "drop n (concat iov) = []" using PullIOV_concat [of iov n] by simp
    then show ?thesis using True by simp
  next
    case False
    then have ne: "concat ?rest \<noteq> []" by (rule PullIOV_nonempty)
    obtain r s' where w: "wr ?rest s = (r, s')" by fastforce
    show ?thesis
    proof (cases r)
      case (Inl e)
      then show ?thesis using False w by simp
    next
      case (Inr n')
      have n': "n' \<le> length (concat ?rest)" "wlog s' = wlog s @ take n' (concat ?rest)" "0 < n'"
        using wr_prefix [OF Suc.prems(1), of ?rest n' s'] wr_progress [OF Suc.prems(1), of ?rest n' s'] w Inr ne
        by auto
      have inv: "winv s'" using wr_inv [OF Suc.prems(1) w] .
      have "length (concat ?rest) - n' < fuel"
        using n'(1,3) Suc.prems by (simp add: PullIOV_concat)
      from Suc.IH [OF inv this n'(1)] obtain r2 s2 where
        rec: "DoFull_loop fuel wr ?rest n' s' = Some (r2, s2)"
          "r2 = Inr () \<longrightarrow> wlog s2 = wlog s' @ drop n' (concat ?rest)"
        by blast
      have "r2 = Inr () \<longrightarrow> wlog s2 = wlog s @ drop n (concat iov)"
        using rec(2) n'(2) append_take_drop_id [of n' "concat ?rest"] PullIOV_concat [of iov n]
        by (metis append.assoc)
      then show ?thesis using False w Inr rec(1) by simp
    qed
  qed
qed simp

lemma WritevFull_correct:
  assumes "winv s" "length (concat iov) < fuel" "length (concat iov) < 2 ^ 64"
  shows "\<exists>r s'. WritevFull fuel wr iov s = Some (r, s') \<and>
    (r = Inr () \<longrightarrow> wlog s' = wlog s @ concat iov)"
proof -
  obtain r s' where w: "wr iov s = (r, s')" by fastforce
  show ?thesis
  proof (cases r)
    case (Inl e)
    then show ?thesis using w by (simp add: WritevFull_def)
  next
    case (Inr n)
    have n: "n \<le> length (concat iov)" "wlog s' = wlog s @ take n (concat iov)" "winv s'"
      using wr_prefix [OF assms(1), of iov n s'] wr_inv [OF assms(1) w] w Inr by auto
    have eq: "of_nat n = SumIOV iov \<longleftrightarrow> n = length (concat iov)"
    proof -
      have "(of_nat n :: u64) = of_nat (length (concat iov)) \<longleftrightarrow> n = length (concat iov)"
        using n(1) assms(3) by (simp add: word_of_nat_eq_iff take_bit_eq_mod)
      then show ?thesis by (simp add: SumIOV_length)
    qed
    obtain r2 s2 where loop: "DoFull_loop fuel wr iov n s' = Some (r2, s2)"
        "r2 = Inr () \<longrightarrow> wlog s2 = wlog s' @ drop n (concat iov)"
      using DoFull_loop_correct [OF n(3) _ n(1), of fuel] assms(2) by force
    show ?thesis
    proof (cases "n = length (concat iov)")
      case True
      then show ?thesis using w Inr n(2) eq by (simp add: WritevFull_def)
    next
      case False
      then show ?thesis
        using w Inr n(2) eq loop by (auto simp: WritevFull_def)
    qed
  qed
qed

end

section \<open>Little-endian numbers\<close>

fun le_nat :: "byte list \<Rightarrow> nat" where
  "le_nat [] = 0"
| "le_nat (b # bs) = unat b + 256 * le_nat bs"

definition le_at :: "byte list \<Rightarrow> nat \<Rightarrow> nat \<Rightarrow> nat" where
  "le_at bs off len = le_nat (take len (drop off bs))"

definition le_enc :: "nat \<Rightarrow> nat \<Rightarrow> byte list" where
  "le_enc n x = map (\<lambda>i. of_nat (x div 256 ^ i)) [0 ..< n]"

lemma length_le_enc [simp]: "length (le_enc n x) = n"
  by (simp add: le_enc_def)

lemma le_nat_enc [simp]: "le_nat (le_enc n x) = x mod 256 ^ n"
proof (induction n arbitrary: x)
  case (Suc n)
  have "le_enc (Suc n) x = of_nat x # le_enc n (x div 256)"
    by (simp add: le_enc_def upt_conv_Cons map_Suc_upt [symmetric] div_mult2_eq del: upt_Suc)
  then have "le_nat (le_enc (Suc n) x) = x mod 256 + 256 * (x div 256 mod 256 ^ n)"
    using Suc.IH [of "x div 256"] by (simp add: unat_of_nat take_bit_eq_mod)
  also have "\<dots> = x mod 256 ^ Suc n" by (simp add: mod_mult2_eq)
  finally show ?case .
qed (simp add: le_enc_def)

lemma unat_mod_word [simp]:
  "unat (x :: 64 word) mod 18446744073709551616 = unat x" "unat (y :: 32 word) mod 4294967296 = unat y"
  "unat (z :: 16 word) mod 65536 = unat z"
proof -
  have "unat x < 2 ^ LENGTH(64)" "unat y < 2 ^ LENGTH(32)" "unat z < 2 ^ LENGTH(16)" by (rule unsigned_less)+
  then show "unat x mod 18446744073709551616 = unat x" "unat y mod 4294967296 = unat y" "unat z mod 65536 = unat z"
    by simp_all
qed

text \<open>\<open>GenericCopyv\<close> copies as much as fits: the count is the smaller of the two totals, the
  destination entries keep their lengths, and their concatenation is the source's prefix of that
  count followed by what was there before.\<close>

theorem GenericCopyv_copies:
  "\<exists>n dstv'. GenericCopyv srcv dstv = (n, dstv') \<and>
     n = min (length (concat srcv)) (length (concat dstv)) \<and>
     concat dstv' = take n (concat srcv) @ drop n (concat dstv) \<and>
     map length dstv' = map length dstv"
  using GenericCopyv_correct [of srcv dstv] by (metis surj_pair)

end
