(* ===== verification/ByteChannel.thy ===== *)
theory ByteChannel
  imports Ring IoVec
begin

text \<open>
  The single-producer single-consumer byte ring of
  \<^verbatim>\<open>src/junction/base/byte_channel.h\<close>.  The positions \<open>in_\<close> and
  \<open>out_\<close> are free-running 64-bit counters whose difference is the fill level; an operation
  reads both once, copies, and stores one of them, so it is modelled as one atomic function.
  \<open>bc_list\<close> is the byte string the channel holds; the lemmas show that every operation is
  the corresponding operation on that string.
\<close>

record ByteChannel =
  bc_in :: u64
  bc_out :: u64
  bc_size :: u64
  bc_mask :: u64
  bc_buf :: "byte list"

definition ByteChannel_new :: "u64 \<Rightarrow> ByteChannel" where
  "ByteChannel_new sz =
     \<lparr>bc_in = 0, bc_out = 0, bc_size = ring_size sz, bc_mask = ring_size sz - 1,
      bc_buf = replicate (unat (ring_size sz)) 0\<rparr>"

definition bc_is_valid :: "ByteChannel \<Rightarrow> bool" where
  "bc_is_valid c \<longleftrightarrow> bc_buf c \<noteq> []"

definition bc_is_empty :: "ByteChannel \<Rightarrow> bool" where
  "bc_is_empty c \<longleftrightarrow> bc_in c = bc_out c"

definition bc_is_full :: "ByteChannel \<Rightarrow> bool" where
  "bc_is_full c \<longleftrightarrow> bc_in c - bc_out c \<ge> bc_size c"

definition bc_get_readable_bytes :: "ByteChannel \<Rightarrow> u64" where
  "bc_get_readable_bytes c = bc_in c - bc_out c"

text \<open>\<open>Read\<close> returns the bytes it stores at the front of the caller's buffer of \<open>len\<close> bytes;
  their number is what the code returns.\<close>

definition bc_Read :: "nat \<Rightarrow> bool \<Rightarrow> ByteChannel \<Rightarrow> byte list Status \<times> ByteChannel" where
  "bc_Read len peek c =
     (let n = min (unat (bc_in c - bc_out c)) len in
      if n = 0 then (Inl EAGAIN, c)
      else
        (let p = ring_index (bc_mask c) (bc_out c);
             n_to_end = unat (bc_size c - (bc_out c AND bc_mask c))
         in (Inr (ring_copy_out n_to_end p n (bc_buf c)),
             if peek then c else c\<lparr>bc_out := bc_out c + of_nat n\<rparr>)))"

definition bc_Write :: "byte list \<Rightarrow> ByteChannel \<Rightarrow> nat Status \<times> ByteChannel" where
  "bc_Write buf c =
     (let n = min (unat (bc_size c - (bc_in c - bc_out c))) (length buf) in
      if n = 0 then (Inl EAGAIN, c)
      else
        (let p = ring_index (bc_mask c) (bc_in c);
             n_to_end = unat (bc_size c - (bc_in c AND bc_mask c))
         in (Inr n, c\<lparr>bc_buf := ring_copy_in n_to_end p (take n buf) (bc_buf c),
                      bc_in := bc_in c + of_nat n\<rparr>)))"

text \<open>The vectored forms hand one or two segments of the array to \<open>GenericCopyv\<close>.  \<open>Readv\<close>
  returns the count and the new contents of the caller's vector.\<close>

definition bc_segments :: "nat \<Rightarrow> nat \<Rightarrow> nat \<Rightarrow> 'a list \<Rightarrow> 'a list list" where
  "bc_segments n_to_end p n buf =
     (if n > n_to_end then [take n_to_end (drop p buf), take (n - n_to_end) buf]
      else [take n (drop p buf)])"

definition bc_Readv :: "byte list list \<Rightarrow> bool \<Rightarrow> ByteChannel
    \<Rightarrow> (nat \<times> byte list list) Status \<times> ByteChannel" where
  "bc_Readv iov peek c =
     (let n = unat (bc_in c - bc_out c) in
      if n = 0 then (Inl EAGAIN, c)
      else
        (let p = ring_index (bc_mask c) (bc_out c);
             n_to_end = unat (bc_size c - (bc_out c AND bc_mask c));
             (copied, iov') = GenericCopyv (bc_segments n_to_end p n (bc_buf c)) iov
         in (Inr (copied, iov'), if peek then c else c\<lparr>bc_out := bc_out c + of_nat copied\<rparr>)))"

text \<open>The copy into the segments of the array, written back to where they came from.\<close>

definition bc_store_segments :: "nat \<Rightarrow> byte list list \<Rightarrow> byte list \<Rightarrow> byte list" where
  "bc_store_segments p segs buf =
     (case segs of
        [a] \<Rightarrow> copy_to p a buf
      | [a, b] \<Rightarrow> copy_to 0 b (copy_to p a buf)
      | _ \<Rightarrow> buf)"

definition bc_Writev :: "byte list list \<Rightarrow> ByteChannel \<Rightarrow> nat Status \<times> ByteChannel" where
  "bc_Writev iov c =
     (let n = unat (bc_size c - (bc_in c - bc_out c)) in
      if n = 0 then (Inl EAGAIN, c)
      else
        (let p = ring_index (bc_mask c) (bc_in c);
             n_to_end = unat (bc_size c - (bc_in c AND bc_mask c));
             (copied, segs) = GenericCopyv iov (bc_segments n_to_end p n (bc_buf c))
         in (Inr copied, c\<lparr>bc_buf := bc_store_segments p segs (bc_buf c),
                           bc_in := bc_in c + of_nat copied\<rparr>)))"

text \<open>A saved channel: the two segment lengths and the two segments.\<close>

definition bc_save :: "ByteChannel \<Rightarrow> u64 \<times> u64 \<times> byte list \<times> byte list" where
  "bc_save c =
     (let sz = bc_in c - bc_out c;
          seg1 = min (bc_size c - (bc_out c AND bc_mask c)) sz;
          seg2 = sz - seg1
      in (seg1, seg2,
          take (unat seg1) (drop (ring_index (bc_mask c) (bc_out c)) (bc_buf c)),
          take (unat seg2) (bc_buf c)))"

definition bc_load :: "u64 \<times> u64 \<times> byte list \<times> byte list \<Rightarrow> ByteChannel \<Rightarrow> ByteChannel" where
  "bc_load ar c =
     (case ar of (seg1, seg2, d1, d2) \<Rightarrow>
        c\<lparr>bc_buf := copy_to (unat seg1) d2 (copy_to 0 d1 (bc_buf c)), bc_in := seg1 + seg2\<rparr>)"

subsection \<open>Representation invariant and abstraction\<close>

definition bc_ok :: "ByteChannel \<Rightarrow> bool" where
  "bc_ok c \<longleftrightarrow> ring_ok (bc_in c) (bc_out c) (bc_size c) (bc_mask c) (bc_buf c)"

definition bc_list :: "ByteChannel \<Rightarrow> byte list" where
  "bc_list c = ring_list (bc_in c) (bc_out c) (bc_buf c)"

definition bc_cap :: "ByteChannel \<Rightarrow> nat" where
  "bc_cap c = unat (bc_size c)"

lemma bc_okE:
  assumes "bc_ok c"
  obtains k where "k < 64" "bc_size c = 2 ^ k" "bc_mask c = 2 ^ k - 1" "length (bc_buf c) = 2 ^ k"
    "unat (bc_in c - bc_out c) \<le> 2 ^ k" "0 < length (bc_buf c)"
  using ring_okE [OF assms [unfolded bc_ok_def]] by blast

lemma length_bc_list [simp]: "length (bc_list c) = unat (bc_in c - bc_out c)"
  by (simp add: bc_list_def ring_list_def)

lemma bc_list_le_cap: "bc_ok c \<Longrightarrow> length (bc_list c) \<le> bc_cap c"
  by (simp add: bc_ok_def ring_ok_def bc_cap_def word_le_nat_alt)

lemma bc_is_empty_list: "bc_is_empty c \<longleftrightarrow> bc_list c = []"
proof -
  have "bc_list c = [] \<longleftrightarrow> unat (bc_in c - bc_out c) = 0"
    using length_bc_list [of c] by (metis length_0_conv)
  then show ?thesis by (simp add: bc_is_empty_def unat_eq_zero)
qed

lemma bc_is_full_list: "bc_ok c \<Longrightarrow> bc_is_full c \<longleftrightarrow> length (bc_list c) = bc_cap c"
  using bc_list_le_cap [of c] by (auto simp: bc_is_full_def bc_cap_def word_le_nat_alt)

lemma bc_new_ok:
  assumes "sz \<le> 2 ^ 63"
  shows "bc_ok (ByteChannel_new sz) \<and> bc_list (ByteChannel_new sz) = []"
  using ring_size_pow2 [OF assms]
  by (auto simp: bc_ok_def ring_ok_def ByteChannel_new_def simp flip: bc_is_empty_list) (simp add: bc_is_empty_def)

subsection \<open>Moving the positions\<close>

lemma bc_consume:
  assumes "bc_ok c" "n \<le> length (bc_list c)"
  defines "c' \<equiv> c\<lparr>bc_out := bc_out c + of_nat n\<rparr>"
  shows "bc_ok c' \<and> bc_list c' = drop n (bc_list c) \<and> bc_cap c' = bc_cap c"
  using ring_consume [of "bc_in c" "bc_out c" "bc_size c" "bc_mask c" "bc_buf c" n] assms
  by (simp add: bc_ok_def bc_list_def bc_cap_def)

lemma bc_produce:
  assumes "bc_ok c" "length buf = length (bc_buf c)" "length (bc_list c) + length xs \<le> bc_cap c"
    and "ring_view buf (unat (bc_out c)) (length (bc_list c) + length xs) = bc_list c @ xs"
  defines "c' \<equiv> c\<lparr>bc_buf := buf, bc_in := bc_in c + of_nat (length xs)\<rparr>"
  shows "bc_ok c' \<and> bc_list c' = bc_list c @ xs \<and> bc_cap c' = bc_cap c"
  using ring_produce [of "bc_in c" "bc_out c" "bc_size c" "bc_mask c" "bc_buf c" buf xs] assms
  by (simp add: bc_ok_def bc_list_def bc_cap_def)

lemma bc_space:
  assumes "bc_ok c"
  shows "unat (bc_size c - (bc_in c - bc_out c)) = bc_cap c - length (bc_list c)"
  using assms by (simp add: bc_ok_def ring_ok_def bc_cap_def unat_sub)

lemma bc_copy_out:
  assumes "bc_ok c" "n \<le> length (bc_list c)"
  shows "ring_copy_out (unat (bc_size c - (bc_out c AND bc_mask c))) (ring_index (bc_mask c) (bc_out c))
      n (bc_buf c) = take n (bc_list c)"
proof -
  obtain k where k: "k < 64" "bc_size c = 2 ^ k" "bc_mask c = 2 ^ k - 1" "length (bc_buf c) = 2 ^ k"
    "unat (bc_in c - bc_out c) \<le> 2 ^ k" "0 < length (bc_buf c)"
    using assms(1) by (elim bc_okE)
  have "ring_copy_out (length (bc_buf c) - ring_index (bc_mask c) (bc_out c)) (ring_index (bc_mask c) (bc_out c))
      n (bc_buf c) = ring_view (bc_buf c) (unat (bc_out c)) n"
    using assms(2) k by (intro ring_copy_out_view) (simp_all add: ring_index_mod)
  then show ?thesis using k assms(2) by (simp add: n_to_end_eq bc_list_def ring_list_def take_ring_view)
qed

lemma bc_copy_in:
  assumes "bc_ok c" "length (bc_list c) + length xs \<le> bc_cap c"
  defines "buf \<equiv> ring_copy_in (unat (bc_size c - (bc_in c AND bc_mask c))) (ring_index (bc_mask c) (bc_in c))
      xs (bc_buf c)"
  shows "length buf = length (bc_buf c) \<and>
    ring_view buf (unat (bc_out c)) (length (bc_list c) + length xs) = bc_list c @ xs"
proof -
  obtain k where k: "k < 64" "bc_size c = 2 ^ k" "bc_mask c = 2 ^ k - 1" "length (bc_buf c) = 2 ^ k"
    "unat (bc_in c - bc_out c) \<le> 2 ^ k" "0 < length (bc_buf c)"
    using assms(1) by (elim bc_okE)
  let ?m = "unat (bc_in c - bc_out c)" and ?p = "ring_index (2 ^ k - 1) (bc_in c)"
  have cap: "bc_cap c = 2 ^ k" using k by (simp add: bc_cap_def unat_pow2)
  have "unat (bc_out c + of_nat ?m) mod 2 ^ k = (unat (bc_out c) + ?m) mod 2 ^ k"
    using k(1) by (intro pos_add_mod) simp
  then have p: "?p = (unat (bc_out c) + ?m) mod length (bc_buf c)"
    using k by (simp add: ring_index_mod)
  have b: "buf = ring_copy_in (length (bc_buf c) - ?p) ?p xs (bc_buf c)"
    unfolding buf_def using k by (simp add: n_to_end_eq)
  have "?p < length (bc_buf c)" using ring_index_lt [OF k(1)] k(4) by simp
  then have "length buf = length (bc_buf c)"
    using assms(2) cap k(4) unfolding b by (intro length_ring_copy_in) simp_all
  moreover have "ring_view buf (unat (bc_out c)) (?m + length xs) = ring_view (bc_buf c) (unat (bc_out c)) ?m @ xs"
    unfolding b using assms(2) cap k p by (intro ring_copy_in_view) simp_all
  ultimately show ?thesis by (simp add: bc_list_def ring_list_def)
qed

subsection \<open>The operations on the byte string\<close>

lemma bc_Read_spec:
  assumes "bc_ok c"
  shows "bc_Read len peek c =
    (if len = 0 \<or> bc_list c = [] then (Inl EAGAIN, c)
     else (Inr (take len (bc_list c)),
           if peek then c else c\<lparr>bc_out := bc_out c + of_nat (min (length (bc_list c)) len)\<rparr>))"
proof -
  let ?n = "min (length (bc_list c)) len"
  have "take ?n (bc_list c) = take len (bc_list c)" by (simp add: min_def)
  moreover have "?n = 0 \<longleftrightarrow> len = 0 \<or> bc_list c = []" by (metis length_0_conv min_0L min_0R min_def)
  ultimately show ?thesis
    using bc_copy_out [OF assms, of ?n] unfolding bc_Read_def Let_def length_bc_list [symmetric]
    by (simp del: length_bc_list)
qed

lemma bc_Write_spec:
  fixes buf :: "byte list"
  assumes "bc_ok c"
  defines "n \<equiv> min (bc_cap c - length (bc_list c)) (length buf)"
  shows "if n = 0 then bc_Write buf c = (Inl EAGAIN, c)
    else \<exists>c'. bc_Write buf c = (Inr n, c') \<and> bc_ok c' \<and> bc_list c' = bc_list c @ take n buf \<and>
      bc_cap c' = bc_cap c"
proof (cases "n = 0")
  case True
  then show ?thesis unfolding bc_Write_def bc_space [OF assms(1)] Let_def n_def [symmetric] by simp
next
  case False
  have l: "length (take n buf) = n" by (simp add: n_def)
  have fit: "length (bc_list c) + length (take n buf) \<le> bc_cap c"
    using bc_list_le_cap [OF assms(1)] l n_def by linarith
  note in' = bc_copy_in [OF assms(1) fit]
  show ?thesis
    using False bc_produce [OF assms(1) conjunct1 [OF in'] fit conjunct2 [OF in']]
    unfolding bc_Write_def bc_space [OF assms(1)] Let_def n_def [symmetric] l by simp
qed

lemma concat_bc_segments: "concat (bc_segments e p n buf) = ring_copy_out e p n buf"
  by (simp add: bc_segments_def ring_copy_out_def)

lemma bc_Readv_spec:
  assumes "bc_ok c"
  shows "if bc_list c = [] then bc_Readv iov peek c = (Inl EAGAIN, c)
    else \<exists>iov'. let n = min (length (bc_list c)) (length (concat iov)) in
      bc_Readv iov peek c =
        (Inr (n, iov'), if peek then c else c\<lparr>bc_out := bc_out c + of_nat n\<rparr>) \<and>
      concat iov' = take n (bc_list c) @ drop n (concat iov) \<and> map length iov' = map length iov"
proof (cases "bc_list c = []")
  case True
  then have "unat (bc_in c - bc_out c) = 0" using length_bc_list [of c] by simp
  then show ?thesis using True by (simp add: bc_Readv_def)
next
  case False
  then have nz: "unat (bc_in c - bc_out c) \<noteq> 0" using length_bc_list [of c] by (metis length_0_conv)
  let ?segs = "bc_segments (unat (bc_size c - (bc_out c AND bc_mask c))) (ring_index (bc_mask c) (bc_out c))
      (unat (bc_in c - bc_out c)) (bc_buf c)"
  have segs: "concat ?segs = bc_list c"
    using bc_copy_out [OF assms, of "length (bc_list c)"] by (simp add: concat_bc_segments)
  obtain n iov' where g: "GenericCopyv ?segs iov = (n, iov')" by (cases "GenericCopyv ?segs iov")
  show ?thesis using GenericCopyv_correct [OF g] False nz g unfolding segs bc_Readv_def Let_def
    by (auto intro!: exI [of _ iov'])
qed

lemma bc_store_segments_eq:
  assumes "map length segs = map length (bc_segments e p n buf)" "e = length buf - p" "p < length buf"
    "n \<le> length buf"
  shows "bc_store_segments p segs buf = ring_copy_in e p (concat segs) buf"
proof (cases "n > e")
  case True
  then obtain a b where "segs = [a, b]" "length a = e" "length b = n - e"
    using assms by (auto simp: bc_segments_def map_eq_Cons_conv Cons_eq_map_conv)
  then show ?thesis using True by (simp add: bc_store_segments_def ring_copy_in_def)
next
  case False
  then obtain a where "segs = [a]" "length a = n"
    using assms by (auto simp: bc_segments_def map_eq_Cons_conv Cons_eq_map_conv)
  then show ?thesis using False by (simp add: bc_store_segments_def ring_copy_in_def)
qed

lemma bc_Writev_spec:
  assumes "bc_ok c"
  defines "n \<equiv> bc_cap c - length (bc_list c)"
  shows "if n = 0 then bc_Writev iov c = (Inl EAGAIN, c)
    else \<exists>c'. bc_Writev iov c = (Inr (min n (length (concat iov))), c') \<and> bc_ok c' \<and>
      bc_list c' = bc_list c @ take n (concat iov) \<and> bc_cap c' = bc_cap c"
proof (cases "n = 0")
  case True
  then show ?thesis unfolding bc_Writev_def bc_space [OF assms(1)] Let_def n_def [symmetric] by simp
next
  case False
  obtain k where k: "k < 64" "bc_size c = 2 ^ k" "bc_mask c = 2 ^ k - 1" "length (bc_buf c) = 2 ^ k"
    using assms(1) by (elim bc_okE)
  let ?p = "ring_index (bc_mask c) (bc_in c)" and ?e = "unat (bc_size c - (bc_in c AND bc_mask c))"
  let ?segs = "bc_segments ?e ?p n (bc_buf c)"
  obtain m segs where g: "GenericCopyv iov ?segs = (m, segs)" by (cases "GenericCopyv iov ?segs")
  have e: "?e = length (bc_buf c) - ?p" "?p < length (bc_buf c)" "bc_cap c = length (bc_buf c)"
    using k ring_index_lt [OF k(1), of "bc_in c"] by (simp_all add: n_to_end_eq bc_cap_def unat_pow2)
  have n: "n \<le> length (bc_buf c)" using e(3) by (simp add: n_def)
  have ls: "length (concat ?segs) = n"
    using e(1,2) n by (auto simp: bc_segments_def)
  note copy = GenericCopyv_correct [OF g]
  have m: "m = min n (length (concat iov))" using copy(1) ls by simp
  have "length (concat segs) = n"
    using copy(3) ls by (simp only: length_concat)
  then have fit: "length (bc_list c) + length (concat segs) \<le> bc_cap c"
    using bc_list_le_cap [OF assms(1)] unfolding n_def by linarith
  define buf where "buf = bc_store_segments ?p segs (bc_buf c)"
  have buf: "buf = ring_copy_in ?e ?p (concat segs) (bc_buf c)"
    unfolding buf_def by (rule bc_store_segments_eq [OF copy(3) e(1,2) n])
  note in' = bc_copy_in [OF assms(1) fit, folded buf]
  let ?xs = "take n (concat iov)"
  have xs: "length ?xs = m" "take m (concat segs) = ?xs" "m \<le> length (concat segs)"
    using copy(2) m \<open>length (concat segs) = n\<close> by (simp_all add: min_def split: if_splits)
  have "ring_view buf (unat (bc_out c)) (length (bc_list c) + m)
      = take (length (bc_list c) + m) (ring_view buf (unat (bc_out c)) (length (bc_list c) + length (concat segs)))"
    by (rule take_ring_view [symmetric]) (use xs(3) in simp)
  then have "ring_view buf (unat (bc_out c)) (length (bc_list c) + length ?xs) = bc_list c @ ?xs"
    unfolding xs(1) using in' xs(2) by simp
  moreover have "length (bc_list c) + length ?xs \<le> bc_cap c" using fit xs(1,3) by linarith
  ultimately have "bc_ok (c\<lparr>bc_buf := buf, bc_in := bc_in c + of_nat m\<rparr>) \<and>
      bc_list (c\<lparr>bc_buf := buf, bc_in := bc_in c + of_nat m\<rparr>) = bc_list c @ ?xs \<and>
      bc_cap (c\<lparr>bc_buf := buf, bc_in := bc_in c + of_nat m\<rparr>) = bc_cap c"
    using bc_produce [OF assms(1), of buf ?xs] in' unfolding xs(1) by blast
  then show ?thesis using False g m
    unfolding bc_Writev_def bc_space [OF assms(1)] Let_def n_def [symmetric] buf_def by auto
qed

interpretation bcw: vectored_writer bc_Writev bc_list bc_ok
proof
  fix c iov n c'
  assume "bc_ok c" "bc_Writev iov c = (Inr n, c')"
  with bc_Writev_spec [of c iov] show "n \<le> length (concat iov) \<and> bc_list c' = bc_list c @ take n (concat iov)"
    by (auto simp: min_def split: if_splits)
next
  fix c iov n c'
  assume "bc_ok c" "bc_Writev iov c = (Inr n, c')" "concat iov \<noteq> []"
  with bc_Writev_spec [of c iov] show "0 < n" by (auto split: if_splits)
next
  fix c iov r c'
  assume "bc_ok c" "bc_Writev iov c = (r, c')"
  with bc_Writev_spec [of c iov] show "bc_ok c'" by (auto split: if_splits)
qed

text \<open>With fuel for one round per byte, \<open>WritevFull\<close> into a byte channel returns; if it reports
  success the whole vector was appended to the channel, in order and once.\<close>

theorem bc_WritevFull_writes_all:
  assumes "bc_ok c" "length (concat iov) < fuel" "length (concat iov) < 2 ^ 64"
  shows "\<exists>r c'. WritevFull fuel bc_Writev iov c = Some (r, c') \<and> (r = Inr () \<longrightarrow> bc_list c' = bc_list c @ concat iov)"
  using assms by (rule bcw.WritevFull_correct)

theorem bc_WritevFull_writes_all_witness:
  "\<exists>c'. WritevFull 6 bc_Writev [[1, 2], [], [3, 4, 5]] (ByteChannel_new 8) = Some (Inr (), c') \<and>
    bc_list c' = [1, 2, 3, 4, 5]"
proof -
  have ok: "bc_ok (ByteChannel_new 8)" "bc_list (ByteChannel_new 8) = []" using bc_new_ok [of 8] by simp_all
  have "bc_cap (ByteChannel_new 8) = 8"
    by (simp add: bc_cap_def ByteChannel_new_def ring_size_def bit_width.simps)
  then obtain c where "bc_Writev [[1, 2], [], [3, 4, 5]] (ByteChannel_new 8) = (Inr 5, c)"
    using bc_Writev_spec [OF ok(1), of "[[1, 2], [], [3, 4, 5]]"] ok(2) by (auto simp del: length_bc_list)
  then have "WritevFull 6 bc_Writev [[1, 2], [], [3, 4, 5]] (ByteChannel_new 8) = Some (Inr (), c)"
    by (simp add: WritevFull_def SumIOV_def)
  then show ?thesis using bc_WritevFull_writes_all [OF ok(1), of "[[1, 2], [], [3, 4, 5]]" 6] ok(2) by simp
qed

subsection \<open>Sequences of operations refine a bounded queue\<close>

datatype bc_op = BRead nat bool | BWrite "byte list" | BReadv "byte list list" bool | BWritev "byte list list"
datatype bc_res = RErr errno | RBytes "byte list" | RCount nat | RVec nat "byte list"

fun bc_step :: "bc_op \<Rightarrow> ByteChannel \<Rightarrow> bc_res \<times> ByteChannel" where
  "bc_step (BRead len peek) c =
     (case bc_Read len peek c of (Inl e, c') \<Rightarrow> (RErr e, c') | (Inr bs, c') \<Rightarrow> (RBytes bs, c'))"
| "bc_step (BWrite buf) c =
     (case bc_Write buf c of (Inl e, c') \<Rightarrow> (RErr e, c') | (Inr n, c') \<Rightarrow> (RCount n, c'))"
| "bc_step (BReadv iov peek) c =
     (case bc_Readv iov peek c of
        (Inl e, c') \<Rightarrow> (RErr e, c') | (Inr (n, iov'), c') \<Rightarrow> (RVec n (concat iov'), c'))"
| "bc_step (BWritev iov) c =
     (case bc_Writev iov c of (Inl e, c') \<Rightarrow> (RErr e, c') | (Inr n, c') \<Rightarrow> (RCount n, c'))"

fun bq_step :: "nat \<Rightarrow> bc_op \<Rightarrow> byte list \<Rightarrow> bc_res \<times> byte list" where
  "bq_step cap (BRead len peek) q =
     (if len = 0 \<or> q = [] then (RErr EAGAIN, q)
      else (RBytes (take len q), if peek then q else drop len q))"
| "bq_step cap (BWrite buf) q =
     (if length q = cap \<or> buf = [] then (RErr EAGAIN, q)
      else (RCount (min (cap - length q) (length buf)), q @ take (cap - length q) buf))"
| "bq_step cap (BReadv iov peek) q =
     (if q = [] then (RErr EAGAIN, q)
      else (let n = min (length q) (length (concat iov)) in
            (RVec n (take n q @ drop n (concat iov)), if peek then q else drop n q)))"
| "bq_step cap (BWritev iov) q =
     (if length q = cap then (RErr EAGAIN, q)
      else (RCount (min (cap - length q) (length (concat iov))), q @ take (cap - length q) (concat iov)))"

lemma bc_step_refines:
  assumes "bc_ok c" "bc_step x c = (r, c')"
  shows "bq_step (bc_cap c) x (bc_list c) = (r, bc_list c') \<and> bc_ok c' \<and> bc_cap c' = bc_cap c"
proof (cases x)
  case (BRead len peek)
  then show ?thesis
    using assms bc_Read_spec [OF assms(1), of len peek]
      bc_consume [OF assms(1), of "min (length (bc_list c)) len"]
    by (auto simp del: length_bc_list simp: min_def split: if_splits)
next
  case (BWrite buf)
  have "min (bc_cap c - length (bc_list c)) (length buf) = 0 \<longleftrightarrow> length (bc_list c) = bc_cap c \<or> buf = []"
    using bc_list_le_cap [OF assms(1)] by (auto simp del: length_bc_list simp: min_def)
  then show ?thesis
    using BWrite assms bc_Write_spec [OF assms(1), of buf]
    by (auto simp del: length_bc_list split: if_splits simp: min_def)
next
  case (BReadv iov peek)
  then show ?thesis
    using assms bc_Readv_spec [OF assms(1), of iov peek]
      bc_consume [OF assms(1), of "min (length (bc_list c)) (length (concat iov))"]
    by (auto simp del: length_bc_list simp: Let_def split: if_splits)
next
  case (BWritev iov)
  have "bc_cap c - length (bc_list c) = 0 \<longleftrightarrow> length (bc_list c) = bc_cap c"
    using bc_list_le_cap [OF assms(1)] by linarith
  then show ?thesis
    using BWritev assms bc_Writev_spec [OF assms(1), of iov]
    by (auto simp del: length_bc_list split: if_splits)
qed

lemma bc_run_refines:
  assumes "bc_ok c" "run_ops bc_step xs c = (rs, c')"
  shows "run_ops (bq_step (bc_cap c)) xs (bc_list c) = (rs, bc_list c')"
  using assms
proof (induction xs arbitrary: c rs)
  case (Cons x xs)
  obtain r c1 where 1: "bc_step x c = (r, c1)" by (cases "bc_step x c")
  obtain rs1 where 2: "run_ops bc_step xs c1 = (rs1, c')" "rs = r # rs1"
    using Cons.prems(2) 1 by (auto split: prod.splits)
  show ?case using bc_step_refines [OF Cons.prems(1) 1] Cons.IH [of c1 rs1] 2 by auto
qed simp

text \<open>C2: Any sequence of reads, peeks, writes and their vectored forms on a new byte channel returns
  what the same sequence returns on a bounded first-in first-out queue of bytes whose capacity is the
  requested size rounded up to a power of two, including every \<open>EAGAIN\<close>.\<close>

theorem bc_refines_queue:
  assumes "sz \<le> 2 ^ 63"
  shows "fst (run_ops bc_step xs (ByteChannel_new sz)) = fst (run_ops (bq_step (unat (ring_size sz))) xs [])"
proof -
  obtain rs c where r: "run_ops bc_step xs (ByteChannel_new sz) = (rs, c)"
    by (cases "run_ops bc_step xs (ByteChannel_new sz)")
  have "bc_cap (ByteChannel_new sz) = unat (ring_size sz)" by (simp add: bc_cap_def ByteChannel_new_def)
  then show ?thesis using bc_run_refines [of "ByteChannel_new sz", OF _ r] bc_new_ok [OF assms] r by simp
qed

theorem bc_refines_queue_witness:
  "fst (run_ops bc_step [BWrite [1, 2, 3], BRead 2 False, BWrite [4, 5, 6, 7], BRead 9 True] (ByteChannel_new 3))
    = [RCount 3, RBytes [1, 2], RCount 3, RBytes [3, 4, 5, 6]]"
proof -
  have "ring_size 3 = 4" by (simp add: ring_size_def bit_width.simps)
  then show ?thesis
    using bc_refines_queue [of 3 "[BWrite [1, 2, 3], BRead 2 False, BWrite [4, 5, 6, 7], BRead 9 True]"]
    by simp
qed

text \<open>Loading a saved channel into a new channel of the same size restores the bytes it holds, also
  when they wrap around the end of the array.\<close>

theorem bc_save_load:
  assumes "bc_ok c" "bc_size c = ring_size sz" "sz \<le> 2 ^ 63"
  shows "bc_ok (bc_load (bc_save c) (ByteChannel_new sz)) \<and>
    bc_list (bc_load (bc_save c) (ByteChannel_new sz)) = bc_list c"
proof -
  let ?d = "bc_in c - bc_out c" and ?e = "bc_size c - (bc_out c AND bc_mask c)"
  let ?p = "ring_index (bc_mask c) (bc_out c)"
  let ?s1 = "min ?e ?d"
  obtain k where k: "k < 64" "bc_size c = 2 ^ k" "bc_mask c = 2 ^ k - 1" "length (bc_buf c) = 2 ^ k"
    "unat ?d \<le> 2 ^ k"
    using assms(1) by (elim bc_okE)
  have s1: "unat ?s1 = min (unat ?e) (unat ?d)" "unat (?d - ?s1) = unat ?d - unat ?s1"
    by (simp_all add: min_def word_le_nat_alt unat_sub)
  let ?d1 = "take (unat ?s1) (drop ?p (bc_buf c))" and ?d2 = "take (unat (?d - ?s1)) (bc_buf c)"
  have "ring_copy_out (unat ?e) ?p (unat ?d) (bc_buf c) = bc_list c"
    using bc_copy_out [OF assms(1), of "unat ?d"] by simp
  then have dd: "?d1 @ ?d2 = bc_list c"
    unfolding s1(2) unfolding s1(1) by (cases "unat ?d > unat ?e") (simp_all add: ring_copy_out_def)
  have "unat ?e + ?p = 2 ^ k" using k ring_index_lt [OF k(1), of "bc_out c"] by (simp add: n_to_end_eq)
  then have l1: "length ?d1 = unat ?s1" using k(4) s1 by simp
  let ?new = "replicate (2 ^ k) (0 :: byte)"
  have sz: "ring_size sz = 2 ^ k" using assms(2) k(2) by simp
  have ld: "length (?d1 @ ?d2) = unat ?d" unfolding dd by simp
  have "copy_to (unat ?s1) ?d2 (copy_to 0 ?d1 ?new) = (?d1 @ ?d2) @ drop (unat ?d) ?new"
    using l1 ld k(5) by (simp add: copy_to_def)
  then have load: "bc_load (bc_save c) (ByteChannel_new sz) =
      \<lparr>bc_in = ?d, bc_out = 0, bc_size = 2 ^ k, bc_mask = 2 ^ k - 1, bc_buf = bc_list c @ drop (unat ?d) ?new\<rparr>"
    unfolding dd bc_save_def bc_load_def ByteChannel_new_def Let_def prod.case sz by (simp add: unat_pow2 k(1))
  have "ring_view (bc_list c @ drop (unat ?d) ?new) 0 (unat ?d) = bc_list c"
    by (simp add: ring_view_start)
  then show ?thesis unfolding load using k(1,2,5)
    by (auto simp: bc_ok_def bc_list_def ring_ok_def ring_list_def unat_pow2 word_le_nat_alt)
qed

theorem bc_save_load_witness:
  "bc_list (bc_load (bc_save \<lparr>bc_in = 5, bc_out = 3, bc_size = 4, bc_mask = 3, bc_buf = [8, 9, 6, 7]\<rparr>)
      (ByteChannel_new 4)) = [7, 8]"
proof -
  let ?c = "\<lparr>bc_in = 5, bc_out = 3, bc_size = 4, bc_mask = 3, bc_buf = [8, 9, 6, 7]\<rparr> :: ByteChannel"
  have s: "ring_size 4 = 4" by (simp add: ring_size_def bit_width.simps)
  have "(4::u64) = 2 ^ 2" by simp
  then have "bc_ok ?c" by (auto simp: bc_ok_def ring_ok_def intro!: exI [of _ 2])
  moreover have "bc_list ?c = [7, 8]" by (simp add: bc_list_def ring_list_def ring_view_def upt_rec)
  ultimately show ?thesis using bc_save_load [of ?c 4] s by simp
qed

end
