(* ===== verification/MessageChannel.thy ===== *)
theory MessageChannel
  imports Ring IoVec
begin

text \<open>
  The ring of messages of \<^verbatim>\<open>src/junction/base/message_channel.h\<close>, with the auxiliary
  data (\<open>T\<close> in the source) as a type parameter; \<open>T = void\<close> is the instance \<open>unit\<close>.
  \<open>std::forward\<close> moves the auxiliary data out of its slot, so the value a moved-from
  object is left with is the argument \<open>moved\<close>.
\<close>

record 'a Message =
  msg_flags :: u64
  aux_data :: 'a
  msg_data :: "byte list"

record 'a MessageChannel =
  mc_in :: u64
  mc_out :: u64
  mc_size :: u64
  mc_mask :: u64
  mc_msgs :: "'a Message list"

definition MessageChannel_new :: "'a \<Rightarrow> u64 \<Rightarrow> 'a MessageChannel" where
  "MessageChannel_new aux0 sz =
     \<lparr>mc_in = 0, mc_out = 0, mc_size = ring_size sz, mc_mask = ring_size sz - 1,
      mc_msgs = replicate (unat (ring_size sz)) \<lparr>msg_flags = 0, aux_data = aux0, msg_data = []\<rparr>\<rparr>"

definition mc_is_empty :: "'a MessageChannel \<Rightarrow> bool" where
  "mc_is_empty c \<longleftrightarrow> mc_in c = mc_out c"

definition mc_is_full :: "'a MessageChannel \<Rightarrow> bool" where
  "mc_is_full c \<longleftrightarrow> mc_in c - mc_out c \<ge> mc_size c"

text \<open>What is left in the slot after the auxiliary data was (perhaps) moved out, and the update that ends
  a read: a consuming read clears the data and advances the position.\<close>

definition take_aux :: "('a \<Rightarrow> 'a) \<Rightarrow> bool \<Rightarrow> 'a Message \<Rightarrow> 'a option \<times> 'a Message" where
  "take_aux moved want m =
     (if want then (Some (aux_data m), m\<lparr>aux_data := moved (aux_data m)\<rparr>) else (None, m))"

definition mc_advance :: "bool \<Rightarrow> 'a Message \<Rightarrow> 'a MessageChannel \<Rightarrow> 'a MessageChannel" where
  "mc_advance peek m c =
     (let i = ring_index (mc_mask c) (mc_out c) in
      if peek then c\<lparr>mc_msgs := (mc_msgs c)[i := m]\<rparr>
      else c\<lparr>mc_msgs := (mc_msgs c)[i := m\<lparr>msg_data := []\<rparr>], mc_out := mc_out c + 1\<rparr>)"

definition mc_Read :: "('a \<Rightarrow> 'a) \<Rightarrow> nat \<Rightarrow> bool \<Rightarrow> bool \<Rightarrow> 'a MessageChannel
    \<Rightarrow> (byte list \<times> 'a option) Status \<times> 'a MessageChannel" where
  "mc_Read moved len want_aux peek c =
     (if mc_in c = mc_out c then (Inl EAGAIN, c)
      else
        (let src_msg = mc_msgs c ! ring_index (mc_mask c) (mc_out c);
             to_copy = min len (length (msg_data src_msg));
             (aux, m) = take_aux moved want_aux src_msg
         in (Inr (take to_copy (msg_data src_msg), aux), mc_advance peek m c)))"

text \<open>The two-argument overload passes \<open>false\<close> for \<open>peek\<close> whatever the caller asked for.\<close>

definition mc_Read_plain :: "('a \<Rightarrow> 'a) \<Rightarrow> nat \<Rightarrow> bool \<Rightarrow> 'a MessageChannel
    \<Rightarrow> (byte list \<times> 'a option) Status \<times> 'a MessageChannel" where
  "mc_Read_plain moved len peek c = mc_Read moved len False False c"

definition set_aux :: "'a option \<Rightarrow> 'a Message \<Rightarrow> 'a Message" where
  "set_aux aux_in m = (case aux_in of None \<Rightarrow> m | Some a \<Rightarrow> m\<lparr>aux_data := a\<rparr>)"

definition mc_Write :: "byte list \<Rightarrow> 'a option \<Rightarrow> 'a MessageChannel \<Rightarrow> nat Status \<times> 'a MessageChannel" where
  "mc_Write buf aux_in c =
     (if mc_in c - mc_out c \<ge> mc_size c then (Inl EAGAIN, c)
      else
        (let i = ring_index (mc_mask c) (mc_in c);
             dst_msg = (mc_msgs c ! i)\<lparr>msg_data := buf\<rparr>
         in (Inr (length buf),
             c\<lparr>mc_msgs := (mc_msgs c)[i := set_aux aux_in dst_msg], mc_in := mc_in c + 1\<rparr>)))"

definition mc_Readv :: "('a \<Rightarrow> 'a) \<Rightarrow> byte list list \<Rightarrow> bool \<Rightarrow> bool \<Rightarrow> 'a MessageChannel
    \<Rightarrow> (nat \<times> byte list list \<times> 'a option) Status \<times> 'a MessageChannel" where
  "mc_Readv moved iov peek want_aux c =
     (if mc_in c = mc_out c then (Inl EAGAIN, c)
      else
        (let src_msg = mc_msgs c ! ring_index (mc_mask c) (mc_out c) in
         if iov = [] then (Inl EINVAL, c)
         else
           (let (n, iov') = GenericReadv (msg_data src_msg) iov;
                (aux, m) = take_aux moved want_aux src_msg
            in (Inr (n, iov', aux), mc_advance peek m c))))"

definition mc_Writev :: "byte list list \<Rightarrow> 'a option \<Rightarrow> 'a MessageChannel \<Rightarrow> nat Status \<times> 'a MessageChannel" where
  "mc_Writev iov aux_in c =
     (if mc_in c - mc_out c \<ge> mc_size c then (Inl EAGAIN, c)
      else
        (let i = ring_index (mc_mask c) (mc_in c);
             msg_len = SumIOV iov
         in if msg_len = 0 then (Inl EINVAL, c)
            else
              (let resized = take (unat msg_len) (msg_data (mc_msgs c ! i))
                     @ replicate (unat msg_len - length (msg_data (mc_msgs c ! i))) 0;
                   (n, data) = GenericWritev iov resized;
                   dst_msg = (mc_msgs c ! i)\<lparr>msg_data := data\<rparr>
               in (Inr (length data),
                   c\<lparr>mc_msgs := (mc_msgs c)[i := set_aux aux_in dst_msg], mc_in := mc_in c + 1\<rparr>))))"

text \<open>The archive of a channel: the number of messages and the messages.\<close>

function mc_save_msgs :: "nat \<Rightarrow> u64 \<Rightarrow> 'a MessageChannel \<Rightarrow> 'a Message list" where
  "mc_save_msgs 0 cur c = []"
| "mc_save_msgs (Suc fuel) cur c =
     (if cur = mc_in c then [] else (mc_msgs c ! ring_index (mc_mask c) cur) # mc_save_msgs fuel (cur + 1) c)"
  by pat_completeness auto
termination by (relation "measure (\<lambda>(fuel, cur, c). fuel)") auto

definition mc_save :: "'a MessageChannel \<Rightarrow> u64 \<times> 'a Message list" where
  "mc_save c = (mc_in c - mc_out c, mc_save_msgs (Suc (unat (mc_in c - mc_out c))) (mc_out c) c)"

definition mc_load :: "u64 \<times> 'a Message list \<Rightarrow> 'a MessageChannel \<Rightarrow> 'a MessageChannel" where
  "mc_load ar c =
     (case ar of (n, ms) \<Rightarrow>
        c\<lparr>mc_in := n, mc_msgs := fold (\<lambda>i msgs. msgs[i := ms ! i]) [0..<unat n] (mc_msgs c)\<rparr>)"

subsection \<open>Representation invariant and abstraction\<close>

definition mc_ok :: "'a MessageChannel \<Rightarrow> bool" where
  "mc_ok c \<longleftrightarrow> ring_ok (mc_in c) (mc_out c) (mc_size c) (mc_mask c) (mc_msgs c)"

definition mc_list :: "'a MessageChannel \<Rightarrow> 'a Message list" where
  "mc_list c = ring_list (mc_in c) (mc_out c) (mc_msgs c)"

definition mc_cap :: "'a MessageChannel \<Rightarrow> nat" where
  "mc_cap c = unat (mc_size c)"

lemma length_mc_list [simp]: "length (mc_list c) = unat (mc_in c - mc_out c)"
  by (simp add: mc_list_def)

lemma mc_is_empty_list: "mc_is_empty c \<longleftrightarrow> mc_list c = []"
proof -
  have "mc_list c = [] \<longleftrightarrow> unat (mc_in c - mc_out c) = 0"
    using length_mc_list [of c] by (metis length_0_conv)
  then show ?thesis by (simp add: mc_is_empty_def unat_eq_zero)
qed

lemma mc_list_le_cap: "mc_ok c \<Longrightarrow> length (mc_list c) \<le> mc_cap c"
  by (simp add: mc_ok_def ring_ok_def mc_cap_def word_le_nat_alt)

lemma mc_is_full_list: "mc_ok c \<Longrightarrow> mc_is_full c \<longleftrightarrow> length (mc_list c) = mc_cap c"
  using mc_list_le_cap [of c] by (auto simp: mc_is_full_def mc_cap_def word_le_nat_alt)

lemma mc_new_ok:
  assumes "sz \<le> 2 ^ 63"
  shows "mc_ok (MessageChannel_new a sz) \<and> mc_list (MessageChannel_new a sz) = []"
  using ring_size_pow2 [OF assms]
  by (auto simp: mc_ok_def ring_ok_def MessageChannel_new_def simp flip: mc_is_empty_list)
    (simp add: mc_is_empty_def)

lemma mc_head:
  assumes "mc_ok c" "mc_in c \<noteq> mc_out c"
  shows "mc_msgs c ! ring_index (mc_mask c) (mc_out c) = hd (mc_list c) \<and> mc_list c \<noteq> []"
  using ring_head [of "mc_in c" "mc_out c"] assms unfolding mc_ok_def mc_list_def by metis

text \<open>Storing into the head slot replaces the head of the list; a consuming read drops it.\<close>

lemma mc_advance_spec:
  assumes "mc_ok c" "mc_in c \<noteq> mc_out c"
  shows "mc_ok (mc_advance peek m c) \<and> mc_cap (mc_advance peek m c) = mc_cap c \<and>
    mc_list (mc_advance peek m c) = (if peek then m # tl (mc_list c) else tl (mc_list c))"
proof -
  let ?i = "ring_index (mc_mask c) (mc_out c)"
  have ok: "ring_ok (mc_in c) (mc_out c) (mc_size c) (mc_mask c) (mc_msgs c)"
    using assms(1) by (simp add: mc_ok_def)
  note set = ring_set_head [OF ok assms(2)]
  have "1 \<le> unat (mc_in c - mc_out c)" using assms(2) by (simp add: Suc_le_eq unat_gt_0)
  then have "ring_ok (mc_in c) (mc_out c + of_nat 1) (mc_size c) (mc_mask c) ((mc_msgs c)[?i := m']) \<and>
      ring_list (mc_in c) (mc_out c + of_nat 1) ((mc_msgs c)[?i := m']) = tl (mc_list c)" for m'
    using ring_consume [OF conjunct1 [OF set [of m']], of 1] conjunct2 [OF set [of m']]
    by (simp add: mc_list_def)
  then show ?thesis using set by (simp add: mc_advance_def Let_def mc_ok_def mc_list_def mc_cap_def)
qed

lemma mc_put:
  assumes "mc_ok c" "\<not> mc_in c - mc_out c \<ge> mc_size c"
  defines "c' \<equiv> \<lambda>m. c\<lparr>mc_msgs := (mc_msgs c)[ring_index (mc_mask c) (mc_in c) := m], mc_in := mc_in c + 1\<rparr>"
  shows "mc_ok (c' m) \<and> mc_cap (c' m) = mc_cap c \<and> mc_list (c' m) = mc_list c @ [m]"
  using ring_put [of "mc_in c" "mc_out c" "mc_size c" "mc_mask c" "mc_msgs c" m] assms
  by (simp add: mc_ok_def mc_list_def mc_cap_def)

subsection \<open>The operations on the message list\<close>

lemma mc_Read_spec:
  assumes "mc_ok c"
  shows "if mc_list c = [] then mc_Read moved len want peek c = (Inl EAGAIN, c)
    else let (aux, m) = take_aux moved want (hd (mc_list c)) in
      \<exists>c'. mc_Read moved len want peek c = (Inr (take len (msg_data (hd (mc_list c))), aux), c') \<and>
        mc_ok c' \<and> mc_cap c' = mc_cap c \<and>
        mc_list c' = (if peek then m # tl (mc_list c) else tl (mc_list c))"
proof (cases "mc_in c = mc_out c")
  case True
  then show ?thesis using mc_is_empty_list [of c] by (simp add: mc_Read_def mc_is_empty_def)
next
  case False
  obtain aux m where x: "take_aux moved want (hd (mc_list c)) = (aux, m)"
    by (cases "take_aux moved want (hd (mc_list c))")
  have "take (min len n) xs = take len xs" if "n = length xs" for n and xs :: "byte list"
    using that by (simp add: min_def)
  then show ?thesis
    using False mc_head [OF assms False] mc_advance_spec [OF assms False, of peek m] x
    by (simp add: mc_Read_def)
qed

lemma mc_Readv_spec:
  assumes "mc_ok c"
  shows "if mc_list c = [] then mc_Readv moved iov peek want c = (Inl EAGAIN, c)
    else if iov = [] then mc_Readv moved iov peek want c = (Inl EINVAL, c)
    else let (aux, m) = take_aux moved want (hd (mc_list c));
             data = msg_data (hd (mc_list c));
             n = min (length data) (length (concat iov)) in
      \<exists>iov' c'. mc_Readv moved iov peek want c = (Inr (n, iov', aux), c') \<and>
        concat iov' = take n data @ drop n (concat iov) \<and>
        mc_ok c' \<and> mc_cap c' = mc_cap c \<and>
        mc_list c' = (if peek then m # tl (mc_list c) else tl (mc_list c))"
proof (cases "mc_in c = mc_out c")
  case True
  then show ?thesis using mc_is_empty_list [of c] by (simp add: mc_Readv_def mc_is_empty_def)
next
  case False
  obtain aux m where x: "take_aux moved want (hd (mc_list c)) = (aux, m)"
    by (cases "take_aux moved want (hd (mc_list c))")
  obtain n iov' where g: "GenericCopyv [msg_data (hd (mc_list c))] iov = (n, iov')"
    by (cases "GenericCopyv [msg_data (hd (mc_list c))] iov")
  show ?thesis
    using False mc_head [OF assms False] mc_advance_spec [OF assms False, of peek m] x g GenericCopyv_correct [OF g]
    by (auto simp: mc_Readv_def GenericReadv_def)
qed

lemma mc_Write_spec:
  assumes "mc_ok c"
  shows "if length (mc_list c) = mc_cap c then mc_Write buf aux c = (Inl EAGAIN, c)
    else \<exists>c' m. mc_Write buf aux c = (Inr (length buf), c') \<and> mc_ok c' \<and> mc_cap c' = mc_cap c \<and>
      mc_list c' = mc_list c @ [m] \<and> msg_data m = buf \<and> (\<forall>a. aux = Some a \<longrightarrow> aux_data m = a)"
proof (cases "mc_size c \<le> mc_in c - mc_out c")
  case True
  then show ?thesis using mc_is_full_list [OF assms] by (simp add: mc_Write_def mc_is_full_def)
next
  case False
  then have nf: "length (mc_list c) \<noteq> mc_cap c" using mc_is_full_list [OF assms] by (simp add: mc_is_full_def)
  show ?thesis using nf False mc_put [OF assms False]
    by (auto simp: mc_Write_def Let_def set_aux_def split: option.splits)
qed

lemma mc_Writev_spec:
  assumes "mc_ok c" "length (concat iov) < 2 ^ 64"
  shows "if length (mc_list c) = mc_cap c then mc_Writev iov aux c = (Inl EAGAIN, c)
    else if concat iov = [] then mc_Writev iov aux c = (Inl EINVAL, c)
    else \<exists>c' m. mc_Writev iov aux c = (Inr (length (concat iov)), c') \<and> mc_ok c' \<and> mc_cap c' = mc_cap c \<and>
      mc_list c' = mc_list c @ [m] \<and> msg_data m = concat iov \<and> (\<forall>a. aux = Some a \<longrightarrow> aux_data m = a)"
proof (cases "mc_size c \<le> mc_in c - mc_out c")
  case True
  then show ?thesis using mc_is_full_list [OF assms(1)] by (simp add: mc_Writev_def mc_is_full_def)
next
  case False
  then have nf: "length (mc_list c) \<noteq> mc_cap c" using mc_is_full_list [OF assms(1)] by (simp add: mc_is_full_def)
  have s: "unat (SumIOV iov) = length (concat iov)"
    unfolding SumIOV_length using assms(2) by (simp add: unat_of_nat)
  then have z: "SumIOV iov = 0 \<longleftrightarrow> concat iov = []" by (metis length_0_conv unat_eq_zero)
  let ?old = "msg_data (mc_msgs c ! ring_index (mc_mask c) (mc_in c))"
  let ?dst = "take (length (concat iov)) ?old @ replicate (length (concat iov) - length ?old) 0"
  have "length ?dst = length (concat iov)" by simp
  moreover obtain n out where g: "GenericCopyv iov [?dst] = (n, out)" by (cases "GenericCopyv iov [?dst]")
  ultimately have w: "GenericWritev iov ?dst = (n, concat iov)"
    using GenericCopyv_correct [OF g] by (simp add: GenericWritev_def)
  show ?thesis using nf False mc_put [OF assms(1) False] w s z
    by (auto simp: mc_Writev_def Let_def set_aux_def split: option.splits)
qed

subsection \<open>Sequences of operations refine a bounded queue of messages\<close>

datatype 'a mc_op = MRead nat bool bool | MReadv "byte list list" bool bool
  | MWrite "byte list" 'a | MWritev "byte list list" 'a
datatype 'a mc_res = MErr errno | MCount nat | MBytes "byte list" "'a option" | MVec nat "byte list" "'a option"

fun mc_step :: "('a \<Rightarrow> 'a) \<Rightarrow> 'a mc_op \<Rightarrow> 'a MessageChannel \<Rightarrow> 'a mc_res \<times> 'a MessageChannel" where
  "mc_step moved (MRead len want peek) c =
     (case mc_Read moved len want peek c of
        (Inl e, c') \<Rightarrow> (MErr e, c') | (Inr (bs, aux), c') \<Rightarrow> (MBytes bs aux, c'))"
| "mc_step moved (MReadv iov peek want) c =
     (case mc_Readv moved iov peek want c of
        (Inl e, c') \<Rightarrow> (MErr e, c') | (Inr (n, iov', aux), c') \<Rightarrow> (MVec n (concat iov') aux, c'))"
| "mc_step moved (MWrite buf a) c =
     (case mc_Write buf (Some a) c of (Inl e, c') \<Rightarrow> (MErr e, c') | (Inr n, c') \<Rightarrow> (MCount n, c'))"
| "mc_step moved (MWritev iov a) c =
     (case mc_Writev iov (Some a) c of (Inl e, c') \<Rightarrow> (MErr e, c') | (Inr n, c') \<Rightarrow> (MCount n, c'))"

text \<open>The queue holds messages with their auxiliary data.  A read that asks for the auxiliary data but
  only peeks at the message leaves the moved-from value behind.\<close>

definition mq_take :: "('a \<Rightarrow> 'a) \<Rightarrow> bool \<Rightarrow> bool \<Rightarrow> (byte list \<times> 'a) list \<Rightarrow> (byte list \<times> 'a) list" where
  "mq_take moved want peek q =
     (case q of [] \<Rightarrow> []
      | (d, a) # q' \<Rightarrow> if peek then (d, if want then moved a else a) # q' else q')"

fun mq_step :: "('a \<Rightarrow> 'a) \<Rightarrow> nat \<Rightarrow> 'a mc_op \<Rightarrow> (byte list \<times> 'a) list \<Rightarrow> 'a mc_res \<times> (byte list \<times> 'a) list" where
  "mq_step moved cap (MRead len want peek) q =
     (case q of [] \<Rightarrow> (MErr EAGAIN, q)
      | (d, a) # _ \<Rightarrow> (MBytes (take len d) (if want then Some a else None), mq_take moved want peek q))"
| "mq_step moved cap (MReadv iov peek want) q =
     (case q of [] \<Rightarrow> (MErr EAGAIN, q)
      | (d, a) # _ \<Rightarrow>
          if iov = [] then (MErr EINVAL, q)
          else (let n = min (length d) (length (concat iov)) in
                (MVec n (take n d @ drop n (concat iov)) (if want then Some a else None),
                 mq_take moved want peek q)))"
| "mq_step moved cap (MWrite buf a) q =
     (if length q = cap then (MErr EAGAIN, q) else (MCount (length buf), q @ [(buf, a)]))"
| "mq_step moved cap (MWritev iov a) q =
     (if length q = cap then (MErr EAGAIN, q)
      else if concat iov = [] then (MErr EINVAL, q)
      else (MCount (length (concat iov)), q @ [(concat iov, a)]))"

definition mc_queue :: "'a MessageChannel \<Rightarrow> (byte list \<times> 'a) list" where
  "mc_queue c = map (\<lambda>m. (msg_data m, aux_data m)) (mc_list c)"

definition mc_op_fits :: "'a mc_op \<Rightarrow> bool" where
  "mc_op_fits x \<longleftrightarrow> (case x of MWritev iov a \<Rightarrow> length (concat iov) < 2 ^ 64 | _ \<Rightarrow> True)"

lemma length_mc_queue [simp]: "length (mc_queue c) = length (mc_list c)"
  by (simp add: mc_queue_def)

lemma mc_step_refines:
  assumes "mc_ok c" "mc_step moved x c = (r, c')" "mc_op_fits x"
  shows "mq_step moved (mc_cap c) x (mc_queue c) = (r, mc_queue c') \<and> mc_ok c' \<and> mc_cap c' = mc_cap c"
proof (cases x)
  case (MRead len want peek)
  then show ?thesis using assms mc_Read_spec [OF assms(1), of moved len want peek]
    by (cases "mc_list c") (auto simp: mc_queue_def mq_take_def take_aux_def)
next
  case (MReadv iov peek want)
  then show ?thesis using assms mc_Readv_spec [OF assms(1), of moved iov peek want]
    by (cases "mc_list c") (auto simp: mc_queue_def mq_take_def take_aux_def Let_def split: if_splits)
next
  case (MWrite buf a)
  then show ?thesis using assms mc_Write_spec [OF assms(1), of buf "Some a"]
    by (auto simp: mc_queue_def simp del: length_mc_list split: if_splits)
next
  case (MWritev iov a)
  then show ?thesis using assms mc_Writev_spec [OF assms(1), of iov "Some a"]
    by (auto simp: mc_queue_def mc_op_fits_def simp del: length_mc_list split: if_splits)
qed

lemma mc_run_refines:
  assumes "mc_ok c" "run_ops (mc_step moved) xs c = (rs, c')" "list_all mc_op_fits xs"
  shows "run_ops (mq_step moved (mc_cap c)) xs (mc_queue c) = (rs, mc_queue c')"
  using assms
proof (induction xs arbitrary: c rs)
  case (Cons x xs)
  obtain r c1 where 1: "mc_step moved x c = (r, c1)" by (cases "mc_step moved x c")
  obtain rs1 where 2: "run_ops (mc_step moved) xs c1 = (rs1, c')" "rs = r # rs1"
    using Cons.prems(2) 1 by (auto split: prod.splits)
  show ?case using mc_step_refines [OF Cons.prems(1) 1] Cons.IH [of c1 rs1] Cons.prems(3) 2 by auto
qed simp



subsection \<open>Saving and loading\<close>

lemma mc_save_msgs_list:
  assumes "mc_ok c" "unat (mc_in c - cur) \<le> fuel" "unat (mc_in c - cur) \<le> unat (mc_in c - mc_out c)"
  shows "mc_save_msgs (Suc fuel) cur c = ring_list (mc_in c) cur (mc_msgs c)"
  using assms(2,3)
proof (induction fuel arbitrary: cur)
  case 0
  then show ?case by (simp add: unat_eq_zero ring_list_def ring_view_def)
next
  case (Suc fuel)
  show ?case
  proof (cases "cur = mc_in c")
    case True
    then show ?thesis by (simp add: ring_list_def ring_view_def)
  next
    case False
    have ok: "ring_ok (mc_in c) cur (mc_size c) (mc_mask c) (mc_msgs c)"
      using assms(1) Suc.prems(2) by (simp add: mc_ok_def ring_ok_def word_le_nat_alt)
    have pos: "1 \<le> unat (mc_in c - cur)" using False by (simp add: Suc_le_eq unat_gt_0)
    have "mc_in c - (cur + 1) = mc_in c - cur - 1" by simp
    then have d: "unat (mc_in c - (cur + 1)) = unat (mc_in c - cur) - 1"
      using pos by (simp only: unat_sub word_le_nat_alt unat_1)
    have rest: "ring_list (mc_in c) (cur + 1) (mc_msgs c) = tl (ring_list (mc_in c) cur (mc_msgs c))"
      using ring_consume [OF ok pos] by (simp add: drop_Suc)
    have "mc_save_msgs (Suc fuel) (cur + 1) c = ring_list (mc_in c) (cur + 1) (mc_msgs c)"
      using Suc.prems d by (intro Suc.IH) linarith+
    then show ?thesis
      using ring_head [OF ok] False rest by (subst mc_save_msgs.simps) (metis list.collapse)
  qed
qed

lemma load_fold:
  assumes "length ms \<le> length xs" "n \<le> length ms"
  shows "fold (\<lambda>i ys. ys[i := ms ! i]) [0..<n] xs = take n ms @ drop n xs"
  using assms(2)
proof (induction n)
  case (Suc n)
  then have "(take n ms @ drop n xs)[n := ms ! n] = take n ms @ ms ! n # drop (Suc n) xs"
    using assms(1) by (simp add: list_update_append upd_conv_take_nth_drop min_def Cons_nth_drop_Suc [symmetric])
  then show ?case using Suc by (simp add: take_Suc_conv_app_nth)
qed simp

text \<open>Loading a saved message channel into a new channel of the same size restores its messages in
  order, with their flags and auxiliary data.\<close>

theorem mc_save_load:
  assumes "mc_ok c" "mc_size c = ring_size sz" "sz \<le> 2 ^ 63"
  shows "mc_ok (mc_load (mc_save c) (MessageChannel_new a sz)) \<and>
    mc_list (mc_load (mc_save c) (MessageChannel_new a sz)) = mc_list c"
proof -
  let ?d = "mc_in c - mc_out c" and ?new = "MessageChannel_new a sz"
  have save: "mc_save c = (?d, mc_list c)"
    using mc_save_msgs_list [OF assms(1), of "mc_out c" "unat ?d"] by (simp add: mc_save_def mc_list_def)
  obtain k where k: "k < 64" "mc_size c = 2 ^ k" "unat ?d \<le> 2 ^ k"
    using assms(1) unfolding mc_ok_def by (elim ring_okE)
  have sz: "ring_size sz = 2 ^ k" using assms(2) k(2) by simp
  then have ln: "length (mc_msgs ?new) = 2 ^ k" using k(1) by (simp add: MessageChannel_new_def unat_pow2)
  have load: "mc_load (mc_save c) ?new = ?new\<lparr>mc_in := ?d, mc_msgs := mc_list c @ drop (unat ?d) (mc_msgs ?new)\<rparr>"
    unfolding save mc_load_def using load_fold [of "mc_list c" "mc_msgs ?new" "unat ?d"] ln k(3) by simp
  define l where "l = mc_list c"
  have l: "length l = unat ?d" "ring_view (l @ drop (unat ?d) (mc_msgs ?new)) 0 (unat ?d) = l"
    by (simp_all add: ring_view_start l_def)
  show ?thesis
    unfolding load l_def [symmetric] using k ln sz l
    by (auto simp: mc_ok_def mc_list_def ring_ok_def ring_list_def
        MessageChannel_new_def unat_pow2 word_le_nat_alt)
qed

theorem mc_save_load_witness:
  "map msg_data (mc_list (mc_load (mc_save
      \<lparr>mc_in = 3, mc_out = 1, mc_size = 2, mc_mask = 1,
       mc_msgs = [\<lparr>msg_flags = 0, aux_data = (), msg_data = [5]\<rparr>, \<lparr>msg_flags = 0, aux_data = (), msg_data = [4]\<rparr>]\<rparr>)
      (MessageChannel_new () 2))) = [[4], [5]]"
proof -
  let ?c = "\<lparr>mc_in = 3, mc_out = 1, mc_size = 2, mc_mask = 1,
       mc_msgs = [\<lparr>msg_flags = 0, aux_data = (), msg_data = [5]\<rparr>, \<lparr>msg_flags = 0, aux_data = (), msg_data = [4]\<rparr>]\<rparr>"
  have s: "ring_size 2 = 2" by (simp add: ring_size_def bit_width.simps)
  have "mc_ok ?c" by (auto simp: mc_ok_def ring_ok_def intro!: exI [of _ 1])
  moreover have "mc_list ?c = [\<lparr>msg_flags = 0, aux_data = (), msg_data = [4]\<rparr>, \<lparr>msg_flags = 0, aux_data = (), msg_data = [5]\<rparr>]"
    by (simp add: mc_list_def ring_list_def ring_view_def upt_rec)
  ultimately show ?thesis using mc_save_load [of ?c 2 "()"] s by simp
qed

end
