(* ===== verification/Poll.thy ===== *)
theory Poll
  imports Prelude
begin

text \<open>
  Event sources, \<open>epoll\<close>, \<open>poll\<close> and \<open>select\<close>:
  \<^verbatim>\<open>src/junction/fs/poll.h\<close> and \<^verbatim>\<open>src/junction/fs/poll.cc\<close>.

  Files and epoll files are numbered.  A \<open>poll_world\<close> holds the event source of every file, with
  the epoll observers registered on it, and for every epoll file its ready list and whether a thread
  sleeps on its waker.  An \<open>EPollObserver\<close> is identified by its epoll file and its file,
  so the ready list of an epoll file is a list of files.  The calls into the pollers of
  \<open>poll\<close> and \<open>select\<close> are recorded in order.
\<close>

definition kPollIn :: u32 where "kPollIn = 0x1"
definition kPollPrio :: u32 where "kPollPrio = 0x2"
definition kPollOut :: u32 where "kPollOut = 0x4"
definition kPollErr :: u32 where "kPollErr = 0x8"
definition kPollHUp :: u32 where "kPollHUp = 0x10"
definition kPollInval :: u32 where "kPollInval = 0x20"
definition kPollRDHUp :: u32 where "kPollRDHUp = 0x2000"
definition kEPollExclusive :: u32 where "kEPollExclusive = 0x10000000"
definition kEPollOneShot :: u32 where "kEPollOneShot = 0x40000000"
definition kEPollEdgeTriggered :: u32 where "kEPollEdgeTriggered = 0x80000000"

lemmas poll_flag_defs = kPollIn_def kPollPrio_def kPollOut_def kPollErr_def kPollHUp_def kPollInval_def
  kPollRDHUp_def kEPollExclusive_def kEPollOneShot_def kEPollEdgeTriggered_def

record EPollObserver =
  attached :: bool
  one_shot_triggered :: bool
  watched_events :: u32
  triggered_events :: u32
  user_data :: u64

record PollSource =
  event_mask :: u32
  observers :: "nat list"
  epoll_observers :: "(nat \<times> EPollObserver) list"

record poll_world =
  pw_src :: "nat \<Rightarrow> PollSource"
  pw_events :: "nat \<Rightarrow> nat list"
  pw_waiting :: "nat \<Rightarrow> bool"
  pw_calls :: "(nat \<times> u32) list"

subsection \<open>Observers\<close>

definition AddEvent :: "nat \<Rightarrow> nat \<Rightarrow> EPollObserver \<Rightarrow> poll_world \<Rightarrow> EPollObserver \<times> poll_world" where
  "AddEvent e f ob w =
     (if attached ob then (ob, w)
      else (ob\<lparr>attached := True\<rparr>,
            w\<lparr>pw_events := (pw_events w)(e := pw_events w e @ [f]), pw_waiting := (pw_waiting w)(e := False)\<rparr>))"

definition RemoveEvent :: "nat \<Rightarrow> nat \<Rightarrow> EPollObserver \<Rightarrow> poll_world \<Rightarrow> EPollObserver \<times> poll_world" where
  "RemoveEvent e f ob w =
     (if \<not> attached ob then (ob, w)
      else (ob\<lparr>attached := False\<rparr>, w\<lparr>pw_events := (pw_events w)(e := remove1 f (pw_events w e))\<rparr>))"

definition EPollObserver_Notify :: "nat \<Rightarrow> nat \<Rightarrow> u32 \<Rightarrow> EPollObserver \<Rightarrow> poll_world
    \<Rightarrow> EPollObserver \<times> poll_world" where
  "EPollObserver_Notify e f events ob w =
     (let ob1 = ob\<lparr>triggered_events := events\<rparr> in
      if triggered_events ob1 AND watched_events ob1 \<noteq> 0 then AddEvent e f ob1 w
      else RemoveEvent e f ob1 w)"

fun EPollFile_Notify :: "nat \<Rightarrow> u32 \<Rightarrow> bool \<Rightarrow> (nat \<times> EPollObserver) list \<Rightarrow> poll_world
    \<Rightarrow> (nat \<times> EPollObserver) list \<times> poll_world" where
  "EPollFile_Notify f events exclusive [] w = ([], w)"
| "EPollFile_Notify f events exclusive ((e, ob) # os) w =
     (let one_shot = watched_events ob AND kEPollOneShot \<noteq> 0;
          skip1 = one_shot \<and> one_shot_triggered ob;
          ob1 = (if one_shot then ob\<lparr>one_shot_triggered := True\<rparr> else ob);
          excl = \<not> skip1 \<and> watched_events ob AND kEPollExclusive \<noteq> 0;
          skip2 = excl \<and> exclusive;
          exclusive1 = (exclusive \<or> excl);
          (ob2, w1) = (if skip1 \<or> skip2 then (ob1, w) else EPollObserver_Notify e f events ob1 w);
          (os1, w2) = EPollFile_Notify f events exclusive1 os w1
      in ((e, ob2) # os1, w2))"

definition set_source :: "nat \<Rightarrow> PollSource \<Rightarrow> poll_world \<Rightarrow> poll_world" where
  "set_source f s w = w\<lparr>pw_src := (pw_src w)(f := s)\<rparr>"

definition PollSource_Notify :: "nat \<Rightarrow> poll_world \<Rightarrow> poll_world" where
  "PollSource_Notify f w =
     (let s = pw_src w f;
          w1 = w\<lparr>pw_calls := pw_calls w @ map (\<lambda>p. (p, event_mask s)) (observers s)\<rparr>;
          (os, w2) = EPollFile_Notify f (event_mask s) False (epoll_observers s) w1
      in set_source f (s\<lparr>epoll_observers := os\<rparr>) w2)"

subsection \<open>Sources\<close>

definition PollSource_Set :: "nat \<Rightarrow> u32 \<Rightarrow> bool \<Rightarrow> poll_world \<Rightarrow> poll_world" where
  "PollSource_Set f ev force_notify w =
     (let cur = event_mask (pw_src w f) in
      if cur AND ev = ev \<and> \<not> force_notify then w
      else PollSource_Notify f (set_source f ((pw_src w f)\<lparr>event_mask := cur OR ev\<rparr>) w))"

definition PollSource_Clear :: "nat \<Rightarrow> u32 \<Rightarrow> poll_world \<Rightarrow> poll_world" where
  "PollSource_Clear f ev w =
     (let cur = event_mask (pw_src w f) in
      if cur AND ev = 0 then w
      else PollSource_Notify f (set_source f ((pw_src w f)\<lparr>event_mask := cur AND NOT ev\<rparr>) w))"

definition PollSource_Attach :: "nat \<Rightarrow> nat \<Rightarrow> poll_world \<Rightarrow> poll_world" where
  "PollSource_Attach f p w =
     (let s = pw_src w f;
          w1 = set_source f (s\<lparr>observers := observers s @ [p]\<rparr>) w
      in if event_mask s \<noteq> 0 then w1\<lparr>pw_calls := pw_calls w1 @ [(p, event_mask s)]\<rparr> else w1)"

definition PollSource_Detach :: "nat \<Rightarrow> nat \<Rightarrow> poll_world \<Rightarrow> poll_world" where
  "PollSource_Detach f p w =
     (let s = pw_src w f in set_source f (s\<lparr>observers := remove1 p (observers s)\<rparr>) w)"

subsection \<open>Epoll files\<close>

definition EPollFile_Add :: "nat \<Rightarrow> nat \<Rightarrow> u32 \<Rightarrow> u64 \<Rightarrow> bool \<Rightarrow> u32 \<Rightarrow> poll_world \<Rightarrow> bool \<times> poll_world" where
  "EPollFile_Add e f events udata one_shot triggered w =
     (let s = pw_src w f;
          ob = \<lparr>attached = False, one_shot_triggered = one_shot,
                watched_events = events OR (kPollHUp OR kPollErr), triggered_events = 0, user_data = udata\<rparr>
      in if list_ex (\<lambda>(e', _). e' = e) (epoll_observers s) then (False, w)
         else (let (ob1, w1) = EPollObserver_Notify e f (event_mask s OR triggered) ob w
               in (True, set_source f (s\<lparr>epoll_observers := epoll_observers s @ [(e, ob1)]\<rparr>) w1)))"

fun modify_loop :: "nat \<Rightarrow> nat \<Rightarrow> u32 \<Rightarrow> u64 \<Rightarrow> (nat \<times> EPollObserver) list \<Rightarrow> poll_world
    \<Rightarrow> (bool \<times> (nat \<times> EPollObserver) list) \<times> poll_world" where
  "modify_loop e f events udata [] w = ((False, []), w)"
| "modify_loop e f events udata ((e', ob) # os) w =
     (if e' \<noteq> e then
        (case modify_loop e f events udata os w of ((r, os1), w1) \<Rightarrow> ((r, (e', ob) # os1), w1))
      else
        (let ob1 = ob\<lparr>watched_events := events, user_data := udata, one_shot_triggered := False\<rparr>;
             (ob2, w1) = EPollObserver_Notify e f (triggered_events ob1) ob1 w
         in ((True, (e', ob2) # os), w1)))"

definition EPollFile_Modify :: "nat \<Rightarrow> nat \<Rightarrow> u32 \<Rightarrow> u64 \<Rightarrow> poll_world \<Rightarrow> bool \<times> poll_world" where
  "EPollFile_Modify e f events udata w =
     (let s = pw_src w f;
          ((r, os), w1) = modify_loop e f (events OR (kPollHUp OR kPollErr)) udata (epoll_observers s) w
      in (r, set_source f (s\<lparr>epoll_observers := os\<rparr>) w1))"

text \<open>Deleting an observer also takes it off the ready list.\<close>

fun delete_loop :: "nat \<Rightarrow> nat \<Rightarrow> (nat \<times> EPollObserver) list \<Rightarrow> poll_world
    \<Rightarrow> (bool \<times> (nat \<times> EPollObserver) list) \<times> poll_world" where
  "delete_loop e f [] w = ((False, []), w)"
| "delete_loop e f ((e', ob) # os) w =
     (if e' = e then ((True, os), snd (RemoveEvent e f ob w))
      else (case delete_loop e f os w of ((r, os1), w1) \<Rightarrow> ((r, (e', ob) # os1), w1)))"

definition EPollFile_Delete :: "nat \<Rightarrow> nat \<Rightarrow> poll_world \<Rightarrow> bool \<times> poll_world" where
  "EPollFile_Delete e f w =
     (let s = pw_src w f;
          ((r, os), w1) = delete_loop e f (epoll_observers s) w
      in (r, set_source f (s\<lparr>epoll_observers := os\<rparr>) w1))"

text \<open>Access to the observer of epoll file \<open>e\<close> on file \<open>f\<close>.\<close>

definition get_obs :: "poll_world \<Rightarrow> nat \<Rightarrow> nat \<Rightarrow> EPollObserver option" where
  "get_obs w e f = map_of (epoll_observers (pw_src w f)) e"

definition put_obs :: "nat \<Rightarrow> nat \<Rightarrow> EPollObserver \<Rightarrow> poll_world \<Rightarrow> poll_world" where
  "put_obs e f ob w =
     (let s = pw_src w f in
      set_source f (s\<lparr>epoll_observers := map (\<lambda>(e', ob'). (e', if e' = e then ob else ob')) (epoll_observers s)\<rparr>) w)"

text \<open>Delivery: pop up to \<open>n\<close> observers; level-triggered ones go to \<open>tmp\<close>, which is put
  back at the end.\<close>

fun deliver_loop :: "nat \<Rightarrow> nat \<Rightarrow> nat list \<Rightarrow> nat list \<Rightarrow> poll_world
    \<Rightarrow> (u32 \<times> u64) list \<times> nat list \<times> nat list \<times> poll_world" where
  "deliver_loop e 0 evs tmp w = ([], evs, tmp, w)"
| "deliver_loop e (Suc n) [] tmp w = ([], [], tmp, w)"
| "deliver_loop e (Suc n) (f # evs) tmp w =
     (case get_obs w e f of
        None \<Rightarrow> ([], f # evs, tmp, w)
      | Some ob \<Rightarrow>
          (let ev = (triggered_events ob AND watched_events ob, user_data ob);
               edge = watched_events ob AND kEPollEdgeTriggered \<noteq> 0;
               w1 = (if edge then put_obs e f (ob\<lparr>attached := False\<rparr>) w else w);
               tmp1 = (if edge then tmp else tmp @ [f]);
               (evs_out, rest, tmp2, w2) = deliver_loop e n evs tmp1 w1
           in (ev # evs_out, rest, tmp2, w2)))"

definition DeliverEvents :: "nat \<Rightarrow> nat \<Rightarrow> poll_world \<Rightarrow> (u32 \<times> u64) list \<times> poll_world" where
  "DeliverEvents e maxevents w =
     (let (evs_out, rest, tmp, w1) = deliver_loop e maxevents (pw_events w e) [] w
      in (evs_out, w1\<lparr>pw_events := (pw_events w1)(e := rest @ tmp)\<rparr>))"

text \<open>\<open>Wait\<close> in two parts: the fast path up to going to sleep, and what runs after the sleep ends
  because of an event, the timeout or a signal.\<close>

datatype wait_result = WEvents "(u32 \<times> u64) list" | WErr errno | WSleep

definition EPollFile_Wait :: "nat \<Rightarrow> nat \<Rightarrow> nat option \<Rightarrow> poll_world \<Rightarrow> wait_result \<times> poll_world" where
  "EPollFile_Wait e maxevents timeout w =
     (if pw_events w e \<noteq> [] then (case DeliverEvents e maxevents w of (evs, w1) \<Rightarrow> (WEvents evs, w1))
      else if timeout = Some 0 then (WEvents [], w)
      else (WSleep, w\<lparr>pw_waiting := (pw_waiting w)(e := True)\<rparr>))"

definition EPollFile_Wait_resume :: "nat \<Rightarrow> nat \<Rightarrow> nat option \<Rightarrow> bool \<Rightarrow> bool \<Rightarrow> poll_world
    \<Rightarrow> wait_result \<times> poll_world" where
  "EPollFile_Wait_resume e maxevents timeout timed_out signaled w =
     (let w1 = w\<lparr>pw_waiting := (pw_waiting w)(e := False)\<rparr> in
      if pw_events w e \<noteq> [] then (case DeliverEvents e maxevents w1 of (evs, w2) \<Rightarrow> (WEvents evs, w2))
      else if timed_out then (WEvents [], w1)
      else if signaled then (WErr (if timeout = None then ERESTARTSYS else EINTR), w1)
      else (WSleep, w))"

fun detach_all :: "nat \<Rightarrow> (nat \<times> EPollObserver) list \<Rightarrow> poll_world \<Rightarrow> poll_world" where
  "detach_all f [] w = w"
| "detach_all f ((e, ob) # os) w = detach_all f os (snd (RemoveEvent e f ob w))"

definition DetachEPollObservers :: "nat \<Rightarrow> poll_world \<Rightarrow> poll_world" where
  "DetachEPollObservers f w =
     set_source f ((pw_src w f)\<lparr>epoll_observers := []\<rparr>) (detach_all f (epoll_observers (pw_src w f)) w)"

subsection \<open>The ready lists agree with the observers\<close>

text \<open>The local invariant of one observer, and the invariant of the world: every observer's
  \<open>attached\<close> flag says whether it is on its epoll file's ready list, and a thread sleeps only
  on an empty ready list.\<close>

definition ready_ok :: "poll_world \<Rightarrow> nat \<Rightarrow> bool" where
  "ready_ok w e \<longleftrightarrow> distinct (pw_events w e) \<and> (pw_waiting w e \<longrightarrow> pw_events w e = [])"

definition obs_ok :: "poll_world \<Rightarrow> nat \<Rightarrow> nat \<Rightarrow> EPollObserver option \<Rightarrow> bool" where
  "obs_ok w f e ob \<longleftrightarrow> (f \<in> set (pw_events w e) \<longleftrightarrow> (case ob of None \<Rightarrow> False | Some ob \<Rightarrow> attached ob))"

definition pw_ok :: "poll_world \<Rightarrow> bool" where
  "pw_ok w \<longleftrightarrow> (\<forall>e. ready_ok w e) \<and> (\<forall>f. distinct (map fst (epoll_observers (pw_src w f)))) \<and>
     (\<forall>e f. obs_ok w f e (get_obs w e f))"

text \<open>The observer sees the current events; a level-triggered one is on the ready list exactly when a
  watched event is set, an edge-triggered one only then.\<close>

definition plain_events :: "u32 \<Rightarrow> bool" where
  "plain_events ev \<longleftrightarrow> ev AND kEPollOneShot = 0 \<and> ev AND kEPollExclusive = 0"

definition obs_synced :: "u32 \<Rightarrow> EPollObserver \<Rightarrow> bool" where
  "obs_synced m ob \<longleftrightarrow> plain_events (watched_events ob) \<and> triggered_events ob = m \<and>
     (attached ob \<longrightarrow> m AND watched_events ob \<noteq> 0) \<and>
     (watched_events ob AND kEPollEdgeTriggered = 0 \<longrightarrow> m AND watched_events ob \<noteq> 0 \<longrightarrow> attached ob)"

definition pw_synced :: "poll_world \<Rightarrow> bool" where
  "pw_synced w \<longleftrightarrow> (\<forall>e f ob. get_obs w e f = Some ob \<longrightarrow> obs_synced (event_mask (pw_src w f)) ob)"

lemma plain_events_or:
  "plain_events (a OR b) \<longleftrightarrow> plain_events a \<and> plain_events b"
  unfolding plain_events_def bit_eq_iff by (auto simp: bit_simps)

lemma plain_hup_err: "plain_events (kPollHUp OR kPollErr)"
  by (simp add: plain_events_def poll_flag_defs)

text \<open>What one notification changes: only the ready list of its own epoll file, and there only whether
  its own file is on it.\<close>

definition others_same :: "nat \<Rightarrow> nat \<Rightarrow> poll_world \<Rightarrow> poll_world \<Rightarrow> bool" where
  "others_same e f w w' \<longleftrightarrow> pw_src w' = pw_src w \<and> pw_calls w' = pw_calls w \<and>
     (\<forall>e'. e' \<noteq> e \<longrightarrow> pw_events w' e' = pw_events w e' \<and> pw_waiting w' e' = pw_waiting w e') \<and>
     (\<forall>f'. f' \<noteq> f \<longrightarrow> f' \<in> set (pw_events w' e) \<longleftrightarrow> f' \<in> set (pw_events w e))"

lemma RemoveEvent_spec:
  assumes "RemoveEvent e f ob w = (ob', w')" "ready_ok w e" "obs_ok w f e (Some ob)"
  shows "others_same e f w w' \<and> ready_ok w' e \<and> obs_ok w' f e (Some ob') \<and> ob' = ob\<lparr>attached := False\<rparr>"
  using assms
  by (auto simp: RemoveEvent_def others_same_def ready_ok_def obs_ok_def split: if_splits)

lemma AddEvent_spec:
  assumes "AddEvent e f ob w = (ob', w')" "ready_ok w e" "obs_ok w f e (Some ob)"
  shows "others_same e f w w' \<and> ready_ok w' e \<and> obs_ok w' f e (Some ob') \<and> ob' = ob\<lparr>attached := True\<rparr>"
  using assms
  by (auto simp: AddEvent_def others_same_def ready_ok_def obs_ok_def split: if_splits)

lemma EPollObserver_Notify_spec:
  assumes "EPollObserver_Notify e f m ob w = (ob', w')" "ready_ok w e" "obs_ok w f e (Some ob)"
  shows "others_same e f w w' \<and> ready_ok w' e \<and> obs_ok w' f e (Some ob') \<and>
    ob' = ob\<lparr>triggered_events := m, attached := (m AND watched_events ob \<noteq> 0)\<rparr>"
proof -
  have ok: "obs_ok w f e (Some (ob\<lparr>triggered_events := m\<rparr>))" using assms(3) by (simp add: obs_ok_def)
  show ?thesis
  proof (cases "m AND watched_events ob = 0")
    case True
    then show ?thesis using assms(1) RemoveEvent_spec [OF _ assms(2) ok, of ob' w']
      by (auto simp: EPollObserver_Notify_def)
  next
    case False
    then show ?thesis using assms(1) AddEvent_spec [OF _ assms(2) ok, of ob' w']
      by (auto simp: EPollObserver_Notify_def)
  qed
qed

lemma others_same_refl [simp]: "others_same e f w w"
  by (simp add: others_same_def)

text \<open>The same for a list of observers of one file.\<close>

definition file_only :: "nat \<Rightarrow> nat set \<Rightarrow> poll_world \<Rightarrow> poll_world \<Rightarrow> bool" where
  "file_only f E w w' \<longleftrightarrow> pw_src w' = pw_src w \<and> pw_calls w' = pw_calls w \<and>
     (\<forall>e. e \<notin> E \<longrightarrow> pw_events w' e = pw_events w e \<and> pw_waiting w' e = pw_waiting w e) \<and>
     (\<forall>e f'. f' \<noteq> f \<longrightarrow> f' \<in> set (pw_events w' e) \<longleftrightarrow> f' \<in> set (pw_events w e))"

lemma file_only_refl [simp]: "file_only f E w w"
  by (simp add: file_only_def)

lemma others_same_file_only: "others_same e f w w' \<Longrightarrow> e \<in> E \<Longrightarrow> file_only f E w w'"
  unfolding others_same_def file_only_def by metis

lemma file_only_trans: "file_only f E w w1 \<Longrightarrow> file_only f E w1 w2 \<Longrightarrow> file_only f E w w2"
  unfolding file_only_def by metis

lemma file_only_mono: "file_only f E w w' \<Longrightarrow> E \<subseteq> E' \<Longrightarrow> file_only f E' w w'"
  unfolding file_only_def by blast

lemma others_same_ok:
  assumes "others_same e f w w'" "e' \<noteq> e"
  shows "ready_ok w' e' = ready_ok w e'" "obs_ok w' f e' ob = obs_ok w f e' ob"
  using assms by (simp_all add: others_same_def ready_ok_def obs_ok_def)

lemma EPollFile_Notify_spec:
  assumes "EPollFile_Notify f m ex os w = (os', w')" "\<forall>e. ready_ok w e" "distinct (map fst os)"
    "\<forall>(e, ob) \<in> set os. obs_ok w f e (Some ob)"
  shows "file_only f (fst ` set os) w w' \<and> (\<forall>e. ready_ok w' e) \<and> map fst os' = map fst os \<and>
    (\<forall>(e, ob) \<in> set os'. obs_ok w' f e (Some ob)) \<and>
    (\<forall>(e, ob) \<in> set os. plain_events (watched_events ob) \<longrightarrow>
       (e, ob\<lparr>triggered_events := m, attached := (m AND watched_events ob \<noteq> 0)\<rparr>) \<in> set os')"
  using assms
proof (induction os arbitrary: ex w os' w')
  case (Cons x os)
  obtain e ob where x: "x = (e, ob)" by (cases x)
  define one where "one = (watched_events ob AND kEPollOneShot \<noteq> 0)"
  define skip where "skip = (one \<and> one_shot_triggered ob \<or>
     (\<not> (one \<and> one_shot_triggered ob) \<and> watched_events ob AND kEPollExclusive \<noteq> 0) \<and> ex)"
  define ob1 where "ob1 = (if one then ob\<lparr>one_shot_triggered := True\<rparr> else ob)"
  obtain ob2 w1 where n: "(if skip then (ob1, w) else EPollObserver_Notify e f m ob1 w) = (ob2, w1)"
    by fastforce
  obtain ex1 os1 where r: "EPollFile_Notify f m ex1 os w1 = (os1, w')" "os' = (e, ob2) # os1"
    using Cons.prems(1) n unfolding x EPollFile_Notify.simps Let_def one_def ob1_def skip_def
    by (auto split: prod.splits)
  have ok: "obs_ok w f e (Some ob1)" "ready_ok w e" "watched_events ob1 = watched_events ob"
    using Cons.prems(2,4) x by (auto simp: ob1_def obs_ok_def)
  have s1: "others_same e f w w1" "ready_ok w1 e" "obs_ok w1 f e (Some ob2)"
    using n ok EPollObserver_Notify_spec [of e f m ob1 w ob2 w1] by (auto split: if_splits)
  have plain: "ob2 = ob\<lparr>triggered_events := m, attached := (m AND watched_events ob \<noteq> 0)\<rparr>"
    if "plain_events (watched_events ob)"
    using n that ok EPollObserver_Notify_spec [of e f m ob1 w ob2 w1]
    by (auto simp: ob1_def one_def skip_def plain_events_def split: if_splits)
  have ne: "e \<notin> fst ` set os" "distinct (map fst os)" using Cons.prems(3) x by auto
  have rd: "\<forall>e. ready_ok w1 e"
  proof
    show "ready_ok w1 e'" for e'
      using s1(2) Cons.prems(2) others_same_ok(1) [OF s1(1), of e'] by (cases "e' = e") auto
  qed
  have os: "\<forall>(e, ob) \<in> set os. obs_ok w1 f e (Some ob)"
  proof (intro ballI)
    fix y assume y: "y \<in> set os"
    then have "fst y \<noteq> e" "obs_ok w f (fst y) (Some (snd y))" using ne(1) Cons.prems(4) by auto
    then show "case y of (e, ob) \<Rightarrow> obs_ok w1 f e (Some ob)"
      using others_same_ok(2) [OF s1(1)] by (simp add: case_prod_beta)
  qed
  note IH = Cons.IH [OF r(1) rd ne(2) os]
  have fo: "file_only f (fst ` set (x # os)) w w'"
  proof (rule file_only_trans)
    show "file_only f (fst ` set (x # os)) w w1" by (rule others_same_file_only [OF s1(1)]) (simp add: x)
    show "file_only f (fst ` set (x # os)) w1 w'" by (rule file_only_mono [OF conjunct1 [OF IH]]) auto
  qed
  have "obs_ok w' f e (Some ob2)"
    using IH s1(3) ne(1) by (auto simp: obs_ok_def file_only_def)
  then show ?case using IH fo plain x r(2) by auto
qed simp

subsection \<open>The operations keep the invariants\<close>

lemma set_source_simps [simp]:
  "pw_events (set_source f s w) = pw_events w" "pw_waiting (set_source f s w) = pw_waiting w"
  "pw_calls (set_source f s w) = pw_calls w" "pw_src (set_source f s w) = (pw_src w)(f := s)"
  "ready_ok (set_source f s w) e = ready_ok w e" "obs_ok (set_source f s w) g e ob = obs_ok w g e ob"
  by (simp_all add: set_source_def ready_ok_def obs_ok_def)

lemma map_of_in:
  "distinct (map fst xs) \<Longrightarrow> (k, v) \<in> set xs \<Longrightarrow> map_of xs k = Some v"
  by simp

lemma pw_ok_ready: "pw_ok w \<Longrightarrow> \<forall>e. ready_ok w e"
  by (simp add: pw_ok_def)

lemma pw_ok_obs:
  assumes "pw_ok w"
  shows "distinct (map fst (epoll_observers (pw_src w f)))"
    "\<forall>(e, ob) \<in> set (epoll_observers (pw_src w f)). obs_ok w f e (Some ob)"
    "\<forall>e. e \<notin> fst ` set (epoll_observers (pw_src w f)) \<longrightarrow> f \<notin> set (pw_events w e)"
proof -
  show d: "distinct (map fst (epoll_observers (pw_src w f)))"
    using assms by (auto simp: pw_ok_def)
  have o: "obs_ok w f e (get_obs w e f)" for e using assms by (simp add: pw_ok_def)
  show "\<forall>(e, ob) \<in> set (epoll_observers (pw_src w f)). obs_ok w f e (Some ob)"
  proof (intro ballI)
    fix y assume y: "y \<in> set (epoll_observers (pw_src w f))"
    obtain e ob where e: "y = (e, ob)" by (cases y)
    show "case y of (e, ob) \<Rightarrow> obs_ok w f e (Some ob)"
      using o [of e] map_of_in [OF d, of e ob] y e by (simp add: get_obs_def)
  qed
  show "\<forall>e. e \<notin> fst ` set (epoll_observers (pw_src w f)) \<longrightarrow> f \<notin> set (pw_events w e)"
    using o by (auto simp: obs_ok_def get_obs_def dest!: map_of_eq_None_iff [THEN iffD2] split: option.splits)
qed

text \<open>Replacing the observers of one file after an update of the ready lists that concerns only that
  file.\<close>

lemma pw_ok_update:
  assumes "pw_ok w" "file_only f E w w'" "\<forall>e. ready_ok w' e" "distinct (map fst (epoll_observers s))"
    "\<forall>(e, ob) \<in> set (epoll_observers s). obs_ok w' f e (Some ob)"
    "\<And>e. e \<notin> fst ` set (epoll_observers s) \<Longrightarrow> f \<notin> set (pw_events w' e)"
  shows "pw_ok (set_source f s w')"
proof -
  have src: "pw_src w' = pw_src w" using assms(2) by (simp add: file_only_def)
  have "obs_ok w' g e (get_obs (set_source f s w') e g)" for e g
  proof (cases "g = f")
    case True
    show ?thesis
    proof (cases "map_of (epoll_observers s) e")
      case None
      then have "f \<notin> set (pw_events w' e)" using assms(6) [of e] by (simp add: map_of_eq_None_iff)
      then show ?thesis using True None by (simp add: get_obs_def obs_ok_def)
    next
      case (Some ob)
      then show ?thesis using assms(5) True map_of_SomeD [OF Some] by (auto simp: get_obs_def)
    qed
  next
    case False
    have "obs_ok w g e (get_obs w e g)" using assms(1) by (simp add: pw_ok_def)
    then show ?thesis using False assms(2) src by (simp add: get_obs_def obs_ok_def file_only_def)
  qed
  then show ?thesis using assms(1,3,4) src by (simp add: pw_ok_def)
qed

lemma pw_ok_mask:
  assumes "pw_ok w" "epoll_observers s = epoll_observers (pw_src w f)"
  shows "pw_ok (set_source f s w)"
  by (rule pw_ok_update [OF assms(1) file_only_refl pw_ok_ready [OF assms(1)]])
    (use pw_ok_obs [OF assms(1), of f] assms(2) in simp_all)

lemma pw_ok_calls: "pw_ok (w\<lparr>pw_calls := x\<rparr>) = pw_ok w"
  by (simp add: pw_ok_def ready_ok_def obs_ok_def get_obs_def)

lemma PollSource_Notify_ok:
  assumes "pw_ok w"
  shows "pw_ok (PollSource_Notify f w) \<and> event_mask (pw_src (PollSource_Notify f w) f) = event_mask (pw_src w f) \<and>
    (\<forall>g. g \<noteq> f \<longrightarrow> pw_src (PollSource_Notify f w) g = pw_src w g) \<and>
    (\<forall>(e, ob) \<in> set (epoll_observers (pw_src (PollSource_Notify f w) f)).
       \<exists>ob0. (e, ob0) \<in> set (epoll_observers (pw_src w f)) \<and> (plain_events (watched_events ob0) \<longrightarrow>
         ob = ob0\<lparr>triggered_events := event_mask (pw_src w f),
                  attached := (event_mask (pw_src w f) AND watched_events ob0 \<noteq> 0)\<rparr>))"
proof -
  let ?s = "pw_src w f"
  define w1 where "w1 = w\<lparr>pw_calls := pw_calls w @ map (\<lambda>p. (p, event_mask ?s)) (observers ?s)\<rparr>"
  obtain os w2 where n: "EPollFile_Notify f (event_mask ?s) False (epoll_observers ?s) w1 = (os, w2)"
    by (cases "EPollFile_Notify f (event_mask ?s) False (epoll_observers ?s) w1")
  have N: "PollSource_Notify f w = set_source f (?s\<lparr>epoll_observers := os\<rparr>) w2"
    using n by (simp add: PollSource_Notify_def w1_def Let_def)
  have ok1: "pw_ok w1" "pw_src w1 = pw_src w" using assms by (simp_all add: w1_def pw_ok_calls)
  note o1 = pw_ok_obs [OF ok1(1), of f, unfolded ok1(2)]
  note S = EPollFile_Notify_spec [OF n pw_ok_ready [OF ok1(1)] o1(1,2)]
  have keys: "fst ` set os = fst ` set (epoll_observers ?s)" using S by (metis list.set_map)
  have "pw_ok (PollSource_Notify f w)"
    unfolding N
  proof (rule pw_ok_update [OF ok1(1)])
    show "file_only f (fst ` set (epoll_observers ?s)) w1 w2" using S by blast
    show "\<forall>e. ready_ok w2 e" using S by blast
    show "distinct (map fst (epoll_observers (?s\<lparr>epoll_observers := os\<rparr>)))" using S o1(1) by simp
    show "\<forall>(e, ob)\<in>set (epoll_observers (?s\<lparr>epoll_observers := os\<rparr>)). obs_ok w2 f e (Some ob)" using S by simp
    show "f \<notin> set (pw_events w2 e)" if "e \<notin> fst ` set (epoll_observers (?s\<lparr>epoll_observers := os\<rparr>))" for e
      using that keys S o1(3) by (simp add: file_only_def)
  qed
  moreover have "pw_src w2 = pw_src w" using S ok1 by (simp add: file_only_def)
  moreover have "\<exists>ob0. (e, ob0) \<in> set (epoll_observers ?s) \<and> (plain_events (watched_events ob0) \<longrightarrow>
      ob = ob0\<lparr>triggered_events := event_mask ?s, attached := (event_mask ?s AND watched_events ob0 \<noteq> 0)\<rparr>)"
    if mem: "(e, ob) \<in> set os" for e ob
  proof -
    have "e \<in> fst ` set (epoll_observers ?s)" using mem unfolding keys [symmetric] by force
    then obtain ob0 where 0: "(e, ob0) \<in> set (epoll_observers ?s)" by auto
    have "ob' = ob" if "(e, ob') \<in> set os" for ob'
      using that mem S o1(1) by (metis eq_key_imp_eq_value)
    then show ?thesis using 0 S by blast
  qed
  ultimately show ?thesis unfolding N by auto
qed

lemma get_obs_mem: "get_obs w e f = Some ob \<Longrightarrow> (e, ob) \<in> set (epoll_observers (pw_src w f))"
  by (simp add: get_obs_def map_of_SomeD)

lemma mem_get_obs: "pw_ok w \<Longrightarrow> (e, ob) \<in> set (epoll_observers (pw_src w f)) \<Longrightarrow> get_obs w e f = Some ob"
  by (simp add: get_obs_def pw_ok_def)

lemma get_obs_set_source:
  "get_obs (set_source f s w) e g = (if g = f then map_of (epoll_observers s) e else get_obs w e g)"
  by (simp add: get_obs_def)

lemma Notify_inv:
  assumes "pw_ok w" "pw_synced w" "epoll_observers s = epoll_observers (pw_src w f)"
  defines "w' \<equiv> PollSource_Notify f (set_source f s w)"
  shows "pw_ok w' \<and> pw_synced w'"
proof
  note N = PollSource_Notify_ok [OF pw_ok_mask [OF assms(1,3)], of f, folded w'_def]
  show "pw_ok w'" using N by blast
  show "pw_synced w'"
    unfolding pw_synced_def
  proof (intro allI impI)
    fix e g ob assume g: "get_obs w' e g = Some ob"
    show "obs_synced (event_mask (pw_src w' g)) ob"
    proof (cases "g = f")
      case True
      obtain ob0 where o: "(e, ob0) \<in> set (epoll_observers (pw_src w f))"
        "plain_events (watched_events ob0) \<longrightarrow> ob = ob0\<lparr>triggered_events := event_mask s,
           attached := (event_mask s AND watched_events ob0 \<noteq> 0)\<rparr>"
        using N get_obs_mem [OF g] True assms(3) by fastforce
      then have "obs_synced (event_mask (pw_src w f)) ob0"
        using assms(2) mem_get_obs [OF assms(1) o(1)] by (simp add: pw_synced_def)
      then show ?thesis using o(2) N True by (simp add: obs_synced_def)
    next
      case False
      then have "get_obs w e g = Some ob" using g N by (simp add: get_obs_def)
      then show ?thesis using assms(2) False N by (simp add: pw_synced_def)
    qed
  qed
qed

lemma Set_inv: "pw_ok w \<Longrightarrow> pw_synced w \<Longrightarrow> pw_ok (PollSource_Set f ev force w) \<and> pw_synced (PollSource_Set f ev force w)"
  by (simp add: PollSource_Set_def Let_def Notify_inv)

lemma Clear_inv: "pw_ok w \<Longrightarrow> pw_synced w \<Longrightarrow> pw_ok (PollSource_Clear f ev w) \<and> pw_synced (PollSource_Clear f ev w)"
  by (simp add: PollSource_Clear_def Let_def Notify_inv)

lemma synced_frame:
  assumes "pw_synced w" "\<And>e g ob. get_obs w' e g = Some ob \<Longrightarrow> g \<noteq> f \<Longrightarrow> get_obs w e g = Some ob"
    "\<And>g. g \<noteq> f \<Longrightarrow> event_mask (pw_src w' g) = event_mask (pw_src w g)"
    "\<And>e ob. get_obs w' e f = Some ob \<Longrightarrow> obs_synced (event_mask (pw_src w' f)) ob"
  shows "pw_synced w'"
  unfolding pw_synced_def
proof (intro allI impI)
  fix e g ob assume g: "get_obs w' e g = Some ob"
  show "obs_synced (event_mask (pw_src w' g)) ob"
  proof (cases "g = f")
    case False
    then show ?thesis using assms(1) assms(2) [OF g] assms(3) [of g] by (simp add: pw_synced_def)
  qed (use g assms(4) in simp)
qed

lemma Add_inv:
  assumes "pw_ok w" "EPollFile_Add e f ev u os trig w = (r, w')"
  shows "pw_ok w' \<and> (r \<longleftrightarrow> get_obs w e f = None) \<and> (r \<longrightarrow> get_obs w' e f \<noteq> None) \<and>
    (pw_synced w \<longrightarrow> plain_events ev \<longrightarrow> trig = 0 \<longrightarrow> pw_synced w')"
proof (cases "get_obs w e f")
  case (Some ob)
  then have "list_ex (\<lambda>(e', _). e' = e) (epoll_observers (pw_src w f))"
    using get_obs_mem [OF Some] by (auto simp: list_ex_iff)
  then show ?thesis using assms Some by (simp add: EPollFile_Add_def Let_def)
next
  case None
  let ?s = "pw_src w f"
  have nex: "\<not> list_ex (\<lambda>(e', _). e' = e) (epoll_observers ?s)" "e \<notin> fst ` set (epoll_observers ?s)"
    using None by (force simp: get_obs_def map_of_eq_None_iff list_ex_iff)+
  define ob where "ob = \<lparr>attached = False, one_shot_triggered = os,
    watched_events = ev OR (kPollHUp OR kPollErr), triggered_events = 0, user_data = u\<rparr>"
  obtain ob1 w1 where n: "EPollObserver_Notify e f (event_mask ?s OR trig) ob w = (ob1, w1)"
    by (cases "EPollObserver_Notify e f (event_mask ?s OR trig) ob w")
  let ?s1 = "?s\<lparr>epoll_observers := epoll_observers ?s @ [(e, ob1)]\<rparr>"
  have w': "r" "w' = set_source f ?s1 w1" using assms(2) nex n by (simp_all add: EPollFile_Add_def Let_def ob_def)
  note o = pw_ok_obs [OF assms(1), of f]
  have "obs_ok w f e (Some ob)" using o(3) nex(2) by (simp add: obs_ok_def ob_def)
  note N = EPollObserver_Notify_spec [OF n spec [OF pw_ok_ready [OF assms(1)]] this]
  have fo: "file_only f {e} w w1" using N by (auto intro: others_same_file_only)
  have rd: "\<forall>e. ready_ok w1 e"
    using N pw_ok_ready [OF assms(1)] others_same_ok(1) [of e f w w1] by metis
  have ok: "pw_ok w'"
    unfolding w'(2)
  proof (rule pw_ok_update [OF assms(1) fo rd])
    show "distinct (map fst (epoll_observers ?s1))" using o(1) nex(2) by simp
    show "\<forall>(e, ob)\<in>set (epoll_observers ?s1). obs_ok w1 f e (Some ob)"
    proof (intro ballI)
      fix y assume y: "y \<in> set (epoll_observers ?s1)"
      show "case y of (e, ob) \<Rightarrow> obs_ok w1 f e (Some ob)"
      proof (cases "fst y = e")
        case True
        then have "y = (e, ob1)" using y nex(2) by force
        then show ?thesis using N by auto
      next
        case False
        then have "obs_ok w f (fst y) (Some (snd y))" using y o(2) by auto
        then show ?thesis using False N others_same_ok(2) [of e f w w1 "fst y"] by (simp add: case_prod_beta)
      qed
    qed
    show "f \<notin> set (pw_events w1 e')" if "e' \<notin> fst ` set (epoll_observers ?s1)" for e'
      using that o(3) fo by (simp add: file_only_def)
  qed
  have src: "pw_src w1 = pw_src w" using fo by (simp add: file_only_def)
  have "pw_synced w'" if s: "pw_synced w" "plain_events ev" "trig = 0"
  proof (rule synced_frame [OF s(1), of w' f])
    fix e' ob' assume "get_obs w' e' f = Some ob'"
    then have "get_obs w e' f = Some ob' \<or> ob' = ob1"
      unfolding w'(2) by (auto simp: get_obs_set_source map_add_Some_iff get_obs_def split: if_splits)
    then show "obs_synced (event_mask (pw_src w' f)) ob'"
    proof
      assume "ob' = ob1"
      then show ?thesis using N s(2,3) plain_hup_err
        by (simp add: w'(2) ob_def obs_synced_def plain_events_or)
    next
      assume "get_obs w e' f = Some ob'"
      then show ?thesis using s(1) by (simp add: w'(2) pw_synced_def)
    qed
  qed (use w'(2) src in \<open>simp_all add: get_obs_def\<close>)
  then show ?thesis using ok None w'(1) by (simp add: w'(2) get_obs_set_source)
qed

definition mod_obs :: "u32 \<Rightarrow> u64 \<Rightarrow> EPollObserver \<Rightarrow> EPollObserver" where
  "mod_obs ev u ob = ob\<lparr>watched_events := ev, user_data := u, one_shot_triggered := False,
     attached := (triggered_events ob AND ev \<noteq> 0)\<rparr>"

lemma modify_loop_spec:
  assumes "modify_loop e f ev u os w = ((r, os'), w')" "\<forall>e. ready_ok w e" "distinct (map fst os)"
    "\<forall>(e, ob) \<in> set os. obs_ok w f e (Some ob)"
  shows "file_only f (fst ` set os) w w' \<and> (\<forall>e. ready_ok w' e) \<and> map fst os' = map fst os \<and>
    (\<forall>(e, ob) \<in> set os'. obs_ok w' f e (Some ob)) \<and> (r \<longleftrightarrow> e \<in> fst ` set os) \<and>
    (\<forall>(e', ob') \<in> set os'. (e', ob') \<in> set os \<or>
       (\<exists>ob. (e, ob) \<in> set os \<and> ob' = mod_obs ev u ob))"
  using assms
proof (induction os arbitrary: os')
  case (Cons x os)
  obtain e1 ob where x: "x = (e1, ob)" by (cases x)
  show ?case
  proof (cases "e1 = e")
    case False
    obtain os1 where m: "modify_loop e f ev u os w = ((r, os1), w')" "os' = (e1, ob) # os1"
      using Cons.prems(1) x False by (auto split: prod.splits)
    have IH: "file_only f (fst ` set os) w w'" "\<forall>e. ready_ok w' e" "map fst os1 = map fst os"
      "\<forall>(e, ob) \<in> set os1. obs_ok w' f e (Some ob)" "r \<longleftrightarrow> e \<in> fst ` set os"
      "\<forall>(e', ob') \<in> set os1. (e', ob') \<in> set os \<or>
       (\<exists>ob. (e, ob) \<in> set os \<and> ob' = mod_obs ev u ob)"
      using Cons.IH [OF m(1)] Cons.prems(2-4) by auto
    have "obs_ok w f e1 (Some ob)" "e1 \<notin> fst ` set os" using Cons.prems(3,4) x by auto
    then have "obs_ok w' f e1 (Some ob)" using IH(1) by (simp add: obs_ok_def file_only_def)
    moreover have "file_only f (fst ` set (x # os)) w w'" by (rule file_only_mono [OF IH(1)]) auto
    moreover have "\<forall>(e', ob') \<in> set os'. (e', ob') \<in> set (x # os) \<or> (\<exists>ob. (e, ob) \<in> set (x # os) \<and> ob' = mod_obs ev u ob)"
      using IH(6) by (auto simp: m(2) x)
    ultimately show ?thesis using IH(2-5) m(2) x False by auto
  next
    case True
    define ob1 where "ob1 = ob\<lparr>watched_events := ev, user_data := u, one_shot_triggered := False\<rparr>"
    obtain ob2 where n: "EPollObserver_Notify e f (triggered_events ob1) ob1 w = (ob2, w')" "r" "os' = (e1, ob2) # os"
      using Cons.prems(1) x True by (auto simp: ob1_def Let_def split: prod.splits)
    have ok: "obs_ok w f e (Some ob1)" "e \<notin> fst ` set os" "\<forall>(e, ob) \<in> set os. obs_ok w f e (Some ob)"
      using Cons.prems(3,4) x True by (auto simp: obs_ok_def ob1_def)
    have N: "others_same e f w w'" "ready_ok w' e" "obs_ok w' f e (Some ob2)"
      "ob2 = ob1\<lparr>triggered_events := triggered_events ob1, attached := (triggered_events ob1 AND watched_events ob1 \<noteq> 0)\<rparr>"
      using EPollObserver_Notify_spec [OF n(1) _ ok(1)] Cons.prems(2) by auto
    have "file_only f (fst ` set (x # os)) w w'" by (rule others_same_file_only [OF N(1)]) (simp add: x True)
    moreover have "ready_ok w' e'" for e'
      using N(1,2) Cons.prems(2) others_same_ok(1) [of e f w w' e'] by (cases "e' = e") auto
    moreover have "obs_ok w' f e' (Some ob')" if "(e', ob') \<in> set os" for e' ob'
    proof -
      have "e' \<noteq> e" using that ok(2) by force
      then show ?thesis using that ok(3) others_same_ok(2) [OF N(1), of e'] by auto
    qed
    moreover have "ob2 = mod_obs ev u ob" unfolding N(4) ob1_def mod_obs_def by simp
    ultimately show ?thesis using n(2,3) N(3) x True by auto
  qed
qed simp

lemma Modify_inv:
  assumes "pw_ok w" "EPollFile_Modify e f ev u w = (r, w')"
  shows "pw_ok w' \<and> (r \<longleftrightarrow> get_obs w e f \<noteq> None) \<and> (pw_synced w \<longrightarrow> plain_events ev \<longrightarrow> pw_synced w')"
proof -
  let ?s = "pw_src w f" and ?ev = "ev OR (kPollHUp OR kPollErr)"
  obtain os w1 where m: "modify_loop e f ?ev u (epoll_observers ?s) w = ((r, os), w1)"
    "w' = set_source f (?s\<lparr>epoll_observers := os\<rparr>) w1"
    using assms(2) by (auto simp: EPollFile_Modify_def Let_def split: prod.splits)
  note o = pw_ok_obs [OF assms(1), of f]
  note M = modify_loop_spec [OF m(1) pw_ok_ready [OF assms(1)] o(1,2)]
  have fo: "file_only f (fst ` set (epoll_observers ?s)) w w1" and rd: "\<forall>e. ready_ok w1 e"
    and M6: "\<forall>(e', ob') \<in> set os. (e', ob') \<in> set (epoll_observers ?s) \<or>
      (\<exists>ob. (e, ob) \<in> set (epoll_observers ?s) \<and> ob' = mod_obs ?ev u ob)" using M by blast+
  have keys: "map fst os = map fst (epoll_observers ?s)" using M by blast
  then have keys2: "fst ` set os = fst ` set (epoll_observers ?s)" by (metis list.set_map)
  have ok: "pw_ok w'"
    unfolding m(2)
  proof (rule pw_ok_update [OF assms(1) fo rd])
    show "distinct (map fst (epoll_observers (?s\<lparr>epoll_observers := os\<rparr>)))" using o(1) keys by simp
    show "\<forall>(e, ob)\<in>set (epoll_observers (?s\<lparr>epoll_observers := os\<rparr>)). obs_ok w1 f e (Some ob)" using M by simp
    show "f \<notin> set (pw_events w1 e')" if "e' \<notin> fst ` set (epoll_observers (?s\<lparr>epoll_observers := os\<rparr>))" for e'
      using that keys2 o(3) fo by (simp add: file_only_def)
  qed
  have src: "pw_src w1 = pw_src w" using fo by (simp add: file_only_def)
  have "pw_synced w'" if s: "pw_synced w" "plain_events ev"
  proof (rule synced_frame [OF s(1), of w' f])
    fix e' ob' assume g: "get_obs w' e' f = Some ob'"
    have in_os: "(e', ob') \<in> set os" using get_obs_mem [OF g] m(2) by simp
    have old: "obs_synced (event_mask ?s) ob" if "(e'', ob) \<in> set (epoll_observers ?s)" for e'' ob
      using s(1) mem_get_obs [OF assms(1) that] by (simp add: pw_synced_def)
    have "(e', ob') \<in> set (epoll_observers ?s) \<or> (\<exists>ob. (e, ob) \<in> set (epoll_observers ?s) \<and> ob' = mod_obs ?ev u ob)"
      using bspec [OF M6 in_os] by (simp only: prod.case)
    then show "obs_synced (event_mask (pw_src w' f)) ob'"
    proof (elim disjE exE conjE)
      assume "(e', ob') \<in> set (epoll_observers ?s)"
      then show ?thesis using old m(2) by simp
    next
      fix ob assume "(e, ob) \<in> set (epoll_observers ?s)" "ob' = mod_obs ?ev u ob"
      then show ?thesis using old [of e ob] s(2) plain_hup_err
        by (simp add: m(2) mod_obs_def obs_synced_def plain_events_or)
    qed
  qed (use m(2) src in \<open>simp_all add: get_obs_def\<close>)
  moreover have "r \<longleftrightarrow> get_obs w e f \<noteq> None" using M by (simp add: get_obs_def map_of_eq_None_iff)
  ultimately show ?thesis using ok by blast
qed

lemma delete_loop_spec:
  assumes "delete_loop e f os w = ((r, os'), w')" "\<forall>e. ready_ok w e" "distinct (map fst os)"
    "\<forall>(e, ob) \<in> set os. obs_ok w f e (Some ob)" "e \<notin> fst ` set os \<longrightarrow> f \<notin> set (pw_events w e)"
  shows "file_only f {e} w w' \<and> (\<forall>e. ready_ok w' e) \<and> os' = filter (\<lambda>(e', _). e' \<noteq> e) os \<and>
    f \<notin> set (pw_events w' e) \<and> (r \<longleftrightarrow> e \<in> fst ` set os)"
  using assms
proof (induction os arbitrary: os')
  case (Cons x os)
  obtain e1 ob where x: "x = (e1, ob)" by (cases x)
  show ?case
  proof (cases "e1 = e")
    case False
    obtain os1 where m: "delete_loop e f os w = ((r, os1), w')" "os' = (e1, ob) # os1"
      using Cons.prems(1) x False by (auto split: prod.splits)
    then show ?thesis using Cons.IH [OF m(1)] Cons.prems x False by auto
  next
    case True
    obtain ob2 where n: "RemoveEvent e f ob w = (ob2, w')" "r" "os' = os"
      using Cons.prems(1) x True by (cases "RemoveEvent e f ob w") auto
    have "e \<notin> fst ` set os" using Cons.prems(3) x True by auto
    then have fl: "filter (\<lambda>(e', _). e' \<noteq> e) os = os" by (induction os) auto
    have R: "others_same e f w w'" "ready_ok w' e" "obs_ok w' f e (Some ob2)" "\<not> attached ob2"
      using RemoveEvent_spec [OF n(1)] Cons.prems(2,4) x True by auto
    have "ready_ok w' e'" for e'
      using R(2) Cons.prems(2) others_same_ok(1) [OF R(1), of e'] by (cases "e' = e") auto
    moreover have "file_only f {e} w w'" by (rule others_same_file_only [OF R(1)]) simp
    ultimately show ?thesis using n(2,3) R(3,4) fl x True by (simp add: obs_ok_def)
  qed
qed simp

lemma Delete_inv:
  assumes "pw_ok w" "EPollFile_Delete e f w = (r, w')"
  shows "pw_ok w' \<and> (r \<longleftrightarrow> get_obs w e f \<noteq> None) \<and> get_obs w' e f = None \<and> f \<notin> set (pw_events w' e) \<and>
    (pw_synced w \<longrightarrow> pw_synced w')"
proof -
  let ?s = "pw_src w f"
  obtain os w1 where m: "delete_loop e f (epoll_observers ?s) w = ((r, os), w1)"
    "w' = set_source f (?s\<lparr>epoll_observers := os\<rparr>) w1"
    using assms(2) by (auto simp: EPollFile_Delete_def Let_def split: prod.splits)
  note o = pw_ok_obs [OF assms(1), of f]
  note D = delete_loop_spec [OF m(1) pw_ok_ready [OF assms(1)] o(1,2) spec [OF o(3)]]
  have fo: "file_only f {e} w w1" and rd: "\<forall>e. ready_ok w1 e" and nf: "f \<notin> set (pw_events w1 e)"
    and os: "os = filter (\<lambda>(e', _). e' \<noteq> e) (epoll_observers ?s)" and r: "r \<longleftrightarrow> e \<in> fst ` set (epoll_observers ?s)"
    using D by auto
  have ok: "pw_ok w'"
    unfolding m(2)
  proof (rule pw_ok_update [OF assms(1) fo rd])
    show "distinct (map fst (epoll_observers (?s\<lparr>epoll_observers := os\<rparr>)))"
      using o(1) by (simp add: os distinct_map_filter)
    show "\<forall>(e, ob)\<in>set (epoll_observers (?s\<lparr>epoll_observers := os\<rparr>)). obs_ok w1 f e (Some ob)"
      using o(2) fo by (auto simp: os obs_ok_def file_only_def)
    show "f \<notin> set (pw_events w1 e')" if n: "e' \<notin> fst ` set (epoll_observers (?s\<lparr>epoll_observers := os\<rparr>))" for e'
    proof (cases "e' = e")
      case False
      then have "e' \<notin> fst ` set (epoll_observers ?s)" using n by (auto simp: os image_iff)
      then show ?thesis using o(3) fo False by (simp add: file_only_def)
    qed (use nf in simp)
  qed
  have src: "pw_src w1 = pw_src w" using fo by (simp add: file_only_def)
  have gone: "get_obs w' e f = None" by (auto simp: m(2) get_obs_set_source map_of_eq_None_iff os)
  have "pw_synced w'" if s: "pw_synced w"
  proof (rule synced_frame [OF s, of w' f])
    fix e' ob' assume g: "get_obs w' e' f = Some ob'"
    have "(e', ob') \<in> set (epoll_observers ?s)" using get_obs_mem [OF g] by (simp add: m(2) os)
    then have "get_obs w e' f = Some ob'" by (rule mem_get_obs [OF assms(1)])
    then show "obs_synced (event_mask (pw_src w' f)) ob'" using s by (simp add: m(2) pw_synced_def)
  qed (use m(2) src in \<open>simp_all add: get_obs_def\<close>)
  then show ?thesis using ok r gone nf by (simp add: m(2) get_obs_def map_of_eq_None_iff)
qed

subsection \<open>Delivery\<close>

lemma get_obs_put_obs:
  "get_obs (put_obs e f ob w) e' g =
    (if g = f \<and> e' = e then map_option (\<lambda>_. ob) (get_obs w e' g) else get_obs w e' g)"
proof -
  have "map_of (map (\<lambda>(e1, ob'). (e1, if e1 = e then ob else ob')) os) e2 =
      (if e2 = e then map_option (\<lambda>_. ob) (map_of os e2) else map_of os e2)" for os e2
    by (induction os) auto
  then show ?thesis by (auto simp: put_obs_def Let_def get_obs_set_source) (auto simp: get_obs_def)
qed

lemma put_obs_simps [simp]:
  "pw_events (put_obs e f ob w) = pw_events w" "pw_waiting (put_obs e f ob w) = pw_waiting w"
  "event_mask (pw_src (put_obs e f ob w) g) = event_mask (pw_src w g)"
  "map fst (epoll_observers (pw_src (put_obs e f ob w) g)) = map fst (epoll_observers (pw_src w g))"
  by (auto simp: put_obs_def Let_def case_prod_beta)

definition is_edge :: "poll_world \<Rightarrow> nat \<Rightarrow> nat \<Rightarrow> bool" where
  "is_edge w e f \<longleftrightarrow> (case get_obs w e f of None \<Rightarrow> False | Some ob \<Rightarrow> watched_events ob AND kEPollEdgeTriggered \<noteq> 0)"

definition event_of :: "poll_world \<Rightarrow> nat \<Rightarrow> nat \<Rightarrow> u32 \<times> u64" where
  "event_of w e f = (case get_obs w e f of None \<Rightarrow> (0, 0) | Some ob \<Rightarrow> (triggered_events ob AND watched_events ob, user_data ob))"

lemma deliver_loop_spec:
  assumes "deliver_loop e n evs tmp w = (out, rest, tmp', w')" "distinct evs"
    "\<forall>f \<in> set evs. get_obs w e f \<noteq> None"
  shows "out = map (event_of w e) (take n evs) \<and> rest = drop n evs \<and>
    tmp' = tmp @ filter (\<lambda>f. \<not> is_edge w e f) (take n evs) \<and>
    pw_events w' = pw_events w \<and> pw_waiting w' = pw_waiting w \<and>
    (\<forall>g. event_mask (pw_src w' g) = event_mask (pw_src w g) \<and>
      map fst (epoll_observers (pw_src w' g)) = map fst (epoll_observers (pw_src w g))) \<and>
    (\<forall>e' g. get_obs w' e' g = (if e' = e \<and> g \<in> set (take n evs) \<and> is_edge w e g
       then map_option (attached_update (\<lambda>_. False)) (get_obs w e' g) else get_obs w e' g))"
  using assms
proof (induction e n evs tmp w arbitrary: out rest tmp' w' rule: deliver_loop.induct)
  case (3 e n f evs tmp w)
  obtain ob where ob: "get_obs w e f = Some ob" using 3(4) by auto
  define edge where "edge = (watched_events ob AND kEPollEdgeTriggered \<noteq> 0)"
  define w1 where "w1 = (if edge then put_obs e f (ob\<lparr>attached := False\<rparr>) w else w)"
  obtain out1 where d: "deliver_loop e n evs (if edge then tmp else tmp @ [f]) w1 = (out1, rest, tmp', w')"
    "out = (triggered_events ob AND watched_events ob, user_data ob) # out1"
    using 3(2) ob by (auto simp: edge_def w1_def Let_def split: prod.splits)
  have same: "get_obs w1 e g = get_obs w e g" if "g \<noteq> f" for g
    using that by (simp add: w1_def get_obs_put_obs)
  have nf: "f \<notin> set evs" "distinct evs" using 3(3) by auto
  then have sub: "g \<in> set (take n evs) \<Longrightarrow> g \<noteq> f" for g by (auto dest: in_set_takeD)
  have "\<forall>g \<in> set evs. get_obs w1 e g \<noteq> None" using 3(4) same nf(1) by fastforce
  note IH = 3(1) [OF ob refl edge_def w1_def refl d(1) nf(2) this]
  have ef: "is_edge w e f \<longleftrightarrow> edge" using ob by (simp add: is_edge_def edge_def)
  have eg: "is_edge w1 e g = is_edge w e g" "event_of w1 e g = event_of w e g" if "g \<in> set (take n evs)" for g
    using same [OF sub [OF that]] by (simp_all add: is_edge_def event_of_def)
  have out: "out = map (event_of w e) (take (Suc n) (f # evs))"
    using IH eg(2) ob by (auto simp: d(2) event_of_def [of w e f])
  have "filter (\<lambda>f. \<not> is_edge w1 e f) (take n evs) = filter (\<lambda>f. \<not> is_edge w e f) (take n evs)"
    using eg(1) by (intro filter_cong) auto
  then have tmp': "tmp' = tmp @ filter (\<lambda>f. \<not> is_edge w e f) (take (Suc n) (f # evs))"
    using IH ef by simp
  have fin: "f \<notin> set (take n evs)" using nf(1) by (auto dest: in_set_takeD)
  have "get_obs w' e' g = (if e' = e \<and> g \<in> set (take (Suc n) (f # evs)) \<and> is_edge w e g
      then map_option (attached_update (\<lambda>_. False)) (get_obs w e' g) else get_obs w e' g)" for e' g
  proof (cases "g = f")
    case True
    then have "get_obs w' e' g = get_obs w1 e' g" using IH fin by simp
    also have "\<dots> = (if e' = e \<and> edge then map_option (attached_update (\<lambda>_. False)) (get_obs w e' g) else get_obs w e' g)"
      using True ob by (auto simp: w1_def get_obs_put_obs)
    finally show ?thesis using True ef by simp
  next
    case False
    have "get_obs w1 e' g = get_obs w e' g" using False by (simp add: w1_def get_obs_put_obs)
    then show ?thesis using IH False eg(1) [of g] by auto
  qed
  then show ?case using IH out tmp' by (simp add: w1_def)
qed auto

lemma DeliverEvents_inv:
  assumes "pw_ok w" "DeliverEvents e n w = (out, w')"
  shows "pw_ok w' \<and> (pw_synced w \<longrightarrow> pw_synced w') \<and>
    out = map (event_of w e) (take n (pw_events w e)) \<and>
    pw_events w' e = drop n (pw_events w e) @ filter (\<lambda>f. \<not> is_edge w e f) (take n (pw_events w e)) \<and>
    pw_waiting w' = pw_waiting w"
proof -
  let ?evs = "pw_events w e"
  obtain rest tmp w1 where d: "deliver_loop e n ?evs [] w = (out, rest, tmp, w1)"
    "w' = w1\<lparr>pw_events := (pw_events w1)(e := rest @ tmp)\<rparr>"
    using assms(2) by (auto simp: DeliverEvents_def split: prod.splits)
  have rd: "\<forall>e. ready_ok w e" by (rule pw_ok_ready [OF assms(1)])
  have att: "\<exists>ob. get_obs w e f = Some ob \<and> attached ob" if "f \<in> set ?evs" for f
  proof -
    have "obs_ok w f e (get_obs w e f)" using assms(1) by (simp add: pw_ok_def)
    then show ?thesis using that by (auto simp: obs_ok_def split: option.splits)
  qed
  have dist: "distinct ?evs" using rd by (simp add: ready_ok_def)
  have some: "\<forall>f\<in>set ?evs. get_obs w e f \<noteq> None" using att by fastforce
  note D = deliver_loop_spec [OF d(1) dist some]
  let ?new = "drop n ?evs @ filter (\<lambda>f. \<not> is_edge w e f) (take n ?evs)"
  have ev': "pw_events w' e = ?new" "\<And>e'. e' \<noteq> e \<Longrightarrow> pw_events w' e' = pw_events w e'"
    "pw_waiting w' = pw_waiting w" "pw_src w' = pw_src w1"
    using D by (simp_all add: d(2))
  have split: "take n ?evs @ drop n ?evs = ?evs" by simp
  then have dd: "distinct (take n ?evs)" "distinct (drop n ?evs)" "set (take n ?evs) \<inter> set (drop n ?evs) = {}"
    using dist by (metis distinct_append)+
  have get': "get_obs w' e' g = (if e' = e \<and> g \<in> set (take n ?evs) \<and> is_edge w e g
       then map_option (attached_update (\<lambda>_. False)) (get_obs w e' g) else get_obs w e' g)" for e' g
    using D ev'(4) by (simp add: get_obs_def)
  have mem: "g \<in> set ?new \<longleftrightarrow> g \<in> set ?evs \<and> \<not> (g \<in> set (take n ?evs) \<and> is_edge w e g)" for g
  proof -
    have "set ?evs = set (take n ?evs) \<union> set (drop n ?evs)" using split by (metis set_append)
    then show ?thesis using dd(3) by auto
  qed
  have "ready_ok w' e'" for e'
    using rd dd by (cases "e' = e") (auto simp: ready_ok_def ev')
  moreover have "obs_ok w' g e' (get_obs w' e' g)" for e' g
  proof -
    have o: "obs_ok w g e' (get_obs w e' g)" using assms(1) by (simp add: pw_ok_def)
    show ?thesis
    proof (cases "e' = e")
      case True
      then show ?thesis using o mem [of g] unfolding get' obs_ok_def
        by (auto simp: ev'(1) split: option.splits)
    next
      case False
      then show ?thesis using o by (simp add: get' obs_ok_def ev'(2))
    qed
  qed
  ultimately have ok: "pw_ok w'" using assms(1) D by (simp add: pw_ok_def ev'(4))
  have "pw_synced w'" if s: "pw_synced w"
    unfolding pw_synced_def
  proof (intro allI impI)
    fix e' g ob assume g: "get_obs w' e' g = Some ob"
    have "event_mask (pw_src w' g) = event_mask (pw_src w g)" using D ev'(4) by simp
    then show "obs_synced (event_mask (pw_src w' g)) ob"
      using g s unfolding get' pw_synced_def by (auto simp: obs_synced_def is_edge_def split: if_splits)
  qed
  then show ?thesis using ok D ev' by auto
qed

lemma waiting_inv:
  assumes "pw_ok w" "b \<longrightarrow> pw_events w e = []"
  shows "pw_ok (w\<lparr>pw_waiting := (pw_waiting w)(e := b)\<rparr>) \<and>
    pw_synced (w\<lparr>pw_waiting := (pw_waiting w)(e := b)\<rparr>) = pw_synced w"
  using assms by (auto simp: pw_ok_def pw_synced_def ready_ok_def obs_ok_def get_obs_def)

lemma Wait_inv:
  assumes "pw_ok w" "EPollFile_Wait e n timeout w = (r, w')"
  shows "pw_ok w' \<and> (pw_synced w \<longrightarrow> pw_synced w')"
proof (cases "pw_events w e = []")
  case True
  then show ?thesis using assms waiting_inv [OF assms(1), of True e]
    by (auto simp: EPollFile_Wait_def split: if_splits)
next
  case False
  then show ?thesis using assms DeliverEvents_inv [OF assms(1), of e n]
    by (auto simp: EPollFile_Wait_def split: prod.splits)
qed

lemma Wait_resume_inv:
  assumes "pw_ok w" "EPollFile_Wait_resume e n timeout t s w = (r, w')"
  shows "pw_ok w' \<and> (pw_synced w \<longrightarrow> pw_synced w')"
proof -
  define w1 where "w1 = w\<lparr>pw_waiting := (pw_waiting w)(e := False)\<rparr>"
  have 1: "pw_ok w1" "pw_synced w1 = pw_synced w" using waiting_inv [OF assms(1), of False e] by (auto simp: w1_def)
  show ?thesis using assms 1 DeliverEvents_inv [OF 1(1), of e n]
    by (auto simp: EPollFile_Wait_resume_def w1_def [symmetric] Let_def split: prod.splits if_splits)
qed

lemma synced_mask:
  assumes "event_mask s = event_mask (pw_src w f)" "epoll_observers s = epoll_observers (pw_src w f)"
  shows "pw_synced (set_source f s w) = pw_synced w"
proof -
  have "get_obs (set_source f s w) e g = get_obs w e g" for e g using assms(2) by (simp add: get_obs_def)
  moreover have "event_mask (pw_src (set_source f s w) g) = event_mask (pw_src w g)" for g using assms(1) by simp
  ultimately show ?thesis by (simp only: pw_synced_def)
qed

lemma synced_calls: "pw_synced (w\<lparr>pw_calls := x\<rparr>) = pw_synced w"
  by (simp add: pw_synced_def get_obs_def)

lemma pw_ok_get: "pw_ok w \<Longrightarrow> get_obs w e f = Some ob \<Longrightarrow> obs_ok w f e (Some ob)"
  unfolding pw_ok_def by metis

lemma Attach_inv:
  assumes "pw_ok w"
  shows "pw_ok (PollSource_Attach f p w) \<and> (pw_synced w \<longrightarrow> pw_synced (PollSource_Attach f p w))"
  using pw_ok_mask [OF assms, of "(pw_src w f)\<lparr>observers := observers (pw_src w f) @ [p]\<rparr>" f]
  by (simp add: PollSource_Attach_def Let_def pw_ok_calls synced_mask synced_calls)

lemma Detach_inv:
  assumes "pw_ok w"
  shows "pw_ok (PollSource_Detach f p w) \<and> (pw_synced w \<longrightarrow> pw_synced (PollSource_Detach f p w))"
  using pw_ok_mask [OF assms, of "(pw_src w f)\<lparr>observers := remove1 p (observers (pw_src w f))\<rparr>" f]
  by (simp add: PollSource_Detach_def Let_def synced_mask)

lemma detach_all_spec:
  assumes "\<forall>e. ready_ok w e" "distinct (map fst os)" "\<forall>(e, ob) \<in> set os. obs_ok w f e (Some ob)"
    "\<forall>e. e \<notin> fst ` set os \<longrightarrow> f \<notin> set (pw_events w e)"
  shows "file_only f UNIV w (detach_all f os w) \<and> (\<forall>e. ready_ok (detach_all f os w) e) \<and>
    (\<forall>e. f \<notin> set (pw_events (detach_all f os w) e))"
  using assms
proof (induction os arbitrary: w)
  case (Cons x os)
  obtain e ob where x: "x = (e, ob)" by (cases x)
  obtain ob2 w1 where n: "RemoveEvent e f ob w = (ob2, w1)" by (cases "RemoveEvent e f ob w")
  have R: "others_same e f w w1" "ready_ok w1 e" "obs_ok w1 f e (Some ob2)" "\<not> attached ob2"
    using RemoveEvent_spec [OF n] Cons.prems(1,3) x by auto
  have rd: "\<forall>e. ready_ok w1 e"
  proof
    show "ready_ok w1 e'" for e'
      using R(2) Cons.prems(1) others_same_ok(1) [OF R(1), of e'] by (cases "e' = e") auto
  qed
  have ne: "e \<notin> fst ` set os" "distinct (map fst os)" using Cons.prems(2) x by auto
  have ok: "\<forall>(e, ob) \<in> set os. obs_ok w1 f e (Some ob)"
  proof (intro ballI)
    fix y assume y: "y \<in> set os"
    then have "fst y \<noteq> e" "obs_ok w f (fst y) (Some (snd y))" using ne(1) Cons.prems(3) by auto
    then show "case y of (e, ob) \<Rightarrow> obs_ok w1 f e (Some ob)"
      using others_same_ok(2) [OF R(1)] by (simp add: case_prod_beta)
  qed
  have no: "\<forall>e'. e' \<notin> fst ` set os \<longrightarrow> f \<notin> set (pw_events w1 e')"
  proof (intro allI impI)
    fix e' assume "e' \<notin> fst ` set os"
    then show "f \<notin> set (pw_events w1 e')"
      using Cons.prems(4) R(1,3,4) x by (cases "e' = e") (auto simp: others_same_def obs_ok_def)
  qed
  have "file_only f UNIV w w1" by (rule others_same_file_only [OF R(1)]) simp
  then show ?case using Cons.IH [OF rd ne(2) ok no] n x by (auto intro: file_only_trans)
qed simp

lemma DetachEPollObservers_inv:
  assumes "pw_ok w"
  shows "pw_ok (DetachEPollObservers f w) \<and> (pw_synced w \<longrightarrow> pw_synced (DetachEPollObservers f w))"
proof -
  let ?s = "pw_src w f"
  note o = pw_ok_obs [OF assms, of f]
  note D = detach_all_spec [OF pw_ok_ready [OF assms] o]
  have fo: "file_only f UNIV w (detach_all f (epoll_observers ?s) w)" using D by blast
  have "pw_ok (DetachEPollObservers f w)"
    unfolding DetachEPollObservers_def by (rule pw_ok_update [OF assms fo]) (use D in auto)
  moreover have "pw_synced (DetachEPollObservers f w)" if "pw_synced w"
    by (rule synced_frame [OF that, of _ f])
      (use fo in \<open>auto simp: DetachEPollObservers_def get_obs_def file_only_def split: if_splits\<close>)
  ultimately show ?thesis by blast
qed

subsection \<open>Reachable worlds\<close>

definition pw_init :: poll_world where
  "pw_init = \<lparr>pw_src = \<lambda>f. \<lparr>event_mask = 0, observers = [], epoll_observers = []\<rparr>,
     pw_events = \<lambda>e. [], pw_waiting = \<lambda>e. False, pw_calls = []\<rparr>"

text \<open>One call on the sources and epoll files, with registrations that use neither the one-shot nor the
  exclusive flag.\<close>

inductive pw_step :: "poll_world \<Rightarrow> poll_world \<Rightarrow> bool" where
  step_Set: "pw_step w (PollSource_Set f ev force w)"
| step_Clear: "pw_step w (PollSource_Clear f ev w)"
| step_Attach: "pw_step w (PollSource_Attach f p w)"
| step_Detach: "pw_step w (PollSource_Detach f p w)"
| step_Add: "plain_events ev \<Longrightarrow> EPollFile_Add e f ev u False 0 w = (r, w') \<Longrightarrow> pw_step w w'"
| step_Modify: "plain_events ev \<Longrightarrow> EPollFile_Modify e f ev u w = (r, w') \<Longrightarrow> pw_step w w'"
| step_Delete: "EPollFile_Delete e f w = (r, w') \<Longrightarrow> pw_step w w'"
| step_Wait: "EPollFile_Wait e n timeout w = (r, w') \<Longrightarrow> pw_step w w'"
| step_Resume: "EPollFile_Wait_resume e n timeout t s w = (r, w') \<Longrightarrow> pw_step w w'"
| step_DetachEPoll: "pw_step w (DetachEPollObservers f w)"

inductive pw_reach :: "poll_world \<Rightarrow> bool" where
  reach_init: "pw_reach pw_init"
| reach_step: "pw_reach w \<Longrightarrow> pw_step w w' \<Longrightarrow> pw_reach w'"

inductive_cases pw_stepE: "pw_step w w'"

lemma pw_init_inv: "pw_ok pw_init \<and> pw_synced pw_init"
  by (simp add: pw_init_def pw_ok_def pw_synced_def ready_ok_def obs_ok_def get_obs_def)

lemma pw_step_inv: "pw_step w w' \<Longrightarrow> pw_ok w \<and> pw_synced w \<Longrightarrow> pw_ok w' \<and> pw_synced w'"
  by (erule pw_stepE)
    (use Set_inv Clear_inv Attach_inv Detach_inv Add_inv Modify_inv Delete_inv Wait_inv Wait_resume_inv
      DetachEPollObservers_inv in metis)+

lemma pw_reach_inv: "pw_reach w \<Longrightarrow> pw_ok w \<and> pw_synced w"
  by (induction rule: pw_reach.induct) (use pw_init_inv pw_step_inv in blast)+





text \<open>A one-shot registration is used up by a notification of an event it does not watch: after
  registering for input with the one-shot flag, an output event and then an input event leave the file off
  the ready list although the input event it watches is set.\<close>

theorem epoll_one_shot_lost:
  "let w = PollSource_Set f kPollIn False (PollSource_Set f kPollOut False
        (snd (EPollFile_Add e f (kPollIn OR kEPollOneShot) u False 0 pw_init))) in
    event_mask (pw_src w f) AND kPollIn \<noteq> 0 \<and> pw_events w e = []"
  by (simp add: PollSource_Set_def PollSource_Notify_def EPollFile_Add_def EPollObserver_Notify_def AddEvent_def
      RemoveEvent_def pw_init_def set_source_def poll_flag_defs Let_def)

end
