(* ===== verification/Pipe.thy ===== *)
theory Pipe
  imports ByteChannel MessageChannel Poll
begin

text \<open>
  \<open>WaitableChannel\<close> of \<^verbatim>\<open>src/junction/fs/pipe.h\<close>, the blocking channel under
  pipes and stream sockets, for a single writer (\<open>MultiWriter = false\<close>), and the pipe files of
  \<^verbatim>\<open>src/junction/fs/pipe.cc\<close>.

  The channel type of the template is a record of operations; \<open>byte_ops\<close> is
  \<open>StreamPipe\<close>'s and \<open>msg_ops\<close> is \<open>MsgPipe\<close>'s.  The attempt on the channel runs
  without the lock, the sections under the lock are one function each, and \<open>DoRead\<close> and
  \<open>DoWrite\<close> compose them as the code does.  Their loop has fuel; \<open>None\<close> means that it
  is still looping.  The same sections are the steps of a reader and a writer thread that
  interleave.
\<close>

record 'c chan_ops =
  co_is_empty :: "'c \<Rightarrow> bool"
  co_is_full :: "'c \<Rightarrow> bool"
  co_Read :: "nat \<Rightarrow> bool \<Rightarrow> 'c \<Rightarrow> byte list Status \<times> 'c"
  co_Readv :: "byte list list \<Rightarrow> bool \<Rightarrow> 'c \<Rightarrow> (nat \<times> byte list list) Status \<times> 'c"
  co_Write :: "byte list \<Rightarrow> 'c \<Rightarrow> nat Status \<times> 'c"
  co_Writev :: "byte list list \<Rightarrow> 'c \<Rightarrow> nat Status \<times> 'c"

definition byte_ops :: "ByteChannel chan_ops" where
  "byte_ops = \<lparr>co_is_empty = bc_is_empty, co_is_full = bc_is_full, co_Read = bc_Read,
     co_Readv = bc_Readv, co_Write = bc_Write, co_Writev = bc_Writev\<rparr>"

definition map_ok :: "('a \<Rightarrow> 'b) \<Rightarrow> 'a Status \<times> 'c \<Rightarrow> 'b Status \<times> 'c" where
  "map_ok f r = (case r of (Inl e, c) \<Rightarrow> (Inl e, c) | (Inr a, c) \<Rightarrow> (Inr (f a), c))"

definition msg_ops :: "unit MessageChannel chan_ops" where
  "msg_ops = \<lparr>co_is_empty = mc_is_empty, co_is_full = mc_is_full,
     co_Read = \<lambda>len peek c. map_ok fst (mc_Read_plain (\<lambda>a. a) len peek c),
     co_Readv = \<lambda>iov peek c. map_ok (\<lambda>(n, iov', _). (n, iov')) (mc_Readv (\<lambda>a. a) iov peek False c),
     co_Write = \<lambda>buf c. mc_Write buf None c, co_Writev = \<lambda>iov c. mc_Writev iov None c\<rparr>"

record 'c WaitableChannel =
  wc_chan :: 'c
  reader_closed :: bool
  writer_closed :: bool
  read_waiting :: bool
  write_waiting :: bool
  read_poll :: "nat option"
  write_poll :: "nat option"

definition WaitableChannel_new :: "'c \<Rightarrow> 'c WaitableChannel" where
  "WaitableChannel_new c = \<lparr>wc_chan = c, reader_closed = False, writer_closed = False,
     read_waiting = False, write_waiting = False, read_poll = None, write_poll = None\<rparr>"

text \<open>\<open>SinglePollSource\<close>: an optional pointer to an event source.\<close>

definition SinglePollSource_Set :: "nat option \<Rightarrow> u32 \<Rightarrow> poll_world \<Rightarrow> poll_world" where
  "SinglePollSource_Set s ev w = (case s of None \<Rightarrow> w | Some f \<Rightarrow> PollSource_Set f ev False w)"

definition SinglePollSource_Clear :: "nat option \<Rightarrow> u32 \<Rightarrow> poll_world \<Rightarrow> poll_world" where
  "SinglePollSource_Clear s ev w = (case s of None \<Rightarrow> w | Some f \<Rightarrow> PollSource_Clear f ev w)"

subsection \<open>Reading\<close>

definition read_ready :: "'c chan_ops \<Rightarrow> 'c WaitableChannel \<Rightarrow> bool" where
  "read_ready ops p \<longleftrightarrow> \<not> co_is_empty ops (wc_chan p) \<or> writer_closed p \<or> reader_closed p"

definition DoRead_nonblock :: "'c chan_ops \<Rightarrow> 'r \<Rightarrow> 'c WaitableChannel \<Rightarrow> 'r Status" where
  "DoRead_nonblock ops zero p =
     (if writer_closed p \<and> co_is_empty ops (wc_chan p) then Inr zero else Inl EAGAIN)"

datatype 'r wait_out = WaitReturn "'r Status" | WaitRetry | WaitSleep

definition DoRead_wait :: "'c chan_ops \<Rightarrow> 'r \<Rightarrow> bool \<Rightarrow> 'c WaitableChannel \<Rightarrow> 'r wait_out" where
  "DoRead_wait ops zero interrupted p =
     (if \<not> read_ready ops p \<and> \<not> interrupted then WaitSleep
      else
        (let signaled = \<not> read_ready ops p in
         if (reader_closed p \<or> writer_closed p) \<and> co_is_empty ops (wc_chan p) then WaitReturn (Inr zero)
         else if signaled then WaitReturn (Inl EINTR)
         else WaitRetry))"

definition DoRead_finish :: "'c chan_ops \<Rightarrow> 'c WaitableChannel \<Rightarrow> poll_world \<Rightarrow> 'c WaitableChannel \<times> poll_world" where
  "DoRead_finish ops p w =
     (let w1 = (if co_is_empty ops (wc_chan p) \<and> read_poll p \<noteq> None
                then SinglePollSource_Clear (read_poll p) kPollIn w else w)
      in if writer_closed p then (p, w1)
         else if \<not> co_is_full ops (wc_chan p) \<and> write_poll p \<noteq> None
         then (p\<lparr>write_waiting := False\<rparr>, SinglePollSource_Set (write_poll p) kPollOut w1)
         else (p, w1))"

datatype 'r rw_out = RwReturn "'r Status" | RwSleep

fun DoRead :: "nat \<Rightarrow> 'c chan_ops \<Rightarrow> bool \<Rightarrow> bool \<Rightarrow> 'r \<Rightarrow> ('c \<Rightarrow> 'r Status \<times> 'c)
    \<Rightarrow> 'c WaitableChannel \<Rightarrow> poll_world \<Rightarrow> ('r rw_out \<times> 'c WaitableChannel \<times> poll_world) option" where
  "DoRead 0 ops nonblocking interrupted zero func p w = None"
| "DoRead (Suc fuel) ops nonblocking interrupted zero func p w =
     (case func (wc_chan p) of
        (Inr r, c) \<Rightarrow> Some (RwReturn (Inr r), DoRead_finish ops (p\<lparr>wc_chan := c\<rparr>) w)
      | (Inl e, c) \<Rightarrow>
          (let p1 = p\<lparr>wc_chan := c\<rparr> in
           if nonblocking then Some (RwReturn (DoRead_nonblock ops zero p1), p1, w)
           else
             (case DoRead_wait ops zero interrupted p1 of
                WaitSleep \<Rightarrow> Some (RwSleep, p1\<lparr>read_waiting := True\<rparr>, w)
              | WaitReturn r \<Rightarrow> Some (RwReturn r, p1, w)
              | WaitRetry \<Rightarrow> DoRead fuel ops nonblocking interrupted zero func p1 w)))"

subsection \<open>Writing\<close>

definition write_ready :: "'c chan_ops \<Rightarrow> 'c WaitableChannel \<Rightarrow> bool" where
  "write_ready ops p \<longleftrightarrow> \<not> co_is_full ops (wc_chan p) \<or> reader_closed p \<or> writer_closed p"

definition DoWrite_nonblock :: "'c WaitableChannel \<Rightarrow> 'r Status" where
  "DoWrite_nonblock p = (if reader_closed p then Inl EPIPE else Inl EAGAIN)"

definition DoWrite_wait :: "'c chan_ops \<Rightarrow> bool \<Rightarrow> 'c WaitableChannel \<Rightarrow> 'r wait_out" where
  "DoWrite_wait ops interrupted p =
     (if \<not> write_ready ops p \<and> \<not> interrupted then WaitSleep
      else
        (let signaled = \<not> write_ready ops p in
         if writer_closed p \<or> reader_closed p then WaitReturn (Inl EPIPE)
         else if signaled then WaitReturn (Inl EINTR)
         else WaitRetry))"

text \<open>The end of a successful attempt: the result is replaced by \<open>EPIPE\<close> when the reader has gone.\<close>

definition DoWrite_finish :: "'c chan_ops \<Rightarrow> 'r \<Rightarrow> 'c WaitableChannel \<Rightarrow> poll_world
    \<Rightarrow> 'r Status \<times> 'c WaitableChannel \<times> poll_world" where
  "DoWrite_finish ops n p w =
     (let w1 = (if co_is_full ops (wc_chan p) \<and> write_poll p \<noteq> None
                then SinglePollSource_Clear (write_poll p) kPollOut w else w)
      in if reader_closed p then (Inl EPIPE, p, w1)
         else if \<not> co_is_empty ops (wc_chan p) \<and> read_poll p \<noteq> None
         then (Inr n, p\<lparr>read_waiting := False\<rparr>, SinglePollSource_Set (read_poll p) kPollIn w1)
         else (Inr n, p, w1))"

fun DoWrite :: "nat \<Rightarrow> 'c chan_ops \<Rightarrow> bool \<Rightarrow> bool \<Rightarrow> ('c \<Rightarrow> 'r Status \<times> 'c)
    \<Rightarrow> 'c WaitableChannel \<Rightarrow> poll_world \<Rightarrow> ('r rw_out \<times> 'c WaitableChannel \<times> poll_world) option" where
  "DoWrite 0 ops nonblocking interrupted func p w = None"
| "DoWrite (Suc fuel) ops nonblocking interrupted func p w =
     (case func (wc_chan p) of
        (Inr r, c) \<Rightarrow>
          (case DoWrite_finish ops r (p\<lparr>wc_chan := c\<rparr>) w of (res, p', w') \<Rightarrow> Some (RwReturn res, p', w'))
      | (Inl e, c) \<Rightarrow>
          (let p1 = p\<lparr>wc_chan := c\<rparr> in
           if nonblocking then Some (RwReturn (DoWrite_nonblock p1), p1, w)
           else
             (case DoWrite_wait ops interrupted p1 of
                WaitSleep \<Rightarrow> Some (RwSleep, p1\<lparr>write_waiting := True\<rparr>, w)
              | WaitReturn r \<Rightarrow> Some (RwReturn r, p1, w)
              | WaitRetry \<Rightarrow> DoWrite fuel ops nonblocking interrupted func p1 w)))"

definition WC_Read where
  "WC_Read fuel ops len nonblocking peek interrupted p w =
     DoRead fuel ops nonblocking interrupted [] (co_Read ops len peek) p w"

definition WC_Readv where
  "WC_Readv fuel ops iov nonblocking peek interrupted p w =
     DoRead fuel ops nonblocking interrupted (0, iov) (co_Readv ops iov peek) p w"

definition WC_Write where
  "WC_Write fuel ops buf nonblocking interrupted p w =
     (if buf = [] then Some (RwReturn (Inr 0), p, w)
      else DoWrite fuel ops nonblocking interrupted (co_Write ops buf) p w)"

definition WC_Writev where
  "WC_Writev fuel ops iov nonblocking interrupted p w =
     DoWrite fuel ops nonblocking interrupted (co_Writev ops iov) p w"

subsection \<open>Attaching and closing\<close>

definition AttachReadPoll :: "'c chan_ops \<Rightarrow> nat \<Rightarrow> 'c WaitableChannel \<Rightarrow> poll_world
    \<Rightarrow> 'c WaitableChannel \<times> poll_world" where
  "AttachReadPoll ops f p w =
     (p\<lparr>read_poll := Some f\<rparr>,
      if reader_closed p then w
      else if writer_closed p then SinglePollSource_Set (Some f) kPollHUp w
      else if \<not> co_is_empty ops (wc_chan p) then SinglePollSource_Set (Some f) kPollIn w
      else w)"

definition AttachWritePoll :: "'c chan_ops \<Rightarrow> nat \<Rightarrow> 'c WaitableChannel \<Rightarrow> poll_world
    \<Rightarrow> 'c WaitableChannel \<times> poll_world" where
  "AttachWritePoll ops f p w =
     (p\<lparr>write_poll := Some f\<rparr>,
      if writer_closed p then w
      else if reader_closed p then SinglePollSource_Set (Some f) kPollErr w
      else if \<not> co_is_full ops (wc_chan p) then SinglePollSource_Set (Some f) kPollOut w
      else w)"

definition CloseWriter :: "bool \<Rightarrow> 'c WaitableChannel \<Rightarrow> poll_world \<Rightarrow> 'c WaitableChannel \<times> poll_world" where
  "CloseWriter detach p w =
     (let p1 = p\<lparr>writer_closed := True\<rparr>;
          wake = \<not> reader_closed p1 \<and> read_poll p1 \<noteq> None;
          p2 = (if wake then p1\<lparr>read_waiting := False\<rparr> else p1);
          w1 = (if wake then SinglePollSource_Set (read_poll p1) kPollHUp w else w);
          p3 = (if detach then p2\<lparr>write_poll := None\<rparr> else p2)
      in (p3\<lparr>write_waiting := False\<rparr>, w1))"

definition CloseReader :: "bool \<Rightarrow> 'c WaitableChannel \<Rightarrow> poll_world \<Rightarrow> 'c WaitableChannel \<times> poll_world" where
  "CloseReader detach p w =
     (let p1 = p\<lparr>reader_closed := True\<rparr>;
          wake = \<not> writer_closed p1 \<and> write_poll p1 \<noteq> None;
          p2 = (if wake then p1\<lparr>write_waiting := False\<rparr> else p1);
          w1 = (if wake then SinglePollSource_Set (write_poll p1) kPollErr w else w);
          p3 = (if detach then p2\<lparr>read_poll := None\<rparr> else p2)
      in (p3\<lparr>read_waiting := False\<rparr>, w1))"

definition get_reader_flags :: "'c chan_ops \<Rightarrow> 'c WaitableChannel \<Rightarrow> u32" where
  "get_reader_flags ops p =
     (if writer_closed p then kPollHUp else 0) OR (if \<not> co_is_empty ops (wc_chan p) then kPollIn else 0)"

definition get_writer_flags :: "'c chan_ops \<Rightarrow> 'c WaitableChannel \<Rightarrow> u32" where
  "get_writer_flags ops p =
     (if reader_closed p then kPollErr else 0) OR (if \<not> co_is_full ops (wc_chan p) then kPollOut else 0)"

end
