(* ===== verification/PipeSteps.thy ===== *)
theory PipeSteps
  imports Pipe "HOL-Library.Sublist"
begin

text \<open>
  A reader thread and a writer thread on one \<open>WaitableChannel\<close>, interleaved at the points
  where the code of \<^verbatim>\<open>src/junction/fs/pipe.h\<close> is atomic: the lock-free attempt on
  the channel, and each section under the lock.  Closing either end may happen at any point.  The
  laws the threads rely on are the locale \<open>waitable_chan\<close>, interpreted by the byte and the
  message channel.
\<close>

datatype rreq = RPlain nat bool | RVec "byte list list" bool
datatype wreq = WPlain "byte list" | WVec "byte list list"

text \<open>A read delivers bytes; a vectored read delivers the bytes it stored.\<close>

fun do_rreq :: "'c chan_ops \<Rightarrow> rreq \<Rightarrow> 'c \<Rightarrow> byte list Status \<times> 'c" where
  "do_rreq ops (RPlain len peek) c = co_Read ops len peek c"
| "do_rreq ops (RVec iov peek) c = map_ok (\<lambda>(n, iov'). take n (concat iov')) (co_Readv ops iov peek c)"

fun do_wreq :: "'c chan_ops \<Rightarrow> wreq \<Rightarrow> 'c \<Rightarrow> nat Status \<times> 'c" where
  "do_wreq ops (WPlain buf) c = co_Write ops buf c"
| "do_wreq ops (WVec iov) c = co_Writev ops iov c"

fun rreq_peek :: "rreq \<Rightarrow> bool" where
  "rreq_peek (RPlain len peek) = peek"
| "rreq_peek (RVec iov peek) = peek"

fun wreq_bytes :: "wreq \<Rightarrow> byte list" where
  "wreq_bytes (WPlain buf) = buf"
| "wreq_bytes (WVec iov) = concat iov"

text \<open>Requests that ask for something.\<close>

fun rreq_pos :: "rreq \<Rightarrow> bool" where
  "rreq_pos (RPlain len peek) = (len > 0)"
| "rreq_pos (RVec iov peek) = (iov \<noteq> [])"

definition wreq_pos :: "wreq \<Rightarrow> bool" where
  "wreq_pos q \<longleftrightarrow> wreq_bytes q \<noteq> [] \<and> length (wreq_bytes q) < 2 ^ 64"

definition wreq_ok :: "wreq \<Rightarrow> bool" where
  "wreq_ok q \<longleftrightarrow> length (wreq_bytes q) < 2 ^ 64"

datatype rpc = RIdle | RTry rreq | RWait rreq | RParked rreq | RFinish
datatype wpc = WIdle | WTry wreq | WWait wreq | WParked wreq | WFinish nat

record 'c pipe_state =
  ps_ch :: "'c WaitableChannel"
  ps_w :: poll_world
  ps_r :: rpc
  ps_wr :: wpc
  ps_sent :: "byte list"
  ps_got :: "byte list"

inductive pipe_step :: "'c chan_ops \<Rightarrow> 'c pipe_state \<Rightarrow> 'c pipe_state \<Rightarrow> bool" for ops where
  r_start: "ps_r s = RIdle \<Longrightarrow> pipe_step ops s (s\<lparr>ps_r := RTry q\<rparr>)"
| r_try_ok: "ps_r s = RTry q \<Longrightarrow> do_rreq ops q (wc_chan (ps_ch s)) = (Inr bs, c) \<Longrightarrow>
    pipe_step ops s (s\<lparr>ps_ch := (ps_ch s)\<lparr>wc_chan := c\<rparr>, ps_r := RFinish,
      ps_got := ps_got s @ (if rreq_peek q then [] else bs)\<rparr>)"
| r_try_nonblock: "ps_r s = RTry q \<Longrightarrow> do_rreq ops q (wc_chan (ps_ch s)) = (Inl e, c) \<Longrightarrow>
    pipe_step ops s (s\<lparr>ps_ch := (ps_ch s)\<lparr>wc_chan := c\<rparr>, ps_r := RIdle\<rparr>)"
| r_try_block: "ps_r s = RTry q \<Longrightarrow> do_rreq ops q (wc_chan (ps_ch s)) = (Inl e, c) \<Longrightarrow>
    pipe_step ops s (s\<lparr>ps_ch := (ps_ch s)\<lparr>wc_chan := c\<rparr>, ps_r := RWait q\<rparr>)"
| r_wait_sleep: "ps_r s = RWait q \<Longrightarrow> DoRead_wait ops ([] :: byte list) i (ps_ch s) = WaitSleep \<Longrightarrow>
    pipe_step ops s (s\<lparr>ps_ch := (ps_ch s)\<lparr>read_waiting := True\<rparr>, ps_r := RParked q\<rparr>)"
| r_wait_return: "ps_r s = RWait q \<Longrightarrow> DoRead_wait ops ([] :: byte list) i (ps_ch s) = WaitReturn r \<Longrightarrow>
    pipe_step ops s (s\<lparr>ps_r := RIdle\<rparr>)"
| r_wait_retry: "ps_r s = RWait q \<Longrightarrow> DoRead_wait ops ([] :: byte list) i (ps_ch s) = WaitRetry \<Longrightarrow>
    pipe_step ops s (s\<lparr>ps_r := RTry q\<rparr>)"
| r_woken: "ps_r s = RParked q \<Longrightarrow> \<not> read_waiting (ps_ch s) \<Longrightarrow> pipe_step ops s (s\<lparr>ps_r := RWait q\<rparr>)"
| r_signal: "ps_r s = RParked q \<Longrightarrow>
    pipe_step ops s (s\<lparr>ps_ch := (ps_ch s)\<lparr>read_waiting := False\<rparr>, ps_r := RWait q\<rparr>)"
| r_finish: "ps_r s = RFinish \<Longrightarrow> DoRead_finish ops (ps_ch s) (ps_w s) = (p, w) \<Longrightarrow>
    pipe_step ops s (s\<lparr>ps_ch := p, ps_w := w, ps_r := RIdle\<rparr>)"
| w_start: "ps_wr s = WIdle \<Longrightarrow> wreq_ok wq \<Longrightarrow> pipe_step ops s (s\<lparr>ps_wr := WTry wq\<rparr>)"
| w_try_ok: "ps_wr s = WTry wq \<Longrightarrow> do_wreq ops wq (wc_chan (ps_ch s)) = (Inr n, c) \<Longrightarrow>
    pipe_step ops s (s\<lparr>ps_ch := (ps_ch s)\<lparr>wc_chan := c\<rparr>, ps_wr := WFinish n,
      ps_sent := ps_sent s @ take n (wreq_bytes wq)\<rparr>)"
| w_try_nonblock: "ps_wr s = WTry wq \<Longrightarrow> do_wreq ops wq (wc_chan (ps_ch s)) = (Inl e, c) \<Longrightarrow>
    pipe_step ops s (s\<lparr>ps_ch := (ps_ch s)\<lparr>wc_chan := c\<rparr>, ps_wr := WIdle\<rparr>)"
| w_try_block: "ps_wr s = WTry wq \<Longrightarrow> do_wreq ops wq (wc_chan (ps_ch s)) = (Inl e, c) \<Longrightarrow>
    pipe_step ops s (s\<lparr>ps_ch := (ps_ch s)\<lparr>wc_chan := c\<rparr>, ps_wr := WWait wq\<rparr>)"
| w_wait_sleep: "ps_wr s = WWait wq \<Longrightarrow> (DoWrite_wait ops i (ps_ch s) :: nat wait_out) = WaitSleep \<Longrightarrow>
    pipe_step ops s (s\<lparr>ps_ch := (ps_ch s)\<lparr>write_waiting := True\<rparr>, ps_wr := WParked wq\<rparr>)"
| w_wait_return: "ps_wr s = WWait wq \<Longrightarrow> (DoWrite_wait ops i (ps_ch s) :: nat wait_out) = WaitReturn r \<Longrightarrow>
    pipe_step ops s (s\<lparr>ps_wr := WIdle\<rparr>)"
| w_wait_retry: "ps_wr s = WWait wq \<Longrightarrow> (DoWrite_wait ops i (ps_ch s) :: nat wait_out) = WaitRetry \<Longrightarrow>
    pipe_step ops s (s\<lparr>ps_wr := WTry wq\<rparr>)"
| w_woken: "ps_wr s = WParked wq \<Longrightarrow> \<not> write_waiting (ps_ch s) \<Longrightarrow> pipe_step ops s (s\<lparr>ps_wr := WWait wq\<rparr>)"
| w_signal: "ps_wr s = WParked wq \<Longrightarrow>
    pipe_step ops s (s\<lparr>ps_ch := (ps_ch s)\<lparr>write_waiting := False\<rparr>, ps_wr := WWait wq\<rparr>)"
| w_finish: "ps_wr s = WFinish n \<Longrightarrow> DoWrite_finish ops n (ps_ch s) (ps_w s) = (res, p, w) \<Longrightarrow>
    pipe_step ops s (s\<lparr>ps_ch := p, ps_w := w, ps_wr := WIdle\<rparr>)"
| close_reader: "CloseReader detach (ps_ch s) (ps_w s) = (p, w) \<Longrightarrow>
    pipe_step ops s (s\<lparr>ps_ch := p, ps_w := w\<rparr>)"
| close_writer: "CloseWriter detach (ps_ch s) (ps_w s) = (p, w) \<Longrightarrow>
    pipe_step ops s (s\<lparr>ps_ch := p, ps_w := w\<rparr>)"

inductive_cases pipe_stepE [elim]: "pipe_step ops s s'"

text \<open>The start of a pipe: the constructors of the reader and the writer file attach their event
  sources.\<close>

definition pipe_start :: "'c chan_ops \<Rightarrow> 'c \<Rightarrow> nat \<Rightarrow> nat \<Rightarrow> 'c pipe_state" where
  "pipe_start ops c fr fw =
     (let (p1, w1) = AttachReadPoll ops fr (WaitableChannel_new c) pw_init;
          (p2, w2) = AttachWritePoll ops fw p1 w1
      in \<lparr>ps_ch = p2, ps_w = w2, ps_r = RIdle, ps_wr = WIdle, ps_sent = [], ps_got = []\<rparr>)"

inductive pipe_reach :: "'c chan_ops \<Rightarrow> 'c pipe_state \<Rightarrow> 'c pipe_state \<Rightarrow> bool" for ops s0 where
  pipe_reach_start: "pipe_reach ops s0 s0"
| pipe_reach_step: "pipe_reach ops s0 s \<Longrightarrow> pipe_step ops s s' \<Longrightarrow> pipe_reach ops s0 s'"

subsection \<open>Event masks\<close>

definition mask_of :: "poll_world \<Rightarrow> nat \<Rightarrow> u32" where
  "mask_of w f = event_mask (pw_src w f)"

lemma Notify_src [simp]: "pw_src (snd (EPollFile_Notify f m ex os w)) = pw_src w"
proof (induction os arbitrary: ex w)
  case (Cons x os)
  obtain e ob where x: "x = (e, ob)" by (cases x)
  have "pw_src (snd (EPollObserver_Notify e f m ob' w)) = pw_src w" for ob'
    by (simp add: EPollObserver_Notify_def AddEvent_def RemoveEvent_def Let_def)
  then show ?case using Cons unfolding x EPollFile_Notify.simps Let_def
    by (auto simp: case_prod_beta)
qed simp

lemma mask_Notify [simp]: "mask_of (PollSource_Notify f w) g = mask_of w g"
  by (simp add: mask_of_def PollSource_Notify_def Let_def case_prod_beta)

lemma mask_Set [simp]: "mask_of (PollSource_Set f ev force w) g = (if g = f then mask_of w f OR ev else mask_of w g)"
proof -
  have "m OR ev = m" if "m AND ev = ev" for m :: u32
    using that unfolding bit_eq_iff by (auto simp: bit_simps)
  then show ?thesis
    by (auto simp: PollSource_Set_def Let_def) (auto simp: mask_of_def)
qed

lemma mask_Clear [simp]: "mask_of (PollSource_Clear f ev w) g = (if g = f then mask_of w f AND NOT ev else mask_of w g)"
proof -
  have "m AND NOT ev = m" if "m AND ev = 0" for m :: u32
    using that unfolding bit_eq_iff by (auto simp: bit_simps)
  then show ?thesis
    by (auto simp: PollSource_Clear_def Let_def) (auto simp: mask_of_def)
qed

lemma CloseReader_fields:
  assumes "CloseReader d p w = (p', w')"
  shows "wc_chan p' = wc_chan p" "reader_closed p'" "writer_closed p' = writer_closed p" "\<not> read_waiting p'"
    "write_poll p' = write_poll p" "read_poll p' = (if d then None else read_poll p)"
    "write_waiting p' \<Longrightarrow> write_waiting p \<and> (writer_closed p \<or> write_poll p = None)"
    "w' = (if \<not> writer_closed p \<and> write_poll p \<noteq> None then SinglePollSource_Set (write_poll p) kPollErr w else w)"
  using assms unfolding CloseReader_def Let_def
  by (cases d; cases "\<not> writer_closed p \<and> write_poll p \<noteq> None"; force)+

lemma CloseWriter_fields:
  assumes "CloseWriter d p w = (p', w')"
  shows "wc_chan p' = wc_chan p" "writer_closed p'" "reader_closed p' = reader_closed p" "\<not> write_waiting p'"
    "read_poll p' = read_poll p" "write_poll p' = (if d then None else write_poll p)"
    "read_waiting p' \<Longrightarrow> read_waiting p \<and> (reader_closed p \<or> read_poll p = None)"
    "w' = (if \<not> reader_closed p \<and> read_poll p \<noteq> None then SinglePollSource_Set (read_poll p) kPollHUp w else w)"
  using assms unfolding CloseWriter_def Let_def
  by (cases d; cases "\<not> reader_closed p \<and> read_poll p \<noteq> None"; force)+

definition has :: "u32 \<Rightarrow> u32 \<Rightarrow> bool" where
  "has m ev \<longleftrightarrow> m AND ev \<noteq> 0"

lemma has_flags [simp]:
  "has (m OR kPollIn) kPollIn" "has (m OR kPollOut) kPollOut"
  "\<not> has (m AND NOT kPollIn) kPollIn" "\<not> has (m AND NOT kPollOut) kPollOut"
  "has (m OR kPollHUp) kPollIn = has m kPollIn" "has (m OR kPollErr) kPollOut = has m kPollOut"
  by (simp_all add: has_def poll_flag_defs and.assoc bit.conj_disj_distrib2)

lemma mask_Single [simp]:
  "mask_of (SinglePollSource_Set (Some f) ev w) g = (if g = f then mask_of w f OR ev else mask_of w g)"
  "mask_of (SinglePollSource_Clear (Some f) ev w) g = (if g = f then mask_of w f AND NOT ev else mask_of w g)"
  by (simp_all add: SinglePollSource_Set_def SinglePollSource_Clear_def)

subsection \<open>The contract of a channel\<close>

locale waitable_chan =
  fixes ops :: "'c chan_ops" and cok :: "'c \<Rightarrow> bool"
  assumes read_ok: "cok c \<Longrightarrow> do_rreq ops q c = (r, c') \<Longrightarrow> cok c'"
    and read_fail: "cok c \<Longrightarrow> do_rreq ops q c = (Inl e, c') \<Longrightarrow> c' = c \<and> (rreq_pos q \<longrightarrow> co_is_empty ops c)"
    and read_empty: "cok c \<Longrightarrow> do_rreq ops q c = (Inr bs, c') \<Longrightarrow> \<not> co_is_empty ops c"
    and read_full: "cok c \<Longrightarrow> do_rreq ops q c = (r, c') \<Longrightarrow> co_is_full ops c' \<Longrightarrow> co_is_full ops c"
    and write_ok: "cok c \<Longrightarrow> wreq_ok wq \<Longrightarrow> do_wreq ops wq c = (wr, c') \<Longrightarrow> cok c'"
    and write_fail: "cok c \<Longrightarrow> wreq_ok wq \<Longrightarrow> do_wreq ops wq c = (Inl e, c') \<Longrightarrow>
      c' = c \<and> (wreq_pos wq \<longrightarrow> co_is_full ops c)"
    and write_full: "cok c \<Longrightarrow> wreq_ok wq \<Longrightarrow> do_wreq ops wq c = (Inr n, c') \<Longrightarrow> \<not> co_is_full ops c"
    and write_empty: "cok c \<Longrightarrow> wreq_ok wq \<Longrightarrow> do_wreq ops wq c = (wr, c') \<Longrightarrow> co_is_empty ops c' \<Longrightarrow> co_is_empty ops c"
begin

text \<open>The invariant of the two threads.\<close>

definition pipe_inv :: "'c pipe_state \<Rightarrow> bool" where
  "pipe_inv s \<longleftrightarrow>
     cok (wc_chan (ps_ch s)) \<and>
     (case ps_wr s of WTry wq \<Rightarrow> wreq_ok wq | WWait wq \<Rightarrow> wreq_ok wq | WParked wq \<Rightarrow> wreq_ok wq | _ \<Rightarrow> True) \<and>
     (reader_closed (ps_ch s) \<or> read_poll (ps_ch s) \<noteq> None) \<and>
     (writer_closed (ps_ch s) \<or> write_poll (ps_ch s) \<noteq> None) \<and>
     (read_waiting (ps_ch s) \<longrightarrow> \<not> reader_closed (ps_ch s) \<and> \<not> writer_closed (ps_ch s) \<and>
        (co_is_empty ops (wc_chan (ps_ch s)) \<or> (\<exists>n. ps_wr s = WFinish n))) \<and>
     (write_waiting (ps_ch s) \<longrightarrow> \<not> reader_closed (ps_ch s) \<and> \<not> writer_closed (ps_ch s) \<and>
        (co_is_full ops (wc_chan (ps_ch s)) \<or> ps_r s = RFinish))"

lemma pipe_inv_step:
  assumes "pipe_step ops s s'" "pipe_inv s"
  shows "pipe_inv s'"
  using assms
proof (induction rule: pipe_step.induct)
  case (r_try_ok s q bs c)
  then show ?case using read_ok [of "wc_chan (ps_ch s)" q] read_empty [of "wc_chan (ps_ch s)" q bs c]
      read_full [of "wc_chan (ps_ch s)" q]
    by (auto simp: pipe_inv_def)
next
  case (r_try_nonblock s q e c)
  then show ?case using read_fail [of "wc_chan (ps_ch s)" q e c]  by (auto simp: pipe_inv_def)
next
  case (r_try_block s q e c)
  then show ?case using read_fail [of "wc_chan (ps_ch s)" q e c]  by (auto simp: pipe_inv_def)
next
  case (r_wait_sleep s q i)
  then show ?case by (auto simp: pipe_inv_def DoRead_wait_def read_ready_def Let_def split: if_splits)
next
  case (r_finish s p w)
  then show ?case by (auto simp: pipe_inv_def DoRead_finish_def Let_def split: if_splits)
next
  case (w_try_ok s wq n c)
  then show ?case using write_ok [of "wc_chan (ps_ch s)" wq] write_full [of "wc_chan (ps_ch s)" wq n c]
      write_empty [of "wc_chan (ps_ch s)" wq]
    by (auto simp: pipe_inv_def)
next
  case (w_try_nonblock s wq e c)
  then show ?case using write_fail [of "wc_chan (ps_ch s)" wq e c]  by (auto simp: pipe_inv_def)
next
  case (w_try_block s wq e c)
  then show ?case using write_fail [of "wc_chan (ps_ch s)" wq e c]  by (auto simp: pipe_inv_def)
next
  case (w_wait_sleep s wq i)
  then show ?case by (auto simp: pipe_inv_def DoWrite_wait_def write_ready_def Let_def split: if_splits)
next
  case (w_finish s n res p w)
  then show ?case by (auto simp: pipe_inv_def DoWrite_finish_def Let_def split: if_splits)
next
  case (close_reader detach s p w)
  then show ?case using CloseReader_fields [OF close_reader(1)] by (auto simp: pipe_inv_def)
next
  case (close_writer detach s p w)
  then show ?case using CloseWriter_fields [OF close_writer(1)] by (auto simp: pipe_inv_def)
qed (auto simp: pipe_inv_def)

lemma pipe_inv_start: "cok c \<Longrightarrow> pipe_inv (pipe_start ops c fr fw)"
  by (simp add: pipe_start_def pipe_inv_def AttachReadPoll_def AttachWritePoll_def WaitableChannel_new_def)

lemma pipe_reach_inv: "pipe_reach ops (pipe_start ops c fr fw) s \<Longrightarrow> cok c \<Longrightarrow> pipe_inv s"
  by (induction rule: pipe_reach.induct) (auto intro: pipe_inv_start pipe_inv_step)

text \<open>A sleeping thread has nothing to do, unless the other thread is about to wake it.\<close>

lemma no_lost_wakeup:
  assumes "pipe_reach ops (pipe_start ops c fr fw) s" "cok c"
  shows "(read_waiting (ps_ch s) \<longrightarrow> read_ready ops (ps_ch s) \<longrightarrow> (\<exists>n. ps_wr s = WFinish n)) \<and>
    (write_waiting (ps_ch s) \<longrightarrow> write_ready ops (ps_ch s) \<longrightarrow> ps_r s = RFinish)"
  using pipe_reach_inv [OF assms] by (auto simp: pipe_inv_def read_ready_def write_ready_def)

text \<open>The event masks: while neither thread is between its attempt and its final section, the input event
  of an open reader says that the channel is not empty, the output event of an open writer that it is not
  full.\<close>

definition poll_inv :: "nat \<Rightarrow> nat \<Rightarrow> 'c pipe_state \<Rightarrow> bool" where
  "poll_inv fr fw s \<longleftrightarrow>
     (let p = ps_ch s; w = ps_w s in
      (\<not> reader_closed p \<longrightarrow> read_poll p = Some fr \<and>
         (ps_r s \<noteq> RFinish \<longrightarrow> has (mask_of w fr) kPollIn \<longrightarrow> \<not> co_is_empty ops (wc_chan p)) \<and>
         ((\<forall>n. ps_wr s \<noteq> WFinish n) \<longrightarrow> \<not> co_is_empty ops (wc_chan p) \<longrightarrow> has (mask_of w fr) kPollIn)) \<and>
      (\<not> writer_closed p \<longrightarrow> write_poll p = Some fw \<and>
         ((\<forall>n. ps_wr s \<noteq> WFinish n) \<longrightarrow> has (mask_of w fw) kPollOut \<longrightarrow> \<not> co_is_full ops (wc_chan p)) \<and>
         (ps_r s \<noteq> RFinish \<longrightarrow> \<not> co_is_full ops (wc_chan p) \<longrightarrow> has (mask_of w fw) kPollOut)) \<and>
      (read_poll p = None \<or> read_poll p = Some fr) \<and> (write_poll p = None \<or> write_poll p = Some fw))"

lemma finish_masks:
  assumes "DoRead_finish ops p w = (p', w')" "read_poll p = None \<or> read_poll p = Some fr"
    "write_poll p = None \<or> write_poll p = Some fw" "fr \<noteq> fw"
  shows "wc_chan p' = wc_chan p" "reader_closed p' = reader_closed p" "writer_closed p' = writer_closed p"
    "read_poll p' = read_poll p" "write_poll p' = write_poll p"
    "has (mask_of w' fr) kPollIn = (has (mask_of w fr) kPollIn \<and> \<not> (co_is_empty ops (wc_chan p) \<and> read_poll p \<noteq> None))"
    "has (mask_of w' fw) kPollOut = (has (mask_of w fw) kPollOut \<or>
       (\<not> writer_closed p \<and> \<not> co_is_full ops (wc_chan p) \<and> write_poll p \<noteq> None))"
  using assms unfolding DoRead_finish_def Let_def
  by (auto split: if_splits)

lemma wfinish_masks:
  assumes "DoWrite_finish ops n p w = (res, p', w')" "read_poll p = None \<or> read_poll p = Some fr"
    "write_poll p = None \<or> write_poll p = Some fw" "fr \<noteq> fw"
  shows "wc_chan p' = wc_chan p" "reader_closed p' = reader_closed p" "writer_closed p' = writer_closed p"
    "read_poll p' = read_poll p" "write_poll p' = write_poll p"
    "has (mask_of w' fr) kPollIn = (has (mask_of w fr) kPollIn \<or>
       (\<not> reader_closed p \<and> \<not> co_is_empty ops (wc_chan p) \<and> read_poll p \<noteq> None))"
    "has (mask_of w' fw) kPollOut = (has (mask_of w fw) kPollOut \<and> \<not> (co_is_full ops (wc_chan p) \<and> write_poll p \<noteq> None))"
  using assms unfolding DoWrite_finish_def Let_def
  by (auto split: if_splits)

lemma poll_inv_step:
  assumes "pipe_step ops s s'" "pipe_inv s" "poll_inv fr fw s" "fr \<noteq> fw"
  shows "poll_inv fr fw s'"
  using assms
proof (induction rule: pipe_step.induct)
  case (r_try_ok s q bs c)
  have "cok (wc_chan (ps_ch s))" using r_try_ok(3) by (simp add: pipe_inv_def)
  then show ?case using r_try_ok read_empty [of "wc_chan (ps_ch s)" q bs c] read_full [of "wc_chan (ps_ch s)" q]
    by (auto simp: poll_inv_def Let_def)
next
  case (r_try_nonblock s q e c)
  then show ?case using read_fail [of "wc_chan (ps_ch s)" q e c] by (auto simp: poll_inv_def pipe_inv_def Let_def)
next
  case (r_try_block s q e c)
  then show ?case using read_fail [of "wc_chan (ps_ch s)" q e c] by (auto simp: poll_inv_def pipe_inv_def Let_def)
next
  case (r_finish s p w)
  then show ?case using finish_masks [OF r_finish(2), of fr fw] by (auto simp: poll_inv_def Let_def)
next
  case (w_try_ok s wq n c)
  have "cok (wc_chan (ps_ch s))" "wreq_ok wq" using w_try_ok(1,3) by (auto simp: pipe_inv_def)
  then show ?case using w_try_ok write_full [of "wc_chan (ps_ch s)" wq n c] write_empty [of "wc_chan (ps_ch s)" wq]
    by (auto simp: poll_inv_def Let_def)
next
  case (w_try_nonblock s wq e c)
  then show ?case using write_fail [of "wc_chan (ps_ch s)" wq e c] by (auto simp: poll_inv_def pipe_inv_def Let_def)
next
  case (w_try_block s wq e c)
  then show ?case using write_fail [of "wc_chan (ps_ch s)" wq e c] by (auto simp: poll_inv_def pipe_inv_def Let_def)
next
  case (w_finish s n res p w)
  then show ?case using wfinish_masks [OF w_finish(2), of fr fw] by (auto simp: poll_inv_def Let_def)
next
  case (close_reader detach s p w)
  then show ?case using CloseReader_fields [OF close_reader(1)]
    by (auto simp: poll_inv_def Let_def split: if_splits)
next
  case (close_writer detach s p w)
  then show ?case using CloseWriter_fields [OF close_writer(1)]
    by (auto simp: poll_inv_def Let_def split: if_splits)
qed (auto simp: poll_inv_def Let_def)

lemma poll_inv_start:
  assumes "fr \<noteq> fw" "co_is_empty ops c" "\<not> co_is_full ops c"
  shows "poll_inv fr fw (pipe_start ops c fr fw)"
  using assms
  by (simp add: pipe_start_def poll_inv_def AttachReadPoll_def AttachWritePoll_def WaitableChannel_new_def)
    (simp add: mask_of_def pw_init_def has_def)

lemma pipe_reach_poll:
  assumes "pipe_reach ops (pipe_start ops c fr fw) s" "cok c" "fr \<noteq> fw" "co_is_empty ops c" "\<not> co_is_full ops c"
  shows "poll_inv fr fw s"
  using assms(1)
proof (induction rule: pipe_reach.induct)
  case pipe_reach_start
  then show ?case using poll_inv_start assms by blast
next
  case (pipe_reach_step s s')
  then show ?case using pipe_reach_inv [OF pipe_reach_step(1) assms(2)] poll_inv_step assms(3) by blast
qed

lemma poll_masks_exact:
  assumes "pipe_reach ops (pipe_start ops c fr fw) s" "cok c" "fr \<noteq> fw" "co_is_empty ops c" "\<not> co_is_full ops c"
    "ps_r s \<noteq> RFinish" "\<forall>n. ps_wr s \<noteq> WFinish n"
  shows "(\<not> reader_closed (ps_ch s) \<longrightarrow> has (mask_of (ps_w s) fr) kPollIn = (\<not> co_is_empty ops (wc_chan (ps_ch s)))) \<and>
    (\<not> writer_closed (ps_ch s) \<longrightarrow> has (mask_of (ps_w s) fw) kPollOut = (\<not> co_is_full ops (wc_chan (ps_ch s))))"
  using pipe_reach_poll [OF assms(1-5)] assms(6,7) unfolding poll_inv_def Let_def by blast

text \<open>A blocking read for at least one byte makes at most one attempt before it returns or goes to sleep,
  and so does a write.\<close>

lemma DoRead_total:
  assumes "cok (wc_chan p)" "rreq_pos q"
  shows "DoRead (Suc n) ops nonblocking i zero (do_rreq ops q) p w \<noteq> None"
proof (cases "do_rreq ops q (wc_chan p)")
  case (Pair r c)
  show ?thesis
  proof (cases r)
    case (Inl e)
    have c: "c = wc_chan p" "co_is_empty ops c" using read_fail [OF assms(1), of q e c] Pair Inl assms(2) by auto
    then have "DoRead_wait ops zero i (p\<lparr>wc_chan := c\<rparr>) \<noteq> WaitRetry"
      by (simp add: DoRead_wait_def read_ready_def Let_def)
    then show ?thesis using Pair Inl by (auto simp: Let_def split: wait_out.splits)
  qed (use Pair in simp)
qed

lemma DoWrite_total:
  assumes "cok (wc_chan p)" "wreq_pos q"
  shows "DoWrite (Suc n) ops nonblocking i (do_wreq ops q) p w \<noteq> None"
proof (cases "do_wreq ops q (wc_chan p)")
  case (Pair r c)
  show ?thesis
  proof (cases r)
    case (Inl e)
    have "wreq_ok q" using assms(2) by (simp add: wreq_pos_def wreq_ok_def)
    then have c: "c = wc_chan p" "co_is_full ops c"
      using write_fail [OF assms(1), of q e c] Pair Inl assms(2) by auto
    then have "(DoWrite_wait ops i (p\<lparr>wc_chan := c\<rparr>) :: nat wait_out) \<noteq> WaitRetry"
      by (simp add: DoWrite_wait_def write_ready_def Let_def)
    then show ?thesis using Pair Inl by (auto simp: Let_def split: wait_out.splits)
  qed (use Pair in \<open>simp split: prod.splits\<close>)
qed

end

text \<open>A channel that carries a stream of bytes.\<close>

locale stream_chan = waitable_chan ops cok for ops :: "'c chan_ops" and cok +
  fixes stream :: "'c \<Rightarrow> byte list"
  assumes read_stream: "cok c \<Longrightarrow> do_rreq ops q c = (Inr bs, c') \<Longrightarrow>
      stream c = (if rreq_peek q then stream c' else bs @ stream c') \<and> (rreq_peek q \<longrightarrow> prefix bs (stream c))"
    and write_stream: "cok c \<Longrightarrow> wreq_ok wq \<Longrightarrow> do_wreq ops wq c = (Inr n, c') \<Longrightarrow>
      stream c' = stream c @ take n (wreq_bytes wq)"
begin

lemma stream_step:
  assumes "pipe_step ops s s'" "pipe_inv s" "ps_sent s = ps_got s @ stream (wc_chan (ps_ch s))"
  shows "ps_sent s' = ps_got s' @ stream (wc_chan (ps_ch s'))"
  using assms
proof (induction rule: pipe_step.induct)
  case (r_try_ok s q bs c)
  then show ?case using read_stream [of "wc_chan (ps_ch s)" q bs c] by (auto simp: pipe_inv_def split: if_splits)
next
  case (r_try_nonblock s q e c)
  then show ?case using read_fail [of "wc_chan (ps_ch s)" q e c] by (auto simp: pipe_inv_def)
next
  case (r_try_block s q e c)
  then show ?case using read_fail [of "wc_chan (ps_ch s)" q e c] by (auto simp: pipe_inv_def)
next
  case (r_finish s p w)
  then show ?case by (auto simp: DoRead_finish_def Let_def split: if_splits)
next
  case (w_try_ok s wq n c)
  then show ?case using write_stream [of "wc_chan (ps_ch s)" wq n c] by (auto simp: pipe_inv_def)
next
  case (w_try_nonblock s wq e c)
  then show ?case using write_fail [of "wc_chan (ps_ch s)" wq e c] by (auto simp: pipe_inv_def)
next
  case (w_try_block s wq e c)
  then show ?case using write_fail [of "wc_chan (ps_ch s)" wq e c] by (auto simp: pipe_inv_def)
next
  case (w_finish s n res p w)
  then show ?case by (auto simp: DoWrite_finish_def Let_def split: if_splits)
next
  case (close_reader detach s p w)
  then show ?case using CloseReader_fields [OF close_reader(1)] by auto
next
  case (close_writer detach s p w)
  then show ?case using CloseWriter_fields [OF close_writer(1)] by auto
qed auto

lemma stream_reach:
  assumes "pipe_reach ops (pipe_start ops c fr fw) s" "cok c" "stream c = []"
  shows "ps_sent s = ps_got s @ stream (wc_chan (ps_ch s))"
  using assms(1)
proof (induction rule: pipe_reach.induct)
  case pipe_reach_start
  then show ?case using assms(3)
    by (simp add: pipe_start_def AttachReadPoll_def AttachWritePoll_def WaitableChannel_new_def)
next
  case (pipe_reach_step s s')
  then show ?case using stream_step pipe_reach_inv [OF pipe_reach_step(1) assms(2)] by blast
qed

end

subsection \<open>The byte and the message channel keep the contract\<close>

lemma byte_read:
  assumes "bc_ok c" "do_rreq byte_ops q c = (r, c')"
  shows "bc_ok c' \<and> bc_cap c' = bc_cap c \<and>
    (case r of Inl e \<Rightarrow> c' = c \<and> (rreq_pos q \<longrightarrow> bc_list c = [])
     | Inr bs \<Rightarrow> bc_list c \<noteq> [] \<and>
         (if rreq_peek q then c' = c \<and> prefix bs (bc_list c) else bc_list c = bs @ bc_list c'))"
proof (cases q)
  case (RPlain len peek)
  then show ?thesis
    using assms bc_Read_spec [OF assms(1), of len peek] bc_consume [OF assms(1), of "min (length (bc_list c)) len"]
    by (auto simp: byte_ops_def take_is_prefix simp del: length_bc_list split: if_splits)
       (auto simp: min_def simp del: length_bc_list)
next
  case (RVec iov peek)
  let ?n = "min (length (bc_list c)) (length (concat iov))"
  show ?thesis
  proof (cases "bc_list c = []")
    case True
    then show ?thesis using assms bc_Readv_spec [OF assms(1), of iov peek] RVec
      by (auto simp: byte_ops_def map_ok_def)
  next
    case False
    obtain iov' where v: "bc_Readv iov peek c = (Inr (?n, iov'), if peek then c else c\<lparr>bc_out := bc_out c + of_nat ?n\<rparr>)"
      "concat iov' = take ?n (bc_list c) @ drop ?n (concat iov)"
      using False bc_Readv_spec [OF assms(1), of iov peek] by (auto simp: Let_def)
    have r: "r = Inr (take ?n (bc_list c))" "c' = (if peek then c else c\<lparr>bc_out := bc_out c + of_nat ?n\<rparr>)"
      using assms(2) v RVec by (simp_all add: byte_ops_def map_ok_def del: length_bc_list)
    then show ?thesis using bc_consume [OF assms(1), of ?n] False RVec assms(1)
      by (simp add: take_is_prefix del: length_bc_list)
  qed
qed

lemma byte_write:
  assumes "bc_ok c" "do_wreq byte_ops wq c = (r, c')"
  shows "bc_ok c' \<and> bc_cap c' = bc_cap c \<and>
    (case r of Inl e \<Rightarrow> c' = c \<and> (wreq_pos wq \<longrightarrow> length (bc_list c) = bc_cap c)
     | Inr n \<Rightarrow> length (bc_list c) \<noteq> bc_cap c \<and> bc_list c' = bc_list c @ take n (wreq_bytes wq))"
proof (cases wq)
  case (WPlain buf)
  have "length (bc_list c) = bc_cap c" if "min (bc_cap c - length (bc_list c)) (length buf) = 0" "buf \<noteq> []"
    using that bc_list_le_cap [OF assms(1)] by (auto simp: min_def simp del: length_bc_list split: if_splits)
  then show ?thesis using WPlain assms bc_Write_spec [OF assms(1), of buf]
    by (auto simp: byte_ops_def wreq_pos_def simp del: length_bc_list split: if_splits)
next
  case (WVec iov)
  then show ?thesis using assms bc_Writev_spec [OF assms(1), of iov] bc_list_le_cap [OF assms(1)]
    by (auto simp: byte_ops_def wreq_pos_def min_def simp del: length_bc_list split: if_splits)
qed

interpretation sp: stream_chan byte_ops bc_ok bc_list
proof
  fix c q r c' assume a: "bc_ok c" "do_rreq byte_ops q c = (r, c')"
  note R = byte_read [OF a]
  show "bc_ok c'" using R by blast
  show "co_is_full byte_ops c" if "co_is_full byte_ops c'"
  proof -
    have "length (bc_list c') \<le> length (bc_list c)"
      using R by (auto split: sum.splits if_splits simp del: length_bc_list)
    then show ?thesis using that R a(1) bc_list_le_cap [OF a(1)]
      by (auto simp: byte_ops_def bc_is_full_list simp del: length_bc_list)
  qed
next
  fix c q e c' assume "bc_ok c" "do_rreq byte_ops q c = (Inl e, c')"
  from byte_read [OF this] show "c' = c \<and> (rreq_pos q \<longrightarrow> co_is_empty byte_ops c)"
    by (simp add: byte_ops_def bc_is_empty_list)
next
  fix c q bs c' assume "bc_ok c" "do_rreq byte_ops q c = (Inr bs, c')"
  note R = byte_read [OF this]
  show "\<not> co_is_empty byte_ops c" using R by (simp add: byte_ops_def bc_is_empty_list)
  show "bc_list c = (if rreq_peek q then bc_list c' else bs @ bc_list c') \<and> (rreq_peek q \<longrightarrow> prefix bs (bc_list c))"
    using R by (auto split: if_splits)
next
  fix c wq r c' assume a: "bc_ok c" "wreq_ok wq" "do_wreq byte_ops wq c = (r, c')"
  note W = byte_write [OF a(1,3)]
  show "bc_ok c'" using W by blast
  show "co_is_empty byte_ops c" if "co_is_empty byte_ops c'"
    using W that by (auto simp: byte_ops_def bc_is_empty_list split: sum.splits)
next
  fix c wq e c' assume a: "bc_ok c" "wreq_ok wq" "do_wreq byte_ops wq c = (Inl e, c')"
  from byte_write [OF a(1,3)] a(1) show "c' = c \<and> (wreq_pos wq \<longrightarrow> co_is_full byte_ops c)"
    by (simp add: byte_ops_def bc_is_full_list)
next
  fix c wq n c' assume a: "bc_ok c" "wreq_ok wq" "do_wreq byte_ops wq c = (Inr n, c')"
  note W = byte_write [OF a(1,3)]
  show "\<not> co_is_full byte_ops c" using W a(1) by (simp add: byte_ops_def bc_is_full_list)
  show "bc_list c' = bc_list c @ take n (wreq_bytes wq)" using W by simp
qed

lemma msg_read:
  assumes "mc_ok c" "do_rreq msg_ops q c = (r, c')"
  shows "mc_ok c' \<and> mc_cap c' = mc_cap c \<and> length (mc_list c') \<le> length (mc_list c) \<and>
    (case r of Inl e \<Rightarrow> c' = c \<and> (rreq_pos q \<longrightarrow> mc_list c = []) | Inr bs \<Rightarrow> mc_list c \<noteq> [])"
proof (cases q)
  case (RPlain len peek)
  then show ?thesis using assms mc_Read_spec [OF assms(1), of "\<lambda>a. a" len False False]
    by (cases "mc_list c") (auto simp: msg_ops_def map_ok_def mc_Read_plain_def take_aux_def simp del: length_mc_list)
next
  case (RVec iov peek)
  then show ?thesis using assms mc_Readv_spec [OF assms(1), of "\<lambda>a. a" iov peek False]
    by (cases "mc_list c") (auto simp: msg_ops_def map_ok_def take_aux_def Let_def simp del: length_mc_list split: if_splits)
qed

lemma msg_write:
  assumes "mc_ok c" "wreq_ok wq" "do_wreq msg_ops wq c = (r, c')"
  shows "mc_ok c' \<and> mc_cap c' = mc_cap c \<and>
    (case r of Inl e \<Rightarrow> c' = c \<and> (wreq_pos wq \<longrightarrow> length (mc_list c) = mc_cap c)
     | Inr n \<Rightarrow> length (mc_list c) \<noteq> mc_cap c \<and> mc_list c' \<noteq> [])"
proof (cases wq)
  case (WPlain buf)
  then show ?thesis using assms mc_Write_spec [OF assms(1), of buf None]
    by (auto simp: msg_ops_def wreq_pos_def simp del: length_mc_list split: if_splits)
next
  case (WVec iov)
  then have "length (concat iov) < 2 ^ 64" using assms(2) by (simp add: wreq_ok_def)
  then show ?thesis using WVec assms mc_Writev_spec [OF assms(1), of iov None]
    by (auto simp: msg_ops_def wreq_pos_def simp del: length_mc_list length_concat split: if_splits)
qed

interpretation mp: waitable_chan msg_ops mc_ok
proof
  fix c q r c' assume a: "mc_ok c" "do_rreq msg_ops q c = (r, c')"
  note R = msg_read [OF a]
  show "mc_ok c'" using R by blast
  show "co_is_full msg_ops c" if "co_is_full msg_ops c'"
    using that R a(1) mc_list_le_cap [OF a(1)] by (auto simp: msg_ops_def mc_is_full_list simp del: length_mc_list)
next
  fix c q e c' assume "mc_ok c" "do_rreq msg_ops q c = (Inl e, c')"
  from msg_read [OF this] show "c' = c \<and> (rreq_pos q \<longrightarrow> co_is_empty msg_ops c)"
    by (simp add: msg_ops_def mc_is_empty_list)
next
  fix c q bs c' assume "mc_ok c" "do_rreq msg_ops q c = (Inr bs, c')"
  from msg_read [OF this] show "\<not> co_is_empty msg_ops c" by (simp add: msg_ops_def mc_is_empty_list)
next
  fix c wq r c' assume a: "mc_ok c" "wreq_ok wq" "do_wreq msg_ops wq c = (r, c')"
  note W = msg_write [OF a]
  show "mc_ok c'" using W by blast
  show "co_is_empty msg_ops c" if "co_is_empty msg_ops c'"
    using W that by (auto simp: msg_ops_def mc_is_empty_list split: sum.splits)
next
  fix c wq e c' assume a: "mc_ok c" "wreq_ok wq" "do_wreq msg_ops wq c = (Inl e, c')"
  from msg_write [OF a] a(1) show "c' = c \<and> (wreq_pos wq \<longrightarrow> co_is_full msg_ops c)"
    by (simp add: msg_ops_def mc_is_full_list)
next
  fix c wq n c' assume a: "mc_ok c" "wreq_ok wq" "do_wreq msg_ops wq c = (Inr n, c')"
  from msg_write [OF a] a(1) show "\<not> co_is_full msg_ops c" by (simp add: msg_ops_def mc_is_full_list)
qed

subsection \<open>Pipes\<close>

lemma new_pipe_chan:
  assumes "sz \<le> 2 ^ 63"
  shows "bc_ok (ByteChannel_new sz) \<and> co_is_empty byte_ops (ByteChannel_new sz) \<and> \<not> co_is_full byte_ops (ByteChannel_new sz)"
    "mc_ok (MessageChannel_new () sz) \<and> co_is_empty msg_ops (MessageChannel_new () sz) \<and>
      \<not> co_is_full msg_ops (MessageChannel_new () sz)"
proof -
  obtain k where k: "k < 64" "ring_size sz = 2 ^ k" using ring_size_pow2 [OF assms] by blast
  then have "0 < unat (ring_size sz)" by (simp add: unat_pow2)
  then have pos: "\<not> ring_size sz \<le> 0" by (metis unat_gt_0 word_le_0_iff)
  show "bc_ok (ByteChannel_new sz) \<and> co_is_empty byte_ops (ByteChannel_new sz) \<and> \<not> co_is_full byte_ops (ByteChannel_new sz)"
    using bc_new_ok [OF assms] pos by (simp add: byte_ops_def bc_is_empty_list bc_is_full_def ByteChannel_new_def)
  show "mc_ok (MessageChannel_new () sz) \<and> co_is_empty msg_ops (MessageChannel_new () sz) \<and>
      \<not> co_is_full msg_ops (MessageChannel_new () sz)"
    using mc_new_ok [OF assms, of "()"] pos by (simp add: msg_ops_def mc_is_empty_list mc_is_full_def MessageChannel_new_def)
qed

text \<open>C3: In every interleaving of a reader, a writer and closes on a stream pipe, the bytes accepted from
  the writer are the bytes delivered to the reader followed by the bytes in the channel: nothing is lost,
  duplicated or reordered.\<close>

theorem pipe_stream_fifo:
  assumes "pipe_reach byte_ops (pipe_start byte_ops (ByteChannel_new sz) fr fw) s" "sz \<le> 2 ^ 63"
  shows "ps_sent s = ps_got s @ bc_list (wc_chan (ps_ch s))"
  using sp.stream_reach [OF assms(1)] bc_new_ok [OF assms(2)] by blast

text \<open>The state after a writer stored two bytes, used by the witnesses.\<close>

definition demo_start :: "ByteChannel pipe_state" where
  "demo_start = pipe_start byte_ops (ByteChannel_new 4) 5 6"

lemma demo_chan: "wc_chan (ps_ch demo_start) = ByteChannel_new 4" "ps_wr demo_start = WIdle" "ps_r demo_start = RIdle"
  "ps_sent demo_start = []" "reader_closed (ps_ch demo_start) = False" "writer_closed (ps_ch demo_start) = False"
  by (simp_all add: demo_start_def pipe_start_def AttachReadPoll_def AttachWritePoll_def WaitableChannel_new_def Let_def)

lemma demo_write:
  obtains c where "bc_Write [7, 8] (ByteChannel_new 4) = (Inr 2, c)" "bc_list c = [7, 8]"
proof -
  have s: "ring_size 4 = 4" by (simp add: ring_size_def bit_width.simps)
  have n: "bc_ok (ByteChannel_new 4) \<and> bc_list (ByteChannel_new 4) = []" by (rule bc_new_ok) simp
  have "bc_cap (ByteChannel_new 4) = 4" by (simp add: bc_cap_def ByteChannel_new_def s)
  then show ?thesis
    using bc_Write_spec [of "ByteChannel_new 4" "[7, 8]"] n that by (auto simp del: length_bc_list)
qed

lemma demo_reach:
  "\<exists>s. pipe_reach byte_ops demo_start s \<and> ps_sent s = [7, 8] \<and> ps_r s = RIdle \<and> ps_wr s = WFinish 2 \<and>
    \<not> bc_is_empty (wc_chan (ps_ch s))"
proof -
  obtain c where c: "bc_Write [7, 8] (ByteChannel_new 4) = (Inr 2, c)" "bc_list c = [7, 8]" by (rule demo_write)
  let ?s1 = "demo_start\<lparr>ps_wr := WTry (WPlain [7, 8])\<rparr>"
  have 1: "pipe_step byte_ops demo_start ?s1"
    using demo_chan by (intro w_start) (simp_all add: wreq_ok_def)
  have w: "do_wreq byte_ops (WPlain [7, 8]) (wc_chan (ps_ch ?s1)) = (Inr 2, c)"
    using c(1) demo_chan by (simp add: byte_ops_def)
  note 2 = w_try_ok [of ?s1 "WPlain [7, 8]" byte_ops 2 c, OF _ w]
  have "bc_is_empty c = False" using c(2) by (simp add: bc_is_empty_list)
  then show ?thesis
    using pipe_reach_step [OF pipe_reach_step [OF pipe_reach_start 1] 2] demo_chan by fastforce
qed

theorem pipe_stream_fifo_witness:
  "\<exists>s. ps_sent s = [7, 8] \<and> [7, 8] = ps_got s @ bc_list (wc_chan (ps_ch (s :: ByteChannel pipe_state)))"
proof -
  obtain s where s: "pipe_reach byte_ops demo_start s" "ps_sent s = [7, 8]" using demo_reach by blast
  have "ps_sent s = ps_got s @ bc_list (wc_chan (ps_ch s))"
    by (rule pipe_stream_fifo [of 4 5 6]) (use s(1) in \<open>simp_all add: demo_start_def\<close>)
  then show ?thesis using s(2) by metis
qed

text \<open>C19: On a stream pipe, a reader sleeps although there is something to read (or an end is closed) only
  while the writer is still between its attempt on the channel and the section that wakes the reader, and the
  same holds for a sleeping writer: no wake-up is lost.\<close>

theorem pipe_no_lost_wakeup:
  assumes "pipe_reach byte_ops (pipe_start byte_ops (ByteChannel_new sz) fr fw) s" "sz \<le> 2 ^ 63"
  shows "(read_waiting (ps_ch s) \<longrightarrow> read_ready byte_ops (ps_ch s) \<longrightarrow> (\<exists>n. ps_wr s = WFinish n)) \<and>
    (write_waiting (ps_ch s) \<longrightarrow> write_ready byte_ops (ps_ch s) \<longrightarrow> ps_r s = RFinish)"
  using sp.no_lost_wakeup [OF assms(1)] new_pipe_chan(1) [OF assms(2)] by blast

theorem pipe_no_lost_wakeup_witness:
  "\<exists>s. pipe_reach byte_ops demo_start s \<and> ps_sent s = [7, 8] \<and>
    \<not> (write_waiting (ps_ch s) \<and> write_ready byte_ops (ps_ch s))"
proof -
  obtain s where s: "pipe_reach byte_ops demo_start s" "ps_sent s = [7, 8]" "ps_r s = RIdle" using demo_reach by blast
  have "(read_waiting (ps_ch s) \<longrightarrow> read_ready byte_ops (ps_ch s) \<longrightarrow> (\<exists>n. ps_wr s = WFinish n)) \<and>
    (write_waiting (ps_ch s) \<longrightarrow> write_ready byte_ops (ps_ch s) \<longrightarrow> ps_r s = RFinish)"
    by (rule pipe_no_lost_wakeup [of 4 5 6]) (use s(1) in \<open>simp_all add: demo_start_def\<close>)
  then show ?thesis using s by auto
qed

text \<open>On a message pipe whose threads are not between an attempt and its final section, the input event
  of the open reading end says exactly that a message is queued, and the output event of the open writing
  end that the queue is not full.\<close>

theorem msg_pipe_poll_exact:
  assumes "pipe_reach msg_ops (pipe_start msg_ops (MessageChannel_new () sz) fr fw) s" "sz \<le> 2 ^ 63" "fr \<noteq> fw"
    "ps_r s \<noteq> RFinish" "\<forall>n. ps_wr s \<noteq> WFinish n"
  shows "(\<not> reader_closed (ps_ch s) \<longrightarrow> has (mask_of (ps_w s) fr) kPollIn = (mc_list (wc_chan (ps_ch s)) \<noteq> [])) \<and>
    (\<not> writer_closed (ps_ch s) \<longrightarrow> has (mask_of (ps_w s) fw) kPollOut = (\<not> mc_is_full (wc_chan (ps_ch s))))"
  using mp.poll_masks_exact [OF assms(1) _ assms(3) _ _ assms(4,5)] new_pipe_chan(2) [OF assms(2)]
  by (simp add: msg_ops_def mc_is_empty_list)

theorem msg_pipe_poll_exact_witness:
  "let s = pipe_start msg_ops (MessageChannel_new () 4) 5 6 in
    \<not> has (mask_of (ps_w s) 5) kPollIn \<and> has (mask_of (ps_w s) 6) kPollOut"
proof -
  let ?s = "pipe_start msg_ops (MessageChannel_new () 4) 5 6"
  have f: "ps_r ?s \<noteq> RFinish" "\<forall>n. ps_wr ?s \<noteq> WFinish n" "\<not> reader_closed (ps_ch ?s)" "\<not> writer_closed (ps_ch ?s)"
    "wc_chan (ps_ch ?s) = MessageChannel_new () 4"
    by (simp_all add: pipe_start_def AttachReadPoll_def AttachWritePoll_def WaitableChannel_new_def Let_def)
  have "mc_list (MessageChannel_new () 4) = []" using mc_new_ok [of 4 "()"] by simp
  moreover have "\<not> mc_is_full (MessageChannel_new () 4)"
    by (simp add: mc_is_full_def MessageChannel_new_def ring_size_def bit_width.simps)
  ultimately show ?thesis
    using msg_pipe_poll_exact [of 4 5 6 ?s, OF pipe_reach_start _ _ f(1,2)] f(3-5) by simp
qed

text \<open>C36: A blocking read of at least one byte and a write of at least one byte on a stream pipe return, or go
  to sleep, after a single attempt: the loop does not spin.\<close>

theorem pipe_read_write_total:
  assumes "bc_ok (wc_chan p)" "0 < len" "length buf < 2 ^ 64"
  shows "WC_Read 1 byte_ops len nonblocking peek i p w \<noteq> None \<and> WC_Write 1 byte_ops buf nonblocking i p w \<noteq> None"
proof
  have "DoRead (Suc 0) byte_ops nonblocking i [] (do_rreq byte_ops (RPlain len peek)) p w \<noteq> None"
    by (rule sp.DoRead_total) (use assms in simp_all)
  moreover have "do_rreq byte_ops (RPlain len peek) = co_Read byte_ops len peek" by (intro ext) simp
  ultimately show "WC_Read 1 byte_ops len nonblocking peek i p w \<noteq> None" by (simp only: WC_Read_def One_nat_def not_False_eq_True)
  show "WC_Write 1 byte_ops buf nonblocking i p w \<noteq> None"
  proof (cases "buf = []")
    case False
    have "DoWrite (Suc 0) byte_ops nonblocking i (do_wreq byte_ops (WPlain buf)) p w \<noteq> None"
      by (rule sp.DoWrite_total) (use assms False in \<open>simp_all add: wreq_pos_def\<close>)
    moreover have "do_wreq byte_ops (WPlain buf) = co_Write byte_ops buf" by (intro ext) simp
    ultimately show ?thesis using False by (simp only: WC_Write_def One_nat_def if_False not_False_eq_True)
  qed (simp add: WC_Write_def)
qed

theorem pipe_read_write_total_witness:
  "WC_Read 1 byte_ops 3 False False False (WaitableChannel_new (ByteChannel_new 4)) pw_init \<noteq> None"
  using pipe_read_write_total [of "WaitableChannel_new (ByteChannel_new 4)" 3 "[]" False False False pw_init]
    bc_new_ok [of 4] by (simp add: WaitableChannel_new_def)

text \<open>A blocking read of zero bytes on a stream pipe that holds data never returns: the attempt reports
  \<open>EAGAIN\<close>, the wait finds the channel not empty and retries, whatever the number of rounds.\<close>

theorem pipe_zero_read_spins:
  assumes "bc_ok (wc_chan p)" "bc_list (wc_chan p) \<noteq> []"
  shows "WC_Read fuel byte_ops 0 False peek i p w = None"
proof -
  have a: "co_Read byte_ops 0 peek (wc_chan p) = (Inl EAGAIN, wc_chan p)"
    using bc_Read_spec [OF assms(1), of 0 peek] by (simp add: byte_ops_def)
  have "DoRead_wait byte_ops ([] :: byte list) i p = WaitRetry"
    using assms(2) by (simp add: DoRead_wait_def read_ready_def byte_ops_def bc_is_empty_list)
  then show ?thesis unfolding WC_Read_def
    using a by (induction fuel) (simp_all add: Let_def)
qed

theorem pipe_zero_read_spins_witness:
  "\<exists>c. \<forall>fuel. WC_Read fuel byte_ops 0 False False False (WaitableChannel_new c) pw_init = None"
proof -
  obtain c where c: "bc_Write [7, 8] (ByteChannel_new 4) = (Inr 2, c)" "bc_list c = [7, 8]" by (rule demo_write)
  have "bc_ok c" using bcw.wr_inv byte_write [of "ByteChannel_new 4" "WPlain [7, 8]"] c bc_new_ok [of 4] by (simp add: byte_ops_def)
  then show ?thesis
    using pipe_zero_read_spins [of "WaitableChannel_new c" _ False False pw_init] c(2)
    by (intro exI [of _ c]) (simp add: WaitableChannel_new_def)
qed

end
