(* ===== verification/PollSelect.thy ===== *)
theory PollSelect
  imports Poll
begin

text \<open>
  \<open>poll\<close> and \<open>select\<close> of \<^verbatim>\<open>src/junction/fs/poll.cc\<close>: the scan that decides
  whether the call returns at once, the triggers that run while it sleeps, the exit of the wait loop,
  and the conversion between the three \<open>fd_set\<close>s and the vector of descriptors.  The lookup of a
  descriptor's current events is the argument \<open>ftbl\<close>.
\<close>

type_synonym short = "16 word"

record pollfd =
  pfd :: int
  pevents :: short
  prevents :: short

definition poll_match :: "u32 \<Rightarrow> short \<Rightarrow> short" where
  "poll_match pev wanted = ucast pev AND (wanted OR ucast (kPollErr OR kPollHUp))"

definition is_set :: "short \<Rightarrow> bool" where
  "is_set r \<longleftrightarrow> sint r > 0"

fun poll_scan :: "(int \<Rightarrow> u32 option) \<Rightarrow> pollfd list \<Rightarrow> int \<times> pollfd list" where
  "poll_scan ftbl [] = (0, [])"
| "poll_scan ftbl (p # ps) =
     (case poll_scan ftbl ps of (n, ps') \<Rightarrow>
        (case ftbl (pfd p) of
           None \<Rightarrow> (n + 1, p\<lparr>prevents := ucast kPollInval\<rparr> # ps')
         | Some ev \<Rightarrow>
             (let r = poll_match ev (pevents p) in
              (if r \<noteq> 0 then n + 1 else n, p\<lparr>prevents := r\<rparr> # ps'))))"

text \<open>The trigger of entry \<open>i\<close>, run with the new events of its file.\<close>

definition poll_trigger :: "nat \<times> u32 \<Rightarrow> int \<times> pollfd list \<Rightarrow> int \<times> pollfd list" where
  "poll_trigger call st =
     (case call of (i, pev) \<Rightarrow> case st of (nevents, ps) \<Rightarrow>
        (let p = ps ! i;
             d1 = (if is_set (prevents p) then -1 else 0);
             r = poll_match pev (pevents p);
             delta = d1 + (if is_set r then 1 else 0)
         in (nevents + delta, ps[i := p\<lparr>prevents := r\<rparr>])))"

datatype poll_result = PReturn int "pollfd list" | PSleep "pollfd list"

definition DoPoll :: "(int \<Rightarrow> u32 option) \<Rightarrow> pollfd list \<Rightarrow> nat option \<Rightarrow> poll_result" where
  "DoPoll ftbl fds timeout =
     (case poll_scan ftbl fds of (nevents, ps) \<Rightarrow>
        if nevents > 0 \<or> timeout = Some 0 then PReturn nevents ps else PSleep ps)"

text \<open>The wait loop is left when events are pending, the timeout expired or a signal arrived.\<close>

definition DoPoll_exit :: "int \<times> pollfd list \<Rightarrow> nat option \<Rightarrow> bool \<Rightarrow> bool \<Rightarrow> poll_result" where
  "DoPoll_exit st timeout timed_out signaled =
     (case st of (nevents, ps) \<Rightarrow>
        if nevents > 0 \<or> timed_out \<or> signaled then
          (if nevents = 0 \<and> signaled then PReturn (if timeout = None then - ERESTARTSYS else - EINTR) ps
           else PReturn nevents ps)
        else PSleep ps)"

subsection \<open>select\<close>

record select_fd =
  sfd_fd :: nat
  sfd_events :: short
  sfd_revents :: short

definition kSelectIn :: short where "kSelectIn = ucast (kPollIn OR kPollHUp OR kPollErr)"
definition kSelectOut :: short where "kSelectOut = ucast (kPollOut OR kPollErr)"
definition kSelectExcept :: short where "kSelectExcept = ucast kPollPrio"

type_synonym fd_sets = "nat set option \<times> nat set option \<times> nat set option"

definition FD_ISSET :: "nat \<Rightarrow> nat set option \<Rightarrow> bool" where
  "FD_ISSET i s = (case s of None \<Rightarrow> False | Some A \<Rightarrow> i \<in> A)"

definition FD_CLR :: "nat \<Rightarrow> nat set option \<Rightarrow> nat set option" where
  "FD_CLR i s = map_option (\<lambda>A. A - {i}) s"

definition FD_SET :: "nat \<Rightarrow> nat set option \<Rightarrow> nat set option" where
  "FD_SET i s = map_option (insert i) s"

definition decode_events :: "nat \<Rightarrow> fd_sets \<Rightarrow> short" where
  "decode_events i sets =
     (case sets of (rs, ws, es) \<Rightarrow>
        (if FD_ISSET i rs then kSelectIn else 0) OR (if FD_ISSET i ws then kSelectOut else 0)
        OR (if FD_ISSET i es then kSelectExcept else 0))"

definition clear_fd :: "nat \<Rightarrow> fd_sets \<Rightarrow> fd_sets" where
  "clear_fd i sets = (case sets of (rs, ws, es) \<Rightarrow> (FD_CLR i rs, FD_CLR i ws, FD_CLR i es))"

fun decode_loop :: "nat list \<Rightarrow> fd_sets \<Rightarrow> select_fd list \<times> fd_sets" where
  "decode_loop [] sets = ([], sets)"
| "decode_loop (i # is) sets =
     (let events = decode_events i sets in
      case decode_loop is (clear_fd i sets) of (sfds, sets') \<Rightarrow>
        (if events = 0 then sfds else \<lparr>sfd_fd = i, sfd_events = events, sfd_revents = 0\<rparr> # sfds, sets'))"

definition DecodeSelectFDs :: "nat \<Rightarrow> fd_sets \<Rightarrow> select_fd list \<times> fd_sets" where
  "DecodeSelectFDs nfds sets = decode_loop [0..<nfds] sets"

definition wants :: "short \<Rightarrow> select_fd \<Rightarrow> bool" where
  "wants m s \<longleftrightarrow> sfd_events s AND m = m \<and> sfd_revents s AND m \<noteq> 0"

fun EncodeSelectFDs :: "select_fd list \<Rightarrow> fd_sets \<Rightarrow> int \<times> fd_sets" where
  "EncodeSelectFDs [] sets = (0, sets)"
| "EncodeSelectFDs (s # ss) (rs, ws, es) =
     (let rs1 = (if wants kSelectIn s then FD_SET (sfd_fd s) rs else rs);
          ws1 = (if wants kSelectOut s then FD_SET (sfd_fd s) ws else ws);
          es1 = (if wants kSelectExcept s then FD_SET (sfd_fd s) es else es);
          c = (if wants kSelectIn s then 1 else 0) + (if wants kSelectOut s then 1 else 0)
              + (if wants kSelectExcept s then 1 else 0)
      in case EncodeSelectFDs ss (rs1, ws1, es1) of (n, sets') \<Rightarrow> (n + c, sets'))"

fun select_scan :: "(int \<Rightarrow> u32 option) \<Rightarrow> select_fd list \<Rightarrow> (int \<times> select_fd list) Status" where
  "select_scan ftbl [] = Inr (0, [])"
| "select_scan ftbl (s # ss) =
     (case ftbl (int (sfd_fd s)) of
        None \<Rightarrow> Inl EBADF
      | Some ev \<Rightarrow>
          (case select_scan ftbl ss of
             Inl e \<Rightarrow> Inl e
           | Inr (n, ss') \<Rightarrow>
               (let pev = ucast ev :: short in
                if pev AND sfd_events s \<noteq> 0
                then Inr (n + 1, s\<lparr>sfd_revents := pev AND sfd_events s\<rparr> # ss')
                else Inr (n, s # ss'))))"

datatype select_result = SReturn int fd_sets | SErr errno | SSleep "select_fd list" fd_sets

definition FD_SETSIZE :: nat where "FD_SETSIZE = 1024"

text \<open>The part of \<open>DoSelect\<close> before it sleeps; \<open>timeout\<close> is in nanoseconds.\<close>

definition DoSelect :: "(int \<Rightarrow> u32 option) \<Rightarrow> nat \<Rightarrow> fd_sets \<Rightarrow> nat option \<Rightarrow> select_result" where
  "DoSelect ftbl nfds sets timeout =
     (if nfds > FD_SETSIZE then SErr EINVAL
      else
        (case DecodeSelectFDs nfds sets of (sfds, sets') \<Rightarrow>
           (case select_scan ftbl sfds of
              Inl e \<Rightarrow> SErr e
            | Inr (nevents, sfds') \<Rightarrow>
                if nevents > 0 then (case EncodeSelectFDs sfds' sets' of (r, sets'') \<Rightarrow> SReturn r sets'')
                else if timeout = Some 0 then SReturn 0 sets'
                else SSleep sfds' sets')))"

subsection \<open>poll\<close>

definition set_count :: "pollfd list \<Rightarrow> int" where
  "set_count ps = int (length (filter (\<lambda>p. is_set (prevents p)) ps))"

lemma set_count_update:
  assumes "i < length ps"
  shows "set_count (ps[i := p]) = set_count ps - (if is_set (prevents (ps ! i)) then 1 else 0)
    + (if is_set (prevents p) then 1 else 0)"
proof -
  have "ps = take i ps @ ps ! i # drop (Suc i) ps" using assms by (simp add: id_take_nth_drop)
  then obtain xs q ys where "ps = xs @ q # ys" "length xs = i" "ps ! i = q" using assms
    by (metis length_take less_imp_le min.absorb2)
  then show ?thesis by (auto simp: set_count_def list_update_append)
qed

lemma poll_scan_spec:
  "fst (poll_scan ftbl ps) = int (length (filter (\<lambda>p. prevents p \<noteq> 0) (snd (poll_scan ftbl ps)))) \<and>
   length (snd (poll_scan ftbl ps)) = length ps"
  by (induction ps) (auto simp: Let_def kPollInval_def split: prod.splits option.splits)

lemma poll_triggers_count:
  assumes "fst st = set_count (snd st)" "\<forall>(i, ev) \<in> set calls. i < length (snd st)"
  shows "fst (fold poll_trigger calls st) = set_count (snd (fold poll_trigger calls st))"
  using assms
proof (induction calls arbitrary: st)
  case (Cons c calls)
  obtain i ev n ps where e: "c = (i, ev)" "st = (n, ps)" by (cases c, cases st)
  have "fst (poll_trigger c st) = set_count (snd (poll_trigger c st))"
    "length (snd (poll_trigger c st)) = length (snd st)"
    using Cons.prems e by (auto simp: poll_trigger_def Let_def set_count_update)
  then show ?case using Cons.prems(2) by (simp add: Cons.IH)
qed simp

text \<open>While \<open>poll\<close> sleeps, the counter its wait condition tests equals the number of entries with
  pending events, whatever sequence of notifications the triggers receive; so it wakes exactly when some
  entry has a pending event.\<close>

theorem poll_counter_exact:
  assumes "DoPoll ftbl fds timeout = PSleep ps" "\<forall>(i, ev) \<in> set calls. i < length fds"
  shows "fst (fold poll_trigger calls (0, ps)) = set_count (snd (fold poll_trigger calls (0, ps)))"
proof (rule poll_triggers_count)
  obtain n where s: "poll_scan ftbl fds = (n, ps)" "\<not> n > 0"
    using assms(1) by (auto simp: DoPoll_def split: prod.splits if_splits)
  then have "filter (\<lambda>p. prevents p \<noteq> 0) ps = []" "length ps = length fds"
    using poll_scan_spec [of ftbl fds] by auto
  then show "fst (0, ps) = set_count (snd (0, ps))" "\<forall>(i, ev) \<in> set calls. i < length (snd (0, ps))"
    using assms(2) by (auto simp: set_count_def filter_empty_conv is_set_def)
qed

theorem poll_counter_exact_witness:
  "fst (fold poll_trigger [(0, kPollIn), (0, 0), (0, kPollHUp)]
      (0, [\<lparr>pfd = 3, pevents = 1, prevents = 0\<rparr>])) = 1"
proof -
  let ?p = "\<lparr>pfd = 3, pevents = 1, prevents = 0\<rparr> :: pollfd"
  have "DoPoll (\<lambda>_. Some 0) [?p] None = PSleep [?p]" by (simp add: DoPoll_def poll_match_def)
  from poll_counter_exact [OF this, of "[(0, kPollIn), (0, 0), (0, kPollHUp)]"] show ?thesis
    by (simp add: poll_trigger_def poll_match_def set_count_def is_set_def poll_flag_defs Let_def)
qed

subsection \<open>The descriptor sets\<close>

definition sel_fd :: "fd_sets \<Rightarrow> nat \<Rightarrow> select_fd" where
  "sel_fd sets i = \<lparr>sfd_fd = i, sfd_events = decode_events i sets, sfd_revents = 0\<rparr>"

definition sets_minus :: "fd_sets \<Rightarrow> nat set \<Rightarrow> fd_sets" where
  "sets_minus sets A =
     (case sets of (rs, ws, es) \<Rightarrow>
        (map_option (\<lambda>B. B - A) rs, map_option (\<lambda>B. B - A) ws, map_option (\<lambda>B. B - A) es))"

lemma decode_events_clear: "i \<noteq> j \<Longrightarrow> decode_events i (clear_fd j sets) = decode_events i sets"
  by (cases sets) (simp add: decode_events_def clear_fd_def FD_ISSET_def FD_CLR_def split: option.splits)

lemma sets_minus_clear: "sets_minus (clear_fd i sets) A = sets_minus sets (insert i A)"
  by (cases sets) (auto simp: sets_minus_def clear_fd_def FD_CLR_def option.map_comp o_def intro!: option.map_cong)

lemma decode_loop_spec:
  assumes "distinct is"
  shows "decode_loop is sets = (map (sel_fd sets) (filter (\<lambda>i. decode_events i sets \<noteq> 0) is), sets_minus sets (set is))"
  using assms
proof (induction "is" arbitrary: sets)
  case Nil
  show ?case by (cases sets) (simp add: sets_minus_def option.map_ident)
next
  case (Cons i "is")
  have "decode_events j (clear_fd i sets) = decode_events j sets" if "j \<in> set is" for j
    using that Cons.prems by (intro decode_events_clear) auto
  then have "map (sel_fd (clear_fd i sets)) (filter (\<lambda>j. decode_events j (clear_fd i sets) \<noteq> 0) is)
      = map (sel_fd sets) (filter (\<lambda>j. decode_events j sets \<noteq> 0) is)"
    by (auto simp: sel_fd_def cong: filter_cong)
  then show ?case using Cons by (simp add: Let_def sets_minus_clear) (simp add: sel_fd_def)
qed

definition got :: "short \<Rightarrow> select_fd list \<Rightarrow> nat \<Rightarrow> nat set option \<Rightarrow> bool" where
  "got m ss i A \<longleftrightarrow> FD_ISSET i A \<or> A \<noteq> None \<and> (\<exists>s\<in>set ss. sfd_fd s = i \<and> wants m s)"

lemma EncodeSelectFDs_spec:
  assumes "EncodeSelectFDs ss (rs, ws, es) = (n, (rs', ws', es'))"
  shows "(FD_ISSET i rs' \<longleftrightarrow> got kSelectIn ss i rs) \<and> (FD_ISSET i ws' \<longleftrightarrow> got kSelectOut ss i ws) \<and>
    (FD_ISSET i es' \<longleftrightarrow> got kSelectExcept ss i es) \<and>
    n = int (length (filter (wants kSelectIn) ss)) + int (length (filter (wants kSelectOut) ss))
      + int (length (filter (wants kSelectExcept) ss))"
  using assms
proof (induction ss arbitrary: rs ws es n)
  case (Cons s ss)
  define rs1 where "rs1 = (if wants kSelectIn s then FD_SET (sfd_fd s) rs else rs)"
  define ws1 where "ws1 = (if wants kSelectOut s then FD_SET (sfd_fd s) ws else ws)"
  define es1 where "es1 = (if wants kSelectExcept s then FD_SET (sfd_fd s) es else es)"
  obtain m where e: "EncodeSelectFDs ss (rs1, ws1, es1) = (m, (rs', ws', es'))"
    "n = m + ((if wants kSelectIn s then 1 else 0) + (if wants kSelectOut s then 1 else 0)
              + (if wants kSelectExcept s then 1 else 0))"
    using Cons.prems by (auto simp: rs1_def ws1_def es1_def Let_def split: prod.splits)
  have step: "got k ss i (if wants k s then FD_SET (sfd_fd s) A else A) = got k (s # ss) i A" for k A
    by (cases A) (auto simp: got_def FD_SET_def FD_ISSET_def)
  show ?case using Cons.IH [OF e(1)] e(2) step by (simp add: rs1_def ws1_def es1_def)
qed (simp add: got_def)

lemma decode_wants:
  fixes rv :: "nat \<Rightarrow> short"
  assumes "s = \<lparr>sfd_fd = i, sfd_events = decode_events i (rs, ws, es), sfd_revents = rv i AND decode_events i (rs, ws, es)\<rparr>"
  shows "wants kSelectIn s \<longleftrightarrow> FD_ISSET i rs \<and> rv i AND kSelectIn \<noteq> 0"
    "wants kSelectOut s \<longleftrightarrow> FD_ISSET i ws \<and> rv i AND kSelectOut \<noteq> 0"
    "wants kSelectExcept s \<longleftrightarrow> FD_ISSET i es \<and> rv i AND kSelectExcept \<noteq> 0"
  unfolding assms wants_def decode_events_def kSelectIn_def kSelectOut_def kSelectExcept_def poll_flag_defs
  by (cases "FD_ISSET i rs"; cases "FD_ISSET i ws"; cases "FD_ISSET i es"; simp add: and.assoc)+

lemma decode_events_zero:
  "decode_events i (rs, ws, es) = 0 \<longleftrightarrow> \<not> FD_ISSET i rs \<and> \<not> FD_ISSET i ws \<and> \<not> FD_ISSET i es"
  unfolding decode_events_def kSelectIn_def kSelectOut_def kSelectExcept_def poll_flag_defs
  by (cases "FD_ISSET i rs"; cases "FD_ISSET i ws"; cases "FD_ISSET i es"; simp)

definition with_revents :: "(nat \<Rightarrow> short) \<Rightarrow> select_fd list \<Rightarrow> select_fd list" where
  "with_revents rv ss = map (\<lambda>s. s\<lparr>sfd_revents := rv (sfd_fd s) AND sfd_events s\<rparr>) ss"

text \<open>Decoding the descriptor sets of \<open>select\<close>, setting the returned events, and encoding them again
  leaves a descriptor below \<open>nfds\<close> in a set exactly when it was in that set and an event of that set's class
  occurred, and leaves the others alone.\<close>

theorem select_round_trip:
  assumes "DecodeSelectFDs nfds (rs, ws, es) = (sfds, sets)"
    and "EncodeSelectFDs (with_revents rv sfds) sets = (n, (rs', ws', es'))"
  shows "(FD_ISSET i rs' \<longleftrightarrow> FD_ISSET i rs \<and> (i < nfds \<longrightarrow> rv i AND kSelectIn \<noteq> 0)) \<and>
    (FD_ISSET i ws' \<longleftrightarrow> FD_ISSET i ws \<and> (i < nfds \<longrightarrow> rv i AND kSelectOut \<noteq> 0)) \<and>
    (FD_ISSET i es' \<longleftrightarrow> FD_ISSET i es \<and> (i < nfds \<longrightarrow> rv i AND kSelectExcept \<noteq> 0))"
proof -
  let ?S = "(rs, ws, es)"
  have d: "sfds = map (sel_fd ?S) (filter (\<lambda>i. decode_events i ?S \<noteq> 0) [0..<nfds])"
    "sets = sets_minus ?S {0..<nfds}"
    using assms(1) decode_loop_spec [of "[0..<nfds]" ?S] by (auto simp: DecodeSelectFDs_def)
  define out where "out i = \<lparr>sfd_fd = i, sfd_events = decode_events i ?S, sfd_revents = rv i AND decode_events i ?S\<rparr>" for i
  have ss: "with_revents rv sfds = map out (filter (\<lambda>i. decode_events i ?S \<noteq> 0) [0..<nfds])"
    by (simp add: d(1) with_revents_def sel_fd_def out_def o_def)
  obtain rs0 ws0 es0 where s0: "sets = (rs0, ws0, es0)" by (cases sets)
  note E = EncodeSelectFDs_spec [OF assms(2) [unfolded s0], of i]
  have ex: "(\<exists>s\<in>set (with_revents rv sfds). sfd_fd s = i \<and> wants m s) \<longleftrightarrow> i < nfds \<and> decode_events i ?S \<noteq> 0 \<and> wants m (out i)" for m
    unfolding ss by (auto simp: out_def)
  note w = decode_wants [of "out i" i rs ws es rv, OF out_def]
  have z: "decode_events i ?S \<noteq> 0 \<longleftrightarrow> FD_ISSET i rs \<or> FD_ISSET i ws \<or> FD_ISSET i es"
    using decode_events_zero [of i rs ws es] by blast
  have m: "rs0 = map_option (\<lambda>B. B - {0..<nfds}) rs" "ws0 = map_option (\<lambda>B. B - {0..<nfds}) ws"
    "es0 = map_option (\<lambda>B. B - {0..<nfds}) es"
    using d(2) s0 by (auto simp: sets_minus_def)
  show ?thesis
  proof (intro conjI)
  show "FD_ISSET i rs' \<longleftrightarrow> FD_ISSET i rs \<and> (i < nfds \<longrightarrow> rv i AND kSelectIn \<noteq> 0)"
    using E ex [of kSelectIn] w(1) z unfolding got_def m
    by (cases "i < nfds") (auto simp: FD_ISSET_def split: option.splits)
  show "FD_ISSET i ws' \<longleftrightarrow> FD_ISSET i ws \<and> (i < nfds \<longrightarrow> rv i AND kSelectOut \<noteq> 0)"
    using E ex [of kSelectOut] w(2) z unfolding got_def m
    by (cases "i < nfds") (auto simp: FD_ISSET_def split: option.splits)
  show "FD_ISSET i es' \<longleftrightarrow> FD_ISSET i es \<and> (i < nfds \<longrightarrow> rv i AND kSelectExcept \<noteq> 0)"
    using E ex [of kSelectExcept] w(3) z unfolding got_def m
    by (cases "i < nfds") (auto simp: FD_ISSET_def split: option.splits)
  qed
qed

theorem select_round_trip_witness:
  "\<exists>sfds sets n rs' ws' es'. DecodeSelectFDs 4 (Some {1, 3, 9}, Some {2}, None) = (sfds, sets) \<and>
     EncodeSelectFDs (with_revents (\<lambda>i. if i = 3 then 1 else 0) sfds) sets = (n, (rs', ws', es')) \<and>
     FD_ISSET 3 rs' \<and> \<not> FD_ISSET 1 rs' \<and> FD_ISSET 9 rs' \<and> \<not> FD_ISSET 2 ws'"
proof -
  obtain sfds sets where d: "DecodeSelectFDs 4 (Some {1, 3, 9}, Some {2}, None) = (sfds, sets)"
    by (cases "DecodeSelectFDs 4 (Some {1, 3, 9}, Some {2}, None)")
  let ?rv = "\<lambda>i::nat. if i = 3 then 1 else 0 :: short"
  obtain n rs' ws' es' where e: "EncodeSelectFDs (with_revents ?rv sfds) sets = (n, (rs', ws', es'))"
    by (cases "EncodeSelectFDs (with_revents ?rv sfds) sets")
  note R = select_round_trip [OF d e]
  have "FD_ISSET 3 rs' \<and> \<not> FD_ISSET 1 rs' \<and> FD_ISSET 9 rs' \<and> \<not> FD_ISSET 2 ws'"
    using R [of 3] R [of 1] R [of 9] R [of 2]
    by (simp add: FD_ISSET_def kSelectIn_def poll_flag_defs)
  then show ?thesis using d e by blast
qed

end
