(* ===== verification/Bits.thy ===== *)
theory Bits
  imports Prelude
begin

text \<open>
  Alignment helpers of \<^verbatim>\<open>src/junction/base/bits.h\<close> and the page helpers of
  \<^verbatim>\<open>src/junction/base/arch.h\<close>, on 64-bit words.  The lemmas read them as rounding on
  natural numbers, with the wrap-around of \<open>AlignUp\<close> near the top of the address space
  stated as a side condition.
\<close>

definition AlignUp :: "u64 \<Rightarrow> u64 \<Rightarrow> u64" where
  "AlignUp val align = (val + (align - 1)) AND NOT (align - 1)"

definition AlignDown :: "u64 \<Rightarrow> u64 \<Rightarrow> u64" where
  "AlignDown val align = val AND NOT (align - 1)"

definition DivideUp :: "u64 \<Rightarrow> u64 \<Rightarrow> u64" where
  "DivideUp dividend divisor = (dividend + divisor - 1) div divisor"

definition kPageSize :: u64 where
  "kPageSize = 4096"

definition PageAlign :: "uintptr \<Rightarrow> uintptr" where
  "PageAlign addr = AlignUp addr kPageSize"

definition PageAlignDown :: "uintptr \<Rightarrow> uintptr" where
  "PageAlignDown addr = AlignDown addr kPageSize"

definition IsPageAligned :: "uintptr \<Rightarrow> bool" where
  "IsPageAligned addr \<longleftrightarrow> PageAlign addr = addr"

subsection \<open>Rounding\<close>

lemma and_not_mask_unat: "unat ((x::64 word) AND NOT (mask n)) = unat x div 2 ^ n * 2 ^ n"
proof -
  have "x AND NOT (mask n) = push_bit n (drop_bit n x)"
    by (rule bit_eqI) (auto simp: bit_simps)
  then have eq: "x AND NOT (mask n) = drop_bit n x * 2 ^ n"
    by (simp add: push_bit_eq_mult)
  show ?thesis
  proof (cases "n < 64")
    case True
    have "unat x div 2 ^ n * 2 ^ n \<le> unat x" by (rule div_times_less_eq_dividend)
    then have lt: "unat x div 2 ^ n * 2 ^ n < 2 ^ 64" using unat_lt_64 [of x] by linarith
    have "unat (word_of_nat (2 ^ n) :: 64 word) = 2 ^ n mod 2 ^ 64"
      unfolding unsigned_of_nat by (simp add: take_bit_eq_mod)
    then have "unat ((2::64 word) ^ n) = 2 ^ n"
      using True power_strict_increasing [of n 64 "2::nat"] by simp
    then have "unat (drop_bit n x * 2 ^ n) = unat x div 2 ^ n * 2 ^ n mod 2 ^ 64"
      unfolding unat_word_ariths by (simp add: drop_bit_eq_div unat_div)
    then show ?thesis
      unfolding eq using lt by simp
  next
    case False
    then have "(2::nat) ^ 64 \<le> 2 ^ n" by (intro power_increasing) auto
    then have "unat x div 2 ^ n = 0" using unat_lt_64 [of x] by (intro div_less) linarith
    moreover have "(2::64 word) ^ n = 0" using False by (simp add: not_less)
    ultimately show ?thesis unfolding eq by simp
  qed
qed

lemma page_mask: "kPageSize - 1 = mask 12"
  by (simp add: kPageSize_def mask_eq_exp_minus_1)

lemma PageAlignDown_unat: "unat (PageAlignDown a) = unat a div 4096 * 4096"
  unfolding PageAlignDown_def AlignDown_def page_mask using and_not_mask_unat [of a 12] by simp

lemma PageAlign_unat_wrap: "unat (PageAlign a) = unat (a + 4095) div 4096 * 4096"
proof -
  have "a + (kPageSize - 1) = a + 4095" by (simp add: kPageSize_def)
  then show ?thesis
    unfolding PageAlign_def AlignUp_def page_mask [symmetric]
    using and_not_mask_unat [of "a + 4095" 12] by (simp add: page_mask)
qed

lemma PageAlign_unat:
  assumes "unat a + 4095 < 2 ^ 64"
  shows "unat (PageAlign a) = (unat a + 4095) div 4096 * 4096"
proof -
  have "unat (a + 4095) = unat a + 4095"
    using assms unat_add_no_wrap [of a 4095] by simp
  then show ?thesis by (simp add: PageAlign_unat_wrap)
qed

lemma IsPageAligned_unat: "IsPageAligned a \<longleftrightarrow> 4096 dvd unat a"
proof
  assume "IsPageAligned a"
  then have "unat a = unat (a + 4095) div 4096 * 4096"
    using PageAlign_unat_wrap [of a] by (simp add: IsPageAligned_def)
  then show "4096 dvd unat a" by (metis dvd_triv_right)
next
  assume dvd: "4096 dvd unat a"
  then obtain q where q: "unat a = 4096 * q" by (rule dvdE)
  have "unat a < 2 ^ 64" by (rule unat_lt_64)
  with q have bound: "unat a + 4095 < 2 ^ 64" by simp
  have "unat (PageAlign a) = unat a" using PageAlign_unat [OF bound] q by simp
  then show "IsPageAligned a" by (simp add: IsPageAligned_def word_unat_eq_iff)
qed

lemma PageAlign_aligned [simp]: "IsPageAligned (PageAlign a)"
  by (simp add: IsPageAligned_unat PageAlign_unat_wrap)

lemma PageAlignDown_aligned [simp]: "IsPageAligned (PageAlignDown a)"
  by (simp add: IsPageAligned_unat PageAlignDown_unat)

lemma PageAlign_ge: "unat a + 4095 < 2 ^ 64 \<Longrightarrow> a \<le> PageAlign a"
  by (simp add: word_le_nat_alt PageAlign_unat)

lemma PageAlign_mono:
  "a \<le> b \<Longrightarrow> unat b + 4095 < 2 ^ 64 \<Longrightarrow> PageAlign a \<le> PageAlign b"
  by (simp add: word_le_nat_alt PageAlign_unat div_le_mono)

lemma PageAlign_idem [simp]: "PageAlign (PageAlign a) = PageAlign a"
  using PageAlign_aligned by (simp add: IsPageAligned_def)

lemma PageAlign_of_aligned: "IsPageAligned a \<Longrightarrow> PageAlign a = a"
  by (simp add: IsPageAligned_def)

lemma aligned_add: "IsPageAligned a \<Longrightarrow> IsPageAligned b \<Longrightarrow> IsPageAligned (a + b)"
proof -
  assume "IsPageAligned a" "IsPageAligned b"
  then have "4096 dvd unat a + unat b" by (simp add: IsPageAligned_unat)
  moreover have "(4096::nat) dvd 2 ^ 64" by (simp add: dvd_def)
  ultimately have "4096 dvd (unat a + unat b) mod 2 ^ 64" by (rule dvd_mod)
  then show ?thesis by (simp add: IsPageAligned_unat unat_word_ariths)
qed

lemma aligned_diff: "IsPageAligned a \<Longrightarrow> IsPageAligned b \<Longrightarrow> b \<le> a \<Longrightarrow> IsPageAligned (a - b)"
  by (simp add: IsPageAligned_unat unat_sub dvd_diff_nat)

lemma PageAlignDown_le: "PageAlignDown a \<le> a"
  by (simp add: word_le_nat_alt PageAlignDown_unat)

text \<open>\<open>PageAlign\<close> rounds up to the next page boundary: away from the top of the address
  space the result is the least page-aligned address that is not below the argument.\<close>

lemma PageAlign_least:
  assumes "unat a + 4095 < 2 ^ 64"
  shows "IsPageAligned (PageAlign a) \<and> a \<le> PageAlign a \<and>
    (\<forall>b. IsPageAligned b \<and> a \<le> b \<longrightarrow> PageAlign a \<le> b)"
proof -
  have "PageAlign a \<le> b" if "IsPageAligned b" "a \<le> b" for b
  proof -
    have "4096 dvd unat b" using that(1) by (simp add: IsPageAligned_unat)
    then obtain q where q: "unat b = 4096 * q" by (rule dvdE)
    have "(unat a + 4095) div 4096 \<le> q" using that(2) q by (simp add: word_le_nat_alt)
    then show ?thesis using q PageAlign_unat [OF assms] by (simp add: word_le_nat_alt)
  qed
  then show ?thesis using PageAlign_ge [OF assms] by simp
qed


end
