(* ===== verification/Bitmap.thy ===== *)
theory Bitmap
  imports Bits
begin

text \<open>
  The bit sets of \<^verbatim>\<open>src/junction/base/bitmap.h\<close> and the identifier allocator of
  \<^verbatim>\<open>src/junction/base/uid.h\<close>.  The fixed \<open>bitmap<N>\<close> and the
  \<open>dynamic_bitmap\<close> share one representation, a size and a list of 64-bit words; they differ
  in how many words their constructors allocate.  The word-wise searches are proved equal to a search over
  the individual bits.
\<close>

definition kBitsPerLong :: nat where "kBitsPerLong = 64"

definition get_idx :: "nat \<Rightarrow> nat" where "get_idx pos = pos div kBitsPerLong"
definition get_shift :: "nat \<Rightarrow> nat" where "get_shift pos = pos mod kBitsPerLong"

text \<open>The number of words: the code divides by the bytes of a word, not by its bits.\<close>

definition get_size :: "nat \<Rightarrow> nat" where "get_size n = (n + 7) div 8"

record bitmap =
  bm_size :: nat
  bm_bits :: "u64 list"

definition bitmap_new :: "nat \<Rightarrow> bitmap" where
  "bitmap_new n = \<lparr>bm_size = n, bm_bits = replicate (get_size n) 0\<rparr>"

definition dynamic_bitmap_new :: "nat \<Rightarrow> bitmap" where
  "dynamic_bitmap_new n = \<lparr>bm_size = n, bm_bits = replicate n 0\<rparr>"

definition bm_resize :: "nat \<Rightarrow> bitmap \<Rightarrow> bitmap" where
  "bm_resize n b =
     \<lparr>bm_size = n,
      bm_bits = take (get_size n) (bm_bits b) @ replicate (get_size n - length (bm_bits b)) 0\<rparr>"

definition bm_test :: "bitmap \<Rightarrow> nat \<Rightarrow> bool" where
  "bm_test b pos \<longleftrightarrow> (bm_bits b ! get_idx pos) AND push_bit (get_shift pos) 1 \<noteq> 0"

definition bm_set :: "nat \<Rightarrow> bitmap \<Rightarrow> bitmap" where
  "bm_set pos b =
     b\<lparr>bm_bits := (bm_bits b)[get_idx pos := (bm_bits b ! get_idx pos) OR push_bit (get_shift pos) 1]\<rparr>"

definition bm_clear :: "nat \<Rightarrow> bitmap \<Rightarrow> bitmap" where
  "bm_clear pos b =
     b\<lparr>bm_bits := (bm_bits b)[get_idx pos := (bm_bits b ! get_idx pos) AND NOT (push_bit (get_shift pos) 1)]\<rparr>"

definition bm_set_all :: "bitmap \<Rightarrow> bitmap" where
  "bm_set_all b = b\<lparr>bm_bits := map (\<lambda>_. - 1) (bm_bits b)\<rparr>"

definition bm_clear_all :: "bitmap \<Rightarrow> bitmap" where
  "bm_clear_all b = b\<lparr>bm_bits := map (\<lambda>_. 0) (bm_bits b)\<rparr>"

definition bm_all :: "bitmap \<Rightarrow> bool" where
  "bm_all b \<longleftrightarrow> list_all (\<lambda>v. v = - 1) (bm_bits b)"

definition bm_any :: "bitmap \<Rightarrow> bool" where
  "bm_any b \<longleftrightarrow> list_ex (\<lambda>v. v \<noteq> 0) (bm_bits b)"

definition bm_none :: "bitmap \<Rightarrow> bool" where
  "bm_none b \<longleftrightarrow> \<not> list_ex (\<lambda>v. v \<noteq> 0) (bm_bits b)"

text \<open>\<open>count\<close> uses the 32-bit population count, which sees the low half of each word.\<close>

definition popcount32 :: "u64 \<Rightarrow> nat" where
  "popcount32 v = length (filter (bit v) [0..<32])"

definition bm_count :: "bitmap \<Rightarrow> nat" where
  "bm_count b = sum_list (map popcount32 (bm_bits b))"

text \<open>\<open>__builtin_ffsl\<close>: one plus the index of the lowest set bit, or zero.\<close>

definition ffsl :: "u64 \<Rightarrow> nat" where
  "ffsl v = (case List.find (bit v) [0..<64] of None \<Rightarrow> 0 | Some k \<Rightarrow> Suc k)"

function find_next_loop :: "bool \<Rightarrow> bitmap \<Rightarrow> nat \<Rightarrow> u64 \<Rightarrow> nat option" where
  "find_next_loop invert b i msk =
     (if i < bm_size b then
        (let w = bm_bits b ! get_idx i;
             v = (if invert then NOT w else w);
             r = ffsl (v AND msk)
         in if r = 0 then find_next_loop invert b (i + kBitsPerLong) (NOT 0)
            else if i + r - 1 \<ge> bm_size b then None
            else Some (i + r - 1))
      else None)"
  by pat_completeness auto
termination by (relation "measure (\<lambda>(invert, b, i, msk). bm_size b - i)") (auto simp: kBitsPerLong_def)

declare find_next_loop.simps [simp del]

definition find_next :: "bool \<Rightarrow> nat \<Rightarrow> bitmap \<Rightarrow> nat option" where
  "find_next invert pos b =
     find_next_loop invert b (pos - pos mod kBitsPerLong) (NOT (push_bit (get_shift pos) 1 - 1))"

definition find_next_set :: "nat \<Rightarrow> bitmap \<Rightarrow> nat option" where
  "find_next_set pos b = find_next False pos b"

definition find_next_clear :: "nat \<Rightarrow> bitmap \<Rightarrow> nat option" where
  "find_next_clear pos b = find_next True pos b"

text \<open>The indices \<open>for_each_set_bit\<close> and \<open>for_each_clear_bit\<close> visit; the fuel bounds the number of
  visits.\<close>

fun for_each_loop :: "nat \<Rightarrow> bool \<Rightarrow> bitmap \<Rightarrow> nat option \<Rightarrow> nat list" where
  "for_each_loop 0 invert b idx = []"
| "for_each_loop (Suc fuel) invert b idx =
     (case idx of None \<Rightarrow> [] | Some i \<Rightarrow> i # for_each_loop fuel invert b (find_next invert (i + 1) b))"

definition for_each_set_bit :: "bitmap \<Rightarrow> nat list" where
  "for_each_set_bit b = for_each_loop (Suc (bm_size b)) False b (find_next_set 0 b)"

definition for_each_clear_bit :: "bitmap \<Rightarrow> nat list" where
  "for_each_clear_bit b = for_each_loop (Suc (bm_size b)) True b (find_next_clear 0 b)"

subsection \<open>Single bits\<close>

named_theorems bitmap_simps \<open>the bits of a bitmap after an update\<close>

definition bm_ok :: "bitmap \<Rightarrow> bool" where
  "bm_ok b \<longleftrightarrow> bm_size b \<le> 64 * length (bm_bits b)"

lemma bm_ok_idx: "bm_ok b \<Longrightarrow> i < bm_size b \<Longrightarrow> get_idx i < length (bm_bits b)"
  by (simp add: bm_ok_def get_idx_def kBitsPerLong_def)

lemma bm_test_bit: "bm_test b pos = bit (bm_bits b ! get_idx pos) (get_shift pos)"
proof -
  have "get_shift pos < 64" by (simp add: get_shift_def kBitsPerLong_def)
  then show ?thesis unfolding bm_test_def bit_eq_iff
    by (auto simp: bit_simps)
qed

lemma idx_shift_eq: "get_idx i = get_idx j \<and> get_shift i = get_shift j \<longleftrightarrow> i = j"
  unfolding get_idx_def get_shift_def by (metis div_mult_mod_eq)

lemma bm_test_set [bitmap_simps]:
  assumes "bm_ok b" "i < bm_size b"
  shows "bm_test (bm_set i b) j = (j = i \<or> bm_test b j)"
proof -
  have "get_shift i < 64" by (simp add: get_shift_def kBitsPerLong_def)
  then show ?thesis
    using bm_ok_idx [OF assms] idx_shift_eq [of i j]
    by (auto simp: bm_test_bit bm_set_def nth_list_update bit_simps)
qed

lemma bm_test_clear [bitmap_simps]:
  assumes "bm_ok b" "i < bm_size b"
  shows "bm_test (bm_clear i b) j = (j \<noteq> i \<and> bm_test b j)"
proof -
  have "get_shift j < 64" "get_shift i < 64" by (simp_all add: get_shift_def kBitsPerLong_def)
  then show ?thesis
    using bm_ok_idx [OF assms] idx_shift_eq [of i j]
    by (auto simp: bm_test_bit bm_clear_def nth_list_update bit_simps)
qed

lemma bm_size_updates [simp]:
  "bm_size (bm_set i b) = bm_size b" "bm_size (bm_clear i b) = bm_size b"
  "bm_size (bm_clear_all b) = bm_size b" "bm_size (bm_resize n b) = n"
  by (simp_all add: bm_set_def bm_clear_def bm_clear_all_def bm_resize_def)

lemma bm_ok_updates [simp]:
  "bm_ok (bm_set i b) = bm_ok b" "bm_ok (bm_clear i b) = bm_ok b" "bm_ok (bm_clear_all b) = bm_ok b"
  "bm_ok (bitmap_new n)" "bm_ok (dynamic_bitmap_new n)" "bm_ok (bm_resize n b)"
  by (auto simp: bm_ok_def bm_set_def bm_clear_def bm_clear_all_def bitmap_new_def dynamic_bitmap_new_def
      bm_resize_def get_size_def)

lemma bm_test_clear_all [bitmap_simps]: "bm_ok b \<Longrightarrow> i < bm_size b \<Longrightarrow> \<not> bm_test (bm_clear_all b) i"
  using bm_ok_idx [of b i] by (simp add: bm_test_bit bm_clear_all_def)

lemma bm_test_new [bitmap_simps]: "i < n \<Longrightarrow> \<not> bm_test (bitmap_new n) i" "i < n \<Longrightarrow> \<not> bm_test (dynamic_bitmap_new n) i"
proof -
  assume i: "i < n"
  have "get_idx i < get_size n" "get_idx i < n"
    using i by (auto simp: get_idx_def get_size_def kBitsPerLong_def)
  then show "\<not> bm_test (bitmap_new n) i" "\<not> bm_test (dynamic_bitmap_new n) i"
    by (simp_all add: bm_test_bit bitmap_new_def dynamic_bitmap_new_def)
qed

text \<open>Growing keeps the bits and adds clear ones, provided the bits past the size were clear.\<close>

definition bm_clean :: "bitmap \<Rightarrow> bool" where
  "bm_clean b \<longleftrightarrow> (\<forall>i. bm_size b \<le> i \<longrightarrow> i < 64 * length (bm_bits b) \<longrightarrow> \<not> bm_test b i)"

lemma bm_test_resize [bitmap_simps]:
  assumes "bm_ok b" "bm_clean b" "bm_size b \<le> n" "i < 64 * get_size n"
  shows "bm_test (bm_resize n b) i = (i < bm_size b \<and> bm_test b i)"
proof -
  have k: "get_idx i < get_size n" using assms(4) by (simp add: get_idx_def kBitsPerLong_def)
  show ?thesis
  proof (cases "get_idx i < length (bm_bits b)")
    case True
    then have "i < 64 * length (bm_bits b)" by (simp add: get_idx_def kBitsPerLong_def)
    then have "bm_test b i \<Longrightarrow> i < bm_size b" using assms(2) by (auto simp: bm_clean_def not_le [symmetric])
    then show ?thesis using True k by (auto simp: bm_test_bit bm_resize_def nth_append)
  next
    case False
    then have "\<not> i < bm_size b" using bm_ok_idx [OF assms(1)] by blast
    then show ?thesis using False k by (simp add: bm_test_bit bm_resize_def nth_append min_def)
  qed
qed

lemma bm_clean_updates [simp]:
  "bm_clean (dynamic_bitmap_new n)" "bm_clean (bitmap_new n)"
  "bm_ok b \<Longrightarrow> bm_clean b \<Longrightarrow> i < bm_size b \<Longrightarrow> bm_clean (bm_set i b)"
  "bm_ok b \<Longrightarrow> bm_clean b \<Longrightarrow> i < bm_size b \<Longrightarrow> bm_clean (bm_clear i b)"
  "bm_ok b \<Longrightarrow> bm_clean b \<Longrightarrow> bm_size b \<le> n \<Longrightarrow> bm_clean (bm_resize n b)"
  "bm_clean (bm_clear_all b)"
proof -
  show "bm_clean (bm_set i b)" if "bm_ok b" "bm_clean b" "i < bm_size b"
    using that bm_test_set [OF that(1,3)] by (auto simp: bm_clean_def) (simp add: bm_set_def)
  show "bm_clean (bm_clear i b)" if "bm_ok b" "bm_clean b" "i < bm_size b"
    using that bm_test_clear [OF that(1,3)] by (auto simp: bm_clean_def) (simp add: bm_clear_def)
  show "bm_clean (bm_resize n b)" if "bm_ok b" "bm_clean b" "bm_size b \<le> n"
    unfolding bm_clean_def
  proof (intro allI impI)
    fix i assume i: "bm_size (bm_resize n b) \<le> i" "i < 64 * length (bm_bits (bm_resize n b))"
    then have "i < 64 * get_size n" by (simp add: bm_resize_def)
    then show "\<not> bm_test (bm_resize n b) i" using bm_test_resize [OF that] i(1) that(3) by simp
  qed
qed (auto simp: bm_clean_def bm_test_bit dynamic_bitmap_new_def bitmap_new_def bm_clear_all_def get_idx_def
    kBitsPerLong_def)

subsection \<open>Searching\<close>

lemma ffsl_find:
  "ffsl v = (case List.find (bit v) [0..<64] of None \<Rightarrow> 0 | Some k \<Rightarrow> Suc k)"
  by (simp add: ffsl_def)

lemma find_upt_Some:
  "List.find P [a..<n] = Some i \<longleftrightarrow> a \<le> i \<and> i < n \<and> P i \<and> (\<forall>j. a \<le> j \<and> j < i \<longrightarrow> \<not> P j)"
proof (cases "a \<le> n")
  case True
  show ?thesis
  proof
    assume "List.find P [a..<n] = Some i"
    then obtain k where "k < length [a..<n]" "P ([a..<n] ! k)" "i = [a..<n] ! k" "\<forall>j<k. \<not> P ([a..<n] ! j)"
      by (auto simp: find_Some_iff)
    then have i: "a \<le> i" "i < n" "P i" "i = a + k" "\<And>j. j < k \<Longrightarrow> \<not> P (a + j)" by auto
    have "\<not> P j" if "a \<le> j" "j < i" for j using i(5) [of "j - a"] that i(4) by simp
    then show "a \<le> i \<and> i < n \<and> P i \<and> (\<forall>j. a \<le> j \<and> j < i \<longrightarrow> \<not> P j)" using i by blast
  next
    assume "a \<le> i \<and> i < n \<and> P i \<and> (\<forall>j. a \<le> j \<and> j < i \<longrightarrow> \<not> P j)"
    then show "List.find P [a..<n] = Some i"
      unfolding find_Some_iff by (intro exI [of _ "i - a"]) auto
  qed
next
  case False
  then show ?thesis by auto
qed

lemma find_upt_None: "List.find P [a..<n] = None \<longleftrightarrow> (\<forall>j. a \<le> j \<and> j < n \<longrightarrow> \<not> P j)"
  by (auto simp: find_None_iff)

text \<open>One word of the search: the masked word has its lowest set bit at the first hit at or after
  \<open>lo\<close>.\<close>

definition hit :: "bool \<Rightarrow> bitmap \<Rightarrow> nat \<Rightarrow> bool" where
  "hit invert b j \<longleftrightarrow> bm_test b j \<noteq> invert"

lemma word_hits:
  assumes "i mod 64 = 0" "\<forall>k<64. bit (msk :: u64) k = (lo \<le> i + k)" "k < 64"
  shows "bit ((if invert then NOT (bm_bits b ! get_idx i) else bm_bits b ! get_idx i) AND msk) k
    = (lo \<le> i + k \<and> hit invert b (i + k))"
proof -
  have "get_idx (i + k) = get_idx i" "get_shift (i + k) = k"
    using assms(1,3) by (auto simp: get_idx_def get_shift_def kBitsPerLong_def mod_add_eq [symmetric] elim!: dvdE
        simp flip: dvd_eq_mod_eq_0)
  then show ?thesis using assms(2,3) by (auto simp: hit_def bm_test_bit bit_simps)
qed

lemma find_next_loop_ref:
  assumes "bm_ok b" "i mod 64 = 0" "i \<le> lo" "lo < i + 64" "\<forall>k<64. bit (msk :: u64) k = (lo \<le> i + k)"
  shows "find_next_loop invert b i msk = List.find (hit invert b) [lo..<bm_size b]"
  using assms(2-)
proof (induction invert b i msk arbitrary: lo rule: find_next_loop.induct)
  case (1 invert b i msk)
  let ?v = "(if invert then NOT (bm_bits b ! get_idx i) else bm_bits b ! get_idx i) AND msk"
  note hits = word_hits [OF 1(2,5), of _ invert b]
  show ?case
  proof (cases "i < bm_size b")
    case False
    then show ?thesis using 1(3) by (subst find_next_loop.simps) simp
  next
    case True
    show ?thesis
    proof (cases "List.find (bit ?v) [0..<64]")
      case None
      then have r: "ffsl ?v = 0" by (simp add: ffsl_def)
      have no: "\<not> hit invert b j" if "lo \<le> j" "j < i + 64" for j
        using None hits [of "j - i"] that 1(3) by (auto simp: find_upt_None)
      have "find_next_loop invert b i msk = find_next_loop invert b (i + 64) (NOT 0)"
        using True r by (subst find_next_loop.simps) (simp add: Let_def kBitsPerLong_def)
      also have "\<dots> = List.find (hit invert b) [i + 64..<bm_size b]"
        using 1(1) [OF True refl refl refl r, of "i + 64"] 1(2) by (simp add: kBitsPerLong_def bit_simps)
      also have "\<dots> = List.find (hit invert b) [lo..<bm_size b]"
      proof (cases "List.find (hit invert b) [i + 64..<bm_size b]")
        case None
        have "\<not> hit invert b j" if "lo \<le> j" "j < bm_size b" for j
          using None no [of j] that by (cases "j < i + 64") (auto simp: find_upt_None)
        then have "List.find (hit invert b) [lo..<bm_size b] = None" by (auto simp: find_upt_None)
        then show ?thesis using None by simp
      next
        case (Some j)
        then have "List.find (hit invert b) [lo..<bm_size b] = Some j"
          using no 1(4) unfolding find_upt_Some by (metis less_le_not_le nle_le order_trans)
        then show ?thesis using Some by simp
      qed
      finally show ?thesis .
    next
      case (Some k)
      then have k: "k < 64" "lo \<le> i + k" "hit invert b (i + k)" "\<forall>j<k. \<not> (lo \<le> i + j \<and> hit invert b (i + j))"
        using hits by (auto simp: find_upt_Some)
      have before: "\<not> hit invert b j" if "lo \<le> j" "j < i + k" for j
        using k(4) [rule_format, of "j - i"] that 1(3) by auto
      have "find_next_loop invert b i msk = (if i + k \<ge> bm_size b then None else Some (i + k))"
        using True Some by (subst find_next_loop.simps) (simp add: Let_def ffsl_def)
      also have "\<dots> = List.find (hit invert b) [lo..<bm_size b]"
      proof (cases "bm_size b \<le> i + k")
        case True
        then have "List.find (hit invert b) [lo..<bm_size b] = None" using before by (auto simp: find_upt_None)
        then show ?thesis using True by simp
      next
        case False
        then have "List.find (hit invert b) [lo..<bm_size b] = Some (i + k)"
          using before k(2,3) by (auto simp: find_upt_Some)
        then show ?thesis using False by simp
      qed
      finally show ?thesis .
    qed
  qed
qed

lemma low_mask_bit:
  assumes "s < 64" "k < 64"
  shows "bit (NOT (push_bit s 1 - 1) :: u64) k = (s \<le> k)"
proof -
  have "push_bit s 1 - 1 = (mask s :: u64)" by (simp add: mask_eq_exp_minus_1 push_bit_of_1)
  then show ?thesis using assms by (simp add: bit_simps not_less)
qed

lemma find_next_ref:
  assumes "bm_ok b"
  shows "find_next invert pos b = List.find (hit invert b) [pos..<bm_size b]"
  unfolding find_next_def
proof (rule find_next_loop_ref [OF assms])
  let ?i = "pos - pos mod kBitsPerLong"
  have i: "?i = 64 * (pos div 64)" "pos = 64 * (pos div 64) + pos mod 64"
    by (simp_all add: kBitsPerLong_def minus_mod_eq_mult_div)
  have s: "get_shift pos = pos mod 64" "pos mod 64 < 64" by (simp_all add: get_shift_def kBitsPerLong_def)
  show "?i mod 64 = 0" using i(1) by simp
  show "?i \<le> pos" by simp
  show "pos < ?i + 64" using i s(2) by linarith
  show "\<forall>k<64. bit (NOT (push_bit (get_shift pos) 1 - 1) :: u64) k = (pos \<le> ?i + k)"
  proof (intro allI impI)
    fix k :: nat assume "k < 64"
    then have "bit (NOT (push_bit (get_shift pos) 1 - 1) :: u64) k = (pos mod 64 \<le> k)"
      using s unfolding s(1) by (intro low_mask_bit)
    then show "bit (NOT (push_bit (get_shift pos) 1 - 1) :: u64) k = (pos \<le> ?i + k)" using i by linarith
  qed
qed

text \<open>The visits of \<open>for_each_set_bit\<close> are the set bits in order.\<close>

lemma for_each_loop_ref:
  assumes "bm_ok b" "bm_size b < fuel + pos" "pos \<le> bm_size b"
  shows "for_each_loop fuel invert b (find_next invert pos b) = filter (hit invert b) [pos..<bm_size b]"
  using assms(2,3)
proof (induction fuel arbitrary: pos)
  case (Suc fuel)
  note ref = find_next_ref [OF assms(1), of invert pos]
  show ?case
  proof (cases "find_next invert pos b")
    case None
    then have "filter (hit invert b) [pos..<bm_size b] = []" unfolding ref by (auto simp: find_None_iff filter_empty_conv)
    then show ?thesis using None by simp
  next
    case (Some i)
    then have i: "pos \<le> i" "i < bm_size b" "hit invert b i" "\<forall>j. pos \<le> j \<and> j < i \<longrightarrow> \<not> hit invert b j"
      unfolding ref find_upt_Some by auto
    have "[pos..<bm_size b] = [pos..<i] @ i # [Suc i..<bm_size b]"
      using i(1,2) by (metis le_add_diff_inverse less_imp_le upt_add_eq_append upt_conv_Cons)
    moreover have "filter (hit invert b) [pos..<i] = []" using i(4) by (auto simp: filter_empty_conv)
    ultimately show ?thesis using Some i Suc.IH [of "Suc i"] Suc.prems by simp
  qed
qed simp

lemma for_each_set_bit_ref: "bm_ok b \<Longrightarrow> for_each_set_bit b = filter (bm_test b) [0..<bm_size b]"
  using for_each_loop_ref [of b "Suc (bm_size b)" 0 False]
  by (simp add: for_each_set_bit_def find_next_set_def hit_def [abs_def])

text \<open>C37: The word-at-a-time searches for the next set or clear bit return what a search over the single bits
  returns, for every start position, also when the size is not a multiple of the word size.\<close>

theorem find_next_equiv:
  assumes "bm_ok b"
  shows "find_next_set pos b = List.find (bm_test b) [pos..<bm_size b] \<and>
    find_next_clear pos b = List.find (\<lambda>i. \<not> bm_test b i) [pos..<bm_size b]"
  using find_next_ref [OF assms, of False pos] find_next_ref [OF assms, of True pos]
  by (simp add: find_next_set_def find_next_clear_def hit_def [abs_def])

theorem find_next_equiv_witness:
  "find_next_set 3 (bm_set 70 (bm_set 2 (bitmap_new 90))) = Some 70"
proof -
  let ?b = "bm_set 70 (bm_set 2 (bitmap_new 90))"
  have n: "bm_size (bitmap_new 90) = 90" by (simp add: bitmap_new_def)
  then have size: "bm_size ?b = 90" by simp
  have test: "bm_test ?b i = (i = 70 \<or> i = 2)" if "i < 90" for i
    using that n bm_test_new(1) [of i 90] by (simp add: bm_test_set)
  have "List.find (bm_test ?b) [3..<90] = Some 70" using test by (auto simp: find_upt_Some)
  then show ?thesis using find_next_equiv [of ?b 3] size by simp
qed

subsection \<open>Unique identifiers\<close>

record UIDGenerator =
  uid_pos :: nat
  uid_bits :: bitmap

definition UIDGenerator_new :: "nat \<Rightarrow> nat \<Rightarrow> UIDGenerator" where
  "UIDGenerator_new n pos = \<lparr>uid_pos = pos, uid_bits = bitmap_new n\<rparr>"

definition uid_get_next :: "UIDGenerator \<Rightarrow> nat option \<times> UIDGenerator" where
  "uid_get_next g =
     (case find_next_clear (uid_pos g) (uid_bits g) of
        None \<Rightarrow> (None, g)
      | Some next \<Rightarrow>
          (Some (next + 1),
           \<lparr>uid_pos = (next + 1) mod bm_size (uid_bits g), uid_bits = bm_set next (uid_bits g)\<rparr>))"

definition uid_generate :: "UIDGenerator \<Rightarrow> nat option \<times> UIDGenerator" where
  "uid_generate g =
     (case uid_get_next g of
        (Some n, g') \<Rightarrow> (Some n, g')
      | (None, g') \<Rightarrow>
          if uid_pos g' > 0 then uid_get_next (g'\<lparr>uid_pos := 0\<rparr>) else (None, g'))"

definition uid_Release :: "nat \<Rightarrow> UIDGenerator \<Rightarrow> UIDGenerator" where
  "uid_Release pos g = g\<lparr>uid_bits := bm_clear (pos - 1) (uid_bits g)\<rparr>"

definition uid_Acquire :: "nat \<Rightarrow> UIDGenerator \<Rightarrow> UIDGenerator" where
  "uid_Acquire pos g = g\<lparr>uid_bits := bm_set (pos - 1) (uid_bits g)\<rparr>"

text \<open>The identifiers in use.\<close>

definition uid_used :: "UIDGenerator \<Rightarrow> nat set" where
  "uid_used g = {Suc i |i. i < bm_size (uid_bits g) \<and> bm_test (uid_bits g) i}"

lemma uid_get_next_spec:
  assumes "bm_ok (uid_bits g)" "uid_get_next g = (r, g')"
  shows "bm_ok (uid_bits g') \<and> bm_size (uid_bits g') = bm_size (uid_bits g) \<and>
    (case r of None \<Rightarrow> g' = g \<and> (\<forall>i. uid_pos g \<le> i \<and> i < bm_size (uid_bits g) \<longrightarrow> Suc i \<in> uid_used g)
     | Some n \<Rightarrow> 1 \<le> n \<and> n \<le> bm_size (uid_bits g) \<and> n \<notin> uid_used g \<and> uid_used g' = insert n (uid_used g))"
proof (cases "find_next_clear (uid_pos g) (uid_bits g)")
  case None
  then have "\<forall>i. uid_pos g \<le> i \<and> i < bm_size (uid_bits g) \<longrightarrow> bm_test (uid_bits g) i"
    unfolding find_next_clear_def find_next_ref [OF assms(1)] find_upt_None by (auto simp: hit_def)
  then show ?thesis using None assms by (simp add: uid_get_next_def uid_used_def)
next
  case (Some i)
  then have i: "i < bm_size (uid_bits g)" "\<not> bm_test (uid_bits g) i"
    unfolding find_next_clear_def find_next_ref [OF assms(1)] find_upt_Some by (auto simp: hit_def)
  then show ?thesis
    using Some assms bm_test_set [OF assms(1) i(1)] by (auto simp: uid_get_next_def uid_used_def)
qed

lemma uid_generate_spec:
  assumes "bm_ok (uid_bits g)" "uid_generate g = (r, g')"
  shows "bm_ok (uid_bits g') \<and> bm_size (uid_bits g') = bm_size (uid_bits g) \<and> (case r of
      None \<Rightarrow> uid_used g' = uid_used g \<and> uid_used g = {1..bm_size (uid_bits g)}
    | Some n \<Rightarrow> n \<in> {1..bm_size (uid_bits g)} \<and> n \<notin> uid_used g \<and> uid_used g' = insert n (uid_used g))"
proof -
  obtain r1 g1 where 1: "uid_get_next g = (r1, g1)" by (cases "uid_get_next g")
  note S1 = uid_get_next_spec [OF assms(1) 1]
  have all: "uid_used g = {1..bm_size (uid_bits g)}" if "\<forall>i. i < bm_size (uid_bits g) \<longrightarrow> Suc i \<in> uid_used g"
  proof
    show "uid_used g \<subseteq> {1..bm_size (uid_bits g)}" by (auto simp: uid_used_def)
    show "{1..bm_size (uid_bits g)} \<subseteq> uid_used g"
    proof
      fix n assume n: "n \<in> {1..bm_size (uid_bits g)}"
      then show "n \<in> uid_used g" using that by (cases n) auto
    qed
  qed
  show ?thesis
  proof (cases r1)
    case (Some n)
    then show ?thesis using 1 S1 assms(2) by (auto simp: uid_generate_def)
  next
    case None
    then have g1: "g1 = g" "\<forall>i. uid_pos g \<le> i \<and> i < bm_size (uid_bits g) \<longrightarrow> Suc i \<in> uid_used g" using S1 by auto
    show ?thesis
    proof (cases "uid_pos g > 0")
      case True
      let ?h = "g\<lparr>uid_pos := 0\<rparr>"
      have h: "bm_ok (uid_bits ?h)" "uid_used ?h = uid_used g" "bm_size (uid_bits ?h) = bm_size (uid_bits g)"
        using assms(1) by (simp_all add: uid_used_def)
      have "uid_get_next ?h = (r, g')" using assms(2) 1 None g1(1) True by (simp add: uid_generate_def)
      from uid_get_next_spec [OF h(1) this] show ?thesis using h all by (auto split: option.splits)
    next
      case False
      then show ?thesis using assms 1 None g1 all by (auto simp: uid_generate_def)
    qed
  qed
qed

lemma uid_Release_spec:
  assumes "bm_ok (uid_bits g)" "1 \<le> n" "n \<le> bm_size (uid_bits g)"
  shows "bm_ok (uid_bits (uid_Release n g))" "bm_size (uid_bits (uid_Release n g)) = bm_size (uid_bits g)"
    "uid_used (uid_Release n g) = uid_used g - {n}"
proof -
  have n: "n - 1 < bm_size (uid_bits g)" "n = Suc (n - 1)" using assms(2,3) by auto
  show "bm_ok (uid_bits (uid_Release n g))" "bm_size (uid_bits (uid_Release n g)) = bm_size (uid_bits g)"
    using assms(1) by (simp_all add: uid_Release_def)
  show "uid_used (uid_Release n g) = uid_used g - {n}"
  proof (rule set_eqI)
    fix x
    have mem: "x \<in> uid_used h \<longleftrightarrow> x \<noteq> 0 \<and> x - 1 < bm_size (uid_bits h) \<and> bm_test (uid_bits h) (x - 1)" for h
      by (cases x) (auto simp: uid_used_def)
    have "x \<noteq> 0 \<Longrightarrow> x - 1 = n - 1 \<longleftrightarrow> x = n" using assms(2) by auto
    then show "x \<in> uid_used (uid_Release n g) \<longleftrightarrow> x \<in> uid_used g - {n}"
      unfolding mem using bm_test_clear [OF assms(1) n(1), of "x - 1"] by (auto simp: uid_Release_def mem)
  qed
qed

text \<open>The identifier generator returns an identifier between 1 and \<open>N\<close> that is not in use and marks it
  used; it fails only when all \<open>N\<close> identifiers are in use.\<close>

theorem uid_generate_fresh:
  assumes "bm_ok (uid_bits g)" "uid_generate g = (r, g')"
  shows "case r of
      None \<Rightarrow> uid_used g = {1..bm_size (uid_bits g)}
    | Some n \<Rightarrow> n \<in> {1..bm_size (uid_bits g)} \<and> n \<notin> uid_used g \<and> uid_used g' = insert n (uid_used g)"
  using uid_generate_spec [OF assms] by (auto split: option.splits)

theorem uid_generate_fresh_witness:
  "\<exists>n g. uid_generate (UIDGenerator_new 100 3) = (Some n, g) \<and> n \<in> {1..100} \<and>
    n \<notin> uid_used (UIDGenerator_new 100 3) \<and> uid_used g = insert n (uid_used (UIDGenerator_new 100 3))"
proof -
  let ?g = "UIDGenerator_new 100 3"
  obtain r g where r: "uid_generate ?g = (r, g)" by (cases "uid_generate ?g")
  have ok: "bm_ok (uid_bits ?g)" "bm_size (uid_bits ?g) = 100" by (simp_all add: UIDGenerator_new_def bitmap_new_def bm_ok_def get_size_def)
  have "uid_used ?g = {}" using bm_test_new(1) [of _ 100] by (auto simp: uid_used_def UIDGenerator_new_def bitmap_new_def)
  then show ?thesis using uid_generate_fresh [OF ok(1) r] r ok(2) by (auto split: option.splits)
qed

end
