(* ===== verification/FileTable.thy ===== *)
theory FileTable
  imports Bitmap Ring
begin

text \<open>
  The descriptor table of \<^verbatim>\<open>src/junction/fs/file.h\<close> and
  \<^verbatim>\<open>src/junction/fs/file.cc\<close>, and the system calls that only work on it.

  Files are numbered.  The table is the growable array of slots together with the close-on-exec bitmap.
  Operations that drop descriptors also return the list of dropped ones, in the order in which their
  handles run \<open>OnDescriptorClose\<close>.  The result \<open>None\<close> of an operation stands for undefined
  behaviour (an access outside the array) or an uncaught exception.
\<close>

definition kInitialCap :: nat where "kInitialCap = 64"
definition kOversizeRatio :: nat where "kOversizeRatio = 2"

definition kFlagNonblock :: u32 where "kFlagNonblock = 0x800"
definition kFlagCloseExec :: u32 where "kFlagCloseExec = 0x80000"
definition kFlagDirect :: u32 where "kFlagDirect = 0x4000"

record file_array =
  fa_len :: nat
  fa_cap :: nat
  fa_files :: "nat option list"

record FileTable =
  ft_arr :: file_array
  ft_cloexec :: bitmap

definition file_array_new :: "nat \<Rightarrow> file_array" where
  "file_array_new cap = \<lparr>fa_len = 0, fa_cap = cap, fa_files = replicate cap None\<rparr>"

definition CopyFileArray :: "file_array \<Rightarrow> nat \<Rightarrow> file_array" where
  "CopyFileArray src cap =
     \<lparr>fa_len = fa_len src, fa_cap = cap,
      fa_files = take (fa_len src) (fa_files src) @ replicate (cap - fa_len src) None\<rparr>"

definition FileTable_new :: FileTable where
  "FileTable_new = \<lparr>ft_arr = file_array_new kInitialCap, ft_cloexec = dynamic_bitmap_new kInitialCap\<rparr>"

definition FileTable_copy :: "FileTable \<Rightarrow> FileTable" where
  "FileTable_copy t = \<lparr>ft_arr = CopyFileArray (ft_arr t) (fa_len (ft_arr t)), ft_cloexec = ft_cloexec t\<rparr>"

text \<open>\<open>static_cast<size_t>\<close> of a descriptor number.\<close>

definition to_size :: "int \<Rightarrow> nat" where
  "to_size fd = unat (word_of_int fd :: u64)"

definition bit_ceil_nat :: "nat \<Rightarrow> nat" where
  "bit_ceil_nat n = (if n \<le> 1 then 1 else 2 ^ bit_width (n - 1))"

definition Resize :: "nat \<Rightarrow> FileTable \<Rightarrow> FileTable" where
  "Resize len t =
     (let new_cap = bit_ceil_nat len * kOversizeRatio in
      if fa_cap (ft_arr t) < new_cap
      then \<lparr>ft_arr = (CopyFileArray (ft_arr t) new_cap)\<lparr>fa_len := len\<rparr>,
            ft_cloexec = bm_resize new_cap (ft_cloexec t)\<rparr>
      else t\<lparr>ft_arr := (ft_arr t)\<lparr>fa_len := len\<rparr>\<rparr>)"

definition ft_slot :: "FileTable \<Rightarrow> nat \<Rightarrow> nat option" where
  "ft_slot t i = (if i < fa_len (ft_arr t) then fa_files (ft_arr t) ! i else None)"

definition ft_Get :: "int \<Rightarrow> FileTable \<Rightarrow> nat option" where
  "ft_Get fd t = (if to_size fd \<ge> fa_len (ft_arr t) then None else fa_files (ft_arr t) ! to_size fd)"

definition ft_Dup :: "int \<Rightarrow> FileTable \<Rightarrow> nat option" where
  "ft_Dup fd t = (if to_size fd \<ge> fa_len (ft_arr t) then None else fa_files (ft_arr t) ! to_size fd)"

definition ft_put :: "nat \<Rightarrow> nat option \<Rightarrow> FileTable \<Rightarrow> FileTable" where
  "ft_put i f t = t\<lparr>ft_arr := (ft_arr t)\<lparr>fa_files := (fa_files (ft_arr t))[i := f]\<rparr>\<rparr>"

definition set_cloexec :: "bool \<Rightarrow> nat \<Rightarrow> FileTable \<Rightarrow> FileTable" where
  "set_cloexec cloexec i t = (if cloexec then t\<lparr>ft_cloexec := bm_set i (ft_cloexec t)\<rparr> else t)"

function find_slot :: "nat \<Rightarrow> nat option list \<Rightarrow> nat \<Rightarrow> nat" where
  "find_slot len files i = (if i < len \<and> files ! i \<noteq> None then find_slot len files (i + 1) else i)"
  by pat_completeness auto
termination by (relation "measure (\<lambda>(len, files, i). len - i)") auto

declare find_slot.simps [simp del]

definition ft_Insert :: "nat \<Rightarrow> bool \<Rightarrow> nat \<Rightarrow> FileTable \<Rightarrow> nat \<times> FileTable" where
  "ft_Insert f cloexec lowest t =
     (let i = find_slot (fa_len (ft_arr t)) (fa_files (ft_arr t)) lowest;
          t1 = (if i < fa_len (ft_arr t) then t else Resize (i + 1) t)
      in (i, set_cloexec cloexec i (ft_put i (Some f) t1)))"

text \<open>\<open>InsertAt\<close>: a negative descriptor number passes the length test as a huge unsigned number, and the
  store that follows is outside the array.\<close>

definition ft_InsertAt :: "int \<Rightarrow> nat \<Rightarrow> bool \<Rightarrow> FileTable \<Rightarrow> ((int \<times> nat) list \<times> FileTable) option" where
  "ft_InsertAt fd f cloexec t =
     (if fd < 0 then None
      else
        (let i = nat fd;
             t1 = (if i \<ge> fa_len (ft_arr t) then Resize (i + 1) t else t);
             old = fa_files (ft_arr t1) ! i
         in Some ((case old of None \<Rightarrow> [] | Some g \<Rightarrow> [(fd, g)]),
                  set_cloexec cloexec i (ft_put i (Some f) t1))))"

definition ft_Remove :: "int \<Rightarrow> FileTable \<Rightarrow> bool \<times> (int \<times> nat) list \<times> FileTable" where
  "ft_Remove fd t =
     (let i = to_size fd in
      if i \<ge> fa_len (ft_arr t) then (False, [], t)
      else
        (case fa_files (ft_arr t) ! i of
           None \<Rightarrow> (False, [], t)
         | Some f \<Rightarrow>
             (True, [(fd, f)], (ft_put i None t)\<lparr>ft_cloexec := bm_clear i (ft_cloexec t)\<rparr>)))"

fun remove_loop :: "nat list \<Rightarrow> FileTable \<Rightarrow> (int \<times> nat) list \<times> FileTable" where
  "remove_loop [] t = ([], t)"
| "remove_loop (fd # fds) t =
     (case fa_files (ft_arr t) ! fd of
        None \<Rightarrow> remove_loop fds t
      | Some f \<Rightarrow>
          (case remove_loop fds ((ft_put fd None t)\<lparr>ft_cloexec := bm_clear fd (ft_cloexec t)\<rparr>) of
             (tmp, t') \<Rightarrow> ((int fd, f) # tmp, t')))"

text \<open>\<open>RemoveRange\<close>: reserving a negative number of elements throws.\<close>

definition RemoveRange :: "int \<Rightarrow> int \<Rightarrow> FileTable \<Rightarrow> ((int \<times> nat) list \<times> FileTable) option" where
  "RemoveRange low high t =
     (let high1 = min high (int (fa_len (ft_arr t)) - 1) in
      if high1 - low + 1 < 0 then None
      else Some (remove_loop [nat low..<nat (high1 + 1)] t))"

definition SetCloseOnExec :: "nat \<Rightarrow> FileTable \<Rightarrow> FileTable" where
  "SetCloseOnExec fd t = t\<lparr>ft_cloexec := bm_set fd (ft_cloexec t)\<rparr>"

definition ClearCloseOnExec :: "nat \<Rightarrow> FileTable \<Rightarrow> FileTable" where
  "ClearCloseOnExec fd t = t\<lparr>ft_cloexec := bm_clear fd (ft_cloexec t)\<rparr>"

definition TestCloseOnExec :: "nat \<Rightarrow> FileTable \<Rightarrow> bool" where
  "TestCloseOnExec fd t = bm_test (ft_cloexec t) fd"

text \<open>With an empty table \<open>len - 1\<close> wraps and the loop leaves the array.\<close>

definition SetCloseOnExecRange :: "nat \<Rightarrow> nat \<Rightarrow> FileTable \<Rightarrow> FileTable option" where
  "SetCloseOnExecRange low high t =
     (if fa_len (ft_arr t) = 0 then (if low > high then Some t else None)
      else
        Some (fold (\<lambda>fd t. if fa_files (ft_arr t) ! fd \<noteq> None then SetCloseOnExec fd t else t)
          [low..<min high (fa_len (ft_arr t) - 1) + 1] t))"

definition DoCloseOnExec :: "FileTable \<Rightarrow> (int \<times> nat option) list \<times> FileTable" where
  "DoCloseOnExec t =
     (let fds = for_each_set_bit (ft_cloexec t)
      in (map (\<lambda>i. (int i, fa_files (ft_arr t) ! i)) fds,
          (fold (\<lambda>i t. ft_put i None t) fds t)\<lparr>ft_cloexec := bm_clear_all (ft_cloexec t)\<rparr>))"

fun ft_ForEach :: "nat list \<Rightarrow> FileTable \<Rightarrow> (nat \<times> nat) list" where
  "ft_ForEach [] t = []"
| "ft_ForEach (fd # fds) t = (case ft_slot t fd of None \<Rightarrow> ft_ForEach fds t | Some f \<Rightarrow> (f, fd) # ft_ForEach fds t)"

subsection \<open>System calls\<close>

definition usys_dup :: "int \<Rightarrow> FileTable \<Rightarrow> int \<times> FileTable" where
  "usys_dup oldfd t =
     (case ft_Dup oldfd t of
        None \<Rightarrow> (- EBADF, t)
      | Some f \<Rightarrow> (case ft_Insert f False 0 t of (fd, t') \<Rightarrow> (int fd, t')))"

definition usys_dup2 :: "int \<Rightarrow> int \<Rightarrow> FileTable \<Rightarrow> (int \<times> (int \<times> nat) list \<times> FileTable) option" where
  "usys_dup2 oldfd newfd t =
     (if oldfd = newfd then Some (newfd, [], t)
      else
        (case ft_Dup oldfd t of
           None \<Rightarrow> Some (- EBADF, [], t)
         | Some f \<Rightarrow>
             (case ft_InsertAt newfd f False t of
                None \<Rightarrow> None
              | Some (closed, t') \<Rightarrow> Some (newfd, closed, t'))))"

definition usys_dup3 :: "int \<Rightarrow> int \<Rightarrow> u32 \<Rightarrow> FileTable \<Rightarrow> (int \<times> (int \<times> nat) list \<times> FileTable) option" where
  "usys_dup3 oldfd newfd flags t =
     (if oldfd = newfd then Some (- EINVAL, [], t)
      else
        (case ft_Dup oldfd t of
           None \<Rightarrow> Some (- EBADF, [], t)
         | Some f \<Rightarrow>
             (case ft_InsertAt newfd f (flags AND kFlagCloseExec \<noteq> 0) t of
                None \<Rightarrow> None
              | Some (closed, t') \<Rightarrow> Some (newfd, closed, t'))))"

definition usys_close :: "int \<Rightarrow> FileTable \<Rightarrow> int \<times> (int \<times> nat) list \<times> FileTable" where
  "usys_close fd t =
     (case ft_Remove fd t of (ok, closed, t') \<Rightarrow> if ok then (0, closed, t') else (- EBADF, closed, t'))"

definition CLOSE_RANGE_CLOEXEC :: u32 where "CLOSE_RANGE_CLOEXEC = 4"

definition usys_close_range :: "int \<Rightarrow> int \<Rightarrow> u32 \<Rightarrow> FileTable \<Rightarrow> (int \<times> (int \<times> nat) list \<times> FileTable) option" where
  "usys_close_range lo hi flags t =
     (if flags AND NOT CLOSE_RANGE_CLOEXEC \<noteq> 0 then Some (- EINVAL, [], t)
      else if lo < 0 \<or> hi < lo then Some (- EINVAL, [], t)
      else if flags AND CLOSE_RANGE_CLOEXEC \<noteq> 0 then
        map_option (\<lambda>t'. (0, [], t')) (SetCloseOnExecRange (nat lo) (nat hi) t)
      else map_option (\<lambda>(closed, t'). (0, closed, t')) (RemoveRange lo hi t))"

subsection \<open>Representation invariant and abstraction\<close>

definition ft_cl :: "FileTable \<Rightarrow> nat \<Rightarrow> bool" where
  "ft_cl t i \<longleftrightarrow> i < 64 * length (bm_bits (ft_cloexec t)) \<and> bm_test (ft_cloexec t) i"

definition ft_ok :: "FileTable \<Rightarrow> bool" where
  "ft_ok t \<longleftrightarrow> length (fa_files (ft_arr t)) = fa_cap (ft_arr t) \<and> fa_len (ft_arr t) \<le> fa_cap (ft_arr t) \<and>
     (\<forall>i. fa_len (ft_arr t) \<le> i \<longrightarrow> i < fa_cap (ft_arr t) \<longrightarrow> fa_files (ft_arr t) ! i = None) \<and>
     bm_ok (ft_cloexec t) \<and> fa_cap (ft_arr t) \<le> bm_size (ft_cloexec t) \<and>
     (\<forall>i. ft_cl t i \<longrightarrow> ft_slot t i \<noteq> None)"

lemma ft_new_ok: "ft_ok FileTable_new"
proof -
  have "\<not> ft_cl FileTable_new i" for i
    by (auto simp: ft_cl_def FileTable_new_def kInitialCap_def dynamic_bitmap_new_def bm_test_bit get_idx_def kBitsPerLong_def)
  then show ?thesis by (auto simp: ft_ok_def FileTable_new_def file_array_new_def) (simp add: dynamic_bitmap_new_def)
qed

lemma ft_slot_new: "ft_slot FileTable_new i = None"
  by (simp add: ft_slot_def FileTable_new_def file_array_new_def)

lemma length_bits [simp]:
  "length (bm_bits (bm_set i b)) = length (bm_bits b)" "length (bm_bits (bm_clear i b)) = length (bm_bits b)"
  "length (bm_bits (bm_clear_all b)) = length (bm_bits b)" "length (bm_bits (bm_resize n b)) = get_size n"
  by (auto simp: bm_set_def bm_clear_def bm_clear_all_def bm_resize_def)

lemma bm_test_resize_words:
  assumes "i < 64 * get_size n"
  shows "bm_test (bm_resize n b) i = (i < 64 * length (bm_bits b) \<and> bm_test b i)"
proof -
  have "get_idx i < get_size n" "get_idx i < length (bm_bits b) \<longleftrightarrow> i < 64 * length (bm_bits b)"
    using assms by (auto simp: get_idx_def kBitsPerLong_def)
  then show ?thesis by (auto simp: bm_test_bit bm_resize_def nth_append min_def)
qed

lemma bit_ceil_nat_ge: "n \<le> bit_ceil_nat n"
  using bit_width_bounds [of "n - 1"] by (auto simp: bit_ceil_nat_def)

lemma Resize_spec:
  assumes "ft_ok t" "fa_len (ft_arr t) < n"
  shows "ft_ok (Resize n t)" "fa_len (ft_arr (Resize n t)) = n"
    "ft_slot (Resize n t) = ft_slot t" "ft_cl (Resize n t) = ft_cl t"
proof -
  let ?c = "bit_ceil_nat n * kOversizeRatio" and ?a = "ft_arr t"
  have c: "n \<le> ?c" using bit_ceil_nat_ge [of n] by (simp add: kOversizeRatio_def)
  have ok: "length (fa_files ?a) = fa_cap ?a" "fa_len ?a \<le> fa_cap ?a"
    "\<And>i. fa_len ?a \<le> i \<Longrightarrow> i < fa_cap ?a \<Longrightarrow> fa_files ?a ! i = None"
    "bm_ok (ft_cloexec t)" "fa_cap ?a \<le> bm_size (ft_cloexec t)" "\<And>i. ft_cl t i \<Longrightarrow> ft_slot t i \<noteq> None"
    using assms(1) by (auto simp: ft_ok_def)
  show len: "fa_len (ft_arr (Resize n t)) = n" by (simp add: Resize_def Let_def)
  show slot: "ft_slot (Resize n t) = ft_slot t"
    using ok(1,2,3) assms(2) c
    by (auto simp: fun_eq_iff ft_slot_def Resize_def Let_def CopyFileArray_def nth_append min_def not_less)
  have "ft_cl t i \<Longrightarrow> i < 64 * get_size ?c" for i
    using ok(6) [of i] assms(2) c by (auto simp: ft_slot_def get_size_def split: if_splits)
  then show cl: "ft_cl (Resize n t) = ft_cl t"
    by (auto simp: fun_eq_iff ft_cl_def Resize_def Let_def bm_test_resize_words)
  show "ft_ok (Resize n t)"
    unfolding ft_ok_def cl slot len using ok assms(2) c
    by (auto simp: Resize_def Let_def CopyFileArray_def nth_append not_less min_def)
qed

lemma ft_put_spec:
  assumes "ft_ok t" "i < fa_len (ft_arr t)"
  shows "ft_slot (ft_put i f t) = (ft_slot t)(i := f)" "ft_cl (ft_put i f t) = ft_cl t"
    "f \<noteq> None \<or> \<not> ft_cl t i \<Longrightarrow> ft_ok (ft_put i f t)" "fa_len (ft_arr (ft_put i f t)) = fa_len (ft_arr t)"
proof -
  have l: "i < length (fa_files (ft_arr t))" using assms by (simp add: ft_ok_def)
  show s: "ft_slot (ft_put i f t) = (ft_slot t)(i := f)" using assms(2) l by (auto simp: fun_eq_iff ft_slot_def ft_put_def)
  show c: "ft_cl (ft_put i f t) = ft_cl t" by (simp add: fun_eq_iff ft_cl_def ft_put_def)
  show "fa_len (ft_arr (ft_put i f t)) = fa_len (ft_arr t)" by (simp add: ft_put_def)
  show "ft_ok (ft_put i f t)" if "f \<noteq> None \<or> \<not> ft_cl t i"
    using assms that unfolding ft_ok_def s c by (auto simp: ft_put_def)
qed

lemma cloexec_updates:
  assumes "ft_ok t" "i < fa_len (ft_arr t)"
  shows "ft_cl (t\<lparr>ft_cloexec := bm_set i (ft_cloexec t)\<rparr>) = (ft_cl t)(i := True)"
    "ft_cl (t\<lparr>ft_cloexec := bm_clear i (ft_cloexec t)\<rparr>) = (ft_cl t)(i := False)"
proof -
  have i: "bm_ok (ft_cloexec t)" "i < bm_size (ft_cloexec t)" "i < 64 * length (bm_bits (ft_cloexec t))"
    using assms by (auto simp: ft_ok_def bm_ok_def)
  show "ft_cl (t\<lparr>ft_cloexec := bm_set i (ft_cloexec t)\<rparr>) = (ft_cl t)(i := True)"
    using i by (auto simp: fun_eq_iff ft_cl_def bm_test_set)
  show "ft_cl (t\<lparr>ft_cloexec := bm_clear i (ft_cloexec t)\<rparr>) = (ft_cl t)(i := False)"
    using i by (auto simp: fun_eq_iff ft_cl_def bm_test_clear)
qed

lemma ft_slot_cloexec [simp]: "ft_slot (t\<lparr>ft_cloexec := b\<rparr>) = ft_slot t"
  by (simp add: fun_eq_iff ft_slot_def)

lemma ft_ok_cloexec:
  assumes "ft_ok t" "bm_ok b" "bm_size b = bm_size (ft_cloexec t)"
    "\<forall>i. ft_cl (t\<lparr>ft_cloexec := b\<rparr>) i \<longrightarrow> ft_slot t i \<noteq> None"
  shows "ft_ok (t\<lparr>ft_cloexec := b\<rparr>)"
  using assms by (simp add: ft_ok_def)

lemma set_cloexec_spec:
  assumes "ft_ok t" "i < fa_len (ft_arr t)" "ft_slot t i \<noteq> None"
  shows "ft_ok (set_cloexec c i t)" "ft_slot (set_cloexec c i t) = ft_slot t"
    "ft_cl (set_cloexec c i t) = (ft_cl t)(i := ft_cl t i \<or> c)"
proof -
  have "ft_ok (t\<lparr>ft_cloexec := bm_set i (ft_cloexec t)\<rparr>)"
    by (rule ft_ok_cloexec [OF assms(1)]) (use assms cloexec_updates(1) [OF assms(1,2)] in \<open>auto simp: ft_ok_def\<close>)
  then show "ft_ok (set_cloexec c i t)" using assms(1) by (simp add: set_cloexec_def)
  show "ft_slot (set_cloexec c i t) = ft_slot t" by (simp add: set_cloexec_def)
  show "ft_cl (set_cloexec c i t) = (ft_cl t)(i := ft_cl t i \<or> c)"
    using cloexec_updates(1) [OF assms(1,2)] by (auto simp: set_cloexec_def fun_eq_iff)
qed

subsection \<open>The operations\<close>

lemma find_slot_spec:
  "i \<le> find_slot len files i \<and> (\<forall>j. i \<le> j \<and> j < find_slot len files i \<longrightarrow> j < len \<and> files ! j \<noteq> None) \<and>
   (find_slot len files i < len \<longrightarrow> files ! find_slot len files i = None)"
proof (induction len files i rule: find_slot.induct)
  case (1 len files i)
  show ?case
  proof (cases "i < len \<and> files ! i \<noteq> None")
    case True
    then have e: "find_slot len files i = find_slot len files (i + 1)" by (subst find_slot.simps) simp
    have "j < len \<and> files ! j \<noteq> None" if "i \<le> j" "j < find_slot len files (i + 1)" for j
      using 1 [OF True] that True by (cases "j = i") auto
    then show ?thesis using 1 [OF True] unfolding e by auto
  next
    case False
    then have e: "find_slot len files i = i" by (subst find_slot.simps) auto
    show ?thesis using False unfolding e by auto
  qed
qed

lemma ft_Insert_spec:
  assumes "ft_ok t" "ft_Insert f c lowest t = (i, t')"
  shows "ft_ok t' \<and> lowest \<le> i \<and> ft_slot t i = None \<and> (\<forall>j. lowest \<le> j \<and> j < i \<longrightarrow> ft_slot t j \<noteq> None) \<and>
    ft_slot t' = (ft_slot t)(i := Some f) \<and> ft_cl t' = (ft_cl t)(i := c)"
proof -
  let ?a = "ft_arr t"
  have i: "i = find_slot (fa_len ?a) (fa_files ?a) lowest" using assms(2) by (simp add: ft_Insert_def Let_def)
  define t1 where "t1 = (if i < fa_len ?a then t else Resize (i + 1) t)"
  have t': "t' = set_cloexec c i (ft_put i (Some f) t1)" 
    using assms(2) unfolding ft_Insert_def Let_def i [symmetric] t1_def [symmetric] by simp
  note F = find_slot_spec [of lowest "fa_len ?a" "fa_files ?a", folded i]
  have free: "ft_slot t i = None" using F by (auto simp: ft_slot_def)
  then have ncl: "\<not> ft_cl t i" using assms(1) by (auto simp: ft_ok_def)
  have t1: "ft_ok t1" "ft_slot t1 = ft_slot t" "ft_cl t1 = ft_cl t" "i < fa_len (ft_arr t1)"
    using Resize_spec [OF assms(1), of "i + 1"] assms(1) by (auto simp: t1_def)
  note P = ft_put_spec [OF t1(1,4), of "Some f"]
  have P3: "ft_ok (ft_put i (Some f) t1)" using P(3) by simp
  note C = set_cloexec_spec [OF P3, of i c]
  have "ft_slot (ft_put i (Some f) t1) i \<noteq> None" using P(1) by simp
  then show ?thesis
    using C P t1 F free ncl by (auto simp: t' ft_slot_def)
qed

lemma ft_InsertAt_spec:
  assumes "ft_ok t" "0 \<le> fd"
  shows "\<exists>t'. ft_InsertAt fd f c t = Some ((case ft_slot t (nat fd) of None \<Rightarrow> [] | Some g \<Rightarrow> [(fd, g)]), t') \<and> ft_ok t' \<and>
    ft_slot t' = (ft_slot t)(nat fd := Some f) \<and> ft_cl t' = (ft_cl t)(nat fd := ft_cl t (nat fd) \<or> c)"
proof -
  let ?i = "nat fd"
  define t1 where "t1 = (if ?i \<ge> fa_len (ft_arr t) then Resize (?i + 1) t else t)"
  have t1: "ft_ok t1" "ft_slot t1 = ft_slot t" "ft_cl t1 = ft_cl t" "?i < fa_len (ft_arr t1)"
    using Resize_spec [OF assms(1), of "?i + 1"] assms(1) by (auto simp: t1_def)
  note P = ft_put_spec [OF t1(1,4), of "Some f"]
  have P3: "ft_ok (ft_put ?i (Some f) t1)" using P(3) by simp
  have "ft_slot (ft_put ?i (Some f) t1) ?i \<noteq> None" using P(1) by simp
  note C = set_cloexec_spec [OF P3 _ this, of c]
  have old: "fa_files (ft_arr t1) ! ?i = ft_slot t ?i" using t1(2,4) by (auto simp: fun_eq_iff ft_slot_def split: if_splits)
  show ?thesis
    using assms(2) C P t1 old unfolding ft_InsertAt_def Let_def t1_def [symmetric] by auto
qed

lemma drop_slot_spec:
  assumes "ft_ok t" "i < fa_len (ft_arr t)"
  defines "t' \<equiv> (ft_put i None t)\<lparr>ft_cloexec := bm_clear i (ft_cloexec t)\<rparr>"
  shows "ft_ok t' \<and> ft_slot t' = (ft_slot t)(i := None) \<and> ft_cl t' = (ft_cl t)(i := False) \<and>
    fa_len (ft_arr t') = fa_len (ft_arr t)"
proof -
  let ?t1 = "t\<lparr>ft_cloexec := bm_clear i (ft_cloexec t)\<rparr>"
  have e: "t' = ft_put i None ?t1" by (simp add: t'_def ft_put_def)
  note C = cloexec_updates(2) [OF assms(1,2)]
  have ok: "ft_ok ?t1"
    by (rule ft_ok_cloexec [OF assms(1)]) (use assms(1) C in \<open>auto simp: ft_ok_def\<close>)
  have l: "i < fa_len (ft_arr ?t1)" "\<not> ft_cl ?t1 i" using assms(2) C by simp_all
  note P = ft_put_spec [OF ok l(1), of None]
  show ?thesis unfolding e using P l(2) C by simp
qed

lemma ft_Remove_spec:
  assumes "ft_ok t"
  shows "case ft_Get fd t of
      None \<Rightarrow> ft_Remove fd t = (False, [], t)
    | Some f \<Rightarrow> \<exists>t'. ft_Remove fd t = (True, [(fd, f)], t') \<and> ft_ok t' \<and>
        ft_slot t' = (ft_slot t)(to_size fd := None) \<and> ft_cl t' = (ft_cl t)(to_size fd := False)"
proof (cases "to_size fd < fa_len (ft_arr t)")
  case True
  then show ?thesis using drop_slot_spec [OF assms True]
    by (auto simp: ft_Get_def ft_Remove_def Let_def split: option.splits)
next
  case False
  then show ?thesis by (simp add: ft_Get_def ft_Remove_def Let_def)
qed

lemma remove_loop_spec:
  assumes "ft_ok t" "\<forall>i \<in> set is. i < fa_len (ft_arr t)" "remove_loop is t = (tmp, t')"
  shows "ft_ok t' \<and> (\<forall>i. ft_slot t' i = (if i \<in> set is then None else ft_slot t i)) \<and>
    (\<forall>i. ft_cl t' i = (i \<notin> set is \<and> ft_cl t i)) \<and> fa_len (ft_arr t') = fa_len (ft_arr t)"
  using assms
proof (induction "is" arbitrary: t tmp)
  case (Cons i "is")
  have i: "i < fa_len (ft_arr t)" using Cons.prems(2) by simp
  then have sl: "fa_files (ft_arr t) ! i = ft_slot t i" by (simp add: ft_slot_def)
  show ?case
  proof (cases "ft_slot t i")
    case None
    then have "\<not> ft_cl t i" using Cons.prems(1) by (auto simp: ft_ok_def)
    then show ?thesis using Cons.IH [of t tmp] Cons.prems None sl by auto
  next
    case (Some f)
    define t1 where "t1 = (ft_put i None t)\<lparr>ft_cloexec := bm_clear i (ft_cloexec t)\<rparr>"
    note D = drop_slot_spec [OF Cons.prems(1) i, folded t1_def]
    obtain tmp1 where r: "remove_loop is t1 = (tmp1, t')"
      using Cons.prems(3) sl Some by (auto simp: t1_def split: prod.splits)
    show ?thesis using Cons.IH [OF _ _ r] D Cons.prems(2) by auto
  qed
qed simp

lemma fold_put_spec:
  assumes "\<forall>i \<in> set is. i < fa_len (ft_arr t)" "length (fa_files (ft_arr t)) = fa_cap (ft_arr t)"
    "fa_len (ft_arr t) \<le> fa_cap (ft_arr t)"
  shows "\<exists>t'. fold (\<lambda>i t. ft_put i None t) is t = t' \<and>
    (\<forall>i. ft_slot t' i = (if i \<in> set is then None else ft_slot t i)) \<and> ft_cloexec t' = ft_cloexec t \<and>
    fa_len (ft_arr t') = fa_len (ft_arr t) \<and> fa_cap (ft_arr t') = fa_cap (ft_arr t) \<and>
    length (fa_files (ft_arr t')) = fa_cap (ft_arr t) \<and>
    (\<forall>j. j \<notin> set is \<longrightarrow> fa_files (ft_arr t') ! j = fa_files (ft_arr t) ! j)"
  using assms
proof (induction "is" arbitrary: t)
  case (Cons k "is")
  let ?t = "ft_put k None t"
  have k: "k < length (fa_files (ft_arr t))" "k < fa_len (ft_arr t)" using Cons.prems by auto
  have p: "\<forall>i \<in> set is. i < fa_len (ft_arr ?t)" "length (fa_files (ft_arr ?t)) = fa_cap (ft_arr ?t)"
    "fa_len (ft_arr ?t) \<le> fa_cap (ft_arr ?t)" using Cons.prems by (auto simp: ft_put_def)
  have t: "\<forall>i. ft_slot ?t i = (if i = k then None else ft_slot t i)" "ft_cloexec ?t = ft_cloexec t"
    "fa_len (ft_arr ?t) = fa_len (ft_arr t)" "fa_cap (ft_arr ?t) = fa_cap (ft_arr t)"
    "\<forall>j. j \<noteq> k \<longrightarrow> fa_files (ft_arr ?t) ! j = fa_files (ft_arr t) ! j"
    using k by (auto simp: ft_slot_def ft_put_def)
  show ?case using Cons.IH [OF p] t by simp
qed simp

lemma DoCloseOnExec_spec:
  assumes "ft_ok t" "DoCloseOnExec t = (closed, t')"
  shows "ft_ok t' \<and> (\<forall>i. ft_slot t' i = (if ft_cl t i then None else ft_slot t i)) \<and> (\<forall>i. \<not> ft_cl t' i) \<and>
    closed = map (\<lambda>i. (int i, ft_slot t i)) (filter (ft_cl t) [0..<fa_len (ft_arr t)])"
proof -
  have ok: "bm_ok (ft_cloexec t)" "fa_len (ft_arr t) \<le> fa_cap (ft_arr t)" "fa_cap (ft_arr t) \<le> bm_size (ft_cloexec t)"
    "length (fa_files (ft_arr t)) = fa_cap (ft_arr t)" "\<And>i. ft_cl t i \<Longrightarrow> ft_slot t i \<noteq> None"
    using assms(1) by (auto simp: ft_ok_def)
  let ?n = "fa_len (ft_arr t)" and ?is = "for_each_set_bit (ft_cloexec t)"
  have cl: "ft_cl t i \<longleftrightarrow> bm_test (ft_cloexec t) i" if "i < bm_size (ft_cloexec t)" for i
    using that ok(1) by (auto simp: ft_cl_def bm_ok_def)
  have lt: "i < ?n" if "ft_cl t i" for i using ok(5) [OF that] by (auto simp: ft_slot_def split: if_splits)
  have split: "[0..<bm_size (ft_cloexec t)] = [0..<?n] @ [?n..<bm_size (ft_cloexec t)]"
    using ok(2,3) upt_add_eq_append [of 0 ?n "bm_size (ft_cloexec t) - ?n"] by simp
  have "filter (bm_test (ft_cloexec t)) [?n..<bm_size (ft_cloexec t)] = []"
    using lt cl by (fastforce simp: filter_empty_conv)
  moreover have "filter (bm_test (ft_cloexec t)) [0..<?n] = filter (ft_cl t) [0..<?n]"
    using cl ok(2,3) by (intro filter_cong) auto
  ultimately have fds: "?is = filter (ft_cl t) [0..<?n]"
    using for_each_set_bit_ref [OF ok(1)] split by simp
  have set: "set ?is = {i. ft_cl t i}" using lt fds by auto
  define t1 where "t1 = fold (\<lambda>i t. ft_put i None t) ?is t"
  have t': "t' = t1\<lparr>ft_cloexec := bm_clear_all (ft_cloexec t)\<rparr>" "closed = map (\<lambda>i. (int i, fa_files (ft_arr t) ! i)) ?is"
    using assms(2) by (auto simp: DoCloseOnExec_def Let_def t1_def)
  have "\<forall>i \<in> set ?is. i < ?n" using lt set by auto
  then have F: "\<forall>i. ft_slot t1 i = (if i \<in> set ?is then None else ft_slot t i)" "ft_cloexec t1 = ft_cloexec t"
    "fa_len (ft_arr t1) = ?n" "fa_cap (ft_arr t1) = fa_cap (ft_arr t)" "length (fa_files (ft_arr t1)) = fa_cap (ft_arr t)"
    "\<forall>j. j \<notin> set ?is \<longrightarrow> fa_files (ft_arr t1) ! j = fa_files (ft_arr t) ! j"
    using fold_put_spec [of ?is t, OF _ ok(4,2)] by (auto simp: t1_def)
  have none: "\<not> ft_cl t' i" for i
    by (auto simp: t'(1) ft_cl_def bm_test_bit bm_clear_all_def get_idx_def kBitsPerLong_def)
  have rest: "fa_files (ft_arr t1) ! i = None" if "?n \<le> i" "i < fa_cap (ft_arr t)" for i
  proof -
    have "i \<notin> set ?is" using lt [of i] set that by auto
    then show ?thesis using F(6) assms(1) that by (simp add: ft_ok_def)
  qed
  have "ft_ok t'"
    using none F ok rest by (auto simp: ft_ok_def t'(1))
  moreover have "closed = map (\<lambda>i. (int i, ft_slot t i)) (filter (ft_cl t) [0..<?n])"
    unfolding t'(2) fds by (auto simp: ft_slot_def)
  ultimately show ?thesis using none F(1) set by (simp add: t'(1))
qed

lemma FileTable_copy_ok:
  assumes "ft_ok t"
  shows "ft_ok (FileTable_copy t)" "ft_slot (FileTable_copy t) = ft_slot t" "ft_cl (FileTable_copy t) = ft_cl t"
proof -
  show s: "ft_slot (FileTable_copy t) = ft_slot t"
    using assms by (auto simp: fun_eq_iff ft_slot_def FileTable_copy_def CopyFileArray_def ft_ok_def nth_append)
  show c: "ft_cl (FileTable_copy t) = ft_cl t" by (simp add: fun_eq_iff ft_cl_def FileTable_copy_def)
  show "ft_ok (FileTable_copy t)"
    using assms unfolding ft_ok_def s c by (auto simp: FileTable_copy_def CopyFileArray_def)
qed

subsection \<open>Properties\<close>

text \<open>C32: Inserting a file uses the lowest free descriptor at or above the requested minimum, leaves every
  other descriptor as it was, and sets the new descriptor's close-on-exec flag exactly as requested, also
  when the table has to grow.\<close>

theorem ft_Insert_lowest:
  assumes "ft_ok t" "ft_Insert f c lowest t = (i, t')"
  shows "ft_ok t' \<and> lowest \<le> i \<and> ft_slot t i = None \<and> (\<forall>j. lowest \<le> j \<and> j < i \<longrightarrow> ft_slot t j \<noteq> None) \<and>
    ft_slot t' = (ft_slot t)(i := Some f) \<and> ft_cl t' = (ft_cl t)(i := c)"
  using assms by (rule ft_Insert_spec)

theorem ft_Insert_lowest_witness:
  "ft_slot (snd (ft_Insert 7 True 100 FileTable_new)) 100 = Some 7 \<and> ft_cl (snd (ft_Insert 7 True 100 FileTable_new)) 100"
proof -
  obtain i t where r: "ft_Insert 7 True 100 FileTable_new = (i, t)" by (cases "ft_Insert 7 True 100 FileTable_new")
  note I = ft_Insert_lowest [OF ft_new_ok r]
  have "i = 100"
  proof (rule ccontr)
    assume "i \<noteq> 100"
    then have "100 < i" using I by simp
    then have "ft_slot FileTable_new 100 \<noteq> None" using I by blast
    then show False by (simp add: ft_slot_new)
  qed
  then show ?thesis using I r by simp
qed

text \<open>C33: At \<open>exec\<close> exactly the descriptors whose close-on-exec flag is set are closed, in increasing
  order and once each; afterwards no flag is set.\<close>

theorem exec_closes_flagged:
  assumes "ft_ok t" "DoCloseOnExec t = (closed, t')"
  shows "ft_ok t' \<and> (\<forall>i. ft_slot t' i = (if ft_cl t i then None else ft_slot t i)) \<and> (\<forall>i. \<not> ft_cl t' i) \<and>
    closed = map (\<lambda>i. (int i, ft_slot t i)) (filter (ft_cl t) [0..<fa_len (ft_arr t)])"
  using assms by (rule DoCloseOnExec_spec)

theorem exec_closes_flagged_witness:
  "\<exists>t. ft_slot t 100 = Some 7 \<and> ft_slot (snd (DoCloseOnExec t)) 100 = None"
proof -
  obtain i t where r: "ft_Insert 7 True 100 FileTable_new = (i, t)" by (cases "ft_Insert 7 True 100 FileTable_new")
  have t: "ft_ok t" "ft_slot t 100 = Some 7" "ft_cl t 100"
    using ft_Insert_spec [OF ft_new_ok r] r ft_slot_new by (metis fun_upd_apply le_neq_implies_less le_refl)+
  obtain closed t' where d: "DoCloseOnExec t = (closed, t')" by (cases "DoCloseOnExec t")
  show ?thesis using exec_closes_flagged [OF t(1) d] t d by (intro exI [of _ t]) simp
qed

text \<open>\<open>dup2\<close> onto an open descriptor keeps that descriptor's close-on-exec flag, so the duplicate is
  closed at the next \<open>exec\<close> although \<open>dup2\<close> never requests it; and a negative target is an access
  outside the descriptor array instead of an error.\<close>

theorem dup2_flag_and_range:
  assumes "ft_ok t" "oldfd \<noteq> newfd" "ft_Dup oldfd t = Some f"
  shows "(newfd < 0 \<longrightarrow> usys_dup2 oldfd newfd t = None) \<and>
    (0 \<le> newfd \<longrightarrow> (\<exists>closed t'. usys_dup2 oldfd newfd t = Some (newfd, closed, t') \<and> ft_ok t' \<and>
       ft_slot t' = (ft_slot t)(nat newfd := Some f) \<and> ft_cl t' = ft_cl t))"
proof (cases "newfd < 0")
  case True
  then show ?thesis using assms by (simp add: usys_dup2_def ft_InsertAt_def)
next
  case False
  obtain t' where i: "ft_InsertAt newfd f False t = Some ((case ft_slot t (nat newfd) of None \<Rightarrow> [] | Some g \<Rightarrow> [(newfd, g)]), t')"
    "ft_ok t'" "ft_slot t' = (ft_slot t)(nat newfd := Some f)" "ft_cl t' = (ft_cl t)(nat newfd := ft_cl t (nat newfd) \<or> False)"
    using ft_InsertAt_spec [OF assms(1), of newfd f False] False by auto
  then show ?thesis using assms False by (simp add: usys_dup2_def)
qed

theorem dup2_flag_and_range_witness:
  "\<exists>t closed t'. usys_dup2 0 100 t = Some (100, closed, t') \<and> ft_slot t' 100 = Some 5 \<and> ft_cl t' 100"
proof -
  obtain i t where r: "ft_Insert 7 True 100 FileTable_new = (i, t)" by (cases "ft_Insert 7 True 100 FileTable_new")
  have t: "ft_ok t" "ft_slot t = (ft_slot FileTable_new)(100 := Some 7)" "ft_cl t 100"
    using ft_Insert_spec [OF ft_new_ok r] r ft_slot_new by (metis fun_upd_apply le_neq_implies_less le_refl)+
  obtain j u where s: "ft_Insert 5 False 0 t = (j, u)" by (cases "ft_Insert 5 False 0 t")
  note I = ft_Insert_spec [OF t(1) s]
  have "j = 0"
  proof (rule ccontr)
    assume "j \<noteq> 0"
    then have "ft_slot t 0 \<noteq> None" using I by blast
    then show False using t(2) by (simp add: ft_slot_new)
  qed
  then have u: "ft_ok u" "ft_slot u 0 = Some 5" "ft_cl u 100" using I t(3) by auto
  then have "ft_Dup 0 u = Some 5" by (auto simp: ft_Dup_def to_size_def ft_slot_def split: if_splits)
  from dup2_flag_and_range [OF u(1) _ this, of 100] obtain closed t' where
    "usys_dup2 0 100 u = Some (100, closed, t')" "ft_slot t' = (ft_slot u)(100 := Some 5)" "ft_cl t' = ft_cl u" by auto
  then show ?thesis using u(3) by (intro exI [of _ u] exI [of _ closed] exI [of _ t']) simp
qed

text \<open>\<open>close_range\<close> with a range that starts past the end of the table throws.\<close>

lemma close_range_throws:
  assumes "int (fa_len (ft_arr t)) < lo" "lo \<le> hi"
  shows "usys_close_range lo hi 0 t = None"
proof -
  have "min hi (int (fa_len (ft_arr t)) - 1) - lo + 1 < 0" using assms by linarith
  then show ?thesis using assms by (simp add: usys_close_range_def RemoveRange_def Let_def)
qed

end
