(* ===== verification/AdvisoryLock.thy ===== *)
theory AdvisoryLock
  imports Prelude
begin

text \<open>
  POSIX record locks: \<^verbatim>\<open>src/junction/fs/advisory_lock.h\<close>,
  \<^verbatim>\<open>src/junction/fs/advisory_lock.cc\<close>, and \<open>DoFlocks\<close> of
  \<^verbatim>\<open>src/junction/fs/file.cc\<close>.

  The holders of a context are kept as the list the code keeps.  What the list means is the relation
  \<open>covers\<close>: which process holds which type of lock on which byte.  Offsets are integers; a signed
  overflow while a lock request is decoded is undefined behaviour and gives \<open>None\<close>.  A thread that has
  to wait is the outcome \<open>LockWait\<close>.
\<close>

definition kFlockRead :: int where "kFlockRead = 0"
definition kFlockWrite :: int where "kFlockWrite = 1"
definition kFlockUnlock :: int where "kFlockUnlock = 2"

record AdvisoryLock =
  al_type :: int
  al_start :: int
  al_end :: int
  al_pid :: int

record flock =
  l_type :: int
  l_whence :: int
  l_start :: int
  l_len :: int
  l_pid :: int

definition overlaps_range :: "AdvisoryLock \<Rightarrow> int \<Rightarrow> int \<Rightarrow> bool" where
  "overlaps_range l o_start o_end \<longleftrightarrow> o_start \<le> al_end l \<and> o_end \<ge> al_start l"

definition lock_overlaps :: "AdvisoryLock \<Rightarrow> AdvisoryLock \<Rightarrow> bool" where
  "lock_overlaps l k \<longleftrightarrow> al_start k \<le> al_end l \<and> al_end k \<ge> al_start l"

definition lock_conflicts :: "AdvisoryLock \<Rightarrow> AdvisoryLock \<Rightarrow> bool" where
  "lock_conflicts l k \<longleftrightarrow>
     (if \<not> lock_overlaps l k then False
      else if al_pid k = al_pid l then False
      else al_type k \<noteq> kFlockRead \<or> al_type l \<noteq> kFlockRead)"

fun AnyConflicts :: "AdvisoryLock list \<Rightarrow> AdvisoryLock \<Rightarrow> bool" where
  "AnyConflicts [] al = False"
| "AnyConflicts (lck # holders) al = (if lock_conflicts lck al then True else AnyConflicts holders al)"

fun GetConflict :: "AdvisoryLock list \<Rightarrow> AdvisoryLock \<Rightarrow> AdvisoryLock option" where
  "GetConflict [] al = None"
| "GetConflict (lck # holders) al = (if lock_conflicts lck al then Some lck else GetConflict holders al)"

definition off_max :: int where "off_max = 2 ^ 63 - 1"

definition checked_off :: "int \<Rightarrow> int option" where
  "checked_off x = (if - (2 ^ 63) \<le> x \<and> x \<le> off_max then Some x else None)"

text \<open>\<open>fromFlock\<close>, given the file's offset and size and the calling process.\<close>

definition flock_start :: "flock \<Rightarrow> int \<Rightarrow> int \<Rightarrow> int option" where
  "flock_start fl off fsize =
     (if l_whence fl = 0 then Some (l_start fl)
      else if l_whence fl = 1 then checked_off (l_start fl + off)
      else if l_whence fl = 2 then checked_off (l_start fl + fsize)
      else Some (- 1))"

definition fromFlock :: "flock \<Rightarrow> int \<Rightarrow> int \<Rightarrow> int \<Rightarrow> AdvisoryLock option" where
  "fromFlock fl off fsize pid =
     (case flock_start fl off fsize of
        None \<Rightarrow> None
      | Some start \<Rightarrow>
          (case (if l_len fl \<noteq> 0 then checked_off (start + l_len fl) else Some (off_max + 1)) of
             None \<Rightarrow> None
           | Some past \<Rightarrow>
               map_option (\<lambda>e. \<lparr>al_type = l_type fl, al_start = start, al_end = e, al_pid = pid\<rparr>)
                 (checked_off (past - 1))))"

definition ValidateAdvisoryLock :: "AdvisoryLock \<Rightarrow> bool" where
  "ValidateAdvisoryLock al \<longleftrightarrow> al_start al \<ge> 0 \<and> al_end al \<ge> al_start al"

fun clear_loop :: "int \<Rightarrow> int \<Rightarrow> int \<Rightarrow> AdvisoryLock list \<Rightarrow> AdvisoryLock list \<times> AdvisoryLock list \<times> bool" where
  "clear_loop start endp pid [] = ([], [], False)"
| "clear_loop start endp pid (cur # holders) =
     (case clear_loop start endp pid holders of
        (keep, new_locks, found) \<Rightarrow>
          if al_pid cur \<noteq> pid \<or> \<not> overlaps_range cur start endp then (cur # keep, new_locks, found)
          else
            ((if endp < al_end cur then [cur\<lparr>al_start := endp + 1\<rparr>] else []) @ keep,
             (if start > al_start cur then [cur\<lparr>al_end := start - 1\<rparr>] else []) @ new_locks,
             True))"

definition ClearRange :: "int \<Rightarrow> int \<Rightarrow> int \<Rightarrow> AdvisoryLock list \<Rightarrow> bool \<times> AdvisoryLock list" where
  "ClearRange start endp pid holders =
     (case clear_loop start endp pid holders of (keep, new_locks, found) \<Rightarrow> (found, keep @ new_locks))"

text \<open>A context: its holders and the threads on its wait queue.\<close>

record AdvisoryLockContext =
  holders :: "AdvisoryLock list"
  waiters :: "nat list"

definition AdvisoryLockContext_new :: AdvisoryLockContext where
  "AdvisoryLockContext_new = \<lparr>holders = [], waiters = []\<rparr>"

text \<open>Unlocking returns the threads it wakes.\<close>

definition DoUnlocks :: "AdvisoryLock \<Rightarrow> AdvisoryLockContext \<Rightarrow> nat list \<times> AdvisoryLockContext" where
  "DoUnlocks fl ctx =
     (case ClearRange (al_start fl) (al_end fl) (al_pid fl) (holders ctx) of
        (found, hs) \<Rightarrow>
          if found then (waiters ctx, ctx\<lparr>holders := hs, waiters := []\<rparr>) else ([], ctx\<lparr>holders := hs\<rparr>))"

definition DoGet :: "flock \<Rightarrow> int \<Rightarrow> int \<Rightarrow> int \<Rightarrow> AdvisoryLockContext \<Rightarrow> (unit Status \<times> flock) option" where
  "DoGet fl off fsize pid ctx =
     (case fromFlock fl off fsize pid of
        None \<Rightarrow> None
      | Some al \<Rightarrow>
          if \<not> ValidateAdvisoryLock al then Some (Inl EINVAL, fl)
          else
            (case GetConflict (holders ctx) al of
               None \<Rightarrow> Some (Inr (), fl\<lparr>l_type := kFlockUnlock\<rparr>)
             | Some c \<Rightarrow>
                 map_option (\<lambda>len. (Inr (), \<lparr>l_type = al_type c, l_whence = 0, l_start = al_start c, l_len = len, l_pid = al_pid c\<rparr>))
                   (checked_off (al_end c - al_start c + 1))))"

datatype lock_result = LockWait | LockDone "unit Status" "nat list" AdvisoryLockContext

definition DoSet :: "flock \<Rightarrow> bool \<Rightarrow> bool \<Rightarrow> int \<Rightarrow> int \<Rightarrow> int \<Rightarrow> AdvisoryLockContext \<Rightarrow> lock_result option" where
  "DoSet fl wait interrupted off fsize pid ctx =
     (case fromFlock fl off fsize pid of
        None \<Rightarrow> None
      | Some al \<Rightarrow>
          Some
            (if \<not> ValidateAdvisoryLock al then LockDone (Inl EINVAL) [] ctx
             else if al_type al = kFlockUnlock then (case DoUnlocks al ctx of (woken, ctx') \<Rightarrow> LockDone (Inr ()) woken ctx')
             else if AnyConflicts (holders ctx) al then
               (if wait then (if interrupted then LockDone (Inl EINTR) [] ctx else LockWait)
                else LockDone (Inl EAGAIN) [] ctx)
             else LockDone (Inr ()) []
                (ctx\<lparr>holders := snd (ClearRange (al_start al) (al_end al) (al_pid al) (holders ctx)) @ [al]\<rparr>)))"

definition DropLocksForPid :: "int \<Rightarrow> AdvisoryLockContext \<Rightarrow> nat list \<times> AdvisoryLockContext" where
  "DropLocksForPid pid ctx =
     (if \<exists>l \<in> set (holders ctx). al_pid l = pid
      then (waiters ctx, ctx\<lparr>holders := filter (\<lambda>l. al_pid l \<noteq> pid) (holders ctx), waiters := []\<rparr>)
      else ([], ctx))"

text \<open>The map from inodes to contexts.\<close>

type_synonym AdvisoryLockMap = "nat \<Rightarrow> AdvisoryLockContext option"

definition GetCtx :: "nat \<Rightarrow> AdvisoryLockMap \<Rightarrow> AdvisoryLockContext \<times> AdvisoryLockMap" where
  "GetCtx ino m =
     (case m ino of
        Some ctx \<Rightarrow> (ctx, m)
      | None \<Rightarrow> (AdvisoryLockContext_new, m(ino \<mapsto> AdvisoryLockContext_new)))"

definition NotifyInodeDestroy :: "nat \<Rightarrow> AdvisoryLockMap \<Rightarrow> AdvisoryLockMap" where
  "NotifyInodeDestroy ino m = m(ino := None)"

definition NotifyProcDestroy :: "int \<Rightarrow> AdvisoryLockMap \<Rightarrow> AdvisoryLockMap" where
  "NotifyProcDestroy pid m = (\<lambda>ino. map_option (\<lambda>ctx. snd (DropLocksForPid pid ctx)) (m ino))"

text \<open>\<open>DoFlocks\<close>: the cases for \<open>F_SETLKW\<close> and \<open>F_GETLK\<close> fall through to the default.\<close>

definition F_GETLK :: int where "F_GETLK = 5"
definition F_SETLK :: int where "F_SETLK = 6"
definition F_SETLKW :: int where "F_SETLKW = 7"

datatype flocks_result = FlocksWait | FlocksRet int flock AdvisoryLockContext

definition DoFlocks :: "int \<Rightarrow> flock \<Rightarrow> bool \<Rightarrow> int \<Rightarrow> int \<Rightarrow> int \<Rightarrow> AdvisoryLockContext \<Rightarrow> flocks_result option" where
  "DoFlocks cmd fl interrupted off fsize pid ctx =
     (if cmd = F_SETLK then
        (case DoSet fl False interrupted off fsize pid ctx of
           None \<Rightarrow> None
         | Some LockWait \<Rightarrow> Some FlocksWait
         | Some (LockDone r woken ctx') \<Rightarrow>
             Some (FlocksRet (case r of Inl e \<Rightarrow> MakeCError e | Inr u \<Rightarrow> 0) fl ctx'))
      else if cmd = F_SETLKW then
        (case DoSet fl True interrupted off fsize pid ctx of
           None \<Rightarrow> None
         | Some LockWait \<Rightarrow> Some FlocksWait
         | Some (LockDone r woken ctx') \<Rightarrow>
             map_option (\<lambda>(r', fl'). FlocksRet (- EINVAL) fl' ctx') (DoGet fl off fsize pid ctx'))
      else if cmd = F_GETLK then
        map_option (\<lambda>(r, fl'). FlocksRet (- EINVAL) fl' ctx) (DoGet fl off fsize pid ctx)
      else Some (FlocksRet (- EINVAL) fl ctx))"

subsection \<open>What the holders mean\<close>

definition covers :: "AdvisoryLock list \<Rightarrow> int \<Rightarrow> int \<Rightarrow> int \<Rightarrow> bool" where
  "covers hs p x ty \<longleftrightarrow> (\<exists>l \<in> set hs. al_pid l = p \<and> al_start l \<le> x \<and> x \<le> al_end l \<and> al_type l = ty)"

definition locks_ok :: "AdvisoryLock list \<Rightarrow> bool" where
  "locks_ok hs \<longleftrightarrow> (\<forall>l \<in> set hs. al_start l \<le> al_end l) \<and>
     (\<forall>p x t u. covers hs p x t \<longrightarrow> covers hs p x u \<longrightarrow> t = u) \<and>
     (\<forall>p q x t u. p \<noteq> q \<longrightarrow> covers hs p x t \<longrightarrow> covers hs q x u \<longrightarrow> t = kFlockRead \<and> u = kFlockRead)"

text \<open>Another process holds a conflicting lock on one of the bytes of \<open>al\<close>.\<close>

definition lock_blocked :: "AdvisoryLock list \<Rightarrow> AdvisoryLock \<Rightarrow> bool" where
  "lock_blocked hs al \<longleftrightarrow> (\<exists>q x t. q \<noteq> al_pid al \<and> al_start al \<le> x \<and> x \<le> al_end al \<and> covers hs q x t \<and>
     (t \<noteq> kFlockRead \<or> al_type al \<noteq> kFlockRead))"

lemma covers_simps [simp]:
  "\<not> covers [] p x t"
  "covers (l # hs) p x t \<longleftrightarrow> (al_pid l = p \<and> al_start l \<le> x \<and> x \<le> al_end l \<and> al_type l = t) \<or> covers hs p x t"
  "covers (hs @ ks) p x t \<longleftrightarrow> covers hs p x t \<or> covers ks p x t"
  by (auto simp: covers_def)

lemma clear_loop_covers:
  assumes "s \<le> e" "clear_loop s e p hs = (keep, new_locks, found)"
  shows "covers (keep @ new_locks) q x t \<longleftrightarrow> covers hs q x t \<and> \<not> (q = p \<and> s \<le> x \<and> x \<le> e)"
  using assms(2)
proof (induction hs arbitrary: keep new_locks found)
  case (Cons l hs)
  obtain k n f where r: "clear_loop s e p hs = (k, n, f)" by (cases "clear_loop s e p hs")
  show ?case
  proof (cases "al_pid l \<noteq> p \<or> \<not> overlaps_range l s e")
    case True
    then have "keep = l # k" "new_locks = n" using Cons.prems r by auto
    then show ?thesis using Cons.IH [OF r] True assms(1) by (auto simp: overlaps_range_def)
  next
    case False
    let ?r = "if e < al_end l then [l\<lparr>al_start := e + 1\<rparr>] else []" and ?l = "if s > al_start l then [l\<lparr>al_end := s - 1\<rparr>] else []"
    have "keep = ?r @ k" "new_locks = ?l @ n" using Cons.prems r False by auto
    then have "covers (keep @ new_locks) q x t \<longleftrightarrow> covers ?r q x t \<or> covers ?l q x t \<or> covers (k @ n) q x t"
      by (simp only: covers_simps) blast
    moreover have "covers ?r q x t \<or> covers ?l q x t \<longleftrightarrow> covers [l] q x t \<and> \<not> (q = p \<and> s \<le> x \<and> x \<le> e)"
    proof (cases "al_pid l = q \<and> al_type l = t")
      case True
      have o: "al_pid l = p" "s \<le> al_end l" "al_start l \<le> e" using False by (auto simp: overlaps_range_def)
      have "(e < al_end l \<and> e + 1 \<le> x \<and> x \<le> al_end l) \<or> (al_start l < s \<and> al_start l \<le> x \<and> x \<le> s - 1) \<longleftrightarrow>
          (al_start l \<le> x \<and> x \<le> al_end l) \<and> \<not> (s \<le> x \<and> x \<le> e)" using o(2,3) assms(1) by arith
      then show ?thesis using True o(1) by (cases "e < al_end l"; cases "al_start l < s") auto
    qed auto
    moreover have "covers (l # hs) q x t \<longleftrightarrow> covers [l] q x t \<or> covers hs q x t" by simp
    ultimately show ?thesis using Cons.IH [OF r] by blast
  qed
qed simp

lemma clear_loop_found:
  assumes "clear_loop s e p hs = (keep, new_locks, found)"
  shows "found \<longleftrightarrow> (\<exists>l \<in> set hs. al_pid l = p \<and> overlaps_range l s e)"
  using assms
proof (induction hs arbitrary: keep new_locks found)
  case (Cons l hs)
  then show ?case by (cases "clear_loop s e p hs") (auto split: if_splits)
qed simp

lemma clear_loop_nonempty:
  assumes "clear_loop s e p hs = (keep, new_locks, found)" "\<forall>l \<in> set hs. al_start l \<le> al_end l"
  shows "\<forall>l \<in> set (keep @ new_locks). al_start l \<le> al_end l"
  using assms
proof (induction hs arbitrary: keep new_locks found)
  case (Cons l hs)
  then show ?case by (cases "clear_loop s e p hs") (fastforce split: if_splits simp: overlaps_range_def)
qed simp

lemma ClearRange_spec:
  assumes "s \<le> e" "locks_ok hs" "ClearRange s e p hs = (found, hs')"
  shows "locks_ok hs'" "covers hs' q x t \<longleftrightarrow> covers hs q x t \<and> \<not> (q = p \<and> s \<le> x \<and> x \<le> e)"
proof -
  obtain k n f where r: "clear_loop s e p hs = (k, n, f)" by (cases "clear_loop s e p hs")
  have h: "hs' = k @ n" using assms(3) r by (simp add: ClearRange_def)
  have c: "covers hs' q x t \<longleftrightarrow> covers hs q x t \<and> \<not> (q = p \<and> s \<le> x \<and> x \<le> e)" for q x t
    unfolding h by (rule clear_loop_covers [OF assms(1) r])
  show "covers hs' q x t \<longleftrightarrow> covers hs q x t \<and> \<not> (q = p \<and> s \<le> x \<and> x \<le> e)" by (rule c)
  show "locks_ok hs'"
    using assms(2) clear_loop_nonempty [OF r] unfolding locks_ok_def c h [symmetric] by blast
qed

lemma AnyConflicts_set: "AnyConflicts hs al \<longleftrightarrow> (\<exists>l \<in> set hs. lock_conflicts l al)"
  by (induction hs) auto

lemma GetConflict_set:
  "GetConflict hs al = None \<longleftrightarrow> \<not> AnyConflicts hs al"
  "GetConflict hs al = Some l \<Longrightarrow> l \<in> set hs \<and> lock_conflicts l al"
  by (induction hs) (auto split: if_splits)

text \<open>The interval test agrees with byte-wise conflicts.\<close>

lemma AnyConflicts_covers:
  assumes "\<forall>l \<in> set hs. al_start l \<le> al_end l" "al_start al \<le> al_end al"
  shows "AnyConflicts hs al \<longleftrightarrow> lock_blocked hs al" (is "?l \<longleftrightarrow> ?r")
proof
  assume ?l
  then obtain l where l: "l \<in> set hs" "lock_conflicts l al" by (auto simp: AnyConflicts_set)
  let ?x = "max (al_start l) (al_start al)"
  have "al_pid l \<noteq> al_pid al \<and> al_start al \<le> ?x \<and> ?x \<le> al_end al \<and> covers hs (al_pid l) ?x (al_type l) \<and>
      (al_type l \<noteq> kFlockRead \<or> al_type al \<noteq> kFlockRead)"
    using l assms by (auto simp: lock_conflicts_def lock_overlaps_def covers_def split: if_splits)
  then show ?r unfolding lock_blocked_def by blast
next
  assume ?r
  then obtain l x where "l \<in> set hs" "al_pid l \<noteq> al_pid al" "al_start al \<le> x" "x \<le> al_end al" "al_start l \<le> x" "x \<le> al_end l"
    "al_type l \<noteq> kFlockRead \<or> al_type al \<noteq> kFlockRead" unfolding lock_blocked_def covers_def by blast
  then show ?l by (auto simp: AnyConflicts_set lock_conflicts_def lock_overlaps_def intro!: bexI [of _ l])
qed

lemma set_lock_ok:
  assumes "locks_ok hs" "ValidateAdvisoryLock al" "\<not> AnyConflicts hs al"
    "ClearRange (al_start al) (al_end al) (al_pid al) hs = (found, hs')"
  shows "locks_ok (hs' @ [al])"
    "covers (hs' @ [al]) q x t \<longleftrightarrow>
       (if q = al_pid al \<and> al_start al \<le> x \<and> x \<le> al_end al then t = al_type al else covers hs q x t)"
proof -
  have v: "al_start al \<le> al_end al" using assms(2) by (simp add: ValidateAdvisoryLock_def)
  note C = ClearRange_spec [OF v assms(1,4)]
  have c: "covers (hs' @ [al]) q x t \<longleftrightarrow>
       (if q = al_pid al \<and> al_start al \<le> x \<and> x \<le> al_end al then t = al_type al else covers hs q x t)" for q x t
    using C(2) by auto
  then show "covers (hs' @ [al]) q x t \<longleftrightarrow>
       (if q = al_pid al \<and> al_start al \<le> x \<and> x \<le> al_end al then t = al_type al else covers hs q x t)" .
  have ne: "\<forall>l \<in> set hs. al_start l \<le> al_end l" using assms(1) by (simp add: locks_ok_def)
  have free: "t = kFlockRead \<and> al_type al = kFlockRead"
    if "q \<noteq> al_pid al" "al_start al \<le> x" "x \<le> al_end al" "covers hs q x t" for q x t
    using assms(3) that unfolding AnyConflicts_covers [OF ne v] lock_blocked_def by blast
  have H: "covers hs p x t \<Longrightarrow> covers hs p x u \<Longrightarrow> t = u"
    "p \<noteq> q \<Longrightarrow> covers hs p x t \<Longrightarrow> covers hs q x u \<Longrightarrow> t = kFlockRead \<and> u = kFlockRead" for p q x t u
    using assms(1) unfolding locks_ok_def by blast+
  have len: "\<forall>l \<in> set (hs' @ [al]). al_start l \<le> al_end l" using C(1) v by (simp add: locks_ok_def)
  show "locks_ok (hs' @ [al])"
    unfolding locks_ok_def
  proof (intro conjI allI impI)
    fix p q x t u
    assume "p \<noteq> q" "covers (hs' @ [al]) p x t" "covers (hs' @ [al]) q x u"
    then show "t = kFlockRead" "u = kFlockRead" unfolding c using H(2) [of p q x t u] free [of p x t] free [of q x u]
      by (auto split: if_splits)
  qed (use len H(1) c in \<open>auto split: if_splits\<close>)
qed

text \<open>No operation puts a thread on the wait queue, so no unlock ever wakes a waiting thread.\<close>

lemma DoSet_wakes_nobody:
  assumes "waiters ctx = []" "DoSet fl w i off fsize pid ctx = Some (LockDone r woken ctx')"
  shows "woken = []" "waiters ctx' = []"
  using assms by (auto simp: DoSet_def DoUnlocks_def split: option.splits if_splits prod.splits)

lemma DropLocksForPid_spec:
  assumes "locks_ok (holders ctx)"
  shows "locks_ok (holders (snd (DropLocksForPid p ctx)))"
    "covers (holders (snd (DropLocksForPid p ctx))) q x t \<longleftrightarrow> q \<noteq> p \<and> covers (holders ctx) q x t"
proof -
  have c: "covers (holders (snd (DropLocksForPid p ctx))) q x t \<longleftrightarrow> q \<noteq> p \<and> covers (holders ctx) q x t" for q x t
    by (auto simp: DropLocksForPid_def covers_def)
  then show "covers (holders (snd (DropLocksForPid p ctx))) q x t \<longleftrightarrow> q \<noteq> p \<and> covers (holders ctx) q x t" .
  have "set (holders (snd (DropLocksForPid p ctx))) \<subseteq> set (holders ctx)" by (auto simp: DropLocksForPid_def)
  then show "locks_ok (holders (snd (DropLocksForPid p ctx)))"
    using assms unfolding locks_ok_def c by blast
qed

lemma fromFlock_pid: "fromFlock fl off fsize pid = Some al \<Longrightarrow> al_pid al = pid"
  by (auto simp: fromFlock_def split: option.splits)

subsection \<open>Properties\<close>

text \<open>C23: Setting a record lock without waiting.  The request is granted exactly when no other process holds
  a conflicting lock on one of the bytes; then the process holds the requested type on exactly the requested
  bytes (or nothing there, when it unlocks) and every other byte of every process is as before.  Otherwise the
  result is \<open>EAGAIN\<close> and nothing changes.  In either case no two processes hold conflicting locks.\<close>

theorem record_lock_spec:
  assumes "locks_ok (holders ctx)" "fromFlock fl off fsize pid = Some al" "ValidateAdvisoryLock al"
  shows "\<exists>r woken ctx'. DoSet fl False i off fsize pid ctx = Some (LockDone r woken ctx') \<and> locks_ok (holders ctx') \<and>
    (if al_type al \<noteq> kFlockUnlock \<and> lock_blocked (holders ctx) al
     then r = Inl EAGAIN \<and> ctx' = ctx
     else r = Inr () \<and> (\<forall>q x t. covers (holders ctx') q x t \<longleftrightarrow>
        (if q = pid \<and> al_start al \<le> x \<and> x \<le> al_end al then al_type al \<noteq> kFlockUnlock \<and> t = al_type al
         else covers (holders ctx) q x t)))"
proof -
  have v: "al_start al \<le> al_end al" using assms(3) by (simp add: ValidateAdvisoryLock_def)
  have p: "al_pid al = pid" using fromFlock_pid [OF assms(2)] .
  obtain f hs where c: "ClearRange (al_start al) (al_end al) pid (holders ctx) = (f, hs)"
    by (cases "ClearRange (al_start al) (al_end al) pid (holders ctx)")
  note C = ClearRange_spec [OF v assms(1) c]
  have ne: "\<forall>l \<in> set (holders ctx). al_start l \<le> al_end l" using assms(1) by (simp add: locks_ok_def)
  note A = AnyConflicts_covers [OF ne v]
  consider (unlock) "al_type al = kFlockUnlock" | (conflict) "al_type al \<noteq> kFlockUnlock" "AnyConflicts (holders ctx) al"
    | (free) "al_type al \<noteq> kFlockUnlock" "\<not> AnyConflicts (holders ctx) al" by blast
  then show ?thesis
  proof cases
    case unlock
    obtain woken ctx' where d: "DoUnlocks al ctx = (woken, ctx')" by (cases "DoUnlocks al ctx")
    then have "holders ctx' = hs" using c p by (auto simp: DoUnlocks_def split: if_splits)
    then show ?thesis using C unlock assms(2,3) d by (auto simp: DoSet_def)
  next
    case conflict
    then have "DoSet fl False i off fsize pid ctx = Some (LockDone (Inl EAGAIN) [] ctx)" using assms(2,3) by (simp add: DoSet_def)
    then show ?thesis using A conflict assms(1) by auto
  next
    case free
    have d: "DoSet fl False i off fsize pid ctx = Some (LockDone (Inr ()) [] (ctx\<lparr>holders := hs @ [al]\<rparr>))"
      using free assms(2,3) c p by (simp add: DoSet_def)
    note S = set_lock_ok [OF assms(1,3) free(2) c [folded p]]
    have "\<forall>q x t. covers (hs @ [al]) q x t \<longleftrightarrow>
        (if q = pid \<and> al_start al \<le> x \<and> x \<le> al_end al then al_type al \<noteq> kFlockUnlock \<and> t = al_type al
         else covers (holders ctx) q x t)" using S(2) p free(1) by auto
    moreover have "holders (ctx\<lparr>holders := hs @ [al]\<rparr>) = hs @ [al]" by simp
    ultimately show ?thesis unfolding d A [symmetric] using free S(1) by metis
  qed
qed

theorem record_lock_spec_witness:
  "\<exists>r woken ctx'. DoSet \<lparr>l_type = kFlockRead, l_whence = 0, l_start = 5, l_len = 10, l_pid = 0\<rparr> False False 0 0 2
      \<lparr>holders = [\<lparr>al_type = kFlockWrite, al_start = 8, al_end = 20, al_pid = 1\<rparr>], waiters = []\<rparr> = Some (LockDone (Inl EAGAIN) woken ctx')"
proof -
  let ?ctx = "\<lparr>holders = [\<lparr>al_type = kFlockWrite, al_start = 8, al_end = 20, al_pid = 1\<rparr>], waiters = []\<rparr>"
    and ?fl = "\<lparr>l_type = kFlockRead, l_whence = 0, l_start = 5, l_len = 10, l_pid = 0\<rparr>"
    and ?al = "\<lparr>al_type = kFlockRead, al_start = 5, al_end = 14, al_pid = 2\<rparr>"
  have "locks_ok (holders ?ctx)" by (auto simp: locks_ok_def)
  moreover have f: "fromFlock ?fl 0 0 2 = Some ?al" by (simp add: fromFlock_def flock_start_def checked_off_def off_max_def)
  moreover have "ValidateAdvisoryLock ?al" by (simp add: ValidateAdvisoryLock_def)
  moreover have "lock_blocked (holders ?ctx) ?al"
    unfolding lock_blocked_def by (rule exI [of _ 1], rule exI [of _ 8]) (simp add: kFlockRead_def kFlockWrite_def)
  moreover have "al_type ?al \<noteq> kFlockUnlock" by (simp add: kFlockRead_def kFlockUnlock_def)
  ultimately show ?thesis using record_lock_spec [of ?ctx ?fl 0 0 2 ?al False] by auto
qed

text \<open>A waiting lock request (\<open>F_SETLKW\<close>) that can be granted takes the lock and still reports
  \<open>EINVAL\<close>, because the cases of the switch fall through.\<close>

theorem setlkw_reports_einval:
  assumes "locks_ok (holders ctx)" "fromFlock fl off fsize pid = Some al" "ValidateAdvisoryLock al"
    "al_type al \<noteq> kFlockUnlock" "\<not> AnyConflicts (holders ctx) al"
  shows "\<exists>fl' ctx'. DoFlocks F_SETLKW fl i off fsize pid ctx = Some (FlocksRet (- EINVAL) fl' ctx') \<and> al \<in> set (holders ctx')"
proof -
  have p: "al_pid al = pid" using fromFlock_pid [OF assms(2)] .
  have v: "al_start al \<le> al_end al" using assms(3) by (simp add: ValidateAdvisoryLock_def)
  obtain f hs where c: "ClearRange (al_start al) (al_end al) (al_pid al) (holders ctx) = (f, hs)"
    by (cases "ClearRange (al_start al) (al_end al) (al_pid al) (holders ctx)")
  note S = set_lock_ok [OF assms(1,3,5) c]
  let ?ctx = "ctx\<lparr>holders := hs @ [al]\<rparr>"
  have d: "DoSet fl True i off fsize pid ctx = Some (LockDone (Inr ()) [] ?ctx)"
    using assms c p by (simp add: DoSet_def)
  have ne: "\<forall>l \<in> set (hs @ [al]). al_start l \<le> al_end l" "\<forall>l \<in> set (holders ctx). al_start l \<le> al_end l"
    using S(1) assms(1) unfolding locks_ok_def by blast+
  have "\<not> AnyConflicts (hs @ [al]) al"
    using assms(5) unfolding AnyConflicts_covers [OF ne(1) v] AnyConflicts_covers [OF ne(2) v] lock_blocked_def S(2) by auto
  then have "DoGet fl off fsize pid ?ctx = Some (Inr (), fl\<lparr>l_type := kFlockUnlock\<rparr>)"
    using assms(2,3) GetConflict_set(1) [of "hs @ [al]" al] by (simp add: DoGet_def)
  then show ?thesis using d by (simp add: DoFlocks_def F_SETLK_def F_SETLKW_def)
qed

theorem setlkw_reports_einval_witness:
  "\<exists>fl' ctx'. DoFlocks F_SETLKW \<lparr>l_type = kFlockWrite, l_whence = 0, l_start = 0, l_len = 0, l_pid = 0\<rparr> False 0 0 1 AdvisoryLockContext_new
      = Some (FlocksRet (- EINVAL) fl' ctx') \<and> \<lparr>al_type = kFlockWrite, al_start = 0, al_end = off_max, al_pid = 1\<rparr> \<in> set (holders ctx')"
  by (rule setlkw_reports_einval)
    (simp_all add: AdvisoryLockContext_new_def locks_ok_def fromFlock_def flock_start_def checked_off_def off_max_def
      ValidateAdvisoryLock_def kFlockWrite_def kFlockUnlock_def)

end
