(* ===== verification/SignalQueue.thy ===== *)
theory SignalQueue
  imports Bitmap
begin

text \<open>
  Signal numbers and masks, signal actions, the table of actions and the queue of pending signals:
  \<^verbatim>\<open>src/junction/kernel/signal.h\<close> and the queue operations of
  \<^verbatim>\<open>src/junction/kernel/signal.cc\<close>.

  \<open>SignalMask\<close> shifts by the signal number minus one, which is undefined behaviour for a number outside
  1 to 64; operations that receive an unchecked signal number return \<open>None\<close> there.
\<close>

definition kNumSignals :: int where "kNumSignals = 64"
definition kNumStandardSignals :: int where "kNumStandardSignals = 32"
definition kMaxQueuedRT :: nat where "kMaxQueuedRT = 1024"

definition SIGQUIT :: int where "SIGQUIT = 3"
definition SIGILL :: int where "SIGILL = 4"
definition SIGTRAP :: int where "SIGTRAP = 5"
definition SIGABRT :: int where "SIGABRT = 6"
definition SIGBUS :: int where "SIGBUS = 7"
definition SIGFPE :: int where "SIGFPE = 8"
definition SIGKILL :: int where "SIGKILL = 9"
definition SIGSEGV :: int where "SIGSEGV = 11"
definition SIGCHLD :: int where "SIGCHLD = 17"
definition SIGCONT :: int where "SIGCONT = 18"
definition SIGSTOP :: int where "SIGSTOP = 19"
definition SIGTSTP :: int where "SIGTSTP = 20"
definition SIGTTIN :: int where "SIGTTIN = 21"
definition SIGTTOU :: int where "SIGTTOU = 22"
definition SIGURG :: int where "SIGURG = 23"
definition SIGXCPU :: int where "SIGXCPU = 24"
definition SIGXFSZ :: int where "SIGXFSZ = 25"
definition SIGWINCH :: int where "SIGWINCH = 28"
definition SIGSYS :: int where "SIGSYS = 31"

lemmas signal_numbers = SIGQUIT_def SIGILL_def SIGTRAP_def SIGABRT_def SIGBUS_def SIGFPE_def SIGKILL_def SIGSEGV_def
  SIGCHLD_def SIGCONT_def SIGSTOP_def SIGTSTP_def SIGTTIN_def SIGTTOU_def SIGURG_def SIGXCPU_def SIGXFSZ_def
  SIGWINCH_def SIGSYS_def

definition SignalValid :: "int \<Rightarrow> bool" where
  "SignalValid sig \<longleftrightarrow> sig > 0 \<and> sig \<le> kNumSignals"

definition SignalMask :: "int \<Rightarrow> u64" where
  "SignalMask sig = push_bit (nat (sig - 1)) 1"

definition SignalInMask :: "u64 \<Rightarrow> int \<Rightarrow> bool" where
  "SignalInMask msk sig \<longleftrightarrow> msk AND SignalMask sig \<noteq> 0"

definition MultiSignalMask :: "int list \<Rightarrow> u64" where
  "MultiSignalMask args = fold (\<lambda>a msk. msk OR SignalMask a) args 0"

definition kSignalKernelOnlyMask :: u64 where
  "kSignalKernelOnlyMask = MultiSignalMask [SIGKILL, SIGSTOP]"

definition kSignalSynchronousMask :: u64 where
  "kSignalSynchronousMask = MultiSignalMask [SIGSEGV, SIGBUS, SIGILL, SIGTRAP, SIGFPE]"

definition kSignalStopMask :: u64 where
  "kSignalStopMask = MultiSignalMask [SIGSTOP, SIGTSTP, SIGTTIN, SIGTTOU]"

definition kSignalCoredumpMask :: u64 where
  "kSignalCoredumpMask = MultiSignalMask [SIGQUIT, SIGILL, SIGTRAP, SIGABRT, SIGFPE, SIGSEGV, SIGBUS, SIGSYS, SIGXCPU, SIGXFSZ]"

definition kSignalIgnoreMask :: u64 where
  "kSignalIgnoreMask = MultiSignalMask [SIGCONT, SIGCHLD, SIGWINCH, SIGURG]"

definition IsRestartSys :: "int \<Rightarrow> bool" where
  "IsRestartSys rax \<longleftrightarrow> rax = - ERESTARTNOHAND \<or> rax = - ERESTARTSYS"

subsection \<open>Actions\<close>

record k_sigaction =
  handler :: uintptr
  sa_flags :: u64
  restorer :: uintptr
  sa_mask :: u64

definition SA_ONSTACK :: u64 where "SA_ONSTACK = 0x08000000"
definition SA_RESTART :: u64 where "SA_RESTART = 0x10000000"
definition SA_NODEFER :: u64 where "SA_NODEFER = 0x40000000"
definition SA_RESETHAND :: u64 where "SA_RESETHAND = 0x80000000"

definition kDefaultHandler :: uintptr where "kDefaultHandler = 0"

definition wants_altstack :: "k_sigaction \<Rightarrow> bool" where "wants_altstack a \<longleftrightarrow> sa_flags a AND SA_ONSTACK \<noteq> 0"
definition is_oneshot :: "k_sigaction \<Rightarrow> bool" where "is_oneshot a \<longleftrightarrow> sa_flags a AND SA_RESETHAND \<noteq> 0"
definition is_nodefer :: "k_sigaction \<Rightarrow> bool" where "is_nodefer a \<longleftrightarrow> sa_flags a AND SA_NODEFER \<noteq> 0"
definition is_restartsys :: "k_sigaction \<Rightarrow> bool" where "is_restartsys a \<longleftrightarrow> sa_flags a AND SA_RESTART \<noteq> 0"

definition sigaction_reset :: "k_sigaction \<Rightarrow> k_sigaction" where
  "sigaction_reset a = a\<lparr>handler := kDefaultHandler, sa_flags := 0\<rparr>"

definition sigaction_set :: "k_sigaction \<Rightarrow> bool" where
  "sigaction_set a \<longleftrightarrow> handler a \<noteq> kDefaultHandler \<or> sa_flags a \<noteq> 0"

datatype SignalAction = kStop | kCoredump | kTerminate | kIgnore | kNormal

definition ParseAction :: "k_sigaction \<Rightarrow> int \<Rightarrow> SignalAction" where
  "ParseAction act sig =
     (if handler act = 1 then kIgnore
      else if handler act \<noteq> kDefaultHandler then kNormal
      else if SignalInMask kSignalStopMask sig then kStop
      else if SignalInMask kSignalCoredumpMask sig then kCoredump
      else if SignalInMask kSignalIgnoreMask sig then kIgnore
      else kTerminate)"

text \<open>The action that ends the process; its handler lies in the library itself, at an address given by the
  parameter.\<close>

definition SigKillAction :: "uintptr \<Rightarrow> k_sigaction" where
  "SigKillAction kill_handler =
     \<lparr>handler = kill_handler, sa_flags = SA_ONSTACK OR SA_RESTART OR SA_NODEFER, restorer = 0, sa_mask = NOT 0\<rparr>"

type_synonym SignalTable = "k_sigaction list"

definition SignalTable_new :: SignalTable where
  "SignalTable_new = replicate 64 \<lparr>handler = 0, sa_flags = 0, restorer = 0, sa_mask = 0\<rparr>"

definition get_action :: "int \<Rightarrow> bool \<Rightarrow> SignalTable \<Rightarrow> k_sigaction \<times> SignalTable" where
  "get_action sig reset t =
     (let i = nat (sig - 1); sa = t ! i
      in (sa, if reset \<and> is_oneshot sa then t[i := sigaction_reset sa] else t))"

definition exchange_action :: "int \<Rightarrow> k_sigaction \<Rightarrow> SignalTable \<Rightarrow> k_sigaction \<times> SignalTable" where
  "exchange_action sig sa t = (let i = nat (sig - 1) in (t ! i, t[i := sa]))"

text \<open>The serialised table is the list of the entries that are set, with their indices.\<close>

definition sigtable_save :: "SignalTable \<Rightarrow> (nat \<times> k_sigaction) list" where
  "sigtable_save t = map (\<lambda>i. (i, t ! i)) (filter (\<lambda>i. sigaction_set (t ! i)) [0..<64])"

definition sigtable_load :: "(nat \<times> k_sigaction) list \<Rightarrow> SignalTable \<Rightarrow> SignalTable" where
  "sigtable_load xs t = fold (\<lambda>(i, a) t. t[i := a]) xs t"

text \<open>Loading a saved table restores every entry that was set; the other entries keep what the target table
  held before, which a table constructed with \<open>DeferInit\<close> does not initialise.\<close>

lemma fold_update_nth:
  "distinct (map fst xs) \<Longrightarrow> i < length t \<Longrightarrow>
     fold (\<lambda>(i, a) t. t[i := a]) xs t ! i = (case map_of xs i of Some a \<Rightarrow> a | None \<Rightarrow> t ! i)"
proof (induction xs arbitrary: t)
  case (Cons x xs)
  obtain j a where x: "x = (j, a)" by (cases x)
  have "j \<notin> fst ` set xs" using Cons.prems x by simp
  then have "map_of xs j = None" by (simp add: map_of_eq_None_iff)
  then show ?case using Cons x by (auto split: option.split)
qed simp

lemma sigtable_load_save:
  assumes "length t = 64" "length t0 = 64" "i < 64"
  shows "sigtable_load (sigtable_save t) t0 ! i = (if sigaction_set (t ! i) then t ! i else t0 ! i)"
proof -
  have d: "distinct (map fst (sigtable_save t))" by (simp add: sigtable_save_def comp_def)
  have "map_of (sigtable_save t) i = (if sigaction_set (t ! i) then Some (t ! i) else None)"
    using assms(3) by (auto simp: sigtable_save_def map_of_map_restrict restrict_map_def)
  then show ?thesis using fold_update_nth [OF d, of i t0] assms by (simp add: sigtable_load_def)
qed

subsection \<open>The queue of pending signals\<close>

record siginfo =
  si_signo :: int
  si_code :: int
  si_pid :: int
  si_status :: int

record SignalQueue =
  pending_q :: "siginfo list"
  pending :: u64

definition SignalQueue_new :: SignalQueue where
  "SignalQueue_new = \<lparr>pending_q = [], pending = 0\<rparr>"

definition get_pending :: "u64 \<Rightarrow> SignalQueue \<Rightarrow> u64" where
  "get_pending blk q = pending q AND NOT blk"

definition sq_is_sig_pending :: "int \<Rightarrow> SignalQueue \<Rightarrow> bool" where
  "sq_is_sig_pending signo q = SignalInMask (get_pending 0 q) signo"

definition sq_OnExec :: "SignalQueue \<Rightarrow> SignalQueue" where
  "sq_OnExec q = q\<lparr>pending_q := [], pending := 0\<rparr>"

definition set_sig_pending :: "int \<Rightarrow> SignalQueue \<Rightarrow> SignalQueue" where
  "set_sig_pending signo q = q\<lparr>pending := pending q OR SignalMask signo\<rparr>"

definition clear_sig_pending :: "int \<Rightarrow> SignalQueue \<Rightarrow> SignalQueue" where
  "clear_sig_pending signo q = q\<lparr>pending := pending q AND NOT (SignalMask signo)\<rparr>"

text \<open>The loop of \<open>Pop\<close>: the signal found so far, how many entries of its number were seen, and the
  remaining queue.\<close>

fun pop_loop :: "int \<Rightarrow> siginfo option \<Rightarrow> nat \<Rightarrow> siginfo list \<Rightarrow> siginfo option \<times> nat \<times> siginfo list" where
  "pop_loop signo si cnt [] = (si, cnt, [])"
| "pop_loop signo si cnt (p # ps) =
     (if si_signo p \<noteq> signo then
        (case pop_loop signo si cnt ps of (r, c, ps') \<Rightarrow> (r, c, p # ps'))
      else
        (case si of
           None \<Rightarrow>
             if si_signo p < kNumStandardSignals then (Some p, cnt + 1, ps)
             else pop_loop signo (Some p) (cnt + 1) ps
         | Some s \<Rightarrow> (Some s, cnt + 1, p # ps)))"

definition sq_Pop :: "u64 \<Rightarrow> bool \<Rightarrow> SignalQueue \<Rightarrow> siginfo option \<times> SignalQueue" where
  "sq_Pop blk remove q =
     (let signo = int (ffsl (pending q AND NOT blk)) in
      if signo \<le> 0 then (None, q)
      else if \<not> remove then (List.find (\<lambda>p. si_signo p = signo) (pending_q q), q)
      else
        (case pop_loop signo None 0 (pending_q q) of
           (None, c, ps) \<Rightarrow> (None, q)
         | (Some si, c, ps) \<Rightarrow>
             (Some si, (if c = 1 then clear_sig_pending signo else id) (q\<lparr>pending_q := ps\<rparr>))))"

definition sq_Enqueue :: "siginfo \<Rightarrow> SignalQueue \<Rightarrow> (bool \<times> SignalQueue) option" where
  "sq_Enqueue info q =
     (let signo = si_signo info in
      if \<not> SignalValid signo then None
      else if signo < kNumStandardSignals \<and> sq_is_sig_pending signo q then Some (False, q)
      else if \<not> signo < kNumStandardSignals \<and> length (pending_q q) \<ge> kMaxQueuedRT then Some (False, q)
      else Some (True, set_sig_pending signo (q\<lparr>pending_q := pending_q q @ [info]\<rparr>)))"

subsection \<open>Masks\<close>

named_theorems mask_bits \<open>the bits of signal masks\<close>

lemma bit_SignalMask [mask_bits]: "bit (SignalMask sig) n \<longleftrightarrow> n < 64 \<and> n = nat (sig - 1)"
  by (auto simp: SignalMask_def bit_simps)

lemma SignalInMask_bit [mask_bits]: "SignalValid sig \<Longrightarrow> SignalInMask msk sig \<longleftrightarrow> bit msk (nat (sig - 1))"
  unfolding SignalInMask_def bit_eq_iff
  by (auto simp: bit_simps bit_SignalMask SignalValid_def kNumSignals_def dest: bit_imp_le_length)

lemma kernel_only_bits [mask_bits]: "bit kSignalKernelOnlyMask n \<longleftrightarrow> n = 8 \<or> n = 18"
  by (auto simp: kSignalKernelOnlyMask_def MultiSignalMask_def bit_simps bit_SignalMask signal_numbers)

subsection \<open>The queue invariant\<close>

definition std_nums :: "siginfo list \<Rightarrow> int list" where
  "std_nums ps = map si_signo (filter (\<lambda>p. si_signo p < kNumStandardSignals) ps)"

definition rt_count :: "siginfo list \<Rightarrow> nat" where
  "rt_count ps = length (filter (\<lambda>p. \<not> si_signo p < kNumStandardSignals) ps)"

lemma nums_append [simp]:
  "std_nums (ps @ [p]) = std_nums ps @ (if si_signo p < kNumStandardSignals then [si_signo p] else [])"
  "rt_count (ps @ [p]) = rt_count ps + (if si_signo p < kNumStandardSignals then 0 else 1)"
  by (auto simp: std_nums_def rt_count_def)

lemma rt_count_remove: "rt_count (as @ bs) \<le> rt_count (as @ p # bs)"
  by (simp add: rt_count_def)

lemma rt_count_le: "rt_count ps \<le> length ps"
  by (simp add: rt_count_def)

lemma set_std_nums: "set (std_nums ps) = {s \<in> si_signo ` set ps. s < kNumStandardSignals}"
  by (auto simp: std_nums_def)

definition sq_ok :: "SignalQueue \<Rightarrow> bool" where
  "sq_ok q \<longleftrightarrow> (\<forall>p \<in> set (pending_q q). SignalValid (si_signo p)) \<and>
     (\<forall>s. SignalValid s \<longrightarrow> (bit (pending q) (nat (s - 1)) \<longleftrightarrow> s \<in> si_signo ` set (pending_q q))) \<and>
     distinct (std_nums (pending_q q)) \<and> rt_count (pending_q q) \<le> kMaxQueuedRT"

lemma sq_new_ok: "sq_ok SignalQueue_new"
  by (simp add: sq_ok_def SignalQueue_new_def std_nums_def rt_count_def)

lemma sq_OnExec_ok: "sq_ok (sq_OnExec q)"
  by (simp add: sq_ok_def sq_OnExec_def std_nums_def rt_count_def)

lemma sq_Enqueue_spec:
  assumes "sq_ok q" "sq_Enqueue info q = Some (r, q')"
  shows "sq_ok q' \<and> SignalValid (si_signo info) \<and> pending_q q' = (if r then pending_q q @ [info] else pending_q q) \<and>
    (\<not> r \<longrightarrow> q' = q \<and> (if si_signo info < kNumStandardSignals then si_signo info \<in> si_signo ` set (pending_q q)
      else kMaxQueuedRT \<le> length (pending_q q))) \<and>
    (r \<and> si_signo info < kNumStandardSignals \<longrightarrow> si_signo info \<notin> si_signo ` set (pending_q q))"
proof -
  let ?s = "si_signo info"
  have v: "SignalValid ?s" using assms(2) by (auto simp: sq_Enqueue_def Let_def split: if_splits)
  have pend: "sq_is_sig_pending ?s q \<longleftrightarrow> ?s \<in> si_signo ` set (pending_q q)"
    using assms(1) v by (simp add: sq_is_sig_pending_def get_pending_def mask_bits sq_ok_def)
  show ?thesis
  proof (cases r)
    case False
    then have "q' = q" using assms(2) by (auto simp: sq_Enqueue_def Let_def split: if_splits)
    then show ?thesis using assms v False pend by (auto simp: sq_Enqueue_def Let_def split: if_splits)
  next
    case True
    then have q': "q' = set_sig_pending ?s (q\<lparr>pending_q := pending_q q @ [info]\<rparr>)"
      and g: "?s < kNumStandardSignals \<longrightarrow> ?s \<notin> si_signo ` set (pending_q q)"
        "\<not> ?s < kNumStandardSignals \<longrightarrow> length (pending_q q) < kMaxQueuedRT"
      using assms(2) pend by (auto simp: sq_Enqueue_def Let_def split: if_splits)
    have b: "bit (pending q') (nat (s - 1)) \<longleftrightarrow> s \<in> si_signo ` set (pending_q q')" if "SignalValid s" for s
    proof -
      have "bit (pending q) (nat (s - 1)) \<longleftrightarrow> s \<in> si_signo ` set (pending_q q)" using assms(1) that by (simp add: sq_ok_def)
      moreover have "nat (s - 1) < 64" "nat (s - 1) = nat (?s - 1) \<longleftrightarrow> s = ?s"
        using that v by (auto simp: SignalValid_def kNumSignals_def)
      ultimately show ?thesis by (auto simp: q' set_sig_pending_def bit_simps bit_SignalMask)
    qed
    have "sq_ok q'" using assms(1) v b g rt_count_le [of "pending_q q"] unfolding sq_ok_def
      by (auto simp: q' set_sig_pending_def set_std_nums)
    then show ?thesis using True g v by (simp add: q' set_sig_pending_def)
  qed
qed

subsection \<open>Removing a signal\<close>

lemma pop_loop_some:
  "pop_loop signo (Some s) cnt ps = (Some s, cnt + (if signo \<in> si_signo ` set ps then 1 else 0), ps)"
  by (induction ps) auto

lemma pop_loop_first:
  assumes "pop_loop signo None 0 ps = (r, c, ps')"
  shows "case r of None \<Rightarrow> signo \<notin> si_signo ` set ps
    | Some si \<Rightarrow> si_signo si = signo \<and> (\<exists>as bs. ps = as @ si # bs \<and> ps' = as @ bs \<and> signo \<notin> si_signo ` set as \<and>
        c = (if \<not> signo < kNumStandardSignals \<and> signo \<in> si_signo ` set bs then 2 else 1))"
  using assms
proof (induction ps arbitrary: ps')
  case (Cons p ps)
  show ?case
  proof (cases "si_signo p = signo")
    case True
    then have r: "r = Some p" "ps' = ps" "c = (if \<not> signo < kNumStandardSignals \<and> signo \<in> si_signo ` set ps then 2 else 1)"
      using Cons.prems by (auto simp: pop_loop_some split: if_splits)
    have "\<exists>as bs. p # ps = as @ p # bs \<and> ps' = as @ bs \<and> signo \<notin> si_signo ` set as \<and>
        c = (if \<not> signo < kNumStandardSignals \<and> signo \<in> si_signo ` set bs then 2 else 1)"
      by (rule exI [of _ "[]"], rule exI [of _ ps]) (simp add: r)
    then show ?thesis using True r(1) by simp
  next
    case False
    then obtain qs where q: "pop_loop signo None 0 ps = (r, c, qs)" "ps' = p # qs"
      using Cons.prems by (auto split: prod.splits)
    note I = Cons.IH [OF q(1)]
    show ?thesis
    proof (cases r)
      case None
      then show ?thesis using I False by auto
    next
      case (Some si)
      then obtain as bs where "si_signo si = signo" "ps = as @ si # bs" "qs = as @ bs" "signo \<notin> si_signo ` set as"
        "c = (if \<not> signo < kNumStandardSignals \<and> signo \<in> si_signo ` set bs then 2 else 1)" using I by auto
      then have "si_signo si = signo \<and> (\<exists>as bs. p # ps = as @ si # bs \<and> ps' = as @ bs \<and> signo \<notin> si_signo ` set as \<and>
        c = (if \<not> signo < kNumStandardSignals \<and> signo \<in> si_signo ` set bs then 2 else 1))"
        using False q(2) by (intro conjI exI [of _ "p # as"] exI [of _ bs]) auto
      then show ?thesis using Some by simp
    qed
  qed
qed simp

lemma ffsl_zero: "ffsl v = 0 \<longleftrightarrow> (\<forall>k < 64. \<not> bit v k)"
proof -
  have "ffsl v = 0 \<longleftrightarrow> List.find (bit v) [0..<64] = None" by (simp add: ffsl_def split: option.splits)
  then show ?thesis by (auto simp: find_None_iff)
qed

lemma ffsl_least:
  assumes "ffsl v = Suc k"
  shows "k < 64" "bit v k" "\<And>j. bit v j \<Longrightarrow> k \<le> j"
proof -
  have f: "List.find (bit v) [0..<64] = Some k" using assms by (auto simp: ffsl_def split: option.splits)
  then obtain i where i: "i < 64" "bit v ([0..<64] ! i)" "k = [0..<64] ! i" "\<forall>j<i. \<not> bit v ([0..<64] ! j)"
    by (auto simp: find_Some_iff)
  then have "k = i" by simp
  then show "k < 64" "bit v k" using i by auto
  show "k \<le> j" if "bit v j" for j
    using i(4) that \<open>k = i\<close> i(1) by (metis (no_types, lifting) add_0 leI nth_upt order_less_trans)
qed

text \<open>Which entries of the queue may be delivered under a mask.\<close>

definition deliverable :: "u64 \<Rightarrow> SignalQueue \<Rightarrow> siginfo list" where
  "deliverable blk q = filter (\<lambda>p. \<not> SignalInMask blk (si_signo p)) (pending_q q)"

lemma sq_Pop_none:
  assumes "sq_ok q"
  shows "ffsl (pending q AND NOT blk) = 0 \<longleftrightarrow> deliverable blk q = []"
proof -
  have "bit (pending q AND NOT blk) (nat (s - 1)) \<longleftrightarrow> s \<in> si_signo ` set (deliverable blk q)" if "SignalValid s" for s
    using assms that by (auto simp: sq_ok_def deliverable_def mask_bits bit_simps SignalValid_def kNumSignals_def)
  note B = this
  show ?thesis
  proof
    assume z: "ffsl (pending q AND NOT blk) = 0"
    have "p \<notin> set (deliverable blk q)" for p
    proof
      assume p: "p \<in> set (deliverable blk q)"
      then have v: "SignalValid (si_signo p)" using assms by (auto simp: sq_ok_def deliverable_def)
      then have "nat (si_signo p - 1) < 64" by (auto simp: SignalValid_def kNumSignals_def)
      then show False using z B [OF v] p unfolding ffsl_zero by blast
    qed
    then show "deliverable blk q = []" by (metis last_in_set)
  next
    assume d: "deliverable blk q = []"
    have "\<not> bit (pending q AND NOT blk) k" if "k < 64" for k
      using B [of "int k + 1"] that d by (simp add: SignalValid_def kNumSignals_def)
    then show "ffsl (pending q AND NOT blk) = 0" unfolding ffsl_zero by blast
  qed
qed

lemma sq_ok_remove:
  assumes "sq_ok q" "pending_q q = as @ si # bs" "si_signo si = s"
    "c \<longleftrightarrow> s \<notin> si_signo ` set (as @ bs)"
  shows "sq_ok ((if c then clear_sig_pending s else id) (q\<lparr>pending_q := as @ bs\<rparr>))" (is "sq_ok ?q")
proof -
  have v: "SignalValid s" using assms(1-3) by (auto simp: sq_ok_def)
  have P: "pending_q ?q = as @ bs" by (simp add: clear_sig_pending_def)
  have "bit (pending ?q) (nat (t - 1)) \<longleftrightarrow> t \<in> si_signo ` set (as @ bs)" if "SignalValid t" for t
  proof -
    have "bit (pending q) (nat (t - 1)) \<longleftrightarrow> t \<in> si_signo ` set (as @ si # bs)" using assms(1,2) that by (simp add: sq_ok_def)
    moreover have "nat (t - 1) < 64" "nat (t - 1) = nat (s - 1) \<longleftrightarrow> t = s"
      using that v by (auto simp: SignalValid_def kNumSignals_def)
    ultimately show ?thesis using assms(3,4) by (auto simp: clear_sig_pending_def bit_simps bit_SignalMask)
  qed
  moreover have "distinct (std_nums (as @ bs))"
  proof -
    have "distinct (std_nums (as @ si # bs))" using assms(1,2) by (simp add: sq_ok_def)
    then show ?thesis 
      by (cases "si_signo si < kNumStandardSignals") (auto simp: std_nums_def)
  qed
  moreover have "rt_count (as @ bs) \<le> kMaxQueuedRT"
    using assms(1,2) rt_count_remove [of as bs si] by (simp add: sq_ok_def)
  moreover have "\<forall>p \<in> set (as @ bs). SignalValid (si_signo p)" using assms(1,2) by (simp add: sq_ok_def)
  ultimately show ?thesis unfolding sq_ok_def P by blast
qed

lemma sq_Pop_spec:
  assumes "sq_ok q" "sq_Pop blk True q = (r, q')"
  shows "sq_ok q' \<and> (case r of None \<Rightarrow> deliverable blk q = [] \<and> q' = q
     | Some si \<Rightarrow> (\<exists>as bs. pending_q q = as @ si # bs \<and> pending_q q' = as @ bs \<and> si_signo si \<notin> si_signo ` set as) \<and>
         si \<in> set (deliverable blk q) \<and> (\<forall>p \<in> set (deliverable blk q). si_signo si \<le> si_signo p))"
proof (cases "ffsl (pending q AND NOT blk)")
  case 0
  then have "r = None" "q' = q" using assms(2) by (auto simp: sq_Pop_def)
  then show ?thesis using assms(1) sq_Pop_none [OF assms(1), of blk] 0 by simp
next
  case (Suc k)
  let ?s = "int (Suc k)"
  note F = ffsl_least [OF Suc]
  have v: "SignalValid ?s" using F(1) by (simp add: SignalValid_def kNumSignals_def)
  have b: "bit (pending q) k" "\<not> bit blk k" using F(1,2) by (auto simp: bit_simps)
  then have s_in: "?s \<in> si_signo ` set (pending_q q)" using assms(1) v by (auto simp: sq_ok_def)
  obtain r0 c ps where p: "pop_loop ?s None 0 (pending_q q) = (r0, c, ps)" by (cases "pop_loop ?s None 0 (pending_q q)")
  from pop_loop_first [OF p] s_in obtain si as bs where
    r0: "r0 = Some si" and si: "si_signo si = ?s" and q: "pending_q q = as @ si # bs" and ps: "ps = as @ bs"
    and as: "?s \<notin> si_signo ` set as" and c: "c = (if \<not> ?s < kNumStandardSignals \<and> ?s \<in> si_signo ` set bs then 2 else 1)"
    by (auto split: option.splits)
  have "?s < kNumStandardSignals \<Longrightarrow> ?s \<notin> si_signo ` set bs"
  proof -
    assume std: "?s < kNumStandardSignals"
    have "distinct (std_nums (as @ si # bs))" using assms(1) q by (simp add: sq_ok_def)
    then show "?s \<notin> si_signo ` set bs" using std si by (auto simp: std_nums_def)
  qed
  then have cc: "c = 1 \<longleftrightarrow> ?s \<notin> si_signo ` set (as @ bs)" using c as by auto
  have res: "r = Some si" "q' = (if c = 1 then clear_sig_pending ?s else id) (q\<lparr>pending_q := as @ bs\<rparr>)"
    using assms(2) Suc p r0 ps by (auto simp: sq_Pop_def Let_def split: if_splits)
  have "sq_ok q'" unfolding res(2) by (rule sq_ok_remove [OF assms(1) q si]) (rule cc)
  moreover have "pending_q q' = as @ bs" by (simp add: res(2) clear_sig_pending_def)
  moreover have "si \<in> set (deliverable blk q)" using q si v b by (simp add: deliverable_def mask_bits)
  moreover have "?s \<le> si_signo t" if "t \<in> set (deliverable blk q)" for t
  proof -
    have tv: "SignalValid (si_signo t)" "t \<in> set (pending_q q)" using that assms(1) by (auto simp: deliverable_def sq_ok_def)
    then have "bit (pending q AND NOT blk) (nat (si_signo t - 1))"
      using that assms(1) by (auto simp: deliverable_def sq_ok_def mask_bits bit_simps SignalValid_def kNumSignals_def)
    from F(3) [OF this] show ?thesis using tv(1) by (auto simp: SignalValid_def)
  qed
  ultimately show ?thesis using res(1) q as si by auto
qed

subsection \<open>Properties\<close>

datatype sq_op = OpEnqueue siginfo | OpPop u64 bool | OpExec

fun sq_step :: "sq_op \<Rightarrow> SignalQueue \<Rightarrow> SignalQueue option" where
  "sq_step (OpEnqueue info) q = map_option snd (sq_Enqueue info q)"
| "sq_step (OpPop blk rm) q = Some (snd (sq_Pop blk rm q))"
| "sq_step OpExec q = Some (sq_OnExec q)"

fun sq_run :: "sq_op list \<Rightarrow> SignalQueue \<Rightarrow> SignalQueue option" where
  "sq_run [] q = Some q"
| "sq_run (x # xs) q = (case sq_step x q of None \<Rightarrow> None | Some q' \<Rightarrow> sq_run xs q')"

lemma sq_step_ok:
  assumes "sq_ok q" "sq_step x q = Some q'"
  shows "sq_ok q'"
proof (cases x)
  case (OpEnqueue info)
  then obtain r where "sq_Enqueue info q = Some (r, q')" using assms(2) by auto
  from sq_Enqueue_spec [OF assms(1) this] show ?thesis by blast
next
  case (OpPop blk rm)
  show ?thesis
  proof (cases rm)
    case True
    then have "sq_Pop blk True q = (fst (sq_Pop blk True q), q')" using assms(2) OpPop by auto
    from sq_Pop_spec [OF assms(1) this] show ?thesis by blast
  next
    case False
    then have "q' = q" using assms(2) OpPop by (auto simp: sq_Pop_def Let_def)
    then show ?thesis using assms(1) by simp
  qed
next
  case OpExec
  then show ?thesis using assms(2) sq_OnExec_ok by auto
qed

lemma sq_run_ok: "sq_ok q \<Longrightarrow> sq_run xs q = Some q' \<Longrightarrow> sq_ok q'"
  by (induction xs arbitrary: q) (auto split: option.splits dest: sq_step_ok)

lemma sq_ok_length:
  assumes "sq_ok q"
  shows "length (pending_q q) \<le> kMaxQueuedRT + 31"
proof -
  have "length (pending_q q) = length (std_nums (pending_q q)) + rt_count (pending_q q)"
    unfolding std_nums_def rt_count_def length_map by (rule sum_length_filter_compl [symmetric])
  moreover have "set (std_nums (pending_q q)) \<subseteq> {1..31}"
    using assms by (auto simp: set_std_nums sq_ok_def SignalValid_def kNumStandardSignals_def)
  then have "card (set (std_nums (pending_q q))) \<le> card {1..31::int}" by (intro card_mono) auto
  then have "length (std_nums (pending_q q)) \<le> 31" using assms by (simp add: sq_ok_def distinct_card)
  ultimately show ?thesis using assms by (simp add: sq_ok_def)
qed



text \<open>Taking a signal from a queue returns the oldest entry of the lowest-numbered signal that is not
  blocked, and removes only that entry; it returns nothing exactly when every queued signal is blocked.\<close>

theorem signal_pop_order:
  assumes "sq_ok q" "sq_Pop blk True q = (r, q')"
  shows "sq_ok q' \<and> (case r of None \<Rightarrow> (\<forall>p \<in> set (pending_q q). SignalInMask blk (si_signo p)) \<and> q' = q
     | Some si \<Rightarrow> \<not> SignalInMask blk (si_signo si) \<and>
         (\<exists>as bs. pending_q q = as @ si # bs \<and> pending_q q' = as @ bs \<and> (\<forall>p \<in> set as. si_signo p \<noteq> si_signo si)) \<and>
         (\<forall>p \<in> set (pending_q q). SignalInMask blk (si_signo p) \<or> si_signo si \<le> si_signo p))"
proof (cases r)
  case None
  then show ?thesis using sq_Pop_spec [OF assms] assms(1) by (simp add: deliverable_def filter_empty_conv)
next
  case (Some si)
  note S = sq_Pop_spec [OF assms, unfolded Some option.case]
  then obtain as bs where "pending_q q = as @ si # bs \<and> pending_q q' = as @ bs \<and> (\<forall>p \<in> set as. si_signo p \<noteq> si_signo si)"
    by (metis image_eqI)
  moreover have "\<not> SignalInMask blk (si_signo si)"
    "\<forall>p \<in> set (pending_q q). SignalInMask blk (si_signo p) \<or> si_signo si \<le> si_signo p"
    using S by (auto simp: deliverable_def)
  ultimately show ?thesis using S unfolding Some option.case by blast
qed

theorem signal_pop_order_witness:
  "\<exists>si q'. sq_Pop 0 True \<lparr>pending_q = [\<lparr>si_signo = 10, si_code = 0, si_pid = 1, si_status = 0\<rparr>], pending = 512\<rparr> = (Some si, q') \<and>
     si_signo si = 10 \<and> pending_q q' = []"
proof -
  let ?i = "\<lparr>si_signo = 10, si_code = 0, si_pid = 1, si_status = 0\<rparr>"
  let ?q = "\<lparr>pending_q = [?i], pending = 512\<rparr>"
  have "sq_run [OpEnqueue ?i] SignalQueue_new = Some ?q"
    by (simp add: sq_Enqueue_def Let_def SignalValid_def kNumSignals_def kNumStandardSignals_def SignalQueue_new_def
      set_sig_pending_def SignalMask_def sq_is_sig_pending_def SignalInMask_def get_pending_def)
  then have ok: "sq_ok ?q" using sq_run_ok sq_new_ok by blast
  obtain r q' where r: "sq_Pop 0 True ?q = (r, q')" by (cases "sq_Pop 0 True ?q")
  from signal_pop_order [OF ok r] show ?thesis
    using r by (auto simp: SignalInMask_def Cons_eq_append_conv split: option.splits)
qed

end
