(* ===== verification/Signal.thy ===== *)
theory Signal
  imports SignalQueue
begin

text \<open>
  Signal handling of threads and processes: \<open>ThreadSignalHandler\<close> of
  \<^verbatim>\<open>src/junction/kernel/signal.h\<close> and \<^verbatim>\<open>src/junction/kernel/signal.cc\<close>, and the
  signal operations of \<open>Process\<close> in \<^verbatim>\<open>src/junction/kernel/proc.h\<close>.

  A process has a map from thread identifiers to handlers, the shared queue and the table of actions.  The
  flag \<open>interrupted\<close> is the interrupt state the scheduler keeps for a thread: \<open>SendIpi\<close> sets it and
  \<open>ResetInterruptState\<close> clears it.  Threads that wait for a stop or a continuation are woken through queues
  outside this model.
\<close>

record stack_t =
  ss_sp :: uintptr
  ss_flags :: u32
  ss_size :: u64

definition SS_DISABLE :: u32 where "SS_DISABLE = 2"
definition kSigStackAutoDisarm :: u32 where "kSigStackAutoDisarm = push_bit 31 1"

definition IsOnStack :: "u64 \<Rightarrow> u64 \<Rightarrow> u64 \<Rightarrow> bool" where
  "IsOnStack cur_rsp high bottom \<longleftrightarrow> cur_rsp > high \<and> cur_rsp \<le> bottom"

definition IsOnSigStack :: "u64 \<Rightarrow> stack_t \<Rightarrow> bool" where
  "IsOnSigStack cur_rsp ss = IsOnStack cur_rsp (ss_sp ss) (ss_sp ss + ss_size ss)"

record DeliveredSignal =
  ds_act :: k_sigaction
  ds_info :: siginfo
  ds_ss :: stack_t
  ds_prev_blocked :: u64

definition FixRspAltstack :: "DeliveredSignal \<Rightarrow> u64 \<Rightarrow> u64" where
  "FixRspAltstack sig rsp =
     (if \<not> wants_altstack (ds_act sig) then rsp
      else if ss_flags (ds_ss sig) AND SS_DISABLE \<noteq> 0 then rsp
      else if IsOnSigStack rsp (ds_ss sig) then rsp
      else ss_sp (ds_ss sig) + ss_size (ds_ss sig))"

record ThreadSignalHandler =
  sig_q :: SignalQueue
  blocked :: u64
  saved_blocked :: "u64 option"
  sigaltstack :: stack_t
  notified :: bool
  interrupted :: bool

definition ThreadSignalHandler_new :: "u64 \<Rightarrow> ThreadSignalHandler" where
  "ThreadSignalHandler_new blk =
     \<lparr>sig_q = SignalQueue_new, blocked = blk, saved_blocked = None,
      sigaltstack = \<lparr>ss_sp = 0, ss_flags = SS_DISABLE, ss_size = 0\<rparr>, notified = False, interrupted = False\<rparr>"

definition get_any_pending :: "SignalQueue \<Rightarrow> ThreadSignalHandler \<Rightarrow> u64" where
  "get_any_pending sh h = get_pending 0 (sig_q h) OR get_pending 0 sh"

definition any_sig_ready :: "SignalQueue \<Rightarrow> ThreadSignalHandler \<Rightarrow> bool" where
  "any_sig_ready sh h \<longleftrightarrow> get_any_pending sh h AND NOT (blocked h) \<noteq> 0"

definition is_sig_blocked :: "int \<Rightarrow> ThreadSignalHandler \<Rightarrow> bool" where
  "is_sig_blocked signo h = SignalInMask (blocked h) signo"

definition has_altstack :: "ThreadSignalHandler \<Rightarrow> bool" where
  "has_altstack h \<longleftrightarrow> ss_flags (sigaltstack h) AND SS_DISABLE = 0"

definition get_blocked_pending :: "SignalQueue \<Rightarrow> ThreadSignalHandler \<Rightarrow> u64" where
  "get_blocked_pending sh h = get_any_pending sh h AND blocked h"

definition handler_OnExec :: "ThreadSignalHandler \<Rightarrow> SignalQueue \<Rightarrow> ThreadSignalHandler \<times> SignalQueue" where
  "handler_OnExec h sh =
     (h\<lparr>sig_q := sq_OnExec (sig_q h), sigaltstack := \<lparr>ss_sp = 0, ss_flags = SS_DISABLE, ss_size = 0\<rparr>\<rparr>, sq_OnExec sh)"

definition DisableAltStack :: "ThreadSignalHandler \<Rightarrow> ThreadSignalHandler" where
  "DisableAltStack h = h\<lparr>sigaltstack := (sigaltstack h)\<lparr>ss_flags := SS_DISABLE\<rparr>\<rparr>"

definition SigAltStack :: "stack_t option \<Rightarrow> ThreadSignalHandler \<Rightarrow> stack_t \<times> ThreadSignalHandler" where
  "SigAltStack ss h = (sigaltstack h, case ss of None \<Rightarrow> h | Some s \<Rightarrow> h\<lparr>sigaltstack := s\<rparr>)"

definition SetInterruptFlagIfNeeded :: "SignalQueue \<Rightarrow> ThreadSignalHandler \<Rightarrow> ThreadSignalHandler" where
  "SetInterruptFlagIfNeeded sh h = (if any_sig_ready sh h then h\<lparr>notified := True, interrupted := True\<rparr> else h)"

definition ReplaceMask :: "SignalQueue \<Rightarrow> u64 \<Rightarrow> ThreadSignalHandler \<Rightarrow> ThreadSignalHandler" where
  "ReplaceMask sh new_mask h =
     (let m = new_mask AND NOT kSignalKernelOnlyMask in
      if m = blocked h then h else SetInterruptFlagIfNeeded sh (h\<lparr>blocked := m\<rparr>))"

definition ReplaceAndSaveBlocked :: "SignalQueue \<Rightarrow> u64 \<Rightarrow> ThreadSignalHandler \<Rightarrow> ThreadSignalHandler" where
  "ReplaceAndSaveBlocked sh msk h =
     (if blocked h = msk then h else ReplaceMask sh msk (h\<lparr>saved_blocked := Some (blocked h)\<rparr>))"

definition RestoreBlockedLocked :: "SignalQueue \<Rightarrow> u64 \<Rightarrow> ThreadSignalHandler \<Rightarrow> ThreadSignalHandler" where
  "RestoreBlockedLocked sh saved h = SetInterruptFlagIfNeeded sh (h\<lparr>blocked := saved, saved_blocked := None\<rparr>)"

definition RestoreBlocked :: "SignalQueue \<Rightarrow> ThreadSignalHandler \<Rightarrow> ThreadSignalHandler" where
  "RestoreBlocked sh h =
     (case saved_blocked h of
        None \<Rightarrow> h
      | Some m \<Rightarrow>
          if interrupted h then h
          else if m \<noteq> blocked h then
            (SetInterruptFlagIfNeeded sh (h\<lparr>blocked := m\<rparr>))\<lparr>saved_blocked := None\<rparr>
          else h\<lparr>saved_blocked := None\<rparr>)"

definition SIG_BLOCK :: int where "SIG_BLOCK = 0"
definition SIG_UNBLOCK :: int where "SIG_UNBLOCK = 1"
definition SIG_SETMASK :: int where "SIG_SETMASK = 2"

definition SigProcMask :: "SignalQueue \<Rightarrow> int \<Rightarrow> u64 option \<Rightarrow> ThreadSignalHandler \<Rightarrow> unit Status \<times> u64 \<times> ThreadSignalHandler" where
  "SigProcMask sh how nset h =
     (case nset of
        None \<Rightarrow> (Inr (), blocked h, h)
      | Some n \<Rightarrow>
          if how = SIG_BLOCK then (Inr (), blocked h, ReplaceMask sh (blocked h OR n) h)
          else if how = SIG_UNBLOCK then (Inr (), blocked h, ReplaceMask sh (blocked h AND NOT n) h)
          else if how = SIG_SETMASK then (Inr (), blocked h, ReplaceMask sh n h)
          else (Inl EINVAL, blocked h, h))"

definition TestAndSetNotify :: "ThreadSignalHandler \<Rightarrow> bool \<times> ThreadSignalHandler" where
  "TestAndSetNotify h = (if notified h then (False, h) else (True, h\<lparr>notified := True\<rparr>))"

definition SharedSignalNotifyCheck :: "int \<Rightarrow> ThreadSignalHandler \<Rightarrow> bool \<times> ThreadSignalHandler" where
  "SharedSignalNotifyCheck signo h = (if is_sig_blocked signo h then (False, h) else TestAndSetNotify h)"

definition EnqueueSignal :: "siginfo \<Rightarrow> ThreadSignalHandler \<Rightarrow> (bool \<times> ThreadSignalHandler) option" where
  "EnqueueSignal info h =
     (case sq_Enqueue info (sig_q h) of
        None \<Rightarrow> None
      | Some (False, q) \<Rightarrow> Some (False, h)
      | Some (True, q) \<Rightarrow>
          Some (if is_sig_blocked (si_signo info) h then (False, h\<lparr>sig_q := q\<rparr>)
                else TestAndSetNotify (h\<lparr>sig_q := q\<rparr>)))"

definition ResetInterruptState :: "ThreadSignalHandler \<Rightarrow> ThreadSignalHandler" where
  "ResetInterruptState h = h\<lparr>notified := False, interrupted := False\<rparr>"

definition GetSigframeRestoreMask :: "ThreadSignalHandler \<Rightarrow> u64 \<times> ThreadSignalHandler" where
  "GetSigframeRestoreMask h =
     (case saved_blocked h of Some saved \<Rightarrow> (saved, h\<lparr>saved_blocked := None\<rparr>) | None \<Rightarrow> (blocked h, h))"

subsection \<open>Processes\<close>

record SigProcess =
  threads :: "int \<Rightarrow> ThreadSignalHandler option"
  shared_q :: SignalQueue
  signal_tbl :: SignalTable
  stopped_gen :: nat
  stop_cnt :: nat

definition is_stopped :: "SigProcess \<Rightarrow> bool" where
  "is_stopped P \<longleftrightarrow> stopped_gen P mod 2 = 1"

definition th_map :: "int \<Rightarrow> (ThreadSignalHandler \<Rightarrow> ThreadSignalHandler) \<Rightarrow> SigProcess \<Rightarrow> SigProcess" where
  "th_map tid f P = P\<lparr>threads := (threads P)(tid := map_option f (threads P tid))\<rparr>"

definition SendIpi :: "ThreadSignalHandler \<Rightarrow> ThreadSignalHandler" where
  "SendIpi h = h\<lparr>interrupted := True\<rparr>"

definition notify_thread :: "int \<Rightarrow> ThreadSignalHandler \<Rightarrow> ThreadSignalHandler" where
  "notify_thread signo h = (case SharedSignalNotifyCheck signo h of (b, h') \<Rightarrow> if b then SendIpi h' else h')"

definition SignalAllThreads :: "int \<Rightarrow> SigProcess \<Rightarrow> SigProcess" where
  "SignalAllThreads signo P = P\<lparr>threads := \<lambda>tid. map_option (notify_thread signo) (threads P tid)\<rparr>"

definition JobControlStop :: "bool \<Rightarrow> SigProcess \<Rightarrow> SigProcess" where
  "JobControlStop user_sig P =
     (if is_stopped P then P
      else
        (let P1 = SignalAllThreads SIGSTOP (P\<lparr>stopped_gen := stopped_gen P + 1\<rparr>)
         in if user_sig then P1\<lparr>stop_cnt := stop_cnt P1 + 1\<rparr> else P1))"

text \<open>\<open>JobControlContinue\<close> also says whether the parent is notified.\<close>

definition JobControlContinue :: "SigProcess \<Rightarrow> bool \<times> SigProcess" where
  "JobControlContinue P = (if \<not> is_stopped P then (False, P) else (True, P\<lparr>stopped_gen := stopped_gen P + 1\<rparr>))"

definition SignalLocked :: "siginfo \<Rightarrow> SigProcess \<Rightarrow> SigProcess option" where
  "SignalLocked si P =
     (case sq_Enqueue si (shared_q P) of
        None \<Rightarrow> None
      | Some (needs_ipi, q) \<Rightarrow>
          (let P1 = P\<lparr>shared_q := q\<rparr>
           in Some (if si_signo si = SIGKILL then SignalAllThreads SIGKILL (P1\<lparr>stopped_gen := 0\<rparr>)
                    else if needs_ipi then SignalAllThreads (si_signo si) P1 else P1)))"

definition Process_Signal :: "siginfo \<Rightarrow> SigProcess \<Rightarrow> SigProcess option" where
  "Process_Signal si P =
     (if si_signo si = SIGCONT then Some (snd (JobControlContinue P)) else SignalLocked si P)"

definition SignalThread :: "int \<Rightarrow> siginfo \<Rightarrow> SigProcess \<Rightarrow> (unit Status \<times> SigProcess) option" where
  "SignalThread tid si P =
     (if si_signo si = SIGCONT then Some (Inr (), snd (JobControlContinue P))
      else
        (case threads P tid of
           None \<Rightarrow> Some (Inl ESRCH, P)
         | Some h \<Rightarrow>
             (case EnqueueSignal si h of
                None \<Rightarrow> None
              | Some (b, h') \<Rightarrow> Some (Inr (), th_map tid (\<lambda>_. if b then SendIpi h' else h') P))))"

definition GetAction :: "uintptr \<Rightarrow> int \<Rightarrow> SigProcess \<Rightarrow> k_sigaction option \<times> SigProcess" where
  "GetAction kill_handler sig P =
     (case get_action sig True (signal_tbl P) of
        (act, tbl) \<Rightarrow>
          (let P1 = P\<lparr>signal_tbl := tbl\<rparr>
           in case ParseAction act sig of
                kNormal \<Rightarrow> (Some act, P1)
              | kIgnore \<Rightarrow> (None, P1)
              | kStop \<Rightarrow> (None, JobControlStop True P1)
              | kTerminate \<Rightarrow> (Some (SigKillAction kill_handler), P1)
              | kCoredump \<Rightarrow> (Some (SigKillAction kill_handler), P1)))"

definition PopSigInfo :: "int \<Rightarrow> u64 \<Rightarrow> bool \<Rightarrow> SigProcess \<Rightarrow> siginfo option \<times> SigProcess" where
  "PopSigInfo tid blk reset_flag P =
     (case threads P tid of
        None \<Rightarrow> (None, P)
      | Some h \<Rightarrow>
          (case sq_Pop blk True (sig_q h) of
             (Some si, q) \<Rightarrow> (Some si, th_map tid (\<lambda>h. h\<lparr>sig_q := q\<rparr>) P)
           | (None, q) \<Rightarrow>
               if is_stopped P then (None, P)
               else
                 (case sq_Pop blk True (shared_q P) of
                    (Some si, q) \<Rightarrow> (Some si, P\<lparr>shared_q := q\<rparr>)
                  | (None, q) \<Rightarrow>
                      (None,
                       if reset_flag then
                         th_map tid (\<lambda>h. case saved_blocked h of
                             None \<Rightarrow> ResetInterruptState h
                           | Some m \<Rightarrow> RestoreBlockedLocked (shared_q P) m (ResetInterruptState h)) P
                       else P))))"

text \<open>The number of signals queued for a thread bounds the loop of \<open>GetNextSignal\<close>.\<close>

definition queued :: "int \<Rightarrow> SigProcess \<Rightarrow> nat" where
  "queued tid P = (case threads P tid of None \<Rightarrow> 0 | Some h \<Rightarrow> length (pending_q (sig_q h))) + length (pending_q (shared_q P))"

lemma pop_loop_length:
  "pop_loop signo si cnt ps = (r, c, ps') \<Longrightarrow>
     length ps' + (if si = None \<and> r \<noteq> None then 1 else 0) = length ps"
  by (induction signo si cnt ps arbitrary: ps' rule: pop_loop.induct) (auto simp: pop_loop_some split: if_splits option.splits prod.splits)

lemma sq_Pop_length:
  "sq_Pop blk True q = (Some si, q') \<Longrightarrow> length (pending_q q') < length (pending_q q)"
  by (fastforce simp: sq_Pop_def Let_def clear_sig_pending_def split: if_splits option.splits prod.splits dest: pop_loop_length)

lemma PopSigInfo_queued:
  "PopSigInfo tid blk b P = (Some si, P') \<Longrightarrow> queued tid P' < queued tid P"
  by (auto simp: PopSigInfo_def queued_def th_map_def split: option.splits prod.splits if_splits intro: sq_Pop_length)
    (blast intro: sq_Pop_length)

lemma notify_thread_fields [simp]:
  "sig_q (notify_thread s h) = sig_q h" "blocked (notify_thread s h) = blocked h" "saved_blocked (notify_thread s h) = saved_blocked h"
  by (simp_all add: notify_thread_def SharedSignalNotifyCheck_def TestAndSetNotify_def SendIpi_def)

lemma GetAction_queued: "queued tid (snd (GetAction k s P)) = queued tid P"
  by (auto simp: GetAction_def JobControlStop_def SignalAllThreads_def queued_def Let_def
      split: prod.splits SignalAction.splits option.splits)

function next_loop :: "uintptr \<Rightarrow> int \<Rightarrow> SigProcess \<Rightarrow> (siginfo \<times> k_sigaction) option \<times> SigProcess" where
  "next_loop kill_handler tid P =
     (case threads P tid of
        None \<Rightarrow> (None, P)
      | Some h \<Rightarrow>
          (case PopSigInfo tid (blocked h) True P of
             (None, P1) \<Rightarrow> (None, P1)
           | (Some info, P1) \<Rightarrow>
               (case GetAction kill_handler (si_signo info) P1 of
                  (None, P2) \<Rightarrow> next_loop kill_handler tid P2
                | (Some act, P2) \<Rightarrow> (Some (info, act), P2))))"
  by pat_completeness auto
termination
proof (relation "measure (\<lambda>(k, tid, P). queued tid P)", goal_cases)
  case (2 k tid P h x P1 info y P2)
  then have "PopSigInfo tid (blocked h) True P = (Some info, P1)" "P2 = snd (GetAction k (si_signo info) P1)"
    by (auto, metis snd_conv)
  then show ?case using PopSigInfo_queued GetAction_queued by simp
qed simp

declare next_loop.simps [simp del]

definition GetNextSignal :: "uintptr \<Rightarrow> int \<Rightarrow> SigProcess \<Rightarrow> DeliveredSignal option \<times> SigProcess" where
  "GetNextSignal kill_handler tid P =
     (case next_loop kill_handler tid P of
        (None, P1) \<Rightarrow> (None, P1)
      | (Some (info, act), P1) \<Rightarrow>
          (case threads P1 tid of
             None \<Rightarrow> (None, P1)
           | Some h \<Rightarrow>
               (let ss = sigaltstack h;
                    h1 = (if ss_flags ss AND kSigStackAutoDisarm \<noteq> 0 then DisableAltStack h else h);
                    to_block = sa_mask act OR (if is_nodefer act then 0 else SignalMask (si_signo info))
                in case GetSigframeRestoreMask h1 of
                     (prev, h2) \<Rightarrow>
                       (Some \<lparr>ds_act = act, ds_info = info, ds_ss = ss, ds_prev_blocked = prev\<rparr>,
                        th_map tid (\<lambda>_. ReplaceMask (shared_q P1) to_block h2) P1))))"

subsection \<open>Delivery and system calls\<close>

datatype restart_action = SetRaxEINTR | ResetToSyscallStart

definition CheckRestartSysPostHandler :: "int \<Rightarrow> DeliveredSignal \<Rightarrow> restart_action" where
  "CheckRestartSysPostHandler rax sig =
     (if rax = - ERESTARTNOHAND then SetRaxEINTR
      else if is_restartsys (ds_act sig) then ResetToSyscallStart else SetRaxEINTR)"

lemma GetNextSignal_queued:
  assumes "GetNextSignal k tid P = (Some sig, P')"
  shows "queued tid P' < queued tid P"
proof -
  have L: "fst (next_loop k tid P) \<noteq> None \<Longrightarrow> queued tid (snd (next_loop k tid P)) < queued tid P" for P
  proof (induction k tid P rule: next_loop.induct)
    case (1 k tid P)
    show ?case
    proof (cases "threads P tid")
      case None
      then show ?thesis using 1(2) by (subst (asm) next_loop.simps) simp
    next
      case (Some h)
      obtain r P1 where p: "PopSigInfo tid (blocked h) True P = (r, P1)" by (cases "PopSigInfo tid (blocked h) True P")
      show ?thesis
      proof (cases r)
        case None
        then show ?thesis using 1(2) Some p by (subst (asm) next_loop.simps) simp
      next
        case (Some info)
        obtain a P2 where a: "GetAction k (si_signo info) P1 = (a, P2)" by (cases "GetAction k (si_signo info) P1")
        have q: "queued tid P2 < queued tid P"
          using PopSigInfo_queued [of tid "blocked h" True P info P1] GetAction_queued [of tid k "si_signo info" P1] p Some a by simp
        have e: "next_loop k tid P = (case a of None \<Rightarrow> next_loop k tid P2 | Some act \<Rightarrow> (Some (info, act), P2))"
          using \<open>threads P tid = Some h\<close> p Some a by (subst next_loop.simps) (simp split: option.splits)
        show ?thesis
        proof (cases a)
          case None
          have "fst (next_loop k tid P2) \<noteq> None" using 1(2) e None by simp
          from 1(1) [OF \<open>threads P tid = Some h\<close> p [symmetric] Some a [symmetric] None this] show ?thesis using e None q by simp
        next
          case (Some act)
          then show ?thesis using e q by simp
        qed
      qed
    qed
  qed
  obtain x P1 where n: "next_loop k tid P = (Some x, P1)"
    using assms by (auto simp: GetNextSignal_def split: option.splits prod.splits)
  have "queued tid P' = queued tid P1"
    using assms n by (auto simp: GetNextSignal_def queued_def th_map_def Let_def DisableAltStack_def ReplaceMask_def
        SetInterruptFlagIfNeeded_def GetSigframeRestoreMask_def split: option.splits prod.splits if_splits)
  then show ?thesis using L [of P] n by simp
qed

text \<open>\<open>ApplyAllSignals\<close>: the signals whose frames are pushed, in this order.\<close>

function ApplyAllSignals :: "uintptr \<Rightarrow> int \<Rightarrow> SigProcess \<Rightarrow> DeliveredSignal list \<times> SigProcess" where
  "ApplyAllSignals k tid P =
     (case GetNextSignal k tid P of
        (None, P1) \<Rightarrow> ([], P1)
      | (Some sig, P1) \<Rightarrow> (case ApplyAllSignals k tid P1 of (sigs, P2) \<Rightarrow> (sig # sigs, P2)))"
  by pat_completeness auto
termination
  by (relation "measure (\<lambda>(k, tid, P). queued tid P)") (auto dest: GetNextSignal_queued [OF sym])

declare ApplyAllSignals.simps [simp del]

text \<open>One round of \<open>DeliverSignals\<close>: return to the caller, restart the system call, park until the process
  continues (after which the round is repeated), or run handlers.\<close>

datatype deliver_outcome = DeliverReturn | DeliverRestart | DeliverPark | DeliverHandlers "restart_action option" "DeliveredSignal list"

definition DeliverSignals :: "uintptr \<Rightarrow> int \<Rightarrow> int \<Rightarrow> SigProcess \<Rightarrow> deliver_outcome \<times> SigProcess" where
  "DeliverSignals k tid rax P =
     (case GetNextSignal k tid P of
        (None, P1) \<Rightarrow>
          if is_stopped P1 then (DeliverPark, th_map tid (\<lambda>h. h\<lparr>interrupted := True\<rparr>) P1)
          else if \<not> IsRestartSys rax then (DeliverReturn, P1)
          else (DeliverRestart, P1)
      | (Some sig, P1) \<Rightarrow>
          (case ApplyAllSignals k tid P1 of
             (sigs, P2) \<Rightarrow>
               (DeliverHandlers (if IsRestartSys rax then Some (CheckRestartSysPostHandler rax sig) else None) (sig # sigs), P2)))"

text \<open>System calls.  A null pointer is \<open>None\<close>; a signal number outside the valid range indexes the table
  out of bounds.\<close>

definition usys_rt_sigaction ::
  "int \<Rightarrow> k_sigaction option \<Rightarrow> nat \<Rightarrow> SigProcess \<Rightarrow> (int \<times> k_sigaction option \<times> SigProcess) option" where
  "usys_rt_sigaction sig iact sigsetsize P =
     (if sigsetsize \<noteq> 8 then Some (- EINVAL, None, P)
      else if \<not> SignalValid sig then None
      else if SignalInMask kSignalKernelOnlyMask sig then Some (- EINVAL, None, P)
      else
        (case iact of
           Some act \<Rightarrow> (case exchange_action sig act (signal_tbl P) of (sa, tbl) \<Rightarrow> Some (0, Some sa, P\<lparr>signal_tbl := tbl\<rparr>))
         | None \<Rightarrow> Some (0, Some (fst (get_action sig False (signal_tbl P))), P)))"

definition usys_rt_sigprocmask :: "int \<Rightarrow> int \<Rightarrow> u64 option \<Rightarrow> nat \<Rightarrow> SigProcess \<Rightarrow> int \<times> u64 \<times> SigProcess" where
  "usys_rt_sigprocmask tid how nset sigsetsize P =
     (if sigsetsize \<noteq> 8 then (- EINVAL, 0, P)
      else
        (case threads P tid of
           None \<Rightarrow> (0, 0, P)
         | Some h \<Rightarrow>
             (case SigProcMask (shared_q P) how nset h of
                (Inl e, oset, h') \<Rightarrow> (MakeCError e, oset, th_map tid (\<lambda>_. h') P)
              | (Inr _, oset, h') \<Rightarrow> (0, oset, th_map tid (\<lambda>_. h') P))))"

definition usys_rt_sigpending :: "int \<Rightarrow> nat \<Rightarrow> SigProcess \<Rightarrow> int \<times> u64" where
  "usys_rt_sigpending tid sigsetsize P =
     (if sigsetsize \<noteq> 8 then (- EINVAL, 0)
      else (0, case threads P tid of None \<Rightarrow> 0 | Some h \<Rightarrow> get_blocked_pending (shared_q P) h))"

text \<open>\<open>sigtimedwait\<close> unblocks the awaited signals; it sleeps when nothing is ready and the timeout is not
  zero; then it takes a signal of the set and puts the old mask back.\<close>

definition sigtimedwait_begin :: "int \<Rightarrow> u64 \<Rightarrow> SigProcess \<Rightarrow> u64 \<times> bool \<times> SigProcess" where
  "sigtimedwait_begin tid msk P =
     (case threads P tid of
        None \<Rightarrow> (0, False, P)
      | Some h \<Rightarrow>
          (case SigProcMask (shared_q P) SIG_UNBLOCK (Some msk) h of
             (_, oset, h') \<Rightarrow> (oset, any_sig_ready (shared_q P) h', th_map tid (\<lambda>_. h') P)))"

definition sigtimedwait_finish :: "int \<Rightarrow> u64 \<Rightarrow> u64 \<Rightarrow> bool \<Rightarrow> SigProcess \<Rightarrow> (int + siginfo) \<times> SigProcess" where
  "sigtimedwait_finish tid msk oset again P =
     (case PopSigInfo tid (NOT msk) True P of
        (tmp, P1) \<Rightarrow>
          (let P2 = th_map tid (ReplaceMask (shared_q P1) oset) P1
           in (case tmp of None \<Rightarrow> Inl (if again then - EAGAIN else - EINTR) | Some si \<Rightarrow> Inr si, P2)))"

definition PidtoId :: "int \<Rightarrow> nat \<times> int" where
  "PidtoId pid =
     (if pid < -1 then (2, - pid) else if pid = -1 then (0, 0) else if pid = 0 then (2, 0) else (1, pid))"

text \<open>\<open>kill\<close>, over the live processes with their identifiers and groups; the fields of the signal
  information other than the number are not set by the code.\<close>

definition signal_where :: "(int \<times> int \<times> SigProcess \<Rightarrow> bool) \<Rightarrow> siginfo \<Rightarrow> (int \<times> int \<times> SigProcess) list \<Rightarrow> (int \<times> int \<times> SigProcess) list option" where
  "signal_where sel si procs =
     those (map (\<lambda>(pid, pgid, P). if sel (pid, pgid, P) then map_option (\<lambda>P'. (pid, pgid, P')) (Process_Signal si P) else Some (pid, pgid, P)) procs)"

definition usys_kill ::
  "int \<Rightarrow> int \<Rightarrow> int \<Rightarrow> siginfo \<Rightarrow> (int \<times> int \<times> SigProcess) list \<Rightarrow> (int \<times> (int \<times> int \<times> SigProcess) list) option" where
  "usys_kill mypid mypgid tgid si procs =
     (if tgid = mypid then map_option (\<lambda>ps. (0, ps)) (signal_where (\<lambda>(pid, _, _). pid = mypid) si procs)
      else
        (case PidtoId tgid of
           (idtype, i) \<Rightarrow>
             if idtype = 1 then
               (if \<forall>p \<in> set procs. fst p \<noteq> i then Some (- ESRCH, procs)
                else map_option (\<lambda>ps. (0, ps)) (signal_where (\<lambda>(pid, _, _). pid = i) si procs))
             else if idtype = 2 then
               (let g = (if i = 0 then mypgid else i)
                in map_option (\<lambda>ps. (if \<exists>p \<in> set procs. fst (snd p) = g then 0 else - ESRCH, ps))
                     (signal_where (\<lambda>(_, pgid, _). pgid = g) si procs))
             else map_option (\<lambda>ps. (0, ps)) (signal_where (\<lambda>_. True) si procs)))"

end
