(* ===== verification/SignalSteps.thy ===== *)
theory SignalSteps
  imports Signal
begin

text \<open>
  Sequences of signal operations on a process.  The invariant says that every queue is well formed, that no
  thread ever blocks \<open>SIGKILL\<close> or \<open>SIGSTOP\<close>, and that a thread with a signal it could deliver has been
  notified.
\<close>

definition mask_ok :: "u64 \<Rightarrow> bool" where
  "mask_ok m \<longleftrightarrow> m AND kSignalKernelOnlyMask = 0"

definition th_wf :: "ThreadSignalHandler \<Rightarrow> bool" where
  "th_wf h \<longleftrightarrow> sq_ok (sig_q h) \<and> mask_ok (blocked h) \<and> (\<forall>m. saved_blocked h = Some m \<longrightarrow> mask_ok m)"

definition th_inv :: "SignalQueue \<Rightarrow> ThreadSignalHandler \<Rightarrow> bool" where
  "th_inv sh h \<longleftrightarrow> th_wf h \<and> (any_sig_ready sh h \<longrightarrow> notified h)"

definition sig_inv :: "SigProcess \<Rightarrow> bool" where
  "sig_inv P \<longleftrightarrow> sq_ok (shared_q P) \<and> length (signal_tbl P) = 64 \<and> (\<forall>tid h. threads P tid = Some h \<longrightarrow> th_inv (shared_q P) h)"

lemma mask_ok_replace [simp]: "mask_ok (m AND NOT kSignalKernelOnlyMask)"
proof -
  have "(m AND NOT kSignalKernelOnlyMask) AND kSignalKernelOnlyMask = 0"
    by (rule bit_eqI) (auto simp: bit_simps)
  then show ?thesis by (simp add: mask_ok_def)
qed

lemma mask_ok_not_blocked:
  assumes "mask_ok m"
  shows "\<not> SignalInMask m SIGKILL" "\<not> SignalInMask m SIGSTOP"
proof -
  have "\<not> bit m n" if "bit kSignalKernelOnlyMask n" for n
  proof
    assume "bit m n"
    then have "bit (m AND kSignalKernelOnlyMask) n" using that by (simp add: bit_simps)
    then show False using assms by (simp add: mask_ok_def)
  qed
  then have "\<not> bit m 8" "\<not> bit m 18" by (simp_all add: mask_bits)
  then show "\<not> SignalInMask m SIGKILL" "\<not> SignalInMask m SIGSTOP"
    by (simp_all add: mask_bits SignalValid_def kNumSignals_def signal_numbers)
qed

lemma pending_deliverable:
  assumes "sq_ok q"
  shows "pending q AND NOT blk \<noteq> 0 \<longleftrightarrow> deliverable blk q \<noteq> []"
proof -
  have "pending q AND NOT blk = 0 \<longleftrightarrow> ffsl (pending q AND NOT blk) = 0"
    unfolding ffsl_zero by (auto simp: bit_eq_iff dest: bit_imp_le_length)
  then show ?thesis using sq_Pop_none [OF assms, of blk] by simp
qed

lemma ready_deliverable:
  assumes "sq_ok (sig_q h)" "sq_ok sh"
  shows "any_sig_ready sh h \<longleftrightarrow> deliverable (blocked h) (sig_q h) \<noteq> [] \<or> deliverable (blocked h) sh \<noteq> []"
proof -
  have "get_any_pending sh h AND NOT (blocked h) = (pending (sig_q h) AND NOT (blocked h)) OR (pending sh AND NOT (blocked h))"
    by (rule bit_eqI) (auto simp: get_any_pending_def get_pending_def bit_simps)
  then have "any_sig_ready sh h \<longleftrightarrow> pending (sig_q h) AND NOT (blocked h) \<noteq> 0 \<or> pending sh AND NOT (blocked h) \<noteq> 0"
    by (simp add: any_sig_ready_def or_eq_0_iff)
  then show ?thesis using assms by (simp add: pending_deliverable)
qed

lemma ready_iff:
  assumes "sq_ok (sig_q h)" "sq_ok sh"
  shows "any_sig_ready sh h \<longleftrightarrow> (\<exists>p \<in> set (pending_q (sig_q h)) \<union> set (pending_q sh). \<not> is_sig_blocked (si_signo p) h)"
  using ready_deliverable [OF assms] by (auto simp: deliverable_def filter_empty_conv is_sig_blocked_def)

subsection \<open>Threads\<close>

lemma flag_inv: "th_wf h \<Longrightarrow> th_inv sh (SetInterruptFlagIfNeeded sh h)"
  by (auto simp: th_inv_def th_wf_def SetInterruptFlagIfNeeded_def any_sig_ready_def get_any_pending_def)

lemma ReplaceMask_inv: "th_inv sh h \<Longrightarrow> th_inv sh (ReplaceMask sh m h)"
proof -
  assume h: "th_inv sh h"
  have "th_inv sh (SetInterruptFlagIfNeeded sh (h\<lparr>blocked := m AND NOT kSignalKernelOnlyMask\<rparr>))"
    using h by (intro flag_inv) (simp add: th_inv_def th_wf_def)
  then show ?thesis using h by (simp add: ReplaceMask_def Let_def)
qed

lemma saved_inv: "th_inv sh h \<Longrightarrow> (\<forall>m. s = Some m \<longrightarrow> mask_ok m) \<Longrightarrow> th_inv sh (h\<lparr>saved_blocked := s\<rparr>)"
  by (auto simp: th_inv_def th_wf_def any_sig_ready_def get_any_pending_def)

lemma altstack_inv: "th_inv sh h \<Longrightarrow> th_inv sh (h\<lparr>sigaltstack := s\<rparr>)"
  by (auto simp: th_inv_def th_wf_def any_sig_ready_def get_any_pending_def)

lemma interrupted_inv: "th_inv sh h \<Longrightarrow> th_inv sh (h\<lparr>interrupted := b\<rparr>)"
  by (auto simp: th_inv_def th_wf_def any_sig_ready_def get_any_pending_def)

lemma ReplaceAndSave_inv: "th_inv sh h \<Longrightarrow> th_inv sh (ReplaceAndSaveBlocked sh m h)"
proof -
  assume h: "th_inv sh h"
  then have "th_inv sh (ReplaceMask sh m (h\<lparr>saved_blocked := Some (blocked h)\<rparr>))"
    by (intro ReplaceMask_inv saved_inv) (auto simp: th_inv_def th_wf_def)
  then show ?thesis using h by (simp add: ReplaceAndSaveBlocked_def)
qed

lemma RestoreBlocked_inv: "th_inv sh h \<Longrightarrow> th_inv sh (RestoreBlocked sh h)"
proof -
  assume h: "th_inv sh h"
  have "th_inv sh ((SetInterruptFlagIfNeeded sh (h\<lparr>blocked := m\<rparr>))\<lparr>saved_blocked := None\<rparr>)" if "saved_blocked h = Some m" for m
    using h that by (intro saved_inv flag_inv) (auto simp: th_inv_def th_wf_def)
  then show ?thesis using h saved_inv [OF h, of None] by (simp add: RestoreBlocked_def split: option.split)
qed

lemma SigProcMask_inv: "th_inv sh h \<Longrightarrow> SigProcMask sh how n h = (r, oset, h') \<Longrightarrow> th_inv sh h'"
  by (auto simp: SigProcMask_def split: option.splits if_splits intro: ReplaceMask_inv)

lemma EnqueueSignal_inv:
  assumes "th_inv sh h" "sq_ok sh" "EnqueueSignal si h = Some (b, h')"
  shows "th_inv sh (if b then SendIpi h' else h')"
proof -
  obtain r q where e: "sq_Enqueue si (sig_q h) = Some (r, q)" using assms(3) by (auto simp: EnqueueSignal_def split: option.splits)
  have ok: "sq_ok (sig_q h)" using assms(1) by (simp add: th_inv_def th_wf_def)
  note E = sq_Enqueue_spec [OF ok e]
  show ?thesis
  proof (cases r)
    case False
    then have "h' = h \<and> \<not> b" using assms(3) e by (auto simp: EnqueueSignal_def)
    then show ?thesis using assms(1) by simp
  next
    case True
    have q: "sq_ok q" "pending_q q = pending_q (sig_q h) @ [si]" using E True by auto
    let ?h = "h\<lparr>sig_q := q\<rparr>"
    have r: "any_sig_ready sh ?h \<longleftrightarrow> any_sig_ready sh h \<or> \<not> is_sig_blocked (si_signo si) h"
      using ready_iff [OF ok assms(2)] ready_iff [of ?h sh] q assms(2) by (auto simp: is_sig_blocked_def)
    have wf: "th_wf ?h" using assms(1) q by (simp add: th_inv_def th_wf_def)
    have "th_inv sh h'" using assms(1,3) e True r wf
      by (auto simp: EnqueueSignal_def th_inv_def TestAndSetNotify_def th_wf_def any_sig_ready_def get_any_pending_def split: if_splits)
    then show ?thesis by (simp add: SendIpi_def interrupted_inv)
  qed
qed

lemma notified_notify [simp]: "notified (notify_thread s h) \<longleftrightarrow> notified h \<or> \<not> is_sig_blocked s h"
  by (simp add: notify_thread_def SharedSignalNotifyCheck_def TestAndSetNotify_def SendIpi_def)

lemma ready_notify [simp]: "any_sig_ready sh (notify_thread s h) = any_sig_ready sh h"
  by (simp add: any_sig_ready_def get_any_pending_def)

lemma notify_inv: "th_inv sh h \<Longrightarrow> th_inv sh (notify_thread s h)"
  by (auto simp: th_inv_def th_wf_def)

lemma shared_enqueue_inv:
  assumes "th_inv sh h" "sq_ok sh" "sq_Enqueue si sh = Some (r, sh')"
  shows "th_inv sh' (if r then notify_thread (si_signo si) h else h)"
proof -
  note E = sq_Enqueue_spec [OF assms(2,3)]
  have ok: "sq_ok (sig_q h)" using assms(1) by (simp add: th_inv_def th_wf_def)
  show ?thesis
  proof (cases r)
    case False
    then show ?thesis using E assms(1) by simp
  next
    case True
    have "sq_ok sh'" "pending_q sh' = pending_q sh @ [si]" using E True by auto
    then have "any_sig_ready sh' h \<longleftrightarrow> any_sig_ready sh h \<or> \<not> is_sig_blocked (si_signo si) h"
      using ready_iff [OF ok assms(2)] ready_iff [OF ok, of sh'] by auto
    then show ?thesis using assms(1) True by (auto simp: th_inv_def th_wf_def)
  qed
qed

lemma shrink_inv:
  assumes "th_inv sh h" "sq_ok sh" "sq_ok sh'" "set (pending_q sh') \<subseteq> set (pending_q sh)"
  shows "th_inv sh' h"
proof -
  have ok: "sq_ok (sig_q h)" using assms(1) by (simp add: th_inv_def th_wf_def)
  have "any_sig_ready sh' h \<Longrightarrow> any_sig_ready sh h"
    using ready_iff [OF ok assms(2)] ready_iff [OF ok assms(3)] assms(4) by auto
  then show ?thesis using assms(1) by (auto simp: th_inv_def)
qed

lemma shrink_own_inv:
  assumes "th_inv sh h" "sq_ok sh" "sq_ok q" "set (pending_q q) \<subseteq> set (pending_q (sig_q h))"
  shows "th_inv sh (h\<lparr>sig_q := q\<rparr>)"
proof -
  have ok: "sq_ok (sig_q h)" using assms(1) by (simp add: th_inv_def th_wf_def)
  have "any_sig_ready sh (h\<lparr>sig_q := q\<rparr>) \<Longrightarrow> any_sig_ready sh h"
    using ready_iff [OF ok assms(2)] ready_iff [of "h\<lparr>sig_q := q\<rparr>" sh] assms(2-4) by (auto simp: is_sig_blocked_def)
  then show ?thesis using assms(1,3) by (auto simp: th_inv_def th_wf_def)
qed

subsection \<open>Processes\<close>

lemma sig_inv_map:
  assumes "sig_inv P" "\<And>h. threads P tid = Some h \<Longrightarrow> th_inv (shared_q P) (f h)"
  shows "sig_inv (th_map tid f P)"
  using assms by (auto simp: sig_inv_def th_map_def)

lemma SignalAllThreads_inv: "sig_inv P \<Longrightarrow> sig_inv (SignalAllThreads s P)"
  by (auto simp: sig_inv_def SignalAllThreads_def intro: notify_inv)

lemma sig_inv_other [simp]:
  "sig_inv (P\<lparr>stopped_gen := g\<rparr>) = sig_inv P" "sig_inv (P\<lparr>stop_cnt := c\<rparr>) = sig_inv P"
  by (auto simp: sig_inv_def)

lemma sig_inv_table: "sig_inv P \<Longrightarrow> length t = 64 \<Longrightarrow> sig_inv (P\<lparr>signal_tbl := t\<rparr>)"
  by (simp add: sig_inv_def)

lemma JobControlStop_inv: "sig_inv P \<Longrightarrow> sig_inv (JobControlStop b P)"
  by (simp add: JobControlStop_def Let_def SignalAllThreads_inv)

lemma SignalLocked_inv:
  assumes "sig_inv P" "SignalLocked si P = Some P'"
  shows "sig_inv P'"
proof -
  obtain r q where e: "sq_Enqueue si (shared_q P) = Some (r, q)" using assms(2) by (auto simp: SignalLocked_def split: option.splits)
  have ok: "sq_ok (shared_q P)" using assms(1) by (simp add: sig_inv_def)
  have q: "sq_ok q" "\<not> r \<Longrightarrow> q = shared_q P" using sq_Enqueue_spec [OF ok e] by auto
  have inv: "sig_inv (if r then SignalAllThreads (si_signo si) (P\<lparr>shared_q := q\<rparr>) else P\<lparr>shared_q := q\<rparr>)"
    using assms(1) q shared_enqueue_inv [OF _ ok e]
    by (cases r) (auto simp: sig_inv_def SignalAllThreads_def)
  show ?thesis
  proof (cases "si_signo si = SIGKILL")
    case False
    then show ?thesis using assms(2) e inv by (auto simp: SignalLocked_def Let_def split: if_splits)
  next
    case True
    have P': "P' = SignalAllThreads SIGKILL (P\<lparr>shared_q := q, stopped_gen := 0\<rparr>)"
      using assms(2) e True by (simp add: SignalLocked_def Let_def)
    show ?thesis
    proof (cases r)
      case True
      then have "sig_inv (SignalAllThreads SIGKILL (P\<lparr>shared_q := q\<rparr>))" using inv \<open>si_signo si = SIGKILL\<close> by simp
      moreover have "P' = (SignalAllThreads SIGKILL (P\<lparr>shared_q := q\<rparr>))\<lparr>stopped_gen := 0\<rparr>" by (simp add: P' SignalAllThreads_def)
      ultimately show ?thesis by simp
    next
      case False
      then have "sig_inv (P\<lparr>shared_q := q\<rparr>)" using inv by simp
      then have "sig_inv ((P\<lparr>shared_q := q\<rparr>)\<lparr>stopped_gen := 0\<rparr>)" by (simp only: sig_inv_other)
      then show ?thesis unfolding P' by (intro SignalAllThreads_inv) simp
    qed
  qed
qed

lemma JobControlContinue_inv: "sig_inv P \<Longrightarrow> sig_inv (snd (JobControlContinue P))"
  by (simp add: JobControlContinue_def)

lemma Process_Signal_inv: "sig_inv P \<Longrightarrow> Process_Signal si P = Some P' \<Longrightarrow> sig_inv P'"
  by (auto simp: Process_Signal_def JobControlContinue_inv intro: SignalLocked_inv split: if_splits)

lemma SignalThread_inv:
  assumes "sig_inv P" "SignalThread tid si P = Some (r, P')"
  shows "sig_inv P'"
proof (cases "si_signo si = SIGCONT \<or> threads P tid = None")
  case True
  then show ?thesis using assms by (auto simp: SignalThread_def JobControlContinue_inv split: if_splits)
next
  case False
  then obtain h b h' where h: "threads P tid = Some h" "EnqueueSignal si h = Some (b, h')"
    "P' = th_map tid (\<lambda>_. if b then SendIpi h' else h') P"
    using assms(2) by (auto simp: SignalThread_def split: option.splits)
  show ?thesis unfolding h(3)
    by (rule sig_inv_map [OF assms(1)]) (rule EnqueueSignal_inv [OF _ _ h(2)], use assms(1) h(1) in \<open>auto simp: sig_inv_def\<close>)
qed

lemma GetAction_inv: "sig_inv P \<Longrightarrow> sig_inv (snd (GetAction k s P))"
proof -
  assume P: "sig_inv P"
  obtain act tbl where g: "get_action s True (signal_tbl P) = (act, tbl)" by (cases "get_action s True (signal_tbl P)")
  have "length tbl = 64" using P g by (auto simp: get_action_def Let_def sig_inv_def split: if_splits)
  then have "sig_inv (P\<lparr>signal_tbl := tbl\<rparr>)" by (rule sig_inv_table [OF P])
  then show ?thesis using g by (simp add: GetAction_def Let_def JobControlStop_inv split: SignalAction.splits)
qed

lemma PopSigInfo_inv:
  assumes "sig_inv P" "threads P tid = Some h" "PopSigInfo tid (blocked h) True P = (r, P')"
  shows "sig_inv P'"
proof -
  let ?sh = "shared_q P"
  have inv: "th_inv ?sh h" "sq_ok ?sh" using assms(1,2) by (auto simp: sig_inv_def)
  then have ok: "sq_ok (sig_q h)" by (simp add: th_inv_def th_wf_def)
  obtain r1 q1 where p1: "sq_Pop (blocked h) True (sig_q h) = (r1, q1)" by (cases "sq_Pop (blocked h) True (sig_q h)")
  obtain r2 q2 where p2: "sq_Pop (blocked h) True ?sh = (r2, q2)" by (cases "sq_Pop (blocked h) True ?sh")
  note S1 = sq_Pop_spec [OF ok p1] and S2 = sq_Pop_spec [OF inv(2) p2]
  consider (own) si where "r1 = Some si" | (stop) "r1 = None" "is_stopped P" | (shared) si where "r1 = None" "\<not> is_stopped P" "r2 = Some si"
    | (none) "r1 = None" "\<not> is_stopped P" "r2 = None" by (cases r1; cases r2) auto
  then show ?thesis
  proof cases
    case own
    then have "P' = th_map tid (\<lambda>h. h\<lparr>sig_q := q1\<rparr>) P" using assms(2,3) p1 by (simp add: PopSigInfo_def)
    moreover have "sq_ok q1" "set (pending_q q1) \<subseteq> set (pending_q (sig_q h))" using S1 own by auto
    ultimately show ?thesis using sig_inv_map [OF assms(1), of tid] shrink_own_inv [OF inv] assms(2) by auto
  next
    case stop
    then show ?thesis using assms p1 by (simp add: PopSigInfo_def)
  next
    case shared
    then have P': "P' = P\<lparr>shared_q := q2\<rparr>" using assms(2,3) p1 p2 by (simp add: PopSigInfo_def)
    have q: "sq_ok q2" "set (pending_q q2) \<subseteq> set (pending_q ?sh)" using S2 shared by auto
    show ?thesis using assms(1) shrink_inv [OF _ inv(2) q] q(1) by (simp add: P' sig_inv_def)
  next
    case none
    have "\<not> any_sig_ready ?sh h" using ready_deliverable [OF ok inv(2)] S1 S2 none by simp
    then have R: "th_inv ?sh (ResetInterruptState h)"
      using inv(1) by (simp add: th_inv_def th_wf_def ResetInterruptState_def any_sig_ready_def get_any_pending_def)
    have "th_inv ?sh (RestoreBlockedLocked ?sh m (ResetInterruptState h))" if "saved_blocked h = Some m" for m
      unfolding RestoreBlockedLocked_def by (rule flag_inv) (use inv(1) that in \<open>simp add: th_inv_def th_wf_def ResetInterruptState_def\<close>)
    then have "sig_inv (th_map tid (\<lambda>h. case saved_blocked h of None \<Rightarrow> ResetInterruptState h
        | Some m \<Rightarrow> RestoreBlockedLocked ?sh m (ResetInterruptState h)) P)"
      using R assms(2) by (intro sig_inv_map [OF assms(1)]) (auto split: option.split)
    moreover have "P' = th_map tid (\<lambda>h. case saved_blocked h of None \<Rightarrow> ResetInterruptState h
        | Some m \<Rightarrow> RestoreBlockedLocked ?sh m (ResetInterruptState h)) P"
      using assms(2,3) p1 p2 none by (simp add: PopSigInfo_def)
    ultimately show ?thesis by simp
  qed
qed

lemma next_loop_inv: "sig_inv P \<Longrightarrow> sig_inv (snd (next_loop k tid P))"
proof (induction k tid P rule: next_loop.induct)
  case (1 k tid P)
  show ?case
  proof (cases "threads P tid")
    case None
    then show ?thesis using 1(2) by (subst next_loop.simps) simp
  next
    case (Some h)
    obtain r P1 where p: "PopSigInfo tid (blocked h) True P = (r, P1)" by (cases "PopSigInfo tid (blocked h) True P")
    have P1: "sig_inv P1" by (rule PopSigInfo_inv [OF 1(2) Some p])
    show ?thesis
    proof (cases r)
      case None
      then show ?thesis using P1 p \<open>threads P tid = Some h\<close> by (subst next_loop.simps) simp
    next
      case (Some info)
      obtain a P2 where a: "GetAction k (si_signo info) P1 = (a, P2)" by (cases "GetAction k (si_signo info) P1")
      have P2: "sig_inv P2" using GetAction_inv [OF P1, of k "si_signo info"] a by simp
      have "a = None \<Longrightarrow> sig_inv (snd (next_loop k tid P2))"
        using 1(1) [OF \<open>threads P tid = Some h\<close> p [symmetric] Some a [symmetric]] P2 by simp
      then show ?thesis using P2 p Some a \<open>threads P tid = Some h\<close> by (subst next_loop.simps) (simp split: option.split)
    qed
  qed
qed

lemma GetNextSignal_inv:
  assumes "sig_inv P" "GetNextSignal k tid P = (r, P')"
  shows "sig_inv P'"
proof -
  obtain x P1 where n: "next_loop k tid P = (x, P1)" by (cases "next_loop k tid P")
  have P1: "sig_inv P1" using next_loop_inv [OF assms(1), of k tid] n by simp
  show ?thesis
  proof (cases "x = None \<or> threads P1 tid = None")
    case True
    then show ?thesis using assms(2) n P1 by (auto simp: GetNextSignal_def split: option.splits)
  next
    case False
    then obtain info act h where x: "x = Some (info, act)" "threads P1 tid = Some h" by auto
    have h: "th_inv (shared_q P1) h" using P1 x(2) by (simp add: sig_inv_def)
    let ?h1 = "if ss_flags (sigaltstack h) AND kSigStackAutoDisarm \<noteq> 0 then DisableAltStack h else h"
    have h1: "th_inv (shared_q P1) ?h1" using h by (simp add: DisableAltStack_def altstack_inv)
    obtain prev h2 where g: "GetSigframeRestoreMask ?h1 = (prev, h2)" by (cases "GetSigframeRestoreMask ?h1")
    have "th_inv (shared_q P1) h2"
      using g h1 saved_inv [OF h1, of None] by (auto simp: GetSigframeRestoreMask_def split: option.splits)
    then have "\<And>m. sig_inv (th_map tid (\<lambda>_. ReplaceMask (shared_q P1) m h2) P1)"
      by (intro sig_inv_map [OF P1] ReplaceMask_inv)
    then show ?thesis using assms(2) n x g by (auto simp: GetNextSignal_def Let_def)
  qed
qed

subsection \<open>Sequences of operations\<close>

datatype sig_op =
    OpKill siginfo
  | OpTgkill int siginfo
  | OpProcMask int int "u64 option"
  | OpSuspend int u64
  | OpRestore int
  | OpDeliver uintptr int
  | OpSigaction int k_sigaction
  | OpStop

fun sig_step :: "sig_op \<Rightarrow> SigProcess \<Rightarrow> SigProcess option" where
  "sig_step (OpKill si) P = Process_Signal si P"
| "sig_step (OpTgkill tid si) P = map_option snd (SignalThread tid si P)"
| "sig_step (OpProcMask tid how nset) P = Some (snd (snd (usys_rt_sigprocmask tid how nset 8 P)))"
| "sig_step (OpSuspend tid m) P = Some (th_map tid (ReplaceAndSaveBlocked (shared_q P) m) P)"
| "sig_step (OpRestore tid) P = Some (th_map tid (RestoreBlocked (shared_q P)) P)"
| "sig_step (OpDeliver k tid) P = Some (snd (GetNextSignal k tid P))"
| "sig_step (OpSigaction s act) P = map_option (\<lambda>(_, _, P'). P') (usys_rt_sigaction s (Some act) 8 P)"
| "sig_step OpStop P = Some (JobControlStop True P)"

fun sig_run :: "sig_op list \<Rightarrow> SigProcess \<Rightarrow> SigProcess option" where
  "sig_run [] P = Some P"
| "sig_run (x # xs) P = (case sig_step x P of None \<Rightarrow> None | Some P' \<Rightarrow> sig_run xs P')"

definition SigProcess_new :: "int list \<Rightarrow> SigProcess" where
  "SigProcess_new tids =
     \<lparr>threads = \<lambda>t. if t \<in> set tids then Some (ThreadSignalHandler_new 0) else None, shared_q = SignalQueue_new,
      signal_tbl = SignalTable_new, stopped_gen = 0, stop_cnt = 0\<rparr>"

lemma SigProcess_new_inv: "sig_inv (SigProcess_new tids)"
  using sq_new_ok
  by (auto simp: sig_inv_def SigProcess_new_def ThreadSignalHandler_new_def th_inv_def th_wf_def mask_ok_def
      SignalTable_new_def any_sig_ready_def get_any_pending_def get_pending_def SignalQueue_new_def split: if_splits)

lemma sig_step_inv:
  assumes "sig_inv P" "sig_step x P = Some P'"
  shows "sig_inv P'"
proof (cases x)
  case (OpTgkill tid si)
  then show ?thesis using assms SignalThread_inv by auto
next
  case (OpProcMask tid how nset)
  show ?thesis
  proof (cases "threads P tid")
    case None
    then show ?thesis using assms OpProcMask by (simp add: usys_rt_sigprocmask_def)
  next
    case (Some h)
    obtain r oset h' where s: "SigProcMask (shared_q P) how nset h = (r, oset, h')" by (cases "SigProcMask (shared_q P) how nset h")
    have "th_inv (shared_q P) h'" using assms(1) Some SigProcMask_inv [OF _ s] by (simp add: sig_inv_def)
    then have "sig_inv (th_map tid (\<lambda>_. h') P)" by (rule sig_inv_map [OF assms(1)])
    then show ?thesis using assms(2) OpProcMask Some s by (auto simp: usys_rt_sigprocmask_def split: sum.splits)
  qed
next
  case (OpSuspend tid m)
  have "sig_inv (th_map tid (ReplaceAndSaveBlocked (shared_q P) m) P)"
    using assms(1) by (intro sig_inv_map ReplaceAndSave_inv) (auto simp: sig_inv_def)
  then show ?thesis using assms(2) OpSuspend by simp
next
  case (OpRestore tid)
  have "sig_inv (th_map tid (RestoreBlocked (shared_q P)) P)"
    using assms(1) by (intro sig_inv_map RestoreBlocked_inv) (auto simp: sig_inv_def)
  then show ?thesis using assms(2) OpRestore by simp
next
  case (OpSigaction s act)
  have "length (snd (exchange_action s act (signal_tbl P))) = 64" using assms(1) by (simp add: exchange_action_def sig_inv_def Let_def)
  then show ?thesis using assms OpSigaction sig_inv_table [OF assms(1)]
    by (auto simp: usys_rt_sigaction_def exchange_action_def Let_def split: if_splits)
next
  case (OpKill si)
  then show ?thesis using assms Process_Signal_inv by simp
next
  case (OpDeliver k tid)
  then show ?thesis using assms GetNextSignal_inv [OF assms(1) surjective_pairing] by auto
next
  case OpStop
  then show ?thesis using assms JobControlStop_inv by auto
qed

lemma sig_run_inv: "sig_inv P \<Longrightarrow> sig_run xs P = Some P' \<Longrightarrow> sig_inv P'"
  by (induction xs arbitrary: P) (auto split: option.splits dest: sig_step_inv)

subsection \<open>Properties\<close>



text \<open>\<open>sigtimedwait\<close> can lose a notification: when it awaits signals that were not blocked and another
  signal is ready, it returns without a signal, the other signal is still queued and deliverable, and the
  thread's notification has been withdrawn.\<close>

theorem sigtimedwait_loses_notification:
  assumes "sig_inv P" "threads P tid = Some h" "\<not> is_stopped P" "saved_blocked h = None"
    "blocked h AND msk = 0" "any_sig_ready (shared_q P) h"
    "\<forall>p \<in> set (pending_q (sig_q h)) \<union> set (pending_q (shared_q P)). \<not> SignalInMask msk (si_signo p)"
  shows "\<exists>oset P1 r P2 h2. sigtimedwait_begin tid msk P = (oset, True, P1) \<and>
    sigtimedwait_finish tid msk oset True P1 = (Inl r, P2) \<and> threads P2 tid = Some h2 \<and>
    any_sig_ready (shared_q P2) h2 \<and> \<not> notified h2 \<and> \<not> interrupted h2"
proof -
  let ?sh = "shared_q P"
  have ok: "sq_ok ?sh" "sq_ok (sig_q h)" "mask_ok (blocked h)" using assms(1,2) by (auto simp: sig_inv_def th_inv_def th_wf_def)
  have "(blocked h AND NOT msk) AND NOT kSignalKernelOnlyMask = blocked h"
    using assms(5) ok(3) by (auto simp: bit_eq_iff bit_simps mask_ok_def)
  then have b: "SigProcMask ?sh SIG_UNBLOCK (Some msk) h = (Inr (), blocked h, h)"
    by (simp add: SigProcMask_def SIG_BLOCK_def SIG_UNBLOCK_def ReplaceMask_def Let_def)
  have id: "th_map tid (\<lambda>_. h) P = P" using assms(2) by (simp add: th_map_def fun_upd_idem)
  have B: "sigtimedwait_begin tid msk P = (blocked h, True, P)" using assms(2,6) b id by (simp add: sigtimedwait_begin_def)
  have none: "sq_Pop (NOT msk) True q = (None, q)" if "sq_ok q" "\<forall>p \<in> set (pending_q q). \<not> SignalInMask msk (si_signo p)" for q
  proof -
    have v: "\<forall>p \<in> set (pending_q q). SignalValid (si_signo p)" using that(1) by (simp add: sq_ok_def)
    have "SignalInMask (NOT msk) s" if "SignalValid s" "\<not> SignalInMask msk s" for s
      using that by (simp add: mask_bits bit_simps) (auto simp: SignalValid_def kNumSignals_def)
    then have "deliverable (NOT msk) q = []" using that v by (auto simp: deliverable_def filter_empty_conv)
    then show ?thesis using sq_Pop_none [OF that(1), of "NOT msk"] by (simp add: sq_Pop_def)
  qed
  let ?h = "ResetInterruptState h"
  have pop: "PopSigInfo tid (NOT msk) True P = (None, th_map tid (\<lambda>h. case saved_blocked h of None \<Rightarrow> ResetInterruptState h
        | Some m \<Rightarrow> RestoreBlockedLocked ?sh m (ResetInterruptState h)) P)"
    using assms(2,3,7) none [OF ok(2)] none [OF ok(1)] by (simp add: PopSigInfo_def)
  have rm: "ReplaceMask ?sh (blocked h) ?h = ?h"
    using ok(3) by (simp add: ReplaceMask_def Let_def ResetInterruptState_def) (auto simp: mask_ok_def bit_eq_iff bit_simps)
  have F: "sigtimedwait_finish tid msk (blocked h) True P = (Inl (- EAGAIN), th_map tid (\<lambda>_. ?h) P)"
    using assms(2,4) rm by (simp add: sigtimedwait_finish_def pop Let_def th_map_def)
  have "threads (th_map tid (\<lambda>_. ?h) P) tid = Some ?h" "shared_q (th_map tid (\<lambda>_. ?h) P) = ?sh"
    using assms(2) by (simp_all add: th_map_def)
  moreover have "any_sig_ready ?sh ?h" "\<not> notified ?h" "\<not> interrupted ?h"
    using assms(6) by (simp_all add: ResetInterruptState_def any_sig_ready_def get_any_pending_def)
  ultimately show ?thesis using B F by (intro exI) auto
qed

theorem sigtimedwait_loses_notification_witness:
  "\<exists>P oset P1 r P2 h2. sigtimedwait_begin 1 2048 P = (oset, True, P1) \<and>
    sigtimedwait_finish 1 2048 oset True P1 = (Inl r, P2) \<and> threads P2 1 = Some h2 \<and>
    any_sig_ready (shared_q P2) h2 \<and> \<not> notified h2 \<and> \<not> interrupted h2"
proof -
  let ?s = "\<lparr>si_signo = 10, si_code = 0, si_pid = 2, si_status = 0\<rparr>"
  have "\<exists>P h. sig_run [OpKill ?s] (SigProcess_new [1]) = Some P \<and> threads P 1 = Some h \<and> \<not> is_stopped P \<and>
      saved_blocked h = None \<and> blocked h = 0 \<and> pending_q (sig_q h) = [] \<and> pending_q (shared_q P) = [?s]"
    by (simp add: Process_Signal_def SignalLocked_def signal_numbers sq_Enqueue_def SignalValid_def kNumSignals_def
        kNumStandardSignals_def sq_is_sig_pending_def SignalInMask_def get_pending_def SigProcess_new_def SignalQueue_new_def
        Let_def SignalAllThreads_def set_sig_pending_def is_stopped_def ThreadSignalHandler_new_def)
  then obtain P h where r: "sig_run [OpKill ?s] (SigProcess_new [1]) = Some P" and h: "threads P 1 = Some h" "\<not> is_stopped P"
    "saved_blocked h = None" "blocked h = 0" "pending_q (sig_q h) = []" "pending_q (shared_q P) = [?s]" by blast
  have inv: "sig_inv P" by (rule sig_run_inv [OF SigProcess_new_inv r])
  then have ok: "sq_ok (sig_q h)" "sq_ok (shared_q P)" using h(1) by (auto simp: sig_inv_def th_inv_def th_wf_def)
  have "any_sig_ready (shared_q P) h" unfolding ready_iff [OF ok] by (simp add: h is_sig_blocked_def SignalInMask_def)
  moreover have "\<not> SignalInMask 2048 10" by (simp add: SignalInMask_def SignalMask_def)
  ultimately have "\<exists>oset P1 r P2 h2. sigtimedwait_begin 1 2048 P = (oset, True, P1) \<and>
    sigtimedwait_finish 1 2048 oset True P1 = (Inl r, P2) \<and> threads P2 1 = Some h2 \<and>
    any_sig_ready (shared_q P2) h2 \<and> \<not> notified h2 \<and> \<not> interrupted h2"
    using h by (intro sigtimedwait_loses_notification [OF inv h(1)]) simp_all
  then show ?thesis by blast
qed

end
