(* ===== verification/Credential.thy ===== *)
theory Credential
  imports Prelude
begin

text \<open>
  Credentials, capabilities and resource limits: \<open>Credential\<close> and \<open>Limits\<close> of
  \<^verbatim>\<open>src/junction/kernel/proc.h\<close>, and the system calls of
  \<^verbatim>\<open>src/junction/kernel/misc.cc\<close> that work on them.

  A shift by a negative number, or by 64 and more, is undefined behaviour and gives \<open>None\<close>.
\<close>

definition kCapabilityFull :: u64 where "kCapabilityFull = - 1"
definition kMaxCapability :: int where "kMaxCapability = 63"
definition CAP_SETPCAP :: int where "CAP_SETPCAP = 8"

record Credential =
  ruid :: u32
  euid :: u32
  suid :: u32
  rgid :: u32
  egid :: u32
  sgid :: u32
  supplementary_groups :: "u32 list"
  bounding :: u64
  ambient :: u64
  permitted :: u64
  effective :: u64
  inheritable :: u64

definition Credential_new :: "u32 \<Rightarrow> u32 \<Rightarrow> Credential" where
  "Credential_new uid gid =
     \<lparr>ruid = uid, euid = uid, suid = uid, rgid = gid, egid = gid, sgid = gid, supplementary_groups = [],
      bounding = kCapabilityFull, ambient = kCapabilityFull, permitted = kCapabilityFull, effective = kCapabilityFull,
      inheritable = 0\<rparr>"

definition cap_bit :: "int \<Rightarrow> u64" where
  "cap_bit cap = push_bit (nat cap) 1"

definition in_set :: "u64 \<Rightarrow> int \<Rightarrow> bool" where
  "in_set s cap \<longleftrightarrow> s AND cap_bit cap \<noteq> 0"

definition UpdateCapabilities :: "u64 \<Rightarrow> u64 \<Rightarrow> u64 \<Rightarrow> Credential \<Rightarrow> unit Status \<times> Credential" where
  "UpdateCapabilities new_permitted new_effective new_inheritable c =
     (if \<not> in_set (effective c) CAP_SETPCAP \<and> new_inheritable AND NOT (inheritable c OR permitted c) \<noteq> 0 then (Inl EPERM, c)
      else if new_inheritable AND NOT (inheritable c OR bounding c) \<noteq> 0 then (Inl EPERM, c)
      else if new_permitted AND NOT (permitted c) \<noteq> 0 then (Inl EPERM, c)
      else if new_effective AND NOT new_permitted \<noteq> 0 then (Inl EPERM, c)
      else
        (Inr (), c\<lparr>permitted := new_permitted, effective := new_effective, inheritable := new_inheritable,
           ambient := ambient c AND (new_permitted AND new_inheritable)\<rparr>))"

definition in_bounding_set :: "int \<Rightarrow> Credential \<Rightarrow> bool option" where
  "in_bounding_set cap c =
     (if cap > kMaxCapability then Some False else if cap < 0 then None else Some (in_set (bounding c) cap))"

definition DropCap :: "int \<Rightarrow> u64 \<Rightarrow> u64" where
  "DropCap cap s = s AND NOT (cap_bit cap)"

definition DropBoundedCap :: "int \<Rightarrow> Credential \<Rightarrow> (unit Status \<times> Credential) option" where
  "DropBoundedCap cap c =
     (if \<not> in_set (effective c) CAP_SETPCAP then Some (Inl EPERM, c)
      else if cap > kMaxCapability then Some (Inl EINVAL, c)
      else if cap < 0 then None
      else
        Some (Inr (), c\<lparr>bounding := DropCap cap (bounding c), ambient := DropCap cap (ambient c),
           permitted := DropCap cap (permitted c), effective := DropCap cap (effective c),
           inheritable := DropCap cap (inheritable c)\<rparr>))"

definition AmbientRaise :: "int \<Rightarrow> Credential \<Rightarrow> (unit Status \<times> Credential) option" where
  "AmbientRaise cap c =
     (if cap > kMaxCapability then Some (Inl EINVAL, c)
      else if cap < 0 then None
      else if \<not> in_set (inheritable c AND permitted c) cap then Some (Inl EPERM, c)
      else Some (Inr (), c\<lparr>ambient := ambient c OR cap_bit cap\<rparr>))"

definition AmbientLower :: "int \<Rightarrow> Credential \<Rightarrow> (unit Status \<times> Credential) option" where
  "AmbientLower cap c =
     (if cap > kMaxCapability then Some (Inl EINVAL, c)
      else if cap < 0 then None
      else Some (Inr (), c\<lparr>ambient := DropCap cap (ambient c)\<rparr>))"

definition in_ambient_set :: "int \<Rightarrow> Credential \<Rightarrow> bool option" where
  "in_ambient_set cap c =
     (if cap > kMaxCapability then Some False else if cap < 0 then None else Some (in_set (ambient c) cap))"

definition AmbientClear :: "Credential \<Rightarrow> Credential" where
  "AmbientClear c = c\<lparr>ambient := 0\<rparr>"

subsection \<open>System calls on credentials\<close>

definition usys_setgid :: "u32 \<Rightarrow> Credential \<Rightarrow> Credential" where
  "usys_setgid gid c = c\<lparr>rgid := gid, egid := gid, sgid := gid\<rparr>"

definition usys_setegid :: "u32 \<Rightarrow> Credential \<Rightarrow> Credential" where
  "usys_setegid gid c = c\<lparr>egid := gid\<rparr>"

definition usys_setuid :: "u32 \<Rightarrow> Credential \<Rightarrow> Credential" where
  "usys_setuid uid c = c\<lparr>ruid := uid, euid := uid, suid := uid\<rparr>"

definition usys_seteuid :: "u32 \<Rightarrow> Credential \<Rightarrow> Credential" where
  "usys_seteuid uid c = c\<lparr>euid := uid\<rparr>"

definition usys_setgroups :: "u32 list \<Rightarrow> Credential \<Rightarrow> Credential" where
  "usys_setgroups gids c = c\<lparr>supplementary_groups := gids\<rparr>"

definition usys_getgroups :: "int \<Rightarrow> Credential \<Rightarrow> int \<times> u32 list option" where
  "usys_getgroups cnt c =
     (let nr_gids = int (length (supplementary_groups c)) in
      if cnt \<noteq> 0 then (if cnt < nr_gids then (- EINVAL, None) else (nr_gids, Some (supplementary_groups c)))
      else (nr_gids, None))"

definition usys_setresuid :: "u32 \<Rightarrow> u32 \<Rightarrow> u32 \<Rightarrow> Credential \<Rightarrow> Credential" where
  "usys_setresuid r e s c =
     (let c1 = (if r \<noteq> - 1 then c\<lparr>ruid := r\<rparr> else c);
          c2 = (if e \<noteq> - 1 then c1\<lparr>euid := e\<rparr> else c1)
      in if s \<noteq> - 1 then c2\<lparr>suid := s\<rparr> else c2)"

definition usys_setresgid :: "u32 \<Rightarrow> u32 \<Rightarrow> u32 \<Rightarrow> Credential \<Rightarrow> Credential" where
  "usys_setresgid r e s c =
     (let c1 = (if r \<noteq> - 1 then c\<lparr>rgid := r\<rparr> else c);
          c2 = (if e \<noteq> - 1 then c1\<lparr>egid := e\<rparr> else c1)
      in if s \<noteq> - 1 then c2\<lparr>sgid := s\<rparr> else c2)"

definition PR_CAPBSET_READ :: int where "PR_CAPBSET_READ = 23"
definition PR_CAPBSET_DROP :: int where "PR_CAPBSET_DROP = 24"
definition PR_CAP_AMBIENT :: int where "PR_CAP_AMBIENT = 47"
definition PR_CAP_AMBIENT_IS_SET :: int where "PR_CAP_AMBIENT_IS_SET = 1"
definition PR_CAP_AMBIENT_RAISE :: int where "PR_CAP_AMBIENT_RAISE = 2"
definition PR_CAP_AMBIENT_LOWER :: int where "PR_CAP_AMBIENT_LOWER = 3"
definition PR_CAP_AMBIENT_CLEAR_ALL :: int where "PR_CAP_AMBIENT_CLEAR_ALL = 4"

lemmas prctl_numbers = PR_CAPBSET_READ_def PR_CAPBSET_DROP_def PR_CAP_AMBIENT_def PR_CAP_AMBIENT_IS_SET_def
  PR_CAP_AMBIENT_RAISE_def PR_CAP_AMBIENT_LOWER_def PR_CAP_AMBIENT_CLEAR_ALL_def

definition status_ret :: "unit Status \<Rightarrow> int" where
  "status_ret r = (case r of Inl e \<Rightarrow> MakeCError e | Inr _ \<Rightarrow> 0)"

definition usys_prctl :: "int \<Rightarrow> int \<Rightarrow> int \<Rightarrow> Credential \<Rightarrow> (int \<times> Credential) option" where
  "usys_prctl cmd arg1 arg2 c =
     (if cmd = PR_CAPBSET_READ then map_option (\<lambda>b. (if b then 1 else 0, c)) (in_bounding_set arg1 c)
      else if cmd = PR_CAPBSET_DROP then map_option (\<lambda>(r, c'). (status_ret r, c')) (DropBoundedCap arg1 c)
      else if cmd = PR_CAP_AMBIENT then
        (if arg1 = PR_CAP_AMBIENT_RAISE then map_option (\<lambda>(r, c'). (status_ret r, c')) (AmbientRaise arg2 c)
         else if arg1 = PR_CAP_AMBIENT_LOWER then map_option (\<lambda>(r, c'). (status_ret r, c')) (AmbientLower arg2 c)
         else if arg1 = PR_CAP_AMBIENT_CLEAR_ALL then Some (0, AmbientClear c)
         else if arg1 = PR_CAP_AMBIENT_IS_SET then map_option (\<lambda>b. (if b then 1 else 0, c)) (in_ambient_set arg2 c)
         else Some (0, c))
      else Some (0, c))"

text \<open>Capabilities travel in 32-bit words: \<open>capget\<close> writes two of them, \<open>capset\<close> reads the first.\<close>

definition LINUX_CAPABILITY_VERSION_1 :: u32 where "LINUX_CAPABILITY_VERSION_1 = 0x19980330"
definition LINUX_CAPABILITY_VERSION_2 :: u32 where "LINUX_CAPABILITY_VERSION_2 = 0x20071026"

record cap_user_data =
  cud_effective :: u32
  cud_permitted :: u32
  cud_inheritable :: u32

definition usys_capset :: "u32 \<Rightarrow> cap_user_data list \<Rightarrow> Credential \<Rightarrow> int \<times> Credential" where
  "usys_capset version data c =
     (if version < LINUX_CAPABILITY_VERSION_2 then (- EINVAL, c)
      else
        (case UpdateCapabilities (ucast (cud_permitted (data ! 0))) (ucast (cud_effective (data ! 0)))
            (ucast (cud_inheritable (data ! 0))) c of
           (r, c') \<Rightarrow> (status_ret r, c')))"

definition usys_capget :: "u32 \<Rightarrow> Credential \<Rightarrow> cap_user_data list" where
  "usys_capget version c =
     \<lparr>cud_effective = ucast (effective c), cud_permitted = ucast (permitted c), cud_inheritable = ucast (inheritable c)\<rparr> #
     (if version > LINUX_CAPABILITY_VERSION_1 then
        [\<lparr>cud_effective = ucast (drop_bit 32 (effective c)), cud_permitted = ucast (drop_bit 32 (permitted c)),
          cud_inheritable = ucast (drop_bit 32 (inheritable c))\<rparr>]
      else [])"

subsection \<open>Resource limits\<close>

record rlimit =
  rlim_cur :: u64
  rlim_max :: u64

definition kRlimInfinity :: u64 where "kRlimInfinity = - 1"

definition default_rlimits :: "(int \<times> u64) list" where
  "default_rlimits =
     [(9, kRlimInfinity), (4, kRlimInfinity), (0, kRlimInfinity), (2, kRlimInfinity), (1, kRlimInfinity), (10, kRlimInfinity),
      (8, kRlimInfinity), (12, 819200), (13, 0), (7, 1000000), (6, 4000000), (5, kRlimInfinity), (14, 0), (15, kRlimInfinity),
      (11, 254354), (3, 67108864)]"

definition GetDefaultRlim :: "int \<Rightarrow> u64 Status" where
  "GetDefaultRlim resource = (case map_of default_rlimits resource of None \<Rightarrow> Inl EINVAL | Some l \<Rightarrow> Inr l)"

type_synonym Limits = "int \<Rightarrow> rlimit option"

definition GetLimit :: "int \<Rightarrow> Limits \<Rightarrow> rlimit Status" where
  "GetLimit resource lim =
     (case lim resource of
        Some l \<Rightarrow> Inr l
      | None \<Rightarrow> (case GetDefaultRlim resource of Inl e \<Rightarrow> Inl e | Inr l \<Rightarrow> Inr \<lparr>rlim_cur = l, rlim_max = l\<rparr>))"

definition SetLimit :: "int \<Rightarrow> rlimit \<Rightarrow> Limits \<Rightarrow> Limits" where
  "SetLimit resource l lim = lim(resource \<mapsto> l)"

definition usys_getrlimit :: "int \<Rightarrow> Limits \<Rightarrow> int + rlimit" where
  "usys_getrlimit resource lim = (case GetLimit resource lim of Inl e \<Rightarrow> Inl (MakeCError e) | Inr l \<Rightarrow> Inr l)"

definition usys_setrlimit :: "int \<Rightarrow> rlimit \<Rightarrow> Limits \<Rightarrow> int \<times> Limits" where
  "usys_setrlimit resource l lim = (0, SetLimit resource l lim)"

definition usys_prlimit64 :: "int \<Rightarrow> rlimit option \<Rightarrow> bool \<Rightarrow> Limits \<Rightarrow> int \<times> rlimit option \<times> Limits" where
  "usys_prlimit64 resource new_limit want_old lim =
     (let set = (\<lambda>lim. case new_limit of None \<Rightarrow> lim | Some l \<Rightarrow> SetLimit resource l lim) in
      if want_old then
        (case GetLimit resource lim of
           Inl e \<Rightarrow> (MakeCError e, None, lim)
         | Inr l \<Rightarrow> (0, Some l, set lim))
      else (0, None, set lim))"

text \<open>What is set is read back, and no other limit changes; the resource number itself is not checked.\<close>

lemma limit_round_trip:
  "GetLimit r (SetLimit s l lim) = (if r = s then Inr l else GetLimit r lim)"
  by (simp add: GetLimit_def SetLimit_def)

lemma default_limit: "GetLimit 3 Map.empty = Inr \<lparr>rlim_cur = 67108864, rlim_max = 67108864\<rparr>"
  by (simp add: GetLimit_def GetDefaultRlim_def default_rlimits_def)

subsection \<open>Invariant\<close>

definition cred_ok :: "Credential \<Rightarrow> bool" where
  "cred_ok c \<longleftrightarrow> effective c AND NOT (permitted c) = 0 \<and> permitted c AND NOT (bounding c) = 0 \<and>
     inheritable c AND NOT (bounding c) = 0 \<and> ambient c AND NOT (bounding c) = 0"

lemma sub_bits: "(a AND NOT b = (0::u64)) \<longleftrightarrow> (\<forall>n. bit a n \<longrightarrow> bit b n)"
proof -
  have "bit a n \<Longrightarrow> n < 64" for n by (auto dest: bit_imp_le_length)
  then show ?thesis by (auto simp: bit_eq_iff bit_simps)
qed

lemma in_set_bit: "0 \<le> cap \<Longrightarrow> cap \<le> kMaxCapability \<Longrightarrow> in_set s cap \<longleftrightarrow> bit s (nat cap)"
  unfolding in_set_def cap_bit_def bit_eq_iff by (auto simp: bit_simps kMaxCapability_def)

lemma bit_cap_bit: "bit (cap_bit cap) n \<longleftrightarrow> n < 64 \<and> n = nat cap"
  by (auto simp: cap_bit_def bit_simps)

lemma Credential_new_ok: "cred_ok (Credential_new u g)"
  by (simp add: cred_ok_def Credential_new_def kCapabilityFull_def)

definition perm_le :: "Credential \<Rightarrow> Credential \<Rightarrow> bool" where
  "perm_le c d \<longleftrightarrow> permitted c AND NOT (permitted d) = 0 \<and> bounding c AND NOT (bounding d) = 0"

lemma UpdateCapabilities_cases:
  "UpdateCapabilities p e i c = (Inl EPERM, c) \<or>
   (i AND NOT (inheritable c OR bounding c) = 0 \<and> p AND NOT (permitted c) = 0 \<and> e AND NOT p = 0 \<and>
    UpdateCapabilities p e i c =
      (Inr (), c\<lparr>permitted := p, effective := e, inheritable := i, ambient := ambient c AND (p AND i)\<rparr>))"
  unfolding UpdateCapabilities_def by (simp only: split: if_split) blast

lemma UpdateCapabilities_ok:
  assumes "cred_ok c"
  shows "cred_ok (snd (UpdateCapabilities p e i c)) \<and> perm_le (snd (UpdateCapabilities p e i c)) c"
proof (cases "UpdateCapabilities p e i c = (Inl EPERM, c)")
  case True
  then show ?thesis using assms by (simp add: perm_le_def)
next
  case False
  then have g: "i AND NOT (inheritable c OR bounding c) = 0" "p AND NOT (permitted c) = 0" "e AND NOT p = 0"
    and u: "UpdateCapabilities p e i c =
      (Inr (), c\<lparr>permitted := p, effective := e, inheritable := i, ambient := ambient c AND (p AND i)\<rparr>)"
    using UpdateCapabilities_cases [of p e i c] by blast+
  have "bit i n \<Longrightarrow> bit (bounding c) n" for n using g(1) assms unfolding cred_ok_def sub_bits by (auto simp: bit_simps)
  then show ?thesis using g(2,3) assms unfolding u cred_ok_def perm_le_def sub_bits by (auto simp: bit_simps)
qed

lemma DropBoundedCap_ok: "cred_ok c \<Longrightarrow> DropBoundedCap cap c = Some (r, c') \<Longrightarrow> cred_ok c' \<and> perm_le c' c"
  unfolding cred_ok_def perm_le_def sub_bits by (auto simp: DropBoundedCap_def DropCap_def bit_simps split: if_splits)

lemma AmbientRaise_ok: "cred_ok c \<Longrightarrow> AmbientRaise cap c = Some (r, c') \<Longrightarrow> cred_ok c' \<and> perm_le c' c"
  unfolding cred_ok_def perm_le_def sub_bits
  by (auto simp: AmbientRaise_def in_set_bit bit_cap_bit bit_simps kMaxCapability_def split: if_splits)

lemma AmbientLower_ok: "cred_ok c \<Longrightarrow> AmbientLower cap c = Some (r, c') \<Longrightarrow> cred_ok c' \<and> perm_le c' c"
  unfolding cred_ok_def perm_le_def sub_bits by (auto simp: AmbientLower_def DropCap_def bit_simps split: if_splits)

lemma perm_le_trans: "perm_le a b \<Longrightarrow> perm_le b c \<Longrightarrow> perm_le a c"
  unfolding perm_le_def sub_bits by blast

lemma usys_prctl_ok:
  assumes "cred_ok c" "usys_prctl cmd a b c = Some (r, c')"
  shows "cred_ok c' \<and> perm_le c' c"
proof -
  have same: "cred_ok c \<and> perm_le c c" "cred_ok (AmbientClear c) \<and> perm_le (AmbientClear c) c"
    using assms(1) by (auto simp: perm_le_def cred_ok_def AmbientClear_def)
  have "c' = c \<or> c' = AmbientClear c \<or> (\<exists>s. DropBoundedCap a c = Some (s, c') \<or> AmbientRaise b c = Some (s, c') \<or> AmbientLower b c = Some (s, c'))"
    using assms(2) unfolding usys_prctl_def by (auto split: if_splits)
  then show ?thesis
    using same DropBoundedCap_ok [OF assms(1)] AmbientRaise_ok [OF assms(1)] AmbientLower_ok [OF assms(1)] by blast
qed

datatype cred_op = OpPrctl int int int | OpCapset u32 "cap_user_data list" | OpSetresuid u32 u32 u32 | OpSetresgid u32 u32 u32
  | OpSetuid u32 | OpSetgid u32 | OpSetgroups "u32 list"

fun cred_step :: "cred_op \<Rightarrow> Credential \<Rightarrow> Credential option" where
  "cred_step (OpPrctl cmd a b) c = map_option snd (usys_prctl cmd a b c)"
| "cred_step (OpCapset v d) c = Some (snd (usys_capset v d c))"
| "cred_step (OpSetresuid r e s) c = Some (usys_setresuid r e s c)"
| "cred_step (OpSetresgid r e s) c = Some (usys_setresgid r e s c)"
| "cred_step (OpSetuid u) c = Some (usys_setuid u c)"
| "cred_step (OpSetgid g) c = Some (usys_setgid g c)"
| "cred_step (OpSetgroups gs) c = Some (usys_setgroups gs c)"

fun cred_run :: "cred_op list \<Rightarrow> Credential \<Rightarrow> Credential option" where
  "cred_run [] c = Some c"
| "cred_run (x # xs) c = (case cred_step x c of None \<Rightarrow> None | Some c' \<Rightarrow> cred_run xs c')"

lemma cred_step_ok:
  assumes "cred_ok c" "cred_step x c = Some c'"
  shows "cred_ok c' \<and> perm_le c' c"
proof (cases x)
  case (OpPrctl cmd a b)
  then show ?thesis using assms usys_prctl_ok by auto
next
  case (OpCapset v d)
  then show ?thesis using assms UpdateCapabilities_ok [OF assms(1)]
    by (auto simp: usys_capset_def perm_le_def split: if_splits prod.splits) (metis snd_conv)+
qed (use assms in \<open>auto simp: cred_ok_def perm_le_def usys_setresuid_def usys_setresgid_def usys_setuid_def usys_setgid_def usys_setgroups_def Let_def\<close>)

lemma cred_run_ok: "cred_ok c \<Longrightarrow> cred_run xs c = Some c' \<Longrightarrow> cred_ok c' \<and> perm_le c' c"
proof (induction xs arbitrary: c)
  case (Cons x xs)
  then obtain d where d: "cred_step x c = Some d" "cred_run xs d = Some c'" by (auto split: option.splits)
  note s = cred_step_ok [OF Cons.prems(1) d(1)]
  then show ?case using Cons.IH [of d] d(2) perm_le_trans by blast
qed (simp add: perm_le_def)

subsection \<open>Properties\<close>

text \<open>The capability sets of a thread are well formed after any sequence of credential system calls: the
  effective capabilities are permitted, and the permitted, inheritable and ambient ones are in the bounding set;
  and no call adds to the permitted or the bounding set.\<close>

theorem capabilities_well_formed:
  assumes "cred_ok c" "cred_run xs c = Some c'"
  shows "cred_ok c' \<and> permitted c' AND NOT (permitted c) = 0 \<and> bounding c' AND NOT (bounding c) = 0"
  using cred_run_ok [OF assms] by (simp add: perm_le_def)

theorem capabilities_well_formed_witness:
  "\<exists>c. cred_run [OpPrctl 24 5 0, OpSetuid 7] (Credential_new 0 0) = Some c \<and> cred_ok c"
proof -
  have "\<exists>c. cred_run [OpPrctl 24 5 0, OpSetuid 7] (Credential_new 0 0) = Some c"
    by (simp add: usys_prctl_def prctl_numbers DropBoundedCap_def kMaxCapability_def split: if_split)
  then obtain c where "cred_run [OpPrctl 24 5 0, OpSetuid 7] (Credential_new 0 0) = Some c" ..
  then show ?thesis using capabilities_well_formed [OF Credential_new_ok] by blast
qed

text \<open>Writing back with \<open>capset\<close> what \<open>capget\<close> returned drops every capability numbered 32 and above.\<close>

lemma capset_drops_high:
  assumes "cred_ok c"
  shows "permitted (snd (usys_capset LINUX_CAPABILITY_VERSION_2 (usys_capget LINUX_CAPABILITY_VERSION_2 c) c)) =
    permitted c AND 0xFFFFFFFF"
proof -
  have lo: "(ucast (ucast (x::u64) :: u32) :: u64) = x AND 0xFFFFFFFF" for x
  proof -
    have m: "(0xFFFFFFFF::u64) = mask 32" by (simp add: mask_eq_exp_minus_1)
    show ?thesis unfolding m by (rule bit_eqI) (auto simp: bit_simps)
  qed
  have "permitted c AND 0xFFFFFFFF AND NOT (permitted c) = 0" "(effective c AND 0xFFFFFFFF) AND NOT (permitted c AND 0xFFFFFFFF) = 0"
    "(inheritable c AND 0xFFFFFFFF) AND NOT (inheritable c OR permitted c) = 0"
    "(inheritable c AND 0xFFFFFFFF) AND NOT (inheritable c OR bounding c) = 0"
    using assms unfolding cred_ok_def sub_bits by (auto simp: bit_eq_iff bit_simps)
  then show ?thesis
    by (simp add: usys_capset_def usys_capget_def UpdateCapabilities_def lo and.assoc)
qed

end
