(* ===== verification/Process.thy ===== *)
theory Process
  imports Signal
begin

text \<open>
  Process identifiers, process groups and sessions, and waiting for children:
  \<^verbatim>\<open>src/junction/kernel/proc.h\<close> and \<^verbatim>\<open>src/junction/kernel/proc.cc\<close>.

  A process identifier stays allocated while a process, a process group or a session carries it; the code
  counts these references in \<open>pid_ref_count\<close>, whose 64-bit counters wrap.  The model keeps the live
  processes with their identifiers beside the counters.
\<close>

definition kMaxProcesses :: nat where "kMaxProcesses = 32768"

record PidState =
  pid_generator :: UIDGenerator
  pid_ref_count :: "nat \<Rightarrow> u64"

definition PidState_new :: PidState where
  "PidState_new = \<lparr>pid_generator = UIDGenerator_new kMaxProcesses 0, pid_ref_count = \<lambda>_. 0\<rparr>"

definition DecRefCountPid :: "nat \<Rightarrow> PidState \<Rightarrow> PidState" where
  "DecRefCountPid pid s =
     (let r = pid_ref_count s pid - 1 in
      if r = 0 then
        \<lparr>pid_generator = uid_Release pid (pid_generator s), pid_ref_count = (pid_ref_count s)(pid := 0)\<rparr>
      else s\<lparr>pid_ref_count := (pid_ref_count s)(pid := r)\<rparr>)"

definition IncRefCountPid :: "nat \<Rightarrow> u64 \<Rightarrow> PidState \<Rightarrow> PidState" where
  "IncRefCountPid pid incr s = s\<lparr>pid_ref_count := (pid_ref_count s)(pid := pid_ref_count s pid + incr)\<rparr>"

definition IncRefOpt :: "nat option \<Rightarrow> PidState \<Rightarrow> PidState" where
  "IncRefOpt p s = (case p of None \<Rightarrow> s | Some x \<Rightarrow> IncRefCountPid x 1 s)"

definition DecRefOpt :: "nat option \<Rightarrow> PidState \<Rightarrow> PidState" where
  "DecRefOpt p s = (case p of None \<Rightarrow> s | Some x \<Rightarrow> DecRefCountPid x s)"

definition AllocPid :: "nat option \<Rightarrow> nat option \<Rightarrow> PidState \<Rightarrow> nat Status \<times> PidState" where
  "AllocPid pgid sid s =
     (case uid_generate (pid_generator s) of
        (None, g) \<Rightarrow> (Inl ENOSPC, s\<lparr>pid_generator := g\<rparr>)
      | (Some tmp, g) \<Rightarrow>
          (Inr tmp, IncRefOpt sid (IncRefOpt pgid
             \<lparr>pid_generator = g, pid_ref_count = (pid_ref_count s)(tmp := 1)\<rparr>)))"

definition AllocNewSession :: "PidState \<Rightarrow> nat Status \<times> PidState" where
  "AllocNewSession s =
     (case uid_generate (pid_generator s) of
        (None, g) \<Rightarrow> (Inl ENOSPC, s\<lparr>pid_generator := g\<rparr>)
      | (Some tmp, g) \<Rightarrow> (Inr tmp, \<lparr>pid_generator = g, pid_ref_count = (pid_ref_count s)(tmp := 3)\<rparr>))"

definition ReleasePid :: "nat \<Rightarrow> nat option \<Rightarrow> nat option \<Rightarrow> PidState \<Rightarrow> PidState" where
  "ReleasePid pid pgid sid s = DecRefOpt sid (DecRefOpt pgid (DecRefCountPid pid s))"

definition AcquirePid :: "nat \<Rightarrow> nat option \<Rightarrow> nat option \<Rightarrow> PidState \<Rightarrow> PidState" where
  "AcquirePid pid pgid sid s =
     IncRefOpt sid (IncRefOpt pgid (IncRefCountPid pid 1 (s\<lparr>pid_generator := uid_Acquire pid (pid_generator s)\<rparr>)))"

record ProcIds =
  p_pid :: nat
  p_pgid :: nat
  p_sid :: nat

definition is_session_leader :: "ProcIds \<Rightarrow> bool" where
  "is_session_leader p \<longleftrightarrow> p_sid p = p_pid p"

definition is_process_group_leader :: "ProcIds \<Rightarrow> bool" where
  "is_process_group_leader p \<longleftrightarrow> p_pgid p = p_pid p"

definition BecomeSessionLeader :: "ProcIds \<Rightarrow> PidState \<Rightarrow> nat Status \<times> ProcIds \<times> PidState" where
  "BecomeSessionLeader p s =
     (if is_process_group_leader p then (Inl EPERM, p, s)
      else
        (Inr (p_pid p), p\<lparr>p_sid := p_pid p, p_pgid := p_pid p\<rparr>,
         DecRefCountPid (p_pgid p) (DecRefCountPid (p_sid p) (IncRefCountPid (p_pid p) 2 s))))"

definition JoinProcessGroup :: "nat \<Rightarrow> ProcIds \<Rightarrow> PidState \<Rightarrow> unit Status \<times> ProcIds \<times> PidState" where
  "JoinProcessGroup pgid p s =
     (if is_process_group_leader p then (Inl EPERM, p, s)
      else (Inr (), p\<lparr>p_pgid := pgid\<rparr>, IncRefCountPid pgid 1 (DecRefCountPid (p_pgid p) s)))"

text \<open>\<open>setpgid\<close>, for the calling process or a found one \<open>target\<close>.  The final test is inverted: a failure
  is reported as 0, and after a success the error of a result that holds none is read.\<close>

definition usys_setpgid :: "nat \<Rightarrow> nat \<Rightarrow> nat \<Rightarrow> ProcIds option \<Rightarrow> ProcIds \<Rightarrow> PidState \<Rightarrow> int option \<times> ProcIds option \<times> PidState" where
  "usys_setpgid mypid pid pgid target me s =
     (let g = (if pgid = 0 then p_pgid me else pgid);
          join = (\<lambda>p. case JoinProcessGroup g p s of
                    (Inl e, p', s') \<Rightarrow> (Some 0, Some p', s')
                  | (Inr _, p', s') \<Rightarrow> (None, Some p', s'))
      in if pid = 0 \<or> pid = mypid then join me
         else (case target of None \<Rightarrow> (Some (- ESRCH), None, s) | Some p \<Rightarrow> join p))"

definition usys_setsid :: "ProcIds \<Rightarrow> PidState \<Rightarrow> int \<times> ProcIds \<times> PidState" where
  "usys_setsid p s =
     (if is_session_leader p then (0, p, s)
      else if is_process_group_leader p then (- EPERM, p, s)
      else
        (case BecomeSessionLeader p s of
           (Inl e, p', s') \<Rightarrow> (MakeCError e, p', s')
         | (Inr r, p', s') \<Rightarrow> (int r, p', s')))"

subsection \<open>Waiting for children\<close>

definition kNotWaitable :: u32 where "kNotWaitable = 0"
definition kWaitableExited :: u32 where "kWaitableExited = 4"
definition kWaitableStopped :: u32 where "kWaitableStopped = 2"
definition kWaitableContinued :: u32 where "kWaitableContinued = 8"
definition WNOHANG :: u32 where "WNOHANG = 1"
definition WNOWAIT :: u32 where "WNOWAIT = 0x1000000"

lemmas wait_states = kNotWaitable_def kWaitableExited_def kWaitableStopped_def kWaitableContinued_def

record Child =
  c_pid :: int
  c_pgid :: int
  c_wait_state :: u32
  c_wait_status :: int

text \<open>An unknown state is a bug check of the code and gives \<open>None\<close>.\<close>

definition WaitStateToSi :: "u32 \<Rightarrow> int option" where
  "WaitStateToSi state =
     (if state = kWaitableExited then Some 1
      else if state = kWaitableStopped then Some 5
      else if state = kWaitableContinued then Some 6
      else None)"

definition FillWaitInfo :: "Child \<Rightarrow> siginfo option" where
  "FillWaitInfo c =
     map_option (\<lambda>code. \<lparr>si_signo = SIGCHLD, si_code = code, si_pid = c_pid c, si_status = c_wait_status c\<rparr>)
       (WaitStateToSi (c_wait_state c))"

definition GetWaitStatus :: "Child \<Rightarrow> int option" where
  "GetWaitStatus c =
     (if c_wait_state c = kWaitableExited then Some (c_wait_status c * 256)
      else if c_wait_state c = kWaitableStopped then Some (SIGSTOP * 256 + 127)
      else if c_wait_state c = kWaitableContinued then Some 0xffff
      else None)"

definition ReapChild :: "Child \<Rightarrow> Child list \<Rightarrow> Child list" where
  "ReapChild c cs =
     (if c_wait_state c \<noteq> kWaitableExited
      then map (\<lambda>d. if c_pid d = c_pid c then d\<lparr>c_wait_state := kNotWaitable\<rparr> else d) cs
      else filter (\<lambda>d. c_pid d \<noteq> c_pid c) cs)"

definition NotifyParentWait :: "u32 \<Rightarrow> int \<Rightarrow> Child \<Rightarrow> SigProcess option \<Rightarrow> (Child \<times> SigProcess option) option" where
  "NotifyParentWait state status c parent =
     (case parent of
        None \<Rightarrow> Some (c, None)
      | Some P \<Rightarrow>
          (let c' = c\<lparr>c_wait_status := status, c_wait_state := state\<rparr>
           in case FillWaitInfo c' of
                None \<Rightarrow> None
              | Some info \<Rightarrow> map_option (\<lambda>P'. (c', Some P')) (SignalLocked info P)))"

definition P_ALL :: nat where "P_ALL = 0"
definition P_PID :: nat where "P_PID = 1"
definition P_PGID :: nat where "P_PGID = 2"
definition P_PIDFD :: nat where "P_PIDFD = 3"

fun find_loop :: "nat \<Rightarrow> int \<Rightarrow> u32 \<Rightarrow> bool \<Rightarrow> Child list \<Rightarrow> Child option Status" where
  "find_loop idtype i flags has_candidates [] = (if has_candidates then Inr None else Inl ECHILD)"
| "find_loop idtype i flags has_candidates (p # ps) =
     (if idtype = P_PID \<and> c_pid p \<noteq> i then find_loop idtype i flags has_candidates ps
      else if idtype = P_PGID \<and> c_pgid p \<noteq> i then find_loop idtype i flags has_candidates ps
      else if c_wait_state p AND flags \<noteq> 0 then Inr (Some p)
      else find_loop idtype i flags True ps)"

definition FindWaitableProcess :: "nat \<Rightarrow> int \<Rightarrow> u32 \<Rightarrow> int \<Rightarrow> Child list \<Rightarrow> Child option Status" where
  "FindWaitableProcess idtype i wait_flags mypgid cs =
     (if idtype = P_PIDFD then Inl EINVAL
      else find_loop idtype (if idtype = P_PGID \<and> i = 0 then mypgid else i) wait_flags False cs)"

datatype wait_result = WaitSleep | WaitFail errno | WaitDone int "siginfo option" "int option" "Child list"

definition wait_finish :: "Child \<Rightarrow> bool \<Rightarrow> Child list \<Rightarrow> wait_result" where
  "wait_finish p dont_reap cs = WaitDone (c_pid p) (FillWaitInfo p) (GetWaitStatus p) (if dont_reap then cs else ReapChild p cs)"

definition DoWait :: "nat \<Rightarrow> int \<Rightarrow> u32 \<Rightarrow> bool \<Rightarrow> int \<Rightarrow> Child list \<Rightarrow> wait_result" where
  "DoWait idtype i options intr mypgid cs =
     (let flags = kWaitableExited OR (options AND (kWaitableContinued OR kWaitableStopped)) in
      case FindWaitableProcess idtype i flags mypgid cs of
        Inl e \<Rightarrow> WaitFail e
      | Inr (Some p) \<Rightarrow> wait_finish p (options AND WNOWAIT \<noteq> 0) cs
      | Inr None \<Rightarrow>
          if options AND WNOHANG \<noteq> 0 then WaitFail EAGAIN
          else if intr then WaitFail ERESTARTSYS
          else WaitSleep)"

text \<open>\<open>ProcessFinish\<close> moves the children of a finished process to the first process.\<close>

definition reparent :: "Child list \<Rightarrow> Child list \<Rightarrow> Child list" where
  "reparent child_procs init_children = init_children @ child_procs"

definition Thread_Kill :: "siginfo \<Rightarrow> ThreadSignalHandler \<Rightarrow> ThreadSignalHandler" where
  "Thread_Kill garbage h =
     (case EnqueueSignal (garbage\<lparr>si_signo := SIGKILL\<rparr>) h of
        None \<Rightarrow> h
      | Some (b, h') \<Rightarrow> if b then SendIpi h' else h')"

definition KillOthers :: "siginfo \<Rightarrow> int \<Rightarrow> SigProcess \<Rightarrow> SigProcess" where
  "KillOthers garbage mytid P =
     P\<lparr>threads := \<lambda>t. if t = mytid then threads P t else map_option (Thread_Kill garbage) (threads P t)\<rparr>"

lemma find_loop_some:
  "find_loop idtype i flags b cs = Inr (Some p) \<Longrightarrow> p \<in> set cs \<and> c_wait_state p AND flags \<noteq> 0 \<and>
     (idtype = P_PID \<longrightarrow> c_pid p = i) \<and> (idtype = P_PGID \<longrightarrow> c_pgid p = i)"
  by (induction idtype i flags b cs rule: find_loop.induct) (auto split: if_splits)

lemma find_loop_none:
  "find_loop idtype i flags b cs = Inr None \<Longrightarrow>
     \<forall>p \<in> set cs. (idtype = P_PID \<longrightarrow> c_pid p = i) \<and> (idtype = P_PGID \<longrightarrow> c_pgid p = i) \<longrightarrow> c_wait_state p AND flags = 0"
proof (induction cs arbitrary: b)
  case (Cons p cs)
  show ?case
  proof (cases "(idtype = P_PID \<and> c_pid p \<noteq> i) \<or> (idtype = P_PGID \<and> c_pgid p \<noteq> i)")
    case True
    then have "find_loop idtype i flags b cs = Inr None" using Cons.prems by (auto split: if_splits)
    then show ?thesis using Cons.IH True by auto
  next
    case False
    then have "c_wait_state p AND flags = 0" "find_loop idtype i flags True cs = Inr None"
      using Cons.prems by (auto split: if_splits)
    then show ?thesis using Cons.IH by simp
  qed
qed simp

lemma find_loop_echild:
  "find_loop idtype i flags b cs = Inl e \<longleftrightarrow> e = ECHILD \<and> \<not> b \<and>
     (\<forall>p \<in> set cs. (idtype = P_PID \<and> c_pid p \<noteq> i) \<or> (idtype = P_PGID \<and> c_pgid p \<noteq> i))"
  by (induction idtype i flags b cs rule: find_loop.induct) auto

lemma ReapChild_pids:
  "c_pid ` set (ReapChild c cs) = (if c_wait_state c \<noteq> kWaitableExited then c_pid ` set cs else c_pid ` set cs - {c_pid c})"
proof -
  have "map c_pid (map (\<lambda>d. if c_pid d = c_pid c then d\<lparr>c_wait_state := kNotWaitable\<rparr> else d) cs) = map c_pid cs" by simp
  then have "c_pid ` set (map (\<lambda>d. if c_pid d = c_pid c then d\<lparr>c_wait_state := kNotWaitable\<rparr> else d) cs) = c_pid ` set cs"
    by (metis list.set_map)
  then show ?thesis by (auto simp: ReapChild_def simp del: set_map)
qed

text \<open>A successful wait returns a child in a requested state and takes it out of the list of children
  exactly when it has exited and is to be reaped.\<close>

lemma DoWait_done:
  assumes "DoWait idtype i options intr g cs = WaitDone pid info st cs'"
  shows "\<exists>p \<in> set cs. c_pid p = pid \<and> c_wait_state p AND (kWaitableExited OR (options AND (kWaitableContinued OR kWaitableStopped))) \<noteq> 0 \<and>
    (pid \<in> c_pid ` set cs' \<longleftrightarrow> options AND WNOWAIT \<noteq> 0 \<or> c_wait_state p \<noteq> kWaitableExited)"
proof -
  let ?f = "kWaitableExited OR (options AND (kWaitableContinued OR kWaitableStopped))"
  obtain p where p: "FindWaitableProcess idtype i ?f g cs = Inr (Some p)" "wait_finish p (options AND WNOWAIT \<noteq> 0) cs = WaitDone pid info st cs'"
    using assms unfolding DoWait_def Let_def by (auto split: sum.splits option.splits if_splits)
  have "p \<in> set cs \<and> c_wait_state p AND ?f \<noteq> 0"
    using p(1) find_loop_some unfolding FindWaitableProcess_def by (metis sum.distinct(1))
  moreover have "pid = c_pid p" "cs' = (if options AND WNOWAIT \<noteq> 0 then cs else ReapChild p cs)"
    using p(2) by (auto simp: wait_finish_def)
  ultimately show ?thesis using ReapChild_pids [of p cs] by (intro bexI [of _ p]) auto
qed

end
