(* ===== verification/PidRefs.thy ===== *)
theory PidRefs
  imports Process "HOL-Library.Multiset"
begin

text \<open>
  The reference counts of process identifiers.  The references are the multiset of the identifiers that the
  live processes carry as process, group and session identifier, and those of the threads.  A step relation
  covers the operations that change identifiers.
\<close>

definition pid_inv :: "PidState \<Rightarrow> nat multiset \<Rightarrow> bool" where
  "pid_inv s M \<longleftrightarrow> bm_ok (uid_bits (pid_generator s)) \<and> bm_size (uid_bits (pid_generator s)) = kMaxProcesses \<and>
     (\<forall>x. unat (pid_ref_count s x) = count M x) \<and> uid_used (pid_generator s) = set_mset M"

lemma uid_used_range: "uid_used g \<subseteq> {1..bm_size (uid_bits g)}"
  by (auto simp: uid_used_def)

lemma set_mset_remove:
  assumes "x \<in># M"
  shows "set_mset (M - {#x#}) = (if count M x = 1 then set_mset M - {x} else set_mset M)"
proof (rule set_eqI)
  fix y
  have "0 < count M x" using assms by simp
  then show "y \<in># M - {#x#} \<longleftrightarrow> y \<in> (if count M x = 1 then set_mset M - {x} else set_mset M)"
    by (cases "y = x") (auto simp: count_greater_zero_iff [symmetric] simp del: count_greater_zero_iff)
qed

lemma Dec_inv:
  assumes "pid_inv s M" "x \<in># M"
  shows "pid_inv (DecRefCountPid x s) (M - {#x#})"
proof -
  let ?r = "pid_ref_count s x"
  have pos: "0 < count M x" using assms(2) by simp
  have u: "unat ?r = count M x" using assms(1) by (simp add: pid_inv_def)
  have "?r \<noteq> 0" using u pos by (metis less_numeral_extra(3) unat_0)
  then have d: "unat (?r - 1) = count M x - 1" using u by (simp add: unat_minus_one)
  then have one: "?r - 1 = 0 \<longleftrightarrow> count M x = 1" using pos by (simp add: unat_eq_0 [symmetric] del: count_greater_zero_iff) linarith
  have "x \<in> uid_used (pid_generator s)" using assms by (simp add: pid_inv_def)
  then have r: "1 \<le> x" "x \<le> bm_size (uid_bits (pid_generator s))" using uid_used_range by fastforce+
  have b: "bm_ok (uid_bits (pid_generator s))" using assms(1) by (simp add: pid_inv_def)
  note R = uid_Release_spec [OF b r]
  have cnt: "count (M - {#x#}) y = (if y = x then count M x - 1 else count M y)" for y by simp
  show ?thesis
  proof (cases "?r - 1 = 0")
    case True
    then have D: "DecRefCountPid x s = \<lparr>pid_generator = uid_Release x (pid_generator s), pid_ref_count = (pid_ref_count s)(x := 0)\<rparr>"
      by (simp add: DecRefCountPid_def)
    show ?thesis using True one R assms unfolding pid_inv_def D cnt set_mset_remove [OF assms(2)] by simp
  next
    case False
    then have D: "DecRefCountPid x s = s\<lparr>pid_ref_count := (pid_ref_count s)(x := ?r - 1)\<rparr>" by (simp add: DecRefCountPid_def)
    show ?thesis using False one d assms unfolding pid_inv_def D cnt set_mset_remove [OF assms(2)] by simp
  qed
qed

lemma Inc_inv:
  assumes "pid_inv s M" "x \<in># M" "size M + unat k < 2 ^ 64"
  shows "pid_inv (IncRefCountPid x k s) (M + replicate_mset (unat k) x)"
proof -
  have "count M x \<le> size M" by (rule count_le_size)
  then have "unat (pid_ref_count s x + k) = count M x + unat k"
    using assms(1,3) by (subst unat_add_no_wrap) (auto simp: pid_inv_def)
  then show ?thesis using assms(1,2) by (auto simp: pid_inv_def IncRefCountPid_def split: if_splits)
qed

lemma Alloc_inv:
  assumes "pid_inv s M" "uid_generate (pid_generator s) = (Some n, g)" "0 < k"
  shows "n \<notin># M" "pid_inv \<lparr>pid_generator = g, pid_ref_count = (pid_ref_count s)(n := k)\<rparr> (M + replicate_mset (unat k) n)"
proof -
  have b: "bm_ok (uid_bits (pid_generator s))" using assms(1) by (simp add: pid_inv_def)
  note U = uid_generate_spec [OF b assms(2)]
  show n: "n \<notin># M" using U assms(1) by (auto simp: pid_inv_def)
  then have "count M n = 0" by (simp add: not_in_iff)
  moreover have "0 < unat k" using assms(3) by (simp add: word_less_nat_alt)
  ultimately show "pid_inv \<lparr>pid_generator = g, pid_ref_count = (pid_ref_count s)(n := k)\<rparr> (M + replicate_mset (unat k) n)"
    using U assms(1) by (auto simp: pid_inv_def)
qed

lemma Alloc_fail_inv:
  assumes "pid_inv s M" "uid_generate (pid_generator s) = (None, g)"
  shows "pid_inv (s\<lparr>pid_generator := g\<rparr>) M"
  using assms uid_generate_spec [OF _ assms(2)] by (auto simp: pid_inv_def)

subsection \<open>The processes\<close>

record PidWorld =
  pw_state :: PidState
  pw_procs :: "ProcIds list"
  pw_tids :: "nat list"

definition ids :: "ProcIds \<Rightarrow> nat multiset" where
  "ids p = {#p_pid p, p_pgid p, p_sid p#}"

definition refs :: "PidWorld \<Rightarrow> nat multiset" where
  "refs W = (\<Sum>p \<in># mset (pw_procs W). ids p) + mset (pw_tids W)"

definition pid_wf :: "PidWorld \<Rightarrow> bool" where
  "pid_wf W \<longleftrightarrow> pid_inv (pw_state W) (refs W) \<and> distinct (map p_pid (pw_procs W) @ pw_tids W)"

lemma size_refs: "size (refs W) = 3 * length (pw_procs W) + length (pw_tids W)"
proof -
  have "size (\<Sum>p \<in># mset ps. ids p) = 3 * length ps" for ps by (induction ps) (simp_all add: ids_def)
  then show ?thesis by (simp add: refs_def)
qed

lemma own_in_refs: "p \<in> set (pw_procs W) \<Longrightarrow> ids p \<subseteq># refs W"
proof -
  assume "p \<in> set (pw_procs W)"
  then obtain ps qs where "pw_procs W = ps @ p # qs" by (meson split_list)
  then show ?thesis by (simp add: refs_def)
qed

lemma refs_small:
  assumes "pid_wf W"
  shows "size (refs W) \<le> 3 * kMaxProcesses"
proof -
  have d: "distinct (map p_pid (pw_procs W) @ pw_tids W)" using assms by (simp add: pid_wf_def)
  have "set (map p_pid (pw_procs W) @ pw_tids W) \<subseteq> set_mset (refs W)"
  proof
    fix x assume "x \<in> set (map p_pid (pw_procs W) @ pw_tids W)"
    then consider p where "p \<in> set (pw_procs W)" "x = p_pid p" | "x \<in> set (pw_tids W)" by auto
    then show "x \<in># refs W"
    proof cases
      case (1 p)
      then show ?thesis using own_in_refs [of p W] by (auto simp: ids_def dest!: mset_subset_eqD)
    next
      case 2
      then show ?thesis by (simp add: refs_def)
    qed
  qed
  also have "set_mset (refs W) \<subseteq> {1..kMaxProcesses}"
    using assms uid_used_range [of "pid_generator (pw_state W)"] by (simp add: pid_wf_def pid_inv_def)
  finally have "card (set (map p_pid (pw_procs W) @ pw_tids W)) \<le> card {1..kMaxProcesses}"
    by (intro card_mono) auto
  then have "length (pw_procs W) + length (pw_tids W) \<le> kMaxProcesses" using distinct_card [OF d] by simp
  then show ?thesis by (simp add: size_refs)
qed

lemma refs_room:
  assumes "pid_wf W" "n \<le> 3"
  shows "size (refs W) + n < 2 ^ 64"
  using refs_small [OF assms(1)] assms(2) by (simp add: kMaxProcesses_def)

subsection \<open>Steps\<close>

text \<open>The operations that change identifiers: the first process of a session, a new process, the release of
  a reaped process, a new session, joining another group that is in use, and threads.\<close>

inductive pid_step :: "PidWorld \<Rightarrow> PidWorld \<Rightarrow> bool" where
  session: "AllocNewSession (pw_state W) = (Inr n, s) \<Longrightarrow>
     pid_step W (W\<lparr>pw_state := s, pw_procs := pw_procs W @ [\<lparr>p_pid = n, p_pgid = n, p_sid = n\<rparr>]\<rparr>)"
| fork: "p \<in> set (pw_procs W) \<Longrightarrow> AllocPid (Some (p_pgid p)) (Some (p_sid p)) (pw_state W) = (Inr n, s) \<Longrightarrow>
     pid_step W (W\<lparr>pw_state := s, pw_procs := pw_procs W @ [\<lparr>p_pid = n, p_pgid = p_pgid p, p_sid = p_sid p\<rparr>]\<rparr>)"
| reap: "pw_procs W = ps @ p # qs \<Longrightarrow>
     pid_step W (W\<lparr>pw_state := ReleasePid (p_pid p) (Some (p_pgid p)) (Some (p_sid p)) (pw_state W), pw_procs := ps @ qs\<rparr>)"
| setsid: "pw_procs W = ps @ p # qs \<Longrightarrow> usys_setsid p (pw_state W) = (r, p', s) \<Longrightarrow>
     pid_step W (W\<lparr>pw_state := s, pw_procs := ps @ p' # qs\<rparr>)"
| join: "pw_procs W = ps @ p # qs \<Longrightarrow> g \<in># refs W - {#p_pgid p#} \<Longrightarrow> JoinProcessGroup g p (pw_state W) = (r, p', s) \<Longrightarrow>
     pid_step W (W\<lparr>pw_state := s, pw_procs := ps @ p' # qs\<rparr>)"
| thread: "AllocPid None None (pw_state W) = (Inr n, s) \<Longrightarrow> pid_step W (W\<lparr>pw_state := s, pw_tids := pw_tids W @ [n]\<rparr>)"
| thread_exit: "pw_tids W = ts @ n # us \<Longrightarrow>
     pid_step W (W\<lparr>pw_state := ReleasePid n None None (pw_state W), pw_tids := ts @ us\<rparr>)"

lemma refs_split: "pw_procs W = ps @ p # qs \<Longrightarrow> refs W = refs (W\<lparr>pw_procs := ps @ qs\<rparr>) + ids p"
  by (simp add: refs_def)

lemma Inc1_inv: "pid_inv s M \<Longrightarrow> x \<in># M \<Longrightarrow> size M + 1 < 2 ^ 64 \<Longrightarrow> pid_inv (IncRefCountPid x 1 s) (add_mset x M)"
  using Inc_inv [of s M x 1] by simp

lemma fresh_id:
  assumes "n \<notin># refs W"
  shows "n \<notin> set (map p_pid (pw_procs W) @ pw_tids W)"
proof
  assume "n \<in> set (map p_pid (pw_procs W) @ pw_tids W)"
  then have "n \<in># refs W" using own_in_refs [of _ W] by (auto simp: ids_def refs_def dest: mset_subset_eqD)
  then show False using assms by simp
qed

lemma own_mem:
  assumes "p \<in> set (pw_procs W)"
  shows "p_pid p \<in># refs W" "p_pgid p \<in># refs W" "p_sid p \<in># refs W"
  using own_in_refs [OF assms] by (auto simp: ids_def dest: mset_subset_eqD)

lemma replicate_small: "replicate_mset (unat (2::u64)) x = {#x, x#}" "replicate_mset (unat (3::u64)) x = {#x, x, x#}"
proof -
  have "unat (2::u64) = Suc (Suc 0)" "unat (3::u64) = Suc (Suc (Suc 0))" by simp_all
  then show "replicate_mset (unat (2::u64)) x = {#x, x#}" "replicate_mset (unat (3::u64)) x = {#x, x, x#}"
    by (simp_all only: replicate_mset_Suc replicate_mset_0)
qed

lemma session_wf:
  assumes "pid_wf W" "AllocNewSession (pw_state W) = (Inr n, s)"
  shows "pid_wf (W\<lparr>pw_state := s, pw_procs := pw_procs W @ [\<lparr>p_pid = n, p_pgid = n, p_sid = n\<rparr>]\<rparr>)"
proof -
  obtain g where g: "uid_generate (pid_generator (pw_state W)) = (Some n, g)"
    "s = \<lparr>pid_generator = g, pid_ref_count = (pid_ref_count (pw_state W))(n := 3)\<rparr>"
    using assms(2) by (auto simp: AllocNewSession_def split: prod.splits option.splits)
  have inv: "pid_inv (pw_state W) (refs W)" using assms(1) by (simp add: pid_wf_def)
  note A = Alloc_inv [OF inv g(1), of 3]
  have "refs (W\<lparr>pw_state := s, pw_procs := pw_procs W @ [\<lparr>p_pid = n, p_pgid = n, p_sid = n\<rparr>]\<rparr>) = refs W + {#n, n, n#}"
    by (simp add: refs_def ids_def)
  moreover have "pid_inv s (refs W + {#n, n, n#})" using A(2) unfolding g(2) replicate_small by (simp add: word_less_nat_alt)
  ultimately show ?thesis using fresh_id [OF A(1)] assms(1) by (simp add: pid_wf_def)
qed

lemma fork_wf:
  assumes "pid_wf W" "p \<in> set (pw_procs W)" "AllocPid (Some (p_pgid p)) (Some (p_sid p)) (pw_state W) = (Inr n, s)"
  shows "pid_wf (W\<lparr>pw_state := s, pw_procs := pw_procs W @ [\<lparr>p_pid = n, p_pgid = p_pgid p, p_sid = p_sid p\<rparr>]\<rparr>)" (is "pid_wf ?W")
proof -
  let ?M = "refs W"
  obtain g where g: "uid_generate (pid_generator (pw_state W)) = (Some n, g)"
    "s = IncRefCountPid (p_sid p) 1 (IncRefCountPid (p_pgid p) 1 \<lparr>pid_generator = g, pid_ref_count = (pid_ref_count (pw_state W))(n := 1)\<rparr>)"
    using assms(3) by (auto simp: AllocPid_def IncRefOpt_def split: prod.splits option.splits)
  have inv: "pid_inv (pw_state W) ?M" using assms(1) by (simp add: pid_wf_def)
  note A = Alloc_inv [OF inv g(1), of 1]
  have sz: "size ?M + 3 < 2 ^ 64" by (rule refs_room [OF assms(1)]) simp
  have "pid_inv s (add_mset (p_sid p) (add_mset (p_pgid p) (add_mset n ?M)))"
    unfolding g(2) by (intro Inc1_inv) (use A own_mem [OF assms(2)] sz in auto)
  moreover have "refs ?W = add_mset (p_sid p) (add_mset (p_pgid p) (add_mset n ?M))"
    by (simp add: refs_def ids_def add_mset_commute)
  ultimately show ?thesis using assms(1) fresh_id [OF A(1)] by (simp add: pid_wf_def)
qed

lemma reap_wf:
  assumes "pid_wf W" "pw_procs W = ps @ p # qs"
  shows "pid_wf (W\<lparr>pw_state := ReleasePid (p_pid p) (Some (p_pgid p)) (Some (p_sid p)) (pw_state W), pw_procs := ps @ qs\<rparr>)"
proof -
  let ?N = "refs (W\<lparr>pw_procs := ps @ qs\<rparr>)"
  have M: "refs W = add_mset (p_pid p) (add_mset (p_pgid p) (add_mset (p_sid p) ?N))" using refs_split [OF assms(2)] by (simp add: ids_def)
  have inv: "pid_inv (pw_state W) (refs W)" using assms(1) by (simp add: pid_wf_def)
  have 1: "pid_inv (DecRefCountPid (p_pid p) (pw_state W)) (add_mset (p_pgid p) (add_mset (p_sid p) ?N))"
    using Dec_inv [OF inv, of "p_pid p"] M by simp
  have 2: "pid_inv (DecRefCountPid (p_pgid p) (DecRefCountPid (p_pid p) (pw_state W))) (add_mset (p_sid p) ?N)"
    using Dec_inv [OF 1, of "p_pgid p"] by simp
  have "pid_inv (ReleasePid (p_pid p) (Some (p_pgid p)) (Some (p_sid p)) (pw_state W)) ?N"
    using Dec_inv [OF 2, of "p_sid p"] by (simp add: ReleasePid_def DecRefOpt_def)
  then show ?thesis using assms by (auto simp: pid_wf_def refs_def)
qed

lemma setsid_wf:
  assumes "pid_wf W" "pw_procs W = ps @ p # qs" "usys_setsid p (pw_state W) = (r, p', s)"
  shows "pid_wf (W\<lparr>pw_state := s, pw_procs := ps @ p' # qs\<rparr>)"
proof (cases "is_process_group_leader p \<or> is_session_leader p")
  case True
  then have "p' = p" "s = pw_state W" using assms(3) by (auto simp: usys_setsid_def split: if_splits)
  then show ?thesis using assms(1,2) by (simp add: pid_wf_def refs_def)
next
  case False
  let ?M = "refs W" and ?N = "refs (W\<lparr>pw_procs := ps @ qs\<rparr>)" and ?s1 = "IncRefCountPid (p_pid p) 2 (pw_state W)"
  have p': "p' = p\<lparr>p_sid := p_pid p, p_pgid := p_pid p\<rparr>" "s = DecRefCountPid (p_pgid p) (DecRefCountPid (p_sid p) ?s1)"
    using assms(3) False by (auto simp: usys_setsid_def BecomeSessionLeader_def)
  have M: "?M = add_mset (p_pid p) (add_mset (p_pgid p) (add_mset (p_sid p) ?N))" using refs_split [OF assms(2)] by (simp add: ids_def)
  have inv: "pid_inv (pw_state W) ?M" using assms(1) by (simp add: pid_wf_def)
  have "pid_inv ?s1 (?M + replicate_mset (unat (2::u64)) (p_pid p))"
    by (rule Inc_inv [OF inv]) (use M refs_room [OF assms(1), of 2] in auto)
  moreover have "?M + replicate_mset (unat (2::u64)) (p_pid p) = add_mset (p_sid p) (add_mset (p_pgid p) (?N + {#p_pid p, p_pid p, p_pid p#}))"
    unfolding replicate_small by (simp add: M add_mset_commute)
  ultimately have 1: "pid_inv ?s1 (add_mset (p_sid p) (add_mset (p_pgid p) (?N + {#p_pid p, p_pid p, p_pid p#})))" by simp
  have 2: "pid_inv (DecRefCountPid (p_sid p) ?s1) (add_mset (p_pgid p) (?N + {#p_pid p, p_pid p, p_pid p#}))"
    using Dec_inv [OF 1, of "p_sid p"] by simp
  have "pid_inv s (?N + {#p_pid p, p_pid p, p_pid p#})" using Dec_inv [OF 2, of "p_pgid p"] by (simp add: p'(2))
  moreover have "refs (W\<lparr>pw_state := s, pw_procs := ps @ p' # qs\<rparr>) = ?N + {#p_pid p, p_pid p, p_pid p#}"
    by (simp add: refs_def ids_def p'(1))
  ultimately show ?thesis using assms(1,2) by (simp add: pid_wf_def p'(1))
qed

lemma join_wf:
  assumes "pid_wf W" "pw_procs W = ps @ p # qs" "g \<in># refs W - {#p_pgid p#}" "JoinProcessGroup g p (pw_state W) = (r, p', s)"
  shows "pid_wf (W\<lparr>pw_state := s, pw_procs := ps @ p' # qs\<rparr>)"
proof (cases "is_process_group_leader p")
  case True
  then have "p' = p" "s = pw_state W" using assms(4) by (auto simp: JoinProcessGroup_def)
  then show ?thesis using assms(1,2) by (simp add: pid_wf_def refs_def)
next
  case False
  let ?M = "refs W" and ?N = "refs (W\<lparr>pw_procs := ps @ qs\<rparr>)"
  have p': "p' = p\<lparr>p_pgid := g\<rparr>" "s = IncRefCountPid g 1 (DecRefCountPid (p_pgid p) (pw_state W))"
    using assms(4) False by (auto simp: JoinProcessGroup_def)
  have M: "?M - {#p_pgid p#} = add_mset (p_pid p) (add_mset (p_sid p) ?N)" using refs_split [OF assms(2)] by (simp add: ids_def add_mset_commute)
  have inv: "pid_inv (pw_state W) ?M" using assms(1) by (simp add: pid_wf_def)
  have "p_pgid p \<in># ?M" by (rule own_mem(2)) (simp add: assms(2))
  then have "pid_inv (DecRefCountPid (p_pgid p) (pw_state W)) (?M - {#p_pgid p#})" by (rule Dec_inv [OF inv])
  moreover have "size (?M - {#p_pgid p#}) + 1 < 2 ^ 64"
    using refs_room [OF assms(1), of 1] diff_size_le_size_Diff [of ?M "{#p_pgid p#}"] size_mset_mono [of "?M - {#p_pgid p#}" ?M]
    by simp
  ultimately have "pid_inv s (add_mset g (?M - {#p_pgid p#}))" unfolding p'(2) using assms(3) by (intro Inc1_inv)
  moreover have "refs (W\<lparr>pw_state := s, pw_procs := ps @ p' # qs\<rparr>) = add_mset g (?M - {#p_pgid p#})"
    unfolding M by (simp add: refs_def ids_def p'(1) add_mset_commute)
  ultimately show ?thesis using assms(1,2) by (simp add: pid_wf_def p'(1))
qed

lemma thread_wf:
  assumes "pid_wf W" "AllocPid None None (pw_state W) = (Inr n, s)"
  shows "pid_wf (W\<lparr>pw_state := s, pw_tids := pw_tids W @ [n]\<rparr>)"
proof -
  obtain g where g: "uid_generate (pid_generator (pw_state W)) = (Some n, g)"
    "s = \<lparr>pid_generator = g, pid_ref_count = (pid_ref_count (pw_state W))(n := 1)\<rparr>"
    using assms(2) by (auto simp: AllocPid_def IncRefOpt_def split: prod.splits option.splits)
  have inv: "pid_inv (pw_state W) (refs W)" using assms(1) by (simp add: pid_wf_def)
  note A = Alloc_inv [OF inv g(1), of 1]
  show ?thesis using A fresh_id [OF A(1)] assms(1) g(2) by (auto simp: pid_wf_def refs_def)
qed

lemma thread_exit_wf:
  assumes "pid_wf W" "pw_tids W = ts @ n # us"
  shows "pid_wf (W\<lparr>pw_state := ReleasePid n None None (pw_state W), pw_tids := ts @ us\<rparr>)"
proof -
  have inv: "pid_inv (pw_state W) (refs W)" using assms(1) by (simp add: pid_wf_def)
  have "pid_inv (ReleasePid n None None (pw_state W)) (refs W - {#n#})"
    using Dec_inv [OF inv, of n] assms(2) by (simp add: ReleasePid_def DecRefOpt_def refs_def)
  moreover have "refs W - {#n#} = refs (W\<lparr>pw_state := ReleasePid n None None (pw_state W), pw_tids := ts @ us\<rparr>)"
    using assms(2) by (simp add: refs_def)
  ultimately show ?thesis using assms by (auto simp: pid_wf_def)
qed

lemma pid_step_wf: "pid_step W W' \<Longrightarrow> pid_wf W \<Longrightarrow> pid_wf W'"
  by (induction rule: pid_step.induct)
    (simp_all add: session_wf fork_wf reap_wf setsid_wf join_wf thread_wf thread_exit_wf)

inductive pid_reach :: "PidWorld \<Rightarrow> bool" where
  start: "pid_reach \<lparr>pw_state = PidState_new, pw_procs = [], pw_tids = []\<rparr>"
| step: "pid_reach W \<Longrightarrow> pid_step W W' \<Longrightarrow> pid_reach W'"

lemma pid_reach_wf: "pid_reach W \<Longrightarrow> pid_wf W"
proof (induction rule: pid_reach.induct)
  case start
  have "uid_used (UIDGenerator_new kMaxProcesses 0) = {}"
    using bm_test_new(1) [of _ kMaxProcesses] by (auto simp: uid_used_def UIDGenerator_new_def bitmap_new_def)
  then show ?case
    by (simp add: pid_wf_def pid_inv_def refs_def PidState_new_def) (simp add: UIDGenerator_new_def bitmap_new_def bm_ok_def get_size_def)
next
  case (step W W')
  then show ?case by (blast intro: pid_step_wf)
qed

text \<open>Why joining needs another reference to the group: the last member of a group that joins its own group
  drops the count to zero first, which returns the identifier to the generator while the process keeps using it.\<close>

lemma join_own_group_frees:
  assumes "pid_inv s M" "count M (p_pgid p) = 1" "\<not> is_process_group_leader p"
    "JoinProcessGroup (p_pgid p) p s = (r, p', s')"
  shows "p_pgid p' = p_pgid p" "p_pgid p \<notin> uid_used (pid_generator s')" "pid_ref_count s' (p_pgid p) = 1"
proof -
  have m: "p_pgid p \<in># M" using assms(2) by (metis count_eq_zero_iff zero_neq_one)
  have j: "p' = p" "s' = IncRefCountPid (p_pgid p) 1 (DecRefCountPid (p_pgid p) s)"
    using assms(3,4) by (auto simp: JoinProcessGroup_def)
  note D = Dec_inv [OF assms(1) m]
  have "p_pgid p \<notin># M - {#p_pgid p#}" using assms(2) by (simp add: in_diff_count)
  then show "p_pgid p \<notin> uid_used (pid_generator s')" using D by (simp add: j(2) pid_inv_def IncRefCountPid_def)
  have "unat (pid_ref_count (DecRefCountPid (p_pgid p) s) (p_pgid p)) = 0" using D assms(2) by (simp add: pid_inv_def)
  then show "pid_ref_count s' (p_pgid p) = 1" by (simp add: j(2) IncRefCountPid_def unat_eq_0)
  show "p_pgid p' = p_pgid p" by (simp add: j(1))
qed

subsection \<open>Properties\<close>



end
