(* ===== verification/Futex.thy ===== *)
theory Futex
  imports Prelude
begin

text \<open>
  Futexes (\<^verbatim>\<open>src/junction/kernel/futex.h\<close>, \<^verbatim>\<open>src/junction/kernel/futex.cc\<close>) and event
  counters (\<^verbatim>\<open>src/junction/fs/eventfd.cc\<close>).

  A futex table has 16 buckets of waiting threads; the hash of an address is a parameter.  The part of
  \<open>Wait\<close> under the bucket lock is one step: it queues the thread or fails.  The thread returns later, woken or
  by a signal or a timeout.
\<close>

subsection \<open>Futexes\<close>

record futex_waiter =
  fw_thread :: nat
  fw_key :: uintptr
  fw_bitset :: u32

definition kFutexBitsetAny :: u32 where "kFutexBitsetAny = 0xFFFFFFFF"
definition kBuckets :: nat where "kBuckets = 16"

type_synonym FutexTable = "nat \<Rightarrow> futex_waiter list"

definition get_bucket :: "(uintptr \<Rightarrow> nat) \<Rightarrow> uintptr \<Rightarrow> nat" where
  "get_bucket hash key = hash key mod kBuckets"

definition FutexTable_new :: FutexTable where
  "FutexTable_new = (\<lambda>_. [])"

text \<open>Waiting: \<open>mem\<close> gives the current value at an address.  \<open>Inr\<close> says that the thread sleeps.\<close>

definition futex_Wait ::
  "(uintptr \<Rightarrow> nat) \<Rightarrow> (uintptr \<Rightarrow> u32) \<Rightarrow> nat \<Rightarrow> uintptr \<Rightarrow> u32 \<Rightarrow> u32 \<Rightarrow> FutexTable \<Rightarrow> errno + FutexTable" where
  "futex_Wait hash mem tid key val bitset T =
     (if mem key \<noteq> val then Inl EAGAIN
      else
        (let b = get_bucket hash key
         in Inr (T(b := T b @ [\<lparr>fw_thread = tid, fw_key = key, fw_bitset = bitset\<rparr>]))))"

text \<open>The end of \<open>Wait\<close>: a thread that was woken is no longer queued; otherwise it takes itself off.\<close>

definition futex_Wait_return ::
  "(uintptr \<Rightarrow> nat) \<Rightarrow> nat \<Rightarrow> uintptr \<Rightarrow> bool \<Rightarrow> bool \<Rightarrow> FutexTable \<Rightarrow> unit Status \<times> FutexTable" where
  "futex_Wait_return hash tid key woken signaled T =
     (if woken then (Inr (), T)
      else
        (let b = get_bucket hash key
         in (Inl (if signaled then EINTR else ETIMEDOUT), T(b := filter (\<lambda>w. fw_thread w \<noteq> tid) (T b)))))"

fun wake_loop :: "uintptr \<Rightarrow> int \<Rightarrow> u32 \<Rightarrow> int \<Rightarrow> futex_waiter list \<Rightarrow> int \<times> futex_waiter list \<times> futex_waiter list" where
  "wake_loop key n bitset i [] = (i, [], [])"
| "wake_loop key n bitset i (w # ws) =
     (if fw_key w \<noteq> key \<or> fw_bitset w AND bitset = 0 then
        (case wake_loop key n bitset i ws of (i', woken, left) \<Rightarrow> (i', woken, w # left))
      else if i + 1 \<ge> n then (i + 1, [w], ws)
      else (case wake_loop key n bitset (i + 1) ws of (i', woken, left) \<Rightarrow> (i', w # woken, left)))"

definition futex_Wake ::
  "(uintptr \<Rightarrow> nat) \<Rightarrow> uintptr \<Rightarrow> int \<Rightarrow> u32 \<Rightarrow> FutexTable \<Rightarrow> int \<times> futex_waiter list \<times> FutexTable" where
  "futex_Wake hash key n bitset T =
     (if n = 0 then (0, [], T)
      else
        (let b = get_bucket hash key
         in case wake_loop key n bitset 0 (T b) of (i, woken, left) \<Rightarrow> (i, woken, T(b := left))))"

definition FutexCmdHasTimeout :: "int \<Rightarrow> bool" where
  "FutexCmdHasTimeout cmd \<longleftrightarrow> cmd \<in> {0, 6, 13, 9, 11}"

definition FUTEX_PRIVATE_FLAG :: u32 where "FUTEX_PRIVATE_FLAG = 128"
definition FUTEX_CLOCK_REALTIME :: u32 where "FUTEX_CLOCK_REALTIME = 256"

datatype futex_result = FutexRet int "futex_waiter list" FutexTable | FutexSleep FutexTable

text \<open>The count of a wake-up arrives as an unsigned number and is passed on as a signed one.\<close>

definition usys_futex ::
  "(uintptr \<Rightarrow> nat) \<Rightarrow> (uintptr \<Rightarrow> u32) \<Rightarrow> nat \<Rightarrow> uintptr \<Rightarrow> u32 \<Rightarrow> u32 \<Rightarrow> u32 \<Rightarrow> FutexTable \<Rightarrow> futex_result" where
  "usys_futex hash mem tid uaddr futex_op val val3 T =
     (let cmd = futex_op AND NOT (FUTEX_PRIVATE_FLAG OR FUTEX_CLOCK_REALTIME);
          wake = (\<lambda>bitset. case futex_Wake hash uaddr (sint val) bitset T of (i, woken, T') \<Rightarrow> FutexRet i woken T');
          wait = (\<lambda>bitset. case futex_Wait hash mem tid uaddr val bitset T of
                    Inl e \<Rightarrow> FutexRet (MakeCError e) [] T
                  | Inr T' \<Rightarrow> FutexSleep T')
      in if cmd = 1 then wake kFutexBitsetAny
         else if cmd = 10 then wake val3
         else if cmd = 0 then wait kFutexBitsetAny
         else if cmd = 9 then wait val3
         else FutexRet (- ENOSYS) [] T)"

definition fw_match :: "uintptr \<Rightarrow> u32 \<Rightarrow> futex_waiter \<Rightarrow> bool" where
  "fw_match key bitset w \<longleftrightarrow> fw_key w = key \<and> fw_bitset w AND bitset \<noteq> 0"

text \<open>What is left of a list after its first \<open>k\<close> elements satisfying a predicate are removed.\<close>

fun drop_matching :: "nat \<Rightarrow> ('a \<Rightarrow> bool) \<Rightarrow> 'a list \<Rightarrow> 'a list" where
  "drop_matching k P [] = []"
| "drop_matching k P (x # xs) = (if P x \<and> 0 < k then drop_matching (k - 1) P xs else x # drop_matching k P xs)"

lemma drop_matching_0 [simp]: "drop_matching 0 P xs = xs"
  by (induction xs) auto

lemma filter_drop_matching:
  "filter P (drop_matching k P xs) = drop k (filter P xs)" "filter (\<lambda>x. \<not> P x) (drop_matching k P xs) = filter (\<lambda>x. \<not> P x) xs"
proof -
  show "filter P (drop_matching k P xs) = drop k (filter P xs)"
    by (induction xs arbitrary: k) (auto simp: drop_Cons split: nat.splits)
  show "filter (\<lambda>x. \<not> P x) (drop_matching k P xs) = filter (\<lambda>x. \<not> P x) xs" by (induction xs arbitrary: k) auto
qed

lemma wake_loop_spec:
  assumes "wake_loop key n bitset i ws = (i', woken, left)" "i < n"
  shows "woken = take (nat (n - i)) (filter (fw_match key bitset) ws) \<and>
    left = drop_matching (nat (n - i)) (fw_match key bitset) ws \<and> i' = i + int (length woken)"
  using assms
proof (induction ws arbitrary: i i' woken left)
  case (Cons w ws)
  have k: "nat (n - i) = Suc (nat (n - (i + 1)))" using Cons.prems(2) by simp
  consider (skip) "\<not> fw_match key bitset w" | (last) "fw_match key bitset w" "i + 1 \<ge> n" | (more) "fw_match key bitset w" "i + 1 < n"
    by linarith
  then show ?case
  proof cases
    case skip
    then obtain l where "wake_loop key n bitset i ws = (i', woken, l)" "left = w # l"
      using Cons.prems(1) by (auto simp: fw_match_def split: prod.splits)
    then show ?thesis using Cons.IH Cons.prems(2) skip by simp
  next
    case last
    then have "i' = i + 1" "woken = [w]" "left = ws" "nat (n - (i + 1)) = 0" using Cons.prems(1) by (auto simp: fw_match_def)
    then show ?thesis using last k by simp
  next
    case more
    then obtain wk where r: "wake_loop key n bitset (i + 1) ws = (i', wk, left)" "woken = w # wk"
      using Cons.prems(1) by (auto simp: fw_match_def split: prod.splits)
    then show ?thesis using Cons.IH [OF r(1) more(2)] more(1) k by simp
  qed
qed simp

text \<open>A negative count wakes a single thread.\<close>

lemma wake_negative:
  assumes "n < 0" "futex_Wake hash key n bitset T = (i, woken, T')"
  shows "length woken \<le> 1"
proof -
  have "wake_loop key n bitset 0 ws = (j, wk, l) \<Longrightarrow> length wk \<le> 1" for ws j wk l
    using assms(1) by (induction ws arbitrary: j wk l) (auto split: if_splits prod.splits)
  then show ?thesis using assms by (auto simp: futex_Wake_def Let_def split: prod.splits)
qed

subsection \<open>Properties of futexes\<close>

text \<open>Waking \<open>n > 0\<close> threads on an address wakes the first \<open>n\<close> of the waiting threads with that address and
  a common bit, in the order of their arrival, or all of them if there are fewer; it returns their number, and
  every other waiting thread, also one on another address of the same bucket, stays queued in its place.\<close>

theorem futex_wake_exact:
  assumes "0 < n" "futex_Wake hash key n bitset T = (i, woken, T')"
  shows "woken = take (nat n) (filter (fw_match key bitset) (T (get_bucket hash key))) \<and> i = int (length woken) \<and>
    filter (fw_match key bitset) (T' (get_bucket hash key)) = drop (nat n) (filter (fw_match key bitset) (T (get_bucket hash key))) \<and>
    filter (\<lambda>w. \<not> fw_match key bitset w) (T' (get_bucket hash key)) = filter (\<lambda>w. \<not> fw_match key bitset w) (T (get_bucket hash key)) \<and>
    (\<forall>b. b \<noteq> get_bucket hash key \<longrightarrow> T' b = T b)"
proof -
  let ?b = "get_bucket hash key"
  obtain left where w: "wake_loop key n bitset 0 (T ?b) = (i, woken, left)" "T' = T(?b := left)"
    using assms by (auto simp: futex_Wake_def Let_def split: prod.splits)
  then show ?thesis using wake_loop_spec [OF w(1) assms(1)] by (simp add: filter_drop_matching)
qed

theorem futex_wake_exact_witness:
  "\<exists>i woken T'. futex_Wake (\<lambda>_. 3) 0x1000 1 kFutexBitsetAny
      (\<lambda>b. if b = 3 then [\<lparr>fw_thread = 1, fw_key = 0x2000, fw_bitset = 1\<rparr>, \<lparr>fw_thread = 2, fw_key = 0x1000, fw_bitset = 1\<rparr>] else []) = (i, woken, T') \<and>
    map fw_thread woken = [2] \<and> i = 1"
proof -
  let ?T = "\<lambda>b. if b = 3 then [\<lparr>fw_thread = 1, fw_key = 0x2000, fw_bitset = 1\<rparr>, \<lparr>fw_thread = 2, fw_key = 0x1000, fw_bitset = 1\<rparr>] else []"
  obtain i woken T' where r: "futex_Wake (\<lambda>_. 3) 0x1000 1 kFutexBitsetAny ?T = (i, woken, T')"
    by (cases "futex_Wake (\<lambda>_. 3) 0x1000 1 kFutexBitsetAny ?T") auto
  from futex_wake_exact [OF _ r] show ?thesis
    using r by (simp add: get_bucket_def kBuckets_def fw_match_def kFutexBitsetAny_def)
qed

end
