(* ===== verification/EventFd.thy ===== *)
theory EventFd
  imports Poll FileTable
begin

text \<open>
  Event counters: \<^verbatim>\<open>src/junction/fs/eventfd.cc\<close>.

  The counter is a 64-bit word.  An operation that has to wait is the outcome \<open>EvWait\<close>; the thread repeats the
  operation when it is woken.  The events are those of the file's poll source.
\<close>

definition kEventFdSemaphore :: u32 where "kEventFdSemaphore = 1"
definition kEventFdSupportedFlags :: u32 where "kEventFdSupportedFlags = kFlagNonblock OR kEventFdSemaphore"
definition kEventFdValSize :: nat where "kEventFdValSize = 8"

record EventFDFile =
  ev_flags :: u32
  ev_val :: u64
  ev_events :: u32

definition EventFDFile_new :: "u32 \<Rightarrow> u32 \<Rightarrow> EventFDFile" where
  "EventFDFile_new initval flags =
     \<lparr>ev_flags = flags AND kEventFdSupportedFlags, ev_val = ucast initval, ev_events = kPollOut\<rparr>"

definition is_semaphore :: "EventFDFile \<Rightarrow> bool" where
  "is_semaphore e \<longleftrightarrow> ev_flags e AND kEventFdSemaphore \<noteq> 0"

definition ev_nonblocking :: "EventFDFile \<Rightarrow> bool" where
  "ev_nonblocking e \<longleftrightarrow> ev_flags e AND kFlagNonblock \<noteq> 0"

definition ev_load :: "u32 \<Rightarrow> u64 \<Rightarrow> EventFDFile" where
  "ev_load flags val =
     \<lparr>ev_flags = flags, ev_val = val,
      ev_events = (if val < - 1 then kPollOut else 0) OR (if val > 0 then kPollIn else 0)\<rparr>"

datatype 'a ev_result = EvWait | EvRet "'a Status" EventFDFile

text \<open>Reading returns the value the eight bytes hold.\<close>

definition EventFD_Read :: "nat \<Rightarrow> bool \<Rightarrow> EventFDFile \<Rightarrow> u64 ev_result" where
  "EventFD_Read n intr e =
     (if n < kEventFdValSize then EvRet (Inl EINVAL) e
      else if ev_val e = 0 \<and> ev_nonblocking e then EvRet (Inl EAGAIN) e
      else if ev_val e = 0 then (if intr then EvRet (Inl EINTR) e else EvWait)
      else
        (let r = (if is_semaphore e then 1 else ev_val e);
             v = (if is_semaphore e then ev_val e - 1 else 0);
             ev1 = (if v = 0 then ev_events e AND NOT kPollIn else ev_events e);
             ev2 = (if v < - 1 then ev1 OR kPollOut else ev1)
         in EvRet (Inr r) (e\<lparr>ev_val := v, ev_events := ev2\<rparr>)))"

definition EventFD_Write :: "nat \<Rightarrow> u64 \<Rightarrow> bool \<Rightarrow> EventFDFile \<Rightarrow> nat ev_result" where
  "EventFD_Write n val intr e =
     (if n < kEventFdValSize then EvRet (Inl EINVAL) e
      else if val = - 1 then EvRet (Inl EINVAL) e
      else if val = 0 then EvRet (Inr kEventFdValSize) e
      else if val + ev_val e < val \<and> ev_nonblocking e then EvRet (Inl EAGAIN) e
      else if val + ev_val e < val then (if intr then EvRet (Inl EINTR) e else EvWait)
      else
        (let v = ev_val e + val;
             ev1 = ev_events e OR kPollIn;
             ev2 = (if v = - 1 then ev1 AND NOT kPollOut else ev1)
         in EvRet (Inr kEventFdValSize) (e\<lparr>ev_val := v, ev_events := ev2\<rparr>)))"

definition usys_eventfd2 :: "u32 \<Rightarrow> u32 \<Rightarrow> nat \<Rightarrow> FileTable \<Rightarrow> EventFDFile \<times> nat \<times> FileTable" where
  "usys_eventfd2 initval flags f t =
     (case ft_Insert f (flags AND kFlagCloseExec \<noteq> 0) 0 t of (fd, t') \<Rightarrow> (EventFDFile_new initval flags, fd, t'))"

definition usys_eventfd :: "u32 \<Rightarrow> nat \<Rightarrow> FileTable \<Rightarrow> EventFDFile \<times> nat \<times> FileTable" where
  "usys_eventfd initval f t = (case ft_Insert f False 0 t of (fd, t') \<Rightarrow> (EventFDFile_new initval 0, fd, t'))"

subsection \<open>The counter\<close>

lemma no_overflow: "\<not> (a + b < (a::u64)) \<longleftrightarrow> unat a + unat b < 2 ^ 64"
proof -
  have s: "unat (a + b) = (unat a + unat b) mod 2 ^ 64" by (simp add: unat_word_ariths)
  have lt: "unat a < 2 ^ 64" "unat b < 2 ^ 64" by (rule unat_lt_64)+
  show ?thesis
  proof (cases "unat a + unat b < 2 ^ 64")
    case True
    then show ?thesis using s unfolding word_less_nat_alt by simp
  next
    case False
    then have "(unat a + unat b) mod 2 ^ 64 = unat a + unat b - 2 ^ 64" using lt by (simp add: mod_if)
    then show ?thesis using s lt False unfolding word_less_nat_alt by linarith
  qed
qed

lemma EventFD_Read_val:
  "EventFD_Read n intr e = EvRet (Inr r) e' \<Longrightarrow> unat (ev_val e) = unat (ev_val e') + unat r \<and> 0 < r"
proof -
  assume h: "EventFD_Read n intr e = EvRet (Inr r) e'"
  then have nz: "ev_val e \<noteq> 0" by (auto simp: EventFD_Read_def split: if_splits)
  then have "1 \<le> unat (ev_val e)" by (metis unat_gt_0 Suc_leI One_nat_def)
  then have "unat (ev_val e) = unat (ev_val e - 1) + 1" by (simp add: nz unat_minus_one)
  moreover have "0 < ev_val e" using nz by (simp add: word_gt_0)
  ultimately show ?thesis using h by (auto simp: EventFD_Read_def Let_def split: if_splits)
qed

lemma EventFD_Write_val:
  "EventFD_Write n v intr e = EvRet (Inr r) e' \<Longrightarrow> unat (ev_val e') = unat (ev_val e) + unat v"
proof -
  assume h: "EventFD_Write n v intr e = EvRet (Inr r) e'"
  show ?thesis
  proof (cases "v = 0")
    case True
    then show ?thesis using h by (auto simp: EventFD_Write_def split: if_splits)
  next
    case False
    then have "\<not> (v + ev_val e < v)" "ev_val e' = ev_val e + v" using h by (auto simp: EventFD_Write_def Let_def split: if_splits)
    moreover have "unat v + unat (ev_val e) < 2 ^ 64" using \<open>\<not> (v + ev_val e < v)\<close> by (simp only: no_overflow)
    then have "unat (v + ev_val e) = unat v + unat (ev_val e)" by (intro unat_add_no_wrap) simp
    ultimately show ?thesis by (metis add.commute)
  qed
qed

text \<open>Sequences of operations, with the sums of what was written and of what was read.\<close>

datatype ev_op = EvRead nat bool | EvWrite nat u64 bool

fun ev_step :: "ev_op \<Rightarrow> EventFDFile \<Rightarrow> nat \<times> nat \<times> EventFDFile" where
  "ev_step (EvRead n i) e = (case EventFD_Read n i e of EvRet (Inr r) e' \<Rightarrow> (0, unat r, e') | EvRet (Inl _) e' \<Rightarrow> (0, 0, e') | EvWait \<Rightarrow> (0, 0, e))"
| "ev_step (EvWrite n v i) e =
     (case EventFD_Write n v i e of EvRet (Inr r) e' \<Rightarrow> (unat v, 0, e') | EvRet (Inl _) e' \<Rightarrow> (0, 0, e') | EvWait \<Rightarrow> (0, 0, e))"

fun ev_run :: "ev_op list \<Rightarrow> EventFDFile \<Rightarrow> nat \<times> nat \<times> EventFDFile" where
  "ev_run [] e = (0, 0, e)"
| "ev_run (x # xs) e = (case ev_step x e of (w, r, e1) \<Rightarrow> case ev_run xs e1 of (w', r', e2) \<Rightarrow> (w + w', r + r', e2))"

lemma failed_same:
  "EventFD_Read n i e = EvRet (Inl x) e' \<Longrightarrow> e' = e" "EventFD_Write n v i e = EvRet (Inl x) e' \<Longrightarrow> e' = e"
  by (auto simp: EventFD_Read_def EventFD_Write_def Let_def split: if_splits)

lemma ev_step_sum: "ev_step x e = (w, r, e') \<Longrightarrow> unat (ev_val e') + r = unat (ev_val e) + w"
  by (cases x) (auto split: ev_result.splits sum.splits dest: EventFD_Read_val EventFD_Write_val failed_same)

lemma ev_run_sum: "ev_run xs e = (w, r, e') \<Longrightarrow> unat (ev_val e') + r = unat (ev_val e) + w"
proof (induction xs arbitrary: e w r e')
  case (Cons x xs)
  obtain w1 r1 e1 where 1: "ev_step x e = (w1, r1, e1)" by (cases "ev_step x e")
  obtain w2 r2 e2 where 2: "ev_run xs e1 = (w2, r2, e2)" by (cases "ev_run xs e1")
  show ?case using Cons.prems 1 2 ev_step_sum [OF 1] Cons.IH [OF 2] by simp
qed simp

text \<open>The poll events agree with the counter after every operation if they did before; a new file with a
  positive initial value starts without \<open>kPollIn\<close>.\<close>

definition ev_events_ok :: "EventFDFile \<Rightarrow> bool" where
  "ev_events_ok e \<longleftrightarrow> ev_events e = (if ev_val e > 0 then kPollIn else 0) OR (if ev_val e < - 1 then kPollOut else 0)"

lemma ev_load_events: "ev_events_ok (ev_load flags val)"
  by (auto simp: ev_events_ok_def ev_load_def or.commute)

lemma ev_new_events: "ev_events_ok (EventFDFile_new v flags) \<longleftrightarrow> v = 0"
proof -
  have lt: "unat v < 2 ^ 32" using unsigned_less [of v] by simp
  then have u: "unat (ucast v :: u64) = unat v" by (simp add: unsigned_ucast_eq take_bit_nat_eq_self)
  then have z: "(ucast v :: u64) > 0 \<longleftrightarrow> v \<noteq> 0" by (metis unat_eq_0 word_gt_0)
  have "(ucast v :: u64) \<noteq> - 1"
  proof
    assume "(ucast v :: u64) = - 1"
    then have "unat v = unat (- 1 :: u64)" using u by simp
    then show False using lt by (simp add: unsigned_minus_1_eq_mask mask_eq_exp_minus_1)
  qed
  then have "(ucast v :: u64) < - 1" by (simp add: order.not_eq_order_implies_strict)
  then show ?thesis using z by (auto simp: ev_events_ok_def EventFDFile_new_def kPollIn_def kPollOut_def)
qed

end
