(* ===== verification/Fs.thy ===== *)
theory Fs
  imports Prelude "HOL-Library.Char_ord" "HOL-Library.List_Lexorder"
begin

text \<open>
  Inodes, directory entries and path resolution: \<^verbatim>\<open>src/junction/fs/fs.h\<close>,
  \<^verbatim>\<open>src/junction/fs/core.cc\<close>, the directories of \<^verbatim>\<open>src/junction/fs/memfs/dir.cc\<close>, and
  \<open>split\<close> of \<^verbatim>\<open>src/junction/base/string.h\<close>.

  Inodes and directory entries live in a store and refer to each other by number; a null pointer is
  \<open>None\<close>.  Dereferencing a null pointer, or using an inode that is not a directory object as one, is the
  result \<open>None\<close> of a resolution.  Link counts are unbounded integers.  A directory has been
  initialised.
\<close>

subsection \<open>Strings\<close>

fun split :: "char \<Rightarrow> string \<Rightarrow> string list" where
  "split sep [] = [[]]"
| "split sep (c # cs) =
     (if c = sep then [] # split sep cs
      else (case split sep cs of [] \<Rightarrow> [[c]] | t # ts \<Rightarrow> (c # t) # ts))"

lemma split_not_empty: "split sep s \<noteq> []"
  by (cases s) (auto split: list.splits)

fun join :: "char \<Rightarrow> string list \<Rightarrow> string" where
  "join sep [] = []"
| "join sep [t] = t"
| "join sep (t # ts) = t @ [sep] @ join sep ts"

text \<open>Splitting loses nothing and no part contains the separator.\<close>

lemma join_Cons: "ts \<noteq> [] \<Longrightarrow> join sep (t # ts) = t @ sep # join sep ts"
  by (cases ts) auto

lemma split_join: "join sep (split sep s) = s \<and> (\<forall>t \<in> set (split sep s). sep \<notin> set t)"
proof (induction s)
  case (Cons c s)
  obtain t ts where s: "split sep s = t # ts" using split_not_empty [of sep s] by (cases "split sep s") auto
  show ?case using Cons s by (cases ts) (auto simp: join_Cons)
qed simp

subsection \<open>Inodes and directory entries\<close>

definition kTypeRegularFile :: u32 where "kTypeRegularFile = 0x8000"
definition kTypeDirectory :: u32 where "kTypeDirectory = 0x4000"
definition kTypeCharacter :: u32 where "kTypeCharacter = 0x2000"
definition kTypeBlock :: u32 where "kTypeBlock = 0x6000"
definition kTypeSymLink :: u32 where "kTypeSymLink = 0xA000"
definition kTypeMask :: u32 where "kTypeMask = 0xF000"
definition kModeMask :: u32 where "kModeMask = 0xFFF"

lemmas inode_types = kTypeRegularFile_def kTypeDirectory_def kTypeCharacter_def kTypeBlock_def kTypeSymLink_def kTypeMask_def

datatype inode_class = ClassDir | ClassLink | ClassFile | ClassDevice

record Inode =
  i_class :: inode_class
  i_mode :: u32
  i_nlink :: int
  i_link :: string
  i_map :: "(string \<times> nat) list"
  i_dent :: "nat option"
  i_mem :: bool

record DirectoryEntry =
  d_name :: string
  d_inode :: nat
  d_parent :: "nat option"

record Fs =
  inodes :: "nat \<Rightarrow> Inode"
  dents :: "nat \<Rightarrow> DirectoryEntry"
  next_inode :: nat
  next_dent :: nat

definition SetMode :: "u32 \<Rightarrow> Inode \<Rightarrow> Inode" where
  "SetMode new_mode I = I\<lparr>i_mode := (i_mode I AND NOT kModeMask) OR (new_mode AND kModeMask)\<rparr>"

definition get_type :: "Inode \<Rightarrow> u32" where "get_type I = i_mode I AND kTypeMask"
definition is_dir :: "Inode \<Rightarrow> bool" where "is_dir I \<longleftrightarrow> get_type I = kTypeDirectory"
definition is_symlink :: "Inode \<Rightarrow> bool" where "is_symlink I \<longleftrightarrow> get_type I = kTypeSymLink"
definition is_regular :: "Inode \<Rightarrow> bool" where "is_regular I \<longleftrightarrow> get_type I = kTypeRegularFile"
definition is_stale :: "Inode \<Rightarrow> bool" where "is_stale I \<longleftrightarrow> i_nlink I = 0"

definition upd_inode :: "nat \<Rightarrow> (Inode \<Rightarrow> Inode) \<Rightarrow> Fs \<Rightarrow> Fs" where
  "upd_inode i f F = F\<lparr>inodes := (inodes F)(i := f (inodes F i))\<rparr>"

definition upd_dent :: "nat \<Rightarrow> (DirectoryEntry \<Rightarrow> DirectoryEntry) \<Rightarrow> Fs \<Rightarrow> Fs" where
  "upd_dent d f F = F\<lparr>dents := (dents F)(d := f (dents F d))\<rparr>"

definition inc_nlink :: "Inode \<Rightarrow> Inode" where "inc_nlink I = I\<lparr>i_nlink := i_nlink I + 1\<rparr>"
definition dec_nlink :: "Inode \<Rightarrow> Inode" where "dec_nlink I = I\<lparr>i_nlink := i_nlink I - 1\<rparr>"

definition DirectoryEntry_new :: "string \<Rightarrow> nat option \<Rightarrow> nat \<Rightarrow> Fs \<Rightarrow> nat \<times> Fs" where
  "DirectoryEntry_new name parent i F =
     (let d = next_dent F;
          F1 = F\<lparr>dents := (dents F)(d := \<lparr>d_name = name, d_inode = i, d_parent = parent\<rparr>), next_dent := d + 1\<rparr>
      in (d, if parent \<noteq> None then upd_inode i inc_nlink F1 else F1))"

definition DecLink :: "nat \<Rightarrow> Fs \<Rightarrow> Fs" where
  "DecLink d F = (if d_parent (dents F d) = None then F else upd_inode (d_inode (dents F d)) dec_nlink F)"

text \<open>
  \<open>Invalidate\<close> leaves the name \<^verbatim>\<open> (deleted)\<close> for other holders of the entry; an entry without other
  holders is destroyed with its name.
\<close>

definition Invalidate :: "nat \<Rightarrow> Fs \<Rightarrow> Fs" where
  "Invalidate d F = upd_dent d (\<lambda>D. D\<lparr>d_name := '' (deleted)'', d_parent := None\<rparr>) (DecLink d F)"

subsection \<open>Directories\<close>

definition dm_find :: "string \<Rightarrow> Inode \<Rightarrow> nat option" where
  "dm_find name I = map_of (i_map I) name"

definition dm_erase :: "nat \<Rightarrow> Inode \<Rightarrow> Inode" where
  "dm_erase d I = I\<lparr>i_map := filter (\<lambda>(n, e). e \<noteq> d) (i_map I)\<rparr>"

definition dm_insert :: "string \<Rightarrow> nat \<Rightarrow> Inode \<Rightarrow> Inode" where
  "dm_insert name d I = I\<lparr>i_map := i_map I @ [(name, d)]\<rparr>"

definition dm_Insert :: "nat \<Rightarrow> nat \<Rightarrow> Fs \<Rightarrow> unit Status \<times> Fs" where
  "dm_Insert dir d F =
     (case dm_find (d_name (dents F d)) (inodes F dir) of
        Some c \<Rightarrow> (Inl EEXIST, F)
      | None \<Rightarrow> (Inr (), upd_inode dir (dm_insert (d_name (dents F d)) d) F))"

definition UnlinkAndDispose :: "nat \<Rightarrow> nat \<Rightarrow> Fs \<Rightarrow> Fs" where
  "UnlinkAndDispose dir d F =
     (let F1 = Invalidate d F;
          i = d_inode (dents F d);
          F2 = (if is_dir (inodes F1 i) then upd_inode i (\<lambda>I. I\<lparr>i_dent := None\<rparr>) F1 else F1)
      in upd_inode dir (dm_erase d) F2)"

definition InsertOverwrite :: "nat \<Rightarrow> nat \<Rightarrow> Fs \<Rightarrow> Fs" where
  "InsertOverwrite dir d F =
     (let name = d_name (dents F d);
          F1 = (case dm_find name (inodes F dir) of None \<Rightarrow> F | Some c \<Rightarrow> UnlinkAndDispose dir c F)
      in upd_inode dir (dm_insert name d) F1)"

definition MoveFrom :: "nat \<Rightarrow> nat \<Rightarrow> string \<Rightarrow> string \<Rightarrow> bool \<Rightarrow> Fs \<Rightarrow> unit Status \<times> Fs" where
  "MoveFrom dst src src_name dst_name overwrite F =
     (case dm_find src_name (inodes F src) of
        None \<Rightarrow> (Inl ENOENT, F)
      | Some d \<Rightarrow>
          (let F1 = upd_inode src (dm_erase d) F;
               conflict = dm_find dst_name (inodes F1 dst)
           in if conflict \<noteq> None \<and> \<not> overwrite then (Inl EEXIST, F)
              else
                (let F2 = (case conflict of None \<Rightarrow> F1 | Some c \<Rightarrow> UnlinkAndDispose dst c F1);
                     F3 = upd_dent d (\<lambda>D. D\<lparr>d_name := dst_name, d_parent := i_dent (inodes F2 dst)\<rparr>) F2
                 in (Inr (), upd_inode dst (dm_insert dst_name d) F3))))"

text \<open>
  Adding entries.  When the name is taken nothing refers to the new entry: it is destroyed again, which
  undoes its link.  (The inode and the entry of a new directory refer to each other and stay allocated,
  unreachable.)
\<close>

definition AddDentLocked :: "nat \<Rightarrow> string \<Rightarrow> nat \<Rightarrow> Fs \<Rightarrow> nat Status \<times> Fs" where
  "AddDentLocked dir name i F =
     (case DirectoryEntry_new name (i_dent (inodes F dir)) i F of
        (d, F1) \<Rightarrow>
          (case dm_Insert dir d F1 of
             (Inl e, F2) \<Rightarrow> (Inl e, F)
           | (Inr _, F2) \<Rightarrow> (Inr d, F2)))"

definition new_inode :: "inode_class \<Rightarrow> u32 \<Rightarrow> string \<Rightarrow> Fs \<Rightarrow> nat \<times> Fs" where
  "new_inode cls mode link F =
     (let i = next_inode F
      in (i, F\<lparr>inodes := (inodes F)(i := \<lparr>i_class = cls, i_mode = mode, i_nlink = 0, i_link = link, i_map = [], i_dent = None, i_mem = True\<rparr>),
               next_inode := i + 1\<rparr>))"

definition AddIDirLocked :: "nat \<Rightarrow> string \<Rightarrow> u32 \<Rightarrow> Fs \<Rightarrow> nat Status \<times> Fs" where
  "AddIDirLocked dir name mode F =
     (case new_inode ClassDir (kTypeDirectory OR mode) [] F of
        (i, F1) \<Rightarrow>
          (case DirectoryEntry_new name (i_dent (inodes F1 dir)) i F1 of
             (d, F2) \<Rightarrow>
               (let F3 = upd_inode i (\<lambda>I. I\<lparr>i_dent := Some d\<rparr>) F2
                in case dm_Insert dir d F3 of
                     (Inl e, F4) \<Rightarrow> (Inl e, F)
                   | (Inr _, F4) \<Rightarrow> (Inr d, F4))))"

definition AddIDirLockedNoCheck :: "nat \<Rightarrow> string \<Rightarrow> u32 \<Rightarrow> Fs \<Rightarrow> nat \<times> Fs" where
  "AddIDirLockedNoCheck dir name mode F =
     (case new_inode ClassDir (kTypeDirectory OR mode) [] F of
        (i, F1) \<Rightarrow>
          (case DirectoryEntry_new name (i_dent (inodes F1 dir)) i F1 of
             (d, F2) \<Rightarrow> (d, InsertOverwrite dir d (upd_inode i (\<lambda>I. I\<lparr>i_dent := Some d\<rparr>) F2))))"

definition LookupDent :: "nat \<Rightarrow> string \<Rightarrow> Fs \<Rightarrow> nat Status" where
  "LookupDent dir name F = (case dm_find name (inodes F dir) of None \<Rightarrow> Inl ENOENT | Some d \<Rightarrow> Inr d)"

subsection \<open>Directories in memory\<close>

definition unit_status :: "'a Status \<times> Fs \<Rightarrow> unit Status \<times> Fs" where
  "unit_status r = (case r of (Inl e, F) \<Rightarrow> (Inl e, F) | (Inr _, F) \<Rightarrow> (Inr (), F))"

definition mem_MkNod :: "nat \<Rightarrow> string \<Rightarrow> u32 \<Rightarrow> Fs \<Rightarrow> unit Status \<times> Fs" where
  "mem_MkNod dir name mode F =
     (if mode AND (kTypeCharacter OR kTypeBlock) = 0 then (Inl EINVAL, F)
      else (case new_inode ClassDevice mode [] F of (i, F1) \<Rightarrow> unit_status (AddDentLocked dir name i F1)))"

definition mem_MkDir :: "nat \<Rightarrow> string \<Rightarrow> u32 \<Rightarrow> Fs \<Rightarrow> unit Status \<times> Fs" where
  "mem_MkDir dir name mode F = unit_status (AddIDirLocked dir name mode F)"

definition mem_Unlink :: "nat \<Rightarrow> string \<Rightarrow> Fs \<Rightarrow> unit Status \<times> Fs" where
  "mem_Unlink dir name F =
     (case dm_find name (inodes F dir) of
        None \<Rightarrow> (Inl ENOENT, F)
      | Some d \<Rightarrow>
          if is_dir (inodes F (d_inode (dents F d))) then (Inl EISDIR, F)
          else (Inr (), UnlinkAndDispose dir d F))"

definition get_parent_dir :: "nat \<Rightarrow> Fs \<Rightarrow> nat Status" where
  "get_parent_dir d F = (case d_parent (dents F d) of None \<Rightarrow> Inl ESTALE | Some p \<Rightarrow> Inr (d_inode (dents F p)))"

definition mem_UnlinkEntry :: "nat \<Rightarrow> nat \<Rightarrow> Fs \<Rightarrow> unit Status \<times> Fs" where
  "mem_UnlinkEntry dir d F =
     (case get_parent_dir d F of
        Inl e \<Rightarrow> (Inl ENOENT, F)
      | Inr p \<Rightarrow> if p \<noteq> dir then (Inl ENOENT, F) else (Inr (), UnlinkAndDispose dir d F))"

definition mem_RmDir :: "nat \<Rightarrow> string \<Rightarrow> Fs \<Rightarrow> unit Status \<times> Fs" where
  "mem_RmDir dir name F =
     (case dm_find name (inodes F dir) of
        None \<Rightarrow> (Inl ENOENT, F)
      | Some d \<Rightarrow>
          (let I = inodes F (d_inode (dents F d)) in
           if \<not> is_dir I then (Inl ENOTDIR, F)
           else if \<not> i_mem I then (Inl EXDEV, F)
           else if i_map I \<noteq> [] then (Inl ENOTEMPTY, F)
           else (Inr (), UnlinkAndDispose dir d F)))"

definition mem_SymLink :: "nat \<Rightarrow> string \<Rightarrow> string \<Rightarrow> Fs \<Rightarrow> unit Status \<times> Fs" where
  "mem_SymLink dir name target F =
     (case new_inode ClassLink (kTypeSymLink OR 0x1FF) target F of (i, F1) \<Rightarrow> unit_status (AddDentLocked dir name i F1))"

definition mem_Rename :: "nat \<Rightarrow> nat \<Rightarrow> string \<Rightarrow> string \<Rightarrow> bool \<Rightarrow> Fs \<Rightarrow> unit Status \<times> Fs" where
  "mem_Rename dst src src_name dst_name replace F =
     (if \<not> i_mem (inodes F src) then (Inl EXDEV, F) else MoveFrom dst src src_name dst_name replace F)"

definition mem_Link :: "nat \<Rightarrow> string \<Rightarrow> nat \<Rightarrow> Fs \<Rightarrow> unit Status \<times> Fs" where
  "mem_Link dir name i F =
     (if is_stale (inodes F dir) then (Inl ESTALE, F) else unit_status (AddDentLocked dir name i F))"

definition mem_LinkReturn :: "nat \<Rightarrow> string \<Rightarrow> nat \<Rightarrow> Fs \<Rightarrow> nat Status \<times> Fs" where
  "mem_LinkReturn dir name i F =
     (if is_stale (inodes F dir) then (Inl ESTALE, F) else AddDentLocked dir name i F)"

text \<open>Creating a regular file: an existing entry is opened instead.\<close>

definition mem_Create :: "nat \<Rightarrow> string \<Rightarrow> bool \<Rightarrow> u32 \<Rightarrow> Fs \<Rightarrow> nat Status \<times> Fs" where
  "mem_Create dir name exclusive mode F =
     (case dm_find name (inodes F dir) of
        Some d \<Rightarrow> (if exclusive then (Inl EEXIST, F) else (Inr d, F))
      | None \<Rightarrow>
          (case new_inode ClassFile (kTypeRegularFile OR mode) [] F of
             (i, F1) \<Rightarrow>
               (case DirectoryEntry_new name (i_dent (inodes F1 dir)) i F1 of
                  (d, F2) \<Rightarrow> (Inr d, InsertOverwrite dir d F2))))"

definition mem_GetDents :: "nat \<Rightarrow> Fs \<Rightarrow> (string \<times> nat \<times> u32) list" where
  "mem_GetDents dir F =
     map (\<lambda>(n, d). (d_name (dents F d), d_inode (dents F d), get_type (inodes F (d_inode (dents F d)))))
       (sort_key fst (i_map (inodes F dir)))"

end
