(* ===== verification/PathWalk.thy ===== *)
theory PathWalk
  imports Fs
begin

text \<open>
  Path resolution and the system calls on paths: \<^verbatim>\<open>src/junction/fs/core.cc\<close> and \<open>FSRoot\<close> and
  \<open>LookupInode\<close> of \<^verbatim>\<open>src/junction/fs/fs.h\<close>.

  A resolution has the result \<open>None\<close> where the code dereferences a null pointer or treats an inode that
  is not a directory object as a directory.  Of an open file only its directory entry matters here:
  the argument \<open>T\<close> gives, for a file descriptor, no file (\<open>None\<close>) or a file with or without an entry.
\<close>

record FSRoot =
  fs_root :: nat
  fs_cwd :: nat
  fs_umask :: u32

type_synonym 'a walk = "'a Status option"

definition get_root :: "FSRoot \<Rightarrow> Fs \<Rightarrow> nat" where "get_root fs F = d_inode (dents F (fs_root fs))"
definition get_cwd :: "FSRoot \<Rightarrow> Fs \<Rightarrow> nat" where "get_cwd fs F = d_inode (dents F (fs_cwd fs))"

definition SetUmask :: "u32 \<Rightarrow> FSRoot \<Rightarrow> u32 \<times> FSRoot" where
  "SetUmask m fs = (fs_umask fs, fs\<lparr>fs_umask := m AND 0x1FF\<rparr>)"

definition kMaxLinksToChase :: nat where "kMaxLinksToChase = 8"

definition PathIsValid :: "string \<Rightarrow> bool" where
  "PathIsValid path \<longleftrightarrow> list_all (\<lambda>c. c \<noteq> CHR 0x00) path"

definition is_absolute :: "string \<Rightarrow> bool" where
  "is_absolute path \<longleftrightarrow> path \<noteq> [] \<and> hd path = CHR ''/''"

definition wbind :: "'a walk \<Rightarrow> ('a \<Rightarrow> 'b walk) \<Rightarrow> 'b walk" where
  "wbind w f = (case w of None \<Rightarrow> None | Some (Inl e) \<Rightarrow> Some (Inl e) | Some (Inr x) \<Rightarrow> f x)"

lemma wbind_simps [simp]: "wbind None f = None" "wbind (Some (Inl e)) f = Some (Inl e)" "wbind (Some (Inr x)) f = f x"
  by (simp_all add: wbind_def)

lemma wbind_cong [fundef_cong]:
  "w = w' \<Longrightarrow> (\<And>x. w' = Some (Inr x) \<Longrightarrow> f x = g x) \<Longrightarrow> wbind w f = wbind w' g"
  by (auto simp: wbind_def split: option.splits sum.splits)

text \<open>
  The loop of \<open>WalkPath\<close>, started with the entry and the directory it stands at.  The number of links
  that may still be followed falls at each symbolic link, the rest of the path at each step.
\<close>

function walk_loop ::
  "FSRoot \<Rightarrow> Fs \<Rightarrow> nat option \<Rightarrow> nat \<Rightarrow> string list \<Rightarrow> bool \<Rightarrow> nat \<Rightarrow> nat walk" where
  "walk_loop fs F curent curdir [] chase_last link_depth =
     (if is_stale (inodes F curdir) then Some (Inl ESTALE)
      else (case curent of None \<Rightarrow> None | Some c \<Rightarrow> Some (Inr c)))"
| "walk_loop fs F curent curdir (v # vs) chase_last link_depth =
     (if v = [] \<or> v = ''.'' then walk_loop fs F curent curdir vs chase_last link_depth
      else if v = ''..'' then
        (if curent = Some (fs_root fs) then walk_loop fs F curent curdir vs chase_last link_depth
         else (case curent of
                 None \<Rightarrow> None
               | Some c \<Rightarrow>
                   (case d_parent (dents F c) of
                      None \<Rightarrow> None
                    | Some p \<Rightarrow> walk_loop fs F (Some p) (d_inode (dents F p)) vs chase_last link_depth)))
      else if i_class (inodes F curdir) \<noteq> ClassDir then None
      else
        (case dm_find v (inodes F curdir) of
           None \<Rightarrow> Some (Inl ENOENT)
         | Some d \<Rightarrow>
             if is_stale (inodes F (d_inode (dents F d))) then Some (Inl ESTALE)
             else
               wbind
                 (if is_symlink (inodes F (d_inode (dents F d))) \<and> (chase_last \<or> vs \<noteq> []) then
                    (if i_class (inodes F (d_inode (dents F d))) \<noteq> ClassLink then None
                     else if link_depth \<le> 1 then Some (Inl ELOOP)
                     else
                       (let lpath = i_link (inodes F (d_inode (dents F d)));
                            newroot = (if is_absolute lpath then get_root fs F else curdir)
                        in wbind (walk_loop fs F (i_dent (inodes F newroot)) newroot (split (CHR ''/'') lpath) True (link_depth - 1))
                             (\<lambda>e. if is_stale (inodes F (d_inode (dents F e))) then Some (Inl ESTALE) else Some (Inr e))))
                  else Some (Inr d))
                 (\<lambda>e. if vs = [] then Some (Inr e)
                       else if \<not> is_dir (inodes F (d_inode (dents F e))) then Some (Inl ENOTDIR)
                       else walk_loop fs F (Some e) (d_inode (dents F e)) vs chase_last link_depth)))"
  by pat_completeness auto
termination
  by (relation "measures [\<lambda>(fs, F, c, d, path, chase, depth). depth, \<lambda>(fs, F, c, d, path, chase, depth). length path]") auto

declare walk_loop.simps [simp del]

lemmas walk_simps = walk_loop.simps

definition WalkPath :: "FSRoot \<Rightarrow> Fs \<Rightarrow> nat \<Rightarrow> string list \<Rightarrow> bool \<Rightarrow> nat walk" where
  "WalkPath fs F dir path chase_last = walk_loop fs F (i_dent (inodes F dir)) dir path chase_last kMaxLinksToChase"

definition SplitPath :: "string \<Rightarrow> string list \<times> bool" where
  "SplitPath path =
     (let spath = split (CHR ''/'') path;
          kept = rev (dropWhile (\<lambda>s. s = [] \<or> s = ''.'') (rev spath))
      in (kept, length kept \<noteq> length spath))"

definition GetPathDir :: "FSRoot \<Rightarrow> Fs \<Rightarrow> string \<Rightarrow> nat" where
  "GetPathDir fs F path = (if is_absolute path then get_root fs F else get_cwd fs F)"

type_synonym fd_dents = "int \<Rightarrow> nat option option"

definition kAtFdCwd :: int where "kAtFdCwd = - 100"

definition GetFileInode :: "fd_dents \<Rightarrow> Fs \<Rightarrow> int \<Rightarrow> nat walk" where
  "GetFileInode T F fd =
     (case T fd of
        None \<Rightarrow> Some (Inl EBADF)
      | Some None \<Rightarrow> Some (Inl EINVAL)
      | Some (Some d) \<Rightarrow> Some (Inr (d_inode (dents F d))))"

definition GetPathDirAt :: "fd_dents \<Rightarrow> FSRoot \<Rightarrow> Fs \<Rightarrow> int \<Rightarrow> string \<Rightarrow> nat walk" where
  "GetPathDirAt T fs F fd path =
     (if is_absolute path then Some (Inr (get_root fs F))
      else if fd = kAtFdCwd then Some (Inr (get_cwd fs F))
      else (case T fd of
              None \<Rightarrow> Some (Inl EBADF)
            | Some None \<Rightarrow> None
            | Some (Some d) \<Rightarrow>
                if \<not> is_dir (inodes F (d_inode (dents F d))) then Some (Inl ENOTDIR)
                else Some (Inr (d_inode (dents F d)))))"

record Entry =
  e_dir :: nat
  e_name :: string
  e_must_be_dir :: bool

definition LookupEntryFrom :: "FSRoot \<Rightarrow> Fs \<Rightarrow> nat \<Rightarrow> string \<Rightarrow> Entry walk" where
  "LookupEntryFrom fs F pos path =
     (if \<not> PathIsValid path then Some (Inl EINVAL)
      else
        (case SplitPath path of
           (spath, must_be_dir) \<Rightarrow>
             if spath = [] then Some (Inr \<lparr>e_dir = pos, e_name = [], e_must_be_dir = True\<rparr>)
             else
               wbind (WalkPath fs F pos (butlast spath) True)
                 (\<lambda>d. let i = d_inode (dents F d); name = last spath in
                    if \<not> is_dir (inodes F i) then Some (Inl ENOTDIR)
                    else if name = ''..'' then
                      (if d = fs_root fs then Some (Inr \<lparr>e_dir = i, e_name = [], e_must_be_dir = True\<rparr>)
                       else (case get_parent_dir d F of
                               Inl e \<Rightarrow> Some (Inl e)
                             | Inr p \<Rightarrow> Some (Inr \<lparr>e_dir = p, e_name = [], e_must_be_dir = True\<rparr>)))
                    else Some (Inr \<lparr>e_dir = i, e_name = (if name = ''.'' then [] else name), e_must_be_dir = must_be_dir\<rparr>))))"

definition LookupEntry :: "FSRoot \<Rightarrow> Fs \<Rightarrow> string \<Rightarrow> Entry walk" where
  "LookupEntry fs F path = LookupEntryFrom fs F (GetPathDir fs F path) path"

definition LookupEntryAt :: "fd_dents \<Rightarrow> FSRoot \<Rightarrow> Fs \<Rightarrow> int \<Rightarrow> string \<Rightarrow> Entry walk" where
  "LookupEntryAt T fs F fd path = wbind (GetPathDirAt T fs F fd path) (\<lambda>dir. LookupEntryFrom fs F dir path)"

definition LookupDirEntry :: "FSRoot \<Rightarrow> Fs \<Rightarrow> string \<Rightarrow> bool \<Rightarrow> nat walk" where
  "LookupDirEntry fs F path chase_link =
     (if \<not> PathIsValid path then Some (Inl EINVAL)
      else (case SplitPath path of
              (spath, must_be_dir) \<Rightarrow> WalkPath fs F (GetPathDir fs F path) spath (chase_link \<or> must_be_dir)))"

definition LookupDirEntryAt :: "fd_dents \<Rightarrow> FSRoot \<Rightarrow> Fs \<Rightarrow> int \<Rightarrow> string \<Rightarrow> bool \<Rightarrow> nat walk" where
  "LookupDirEntryAt T fs F dirfd path chase_link =
     (if \<not> PathIsValid path then Some (Inl EINVAL)
      else if path = [] then
        (case T dirfd of None \<Rightarrow> Some (Inl EBADF) | Some None \<Rightarrow> None | Some (Some d) \<Rightarrow> Some (Inr d))
      else
        wbind (GetPathDirAt T fs F dirfd path)
          (\<lambda>dir. case SplitPath path of
             (spath, must_be_dir) \<Rightarrow> WalkPath fs F dir spath (chase_link \<or> must_be_dir)))"

definition LookupInode :: "FSRoot \<Rightarrow> Fs \<Rightarrow> string \<Rightarrow> bool \<Rightarrow> nat walk" where
  "LookupInode fs F path chase_link = wbind (LookupDirEntry fs F path chase_link) (\<lambda>d. Some (Inr (d_inode (dents F d))))"

definition LookupInodeAt :: "fd_dents \<Rightarrow> FSRoot \<Rightarrow> Fs \<Rightarrow> int \<Rightarrow> string \<Rightarrow> bool \<Rightarrow> nat walk" where
  "LookupInodeAt T fs F dirfd path chase_link =
     wbind (LookupDirEntryAt T fs F dirfd path chase_link) (\<lambda>d. Some (Inr (d_inode (dents F d))))"

end
