(* ===== verification/FsInv.thy ===== *)
theory FsInv
  imports PathWalk
begin

text \<open>
  The invariant of the namespace: directory entries and inodes refer to each other consistently, and
  the link count of an inode is the number of its attached entries.
\<close>

definition attached :: "Fs \<Rightarrow> nat \<Rightarrow> bool" where
  "attached F d \<longleftrightarrow> d < next_dent F \<and> d_parent (dents F d) \<noteq> None"

definition maps_ok :: "Fs \<Rightarrow> bool" where
  "maps_ok F \<longleftrightarrow>
     (\<forall>i n e. (n, e) \<in> set (i_map (inodes F i)) \<longrightarrow>
        attached F e \<and> d_name (dents F e) = n \<and> d_parent (dents F e) = i_dent (inodes F i)) \<and>
     (\<forall>i. distinct (map fst (i_map (inodes F i))))"

definition idents_ok :: "Fs \<Rightarrow> bool" where
  "idents_ok F \<longleftrightarrow>
     (\<forall>i d. i_dent (inodes F i) = Some d \<longrightarrow> attached F d \<and> d_inode (dents F d) = i \<and> i_class (inodes F i) = ClassDir)"

definition parents_ok :: "nat \<Rightarrow> Fs \<Rightarrow> bool" where
  "parents_ok root F \<longleftrightarrow>
     (\<forall>d p. d < next_dent F \<longrightarrow> d_parent (dents F d) = Some p \<longrightarrow>
        i_dent (inodes F (d_inode (dents F p))) = Some p \<and> d_inode (dents F d) < next_inode F \<and>
        (d = root \<or> (d_name (dents F d), d) \<in> set (i_map (inodes F (d_inode (dents F p))))))"

definition dirs_ok :: "Fs \<Rightarrow> bool" where
  "dirs_ok F \<longleftrightarrow>
     (\<forall>d. attached F d \<longrightarrow> i_class (inodes F (d_inode (dents F d))) = ClassDir \<longrightarrow>
        i_dent (inodes F (d_inode (dents F d))) = Some d)"

definition types_ok :: "Fs \<Rightarrow> bool" where
  "types_ok F \<longleftrightarrow>
     (\<forall>i < next_inode F. (is_dir (inodes F i) \<longleftrightarrow> i_class (inodes F i) = ClassDir) \<and>
        (is_symlink (inodes F i) \<longleftrightarrow> i_class (inodes F i) = ClassLink))"

definition root_ok :: "nat \<Rightarrow> Fs \<Rightarrow> bool" where
  "root_ok root F \<longleftrightarrow>
     root < next_dent F \<and> d_parent (dents F root) = Some root \<and> i_class (inodes F (d_inode (dents F root))) = ClassDir \<and>
     (\<forall>i n. (n, root) \<notin> set (i_map (inodes F i)))"

definition entries_of :: "Fs \<Rightarrow> nat \<Rightarrow> nat set" where
  "entries_of F i = {d. attached F d \<and> d_inode (dents F d) = i}"

definition nlink_ok :: "Fs \<Rightarrow> bool" where
  "nlink_ok F \<longleftrightarrow> (\<forall>i < next_inode F. i_nlink (inodes F i) = int (card (entries_of F i)))"

definition fs_ok :: "nat \<Rightarrow> Fs \<Rightarrow> bool" where
  "fs_ok root F \<longleftrightarrow>
     maps_ok F \<and> idents_ok F \<and> parents_ok root F \<and> dirs_ok F \<and> types_ok F \<and> root_ok root F \<and> nlink_ok F"

named_theorems fs_upd

lemma upd_inode_simps [fs_upd]:
  "inodes (upd_inode i f F) j = (if j = i then f (inodes F i) else inodes F j)"
  "dents (upd_inode i f F) = dents F"
  "next_inode (upd_inode i f F) = next_inode F"
  "next_dent (upd_inode i f F) = next_dent F"
  by (simp_all add: upd_inode_def)

lemma upd_dent_simps [fs_upd]:
  "dents (upd_dent d g F) e = (if e = d then g (dents F d) else dents F e)"
  "inodes (upd_dent d g F) = inodes F"
  "next_inode (upd_dent d g F) = next_inode F"
  "next_dent (upd_dent d g F) = next_dent F"
  by (simp_all add: upd_dent_def)

lemma dm_find_Some: "dm_find n I = Some d \<Longrightarrow> (n, d) \<in> set (i_map I)"
  by (auto simp: dm_find_def dest: map_of_SomeD)

lemma dm_find_None: "dm_find n I = None \<longleftrightarrow> n \<notin> fst ` set (i_map I)"
  by (simp add: dm_find_def map_of_eq_None_iff)

lemma finite_entries [simp]: "finite (entries_of F i)"
  by (rule finite_subset [of _ "{..< next_dent F}"]) (auto simp: entries_of_def attached_def)

lemmas fs_parts = maps_ok_def idents_ok_def parents_ok_def dirs_ok_def types_ok_def root_ok_def

lemma fs_ok_parts:
  assumes "fs_ok root F"
  shows "maps_ok F" and "idents_ok F" and "parents_ok root F" and "dirs_ok F" and "types_ok F"
    and "root_ok root F" and "nlink_ok F"
  using assms by (simp_all add: fs_ok_def)

text \<open>Facts of a consistent namespace.\<close>

lemma entry_in_map:
  assumes "fs_ok root F" and "(n, d) \<in> set (i_map (inodes F i))"
  shows "attached F d" and "d_name (dents F d) = n" and "d_parent (dents F d) = i_dent (inodes F i)"
    and "d \<noteq> root" and "d_inode (dents F d) < next_inode F"
proof -
  note ok = fs_ok_parts [OF assms(1)]
  show a: "attached F d" and "d_name (dents F d) = n" and "d_parent (dents F d) = i_dent (inodes F i)"
    using ok(1) assms(2) by (auto simp: maps_ok_def)
  show "d \<noteq> root" using ok(6) assms(2) by (auto simp: root_ok_def)
  show "d_inode (dents F d) < next_inode F" using ok(3) a by (auto simp: parents_ok_def attached_def)
qed

lemma map_unique:
  assumes "fs_ok root F" and "(n, d) \<in> set (i_map (inodes F i))" and "(m, d) \<in> set (i_map (inodes F j))"
  shows "i = j" and "n = m"
proof -
  note e = entry_in_map [OF assms(1,2)] and e' = entry_in_map [OF assms(1,3)]
  obtain p where p: "d_parent (dents F d) = Some p" using e(1) by (auto simp: attached_def)
  then show "i = j" using e(3) e'(3) fs_ok_parts(2) [OF assms(1)] by (auto simp: idents_ok_def)
  show "n = m" using e(2) e'(2) by simp
qed

lemma detached_dir_empty:
  assumes "fs_ok root F" and "i_dent (inodes F i) = None"
  shows "i_map (inodes F i) = []"
proof (rule ccontr)
  assume "i_map (inodes F i) \<noteq> []"
  then obtain n d where "(n, d) \<in> set (i_map (inodes F i))" by (cases "i_map (inodes F i)") auto
  then show False using entry_in_map [OF assms(1)] assms(2) by (fastforce simp: attached_def)
qed

lemma dir_inode_alloc:
  assumes "fs_ok root F" and "i_dent (inodes F i) = Some d"
  shows "i < next_inode F" and "attached F d" and "d_inode (dents F d) = i"
  using fs_ok_parts [OF assms(1)] assms(2) by (auto simp: idents_ok_def parents_ok_def attached_def)

subsection \<open>New inodes\<close>

lemma new_inode_ok:
  assumes ok: "fs_ok root F"
    and ty: "is_dir \<lparr>i_class = c, i_mode = m, i_nlink = 0, i_link = l, i_map = [], i_dent = None, i_mem = True\<rparr> \<longleftrightarrow> c = ClassDir"
      "is_symlink \<lparr>i_class = c, i_mode = m, i_nlink = 0, i_link = l, i_map = [], i_dent = None, i_mem = True\<rparr> \<longleftrightarrow> c = ClassLink"
  shows "fs_ok root (snd (new_inode c m l F))"
proof -
  note p = fs_ok_parts [OF ok]
  let ?i = "next_inode F" and ?G = "snd (new_inode c m l F)"
  have G: "dents ?G = dents F" "next_dent ?G = next_dent F" "next_inode ?G = Suc ?i"
    "inodes ?G = (inodes F)(?i := \<lparr>i_class = c, i_mode = m, i_nlink = 0, i_link = l, i_map = [], i_dent = None, i_mem = True\<rparr>)"
    by (simp_all add: new_inode_def Let_def)
  have att: "attached ?G d = attached F d" for d by (simp add: attached_def G)
  have ino: "d_inode (dents F d) \<noteq> ?i" if "attached F d" for d using p(3) that by (auto simp: parents_ok_def attached_def)
  have par: "attached F q" if "d < next_dent F" "d_parent (dents F d) = Some q" for d q
    using p(2,3) that by (auto simp: parents_ok_def idents_ok_def)
  have "maps_ok ?G" using p(1) by (auto simp: maps_ok_def att G)
  moreover have "idents_ok ?G" using p(2) by (auto simp: idents_ok_def att G)
  moreover have "parents_ok root ?G" using p(3) ino par by (fastforce simp: parents_ok_def G)
  moreover have "dirs_ok ?G" using p(4) ino by (auto simp: dirs_ok_def att G)
  moreover have "types_ok ?G" using p(5) ty by (auto simp: types_ok_def G less_Suc_eq)
  moreover have "root_ok root ?G" using p(6) ino [of root] by (auto simp: root_ok_def G attached_def)
  moreover have "nlink_ok ?G"
  proof -
    have "entries_of ?G j = entries_of F j" for j by (simp add: entries_of_def att G)
    moreover have "entries_of F ?i = {}" using ino by (auto simp: entries_of_def)
    ultimately show ?thesis using p(7) by (auto simp: nlink_ok_def G less_Suc_eq)
  qed
  ultimately show ?thesis by (simp add: fs_ok_def)
qed

subsection \<open>Attaching an entry\<close>

text \<open>The state after a new entry for inode \<open>i\<close> has been put into directory \<open>dir\<close>.\<close>

definition attach :: "nat \<Rightarrow> string \<Rightarrow> nat \<Rightarrow> Fs \<Rightarrow> Fs" where
  "attach dir name i F =
     (let d = next_dent F in
      F\<lparr>dents := (dents F)(d := \<lparr>d_name = name, d_inode = i, d_parent = i_dent (inodes F dir)\<rparr>),
        next_dent := d + 1,
        inodes := (inodes F)
          (i := (inodes F i)\<lparr>i_nlink := i_nlink (inodes F i) + 1,
                  i_dent := if i_class (inodes F i) = ClassDir then Some d else i_dent (inodes F i)\<rparr>,
           dir := (inodes F dir)\<lparr>i_map := i_map (inodes F dir) @ [(name, d)]\<rparr>)\<rparr>)"

lemma attach_fields:
  assumes "i \<noteq> dir"
  shows "next_dent (attach dir name i F) = Suc (next_dent F)" and "next_inode (attach dir name i F) = next_inode F"
    and "dents (attach dir name i F) d =
      (if d = next_dent F then \<lparr>d_name = name, d_inode = i, d_parent = i_dent (inodes F dir)\<rparr> else dents F d)"
    and "i_map (inodes (attach dir name i F) j) =
      (if j = dir then i_map (inodes F dir) @ [(name, next_dent F)] else i_map (inodes F j))"
    and "i_dent (inodes (attach dir name i F) j) =
      (if j = i \<and> i_class (inodes F i) = ClassDir then Some (next_dent F) else i_dent (inodes F j))"
    and "i_class (inodes (attach dir name i F) j) = i_class (inodes F j)"
    and "i_mode (inodes (attach dir name i F) j) = i_mode (inodes F j)"
    and "i_nlink (inodes (attach dir name i F) j) = (if j = i then i_nlink (inodes F i) + 1 else i_nlink (inodes F j))"
  using assms by (auto simp: attach_def Let_def)

lemma attach_ok:
  assumes ok: "fs_ok root F" and dir: "i_dent (inodes F dir) = Some p" and i: "i < next_inode F" "i \<noteq> dir"
    and fresh: "dm_find name (inodes F dir) = None"
    and new: "i_class (inodes F i) = ClassDir \<longrightarrow> entries_of F i = {}"
  shows "fs_ok root (attach dir name i F)"
proof -
  note p = fs_ok_parts [OF ok] and f = attach_fields [OF i(2), of name F]
  let ?G = "attach dir name i F" and ?d = "next_dent F"
  have att: "attached ?G d \<longleftrightarrow> attached F d \<or> d = ?d" for d by (auto simp: attached_def f dir)
  have old: "attached F d \<Longrightarrow> d \<noteq> ?d" for d by (simp add: attached_def)
  have par: "attached F q" if "d < ?d" "d_parent (dents F d) = Some q" for d q
    using p(2,3) that by (auto simp: parents_ok_def idents_ok_def)
  have pa: "attached F p" "d_inode (dents F p) = dir" "i_class (inodes F dir) = ClassDir"
    using p(2) dir by (auto simp: idents_ok_def)
  have nochild: "i_map (inodes F i) = []" "i_dent (inodes F i) = None" if "i_class (inodes F i) = ClassDir"
  proof -
    show n: "i_dent (inodes F i) = None"
      using p(2) new that by (cases "i_dent (inodes F i)") (auto simp: idents_ok_def entries_of_def)
    show "i_map (inodes F i) = []" using detached_dir_empty [OF ok n] .
  qed
  have ex: "attached F e \<and> e \<noteq> ?d" if "(n, e) \<in> set (i_map (inodes F j))" for n e j
    using entry_in_map(1) [OF ok that] old by auto
  have "maps_ok ?G"
    unfolding maps_ok_def
  proof (intro conjI allI impI)
    fix j n e assume a: "(n, e) \<in> set (i_map (inodes ?G j))"
    show "attached ?G e" using a ex by (auto simp: f att split: if_splits)
    show "d_name (dents ?G e) = n" using a ex p(1) by (fastforce simp: f maps_ok_def split: if_splits)
    show "d_parent (dents ?G e) = i_dent (inodes ?G j)"
    proof (cases "j = i \<and> i_class (inodes F i) = ClassDir")
      case True
      then show ?thesis using a nochild i(2) by (simp add: f)
    next
      case False
      then show ?thesis using a ex p(1) i(2) by (fastforce simp: f maps_ok_def split: if_splits)
    qed
  next
    fix j show "distinct (map fst (i_map (inodes ?G j)))"
      using p(1) fresh by (auto simp: f maps_ok_def dm_find_None)
  qed
  moreover have "idents_ok ?G" using p(2) old by (fastforce simp: idents_ok_def f att)
  moreover have "parents_ok root ?G"
    unfolding parents_ok_def
  proof (intro allI impI)
    fix d q assume d: "d < next_dent ?G" and q: "d_parent (dents ?G d) = Some q"
    have qa: "attached F q" using d q par [of d q] pa dir by (auto simp: f split: if_splits)
    have qi: "d_inode (dents F q) = i \<longrightarrow> i_class (inodes F i) \<noteq> ClassDir"
      using qa new by (auto simp: entries_of_def)
    show "i_dent (inodes ?G (d_inode (dents ?G q))) = Some q \<and> d_inode (dents ?G d) < next_inode ?G \<and>
        (d = root \<or> (d_name (dents ?G d), d) \<in> set (i_map (inodes ?G (d_inode (dents ?G q)))))"
    proof (cases "d = ?d")
      case True
      then show ?thesis using q dir pa i old by (auto simp: f)
    next
      case False
      then have "d < ?d" and q': "d_parent (dents F d) = Some q" using d q by (auto simp: f)
      then have "i_dent (inodes F (d_inode (dents F q))) = Some q" and "d_inode (dents F d) < next_inode F"
        and "d = root \<or> (d_name (dents F d), d) \<in> set (i_map (inodes F (d_inode (dents F q))))"
        using p(3) by (auto simp: parents_ok_def)
      then show ?thesis using False old [OF qa] qi by (auto simp: f)
    qed
  qed
  moreover have "dirs_ok ?G" using p(4) new old by (fastforce simp: dirs_ok_def f att entries_of_def)
  moreover have "types_ok ?G" using p(5) by (auto simp: types_ok_def f is_dir_def is_symlink_def get_type_def)
  moreover have "root_ok root ?G" using p(6) by (auto simp: root_ok_def f)
  moreover have "nlink_ok ?G"
  proof -
    have "entries_of ?G j = (if j = i then insert ?d (entries_of F i) else entries_of F j)" for j
      using old by (auto simp: entries_of_def att f)
    moreover have "?d \<notin> entries_of F i" using old by (auto simp: entries_of_def)
    ultimately show ?thesis using p(7) by (auto simp: nlink_ok_def f)
  qed
  ultimately show ?thesis by (simp add: fs_ok_def)
qed

subsection \<open>Detaching an entry\<close>

lemma unlink_fields:
  assumes ok: "fs_ok root F" and d: "(n, d) \<in> set (i_map (inodes F dir))"
    and empty: "i_map (inodes F (d_inode (dents F d))) = []"
  shows "next_dent (UnlinkAndDispose dir d F) = next_dent F"
    and "next_inode (UnlinkAndDispose dir d F) = next_inode F"
    and "dents (UnlinkAndDispose dir d F) e =
      (if e = d then (dents F d)\<lparr>d_name := '' (deleted)'', d_parent := None\<rparr> else dents F e)"
    and "i_map (inodes (UnlinkAndDispose dir d F) j) =
      (if j = dir then filter (\<lambda>(n, e). e \<noteq> d) (i_map (inodes F dir)) else i_map (inodes F j))"
    and "i_dent (inodes (UnlinkAndDispose dir d F) j) =
      (if j = d_inode (dents F d) \<and> i_class (inodes F j) = ClassDir then None else i_dent (inodes F j))"
    and "i_class (inodes (UnlinkAndDispose dir d F) j) = i_class (inodes F j)"
    and "i_mode (inodes (UnlinkAndDispose dir d F) j) = i_mode (inodes F j)"
    and "i_nlink (inodes (UnlinkAndDispose dir d F) j) =
      (if j = d_inode (dents F d) then i_nlink (inodes F j) - 1 else i_nlink (inodes F j))"
proof -
  note e = entry_in_map [OF ok d]
  have par: "d_parent (dents F d) \<noteq> None" using e(1) by (simp add: attached_def)
  have dirty: "is_dir (inodes F (d_inode (dents F d))) \<longleftrightarrow> i_class (inodes F (d_inode (dents F d))) = ClassDir"
    using fs_ok_parts(5) [OF ok] e(5) by (simp add: types_ok_def)
  have ne: "d_inode (dents F d) \<noteq> dir" using d empty by auto
  note defs = UnlinkAndDispose_def Invalidate_def DecLink_def Let_def fs_upd par dec_nlink_def is_dir_def get_type_def dm_erase_def
  show "next_dent (UnlinkAndDispose dir d F) = next_dent F"
    and "next_inode (UnlinkAndDispose dir d F) = next_inode F"
    and "dents (UnlinkAndDispose dir d F) e =
      (if e = d then (dents F d)\<lparr>d_name := '' (deleted)'', d_parent := None\<rparr> else dents F e)"
    and "i_map (inodes (UnlinkAndDispose dir d F) j) =
      (if j = dir then filter (\<lambda>(n, e). e \<noteq> d) (i_map (inodes F dir)) else i_map (inodes F j))"
    and "i_class (inodes (UnlinkAndDispose dir d F) j) = i_class (inodes F j)"
    and "i_mode (inodes (UnlinkAndDispose dir d F) j) = i_mode (inodes F j)"
    and "i_nlink (inodes (UnlinkAndDispose dir d F) j) =
      (if j = d_inode (dents F d) then i_nlink (inodes F j) - 1 else i_nlink (inodes F j))"
    using ne par by (simp_all add: defs)
  show "i_dent (inodes (UnlinkAndDispose dir d F) j) =
      (if j = d_inode (dents F d) \<and> i_class (inodes F j) = ClassDir then None else i_dent (inodes F j))"
    using ne par dirty by (auto simp: defs)
qed

lemma unlink_ok:
  assumes ok: "fs_ok root F" and d: "(n, d) \<in> set (i_map (inodes F dir))"
    and empty: "i_map (inodes F (d_inode (dents F d))) = []"
  shows "fs_ok root (UnlinkAndDispose dir d F)"
proof -
  note p = fs_ok_parts [OF ok] and f = unlink_fields [OF ok d empty] and e = entry_in_map [OF ok d]
  let ?G = "UnlinkAndDispose dir d F" and ?i = "d_inode (dents F d)"
  have att: "attached ?G c \<longleftrightarrow> attached F c \<and> c \<noteq> d" for c by (auto simp: attached_def f)
  have own: "c = d" if "attached F c" "d_inode (dents F c) = ?i" "i_class (inodes F ?i) = ClassDir" for c
  proof -
    have "i_dent (inodes F ?i) = Some c" using p(4) that by (auto simp: dirs_ok_def)
    moreover have "i_dent (inodes F ?i) = Some d" using p(4) that(3) e(1) by (auto simp: dirs_ok_def)
    ultimately show ?thesis by simp
  qed
  have only: "j = dir" if "(m, d) \<in> set (i_map (inodes F j))" for m j using map_unique(1) [OF ok that d] .
  have keep: "(m, c) \<in> set (i_map (inodes F j)) \<and> c \<noteq> d" if "(m, c) \<in> set (i_map (inodes ?G j))" for m c j
    using that only by (auto simp: f split: if_splits)
  have "maps_ok ?G"
    unfolding maps_ok_def
  proof (intro conjI allI impI)
    fix j m c assume a: "(m, c) \<in> set (i_map (inodes ?G j))"
    note k = keep [OF a]
    note c = entry_in_map [OF ok conjunct1 [OF k]]
    show "attached ?G c" and "d_name (dents ?G c) = m" using c k by (auto simp: att f)
    have "j \<noteq> ?i" using k empty by auto
    then show "d_parent (dents ?G c) = i_dent (inodes ?G j)" using c k by (simp add: f)
  next
    fix j show "distinct (map fst (i_map (inodes ?G j)))"
      using p(1) by (auto simp: f maps_ok_def distinct_map_filter)
  qed
  moreover have "idents_ok ?G" using p(2) by (auto simp: idents_ok_def f att split: if_splits)
  moreover have "parents_ok root ?G"
    unfolding parents_ok_def
  proof (intro allI impI)
    fix c q assume c: "c < next_dent ?G" and q: "d_parent (dents ?G c) = Some q"
    have cd: "c \<noteq> d" and q': "d_parent (dents F c) = Some q" "c < next_dent F"
      using c q by (auto simp: f split: if_splits)
    then have k: "i_dent (inodes F (d_inode (dents F q))) = Some q" "d_inode (dents F c) < next_inode F"
      "c = root \<or> (d_name (dents F c), c) \<in> set (i_map (inodes F (d_inode (dents F q))))"
      using p(3) by (auto simp: parents_ok_def)
    have "q \<noteq> d" using k(3) empty p(6) e(4) q' by (auto simp: root_ok_def)
    moreover have "d_inode (dents F q) \<noteq> ?i \<or> i_class (inodes F ?i) \<noteq> ClassDir"
    proof -
      have "attached F q" using p(2) k(1) by (simp add: idents_ok_def)
      then show ?thesis using own [of q] \<open>q \<noteq> d\<close> by blast
    qed
    ultimately have "i_dent (inodes ?G (d_inode (dents F q))) = Some q" using k(1) by (simp only: f if_False) auto
    moreover have "c = root \<or> (d_name (dents F c), c) \<in> set (i_map (inodes ?G (d_inode (dents F q))))"
      using k(3) cd by (cases "d_inode (dents F q) = dir") (simp_all add: f)
    moreover have "d_inode (dents ?G q) = d_inode (dents F q)" and "dents ?G c = dents F c" using cd by (simp_all add: f)
    ultimately show "i_dent (inodes ?G (d_inode (dents ?G q))) = Some q \<and> d_inode (dents ?G c) < next_inode ?G \<and>
        (c = root \<or> (d_name (dents ?G c), c) \<in> set (i_map (inodes ?G (d_inode (dents ?G q)))))"
      using k(2) by (simp add: f(2))
  qed
  moreover have "dirs_ok ?G" using p(4) own by (auto simp: dirs_ok_def f att)
  moreover have "types_ok ?G" using p(5) by (auto simp: types_ok_def f is_dir_def is_symlink_def get_type_def)
  moreover have "root_ok root ?G"
  proof -
    have "(m, root) \<notin> set (i_map (inodes ?G j))" for m j using p(6) keep [of m root j] by (auto simp: root_ok_def)
    then show ?thesis using p(6) e(4) by (simp add: root_ok_def f(1,3,6))
  qed
  moreover have "nlink_ok ?G"
  proof -
    have "entries_of ?G j = (if j = ?i then entries_of F j - {d} else entries_of F j)" for j
      by (auto simp: entries_of_def att f)
    moreover have "d \<in> entries_of F ?i" using e(1) by (simp add: entries_of_def)
    moreover have "int (card (entries_of F ?i - {d})) = int (card (entries_of F ?i)) - 1"
      using \<open>d \<in> entries_of F ?i\<close> card_gt_0_iff [of "entries_of F ?i"] by (auto simp: of_nat_diff Suc_le_eq)
    ultimately show ?thesis using p(7) by (simp add: nlink_ok_def f(2,8))
  qed
  ultimately show ?thesis by (simp add: fs_ok_def)
qed

subsection \<open>Moving an entry\<close>

definition move :: "nat \<Rightarrow> nat \<Rightarrow> nat \<Rightarrow> string \<Rightarrow> Fs \<Rightarrow> Fs" where
  "move dst src d name F =
     upd_inode dst (dm_insert name d)
       (upd_dent d (\<lambda>D. D\<lparr>d_name := name, d_parent := i_dent (inodes F dst)\<rparr>) (upd_inode src (dm_erase d) F))"

lemma move_fields:
  shows "next_dent (move dst src d name F) = next_dent F" and "next_inode (move dst src d name F) = next_inode F"
    and "dents (move dst src d name F) e =
      (if e = d then (dents F d)\<lparr>d_name := name, d_parent := i_dent (inodes F dst)\<rparr> else dents F e)"
    and "i_map (inodes (move dst src d name F) j) =
      (if j = src then filter (\<lambda>(n, e). e \<noteq> d) (i_map (inodes F j)) else i_map (inodes F j)) @
      (if j = dst then [(name, d)] else [])"
    and "i_dent (inodes (move dst src d name F) j) = i_dent (inodes F j)"
    and "i_class (inodes (move dst src d name F) j) = i_class (inodes F j)"
    and "i_mode (inodes (move dst src d name F) j) = i_mode (inodes F j)"
    and "i_nlink (inodes (move dst src d name F) j) = i_nlink (inodes F j)"
  by (simp_all add: move_def fs_upd dm_insert_def dm_erase_def)

lemma move_ok:
  assumes ok: "fs_ok root F" and d: "(n, d) \<in> set (i_map (inodes F src))"
    and dst: "i_dent (inodes F dst) = Some p"
    and fresh: "\<And>e. (name, e) \<in> set (i_map (inodes F dst)) \<Longrightarrow> dst = src \<and> e = d"
  shows "fs_ok root (move dst src d name F)"
proof -
  note q = fs_ok_parts [OF ok] and e = entry_in_map [OF ok d]
  note f = move_fields [of dst src d name F]
  let ?G = "move dst src d name F"
  have att: "attached ?G c = attached F c" for c using e(1) dst by (auto simp: attached_def f)
  have only: "j = src" if "(m, d) \<in> set (i_map (inodes F j))" for m j using map_unique(1) [OF ok that d] .
  have keep: "(m, c) \<in> set (i_map (inodes F j)) \<and> c \<noteq> d \<or> j = dst \<and> m = name \<and> c = d"
    if "(m, c) \<in> set (i_map (inodes ?G j))" for m c j
    using that only by (auto simp: f split: if_splits)
  have ino: "d_inode (dents ?G c) = d_inode (dents F c)" for c by (simp add: f)
  have "maps_ok ?G"
    unfolding maps_ok_def
  proof (intro conjI allI impI)
    fix j m c assume a: "(m, c) \<in> set (i_map (inodes ?G j))"
    from keep [OF a] show "attached ?G c" and "d_name (dents ?G c) = m" and "d_parent (dents ?G c) = i_dent (inodes ?G j)"
      using entry_in_map(1-3) [OF ok, of m c j] e(1) by (auto simp: att f)
  next
    fix j
    have "distinct (map fst (i_map (inodes F j)))" using q(1) by (simp add: maps_ok_def)
    then show "distinct (map fst (i_map (inodes ?G j)))"
      using fresh by (auto simp: f distinct_map_filter)
  qed
  moreover have "idents_ok ?G" using q(2) by (auto simp: idents_ok_def f att)
  moreover have "parents_ok root ?G"
    unfolding parents_ok_def
  proof (intro allI impI)
    fix c r assume c: "c < next_dent ?G" and r: "d_parent (dents ?G c) = Some r"
    show "i_dent (inodes ?G (d_inode (dents ?G r))) = Some r \<and> d_inode (dents ?G c) < next_inode ?G \<and>
        (c = root \<or> (d_name (dents ?G c), c) \<in> set (i_map (inodes ?G (d_inode (dents ?G r)))))"
    proof (cases "c = d")
      case True
      then have "r = p" using r dst by (simp add: f)
      then show ?thesis using True dst e(5) q(2) by (auto simp: f idents_ok_def)
    next
      case False
      then have "c < next_dent F" and "d_parent (dents F c) = Some r" using c r by (auto simp: f)
      then have "i_dent (inodes F (d_inode (dents F r))) = Some r" and "d_inode (dents F c) < next_inode F"
        and "c = root \<or> (d_name (dents F c), c) \<in> set (i_map (inodes F (d_inode (dents F r))))"
        using q(3) by (auto simp: parents_ok_def)
      then show ?thesis using False by (auto simp: f)
    qed
  qed
  moreover have "dirs_ok ?G" using q(4) by (auto simp: dirs_ok_def f att)
  moreover have "types_ok ?G" using q(5) by (auto simp: types_ok_def f is_dir_def is_symlink_def get_type_def)
  moreover have "root_ok root ?G" using q(6) keep e(4) by (fastforce simp: root_ok_def f)
  moreover have "entries_of ?G j = entries_of F j" for j by (simp add: entries_of_def att ino)
  then have "nlink_ok ?G" using q(7) by (simp add: nlink_ok_def f)
  ultimately show ?thesis by (simp add: fs_ok_def)
qed

end
