(* ===== verification/FsSteps.thy ===== *)
theory FsSteps
  imports FsInv
begin

text \<open>
  The directory operations keep the invariant of the namespace, and path resolution in a consistent
  namespace.
\<close>

subsection \<open>The operations in terms of attaching, detaching and moving\<close>

lemma AddDentLocked_eq:
  assumes "i_class (inodes F i) \<noteq> ClassDir" and "i_dent (inodes F dir) = Some p" and "i \<noteq> dir"
  shows "AddDentLocked dir name i F =
    (if dm_find name (inodes F dir) \<noteq> None then (Inl EEXIST, F) else (Inr (next_dent F), attach dir name i F))"
  using assms
  by (auto simp: AddDentLocked_def DirectoryEntry_new_def Let_def dm_Insert_def upd_inode_def inc_nlink_def dm_insert_def
      attach_def dm_find_def fun_eq_iff intro!: Fs.equality split: option.splits)

lemma new_inode_fields:
  "fst (new_inode c m l F) = next_inode F"
  "dents (snd (new_inode c m l F)) = dents F"
  "next_dent (snd (new_inode c m l F)) = next_dent F"
  "next_inode (snd (new_inode c m l F)) = Suc (next_inode F)"
  "inodes (snd (new_inode c m l F)) j =
     (if j = next_inode F then \<lparr>i_class = c, i_mode = m, i_nlink = 0, i_link = l, i_map = [], i_dent = None, i_mem = True\<rparr>
      else inodes F j)"
  by (simp_all add: new_inode_def Let_def)

lemma AddIDirLocked_eq:
  assumes "fs_ok root F" and "i_dent (inodes F dir) = Some p"
  shows "AddIDirLocked dir name mode F =
    (if dm_find name (inodes F dir) \<noteq> None then (Inl EEXIST, F)
     else (Inr (next_dent F), attach dir name (next_inode F) (snd (new_inode ClassDir (kTypeDirectory OR mode) [] F))))"
proof -
  have ne: "dir \<noteq> next_inode F" using dir_inode_alloc(1) [OF assms] by simp
  then show ?thesis
    using assms(2)
    by (auto simp: AddIDirLocked_def new_inode_def DirectoryEntry_new_def Let_def dm_Insert_def upd_inode_def inc_nlink_def
        dm_insert_def attach_def dm_find_def fun_eq_iff intro!: Fs.equality split: option.splits)
qed

lemma InsertOverwrite_new:
  assumes "dm_find (d_name (dents F d)) (inodes F dir) = None"
  shows "InsertOverwrite dir d F = upd_inode dir (dm_insert (d_name (dents F d)) d) F"
  using assms by (simp add: InsertOverwrite_def Let_def)

lemma mem_Create_eq:
  assumes "fs_ok root F" and "i_dent (inodes F dir) = Some p" and "dm_find name (inodes F dir) = None"
  shows "mem_Create dir name exclusive mode F =
    (Inr (next_dent F), attach dir name (next_inode F) (snd (new_inode ClassFile (kTypeRegularFile OR mode) [] F)))"
proof -
  have ne: "dir \<noteq> next_inode F" using dir_inode_alloc(1) [OF assms(1,2)] by simp
  then show ?thesis
    using assms(2,3)
    by (auto simp: mem_Create_def new_inode_def DirectoryEntry_new_def Let_def InsertOverwrite_def upd_inode_def inc_nlink_def
        dm_insert_def attach_def dm_find_def fun_eq_iff intro!: Fs.equality split: option.splits)
qed

lemma upd_inode_commute: "i \<noteq> j \<Longrightarrow> upd_inode i f (upd_inode j g F) = upd_inode j g (upd_inode i f F)"
  by (simp add: upd_inode_def fun_upd_twist)

lemma upd_dent_inode_commute: "upd_dent d f (upd_inode i g F) = upd_inode i g (upd_dent d f F)"
  by (simp add: upd_dent_def upd_inode_def)

lemma erase_commute: "upd_inode i (dm_erase c) (upd_inode j (dm_erase d) F) = upd_inode j (dm_erase d) (upd_inode i (dm_erase c) F)"
proof (cases "i = j")
  case True
  have "dm_erase c (dm_erase d I) = dm_erase d (dm_erase c I)" for I
    by (simp add: dm_erase_def conj_commute)
  then show ?thesis using True by (simp add: upd_inode_def)
qed (rule upd_inode_commute)

lemma unlink_erase_commute:
  assumes "d_inode (dents F c) \<noteq> src"
  shows "UnlinkAndDispose dst c (upd_inode src (dm_erase d) F) = upd_inode src (dm_erase d) (UnlinkAndDispose dst c F)"
proof -
  let ?E = "upd_inode src (dm_erase d)" and ?i = "d_inode (dents F c)" and ?Z = "\<lambda>I. I\<lparr>i_dent := None\<rparr>"
  have inv: "Invalidate c (?E F) = ?E (Invalidate c F)"
    using upd_inode_commute [OF assms] by (simp add: Invalidate_def DecLink_def upd_inode_simps upd_dent_inode_commute)
  have "is_dir (inodes (?E (Invalidate c F)) ?i) = is_dir (inodes (Invalidate c F) ?i)"
    using assms by (simp add: upd_inode_simps)
  then show ?thesis
    using upd_inode_commute [OF assms, of ?Z "dm_erase d" "Invalidate c F"]
    by (simp add: UnlinkAndDispose_def Let_def inv upd_inode_simps erase_commute)
qed

subsection \<open>Preservation\<close>

definition live :: "Fs \<Rightarrow> nat \<Rightarrow> bool" where
  "live F dir \<longleftrightarrow> i_dent (inodes F dir) \<noteq> None"

lemma nondir_empty:
  assumes "fs_ok root F" and "i_class (inodes F i) \<noteq> ClassDir"
  shows "i_map (inodes F i) = []" and "i_dent (inodes F i) = None"
proof -
  show n: "i_dent (inodes F i) = None"
    using fs_ok_parts(2) [OF assms(1)] assms(2) by (cases "i_dent (inodes F i)") (auto simp: idents_ok_def)
  show "i_map (inodes F i) = []" using detached_dir_empty [OF assms(1) n] .
qed

text \<open>A new inode is entered into a live directory.\<close>

lemma attach_new_ok:
  assumes ok: "fs_ok root F" and dir: "live F dir" and fresh: "dm_find name (inodes F dir) = None"
    and ty: "m AND kTypeMask = kTypeDirectory \<longleftrightarrow> c = ClassDir" "m AND kTypeMask = kTypeSymLink \<longleftrightarrow> c = ClassLink"
  shows "fs_ok root (attach dir name (next_inode F) (snd (new_inode c m l F)))"
proof -
  let ?G = "snd (new_inode c m l F)"
  obtain p where p: "i_dent (inodes F dir) = Some p" using dir by (auto simp: live_def)
  have ne: "dir \<noteq> next_inode F" using dir_inode_alloc(1) [OF ok p] by simp
  have G: "fs_ok root ?G"
    by (rule new_inode_ok [OF ok]) (use ty in \<open>simp_all add: is_dir_def is_symlink_def get_type_def\<close>)
  have "d_inode (dents F d) \<noteq> next_inode F" if "attached F d" for d
    using fs_ok_parts(3) [OF ok] that by (auto simp: parents_ok_def attached_def)
  then have "entries_of ?G (next_inode F) = {}"
    by (auto simp: entries_of_def attached_def new_inode_fields)
  then show ?thesis
    using attach_ok [OF G, of dir p "next_inode F" name] p ne fresh by (auto simp: new_inode_fields)
qed

lemma add_new_ok:
  assumes ok: "fs_ok root F" and dir: "live F dir"
    and ty: "m AND kTypeMask \<noteq> kTypeDirectory" "c \<noteq> ClassDir" "m AND kTypeMask = kTypeSymLink \<longleftrightarrow> c = ClassLink"
  shows "fs_ok root (snd (case new_inode c m l F of (i, F1) \<Rightarrow> unit_status (AddDentLocked dir name i F1)))"
proof -
  let ?G = "snd (new_inode c m l F)"
  obtain p where p: "i_dent (inodes F dir) = Some p" using dir by (auto simp: live_def)
  have ne: "dir \<noteq> next_inode F" using dir_inode_alloc(1) [OF ok p] by simp
  have G: "fs_ok root ?G"
    by (rule new_inode_ok [OF ok]) (use ty in \<open>simp_all add: is_dir_def is_symlink_def get_type_def\<close>)
  have new: "new_inode c m l F = (next_inode F, ?G)" by (simp add: new_inode_def Let_def)
  have "AddDentLocked dir name (next_inode F) ?G =
    (if dm_find name (inodes ?G dir) \<noteq> None then (Inl EEXIST, ?G) else (Inr (next_dent ?G), attach dir name (next_inode F) ?G))"
    by (rule AddDentLocked_eq [of ?G _ _ p]) (use ty p ne in \<open>simp_all add: new_inode_fields\<close>)
  moreover have "fs_ok root (attach dir name (next_inode F) ?G)" if "dm_find name (inodes F dir) = None"
    using attach_new_ok [OF ok dir that] ty by blast
  ultimately show ?thesis using G ne by (subst new) (auto simp: unit_status_def new_inode_fields)
qed

lemma mem_MkNod_ok:
  assumes "fs_ok root F" and "live F dir" and "mode AND kTypeMask \<in> {kTypeCharacter, kTypeBlock}"
  shows "fs_ok root (snd (mem_MkNod dir name mode F))"
proof (cases "mode AND (kTypeCharacter OR kTypeBlock) = 0")
  case False
  show ?thesis
    using add_new_ok [OF assms(1,2), of mode ClassDevice name "[]"] assms(3) False
    by (auto simp: mem_MkNod_def inode_types)
qed (simp add: mem_MkNod_def assms)

lemma mem_SymLink_ok:
  assumes "fs_ok root F" and "live F dir"
  shows "fs_ok root (snd (mem_SymLink dir name target F))"
  using add_new_ok [OF assms, of "kTypeSymLink OR 0x1FF" ClassLink name target] by (simp add: mem_SymLink_def inode_types)

lemma or_type:
  fixes t mode :: u32
  assumes "mode AND kTypeMask = 0" and "t AND kTypeMask = t"
  shows "(t OR mode) AND kTypeMask = t"
  using assms by (simp add: bit.conj_disj_distrib2)

lemma mem_MkDir_ok:
  assumes "fs_ok root F" and "live F dir" and "mode AND kTypeMask = 0"
  shows "fs_ok root (snd (mem_MkDir dir name mode F))"
proof -
  obtain p where p: "i_dent (inodes F dir) = Some p" using assms(2) by (auto simp: live_def)
  have "(kTypeDirectory OR mode) AND kTypeMask = kTypeDirectory"
    by (rule or_type [OF assms(3)]) (simp add: inode_types)
  then have "fs_ok root (attach dir name (next_inode F) (snd (new_inode ClassDir (kTypeDirectory OR mode) [] F)))"
    if "dm_find name (inodes F dir) = None"
    using attach_new_ok [OF assms(1,2) that, of "kTypeDirectory OR mode" ClassDir] by (simp add: inode_types)
  then show ?thesis using assms(1) by (simp add: mem_MkDir_def unit_status_def AddIDirLocked_eq [OF assms(1) p])
qed

lemma mem_Create_ok:
  assumes "fs_ok root F" and "live F dir" and "mode AND kTypeMask = 0"
  shows "fs_ok root (snd (mem_Create dir name excl mode F))"
proof (cases "dm_find name (inodes F dir)")
  case None
  obtain p where p: "i_dent (inodes F dir) = Some p" using assms(2) by (auto simp: live_def)
  have "(kTypeRegularFile OR mode) AND kTypeMask = kTypeRegularFile"
    by (rule or_type [OF assms(3)]) (simp add: inode_types)
  then have "fs_ok root (attach dir name (next_inode F) (snd (new_inode ClassFile (kTypeRegularFile OR mode) [] F)))"
    using attach_new_ok [OF assms(1,2) None, of "kTypeRegularFile OR mode" ClassFile] by (simp add: inode_types)
  then show ?thesis by (simp add: mem_Create_eq [OF assms(1) p None])
qed (simp add: mem_Create_def assms)

lemma mem_Link_ok:
  assumes "fs_ok root F" and "live F dir" and "i < next_inode F" and "\<not> is_dir (inodes F i)"
  shows "fs_ok root (snd (mem_Link dir name i F))"
proof -
  obtain p where p: "i_dent (inodes F dir) = Some p" using assms(2) by (auto simp: live_def)
  have c: "i_class (inodes F i) \<noteq> ClassDir" using fs_ok_parts(5) [OF assms(1)] assms(3,4) by (simp add: types_ok_def)
  have ne: "i \<noteq> dir" using fs_ok_parts(2) [OF assms(1)] p c by (auto simp: idents_ok_def)
  have "fs_ok root (attach dir name i F)" if "dm_find name (inodes F dir) = None"
    using attach_ok [OF assms(1) p assms(3) ne that] c by simp
  then show ?thesis using assms(1) by (auto simp: mem_Link_def unit_status_def AddDentLocked_eq [OF c p ne])
qed

lemma mem_Unlink_ok:
  assumes "fs_ok root F"
  shows "fs_ok root (snd (mem_Unlink dir name F))"
proof -
  have "fs_ok root (UnlinkAndDispose dir d F)"
    if "dm_find name (inodes F dir) = Some d" "\<not> is_dir (inodes F (d_inode (dents F d)))" for d
  proof -
    note m = dm_find_Some [OF that(1)]
    have "i_class (inodes F (d_inode (dents F d))) \<noteq> ClassDir"
      using fs_ok_parts(5) [OF assms] entry_in_map(5) [OF assms m] that(2) by (simp add: types_ok_def)
    then show ?thesis using unlink_ok [OF assms m] nondir_empty [OF assms] by simp
  qed
  then show ?thesis using assms by (auto simp: mem_Unlink_def split: option.splits)
qed

lemma mem_RmDir_ok:
  assumes "fs_ok root F"
  shows "fs_ok root (snd (mem_RmDir dir name F))"
  using assms unlink_ok [OF assms dm_find_Some] by (auto simp: mem_RmDir_def Let_def split: option.splits)

text \<open>A rename may replace anything but a directory with entries.\<close>

definition may_replace :: "Fs \<Rightarrow> nat \<Rightarrow> string \<Rightarrow> nat \<Rightarrow> string \<Rightarrow> bool" where
  "may_replace F src src_name dst dst_name =
     (case dm_find dst_name (inodes F dst) of
        None \<Rightarrow> True
      | Some c \<Rightarrow> dm_find src_name (inodes F src) = Some c \<or> i_map (inodes F (d_inode (dents F c))) = [])"

lemma move_fresh_ok:
  assumes ok: "fs_ok root F" and d: "(n, d) \<in> set (i_map (inodes F src))" and live: "live F dst"
    and none: "dm_find dst_name (inodes (upd_inode src (dm_erase d) F) dst) = None"
  shows "fs_ok root (move dst src d dst_name F)"
proof -
  obtain p where p: "i_dent (inodes F dst) = Some p" using live by (auto simp: live_def)
  have "dst = src \<and> e = d" if "(dst_name, e) \<in> set (i_map (inodes F dst))" for e
    using none that by (auto simp: dm_find_None upd_inode_simps dm_erase_def image_iff split: if_splits)
  then show ?thesis by (rule move_ok [OF ok d p])
qed

lemma move_replace_ok:
  assumes ok: "fs_ok root F" and d: "(n, d) \<in> set (i_map (inodes F src))" and live: "live F dst"
    and c: "(dst_name, c) \<in> set (i_map (inodes F dst))" "c \<noteq> d"
    and empty: "i_map (inodes F (d_inode (dents F c))) = []"
  shows "fs_ok root (move dst src d dst_name (UnlinkAndDispose dst c F))"
proof -
  let ?G = "UnlinkAndDispose dst c F"
  note f = unlink_fields [OF ok c(1) empty]
  have G: "fs_ok root ?G" by (rule unlink_ok [OF ok c(1) empty])
  have ne: "d_inode (dents F c) \<noteq> dst" using empty c(1) by auto
  obtain p where p: "i_dent (inodes ?G dst) = Some p" using live ne by (auto simp: live_def f)
  have "(n, d) \<in> set (i_map (inodes ?G src))" using d c(2) by (auto simp: f)
  moreover have "False" if "(dst_name, e) \<in> set (i_map (inodes ?G dst))" for e
  proof -
    have e: "(dst_name, e) \<in> set (i_map (inodes F dst))" "e \<noteq> c" using that by (auto simp: f)
    have "distinct (map fst (i_map (inodes F dst)))" using fs_ok_parts(1) [OF ok] by (simp add: maps_ok_def)
    then show False using e c(1) by (meson eq_key_imp_eq_value)
  qed
  ultimately show ?thesis using move_ok [OF G _ p] by blast
qed

lemma MoveFrom_ok:
  assumes ok: "fs_ok root F" and live: "live F dst" and rep: "may_replace F src src_name dst dst_name"
  shows "fs_ok root (snd (MoveFrom dst src src_name dst_name overwrite F))"
proof (cases "dm_find src_name (inodes F src)")
  case (Some d)
  note d = dm_find_Some [OF Some]
  let ?F1 = "upd_inode src (dm_erase d) F"
  show ?thesis
  proof (cases "dm_find dst_name (inodes ?F1 dst)")
    case None
    have "MoveFrom dst src src_name dst_name overwrite F = (Inr (), move dst src d dst_name F)"
      using None by (simp add: MoveFrom_def Some Let_def move_def upd_inode_simps dm_erase_def)
    then show ?thesis using move_fresh_ok [OF ok d live None] by simp
  next
    case c: (Some c)
    have cin: "(dst_name, c) \<in> set (i_map (inodes F dst))" "c \<noteq> d"
      using dm_find_Some [OF c] map_unique(1) [OF ok d, of dst_name dst] d
      by (auto simp: upd_inode_simps dm_erase_def split: if_splits)
    have "distinct (map fst (i_map (inodes F dst)))" using fs_ok_parts(1) [OF ok] by (simp add: maps_ok_def)
    then have "dm_find dst_name (inodes F dst) = Some c" using cin by (simp add: dm_find_def)
    then have empty: "i_map (inodes F (d_inode (dents F c))) = []"
      using rep cin Some by (simp add: may_replace_def)
    have ne: "d_inode (dents F c) \<noteq> src" using empty d by auto
    have "MoveFrom dst src src_name dst_name True F = (Inr (), move dst src d dst_name (UnlinkAndDispose dst c F))"
      using c by (simp add: MoveFrom_def Some Let_def move_def unlink_erase_commute [OF ne] upd_inode_simps dm_erase_def)
    moreover have "MoveFrom dst src src_name dst_name False F = (Inl EEXIST, F)"
      using c by (simp add: MoveFrom_def Some Let_def)
    ultimately show ?thesis using move_replace_ok [OF ok d live cin empty] ok by (cases overwrite) simp_all
  qed
qed (simp add: MoveFrom_def ok)

lemma mem_Rename_ok:
  assumes "fs_ok root F" and "live F dst" and "may_replace F src src_name dst dst_name"
  shows "fs_ok root (snd (mem_Rename dst src src_name dst_name replace F))"
  using MoveFrom_ok [OF assms] assms(1) by (simp add: mem_Rename_def)

definition chmod_inode :: "nat \<Rightarrow> u32 \<Rightarrow> Fs \<Rightarrow> Fs" where
  "chmod_inode i mode F = upd_inode i (SetMode mode) F"

lemma SetMode_type: "get_type (SetMode mode I) = get_type I"
proof -
  have "NOT kModeMask AND kTypeMask = kTypeMask" and "kModeMask AND kTypeMask = 0"
    by (simp_all add: kModeMask_def kTypeMask_def)
  then show ?thesis
    by (simp add: get_type_def SetMode_def bit.conj_disj_distrib2 and.assoc)
qed

lemma chmod_inode_ok:
  assumes "fs_ok root F"
  shows "fs_ok root (chmod_inode i mode F)"
proof -
  let ?G = "chmod_inode i mode F"
  have g: "dents ?G = dents F" "next_dent ?G = next_dent F" "next_inode ?G = next_inode F"
    "i_map (inodes ?G j) = i_map (inodes F j)" "i_dent (inodes ?G j) = i_dent (inodes F j)"
    "i_class (inodes ?G j) = i_class (inodes F j)" "i_nlink (inodes ?G j) = i_nlink (inodes F j)"
    "get_type (inodes ?G j) = get_type (inodes F j)" for j
    using SetMode_type by (auto simp: chmod_inode_def upd_inode_simps SetMode_def)
  have "maps_ok ?G = maps_ok F" and "idents_ok ?G = idents_ok F" and "parents_ok root ?G = parents_ok root F"
    and "dirs_ok ?G = dirs_ok F" and "types_ok ?G = types_ok F" and "root_ok root ?G = root_ok root F"
    and "nlink_ok ?G = nlink_ok F"
    by (simp_all add: fs_parts nlink_ok_def entries_of_def attached_def is_dir_def is_symlink_def g)
  then show ?thesis using assms by (simp add: fs_ok_def)
qed

subsection \<open>Reachable namespaces\<close>

text \<open>The namespace at the start: a root directory that is its own parent.\<close>

definition SetRootEntry :: "nat \<Rightarrow> Fs \<Rightarrow> Fs" where
  "SetRootEntry d F =
     upd_inode (d_inode (dents F d)) inc_nlink (upd_dent d (\<lambda>D. D\<lparr>d_name := ''.'', d_parent := Some d\<rparr>) F)"

definition fs_init :: "u32 \<Rightarrow> Fs" where
  "fs_init mode =
     (let I = \<lparr>i_class = ClassDir, i_mode = kTypeDirectory OR mode, i_nlink = 0, i_link = [], i_map = [], i_dent = Some 0, i_mem = True\<rparr>;
          I0 = \<lparr>i_class = ClassFile, i_mode = 0, i_nlink = 0, i_link = [], i_map = [], i_dent = None, i_mem = True\<rparr>;
          D = \<lparr>d_name = [], d_inode = 0, d_parent = None\<rparr>
      in SetRootEntry 0 \<lparr>inodes = (\<lambda>_. I0)(0 := I), dents = \<lambda>_. D, next_inode = 1, next_dent = 1\<rparr>)"

inductive fs_reach :: "Fs \<Rightarrow> bool" where
  init: "mode AND kTypeMask = 0 \<Longrightarrow> fs_reach (fs_init mode)"
| mknod: "fs_reach F \<Longrightarrow> live F dir \<Longrightarrow> mode AND kTypeMask \<in> {kTypeCharacter, kTypeBlock} \<Longrightarrow>
    fs_reach (snd (mem_MkNod dir name mode F))"
| mkdir: "fs_reach F \<Longrightarrow> live F dir \<Longrightarrow> mode AND kTypeMask = 0 \<Longrightarrow> fs_reach (snd (mem_MkDir dir name mode F))"
| create: "fs_reach F \<Longrightarrow> live F dir \<Longrightarrow> mode AND kTypeMask = 0 \<Longrightarrow> fs_reach (snd (mem_Create dir name excl mode F))"
| symlink: "fs_reach F \<Longrightarrow> live F dir \<Longrightarrow> fs_reach (snd (mem_SymLink dir name target F))"
| link: "fs_reach F \<Longrightarrow> live F dir \<Longrightarrow> i < next_inode F \<Longrightarrow> \<not> is_dir (inodes F i) \<Longrightarrow> fs_reach (snd (mem_Link dir name i F))"
| unlink: "fs_reach F \<Longrightarrow> fs_reach (snd (mem_Unlink dir name F))"
| rmdir: "fs_reach F \<Longrightarrow> fs_reach (snd (mem_RmDir dir name F))"
| rename: "fs_reach F \<Longrightarrow> live F dst \<Longrightarrow> may_replace F src src_name dst dst_name \<Longrightarrow>
    fs_reach (snd (mem_Rename dst src src_name dst_name replace F))"
| chmod: "fs_reach F \<Longrightarrow> fs_reach (chmod_inode i mode F)"

lemma fs_init_ok:
  assumes "mode AND kTypeMask = 0"
  shows "fs_ok 0 (fs_init mode)"
proof -
  have t: "(kTypeDirectory OR mode) AND kTypeMask = kTypeDirectory"
    by (rule or_type [OF assms]) (simp add: inode_types)
  have e: "entries_of (fs_init mode) 0 = {0}"
    by (auto simp: entries_of_def attached_def fs_init_def SetRootEntry_def Let_def fs_upd)
  have "nlink_ok (fs_init mode)"
    by (simp add: nlink_ok_def, simp add: fs_init_def SetRootEntry_def Let_def fs_upd, simp add: inc_nlink_def, use e in
      \<open>simp add: fs_init_def SetRootEntry_def Let_def\<close>)
  then show ?thesis
    unfolding fs_ok_def
    using t by (auto simp: fs_parts attached_def fs_init_def SetRootEntry_def Let_def fs_upd inc_nlink_def
        is_dir_def is_symlink_def get_type_def kTypeSymLink_def kTypeDirectory_def)
qed

lemma fs_reach_ok: "fs_reach F \<Longrightarrow> fs_ok 0 F"
  by (induction rule: fs_reach.induct)
    (simp_all add: fs_init_ok mem_MkNod_ok mem_MkDir_ok mem_Create_ok mem_SymLink_ok mem_Link_ok mem_Unlink_ok
      mem_RmDir_ok mem_Rename_ok chmod_inode_ok)

end
