(* ===== verification/FsSyscalls.thy ===== *)
theory FsSyscalls
  imports FsSteps
begin

text \<open>
  The system calls on paths of \<^verbatim>\<open>src/junction/fs/core.cc\<close>.  A call returns its result and the
  namespace afterwards; \<open>None\<close> is a call that crashes.  The files that \<open>open\<close> makes are named by what they
  refer to, and \<open>truncate\<close> tells whether the contents are cut to length 0.
\<close>

definition kFlagCreate :: u32 where "kFlagCreate = 0x40"
definition kFlagExclusive :: u32 where "kFlagExclusive = 0x80"
definition kFlagTruncate :: u32 where "kFlagTruncate = 0x200"
definition kFlagDirectory :: u32 where "kFlagDirectory = 0x10000"
definition kFlagNoFollow :: u32 where "kFlagNoFollow = 0x20000"
definition kFlagPath :: u32 where "kFlagPath = 0x200000"
definition kFlagTemp :: u32 where "kFlagTemp = 0x410000"
definition kAccessModeMask :: u32 where "kAccessModeMask = 3"
definition kAtRemoveDir :: u32 where "kAtRemoveDir = 0x200"
definition kAtFollowLink :: u32 where "kAtFollowLink = 0x400"
definition kAtNoFollowLink :: u32 where "kAtNoFollowLink = 0x100"
definition kAtEmptyPath :: u32 where "kAtEmptyPath = 0x1000"
definition kRenameNoReplace :: u32 where "kRenameNoReplace = 1"

definition MkNod :: "Entry \<Rightarrow> u32 \<Rightarrow> Fs \<Rightarrow> unit Status \<times> Fs" where
  "MkNod e mode F = (if e_must_be_dir e then (Inl EISDIR, F) else mem_MkNod (e_dir e) (e_name e) mode F)"

definition MkDir :: "Entry \<Rightarrow> u32 \<Rightarrow> Fs \<Rightarrow> unit Status \<times> Fs" where
  "MkDir e mode F = mem_MkDir (e_dir e) (e_name e) mode F"

definition Unlink :: "Entry \<Rightarrow> Fs \<Rightarrow> unit Status \<times> Fs" where
  "Unlink e F = (if e_must_be_dir e then (Inl EISDIR, F) else mem_Unlink (e_dir e) (e_name e) F)"

definition RmDir :: "Entry \<Rightarrow> Fs \<Rightarrow> unit Status \<times> Fs" where
  "RmDir e F = mem_RmDir (e_dir e) (e_name e) F"

definition SymLink :: "Entry \<Rightarrow> string \<Rightarrow> Fs \<Rightarrow> unit Status \<times> Fs" where
  "SymLink e target F =
     (if e_must_be_dir e then (Inl EISDIR, F)
      else if \<not> PathIsValid target then (Inl EINVAL, F)
      else mem_SymLink (e_dir e) (e_name e) target F)"

definition Rename :: "Entry \<Rightarrow> Entry \<Rightarrow> bool \<Rightarrow> Fs \<Rightarrow> unit Status \<times> Fs" where
  "Rename src dst replace F = mem_Rename (e_dir dst) (e_dir src) (e_name src) (e_name dst) replace F"

definition HardLink :: "nat \<Rightarrow> Entry \<Rightarrow> Fs \<Rightarrow> unit Status \<times> Fs" where
  "HardLink i e F =
     (if is_dir (inodes F i) then (Inl EPERM, F)
      else if e_must_be_dir e then (Inl EPERM, F)
      else mem_Link (e_dir e) (e_name e) i F)"

definition InsertTo :: "FSRoot \<Rightarrow> string \<Rightarrow> nat \<Rightarrow> Fs \<Rightarrow> (nat Status \<times> Fs) option" where
  "InsertTo fs path i F =
     (case LookupEntry fs F path of
        None \<Rightarrow> None
      | Some (Inl e) \<Rightarrow> Some (Inl e, F)
      | Some (Inr e) \<Rightarrow>
          if e_must_be_dir e then Some (Inl EINVAL, F) else Some (mem_LinkReturn (e_dir e) (e_name e) i F))"

datatype opened = OpenDent nat bool | OpenPath nat | OpenTemp nat

definition Open :: "FSRoot \<Rightarrow> Entry \<Rightarrow> u32 \<Rightarrow> u32 \<Rightarrow> Fs \<Rightarrow> (opened Status \<times> Fs) option" where
  "Open fs e combined_flags mode F =
     (let flags = combined_flags AND NOT kAccessModeMask;
          target_must_be_dir = flags AND kFlagDirectory \<noteq> 0;
          truncate = flags AND kFlagTruncate \<noteq> 0;
          create = flags AND kFlagCreate \<noteq> 0;
          exclusive = flags AND kFlagExclusive \<noteq> 0;
          wants_path_file = flags AND kFlagPath \<noteq> 0
      in if e_name e = [] then
           (if exclusive then Some (Inl EINVAL, F)
            else (case i_dent (inodes F (e_dir e)) of None \<Rightarrow> None | Some d \<Rightarrow> Some (Inr (OpenDent d False), F)))
         else
           (case LookupDent (e_dir e) (e_name e) F of
              Inl _ \<Rightarrow>
                (if create \<and> \<not> target_must_be_dir then
                   (case mem_Create (e_dir e) (e_name e) exclusive (mode AND NOT (fs_umask fs)) F of
                      (Inl err, F1) \<Rightarrow> Some (Inl err, F1)
                    | (Inr d, F1) \<Rightarrow> Some (Inr (OpenDent d False), F1))
                 else Some (Inl ENOENT, F))
            | Inr d \<Rightarrow>
                let I = inodes F (d_inode (dents F d)) in
                if exclusive \<and> create then Some (Inl EEXIST, F)
                else if target_must_be_dir \<and> \<not> is_dir I then Some (Inl ENOTDIR, F)
                else if flags AND kFlagTemp = kFlagTemp then
                  (case new_inode ClassFile (kTypeRegularFile OR (mode AND NOT (fs_umask fs))) [] F of
                     (i, F1) \<Rightarrow> Some (Inr (OpenTemp i), F1))
                else if is_symlink I \<and> flags AND kFlagNoFollow \<noteq> 0 \<and> \<not> wants_path_file then Some (Inl ELOOP, F)
                else
                  (case (if is_symlink I \<and> flags AND kFlagNoFollow = 0 then WalkPath fs F (e_dir e) [e_name e] True
                         else Some (Inr d)) of
                     None \<Rightarrow> None
                   | Some (Inl err) \<Rightarrow> Some (Inl err, F)
                   | Some (Inr d') \<Rightarrow>
                       if wants_path_file then Some (Inr (OpenPath d'), F)
                       else Some (Inr (OpenDent d' truncate), F))))"

subsection \<open>System calls\<close>

definition sys_entry :: "Entry walk \<Rightarrow> (Entry \<Rightarrow> Fs \<Rightarrow> unit Status \<times> Fs) \<Rightarrow> Fs \<Rightarrow> (int \<times> Fs) option" where
  "sys_entry w op F =
     (case w of
        None \<Rightarrow> None
      | Some (Inl err) \<Rightarrow> Some (- err, F)
      | Some (Inr e) \<Rightarrow> (case op e F of (Inl err, F1) \<Rightarrow> Some (- err, F1) | (Inr _, F1) \<Rightarrow> Some (0, F1)))"

definition usys_mknod :: "FSRoot \<Rightarrow> string \<Rightarrow> u32 \<Rightarrow> Fs \<Rightarrow> (int \<times> Fs) option" where
  "usys_mknod fs path mode F = sys_entry (LookupEntry fs F path) (\<lambda>e. MkNod e mode) F"

definition usys_mknodat :: "fd_dents \<Rightarrow> FSRoot \<Rightarrow> int \<Rightarrow> string \<Rightarrow> u32 \<Rightarrow> Fs \<Rightarrow> (int \<times> Fs) option" where
  "usys_mknodat T fs dirfd path mode F = sys_entry (LookupEntryAt T fs F dirfd path) (\<lambda>e. MkNod e mode) F"

definition usys_mkdir :: "FSRoot \<Rightarrow> string \<Rightarrow> u32 \<Rightarrow> Fs \<Rightarrow> (int \<times> Fs) option" where
  "usys_mkdir fs path mode F = sys_entry (LookupEntry fs F path) (\<lambda>e. MkDir e mode) F"

definition usys_mkdirat :: "fd_dents \<Rightarrow> FSRoot \<Rightarrow> int \<Rightarrow> string \<Rightarrow> u32 \<Rightarrow> Fs \<Rightarrow> (int \<times> Fs) option" where
  "usys_mkdirat T fs dirfd path mode F = sys_entry (LookupEntryAt T fs F dirfd path) (\<lambda>e. MkDir e mode) F"

definition usys_unlink :: "FSRoot \<Rightarrow> string \<Rightarrow> Fs \<Rightarrow> (int \<times> Fs) option" where
  "usys_unlink fs path F = (if path = [] then Some (- ENOENT, F) else sys_entry (LookupEntry fs F path) Unlink F)"

definition usys_rmdir :: "FSRoot \<Rightarrow> string \<Rightarrow> Fs \<Rightarrow> (int \<times> Fs) option" where
  "usys_rmdir fs path F = sys_entry (LookupEntry fs F path) RmDir F"

definition usys_unlinkat :: "fd_dents \<Rightarrow> FSRoot \<Rightarrow> int \<Rightarrow> string \<Rightarrow> u32 \<Rightarrow> Fs \<Rightarrow> (int \<times> Fs) option" where
  "usys_unlinkat T fs dirfd path flags F =
     sys_entry (LookupEntryAt T fs F dirfd path) (if flags AND kAtRemoveDir \<noteq> 0 then RmDir else Unlink) F"

definition usys_symlink :: "FSRoot \<Rightarrow> string \<Rightarrow> string \<Rightarrow> Fs \<Rightarrow> (int \<times> Fs) option" where
  "usys_symlink fs target path F = sys_entry (LookupEntry fs F path) (\<lambda>e. SymLink e target) F"

definition usys_symlinkat :: "fd_dents \<Rightarrow> FSRoot \<Rightarrow> string \<Rightarrow> int \<Rightarrow> string \<Rightarrow> Fs \<Rightarrow> (int \<times> Fs) option" where
  "usys_symlinkat T fs target dirfd path F = sys_entry (LookupEntryAt T fs F dirfd path) (\<lambda>e. SymLink e target) F"

definition sys_rename :: "Entry walk \<Rightarrow> Entry walk \<Rightarrow> bool \<Rightarrow> Fs \<Rightarrow> (int \<times> Fs) option" where
  "sys_rename src dst replace F =
     (case src of
        None \<Rightarrow> None
      | Some (Inl err) \<Rightarrow> Some (- err, F)
      | Some (Inr s) \<Rightarrow> sys_entry dst (\<lambda>d. Rename s d replace) F)"

definition usys_rename :: "FSRoot \<Rightarrow> string \<Rightarrow> string \<Rightarrow> Fs \<Rightarrow> (int \<times> Fs) option" where
  "usys_rename fs oldpath newpath F = sys_rename (LookupEntry fs F oldpath) (LookupEntry fs F newpath) True F"

definition usys_renameat :: "fd_dents \<Rightarrow> FSRoot \<Rightarrow> int \<Rightarrow> string \<Rightarrow> int \<Rightarrow> string \<Rightarrow> Fs \<Rightarrow> (int \<times> Fs) option" where
  "usys_renameat T fs olddirfd oldpath newdirfd newpath F =
     sys_rename (LookupEntryAt T fs F olddirfd oldpath) (LookupEntryAt T fs F newdirfd newpath) True F"

definition usys_renameat2 :: "fd_dents \<Rightarrow> FSRoot \<Rightarrow> int \<Rightarrow> string \<Rightarrow> int \<Rightarrow> string \<Rightarrow> u32 \<Rightarrow> Fs \<Rightarrow> (int \<times> Fs) option" where
  "usys_renameat2 T fs olddirfd oldpath newdirfd newpath flags F =
     (if flags AND NOT kRenameNoReplace \<noteq> 0 then Some (- EINVAL, F)
      else sys_rename (LookupEntryAt T fs F olddirfd oldpath) (LookupEntryAt T fs F newdirfd newpath)
             (flags AND kRenameNoReplace = 0) F)"

definition sys_link :: "nat walk \<Rightarrow> Entry walk \<Rightarrow> Fs \<Rightarrow> (int \<times> Fs) option" where
  "sys_link inode newp F =
     (case inode of
        None \<Rightarrow> None
      | Some (Inl err) \<Rightarrow> Some (- err, F)
      | Some (Inr i) \<Rightarrow> sys_entry newp (HardLink i) F)"

definition usys_link :: "FSRoot \<Rightarrow> string \<Rightarrow> string \<Rightarrow> Fs \<Rightarrow> (int \<times> Fs) option" where
  "usys_link fs oldpath newpath F = sys_link (LookupInode fs F oldpath True) (LookupEntry fs F newpath) F"

definition usys_linkat :: "fd_dents \<Rightarrow> FSRoot \<Rightarrow> int \<Rightarrow> string \<Rightarrow> int \<Rightarrow> string \<Rightarrow> u32 \<Rightarrow> Fs \<Rightarrow> (int \<times> Fs) option" where
  "usys_linkat T fs olddirfd oldpath newdirfd newpath flags F =
     sys_link
       (if flags AND kAtEmptyPath \<noteq> 0 \<and> oldpath = [] then GetFileInode T F olddirfd
        else LookupInodeAt T fs F olddirfd oldpath (flags AND kAtFollowLink \<noteq> 0))
       (LookupEntryAt T fs F newdirfd newpath) F"

definition AccessCheck :: "Inode \<Rightarrow> u32 \<Rightarrow> int" where
  "AccessCheck I mode =
     (if mode = 0 then 0
      else if mode AND 4 \<noteq> 0 \<and> i_mode I AND 0x100 = 0 then - EACCES
      else if mode AND 2 \<noteq> 0 \<and> i_mode I AND 0x80 = 0 then - EACCES
      else if mode AND 1 \<noteq> 0 \<and> i_mode I AND 0x40 = 0 then - EACCES
      else 0)"

definition sys_inode :: "nat walk \<Rightarrow> (nat \<Rightarrow> 'a) \<Rightarrow> (int + 'a) option" where
  "sys_inode w op =
     (case w of None \<Rightarrow> None | Some (Inl err) \<Rightarrow> Some (Inl (- err)) | Some (Inr i) \<Rightarrow> Some (Inr (op i)))"

definition usys_access :: "FSRoot \<Rightarrow> string \<Rightarrow> u32 \<Rightarrow> Fs \<Rightarrow> (int + int) option" where
  "usys_access fs path mode F = sys_inode (LookupInode fs F path True) (\<lambda>i. AccessCheck (inodes F i) mode)"

definition usys_faccessat :: "fd_dents \<Rightarrow> FSRoot \<Rightarrow> int \<Rightarrow> string \<Rightarrow> u32 \<Rightarrow> Fs \<Rightarrow> (int + int) option" where
  "usys_faccessat T fs dirfd path mode F = sys_inode (LookupInodeAt T fs F dirfd path True) (\<lambda>i. AccessCheck (inodes F i) mode)"

definition usys_faccessat2 :: "fd_dents \<Rightarrow> FSRoot \<Rightarrow> int \<Rightarrow> string \<Rightarrow> u32 \<Rightarrow> u32 \<Rightarrow> Fs \<Rightarrow> (int + int) option" where
  "usys_faccessat2 T fs dirfd path mode flags F =
     sys_inode (LookupInodeAt T fs F dirfd path (flags AND kAtNoFollowLink = 0)) (\<lambda>i. AccessCheck (inodes F i) mode)"

definition DoReadLink :: "Inode \<Rightarrow> nat \<Rightarrow> string Status" where
  "DoReadLink I dst_size = (if \<not> is_symlink I then Inl EINVAL else Inr (take dst_size (i_link I)))"

definition usys_readlink :: "FSRoot \<Rightarrow> string \<Rightarrow> nat \<Rightarrow> Fs \<Rightarrow> (int + string Status) option" where
  "usys_readlink fs path bufsiz F = sys_inode (LookupInode fs F path False) (\<lambda>i. DoReadLink (inodes F i) bufsiz)"

text \<open>
  Changing into a directory without an entry stores a null pointer, which every later use of the
  working directory dereferences: \<open>None\<close> as well.
\<close>

definition sys_chdir :: "nat walk \<Rightarrow> FSRoot \<Rightarrow> Fs \<Rightarrow> (int \<times> FSRoot) option" where
  "sys_chdir w fs F =
     (case w of
        None \<Rightarrow> None
      | Some (Inl err) \<Rightarrow> Some (- err, fs)
      | Some (Inr i) \<Rightarrow>
          if \<not> is_dir (inodes F i) then Some (- ENOTDIR, fs)
          else (case i_dent (inodes F i) of None \<Rightarrow> None | Some d \<Rightarrow> Some (0, fs\<lparr>fs_cwd := d\<rparr>)))"

definition usys_chdir :: "FSRoot \<Rightarrow> string \<Rightarrow> Fs \<Rightarrow> (int \<times> FSRoot) option" where
  "usys_chdir fs path F = sys_chdir (LookupInode fs F path True) fs F"

definition usys_fchdir :: "fd_dents \<Rightarrow> FSRoot \<Rightarrow> int \<Rightarrow> Fs \<Rightarrow> (int \<times> FSRoot) option" where
  "usys_fchdir T fs fd F = sys_chdir (GetFileInode T F fd) fs F"

definition sys_chmod :: "nat walk \<Rightarrow> u32 \<Rightarrow> Fs \<Rightarrow> (int \<times> Fs) option" where
  "sys_chmod w mode F =
     (case w of None \<Rightarrow> None | Some (Inl err) \<Rightarrow> Some (- err, F) | Some (Inr i) \<Rightarrow> Some (0, chmod_inode i mode F))"

definition usys_chmod :: "FSRoot \<Rightarrow> string \<Rightarrow> u32 \<Rightarrow> Fs \<Rightarrow> (int \<times> Fs) option" where
  "usys_chmod fs path mode F = sys_chmod (LookupInode fs F path False) mode F"

definition usys_fchmod :: "fd_dents \<Rightarrow> int \<Rightarrow> u32 \<Rightarrow> Fs \<Rightarrow> (int \<times> Fs) option" where
  "usys_fchmod T fd mode F = sys_chmod (GetFileInode T F fd) mode F"

definition usys_fchmodat :: "fd_dents \<Rightarrow> FSRoot \<Rightarrow> int \<Rightarrow> string \<Rightarrow> u32 \<Rightarrow> Fs \<Rightarrow> (int \<times> Fs) option" where
  "usys_fchmodat T fs dirfd path mode F = sys_chmod (LookupInodeAt T fs F dirfd path True) mode F"

end
