(* ===== verification/FsSafe.thy ===== *)
theory FsSafe
  imports FsSyscalls
begin

text \<open>
  Path resolution from an attached directory of a consistent namespace does not crash and ends at an
  attached entry, and the system calls that change the namespace keep it consistent.
\<close>

definition stands_at :: "Fs \<Rightarrow> nat option \<Rightarrow> nat \<Rightarrow> bool" where
  "stands_at F curent curdir \<longleftrightarrow>
     (\<exists>c. curent = Some c \<and> attached F c \<and> d_inode (dents F c) = curdir \<and> i_class (inodes F curdir) = ClassDir)"

definition good_walk :: "Fs \<Rightarrow> nat walk \<Rightarrow> bool" where
  "good_walk F w \<longleftrightarrow> (case w of None \<Rightarrow> False | Some (Inl e) \<Rightarrow> True | Some (Inr d) \<Rightarrow> attached F d)"

lemma good_walk_simps [simp]:
  "\<not> good_walk F None" "good_walk F (Some (Inl e))" "good_walk F (Some (Inr d)) = attached F d"
  by (simp_all add: good_walk_def)

lemma good_walk_cases:
  assumes "good_walk F w"
  obtains (err) e where "w = Some (Inl e)" | (ok) d where "w = Some (Inr d)" "attached F d"
  using assms by (auto simp: good_walk_def split: option.splits sum.splits)

lemma good_walk_bind:
  assumes "good_walk F w" and "\<And>d. w = Some (Inr d) \<Longrightarrow> attached F d \<Longrightarrow> good_walk F (f d)"
  shows "good_walk F (wbind w f)"
  using assms(1) by (cases rule: good_walk_cases) (simp_all add: assms(2))

lemma stands_at_dent:
  assumes "fs_ok root F" and "i_dent (inodes F i) = Some d"
  shows "stands_at F (Some d) i"
  using fs_ok_parts(2) [OF assms(1)] assms(2) by (auto simp: stands_at_def idents_ok_def)

lemma stands_at_self:
  assumes "fs_ok root F" and "stands_at F curent curdir"
  shows "i_dent (inodes F curdir) = curent"
  using fs_ok_parts(4) [OF assms(1)] assms(2) by (auto simp: stands_at_def dirs_ok_def)

lemma stands_at_parent:
  assumes "fs_ok root F" and "attached F c" and "d_parent (dents F c) = Some p"
  shows "stands_at F (Some p) (d_inode (dents F p))"
  using fs_ok_parts(3) [OF assms(1)] assms(2,3) by (intro stands_at_dent [OF assms(1)]) (auto simp: parents_ok_def attached_def)

lemma attached_types:
  assumes "fs_ok root F" and "attached F d"
  shows "is_dir (inodes F (d_inode (dents F d))) \<longleftrightarrow> i_class (inodes F (d_inode (dents F d))) = ClassDir"
    and "is_symlink (inodes F (d_inode (dents F d))) \<longleftrightarrow> i_class (inodes F (d_inode (dents F d))) = ClassLink"
    and "d_inode (dents F d) < next_inode F"
proof -
  show n: "d_inode (dents F d) < next_inode F"
    using fs_ok_parts(3) [OF assms(1)] assms(2) by (auto simp: parents_ok_def attached_def)
  show "is_dir (inodes F (d_inode (dents F d))) \<longleftrightarrow> i_class (inodes F (d_inode (dents F d))) = ClassDir"
    and "is_symlink (inodes F (d_inode (dents F d))) \<longleftrightarrow> i_class (inodes F (d_inode (dents F d))) = ClassLink"
    using fs_ok_parts(5) [OF assms(1)] n by (auto simp: types_ok_def)
qed

lemma stands_at_root:
  assumes "fs_ok (fs_root fs) F"
  shows "stands_at F (i_dent (inodes F (get_root fs F))) (get_root fs F)"
proof -
  have r: "attached F (fs_root fs)" "i_class (inodes F (get_root fs F)) = ClassDir"
    using fs_ok_parts(6) [OF assms] by (auto simp: root_ok_def attached_def get_root_def)
  then have "i_dent (inodes F (get_root fs F)) = Some (fs_root fs)"
    using fs_ok_parts(4) [OF assms] by (simp add: dirs_ok_def get_root_def)
  then show ?thesis using r by (simp add: stands_at_def get_root_def)
qed

lemma walk_loop_good:
  assumes "fs_ok (fs_root fs) F" and "stands_at F curent curdir"
  shows "good_walk F (walk_loop fs F curent curdir path chase_last link_depth)"
  using assms
proof (induction fs F curent curdir path chase_last link_depth rule: walk_loop.induct)
  case (1 fs F curent curdir chase_last link_depth)
  then show ?case by (auto simp: walk_simps stands_at_def)
next
  case (2 fs F curent curdir v vs chase_last link_depth)
  note IH = 2(1-5) and ok = 2(6) and at = 2(7)
  obtain c where c: "curent = Some c" "attached F c" and cls: "i_class (inodes F curdir) = ClassDir"
    using at by (auto simp: stands_at_def)
  consider "v = [] \<or> v = ''.''" | "\<not> (v = [] \<or> v = ''.'')" "v = ''..''" | "\<not> (v = [] \<or> v = ''.'')" "v \<noteq> ''..''" by blast
  then show ?case
  proof cases
    case 1
    then show ?thesis using IH(1) [OF 1 ok at] by (simp add: walk_simps)
  next
    case 2
    obtain p where p: "d_parent (dents F c) = Some p" using c by (auto simp: attached_def)
    show ?thesis
      using IH(2) [OF 2 _ ok at] IH(3) [OF 2 _ c(1) p ok stands_at_parent [OF ok c(2) p]] 2 c p
      by (cases "curent = Some (fs_root fs)") (simp_all add: walk_simps)
  next
    case 3
    show ?thesis
    proof (cases "dm_find v (inodes F curdir)")
      case None
      then show ?thesis using 3 cls by (simp add: walk_simps)
    next
      case (Some d)
      let ?i = "d_inode (dents F d)"
      have d: "attached F d" by (rule entry_in_map(1) [OF ok dm_find_Some [OF Some]])
      show ?thesis
      proof (cases "is_stale (inodes F ?i)")
        case True
        then show ?thesis using 3 cls Some by (simp add: walk_simps)
      next
        case fresh: False
        have at': "stands_at F (i_dent (inodes F j)) j" if "j = (if is_absolute lpath then get_root fs F else curdir)" for j lpath
          using stands_at_root [OF ok] stands_at_self [OF ok at] at that by auto
        note IH4 = IH(4) [OF 3 _ Some fresh _ _ _ refl refl ok at' [OF refl]]
          and IH5 = IH(5) [OF 3 _ Some fresh _ _ _ ok]
        have dir: "stands_at F (Some e) (d_inode (dents F e))"
          if "attached F e" "is_dir (inodes F (d_inode (dents F e)))" for e
          using attached_types(1) [OF ok that(1)] that by (auto simp: stands_at_def)
        show ?thesis
          unfolding walk_loop.simps(2) using 3 cls Some fresh
        proof (simp only: if_False if_True option.case simp_thms, intro good_walk_bind, goal_cases)
          case 1
          show ?case using IH4 d attached_types(2) [OF ok d] cls by (auto simp: Let_def intro!: good_walk_bind)
        next
          case (2 e)
          then show ?case using IH5 [of e] dir [of e] cls by auto
        qed
      qed
    qed
  qed
qed

definition cwd_ok :: "FSRoot \<Rightarrow> Fs \<Rightarrow> bool" where
  "cwd_ok fs F \<longleftrightarrow> attached F (fs_cwd fs) \<and> is_dir (inodes F (get_cwd fs F))"

lemma GetPathDir_stands:
  assumes ok: "fs_ok (fs_root fs) F" and cwd: "cwd_ok fs F"
  shows "stands_at F (i_dent (inodes F (GetPathDir fs F path))) (GetPathDir fs F path)"
proof (cases "is_absolute path")
  case False
  have "stands_at F (Some (fs_cwd fs)) (get_cwd fs F)"
    using cwd attached_types(1) [OF ok, of "fs_cwd fs"] by (simp add: cwd_ok_def stands_at_def get_cwd_def)
  then show ?thesis using stands_at_self [OF ok] False by (simp add: GetPathDir_def)
qed (simp add: GetPathDir_def stands_at_root [OF ok])

lemma WalkPath_good:
  assumes "fs_ok (fs_root fs) F" and "cwd_ok fs F"
  shows "good_walk F (WalkPath fs F (GetPathDir fs F path) spath chase)"
  unfolding WalkPath_def by (rule walk_loop_good [OF assms(1) GetPathDir_stands [OF assms]])

lemma LookupInode_good:
  assumes "fs_ok (fs_root fs) F" and "cwd_ok fs F"
  obtains (err) e where "LookupInode fs F path chase = Some (Inl e)"
  | (found) i where "LookupInode fs F path chase = Some (Inr i)" "i < next_inode F"
proof -
  have "good_walk F (LookupDirEntry fs F path chase)"
    using WalkPath_good [OF assms] by (simp add: LookupDirEntry_def split: prod.split)
  then show ?thesis
  proof (cases rule: good_walk_cases)
    case (ok d)
    then show ?thesis using that(2) attached_types(3) [OF assms(1)] by (simp add: LookupInode_def)
  qed (use that(1) in \<open>simp add: LookupInode_def\<close>)
qed

text \<open>The directory that a path leads to is live.\<close>

lemma dir_live:
  assumes "fs_ok root F" and "attached F d" and "is_dir (inodes F (d_inode (dents F d)))"
  shows "live F (d_inode (dents F d))"
  using assms attached_types(1) [OF assms(1,2)] fs_ok_parts(4) [OF assms(1)] by (simp add: live_def dirs_ok_def)

lemma parent_live:
  assumes ok: "fs_ok root F" and "attached F d" and "get_parent_dir d F = Inr p"
  shows "live F p"
proof -
  obtain q where q: "d_parent (dents F d) = Some q" "p = d_inode (dents F q)"
    using assms(3) by (auto simp: get_parent_dir_def split: option.splits)
  note at = stands_at_parent [OF ok assms(2) q(1)]
  show ?thesis using stands_at_self [OF ok at] q(2) by (simp add: live_def)
qed

definition good_entry :: "Fs \<Rightarrow> Entry walk \<Rightarrow> bool" where
  "good_entry F w \<longleftrightarrow> (case w of None \<Rightarrow> False | Some (Inl e) \<Rightarrow> True | Some (Inr e) \<Rightarrow> live F (e_dir e))"

lemma good_entry_simps [simp]:
  "\<not> good_entry F None" "good_entry F (Some (Inl err))" "good_entry F (Some (Inr e)) = live F (e_dir e)"
  by (simp_all add: good_entry_def)

lemma LookupEntry_good:
  assumes ok: "fs_ok (fs_root fs) F" and cwd: "cwd_ok fs F"
  shows "good_entry F (LookupEntry fs F path)"
proof -
  obtain spath mbd where sp: "SplitPath path = (spath, mbd)" by (cases "SplitPath path")
  have pos: "live F (GetPathDir fs F path)"
    using GetPathDir_stands [OF ok cwd, of path] by (auto simp: stands_at_def live_def)
  from WalkPath_good [OF ok cwd, of path "butlast spath" True] show ?thesis
  proof (cases rule: good_walk_cases)
    case (err e)
    then show ?thesis using pos sp by (simp add: LookupEntry_def LookupEntryFrom_def)
  next
    case (ok d)
    then show ?thesis
      using pos sp dir_live [OF assms(1) ok(2)] parent_live [OF assms(1) ok(2)]
      by (auto simp: LookupEntry_def LookupEntryFrom_def Let_def split: sum.split)
  qed
qed

text \<open>
  What a system call expects of the operation it applies to the entry that its path names: in a live
  directory it keeps the namespace consistent.  Then the call returns and keeps it as well.
\<close>

locale namespace_op =
  fixes entry_op :: "Entry \<Rightarrow> Fs \<Rightarrow> unit Status \<times> Fs"
  assumes keeps: "fs_ok root F \<Longrightarrow> live F (e_dir e) \<Longrightarrow> fs_ok root (snd (entry_op e F))"
begin

lemma call_returns:
  assumes ok: "fs_ok (fs_root fs) F" and cwd: "cwd_ok fs F"
  shows "\<exists>r F'. sys_entry (LookupEntry fs F path) entry_op F = Some (r, F') \<and> fs_ok (fs_root fs) F'"
proof (cases "LookupEntry fs F path")
  case None
  then show ?thesis using LookupEntry_good [OF ok cwd, of path] by simp
next
  case (Some w)
  show ?thesis
  proof (cases w)
    case (Inl e)
    then show ?thesis using Some ok by (simp add: sys_entry_def)
  next
    case (Inr e)
    obtain s F' where r: "entry_op e F = (s, F')" by (cases "entry_op e F")
    then have "fs_ok (fs_root fs) F'" using keeps [OF ok, of e] LookupEntry_good [OF ok cwd, of path] Some Inr by simp
    then show ?thesis using Some Inr r by (cases s) (simp_all add: sys_entry_def)
  qed
qed

end

lemmas entry_ops = MkNod_def MkDir_def Unlink_def RmDir_def SymLink_def HardLink_def

interpretation unlink_op: namespace_op Unlink
  by unfold_locales (simp add: entry_ops mem_Unlink_ok)

interpretation rmdir_op: namespace_op RmDir
  by unfold_locales (simp add: entry_ops mem_RmDir_ok)

interpretation symlink_op: namespace_op "\<lambda>e. SymLink e target" for target
  by unfold_locales (simp add: entry_ops mem_SymLink_ok)

text \<open>Creating needs a mode whose type fits the call.\<close>

lemma mkdir_op: "mode AND kTypeMask = 0 \<Longrightarrow> namespace_op (\<lambda>e. MkDir e mode)"
  by unfold_locales (simp add: entry_ops mem_MkDir_ok)

lemma mknod_op: "mode AND kTypeMask \<in> {kTypeCharacter, kTypeBlock} \<Longrightarrow> namespace_op (\<lambda>e. MkNod e mode)"
  by unfold_locales (use mem_MkNod_ok in \<open>auto simp: entry_ops\<close>)

lemma sys_link_returns:
  assumes ok: "fs_ok (fs_root fs) F" and cwd: "cwd_ok fs F"
  shows "\<exists>r F'. usys_link fs oldpath newpath F = Some (r, F') \<and> fs_ok (fs_root fs) F'"
  using ok cwd
proof (cases rule: LookupInode_good [of fs F oldpath True])
  case (err e)
  then show ?thesis using ok by (simp add: usys_link_def sys_link_def)
next
  case i: (found i)
  have "good_entry F (LookupEntry fs F newpath)" by (rule LookupEntry_good [OF ok cwd])
  moreover have "fs_ok (fs_root fs) (snd (HardLink i e F))" if "live F (e_dir e)" for e
    using mem_Link_ok [OF ok that i(2)] ok by (simp add: HardLink_def)
  ultimately show ?thesis
    using ok i
    by (fastforce simp: usys_link_def sys_link_def sys_entry_def good_entry_def split: option.splits sum.splits prod.splits)
qed

text \<open>
  The working directory must be attached: after it has been removed a step upwards from it dereferences
  a null pointer.
\<close>

lemma deleted_cwd_dotdot:
  assumes "i_dent (inodes F (get_cwd fs F)) = None"
  shows "LookupDirEntry fs F ''..'' chase = None" and "LookupEntry fs F ''../x'' = None"
  using assms
  by (simp_all add: LookupDirEntry_def LookupEntry_def LookupEntryFrom_def PathIsValid_def SplitPath_def GetPathDir_def is_absolute_def
      WalkPath_def walk_simps)





end
