(* ===== verification/FullPath.thy ===== *)
theory FullPath
  imports FsSafe
begin

text \<open>
  The full path of a directory entry (\<open>DirectoryEntry::GetFullPath\<close> of \<^verbatim>\<open>src/junction/fs/core.cc\<close>) and
  that resolving it leads back to the entry.
\<close>

text \<open>An entry has its \<open>intrusive_ref_\<close> while it is in the map of some directory.\<close>

definition linked :: "Fs \<Rightarrow> nat \<Rightarrow> bool" where
  "linked F d = list_ex (\<lambda>i. d \<in> snd ` set (i_map (inodes F i))) [0 ..< next_inode F]"

partial_function (option) full_path_loop :: "FSRoot \<Rightarrow> Fs \<Rightarrow> nat \<Rightarrow> string list \<Rightarrow> (string list) Status option" where
  "full_path_loop fs F cur paths =
     (case d_parent (dents F cur) of
        None \<Rightarrow> Some (Inl ESTALE)
      | Some parent \<Rightarrow>
          if cur = fs_root fs then Some (Inr paths)
          else full_path_loop fs F parent (paths @ [d_name (dents F cur)]))"

definition render_path :: "string list \<Rightarrow> string" where
  "render_path paths = (if paths = [] then ''/'' else concat (map (\<lambda>n. CHR ''/'' # n) (rev paths)))"

definition GetFullPath :: "FSRoot \<Rightarrow> Fs \<Rightarrow> nat \<Rightarrow> string Status option" where
  "GetFullPath fs F d =
     (if \<not> linked F d then Some (Inr (d_name (dents F d)))
      else (case full_path_loop fs F d [] of
              None \<Rightarrow> None
            | Some (Inl e) \<Rightarrow> Some (Inl e)
            | Some (Inr paths) \<Rightarrow> Some (Inr (render_path paths))))"

text \<open>The path that \<open>getcwd\<close> writes; the terminating zero is one more byte.  The size wraps at 0.\<close>

definition usys_getcwd :: "FSRoot \<Rightarrow> u64 \<Rightarrow> Fs \<Rightarrow> (int \<times> string) option" where
  "usys_getcwd fs bufsize F =
     (case GetFullPath fs F (fs_cwd fs) of
        None \<Rightarrow> None
      | Some (Inl _) \<Rightarrow> Some (- ENOENT, [])
      | Some (Inr path) \<Rightarrow>
          if length path > unat (bufsize - 1) then Some (- ERANGE, [])
          else Some (int (length path) + 1, path))"

text \<open>The entries from which the chain of parents reaches the root.\<close>

inductive below :: "nat \<Rightarrow> Fs \<Rightarrow> nat \<Rightarrow> string list \<Rightarrow> bool" for root F where
  root: "below root F root []"
| child: "below root F p ns \<Longrightarrow> d \<noteq> root \<Longrightarrow> d_parent (dents F d) = Some p \<Longrightarrow> below root F d (ns @ [d_name (dents F d)])"

definition valid_name :: "string \<Rightarrow> bool" where
  "valid_name n \<longleftrightarrow> n \<noteq> [] \<and> n \<noteq> ''.'' \<and> n \<noteq> ''..'' \<and> CHR ''/'' \<notin> set n \<and> CHR 0x00 \<notin> set n"

lemma full_path_loop_below:
  assumes "below (fs_root fs) F d ns" and "d_parent (dents F (fs_root fs)) \<noteq> None"
  shows "full_path_loop fs F d acc = Some (Inr (acc @ rev ns))"
  using assms
proof (induction arbitrary: acc rule: below.induct)
  case root
  then show ?case by (subst full_path_loop.simps) auto
next
  case (child p ns d)
  then show ?case by (subst full_path_loop.simps) simp
qed

subsection \<open>Walking down\<close>

lemma attached_not_stale:
  assumes "fs_ok root F" and "attached F d"
  shows "\<not> is_stale (inodes F (d_inode (dents F d)))"
proof -
  have "d \<in> entries_of F (d_inode (dents F d))" using assms(2) by (simp add: entries_of_def)
  then have "card (entries_of F (d_inode (dents F d))) \<noteq> 0" by auto
  then show ?thesis
    using fs_ok_parts(7) [OF assms(1)] attached_types(3) [OF assms] by (simp add: nlink_ok_def is_stale_def)
qed

lemma child_found:
  assumes ok: "fs_ok root F" and "attached F d" and "d \<noteq> root" and "d_parent (dents F d) = Some p"
  shows "dm_find (d_name (dents F d)) (inodes F (d_inode (dents F p))) = Some d"
    and "stands_at F (Some p) (d_inode (dents F p))"
proof -
  have m: "(d_name (dents F d), d) \<in> set (i_map (inodes F (d_inode (dents F p))))"
    using fs_ok_parts(3) [OF ok] assms(2-4) by (auto simp: parents_ok_def attached_def)
  moreover have "distinct (map fst (i_map (inodes F (d_inode (dents F p)))))"
    using fs_ok_parts(1) [OF ok] by (simp add: maps_ok_def)
  ultimately show "dm_find (d_name (dents F d)) (inodes F (d_inode (dents F p))) = Some d" by (simp add: dm_find_def)
  show "stands_at F (Some p) (d_inode (dents F p))" by (rule stands_at_parent [OF ok assms(2,4)])
qed

text \<open>One step down, for a directory anywhere in the path and for any entry at its end.\<close>

lemma walk_step_dir:
  assumes ok: "fs_ok root F" and d: "attached F d" "d \<noteq> root" "d_parent (dents F d) = Some p"
    and name: "valid_name (d_name (dents F d))" and dir: "i_class (inodes F (d_inode (dents F d))) = ClassDir"
  shows "walk_loop fs F (Some p) (d_inode (dents F p)) (d_name (dents F d) # rest) chase depth =
    walk_loop fs F (Some d) (d_inode (dents F d)) rest chase depth"
proof -
  note c = child_found [OF ok d] and t = attached_types [OF ok d(1)] and n = attached_not_stale [OF ok d(1)]
  show ?thesis
    using c t(1,2) n name dir
    by (cases rest) (simp_all add: walk_simps stands_at_def valid_name_def)
qed

lemma walk_step_last:
  assumes ok: "fs_ok root F" and d: "attached F d" "d \<noteq> root" "d_parent (dents F d) = Some p"
    and name: "valid_name (d_name (dents F d))"
  shows "walk_loop fs F (Some p) (d_inode (dents F p)) [d_name (dents F d)] False depth = Some (Inr d)"
  using child_found [OF ok d] attached_not_stale [OF ok d(1)] name
  by (simp add: walk_simps stands_at_def valid_name_def)

definition names_ok :: "nat \<Rightarrow> Fs \<Rightarrow> bool" where
  "names_ok root F \<longleftrightarrow> (\<forall>d. attached F d \<and> d \<noteq> root \<longrightarrow> valid_name (d_name (dents F d)))"

lemma below_names:
  assumes "below root F d ns" and "fs_ok root F" and "attached F d" and "names_ok root F" and "n \<in> set ns"
  shows "valid_name n"
  using assms
proof (induction rule: below.induct)
  case (child p ns d)
  have "attached F p" using stands_at_parent [OF child.prems(1,2) child.hyps(3)] by (simp add: stands_at_def)
  then show ?case using child by (auto simp: names_ok_def)
qed simp

lemma walk_down:
  assumes "below (fs_root fs) F d ns" and "fs_ok (fs_root fs) F" and "attached F d" and "names_ok (fs_root fs) F"
    and "i_class (inodes F (d_inode (dents F d))) = ClassDir"
  shows "walk_loop fs F (Some (fs_root fs)) (get_root fs F) (ns @ rest) chase depth =
    walk_loop fs F (Some d) (d_inode (dents F d)) rest chase depth"
  using assms
proof (induction arbitrary: rest rule: below.induct)
  case root
  then show ?case by (simp add: get_root_def)
next
  case (child p ns d)
  have p: "attached F p" "i_class (inodes F (d_inode (dents F p))) = ClassDir"
    using stands_at_parent [OF child.prems(1,2) child.hyps(3)] by (auto simp: stands_at_def)
  have "valid_name (d_name (dents F d))" using child by (auto simp: names_ok_def)
  then show ?case
    using child.IH [OF child.prems(1) p(1) child.prems(3) p(2)] walk_step_dir [OF child.prems(1,2) child.hyps(2,3)] child.prems(4)
    by simp
qed

lemma walk_to:
  assumes b: "below (fs_root fs) F d ns" and ok: "fs_ok (fs_root fs) F" and d: "attached F d" and names: "names_ok (fs_root fs) F"
    and "d \<noteq> fs_root fs"
  shows "walk_loop fs F (Some (fs_root fs)) (get_root fs F) ns False depth = Some (Inr d)"
  using b
proof cases
  case (child p ms)
  have p: "attached F p" "i_class (inodes F (d_inode (dents F p))) = ClassDir"
    using stands_at_parent [OF ok d child(4)] by (auto simp: stands_at_def)
  have "valid_name (d_name (dents F d))" using names d assms(5) by (auto simp: names_ok_def)
  then show ?thesis
    using walk_down [OF child(2) ok p(1) names p(2)] walk_step_last [OF ok d assms(5) child(4)] child(1) by simp
qed (use assms(5) in simp)

subsection \<open>The path as a string\<close>

lemma split_append:
  assumes "sep \<notin> set n"
  shows "split sep (n @ sep # rest) = n # split sep rest" and "split sep n = [n]"
  using assms by (induction n) auto

lemma split_rendered:
  assumes "\<And>n. n \<in> set ns \<Longrightarrow> CHR ''/'' \<notin> set n"
  shows "split (CHR ''/'') (concat (map (\<lambda>n. CHR ''/'' # n) ns)) = [] # ns"
  using assms
proof (induction ns)
  case (Cons n ns)
  then show ?case
    by (cases ns) (auto simp: split_append)
qed simp

lemma SplitPath_rendered:
  assumes "ns \<noteq> []" and "\<And>n. n \<in> set ns \<Longrightarrow> valid_name n"
  shows "SplitPath (render_path (rev ns)) = ([] # ns, False)"
proof -
  have s: "split (CHR ''/'') (render_path (rev ns)) = [] # ns"
    using assms split_rendered [of ns] by (auto simp: render_path_def valid_name_def)
  obtain ms n where ns: "ns = ms @ [n]" using assms(1) by (cases ns rule: rev_exhaust) auto
  then have "valid_name n" using assms(2) by simp
  then show ?thesis using s ns by (simp add: SplitPath_def Let_def valid_name_def)
qed

lemma rendered_valid:
  assumes "ns \<noteq> []" and "\<And>n. n \<in> set ns \<Longrightarrow> valid_name n"
  shows "PathIsValid (render_path (rev ns))" and "is_absolute (render_path (rev ns))"
  using assms by (auto simp: PathIsValid_def is_absolute_def render_path_def valid_name_def list_all_iff hd_append neq_Nil_conv)

lemma root_dent:
  assumes "fs_ok (fs_root fs) F"
  shows "i_dent (inodes F (get_root fs F)) = Some (fs_root fs)"
proof -
  have "attached F (fs_root fs)" "i_class (inodes F (get_root fs F)) = ClassDir"
    using fs_ok_parts(6) [OF assms] by (auto simp: root_ok_def attached_def get_root_def)
  then show ?thesis using fs_ok_parts(4) [OF assms] by (simp add: dirs_ok_def get_root_def)
qed

lemma attached_linked:
  assumes ok: "fs_ok root F" and d: "attached F d" "d \<noteq> root"
  shows "linked F d"
proof -
  obtain p where p: "d_parent (dents F d) = Some p" using d by (auto simp: attached_def)
  have at: "stands_at F (Some p) (d_inode (dents F p))" by (rule stands_at_parent [OF ok d(1) p])
  have "d_inode (dents F p) < next_inode F" using at attached_types(3) [OF ok] by (simp add: stands_at_def)
  moreover have "(d_name (dents F d), d) \<in> set (i_map (inodes F (d_inode (dents F p))))"
    using dm_find_Some [OF child_found(1) [OF ok d p]] .
  ultimately show ?thesis by (force simp: linked_def list_ex_iff)
qed


text \<open>The namespace with one directory \<open>/a\<close>.\<close>

definition one_dir :: Fs where
  "one_dir = snd (mem_MkDir 0 ''a'' 0x1ED (fs_init 0x1ED))"

definition at_root :: FSRoot where
  "at_root = \<lparr>fs_root = 0, fs_cwd = 0, fs_umask = 0\<rparr>"

lemmas one_dir_eval = one_dir_def mem_MkDir_def AddIDirLocked_def new_inode_def DirectoryEntry_new_def Let_def dm_Insert_def
  dm_find_def dm_insert_def unit_status_def fs_init_def SetRootEntry_def fs_upd inc_nlink_def

lemma one_dir_fields:
  "next_dent one_dir = 2" "next_inode one_dir = 2"
  "dents one_dir 0 = \<lparr>d_name = ''.'', d_inode = 0, d_parent = Some 0\<rparr>"
  "dents one_dir 1 = \<lparr>d_name = ''a'', d_inode = 1, d_parent = Some 0\<rparr>"
  "i_map (inodes one_dir 0) = [(''a'', 1)]" "i_map (inodes one_dir 1) = []"
  "i_dent (inodes one_dir 0) = Some 0" "i_dent (inodes one_dir 1) = Some 1"
  by (simp_all add: one_dir_eval)

lemmas one_dir_simps = one_dir_fields one_dir_fields [unfolded One_nat_def]

lemma one_dir_ok: "fs_ok 0 one_dir"
proof -
  have m: "(0x1ED :: u32) AND kTypeMask = 0" by (simp add: kTypeMask_def)
  have "live (fs_init 0x1ED) 0" by (simp add: live_def fs_init_def SetRootEntry_def Let_def fs_upd inc_nlink_def)
  then show ?thesis unfolding one_dir_def by (rule mem_MkDir_ok [OF fs_init_ok [OF m] _ m])
qed


subsection \<open>Paths that are not found\<close>

text \<open>The root is in no directory, so the name it was given, and not the path \<^verbatim>\<open>/\<close>, is its full path.\<close>

lemma full_path_of_root: "GetFullPath at_root one_dir 0 = Some (Inr ''.'')"
  by (simp add: GetFullPath_def linked_def one_dir_simps upt_rec numeral_2_eq_2)

text \<open>A directory can be renamed to an entry of itself; then its chain of parents is a cycle.\<close>

definition cyclic_dir :: Fs where
  "cyclic_dir = snd (mem_Rename 1 0 ''a'' ''b'' True one_dir)"

lemma rename_into_itself:
  "fst (mem_Rename 1 0 ''a'' ''b'' True one_dir) = Inr ()" "d_parent (dents cyclic_dir 1) = Some 1"
  "dents cyclic_dir 1 = \<lparr>d_name = ''b'', d_inode = 1, d_parent = Some 1\<rparr>"
  by (simp_all add: cyclic_dir_def mem_Rename_def MoveFrom_def Let_def dm_find_def one_dir_simps fs_upd dm_erase_def dm_insert_def)
    (simp_all add: one_dir_eval)

lemma full_path_diverges: "full_path_loop at_root cyclic_dir 1 acc = None"
proof (rule ccontr)
  assume "full_path_loop at_root cyclic_dir 1 acc \<noteq> None"
  then obtain r where r: "full_path_loop at_root cyclic_dir 1 acc = Some r" by blast
  have "\<not> (at_root = at_root \<and> cyclic_dir = cyclic_dir \<and> 1 = (1 :: nat))"
  proof (rule full_path_loop.raw_induct [where P = "\<lambda>fs F d ps r. \<not> (fs = at_root \<and> F = cyclic_dir \<and> d = 1)", OF _ r], goal_cases)
    case (1 loop fs F cur paths r)
    have cyc: "d_parent (dents cyclic_dir 1) = Some 1" by (rule rename_into_itself(2))
    have root: "fs_root at_root = 0" by (simp add: at_root_def)
    show ?case
    proof (rule notI, elim conjE)
      assume eq: "fs = at_root" "F = cyclic_dir" "cur = 1"
      then have "loop at_root cyclic_dir 1 (paths @ [d_name (dents cyclic_dir 1)]) = Some r" using 1(2) cyc root by simp
      from 1(1) [OF this] show False by simp
    qed
  qed
  then show False by simp
qed

end
