(* ===== verification/UnixSocket.thy ===== *)
theory UnixSocket
  imports Pipe
begin

text \<open>
  Stream sockets of the local domain: addresses (\<^verbatim>\<open>src/junction/net/net.cc\<close>), the table of abstract names
  and \<open>UnixStreamSocket\<close> (\<^verbatim>\<open>src/junction/net/unix_socket.cc\<close>).

  Sockets and pipes are numbered; a socket is also the number of its event source.  A weak pointer is the
  number of a socket that may have been destroyed, a null pointer to a pipe is \<open>None\<close>.  The pipes are those of
  the theory \<open>Pipe\<close>.  Taking the wrong alternative of the variant throws an exception: the result
  \<open>None\<close> of an operation, as is the use of a null pipe.  Names are entered into and looked up in the file system
  by the arguments \<open>insert_to\<close> and \<open>path_sock\<close>, random bytes are an argument.
\<close>

subsection \<open>Addresses\<close>

datatype UnixSocketAddressType = Unnamed | Pathname | Abstract

type_synonym UnixSocketAddr = "UnixSocketAddressType \<times> string"

definition AF_UNIX :: int where "AF_UNIX = 1"

definition strn :: "nat \<Rightarrow> string \<Rightarrow> string" where
  "strn n s = takeWhile (\<lambda>c. c \<noteq> CHR 0x00) (take n s)"

text \<open>\<open>addr\<close> is the pointer, if any, to the family and the 108 bytes of the path.\<close>

definition ToUnixAddr :: "(int \<times> string) option \<Rightarrow> nat \<Rightarrow> UnixSocketAddr Status" where
  "ToUnixAddr addr len =
     (case addr of
        None \<Rightarrow> Inl EINVAL
      | Some (family, sun_path) \<Rightarrow>
          if family \<noteq> AF_UNIX \<or> len \<le> 2 then Inl EINVAL
          else
            (let max_bytes = min (len - 2) 108 in
             if hd sun_path = CHR 0x00 then Inr (Abstract, strn (max_bytes - 1) (tl sun_path))
             else Inr (Pathname, strn max_bytes sun_path)))"

text \<open>The bytes written to the path and the length; \<open>None\<close> when the space that is left wraps below 0.\<close>

definition FromUnixAddr :: "UnixSocketAddr \<Rightarrow> nat \<Rightarrow> (string \<times> nat) option" where
  "FromUnixAddr uaddr len =
     (case uaddr of
        (type, name) \<Rightarrow>
          if name = [] then Some ([], 2)
          else
            (let pre = (if type = Abstract then [CHR 0x00] else []) in
             if len < 2 + length pre then None
             else Some (pre @ take (len - 2 - length pre) (name @ [CHR 0x00]),
                        2 + length name + 1 + length pre)))"

text \<open>An address that fits into the buffer comes back unchanged.\<close>

lemma takeWhile_name:
  assumes "c \<notin> set name"
  shows "takeWhile (\<lambda>x. x \<noteq> c) (name @ c # rest) = name"
  using assms by (induction name) auto

lemma unix_addr_round_trip:
  assumes "type = Pathname \<or> type = Abstract" and "name \<noteq> []" and "CHR 0x00 \<notin> set name"
    and "length name + 4 \<le> len" and "length name \<le> 106"
  shows "\<exists>bytes n. FromUnixAddr (type, name) len = Some (bytes, n) \<and> ToUnixAddr (Some (AF_UNIX, bytes)) n = Inr (type, name)"
proof -
  have s: "strn (Suc (length name)) (name @ [CHR 0x00]) = name"
    using takeWhile_name [OF assms(3), of "[]"] by (simp add: strn_def)
  have h: "hd (name @ [CHR 0x00]) \<noteq> CHR 0x00" using assms(2,3) by (cases name) auto
  from assms(1) show ?thesis
  proof
    assume t: "type = Pathname"
    have "FromUnixAddr (type, name) len = Some (name @ [CHR 0x00], 3 + length name)"
      using assms t by (simp add: FromUnixAddr_def)
    moreover have "ToUnixAddr (Some (AF_UNIX, name @ [CHR 0x00])) (3 + length name) = Inr (type, name)"
      using assms t s h by (simp add: ToUnixAddr_def Let_def)
    ultimately show ?thesis by blast
  next
    assume t: "type = Abstract"
    have "FromUnixAddr (type, name) len = Some (CHR 0x00 # name @ [CHR 0x00], 4 + length name)"
      using assms t by (simp add: FromUnixAddr_def)
    moreover have "ToUnixAddr (Some (AF_UNIX, CHR 0x00 # name @ [CHR 0x00])) (4 + length name) = Inr (type, name)"
      using assms t s by (simp add: ToUnixAddr_def Let_def)
    ultimately show ?thesis by blast
  qed
qed

subsection \<open>Sockets\<close>

datatype SocketState = kSockUnbound | kSockBound | kSockListening | kSockConnected

record UnixStreamConnection =
  peer_name :: UnixSocketAddr
  c_rx :: "nat option"
  c_tx :: "nat option"

record UnixStreamListener =
  backlog :: int
  l_shutdown :: bool
  accept_q :: "UnixStreamConnection list"

datatype stream_variant = VConnection UnixStreamConnection | VListener UnixStreamListener

record UnixStreamSocket =
  ss_state :: SocketState
  local_name :: UnixSocketAddr
  ss_v :: stream_variant
  ss_dent :: "nat option"
  ss_nonblocking :: bool

record UnixWorld =
  socks :: "nat \<Rightarrow> UnixStreamSocket option"
  stream_tbl :: "string \<Rightarrow> nat option"
  pipes :: "nat \<Rightarrow> ByteChannel WaitableChannel"
  next_sock :: nat
  next_pipe :: nat
  uw_poll :: poll_world

definition upd_sock :: "nat \<Rightarrow> UnixStreamSocket \<Rightarrow> UnixWorld \<Rightarrow> UnixWorld" where
  "upd_sock s S W = W\<lparr>socks := (socks W)(s := Some S)\<rparr>"

definition unnamed :: UnixSocketAddr where "unnamed = (Unnamed, [])"

definition UnixStreamSocket_new :: "bool \<Rightarrow> UnixStreamSocket" where
  "UnixStreamSocket_new nonblocking =
     \<lparr>ss_state = kSockUnbound, local_name = unnamed,
      ss_v = VConnection \<lparr>peer_name = unnamed, c_rx = None, c_tx = None\<rparr>, ss_dent = None, ss_nonblocking = nonblocking\<rparr>"

definition has_name :: "UnixStreamSocket \<Rightarrow> bool" where
  "has_name S \<longleftrightarrow> length (snd (local_name S)) > 0"

definition Connection :: "UnixStreamSocket \<Rightarrow> UnixStreamConnection option" where
  "Connection S = (case ss_v S of VConnection c \<Rightarrow> Some c | VListener l \<Rightarrow> None)"

definition Listener :: "UnixStreamSocket \<Rightarrow> UnixStreamListener option" where
  "Listener S = (case ss_v S of VConnection c \<Rightarrow> None | VListener l \<Rightarrow> Some l)"

subsection \<open>The table of abstract names\<close>

definition tbl_Insert :: "string \<Rightarrow> nat \<Rightarrow> UnixWorld \<Rightarrow> unit Status \<times> UnixWorld" where
  "tbl_Insert name s W =
     (case stream_tbl W name of
        Some old \<Rightarrow> if socks W old \<noteq> None then (Inl EADDRINUSE, W) else (Inr (), W\<lparr>stream_tbl := (stream_tbl W)(name \<mapsto> s)\<rparr>)
      | None \<Rightarrow> (Inr (), W\<lparr>stream_tbl := (stream_tbl W)(name \<mapsto> s)\<rparr>))"

definition random_name :: "byte list \<Rightarrow> string" where
  "random_name bytes = map (\<lambda>b. char_of (97 + unat b mod 26)) bytes"

text \<open>Each try has 40 random bytes, or fails to get them; there are 10 tries.\<close>

fun NameAndInsert :: "byte list option list \<Rightarrow> nat \<Rightarrow> UnixWorld \<Rightarrow> UnixSocketAddr Status \<times> UnixWorld" where
  "NameAndInsert [] s W = (Inl EAGAIN, W)"
| "NameAndInsert (None # rnd) s W = NameAndInsert rnd s W"
| "NameAndInsert (Some bytes # rnd) s W =
     (case tbl_Insert (random_name bytes) s W of
        (Inr _, W') \<Rightarrow> (Inr (Abstract, random_name bytes), W')
      | (Inl _, W') \<Rightarrow> NameAndInsert rnd s W')"

definition tbl_Find :: "string \<Rightarrow> UnixWorld \<Rightarrow> nat option" where
  "tbl_Find name W = stream_tbl W name"

definition tbl_Delete :: "string \<Rightarrow> UnixWorld \<Rightarrow> UnixWorld" where
  "tbl_Delete name W = W\<lparr>stream_tbl := (stream_tbl W)(name := None)\<rparr>"

definition GetPeer :: "(string \<Rightarrow> nat option) \<Rightarrow> UnixSocketAddr \<Rightarrow> UnixWorld \<Rightarrow> nat Status" where
  "GetPeer path_sock addr W =
     (case (if fst addr = Pathname then path_sock (snd addr) else tbl_Find (snd addr) W) of
        None \<Rightarrow> Inl ECONNREFUSED
      | Some s \<Rightarrow> if socks W s = None then Inl ECONNREFUSED else Inr s)"

subsection \<open>Operations on sockets\<close>

definition with_pipe :: "nat option \<Rightarrow> (ByteChannel WaitableChannel \<Rightarrow> poll_world \<Rightarrow> ByteChannel WaitableChannel \<times> poll_world)
    \<Rightarrow> UnixWorld \<Rightarrow> UnixWorld option" where
  "with_pipe p f W =
     (case p of
        None \<Rightarrow> None
      | Some i \<Rightarrow> (case f (pipes W i) (uw_poll W) of (c, w) \<Rightarrow> Some (W\<lparr>pipes := (pipes W)(i := c), uw_poll := w\<rparr>)))"

definition bind_opt :: "'a option \<Rightarrow> ('a \<Rightarrow> 'b option) \<Rightarrow> 'b option" where
  "bind_opt x f = (case x of None \<Rightarrow> None | Some a \<Rightarrow> f a)"

definition kStreamPipeSize :: u64 where "kStreamPipeSize = 4096"

definition MakeStreamPair :: "UnixSocketAddr \<Rightarrow> UnixSocketAddr \<Rightarrow> UnixWorld
    \<Rightarrow> (UnixStreamConnection \<times> UnixStreamConnection) \<times> UnixWorld" where
  "MakeStreamPair laddr raddr W =
     (let p = next_pipe W; new = WaitableChannel_new (ByteChannel_new kStreamPipeSize)
      in ((\<lparr>peer_name = raddr, c_rx = Some p, c_tx = Some (p + 1)\<rparr>,
           \<lparr>peer_name = laddr, c_rx = Some (p + 1), c_tx = Some p\<rparr>),
          W\<lparr>pipes := (pipes W)(p := new, p + 1 := new), next_pipe := p + 2\<rparr>))"

text \<open>The constructor of a connected socket, and the two lines with which \<open>Connect\<close> attaches its side.\<close>

definition attach_connection :: "nat \<Rightarrow> UnixStreamConnection \<Rightarrow> UnixWorld \<Rightarrow> UnixWorld option" where
  "attach_connection s c W =
     bind_opt (with_pipe (c_rx c) (AttachReadPoll byte_ops s) W) (with_pipe (c_tx c) (AttachWritePoll byte_ops s))"

definition UnixStreamSocket_connected :: "UnixSocketAddr \<Rightarrow> UnixStreamConnection \<Rightarrow> bool \<Rightarrow> UnixWorld \<Rightarrow> (nat \<times> UnixWorld) option" where
  "UnixStreamSocket_connected laddr c nonblocking W =
     (let s = next_sock W;
          S = \<lparr>ss_state = kSockConnected, local_name = laddr, ss_v = VConnection c, ss_dent = None, ss_nonblocking = nonblocking\<rparr>
      in map_option (\<lambda>W'. (s, W')) (attach_connection s c (upd_sock s S (W\<lparr>next_sock := s + 1\<rparr>))))"

definition us_Bind :: "nat \<Rightarrow> UnixStreamSocket \<Rightarrow> UnixSocketAddr Status \<Rightarrow> (string \<Rightarrow> nat Status) \<Rightarrow> UnixWorld \<Rightarrow> unit Status \<times> UnixWorld" where
  "us_Bind s S a insert_to W =
     (if ss_state S \<noteq> kSockUnbound then (Inl EINVAL, W)
      else
        (case a of
           Inl e \<Rightarrow> (Inl e, W)
         | Inr (type, name) \<Rightarrow>
             if type = Pathname then
               (case insert_to name of
                  Inl e \<Rightarrow> (Inl e, W)
                | Inr d \<Rightarrow> (Inr (), upd_sock s (S\<lparr>ss_dent := Some d, local_name := (type, name), ss_state := kSockBound\<rparr>) W))
             else
               (case tbl_Insert name s W of
                  (Inl e, W1) \<Rightarrow> (Inl e, W1)
                | (Inr _, W1) \<Rightarrow> (Inr (), upd_sock s (S\<lparr>local_name := (type, name), ss_state := kSockBound\<rparr>) W1))))"

text \<open>Generating a name for this side, if it has none.\<close>

definition ensure_name :: "nat \<Rightarrow> UnixStreamSocket \<Rightarrow> byte list option list \<Rightarrow> UnixWorld \<Rightarrow> UnixStreamSocket Status \<times> UnixWorld" where
  "ensure_name s S rnd W =
     (if has_name S then (Inr S, W)
      else
        (case NameAndInsert (take 10 rnd) s W of
           (Inl e, W1) \<Rightarrow> (Inl e, W1)
         | (Inr addr, W1) \<Rightarrow> (Inr (S\<lparr>local_name := addr\<rparr>), upd_sock s (S\<lparr>local_name := addr\<rparr>) W1)))"

definition us_Listen :: "nat \<Rightarrow> UnixStreamSocket \<Rightarrow> int \<Rightarrow> byte list option list \<Rightarrow> UnixWorld \<Rightarrow> unit Status \<times> UnixWorld" where
  "us_Listen s S bl rnd W =
     (if ss_state S = kSockConnected then (Inl EISCONN, W)
      else
        (case ensure_name s S rnd W of
           (Inl e, W1) \<Rightarrow> (Inl e, W1)
         | (Inr S1, W1) \<Rightarrow>
             (Inr (), upd_sock s
                (S1\<lparr>ss_v := VListener \<lparr>backlog = bl, l_shutdown = False, accept_q = []\<rparr>, ss_state := kSockListening\<rparr>) W1)))"

text \<open>The cast of a negative backlog gives a bound that is never reached.\<close>

definition EnqueueConnection :: "nat \<Rightarrow> UnixStreamConnection \<Rightarrow> UnixWorld \<Rightarrow> (unit Status \<times> UnixWorld) option" where
  "EnqueueConnection peer conn W =
     bind_opt (socks W peer)
       (\<lambda>P. if ss_state P \<noteq> kSockListening then Some (Inl ECONNREFUSED, W)
             else
               bind_opt (Listener P)
                 (\<lambda>l. if l_shutdown l \<or> int (length (accept_q l)) \<ge> backlog l mod 2 ^ 64 then Some (Inl ECONNREFUSED, W)
                       else
                         (let w = (if accept_q l = [] then PollSource_Set peer kPollIn False (uw_poll W) else uw_poll W)
                          in Some (Inr (), upd_sock peer (P\<lparr>ss_v := VListener (l\<lparr>accept_q := accept_q l @ [conn]\<rparr>)\<rparr>)
                                             (W\<lparr>uw_poll := w\<rparr>)))))"

definition us_Connect :: "nat \<Rightarrow> UnixStreamSocket \<Rightarrow> UnixSocketAddr Status \<Rightarrow> (string \<Rightarrow> nat option) \<Rightarrow> byte list option list
    \<Rightarrow> UnixWorld \<Rightarrow> (unit Status \<times> UnixWorld) option" where
  "us_Connect s S a path_sock rnd W =
     (if ss_state S = kSockListening then Some (Inl EINVAL, W)
      else
        (case a of
           Inl e \<Rightarrow> Some (Inl e, W)
         | Inr addr \<Rightarrow>
             (case GetPeer path_sock addr W of
                Inl e \<Rightarrow> Some (Inl e, W)
              | Inr peer \<Rightarrow>
                  (case ensure_name s S rnd W of
                     (Inl e, W1) \<Rightarrow> Some (Inl e, W1)
                   | (Inr S1, W1) \<Rightarrow>
                       (case MakeStreamPair (local_name S1) addr W1 of
                          ((local, remote), W2) \<Rightarrow>
                            bind_opt (EnqueueConnection peer remote W2)
                              (\<lambda>(r, W3). case r of
                                  Inl e \<Rightarrow> Some (Inl e, W3)
                                | Inr _ \<Rightarrow>
                                    map_option (\<lambda>W4. (Inr (), W4))
                                      (attach_connection s local
                                        (upd_sock s (S1\<lparr>ss_v := VConnection local, ss_state := kSockConnected\<rparr>) W3))))))))"

datatype accept_result = AcceptSleep | AcceptReturn "(nat \<times> UnixSocketAddr) Status" UnixWorld

definition us_Accept :: "nat \<Rightarrow> UnixStreamSocket \<Rightarrow> bool \<Rightarrow> bool \<Rightarrow> UnixWorld \<Rightarrow> accept_result option" where
  "us_Accept s S new_nonblocking interrupted W =
     (if ss_state S \<noteq> kSockListening then Some (AcceptReturn (Inl EINVAL) W)
      else
        bind_opt (Listener S)
          (\<lambda>l. case accept_q l of
              [] \<Rightarrow>
                Some (if ss_nonblocking S then AcceptReturn (Inl EAGAIN) W
                      else if interrupted then AcceptReturn (Inl ERESTARTSYS) W
                      else AcceptSleep)
            | peer # q \<Rightarrow>
                bind_opt
                  (UnixStreamSocket_connected (local_name S) peer new_nonblocking
                    (upd_sock s (S\<lparr>ss_v := VListener (l\<lparr>accept_q := q\<rparr>)\<rparr>) W))
                  (\<lambda>(n, W1). Some (AcceptReturn (Inr (n, peer_name peer))
                     (if q = [] then W1\<lparr>uw_poll := PollSource_Clear s kPollIn (uw_poll W1)\<rparr> else W1)))))"

datatype shut_how = SHUT_RD | SHUT_WR | SHUT_RDWR | SHUT_invalid

definition us_Shutdown :: "nat \<Rightarrow> UnixStreamSocket \<Rightarrow> shut_how \<Rightarrow> UnixWorld \<Rightarrow> (unit Status \<times> UnixWorld) option" where
  "us_Shutdown s S how W =
     (if ss_state S = kSockListening then
        bind_opt (Listener S)
          (\<lambda>l. Some (Inr (), upd_sock s (S\<lparr>ss_v := VListener (l\<lparr>l_shutdown := True\<rparr>)\<rparr>)
                (W\<lparr>uw_poll := PollSource_Set s (kPollRDHUp OR kPollHUp OR kPollIn) False (uw_poll W)\<rparr>)))
      else if ss_state S \<noteq> kSockConnected then Some (Inl ENOTCONN, W)
      else
        bind_opt (Connection S)
          (\<lambda>c. case how of
              SHUT_RD \<Rightarrow> map_option (\<lambda>W'. (Inr (), W')) (with_pipe (c_rx c) (CloseReader False) W)
            | SHUT_WR \<Rightarrow> map_option (\<lambda>W'. (Inr (), W')) (with_pipe (c_tx c) (CloseWriter False) W)
            | SHUT_RDWR \<Rightarrow>
                map_option (\<lambda>W'. (Inr (), W'))
                  (bind_opt (with_pipe (c_rx c) (CloseReader False) W) (with_pipe (c_tx c) (CloseWriter False)))
            | SHUT_invalid \<Rightarrow> Some (Inl EINVAL, W)))"

definition us_RemoteAddr :: "UnixStreamSocket \<Rightarrow> bool \<Rightarrow> UnixSocketAddr Status option" where
  "us_RemoteAddr S has_ptr =
     (if ss_state S \<noteq> kSockConnected then Some (Inl ENOTCONN)
      else if \<not> has_ptr then Some (Inl EINVAL)
      else map_option (\<lambda>c. Inr (peer_name c)) (Connection S))"

definition us_LocalAddr :: "UnixStreamSocket \<Rightarrow> bool \<Rightarrow> UnixSocketAddr Status" where
  "us_LocalAddr S has_ptr =
     (if \<not> has_ptr then Inl EINVAL
      else if ss_state S = kSockUnbound then Inl ENOTCONN
      else Inr (local_name S))"

text \<open>
  Reading and writing; \<open>fuel\<close> is that of the pipe.  The address argument of \<open>WriteTo\<close> must be null; a
  plain \<open>Read\<close> or \<open>Write\<close> is one without peeking, flags and address.
\<close>

definition us_ReadFrom :: "nat \<Rightarrow> UnixStreamSocket \<Rightarrow> nat \<Rightarrow> bool \<Rightarrow> bool \<Rightarrow> bool \<Rightarrow> UnixWorld
    \<Rightarrow> (byte list rw_out \<times> UnixWorld) option" where
  "us_ReadFrom fuel S len peek nonblocking interrupted W =
     (if ss_state S \<noteq> kSockConnected then Some (RwReturn (Inl EINVAL), W)
      else
        bind_opt (Connection S)
          (\<lambda>c. bind_opt (c_rx c)
             (\<lambda>i. map_option (\<lambda>(r, p, w). (r, W\<lparr>pipes := (pipes W)(i := p), uw_poll := w\<rparr>))
                (WC_Read fuel byte_ops len (nonblocking \<or> ss_nonblocking S) peek interrupted (pipes W i) (uw_poll W)))))"

definition us_WriteTo :: "nat \<Rightarrow> UnixStreamSocket \<Rightarrow> byte list \<Rightarrow> bool \<Rightarrow> bool \<Rightarrow> bool \<Rightarrow> UnixWorld
    \<Rightarrow> (nat rw_out \<times> UnixWorld) option" where
  "us_WriteTo fuel S buf has_raddr nonblocking interrupted W =
     (if ss_state S \<noteq> kSockConnected then Some (RwReturn (Inl EINVAL), W)
      else if has_raddr then Some (RwReturn (Inl EISCONN), W)
      else
        bind_opt (Connection S)
          (\<lambda>c. bind_opt (c_tx c)
             (\<lambda>i. map_option (\<lambda>(r, p, w). (r, W\<lparr>pipes := (pipes W)(i := p), uw_poll := w\<rparr>))
                (WC_Write fuel byte_ops buf (nonblocking \<or> ss_nonblocking S) interrupted (pipes W i) (uw_poll W)))))"

definition close_connection :: "UnixStreamConnection \<Rightarrow> bool \<Rightarrow> UnixWorld \<Rightarrow> UnixWorld option" where
  "close_connection c detach W =
     bind_opt (with_pipe (c_rx c) (CloseReader detach) W) (with_pipe (c_tx c) (CloseWriter detach))"

fun close_all :: "UnixStreamConnection list \<Rightarrow> UnixWorld \<Rightarrow> UnixWorld option" where
  "close_all [] W = Some W"
| "close_all (c # cs) W = bind_opt (close_connection c False W) (close_all cs)"

text \<open>The destructor; a socket with an entry in the file system removes that entry, any other its name.\<close>

definition us_destroy :: "nat \<Rightarrow> UnixStreamSocket \<Rightarrow> UnixWorld \<Rightarrow> UnixWorld option" where
  "us_destroy s S W =
     (let W1 = W\<lparr>socks := (socks W)(s := None)\<rparr>;
          W2 = (if ss_dent S \<noteq> None then W1
                else if length (snd (local_name S)) > 0 then tbl_Delete (snd (local_name S)) W1 else W1)
      in if ss_state S = kSockConnected then bind_opt (Connection S) (\<lambda>c. close_connection c True W2)
         else if ss_state S = kSockListening then bind_opt (Listener S) (\<lambda>l. close_all (accept_q l) W2)
         else Some W2)"

text \<open>The stream half of \<open>CreatePipeSocket\<close>, up to the descriptors.\<close>

definition stream_socketpair :: "bool \<Rightarrow> UnixWorld \<Rightarrow> ((nat \<times> nat) \<times> UnixWorld) option" where
  "stream_socketpair nonblocking W =
     (case MakeStreamPair unnamed unnamed W of
        ((conn1, conn2), W1) \<Rightarrow>
          bind_opt (UnixStreamSocket_connected unnamed conn1 nonblocking W1)
            (\<lambda>(s1, W2). bind_opt (UnixStreamSocket_connected unnamed conn2 nonblocking W2)
               (\<lambda>(s2, W3). Some ((s1, s2), W3))))"

end
