(* ===== verification/UnixSteps.thy ===== *)
theory UnixSteps
  imports UnixSocket
begin

text \<open>
  Sequences of operations on local stream sockets.  The invariant says that a socket's variant fits its
  state, that queues of waiting connections are bounded and that every pipe has at most one end for reading
  and one for writing, which belong to two ends that face each other.
\<close>

definition partner :: "nat \<Rightarrow> nat" where
  "partner p = (if even p then p + 1 else p - 1)"

lemma partner_partner [simp]: "partner (partner p) = p"
  by (auto simp: partner_def elim: oddE)

lemma partner_inj: "partner p = partner q \<Longrightarrow> p = q"
  by (metis partner_partner)

text \<open>The connections of a socket: its own, or those that wait to be accepted.\<close>

definition held :: "UnixStreamSocket \<Rightarrow> UnixStreamConnection list" where
  "held S =
     (case ss_v S of
        VConnection c \<Rightarrow> if ss_state S = kSockConnected then [c] else []
      | VListener l \<Rightarrow> if ss_state S = kSockListening then accept_q l else [])"

definition end_ok :: "nat \<Rightarrow> UnixStreamConnection \<Rightarrow> bool" where
  "end_ok n c \<longleftrightarrow> (\<exists>r. c_rx c = Some r \<and> c_tx c = Some (partner r) \<and> r < n)"

definition sock_ok :: "nat \<Rightarrow> UnixStreamSocket \<Rightarrow> bool" where
  "sock_ok n S \<longleftrightarrow>
     (case ss_v S of
        VConnection c \<Rightarrow> ss_state S \<noteq> kSockListening
      | VListener l \<Rightarrow> ss_state S = kSockListening \<and> int (length (accept_q l)) \<le> backlog l mod 2 ^ 64) \<and>
     (\<forall>c \<in> set (held S). end_ok n c) \<and> distinct (map c_rx (held S))"

definition rx_of :: "UnixStreamSocket \<Rightarrow> nat option set" where
  "rx_of S = c_rx ` set (held S)"

definition world_ok :: "UnixWorld \<Rightarrow> bool" where
  "world_ok W \<longleftrightarrow>
     even (next_pipe W) \<and>
     (\<forall>s S. socks W s = Some S \<longrightarrow> s < next_sock W \<and> sock_ok (next_pipe W) S) \<and>
     (\<forall>s t S T. s \<noteq> t \<longrightarrow> socks W s = Some S \<longrightarrow> socks W t = Some T \<longrightarrow> rx_of S \<inter> rx_of T = {})"

lemma world_ok_same:
  assumes "world_ok W" and "socks W' = socks W" and "next_sock W' = next_sock W" and "next_pipe W' = next_pipe W"
  shows "world_ok W'"
  using assms by (simp add: world_ok_def)

lemma world_sock:
  assumes "world_ok W" and "socks W s = Some S"
  shows "sock_ok (next_pipe W) S" and "s < next_sock W"
  using assms by (auto simp: world_ok_def)

lemma world_disjoint:
  assumes "world_ok W" and "socks W s = Some S" and "socks W t = Some T" and "s \<noteq> t"
  shows "rx_of S \<inter> rx_of T = {}"
  using assms unfolding world_ok_def by blast

lemma rx_of_bound:
  assumes "world_ok W" and "socks W s = Some S" and "r \<in> rx_of S"
  shows "\<exists>p < next_pipe W. r = Some p"
  using world_sock(1) [OF assms(1,2)] assms(3) by (fastforce simp: sock_ok_def rx_of_def end_ok_def)

text \<open>Changing one socket.\<close>

lemma world_ok_upd:
  assumes ok: "world_ok W" and "s < next_sock W" and "sock_ok (next_pipe W) S'"
    and disj: "\<And>t T. t \<noteq> s \<Longrightarrow> socks W t = Some T \<Longrightarrow> rx_of S' \<inter> rx_of T = {}"
  shows "world_ok (upd_sock s S' W)"
  unfolding world_ok_def
proof (intro conjI allI impI)
  show "even (next_pipe (upd_sock s S' W))" using ok by (simp add: world_ok_def upd_sock_def)
next
  fix t T assume "socks (upd_sock s S' W) t = Some T"
  then show "t < next_sock (upd_sock s S' W)" and "sock_ok (next_pipe (upd_sock s S' W)) T"
    using ok assms(2,3) by (auto simp: world_ok_def upd_sock_def split: if_splits)
next
  fix t u T U assume a: "t \<noteq> u" "socks (upd_sock s S' W) t = Some T" "socks (upd_sock s S' W) u = Some U"
  show "rx_of T \<inter> rx_of U = {}"
  proof (cases "t = s")
    case True
    then show ?thesis using a disj [of u U] by (simp add: upd_sock_def)
  next
    case False
    then show ?thesis
      using a disj [of t T] world_disjoint [OF ok, of t T u U] by (cases "u = s") (auto simp: upd_sock_def)
  qed
qed

lemma world_ok_keep:
  assumes ok: "world_ok W" and s: "socks W s = Some S" and "sock_ok (next_pipe W) S'" and "rx_of S' \<subseteq> rx_of S"
  shows "world_ok (upd_sock s S' W)"
proof (rule world_ok_upd [OF ok world_sock(2) [OF ok s] assms(3)])
  fix t T assume "t \<noteq> s" "socks W t = Some T"
  then show "rx_of S' \<inter> rx_of T = {}" using world_disjoint [OF ok s, of t T] assms(4) by blast
qed

text \<open>Destroying a socket.\<close>

lemma world_ok_drop: "world_ok W \<Longrightarrow> world_ok (W\<lparr>socks := (socks W)(s := None)\<rparr>)"
  by (auto simp: world_ok_def)

subsection \<open>Parts of the operations\<close>

lemma with_pipe_some:
  obtains W' where "with_pipe (Some i) f W = Some W'" and "socks W' = socks W" and "next_sock W' = next_sock W"
    and "next_pipe W' = next_pipe W" and "stream_tbl W' = stream_tbl W"
  by (cases "f (pipes W i) (uw_poll W)") (auto simp: with_pipe_def)

lemma with_pipe_two:
  assumes "end_ok n c"
  obtains W' where "bind_opt (with_pipe (c_rx c) f W) (with_pipe (c_tx c) g) = Some W'" and "socks W' = socks W"
    and "next_sock W' = next_sock W" and "next_pipe W' = next_pipe W" and "stream_tbl W' = stream_tbl W"
proof -
  obtain r where c: "c_rx c = Some r" "c_tx c = Some (partner r)" using assms by (auto simp: end_ok_def)
  obtain W1 where W1: "with_pipe (Some r) f W = Some W1" "socks W1 = socks W" "next_sock W1 = next_sock W"
    "next_pipe W1 = next_pipe W" "stream_tbl W1 = stream_tbl W" by (rule with_pipe_some)
  obtain W2 where W2: "with_pipe (Some (partner r)) g W1 = Some W2" "socks W2 = socks W1" "next_sock W2 = next_sock W1"
    "next_pipe W2 = next_pipe W1" "stream_tbl W2 = stream_tbl W1" by (rule with_pipe_some)
  show thesis by (rule that [of W2]) (simp_all add: c W1 W2 bind_opt_def)
qed

lemma close_all_some:
  assumes "\<forall>c \<in> set cs. end_ok n c"
  shows "\<exists>W'. close_all cs W = Some W' \<and> socks W' = socks W \<and> next_sock W' = next_sock W \<and> next_pipe W' = next_pipe W \<and>
    stream_tbl W' = stream_tbl W"
  using assms
proof (induction cs arbitrary: W)
  case (Cons c cs)
  then have c: "end_ok n c" by simp
  obtain W1 where W1: "close_connection c False W = Some W1" "socks W1 = socks W" "next_sock W1 = next_sock W"
    "next_pipe W1 = next_pipe W" "stream_tbl W1 = stream_tbl W"
    using with_pipe_two [OF c, of "CloseReader False" W "CloseWriter False"] by (auto simp: close_connection_def)
  then show ?case using Cons.IH [of W1] Cons.prems by (simp add: bind_opt_def)
qed simp

lemma tbl_Insert_same:
  "socks (snd (tbl_Insert name s W)) = socks W" "next_sock (snd (tbl_Insert name s W)) = next_sock W"
  "next_pipe (snd (tbl_Insert name s W)) = next_pipe W"
  by (simp_all add: tbl_Insert_def split: option.split)

lemma NameAndInsert_same:
  "socks (snd (NameAndInsert rnd s W)) = socks W \<and> next_sock (snd (NameAndInsert rnd s W)) = next_sock W \<and>
   next_pipe (snd (NameAndInsert rnd s W)) = next_pipe W"
proof (induction rnd s W rule: NameAndInsert.induct)
  case (3 bytes rnd s W)
  obtain r W1 where r: "tbl_Insert (random_name bytes) s W = (r, W1)" by (cases "tbl_Insert (random_name bytes) s W")
  then have same: "socks W1 = socks W" "next_sock W1 = next_sock W" "next_pipe W1 = next_pipe W"
    using tbl_Insert_same [of "random_name bytes" s W] by simp_all
  show ?case
  proof (cases r)
    case (Inl e)
    then show ?thesis using 3 [OF r [symmetric] Inl] r same by simp
  next
    case (Inr u)
    then show ?thesis using r same by simp
  qed
qed simp_all

lemma same_held:
  assumes "ss_state S' = ss_state S" and "ss_v S' = ss_v S"
  shows "held S' = held S" and "rx_of S' = rx_of S" and "sock_ok n S' = sock_ok n S"
  unfolding rx_of_def sock_ok_def held_def assms by simp_all

lemma ensure_name_ok:
  assumes ok: "world_ok W" and s: "socks W s = Some S" and r: "ensure_name s S rnd W = (r, W1)"
  shows "world_ok W1" and "next_pipe W1 = next_pipe W" and "next_sock W1 = next_sock W"
    and "\<And>S1. r = Inr S1 \<Longrightarrow> socks W1 s = Some S1 \<and> ss_state S1 = ss_state S \<and> ss_v S1 = ss_v S \<and>
      (\<forall>t. t \<noteq> s \<longrightarrow> socks W1 t = socks W t)"
proof -
  obtain a W2 where a: "NameAndInsert (take 10 rnd) s W = (a, W2)" by (cases "NameAndInsert (take 10 rnd) s W")
  then have same: "socks W2 = socks W" "next_sock W2 = next_sock W" "next_pipe W2 = next_pipe W"
    using NameAndInsert_same [of "take 10 rnd" s W] by simp_all
  have ok2: "world_ok W2" by (rule world_ok_same [OF ok same])
  have keep: "world_ok (upd_sock s (S\<lparr>local_name := x\<rparr>) W2)" for x
  proof (rule world_ok_keep [OF ok2])
    show "socks W2 s = Some S" using same s by simp
    show "sock_ok (next_pipe W2) (S\<lparr>local_name := x\<rparr>)"
      using world_sock(1) [OF ok s] same same_held(3) [of "S\<lparr>local_name := x\<rparr>" S] by simp
    show "rx_of (S\<lparr>local_name := x\<rparr>) \<subseteq> rx_of S" using same_held(2) [of "S\<lparr>local_name := x\<rparr>" S] by simp
  qed
  show "world_ok W1" and "next_pipe W1 = next_pipe W" and "next_sock W1 = next_sock W"
    and "\<And>S1. r = Inr S1 \<Longrightarrow> socks W1 s = Some S1 \<and> ss_state S1 = ss_state S \<and> ss_v S1 = ss_v S \<and>
      (\<forall>t. t \<noteq> s \<longrightarrow> socks W1 t = socks W t)"
    using r a keep ok ok2 same s
    by (auto simp: ensure_name_def upd_sock_def split: if_splits sum.splits)
qed

subsection \<open>The operations keep the invariant\<close>

lemma fresh_held:
  assumes "ss_state S \<noteq> kSockListening" "ss_state S \<noteq> kSockConnected" "ss_v S = VConnection c"
  shows "held S = []" and "rx_of S = {}" and "sock_ok n S"
  using assms by (simp_all add: held_def rx_of_def sock_ok_def)

lemma us_new_ok:
  assumes "world_ok W"
  shows "world_ok (upd_sock (next_sock W) (UnixStreamSocket_new nb) (W\<lparr>next_sock := next_sock W + 1\<rparr>))"
proof (rule world_ok_upd)
  show "world_ok (W\<lparr>next_sock := next_sock W + 1\<rparr>)" using assms by (force simp: world_ok_def)
qed (simp_all add: UnixStreamSocket_new_def held_def rx_of_def sock_ok_def)

lemma us_Bind_ok:
  assumes ok: "world_ok W" and s: "socks W s = Some S"
  shows "world_ok (snd (us_Bind s S a insert_to W))"
proof (cases "ss_state S = kSockUnbound")
  case True
  obtain c where v: "ss_v S = VConnection c"
    using world_sock(1) [OF ok s] True by (cases "ss_v S") (auto simp: sock_ok_def)
  have keep: "world_ok (upd_sock s S' W')"
    if "ss_state S' = kSockBound" "ss_v S' = VConnection c" "socks W' = socks W" "next_sock W' = next_sock W" "next_pipe W' = next_pipe W"
    for S' W'
    by (rule world_ok_keep [OF world_ok_same [OF ok that(3-5)], of s S]) (use that s fresh_held [of S' c] in simp_all)
  show ?thesis
  proof (cases a)
    case (Inr addr)
    obtain type name where addr: "addr = (type, name)" by (cases addr)
    note same = tbl_Insert_same [of name s W]
    have "world_ok (snd (tbl_Insert name s W))" by (rule world_ok_same [OF ok same])
    then show ?thesis
      using True Inr addr ok keep v same
      by (auto simp: us_Bind_def split: sum.split prod.split)
  qed (use True ok in \<open>simp add: us_Bind_def\<close>)
qed (use ok in \<open>simp add: us_Bind_def\<close>)

lemma us_Listen_ok:
  assumes ok: "world_ok W" and s: "socks W s = Some S"
  shows "world_ok (snd (us_Listen s S bl rnd W))"
proof -
  obtain r W1 where r: "ensure_name s S rnd W = (r, W1)" by (cases "ensure_name s S rnd W")
  note e = ensure_name_ok [OF ok s r]
  have "world_ok (upd_sock s (S1\<lparr>ss_v := VListener \<lparr>backlog = bl, l_shutdown = False, accept_q = []\<rparr>, ss_state := kSockListening\<rparr>) W1)"
    if "r = Inr S1" for S1
    by (rule world_ok_keep [OF e(1), of s S1]) (use e(4) [OF that] in \<open>simp_all add: sock_ok_def held_def rx_of_def\<close>)
  then show ?thesis using ok r e(1) by (auto simp: us_Listen_def split: sum.split)
qed

lemma listener_of:
  assumes "sock_ok n S" and "ss_state S = kSockListening"
  obtains l where "ss_v S = VListener l" and "Listener S = Some l" and "held S = accept_q l"
    and "int (length (accept_q l)) \<le> backlog l mod 2 ^ 64"
  using assms by (cases "ss_v S") (auto simp: sock_ok_def Listener_def held_def)

lemma connection_of:
  assumes "sock_ok n S" and "ss_state S = kSockConnected"
  obtains c where "ss_v S = VConnection c" and "Connection S = Some c" and "held S = [c]" and "end_ok n c"
  using assms by (cases "ss_v S") (auto simp: sock_ok_def Connection_def held_def)

text \<open>A new pair of pipes: the two ends face each other and no socket holds them.\<close>

lemma end_ok_mono: "end_ok n c \<Longrightarrow> n \<le> m \<Longrightarrow> end_ok m c"
  by (auto simp: end_ok_def)

lemma MakeStreamPair_ok:
  assumes ok: "world_ok W" and m: "MakeStreamPair laddr raddr W = ((local, remote), W1)"
  shows "world_ok W1" and "socks W1 = socks W" and "next_sock W1 = next_sock W"
    and "end_ok (next_pipe W1) local" and "end_ok (next_pipe W1) remote" and "c_rx local \<noteq> c_rx remote"
    and "\<And>t T. socks W t = Some T \<Longrightarrow> c_rx local \<notin> rx_of T \<and> c_rx remote \<notin> rx_of T"
proof -
  have ev: "even (next_pipe W)" using ok by (simp add: world_ok_def)
  have d: "W1 = W\<lparr>pipes := pipes W1, next_pipe := next_pipe W + 2\<rparr>" "c_rx local = Some (next_pipe W)"
    "c_tx local = Some (next_pipe W + 1)" "c_rx remote = Some (next_pipe W + 1)" "c_tx remote = Some (next_pipe W)"
    using m by (auto simp: MakeStreamPair_def Let_def)
  show same: "socks W1 = socks W" "next_sock W1 = next_sock W" by (subst d(1), simp)+
  have n: "next_pipe W1 = next_pipe W + 2" by (subst d(1), simp)
  show "end_ok (next_pipe W1) local" and "end_ok (next_pipe W1) remote" and "c_rx local \<noteq> c_rx remote"
    using ev d n by (auto simp: end_ok_def partner_def)
  have "sock_ok (next_pipe W1) S" if "sock_ok (next_pipe W) S" for S
    using that end_ok_mono [of "next_pipe W" _ "next_pipe W1"] n by (auto simp: sock_ok_def)
  then show "world_ok W1" using ok ev same n unfolding world_ok_def by auto
  show "c_rx local \<notin> rx_of T \<and> c_rx remote \<notin> rx_of T" if "socks W t = Some T" for t T
    using rx_of_bound [OF ok that] d by fastforce
qed

lemma EnqueueConnection_ok:
  assumes ok: "world_ok W" and P: "socks W peer = Some P" and c: "end_ok (next_pipe W) conn"
    and fresh: "\<forall>t T. socks W t = Some T \<longrightarrow> c_rx conn \<notin> rx_of T"
  obtains (refused) e where "EnqueueConnection peer conn W = Some (Inl e, W)"
  | (queued) P' w where "EnqueueConnection peer conn W = Some (Inr (), upd_sock peer P' (W\<lparr>uw_poll := w\<rparr>))"
    and "world_ok (upd_sock peer P' (W\<lparr>uw_poll := w\<rparr>))" and "rx_of P' = insert (c_rx conn) (rx_of P)"
    and "ss_state P = kSockListening"
proof (cases "ss_state P = kSockListening")
  case False
  then show ?thesis using that(1) P by (simp add: EnqueueConnection_def bind_opt_def)
next
  case True
  note po = world_sock [OF ok P]
  obtain l where l: "ss_v P = VListener l" "Listener P = Some l" "held P = accept_q l"
    "int (length (accept_q l)) \<le> backlog l mod 2 ^ 64" using po(1) True by (rule listener_of)
  show ?thesis
  proof (cases "l_shutdown l \<or> int (length (accept_q l)) \<ge> backlog l mod 2 ^ 64")
    case full: True
    then show ?thesis using that(1) P True l by (simp add: EnqueueConnection_def bind_opt_def)
  next
    case room: False
    let ?P = "P\<lparr>ss_v := VListener (l\<lparr>accept_q := accept_q l @ [conn]\<rparr>)\<rparr>"
    define w where "w = (if accept_q l = [] then PollSource_Set peer kPollIn False (uw_poll W) else uw_poll W)"
    have rx: "rx_of ?P = insert (c_rx conn) (rx_of P)" using True l by (simp add: rx_of_def held_def)
    have "c_rx conn \<notin> c_rx ` set (accept_q l)" using fresh P l(3) unfolding rx_of_def by fastforce
    then have so: "sock_ok (next_pipe W) ?P"
      using po(1) True l room c by (auto simp: sock_ok_def held_def)
    have "world_ok (upd_sock peer ?P (W\<lparr>uw_poll := w\<rparr>))"
    proof (rule world_ok_upd)
      show "world_ok (W\<lparr>uw_poll := w\<rparr>)" by (rule world_ok_same [OF ok]) simp_all
    next
      fix t T assume t: "t \<noteq> peer" "socks (W\<lparr>uw_poll := w\<rparr>) t = Some T"
      then show "rx_of ?P \<inter> rx_of T = {}"
        using world_disjoint [OF ok P, of t T] fresh rx by auto
    qed (use po so in simp_all)
    then show ?thesis
      using that(2) [of ?P w] P True l room rx by (simp add: EnqueueConnection_def bind_opt_def w_def Let_def)
  qed
qed

text \<open>A result of an operation: it does not throw, and the invariant is kept.\<close>

definition good :: "('a \<times> UnixWorld) option \<Rightarrow> bool" where
  "good r \<longleftrightarrow> (case r of None \<Rightarrow> False | Some (_, W) \<Rightarrow> world_ok W)"

lemma good_simps [simp]: "\<not> good None" "good (Some (x, W)) = world_ok W"
  by (simp_all add: good_def)

lemma attach_connection_ok:
  assumes "world_ok W" and "end_ok n c"
  obtains W' where "attach_connection s c W = Some W'" and "world_ok W'" and "socks W' = socks W"
    and "next_sock W' = next_sock W" and "next_pipe W' = next_pipe W" and "stream_tbl W' = stream_tbl W"
proof -
  obtain W' where W': "attach_connection s c W = Some W'" "socks W' = socks W" "next_sock W' = next_sock W"
    "next_pipe W' = next_pipe W" "stream_tbl W' = stream_tbl W"
    unfolding attach_connection_def by (rule with_pipe_two [OF assms(2)])
  show thesis by (rule that [OF W'(1) world_ok_same [OF assms(1) W'(2-4)] W'(2-5)])
qed

lemma us_Connect_good:
  assumes ok: "world_ok W" and s: "socks W s = Some S"
  shows "good (us_Connect s S a path_sock rnd W)"
proof (cases "ss_state S = kSockListening \<or> isl a")
  case True
  then show ?thesis using ok by (cases a) (auto simp: us_Connect_def)
next
  case False
  then obtain addr where a: "a = Inr addr" and ns: "ss_state S \<noteq> kSockListening" by (cases a) auto
  obtain r W1 where r: "ensure_name s S rnd W = (r, W1)" by (cases "ensure_name s S rnd W")
  note e = ensure_name_ok [OF ok s r]
  show ?thesis
  proof (cases "GetPeer path_sock addr W")
    case (Inl err)
    then show ?thesis using ns a ok by (simp add: us_Connect_def)
  next
    case peer: (Inr peer)
    show ?thesis
    proof (cases r)
      case (Inl err)
      then show ?thesis using ns a peer r e(1) by (simp add: us_Connect_def)
    next
      case (Inr S1)
      note S1 = e(4) [OF Inr]
      obtain local remote W2 where m: "MakeStreamPair (local_name S1) addr W1 = ((local, remote), W2)"
        by (metis prod.exhaust)
      note mp = MakeStreamPair_ok [OF e(1) m]
      have "socks W peer \<noteq> None" using peer by (auto simp: GetPeer_def split: option.splits if_splits)
      then obtain P where P: "socks W2 peer = Some P" using S1 mp(2) by (cases "peer = s") auto
      have fresh: "\<forall>t T. socks W2 t = Some T \<longrightarrow> c_rx remote \<notin> rx_of T" using mp(2,7) by simp
      have unfold: "us_Connect s S a path_sock rnd W =
        bind_opt (EnqueueConnection peer remote W2)
          (\<lambda>(r, W3). case r of
              Inl e \<Rightarrow> Some (Inl e, W3)
            | Inr _ \<Rightarrow> map_option (\<lambda>W4. (Inr (), W4))
                (attach_connection s local (upd_sock s (S1\<lparr>ss_v := VConnection local, ss_state := kSockConnected\<rparr>) W3)))"
        using ns a peer r Inr m by (simp add: us_Connect_def)
      show ?thesis
      proof (cases rule: EnqueueConnection_ok [OF mp(1) P mp(5) fresh, case_names refused queued])
        case (refused err)
        then show ?thesis using unfold mp(1) by (simp add: bind_opt_def)
      next
        case (queued P' w)
        let ?W3 = "upd_sock peer P' (W2\<lparr>uw_poll := w\<rparr>)"
        let ?S = "S1\<lparr>ss_v := VConnection local, ss_state := kSockConnected\<rparr>"
        have ne: "peer \<noteq> s" using queued(4) P S1 mp(2) ns by auto
        have rx: "rx_of ?S = {c_rx local}" by (simp add: rx_of_def held_def)
        have ok4: "world_ok (upd_sock s ?S ?W3)"
        proof (rule world_ok_upd [OF queued(2)])
          show "s < next_sock ?W3" using world_sock(2) [OF e(1), of s] S1 mp(3) by (simp add: upd_sock_def)
          show "sock_ok (next_pipe ?W3) ?S" using mp(4) by (simp add: sock_ok_def held_def upd_sock_def)
        next
          fix t T assume t: "t \<noteq> s" "socks ?W3 t = Some T"
          then show "rx_of ?S \<inter> rx_of T = {}"
            using rx queued(3) mp(2,6) mp(7) [of t T] mp(7) [of peer P] P
            by (cases "t = peer") (auto simp: upd_sock_def)
        qed
        obtain W5 where "attach_connection s local (upd_sock s ?S ?W3) = Some W5" "world_ok W5"
          using attach_connection_ok [OF ok4 mp(4)] by blast
        then show ?thesis using unfold queued(1) by (simp add: bind_opt_def)
      qed
    qed
  qed
qed

text \<open>A connected socket made from a connection that nobody else holds.\<close>

lemma connected_ok:
  assumes ok: "world_ok W" and c: "end_ok (next_pipe W) c"
    and fresh: "\<forall>t T. socks W t = Some T \<longrightarrow> c_rx c \<notin> rx_of T"
  obtains W' where "UnixStreamSocket_connected laddr c nb W = Some (next_sock W, W')" and "world_ok W'"
    and "socks W' = (socks W)(next_sock W := Some \<lparr>ss_state = kSockConnected, local_name = laddr, ss_v = VConnection c,
      ss_dent = None, ss_nonblocking = nb\<rparr>)"
    and "next_pipe W' = next_pipe W" and "stream_tbl W' = stream_tbl W"
proof -
  let ?S = "\<lparr>ss_state = kSockConnected, local_name = laddr, ss_v = VConnection c, ss_dent = None, ss_nonblocking = nb\<rparr>"
  let ?W1 = "W\<lparr>next_sock := next_sock W + 1\<rparr>"
  have ok1: "world_ok (upd_sock (next_sock W) ?S ?W1)"
  proof (rule world_ok_upd)
    show "world_ok ?W1" using ok by (force simp: world_ok_def)
    show "sock_ok (next_pipe ?W1) ?S" using c by (simp add: sock_ok_def held_def)
    show "rx_of ?S \<inter> rx_of T = {}" if "t \<noteq> next_sock W" "socks ?W1 t = Some T" for t T
      using that fresh by (simp add: rx_of_def held_def)
  qed simp
  obtain W' where W': "attach_connection (next_sock W) c (upd_sock (next_sock W) ?S ?W1) = Some W'" "world_ok W'"
    "socks W' = socks (upd_sock (next_sock W) ?S ?W1)" "next_pipe W' = next_pipe (upd_sock (next_sock W) ?S ?W1)"
    "stream_tbl W' = stream_tbl (upd_sock (next_sock W) ?S ?W1)"
    using attach_connection_ok [OF ok1 c] by blast
  show thesis
    by (rule that [of W']) (use W' in \<open>simp_all add: UnixStreamSocket_connected_def Let_def upd_sock_def\<close>)
qed

lemma us_Accept_ok:
  assumes ok: "world_ok W" and s: "socks W s = Some S"
  obtains (wait) "us_Accept s S nb i W = Some AcceptSleep"
  | (fail) e where "us_Accept s S nb i W = Some (AcceptReturn (Inl e) W)"
  | (new) l c q W' where "ss_v S = VListener l" and "accept_q l = c # q" and "end_ok (next_pipe W) c"
    and "us_Accept s S nb i W = Some (AcceptReturn (Inr (next_sock W, peer_name c)) W')" and "world_ok W'"
    and "socks W' = (socks W)(s := Some (S\<lparr>ss_v := VListener (l\<lparr>accept_q := q\<rparr>)\<rparr>),
      next_sock W := Some \<lparr>ss_state = kSockConnected, local_name = local_name S, ss_v = VConnection c,
        ss_dent = None, ss_nonblocking = nb\<rparr>)" and "stream_tbl W' = stream_tbl W"
proof (cases "ss_state S = kSockListening")
  case False
  then show ?thesis using that(2) by (simp add: us_Accept_def)
next
  case True
  note so = world_sock [OF ok s]
  obtain l where l: "ss_v S = VListener l" "Listener S = Some l" "held S = accept_q l"
    "int (length (accept_q l)) \<le> backlog l mod 2 ^ 64" using so(1) True by (rule listener_of)
  show ?thesis
  proof (cases "accept_q l")
    case Nil
    consider "ss_nonblocking S" | "\<not> ss_nonblocking S" "i" | "\<not> ss_nonblocking S" "\<not> i" by blast
    then show ?thesis using that(1,2) True l Nil by cases (simp_all add: us_Accept_def bind_opt_def)
  next
    case (Cons c q)
    let ?S = "S\<lparr>ss_v := VListener (l\<lparr>accept_q := q\<rparr>)\<rparr>"
    have held: "held ?S = q" using True by (simp add: held_def)
    have c: "end_ok (next_pipe W) c" and d: "c_rx c \<notin> c_rx ` set q" using so(1) l Cons by (auto simp: sock_ok_def)
    have okS: "sock_ok (next_pipe W) ?S"
      using so(1) True l Cons held by (auto simp: sock_ok_def)
    have ok1: "world_ok (upd_sock s ?S W)"
      by (rule world_ok_keep [OF ok s okS]) (use l Cons held in \<open>auto simp: rx_of_def\<close>)
    have fresh: "\<forall>t T. socks (upd_sock s ?S W) t = Some T \<longrightarrow> c_rx c \<notin> rx_of T"
    proof (intro allI impI)
      fix t T assume t: "socks (upd_sock s ?S W) t = Some T"
      have "c_rx c \<in> rx_of S" using l Cons by (simp add: rx_of_def)
      then show "c_rx c \<notin> rx_of T"
        using t world_disjoint [OF ok s, of t T] d held by (cases "t = s") (auto simp: upd_sock_def rx_of_def)
    qed
    have c1: "end_ok (next_pipe (upd_sock s ?S W)) c" using c by (simp add: upd_sock_def)
    obtain W2 where W2: "UnixStreamSocket_connected (local_name S) c nb (upd_sock s ?S W) = Some (next_sock (upd_sock s ?S W), W2)"
      "world_ok W2" "socks W2 = (socks (upd_sock s ?S W))(next_sock (upd_sock s ?S W) :=
        Some \<lparr>ss_state = kSockConnected, local_name = local_name S, ss_v = VConnection c, ss_dent = None, ss_nonblocking = nb\<rparr>)"
      "next_pipe W2 = next_pipe (upd_sock s ?S W)" "stream_tbl W2 = stream_tbl (upd_sock s ?S W)"
      by (rule connected_ok [OF ok1 c1 fresh])
    let ?W3 = "if q = [] then W2\<lparr>uw_poll := PollSource_Clear s kPollIn (uw_poll W2)\<rparr> else W2"
    have "world_ok ?W3" using world_ok_same [OF W2(2)] W2(2) by simp
    then show ?thesis
      using that(3) [of l c q ?W3] True l Cons c W2 by (auto simp: us_Accept_def bind_opt_def upd_sock_def)
  qed
qed

lemma us_Shutdown_good:
  assumes ok: "world_ok W" and s: "socks W s = Some S"
  shows "good (us_Shutdown s S how W)"
proof (cases "ss_state S = kSockListening")
  case True
  note so = world_sock [OF ok s]
  obtain l where l: "ss_v S = VListener l" "Listener S = Some l" "held S = accept_q l"
    "int (length (accept_q l)) \<le> backlog l mod 2 ^ 64" using so(1) True by (rule listener_of)
  let ?S = "S\<lparr>ss_v := VListener (l\<lparr>l_shutdown := True\<rparr>)\<rparr>"
  have held: "held ?S = held S" using True l by (simp add: held_def)
  have "world_ok (upd_sock s ?S (W\<lparr>uw_poll := w\<rparr>))" for w
    by (rule world_ok_keep [OF world_ok_same [OF ok], of _ s S])
      (use so(1) True l s held in \<open>auto simp: sock_ok_def rx_of_def\<close>)
  then show ?thesis using True l by (simp add: us_Shutdown_def bind_opt_def)
next
  case nl: False
  show ?thesis
  proof (cases "ss_state S = kSockConnected")
    case True
    obtain c where c: "Connection S = Some c" "end_ok (next_pipe W) c"
      using world_sock(1) [OF ok s] True connection_of by blast
    obtain r where r: "c_rx c = Some r" "c_tx c = Some (partner r)" using c(2) by (auto simp: end_ok_def)
    have one: "good (map_option (\<lambda>W'. (x, W')) (with_pipe (Some j) f W))" for x :: "unit Status" and j f
      using with_pipe_some [of j f W] world_ok_same [OF ok] by (metis good_simps(2) option.simps(9))
    have two: "good (map_option (\<lambda>W'. (x, W')) (bind_opt (with_pipe (c_rx c) f W) (with_pipe (c_tx c) g)))"
      for x :: "unit Status" and f g
      using with_pipe_two [OF c(2), of f W g] world_ok_same [OF ok] by (metis good_simps(2) option.simps(9))
    have eq: "us_Shutdown s S how W =
      (case how of
         SHUT_RD \<Rightarrow> map_option (\<lambda>W'. (Inr (), W')) (with_pipe (c_rx c) (CloseReader False) W)
       | SHUT_WR \<Rightarrow> map_option (\<lambda>W'. (Inr (), W')) (with_pipe (c_tx c) (CloseWriter False) W)
       | SHUT_RDWR \<Rightarrow> map_option (\<lambda>W'. (Inr (), W'))
           (bind_opt (with_pipe (c_rx c) (CloseReader False) W) (with_pipe (c_tx c) (CloseWriter False)))
       | SHUT_invalid \<Rightarrow> Some (Inl EINVAL, W))"
      using nl True c(1) by (simp add: us_Shutdown_def bind_opt_def)
    show ?thesis
    proof (cases how)
      case SHUT_RDWR
      then show ?thesis using eq two by simp
    qed (use eq one r ok in simp_all)
  qed (use nl ok in \<open>simp add: us_Shutdown_def\<close>)
qed

lemma us_destroy_ok:
  assumes ok: "world_ok W" and s: "socks W s = Some S"
  shows "\<exists>W'. us_destroy s S W = Some W' \<and> world_ok W' \<and> socks W' = (socks W)(s := None) \<and>
    (ss_dent S = None \<and> snd (local_name S) \<noteq> [] \<longrightarrow> stream_tbl W' (snd (local_name S)) = None)"
proof -
  define W1 where "W1 = W\<lparr>socks := (socks W)(s := None)\<rparr>"
  define W2 where "W2 = (if ss_dent S \<noteq> None then W1
    else if length (snd (local_name S)) > 0 then tbl_Delete (snd (local_name S)) W1 else W1)"
  have W2: "socks W2 = (socks W)(s := None)" "next_sock W2 = next_sock W" "next_pipe W2 = next_pipe W"
    "ss_dent S = None \<and> snd (local_name S) \<noteq> [] \<longrightarrow> stream_tbl W2 (snd (local_name S)) = None"
    by (simp_all add: W2_def W1_def tbl_Delete_def)
  have "world_ok W1" unfolding W1_def by (rule world_ok_drop [OF ok])
  then have ok2: "world_ok W2" by (rule world_ok_same) (simp_all add: W2 W1_def)
  have eq: "us_destroy s S W = (if ss_state S = kSockConnected then bind_opt (Connection S) (\<lambda>c. close_connection c True W2)
         else if ss_state S = kSockListening then bind_opt (Listener S) (\<lambda>l. close_all (accept_q l) W2)
         else Some W2)" by (simp add: us_destroy_def Let_def W2_def W1_def)
  note so = world_sock(1) [OF ok s]
  have "\<exists>W'. us_destroy s S W = Some W' \<and> socks W' = socks W2 \<and> next_sock W' = next_sock W2 \<and> next_pipe W' = next_pipe W2 \<and>
    stream_tbl W' = stream_tbl W2"
  proof (cases "ss_state S")
    case kSockConnected
    obtain c where c: "Connection S = Some c" "end_ok (next_pipe W) c" using so kSockConnected connection_of by blast
    then show ?thesis
      using eq kSockConnected with_pipe_two [OF c(2), of "CloseReader True" W2 "CloseWriter True"]
      by (simp add: close_connection_def bind_opt_def) metis
  next
    case kSockListening
    obtain l where l: "Listener S = Some l" "held S = accept_q l" using so kSockListening listener_of by blast
    then have "\<forall>c \<in> set (accept_q l). end_ok (next_pipe W) c" using so by (simp add: sock_ok_def)
    from close_all_some [OF this, of W2] show ?thesis using eq kSockListening l by (simp add: bind_opt_def)
  qed (use eq in simp_all)
  then show ?thesis using W2 world_ok_same [OF ok2] by metis
qed

lemma stream_socketpair_good:
  assumes ok: "world_ok W"
  shows "good (stream_socketpair nb W)"
proof -
  obtain c1 c2 W1 where m: "MakeStreamPair unnamed unnamed W = ((c1, c2), W1)" by (metis prod.exhaust)
  note mp = MakeStreamPair_ok [OF ok m]
  have f1: "\<forall>t T. socks W1 t = Some T \<longrightarrow> c_rx c1 \<notin> rx_of T" using mp(2,7) by simp
  obtain W2 where W2: "UnixStreamSocket_connected unnamed c1 nb W1 = Some (next_sock W1, W2)" "world_ok W2"
    "socks W2 = (socks W1)(next_sock W1 := Some \<lparr>ss_state = kSockConnected, local_name = unnamed, ss_v = VConnection c1,
      ss_dent = None, ss_nonblocking = nb\<rparr>)" "next_pipe W2 = next_pipe W1"
    using connected_ok [OF mp(1,4) f1] by metis
  have e2: "end_ok (next_pipe W2) c2" using W2(4) mp(5) by simp
  have f2: "\<forall>t T. socks W2 t = Some T \<longrightarrow> c_rx c2 \<notin> rx_of T"
    using W2(3) mp(2,6,7) by (auto simp: rx_of_def held_def split: if_splits)
  obtain W3 where "UnixStreamSocket_connected unnamed c2 nb W2 = Some (next_sock W2, W3)" "world_ok W3"
    using connected_ok [OF W2(2) e2 f2] by metis
  then show ?thesis using m W2 by (simp add: stream_socketpair_def bind_opt_def)
qed

subsection \<open>Reachable worlds\<close>

definition unix_init :: UnixWorld where
  "unix_init = \<lparr>socks = \<lambda>_. None, stream_tbl = \<lambda>_. None, pipes = \<lambda>_. WaitableChannel_new (ByteChannel_new kStreamPipeSize),
     next_sock = 0, next_pipe = 0, uw_poll = pw_init\<rparr>"

inductive unix_reach :: "UnixWorld \<Rightarrow> bool" where
  init: "unix_reach unix_init"
| create: "unix_reach W \<Longrightarrow> unix_reach (upd_sock (next_sock W) (UnixStreamSocket_new nb) (W\<lparr>next_sock := next_sock W + 1\<rparr>))"
| bind: "unix_reach W \<Longrightarrow> socks W s = Some S \<Longrightarrow> us_Bind s S a insert_to W = (r, W') \<Longrightarrow> unix_reach W'"
| listen: "unix_reach W \<Longrightarrow> socks W s = Some S \<Longrightarrow> us_Listen s S bl rnd W = (r, W') \<Longrightarrow> unix_reach W'"
| connect: "unix_reach W \<Longrightarrow> socks W s = Some S \<Longrightarrow> us_Connect s S a path_sock rnd W = Some (r, W') \<Longrightarrow> unix_reach W'"
| accept: "unix_reach W \<Longrightarrow> socks W s = Some S \<Longrightarrow> us_Accept s S nb i W = Some (AcceptReturn ar W') \<Longrightarrow> unix_reach W'"
| shutdown: "unix_reach W \<Longrightarrow> socks W s = Some S \<Longrightarrow> us_Shutdown s S how W = Some (r, W') \<Longrightarrow> unix_reach W'"
| receive: "unix_reach W \<Longrightarrow> socks W s = Some S \<Longrightarrow> us_ReadFrom fuel S len peek nb i W = Some (rr, W') \<Longrightarrow> unix_reach W'"
| send: "unix_reach W \<Longrightarrow> socks W s = Some S \<Longrightarrow> us_WriteTo fuel S buf ra nb i W = Some (wr, W') \<Longrightarrow> unix_reach W'"
| destroy: "unix_reach W \<Longrightarrow> socks W s = Some S \<Longrightarrow> us_destroy s S W = Some W' \<Longrightarrow> unix_reach W'"
| pair: "unix_reach W \<Longrightarrow> stream_socketpair nb W = Some (sp, W') \<Longrightarrow> unix_reach W'"

lemma us_ReadFrom_ok:
  assumes "world_ok W" and "us_ReadFrom fuel S len peek nb i W = Some (r, W')"
  shows "world_ok W'"
  using assms by (auto simp: us_ReadFrom_def bind_opt_def split: if_splits option.splits intro: world_ok_same)

lemma us_WriteTo_ok:
  assumes "world_ok W" and "us_WriteTo fuel S buf ra nb i W = Some (r, W')"
  shows "world_ok W'"
  using assms by (auto simp: us_WriteTo_def bind_opt_def split: if_splits option.splits intro: world_ok_same)

lemma unix_reach_ok: "unix_reach W \<Longrightarrow> world_ok W"
proof (induction rule: unix_reach.induct)
  case init
  then show ?case by (simp add: world_ok_def unix_init_def)
next
  case (create W nb)
  then show ?case using us_new_ok by blast
next
  case (bind W s S a insert_to r W')
  then show ?case using us_Bind_ok [of W s S a insert_to] by simp
next
  case (listen W s S bl rnd r W')
  then show ?case using us_Listen_ok [of W s S bl rnd] by simp
next
  case (connect W s S a path_sock rnd r W')
  then show ?case using us_Connect_good [of W s S a path_sock rnd] by simp
next
  case (accept W s S nb i ar W')
  show ?case by (rule us_Accept_ok [OF accept.IH accept.hyps(2), of nb i]) (use accept in auto)
next
  case (shutdown W s S how r W')
  then show ?case using us_Shutdown_good [of W s S how] by simp
next
  case (receive W s S fuel len peek nb i rr W')
  then show ?case using us_ReadFrom_ok by blast
next
  case (send W s S fuel buf ra nb i wr W')
  then show ?case using us_WriteTo_ok by blast
next
  case (destroy W s S W')
  then show ?case using us_destroy_ok [of W s S] by auto
next
  case (pair W nb sp W')
  then show ?case using stream_socketpair_good [of W nb] by simp
qed


text \<open>Two connected sockets.\<close>

definition unix_pair :: UnixWorld where
  "unix_pair = snd (the (stream_socketpair False unix_init))"

lemma unix_pair_reach: "unix_reach unix_pair" "stream_socketpair False unix_init = Some ((0, 1), unix_pair)"
proof -
  show eq: "stream_socketpair False unix_init = Some ((0, 1), unix_pair)"
    by (simp add: unix_pair_def stream_socketpair_def MakeStreamPair_def UnixStreamSocket_connected_def attach_connection_def
        with_pipe_def bind_opt_def Let_def unix_init_def upd_sock_def AttachReadPoll_def AttachWritePoll_def)
  show "unix_reach unix_pair" by (rule unix_reach.pair [OF unix_reach.init eq])
qed

lemma unix_pair_socks:
  "socks unix_pair 0 = Some \<lparr>ss_state = kSockConnected, local_name = unnamed,
     ss_v = VConnection \<lparr>peer_name = unnamed, c_rx = Some 0, c_tx = Some 1\<rparr>, ss_dent = None, ss_nonblocking = False\<rparr>"
  "socks unix_pair (Suc 0) = Some \<lparr>ss_state = kSockConnected, local_name = unnamed,
     ss_v = VConnection \<lparr>peer_name = unnamed, c_rx = Some 1, c_tx = Some 0\<rparr>, ss_dent = None, ss_nonblocking = False\<rparr>"
  by (simp_all add: unix_pair_def stream_socketpair_def MakeStreamPair_def UnixStreamSocket_connected_def attach_connection_def
      with_pipe_def bind_opt_def Let_def unix_init_def upd_sock_def AttachReadPoll_def AttachWritePoll_def)


text \<open>
  An accepted socket takes over the name of the listener, and its destructor removes that name from the
  table: after the first accepted connection is closed, the listener, still listening under its abstract
  name, is not found any more and connecting to it is refused.
\<close>

theorem accepted_close_unregisters:
  assumes W: "unix_reach W" "socks W s = Some S" and name: "local_name S = (Abstract, n)" "n \<noteq> []"
    and acc: "us_Accept s S nb i W = Some (AcceptReturn (Inr (t, peer)) W1)"
  shows "\<exists>T W2. socks W1 t = Some T \<and> us_destroy t T W1 = Some W2 \<and>
    map_option ss_state (socks W2 s) = Some kSockListening \<and> GetPeer path_sock (Abstract, n) W2 = Inl ECONNREFUSED"
proof (rule us_Accept_ok [OF unix_reach_ok [OF W(1)] W(2), of nb i])
  fix l c q W'
  assume l: "ss_v S = VListener l" "accept_q l = c # q"
    and a: "us_Accept s S nb i W = Some (AcceptReturn (Inr (next_sock W, peer_name c)) W')" and ok: "world_ok W'"
    and sk: "socks W' = (socks W)(s := Some (S\<lparr>ss_v := VListener (l\<lparr>accept_q := q\<rparr>)\<rparr>),
      next_sock W := Some \<lparr>ss_state = kSockConnected, local_name = local_name S, ss_v = VConnection c,
        ss_dent = None, ss_nonblocking = nb\<rparr>)"
  let ?T = "\<lparr>ss_state = kSockConnected, local_name = local_name S, ss_v = VConnection c, ss_dent = None, ss_nonblocking = nb\<rparr>"
  have t: "t = next_sock W" "W1 = W'" using a acc by auto
  have T: "socks W' t = Some ?T" using sk t by simp
  have st: "ss_state S = kSockListening"
    using world_sock(1) [OF unix_reach_ok [OF W(1)] W(2)] l by (simp add: sock_ok_def)
  have ne: "s \<noteq> t" using world_sock(2) [OF unix_reach_ok [OF W(1)] W(2)] t by simp
  obtain W2 where d: "us_destroy t ?T W' = Some W2" "socks W2 = (socks W')(t := None)" "stream_tbl W2 n = None"
    using us_destroy_ok [OF ok T] name by auto
  have "map_option ss_state (socks W2 s) = Some kSockListening" using d(2) ne sk st t by simp
  moreover have "GetPeer path_sock (Abstract, n) W2 = Inl ECONNREFUSED" using d(3) by (simp add: GetPeer_def tbl_Find_def)
  ultimately show ?thesis using T d(1) t(2) by blast
qed (use acc in simp_all)

text \<open>A listener under the abstract name \<^verbatim>\<open>a\<close> with one connection waiting.\<close>

definition no_insert :: "string \<Rightarrow> nat Status" where "no_insert name = Inl EINVAL"
definition no_path :: "string \<Rightarrow> nat option" where "no_path name = None"

definition demo_listening :: UnixWorld where
  "demo_listening =
     (let W0 = upd_sock 0 (UnixStreamSocket_new False) (unix_init\<lparr>next_sock := 1\<rparr>);
          W1 = snd (us_Bind 0 (UnixStreamSocket_new False) (Inr (Abstract, ''a'')) no_insert W0);
          W2 = snd (us_Listen 0 (the (socks W1 0)) 5 [] W1)
      in upd_sock 1 (UnixStreamSocket_new False) (W2\<lparr>next_sock := 2\<rparr>))"

definition demo_queued :: UnixWorld where
  "demo_queued = snd (the (us_Connect 1 (UnixStreamSocket_new False) (Inr (Abstract, ''a'')) no_path [Some [1]] demo_listening))"

lemmas demo_eval = us_Bind_def us_Listen_def ensure_name_def has_name_def UnixStreamSocket_new_def unix_init_def upd_sock_def
  tbl_Insert_def unnamed_def Let_def

lemma demo_listening_fields:
  "socks demo_listening = [0 \<mapsto> \<lparr>ss_state = kSockListening, local_name = (Abstract, ''a''),
     ss_v = VListener \<lparr>backlog = 5, l_shutdown = False, accept_q = []\<rparr>, ss_dent = None, ss_nonblocking = False\<rparr>,
     1 \<mapsto> UnixStreamSocket_new False]"
  "stream_tbl demo_listening = [''a'' \<mapsto> 0]" "next_sock demo_listening = 2" "next_pipe demo_listening = 0"
  by (simp_all add: demo_listening_def demo_eval)

lemma demo_listening_reach: "unix_reach demo_listening"
proof -
  let ?W0 = "upd_sock 0 (UnixStreamSocket_new False) (unix_init\<lparr>next_sock := 1\<rparr>)"
  have r0: "unix_reach ?W0" using unix_reach.create [OF unix_reach.init, of False] by (simp add: unix_init_def)
  let ?b = "us_Bind 0 (UnixStreamSocket_new False) (Inr (Abstract, ''a'')) no_insert ?W0"
  have r1: "unix_reach (snd ?b)"
    by (rule unix_reach.bind [OF r0, of 0 "UnixStreamSocket_new False" _ no_insert "fst ?b"]) (simp_all add: upd_sock_def)
  obtain S where S: "socks (snd ?b) 0 = Some S" by (simp add: demo_eval)
  let ?l = "us_Listen 0 S 5 [] (snd ?b)"
  have r2: "unix_reach (snd ?l)" by (rule unix_reach.listen [OF r1 S, of 5 "[]" "fst ?l"]) simp
  have n: "next_sock (snd ?l) = 1" using S by (auto simp: demo_eval)
  show ?thesis using unix_reach.create [OF r2, of False] n S by (simp add: demo_listening_def Let_def numeral_2_eq_2)
qed

lemma char_b: "char_of (98 :: nat) = CHR ''b''"
  by (simp add: char_of_def bit_0)

lemmas connect_eval = us_Connect_def GetPeer_def tbl_Find_def demo_listening_fields ensure_name_def has_name_def
  UnixStreamSocket_new_def unnamed_def tbl_Insert_def random_name_def char_b MakeStreamPair_def Let_def EnqueueConnection_def
  bind_opt_def upd_sock_def Listener_def attach_connection_def with_pipe_def AttachReadPoll_def AttachWritePoll_def

lemma demo_connect:
  "us_Connect 1 (UnixStreamSocket_new False) (Inr (Abstract, ''a'')) no_path [Some [1]] demo_listening = Some (Inr (), demo_queued)"
proof -
  have r: "good (us_Connect 1 (UnixStreamSocket_new False) (Inr (Abstract, ''a'')) no_path [Some [1]] demo_listening)"
    by (rule us_Connect_good [OF unix_reach_ok [OF demo_listening_reach]]) (simp add: demo_listening_fields)
  then obtain x W where "us_Connect 1 (UnixStreamSocket_new False) (Inr (Abstract, ''a'')) no_path [Some [1]] demo_listening = Some (x, W)"
    by (auto simp: good_def split: option.splits)
  moreover have "fst (the (us_Connect 1 (UnixStreamSocket_new False) (Inr (Abstract, ''a'')) no_path [Some [1]] demo_listening)) = Inr ()"
    by (simp add: connect_eval)
  ultimately show ?thesis by (simp add: demo_queued_def)
qed

lemma demo_queued_reach: "unix_reach demo_queued"
  by (rule unix_reach.connect [OF demo_listening_reach _ demo_connect]) (simp add: demo_listening_fields)

definition demo_listener :: UnixStreamSocket where
  "demo_listener = \<lparr>ss_state = kSockListening, local_name = (Abstract, ''a''),
     ss_v = VListener \<lparr>backlog = 5, l_shutdown = False,
       accept_q = [\<lparr>peer_name = (Abstract, ''b''), c_rx = Some 1, c_tx = Some 0\<rparr>]\<rparr>, ss_dent = None, ss_nonblocking = False\<rparr>"

lemma demo_queued_sock: "socks demo_queued 0 = Some demo_listener" "next_sock demo_queued = 2"
  by (simp_all add: demo_queued_def demo_listener_def connect_eval)

definition demo_accepted :: UnixWorld where
  "demo_accepted = (case us_Accept 0 demo_listener False False demo_queued of Some (AcceptReturn r W) \<Rightarrow> W | _ \<Rightarrow> demo_queued)"

lemma demo_accept: "us_Accept 0 demo_listener False False demo_queued = Some (AcceptReturn (Inr (2, (Abstract, ''b''))) demo_accepted)"
proof (rule us_Accept_ok [OF unix_reach_ok [OF demo_queued_reach] demo_queued_sock(1), of False False])
  fix l c q W' assume a: "ss_v demo_listener = VListener l" "accept_q l = c # q"
    "us_Accept 0 demo_listener False False demo_queued = Some (AcceptReturn (Inr (next_sock demo_queued, peer_name c)) W')"
  then have "peer_name c = (Abstract, ''b'')" by (auto simp: demo_listener_def)
  then show ?thesis using a(3) by (simp add: demo_accepted_def demo_queued_sock)
qed (simp_all add: us_Accept_def demo_listener_def Listener_def bind_opt_def split: option.splits prod.splits)

theorem accepted_close_unregisters_witness:
  "\<exists>T W2. socks demo_accepted 2 = Some T \<and> us_destroy 2 T demo_accepted = Some W2 \<and>
    map_option ss_state (socks W2 0) = Some kSockListening \<and> GetPeer no_path (Abstract, ''a'') W2 = Inl ECONNREFUSED"
  by (rule accepted_close_unregisters [OF demo_queued_reach demo_queued_sock(1) _ _ demo_accept])
    (simp_all add: demo_listener_def)

end
