(* ===== verification/Seccomp.thy ===== *)
theory Seccomp
  imports Prelude
begin

text \<open>
  The system call filter (\<^verbatim>\<open>src/junction/syscall/seccomp_bpf.h\<close>, \<^verbatim>\<open>src/junction/syscall/seccomp.cc\<close>).

  The macros of the header assemble programs for the packet filter machine of the kernel.  An instruction
  is a constructor with its operands; a program runs by recursion over the instructions that are left, since
  all jumps go forward.  The blocks, the assembly of the filter from the configuration, its installation
  and the handler of the signal that a refused call raises follow the sources.  The link-time addresses of
  the two code regions are a record; the results of the host's calls, the entry \<open>ksys_default\<close> and the
  table of call names are parameters.

  The theorems say which calls a finished filter lets through and what happens to the others.
\<close>

section \<open>The filter machine\<close>

record seccomp_data =
  sd_nr :: u32
  sd_arch :: u32
  instruction_pointer :: u64

text \<open>The instructions the macros use: load a word of \<open>seccomp_data\<close>, compare and jump, return.\<close>

datatype sock_filter =
    LD_W_ABS nat
  | JEQ_K u32 nat nat
  | JGE_K u32 nat nat
  | JGT_K u32 nat nat
  | RET_K u32

definition lo32 :: "u64 \<Rightarrow> u32" where "lo32 a = ucast a"

definition hi32 :: "u64 \<Rightarrow> u32" where "hi32 a = ucast (drop_bit 32 a)"

definition syscall_nr :: nat where "syscall_nr = 0"
definition arch_nr :: nat where "arch_nr = 4"
definition ip_lsb :: nat where "ip_lsb = 8"
definition ip_msb :: nat where "ip_msb = 12"

definition bpf_load :: "seccomp_data \<Rightarrow> nat \<Rightarrow> u32 option" where
  "bpf_load d off =
     (if off = syscall_nr then Some (sd_nr d)
      else if off = arch_nr then Some (sd_arch d)
      else if off = ip_lsb then Some (lo32 (instruction_pointer d))
      else if off = ip_msb then Some (hi32 (instruction_pointer d))
      else None)"

text \<open>A run that falls off the end of the program has no result.\<close>

function bpf_run :: "sock_filter list \<Rightarrow> u32 \<Rightarrow> seccomp_data \<Rightarrow> u32 option" where
  "bpf_run [] A d = None"
| "bpf_run (LD_W_ABS off # p) A d = (case bpf_load d off of None \<Rightarrow> None | Some v \<Rightarrow> bpf_run p v d)"
| "bpf_run (JEQ_K k jt jf # p) A d = bpf_run (drop (if A = k then jt else jf) p) A d"
| "bpf_run (JGE_K k jt jf # p) A d = bpf_run (drop (if k \<le> A then jt else jf) p) A d"
| "bpf_run (JGT_K k jt jf # p) A d = bpf_run (drop (if k < A then jt else jf) p) A d"
| "bpf_run (RET_K k # p) A d = Some k"
  by pat_completeness auto
termination
  by (relation "measure (\<lambda>(p, A, d). length p)") auto

section \<open>The blocks\<close>

definition SECCOMP_RET_KILL :: u32 where "SECCOMP_RET_KILL = 0"
definition SECCOMP_RET_TRAP :: u32 where "SECCOMP_RET_TRAP = 0x30000"
definition SECCOMP_RET_ALLOW :: u32 where "SECCOMP_RET_ALLOW = 0x7fff0000"

text \<open>The code regions: the calls of \<^verbatim>\<open>ksys.S\<close> and those of the runtime.\<close>

record seccomp_layout =
  ksys_start :: u64
  ksys_end :: u64
  base_syscall_start :: u64
  base_syscall_end :: u64

definition ALLOW_JUNCTION_SYSCALL :: "seccomp_layout \<Rightarrow> u32 \<Rightarrow> sock_filter list" where
  "ALLOW_JUNCTION_SYSCALL L nr =
     [LD_W_ABS syscall_nr, JEQ_K nr 0 11,
      LD_W_ABS ip_msb,
      JGE_K (hi32 (ksys_start L)) 0 9,
      LD_W_ABS ip_lsb,
      JGE_K (lo32 (ksys_start L)) 0 7,
      LD_W_ABS ip_msb,
      JGT_K (hi32 (ksys_end L)) 5 0,
      JEQ_K (hi32 (ksys_end L)) 1 0,
      RET_K SECCOMP_RET_ALLOW,
      LD_W_ABS ip_lsb,
      JGT_K (lo32 (ksys_end L)) 1 0,
      RET_K SECCOMP_RET_ALLOW]"

definition ALLOW_CALADAN_SYSCALL :: "seccomp_layout \<Rightarrow> u32 \<Rightarrow> sock_filter list" where
  "ALLOW_CALADAN_SYSCALL L nr =
     [LD_W_ABS syscall_nr, JEQ_K nr 0 11,
      LD_W_ABS ip_msb,
      JGE_K (hi32 (base_syscall_start L)) 0 9,
      LD_W_ABS ip_lsb,
      JGE_K (lo32 (base_syscall_start L)) 0 7,
      LD_W_ABS ip_msb,
      JGT_K (hi32 (base_syscall_end L)) 5 0,
      JEQ_K (hi32 (base_syscall_end L)) 1 0,
      RET_K SECCOMP_RET_ALLOW,
      LD_W_ABS ip_lsb,
      JGT_K (lo32 (base_syscall_end L)) 1 0,
      RET_K SECCOMP_RET_ALLOW]"

definition ALLOW_ANY_JUNCTION_SYSCALL :: "seccomp_layout \<Rightarrow> sock_filter list" where
  "ALLOW_ANY_JUNCTION_SYSCALL L =
     [LD_W_ABS ip_msb,
      JGE_K (hi32 (ksys_start L)) 0 8,
      LD_W_ABS ip_lsb,
      JGE_K (lo32 (ksys_start L)) 0 6,
      LD_W_ABS ip_msb,
      JGT_K (hi32 (ksys_end L)) 4 0,
      JEQ_K (hi32 (ksys_end L)) 0 3,
      LD_W_ABS ip_lsb,
      JGT_K (lo32 (ksys_end L)) 1 0,
      RET_K SECCOMP_RET_ALLOW]"

definition TRAP :: "sock_filter list" where
  "TRAP = [RET_K SECCOMP_RET_TRAP]"

section \<open>Assembling the filter\<close>

text \<open>The call numbers of the tables, with their values for x86-64.\<close>

definition caladan_nrs :: "u32 list" where
  "caladan_nrs = [16, 9, 28, 10, 231, 328, 20]"

definition writeable_linux_fs_nrs :: "u32 list" where
  "writeable_linux_fs_nrs = [258, 265, 263, 316, 266, 76]"

definition uncached_linux_fs_nrs :: "u32 list" where
  "uncached_linux_fs_nrs = [217, 262, 267]"

definition NR_tgkill :: u32 where "NR_tgkill = 234"

definition NR_rt_sigreturn :: u32 where "NR_rt_sigreturn = 15"

text \<open>The options of the build (\<open>PERMISSIVE_SECCOMP\<close>, \<open>WRITEABLE_LINUX_FS\<close>, \<open>FUNCTION_PROFILING\<close>) and of
  the run.\<close>

record seccomp_config =
  permissive_seccomp :: bool
  writeable_linux_fs :: bool
  function_profiling :: bool
  cache_linux_fs :: bool
  uintr_enabled :: bool

definition junction_core_nrs :: "seccomp_config \<Rightarrow> u32 list" where
  "junction_core_nrs cfg =
     [9, 11, 10, 28, 257, 3, 327, 17, 231] @ (if function_profiling cfg then [298] else [])"

definition caladan_filter :: "seccomp_layout \<Rightarrow> sock_filter list" where
  "caladan_filter L = concat (map (ALLOW_CALADAN_SYSCALL L) caladan_nrs)"

definition writeable_filter :: "seccomp_layout \<Rightarrow> sock_filter list" where
  "writeable_filter L = concat (map (ALLOW_JUNCTION_SYSCALL L) writeable_linux_fs_nrs)"

definition uncached_filter :: "seccomp_layout \<Rightarrow> sock_filter list" where
  "uncached_filter L = concat (map (ALLOW_JUNCTION_SYSCALL L) uncached_linux_fs_nrs)"

definition junction_core :: "seccomp_config \<Rightarrow> seccomp_layout \<Rightarrow> sock_filter list" where
  "junction_core cfg L = concat (map (ALLOW_JUNCTION_SYSCALL L) (junction_core_nrs cfg))"

text \<open>An instruction takes eight bytes.\<close>

definition filterMax :: "seccomp_config \<Rightarrow> seccomp_layout \<Rightarrow> nat" where
  "filterMax cfg L =
     8 * length (caladan_filter L) + 8 * length (writeable_filter L) +
     8 * length (uncached_filter L) + 8 * length (ALLOW_ANY_JUNCTION_SYSCALL L) +
     8 * length (ALLOW_JUNCTION_SYSCALL L NR_tgkill) + 8 * length TRAP +
     8 * length (junction_core cfg L) + 8 * length (ALLOW_CALADAN_SYSCALL L NR_rt_sigreturn)"

definition addFilter :: "nat \<Rightarrow> sock_filter list \<Rightarrow> sock_filter list \<Rightarrow> sock_filter list option" where
  "addFilter fmax newf buf =
     (if 8 * length buf + 8 * length newf > fmax then None else Some (buf @ newf))"

fun addFilters :: "nat \<Rightarrow> sock_filter list list \<Rightarrow> sock_filter list \<Rightarrow> sock_filter list option" where
  "addFilters fmax [] buf = Some buf"
| "addFilters fmax (f # fs) buf =
     (case addFilter fmax f buf of None \<Rightarrow> None | Some buf' \<Rightarrow> addFilters fmax fs buf')"

definition filter_parts :: "seccomp_config \<Rightarrow> seccomp_layout \<Rightarrow> sock_filter list list" where
  "filter_parts cfg L =
     [caladan_filter L] @
     (if permissive_seccomp cfg then [ALLOW_ANY_JUNCTION_SYSCALL L]
      else [junction_core cfg L] @
        (if writeable_linux_fs cfg then [writeable_filter L] else []) @
        (if \<not> cache_linux_fs cfg then [uncached_filter L] else []) @
        (if \<not> uintr_enabled cfg
         then [ALLOW_CALADAN_SYSCALL L NR_rt_sigreturn, ALLOW_JUNCTION_SYSCALL L NR_tgkill] else [])) @
     [TRAP]"

text \<open>
  \<open>install_seccomp_filter\<close> takes the results of the two host calls and the error number after the first one.
  \<open>None\<close> is the exception of \<open>addFilter\<close>; a success carries the program the kernel is given, whose
  length is cut to 16 bits.
\<close>

definition install_seccomp_filter ::
    "seccomp_config \<Rightarrow> seccomp_layout \<Rightarrow> int \<Rightarrow> int \<Rightarrow> int \<Rightarrow> (sock_filter list Status) option" where
  "install_seccomp_filter cfg L prctl_rv host_errno seccomp_rv =
     (case addFilters (filterMax cfg L) (filter_parts cfg L) [] of
        None \<Rightarrow> None
      | Some buf \<Rightarrow>
          if prctl_rv \<noteq> 0 then Some (Inl (- host_errno))
          else if seccomp_rv \<noteq> 0 then Some (Inl seccomp_rv)
          else Some (Inr (take (length buf mod 2 ^ 16) buf)))"

section \<open>The signal handler\<close>

text \<open>The registers of the interrupted context the handler reads.\<close>

record trap_ctx =
  rax :: u64
  rip :: u64
  rsp :: u64
  call_args :: "u64 list"

text \<open>What the handler asks of the runtime and of the configuration.\<close>

record trap_env =
  preempt_enabled :: bool
  thread_self :: bool
  IsJunctionThread :: bool
  in_kernel :: bool
  zpoline :: bool

text \<open>
  How the handler ends: it exits the process, returns to the context with a new \<open>rax\<close>, restores another signal
  frame, or enters the kernel with the number of the call, in the last case after overwriting the two bytes
  of the instruction before \<open>rip\<close>.
\<close>

datatype trap_action =
    TrapExit int
  | TrapReturn u64
  | TrapSigreturn u64
  | TrapEnter u64
  | TrapPatchEnter u64 u64

text \<open>The message is put together in a buffer of 128 bytes; \<open>None\<close> is an overrun or the failed check.\<close>

definition log_syscall_msg :: "(u64 \<Rightarrow> string) \<Rightarrow> string \<Rightarrow> u64 \<Rightarrow> string option" where
  "log_syscall_msg syscall_names msg_needed sysn =
     (if length msg_needed + 2 > 128 \<or> length msg_needed + 2 + length (syscall_names sysn) + 2 > 128 then None
      else Some (msg_needed @ '' ('' @ syscall_names sysn @ '')'' @ [CHR 0x0A]))"

definition SYS_SECCOMP :: int where "SYS_SECCOMP = 1"
definition NR_brk :: u64 where "NR_brk = 12"
definition SYS_rt_sigreturn :: u64 where "SYS_rt_sigreturn = 15"

definition log_then :: "(u64 \<Rightarrow> string) \<Rightarrow> string \<Rightarrow> u64 \<Rightarrow> 'a \<Rightarrow> 'a option" where
  "log_then names msg sysn r = (case log_syscall_msg names msg sysn of None \<Rightarrow> None | Some _ \<Rightarrow> Some r)"

text \<open>
  The handler, with the static flag \<open>once\<close> as its state.  The assertion on the call number is the last
  \<open>None\<close>.
\<close>

definition trap_libc ::
    "seccomp_layout \<Rightarrow> (u64 list \<Rightarrow> u64 \<Rightarrow> u64) \<Rightarrow> (u64 \<Rightarrow> string) \<Rightarrow> trap_ctx \<Rightarrow> trap_action option" where
  "trap_libc L ksys_default names ctx =
     (if rip ctx \<ge> ksys_start L \<and> rip ctx < ksys_end L
      then log_then names ''blocked syscall (likely from inside Junction's libc): '' (rax ctx)
             (TrapReturn (- of_int ENOSYS))
      else if rax ctx = NR_brk then Some (TrapReturn 0)
      else Some (TrapReturn (ksys_default (take 6 (call_args ctx)) (rax ctx))))"

definition syscall_trap_handler ::
    "seccomp_layout \<Rightarrow> (u64 list \<Rightarrow> u64 \<Rightarrow> u64) \<Rightarrow> (u64 \<Rightarrow> string) \<Rightarrow> trap_env \<Rightarrow> int \<Rightarrow> trap_ctx option \<Rightarrow> bool
     \<Rightarrow> (trap_action \<times> bool) option" where
  "syscall_trap_handler L ksys_default names env si_code void_context once =
     (if si_code \<noteq> SYS_SECCOMP
      then log_then names ''Unexpected signal delivered to syscall handler'' 0 (TrapExit (- 1), once)
      else case void_context of
        None \<Rightarrow> log_then names ''Missing context in syscall handler'' 0 (TrapExit (- 1), once)
      | Some ctx \<Rightarrow>
          if \<not> preempt_enabled env
          then (case (if \<not> once then log_then names ''Trapped a Junction libc internal syscall '' (rax ctx) ()
                      else Some ()) of
                  None \<Rightarrow> None
                | Some _ \<Rightarrow> map_option (\<lambda>a. (a, True)) (trap_libc L ksys_default names ctx))
          else if \<not> thread_self env
          then log_then names ''Unexpected syscall from Caladan'' (rax ctx) (TrapExit (- 1), once)
          else if \<not> IsJunctionThread env
          then log_then names ''Intercepted syscall originating in junction'' (rax ctx) (TrapExit (- 1), once)
          else if in_kernel env
          then log_then names ''Unexpected syscall while in_kernel'' (rax ctx) (TrapExit (- 1), once)
          else if rax ctx = SYS_rt_sigreturn then Some (TrapSigreturn (rsp ctx), once)
          else if \<not> rax ctx < 4096 then None
          else if zpoline env then Some (TrapPatchEnter (rip ctx - 2) (rax ctx), once)
          else Some (TrapEnter (rax ctx), once))"

section \<open>What a block lets through\<close>

text \<open>The comparison by halves that the blocks make, and the interval it stands for.\<close>

definition in_window :: "u64 \<Rightarrow> u64 \<Rightarrow> u64 \<Rightarrow> bool" where
  "in_window s e ip \<longleftrightarrow>
     hi32 s \<le> hi32 ip \<and> lo32 s \<le> lo32 ip \<and>
     (hi32 ip < hi32 e \<or> hi32 ip = hi32 e \<and> lo32 ip \<le> lo32 e)"

lemma split_32:
  fixes a :: u64
  shows "unat a = unat (hi32 a) * 2 ^ 32 + unat (lo32 a)"
proof -
  have h: "unat (hi32 a) = unat a div 2 ^ 32"
    using unat_lt_64 [of a]
    by (simp add: hi32_def unsigned_ucast_eq unat_div drop_bit_eq_div take_bit_eq_mod)
  have l: "unat (lo32 a) = unat a mod 2 ^ 32"
    by (simp add: lo32_def unsigned_ucast_eq take_bit_eq_mod)
  show ?thesis unfolding h l by simp
qed

definition in_region :: "u64 \<Rightarrow> u64 \<Rightarrow> u64 \<Rightarrow> bool" where
  "in_region s e ip \<longleftrightarrow> s \<le> ip \<and> ip \<le> e"

lemma in_window_region: "in_window s e ip \<Longrightarrow> in_region s e ip"
  using split_32 [of s] split_32 [of e] split_32 [of ip] unsigned_less [of "lo32 ip", where 'a=nat]
  by (auto simp: in_window_def in_region_def word_arith)

text \<open>Within four gigabytes the comparison by halves is the comparison of the addresses.\<close>

lemma in_window_exact:
  assumes same: "hi32 s = hi32 e"
  shows "in_window s e ip \<longleftrightarrow> in_region s e ip"
proof (rule iffI [OF in_window_region])
  assume r: "in_region s e ip"
  have "hi32 ip = hi32 s"
    using r same split_32 [of s] split_32 [of e] split_32 [of ip]
      unsigned_less [of "lo32 ip", where 'a=nat] unsigned_less [of "lo32 s", where 'a=nat]
      unsigned_less [of "lo32 e", where 'a=nat]
    by (simp add: in_region_def word_arith word_unat_eq_iff)
  then show "in_window s e ip"
    using r same split_32 [of s] split_32 [of e] split_32 [of ip]
    by (simp add: in_region_def in_window_def word_arith)
qed

lemma in_window_hi: "in_window s e ip \<Longrightarrow> hi32 s = hi32 e \<Longrightarrow> hi32 ip = hi32 e"
  by (auto simp: in_window_def)

text \<open>The rest of a program starts with a load or a return: it does not look at the accumulator.\<close>

definition reloads :: "sock_filter list \<Rightarrow> seccomp_data \<Rightarrow> bool" where
  "reloads p d \<longleftrightarrow> (\<forall>A. bpf_run p A d = bpf_run p 0 d)"

text \<open>
  What the assembly expects of a block: it returns the permission exactly for the calls it is meant for, and
  goes on with the rest of the program for all others.
\<close>

locale allow_block =
  fixes block :: "'x \<Rightarrow> sock_filter list"
    and allows :: "'x \<Rightarrow> seccomp_data \<Rightarrow> bool"
  assumes run_block: "reloads p d \<Longrightarrow>
      bpf_run (block x @ p) A d = (if allows x d then Some SECCOMP_RET_ALLOW else bpf_run p 0 d)"
begin

lemma reloads_block: "reloads p d \<Longrightarrow> reloads (block x @ p) d"
  by (simp add: reloads_def run_block)

lemma reloads_blocks: "reloads p d \<Longrightarrow> reloads (concat (map block xs) @ p) d"
  by (induction xs) (simp_all add: reloads_block)

lemma run_blocks:
  "reloads p d \<Longrightarrow>
     bpf_run (concat (map block xs) @ p) A d =
       (if \<exists>x\<in>set xs. allows x d then Some SECCOMP_RET_ALLOW else bpf_run p 0 d)"
  by (induction xs arbitrary: A) (auto simp: run_block reloads_blocks reloads_def)

end

lemmas bpf_offsets = syscall_nr_def arch_nr_def ip_lsb_def ip_msb_def

interpretation junction_block: allow_block "ALLOW_JUNCTION_SYSCALL L"
    "\<lambda>nr d. sd_nr d = nr \<and> in_window (ksys_start L) (ksys_end L) (instruction_pointer d)" for L
  by unfold_locales
    (auto simp: ALLOW_JUNCTION_SYSCALL_def bpf_load_def bpf_offsets in_window_def reloads_def)

interpretation caladan_block: allow_block "ALLOW_CALADAN_SYSCALL L"
    "\<lambda>nr d. sd_nr d = nr \<and> in_window (base_syscall_start L) (base_syscall_end L) (instruction_pointer d)" for L
  by unfold_locales
    (auto simp: ALLOW_CALADAN_SYSCALL_def bpf_load_def bpf_offsets in_window_def reloads_def)

interpretation any_block: allow_block "\<lambda>_::unit. ALLOW_ANY_JUNCTION_SYSCALL L"
    "\<lambda>_ d. hi32 (instruction_pointer d) = hi32 (ksys_end L) \<and>
       in_window (ksys_start L) (ksys_end L) (instruction_pointer d)" for L
  by unfold_locales
    (auto simp: ALLOW_ANY_JUNCTION_SYSCALL_def bpf_load_def bpf_offsets in_window_def reloads_def)

section \<open>The finished filter\<close>

lemma reloads_TRAP [simp]: "reloads TRAP d"
  by (simp add: reloads_def TRAP_def)

lemma addFilters_fit:
  "8 * length buf + 8 * length (concat fs) \<le> fmax \<Longrightarrow> addFilters fmax fs buf = Some (buf @ concat fs)"
  by (induction fs arbitrary: buf) (auto simp: addFilter_def)

lemma block_lengths [simp]:
  "length (ALLOW_JUNCTION_SYSCALL L nr) = 13" "length (ALLOW_CALADAN_SYSCALL L nr) = 13"
  "length (ALLOW_ANY_JUNCTION_SYSCALL L) = 10" "length TRAP = 1"
  by (simp_all add: ALLOW_JUNCTION_SYSCALL_def ALLOW_CALADAN_SYSCALL_def ALLOW_ANY_JUNCTION_SYSCALL_def TRAP_def)

lemma part_lengths [simp]:
  "length (caladan_filter L) = 91" "length (writeable_filter L) = 78" "length (uncached_filter L) = 39"
  "length (junction_core cfg L) = (if function_profiling cfg then 130 else 117)"
  by (simp_all add: caladan_filter_def caladan_nrs_def writeable_filter_def writeable_linux_fs_nrs_def
      uncached_filter_def uncached_linux_fs_nrs_def junction_core_def junction_core_nrs_def)

text \<open>The buffer is never too small and the cut of the length never cuts.\<close>

lemma filter_fits:
  "8 * length (concat (filter_parts cfg L)) \<le> filterMax cfg L" "length (concat (filter_parts cfg L)) < 2 ^ 16"
  by (simp_all add: filterMax_def filter_parts_def)

lemma filter_assembled:
  "addFilters (filterMax cfg L) (filter_parts cfg L) [] = Some (concat (filter_parts cfg L))"
  "length (concat (filter_parts cfg L)) mod 2 ^ 16 = length (concat (filter_parts cfg L))"
  using addFilters_fit [of "[]" "filter_parts cfg L"] filter_fits [of cfg L] by simp_all

lemma filter_installed:
  "install_seccomp_filter cfg L 0 e 0 = Some (Inr (concat (filter_parts cfg L)))"
  using filter_assembled(2) [of cfg L] by (simp add: install_seccomp_filter_def filter_assembled(1))

text \<open>The calls the configuration permits, given the comparison that decides where they come from.\<close>

definition permitted ::
    "(u64 \<Rightarrow> u64 \<Rightarrow> u64 \<Rightarrow> bool) \<Rightarrow> seccomp_config \<Rightarrow> seccomp_layout \<Rightarrow> seccomp_data \<Rightarrow> bool" where
  "permitted inside cfg L d \<longleftrightarrow>
     (let caladan = inside (base_syscall_start L) (base_syscall_end L) (instruction_pointer d);
          junction = inside (ksys_start L) (ksys_end L) (instruction_pointer d)
      in caladan \<and> sd_nr d \<in> set caladan_nrs \<or>
         (if permissive_seccomp cfg then junction
          else junction \<and>
                 (sd_nr d \<in> set (junction_core_nrs cfg) \<or>
                  writeable_linux_fs cfg \<and> sd_nr d \<in> set writeable_linux_fs_nrs \<or>
                  \<not> cache_linux_fs cfg \<and> sd_nr d \<in> set uncached_linux_fs_nrs \<or>
                  \<not> uintr_enabled cfg \<and> sd_nr d = NR_tgkill) \<or>
               caladan \<and> \<not> uintr_enabled cfg \<and> sd_nr d = NR_rt_sigreturn))"

lemma run_optional:
  assumes "reloads p d" "allow_block block allows"
  shows "reloads ((if c then concat (map block xs) else []) @ p) d"
    "bpf_run ((if c then concat (map block xs) else []) @ p) A d =
       (if c \<and> (\<exists>x\<in>set xs. allows x d) then Some SECCOMP_RET_ALLOW else bpf_run p 0 d)"
  using assms allow_block.run_blocks [OF assms(2,1)] allow_block.reloads_blocks [OF assms(2,1)]
  by (auto simp: reloads_def)

lemma filter_permissive:
  assumes "permissive_seccomp cfg"
  shows "bpf_run (concat (filter_parts cfg L)) A d =
     Some (if in_window (base_syscall_start L) (base_syscall_end L) (instruction_pointer d) \<and>
              sd_nr d \<in> set caladan_nrs \<or>
              hi32 (instruction_pointer d) = hi32 (ksys_end L) \<and>
              in_window (ksys_start L) (ksys_end L) (instruction_pointer d)
           then SECCOMP_RET_ALLOW else SECCOMP_RET_TRAP)"
  using assms
  by (simp add: filter_parts_def caladan_filter_def caladan_block.run_blocks any_block.reloads_block
      any_block.run_block)
    (simp add: TRAP_def)

lemma filter_strict:
  assumes "\<not> permissive_seccomp cfg"
  shows "bpf_run (concat (filter_parts cfg L)) A d =
     Some (if permitted in_window cfg L d then SECCOMP_RET_ALLOW else SECCOMP_RET_TRAP)"
proof -
  note jb = junction_block.allow_block_axioms [of L] and cb = caladan_block.allow_block_axioms [of L]
  have "concat (filter_parts cfg L) =
      concat (map (ALLOW_CALADAN_SYSCALL L) caladan_nrs) @
      concat (map (ALLOW_JUNCTION_SYSCALL L) (junction_core_nrs cfg)) @
      (if writeable_linux_fs cfg then concat (map (ALLOW_JUNCTION_SYSCALL L) writeable_linux_fs_nrs) else []) @
      (if \<not> cache_linux_fs cfg then concat (map (ALLOW_JUNCTION_SYSCALL L) uncached_linux_fs_nrs) else []) @
      (if \<not> uintr_enabled cfg then concat (map (ALLOW_CALADAN_SYSCALL L) [NR_rt_sigreturn]) else []) @
      (if \<not> uintr_enabled cfg then concat (map (ALLOW_JUNCTION_SYSCALL L) [NR_tgkill]) else []) @ TRAP"
    using assms by (simp add: filter_parts_def caladan_filter_def junction_core_def writeable_filter_def
        uncached_filter_def)
  then show ?thesis
    by (simp only: caladan_block.run_blocks junction_block.run_blocks junction_block.reloads_blocks
        run_optional [OF _ jb] run_optional [OF _ cb] reloads_TRAP permitted_def assms)
      (auto simp: TRAP_def Let_def)
qed

lemma permitted_mono:
  assumes "\<And>s e ip. inside s e ip \<Longrightarrow> inside' s e ip" "permitted inside cfg L d"
  shows "permitted inside' cfg L d"
  using assms by (auto simp: permitted_def Let_def split: if_splits)

text \<open>
  C13: The filter can always be assembled and installed when the host accepts it, and it answers every call.
  It lets a call through only if the configuration permits the call number for the code region the call is
  made from, whatever the addresses of the regions are; every other call is sent to the signal handler.
\<close>

theorem seccomp_filter_sound:
  "\<exists>prog. install_seccomp_filter cfg L 0 e 0 = Some (Inr prog) \<and>
     (bpf_run prog A d = Some SECCOMP_RET_TRAP \<or>
      bpf_run prog A d = Some SECCOMP_RET_ALLOW \<and> permitted in_region cfg L d)"
proof (cases "permissive_seccomp cfg")
  case True
  then show ?thesis
    using in_window_region
    by (auto simp: filter_installed filter_permissive [OF True] permitted_def Let_def)
next
  case False
  then show ?thesis
    using permitted_mono [of in_window in_region cfg L d, OF in_window_region]
    by (simp add: filter_installed filter_strict)
qed

text \<open>
  When neither code region crosses a multiple of four gigabytes the filter is exact: a call is let
  through if and only if its number is permitted for the region between whose bounds the instruction pointer
  lies, both bounds included.
\<close>

theorem seccomp_filter_exact:
  assumes "hi32 (ksys_start L) = hi32 (ksys_end L)"
    and "hi32 (base_syscall_start L) = hi32 (base_syscall_end L)"
  shows "\<exists>prog. install_seccomp_filter cfg L 0 e 0 = Some (Inr prog) \<and>
     bpf_run prog A d = Some (if permitted in_region cfg L d then SECCOMP_RET_ALLOW else SECCOMP_RET_TRAP)"
proof (cases "permissive_seccomp cfg")
  case True
  then show ?thesis
    using in_window_hi [of "ksys_start L" "ksys_end L" "instruction_pointer d"]
    by (simp add: filter_installed filter_permissive [OF True] permitted_def assms in_window_exact)
next
  case False
  then show ?thesis
    using assms in_window_exact
    by (simp add: filter_installed filter_strict permitted_def)
qed

definition sample_layout :: seccomp_layout where
  "sample_layout = \<lparr>ksys_start = 0x401000, ksys_end = 0x402000,
     base_syscall_start = 0x500000, base_syscall_end = 0x501000\<rparr>"

definition sample_config :: seccomp_config where
  "sample_config = \<lparr>permissive_seccomp = False, writeable_linux_fs = False, function_profiling = False,
     cache_linux_fs = True, uintr_enabled = True\<rparr>"

text \<open>An \<open>openat\<close> of the wrapper functions passes, the same call of the guest is trapped.\<close>

theorem seccomp_filter_exact_witness:
  "(\<exists>prog. install_seccomp_filter sample_config sample_layout 0 0 0 = Some (Inr prog) \<and>
      bpf_run prog 0 \<lparr>sd_nr = 257, sd_arch = 0, instruction_pointer = 0x401004\<rparr> = Some SECCOMP_RET_ALLOW) \<and>
   (\<exists>prog. install_seccomp_filter sample_config sample_layout 0 0 0 = Some (Inr prog) \<and>
      bpf_run prog 0 \<lparr>sd_nr = 257, sd_arch = 0, instruction_pointer = 0x7f0000001004\<rparr> = Some SECCOMP_RET_TRAP)"
proof -
  have h: "hi32 (ksys_start sample_layout) = hi32 (ksys_end sample_layout)"
    "hi32 (base_syscall_start sample_layout) = hi32 (base_syscall_end sample_layout)"
    by (simp_all add: sample_layout_def hi32_def drop_bit_eq_div)
  have p: "permitted in_region sample_config sample_layout \<lparr>sd_nr = 257, sd_arch = 0, instruction_pointer = 0x401004\<rparr>"
    by (simp add: permitted_def in_region_def sample_config_def sample_layout_def junction_core_nrs_def)
  have q: "\<not> permitted in_region sample_config sample_layout
      \<lparr>sd_nr = 257, sd_arch = 0, instruction_pointer = 0x7f0000001004\<rparr>"
    by (simp add: permitted_def in_region_def sample_config_def sample_layout_def)
  show ?thesis
    using seccomp_filter_exact [OF h, of sample_config 0 0 "\<lparr>sd_nr = 257, sd_arch = 0, instruction_pointer = 0x401004\<rparr>"]
      seccomp_filter_exact [OF h, of sample_config 0 0 "\<lparr>sd_nr = 257, sd_arch = 0, instruction_pointer = 0x7f0000001004\<rparr>"]
    by (simp only: p q if_True if_False)
qed

text \<open>
  In the permissive build without user interrupts the return of the signal handler is itself trapped: its
  restorer runs in the region of the runtime, whose list does not contain \<open>rt_sigreturn\<close>.
\<close>

lemma permissive_traps_sigreturn:
  assumes "permissive_seccomp cfg" "sd_nr d = NR_rt_sigreturn"
    and "\<not> in_region (ksys_start L) (ksys_end L) (instruction_pointer d)"
  shows "bpf_run (concat (filter_parts cfg L)) A d = Some SECCOMP_RET_TRAP"
  using assms in_window_region
  by (auto simp: filter_permissive NR_rt_sigreturn_def caladan_nrs_def)

section \<open>What happens to a trapped call\<close>

text \<open>The messages of the handler fit in the buffer when no name is longer than 63 characters.\<close>

lemma log_then_ok:
  "length msg \<le> 61 \<Longrightarrow> length (names sysn) \<le> 63 \<Longrightarrow> log_then names msg sysn r = Some r"
  by (simp add: log_then_def log_syscall_msg_def)

text \<open>
  Every trapped call is answered.  A call of a guest thread outside the kernel enters the kernel
  with its own number (or restores a signal frame); with preemption disabled a call of the wrapper functions
  fails with \<open>ENOSYS\<close> and is never repeated on the host, and the break call is answered with zero; a call from
  any other place ends the process.
\<close>

theorem trap_handler_answers:
  assumes "\<And>n. length (names n) \<le> 63" and "rax ctx < 4096"
  shows "syscall_trap_handler L kd names env SYS_SECCOMP (Some ctx) once =
    Some (if preempt_enabled env
          then (if thread_self env \<and> IsJunctionThread env \<and> \<not> in_kernel env
                then (if rax ctx = SYS_rt_sigreturn then TrapSigreturn (rsp ctx)
                      else if zpoline env then TrapPatchEnter (rip ctx - 2) (rax ctx)
                      else TrapEnter (rax ctx), once)
                else (TrapExit (- 1), once))
          else (TrapReturn (if ksys_start L \<le> rip ctx \<and> rip ctx < ksys_end L then - 38
                            else if rax ctx = NR_brk then 0
                            else kd (take 6 (call_args ctx)) (rax ctx)), True))"
  using assms
  by (simp add: syscall_trap_handler_def trap_libc_def log_then_ok ENOSYS_def)

theorem trap_handler_answers_witness:
  "syscall_trap_handler sample_layout (\<lambda>_ _. 0) (\<lambda>_. ''openat'')
     \<lparr>preempt_enabled = True, thread_self = True, IsJunctionThread = True, in_kernel = False, zpoline = False\<rparr>
     SYS_SECCOMP (Some \<lparr>rax = 257, rip = 0x7f0000001004, rsp = 0, call_args = []\<rparr>) False =
   Some (TrapEnter 257, False)"
  using trap_handler_answers [of "\<lambda>_. ''openat''" "\<lparr>rax = 257, rip = 0x7f0000001004, rsp = 0, call_args = []\<rparr>"]
  by (simp add: SYS_rt_sigreturn_def)

end
