(* ===== verification/IntervalSet.thy ===== *)
theory IntervalSet
  imports Prelude
begin

text \<open>
  The exclusive interval set of \<^verbatim>\<open>src/junction/base/interval_set.h\<close>, the data
  structure under every memory map.

  The class template is parametric in an item type that satisfies the concept
  \<open>IntervalData\<close>; the record \<open>interval_ops\<close> is that concept, and every operation
  takes it as an argument.  The container is a \<open>std::map\<close> keyed by the end of
  each interval: a list of key/item pairs in the order of the keys.  An iterator is
  a position in that list, so the loops of \<open>Clear\<close> and \<open>Modify\<close> run over
  a list split at the iterator.

  The locale \<open>interval_data\<close> holds what an item type promises, with an observer
  that says what an item records about one address.  Inside it, \<open>iv_view\<close> reads
  the whole set as a partial function from addresses to observations, and each operation
  is shown to refine the obvious operation on that function while keeping the
  intervals disjoint, non-empty and ordered.
\<close>

subsection \<open>Items and the container\<close>

record 't interval_ops =
  get_start :: "'t \<Rightarrow> uintptr"
  get_end :: "'t \<Rightarrow> uintptr"
  TrimTail :: "uintptr \<Rightarrow> 't \<Rightarrow> 't"
  TrimHead :: "uintptr \<Rightarrow> 't \<Rightarrow> 't"
  TryMergeRight :: "'t \<Rightarrow> 't \<Rightarrow> 't option"

text \<open>\<open>TryMergeRight ops rhs lhs\<close> is \<open>rhs.TryMergeRight(lhs)\<close>: the updated right-hand
  side when the two merge, nothing when the method returns false.\<close>

type_synonym 't interval_map = "(uintptr \<times> 't) list"

record SimpleInterval =
  si_start :: uintptr
  si_end :: uintptr

definition SimpleInterval_TrimTail :: "uintptr \<Rightarrow> SimpleInterval \<Rightarrow> SimpleInterval" where
  "SimpleInterval_TrimTail new_end iv = iv\<lparr>si_end := new_end\<rparr>"

definition SimpleInterval_TrimHead :: "uintptr \<Rightarrow> SimpleInterval \<Rightarrow> SimpleInterval" where
  "SimpleInterval_TrimHead new_start iv = iv\<lparr>si_start := new_start\<rparr>"

definition SimpleInterval_TryMergeRight ::
    "SimpleInterval \<Rightarrow> SimpleInterval \<Rightarrow> SimpleInterval option" where
  "SimpleInterval_TryMergeRight rhs lhs =
     (if si_start rhs \<noteq> si_end lhs then None else Some (rhs\<lparr>si_start := si_start lhs\<rparr>))"

definition simple_ops :: "SimpleInterval interval_ops" where
  "simple_ops = \<lparr>get_start = si_start, get_end = si_end, TrimTail = SimpleInterval_TrimTail,
     TrimHead = SimpleInterval_TrimHead, TryMergeRight = SimpleInterval_TryMergeRight\<rparr>"

text \<open>\<open>std::map\<close>: insertion leaves an existing entry alone; \<open>upper_bound\<close> is the
  first entry whose key is greater.\<close>

fun map_insert :: "uintptr \<Rightarrow> 't \<Rightarrow> 't interval_map \<Rightarrow> 't interval_map" where
  "map_insert k v [] = [(k, v)]"
| "map_insert k v ((k', v') # m) =
     (if k < k' then (k, v) # (k', v') # m
      else if k = k' then (k', v') # m
      else (k', v') # map_insert k v m)"

fun map_erase :: "uintptr \<Rightarrow> 't interval_map \<Rightarrow> 't interval_map" where
  "map_erase k [] = []"
| "map_erase k ((k', v') # m) = (if k = k' then m else (k', v') # map_erase k m)"

definition before_ub :: "uintptr \<Rightarrow> 't interval_map \<Rightarrow> 't interval_map" where
  "before_ub k m = takeWhile (\<lambda>(k', _). k' \<le> k) m"

definition upper_bound :: "uintptr \<Rightarrow> 't interval_map \<Rightarrow> 't interval_map" where
  "upper_bound k m = dropWhile (\<lambda>(k', _). k' \<le> k) m"

subsection \<open>The operations\<close>

text \<open>\<open>Clear\<close> returns the map split at the iterator the method returns.\<close>

fun Clear_loop :: "'t interval_ops \<Rightarrow> uintptr \<Rightarrow> uintptr \<Rightarrow> 't interval_map \<Rightarrow> 't interval_map
    \<Rightarrow> 't interval_map \<times> 't interval_map" where
  "Clear_loop ops s e pre [] = (pre, [])"
| "Clear_loop ops s e pre ((k, item) # post) =
     (if get_start ops item < e then
        let pre' = (if get_start ops item < s
                    then map_insert s (TrimTail ops s item) pre else pre)
        in if get_end ops item \<le> e then Clear_loop ops s e pre' post
           else Clear_loop ops s e (pre' @ [(k, TrimHead ops e item)]) post
      else (pre, (k, item) # post))"

definition Clear :: "'t interval_ops \<Rightarrow> uintptr \<Rightarrow> uintptr \<Rightarrow> 't interval_map
    \<Rightarrow> 't interval_map \<times> 't interval_map" where
  "Clear ops s e m = Clear_loop ops s e (before_ub s m) (upper_bound s m)"

definition clear_range :: "'t interval_ops \<Rightarrow> uintptr \<Rightarrow> uintptr \<Rightarrow> 't interval_map
    \<Rightarrow> 't interval_map" where
  "clear_range ops s e m = (case Clear ops s e m of (pre, post) \<Rightarrow> pre @ post)"

definition has_overlap :: "'t interval_ops \<Rightarrow> uintptr \<Rightarrow> uintptr \<Rightarrow> 't interval_map \<Rightarrow> bool" where
  "has_overlap ops s e m =
     (case upper_bound s m of [] \<Rightarrow> False | (k, item) # _ \<Rightarrow> get_start ops item < e)"

text \<open>The private \<open>TryMergeRight(prev, rhs)\<close>: \<open>prev\<close> is an iterator, named by its
  key, or \<open>end()\<close>.  The result is the right-hand side and the entries before it.\<close>

definition merge_right :: "'t interval_ops \<Rightarrow> uintptr option \<Rightarrow> 't \<Rightarrow> 't interval_map
    \<Rightarrow> 't \<times> 't interval_map" where
  "merge_right ops prev rhs pre =
     (case prev of None \<Rightarrow> (rhs, pre)
      | Some k \<Rightarrow>
          (case map_of pre k of None \<Rightarrow> (rhs, pre)
           | Some lhs \<Rightarrow>
               (case TryMergeRight ops rhs lhs of None \<Rightarrow> (rhs, pre)
                | Some rhs' \<Rightarrow> (rhs', map_erase k pre))))"

definition last_key :: "'t interval_map \<Rightarrow> uintptr option" where
  "last_key m = (if m = [] then None else Some (fst (last m)))"

definition Insert :: "'t interval_ops \<Rightarrow> 't \<Rightarrow> 't interval_map \<Rightarrow> 't interval_map" where
  "Insert ops item m =
     (let k = get_end ops item;
          m1 = map_insert k item (clear_range ops (get_start ops item) k m);
          pre = takeWhile (\<lambda>(k', _). k' < k) m1
      in case dropWhile (\<lambda>(k', _). k' < k) m1 of
           [] \<Rightarrow> m1
         | (k', it) # post \<Rightarrow>
             (let (it', pre') = merge_right ops (last_key pre) it pre
              in case post of
                   [] \<Rightarrow> pre' @ [(k', it')]
                 | (kn, nxt) # post' \<Rightarrow>
                     (let (nxt', pre'') = merge_right ops (Some k') nxt (pre' @ [(k', it')])
                      in pre'' @ (kn, nxt') # post')))"

definition Find :: "'t interval_ops \<Rightarrow> uintptr \<Rightarrow> 't interval_map \<Rightarrow> 't Status" where
  "Find ops s m =
     (case upper_bound s m of [] \<Rightarrow> Inl ENOENT
      | (k, item) # _ \<Rightarrow> if s < get_start ops item then Inl ENOENT else Inr item)"

definition UpperBound :: "uintptr \<Rightarrow> 't interval_map \<Rightarrow> 't Status" where
  "UpperBound s m = (case upper_bound s m of [] \<Rightarrow> Inl ENOENT | (k, item) # _ \<Rightarrow> Inr item)"

text \<open>\<open>FindFreeRange\<close> decrements an iterator with \<open>std::prev\<close>; on the first element that is
  undefined behaviour, the outcome \<open>None\<close>.  The comparison of the decremented iterator
  with \<open>begin()\<close> is the source's.\<close>

fun free_from_top :: "'t interval_ops \<Rightarrow> u64 \<Rightarrow> uintptr \<Rightarrow> 't interval_map \<Rightarrow> uintptr" where
  "free_from_top ops len prev_start [] = prev_start"
| "free_from_top ops len prev_start ((k, item) # rm) =
     (if prev_start - k < len then free_from_top ops len (get_start ops item) rm
      else prev_start)"

definition find_hint :: "'t interval_ops \<Rightarrow> uintptr \<Rightarrow> u64 \<Rightarrow> uintptr \<Rightarrow> uintptr \<Rightarrow> 't interval_map
    \<Rightarrow> uintptr option option" where
  "find_hint ops hint len upper_lim lower_lim m =
     (case upper_bound hint m of
        [] \<Rightarrow> Some (Some hint)
      | (k, item) # post \<Rightarrow>
          if hint + len \<le> get_start ops item then Some (Some hint)
          else (case rev (before_ub hint m) of
                  [] \<Rightarrow> None
                | (pk, prev) # before_prev \<Rightarrow>
                    (let new_start = get_start ops item - len;
                         prev_end = (if before_prev = [] then lower_lim else pk)
                     in if prev_end \<le> new_start then Some (Some new_start)
                        else (let new_end = k + len;
                                  next_start = (case post of [] \<Rightarrow> upper_lim
                                                | (kn, nxt) # _ \<Rightarrow> get_start ops nxt)
                              in if new_end \<le> next_start then Some (Some (get_end ops item))
                                 else Some None))))"

definition FindFreeRange :: "'t interval_ops \<Rightarrow> uintptr \<Rightarrow> u64 \<Rightarrow> uintptr \<Rightarrow> uintptr
    \<Rightarrow> 't interval_map \<Rightarrow> uintptr Status option" where
  "FindFreeRange ops hint len upper_lim lower_lim m =
     (case (if hint \<noteq> 0 then find_hint ops hint len upper_lim lower_lim m else Some None) of
        None \<Rightarrow> None
      | Some (Some a) \<Rightarrow> Some (Inr a)
      | Some None \<Rightarrow>
          (let addr = free_from_top ops len upper_lim (rev m) - len
           in Some (if addr < lower_lim then Inl ENOMEM else Inr addr)))"

definition Modify_item :: "'t interval_ops \<Rightarrow> uintptr \<Rightarrow> uintptr \<Rightarrow> ('t \<Rightarrow> bool) \<Rightarrow> ('t \<Rightarrow> 't)
    \<Rightarrow> uintptr option \<Rightarrow> 't interval_map \<Rightarrow> uintptr \<Rightarrow> 't \<Rightarrow> 't interval_map" where
  "Modify_item ops s e check change prev pre k item =
     (if \<not> check item then
        (let (item', pre') = merge_right ops prev item pre in pre' @ [(k, item')])
      else
        (let (pre1, item1) =
               (if get_start ops item < s
                then (map_insert s (TrimTail ops s item) pre, TrimHead ops s item)
                else (pre, item))
         in if e < get_end ops item1 then
              (let (left, pre2) = merge_right ops prev (change (TrimTail ops e item1)) pre1
               in map_insert e left pre2 @ [(k, TrimHead ops e item1)])
            else
              (let (item2, pre2) = merge_right ops prev (change item1) pre1
               in pre2 @ [(k, item2)])))"

fun Modify_loop :: "'t interval_ops \<Rightarrow> uintptr \<Rightarrow> uintptr \<Rightarrow> ('t \<Rightarrow> bool) \<Rightarrow> ('t \<Rightarrow> 't)
    \<Rightarrow> uintptr option \<Rightarrow> 't interval_map \<Rightarrow> 't interval_map
    \<Rightarrow> uintptr option \<times> 't interval_map \<times> 't interval_map" where
  "Modify_loop ops s e check change prev pre [] = (prev, pre, [])"
| "Modify_loop ops s e check change prev pre ((k, item) # post) =
     (if get_start ops item < e
      then Modify_loop ops s e check change (Some k)
             (Modify_item ops s e check change prev pre k item) post
      else (prev, pre, (k, item) # post))"

definition Modify :: "'t interval_ops \<Rightarrow> uintptr \<Rightarrow> uintptr \<Rightarrow> ('t \<Rightarrow> bool) \<Rightarrow> ('t \<Rightarrow> 't)
    \<Rightarrow> 't interval_map \<Rightarrow> 't interval_map" where
  "Modify ops s e check change m =
     (case Modify_loop ops s e check change (last_key (before_ub s m))
             (before_ub s m) (upper_bound s m) of
        (prev, pre, []) \<Rightarrow> pre
      | (prev, pre, (k, item) # post) \<Rightarrow>
          (let (item', pre') = merge_right ops prev item pre
           in pre' @ (k, item') # post))"

subsection \<open>Well-formed sets\<close>

text \<open>Every entry is keyed by the end of a non-empty interval, and the intervals are in
  order and disjoint; \<open>lo\<close> bounds them from below.\<close>

fun iv_ok :: "'t interval_ops \<Rightarrow> uintptr \<Rightarrow> 't interval_map \<Rightarrow> bool" where
  "iv_ok ops lo [] \<longleftrightarrow> True"
| "iv_ok ops lo ((k, item) # m) \<longleftrightarrow>
     get_end ops item = k \<and> lo \<le> get_start ops item \<and> get_start ops item < k \<and> iv_ok ops k m"

text \<open>No two neighbours could be merged.\<close>

fun iv_maximal :: "'t interval_ops \<Rightarrow> 't interval_map \<Rightarrow> bool" where
  "iv_maximal ops [] \<longleftrightarrow> True"
| "iv_maximal ops [x] \<longleftrightarrow> True"
| "iv_maximal ops ((k, l) # (k', r) # m) \<longleftrightarrow>
     TryMergeRight ops r l = None \<and> iv_maximal ops ((k', r) # m)"

fun iv_end :: "uintptr \<Rightarrow> 't interval_map \<Rightarrow> uintptr" where
  "iv_end lo [] = lo"
| "iv_end lo ((k, item) # m) = iv_end k m"

definition iv_covers :: "'t interval_ops \<Rightarrow> uintptr \<Rightarrow> 't \<Rightarrow> bool" where
  "iv_covers ops a item \<longleftrightarrow> get_start ops item \<le> a \<and> a < get_end ops item"

fun iv_find :: "'t interval_ops \<Rightarrow> uintptr \<Rightarrow> 't interval_map \<Rightarrow> 't option" where
  "iv_find ops a [] = None"
| "iv_find ops a ((k, item) # m) = (if iv_covers ops a item then Some item else iv_find ops a m)"

definition iv_view :: "'t interval_ops \<Rightarrow> ('t \<Rightarrow> uintptr \<Rightarrow> 'd) \<Rightarrow> 't interval_map \<Rightarrow> uintptr
    \<Rightarrow> 'd option" where
  "iv_view ops obs m a = map_option (\<lambda>item. obs item a) (iv_find ops a m)"

subsection \<open>Lists of intervals\<close>

lemma iv_ok_append [simp]:
  "iv_ok ops lo (xs @ ys) \<longleftrightarrow> iv_ok ops lo xs \<and> iv_ok ops (iv_end lo xs) ys"
  by (induction xs arbitrary: lo) auto

lemma iv_end_append [simp]: "iv_end lo (xs @ ys) = iv_end (iv_end lo xs) ys"
  by (induction xs arbitrary: lo) auto

lemma iv_ok_mono: "iv_ok ops lo m \<Longrightarrow> lo' \<le> lo \<Longrightarrow> iv_ok ops lo' m"
  by (cases m) auto

lemma iv_end_ge: "iv_ok ops lo m \<Longrightarrow> lo \<le> iv_end lo m"
proof (induction m arbitrary: lo)
  case (Cons x m)
  obtain k item where "x = (k, item)" by (cases x)
  with Cons have "lo \<le> get_start ops item" "get_start ops item < k" "k \<le> iv_end k m" by auto
  with \<open>x = (k, item)\<close> show ?case by simp
qed simp

lemma iv_end_less: "iv_ok ops lo m \<Longrightarrow> m \<noteq> [] \<Longrightarrow> lo < iv_end lo m"
proof (cases m)
  case (Cons x m')
  assume ok: "iv_ok ops lo m"
  obtain k item where x: "x = (k, item)" by (cases x)
  from ok Cons x have "lo \<le> get_start ops item" "get_start ops item < k" "k \<le> iv_end k m'"
    using iv_end_ge [of ops k m'] by auto
  then show ?thesis using Cons x by simp
qed simp

lemma iv_ok_mem:
  assumes "iv_ok ops lo m" "(k, item) \<in> set m"
  shows "get_end ops item = k" "lo \<le> get_start ops item" "get_start ops item < k"
    "k \<le> iv_end lo m"
proof -
  have "get_end ops item = k \<and> lo \<le> get_start ops item \<and> get_start ops item < k \<and> k \<le> iv_end lo m"
    using assms
  proof (induction m arbitrary: lo)
    case (Cons x m)
    obtain k' item' where x: "x = (k', item')" by (cases x)
    show ?case
    proof (cases "(k, item) = x")
      case True
      then show ?thesis using Cons.prems x iv_end_ge [of ops k m] by auto
    next
      case False
      with Cons x have "get_end ops item = k \<and> k' \<le> get_start ops item \<and> get_start ops item < k
          \<and> k \<le> iv_end k' m"
        by auto
      then show ?thesis using Cons.prems x by auto
    qed
  qed simp
  then show "get_end ops item = k" "lo \<le> get_start ops item" "get_start ops item < k"
    "k \<le> iv_end lo m"
    by auto
qed

lemma iv_find_append:
  "iv_find ops a (xs @ ys) = (case iv_find ops a xs of None \<Rightarrow> iv_find ops a ys | Some x \<Rightarrow> Some x)"
  by (induction xs) auto

lemma iv_find_below: "iv_ok ops lo m \<Longrightarrow> a < lo \<Longrightarrow> iv_find ops a m = None"
proof (induction m arbitrary: lo)
  case (Cons x m)
  obtain k item where x: "x = (k, item)" by (cases x)
  with Cons.prems have "a < get_start ops item" "a < k" by auto
  with Cons x show ?case by (auto simp: iv_covers_def)
qed simp

lemma iv_find_above: "iv_ok ops lo m \<Longrightarrow> iv_end lo m \<le> a \<Longrightarrow> iv_find ops a m = None"
proof (induction m arbitrary: lo)
  case (Cons x m)
  obtain k item where x: "x = (k, item)" by (cases x)
  with Cons.prems have "k \<le> a" using iv_end_ge [of ops k m] by auto
  with Cons x show ?case by (auto simp: iv_covers_def)
qed simp

lemma iv_find_Some:
  "iv_find ops a m = Some item \<Longrightarrow> iv_covers ops a item \<and> (\<exists>k. (k, item) \<in> set m)"
  by (induction m) (auto split: if_splits)

lemma before_upper [simp]: "before_ub s m @ upper_bound s m = m"
  by (simp add: before_ub_def upper_bound_def)

lemma iv_ok_split:
  assumes "iv_ok ops lo m"
  shows "iv_ok ops lo (before_ub s m)" "iv_ok ops (iv_end lo (before_ub s m)) (upper_bound s m)"
  using assms iv_ok_append [of ops lo "before_ub s m" "upper_bound s m"] by auto

lemma iv_end_before_ub: "lo \<le> s \<Longrightarrow> iv_end lo (before_ub s m) \<le> s"
proof (induction m arbitrary: lo)
  case (Cons x m)
  then show ?case by (cases x) (simp add: before_ub_def)
qed (simp add: before_ub_def)

lemma upper_bound_hd: "upper_bound s m = (k, item) # post \<Longrightarrow> s < k"
  by (induction m) (auto simp: upper_bound_def split: if_splits)

lemma iv_find_before_ub: "iv_ok ops lo m \<Longrightarrow> lo \<le> s \<Longrightarrow> iv_find ops s (before_ub s m) = None"
  using iv_find_above [OF iv_ok_split(1) iv_end_before_ub] .

lemma map_insert_last: 
  "iv_ok ops lo pre \<Longrightarrow> pre = [] \<or> iv_end lo pre < s \<Longrightarrow> map_insert s v pre = pre @ [(s, v)]"
proof (induction pre arbitrary: lo)
  case (Cons x pre)
  obtain k item where x: "x = (k, item)" by (cases x)
  with Cons.prems have "k < s" using iv_end_ge [of ops k pre] by auto
  moreover have "map_insert s v pre = pre @ [(s, v)]" using Cons x by (cases pre) auto
  ultimately show ?case using x by auto
qed simp

lemma iv_maximal_append:
  "iv_maximal ops (xs @ ys) \<longleftrightarrow> iv_maximal ops xs \<and> iv_maximal ops ys \<and>
     (xs \<noteq> [] \<longrightarrow> ys \<noteq> [] \<longrightarrow> TryMergeRight ops (snd (hd ys)) (snd (last xs)) = None)"
proof (induction ops xs rule: iv_maximal.induct)
  case (2 ops x)
  show ?case by (cases x; cases ys) auto
qed auto

lemma iv_maximal_Cons:
  "iv_maximal ops ((k, l) # m) \<longleftrightarrow> iv_maximal ops m \<and>
     (m \<noteq> [] \<longrightarrow> TryMergeRight ops (snd (hd m)) l = None)"
  by (cases m) auto

lemma iv_ok_last_entry:
  assumes "iv_ok ops lo pre" "map_of pre k = Some l" "iv_end lo pre \<le> k"
  obtains p where "pre = p @ [(k, l)]" "map_erase k pre = p"
proof -
  have mem: "(k, l) \<in> set pre" using assms(2) by (rule map_of_SomeD)
  then obtain p x where pre: "pre = p @ [x]" by (cases pre rule: rev_cases) auto
  obtain k' l' where x: "x = (k', l')" by (cases x)
  have "k \<le> k'" using iv_ok_mem(4) [OF assms(1) mem] pre x by simp
  with assms(3) pre x have k: "k' = k" by simp
  have "\<forall>y \<in> set p. fst y < k"
    using assms(1) pre x k iv_ok_mem(4) [of ops lo p] by fastforce
  then have "k \<notin> fst ` set p" "map_erase k (p @ [(k, l')]) = p"
    by (auto, induction p) auto
  then show ?thesis
    using that pre x k assms(2) by (simp add: map_add_def map_of_eq_None_iff [THEN iffD2])
qed

lemma iv_find_mem: "(k, i) \<in> set m \<Longrightarrow> iv_covers ops a i \<Longrightarrow> iv_find ops a m \<noteq> None"
  by (induction m) auto

lemma iv_gap:
  assumes "iv_ok ops lo m" "\<And>a. s \<le> a \<Longrightarrow> a < e \<Longrightarrow> iv_find ops a m = None" "s < e"
    "(k, i) \<in> set m"
  shows "k \<le> s \<or> e \<le> get_start ops i"
proof (rule ccontr)
  assume neg: "\<not> (k \<le> s \<or> e \<le> get_start ops i)"
  define a where "a = max s (get_start ops i)"
  have "s < k" "get_start ops i < e" using neg by (simp_all add: not_le)
  then have "s \<le> a" "a < e" using assms(3) by (simp_all add: a_def)
  moreover have "iv_find ops a m \<noteq> None"
  proof (rule iv_find_mem [OF assms(4)])
    show "iv_covers ops a i"
      using \<open>s < k\<close> iv_ok_mem(1,3) [OF assms(1,4)] by (simp add: a_def iv_covers_def)
  qed
  ultimately show False using assms(2) by simp
qed

lemma iv_end_le: "lo \<le> s \<Longrightarrow> \<forall>x \<in> set m. fst x \<le> s \<Longrightarrow> iv_end lo m \<le> s"
proof (induction m arbitrary: lo)
  case (Cons x m)
  obtain k i where x: "x = (k, i)" by (cases x)
  have "k \<le> s" "\<forall>x \<in> set m. fst x \<le> s" using Cons.prems(2) x by simp_all
  then have "iv_end k m \<le> s" by (rule Cons.IH)
  then show ?case by (simp add: x)
qed simp

lemma merge_right_cases:
  assumes "merge_right ops prev rhs pre = (r, pre')"
  obtains (same) "r = rhs" "pre' = pre"
    | (merged) k l where "prev = Some k" "map_of pre k = Some l" "TryMergeRight ops rhs l = Some r"
        "pre' = map_erase k pre"
proof -
  have "(r = rhs \<and> pre' = pre) \<or> (\<exists>k l. prev = Some k \<and> map_of pre k = Some l \<and>
      TryMergeRight ops rhs l = Some r \<and> pre' = map_erase k pre)"
    using assms by (simp add: merge_right_def split: option.split_asm)
  then show ?thesis using same merged by blast
qed

text \<open>Insertion of an interval into a gap: the entries below it, the entry, the entries above.\<close>

lemma map_insert_gap:
  assumes "iv_ok ops lo m" "lo \<le> s" "s < k"
    "\<And>a. s \<le> a \<Longrightarrow> a < k \<Longrightarrow> iv_find ops a m = None"
  obtains A B where "m = A @ B" "iv_ok ops lo A" "iv_end lo A \<le> s" "iv_ok ops k B"
    "map_insert k v m = A @ (k, v) # B"
    "takeWhile (\<lambda>(k', _). k' < k) (A @ (k, v) # B) = A"
    "dropWhile (\<lambda>(k', _). k' < k) (A @ (k, v) # B) = (k, v) # B"
proof -
  define A where "A = takeWhile (\<lambda>(k', _). k' < k) m"
  define B where "B = dropWhile (\<lambda>(k', _). k' < k) m"
  have m: "m = A @ B" by (simp add: A_def B_def)
  have gap: "k' \<le> s \<or> k \<le> get_start ops i" if "(k', i) \<in> set m" for k' i
    using iv_gap [OF assms(1) assms(4) assms(3) that] by blast
  have A_keys: "k' < k" if "(k', i) \<in> set A" for k' i
    using that set_takeWhileD by (fastforce simp: A_def)
  have ok: "iv_ok ops lo A" "iv_ok ops (iv_end lo A) B" using assms(1) m by auto
  have A_le: "k' \<le> s" if "(k', i) \<in> set A" for k' i
    using gap [of k' i] A_keys [OF that] iv_ok_mem(3) [OF ok(1) that] that m by fastforce
  have "\<forall>x \<in> set A. fst x \<le> s" using A_le by (metis prod.collapse)
  with assms(2) have endA: "iv_end lo A \<le> s" by (rule iv_end_le)
  have okB: "iv_ok ops k B"
  proof (cases B)
    case (Cons x B')
    obtain k' i where x: "x = (k', i)" by (cases x)
    have "\<not> k' < k"
      using dropWhile_eq_Cons_conv [of "\<lambda>(k', _). k' < k" m x B'] Cons x by (simp add: B_def)
    with gap [of k' i] assms(3) m Cons x have "k \<le> get_start ops i" by auto
    with ok(2) Cons x show ?thesis by auto
  qed simp
  have B_keys: "B = [] \<or> k < fst (hd B)" using okB by (cases B) auto
  have ins: "map_insert k v (A @ B) = A @ (k, v) # B" using A_keys
  proof (induction A)
    case Nil
    then show ?case using B_keys by (cases B) auto
  next
    case (Cons x A)
    obtain k' i where x: "x = (k', i)" by (cases x)
    have "k' < k" using Cons.prems x by auto
    moreover have "map_insert k v (A @ B) = A @ (k, v) # B" by (rule Cons.IH) (use Cons.prems in auto)
    ultimately show ?case using x by auto
  qed
  have all: "\<And>x. x \<in> set A \<Longrightarrow> (case x of (k', _) \<Rightarrow> k' < k)" using A_keys by auto
  have "takeWhile (\<lambda>(k', _). k' < k) (A @ (k, v) # B) = A"
    using takeWhile_append2 [of A "\<lambda>(k', _). k' < k", OF all] by simp
  moreover have "dropWhile (\<lambda>(k', _). k' < k) (A @ (k, v) # B) = (k, v) # B"
    using dropWhile_append2 [of A "\<lambda>(k', _). k' < k", OF all] by simp
  ultimately show ?thesis
    using that [OF m ok(1) endA okB] ins m by simp
qed

text \<open>Properties of single items survive every operation that only trims, merges and changes
  items.\<close>

definition iv_all :: "('t \<Rightarrow> bool) \<Rightarrow> 't interval_map \<Rightarrow> bool" where
  "iv_all Q m \<longleftrightarrow> (\<forall>x \<in> set m. Q (snd x))"

lemma iv_all_simps [simp]:
  "iv_all Q []" "iv_all Q ((k, i) # m) \<longleftrightarrow> Q i \<and> iv_all Q m"
  "iv_all Q (xs @ ys) \<longleftrightarrow> iv_all Q xs \<and> iv_all Q ys"
  by (auto simp: iv_all_def)

lemma iv_all_parts:
  "iv_all Q m \<Longrightarrow> iv_all Q (before_ub s m)" "iv_all Q m \<Longrightarrow> iv_all Q (upper_bound s m)"
  "iv_all Q m \<Longrightarrow> iv_all Q (map_erase k m)"
  "iv_all Q m \<Longrightarrow> iv_all Q (takeWhile P m)" "iv_all Q m \<Longrightarrow> iv_all Q (dropWhile P m)"
  subgoal by (auto simp: iv_all_def before_ub_def dest: set_takeWhileD)
  subgoal by (auto simp: iv_all_def upper_bound_def dest: set_dropWhileD)
  subgoal by (induction m) auto
  subgoal by (auto simp: iv_all_def dest: set_takeWhileD)
  subgoal by (auto simp: iv_all_def dest: set_dropWhileD)
  done

lemma iv_all_insert: "iv_all Q m \<Longrightarrow> Q i \<Longrightarrow> iv_all Q (map_insert k i m)"
  by (induction m) auto

lemma iv_all_find: "iv_all Q m \<Longrightarrow> map_of m k = Some i \<Longrightarrow> Q i"
  by (force simp: iv_all_def dest: map_of_SomeD)

lemma iv_all_merge_right:
  assumes "iv_all Q pre" "Q rhs" "merge_right ops prev rhs pre = (r, pre')"
    "\<And>r l i. Q r \<Longrightarrow> Q l \<Longrightarrow> TryMergeRight ops r l = Some i \<Longrightarrow> Q i"
  shows "Q r \<and> iv_all Q pre'"
  using assms(3) by (cases rule: merge_right_cases)
    (use assms(1,2,4) iv_all_find [OF assms(1)] iv_all_parts(3) in blast)+

lemma iv_all_Clear_loop:
  assumes "iv_all Q pre" "iv_all Q post" "\<And>i. Q i \<Longrightarrow> Q (TrimTail ops s i)"
    "\<And>i. Q i \<Longrightarrow> Q (TrimHead ops e i)" "Clear_loop ops s e pre post = (pre', post')"
  shows "iv_all Q (pre' @ post')"
  using assms
proof (induction post arbitrary: pre)
  case (Cons x post)
  obtain k i where x: "x = (k, i)" by (cases x)
  let ?pre1 = "if get_start ops i < s then map_insert s (TrimTail ops s i) pre else pre"
  have "iv_all Q ?pre1" "Q i" using Cons.prems x by (auto intro: iv_all_insert)
  then show ?case
    using Cons.IH [of ?pre1] Cons.IH [of "?pre1 @ [(k, TrimHead ops e i)]"] Cons.prems x
    by (auto simp: Let_def split: if_splits)
qed simp

lemma iv_all_clear_range:
  assumes "iv_all Q m" "\<And>i. Q i \<Longrightarrow> Q (TrimTail ops s i)" "\<And>i. Q i \<Longrightarrow> Q (TrimHead ops e i)"
  shows "iv_all Q (clear_range ops s e m)"
proof -
  obtain pre post where c: "Clear_loop ops s e (before_ub s m) (upper_bound s m) = (pre, post)"
    by fastforce
  show ?thesis
    using iv_all_Clear_loop [OF iv_all_parts(1,2) [OF assms(1)] assms(2,3) c]
    by (simp add: clear_range_def Clear_def c)
qed

lemma iv_all_Insert:
  assumes "iv_all Q m" "Q item" "\<And>i. Q i \<Longrightarrow> Q (TrimTail ops (get_start ops item) i)"
    "\<And>i. Q i \<Longrightarrow> Q (TrimHead ops (get_end ops item) i)"
    "\<And>r l i. Q r \<Longrightarrow> Q l \<Longrightarrow> TryMergeRight ops r l = Some i \<Longrightarrow> Q i"
  shows "iv_all Q (Insert ops item m)"
proof -
  define m1 where "m1 = map_insert (get_end ops item) item
    (clear_range ops (get_start ops item) (get_end ops item) m)"
  have m1: "iv_all Q m1"
    unfolding m1_def by (rule iv_all_insert [OF iv_all_clear_range [OF assms(1,3,4)] assms(2)])
  let ?P = "\<lambda>(k', _). k' < get_end ops item"
  show ?thesis
  proof (cases "dropWhile ?P m1")
    case Nil
    show ?thesis unfolding Insert_def Let_def m1_def [symmetric] Nil using m1 by simp
  next
    case (Cons x post)
    obtain k it where x: "x = (k, it)" by (cases x)
    have Q: "Q it" "iv_all Q post" using iv_all_parts(5) [OF m1, of ?P] Cons x by auto
    obtain it' pre' where mr: "merge_right ops (last_key (takeWhile ?P m1)) it (takeWhile ?P m1) = (it', pre')"
      by fastforce
    note Q1 = iv_all_merge_right [OF iv_all_parts(4) [OF m1] Q(1) mr assms(5)]
    show ?thesis
    proof (cases post)
      case Nil
      then show ?thesis using Q1 Cons x mr by (simp add: Insert_def Let_def m1_def [symmetric])
    next
      case (Cons y post')
      obtain kn nxt where y: "y = (kn, nxt)" by (cases y)
      obtain nxt' pre2 where mr2: "merge_right ops (Some k) nxt (pre' @ [(k, it')]) = (nxt', pre2)"
        by fastforce
      have "Q nxt' \<and> iv_all Q pre2"
        by (rule iv_all_merge_right [OF _ _ mr2 assms(5)]) (use Q1 Q(2) Cons y in auto)
      moreover have "Insert ops item m = pre2 @ (kn, nxt') # post'"
        using \<open>dropWhile ?P m1 = x # post\<close> x Cons y mr mr2
        by (simp add: Insert_def Let_def m1_def [symmetric])
      ultimately show ?thesis using Q(2) Cons y by simp
    qed
  qed
qed

lemma iv_all_Modify_item:
  assumes "iv_all Q pre" "Q item"
    and closed: "\<And>i. Q i \<Longrightarrow> Q (TrimTail ops s i)" "\<And>i. Q i \<Longrightarrow> Q (TrimTail ops e i)"
      "\<And>i. Q i \<Longrightarrow> Q (TrimHead ops s i)" "\<And>i. Q i \<Longrightarrow> Q (TrimHead ops e i)" "\<And>i. Q i \<Longrightarrow> Q (change i)"
      "\<And>r l i. Q r \<Longrightarrow> Q l \<Longrightarrow> TryMergeRight ops r l = Some i \<Longrightarrow> Q i"
  shows "iv_all Q (Modify_item ops s e check change prev pre k item)"
proof -
  have merge: "Q r \<and> iv_all Q p" if "merge_right ops prev i pre1 = (r, p)" "Q i" "iv_all Q pre1" for i pre1 r p
    using iv_all_merge_right [OF that(3,2,1) closed(6)] .
  let ?pre1 = "map_insert s (TrimTail ops s item) pre"
  have "iv_all Q ?pre1" using assms(1,2) closed(1) by (intro iv_all_insert)
  then show ?thesis
    unfolding Modify_item_def
    using assms(1,2) closed(1-5) merge iv_all_insert [of Q]
    by (simp split: prod.split)
qed

lemma iv_all_Modify:
  assumes "iv_all Q m"
    and closed: "\<And>i. Q i \<Longrightarrow> Q (TrimTail ops s i)" "\<And>i. Q i \<Longrightarrow> Q (TrimTail ops e i)"
      "\<And>i. Q i \<Longrightarrow> Q (TrimHead ops s i)" "\<And>i. Q i \<Longrightarrow> Q (TrimHead ops e i)" "\<And>i. Q i \<Longrightarrow> Q (change i)"
      "\<And>r l i. Q r \<Longrightarrow> Q l \<Longrightarrow> TryMergeRight ops r l = Some i \<Longrightarrow> Q i"
  shows "iv_all Q (Modify ops s e check change m)"
proof -
  have loop: "iv_all Q pre' \<and> iv_all Q post'"
    if "iv_all Q pre" "iv_all Q post" "Modify_loop ops s e check change prev pre post = (prev', pre', post')"
    for prev pre post prev' pre' post'
    using that
  proof (induction post arbitrary: prev pre)
    case (Cons x post)
    obtain k i where x: "x = (k, i)" by (cases x)
    have "Q i" using Cons.prems(2) x by simp
    then have "iv_all Q (Modify_item ops s e check change prev pre k i)"
      by (rule iv_all_Modify_item [OF Cons.prems(1) _ closed])
    then show ?case
      using Cons.IH [of "Modify_item ops s e check change prev pre k i" "Some k"] Cons.prems x
      by (cases "get_start ops i < e") auto
  qed simp
  obtain prev pre' post' where
    l: "Modify_loop ops s e check change (last_key (before_ub s m)) (before_ub s m) (upper_bound s m)
      = (prev, pre', post')"
    by (metis prod_cases3)
  have Q: "iv_all Q pre'" "iv_all Q post'"
    using loop [OF iv_all_parts(1,2) [OF assms(1)] l] by auto
  show ?thesis
  proof (cases post')
    case (Cons x post)
    obtain k i where x: "x = (k, i)" by (cases x)
    obtain i' p where mr: "merge_right ops prev i pre' = (i', p)" by fastforce
    have "Q i' \<and> iv_all Q p"
      by (rule iv_all_merge_right [OF Q(1) _ mr closed(6)]) (use Q(2) Cons x in auto)
    then show ?thesis using Q(2) Cons x mr l by (simp add: Modify_def)
  qed (use Q l in \<open>simp add: Modify_def\<close>)
qed

text \<open>The laws of the item type.\<close>

locale interval_data =
  fixes ops :: "'t interval_ops" and obs :: "'t \<Rightarrow> uintptr \<Rightarrow> 'd"
  assumes start_TrimTail: "n < get_end ops i \<Longrightarrow> get_start ops (TrimTail ops n i) = get_start ops i"
    and end_TrimTail: "n < get_end ops i \<Longrightarrow> get_end ops (TrimTail ops n i) = n"
    and obs_TrimTail: "n < get_end ops i \<Longrightarrow> obs (TrimTail ops n i) a = obs i a"
    and start_TrimHead: "get_start ops i < n \<Longrightarrow> get_start ops (TrimHead ops n i) = n"
    and end_TrimHead: "get_start ops i < n \<Longrightarrow> get_end ops (TrimHead ops n i) = get_end ops i"
    and obs_TrimHead: "get_start ops i < n \<Longrightarrow> obs (TrimHead ops n i) a = obs i a"
    and merge_adjacent: "TryMergeRight ops r l = Some i \<Longrightarrow> get_end ops l = get_start ops r"
    and merge_start: "TryMergeRight ops r l = Some i \<Longrightarrow> get_start ops i = get_start ops l"
    and merge_end: "TryMergeRight ops r l = Some i \<Longrightarrow> get_end ops i = get_end ops r"
    and merge_obs_left: "TryMergeRight ops r l = Some i \<Longrightarrow> obs i a = obs l a"
    and merge_obs_right: "TryMergeRight ops r l = Some i \<Longrightarrow> obs i a = obs r a"
begin

lemmas trim_laws = start_TrimTail end_TrimTail obs_TrimTail start_TrimHead end_TrimHead obs_TrimHead

lemmas merge_laws = merge_adjacent merge_start merge_end merge_obs_left merge_obs_right

lemma Clear_loop_done: "iv_ok ops lo post \<Longrightarrow> e \<le> lo \<Longrightarrow> Clear_loop ops s e pre post = (pre, post)"
  by (cases post) auto

lemma iv_view_append:
  "iv_view ops obs (xs @ ys) a =
     (case iv_view ops obs xs a of None \<Rightarrow> iv_view ops obs ys a | Some d \<Rightarrow> Some d)"
  by (simp add: iv_view_def iv_find_append split: option.split)

lemma iv_view_Cons:
  "iv_view ops obs ((k, i) # m) a = (if iv_covers ops a i then Some (obs i a) else iv_view ops obs m a)"
  by (simp add: iv_view_def)

lemma iv_view_Nil: "iv_view ops obs [] a = None"
  by (simp add: iv_view_def)

lemma iv_view_below: "iv_ok ops lo m \<Longrightarrow> a < lo \<Longrightarrow> iv_view ops obs m a = None"
  by (simp add: iv_view_def iv_find_below)

lemma iv_view_above: "iv_ok ops lo m \<Longrightarrow> iv_end lo m \<le> a \<Longrightarrow> iv_view ops obs m a = None"
  by (simp add: iv_view_def iv_find_above)

lemmas view_simps = iv_view_append iv_view_Cons iv_view_Nil iv_covers_def

lemma clear_left_part:
  assumes "iv_ok ops lo pre" "iv_end lo pre \<le> get_start ops item" "s < get_end ops item"
    "iv_end lo pre \<le> s"
    "pre1 = (if get_start ops item < s then map_insert s (TrimTail ops s item) pre else pre)"
  shows "iv_ok ops lo pre1" "iv_end lo pre1 \<le> s"
    "iv_view ops obs pre1 a =
      (if a < s then iv_view ops obs (pre @ [(get_end ops item, item)]) a else None)"
proof -
  have ins: "map_insert s (TrimTail ops s item) pre = pre @ [(s, TrimTail ops s item)]"
    if "get_start ops item < s"
    using that assms(1,2) by (intro map_insert_last) auto
  show "iv_ok ops lo pre1" "iv_end lo pre1 \<le> s"
    using assms ins by (auto simp: trim_laws)
  show "iv_view ops obs pre1 a =
      (if a < s then iv_view ops obs (pre @ [(get_end ops item, item)]) a else None)"
  proof (cases "get_start ops item < s")
    case True
    then show ?thesis
      using assms ins iv_view_above [OF assms(1)]
      by (auto simp: view_simps trim_laws split: option.split)
  next
    case False
    then show ?thesis
      using assms iv_view_above [OF assms(1), of a]
      by (auto simp: view_simps split: option.split)
  qed
qed

lemma Clear_loop_correct:
  assumes "iv_ok ops lo pre" "iv_end lo pre \<le> s" "s \<le> e"
    "iv_ok ops (iv_end lo pre) post" "post \<noteq> [] \<longrightarrow> s < fst (hd post)"
    "Clear_loop ops s e pre post = (pre', post')"
  shows "iv_ok ops lo (pre' @ post') \<and>
    iv_view ops obs (pre' @ post') a =
      (if s \<le> a \<and> a < e then None else iv_view ops obs (pre @ post) a)"
  using assms
proof (induction post arbitrary: pre)
  case Nil
  then show ?case using iv_view_above [OF Nil.prems(1), of a] by auto
next
  case (Cons x post)
  obtain k item where x: "x = (k, item)" by (cases x)
  define pre1 where
    "pre1 = (if get_start ops item < s then map_insert s (TrimTail ops s item) pre else pre)"
  have item: "get_end ops item = k" "iv_end lo pre \<le> get_start ops item" "get_start ops item < k"
      "iv_ok ops k post" "s < k"
    using Cons.prems x by auto
  have next_key: "post \<noteq> [] \<longrightarrow> s < fst (hd post)"
    using item by (cases post) auto
  have part: "iv_ok ops lo pre1" "iv_end lo pre1 \<le> s"
      "\<And>a. iv_view ops obs pre1 a =
        (if a < s then iv_view ops obs (pre @ [(get_end ops item, item)]) a else None)"
    using clear_left_part [OF Cons.prems(1) item(2) _ Cons.prems(2) pre1_def] item by auto
  have low: "iv_view ops obs pre a = None" if "s \<le> a"
    using iv_view_above [OF Cons.prems(1), of a] Cons.prems(2) that by simp
  consider (stop) "e \<le> get_start ops item" | (drop) "get_start ops item < e" "k \<le> e"
    | (split) "get_start ops item < e" "e < k"
    by fastforce
  then show ?case
  proof cases
    case stop
    then have "\<not> get_start ops item < e" by simp
    with Cons.prems(6) x have res: "pre' = pre" "post' = x # post" by simp_all
    have "iv_view ops obs post a = None" if "a < e"
      using iv_view_below [OF item(4), of a] that stop item(3) by auto
    then show ?thesis using Cons.prems res x low stop by (auto simp: view_simps)
  next
    case drop
    have "iv_ok ops (iv_end lo pre1) post"
      using iv_ok_mono [OF item(4)] part(2) item(5) by auto
    moreover have "Clear_loop ops s e pre1 post = (pre', post')"
      using Cons.prems(6) x drop item(1) by (simp add: pre1_def Let_def)
    ultimately have IH: "iv_ok ops lo (pre' @ post') \<and> iv_view ops obs (pre' @ post') a =
        (if s \<le> a \<and> a < e then None else iv_view ops obs (pre1 @ post) a)"
      using Cons.IH [OF part(1,2) Cons.prems(3) _ next_key] by blast
    show ?thesis
      using IH x item drop part(3) [of a] low by (auto simp: view_simps split: option.split)
  next
    case split
    then have "\<not> k \<le> e" by simp
    with split have res: "pre' = pre1 @ [(k, TrimHead ops e item)]" "post' = post"
      using Cons.prems(6) x item(1) Clear_loop_done [OF item(4), of e]
      by (simp_all add: pre1_def Let_def)
    have "iv_view ops obs post a = None" if "a < k"
      using iv_view_below [OF item(4), of a] that by auto
    then show ?thesis
      using res x item split part Cons.prems(3) low
      by (auto simp: view_simps trim_laws split: option.split)
  qed
qed

lemma clear_range_correct:
  assumes "iv_ok ops lo m" "lo \<le> s" "s \<le> e"
  shows "iv_ok ops lo (clear_range ops s e m)"
    "iv_view ops obs (clear_range ops s e m) a =
      (if s \<le> a \<and> a < e then None else iv_view ops obs m a)"
proof -
  have key: "upper_bound s m \<noteq> [] \<longrightarrow> s < fst (hd (upper_bound s m))"
    using upper_bound_hd [of s m] by (cases "upper_bound s m") auto
  obtain pre' post' where c: "Clear_loop ops s e (before_ub s m) (upper_bound s m) = (pre', post')"
    by (cases "Clear_loop ops s e (before_ub s m) (upper_bound s m)")
  show "iv_ok ops lo (clear_range ops s e m)"
    "iv_view ops obs (clear_range ops s e m) a =
      (if s \<le> a \<and> a < e then None else iv_view ops obs m a)"
    using Clear_loop_correct [OF iv_ok_split(1) [OF assms(1)] iv_end_before_ub [OF assms(2)] assms(3)
        iv_ok_split(2) [OF assms(1)] key c]
    by (simp_all add: clear_range_def Clear_def c)
qed

lemma merge_right_correct:
  assumes "iv_ok ops lo pre" "iv_end lo pre \<le> get_start ops rhs" "get_start ops rhs < get_end ops rhs"
    "merge_right ops prev rhs pre = (r, pre')"
  shows "get_end ops r = get_end ops rhs" "iv_ok ops lo (pre' @ [(get_end ops rhs, r)])"
    "iv_view ops obs (pre' @ [(get_end ops rhs, r)]) a = iv_view ops obs (pre @ [(get_end ops rhs, rhs)]) a"
proof -
  from assms(4) have "get_end ops r = get_end ops rhs \<and> iv_ok ops lo (pre' @ [(get_end ops rhs, r)]) \<and>
    iv_view ops obs (pre' @ [(get_end ops rhs, r)]) a = iv_view ops obs (pre @ [(get_end ops rhs, rhs)]) a"
  proof (cases rule: merge_right_cases)
    case same
    then show ?thesis using assms by auto
  next
    case (merged k l)
    have mem: "(k, l) \<in> set pre" using merged(2) by (rule map_of_SomeD)
    have k: "get_end ops l = k" "k = get_start ops rhs"
      using iv_ok_mem(1) [OF assms(1) mem] merge_adjacent [OF merged(3)] by auto
    then obtain p where p: "pre = p @ [(k, l)]" "pre' = p"
      using iv_ok_last_entry [OF assms(1) merged(2)] assms(2) merged(4) by metis
    note laws = merge_laws [OF merged(3)]
    have "get_start ops l < k" using assms(1) p by auto
    then have "get_start ops l < get_end ops rhs" using assms(3) k by simp
    then have "iv_ok ops lo (pre' @ [(get_end ops rhs, r)])"
      using assms(1) p laws(2,3) by simp
    moreover have "iv_covers ops a r \<longleftrightarrow> iv_covers ops a l \<or> iv_covers ops a rhs"
      using \<open>get_start ops l < k\<close> assms(3) k laws(2,3) by (auto simp: iv_covers_def)
    ultimately show ?thesis
      using p laws(3-5) by (auto simp: iv_view_append iv_view_Cons split: option.split)
  qed
  then show "get_end ops r = get_end ops rhs" "iv_ok ops lo (pre' @ [(get_end ops rhs, r)])"
    "iv_view ops obs (pre' @ [(get_end ops rhs, r)]) a = iv_view ops obs (pre @ [(get_end ops rhs, rhs)]) a"
    by auto
qed

text \<open>\<open>Insert\<close> places the item between the entries below and above the cleared range, then
  merges to the left and to the right.\<close>

lemma Insert_split:
  assumes "iv_ok ops lo m" "lo \<le> get_start ops item" "get_start ops item < get_end ops item"
  obtains A B where "clear_range ops (get_start ops item) (get_end ops item) m = A @ B"
    "iv_ok ops lo A" "iv_end lo A \<le> get_start ops item" "iv_ok ops (get_end ops item) B"
    "Insert ops item m = (case merge_right ops (last_key A) item A of (it, pre) \<Rightarrow>
       (case B of [] \<Rightarrow> pre @ [(get_end ops item, it)]
        | (kn, nxt) # B' \<Rightarrow>
            (case merge_right ops (Some (get_end ops item)) nxt (pre @ [(get_end ops item, it)]) of
               (nxt', pre2) \<Rightarrow> pre2 @ (kn, nxt') # B')))"
proof -
  define k where "k = get_end ops item"
  define cm where "cm = clear_range ops (get_start ops item) k m"
  have le: "get_start ops item \<le> get_end ops item" using assms(3) by simp
  note clr = clear_range_correct [OF assms(1,2) le, folded k_def, folded cm_def]
  have gap: "iv_find ops a cm = None" if "get_start ops item \<le> a" "a < k" for a
    using clr(2) [of a] that by (simp add: iv_view_def)
  have sk: "get_start ops item < k" using assms(3) k_def by simp
  obtain A B where AB: "cm = A @ B" "iv_ok ops lo A" "iv_end lo A \<le> get_start ops item" "iv_ok ops k B"
      "map_insert k item cm = A @ (k, item) # B"
      "takeWhile (\<lambda>(k', _). k' < k) (A @ (k, item) # B) = A"
      "dropWhile (\<lambda>(k', _). k' < k) (A @ (k, item) # B) = (k, item) # B"
    by (rule map_insert_gap [OF clr(1) assms(2) sk gap])
  show ?thesis
    by (rule that [of A B])
      (use AB in \<open>simp_all add: Insert_def Let_def k_def [symmetric] cm_def [symmetric]
          split: prod.split list.split\<close>)
qed

lemma Insert_correct:
  assumes "iv_ok ops lo m" "lo \<le> get_start ops item" "get_start ops item < get_end ops item"
  shows "iv_ok ops lo (Insert ops item m)"
    "iv_view ops obs (Insert ops item m) a =
      (if iv_covers ops a item then Some (obs item a) else iv_view ops obs m a)"
proof -
  let ?k = "get_end ops item"
  obtain A B where AB: "clear_range ops (get_start ops item) ?k m = A @ B"
      "iv_ok ops lo A" "iv_end lo A \<le> get_start ops item" "iv_ok ops ?k B"
    and ins: "Insert ops item m = (case merge_right ops (last_key A) item A of (it, pre) \<Rightarrow>
       (case B of [] \<Rightarrow> pre @ [(?k, it)]
        | (kn, nxt) # B' \<Rightarrow>
            (case merge_right ops (Some ?k) nxt (pre @ [(?k, it)]) of
               (nxt', pre2) \<Rightarrow> pre2 @ (kn, nxt') # B')))"
    by (rule Insert_split [OF assms])
  have clr: "iv_view ops obs (A @ B) a =
      (if get_start ops item \<le> a \<and> a < ?k then None else iv_view ops obs m a)"
    using clear_range_correct(2) [OF assms(1,2) order.strict_implies_order [OF assms(3)], of a] AB(1)
    by simp
  have view: "iv_view ops obs ((A @ [(?k, item)]) @ B) a =
      (if iv_covers ops a item then Some (obs item a) else iv_view ops obs m a)"
  proof (cases "iv_covers ops a item")
    case True
    then have "iv_view ops obs A a = None"
      using iv_view_above [OF AB(2), of a] AB(3) by (auto simp: iv_covers_def)
    then show ?thesis using True by (simp add: iv_view_append iv_view_Cons)
  next
    case False
    then show ?thesis
      using clr by (auto simp: view_simps split: option.split)
  qed
  obtain it pre where m1: "merge_right ops (last_key A) item A = (it, pre)" by fastforce
  note mr = merge_right_correct [OF AB(2,3) assms(3) m1]
  have "iv_ok ops lo (Insert ops item m) \<and> iv_view ops obs (Insert ops item m) a =
      iv_view ops obs ((A @ [(?k, item)]) @ B) a"
  proof (cases B)
    case Nil
    then show ?thesis using mr ins m1 by simp
  next
    case (Cons y B')
    obtain kn nxt where y: "y = (kn, nxt)" by (cases y)
    obtain nxt' pre2 where m2: "merge_right ops (Some ?k) nxt (pre @ [(?k, it)]) = (nxt', pre2)"
      by fastforce
    have ins2: "Insert ops item m = pre2 @ (kn, nxt') # B'" using ins m1 m2 Cons y by simp
    have nxt: "get_end ops nxt = kn" "?k \<le> get_start ops nxt" "get_start ops nxt < kn" "iv_ok ops kn B'"
      using AB(4) Cons y by auto
    have "iv_end lo (pre @ [(?k, it)]) \<le> get_start ops nxt" using nxt by simp
    note mr2 = merge_right_correct [OF mr(2) this _ m2, unfolded nxt(1), OF nxt(3)]
    have "iv_view ops obs (Insert ops item m) a = iv_view ops obs ((pre2 @ [(kn, nxt')]) @ B') a"
      using ins2 by simp
    also have "\<dots> = iv_view ops obs ((pre @ [(?k, it)]) @ (kn, nxt) # B') a"
      unfolding iv_view_append [of "pre2 @ [(kn, nxt')]"] mr2(3)
      by (simp add: iv_view_append iv_view_Cons iv_view_Nil split: option.split)
    also have "\<dots> = iv_view ops obs ((A @ [(?k, item)]) @ B) a"
      unfolding iv_view_append [of "pre @ [(?k, it)]"] mr(3) Cons y
      by (simp add: iv_view_append iv_view_Cons iv_view_Nil split: option.split)
    finally show ?thesis using ins2 mr2(2) nxt(4) by simp
  qed
  with view show "iv_ok ops lo (Insert ops item m)"
    "iv_view ops obs (Insert ops item m) a =
      (if iv_covers ops a item then Some (obs item a) else iv_view ops obs m a)"
    by auto
qed

lemma Find_correct:
  assumes "iv_ok ops lo m" "lo \<le> s"
  shows "Find ops s m = (case iv_find ops s m of None \<Rightarrow> Inl ENOENT | Some i \<Rightarrow> Inr i)"
proof -
  have "iv_find ops s m = iv_find ops s (upper_bound s m)"
    using iv_find_before_ub [OF assms] iv_find_append [of ops s "before_ub s m" "upper_bound s m"] by simp
  moreover have "Find ops s m =
      (case iv_find ops s (upper_bound s m) of None \<Rightarrow> Inl ENOENT | Some i \<Rightarrow> Inr i)"
  proof (cases "upper_bound s m")
    case (Cons x post)
    obtain k item where x: "x = (k, item)" by (cases x)
    have "s < k" using upper_bound_hd [of s m k item post] Cons x by simp
    moreover have "get_end ops item = k" "iv_ok ops k post"
      using iv_ok_split(2) [OF assms(1), of s] Cons x by auto
    ultimately show ?thesis
      using Cons x iv_find_below [of ops k post s] by (auto simp: Find_def iv_covers_def not_le)
  qed (simp add: Find_def)
  ultimately show ?thesis by simp
qed

lemma has_overlap_correct:
  assumes "iv_ok ops lo m" "lo \<le> s" "s < e"
  shows "has_overlap ops s e m \<longleftrightarrow> (\<exists>a. s \<le> a \<and> a < e \<and> iv_find ops a m \<noteq> None)"
proof (cases "upper_bound s m")
  case Nil
  then have "m = before_ub s m" using before_upper [of s m] by simp
  then have "iv_end lo m \<le> s" using iv_end_before_ub [OF assms(2)] by metis
  then have "iv_find ops a m = None" if "s \<le> a" for a
    using iv_find_above [OF assms(1)] that by simp
  then show ?thesis using Nil by (auto simp: has_overlap_def)
next
  case (Cons x post)
  obtain k item where x: "x = (k, item)" by (cases x)
  have mem: "(k, item) \<in> set m"
    using Cons x set_dropWhileD [of "(k, item)" "\<lambda>(k', _). k' \<le> s" m] by (auto simp: upper_bound_def)
  have key: "s < k" using upper_bound_hd [of s m k item post] Cons x by simp
  show ?thesis
  proof
    assume "has_overlap ops s e m"
    then have "get_start ops item < e" using Cons x by (simp add: has_overlap_def)
    then have "\<not> (k \<le> s \<or> e \<le> get_start ops item)" using key by (simp add: not_le)
    then show "\<exists>a. s \<le> a \<and> a < e \<and> iv_find ops a m \<noteq> None"
      using iv_gap [OF assms(1) _ assms(3) mem] by blast
  next
    assume "\<exists>a. s \<le> a \<and> a < e \<and> iv_find ops a m \<noteq> None"
    then obtain a where a: "s \<le> a" "a < e" "iv_find ops a m \<noteq> None" by blast
    have "iv_find ops a (before_ub s m) = None"
      using iv_find_above [OF iv_ok_split(1) [OF assms(1)]] iv_end_before_ub [OF assms(2), of m] a(1)
      by (meson order_trans)
    then have "iv_find ops a (upper_bound s m) \<noteq> None"
      using a(3) iv_find_append [of ops a "before_ub s m" "upper_bound s m"] by simp
    moreover have "iv_ok ops (get_start ops item) (upper_bound s m)"
      using iv_ok_split(2) [OF assms(1), of s] Cons x by auto
    ultimately have "get_start ops item \<le> a"
      using iv_find_below [of ops "get_start ops item" "upper_bound s m" a] by (metis not_le)
    then show "has_overlap ops s e m" using a(2) Cons x by (simp add: has_overlap_def)
  qed
qed

lemma free_from_top_gap:
  assumes "iv_ok ops lo m" "iv_end lo m \<le> up"
  shows "\<exists>A B. m = A @ B \<and> iv_end lo A \<le> free_from_top ops len up (rev m) \<and>
    iv_ok ops (free_from_top ops len up (rev m)) B \<and> free_from_top ops len up (rev m) \<le> up \<and>
    (A \<noteq> [] \<longrightarrow> len \<le> free_from_top ops len up (rev m) - iv_end lo A)"
  using assms
proof (induction m arbitrary: up rule: rev_induct)
  case Nil
  then show ?case by simp
next
  case (snoc x m)
  obtain k i where x: "x = (k, i)" by (cases x)
  have ok: "iv_ok ops lo m" "iv_end lo m \<le> get_start ops i" "get_end ops i = k" "get_start ops i < k" "k \<le> up"
    using snoc.prems x by auto
  show ?case
  proof (cases "up - k < len")
    case True
    let ?p = "free_from_top ops len (get_start ops i) (rev m)"
    obtain A B where AB: "m = A @ B" "iv_end lo A \<le> ?p" "iv_ok ops ?p B" "?p \<le> get_start ops i"
        "A \<noteq> [] \<longrightarrow> len \<le> ?p - iv_end lo A"
      using snoc.IH [OF ok(1,2)] by blast
    have "iv_end ?p B \<le> get_start ops i"
      using AB(1,4) ok(2) by (cases B rule: rev_cases) auto
    then have "iv_ok ops ?p (B @ [x])" using AB(3) x ok(3,4) by simp
    moreover have "?p \<le> up" using AB(4) ok(4,5) by simp
    ultimately show ?thesis
      using True x AB by (intro exI [of _ A] exI [of _ "B @ [x]"]) simp
  next
    case False
    moreover from this have "len \<le> up - k" by (simp add: not_less)
    ultimately show ?thesis
      using x ok(5) by (intro exI [of _ "m @ [x]"] exI [of _ "[]"]) simp
  qed
qed

lemma free_from_top_highest:
  assumes "iv_ok ops lo m" "iv_end lo m \<le> up" "unat g + unat len \<le> unat up" "0 < len"
    "\<And>a. g \<le> a \<Longrightarrow> a < g + len \<Longrightarrow> iv_find ops a m = None"
  shows "unat g + unat len \<le> unat (free_from_top ops len up (rev m))"
  using assms
proof (induction m arbitrary: up rule: rev_induct)
  case Nil
  then show ?case by simp
next
  case (snoc x m)
  obtain k i where x: "x = (k, i)" by (cases x)
  have ok: "iv_ok ops lo m" "iv_end lo m \<le> get_start ops i" "get_end ops i = k" "get_start ops i < k" "k \<le> up"
    using snoc.prems x by auto
  have sum: "unat (g + len) = unat g + unat len"
    using snoc.prems(3) unat_lt_64 [of up] by (intro unat_add_no_wrap) simp
  have lt: "g < g + len" using snoc.prems(4) sum by (simp add: word_less_nat_alt)
  have gap: "k \<le> g \<or> g + len \<le> get_start ops i"
    using iv_gap [OF snoc.prems(1) snoc.prems(5) lt, of k i] x by simp
  have free: "iv_find ops a m = None" if "g \<le> a" "a < g + len" for a
    using snoc.prems(5) [OF that] by (simp add: iv_find_append split: option.splits)
  show ?case
  proof (cases "up - k < len")
    case True
    have "\<not> k \<le> g"
    proof
      assume "k \<le> g"
      have "unat (up - k) < unat len" using True by (simp add: word_less_nat_alt)
      moreover have "unat (up - k) = unat up - unat k" using ok(5) by (rule unat_sub)
      ultimately show False using \<open>k \<le> g\<close> snoc.prems(3) by (simp add: word_le_nat_alt)
    qed
    with gap have "unat g + unat len \<le> unat (get_start ops i)"
      using sum by (simp add: word_le_nat_alt)
    then show ?thesis
      using snoc.IH [OF ok(1,2) _ snoc.prems(4) free] True x by simp
  next
    case False
    then show ?thesis using x snoc.prems(3) by simp
  qed
qed

lemma FindFreeRange_free:
  assumes "iv_ok ops lo m" "iv_end lo m \<le> up"
    "FindFreeRange ops 0 len up low m = Some (Inr a)" "unat a + unat len \<le> unat up"
    "a \<le> x" "x < a + len"
  shows "iv_find ops x m = None"
proof -
  let ?p = "free_from_top ops len up (rev m)"
  obtain A B where AB: "m = A @ B" "iv_end lo A \<le> ?p" "iv_ok ops ?p B" "?p \<le> up"
      "A \<noteq> [] \<longrightarrow> len \<le> ?p - iv_end lo A"
    using free_from_top_gap [OF assms(1,2)] by blast
  have a: "a = ?p - len"
    using assms(3) by (auto simp: FindFreeRange_def Let_def split: if_splits)
  have p: "?p = a + len" by (simp add: a)
  have sum: "unat ?p = unat a + unat len"
    unfolding p using assms(4) unat_lt_64 [of up] by (intro unat_add_no_wrap) simp
  have "iv_find ops x A = None"
  proof (cases "A = []")
    case False
    then have "unat len \<le> unat (?p - iv_end lo A)" using AB(5) by (simp add: word_le_nat_alt)
    also have "unat (?p - iv_end lo A) = unat ?p - unat (iv_end lo A)" using AB(2) by (rule unat_sub)
    finally have "unat (iv_end lo A) \<le> unat a"
      using sum False AB(2) by (simp add: word_le_nat_alt)
    then have "iv_end lo A \<le> x" using assms(5) by (simp add: word_le_nat_alt)
    moreover have "iv_ok ops lo A" using assms(1) AB(1) by simp
    ultimately show ?thesis by (simp add: iv_find_above)
  qed simp
  moreover have "iv_find ops x B = None"
    using iv_find_below [OF AB(3)] assms(6) p by simp
  ultimately show ?thesis using AB(1) by (simp add: iv_find_append)
qed

lemma FindFreeRange_complete:
  assumes "iv_ok ops lo m" "iv_end lo m \<le> up" "unat g + unat len \<le> unat up" "0 < len" "low \<le> g"
    "\<And>a. g \<le> a \<Longrightarrow> a < g + len \<Longrightarrow> iv_find ops a m = None"
  shows "\<exists>a. FindFreeRange ops 0 len up low m = Some (Inr a) \<and> g \<le> a \<and>
    unat a + unat len \<le> unat up"
proof -
  let ?p = "free_from_top ops len up (rev m)"
  have p: "unat g + unat len \<le> unat ?p"
    by (rule free_from_top_highest [OF assms(1-4,6)])
  have up: "?p \<le> up" using free_from_top_gap [OF assms(1,2)] by blast
  have "len \<le> ?p" using p by (simp add: word_le_nat_alt)
  then have diff: "unat (?p - len) = unat ?p - unat len" by (rule unat_sub)
  have g: "g \<le> ?p - len" using p diff by (simp add: word_le_nat_alt)
  then have "\<not> ?p - len < low" using assms(5) by simp
  moreover have "unat (?p - len) + unat len \<le> unat up"
    using p up diff by (simp add: word_le_nat_alt)
  ultimately show ?thesis using g by (simp add: FindFreeRange_def Let_def)
qed

lemma Modify_item_correct:
  assumes change: "\<And>i. get_start ops (change i) = get_start ops i"
      "\<And>i. get_end ops (change i) = get_end ops i" "\<And>i a. obs (change i) a = f (obs i a)"
    and skip: "\<And>i a. \<not> check i \<Longrightarrow> f (obs i a) = obs i a"
    and ok: "iv_ok ops lo pre" "iv_end lo pre \<le> get_start ops item" "get_start ops item < k"
      "get_end ops item = k" "s < k" "s < e" "get_start ops item < e"
    and res: "Modify_item ops s e check change prev pre k item = pre'"
  shows "iv_ok ops lo pre' \<and> iv_end lo pre' = k \<and>
    iv_view ops obs pre' a =
      (if iv_covers ops a item then Some (if s \<le> a \<and> a < e then f (obs item a) else obs item a)
       else iv_view ops obs pre a)"
proof -
  have pre_none: "iv_view ops obs pre a = None" if "get_start ops item \<le> a"
    using iv_view_above [OF ok(1), of a] ok(2) that by simp
  show ?thesis
  proof (cases "check item")
    case False
    obtain r p where m: "merge_right ops prev item pre = (r, p)" by fastforce
    note mr = merge_right_correct [OF ok(1,2) _ m, unfolded ok(4), OF ok(3)]
    have "pre' = p @ [(k, r)]" using res False m by (simp add: Modify_item_def)
    then show ?thesis
      using mr skip [OF False] pre_none by (auto simp: view_simps split: option.split)
  next
    case True
    define pre1 item1 where "pre1 = (if get_start ops item < s then pre @ [(s, TrimTail ops s item)] else pre)"
      and "item1 = (if get_start ops item < s then TrimHead ops s item else item)"
    have ins: "map_insert s (TrimTail ops s item) pre = pre @ [(s, TrimTail ops s item)]"
      if "get_start ops item < s"
      using that ok(1,2) by (intro map_insert_last) auto
    have one: "iv_ok ops lo pre1" "iv_end lo pre1 \<le> get_start ops item1" "get_end ops item1 = k"
        "get_start ops item1 = max s (get_start ops item)" "\<And>a. obs item1 a = obs item a"
      using ok by (auto simp: pre1_def item1_def trim_laws max_def not_less)
    have lt1: "get_start ops item1 < k" "get_start ops item1 < e" using one(4) ok by simp_all
    have view1: "iv_view ops obs pre1 a =
        (if iv_covers ops a item \<and> a < s then Some (obs item a) else iv_view ops obs pre a)"
      using ok pre_none by (auto simp: pre1_def view_simps trim_laws split: option.split)
    show ?thesis
    proof (cases "e < k")
      case inside: True
      let ?l = "TrimTail ops e item1"
      have l: "get_start ops (change ?l) = get_start ops item1" "get_end ops (change ?l) = e"
          "\<And>a. obs (change ?l) a = f (obs item a)"
        using inside one by (simp_all add: change trim_laws)
      obtain r p where m: "merge_right ops prev (change ?l) pre1 = (r, p)" by fastforce
      have lel: "iv_end lo pre1 \<le> get_start ops (change ?l)" using one(2) l(1) by simp
      note mr = merge_right_correct [OF one(1) lel _ m, unfolded l(1,2), OF lt1(2)]
      have "map_insert e r p = p @ [(e, r)]"
        using mr(2) by (intro map_insert_last [of ops lo]) auto
      then have pre': "pre' = (p @ [(e, r)]) @ [(k, TrimHead ops e item1)]"
        using res True m one(3) inside ins
        by (auto simp: Modify_item_def pre1_def item1_def split: if_splits)
      have "iv_view ops obs pre' a = iv_view ops obs ((pre1 @ [(e, change ?l)]) @ [(k, TrimHead ops e item1)]) a"
        unfolding pre' iv_view_append [of "p @ [(e, r)]"] mr(3) iv_view_append [of "pre1 @ [(e, change ?l)]"] ..
      also have "\<dots> = (if iv_covers ops a item
          then Some (if s \<le> a \<and> a < e then f (obs item a) else obs item a)
          else iv_view ops obs pre a)"
      proof -
        have mid: "iv_covers ops a (change ?l) \<longleftrightarrow> iv_covers ops a item \<and> s \<le> a \<and> a < e"
          using l one(4) ok(4) inside by (auto simp: iv_covers_def)
        have tail: "iv_covers ops a (TrimHead ops e item1) \<longleftrightarrow> iv_covers ops a item \<and> e \<le> a"
            "obs (TrimHead ops e item1) a = obs item a"
          using one(3,5) lt1(2) ok(4,7) by (auto simp: iv_covers_def trim_laws)
        have "iv_view ops obs pre a = None" if "iv_covers ops a item"
          using pre_none that by (simp add: iv_covers_def)
        moreover have "a < s \<Longrightarrow> a < e" using ok(6) by simp
        ultimately show ?thesis
          using view1 l(3) mid tail
          by (cases "iv_covers ops a item"; cases "a < s"; cases "a < e";
              cases "iv_view ops obs pre a")
            (simp_all add: iv_view_append iv_view_Cons iv_view_Nil not_less [symmetric])
      qed
      finally show ?thesis
        using mr(2) inside one(3) lt1(2) by (simp add: pre' trim_laws)
    next
      case outside: False
      let ?c = "change item1"
      obtain r p where m: "merge_right ops prev ?c pre1 = (r, p)" by fastforce
      have c: "get_start ops ?c = get_start ops item1" "get_end ops ?c = k"
          "\<And>a. obs ?c a = f (obs item a)"
        using one by (simp_all add: change)
      have lel: "iv_end lo pre1 \<le> get_start ops ?c" using one(2) c(1) by simp
      note mr = merge_right_correct [OF one(1) lel _ m, unfolded c(1,2), OF lt1(1)]
      have pre': "pre' = p @ [(k, r)]"
        using res True m one(3) outside ins
        by (auto simp: Modify_item_def pre1_def item1_def split: if_splits)
      have "iv_view ops obs pre' a = iv_view ops obs (pre1 @ [(k, ?c)]) a" using mr(3) pre' by simp
      moreover have "iv_covers ops a ?c \<longleftrightarrow> iv_covers ops a item \<and> \<not> a < s"
        using c one(4) ok(4) by (auto simp: iv_covers_def not_less)
      moreover have "iv_view ops obs pre a = None \<and> a < e" if "iv_covers ops a item"
        using pre_none that outside ok(4) by (auto simp: iv_covers_def not_less)
      ultimately have "iv_view ops obs pre' a = (if iv_covers ops a item
          then Some (if s \<le> a \<and> a < e then f (obs item a) else obs item a)
          else iv_view ops obs pre a)"
        using view1 c(3)
        by (cases "iv_covers ops a item"; cases "a < s"; cases "iv_view ops obs pre a")
          (simp_all add: iv_view_append iv_view_Cons iv_view_Nil not_less [symmetric])
      then show ?thesis using mr(2) pre' by simp
    qed
  qed
qed

lemma Modify_loop_correct:
  assumes change: "\<And>i. get_start ops (change i) = get_start ops i"
      "\<And>i. get_end ops (change i) = get_end ops i" "\<And>i a. obs (change i) a = f (obs i a)"
    and skip: "\<And>i a. \<not> check i \<Longrightarrow> f (obs i a) = obs i a"
    and "s < e" "iv_ok ops lo pre" "iv_ok ops (iv_end lo pre) post"
      "post \<noteq> [] \<longrightarrow> s < fst (hd post)"
      "Modify_loop ops s e check change prev pre post = (prev', pre', post')"
  shows "iv_ok ops lo (pre' @ post') \<and>
    iv_view ops obs (pre' @ post') a =
      (case iv_view ops obs pre a of Some d \<Rightarrow> Some d
       | None \<Rightarrow> if s \<le> a \<and> a < e then map_option f (iv_view ops obs post a)
           else iv_view ops obs post a)"
  using assms(5-)
proof (induction post arbitrary: prev pre)
  case Nil
  then show ?case by (simp add: iv_view_Nil split: option.split)
next
  case (Cons x post)
  obtain k item where x: "x = (k, item)" by (cases x)
  have item: "iv_end lo pre \<le> get_start ops item" "get_start ops item < k" "get_end ops item = k" "s < k"
      "iv_ok ops k post"
    using Cons.prems(3,4) x by simp_all
  have next_key: "post \<noteq> [] \<longrightarrow> s < fst (hd post)"
    using item(4,5) by (cases post) auto
  show ?case
  proof (cases "get_start ops item < e")
    case True
    define pre1 where "pre1 = Modify_item ops s e check change prev pre k item"
    have one: "iv_ok ops lo pre1 \<and> iv_end lo pre1 = k \<and> iv_view ops obs pre1 a =
      (if iv_covers ops a item then Some (if s \<le> a \<and> a < e then f (obs item a) else obs item a)
       else iv_view ops obs pre a)"
      using Modify_item_correct [OF change skip Cons.prems(2) item(1-4) Cons.prems(1) True pre1_def [symmetric]]
      by blast
    have loop: "Modify_loop ops s e check change (Some k) pre1 post = (prev', pre', post')"
      using Cons.prems(5) True x by (simp add: pre1_def)
    have "iv_view ops obs pre a = None" if "iv_covers ops a item"
      using iv_view_above [OF Cons.prems(2)] item(1) that by (auto simp: iv_covers_def)
    then show ?thesis
      using Cons.IH [OF Cons.prems(1) _ _ next_key loop] one item(5) x
      by (cases "iv_covers ops a item"; cases "iv_view ops obs pre a") (simp_all add: iv_view_Cons)
  next
    case False
    then have "iv_view ops obs (x # post) a = None" if "a < e"
      using iv_view_below [of "get_start ops item" "x # post" a] that x item by simp
    moreover have "pre' = pre" "post' = x # post" using Cons.prems(5) False x by simp_all
    ultimately show ?thesis
      using Cons.prems(2,3) by (simp add: iv_view_append split: option.split)
  qed
qed

lemma Modify_correct:
  assumes change: "\<And>i. get_start ops (change i) = get_start ops i"
      "\<And>i. get_end ops (change i) = get_end ops i" "\<And>i a. obs (change i) a = f (obs i a)"
    and skip: "\<And>i a. \<not> check i \<Longrightarrow> f (obs i a) = obs i a"
    and ok: "iv_ok ops lo m" "lo \<le> s" "s < e"
  shows "iv_ok ops lo (Modify ops s e check change m) \<and>
    iv_view ops obs (Modify ops s e check change m) a =
      (if s \<le> a \<and> a < e then map_option f (iv_view ops obs m a) else iv_view ops obs m a)"
proof -
  let ?pre = "before_ub s m" and ?post = "upper_bound s m"
  have key: "?post \<noteq> [] \<longrightarrow> s < fst (hd ?post)"
    using upper_bound_hd [of s m] by (cases ?post) auto
  obtain prev pre' post' where
    loop: "Modify_loop ops s e check change (last_key ?pre) ?pre ?post = (prev, pre', post')"
    by (metis prod_cases3)
  note spec = Modify_loop_correct [OF change skip ok(3) iv_ok_split [OF ok(1)] key loop, of a]
  have low: "iv_view ops obs ?pre a = None" if "s \<le> a"
    using iv_view_above [OF iv_ok_split(1) [OF ok(1)], of s a] iv_end_before_ub [OF ok(2), of m] that
    by simp
  have view: "iv_view ops obs (pre' @ post') a =
      (if s \<le> a \<and> a < e then map_option f (iv_view ops obs m a) else iv_view ops obs m a)"
    using spec low iv_view_append [of ?pre ?post a] by (auto split: option.split)
  show ?thesis
  proof (cases post')
    case Nil
    then show ?thesis using spec view loop by (simp add: Modify_def)
  next
    case (Cons x post)
    obtain k item where x: "x = (k, item)" by (cases x)
    obtain r p where m: "merge_right ops prev item pre' = (r, p)" by fastforce
    have res: "Modify ops s e check change m = p @ (k, r) # post"
      using loop Cons x m by (simp add: Modify_def)
    have okp: "iv_ok ops lo pre'" "iv_end lo pre' \<le> get_start ops item" "get_end ops item = k"
        "get_start ops item < k" "iv_ok ops k post"
      using spec Cons x by auto
    note mr = merge_right_correct [OF okp(1,2) _ m, unfolded okp(3), OF okp(4)]
    have "iv_view ops obs ((p @ [(k, r)]) @ post) a = iv_view ops obs ((pre' @ [(k, item)]) @ post) a"
      unfolding iv_view_append [of "p @ [(k, r)]"] iv_view_append [of "pre' @ [(k, item)]"] mr(3) ..
    then show ?thesis using res mr(2) okp(5) view Cons x by simp
  qed
qed

end

text \<open>Item types whose merging ignores how an item was trimmed: the operations then also keep
  the set free of neighbours that could be merged.\<close>

lemma iv_ok_last: "iv_ok ops lo xs \<Longrightarrow> xs \<noteq> [] \<Longrightarrow> get_end ops (snd (last xs)) = iv_end lo xs"
  by (cases xs rule: rev_cases) auto

lemma last_key_entry:
  assumes "iv_ok ops lo pre" "pre \<noteq> []"
  shows "last_key pre = Some (iv_end lo pre)" "map_of pre (iv_end lo pre) = Some (snd (last pre))"
proof -
  obtain p k l where pre: "pre = p @ [(k, l)]" using assms(2) by (cases pre rule: rev_cases) auto
  show "last_key pre = Some (iv_end lo pre)" using pre by (simp add: last_key_def)
  have "\<forall>y \<in> set p. fst y < k"
    using assms(1) pre iv_ok_mem(4) [of ops lo p] by fastforce
  then have "map_of p k = None" by (auto simp: map_of_eq_None_iff)
  then show "map_of pre (iv_end lo pre) = Some (snd (last pre))" using pre by (simp add: map_add_def)
qed

locale interval_merge = interval_data ops obs
  for ops :: "'t interval_ops" and obs :: "'t \<Rightarrow> uintptr \<Rightarrow> 'd" +
  assumes merge_TrimTail: "n < get_end ops r \<Longrightarrow>
      TryMergeRight ops (TrimTail ops n r) l = None \<longleftrightarrow> TryMergeRight ops r l = None"
    and merge_TrimHead: "get_start ops l < n \<Longrightarrow>
      TryMergeRight ops r (TrimHead ops n l) = None \<longleftrightarrow> TryMergeRight ops r l = None"
    and merge_into_left: "TryMergeRight ops r l = Some i \<Longrightarrow>
      TryMergeRight ops i p = None \<longleftrightarrow> TryMergeRight ops l p = None"
    and merge_into_right: "TryMergeRight ops r l = Some i \<Longrightarrow>
      TryMergeRight ops q i = None \<longleftrightarrow> TryMergeRight ops q r = None"
begin

lemma not_adjacent: "get_end ops l \<noteq> get_start ops r \<Longrightarrow> TryMergeRight ops r l = None"
  using merge_adjacent [of r l] by (cases "TryMergeRight ops r l") auto

lemma iv_maximal_apart:
  assumes "iv_ok ops lo xs" "iv_maximal ops xs" "iv_maximal ops ys"
    "ys \<noteq> [] \<longrightarrow> iv_end lo xs < get_start ops (snd (hd ys))"
  shows "iv_maximal ops (xs @ ys)"
  using assms iv_ok_last [OF assms(1)] not_adjacent [of "snd (last xs)" "snd (hd ys)"]
  by (auto simp: iv_maximal_append)

lemma merge_right_lhs:
  assumes "merge_right ops prev rhs pre = (r, pre')"
  shows "TryMergeRight ops q r = None \<longleftrightarrow> TryMergeRight ops q rhs = None"
  using assms by (cases rule: merge_right_cases) (auto simp: merge_into_right)

lemma merge_right_maximal:
  assumes "iv_ok ops lo pre" "iv_end lo pre \<le> get_start ops rhs" "iv_maximal ops pre"
    "merge_right ops (last_key pre) rhs pre = (r, pre')"
  shows "iv_maximal ops (pre' @ [(k, r)])"
proof (cases "pre = []")
  case True
  then have "pre' = []" using assms(4) by (simp add: merge_right_def last_key_def)
  then show ?thesis by simp
next
  case False
  note entry = last_key_entry [OF assms(1) False]
  from assms(4) show ?thesis
  proof (cases rule: merge_right_cases)
    case same
    show ?thesis
    proof (cases "TryMergeRight ops rhs (snd (last pre))")
      case None
      then show ?thesis using same assms(3) by (simp add: iv_maximal_append)
    next
      case (Some i)
      then have "pre' = map_erase (iv_end lo pre) pre" "r = i"
        using assms(4) entry by (auto simp: merge_right_def)
      moreover obtain p where "pre = p @ [(iv_end lo pre, snd (last pre))]" "map_erase (iv_end lo pre) pre = p"
        using iv_ok_last_entry [OF assms(1) entry(2)] by blast
      ultimately show ?thesis using same by (metis append_self_conv not_Cons_self2)
    qed
  next
    case (merged k' l)
    then have k': "k' = iv_end lo pre" "l = snd (last pre)" using entry by auto
    obtain p where p: "pre = p @ [(k', l)]" "pre' = p"
      using iv_ok_last_entry [OF assms(1) merged(2)] k' merged(4) by auto
    then show ?thesis
      using assms(3) merge_into_left [OF merged(3)] by (auto simp: iv_maximal_append)
  qed
qed

lemma Clear_loop_maximal:
  assumes "iv_ok ops lo pre" "iv_end lo pre \<le> s" "s < e"
    "iv_ok ops (iv_end lo pre) post" "post \<noteq> [] \<longrightarrow> s < fst (hd post)"
    "iv_maximal ops (pre @ post)" "Clear_loop ops s e pre post = (pre', post')"
  shows "iv_maximal ops (pre' @ post')"
  using assms
proof (induction post arbitrary: pre)
  case (Cons x post)
  obtain k item where x: "x = (k, item)" by (cases x)
  define pre1 where
    "pre1 = (if get_start ops item < s then map_insert s (TrimTail ops s item) pre else pre)"
  have item: "get_end ops item = k" "iv_end lo pre \<le> get_start ops item" "get_start ops item < k"
      "iv_ok ops k post" "s < k"
    using Cons.prems x by auto
  have next_key: "post \<noteq> [] \<longrightarrow> s < fst (hd post)"
    using item by (cases post) auto
  have part: "iv_ok ops lo pre1" "iv_end lo pre1 \<le> s"
    using clear_left_part(1,2) [OF Cons.prems(1) item(2) _ Cons.prems(2) pre1_def] item by auto
  have ins: "map_insert s (TrimTail ops s item) pre = pre @ [(s, TrimTail ops s item)]"
    if "get_start ops item < s"
    using that Cons.prems(1) item(2) by (intro map_insert_last) auto
  have max: "iv_maximal ops pre" "iv_maximal ops post"
      "pre \<noteq> [] \<Longrightarrow> TryMergeRight ops item (snd (last pre)) = None"
      "post \<noteq> [] \<Longrightarrow> TryMergeRight ops (snd (hd post)) item = None"
    using Cons.prems(6) x by (auto simp: iv_maximal_append iv_maximal_Cons)
  have max1: "iv_maximal ops pre1"
    using max(1,3) ins item(1,5) merge_TrimTail [of s item]
    by (simp add: pre1_def iv_maximal_append)
  show ?case
  proof (cases "get_start ops item < e")
    case False
    then show ?thesis using Cons.prems(6,7) x by auto
  next
    case low: True
    show ?thesis
    proof (cases "k \<le> e")
      case True
      have loop: "Clear_loop ops s e pre1 post = (pre', post')"
        using Cons.prems(7) x low True item(1) by (simp add: pre1_def Let_def)
      have "iv_ok ops (iv_end lo pre1) post"
        using iv_ok_mono [OF item(4)] part(2) item(5) by simp
      moreover have "iv_maximal ops (pre1 @ post)"
      proof (rule iv_maximal_apart [OF part(1) max1 max(2)])
        show "post \<noteq> [] \<longrightarrow> iv_end lo pre1 < get_start ops (snd (hd post))"
          using item(4,5) part(2) by (cases post) auto
      qed
      ultimately show ?thesis
        using Cons.IH [OF part Cons.prems(3) _ next_key _ loop] by blast
    next
      case False
      then have res: "pre' = pre1 @ [(k, TrimHead ops e item)]" "post' = post"
        using Cons.prems(7) x low item(1) Clear_loop_done [OF item(4), of e]
        by (simp_all add: pre1_def Let_def)
      have "iv_maximal ops ((k, TrimHead ops e item) # post)"
        using max(2,4) merge_TrimHead [OF low] by (simp add: iv_maximal_Cons)
      then have "iv_maximal ops (pre1 @ (k, TrimHead ops e item) # post)"
        using part(2) Cons.prems(3) low
        by (intro iv_maximal_apart [OF part(1) max1]) (simp_all add: trim_laws)
      then show ?thesis using res by simp
    qed
  qed
qed simp

lemma clear_range_maximal:
  assumes "iv_ok ops lo m" "iv_maximal ops m" "lo \<le> s" "s < e"
  shows "iv_maximal ops (clear_range ops s e m)"
proof -
  have key: "upper_bound s m \<noteq> [] \<longrightarrow> s < fst (hd (upper_bound s m))"
    using upper_bound_hd [of s m] by (cases "upper_bound s m") auto
  obtain pre' post' where c: "Clear_loop ops s e (before_ub s m) (upper_bound s m) = (pre', post')"
    by (cases "Clear_loop ops s e (before_ub s m) (upper_bound s m)")
  show ?thesis
    using Clear_loop_maximal [OF iv_ok_split(1) [OF assms(1)] iv_end_before_ub [OF assms(3)] assms(4)
        iv_ok_split(2) [OF assms(1)] key _ c] assms(2)
    by (simp add: clear_range_def Clear_def c)
qed

lemma Insert_maximal:
  assumes "iv_ok ops lo m" "iv_maximal ops m" "lo \<le> get_start ops item"
    "get_start ops item < get_end ops item"
  shows "iv_maximal ops (Insert ops item m)"
proof -
  let ?k = "get_end ops item"
  obtain A B where AB: "clear_range ops (get_start ops item) ?k m = A @ B"
      "iv_ok ops lo A" "iv_end lo A \<le> get_start ops item" "iv_ok ops ?k B"
    and ins: "Insert ops item m = (case merge_right ops (last_key A) item A of (it, pre) \<Rightarrow>
       (case B of [] \<Rightarrow> pre @ [(?k, it)]
        | (kn, nxt) # B' \<Rightarrow>
            (case merge_right ops (Some ?k) nxt (pre @ [(?k, it)]) of
               (nxt', pre2) \<Rightarrow> pre2 @ (kn, nxt') # B')))"
    by (rule Insert_split [OF assms(1,3,4)])
  have max: "iv_maximal ops A" "iv_maximal ops B"
    using clear_range_maximal [OF assms] AB(1) by (auto simp: iv_maximal_append)
  obtain it pre where m1: "merge_right ops (last_key A) item A = (it, pre)" by fastforce
  note ok1 = merge_right_correct(2) [OF AB(2,3) assms(4) m1]
  note max1 = merge_right_maximal [OF AB(2,3) max(1) m1, of ?k]
  show ?thesis
  proof (cases B)
    case Nil
    then show ?thesis using ins m1 max1 by simp
  next
    case (Cons y B')
    obtain kn nxt where y: "y = (kn, nxt)" by (cases y)
    obtain nxt' pre2 where m2: "merge_right ops (Some ?k) nxt (pre @ [(?k, it)]) = (nxt', pre2)"
      by fastforce
    have ins2: "Insert ops item m = pre2 @ (kn, nxt') # B'" using ins m1 m2 Cons y by simp
    have "iv_end lo (pre @ [(?k, it)]) \<le> get_start ops nxt" using AB(4) Cons y by simp
    moreover have "last_key (pre @ [(?k, it)]) = Some ?k" by (simp add: last_key_def)
    ultimately have max2: "iv_maximal ops (pre2 @ [(kn, nxt')])"
      using merge_right_maximal [OF ok1 _ max1, of nxt nxt' pre2 kn] m2 by simp
    have "B' \<noteq> [] \<Longrightarrow> TryMergeRight ops (snd (hd B')) nxt' = None" "iv_maximal ops B'"
      using max(2) Cons y merge_right_lhs [OF m2] by (auto simp: iv_maximal_Cons)
    then show ?thesis using ins2 max2 by (auto simp: iv_maximal_append iv_maximal_Cons)
  qed
qed

lemma Modify_item_maximal:
  assumes change: "\<And>i. get_start ops (change i) = get_start ops i"
      "\<And>i. get_end ops (change i) = get_end ops i"
    and check: "\<And>i. \<not> check (change i)" "\<And>n i. check (TrimTail ops n i) = check i"
      "\<And>n i. check (TrimHead ops n i) = check i"
      "\<And>l r. TryMergeRight ops r l \<noteq> None \<Longrightarrow> check l = check r"
    and ok: "iv_ok ops lo pre" "iv_end lo pre \<le> get_start ops item" "get_start ops item < k"
      "get_end ops item = k" "s < k" "s < e" "get_start ops item < e"
    and max: "iv_maximal ops pre"
      "get_start ops item < s \<Longrightarrow> pre \<noteq> [] \<Longrightarrow> TryMergeRight ops item (snd (last pre)) = None"
  shows "iv_maximal ops (Modify_item ops s e check change (last_key pre) pre k item)"
proof (cases "check item")
  case False
  obtain r p where m: "merge_right ops (last_key pre) item pre = (r, p)" by fastforce
  then show ?thesis
    using False merge_right_maximal [OF ok(1,2) max(1) m] by (simp add: Modify_item_def)
next
  case True
  have differ: "TryMergeRight ops r l = None" if "check l \<noteq> check r" for l r
    using check(4) [of r l] that by blast
  define pre1 item1 where "pre1 = (if get_start ops item < s then pre @ [(s, TrimTail ops s item)] else pre)"
    and "item1 = (if get_start ops item < s then TrimHead ops s item else item)"
  have ins: "map_insert s (TrimTail ops s item) pre = pre @ [(s, TrimTail ops s item)]"
    if "get_start ops item < s"
    using that ok(1,2) by (intro map_insert_last) auto
  have one: "iv_ok ops lo pre1" "iv_end lo pre1 \<le> get_start ops item1" "get_end ops item1 = k"
      "get_start ops item1 = max s (get_start ops item)" "check item1"
    using ok True by (auto simp: pre1_def item1_def trim_laws check(1-3) max_def not_less)
  have lt1: "get_start ops item1 < k" "get_start ops item1 < e" using one(4) ok by simp_all
  have max1: "iv_maximal ops pre1"
    using max merge_TrimTail [of s item] ok(4,5) by (simp add: pre1_def iv_maximal_append)
  have mrg: "iv_maximal ops (p @ [(k', r)])"
    if m: "merge_right ops (last_key pre) c pre1 = (r, p)" and c: "get_start ops c = get_start ops item1"
      "\<not> check c" for c r p k'
  proof (cases "get_start ops item < s")
    case True
    have apart: "\<not> (map_of pre1 x = Some l \<and> TryMergeRight ops c l \<noteq> None)" if "last_key pre = Some x" for x l
    proof
      assume asm: "map_of pre1 x = Some l \<and> TryMergeRight ops c l \<noteq> None"
      have pre: "pre \<noteq> []" using that by (auto simp: last_key_def)
      have x: "x = iv_end lo pre" using that last_key_entry(1) [OF ok(1) pre] by simp
      have "get_end ops l = x" using asm iv_ok_mem(1) [OF one(1)] map_of_SomeD by fast
      moreover have "get_end ops l = get_start ops c" using asm not_adjacent [of l c] by (rule_tac ccontr) simp
      ultimately show False using x ok(2) True c(1) one(4) by simp
    qed
    from m have "r = c" "p = pre1"
      by (cases rule: merge_right_cases; use apart in auto)+
    then show ?thesis
      using max1 True differ [of "TrimTail ops s item" c] c(2) \<open>check item\<close>
      by (simp add: iv_maximal_append pre1_def check(1-3))
  next
    case False
    then show ?thesis
      using merge_right_maximal [of lo pre c r p k'] ok(1) one(2) c(1) max(1) m by (simp add: pre1_def)
  qed
  show ?thesis
  proof (cases "e < k")
    case inside: True
    let ?l = "change (TrimTail ops e item1)"
    have l: "get_start ops ?l = get_start ops item1" "get_end ops ?l = e"
      using inside one by (simp_all add: change trim_laws)
    obtain r p where m: "merge_right ops (last_key pre) ?l pre1 = (r, p)" by fastforce
    have lel: "iv_end lo pre1 \<le> get_start ops ?l" using one(2) l(1) by simp
    note mr = merge_right_correct(2) [OF one(1) lel _ m, unfolded l(1,2), OF lt1(2)]
    have "map_insert e r p = p @ [(e, r)]"
      using mr by (intro map_insert_last [of ops lo]) auto
    then have res: "Modify_item ops s e check change (last_key pre) pre k item =
        (p @ [(e, r)]) @ [(k, TrimHead ops e item1)]"
      using True m one(3) inside ins
      by (auto simp: Modify_item_def pre1_def item1_def split: if_splits)
    have "TryMergeRight ops (TrimHead ops e item1) r = None"
      using merge_right_lhs [OF m] differ [of ?l "TrimHead ops e item1"] one(5) by (simp add: check(1-3))
    then show ?thesis
      unfolding res iv_maximal_append [of ops "p @ [(e, r)]"] using mrg [OF m l(1) check(1)] by simp
  next
    case outside: False
    obtain r p where m: "merge_right ops (last_key pre) (change item1) pre1 = (r, p)" by fastforce
    have "Modify_item ops s e check change (last_key pre) pre k item = p @ [(k, r)]"
      using True m one(3) outside ins
      by (auto simp: Modify_item_def pre1_def item1_def split: if_splits)
    then show ?thesis using mrg [OF m _ check(1)] change(1) by simp
  qed
qed

lemma Modify_loop_maximal:
  assumes change: "\<And>i. get_start ops (change i) = get_start ops i"
      "\<And>i. get_end ops (change i) = get_end ops i" "\<And>i a. obs (change i) a = f (obs i a)"
    and skip: "\<And>i a. \<not> check i \<Longrightarrow> f (obs i a) = obs i a"
    and check: "\<And>i. \<not> check (change i)" "\<And>n i. check (TrimTail ops n i) = check i"
      "\<And>n i. check (TrimHead ops n i) = check i"
      "\<And>l r. TryMergeRight ops r l \<noteq> None \<Longrightarrow> check l = check r"
    and "s < e" "iv_ok ops lo pre" "iv_ok ops (iv_end lo pre) post"
      "post \<noteq> [] \<longrightarrow> s < fst (hd post)" "iv_maximal ops pre" "iv_maximal ops post"
      "post \<noteq> [] \<longrightarrow> pre \<noteq> [] \<longrightarrow> get_start ops (snd (hd post)) < s \<longrightarrow>
         TryMergeRight ops (snd (hd post)) (snd (last pre)) = None"
      "Modify_loop ops s e check change (last_key pre) pre post = (prev', pre', post')"
  shows "iv_maximal ops pre' \<and> iv_maximal ops post' \<and> prev' = last_key pre'"
  using assms(9-)
proof (induction post arbitrary: pre)
  case (Cons x post)
  obtain k item where x: "x = (k, item)" by (cases x)
  have item: "iv_end lo pre \<le> get_start ops item" "get_start ops item < k" "get_end ops item = k" "s < k"
      "iv_ok ops k post"
    using Cons.prems(3,4) x by simp_all
  have post: "post \<noteq> [] \<longrightarrow> s < fst (hd post)" "post \<noteq> [] \<longrightarrow> \<not> get_start ops (snd (hd post)) < s"
    using item(4,5) by (cases post; auto)+
  show ?case
  proof (cases "get_start ops item < e")
    case True
    define pre1 where "pre1 = Modify_item ops s e check change (last_key pre) pre k item"
    have one: "iv_ok ops lo pre1" "iv_end lo pre1 = k"
      using Modify_item_correct [OF change skip Cons.prems(2) item(1-4) Cons.prems(1) True pre1_def [symmetric]]
      by blast+
    have bound: "TryMergeRight ops item (snd (last pre)) = None" if "get_start ops item < s" "pre \<noteq> []"
      using Cons.prems(7) x that by simp
    have max1: "iv_maximal ops pre1"
      unfolding pre1_def
      by (rule Modify_item_maximal [OF change(1,2) check Cons.prems(2) item(1-4) Cons.prems(1) True
            Cons.prems(5) bound])
    have "pre1 \<noteq> []" using one(2) item
      unfolding pre1_def Modify_item_def by (auto split: prod.split)
    then have key: "last_key pre1 = Some k" using last_key_entry(1) [OF one(1)] one(2) by simp
    have loop: "Modify_loop ops s e check change (last_key pre1) pre1 post = (prev', pre', post')"
      using Cons.prems(8) True x key by (simp add: pre1_def)
    have "iv_maximal ops post" using Cons.prems(6) x by (simp add: iv_maximal_Cons)
    then show ?thesis
      using Cons.IH [OF Cons.prems(1) one(1) _ post(1) max1 _ _ loop] one(2) item(5) post(2) by simp
  next
    case False
    then show ?thesis using Cons.prems x by auto
  qed
qed auto

lemma Modify_maximal:
  assumes change: "\<And>i. get_start ops (change i) = get_start ops i"
      "\<And>i. get_end ops (change i) = get_end ops i" "\<And>i a. obs (change i) a = f (obs i a)"
    and skip: "\<And>i a. \<not> check i \<Longrightarrow> f (obs i a) = obs i a"
    and check: "\<And>i. \<not> check (change i)" "\<And>n i. check (TrimTail ops n i) = check i"
      "\<And>n i. check (TrimHead ops n i) = check i"
      "\<And>l r. TryMergeRight ops r l \<noteq> None \<Longrightarrow> check l = check r"
    and ok: "iv_ok ops lo m" "iv_maximal ops m" "lo \<le> s" "s < e"
  shows "iv_maximal ops (Modify ops s e check change m)"
proof -
  let ?pre = "before_ub s m" and ?post = "upper_bound s m"
  have key: "?post \<noteq> [] \<longrightarrow> s < fst (hd ?post)"
    using upper_bound_hd [of s m] by (cases ?post) auto
  obtain prev pre' post' where
    loop: "Modify_loop ops s e check change (last_key ?pre) ?pre ?post = (prev, pre', post')"
    by (metis prod_cases3)
  have split: "iv_maximal ops ?pre \<and> iv_maximal ops ?post \<and> (?pre \<noteq> [] \<longrightarrow> ?post \<noteq> [] \<longrightarrow>
      TryMergeRight ops (snd (hd ?post)) (snd (last ?pre)) = None)"
    using ok(2) iv_maximal_append [of ops ?pre ?post] by simp
  have max: "iv_maximal ops pre' \<and> iv_maximal ops post' \<and> prev = last_key pre'"
    by (rule Modify_loop_maximal [OF change skip check ok(4) iv_ok_split [OF ok(1)] key _ _ _ loop])
      (use split in auto)
  have okl: "iv_ok ops lo (pre' @ post')"
    using Modify_loop_correct [OF change skip ok(4) iv_ok_split [OF ok(1)] key loop] by blast
  show ?thesis
  proof (cases post')
    case Nil
    then show ?thesis using max loop by (simp add: Modify_def)
  next
    case (Cons x post)
    obtain k item where x: "x = (k, item)" by (cases x)
    obtain r p where m: "merge_right ops prev item pre' = (r, p)" by fastforce
    have res: "Modify ops s e check change m = (p @ [(k, r)]) @ post"
      using loop Cons x m by (simp add: Modify_def)
    have "iv_maximal ops (p @ [(k, r)])"
      using merge_right_maximal [of lo pre' item r p k] okl Cons x max m by auto
    moreover have "iv_maximal ops post" "post \<noteq> [] \<Longrightarrow> TryMergeRight ops (snd (hd post)) r = None"
      using max Cons x merge_right_lhs [OF m] by (auto simp: iv_maximal_Cons)
    ultimately show ?thesis unfolding res iv_maximal_append [of ops "p @ [(k, r)]"] by simp
  qed
qed

end

subsection \<open>The plain interval\<close>

lemmas simple_defs = simple_ops_def SimpleInterval_TrimTail_def SimpleInterval_TrimHead_def
  SimpleInterval_TryMergeRight_def

interpretation si: interval_merge simple_ops "\<lambda>_ _. ()"
  by unfold_locales (auto simp: simple_defs split: if_splits)

definition simple_set :: "(uintptr \<times> uintptr) list \<Rightarrow> SimpleInterval interval_map" where
  "simple_set ivs = map (\<lambda>(s, e). (e, \<lparr>si_start = s, si_end = e\<rparr>)) ivs"

text \<open>An address chosen without a hint by \<open>FindFreeRange\<close>, in a set of disjoint intervals
  below the upper limit, is at or above the lower limit, and the whole range that starts there is
  free, provided the range did not wrap below zero.\<close>

theorem FindFreeRange_returns_free:
  assumes "iv_ok simple_ops 0 m" "iv_end 0 m \<le> upper_lim"
    "FindFreeRange simple_ops 0 len upper_lim lower_lim m = Some (Inr a)"
    "unat a + unat len \<le> unat upper_lim"
  shows "lower_lim \<le> a \<and> (\<forall>x. a \<le> x \<and> x < a + len \<longrightarrow> iv_find simple_ops x m = None)"
proof -
  have "lower_lim \<le> a"
    using assms(3) by (auto simp: FindFreeRange_def Let_def not_less split: if_splits)
  then show ?thesis using si.FindFreeRange_free [OF assms] by blast
qed

lemmas simple_eval = simple_set_def simple_defs upper_bound_def before_ub_def iv_covers_def
  FindFreeRange_def find_hint_def Let_def

theorem FindFreeRange_returns_free_witness:
  "0x3000 \<le> (0x4000::uintptr) \<and>
   iv_find simple_ops 0x4800 (simple_set [(0x1000, 0x4000), (0x5000, 0x8000)]) = None"
proof -
  let ?m = "simple_set [(0x1000, 0x4000), (0x5000, 0x8000)]"
  have "0x3000 \<le> (0x4000::uintptr) \<and> (\<forall>x. 0x4000 \<le> x \<and> x < 0x4000 + 0x1000 \<longrightarrow> iv_find simple_ops x ?m = None)"
    using FindFreeRange_returns_free [of ?m "0x8000" "0x1000" "0x3000" "0x4000"] by (simp add: simple_eval)
  then show ?thesis by simp
qed



text \<open>With a lower limit of zero the search never reports exhaustion, whatever the length and
  whatever is already allocated: the address wraps around instead.  This is how the global address
  pool calls it.\<close>

lemma FindFreeRange_never_exhausted:
  "FindFreeRange simple_ops 0 len upper_lim 0 m =
     Some (Inr (free_from_top simple_ops len upper_lim (rev m) - len))"
  by (simp add: FindFreeRange_def Let_def)

text \<open>With a hint, the range placed before the second interval of a set is not checked against
  the first one: the address returned for this set lies inside an interval already allocated.\<close>

lemma FindFreeRange_hint_overlaps:
  "\<exists>a. FindFreeRange simple_ops 0x3800 0x1800 0x8000 0
          (simple_set [(0x1000, 0x2000), (0x3000, 0x5000)]) = Some (Inr a) \<and>
       has_overlap simple_ops a (a + 0x1800) (simple_set [(0x1000, 0x2000), (0x3000, 0x5000)])"
  by (simp add: simple_eval has_overlap_def)

end
