(* ===== verification/MemoryMap.thy ===== *)
theory MemoryMap
  imports IntervalSet Bits
begin

text \<open>
  Memory mappings of a process: \<^verbatim>\<open>src/junction/kernel/mm.h\<close> and
  \<^verbatim>\<open>src/junction/kernel/mm.cc\<close>.

  A \<open>VMArea\<close> is an item of the exclusive interval set; \<open>MemoryMap\<close> holds the set of
  the process, the bounds of its region and the break address.  The pool of address ranges
  \<open>mem_areas_\<close> shared by all memory maps is a separate argument.  The host kernel is the record
  \<open>kernel\<close>: its system calls are functions of their arguments that return what the kernel
  returned.  A failed interruptible lock acquisition is the argument \<open>intr\<close>.  A call of
  \<open>FindFreeRange\<close> whose behaviour is undefined makes the whole operation undefined
  (\<open>None\<close>).
\<close>

subsection \<open>Areas\<close>

datatype VMType = kNormal | kHeap | kStack | kFile

record VMArea =
  va_start :: uintptr
  va_end :: uintptr
  va_prot :: i32
  va_traced :: bool
  va_type :: VMType
  va_file :: "nat option"
  va_offset :: u64

definition PROT_NONE :: i32 where "PROT_NONE = 0"
definition PROT_READ :: i32 where "PROT_READ = 1"
definition PROT_WRITE :: i32 where "PROT_WRITE = 2"
definition PROT_EXEC :: i32 where "PROT_EXEC = 4"
definition MAP_SHARED :: i32 where "MAP_SHARED = 1"
definition MAP_PRIVATE :: i32 where "MAP_PRIVATE = 2"
definition MAP_SHARED_VALIDATE :: i32 where "MAP_SHARED_VALIDATE = 3"
definition MAP_FIXED :: i32 where "MAP_FIXED = 0x10"
definition MAP_ANONYMOUS :: i32 where "MAP_ANONYMOUS = 0x20"
definition MAP_POPULATE :: i32 where "MAP_POPULATE = 0x8000"
definition MAP_STACK :: i32 where "MAP_STACK = 0x20000"
definition MAP_FIXED_NOREPLACE :: i32 where "MAP_FIXED_NOREPLACE = 0x100000"
definition MADV_DONTNEED :: i32 where "MADV_DONTNEED = 4"
definition MADV_FREE :: i32 where "MADV_FREE = 8"
definition MADV_POPULATE_READ :: i32 where "MADV_POPULATE_READ = 22"

lemmas mm_consts = PROT_NONE_def PROT_READ_def PROT_WRITE_def PROT_EXEC_def MAP_SHARED_def
  MAP_PRIVATE_def MAP_SHARED_VALIDATE_def MAP_FIXED_def MAP_ANONYMOUS_def MAP_POPULATE_def
  MAP_STACK_def MAP_FIXED_NOREPLACE_def MADV_DONTNEED_def MADV_FREE_def MADV_POPULATE_READ_def

definition kVirtualAreaMax :: uintptr where
  "kVirtualAreaMax = 0x500000000000"

definition VMArea_anon :: "uintptr \<Rightarrow> u64 \<Rightarrow> i32 \<Rightarrow> VMType \<Rightarrow> VMArea" where
  "VMArea_anon addr len prot type = \<lparr>va_start = addr, va_end = addr + len, va_prot = prot,
     va_traced = False, va_type = type, va_file = None, va_offset = 0\<rparr>"

definition VMArea_file :: "uintptr \<Rightarrow> u64 \<Rightarrow> i32 \<Rightarrow> nat \<Rightarrow> u64 \<Rightarrow> VMArea" where
  "VMArea_file addr len prot file offset = \<lparr>va_start = addr, va_end = addr + len, va_prot = prot,
     va_traced = False, va_type = kFile, va_file = Some file, va_offset = offset\<rparr>"

definition Length :: "VMArea \<Rightarrow> u64" where
  "Length v = va_end v - va_start v"

definition DataLength :: "(nat \<Rightarrow> u64) \<Rightarrow> VMArea \<Rightarrow> u64" where
  "DataLength get_size v =
     (if va_type v \<noteq> kFile then Length v
      else (case va_file v of None \<Rightarrow> Length v
            | Some f \<Rightarrow>
                let sz = get_size f in
                if va_offset v > sz then 0
                else min (PageAlign (sz - va_offset v)) (Length v)))"

definition ProtString :: "VMArea \<Rightarrow> string" where
  "ProtString v =
     [if va_prot v AND PROT_READ \<noteq> 0 then CHR ''r'' else CHR ''-'',
      if va_prot v AND PROT_WRITE \<noteq> 0 then CHR ''w'' else CHR ''-'',
      if va_prot v AND PROT_EXEC \<noteq> 0 then CHR ''x'' else CHR ''-'',
      CHR ''p'']"

definition TypeString :: "(nat \<Rightarrow> string) \<Rightarrow> VMArea \<Rightarrow> string" where
  "TypeString get_filename v =
     (case va_type v of kNormal \<Rightarrow> [] | kHeap \<Rightarrow> ''[heap]'' | kStack \<Rightarrow> ''[stack]''
      | kFile \<Rightarrow> (case va_file v of None \<Rightarrow> [] | Some f \<Rightarrow> get_filename f))"

definition VMArea_TrimTail :: "uintptr \<Rightarrow> VMArea \<Rightarrow> VMArea" where
  "VMArea_TrimTail new_end v = v\<lparr>va_end := new_end\<rparr>"

definition VMArea_TrimHead :: "uintptr \<Rightarrow> VMArea \<Rightarrow> VMArea" where
  "VMArea_TrimHead new_start v =
     (if va_type v = kFile then v\<lparr>va_offset := va_offset v + (new_start - va_start v)\<rparr> else v)
     \<lparr>va_start := new_start\<rparr>"

definition MappingsMergeable :: "VMArea \<Rightarrow> VMArea \<Rightarrow> bool" where
  "MappingsMergeable lhs rhs =
     (if va_end lhs \<noteq> va_start rhs \<or> va_type lhs \<noteq> va_type rhs \<or> va_prot lhs \<noteq> va_prot rhs then False
      else if va_traced lhs \<noteq> va_traced rhs then False
      else if va_type lhs = kFile then
        (if va_offset lhs + Length lhs \<noteq> va_offset rhs then False
         else va_file lhs = va_file rhs)
      else True)"

definition VMArea_TryMergeRight :: "VMArea \<Rightarrow> VMArea \<Rightarrow> VMArea option" where
  "VMArea_TryMergeRight rhs lhs =
     (if \<not> MappingsMergeable lhs rhs then None
      else Some (rhs\<lparr>va_start := va_start lhs, va_offset := va_offset lhs\<rparr>))"

definition vma_ops :: "VMArea interval_ops" where
  "vma_ops = \<lparr>get_start = va_start, get_end = va_end, TrimTail = VMArea_TrimTail,
     TrimHead = VMArea_TrimHead, TryMergeRight = VMArea_TryMergeRight\<rparr>"

text \<open>The loop of \<open>MappingsValid\<close>: \<open>prev\<close> is the previous area, initially the first.\<close>

fun MappingsValid_loop :: "uintptr \<Rightarrow> VMArea \<Rightarrow> VMArea interval_map \<Rightarrow> bool" where
  "MappingsValid_loop last_end prev [] = True"
| "MappingsValid_loop last_end prev ((k, v) # m) =
     (if k \<noteq> va_end v then False
      else if va_start v \<ge> va_end v then False
      else if \<not> IsPageAligned (va_start v) \<or> \<not> IsPageAligned (va_end v) then False
      else if va_type v = kFile \<and> va_file v = None then False
      else if va_type v \<noteq> kFile \<and> va_file v \<noteq> None then False
      else if last_end > va_start v then False
      else if MappingsMergeable prev v then False
      else MappingsValid_loop (va_end v) v m)"

definition MappingsValid :: "VMArea interval_map \<Rightarrow> bool" where
  "MappingsValid m = (case m of [] \<Rightarrow> True | (k, v) # _ \<Rightarrow> MappingsValid_loop 0 v m)"

subsection \<open>The host kernel\<close>

record kernel =
  ksys_mmap :: "uintptr \<Rightarrow> u64 \<Rightarrow> i32 \<Rightarrow> i32 \<Rightarrow> int"
  ksys_munmap :: "uintptr \<Rightarrow> u64 \<Rightarrow> int"
  ksys_mprotect :: "uintptr \<Rightarrow> u64 \<Rightarrow> i32 \<Rightarrow> int"
  ksys_madvise :: "uintptr \<Rightarrow> u64 \<Rightarrow> i32 \<Rightarrow> int"
  file_MMap :: "nat \<Rightarrow> uintptr \<Rightarrow> u64 \<Rightarrow> i32 \<Rightarrow> i32 \<Rightarrow> u64 \<Rightarrow> uintptr Status"

definition KernelMMap :: "kernel \<Rightarrow> uintptr \<Rightarrow> u64 \<Rightarrow> i32 \<Rightarrow> i32 \<Rightarrow> uintptr Status" where
  "KernelMMap k addr len prot flags =
     (let ret = ksys_mmap k addr len prot (flags OR (MAP_ANONYMOUS OR MAP_PRIVATE))
      in if ret < 0 then Inl (- ret) else Inr (word_of_int ret))"

definition KernelMMapFixed :: "kernel \<Rightarrow> uintptr \<Rightarrow> u64 \<Rightarrow> i32 \<Rightarrow> i32 \<Rightarrow> unit Status" where
  "KernelMMapFixed k addr len prot flags =
     (let ret = ksys_mmap k addr len prot (flags OR (MAP_ANONYMOUS OR MAP_FIXED OR MAP_PRIVATE))
      in if ret < 0 then Inl (- ret) else Inr ())"

definition KernelMUnmap :: "kernel \<Rightarrow> uintptr \<Rightarrow> u64 \<Rightarrow> unit Status" where
  "KernelMUnmap k addr len =
     (let ret = ksys_munmap k addr len in if ret < 0 then Inl (- ret) else Inr ())"

definition KernelMProtect :: "kernel \<Rightarrow> uintptr \<Rightarrow> u64 \<Rightarrow> i32 \<Rightarrow> unit Status" where
  "KernelMProtect k addr len prot =
     (let ret = ksys_mprotect k addr len prot in if ret < 0 then Inl (- ret) else Inr ())"

definition KernelMAdvise :: "kernel \<Rightarrow> uintptr \<Rightarrow> u64 \<Rightarrow> i32 \<Rightarrow> unit Status" where
  "KernelMAdvise k addr len hint =
     (let ret = ksys_madvise k addr len hint in if ret < 0 then Inl (- ret) else Inr ())"

subsection \<open>The memory map\<close>

record PageAccessTracer =
  access_at :: "uintptr \<rightharpoonup> u64"
  page_writes :: "uintptr set"

record MemoryMap =
  mm_start :: uintptr
  mm_end :: uintptr
  brk_addr :: uintptr
  vmareas :: "VMArea interval_map"
  tracer :: "PageAccessTracer option"
  is_non_reloc :: bool
  is_fake_map :: bool

type_synonym mem_pool = "SimpleInterval interval_map"

definition MemoryMap_new :: "uintptr \<Rightarrow> u64 \<Rightarrow> MemoryMap" where
  "MemoryMap_new base len = \<lparr>mm_start = base, mm_end = base + len, brk_addr = base, vmareas = [],
     tracer = None, is_non_reloc = False, is_fake_map = False\<rparr>"

definition TraceEnabled :: "MemoryMap \<Rightarrow> bool" where
  "TraceEnabled mm \<longleftrightarrow> tracer mm \<noteq> None"

definition AddressValid :: "uintptr \<Rightarrow> u64 \<Rightarrow> bool" where
  "AddressValid addr len \<longleftrightarrow> len > 0 \<and> IsPageAligned addr"

definition AddressToBounds :: "uintptr \<Rightarrow> u64 \<Rightarrow> uintptr \<times> uintptr" where
  "AddressToBounds addr len = (addr, PageAlign (addr + len))"

definition ContainedInMapBounds :: "MemoryMap \<Rightarrow> uintptr \<Rightarrow> u64 \<Rightarrow> bool" where
  "ContainedInMapBounds mm addr len =
     (let (s, e) = AddressToBounds addr len in s \<ge> mm_start mm \<and> e \<le> mm_end mm)"

definition simple_iv :: "uintptr \<Rightarrow> uintptr \<Rightarrow> SimpleInterval" where
  "simple_iv s e = \<lparr>si_start = s, si_end = e\<rparr>"

definition RegisterMMRegion :: "uintptr \<Rightarrow> u64 \<Rightarrow> mem_pool \<Rightarrow> mem_pool" where
  "RegisterMMRegion base len pool = Insert simple_ops (simple_iv base (base + len)) pool"

definition FreeMMRegion :: "uintptr \<Rightarrow> uintptr \<Rightarrow> mem_pool \<Rightarrow> mem_pool" where
  "FreeMMRegion s e pool = clear_range simple_ops s e pool"

definition AllocateMMRegion :: "u64 \<Rightarrow> mem_pool \<Rightarrow> (uintptr Status \<times> mem_pool) option" where
  "AllocateMMRegion len pool =
     (case FindFreeRange simple_ops 0 len kVirtualAreaMax 0 pool of
        None \<Rightarrow> None
      | Some (Inl e) \<Rightarrow> Some (Inl e, pool)
      | Some (Inr a) \<Rightarrow> Some (Inr a, Insert simple_ops (simple_iv a (a + len)) pool))"

definition GetStackTop :: "MemoryMap \<Rightarrow> u64 \<Rightarrow> uintptr option" where
  "GetStackTop mm rsp =
     (case Find vma_ops rsp (vmareas mm) of Inl _ \<Rightarrow> None
      | Inr v \<Rightarrow> if va_type v = kStack then Some (va_start v) else None)"

definition MunmapCheck :: "MemoryMap \<Rightarrow> uintptr \<Rightarrow> u64 \<Rightarrow> mem_pool \<Rightarrow> mem_pool" where
  "MunmapCheck mm addr len pool =
     (let (s, e) = AddressToBounds addr len in
      if s \<ge> mm_start mm \<and> e \<le> mm_end mm then pool
      else
        (let pool1 = (if s < mm_start mm then clear_range simple_ops s (min e (mm_start mm)) pool
                      else pool)
         in if e > mm_end mm then clear_range simple_ops (max (mm_end mm) s) e pool1 else pool1))"

definition UnmapAll :: "MemoryMap \<Rightarrow> mem_pool \<Rightarrow> MemoryMap \<times> mem_pool" where
  "UnmapAll mm pool =
     (mm\<lparr>vmareas := []\<rparr>,
      fold (\<lambda>(k, v). MunmapCheck mm (va_start v) (Length v)) (vmareas mm) pool)"

text \<open>The destructor returns the pool and the count of non-relocatable maps.\<close>

definition DestroyMemoryMap :: "MemoryMap \<Rightarrow> mem_pool \<Rightarrow> u64 \<Rightarrow> mem_pool \<times> u64" where
  "DestroyMemoryMap mm pool nr_non_reloc =
     (let nr = (if is_non_reloc mm then nr_non_reloc - 1 else nr_non_reloc) in
      if is_fake_map mm then (pool, nr)
      else
        (let pool1 = fold (\<lambda>(k, v) p. if ContainedInMapBounds mm (va_start v) (Length v) then p
                             else MunmapCheck mm (va_start v) (Length v) p) (vmareas mm) pool
         in (FreeMMRegion (mm_start mm) (mm_end mm) pool1, nr)))"

text \<open>\<open>Create\<close>: when the kernel call fails, the source dereferences the failed result, and when
  the kernel places the region elsewhere it panics; both are the outcome \<open>None\<close>.\<close>

definition CreateMemoryMap :: "kernel \<Rightarrow> u64 \<Rightarrow> mem_pool \<Rightarrow> (MemoryMap Status \<times> mem_pool) option" where
  "CreateMemoryMap k len pool =
     (case AllocateMMRegion len pool of
        None \<Rightarrow> None
      | Some (Inl e, pool1) \<Rightarrow> Some (Inl e, pool1)
      | Some (Inr base, pool1) \<Rightarrow>
          (case KernelMMap k base len PROT_NONE MAP_FIXED_NOREPLACE of
             Inl e \<Rightarrow> None
           | Inr a \<Rightarrow> if a \<noteq> base then None else Some (Inr (MemoryMap_new a len), pool1)))"

subsection \<open>Tracing\<close>

definition RecordHit :: "uintptr \<Rightarrow> u64 \<Rightarrow> i32 \<Rightarrow> PageAccessTracer \<Rightarrow> bool \<times> PageAccessTracer" where
  "RecordHit page time fault_type tr =
     (let inserted = (access_at tr page = None);
          t0 = (case access_at tr page of None \<Rightarrow> time | Some t \<Rightarrow> t);
          tr1 = tr\<lparr>access_at := (access_at tr)(page \<mapsto> min t0 time)\<rparr>
      in if fault_type = PROT_WRITE
         then (page \<notin> page_writes tr, tr1\<lparr>page_writes := insert page (page_writes tr)\<rparr>)
         else (inserted, tr1))"

definition EnableTracing :: "MemoryMap \<Rightarrow> MemoryMap" where
  "EnableTracing mm = mm\<lparr>tracer := Some \<lparr>access_at = Map.empty, page_writes = {}\<rparr>,
     vmareas := map (\<lambda>(k, v). (k, v\<lparr>va_traced := True\<rparr>)) (vmareas mm)\<rparr>"

definition EndTracing :: "MemoryMap \<Rightarrow> PageAccessTracer Status \<times> MemoryMap" where
  "EndTracing mm =
     (case tracer mm of
        None \<Rightarrow> (Inl ENODATA, mm)
      | Some pt \<Rightarrow>
          (Inr pt, mm\<lparr>tracer := None,
             vmareas := Modify vma_ops 0 (- 1) (\<lambda>_. True)
               (\<lambda>v. if \<not> va_traced v then v else v\<lparr>va_traced := False\<rparr>) (vmareas mm)\<rparr>))"

definition HandlePageFault :: "kernel \<Rightarrow> MemoryMap \<Rightarrow> uintptr \<Rightarrow> i32 \<Rightarrow> u64 \<Rightarrow> bool \<times> MemoryMap" where
  "HandlePageFault k mm addr0 required_prot time =
     (let addr = PageAlignDown addr0 in
      case Find vma_ops addr (vmareas mm) of
        Inl _ \<Rightarrow> (False, mm)
      | Inr v \<Rightarrow>
          if va_prot v AND required_prot = 0 then (False, mm)
          else (case tracer mm of
              None \<Rightarrow> (va_prot v = PROT_READ OR PROT_EXEC \<and> required_prot = PROT_EXEC, mm)
            | Some tr \<Rightarrow>
                (let mm1 = mm\<lparr>tracer := Some (snd (RecordHit addr time required_prot tr))\<rparr>;
                     reprot = (if required_prot \<noteq> PROT_WRITE then va_prot v AND NOT PROT_WRITE
                               else va_prot v)
                 in case KernelMProtect k addr kPageSize reprot of
                      Inl _ \<Rightarrow> (False, mm1)
                    | Inr _ \<Rightarrow> (True, mm1))))"

text \<open>With and without tracing, the area itself only gets the new protection; tracing changes which
  protection the host kernel is asked for.\<close>

definition TracerModifyProt :: "i32 \<Rightarrow> VMArea \<Rightarrow> VMArea" where
  "TracerModifyProt new_prot v = v\<lparr>va_prot := new_prot\<rparr>"

definition tracer_mprotect :: "i32 \<Rightarrow> VMArea \<Rightarrow> (uintptr \<times> u64 \<times> i32) option" where
  "tracer_mprotect new_prot v =
     (if \<not> va_traced v then Some (va_start v, Length v, new_prot)
      else if va_prot v AND NOT new_prot = 0 then None
      else Some (va_start v, Length v, PROT_NONE))"

definition MM_Modify :: "uintptr \<Rightarrow> uintptr \<Rightarrow> i32 \<Rightarrow> MemoryMap \<Rightarrow> MemoryMap" where
  "MM_Modify s e prot mm =
     mm\<lparr>vmareas := Modify vma_ops s e (\<lambda>v. va_prot v \<noteq> prot)
       (\<lambda>v. if TraceEnabled mm then TracerModifyProt prot v else v\<lparr>va_prot := prot\<rparr>) (vmareas mm)\<rparr>"

definition MM_Insert :: "VMArea \<Rightarrow> MemoryMap \<Rightarrow> MemoryMap" where
  "MM_Insert v mm = mm\<lparr>vmareas := Insert vma_ops v (vmareas mm)\<rparr>"

definition MM_Clear :: "uintptr \<Rightarrow> uintptr \<Rightarrow> MemoryMap \<Rightarrow> MemoryMap" where
  "MM_Clear s e mm = mm\<lparr>vmareas := clear_range vma_ops s e (vmareas mm)\<rparr>"

subsection \<open>System calls\<close>

definition SetBreak :: "kernel \<Rightarrow> bool \<Rightarrow> uintptr \<Rightarrow> MemoryMap \<Rightarrow> uintptr Status \<times> MemoryMap" where
  "SetBreak k intr newbrk mm =
     (if newbrk < mm_start mm \<or> newbrk \<ge> mm_end mm then (Inr (brk_addr mm), mm)
      else if intr then (Inl EINTR, mm)
      else
        (let oldbrk = brk_addr mm in
         if PageAlign oldbrk = PageAlign newbrk then (Inr newbrk, mm\<lparr>brk_addr := newbrk\<rparr>)
         else if (case UpperBound (brk_addr mm) (vmareas mm) of Inl _ \<Rightarrow> False
                  | Inr v \<Rightarrow> va_start v < PageAlign newbrk) then (Inr (brk_addr mm), mm)
         else if newbrk > oldbrk then
           (let addr = PageAlign oldbrk; len = PageAlign newbrk - PageAlign oldbrk in
            case KernelMMapFixed k addr len (PROT_READ OR PROT_WRITE) 0 of
              Inl _ \<Rightarrow> (Inr (brk_addr mm), mm)
            | Inr _ \<Rightarrow>
                (Inr newbrk, (MM_Insert (VMArea_anon addr len (PROT_READ OR PROT_WRITE) kHeap) mm)
                   \<lparr>brk_addr := newbrk\<rparr>))
         else
           (let addr = PageAlign newbrk; len = PageAlign oldbrk - PageAlign newbrk in
            case KernelMMapFixed k addr len PROT_NONE 0 of
              Inl _ \<Rightarrow> (Inr (brk_addr mm), mm)
            | Inr _ \<Rightarrow>
                (let (s, e) = AddressToBounds addr len
                 in (Inr newbrk, (MM_Clear s e mm)\<lparr>brk_addr := newbrk\<rparr>)))))"

definition MAdvise :: "kernel \<Rightarrow> bool \<Rightarrow> bool \<Rightarrow> uintptr \<Rightarrow> u64 \<Rightarrow> i32 \<Rightarrow> unit Status" where
  "MAdvise k madv_dontneed_remap intr addr len hint =
     (if \<not> AddressValid addr len then Inl EINVAL
      else if intr then Inl EINTR
      else KernelMAdvise k addr len
             (if hint = MADV_FREE \<and> madv_dontneed_remap then MADV_DONTNEED else hint))"

text \<open>The choice of an address for a mapping that is not fixed.  The result is the address, whether
  it was reserved from the pool, and the pool.\<close>

definition mmap_choose :: "uintptr \<Rightarrow> u64 \<Rightarrow> MemoryMap \<Rightarrow> mem_pool
    \<Rightarrow> ((uintptr \<times> bool) Status \<times> mem_pool) option" where
  "mmap_choose addr len mm pool =
     (let (hint_start, hint_end) = AddressToBounds addr len;
          local = (\<lambda>p. case FindFreeRange vma_ops hint_start len (mm_end mm) (brk_addr mm) (vmareas mm) of
                     None \<Rightarrow> None
                   | Some (Inl e) \<Rightarrow> Some (Inl e, p)
                   | Some (Inr a) \<Rightarrow> Some (Inr (a, False), p))
      in if addr \<noteq> 0 \<and> (hint_end > mm_end mm \<or> hint_start < mm_start mm) then
           (case FindFreeRange simple_ops hint_start len kVirtualAreaMax 0 pool of
              None \<Rightarrow> None
            | Some (Inr a) \<Rightarrow> Some (Inr (a, True), Insert simple_ops (simple_iv a (a + len)) pool)
            | Some (Inl e) \<Rightarrow> local pool)
         else local pool)"

text \<open>The mapping itself: anonymous memory from the host kernel, or the file's own method.\<close>

definition mmap_area :: "kernel \<Rightarrow> uintptr \<Rightarrow> u64 \<Rightarrow> i32 \<Rightarrow> i32 \<Rightarrow> nat option \<Rightarrow> u64
    \<Rightarrow> (uintptr \<times> VMArea) Status" where
  "mmap_area k addr len prot flags f off =
     (if flags AND MAP_ANONYMOUS \<noteq> 0
      then (case KernelMMap k addr len prot flags of
              Inl e \<Rightarrow> Inl e
            | Inr a \<Rightarrow> Inr (a, VMArea_anon a len prot
                (if flags AND MAP_STACK \<noteq> 0 then kStack else kNormal)))
      else (case f of
              None \<Rightarrow> Inl EBADF
            | Some file \<Rightarrow>
                (case file_MMap k file addr len prot flags off of
                   Inl e \<Rightarrow> Inl e
                 | Inr a \<Rightarrow> Inr (a, VMArea_file a len prot file off))))"

definition mmap_flags :: "i32 \<Rightarrow> bool \<Rightarrow> i32" where
  "mmap_flags flags reserved =
     (if flags AND MAP_FIXED = 0
      then (if reserved then flags OR MAP_FIXED_NOREPLACE else flags) OR MAP_FIXED
      else flags)"

text \<open>After the address is chosen: map, release a reserved range on failure (the kernel reporting an
  existing mapping is a panic), insert the area, and populate it if that was asked for.\<close>

definition mmap_finish :: "kernel \<Rightarrow> bool \<Rightarrow> bool \<Rightarrow> bool \<Rightarrow> bool \<Rightarrow> uintptr \<Rightarrow> u64 \<Rightarrow> i32 \<Rightarrow> i32
    \<Rightarrow> nat option \<Rightarrow> u64 \<Rightarrow> MemoryMap \<Rightarrow> mem_pool \<Rightarrow> (uintptr Status \<times> MemoryMap \<times> mem_pool) option" where
  "mmap_finish k cfg intr2 do_populate reserved addr len prot flags f off mm pool =
     (case mmap_area k addr len prot flags f off of
        Inl e \<Rightarrow>
          if e = EEXIST then None
          else Some (Inl e, mm, if reserved then clear_range simple_ops addr (addr + len) pool else pool)
      | Inr (raddr, v) \<Rightarrow>
          Some (if do_populate \<and> MAdvise k cfg intr2 raddr len MADV_POPULATE_READ = Inl EINTR
                then Inl EINTR else Inr raddr, MM_Insert v mm, pool))"

definition MM_MMap :: "kernel \<Rightarrow> bool \<Rightarrow> bool \<Rightarrow> bool \<Rightarrow> uintptr \<Rightarrow> u64 \<Rightarrow> i32 \<Rightarrow> i32 \<Rightarrow> nat option
    \<Rightarrow> u64 \<Rightarrow> MemoryMap \<Rightarrow> mem_pool \<Rightarrow> (uintptr Status \<times> MemoryMap \<times> mem_pool) option" where
  "MM_MMap k cfg intr intr2 addr len0 prot flags0 f off mm pool =
     (if \<not> AddressValid addr len0 then Some (Inl EINVAL, mm, pool)
      else
        (let do_populate = (flags0 AND MAP_POPULATE \<noteq> 0);
             flags = flags0 AND NOT MAP_POPULATE;
             len = PageAlign len0
         in if intr then Some (Inl EINTR, mm, pool)
            else
              (case (if flags AND MAP_FIXED = 0 then mmap_choose addr len mm pool
                     else Some (Inr (addr, False), pool)) of
                 None \<Rightarrow> None
               | Some (Inl e, pool1) \<Rightarrow> Some (Inl e, mm, pool1)
               | Some (Inr (a, reserved), pool1) \<Rightarrow>
                   mmap_finish k cfg intr2 do_populate reserved a len prot (mmap_flags flags reserved)
                     f off mm pool1)))"

definition MProtect :: "kernel \<Rightarrow> bool \<Rightarrow> uintptr \<Rightarrow> u64 \<Rightarrow> i32 \<Rightarrow> MemoryMap
    \<Rightarrow> unit Status \<times> MemoryMap" where
  "MProtect k intr addr len prot mm =
     (if \<not> AddressValid addr len then (Inl EINVAL, mm)
      else if intr then (Inl EINTR, mm)
      else
        (case (if \<not> TraceEnabled mm then KernelMProtect k addr len prot else Inr ()) of
           Inl e \<Rightarrow> (Inl e, mm)
         | Inr _ \<Rightarrow>
             (let (s, e) = AddressToBounds addr len in (Inr (), MM_Modify s e prot mm))))"

definition MUnmap :: "kernel \<Rightarrow> bool \<Rightarrow> uintptr \<Rightarrow> u64 \<Rightarrow> MemoryMap \<Rightarrow> mem_pool
    \<Rightarrow> unit Status \<times> MemoryMap \<times> mem_pool" where
  "MUnmap k intr addr len mm pool =
     (if \<not> AddressValid addr len then (Inl EINVAL, mm, pool)
      else if intr then (Inl EINTR, mm, pool)
      else
        (case KernelMUnmap k addr len of
           Inl e \<Rightarrow> (Inl e, mm, pool)
         | Inr _ \<Rightarrow>
             (let (s, e) = AddressToBounds addr len;
                  mm1 = MM_Clear s e mm
              in (Inr (), mm1, MunmapCheck mm1 addr len pool))))"

definition VirtualUsage :: "MemoryMap \<Rightarrow> u64" where
  "VirtualUsage mm = fold (\<lambda>(k, v) usage. usage + Length v) (vmareas mm) 0"

definition HeapUsage :: "MemoryMap \<Rightarrow> u64" where
  "HeapUsage mm = brk_addr mm - mm_start mm"

definition c_status :: "('a \<Rightarrow> int) \<Rightarrow> 'a Status \<Rightarrow> int" where
  "c_status val r = (case r of Inl e \<Rightarrow> MakeCErrorRestartSys e | Inr v \<Rightarrow> val v)"

definition usys_brk :: "kernel \<Rightarrow> bool \<Rightarrow> uintptr \<Rightarrow> MemoryMap \<Rightarrow> int \<times> MemoryMap" where
  "usys_brk k intr addr mm = (case SetBreak k intr addr mm of (r, mm') \<Rightarrow> (c_status sint r, mm'))"

text \<open>\<open>dup_file\<close> is the lookup of a descriptor in the file table of the process.\<close>

definition usys_mmap :: "kernel \<Rightarrow> bool \<Rightarrow> bool \<Rightarrow> bool \<Rightarrow> (int \<Rightarrow> nat option) \<Rightarrow> uintptr \<Rightarrow> u64 \<Rightarrow> i32
    \<Rightarrow> i32 \<Rightarrow> int \<Rightarrow> u64 \<Rightarrow> MemoryMap \<Rightarrow> mem_pool \<Rightarrow> (int \<times> MemoryMap \<times> mem_pool) option" where
  "usys_mmap k cfg intr intr2 dup_file addr len prot flags0 fd offset mm pool =
     (let flags = (if flags0 AND MAP_SHARED \<noteq> 0 \<and> fd = - 1
                   then (flags0 AND NOT MAP_SHARED) OR MAP_ANONYMOUS
                   else if flags0 AND MAP_SHARED_VALIDATE = MAP_SHARED_VALIDATE
                   then flags0 AND NOT MAP_ANONYMOUS
                   else flags0);
          ret = map_option (\<lambda>(r, mm', pool'). (c_status sint r, mm', pool'))
      in if flags AND MAP_ANONYMOUS \<noteq> 0 then
           ret (MM_MMap k cfg intr intr2 addr len prot (flags OR (MAP_PRIVATE OR MAP_ANONYMOUS))
                  None 0 mm pool)
         else (case dup_file fd of
                 None \<Rightarrow> Some (- EBADF, mm, pool)
               | Some f \<Rightarrow> ret (MM_MMap k cfg intr intr2 addr len prot flags (Some f) offset mm pool)))"

definition usys_mprotect :: "kernel \<Rightarrow> bool \<Rightarrow> uintptr \<Rightarrow> u64 \<Rightarrow> i32 \<Rightarrow> MemoryMap \<Rightarrow> int \<times> MemoryMap" where
  "usys_mprotect k intr addr len prot mm =
     (case MProtect k intr addr len prot mm of (r, mm') \<Rightarrow> (c_status (\<lambda>_. 0) r, mm'))"

definition usys_munmap :: "kernel \<Rightarrow> bool \<Rightarrow> uintptr \<Rightarrow> u64 \<Rightarrow> MemoryMap \<Rightarrow> mem_pool
    \<Rightarrow> int \<times> MemoryMap \<times> mem_pool" where
  "usys_munmap k intr addr len mm pool =
     (case MUnmap k intr addr len mm pool of (r, mm', pool') \<Rightarrow> (c_status (\<lambda>_. 0) r, mm', pool'))"

definition usys_madvise :: "kernel \<Rightarrow> bool \<Rightarrow> bool \<Rightarrow> uintptr \<Rightarrow> u64 \<Rightarrow> i32 \<Rightarrow> int" where
  "usys_madvise k cfg intr addr len hint = c_status (\<lambda>_. 0) (MAdvise k cfg intr addr len hint)"

subsection \<open>Areas are interval data\<close>

text \<open>What an area says about an address: protection, tracing, kind and, for a file mapping, the
  file and the offset of the byte at that address.\<close>

type_synonym vma_info = "i32 \<times> bool \<times> VMType \<times> (nat option \<times> u64) option"

definition vma_obs :: "VMArea \<Rightarrow> uintptr \<Rightarrow> vma_info" where
  "vma_obs v a = (va_prot v, va_traced v, va_type v,
     if va_type v = kFile then Some (va_file v, va_offset v + (a - va_start v)) else None)"

lemmas vma_defs = vma_ops_def VMArea_TrimTail_def VMArea_TrimHead_def VMArea_TryMergeRight_def
  vma_obs_def

text \<open>A file mapping is determined by the difference between offset and address; merging and
  trimming keep it.\<close>

definition vma_skew :: "VMArea \<Rightarrow> u64" where
  "vma_skew v = va_offset v - va_start v"

lemma MappingsMergeable_iff:
  "MappingsMergeable l r \<longleftrightarrow> va_end l = va_start r \<and> va_type l = va_type r \<and> va_prot l = va_prot r \<and>
     va_traced l = va_traced r \<and> (va_type l = kFile \<longrightarrow> vma_skew l = vma_skew r \<and> va_file l = va_file r)"
  by (auto simp: MappingsMergeable_def Length_def vma_skew_def algebra_simps)

lemma vma_obs_skew:
  "vma_obs v a = (va_prot v, va_traced v, va_type v,
     if va_type v = kFile then Some (va_file v, vma_skew v + a) else None)"
  by (simp add: vma_obs_def vma_skew_def algebra_simps)

lemma vma_TrimTail [simp]:
  "va_start (VMArea_TrimTail n v) = va_start v" "va_end (VMArea_TrimTail n v) = n"
  "va_prot (VMArea_TrimTail n v) = va_prot v" "va_type (VMArea_TrimTail n v) = va_type v"
  "va_traced (VMArea_TrimTail n v) = va_traced v" "va_file (VMArea_TrimTail n v) = va_file v"
  "vma_skew (VMArea_TrimTail n v) = vma_skew v"
  by (simp_all add: VMArea_TrimTail_def vma_skew_def)

lemma vma_TrimHead [simp]:
  "va_start (VMArea_TrimHead n v) = n" "va_end (VMArea_TrimHead n v) = va_end v"
  "va_prot (VMArea_TrimHead n v) = va_prot v" "va_type (VMArea_TrimHead n v) = va_type v"
  "va_traced (VMArea_TrimHead n v) = va_traced v" "va_file (VMArea_TrimHead n v) = va_file v"
  "va_type v = kFile \<Longrightarrow> vma_skew (VMArea_TrimHead n v) = vma_skew v"
  by (simp_all add: VMArea_TrimHead_def vma_skew_def)

lemma vma_merge:
  "VMArea_TryMergeRight r l = None \<longleftrightarrow> \<not> MappingsMergeable l r"
  "VMArea_TryMergeRight r l = Some i \<Longrightarrow> MappingsMergeable l r \<and> va_start i = va_start l \<and>
     va_end i = va_end r \<and> va_prot i = va_prot r \<and> va_type i = va_type r \<and> va_traced i = va_traced r \<and>
     va_file i = va_file r \<and> vma_skew i = vma_skew l"
  by (auto simp: VMArea_TryMergeRight_def vma_skew_def split: if_splits)

lemma vma_ops_sel [simp]:
  "get_start vma_ops = va_start" "get_end vma_ops = va_end" "TrimTail vma_ops = VMArea_TrimTail"
  "TrimHead vma_ops = VMArea_TrimHead" "TryMergeRight vma_ops = VMArea_TryMergeRight"
  by (simp_all add: vma_ops_def)

interpretation vm: interval_merge vma_ops vma_obs
  by unfold_locales
    (auto simp: vma_obs_skew vma_merge(1) MappingsMergeable_iff dest!: vma_merge(2))

definition vma_wf :: "VMArea \<Rightarrow> bool" where
  "vma_wf v \<longleftrightarrow> IsPageAligned (va_start v) \<and> IsPageAligned (va_end v) \<and>
     (va_type v = kFile \<longleftrightarrow> va_file v \<noteq> None)"

lemma MappingsValid_loop_iff:
  "MappingsValid_loop lo prev m \<longleftrightarrow>
     iv_ok vma_ops lo m \<and> iv_all vma_wf m \<and> iv_maximal vma_ops m \<and>
     (m \<noteq> [] \<longrightarrow> \<not> MappingsMergeable prev (snd (hd m)))"
proof (induction m arbitrary: lo prev)
  case (Cons x m)
  obtain k v where x: "x = (k, v)" by (cases x)
  show ?case
    using Cons.IH [of "va_end v" v]
    by (cases m) (auto simp: x vma_wf_def vma_merge(1) not_le not_less)
qed simp

lemma MappingsValid_iff:
  "MappingsValid m \<longleftrightarrow> iv_ok vma_ops 0 m \<and> iv_all vma_wf m \<and> iv_maximal vma_ops m"
proof (cases m)
  case (Cons x m')
  obtain k v where x: "x = (k, v)" by (cases x)
  have "iv_ok vma_ops 0 m \<Longrightarrow> \<not> MappingsMergeable v v"
    using Cons x by (auto simp: MappingsMergeable_def)
  then show ?thesis
    using Cons x MappingsValid_loop_iff [of 0 v m] by (auto simp: MappingsValid_def)
qed (simp add: MappingsValid_def)

lemma vma_wf_closed:
  "IsPageAligned n \<Longrightarrow> vma_wf v \<Longrightarrow> vma_wf (TrimTail vma_ops n v)"
  "IsPageAligned n \<Longrightarrow> vma_wf v \<Longrightarrow> vma_wf (TrimHead vma_ops n v)"
  "vma_wf r \<Longrightarrow> vma_wf l \<Longrightarrow> TryMergeRight vma_ops r l = Some i \<Longrightarrow> vma_wf i"
  by (auto simp: vma_wf_def MappingsMergeable_iff dest!: vma_merge(2))

lemma clear_range_valid:
  assumes "MappingsValid m" "IsPageAligned s" "IsPageAligned e" "s < e"
  shows "MappingsValid (clear_range vma_ops s e m)"
proof -
  have ok: "iv_ok vma_ops 0 m" "iv_maximal vma_ops m" "iv_all vma_wf m"
    using assms(1) by (simp_all add: MappingsValid_iff)
  have "iv_all vma_wf (clear_range vma_ops s e m)"
    by (rule iv_all_clear_range [OF ok(3) vma_wf_closed(1) [OF assms(2)] vma_wf_closed(2) [OF assms(3)]])
  then show ?thesis
    using vm.clear_range_correct(1) [OF ok(1) word_zero_least order.strict_implies_order [OF assms(4)]]
      vm.clear_range_maximal [OF ok(1,2) word_zero_least assms(4)]
    by (simp add: MappingsValid_iff)
qed

lemma Insert_valid:
  assumes "MappingsValid m" "vma_wf v" "va_start v < va_end v"
  shows "MappingsValid (Insert vma_ops v m)"
proof -
  have al: "IsPageAligned (va_start v)" "IsPageAligned (va_end v)" using assms(2) by (simp_all add: vma_wf_def)
  have "iv_all vma_wf (Insert vma_ops v m)"
    by (rule iv_all_Insert [where Q = vma_wf, OF _ assms(2) _ _ vma_wf_closed(3)])
      (use assms(1) vma_wf_closed(1,2) al in \<open>simp_all add: MappingsValid_iff\<close>)
  then show ?thesis
    using assms vm.Insert_correct(1) [of 0 m v] vm.Insert_maximal [of 0 m v]
    by (simp add: MappingsValid_iff)
qed

definition set_prot :: "i32 \<Rightarrow> vma_info \<Rightarrow> vma_info" where
  "set_prot prot = (\<lambda>(p, rest). (prot, rest))"

lemma Modify_prot:
  fixes prot :: i32
  assumes "MappingsValid m" "IsPageAligned s" "IsPageAligned e" "s < e"
  defines "m' \<equiv> Modify vma_ops s e (\<lambda>v. va_prot v \<noteq> prot) (\<lambda>v. v\<lparr>va_prot := prot\<rparr>) m"
  shows "MappingsValid m'"
    "iv_view vma_ops vma_obs m' a = (if s \<le> a \<and> a < e
       then map_option (set_prot prot) (iv_view vma_ops vma_obs m a) else iv_view vma_ops vma_obs m a)"
proof -
  let ?change = "\<lambda>v::VMArea. v\<lparr>va_prot := prot\<rparr>" and ?check = "\<lambda>v. va_prot v \<noteq> prot"
  have ch: "\<And>i. get_start vma_ops (?change i) = get_start vma_ops i"
      "\<And>i. get_end vma_ops (?change i) = get_end vma_ops i"
      "\<And>i a. vma_obs (?change i) a = set_prot prot (vma_obs i a)"
    by (simp_all add: vma_obs_def set_prot_def)
  have skip: "\<And>i a. \<not> ?check i \<Longrightarrow> set_prot prot (vma_obs i a) = vma_obs i a"
    by (simp add: vma_obs_def set_prot_def)
  have check: "\<And>i. \<not> ?check (?change i)" "\<And>n i. ?check (TrimTail vma_ops n i) = ?check i"
      "\<And>n i. ?check (TrimHead vma_ops n i) = ?check i"
      "\<And>l r. TryMergeRight vma_ops r l \<noteq> None \<Longrightarrow> ?check l = ?check r"
    by (auto simp: vma_merge(1) MappingsMergeable_iff)
  have ok: "iv_ok vma_ops 0 m" "iv_maximal vma_ops m" "iv_all vma_wf m"
    using assms(1) by (simp_all add: MappingsValid_iff)
  have correct: "iv_ok vma_ops 0 m' \<and> iv_view vma_ops vma_obs m' a = (if s \<le> a \<and> a < e
       then map_option (set_prot prot) (iv_view vma_ops vma_obs m a) else iv_view vma_ops vma_obs m a)"
    unfolding m'_def by (rule vm.Modify_correct [OF ch skip ok(1) word_zero_least assms(4)])
  have "iv_maximal vma_ops m'"
    unfolding m'_def by (rule vm.Modify_maximal [OF ch skip check ok(1,2) word_zero_least assms(4)])
  moreover have "iv_all vma_wf m'"
    unfolding m'_def
    by (rule iv_all_Modify [where Q = vma_wf, OF ok(3) _ _ _ _ _ vma_wf_closed(3)])
      (use assms(2,3) vma_wf_closed(1,2) in \<open>simp_all add: vma_wf_def\<close>)
  ultimately show "MappingsValid m'"
    using correct by (simp add: MappingsValid_iff)
  show "iv_view vma_ops vma_obs m' a = (if s \<le> a \<and> a < e
       then map_option (set_prot prot) (iv_view vma_ops vma_obs m a) else iv_view vma_ops vma_obs m a)"
    using correct by simp
qed

subsection \<open>What is assumed of the host kernel\<close>

text \<open>A successful call names a range inside the user address space; a successful fixed mapping is
  non-empty, page-aligned and placed at the address asked for (mmap(2), munmap(2), mprotect(2)).\<close>

definition kernel_ok :: "kernel \<Rightarrow> bool" where
  "kernel_ok k \<longleftrightarrow>
     (\<forall>addr len. 0 \<le> ksys_munmap k addr len \<longrightarrow> unat addr + unat len \<le> 2 ^ 47) \<and>
     (\<forall>addr len prot. 0 \<le> ksys_mprotect k addr len prot \<longrightarrow> unat addr + unat len \<le> 2 ^ 47) \<and>
     (\<forall>addr len prot flags. flags AND MAP_FIXED \<noteq> 0 \<longrightarrow> 0 \<le> ksys_mmap k addr len prot flags \<longrightarrow>
        ksys_mmap k addr len prot flags = uint addr \<and> 0 < len \<and> IsPageAligned addr \<and>
        unat addr + unat len \<le> 2 ^ 47) \<and>
     (\<forall>f addr len prot flags off a. flags AND MAP_FIXED \<noteq> 0 \<longrightarrow>
        file_MMap k f addr len prot flags off = Inr a \<longrightarrow>
        a = addr \<and> 0 < len \<and> IsPageAligned addr \<and> unat addr + unat len \<le> 2 ^ 47)"

lemma kernel_okD:
  assumes "kernel_ok k"
  shows "0 \<le> ksys_munmap k addr len \<Longrightarrow> unat addr + unat len \<le> 2 ^ 47"
    "0 \<le> ksys_mprotect k addr len prot \<Longrightarrow> unat addr + unat len \<le> 2 ^ 47"
    "flags AND MAP_FIXED \<noteq> 0 \<Longrightarrow> 0 \<le> ksys_mmap k addr len prot flags \<Longrightarrow>
       ksys_mmap k addr len prot flags = uint addr \<and> 0 < len \<and> IsPageAligned addr \<and>
       unat addr + unat len \<le> 2 ^ 47"
    "flags AND MAP_FIXED \<noteq> 0 \<Longrightarrow> file_MMap k f addr len prot flags off = Inr a \<Longrightarrow>
       a = addr \<and> 0 < len \<and> IsPageAligned addr \<and> unat addr + unat len \<le> 2 ^ 47"
proof -
  note K = assms [unfolded kernel_ok_def]
  show "0 \<le> ksys_munmap k addr len \<Longrightarrow> unat addr + unat len \<le> 2 ^ 47"
    using K [THEN conjunct1] by blast
  show "0 \<le> ksys_mprotect k addr len prot \<Longrightarrow> unat addr + unat len \<le> 2 ^ 47"
    using K [THEN conjunct2, THEN conjunct1] by blast
  show "flags AND MAP_FIXED \<noteq> 0 \<Longrightarrow> 0 \<le> ksys_mmap k addr len prot flags \<Longrightarrow>
       ksys_mmap k addr len prot flags = uint addr \<and> 0 < len \<and> IsPageAligned addr \<and>
       unat addr + unat len \<le> 2 ^ 47"
    using K [THEN conjunct2, THEN conjunct2, THEN conjunct1] by blast
  show "flags AND MAP_FIXED \<noteq> 0 \<Longrightarrow> file_MMap k f addr len prot flags off = Inr a \<Longrightarrow>
       a = addr \<and> 0 < len \<and> IsPageAligned addr \<and> unat addr + unat len \<le> 2 ^ 47"
    using K [THEN conjunct2, THEN conjunct2, THEN conjunct2] by blast
qed

lemma flag_or:
  fixes x y f :: "'a::len word"
  shows "x AND f \<noteq> 0 \<Longrightarrow> (x OR y) AND f \<noteq> 0" "y AND f \<noteq> 0 \<Longrightarrow> (x OR y) AND f \<noteq> 0"
  by (auto simp: bit.conj_disj_distrib2 or_eq_0_iff)

lemma MAP_FIXED_set [simp]: "MAP_FIXED AND MAP_FIXED \<noteq> 0"
  by (simp add: MAP_FIXED_def)

lemma kernel_ok_munmap:
  "kernel_ok k \<Longrightarrow> KernelMUnmap k addr len = Inr u \<Longrightarrow> unat addr + unat len \<le> 2 ^ 47"
  by (auto simp: KernelMUnmap_def Let_def not_less dest: kernel_okD(1) split: if_splits)

lemma kernel_ok_mprotect:
  "kernel_ok k \<Longrightarrow> KernelMProtect k addr len prot = Inr u \<Longrightarrow> unat addr + unat len \<le> 2 ^ 47"
  by (auto simp: KernelMProtect_def Let_def not_less dest: kernel_okD(2) split: if_splits)

lemma kernel_ok_mmap:
  assumes "kernel_ok k" "KernelMMap k addr len prot flags = Inr a" "flags AND MAP_FIXED \<noteq> 0"
  shows "a = addr \<and> 0 < len \<and> IsPageAligned addr \<and> unat addr + unat len \<le> 2 ^ 47"
proof -
  let ?f = "flags OR (MAP_ANONYMOUS OR MAP_PRIVATE)"
  have ret: "0 \<le> ksys_mmap k addr len prot ?f" "a = word_of_int (ksys_mmap k addr len prot ?f)"
    using assms(2) by (auto simp: KernelMMap_def Let_def split: if_splits)
  have "?f AND MAP_FIXED \<noteq> 0" using assms(3) by (rule flag_or(1))
  with kernel_okD(3) [OF assms(1) this ret(1)] ret(2) show ?thesis by simp
qed

lemma kernel_ok_mmap_fixed:
  assumes "kernel_ok k" "KernelMMapFixed k addr len prot flags = Inr u"
  shows "0 < len \<and> IsPageAligned addr \<and> unat addr + unat len \<le> 2 ^ 47"
proof -
  let ?f = "flags OR (MAP_ANONYMOUS OR MAP_FIXED OR MAP_PRIVATE)"
  have ret: "0 \<le> ksys_mmap k addr len prot ?f"
    using assms(2) by (auto simp: KernelMMapFixed_def Let_def split: if_splits)
  have "?f AND MAP_FIXED \<noteq> 0" by (intro flag_or(2) flag_or(1) flag_or MAP_FIXED_set)
  with kernel_okD(3) [OF assms(1) this ret(1)] show ?thesis by simp
qed

lemma kernel_ok_file:
  "kernel_ok k \<Longrightarrow> file_MMap k f addr len prot flags off = Inr a \<Longrightarrow> flags AND MAP_FIXED \<noteq> 0 \<Longrightarrow>
     a = addr \<and> 0 < len \<and> IsPageAligned addr \<and> unat addr + unat len \<le> 2 ^ 47"
  by (rule kernel_okD(4))

lemma range_no_wrap:
  assumes "0 < len" "unat (addr::uintptr) + unat len \<le> 2 ^ 47"
  shows "addr < addr + len" "unat (addr + len) = unat addr + unat len"
proof -
  show eq: "unat (addr + len) = unat addr + unat len"
    using assms(2) by (intro unat_add_no_wrap) simp
  show "addr < addr + len" using assms(1) eq by (simp add: word_less_nat_alt)
qed

lemma bounds_range:
  assumes "AddressValid addr len" "unat addr + unat len \<le> 2 ^ 47"
  shows "IsPageAligned addr" "addr < PageAlign (addr + len)"
proof -
  have len: "0 < len" and "IsPageAligned addr" using assms(1) by (simp_all add: AddressValid_def)
  then show "IsPageAligned addr" by simp
  note range = range_no_wrap [OF len assms(2)]
  have "unat (addr + len) + 4095 < 2 ^ 64" using range(2) assms(2) by simp
  then show "addr < PageAlign (addr + len)" using range(1) PageAlign_ge [of "addr + len"] by simp
qed

subsection \<open>Every operation keeps the mappings valid\<close>

lemma new_area:
  assumes "0 < len" "IsPageAligned addr" "unat addr + unat len \<le> 2 ^ 47" "IsPageAligned len"
    "va_start v = addr" "va_end v = addr + len" "va_type v = kFile \<longleftrightarrow> va_file v \<noteq> None"
  shows "vma_wf v" "va_start v < va_end v"
  using assms range_no_wrap(1) [of len addr] aligned_add [of addr len] by (simp_all add: vma_wf_def)

lemma SetBreak_valid:
  assumes "kernel_ok k" "MappingsValid (vmareas mm)" "SetBreak k intr newbrk mm = (r, mm')"
  shows "MappingsValid (vmareas mm')"
proof -
  let ?old = "PageAlign (brk_addr mm)" and ?new = "PageAlign newbrk"
  consider (same) "vmareas mm' = vmareas mm"
    | (grow) u where "KernelMMapFixed k ?old (?new - ?old) (PROT_READ OR PROT_WRITE) 0 = Inr u"
        "vmareas mm' = Insert vma_ops (VMArea_anon ?old (?new - ?old) (PROT_READ OR PROT_WRITE) kHeap) (vmareas mm)"
    | (shrink) u where "KernelMMapFixed k ?new (?old - ?new) PROT_NONE 0 = Inr u"
        "vmareas mm' = clear_range vma_ops ?new (PageAlign (?new + (?old - ?new))) (vmareas mm)"
    using assms(3)
    by (auto simp: SetBreak_def Let_def MM_Insert_def MM_Clear_def AddressToBounds_def
        split: if_splits sum.splits)
  then show ?thesis
  proof cases
    case grow
    note k = kernel_ok_mmap_fixed [OF assms(1) grow(1)]
    let ?v = "VMArea_anon ?old (?new - ?old) (PROT_READ OR PROT_WRITE) kHeap"
    have "?old < ?new" using range_no_wrap(1) [of "?new - ?old" ?old] k by simp
    then have "vma_wf ?v" "va_start ?v < va_end ?v" by (simp_all add: vma_wf_def VMArea_anon_def)
    then show ?thesis using grow(2) Insert_valid [OF assms(2)] by simp
  next
    case shrink
    note k = kernel_ok_mmap_fixed [OF assms(1) shrink(1)]
    have "?new < ?old" using range_no_wrap(1) [of "?old - ?new" ?new] k by simp
    then show ?thesis using shrink(2) clear_range_valid [OF assms(2)] by simp
  qed (use assms(2) in simp)
qed

lemma MProtect_valid:
  assumes "kernel_ok k" "MappingsValid (vmareas mm)" "MProtect k intr addr len prot mm = (r, mm')"
    "TraceEnabled mm \<longrightarrow> unat addr + unat len \<le> 2 ^ 47"
  shows "MappingsValid (vmareas mm')"
    "r = Inr () \<Longrightarrow> iv_view vma_ops vma_obs (vmareas mm') a =
      (if addr \<le> a \<and> a < PageAlign (addr + len)
       then map_option (set_prot prot) (iv_view vma_ops vma_obs (vmareas mm) a)
       else iv_view vma_ops vma_obs (vmareas mm) a)"
proof -
  consider (err) "r \<noteq> Inr ()" "mm' = mm"
    | (ok) "r = Inr ()" "AddressValid addr len" "mm' = MM_Modify addr (PageAlign (addr + len)) prot mm"
        "TraceEnabled mm \<or> (\<exists>u. KernelMProtect k addr len prot = Inr u)"
    using assms(3)
    by (cases "KernelMProtect k addr len prot")
      (auto simp: MProtect_def AddressToBounds_def eq_sym_conv [of "Inl _"] split: if_splits)
  then have "MappingsValid (vmareas mm') \<and> (r = Inr () \<longrightarrow> iv_view vma_ops vma_obs (vmareas mm') a =
      (if addr \<le> a \<and> a < PageAlign (addr + len)
       then map_option (set_prot prot) (iv_view vma_ops vma_obs (vmareas mm) a)
       else iv_view vma_ops vma_obs (vmareas mm) a))"
  proof cases
    case ok
    have "unat addr + unat len \<le> 2 ^ 47" using ok(4) kernel_ok_mprotect [OF assms(1)] assms(4) by blast
    note b = bounds_range [OF ok(2) this]
    have "vmareas mm' = Modify vma_ops addr (PageAlign (addr + len)) (\<lambda>v. va_prot v \<noteq> prot)
        (\<lambda>v. v\<lparr>va_prot := prot\<rparr>) (vmareas mm)"
      using ok(3) by (cases "TraceEnabled mm") (simp_all add: MM_Modify_def TracerModifyProt_def [abs_def])
    then show ?thesis
      using Modify_prot [OF assms(2) b(1) PageAlign_aligned b(2), of prot] by simp
  qed (use assms(2) in simp)
  then show "MappingsValid (vmareas mm')"
    "r = Inr () \<Longrightarrow> iv_view vma_ops vma_obs (vmareas mm') a =
      (if addr \<le> a \<and> a < PageAlign (addr + len)
       then map_option (set_prot prot) (iv_view vma_ops vma_obs (vmareas mm) a)
       else iv_view vma_ops vma_obs (vmareas mm) a)"
    by auto
qed

lemma MUnmap_valid:
  assumes "kernel_ok k" "MappingsValid (vmareas mm)" "MUnmap k intr addr len mm pool = (r, mm', pool')"
  shows "MappingsValid (vmareas mm')"
    "r = Inr () \<Longrightarrow> iv_view vma_ops vma_obs (vmareas mm') a =
      (if addr \<le> a \<and> a < PageAlign (addr + len) then None
       else iv_view vma_ops vma_obs (vmareas mm) a)"
proof -
  consider (err) "r \<noteq> Inr ()" "mm' = mm"
    | (ok) u where "r = Inr ()" "AddressValid addr len" "KernelMUnmap k addr len = Inr u"
        "vmareas mm' = clear_range vma_ops addr (PageAlign (addr + len)) (vmareas mm)"
    using assms(3)
    by (cases "KernelMUnmap k addr len")
      (auto simp: MUnmap_def AddressToBounds_def MM_Clear_def Let_def eq_sym_conv [of "Inl _"] split: if_splits)
  then have "MappingsValid (vmareas mm') \<and> (r = Inr () \<longrightarrow> iv_view vma_ops vma_obs (vmareas mm') a =
      (if addr \<le> a \<and> a < PageAlign (addr + len) then None
       else iv_view vma_ops vma_obs (vmareas mm) a))"
  proof cases
    case ok
    note b = bounds_range [OF ok(2) kernel_ok_munmap [OF assms(1) ok(3)]]
    have "iv_ok vma_ops 0 (vmareas mm)" using assms(2) by (simp add: MappingsValid_iff)
    then show ?thesis
      using clear_range_valid [OF assms(2) b(1) PageAlign_aligned b(2)] ok(4)
        vm.clear_range_correct(2) [OF _ word_zero_least order.strict_implies_order [OF b(2)]]
      by simp
  qed (use assms(2) in simp)
  then show "MappingsValid (vmareas mm')"
    "r = Inr () \<Longrightarrow> iv_view vma_ops vma_obs (vmareas mm') a =
      (if addr \<le> a \<and> a < PageAlign (addr + len) then None
       else iv_view vma_ops vma_obs (vmareas mm) a)"
    by auto
qed

lemma mmap_area_ok:
  assumes "kernel_ok k" "flags AND MAP_FIXED \<noteq> 0" "IsPageAligned len"
    "mmap_area k addr len prot flags f off = Inr (a, v)"
  shows "a = addr \<and> vma_wf v \<and> va_start v = addr \<and> va_end v = addr + len \<and> addr < addr + len \<and>
    va_prot v = prot \<and> va_traced v = False"
proof -
  have place: "a = addr \<and> 0 < len \<and> IsPageAligned addr \<and> unat addr + unat len \<le> 2 ^ 47"
    using assms(4) kernel_ok_mmap [OF assms(1) _ assms(2)] kernel_ok_file [OF assms(1) _ assms(2)]
    by (auto simp: mmap_area_def split: if_splits sum.splits option.splits)
  have v: "va_start v = a" "va_end v = a + len" "va_type v = kFile \<longleftrightarrow> va_file v \<noteq> None" "va_prot v = prot"
      "va_traced v = False"
    using assms(4)
    by (auto simp: mmap_area_def VMArea_anon_def VMArea_file_def split: if_splits sum.splits option.splits)
  then show ?thesis using place new_area [OF _ _ _ assms(3), of addr v] by auto
qed

text \<open>A successful or failed \<open>mmap\<close> either leaves the areas alone or inserts one area, at the fixed
  address the kernel was asked for.\<close>

lemma mmap_flags_fixed: "mmap_flags flags reserved AND MAP_FIXED \<noteq> 0"
  using flag_or(2) [OF MAP_FIXED_set] by (simp add: mmap_flags_def)

lemma populate_keeps_fixed: "(flags AND NOT MAP_POPULATE) AND MAP_FIXED = flags AND MAP_FIXED"
proof -
  have "NOT MAP_POPULATE AND MAP_FIXED = MAP_FIXED"
    by (simp add: MAP_POPULATE_def MAP_FIXED_def)
  then show ?thesis by (simp add: and.assoc)
qed

lemma mmap_finish_cases:
  assumes "kernel_ok k" "flags AND MAP_FIXED \<noteq> 0" "IsPageAligned len"
    "mmap_finish k cfg intr2 pop reserved addr len prot flags f off mm pool = Some (r, mm', pool')"
  shows "(mm' = mm \<and> (\<forall>a. r \<noteq> Inr a)) \<or>
    (\<exists>v. mm' = MM_Insert v mm \<and> vma_wf v \<and> va_start v = addr \<and> va_end v = addr + len \<and>
       addr < addr + len \<and> va_prot v = prot \<and> va_traced v = False \<and> (r = Inr addr \<or> r = Inl EINTR))"
proof (cases "mmap_area k addr len prot flags f off")
  case (Inl e)
  then show ?thesis using assms(4) by (auto simp: mmap_finish_def split: if_splits)
next
  case (Inr q)
  obtain raddr v where q: "q = (raddr, v)" by (cases q)
  show ?thesis
    using mmap_area_ok [OF assms(1,2,3) Inr [unfolded q]] assms(4) Inr q
    by (auto simp: mmap_finish_def split: if_splits)
qed

lemma MM_MMap_cases:
  assumes "kernel_ok k" "MM_MMap k cfg intr intr2 addr0 len0 prot flags0 f off mm pool = Some (r, mm', pool')"
  shows "(mm' = mm \<and> (\<forall>a. r \<noteq> Inr a)) \<or>
    (\<exists>v addr. mm' = MM_Insert v mm \<and> vma_wf v \<and> va_start v = addr \<and> va_end v = addr + PageAlign len0 \<and>
       addr < addr + PageAlign len0 \<and> va_prot v = prot \<and> va_traced v = False \<and>
       (r = Inr addr \<or> r = Inl EINTR) \<and> (flags0 AND MAP_FIXED \<noteq> 0 \<longrightarrow> addr = addr0))"
proof (cases "AddressValid addr0 len0 \<and> \<not> intr")
  case False
  then show ?thesis using assms(2) by (auto simp: MM_MMap_def Let_def split: if_splits)
next
  case True
  define ch where "ch = (if flags0 AND MAP_FIXED = 0 then mmap_choose addr0 (PageAlign len0) mm pool
      else Some (Inr (addr0, False), pool))"
  let ?flags = "flags0 AND NOT MAP_POPULATE"
  have eq: "Some (r, mm', pool') = (case ch of None \<Rightarrow> None
      | Some (Inl e, pool1) \<Rightarrow> Some (Inl e, mm, pool1)
      | Some (Inr (a, reserved), pool1) \<Rightarrow>
          mmap_finish k cfg intr2 (flags0 AND MAP_POPULATE \<noteq> 0) reserved a (PageAlign len0) prot
            (mmap_flags ?flags reserved) f off mm pool1)"
    using assms(2) True unfolding MM_MMap_def Let_def populate_keeps_fixed ch_def [symmetric]
    by simp
  show ?thesis
  proof (cases "\<exists>a reserved pool1. ch = Some (Inr (a, reserved), pool1)")
    case False
    then show ?thesis using eq by (auto split: option.splits sum.splits prod.splits)
  next
    case True
    then obtain a reserved pool1 where c: "ch = Some (Inr (a, reserved), pool1)" by blast
    have fin: "mmap_finish k cfg intr2 (flags0 AND MAP_POPULATE \<noteq> 0) reserved a (PageAlign len0) prot
            (mmap_flags ?flags reserved) f off mm pool1 = Some (r, mm', pool')"
      using eq c by simp
    have "a = addr0" if "flags0 AND MAP_FIXED \<noteq> 0" using that c by (simp add: ch_def)
    then show ?thesis
      using mmap_finish_cases [OF assms(1) mmap_flags_fixed PageAlign_aligned fin] by auto
  qed
qed

lemma MM_MMap_valid:
  assumes "kernel_ok k" "MappingsValid (vmareas mm)"
    "MM_MMap k cfg intr intr2 addr len prot flags f off mm pool = Some (r, mm', pool')"
  shows "MappingsValid (vmareas mm')"
proof -
  consider "mm' = mm" | v where "mm' = MM_Insert v mm" "vma_wf v" "va_start v < va_end v"
    using MM_MMap_cases [OF assms(1,3)] by fastforce
  then show ?thesis
  proof cases
    case (2 v)
    then show ?thesis using Insert_valid [OF assms(2), of v] by (simp add: MM_Insert_def)
  qed (use assms(2) in simp)
qed

subsection \<open>Reachable memory maps\<close>

text \<open>One system call on a memory map, with any arguments and any answer of the kernel.\<close>

inductive mm_step :: "kernel \<Rightarrow> MemoryMap \<times> mem_pool \<Rightarrow> MemoryMap \<times> mem_pool \<Rightarrow> bool" for k where
  step_brk: "SetBreak k intr newbrk mm = (r, mm') \<Longrightarrow> mm_step k (mm, pool) (mm', pool)"
| step_mmap: "MM_MMap k cfg intr intr2 addr len prot flags f off mm pool = Some (r, mm', pool') \<Longrightarrow>
    mm_step k (mm, pool) (mm', pool')"
| step_mprotect: "MProtect k intr addr len prot mm = (r, mm') \<Longrightarrow> \<not> TraceEnabled mm \<Longrightarrow>
    mm_step k (mm, pool) (mm', pool)"
| step_munmap: "MUnmap k intr addr len mm pool = (r, mm', pool') \<Longrightarrow>
    mm_step k (mm, pool) (mm', pool')"
| step_unmap_all: "UnmapAll mm pool = (mm', pool') \<Longrightarrow> mm_step k (mm, pool) (mm', pool')"

inductive mm_run :: "kernel \<Rightarrow> MemoryMap \<times> mem_pool \<Rightarrow> MemoryMap \<times> mem_pool \<Rightarrow> bool" for k where
  run_start: "mm_run k s s"
| run_step: "mm_run k s t \<Longrightarrow> mm_step k t u \<Longrightarrow> mm_run k s u"

inductive_cases mm_stepE: "mm_step k s t"

lemma mm_step_valid:
  assumes "kernel_ok k" "mm_step k s t" "MappingsValid (vmareas (fst s))"
  shows "MappingsValid (vmareas (fst t))"
  using assms(2)
proof (cases rule: mm_step.cases)
  case (step_brk intr newbrk mm r mm' pool)
  then show ?thesis using SetBreak_valid [OF assms(1) _ step_brk(3)] assms(3) by simp
next
  case (step_mmap cfg intr intr2 addr len prot flags f off mm pool r mm' pool')
  then show ?thesis using MM_MMap_valid [OF assms(1) _ step_mmap(3)] assms(3) by simp
next
  case (step_mprotect intr addr len prot mm r mm' pool)
  then show ?thesis using MProtect_valid(1) [OF assms(1) _ step_mprotect(3)] assms(3) by simp
next
  case (step_munmap intr addr len mm pool r mm' pool')
  then show ?thesis using MUnmap_valid(1) [OF assms(1) _ step_munmap(3)] assms(3) by simp
next
  case (step_unmap_all mm pool mm' pool')
  then show ?thesis by (auto simp: UnmapAll_def MappingsValid_def)
qed

lemma mm_run_valid:
  "mm_run k s t \<Longrightarrow> kernel_ok k \<Longrightarrow> MappingsValid (vmareas (fst s)) \<Longrightarrow> MappingsValid (vmareas (fst t))"
proof (induction rule: mm_run.induct)
  case (run_step s t u)
  then show ?case using mm_step_valid [OF run_step.prems(1) run_step.hyps(2)] by simp
qed simp

subsection \<open>Properties\<close>

text \<open>A kernel for the witnesses: it accepts page-aligned, non-empty ranges below \<open>2 ^ 47\<close> and places
  fixed mappings where asked.\<close>

definition range_fits :: "uintptr \<Rightarrow> u64 \<Rightarrow> bool" where
  "range_fits addr len \<longleftrightarrow> 0 < len \<and> IsPageAligned addr \<and> unat addr + unat len \<le> 2 ^ 47"

definition demo_kernel :: kernel where
  "demo_kernel = \<lparr>ksys_mmap = (\<lambda>addr len prot flags. if range_fits addr len then uint addr else - EINVAL),
     ksys_munmap = (\<lambda>addr len. if range_fits addr len then 0 else - EINVAL),
     ksys_mprotect = (\<lambda>addr len prot. if range_fits addr len then 0 else - EINVAL),
     ksys_madvise = (\<lambda>addr len hint. 0),
     file_MMap = (\<lambda>f addr len prot flags off. if range_fits addr len then Inr addr else Inl EINVAL)\<rparr>"

lemma demo_kernel_ok: "kernel_ok demo_kernel"
  by (auto simp: kernel_ok_def demo_kernel_def range_fits_def EINVAL_def split: if_splits)

definition demo_mm :: MemoryMap where
  "demo_mm = (MemoryMap_new 0x10000 0x100000)
     \<lparr>vmareas := [(0x23000, VMArea_anon 0x20000 0x3000 3 kNormal)]\<rparr>"

lemmas page_eval = PageAlign_def AlignUp_def kPageSize_def IsPageAligned_def

lemmas demo_eval = demo_kernel_def demo_mm_def MemoryMap_new_def VMArea_anon_def range_fits_def
  page_eval AddressValid_def AddressToBounds_def

lemma demo_mm_valid: "MappingsValid (vmareas demo_mm)"
  by (simp add: MappingsValid_def demo_eval MappingsMergeable_def)

text \<open>C1: Every memory map reached from a fresh one by system calls satisfies \<open>MappingsValid\<close>: the
  areas are keyed by their ends, non-empty, page-aligned, disjoint and in order, files and file
  kinds agree, and no two neighbours could be merged.\<close>

theorem mm_reachable_valid:
  assumes "kernel_ok k" "mm_run k (MemoryMap_new base len, pool) (mm, pool')"
  shows "MappingsValid (vmareas mm)"
  using mm_run_valid [OF assms(2,1)] by (simp add: MemoryMap_new_def MappingsValid_def)

theorem mm_reachable_valid_witness:
  "MappingsValid (vmareas (snd (SetBreak demo_kernel False 0x12000 (MemoryMap_new 0x10000 0x100000))))"
proof (rule mm_reachable_valid [OF demo_kernel_ok])
  show "mm_run demo_kernel (MemoryMap_new 0x10000 0x100000, [])
     (snd (SetBreak demo_kernel False 0x12000 (MemoryMap_new 0x10000 0x100000)), [])"
    by (rule run_step [OF run_start], rule step_brk) (rule surjective_pairing)
qed

text \<open>C16: A successful \<open>munmap\<close> removes exactly the pages of its range: afterwards no address of the
  range is mapped, every other address has the mapping it had, and the map is still valid.\<close>

theorem MUnmap_removes_range:
  assumes "kernel_ok k" "MappingsValid (vmareas mm)"
    "MUnmap k intr addr len mm pool = (Inr (), mm', pool')"
  shows "MappingsValid (vmareas mm') \<and> (\<forall>a. iv_view vma_ops vma_obs (vmareas mm') a =
    (if addr \<le> a \<and> a < PageAlign (addr + len) then None
     else iv_view vma_ops vma_obs (vmareas mm) a))"
  using MUnmap_valid [OF assms] by blast

theorem MUnmap_removes_range_witness:
  "let mm' = fst (snd (MUnmap demo_kernel False 0x21000 0x1000 demo_mm []))
   in MappingsValid (vmareas mm') \<and> (\<forall>a. iv_view vma_ops vma_obs (vmareas mm') a =
    (if 0x21000 \<le> a \<and> a < PageAlign (0x21000 + 0x1000) then None
     else iv_view vma_ops vma_obs (vmareas demo_mm) a))"
proof -
  have "MUnmap demo_kernel False 0x21000 0x1000 demo_mm [] =
      (Inr (), fst (snd (MUnmap demo_kernel False 0x21000 0x1000 demo_mm [])),
       snd (snd (MUnmap demo_kernel False 0x21000 0x1000 demo_mm [])))"
    by (simp add: MUnmap_def KernelMUnmap_def Let_def demo_eval)
  from MUnmap_removes_range [OF demo_kernel_ok demo_mm_valid this] show ?thesis
    unfolding Let_def .
qed

text \<open>C18: A successful \<open>mprotect\<close> changes the protection of exactly the mapped pages of its range,
  keeps kind, file and offset of every page, leaves gaps unmapped, and keeps the map valid.\<close>

theorem MProtect_changes_range:
  assumes "kernel_ok k" "MappingsValid (vmareas mm)" "\<not> TraceEnabled mm"
    "MProtect k intr addr len prot mm = (Inr (), mm')"
  shows "MappingsValid (vmareas mm') \<and> (\<forall>a. iv_view vma_ops vma_obs (vmareas mm') a =
    (if addr \<le> a \<and> a < PageAlign (addr + len)
     then map_option (\<lambda>(p, rest). (prot, rest)) (iv_view vma_ops vma_obs (vmareas mm) a)
     else iv_view vma_ops vma_obs (vmareas mm) a))"
  using MProtect_valid [OF assms(1,2,4)] assms(3) by (simp add: set_prot_def)

theorem MProtect_changes_range_witness:
  "let mm' = snd (MProtect demo_kernel False 0x21000 0x1000 1 demo_mm)
   in MappingsValid (vmareas mm') \<and> (\<forall>a. iv_view vma_ops vma_obs (vmareas mm') a =
    (if 0x21000 \<le> a \<and> a < PageAlign (0x21000 + 0x1000)
     then map_option (\<lambda>(p, rest). (1, rest)) (iv_view vma_ops vma_obs (vmareas demo_mm) a)
     else iv_view vma_ops vma_obs (vmareas demo_mm) a))"
proof -
  have nt: "\<not> TraceEnabled demo_mm" by (simp add: TraceEnabled_def demo_eval)
  have "MProtect demo_kernel False 0x21000 0x1000 1 demo_mm =
      (Inr (), snd (MProtect demo_kernel False 0x21000 0x1000 1 demo_mm))"
    by (simp add: MProtect_def KernelMProtect_def Let_def demo_eval)
  from MProtect_changes_range [OF demo_kernel_ok demo_mm_valid nt this] show ?thesis
    unfolding Let_def .
qed

text \<open>C17: A successful \<open>mmap\<close> with \<open>MAP_FIXED\<close> returns the address asked for; afterwards every
  address of the page-rounded range is mapped with the requested protection, and every other
  address is mapped as before.\<close>

theorem MMap_fixed_maps_range:
  assumes "kernel_ok k" "MappingsValid (vmareas mm)" "flags AND MAP_FIXED \<noteq> 0"
    "MM_MMap k cfg intr intr2 addr len prot flags f off mm pool = Some (Inr a, mm', pool')"
  shows "a = addr \<and> MappingsValid (vmareas mm') \<and>
    (\<forall>x. if addr \<le> x \<and> x < addr + PageAlign len
         then \<exists>rest. iv_view vma_ops vma_obs (vmareas mm') x = Some (prot, rest)
         else iv_view vma_ops vma_obs (vmareas mm') x = iv_view vma_ops vma_obs (vmareas mm) x)"
proof -
  obtain v where v: "a = addr" "mm' = MM_Insert v mm" "va_start v = addr" "va_end v = addr + PageAlign len"
      "addr < addr + PageAlign len" "va_prot v = prot"
    using MM_MMap_cases [OF assms(1,4)] assms(3) by auto
  have "iv_ok vma_ops 0 (vmareas mm)" using assms(2) by (simp add: MappingsValid_iff)
  then have "iv_view vma_ops vma_obs (vmareas mm') x =
      (if iv_covers vma_ops x v then Some (vma_obs v x) else iv_view vma_ops vma_obs (vmareas mm) x)" for x
    using vm.Insert_correct(2) [of 0 "vmareas mm" v x] v by (simp add: MM_Insert_def)
  then show ?thesis
    using MM_MMap_valid [OF assms(1,2,4)] v by (auto simp: iv_covers_def vma_obs_def)
qed

theorem MMap_fixed_maps_range_witness:
  "let mm' = fst (snd (the (MM_MMap demo_kernel False False False 0x22000 0x1800 1 0x32 None 0 demo_mm [])))
   in 0x22000 = (0x22000::uintptr) \<and> MappingsValid (vmareas mm') \<and>
    (\<forall>x. if 0x22000 \<le> x \<and> x < 0x22000 + PageAlign 0x1800
         then \<exists>rest. iv_view vma_ops vma_obs (vmareas mm') x = Some (1, rest)
         else iv_view vma_ops vma_obs (vmareas mm') x = iv_view vma_ops vma_obs (vmareas demo_mm) x)"
proof -
  let ?m = "MM_MMap demo_kernel False False False 0x22000 0x1800 1 0x32 None 0 demo_mm []"
  have run: "?m = Some (Inr 0x22000, fst (snd (the ?m)), snd (snd (the ?m)))"
    by (simp add: MM_MMap_def mmap_finish_def mmap_area_def KernelMMap_def mmap_flags_def Let_def
        demo_eval mm_consts)
  have "(0x32::i32) AND MAP_FIXED \<noteq> 0" by (simp add: MAP_FIXED_def)
  from MMap_fixed_maps_range [OF demo_kernel_ok demo_mm_valid this run] show ?thesis
    unfolding Let_def .
qed

text \<open>Once the break address is not page-aligned, the heap can neither grow nor shrink past its
  page: the area that ends just above the break is taken for an obstacle although it is the heap
  itself.\<close>

theorem SetBreak_stuck:
  assumes "iv_ok vma_ops 0 (vmareas mm)" "iv_find vma_ops (brk_addr mm) (vmareas mm) = Some heap"
    "va_start heap < PageAlign newbrk" "PageAlign newbrk \<noteq> PageAlign (brk_addr mm)"
    "mm_start mm \<le> newbrk" "newbrk < mm_end mm"
  shows "SetBreak k False newbrk mm = (Inr (brk_addr mm), mm)"
proof -
  have "Find vma_ops (brk_addr mm) (vmareas mm) = Inr heap"
    using vm.Find_correct [OF assms(1) word_zero_least] assms(2) by simp
  then have "UpperBound (brk_addr mm) (vmareas mm) = Inr heap"
    by (auto simp: Find_def UpperBound_def split: list.splits if_splits)
  then show ?thesis using assms(3-6) by (auto simp: SetBreak_def Let_def)
qed

theorem SetBreak_stuck_witness:
  "let mm = snd (SetBreak demo_kernel False 0x11800 (MemoryMap_new 0x10000 0x100000))
   in brk_addr mm = 0x11800 \<and> SetBreak demo_kernel False 0x13000 mm = (Inr 0x11800, mm)"
proof -
  define mm where "mm = snd (SetBreak demo_kernel False 0x11800 (MemoryMap_new 0x10000 0x100000))"
  have mm: "mm = \<lparr>mm_start = 0x10000, mm_end = 0x110000, brk_addr = 0x11800,
      vmareas = [(0x12000, VMArea_anon 0x10000 0x2000 3 kHeap)], tracer = None, is_non_reloc = False,
      is_fake_map = False\<rparr>"
    by (simp add: mm_def SetBreak_def Let_def UpperBound_def KernelMMapFixed_def MM_Insert_def demo_eval
        mm_consts Insert_def clear_range_def Clear_def before_ub_def upper_bound_def merge_right_def
        last_key_def)
  have "SetBreak demo_kernel False 0x13000 mm = (Inr (brk_addr mm), mm)"
    by (rule SetBreak_stuck [where heap = "VMArea_anon 0x10000 0x2000 3 kHeap"])
      (simp_all add: mm VMArea_anon_def iv_covers_def page_eval)
  then show ?thesis using mm by (simp add: mm_def [symmetric])
qed

end
