(* ===== verification/MemFile.thy ===== *)
theory MemFile
  imports Bits IoVec
begin

text \<open>
  The contents of files in memory: \<open>Read\<close>, \<open>Write\<close> and \<open>SetSize\<close> of \<open>MemInode\<close>
  (\<^verbatim>\<open>src/junction/fs/memfs/memfs.h\<close> and \<^verbatim>\<open>src/junction/fs/memfs/memfs.cc\<close>).

  The extent of a file is a function from offsets to bytes.  Copying past the end of the extent is the
  result \<open>None\<close>.  The advice to drop pages succeeds and zeroes them; recording accesses for a trace does
  not change the file.  Offsets are not negative.
\<close>

definition kMaxSizeBytes :: u64 where "kMaxSizeBytes = 0x10000000"

record MemInode =
  mi_buf :: "nat \<Rightarrow> byte"
  mi_size :: u64

definition mf_Read :: "u64 \<Rightarrow> u64 \<Rightarrow> MemInode \<Rightarrow> (byte list \<times> u64) option" where
  "mf_Read len off I =
     (let n = min len (mi_size I - off) in
      if unat off + unat n > unat kMaxSizeBytes then None
      else Some (map (\<lambda>k. mi_buf I (unat off + k)) [0 ..< unat n], off + n))"

definition mf_Write :: "byte list \<Rightarrow> u64 \<Rightarrow> MemInode \<Rightarrow> (u64 \<times> u64) Status \<times> MemInode" where
  "mf_Write data off I =
     (if off \<ge> kMaxSizeBytes then (Inl ENOSPC, I)
      else
        (let buf = take (unat (kMaxSizeBytes - off)) data;
             len = of_nat (length buf);
             I1 = (if off + len > mi_size I then I\<lparr>mi_size := off + len\<rparr> else I)
         in (Inr (len, off + len),
             I1\<lparr>mi_buf := \<lambda>k. if unat off \<le> k \<and> k < unat off + length buf then buf ! (k - unat off) else mi_buf I k\<rparr>)))"

definition mf_SetSize :: "u64 \<Rightarrow> MemInode \<Rightarrow> unit Status \<times> MemInode" where
  "mf_SetSize newlen I =
     (if newlen > kMaxSizeBytes then (Inl EINVAL, I)
      else
        (let newlen_p = PageAlign newlen; oldlen_p = PageAlign (mi_size I);
             I1 = (if newlen_p < oldlen_p
                   then I\<lparr>mi_buf := \<lambda>k. if unat newlen_p \<le> k \<and> k < unat oldlen_p then 0 else mi_buf I k\<rparr>
                   else I)
         in (Inr (), I1\<lparr>mi_size := newlen\<rparr>)))"

text \<open>The size never exceeds the extent.\<close>

definition mf_ok :: "MemInode \<Rightarrow> bool" where
  "mf_ok I \<longleftrightarrow> mi_size I \<le> kMaxSizeBytes"

lemma kMax_unat: "unat kMaxSizeBytes = 0x10000000"
  by (simp add: kMaxSizeBytes_def)

lemma mf_SetSize_ok: "mf_ok I \<Longrightarrow> mf_ok (snd (mf_SetSize newlen I))"
  by (auto simp: mf_ok_def mf_SetSize_def Let_def)

text \<open>What a write stores, and how far.\<close>

lemma mf_Write_len:
  assumes "off < kMaxSizeBytes" and buf_def: "buf = take (unat (kMaxSizeBytes - off)) data"
  shows "unat off + length buf \<le> unat kMaxSizeBytes" and "unat (of_nat (length buf) :: u64) = length buf"
    and "unat (off + of_nat (length buf)) = unat off + length buf"
proof -
  have sub: "unat (kMaxSizeBytes - off) = unat kMaxSizeBytes - unat off"
    using assms(1) by (simp add: unat_sub less_imp_le)
  have lt: "unat off < unat kMaxSizeBytes" using assms(1) by (simp add: word_less_nat_alt)
  show le: "unat off + length buf \<le> unat kMaxSizeBytes" using sub lt by (simp add: buf_def)
  then show l: "unat (of_nat (length buf) :: u64) = length buf" by (simp add: kMax_unat unat_of_nat take_bit_nat_eq_self)
  show "unat (off + of_nat (length buf)) = unat off + length buf"
    using le l by (subst unat_add_no_wrap) (simp_all add: kMax_unat)
qed

lemma mf_Write_ok:
  assumes "mf_ok I"
  shows "mf_ok (snd (mf_Write data off I))"
proof (cases "off < kMaxSizeBytes")
  case True
  then show ?thesis
    using assms mf_Write_len(1,3) [OF True refl, of data]
    by (simp add: mf_ok_def mf_Write_def Let_def word_le_nat_alt word_less_nat_alt not_le)
qed (use assms in \<open>simp add: mf_Write_def not_less\<close>)

text \<open>A read within the file returns its bytes and stays within the extent.\<close>

lemma mf_Read_inside:
  assumes "mf_ok I" and "off \<le> mi_size I"
  shows "mf_Read len off I =
    Some (map (\<lambda>k. mi_buf I (unat off + k)) [0 ..< min (unat len) (unat (mi_size I) - unat off)],
      off + min len (mi_size I - off))"
proof -
  have sub: "unat (mi_size I - off) = unat (mi_size I) - unat off" using assms(2) by (simp add: unat_sub)
  have m: "unat (min len (mi_size I - off)) = min (unat len) (unat (mi_size I) - unat off)"
    using sub by (auto simp: min_def word_le_nat_alt)
  have "unat (mi_size I) \<le> unat kMaxSizeBytes" "unat off \<le> unat (mi_size I)"
    using assms by (auto simp: mf_ok_def word_le_nat_alt)
  then show ?thesis by (simp add: mf_Read_def Let_def m)
qed

text \<open>Reading back what was written.\<close>

lemma mf_write_read:
  assumes ok: "mf_ok I" and fits: "unat off + length data \<le> unat kMaxSizeBytes" and "data \<noteq> []"
  shows "fst (mf_Write data off I) = Inr (of_nat (length data), off + of_nat (length data)) \<and>
    mf_Read (of_nat (length data)) off (snd (mf_Write data off I)) = Some (data, off + of_nat (length data))"
proof -
  have lt: "off < kMaxSizeBytes" using fits assms(3) by (cases data) (auto simp: word_less_nat_alt)
  have buf: "take (unat (kMaxSizeBytes - off)) data = data"
    using fits lt by (simp add: unat_sub less_imp_le)
  note len = mf_Write_len [OF lt buf [symmetric]]
  let ?J = "snd (mf_Write data off I)"
  have W: "mf_Write data off I = (Inr (of_nat (length data), off + of_nat (length data)), ?J)"
    using lt buf by (simp add: mf_Write_def Let_def not_le)
  have mb: "mi_buf ?J k = (if unat off \<le> k \<and> k < unat off + length data then data ! (k - unat off) else mi_buf I k)" for k
    using lt buf by (auto simp: mf_Write_def Let_def not_le)
  have sz: "unat off + length data \<le> unat (mi_size ?J)"
    using lt buf len(3) by (auto simp: mf_Write_def Let_def not_le word_less_nat_alt)
  then have "off \<le> mi_size ?J" by (simp add: word_le_nat_alt)
  note R = mf_Read_inside [OF mf_Write_ok [OF ok, of data off] this, of "of_nat (length data)"]
  have "min (unat (of_nat (length data) :: u64)) (unat (mi_size ?J) - unat off) = length data"
    using len(2) sz by simp
  moreover have "min (of_nat (length data)) (mi_size ?J - off) = (of_nat (length data) :: u64)"
    using len(2) sz \<open>off \<le> mi_size ?J\<close> by (auto simp: min_def word_le_nat_alt unat_sub)
  moreover have "map (\<lambda>k. mi_buf ?J (unat off + k)) [0 ..< length data] = data"
    by (rule nth_equalityI) (simp_all add: mb)
  ultimately show ?thesis using R W by (metis fst_conv)
qed

text \<open>The contents as a list: what reading and writing inside the file or at its end does to them.\<close>

definition mf_contents :: "MemInode \<Rightarrow> byte list" where
  "mf_contents I = map (mi_buf I) [0 ..< unat (mi_size I)]"

lemma length_mf_contents: "length (mf_contents I) = unat (mi_size I)" "length (mf_contents I) < 2 ^ 64"
  using unat_lt_64 by (simp_all add: mf_contents_def)

lemma mf_Read_contents:
  assumes "mf_ok I" and off: "unat off \<le> length (mf_contents I)" and n: "n < 2 ^ 64"
  shows "mf_Read (of_nat n) off I =
    Some (take n (drop (unat off) (mf_contents I)), off + of_nat (min n (length (mf_contents I) - unat off)))"
proof -
  have le: "off \<le> mi_size I" using off by (simp add: mf_contents_def word_le_nat_alt)
  have un: "unat (of_nat n :: u64) = n" using n by (simp add: unat_of_nat take_bit_nat_eq_self)
  have "unat (min (of_nat n) (mi_size I - off)) = min n (unat (mi_size I) - unat off)"
    using un le by (auto simp: min_def word_le_nat_alt unat_sub)
  then have m: "min (of_nat n) (mi_size I - off) = of_nat (min n (unat (mi_size I) - unat off))"
    using unat_lt_64 [of "min (of_nat n) (mi_size I - off)"]
    by (simp add: word_unat_eq_iff unat_of_nat take_bit_nat_eq_self)
  have "take n (drop (unat off) (mf_contents I)) =
      map (\<lambda>k. mi_buf I (unat off + k)) [0 ..< min n (unat (mi_size I) - unat off)]"
    using off by (intro nth_equalityI) (simp_all add: mf_contents_def less_diff_conv add.commute)
  then show ?thesis using mf_Read_inside [OF assms(1) le, of "of_nat n"] un m by (simp add: mf_contents_def)
qed

lemma mf_Write_contents:
  assumes "unat off \<le> length (mf_contents I)" and fits: "unat off + length data \<le> unat kMaxSizeBytes"
    and "unat off < unat kMaxSizeBytes"
  shows "\<exists>J. mf_Write data off I = (Inr (of_nat (length data), off + of_nat (length data)), J) \<and>
    mf_contents J = take (unat off) (mf_contents I) @ data @ drop (unat off + length data) (mf_contents I)"
proof -
  have lt: "off < kMaxSizeBytes" using assms(3) by (simp add: word_less_nat_alt)
  have buf: "take (unat (kMaxSizeBytes - off)) data = data"
    using fits lt by (simp add: unat_sub less_imp_le)
  note len = mf_Write_len [OF lt buf [symmetric]]
  let ?J = "snd (mf_Write data off I)"
  have W: "mf_Write data off I = (Inr (of_nat (length data), off + of_nat (length data)), ?J)"
    using lt buf by (simp add: mf_Write_def Let_def not_le)
  have mb: "mi_buf ?J k = (if unat off \<le> k \<and> k < unat off + length data then data ! (k - unat off) else mi_buf I k)" for k
    using lt buf by (auto simp: mf_Write_def Let_def not_le)
  have sz: "unat (mi_size ?J) = max (unat (mi_size I)) (unat off + length data)"
    using lt buf len(3) by (auto simp: mf_Write_def Let_def not_le word_less_nat_alt)
  have "mf_contents ?J = take (unat off) (mf_contents I) @ data @ drop (unat off + length data) (mf_contents I)"
    using assms(1)
    by (intro nth_equalityI) (auto simp: mf_contents_def sz mb nth_append)
  then show ?thesis using W by blast
qed

text \<open>An inode that bytes were written to.\<close>

definition mf_empty :: MemInode where
  "mf_empty = \<lparr>mi_buf = (\<lambda>_. 0), mi_size = 0\<rparr>"

definition mf_written :: "byte list \<Rightarrow> MemInode" where
  "mf_written data = snd (mf_Write data 0 mf_empty)"

lemma mf_written_ok: "mf_ok (mf_written data)"
  unfolding mf_written_def by (rule mf_Write_ok) (simp add: mf_ok_def mf_empty_def)

text \<open>Past the end of the file the remaining length wraps, and a read returns bytes that are not there.\<close>

lemma mf_Read_past_end:
  assumes "mi_size I < off" and "unat off + unat len \<le> unat kMaxSizeBytes"
  shows "\<exists>bytes. mf_Read len off I = Some (bytes, off + len) \<and> length bytes = unat len"
proof -
  have "unat (mi_size I - off) = 2 ^ 64 - (unat off - unat (mi_size I))"
    using assms(1) by (simp add: unat_sub_if_size word_size word_less_nat_alt)
  then have "len \<le> mi_size I - off"
    using assms by (simp add: word_le_nat_alt word_less_nat_alt kMax_unat)
  then show ?thesis using assms(2) by (simp add: mf_Read_def Let_def min_def)
qed

text \<open>Shrinking within a page keeps the bytes that were cut off: growing again brings them back.\<close>

lemma mf_shrink_keeps_bytes:
  assumes "PageAlign newlen = PageAlign (mi_size I)" and "newlen \<le> kMaxSizeBytes" and "mf_ok I"
  shows "mi_buf (snd (mf_SetSize (mi_size I) (snd (mf_SetSize newlen I)))) = mi_buf I"
  using assms by (simp add: mf_SetSize_def Let_def mf_ok_def not_less)

end
