(* ===== verification/Elf.thy ===== *)
theory Elf
  imports MemoryMap IoVec MemFile
begin

text \<open>
  The loader for ELF programs (\<^verbatim>\<open>src/junction/kernel/elf.h\<close>, \<^verbatim>\<open>src/junction/kernel/elf.cc\<close>) and the file wrapper
  it reads through (\<^verbatim>\<open>src/junction/fs/junction_file.h\<close>), over the memory map of the theory \<open>MemoryMap\<close>.

  The methods of the opened files are virtual: reading and seeking are functions in an environment, together
  with the opening of a path, the configured interpreter, the host kernel and the interruptions of the calls
  on the memory map.  Headers are decoded from the bytes that were read.  The guest's memory is a function
  from addresses to bytes; only what the loader itself writes there is modelled.

  The lemmas say what a loaded segment maps, and that a relocatable program never touches a mapping that
  existed before, unless the addresses in its headers wrap around.
\<close>

section \<open>Headers\<close>

record elf_header =
  eh_magic :: "byte list"
  eh_type :: "16 word"
  eh_machine :: "16 word"
  eh_version :: u32
  eh_entry :: u64
  eh_phoff :: u64
  eh_shoff :: u64
  eh_flags :: u32
  eh_ehsize :: "16 word"
  eh_phsize :: "16 word"
  eh_phnum :: "16 word"
  eh_shsize :: "16 word"
  eh_shnum :: "16 word"
  eh_shstrndx :: "16 word"

definition elf_header_size :: nat where "elf_header_size = 64"

definition elf_header_of :: "byte list \<Rightarrow> elf_header" where
  "elf_header_of bs = \<lparr>eh_magic = take 16 bs, eh_type = of_nat (le_at bs 16 2), eh_machine = of_nat (le_at bs 18 2),
     eh_version = of_nat (le_at bs 20 4), eh_entry = of_nat (le_at bs 24 8), eh_phoff = of_nat (le_at bs 32 8),
     eh_shoff = of_nat (le_at bs 40 8), eh_flags = of_nat (le_at bs 48 4), eh_ehsize = of_nat (le_at bs 52 2),
     eh_phsize = of_nat (le_at bs 54 2), eh_phnum = of_nat (le_at bs 56 2), eh_shsize = of_nat (le_at bs 58 2),
     eh_shnum = of_nat (le_at bs 60 2), eh_shstrndx = of_nat (le_at bs 62 2)\<rparr>"

record elf_phdr =
  ph_type :: u32
  ph_flags :: u32
  ph_offset :: u64
  ph_vaddr :: u64
  ph_paddr :: u64
  ph_filesz :: u64
  ph_memsz :: u64
  ph_align :: u64

definition elf_phdr_size :: nat where "elf_phdr_size = 56"

definition elf_phdr_of :: "byte list \<Rightarrow> elf_phdr" where
  "elf_phdr_of bs = \<lparr>ph_type = of_nat (le_at bs 0 4), ph_flags = of_nat (le_at bs 4 4),
     ph_offset = of_nat (le_at bs 8 8), ph_vaddr = of_nat (le_at bs 16 8), ph_paddr = of_nat (le_at bs 24 8),
     ph_filesz = of_nat (le_at bs 32 8), ph_memsz = of_nat (le_at bs 40 8), ph_align = of_nat (le_at bs 48 8)\<rparr>"

definition kETypeExec :: "16 word" where "kETypeExec = 2"
definition kETypeDynamic :: "16 word" where "kETypeDynamic = 3"
definition kPTypeLoad :: u32 where "kPTypeLoad = 1"
definition kPTypeInterp :: u32 where "kPTypeInterp = 3"
definition kPTypeSelf :: u32 where "kPTypeSelf = 6"
definition kFlagExec :: u32 where "kFlagExec = 1"
definition kFlagWrite :: u32 where "kFlagWrite = 2"
definition kFlagRead :: u32 where "kFlagRead = 4"

record interp_data =
  id_map_base :: uintptr
  id_map_len :: u64
  id_entry_addr :: uintptr

record elf_data =
  ed_map_base :: uintptr
  ed_map_len :: u64
  ed_entry_addr :: uintptr
  ed_phdr_addr :: uintptr
  ed_phdr_num :: u64
  ed_phdr_entsz :: u64
  ed_interp :: "interp_data option"

definition HeaderIsValid :: "elf_header \<Rightarrow> bool" where
  "HeaderIsValid hdr \<longleftrightarrow>
     take 4 (eh_magic hdr) = [0x7f, 0x45, 0x4c, 0x46] \<and>
     eh_magic hdr ! 4 = 2 \<and> eh_magic hdr ! 5 = 1 \<and> eh_magic hdr ! 6 = 1 \<and>
     eh_version hdr = 1 \<and> eh_machine hdr = 62 \<and>
     eh_phsize hdr = of_nat elf_phdr_size \<and> eh_ehsize hdr = of_nat elf_header_size"

section \<open>Files\<close>

record JunctionFile =
  jf_file :: nat
  jf_off :: u64

text \<open>
  The environment of the loader: reading at an offset gives the bytes and the new offset, seeking from the
  start gives the new offset, a path is opened for reading.  \<open>env_intr\<close> and \<open>env_intr2\<close> say whether the
  \<open>n\<close>-th call on the memory map, or the population of its pages, is interrupted.
\<close>

record loader_env =
  env_Read :: "nat \<Rightarrow> nat \<Rightarrow> u64 \<Rightarrow> (byte list \<times> u64) Status"
  env_Seek :: "nat \<Rightarrow> u64 \<Rightarrow> u64 Status"
  env_Open :: "string \<Rightarrow> nat Status"
  env_interp_path :: string
  env_kernel :: kernel
  env_madv_remap :: bool
  env_intr :: "nat \<Rightarrow> bool"
  env_intr2 :: "nat \<Rightarrow> bool"

definition jf_Read :: "loader_env \<Rightarrow> nat \<Rightarrow> JunctionFile \<Rightarrow> byte list Status \<times> JunctionFile" where
  "jf_Read env n f =
     (case env_Read env (jf_file f) n (jf_off f) of
        Inl e \<Rightarrow> (Inl e, f)
      | Inr (bs, off) \<Rightarrow> (if bs = [] then Inl EUNEXPECTEDEOF else Inr bs, f\<lparr>jf_off := off\<rparr>))"

definition jf_Seek :: "loader_env \<Rightarrow> u64 \<Rightarrow> JunctionFile \<Rightarrow> unit Status \<times> JunctionFile" where
  "jf_Seek env offset f =
     (case env_Seek env (jf_file f) offset of
        Inl e \<Rightarrow> (Inl e, f)
      | Inr off \<Rightarrow> (Inr (), f\<lparr>jf_off := off\<rparr>))"

text \<open>Every round of \<open>ReadFull\<close> reads at least one byte, so one round per byte and one to leave are enough.\<close>

definition jf_ReadFull :: "loader_env \<Rightarrow> nat \<Rightarrow> JunctionFile \<Rightarrow> (byte list Status \<times> JunctionFile) option" where
  "jf_ReadFull env n f = ReadFull (Suc n) (jf_Read env) n [] f"

definition ReadHeader :: "loader_env \<Rightarrow> JunctionFile \<Rightarrow> (elf_header Status \<times> JunctionFile) option" where
  "ReadHeader env f =
     (case jf_ReadFull env elf_header_size f of
        None \<Rightarrow> None
      | Some (Inl e, f') \<Rightarrow> Some (Inl e, f')
      | Some (Inr bs, f') \<Rightarrow>
          Some (if HeaderIsValid (elf_header_of bs) then Inr (elf_header_of bs) else Inl EINVAL, f'))"

definition has_single_bit :: "u64 \<Rightarrow> bool" where
  "has_single_bit a \<longleftrightarrow> a \<noteq> 0 \<and> a AND (a - 1) = 0"

definition phdr_valid :: "elf_phdr \<Rightarrow> bool" where
  "phdr_valid p \<longleftrightarrow>
     \<not> (ph_filesz p > ph_memsz p \<or>
        ph_align p > 1 \<and> (\<not> has_single_bit (ph_align p) \<or>
          ph_vaddr p AND (ph_align p - 1) \<noteq> ph_offset p AND (ph_align p - 1)))"

text \<open>The result of the seek is not looked at; the table is read from wherever the file stands.\<close>

definition ReadPHDRs :: "loader_env \<Rightarrow> elf_header \<Rightarrow> JunctionFile
    \<Rightarrow> (elf_phdr list Status \<times> JunctionFile) option" where
  "ReadPHDRs env hdr f =
     (let n = unat (eh_phnum hdr) in
      case jf_ReadFull env (n * elf_phdr_size) (snd (jf_Seek env (eh_phoff hdr) f)) of
        None \<Rightarrow> None
      | Some (Inl e, f') \<Rightarrow> Some (Inl e, f')
      | Some (Inr bs, f') \<Rightarrow>
          (let phdrs = map (\<lambda>i. elf_phdr_of (drop (i * elf_phdr_size) bs)) [0..<n] in
           Some (if list_all phdr_valid phdrs then Inr phdrs else Inl EINVAL, f')))"

definition CountTotalLength :: "elf_phdr list \<Rightarrow> u64" where
  "CountTotalLength phdrs =
     fold (\<lambda>p len. if ph_type p \<noteq> kPTypeLoad then len else max len (ph_vaddr p + ph_memsz p)) phdrs 0"

text \<open>A string of the size zero minus one is longer than any string can be: the constructor throws.\<close>

definition ReadInterp :: "loader_env \<Rightarrow> elf_phdr \<Rightarrow> JunctionFile
    \<Rightarrow> (string Status \<times> JunctionFile) option" where
  "ReadInterp env p f =
     (if unat (ph_filesz p - 1) \<ge> 2 ^ 63 then None
      else case jf_ReadFull env (unat (ph_filesz p - 1)) (snd (jf_Seek env (ph_offset p) f)) of
        None \<Rightarrow> None
      | Some (Inl e, f') \<Rightarrow> Some (Inl e, f')
      | Some (Inr bs, f') \<Rightarrow> Some (Inr (map (\<lambda>b. char_of (unat b)) bs), f'))"

definition FindPHDRByType :: "elf_phdr list \<Rightarrow> u32 \<Rightarrow> elf_phdr option" where
  "FindPHDRByType v type = find (\<lambda>p. ph_type p = type) v"

section \<open>Segments\<close>

text \<open>
  The state of a load: the memory map, the pool of addresses, the guest's memory, the number of
  non-relocatable maps and the number of calls on the memory map so far.
\<close>

record loader =
  ld_mm :: MemoryMap
  ld_pool :: mem_pool
  ld_mem :: "uintptr \<Rightarrow> byte"
  ld_nr_non_reloc :: u64
  ld_calls :: nat

type_synonym 'a ld = "loader \<Rightarrow> ('a Status \<times> loader) option"

definition ld_return :: "'a \<Rightarrow> 'a ld" where
  "ld_return x s = Some (Inr x, s)"

definition ld_bind :: "'a ld \<Rightarrow> ('a \<Rightarrow> 'b ld) \<Rightarrow> 'b ld" where
  "ld_bind m f s =
     (case m s of None \<Rightarrow> None | Some (Inl e, s') \<Rightarrow> Some (Inl e, s') | Some (Inr x, s') \<Rightarrow> f x s')"

definition ld_MMap :: "loader_env \<Rightarrow> uintptr \<Rightarrow> u64 \<Rightarrow> i32 \<Rightarrow> i32 \<Rightarrow> nat option \<Rightarrow> u64 \<Rightarrow> uintptr ld" where
  "ld_MMap env addr len prot flags f off s =
     (case MM_MMap (env_kernel env) (env_madv_remap env) (env_intr env (ld_calls s)) (env_intr2 env (ld_calls s))
             addr len prot flags f off (ld_mm s) (ld_pool s) of
        None \<Rightarrow> None
      | Some (r, mm', pool') \<Rightarrow> Some (r, s\<lparr>ld_mm := mm', ld_pool := pool', ld_calls := Suc (ld_calls s)\<rparr>))"

definition MMapAnonymous :: "loader_env \<Rightarrow> uintptr \<Rightarrow> u64 \<Rightarrow> i32 \<Rightarrow> i32 \<Rightarrow> uintptr ld" where
  "MMapAnonymous env addr len prot flags =
     ld_MMap env addr len prot (flags OR (MAP_PRIVATE OR MAP_ANONYMOUS)) None 0"

definition MMapFixed :: "loader_env \<Rightarrow> JunctionFile \<Rightarrow> uintptr \<Rightarrow> u64 \<Rightarrow> i32 \<Rightarrow> i32 \<Rightarrow> u64 \<Rightarrow> uintptr ld" where
  "MMapFixed env f addr len prot flags off s =
     (if flags AND MAP_ANONYMOUS \<noteq> 0 then None
      else ld_MMap env addr len prot (flags OR (MAP_FIXED OR MAP_PRIVATE)) (Some (jf_file f)) off s)"

definition ld_MProtect :: "loader_env \<Rightarrow> uintptr \<Rightarrow> u64 \<Rightarrow> i32 \<Rightarrow> unit ld" where
  "ld_MProtect env addr len prot s =
     (case MProtect (env_kernel env) (env_intr env (ld_calls s)) addr len prot (ld_mm s) of
        (r, mm') \<Rightarrow> Some (r, s\<lparr>ld_mm := mm', ld_calls := Suc (ld_calls s)\<rparr>))"

definition ld_zero :: "uintptr \<Rightarrow> u64 \<Rightarrow> unit ld" where
  "ld_zero addr len s =
     Some (Inr (), s\<lparr>ld_mem := (\<lambda>a. if a - addr < len then 0 else ld_mem s a)\<rparr>)"

definition ld_when :: "bool \<Rightarrow> 'a ld \<Rightarrow> unit ld" where
  "ld_when c m = (if c then ld_bind m (\<lambda>_. ld_return ()) else ld_return ())"

definition MAP_DENYWRITE :: i32 where "MAP_DENYWRITE = 0x800"

definition segment_prot :: "elf_phdr \<Rightarrow> i32" where
  "segment_prot p =
     (if ph_flags p AND kFlagExec \<noteq> 0 then PROT_EXEC else 0) OR
     (if ph_flags p AND kFlagWrite \<noteq> 0 then PROT_WRITE else 0) OR
     (if ph_flags p AND kFlagRead \<noteq> 0 then PROT_READ else 0)"

definition LoadOneSegment :: "loader_env \<Rightarrow> JunctionFile \<Rightarrow> u64 \<Rightarrow> elf_phdr \<Rightarrow> unit ld" where
  "LoadOneSegment env f map_off p =
     (let prot = segment_prot p;
          start = PageAlignDown (ph_vaddr p + map_off);
          file_end = ph_vaddr p + map_off + ph_filesz p;
          gap_end = PageAlign file_end;
          mem_end = ph_vaddr p + map_off + ph_memsz p
      in ld_bind
           (ld_when (file_end > start)
              (MMapFixed env f start (file_end - start) prot MAP_DENYWRITE (PageAlignDown (ph_offset p)))) (\<lambda>_.
         ld_bind
           (ld_when (gap_end > file_end)
              (ld_bind (ld_when (prot AND PROT_WRITE = 0)
                          (ld_MProtect env (PageAlignDown file_end) kPageSize (prot OR PROT_WRITE))) (\<lambda>_.
               ld_bind (ld_zero file_end (gap_end - file_end)) (\<lambda>_.
               ld_when (prot AND PROT_WRITE = 0)
                          (ld_MProtect env (PageAlignDown file_end) kPageSize prot))))) (\<lambda>_.
         ld_when (mem_end > gap_end)
           (MMapAnonymous env gap_end (mem_end - gap_end) prot MAP_FIXED))))"

fun load_segments :: "loader_env \<Rightarrow> JunctionFile \<Rightarrow> u64 \<Rightarrow> elf_phdr list \<Rightarrow> unit ld" where
  "load_segments env f map_off [] = ld_return ()"
| "load_segments env f map_off (p # ps) =
     (if ph_type p \<noteq> kPTypeLoad then load_segments env f map_off ps
      else ld_bind (LoadOneSegment env f map_off p) (\<lambda>_. load_segments env f map_off ps))"

definition LoadSegments :: "loader_env \<Rightarrow> JunctionFile \<Rightarrow> elf_phdr list \<Rightarrow> bool \<Rightarrow> (uintptr \<times> u64) ld" where
  "LoadSegments env f phdrs reloc =
     (let map_len = CountTotalLength phdrs in
      ld_bind (if reloc then MMapAnonymous env 0 map_len PROT_NONE 0 else ld_return 0) (\<lambda>map_off.
      ld_bind (load_segments env f map_off phdrs) (\<lambda>_. ld_return (map_off, map_len))))"

section \<open>Programs\<close>

definition LoadInterp :: "loader_env \<Rightarrow> string \<Rightarrow> interp_data ld" where
  "LoadInterp env path0 s =
     (let path = (if env_interp_path env \<noteq> '''' then env_interp_path env else path0) in
      case env_Open env path of
        Inl e \<Rightarrow> Some (Inl e, s)
      | Inr file \<Rightarrow>
          (case ReadHeader env \<lparr>jf_file = file, jf_off = 0\<rparr> of
             None \<Rightarrow> None
           | Some (Inl e, f) \<Rightarrow> Some (Inl e, s)
           | Some (Inr hdr, f) \<Rightarrow>
               if eh_type hdr \<noteq> kETypeDynamic then Some (Inl EINVAL, s)
               else case ReadPHDRs env hdr f of
                 None \<Rightarrow> None
               | Some (Inl e, f') \<Rightarrow> Some (Inl e, s)
               | Some (Inr phdrs, f') \<Rightarrow>
                   ld_bind (LoadSegments env f' phdrs True) (\<lambda>(base, len).
                     ld_return \<lparr>id_map_base = base, id_map_len = len, id_entry_addr = eh_entry hdr + base\<rparr>) s))"

definition CheckELFLoad :: "loader_env \<Rightarrow> bool \<Rightarrow> JunctionFile \<Rightarrow> (elf_header Status \<times> JunctionFile) option" where
  "CheckELFLoad env must_be_reloc f =
     (case ReadHeader env f of
        None \<Rightarrow> None
      | Some (Inl e, f') \<Rightarrow> Some (Inl e, f')
      | Some (Inr out, f') \<Rightarrow>
          (let reloc = (eh_type out = kETypeDynamic) in
           Some (if eh_type out \<noteq> kETypeExec \<and> \<not> reloc then Inl EINVAL
                 else if \<not> reloc \<and> must_be_reloc then Inl EINVAL
                 else Inr out, f')))"

definition mark_non_reloc :: "unit ld" where
  "mark_non_reloc s =
     (if is_non_reloc (ld_mm s) then None
      else Some (Inr (), s\<lparr>ld_mm := (ld_mm s)\<lparr>is_non_reloc := True\<rparr>, ld_nr_non_reloc := ld_nr_non_reloc s + 1\<rparr>))"

definition load_interp_of :: "loader_env \<Rightarrow> elf_phdr list \<Rightarrow> JunctionFile \<Rightarrow> interp_data option ld" where
  "load_interp_of env phdrs f s =
     (case FindPHDRByType phdrs kPTypeInterp of
        None \<Rightarrow> Some (Inr None, s)
      | Some p \<Rightarrow>
          (case ReadInterp env p f of
             None \<Rightarrow> None
           | Some (Inl e, _) \<Rightarrow> Some (Inl e, s)
           | Some (Inr path, _) \<Rightarrow> ld_bind (LoadInterp env path) (\<lambda>d. ld_return (Some d)) s))"

definition DoELFLoad :: "loader_env \<Rightarrow> elf_header \<Rightarrow> JunctionFile \<Rightarrow> elf_data ld" where
  "DoELFLoad env hdr f s =
     (case ReadPHDRs env hdr f of
        None \<Rightarrow> None
      | Some (Inl e, _) \<Rightarrow> Some (Inl e, s)
      | Some (Inr phdrs, f') \<Rightarrow>
          ld_bind (load_interp_of env phdrs f') (\<lambda>interp.
          ld_bind (if eh_type hdr = kETypeDynamic then ld_return () else mark_non_reloc) (\<lambda>_.
          ld_bind (LoadSegments env f' phdrs (eh_type hdr = kETypeDynamic)) (\<lambda>(base, len).
          case (case FindPHDRByType phdrs kPTypeSelf of
                  Some p \<Rightarrow> Some p
                | None \<Rightarrow> (if phdrs = [] then None else Some (hd phdrs))) of
            None \<Rightarrow> (\<lambda>_. None)
          | Some p \<Rightarrow>
              ld_return \<lparr>ed_map_base = base, ed_map_len = len, ed_entry_addr = eh_entry hdr + base,
                ed_phdr_addr = ph_vaddr p + base + eh_phoff hdr - ph_offset p,
                ed_phdr_num = ucast (eh_phnum hdr), ed_phdr_entsz = ucast (eh_phsize hdr),
                ed_interp = interp\<rparr>))) s)"

section \<open>Reading headers\<close>

text \<open>The fuel is enough, whatever the file does.\<close>

lemma jf_ReadFull_total: "jf_ReadFull env n f \<noteq> None"
proof -
  have "ReadFull (Suc m) (jf_Read env) n acc g \<noteq> None" if "n - length acc \<le> m" for m acc g
    using that
  proof (induction m arbitrary: acc g)
    case 0
    then show ?case by simp
  next
    case (Suc m)
    show ?case
    proof (cases "jf_Read env (n - length acc) g")
      case (Pair r g')
      have "ReadFull (Suc m) (jf_Read env) n (acc @ bs) g' \<noteq> None" if "r = Inr bs" "length acc < n" for bs
      proof -
        have "bs \<noteq> []" using Pair that by (auto simp: jf_Read_def split: sum.splits prod.splits if_splits)
        then have "0 < length bs" by blast
        then have "n - length (acc @ bs) \<le> m" using Suc.prems that(2) unfolding length_append by linarith
        then show ?thesis by (rule Suc.IH)
      qed
      then show ?thesis using Pair by (auto split: sum.splits)
    qed
  qed
  from this [of "[]" n f] show ?thesis unfolding jf_ReadFull_def by simp
qed

text \<open>
  What the loader expects of a program file: a read inside the file returns the bytes there, as many as asked
  for if the file has them, and advances the offset by their number.
\<close>

locale program_file =
  fixes env :: loader_env and file_id :: nat and contents :: "byte list"
  assumes reads: "unat off \<le> length contents \<Longrightarrow> n < 2 ^ 64 \<Longrightarrow>
      env_Read env file_id n off =
        Inr (take n (drop (unat off) contents), off + of_nat (min n (length contents - unat off)))"
    and small: "length contents < 2 ^ 64"
begin

lemma read_full:
  assumes "unat off + n \<le> length contents" "n < 2 ^ 64"
  shows "jf_ReadFull env n \<lparr>jf_file = file_id, jf_off = off\<rparr> =
    Some (Inr (take n (drop (unat off) contents)), \<lparr>jf_file = file_id, jf_off = off + of_nat n\<rparr>)"
proof (cases n)
  case (Suc m)
  have "jf_Read env n \<lparr>jf_file = file_id, jf_off = off\<rparr> =
      (Inr (take n (drop (unat off) contents)), \<lparr>jf_file = file_id, jf_off = off + of_nat n\<rparr>)"
    using assms Suc by (auto simp: jf_Read_def reads min_def)
  moreover have "length (take n (drop (unat off) contents)) = n" "take n (drop (unat off) contents) \<noteq> []"
    using assms Suc by auto
  ultimately show ?thesis unfolding jf_ReadFull_def by (simp add: Suc)
qed (simp add: jf_ReadFull_def)

lemma ReadHeader_decodes:
  assumes "elf_header_size \<le> length contents"
  shows "ReadHeader env \<lparr>jf_file = file_id, jf_off = 0\<rparr> =
    Some (if HeaderIsValid (elf_header_of (take 64 contents)) then Inr (elf_header_of (take 64 contents)) else Inl EINVAL,
      \<lparr>jf_file = file_id, jf_off = 64\<rparr>)"
  using assms read_full [of 0 64] by (simp add: ReadHeader_def elf_header_size_def)

end

text \<open>Files in memory are program files.\<close>

definition memfs_env :: "(nat \<Rightarrow> MemInode) \<Rightarrow> loader_env \<Rightarrow> loader_env" where
  "memfs_env inodes env = env\<lparr>env_Read := \<lambda>f n off.
     (case mf_Read (of_nat n) off (inodes f) of None \<Rightarrow> Inl EINVAL | Some r \<Rightarrow> Inr r)\<rparr>"

lemma memfs_program_file:
  assumes "mf_ok (inodes f)"
  shows "program_file (memfs_env inodes env) f (mf_contents (inodes f))"
  using mf_Read_contents [OF assms] length_mf_contents(2) by unfold_locales (simp_all add: memfs_env_def)

interpretation memfs: program_file "memfs_env (\<lambda>f. mf_written (progs f)) env" f "mf_contents (mf_written (progs f))"
  for progs env f
  using memfs_program_file [of "\<lambda>f. mf_written (progs f)", OF mf_written_ok] .

section \<open>What a segment maps\<close>

lemma ld_bind_ok:
  "ld_bind m f s = Some (Inr y, s') \<longleftrightarrow> (\<exists>x t. m s = Some (Inr x, t) \<and> f x t = Some (Inr y, s'))"
  by (auto simp: ld_bind_def split: option.splits sum.splits prod.splits)

lemma ld_when_ok:
  "ld_when c m s = Some (Inr u, s') \<longleftrightarrow> (if c then \<exists>x. m s = Some (Inr x, s') else s' = s)"
  by (auto simp: ld_when_def ld_bind_ok ld_return_def)

definition ld_view :: "loader \<Rightarrow> uintptr \<Rightarrow> vma_info option" where
  "ld_view s = iv_view vma_ops vma_obs (vmareas (ld_mm s))"

text \<open>The memory map between the calls of the loader.\<close>

definition ld_valid :: "loader_env \<Rightarrow> loader \<Rightarrow> bool" where
  "ld_valid env s \<longleftrightarrow> kernel_ok (env_kernel env) \<and> MappingsValid (vmareas (ld_mm s)) \<and> \<not> TraceEnabled (ld_mm s)"

lemma TraceEnabled_Insert [simp]: "TraceEnabled (MM_Insert v mm) = TraceEnabled mm"
  by (simp add: TraceEnabled_def MM_Insert_def)

lemma TraceEnabled_MProtect: "MProtect k intr addr len prot mm = (r, mm') \<Longrightarrow> TraceEnabled mm' = TraceEnabled mm"
  by (auto simp: MProtect_def TraceEnabled_def MM_Modify_def AddressToBounds_def split: if_splits sum.splits)

text \<open>A successful fixed mapping inserts the area that the host placed, and nothing else changes.\<close>

lemma MM_MMap_fixed_area:
  assumes "flags AND MAP_FIXED \<noteq> 0"
    and "MM_MMap k cfg intr intr2 addr len prot flags f off mm pool = Some (Inr a, mm', pool')"
  shows "\<exists>v. mmap_area k addr (PageAlign len) prot (flags AND NOT MAP_POPULATE) f off = Inr (a, v) \<and>
    mm' = MM_Insert v mm"
  using assms
  by (auto simp: MM_MMap_def Let_def populate_keeps_fixed mmap_flags_def mmap_finish_def
      split: if_splits sum.splits prod.splits)

lemma Insert_view:
  assumes "MappingsValid (vmareas mm)" "va_start v < va_end v"
  shows "iv_view vma_ops vma_obs (vmareas (MM_Insert v mm)) x =
    (if va_start v \<le> x \<and> x < va_end v then Some (vma_obs v x) else iv_view vma_ops vma_obs (vmareas mm) x)"
  using vm.Insert_correct(2) [of 0 "vmareas mm" v x] assms
  by (simp add: MappingsValid_iff MM_Insert_def iv_covers_def)

lemma ld_MMap_fixed:
  assumes ok: "ld_valid env s" and fixed: "flags AND MAP_FIXED \<noteq> 0"
    and run: "ld_MMap env addr len prot flags f off s = Some (Inr a, s')"
  shows "\<exists>v. mmap_area (env_kernel env) addr (PageAlign len) prot (flags AND NOT MAP_POPULATE) f off = Inr (addr, v) \<and>
    va_start v = addr \<and> va_end v = addr + PageAlign len \<and> addr < addr + PageAlign len \<and> ld_valid env s' \<and>
    ld_view s' = (\<lambda>x. if addr \<le> x \<and> x < addr + PageAlign len then Some (vma_obs v x) else ld_view s x)"
proof -
  obtain mm' pool' where mm: "MM_MMap (env_kernel env) (env_madv_remap env) (env_intr env (ld_calls s))
      (env_intr2 env (ld_calls s)) addr len prot flags f off (ld_mm s) (ld_pool s) = Some (Inr a, mm', pool')"
    and s': "s' = s\<lparr>ld_mm := mm', ld_pool := pool', ld_calls := Suc (ld_calls s)\<rparr>"
    using run by (auto simp: ld_MMap_def split: option.splits prod.splits)
  have k: "kernel_ok (env_kernel env)" and valid: "MappingsValid (vmareas (ld_mm s))"
    and nt: "\<not> TraceEnabled (ld_mm s)"
    using ok by (simp_all add: ld_valid_def)
  obtain v where v: "mmap_area (env_kernel env) addr (PageAlign len) prot (flags AND NOT MAP_POPULATE) f off = Inr (a, v)"
    and ins: "mm' = MM_Insert v (ld_mm s)"
    using MM_MMap_fixed_area [OF fixed mm] by blast
  note place = mmap_area_ok [OF k _ PageAlign_aligned v, unfolded populate_keeps_fixed, OF fixed]
  have "MappingsValid (vmareas mm')" using MM_MMap_valid [OF k valid mm] .
  then show ?thesis
    using v place Insert_view [OF valid, of v] nt k
    by (auto simp: s' ins ld_valid_def ld_view_def fun_eq_iff)
qed

lemma ld_MProtect_view:
  assumes ok: "ld_valid env s" and run: "ld_MProtect env addr len prot s = Some (Inr (), s')"
  shows "ld_valid env s' \<and> ld_view s' = (\<lambda>x. if addr \<le> x \<and> x < PageAlign (addr + len)
    then map_option (set_prot prot) (ld_view s x) else ld_view s x)"
proof -
  obtain mm' where mm: "MProtect (env_kernel env) (env_intr env (ld_calls s)) addr len prot (ld_mm s) = (Inr (), mm')"
    and s': "s' = s\<lparr>ld_mm := mm', ld_calls := Suc (ld_calls s)\<rparr>"
    using run by (auto simp: ld_MProtect_def split: prod.splits)
  have k: "kernel_ok (env_kernel env)" "MappingsValid (vmareas (ld_mm s))" "\<not> TraceEnabled (ld_mm s)"
    using ok by (simp_all add: ld_valid_def)
  show ?thesis
    using MProtect_valid [OF k(1,2) mm] TraceEnabled_MProtect [OF mm] k
    by (auto simp: s' ld_valid_def ld_view_def fun_eq_iff)
qed

text \<open>Rounding, on natural numbers.\<close>

lemma round_facts:
  fixes V F M :: nat
  assumes "F \<le> M"
  defines "lo \<equiv> V div 4096 * 4096" and "gap \<equiv> (V + F + 4095) div 4096 * 4096"
    and "hi \<equiv> (V + M + 4095) div 4096 * 4096"
  shows "lo \<le> V" "lo \<le> gap" "V + F \<le> gap" "gap \<le> hi"
    "lo < V + F \<Longrightarrow> lo + (V + F - lo + 4095) div 4096 * 4096 = gap"
    "\<not> lo < V + F \<Longrightarrow> gap = lo"
    "gap < V + M \<Longrightarrow> gap + (V + M - gap + 4095) div 4096 * 4096 = hi"
    "\<not> gap < V + M \<Longrightarrow> hi = gap"
    "V + F < gap \<Longrightarrow> lo < V + F \<and> lo \<le> (V + F) div 4096 * 4096 \<and> (V + F) div 4096 * 4096 + 4096 = gap"
proof -
  define a b c where "a = V div 4096" and "b = (V + F + 4095) div 4096" and "c = (V + M + 4095) div 4096"
  have eq: "lo = 4096 * a" "gap = 4096 * b" "hi = 4096 * c"
    by (simp_all add: lo_def gap_def hi_def a_def b_def c_def)
  have A: "4096 * a \<le> V" "V < 4096 * a + 4096"
    and B: "V + F \<le> 4096 * b" "4096 * b < V + F + 4096"
    and C: "V + M \<le> 4096 * c" "4096 * c < V + M + 4096"
    unfolding a_def b_def c_def by linarith+
  have ab: "a \<le> b" and bc: "b \<le> c" using A B C assms(1) by arith+
  show "lo \<le> V" "lo \<le> gap" "V + F \<le> gap" "gap \<le> hi" using A B ab bc by (simp_all add: eq)
  have up: "(n + 4095) div 4096 = q" if "n \<le> 4096 * q" "4096 * q < n + 4096" for n q :: nat
    using that by (intro div_nat_eqI) auto
  show "lo + (V + F - lo + 4095) div 4096 * 4096 = gap" if "lo < V + F"
    using up [of "V + F - 4096 * a" "b - a"] A B ab that by (simp add: eq diff_mult_distrib2)
  show "gap + (V + M - gap + 4095) div 4096 * 4096 = hi" if "gap < V + M"
    using up [of "V + M - 4096 * b" "c - b"] B C bc that by (simp add: eq diff_mult_distrib2)
  show "gap = lo" if "\<not> lo < V + F" using that A B ab by (simp add: eq)
  show "hi = gap" if "\<not> gap < V + M" using that B C bc by (simp add: eq)
  show "lo < V + F \<and> lo \<le> (V + F) div 4096 * 4096 \<and> (V + F) div 4096 * 4096 + 4096 = gap" if "V + F < gap"
  proof -
    have "(V + F) div 4096 = b - 1" using that B by (intro div_nat_eqI) (auto simp: eq algebra_simps)
    moreover have "a < b" using that A by (simp add: eq)
    moreover have "lo < V + F"
    proof (rule ccontr)
      assume "\<not> lo < V + F"
      then have "4096 * b < 4096 * (a + 1)" using A B by (simp add: eq)
      then show False using \<open>a < b\<close> by simp
    qed
    ultimately show ?thesis by (cases b) (simp_all add: eq)
  qed
qed

text \<open>The addresses of \<open>LoadOneSegment\<close>, when the segment does not wrap around.\<close>

definition segment_fits :: "u64 \<Rightarrow> elf_phdr \<Rightarrow> bool" where
  "segment_fits map_off p \<longleftrightarrow>
     ph_filesz p \<le> ph_memsz p \<and> unat (ph_vaddr p + map_off) + unat (ph_memsz p) \<le> 2 ^ 47"

lemma segment_addresses:
  assumes "segment_fits map_off p"
  defines "start \<equiv> PageAlignDown (ph_vaddr p + map_off)"
    and "file_end \<equiv> ph_vaddr p + map_off + ph_filesz p"
    and "gap_end \<equiv> PageAlign (ph_vaddr p + map_off + ph_filesz p)"
    and "mem_end \<equiv> ph_vaddr p + map_off + ph_memsz p"
  shows "start \<le> gap_end" "gap_end \<le> PageAlign mem_end"
    "start < file_end \<Longrightarrow> start + PageAlign (file_end - start) = gap_end"
    "\<not> start < file_end \<Longrightarrow> gap_end = start"
    "gap_end < mem_end \<Longrightarrow> gap_end + PageAlign (mem_end - gap_end) = PageAlign mem_end"
    "\<not> gap_end < mem_end \<Longrightarrow> PageAlign mem_end = gap_end"
    "file_end < gap_end \<Longrightarrow> start < file_end"
    "file_end < gap_end \<Longrightarrow> start \<le> PageAlignDown file_end"
    "file_end < gap_end \<Longrightarrow> PageAlign (PageAlignDown file_end + kPageSize) = gap_end"
proof -
  let ?V = "unat (ph_vaddr p + map_off)" and ?F = "unat (ph_filesz p)" and ?M = "unat (ph_memsz p)"
  have FM: "?F \<le> ?M" and VM: "?V + ?M \<le> 2 ^ 47"
    using assms(1) by (simp_all add: segment_fits_def word_le_nat_alt)
  note R = round_facts [OF FM, of ?V]
  have st: "unat start = ?V div 4096 * 4096" by (simp add: start_def PageAlignDown_unat)
  have fe: "unat file_end = ?V + ?F" and me: "unat mem_end = ?V + ?M"
    unfolding file_end_def mem_end_def using FM VM by (simp_all add: unat_add_no_wrap)
  have ge: "unat gap_end = (?V + ?F + 4095) div 4096 * 4096"
    using PageAlign_unat [of file_end] fe FM VM by (simp add: gap_end_def file_end_def)
  have pe: "unat (PageAlign mem_end) = (?V + ?M + 4095) div 4096 * 4096"
    using PageAlign_unat [of mem_end] me VM by simp
  have small: "unat (PageAlign mem_end) < 2 ^ 48" using pe VM by simp
  show "start \<le> gap_end" "gap_end \<le> PageAlign mem_end"
    using R(2,4) by (simp_all add: word_le_nat_alt st ge pe)
  have sub: "unat (PageAlign (b - a)) = (unat b - unat a + 4095) div 4096 * 4096"
    if "a \<le> b" "unat b \<le> 2 ^ 47" for a b :: u64
    using that PageAlign_unat [of "b - a"] unat_sub [OF that(1)] by simp
  have add: "a + PageAlign (b - a) = c"
    if "a \<le> b" "unat b \<le> 2 ^ 47" "unat a + (unat b - unat a + 4095) div 4096 * 4096 = unat c" for a b c :: u64
    using that sub [OF that(1,2)] unat_add_no_wrap [of a "PageAlign (b - a)"] unsigned_less [of c]
    by (simp add: word_unat_eq_iff)
  show "start < file_end \<Longrightarrow> start + PageAlign (file_end - start) = gap_end"
    using R(5) FM VM by (intro add) (simp_all add: word_less_nat_alt word_le_nat_alt st fe ge)
  show "gap_end < mem_end \<Longrightarrow> gap_end + PageAlign (mem_end - gap_end) = PageAlign mem_end"
    using R(7) VM by (intro add) (simp_all add: word_less_nat_alt word_le_nat_alt me ge pe)
  show "\<not> start < file_end \<Longrightarrow> gap_end = start"
    using R(6) by (simp add: word_less_nat_alt word_unat_eq_iff st fe ge)
  show "\<not> gap_end < mem_end \<Longrightarrow> PageAlign mem_end = gap_end"
    using R(8) by (simp add: word_less_nat_alt word_unat_eq_iff me ge pe)
  show "file_end < gap_end \<Longrightarrow> start < file_end" "file_end < gap_end \<Longrightarrow> start \<le> PageAlignDown file_end"
    using R(9) by (simp_all add: word_less_nat_alt word_le_nat_alt st fe ge PageAlignDown_unat)
  assume gap: "file_end < gap_end"
  have "PageAlignDown file_end + kPageSize = gap_end"
    using R(9) gap small FM VM
      unat_add_no_wrap [of "PageAlignDown file_end" kPageSize]
    by (simp add: word_less_nat_alt word_unat_eq_iff fe ge PageAlignDown_unat kPageSize_def)
  then show "PageAlign (PageAlignDown file_end + kPageSize) = gap_end" by (simp add: gap_end_def)
qed

text \<open>
  What the pages of a loaded segment are: up to the end of the file part they map the file, at the offset that
  belongs to the address; behind it they are anonymous.
\<close>

definition segment_info :: "JunctionFile \<Rightarrow> u64 \<Rightarrow> elf_phdr \<Rightarrow> uintptr \<Rightarrow> vma_info" where
  "segment_info f map_off p x =
     (if x < PageAlign (ph_vaddr p + map_off + ph_filesz p)
      then (segment_prot p, False, kFile,
            Some (Some (jf_file f), PageAlignDown (ph_offset p) + (x - PageAlignDown (ph_vaddr p + map_off))))
      else (segment_prot p, False, kNormal, None))"

lemma file_part:
  assumes ok: "ld_valid env s" and fits: "segment_fits map_off p"
    and run: "ld_when (ph_vaddr p + map_off + ph_filesz p > PageAlignDown (ph_vaddr p + map_off))
      (MMapFixed env f (PageAlignDown (ph_vaddr p + map_off))
        (ph_vaddr p + map_off + ph_filesz p - PageAlignDown (ph_vaddr p + map_off)) (segment_prot p) MAP_DENYWRITE
        (PageAlignDown (ph_offset p))) s = Some (Inr u, s')"
  shows "ld_valid env s' \<and> ld_view s' =
    (\<lambda>x. if PageAlignDown (ph_vaddr p + map_off) \<le> x \<and> x < PageAlign (ph_vaddr p + map_off + ph_filesz p)
         then Some (segment_info f map_off p x) else ld_view s x)"
proof (cases "ph_vaddr p + map_off + ph_filesz p > PageAlignDown (ph_vaddr p + map_off)")
  case True
  let ?flags = "MAP_DENYWRITE OR (MAP_FIXED OR MAP_PRIVATE)"
  have fixed: "?flags AND MAP_FIXED \<noteq> 0" by (simp add: MAP_DENYWRITE_def MAP_FIXED_def MAP_PRIVATE_def)
  have backed: "(?flags AND NOT MAP_POPULATE) AND MAP_ANONYMOUS = 0"
    by (simp add: MAP_DENYWRITE_def MAP_FIXED_def MAP_PRIVATE_def MAP_POPULATE_def MAP_ANONYMOUS_def)
  obtain a where "ld_MMap env (PageAlignDown (ph_vaddr p + map_off))
      (ph_vaddr p + map_off + ph_filesz p - PageAlignDown (ph_vaddr p + map_off)) (segment_prot p) ?flags
      (Some (jf_file f)) (PageAlignDown (ph_offset p)) s = Some (Inr a, s')"
    using run True by (auto simp: ld_when_ok MMapFixed_def split: if_splits)
  from ld_MMap_fixed [OF ok fixed this] segment_addresses(3) [OF fits True]
  show ?thesis
    by (auto simp: mmap_area_def backed VMArea_file_def vma_obs_def segment_info_def fun_eq_iff
        split: sum.splits)
next
  case False
  then show ?thesis
    using run ok segment_addresses(4) [OF fits] by (auto simp: ld_when_ok fun_eq_iff)
qed

lemma gap_part:
  assumes ok: "ld_valid env s" and fits: "segment_fits map_off p"
    and mapped: "\<forall>x. PageAlignDown (ph_vaddr p + map_off) \<le> x \<longrightarrow>
      x < PageAlign (ph_vaddr p + map_off + ph_filesz p) \<longrightarrow> (\<exists>rest. ld_view s x = Some (segment_prot p, rest))"
    and run: "ld_when (PageAlign (ph_vaddr p + map_off + ph_filesz p) > ph_vaddr p + map_off + ph_filesz p)
      (ld_bind (ld_when (segment_prot p AND PROT_WRITE = 0)
         (ld_MProtect env (PageAlignDown (ph_vaddr p + map_off + ph_filesz p)) kPageSize (segment_prot p OR PROT_WRITE)))
        (\<lambda>_. ld_bind (ld_zero (ph_vaddr p + map_off + ph_filesz p)
                (PageAlign (ph_vaddr p + map_off + ph_filesz p) - (ph_vaddr p + map_off + ph_filesz p)))
        (\<lambda>_. ld_when (segment_prot p AND PROT_WRITE = 0)
         (ld_MProtect env (PageAlignDown (ph_vaddr p + map_off + ph_filesz p)) kPageSize (segment_prot p))))) s
      = Some (Inr u, s')"
  shows "ld_valid env s' \<and> ld_view s' = ld_view s"
proof (cases "PageAlign (ph_vaddr p + map_off + ph_filesz p) > ph_vaddr p + map_off + ph_filesz p")
  case gap: True
  let ?fe = "ph_vaddr p + map_off + ph_filesz p" and ?w = "segment_prot p AND PROT_WRITE = 0"
  note adr = segment_addresses(8,9) [OF fits gap]
  obtain s1 s2 where r1: "ld_when ?w (ld_MProtect env (PageAlignDown ?fe) kPageSize (segment_prot p OR PROT_WRITE)) s
        = Some (Inr (), s1)"
    and r2: "ld_zero ?fe (PageAlign ?fe - ?fe) s1 = Some (Inr (), s2)"
    and r3: "ld_when ?w (ld_MProtect env (PageAlignDown ?fe) kPageSize (segment_prot p)) s2 = Some (Inr (), s')"
    using run gap by (auto simp: ld_when_ok ld_bind_ok)
  have z: "ld_valid env s2 = ld_valid env s1" "ld_view s2 = ld_view s1"
    using r2 by (auto simp: ld_zero_def ld_valid_def ld_view_def)
  show ?thesis
  proof (cases ?w)
    case True
    have s1: "ld_valid env s1" "ld_view s1 = (\<lambda>x. if PageAlignDown ?fe \<le> x \<and> x < PageAlign ?fe
        then map_option (set_prot (segment_prot p OR PROT_WRITE)) (ld_view s x) else ld_view s x)"
      using ld_MProtect_view [OF ok, of "PageAlignDown ?fe" kPageSize] r1 True adr(2) by (auto simp: ld_when_ok)
    have s': "ld_valid env s'" "ld_view s' = (\<lambda>x. if PageAlignDown ?fe \<le> x \<and> x < PageAlign ?fe
        then map_option (set_prot (segment_prot p)) (ld_view s1 x) else ld_view s1 x)"
      using ld_MProtect_view [of env s2 "PageAlignDown ?fe" kPageSize] s1(1) z r3 True adr(2)
      by (auto simp: ld_when_ok)
    have "ld_view s' x = ld_view s x" for x
    proof (cases "PageAlignDown ?fe \<le> x \<and> x < PageAlign ?fe")
      case True
      then obtain rest where "ld_view s x = Some (segment_prot p, rest)"
        using mapped adr(1) order_trans by blast
      then show ?thesis using True by (simp add: s1(2) s'(2) set_prot_def)
    qed (auto simp: s1(2) s'(2))
    then show ?thesis using s'(1) by blast
  next
    case False
    then show ?thesis using r1 r3 z ok by (simp add: ld_when_ok)
  qed
qed (use run ok in \<open>simp add: ld_when_ok\<close>)

lemma anon_part:
  assumes ok: "ld_valid env s" and fits: "segment_fits map_off p"
    and run: "ld_when (ph_vaddr p + map_off + ph_memsz p > PageAlign (ph_vaddr p + map_off + ph_filesz p))
      (MMapAnonymous env (PageAlign (ph_vaddr p + map_off + ph_filesz p))
        (ph_vaddr p + map_off + ph_memsz p - PageAlign (ph_vaddr p + map_off + ph_filesz p)) (segment_prot p) MAP_FIXED) s
      = Some (Inr u, s')"
  shows "ld_valid env s' \<and> ld_view s' =
    (\<lambda>x. if PageAlign (ph_vaddr p + map_off + ph_filesz p) \<le> x \<and> x < PageAlign (ph_vaddr p + map_off + ph_memsz p)
         then Some (segment_info f map_off p x) else ld_view s x)"
proof (cases "ph_vaddr p + map_off + ph_memsz p > PageAlign (ph_vaddr p + map_off + ph_filesz p)")
  case True
  let ?flags = "MAP_FIXED OR (MAP_PRIVATE OR MAP_ANONYMOUS)"
  have fixed: "?flags AND MAP_FIXED \<noteq> 0" by (simp add: MAP_ANONYMOUS_def MAP_FIXED_def MAP_PRIVATE_def)
  have anon: "(?flags AND NOT MAP_POPULATE) AND MAP_ANONYMOUS \<noteq> 0" "(?flags AND NOT MAP_POPULATE) AND MAP_STACK = 0"
    by (simp_all add: MAP_FIXED_def MAP_PRIVATE_def MAP_POPULATE_def MAP_ANONYMOUS_def MAP_STACK_def)
  obtain a where "ld_MMap env (PageAlign (ph_vaddr p + map_off + ph_filesz p))
      (ph_vaddr p + map_off + ph_memsz p - PageAlign (ph_vaddr p + map_off + ph_filesz p)) (segment_prot p) ?flags
      None 0 s = Some (Inr a, s')"
    using run True by (auto simp: ld_when_ok MMapAnonymous_def)
  from ld_MMap_fixed [OF ok fixed this] segment_addresses(5) [OF fits True]
  show ?thesis
    by (auto simp: mmap_area_def anon VMArea_anon_def vma_obs_def segment_info_def fun_eq_iff
        split: sum.splits)
next
  case False
  then show ?thesis
    using run ok segment_addresses(6) [OF fits] by (auto simp: ld_when_ok fun_eq_iff)
qed

lemma LoadOneSegment_maps:
  assumes ok: "ld_valid env s" and fits: "segment_fits map_off p"
    and run: "LoadOneSegment env f map_off p s = Some (Inr (), s')"
  shows "ld_valid env s' \<and> ld_view s' =
    (\<lambda>x. if PageAlignDown (ph_vaddr p + map_off) \<le> x \<and> x < PageAlign (ph_vaddr p + map_off + ph_memsz p)
         then Some (segment_info f map_off p x) else ld_view s x)"
proof -
  obtain s1 s2 where
    run1: "ld_when (ph_vaddr p + map_off + ph_filesz p > PageAlignDown (ph_vaddr p + map_off))
      (MMapFixed env f (PageAlignDown (ph_vaddr p + map_off))
        (ph_vaddr p + map_off + ph_filesz p - PageAlignDown (ph_vaddr p + map_off)) (segment_prot p) MAP_DENYWRITE
        (PageAlignDown (ph_offset p))) s = Some (Inr (), s1)"
    and run2: "ld_when (PageAlign (ph_vaddr p + map_off + ph_filesz p) > ph_vaddr p + map_off + ph_filesz p)
      (ld_bind (ld_when (segment_prot p AND PROT_WRITE = 0)
         (ld_MProtect env (PageAlignDown (ph_vaddr p + map_off + ph_filesz p)) kPageSize (segment_prot p OR PROT_WRITE)))
        (\<lambda>_. ld_bind (ld_zero (ph_vaddr p + map_off + ph_filesz p)
                (PageAlign (ph_vaddr p + map_off + ph_filesz p) - (ph_vaddr p + map_off + ph_filesz p)))
        (\<lambda>_. ld_when (segment_prot p AND PROT_WRITE = 0)
         (ld_MProtect env (PageAlignDown (ph_vaddr p + map_off + ph_filesz p)) kPageSize (segment_prot p))))) s1
      = Some (Inr (), s2)"
    and run3: "ld_when (ph_vaddr p + map_off + ph_memsz p > PageAlign (ph_vaddr p + map_off + ph_filesz p))
      (MMapAnonymous env (PageAlign (ph_vaddr p + map_off + ph_filesz p))
        (ph_vaddr p + map_off + ph_memsz p - PageAlign (ph_vaddr p + map_off + ph_filesz p)) (segment_prot p) MAP_FIXED) s2
      = Some (Inr (), s')"
    using run unfolding LoadOneSegment_def Let_def ld_bind_ok [of "ld_when _ _"] by auto
  note v1 = file_part [OF ok fits run1]
  have "\<forall>x. PageAlignDown (ph_vaddr p + map_off) \<le> x \<longrightarrow>
      x < PageAlign (ph_vaddr p + map_off + ph_filesz p) \<longrightarrow> (\<exists>rest. ld_view s1 x = Some (segment_prot p, rest))"
    using v1 by (auto simp: segment_info_def)
  note v2 = gap_part [OF conjunct1 [OF v1] fits this run2]
  note v3 = anon_part [OF conjunct1 [OF v2] fits run3, of f]
  show ?thesis
    using v1 v2 v3 segment_addresses(1,2) [OF fits] by (auto simp: fun_eq_iff)
qed

section \<open>What a program maps\<close>

text \<open>Later segments take the place of earlier ones.\<close>

definition segment_view ::
    "JunctionFile \<Rightarrow> u64 \<Rightarrow> elf_phdr \<Rightarrow> (uintptr \<Rightarrow> vma_info option) \<Rightarrow> uintptr \<Rightarrow> vma_info option" where
  "segment_view f map_off p view =
     (\<lambda>x. if PageAlignDown (ph_vaddr p + map_off) \<le> x \<and> x < PageAlign (ph_vaddr p + map_off + ph_memsz p)
          then Some (segment_info f map_off p x) else view x)"

definition load_phdrs :: "elf_phdr list \<Rightarrow> elf_phdr list" where
  "load_phdrs phdrs = filter (\<lambda>p. ph_type p = kPTypeLoad) phdrs"

lemma load_segments_view:
  assumes "ld_valid env s" "list_all (segment_fits map_off) (load_phdrs ps)"
    "load_segments env f map_off ps s = Some (Inr (), s')"
  shows "ld_valid env s' \<and> ld_view s' = fold (segment_view f map_off) (load_phdrs ps) (ld_view s)"
  using assms
proof (induction ps arbitrary: s)
  case Nil
  then show ?case by (simp add: ld_return_def load_phdrs_def)
next
  case (Cons p ps)
  show ?case
  proof (cases "ph_type p = kPTypeLoad")
    case True
    then obtain t where t: "LoadOneSegment env f map_off p s = Some (Inr (), t)"
        "load_segments env f map_off ps t = Some (Inr (), s')"
      using Cons.prems(3) by (auto simp: ld_bind_ok)
    have fits: "segment_fits map_off p" "list_all (segment_fits map_off) (load_phdrs ps)"
      using Cons.prems(2) True by (simp_all add: load_phdrs_def)
    from LoadOneSegment_maps [OF Cons.prems(1) fits(1) t(1)] Cons.IH [OF _ fits(2) t(2)] True
    show ?thesis by (simp add: load_phdrs_def segment_view_def)
  next
    case False
    then show ?thesis using Cons by (simp add: load_phdrs_def)
  qed
qed

lemma fold_segment_view_outside:
  assumes "list_all (\<lambda>p. lo \<le> PageAlignDown (ph_vaddr p + map_off) \<and> PageAlign (ph_vaddr p + map_off + ph_memsz p) \<le> hi) ps"
    and "\<not> (lo \<le> x \<and> x < hi)"
  shows "fold (segment_view f map_off) ps view x = view x"
  using assms(1)
proof (induction ps arbitrary: view)
  case (Cons p ps)
  have "segment_view f map_off p view x = view x"
    using Cons.prems assms(2) by (auto simp: segment_view_def dest: order_trans less_le_trans)
  then show ?case using Cons by simp
qed simp

lemma CountTotalLength_ge:
  assumes "p \<in> set (load_phdrs phdrs)"
  shows "ph_vaddr p + ph_memsz p \<le> CountTotalLength phdrs"
proof -
  let ?g = "\<lambda>p len. if ph_type p \<noteq> kPTypeLoad then len else max len (ph_vaddr p + ph_memsz p)"
  have mono: "len \<le> fold ?g ps len" for ps and len :: u64
  proof (induction ps arbitrary: len)
    case (Cons q ps)
    have "len \<le> ?g q len" by simp
    also have "\<dots> \<le> fold ?g ps (?g q len)" by (rule Cons.IH)
    finally show ?case by simp
  qed simp
  have "ph_vaddr p + ph_memsz p \<le> fold ?g ps len" if "p \<in> set (load_phdrs ps)" for ps len
    using that
  proof (induction ps arbitrary: len)
    case (Cons q ps)
    show ?case
    proof (cases "q = p \<and> ph_type q = kPTypeLoad")
      case True
      have "ph_vaddr p + ph_memsz p \<le> ?g q len" using True by auto
      also have "\<dots> \<le> fold ?g ps (?g q len)" by (rule mono)
      finally show ?thesis by simp
    next
      case False
      then have "p \<in> set (load_phdrs ps)" using Cons.prems by (auto simp: load_phdrs_def split: if_splits)
      then show ?thesis using Cons.IH by simp
    qed
  qed (simp add: load_phdrs_def)
  then show ?thesis using assms by (simp add: CountTotalLength_def)
qed

lemma CountTotalLength_small:
  assumes "list_all (\<lambda>p. unat (ph_vaddr p) + unat (ph_memsz p) < 2 ^ 64 - 4096) (load_phdrs phdrs)"
  shows "unat (CountTotalLength phdrs) + 4095 < 2 ^ 64"
proof -
  let ?g = "\<lambda>p len. if ph_type p \<noteq> kPTypeLoad then len else max len (ph_vaddr p + ph_memsz p)"
  have "unat (fold ?g ps len) < 2 ^ 64 - 4096"
    if "list_all (\<lambda>p. unat (ph_vaddr p) + unat (ph_memsz p) < 2 ^ 64 - 4096) (load_phdrs ps)"
      "unat len < 2 ^ 64 - 4096" for ps and len :: u64
    using that
  proof (induction ps arbitrary: len)
    case (Cons p ps)
    have "unat (?g p len) < 2 ^ 64 - 4096"
      using Cons.prems unat_add_no_wrap [of "ph_vaddr p" "ph_memsz p"]
      by (auto simp: load_phdrs_def max_def)
    then show ?case using Cons.IH [of "?g p len"] Cons.prems(1) by (auto simp: load_phdrs_def split: if_splits)
  qed simp
  from this [OF assms, of 0] show ?thesis by (simp add: CountTotalLength_def)
qed

text \<open>The reservation: a free range of pages without any permission.\<close>

lemma reservation:
  assumes ok: "ld_valid env s" and run: "MMapAnonymous env 0 len PROT_NONE 0 s = Some (Inr a, s')"
  shows "ld_valid env s'" "IsPageAligned a" "unat a + unat (PageAlign len) \<le> 2 ^ 47"
    "ld_view s' = (\<lambda>x. if a \<le> x \<and> x < a + PageAlign len then Some (PROT_NONE, False, kNormal, None) else ld_view s x)"
    "iv_end 0 (vmareas (ld_mm s)) \<le> mm_end (ld_mm s) \<Longrightarrow> a \<le> x \<Longrightarrow> x < a + PageAlign len \<Longrightarrow> ld_view s x = None"
proof -
  let ?k = "env_kernel env" and ?mm = "ld_mm s" and ?flags = "(0 OR (MAP_PRIVATE OR MAP_ANONYMOUS)) AND NOT MAP_POPULATE"
  let ?i = "env_intr env (ld_calls s)" and ?i2 = "env_intr2 env (ld_calls s)"
  have fl: "?flags AND MAP_FIXED = 0" "mmap_flags ?flags False = 0x32" "(0 OR (MAP_PRIVATE OR MAP_ANONYMOUS)) AND MAP_POPULATE = 0"
    by (simp_all add: mm_consts mmap_flags_def)
  have k: "kernel_ok ?k" and valid: "MappingsValid (vmareas ?mm)" and nt: "\<not> TraceEnabled ?mm"
    using ok by (simp_all add: ld_valid_def)
  obtain mm' pool' where mm: "MM_MMap ?k (env_madv_remap env) ?i ?i2 0 len PROT_NONE (0 OR (MAP_PRIVATE OR MAP_ANONYMOUS))
      None 0 ?mm (ld_pool s) = Some (Inr a, mm', pool')"
    and s': "s' = s\<lparr>ld_mm := mm', ld_pool := pool', ld_calls := Suc (ld_calls s)\<rparr>"
    using run by (auto simp: MMapAnonymous_def ld_MMap_def split: option.splits prod.splits)
  have "\<exists>b. FindFreeRange vma_ops 0 (PageAlign len) (mm_end ?mm) (brk_addr ?mm) (vmareas ?mm) = Some (Inr b) \<and>
      mmap_finish ?k (env_madv_remap env) ?i2 False False b (PageAlign len) PROT_NONE 0x32 None 0 ?mm (ld_pool s)
        = Some (Inr a, mm', pool')"
    using mm fl by (auto simp: MM_MMap_def mmap_choose_def AddressToBounds_def Let_def split: if_splits option.splits sum.splits)
  then obtain b where find: "FindFreeRange vma_ops 0 (PageAlign len) (mm_end ?mm) (brk_addr ?mm) (vmareas ?mm) = Some (Inr b)"
    and fin: "mmap_finish ?k (env_madv_remap env) ?i2 False False b (PageAlign len) PROT_NONE 0x32 None 0 ?mm (ld_pool s)
        = Some (Inr a, mm', pool')"
    by blast
  obtain v where v: "mmap_area ?k b (PageAlign len) PROT_NONE 0x32 None 0 = Inr (a, v)" "mm' = MM_Insert v ?mm"
    using fin by (auto simp: mmap_finish_def split: if_splits sum.splits prod.splits)
  have fx: "(0x32::i32) AND MAP_FIXED \<noteq> 0" by (simp add: MAP_FIXED_def)
  note place = mmap_area_ok [OF k fx PageAlign_aligned v(1)]
  have bnd: "IsPageAligned a \<and> unat a + unat (PageAlign len) \<le> 2 ^ 47"
    using v(1) kernel_ok_mmap [OF k _ fx] place by (auto simp: mmap_area_def mm_consts split: sum.splits)
  then show "IsPageAligned a" "unat a + unat (PageAlign len) \<le> 2 ^ 47" by simp_all
  have obs: "vma_obs v x = (PROT_NONE, False, kNormal, None)" for x
    using v(1) by (auto simp: mmap_area_def mm_consts VMArea_anon_def vma_obs_def split: sum.splits)
  show "ld_valid env s'"
    using MM_MMap_valid [OF k valid mm] nt k by (simp add: s' ld_valid_def v(2))
  show "ld_view s' = (\<lambda>x. if a \<le> x \<and> x < a + PageAlign len then Some (PROT_NONE, False, kNormal, None) else ld_view s x)"
    using Insert_view [OF valid, of v] place by (auto simp: s' ld_view_def v(2) obs fun_eq_iff)
  assume top: "iv_end 0 (vmareas ?mm) \<le> mm_end ?mm" and x: "a \<le> x" "x < a + PageAlign len"
  have "iv_ok vma_ops 0 (vmareas ?mm)" using valid by (simp add: MappingsValid_iff)
  moreover have "unat a + unat (PageAlign len) \<le> unat (mm_end ?mm)"
  proof -
    let ?p = "free_from_top vma_ops (PageAlign len) (mm_end ?mm) (rev (vmareas ?mm))"
    have "?p \<le> mm_end ?mm" using vm.free_from_top_gap [OF calculation top] by blast
    moreover have "?p = a + PageAlign len"
      using find place by (auto simp: FindFreeRange_def Let_def diff_eq_eq split: if_splits)
    moreover have "unat (a + PageAlign len) = unat a + unat (PageAlign len)"
      using bnd by (intro unat_add_no_wrap) simp
    ultimately show ?thesis by (simp add: word_le_nat_alt)
  qed
  ultimately have "iv_find vma_ops x (vmareas ?mm) = None"
    using vm.FindFreeRange_free [OF _ top, of "PageAlign len" "brk_addr ?mm" a x] find place x by simp
  then show "ld_view s x = None" by (simp add: ld_view_def iv_view_def)
qed

text \<open>A segment of a relocated program stays in the reservation, if its addresses do not wrap around.\<close>

lemma segment_in_reservation:
  assumes a: "IsPageAligned a" "unat a + unat (PageAlign len) \<le> 2 ^ 47"
    and p: "ph_filesz p \<le> ph_memsz p" "unat (ph_vaddr p) + unat (ph_memsz p) < 2 ^ 64"
      "ph_vaddr p + ph_memsz p \<le> len" "unat len + 4095 < 2 ^ 64"
  shows "segment_fits a p" "a \<le> PageAlignDown (ph_vaddr p + a)"
    "PageAlign (ph_vaddr p + a + ph_memsz p) \<le> a + PageAlign len"
proof -
  let ?V = "unat (ph_vaddr p)" and ?M = "unat (ph_memsz p)"
  have VM: "?V + ?M \<le> unat len" using p(2,3) unat_add_no_wrap [of "ph_vaddr p" "ph_memsz p"]
    by (simp add: word_le_nat_alt)
  have up: "unat (PageAlign len) = (unat len + 4095) div 4096 * 4096" by (rule PageAlign_unat [OF p(4)])
  have "unat len \<le> unat (PageAlign len)" using PageAlign_ge [OF p(4)] by (simp add: word_le_nat_alt)
  then have sum: "unat a + ?V + ?M \<le> 2 ^ 47" using VM a(2) by linarith
  have va: "unat (ph_vaddr p + a) = unat a + ?V" using sum unat_add_no_wrap [of "ph_vaddr p" a] by simp
  have vm: "unat (ph_vaddr p + a + ph_memsz p) = unat a + ?V + ?M"
    using sum va unat_add_no_wrap [of "ph_vaddr p + a" "ph_memsz p"] by simp
  show "segment_fits a p" using p(1) sum va by (simp add: segment_fits_def)
  obtain q where q: "unat a = 4096 * q" using a(1) by (auto simp: IsPageAligned_unat)
  show "a \<le> PageAlignDown (ph_vaddr p + a)"
    by (simp add: word_le_nat_alt PageAlignDown_unat va q)
  have "(unat a + ?V + ?M + 4095) div 4096 \<le> q + (unat len + 4095) div 4096"
    using VM by (simp add: q div_le_mono add.assoc)
  then show "PageAlign (ph_vaddr p + a + ph_memsz p) \<le> a + PageAlign len"
    using PageAlign_unat [of "ph_vaddr p + a + ph_memsz p"] vm sum up q a(2)
      unat_add_no_wrap [of a "PageAlign len"]
    by (simp add: word_le_nat_alt)
qed

text \<open>
  C25: Loading a relocatable program whose segments do not wrap around leaves every mapping that existed before
  as it was.  The program gets a reservation of free pages without permissions, and on top of it exactly the pages of
  its segments: the file part of a segment maps the file at the offset that belongs to the address, the rest is
  anonymous, and both have the permissions of the segment.
\<close>

theorem relocatable_load_confined:
  assumes ok: "ld_valid env s" and top: "iv_end 0 (vmareas (ld_mm s)) \<le> mm_end (ld_mm s)"
    and valid: "list_all phdr_valid phdrs"
    and no_wrap: "list_all (\<lambda>p. unat (ph_vaddr p) + unat (ph_memsz p) < 2 ^ 64 - 4096) (load_phdrs phdrs)"
    and run: "LoadSegments env f phdrs True s = Some (Inr (base, len), s')"
  shows "ld_valid env s' \<and> (\<forall>x. ld_view s x \<noteq> None \<longrightarrow> ld_view s' x = ld_view s x) \<and>
    ld_view s' = fold (segment_view f base) (load_phdrs phdrs)
      (\<lambda>x. if base \<le> x \<and> x < base + PageAlign len then Some (PROT_NONE, False, kNormal, None) else ld_view s x)"
proof -
  let ?len = "CountTotalLength phdrs"
  obtain t where r1: "MMapAnonymous env 0 ?len PROT_NONE 0 s = Some (Inr base, t)"
    and r2: "load_segments env f base phdrs t = Some (Inr (), s')" and len: "len = ?len"
    using run by (auto simp: LoadSegments_def Let_def ld_bind_ok ld_return_def)
  note R = reservation [OF ok r1]
  have small: "unat ?len + 4095 < 2 ^ 64" using CountTotalLength_small [OF no_wrap] .
  have seg: "segment_fits base p" "base \<le> PageAlignDown (ph_vaddr p + base)"
      "PageAlign (ph_vaddr p + base + ph_memsz p) \<le> base + PageAlign ?len" if "p \<in> set (load_phdrs phdrs)" for p
  proof -
    have "ph_filesz p \<le> ph_memsz p"
      using valid that by (auto simp: load_phdrs_def list_all_iff phdr_valid_def not_less)
    moreover have "unat (ph_vaddr p) + unat (ph_memsz p) < 2 ^ 64"
      using no_wrap that by (auto simp: list_all_iff)
    ultimately show "segment_fits base p" "base \<le> PageAlignDown (ph_vaddr p + base)"
      "PageAlign (ph_vaddr p + base + ph_memsz p) \<le> base + PageAlign ?len"
      using segment_in_reservation [OF R(2,3) _ _ CountTotalLength_ge [OF that] small] by blast+
  qed
  have v: "ld_valid env s'" "ld_view s' = fold (segment_view f base) (load_phdrs phdrs) (ld_view t)"
    using load_segments_view [OF R(1) _ r2] seg(1) by (auto simp: list_all_iff)
  have "ld_view s' x = ld_view s x" if "ld_view s x \<noteq> None" for x
  proof -
    have out: "\<not> (base \<le> x \<and> x < base + PageAlign ?len)" using R(5) [OF top, of x] that by metis
    have "list_all (\<lambda>p. base \<le> PageAlignDown (ph_vaddr p + base) \<and>
        PageAlign (ph_vaddr p + base + ph_memsz p) \<le> base + PageAlign ?len) (load_phdrs phdrs)"
      unfolding list_all_iff using seg(2,3) by blast
    from fold_segment_view_outside [OF this out] show ?thesis
      unfolding v(2) R(4) using out by (simp only: if_False)
  qed
  then show ?thesis using v R(4) by (simp add: len)
qed

section \<open>Examples\<close>

text \<open>A host, a file whose bytes are given, and a map with one area.\<close>

definition mem_env :: "(nat \<Rightarrow> byte list) \<Rightarrow> loader_env" where
  "mem_env data = \<lparr>env_Read = (\<lambda>f n off. let bs = take n (drop (unat off) (data f))
       in Inr (bs, off + of_nat (length bs))),
     env_Seek = (\<lambda>f off. Inr off), env_Open = (\<lambda>path. Inr 0), env_interp_path = '''', env_kernel = demo_kernel,
     env_madv_remap = False, env_intr = (\<lambda>_. False), env_intr2 = (\<lambda>_. False)\<rparr>"

definition demo_loader :: loader where
  "demo_loader = \<lparr>ld_mm = demo_mm, ld_pool = [], ld_mem = (\<lambda>_. 0), ld_nr_non_reloc = 0, ld_calls = 0\<rparr>"

definition demo_phdr :: "u64 \<Rightarrow> u64 \<Rightarrow> u64 \<Rightarrow> elf_phdr" where
  "demo_phdr vaddr filesz memsz = \<lparr>ph_type = kPTypeLoad, ph_flags = 5, ph_offset = 0, ph_vaddr = vaddr, ph_paddr = 0,
     ph_filesz = filesz, ph_memsz = memsz, ph_align = 0x1000\<rparr>"

lemma demo_loader_valid: "ld_valid (mem_env data) demo_loader"
  by (simp add: ld_valid_def mem_env_def demo_kernel_ok demo_loader_def demo_mm_valid)
    (simp add: TraceEnabled_def demo_eval)

lemmas insert_eval = Insert_def clear_range_def Clear_def before_ub_def upper_bound_def merge_right_def last_key_def

lemmas load_eval = LoadSegments_def CountTotalLength_def LoadOneSegment_def ld_bind_def ld_return_def ld_when_def
  MMapAnonymous_def MMapFixed_def ld_MMap_def ld_MProtect_def ld_zero_def MM_MMap_def mmap_choose_def mmap_finish_def
  mmap_area_def KernelMMap_def mmap_flags_def MM_Insert_def segment_prot_def mem_env_def demo_loader_def demo_phdr_def
  Let_def demo_eval mm_consts kPTypeLoad_def kFlagExec_def kFlagWrite_def kFlagRead_def MAP_DENYWRITE_def
  PageAlignDown_def AlignDown_def FindFreeRange_def VMArea_file_def insert_eval

lemma demo_load:
  "LoadSegments (mem_env data) \<lparr>jf_file = 0, jf_off = 0\<rparr> [demo_phdr 0 0x1000 0x2000] True demo_loader =
     Some (Inr (0x10e000, 0x2000),
       snd (the (LoadSegments (mem_env data) \<lparr>jf_file = 0, jf_off = 0\<rparr> [demo_phdr 0 0x1000 0x2000] True demo_loader)))"
  by (simp add: load_eval)

theorem relocatable_load_confined_witness:
  "let s' = snd (the (LoadSegments (mem_env (\<lambda>_. [])) \<lparr>jf_file = 0, jf_off = 0\<rparr> [demo_phdr 0 0x1000 0x2000] True
      demo_loader))
   in ld_view s' 0x20000 = ld_view demo_loader 0x20000 \<and> ld_view demo_loader 0x20000 \<noteq> None \<and>
      ld_view s' 0x10e008 = Some (5, False, kFile, Some (Some 0, 8)) \<and>
      ld_view s' 0x10f000 = Some (5, False, kNormal, None)"
proof -
  let ?run = "LoadSegments (mem_env (\<lambda>_. [])) \<lparr>jf_file = 0, jf_off = 0\<rparr> [demo_phdr 0 0x1000 0x2000] True demo_loader"
  have top: "iv_end 0 (vmareas (ld_mm demo_loader)) \<le> mm_end (ld_mm demo_loader)"
    by (simp add: demo_loader_def demo_eval)
  have valid: "list_all phdr_valid [demo_phdr 0 0x1000 0x2000]"
    by (simp add: phdr_valid_def demo_phdr_def has_single_bit_def)
  have wrap: "list_all (\<lambda>p. unat (ph_vaddr p) + unat (ph_memsz p) < 2 ^ 64 - 4096) (load_phdrs [demo_phdr 0 0x1000 0x2000])"
    by (simp add: load_phdrs_def demo_phdr_def)
  note T = relocatable_load_confined [OF demo_loader_valid top valid wrap demo_load]
  have was: "ld_view demo_loader 0x20000 \<noteq> None"
    by (simp add: ld_view_def demo_loader_def demo_eval iv_view_def iv_covers_def)
  have eq: "ld_view (snd (the ?run)) = fold (segment_view \<lparr>jf_file = 0, jf_off = 0\<rparr> 0x10e000)
      (load_phdrs [demo_phdr 0 0x1000 0x2000])
      (\<lambda>x. if 0x10e000 \<le> x \<and> x < 0x10e000 + PageAlign 0x2000 then Some (PROT_NONE, False, kNormal, None)
           else ld_view demo_loader x)"
    using T by blast
  have "ld_view (snd (the ?run)) 0x10e008 = Some (5, False, kFile, Some (Some 0, 8))"
    "ld_view (snd (the ?run)) 0x10f000 = Some (5, False, kNormal, None)"
    unfolding eq
    by (simp_all add: load_phdrs_def segment_view_def segment_info_def segment_prot_def demo_phdr_def page_eval
        PageAlignDown_def AlignDown_def kFlagExec_def kFlagWrite_def kFlagRead_def mm_consts)
  moreover have "ld_view (snd (the ?run)) 0x20000 = ld_view demo_loader 0x20000" using T was by blast
  ultimately show ?thesis using was by simp
qed

text \<open>
  Without the hypothesis the loader escapes from its reservation: the segment of this program is valid for
  \<open>ReadPHDRs\<close>, the sum of its address and its size wraps to one page, and loading it replaces the pages
  at \<open>0x20000\<close> that another mapping occupies.
\<close>

lemma relocatable_load_escapes:
  "let p = demo_phdr (0x20000 - 0x10f000) 0x1000 0xf0000;
       s' = snd (the (LoadSegments (mem_env (\<lambda>_. [])) \<lparr>jf_file = 0, jf_off = 0\<rparr> [p] True demo_loader))
   in phdr_valid p \<and> CountTotalLength [p] = 0x1000 \<and> ld_view demo_loader 0x20000 = Some (3, False, kNormal, None) \<and>
      ld_view s' 0x20000 = Some (5, False, kFile, Some (Some 0, 0))"
  by (simp add: load_eval phdr_valid_def has_single_bit_def ld_view_def iv_view_def iv_covers_def vma_obs_def
      VMArea_TrimHead_def VMArea_TrimTail_def VMArea_TryMergeRight_def MappingsMergeable_def)

end
