(* ===== verification/Exec.thy ===== *)
theory Exec
  imports Elf
begin

text \<open>
  Running a program (\<^verbatim>\<open>src/junction/kernel/exec.cc\<close>): the initial stack, scripts, and the replacement of a
  program by another one, over the loader of the theory \<open>Elf\<close>.

  Arguments are lists of characters; the guest's memory is the one of the loader.  Random bytes, the
  processor's capabilities and the lookup of paths are parameters.  The theorems say that a program finds its
  arguments where the calling convention puts them, that nothing outside the new part of the stack is written, how
  interpreters of scripts are resolved, and what a failed replacement leaves behind.
\<close>

section \<open>Memory\<close>

type_synonym memory = "uintptr \<Rightarrow> byte"

definition put_bytes :: "uintptr \<Rightarrow> byte list \<Rightarrow> memory \<Rightarrow> memory" where
  "put_bytes a bs m = (\<lambda>x. if unat (x - a) < length bs then bs ! unat (x - a) else m x)"

definition le_bytes :: "u64 \<Rightarrow> byte list" where
  "le_bytes w = map (\<lambda>i. ucast (drop_bit (8 * i) w)) [0 ..< 8]"

definition put_word :: "uintptr \<Rightarrow> u64 \<Rightarrow> memory \<Rightarrow> memory" where
  "put_word a w = put_bytes a (le_bytes w)"

definition str_bytes :: "string \<Rightarrow> byte list" where
  "str_bytes s = map of_char s"

section \<open>The initial stack\<close>

definition kNumAuxVectors :: nat where "kNumAuxVectors = 20"
definition kVDSOLocation :: u64 where "kVDSOLocation = 0x201000"
definition kRseqSize :: u64 where "kRseqSize = 32"
definition kRseqFeatureSize :: u64 where "kRseqFeatureSize = 28"
definition kMaxInterpFollow :: nat where "kMaxInterpFollow = 4"
definition kStackSize :: u64 where "kStackSize = 0x1000000"

definition VectorBytes :: "string list \<Rightarrow> u64" where
  "VectorBytes vec = fold (\<lambda>v len. len + (of_nat (length v) + 1)) vec 0"

text \<open>The auxiliary vector: pairs of a type and a value.\<close>

definition SetupAuxVec :: "u32 \<Rightarrow> uintptr \<Rightarrow> elf_data \<Rightarrow> uintptr \<Rightarrow> (u64 \<times> u64) list" where
  "SetupAuxVec cpuid_edx filename edata random_ptr =
     [(16, ucast cpuid_edx), (6, kPageSize), (17, 1000000), (3, ed_phdr_addr edata), (4, ed_phdr_entsz edata),
      (5, ed_phdr_num edata), (8, 0), (9, ed_entry_addr edata),
      (7, case ed_interp edata of Some i \<Rightarrow> id_map_base i | None \<Rightarrow> ed_map_base edata),
      (11, 1), (12, 1), (13, 1), (14, 1), (23, 0), (25, random_ptr), (31, filename), (33, kVDSOLocation),
      (28, kRseqSize), (27, kRseqFeatureSize), (0, 0)]"

text \<open>One loop over arguments: a pointer goes to the array, the string with a zero byte to the information block.\<close>

fun put_args :: "string list \<Rightarrow> uintptr \<Rightarrow> uintptr \<Rightarrow> memory \<Rightarrow> uintptr \<times> uintptr \<times> memory" where
  "put_args [] arg_ptr info_ptr m = (arg_ptr, info_ptr, m)"
| "put_args (arg # args) arg_ptr info_ptr m =
     put_args args (arg_ptr + 8) (info_ptr + (of_nat (length arg) + 1))
       (put_bytes (info_ptr + of_nat (length arg)) [0]
         (put_bytes info_ptr (str_bytes arg) (put_word arg_ptr info_ptr m)))"

fun put_aux :: "(u64 \<times> u64) list \<Rightarrow> uintptr \<Rightarrow> memory \<Rightarrow> memory" where
  "put_aux [] p m = m"
| "put_aux ((t, v) # vec) p m = put_aux vec (p + 16) (put_word (p + 8) v (put_word p t m))"

text \<open>\<open>ReadRandom\<close> fills the sixteen bytes, or fails and leaves them.\<close>

definition SetupStack :: "byte list option \<Rightarrow> u32 \<Rightarrow> string list \<Rightarrow> string list \<Rightarrow> elf_data \<Rightarrow> uintptr \<Rightarrow> memory
    \<Rightarrow> uintptr \<times> memory" where
  "SetupStack random cpuid_edx argv envp edata sp m =
     (let len1 = VectorBytes argv + VectorBytes envp;
          info_block = sp - len1;
          random_ptr = info_block - 16;
          m1 = (case random of None \<Rightarrow> m | Some bs \<Rightarrow> put_bytes random_ptr (take 16 bs) m);
          len = AlignUp (len1 + 16 + 16 * of_nat kNumAuxVectors +
                  (of_nat (length argv) + of_nat (length envp) + 3) * 8) 32;
          sp' = sp - len;
          m2 = put_word sp' (of_nat (length argv)) m1;
          (arg_ptr, info_ptr, m3) = put_args argv (sp' + 8) info_block m2;
          m4 = put_word arg_ptr 0 m3;
          (arg_ptr', info_ptr', m5) = put_args envp (arg_ptr + 8) info_ptr m4;
          m6 = put_word arg_ptr' 0 m5
      in (sp', put_aux (SetupAuxVec cpuid_edx info_block edata random_ptr) (arg_ptr' + 8) m6))"

section \<open>What the program finds on its stack\<close>

definition word_at :: "memory \<Rightarrow> uintptr \<Rightarrow> u64 \<Rightarrow> bool" where
  "word_at m a w \<longleftrightarrow> (\<forall>i<8. m (a + of_nat i) = le_bytes w ! i)"

definition str_at :: "memory \<Rightarrow> uintptr \<Rightarrow> string \<Rightarrow> bool" where
  "str_at m a s \<longleftrightarrow> (\<forall>i<length s. m (a + of_nat i) = of_char (s ! i)) \<and> m (a + of_nat (length s)) = 0"

text \<open>The words are stored so that reading them back, least significant byte first, gives the value.\<close>

lemma le_bytes_enc: "le_bytes w = le_enc 8 (unat w)"
proof -
  have "(ucast (drop_bit (8 * i) w) :: byte) = of_nat (unat w div 256 ^ i)" if "i < 8" for i
  proof -
    have "(256::nat) ^ i = 2 ^ (8 * i)" by (simp add: power_mult)
    then have "unat (drop_bit (8 * i) w) = unat w div 256 ^ i"
      using unat_lt_64 [of w] by (simp add: unsigned_drop_bit_eq take_bit_nat_eq_self) (simp add: drop_bit_eq_div)
    then show ?thesis by (metis of_nat_unat)
  qed
  then show ?thesis by (simp add: le_bytes_def le_enc_def)
qed

lemma le_nat_bytes: "le_nat (le_bytes w) = unat w"
  using unat_lt_64 [of w] by (simp add: le_bytes_enc)

lemma length_le_bytes [simp]: "length (le_bytes w) = 8"
  by (simp add: le_bytes_def)

lemma length_str_bytes [simp]: "length (str_bytes s) = length s"
  by (simp add: str_bytes_def)

text \<open>Addresses as offsets from the new stack pointer.\<close>

lemma put_bytes_at:
  assumes "j + length bs \<le> 2 ^ 63" "k < 2 ^ 64"
  shows "put_bytes (base + of_nat j) bs m (base + of_nat k) =
    (if j \<le> k \<and> k < j + length bs then bs ! (k - j) else m (base + of_nat k))"
proof -
  have k: "unat (of_nat k :: u64) = k" and j: "unat (of_nat j :: u64) = j"
    using assms by (simp_all add: unat_of_nat take_bit_nat_eq_self)
  have diff: "base + of_nat k - (base + of_nat j) = of_nat k - (of_nat j :: u64)" by simp
  show ?thesis
  proof (cases "j \<le> k")
    case True
    then have "unat (of_nat k - of_nat j :: u64) = k - j"
      using k j by (simp add: unat_sub word_le_nat_alt)
    then show ?thesis using True unfolding put_bytes_def diff by auto
  next
    case False
    then have "unat (of_nat k - of_nat j :: u64) = 2 ^ 64 - (j - k)"
      using k j by (simp add: unat_sub_if_size word_size)
    then have "\<not> unat (of_nat k - of_nat j :: u64) < length bs" using assms False by simp
    then show ?thesis using False unfolding put_bytes_def diff by auto
  qed
qed

definition args_bytes :: "string list \<Rightarrow> nat" where
  "args_bytes args = sum_list (map (\<lambda>a. length a + 1) args)"

lemma args_bytes_simps [simp]: "args_bytes [] = 0" "args_bytes (a # as) = length a + 1 + args_bytes as"
  by (simp_all add: args_bytes_def)

lemma VectorBytes_nat: "VectorBytes args = of_nat (args_bytes args)"
proof -
  have "fold (\<lambda>v len. len + (of_nat (length v) + 1)) args l = l + of_nat (args_bytes args)" for l :: u64
    by (induction args arbitrary: l) simp_all
  then show ?thesis by (simp add: VectorBytes_def)
qed

text \<open>Memory at an offset, and the effect of the stores there.\<close>

definition rel :: "memory \<Rightarrow> uintptr \<Rightarrow> nat \<Rightarrow> byte" where
  "rel m base k = m (base + of_nat k)"

lemma rel_put_bytes:
  "j + length bs \<le> 2 ^ 63 \<Longrightarrow> k < 2 ^ 64 \<Longrightarrow>
   rel (put_bytes (base + of_nat j) bs m) base k = (if j \<le> k \<and> k < j + length bs then bs ! (k - j) else rel m base k)"
  by (simp add: rel_def put_bytes_at)

lemma rel_put_word:
  "j + 8 \<le> 2 ^ 63 \<Longrightarrow> k < 2 ^ 64 \<Longrightarrow>
   rel (put_word (base + of_nat j) w m) base k = (if j \<le> k \<and> k < j + 8 then le_bytes w ! (k - j) else rel m base k)"
  by (simp add: put_word_def rel_put_bytes)

lemma word_at_rel: "word_at m (base + of_nat k) w \<longleftrightarrow> (\<forall>i<8. rel m base (k + i) = le_bytes w ! i)"
  by (simp add: word_at_def rel_def add.assoc)

lemma str_at_rel:
  "str_at m (base + of_nat k) s \<longleftrightarrow>
     (\<forall>i<length s. rel m base (k + i) = of_char (s ! i)) \<and> rel m base (k + length s) = 0"
  by (simp add: str_at_def rel_def add.assoc)

lemma words_kept:
  "(\<And>i. i < 8 \<Longrightarrow> rel m' base (k + i) = rel m base (k + i)) \<Longrightarrow>
   word_at m (base + of_nat k) w \<Longrightarrow> word_at m' (base + of_nat k) w"
  by (simp add: word_at_rel)

lemma strings_kept:
  "(\<And>i. i \<le> length s \<Longrightarrow> rel m' base (k + i) = rel m base (k + i)) \<Longrightarrow>
   str_at m (base + of_nat k) s \<Longrightarrow> str_at m' (base + of_nat k) s"
  by (simp add: str_at_rel)

lemma put_args_spec:
  assumes "p + 8 * length args \<le> q" "q + args_bytes args < 2 ^ 63"
    "put_args args (base + of_nat p) (base + of_nat q) m = (a', i', m')"
  shows "a' = base + of_nat (p + 8 * length args)" "i' = base + of_nat (q + args_bytes args)"
    "k < 2 ^ 64 \<Longrightarrow> \<not> (p \<le> k \<and> k < p + 8 * length args) \<Longrightarrow> \<not> (q \<le> k \<and> k < q + args_bytes args) \<Longrightarrow>
       rel m' base k = rel m base k"
    "i < length args \<Longrightarrow> word_at m' (base + of_nat (p + 8 * i)) (base + of_nat (q + args_bytes (take i args)))"
    "i < length args \<Longrightarrow> str_at m' (base + of_nat (q + args_bytes (take i args))) (args ! i)"
proof -
  have "a' = base + of_nat (p + 8 * length args) \<and> i' = base + of_nat (q + args_bytes args) \<and>
    (\<forall>k<2 ^ 64. \<not> (p \<le> k \<and> k < p + 8 * length args) \<longrightarrow> \<not> (q \<le> k \<and> k < q + args_bytes args) \<longrightarrow>
       rel m' base k = rel m base k) \<and>
    (\<forall>i<length args. word_at m' (base + of_nat (p + 8 * i)) (base + of_nat (q + args_bytes (take i args))) \<and>
       str_at m' (base + of_nat (q + args_bytes (take i args))) (args ! i))"
    using assms
  proof (induction args arbitrary: p q m)
    case (Cons a as)
    define m1 where "m1 = put_bytes (base + of_nat q + of_nat (length a)) [0]
        (put_bytes (base + of_nat q) (str_bytes a) (put_word (base + of_nat p) (base + of_nat q) m))"
    let ?q = "q + (length a + 1)"
    have run: "put_args as (base + of_nat (p + 8)) (base + of_nat ?q) m1 = (a', i', m')"
      using Cons.prems(3) by (simp add: m1_def ac_simps)
    have lq: "p + 8 + 8 * length as \<le> q" using Cons.prems(1) by simp
    have len: "p + 8 + 8 * length as \<le> ?q" "?q + args_bytes as < 2 ^ 63" "p + 8 \<le> q" "q + length a < 2 ^ 63"
      using Cons.prems(1,2) by simp_all
    note IH = Cons.IH [OF len(1,2) run]
    have fr0: "rel m' base k = rel m1 base k"
      if "k < 2 ^ 64" "\<not> (p + 8 \<le> k \<and> k < p + 8 + 8 * length as)" "\<not> (?q \<le> k \<and> k < ?q + args_bytes as)" for k
      using IH that by blast
    have m1: "rel m1 base k = (if p \<le> k \<and> k < p + 8 then le_bytes (base + of_nat q) ! (k - p)
        else if q \<le> k \<and> k < q + length a then of_char (a ! (k - q)) else if k = q + length a then 0 else rel m base k)"
      if "k < 2 ^ 64" for k
      using that len(3,4) rel_put_bytes [of "q + length a" "[0]" k] rel_put_bytes [of q "str_bytes a" k]
        rel_put_word [of p k]
      by (auto simp: m1_def add.assoc str_bytes_def)
    have keep: "rel m' base k = rel m1 base k" if "k < p + 8 \<or> q \<le> k \<and> k < ?q" "k < 2 ^ 64" for k
      using fr0 [of k] that lq by linarith
    have w: "word_at m' (base + of_nat p) (base + of_nat q)"
      using len(3,4) keep m1 by (simp add: word_at_rel)
    have s: "str_at m' (base + of_nat q) a"
      using len(3,4) keep m1 by (simp add: str_at_rel)
    have fr: "rel m' base k = rel m base k"
      if "k < 2 ^ 64" "\<not> (p \<le> k \<and> k < p + 8 * length (a # as))" "\<not> (q \<le> k \<and> k < q + args_bytes (a # as))" for k
    proof -
      have "rel m' base k = rel m1 base k" using that by (intro fr0) auto
      also have "\<dots> = rel m base k" using m1 [OF that(1)] that(2,3) by auto
      finally show ?thesis .
    qed
    have each: "word_at m' (base + of_nat (p + 8 * i)) (base + of_nat (q + args_bytes (take i (a # as)))) \<and>
        str_at m' (base + of_nat (q + args_bytes (take i (a # as)))) ((a # as) ! i)" if "i < length (a # as)" for i
    proof (cases i)
      case (Suc j)
      then have j: "j < length as" using that by simp
      have e: "p + 8 * i = p + 8 + 8 * j" "q + args_bytes (take i (a # as)) = ?q + args_bytes (take j as)"
          "(a # as) ! i = as ! j"
        using Suc by simp_all
      show ?thesis unfolding e using IH j by blast
    qed (use w s in simp)
    have "a' = base + of_nat (p + 8 * length (a # as))" "i' = base + of_nat (q + args_bytes (a # as))"
      using IH by (simp_all add: ac_simps)
    then show ?case using fr each by blast
  qed simp
  then show "a' = base + of_nat (p + 8 * length args)" "i' = base + of_nat (q + args_bytes args)"
    "k < 2 ^ 64 \<Longrightarrow> \<not> (p \<le> k \<and> k < p + 8 * length args) \<Longrightarrow> \<not> (q \<le> k \<and> k < q + args_bytes args) \<Longrightarrow>
       rel m' base k = rel m base k"
    "i < length args \<Longrightarrow> word_at m' (base + of_nat (p + 8 * i)) (base + of_nat (q + args_bytes (take i args)))"
    "i < length args \<Longrightarrow> str_at m' (base + of_nat (q + args_bytes (take i args))) (args ! i)"
    by blast+
qed

lemma put_aux_spec:
  fixes base :: uintptr and m :: memory
  assumes "p + 16 * length vec < 2 ^ 63"
  defines "m' \<equiv> put_aux vec (base + of_nat p) m"
  shows "k < 2 ^ 64 \<Longrightarrow> \<not> (p \<le> k \<and> k < p + 16 * length vec) \<Longrightarrow> rel m' base k = rel m base k"
    "i < length vec \<Longrightarrow> word_at m' (base + of_nat (p + 16 * i)) (fst (vec ! i)) \<and>
       word_at m' (base + of_nat (p + 16 * i + 8)) (snd (vec ! i))"
proof -
  have "(\<forall>k<2 ^ 64. \<not> (p \<le> k \<and> k < p + 16 * length vec) \<longrightarrow> rel m' base k = rel m base k) \<and>
    (\<forall>i<length vec. word_at m' (base + of_nat (p + 16 * i)) (fst (vec ! i)) \<and>
       word_at m' (base + of_nat (p + 16 * i + 8)) (snd (vec ! i)))"
    using assms(1) unfolding m'_def
  proof (induction vec arbitrary: p m)
    case (Cons tv vec)
    obtain t v where tv: "tv = (t, v)" by (cases tv)
    let ?m1 = "put_word (base + of_nat (p + 8)) v (put_word (base + of_nat p) t m)"
    let ?m' = "put_aux (tv # vec) (base + of_nat p) m"
    have eq: "?m' = put_aux vec (base + of_nat (p + 16)) ?m1" by (simp add: tv ac_simps)
    have len: "p + 16 + 16 * length vec < 2 ^ 63" using Cons.prems by simp
    note IH = Cons.IH [OF len, of ?m1, folded eq]
    have m1: "rel ?m1 base k = (if p \<le> k \<and> k < p + 8 then le_bytes t ! (k - p)
        else if p + 8 \<le> k \<and> k < p + 16 then le_bytes v ! (k - (p + 8)) else rel m base k)" if "k < 2 ^ 64" for k
      using that len rel_put_word [of "p + 8" k] rel_put_word [of p k] by auto
    have keep: "rel ?m' base k = rel ?m1 base k" if "k < 2 ^ 64" "\<not> (p + 16 \<le> k \<and> k < p + 16 + 16 * length vec)" for k
      using IH that by blast
    have w: "word_at ?m' (base + of_nat p) t" "word_at ?m' (base + of_nat (p + 8)) v"
      unfolding word_at_rel using len m1 keep by auto
    have "word_at ?m' (base + of_nat (p + 16 * i)) (fst ((tv # vec) ! i)) \<and>
       word_at ?m' (base + of_nat (p + 16 * i + 8)) (snd ((tv # vec) ! i))" if "i < length (tv # vec)" for i
    proof (cases i)
      case (Suc j)
      then have e: "p + 16 * i = p + 16 + 16 * j" "(tv # vec) ! i = vec ! j" and j: "j < length vec"
        using that by simp_all
      show ?thesis unfolding e using IH j by blast
    qed (use w tv in simp)
    moreover have "rel ?m' base k = rel m base k" if "k < 2 ^ 64" "\<not> (p \<le> k \<and> k < p + 16 * length (tv # vec))" for k
      using keep [of k] m1 [of k] that by auto
    ultimately show ?case by blast
  qed simp
  then show "k < 2 ^ 64 \<Longrightarrow> \<not> (p \<le> k \<and> k < p + 16 * length vec) \<Longrightarrow> rel m' base k = rel m base k"
    "i < length vec \<Longrightarrow> word_at m' (base + of_nat (p + 16 * i)) (fst (vec ! i)) \<and>
       word_at m' (base + of_nat (p + 16 * i + 8)) (snd (vec ! i))"
    by blast+
qed

text \<open>The bytes the stack needs, and their number rounded up to 32.\<close>

definition stack_need :: "string list \<Rightarrow> string list \<Rightarrow> nat" where
  "stack_need argv envp = args_bytes argv + args_bytes envp + 336 + (length argv + length envp + 3) * 8"

definition stack_len :: "string list \<Rightarrow> string list \<Rightarrow> nat" where
  "stack_len argv envp = (stack_need argv envp + 31) div 32 * 32"

lemma stack_len_bounds: "stack_need argv envp \<le> stack_len argv envp" "stack_len argv envp < stack_need argv envp + 32"
  unfolding stack_len_def by linarith+

lemma AlignUp_32:
  assumes "n + 31 < 2 ^ 64"
  shows "AlignUp (of_nat n) 32 = of_nat ((n + 31) div 32 * 32)"
proof -
  have un: "unat (of_nat n + 31 :: u64) = n + 31"
    using assms unat_add_no_wrap [of "of_nat n :: u64" 31] by (simp add: unat_of_nat take_bit_nat_eq_self)
  have mask: "(31::u64) = mask 5" by (simp add: mask_eq_exp_minus_1)
  have "unat (AlignUp (of_nat n) 32) = (n + 31) div 32 * 32"
    using and_not_mask_unat [of "of_nat n + 31" 5] un unfolding AlignUp_def mask [symmetric] by simp
  moreover have "(n + 31) div 32 * 32 < 2 ^ 64" using assms by linarith
  ultimately show ?thesis
    unfolding word_unat_eq_iff by (simp only: unat_of_nat take_bit_nat_eq_self len_of_numeral_defs) simp
qed

definition args_at :: "memory \<Rightarrow> uintptr \<Rightarrow> string list \<Rightarrow> bool" where
  "args_at m a args \<longleftrightarrow>
     (\<forall>i<length args. \<exists>ptr. word_at m (a + of_nat (8 * i)) ptr \<and> str_at m ptr (args ! i)) \<and>
     word_at m (a + of_nat (8 * length args)) 0"

lemma args_atI:
  fixes m' :: memory
  assumes put: "put_args args (base + of_nat p) (base + of_nat q) m = (a', i', m1)"
    and len: "p + 8 * length args \<le> q" "q + args_bytes args < 2 ^ 63"
    and kept: "\<And>k. k < 2 ^ 63 \<Longrightarrow> p \<le> k \<and> k < p + 8 * length args \<or> q \<le> k \<and> k < q + args_bytes args \<Longrightarrow>
      rel m' base k = rel m1 base k"
    and null: "word_at m' (base + of_nat (p + 8 * length args)) 0"
  shows "args_at m' (base + of_nat p) args"
proof -
  note S = put_args_spec [OF len put]
  have "word_at m' (base + of_nat (p + 8 * i)) (base + of_nat (q + args_bytes (take i args))) \<and>
      str_at m' (base + of_nat (q + args_bytes (take i args))) (args ! i)" if i: "i < length args" for i
  proof
    show "word_at m' (base + of_nat (p + 8 * i)) (base + of_nat (q + args_bytes (take i args)))"
      using S(4) [OF i] kept i len by (intro words_kept [of m' base _ m1]) auto
    have "args_bytes (take i args) + length (args ! i) < args_bytes args"
      using i by (subst id_take_nth_drop [OF i]) (simp add: args_bytes_def)
    then show "str_at m' (base + of_nat (q + args_bytes (take i args))) (args ! i)"
      using S(5) [OF i] kept len by (intro strings_kept [of _ m' base _ m1]) auto
  qed
  moreover have "base + of_nat p + of_nat (8 * i) = base + of_nat (p + 8 * i)" for i by (simp add: add.assoc)
  ultimately show ?thesis
    unfolding args_at_def using null by metis
qed

text \<open>The stores of \<open>SetupStack\<close> in order, at offsets from the new stack pointer.\<close>

lemma SetupStack_steps:
  assumes small: "stack_len argv envp < 2 ^ 63"
    and run: "SetupStack random edx argv envp edata sp m = (base, m')"
  defines "T \<equiv> args_bytes argv + args_bytes envp" and "L \<equiv> stack_len argv envp"
    and "P \<equiv> 16 + 8 * length argv + 8 * length envp"
  obtains m1 m3 m5 a1 i1 a2 i2 where "base = sp - of_nat L" "sp - of_nat T = base + of_nat (L - T)"
    "m1 = (case random of None \<Rightarrow> m | Some bs \<Rightarrow> put_bytes (base + of_nat (L - T - 16)) (take 16 bs) m)"
    "put_args argv (base + of_nat 8) (base + of_nat (L - T)) (put_word (base + of_nat 0) (of_nat (length argv)) m1) = (a1, i1, m3)"
    "put_args envp (base + of_nat (16 + 8 * length argv)) (base + of_nat (L - T + args_bytes argv))
       (put_word (base + of_nat (8 + 8 * length argv)) 0 m3) = (a2, i2, m5)"
    "m' = put_aux (SetupAuxVec edx (sp - of_nat T) edata (sp - of_nat T - 16)) (base + of_nat (P + 8))
       (put_word (base + of_nat P) 0 m5)"
proof -
  have room: "T + 336 + (length argv + length envp + 3) * 8 \<le> L" and L: "L < 2 ^ 63"
    using stack_len_bounds(1) [of argv envp] small by (simp_all add: stack_need_def T_def L_def)
  have VB: "VectorBytes argv + VectorBytes envp = of_nat T" by (simp add: VectorBytes_nat T_def)
  have al: "AlignUp (of_nat T + 16 + 16 * of_nat kNumAuxVectors + (of_nat (length argv) + of_nat (length envp) + 3) * 8) 32
      = of_nat L"
  proof -
    have "of_nat T + 16 + 16 * of_nat kNumAuxVectors + (of_nat (length argv) + of_nat (length envp) + 3) * 8
        = (of_nat (stack_need argv envp) :: u64)"
      by (simp add: stack_need_def kNumAuxVectors_def T_def)
    moreover have "stack_need argv envp + 31 < 2 ^ 64"
      using stack_len_bounds(1) [of argv envp] small by simp
    ultimately show ?thesis using AlignUp_32 by (simp only: L_def stack_len_def)
  qed
  define m1 where "m1 = (case random of None \<Rightarrow> m | Some bs \<Rightarrow> put_bytes (sp - of_nat T - 16) (take 16 bs) m)"
  obtain a1 i1 m3 a2 i2 m5 where base: "base = sp - of_nat L"
    and A: "put_args argv (sp - of_nat L + 8) (sp - of_nat T) (put_word (sp - of_nat L) (of_nat (length argv)) m1) = (a1, i1, m3)"
    and B: "put_args envp (a1 + 8) i1 (put_word a1 0 m3) = (a2, i2, m5)"
    and m': "m' = put_aux (SetupAuxVec edx (sp - of_nat T) edata (sp - of_nat T - 16)) (a2 + 8) (put_word a2 0 m5)"
    using run unfolding SetupStack_def VB al Let_def m1_def by (auto split: prod.splits)
  have info: "sp - of_nat T = base + of_nat (L - T)" "sp - of_nat T - 16 = base + of_nat (L - T - 16)"
    using room by (simp_all add: base of_nat_diff)
  have A': "put_args argv (base + of_nat 8) (base + of_nat (L - T)) (put_word (base + of_nat 0) (of_nat (length argv)) m1)
      = (a1, i1, m3)"
    using A by (simp add: base [symmetric] info(1))
  have lenA: "8 + 8 * length argv \<le> L - T" "L - T + args_bytes argv < 2 ^ 63"
    using room L by (simp_all add: T_def)
  note SA = put_args_spec(1,2) [OF lenA A']
  have a1: "a1 + 8 = base + of_nat (16 + 8 * length argv)" using SA(1) by simp
  have B': "put_args envp (base + of_nat (16 + 8 * length argv)) (base + of_nat (L - T + args_bytes argv))
       (put_word (base + of_nat (8 + 8 * length argv)) 0 m3) = (a2, i2, m5)"
    using B unfolding a1 unfolding SA .
  have lenB: "16 + 8 * length argv + 8 * length envp \<le> L - T + args_bytes argv"
      "L - T + args_bytes argv + args_bytes envp < 2 ^ 63"
    using room L by (simp_all add: T_def)
  note SB = put_args_spec(1) [OF lenB B', folded P_def]
  have "a2 + 8 = base + of_nat (P + 8)" using SB by simp
  then have "m' = put_aux (SetupAuxVec edx (sp - of_nat T) edata (sp - of_nat T - 16)) (base + of_nat (P + 8))
       (put_word (base + of_nat P) 0 m5)"
    using m' unfolding SB by (simp only:)
  moreover have "m1 = (case random of None \<Rightarrow> m | Some bs \<Rightarrow> put_bytes (base + of_nat (L - T - 16)) (take 16 bs) m)"
    unfolding m1_def info(2) ..
  ultimately show thesis using that [OF base info(1) _ A' B'] by (simp only:)
qed

lemma SetupStack_layout:
  assumes small: "stack_len argv envp < 2 ^ 63" and random: "random = None \<or> length (the random) = 16"
    and run: "SetupStack random edx argv envp edata sp m = (base, m')"
  defines "T \<equiv> args_bytes argv + args_bytes envp" and "L \<equiv> stack_len argv envp"
    and "P \<equiv> 16 + 8 * length argv + 8 * length envp"
  shows "base = sp - of_nat L" "word_at m' base (of_nat (length argv))"
    "args_at m' (base + of_nat 8) argv" "args_at m' (base + of_nat (16 + 8 * length argv)) envp"
    "k < 2 ^ 64 \<Longrightarrow> L \<le> k \<Longrightarrow> rel m' base k = rel m base k"
    "i < 20 \<Longrightarrow> word_at m' (base + of_nat (P + 8 + 16 * i))
        (fst (SetupAuxVec edx (sp - of_nat T) edata (sp - of_nat T - 16) ! i)) \<and>
      word_at m' (base + of_nat (P + 8 + 16 * i + 8))
        (snd (SetupAuxVec edx (sp - of_nat T) edata (sp - of_nat T - 16) ! i))"
proof -
  define Q where "Q = L - T"
  let ?n = "length argv" and ?A = "args_bytes argv" and ?vec = "SetupAuxVec edx (sp - of_nat T) edata (sp - of_nat T - 16)"
  obtain m1 m3 m5 a1 i1 a2 i2 where base: "base = sp - of_nat L"
    and m1: "m1 = (case random of None \<Rightarrow> m | Some bs \<Rightarrow> put_bytes (base + of_nat (Q - 16)) (take 16 bs) m)"
    and A: "put_args argv (base + of_nat 8) (base + of_nat Q) (put_word (base + of_nat 0) (of_nat ?n) m1) = (a1, i1, m3)"
    and B: "put_args envp (base + of_nat (16 + 8 * ?n)) (base + of_nat (Q + ?A))
       (put_word (base + of_nat (8 + 8 * ?n)) 0 m3) = (a2, i2, m5)"
    and m': "m' = put_aux ?vec (base + of_nat (P + 8)) (put_word (base + of_nat P) 0 m5)"
    using SetupStack_steps [OF small run] unfolding T_def L_def P_def Q_def by metis
  have vec: "length ?vec = 20" by (simp add: SetupAuxVec_def)
  have L: "L < 2 ^ 63" "L = Q + ?A + args_bytes envp" and P: "P + 344 \<le> Q" "P = 16 + 8 * ?n + 8 * length envp"
    using stack_len_bounds(1) [of argv envp] small by (simp_all add: stack_need_def T_def L_def Q_def P_def)
  have lenA: "8 + 8 * ?n \<le> Q" "Q + ?A < 2 ^ 63" and lenB: "16 + 8 * ?n + 8 * length envp \<le> Q + ?A"
      "Q + ?A + args_bytes envp < 2 ^ 63"
    using P L by simp_all
  have s1: "rel m1 base k = rel m base k" if "k < 2 ^ 64" "\<not> (Q - 16 \<le> k \<and> k < Q)" for k
  proof (cases random)
    case (Some bs)
    then have "Q - 16 + length (take 16 bs) = Q" using random P by simp
    then show ?thesis using rel_put_bytes [of "Q - 16" "take 16 bs" k base m] that Some m1 lenA by simp
  qed (simp add: m1)
  let ?m2 = "put_word (base + of_nat 0) (of_nat ?n) m1" and ?m4 = "put_word (base + of_nat (8 + 8 * ?n)) 0 m3"
    and ?m6 = "put_word (base + of_nat P) 0 m5"
  have s2: "rel ?m2 base k = (if k < 8 then le_bytes (of_nat ?n) ! k else rel m1 base k)" if "k < 2 ^ 64" for k
    using rel_put_word [of 0 k base "of_nat ?n" m1] that by simp
  have s3: "rel m3 base k = rel ?m2 base k" if "k < 2 ^ 64" "k < 8 \<or> 8 + 8 * ?n \<le> k \<and> k < Q \<or> Q + ?A \<le> k" for k
    using that lenA by (intro put_args_spec(3) [OF lenA A]) auto
  have s4: "rel ?m4 base k = (if 8 + 8 * ?n \<le> k \<and> k < 16 + 8 * ?n then le_bytes 0 ! (k - (8 + 8 * ?n)) else rel m3 base k)"
    if "k < 2 ^ 64" for k
    using rel_put_word [of "8 + 8 * ?n" k base 0 m3] lenA that by (simp del: of_nat_add)
  have s5: "rel m5 base k = rel ?m4 base k" if "k < 2 ^ 64" "k < 16 + 8 * ?n \<or> P \<le> k \<and> k < Q + ?A \<or> L \<le> k" for k
    using that P L by (intro put_args_spec(3) [OF lenB B]) auto
  have s6: "rel ?m6 base k = (if P \<le> k \<and> k < P + 8 then le_bytes 0 ! (k - P) else rel m5 base k)"
    if "k < 2 ^ 64" for k
    using rel_put_word [of P k base 0 m5] P lenA that by simp
  have lenV: "P + 8 + 16 * length ?vec < 2 ^ 63" using P lenA by (simp add: vec)
  have s7: "rel m' base k = rel ?m6 base k" if "k < 2 ^ 64" "k < P + 8 \<or> Q - 16 \<le> k" for k
    unfolding m' using that P by (intro put_aux_spec(1) [OF lenV]) (auto simp: vec)
  show "base = sp - of_nat L" by (rule base)
  have top: "rel m' base k = rel m5 base k" if "k < P \<or> Q - 16 \<le> k" "k < 2 ^ 64" for k
    using s7 [of k] s6 [of k] that P by auto
  have low: "rel m' base k = rel ?m4 base k" if "k < 16 + 8 * ?n \<or> Q - 16 \<le> k \<and> k < Q + ?A \<or> L \<le> k" "k < 2 ^ 64" for k
  proof -
    have "k < P \<or> Q - 16 \<le> k" "k < 16 + 8 * ?n \<or> P \<le> k \<and> k < Q + ?A \<or> L \<le> k" using that P L by auto
    then show ?thesis using top [of k] s5 [of k] that(2) by simp
  qed
  show "word_at m' base (of_nat ?n)"
    using low s4 s3 s2 word_at_rel [of m' base 0] by simp
  show "args_at m' (base + of_nat 8) argv"
  proof (rule args_atI [OF A lenA])
    show "rel m' base k = rel m3 base k" if "k < 2 ^ 63" "8 \<le> k \<and> k < 8 + 8 * ?n \<or> Q \<le> k \<and> k < Q + ?A" for k
      using that low [of k] s4 [of k] P le_trans [OF diff_le_self, of Q k 16] by auto
    show "word_at m' (base + of_nat (8 + 8 * ?n)) 0"
      unfolding word_at_rel using low s4 lenA by auto
  qed
  show "args_at m' (base + of_nat (16 + 8 * ?n)) envp"
  proof (rule args_atI [OF B lenB])
    show "rel m' base k = rel m5 base k"
      if "k < 2 ^ 63" "16 + 8 * ?n \<le> k \<and> k < 16 + 8 * ?n + 8 * length envp \<or> Q + ?A \<le> k \<and> k < Q + ?A + args_bytes envp" for k
      using that top [of k] P by auto
    show "word_at m' (base + of_nat (16 + 8 * ?n + 8 * length envp)) 0"
      unfolding word_at_rel P(2) [symmetric] using s7 s6 P lenA by auto
  qed
  show "rel m' base k = rel m base k" if "k < 2 ^ 64" "L \<le> k"
    using low [of k] s4 [of k] s3 [of k] s2 [of k] s1 [of k] that L P by auto
  show "word_at m' (base + of_nat (P + 8 + 16 * i)) (fst (?vec ! i)) \<and>
      word_at m' (base + of_nat (P + 8 + 16 * i + 8)) (snd (?vec ! i))" if "i < 20"
    using put_aux_spec(2) [OF lenV, of i] that vec unfolding m' by simp
qed

text \<open>
  C24: A program finds its arguments on the initial stack, as the calling convention demands.  The new stack pointer
  lies below the old one by the rounded size of the data and is 32-byte aligned if the old one was; it points to
  the argument count, which is followed by the pointers to the arguments, a null pointer, the pointers to the environment, a
  null pointer and the auxiliary vector.  Every pointer leads to the bytes of its string and a zero byte.  No byte
  outside the new part of the stack changes.
\<close>

theorem initial_stack_layout:
  assumes "stack_len argv envp \<le> unat sp" "stack_len argv envp < 2 ^ 63" "random = None \<or> length (the random) = 16"
    and "SetupStack random edx argv envp edata sp m = (sp', m')"
  shows "unat sp' = unat sp - stack_len argv envp \<and> (32 dvd unat sp \<longrightarrow> 32 dvd unat sp') \<and>
    word_at m' sp' (of_nat (length argv)) \<and> args_at m' (sp' + 8) argv \<and>
    args_at m' (sp' + of_nat (16 + 8 * length argv)) envp \<and>
    (\<forall>i<20. let vec = SetupAuxVec edx (sp - of_nat (args_bytes argv + args_bytes envp)) edata
                (sp - of_nat (args_bytes argv + args_bytes envp) - 16);
             a = sp' + of_nat (24 + 8 * length argv + 8 * length envp + 16 * i)
         in word_at m' a (fst (vec ! i)) \<and> word_at m' (a + 8) (snd (vec ! i))) \<and>
    (\<forall>x. x < sp' \<or> sp \<le> x \<longrightarrow> m' x = m x)"
proof -
  let ?L = "stack_len argv envp" and ?P = "16 + 8 * length argv + 8 * length envp"
  note S = SetupStack_layout [OF assms(2,3,4)]
  have un: "unat (of_nat ?L :: u64) = ?L" using assms(2) by (simp add: unat_of_nat take_bit_nat_eq_self)
  have sp': "unat sp' = unat sp - ?L" using assms(1) un by (simp add: S(1) unat_sub word_le_nat_alt)
  have "32 dvd unat sp'" if "32 dvd unat sp"
    using that unfolding sp' by (intro dvd_diff_nat) (simp_all add: stack_len_def)
  moreover have "m' x = m x" if x: "x < sp' \<or> sp \<le> x" for x
  proof -
    let ?k = "unat (x - sp')"
    have "?L \<le> ?k"
    proof (cases "x < sp'")
      case True
      then have "?k = 2 ^ 64 - (unat sp' - unat x)" by (simp add: unat_sub_if_size word_size word_less_nat_alt)
      then show ?thesis using assms(1) sp' unat_lt_64 [of sp] by simp
    next
      case False
      then have "sp \<le> x" "unat (x - sp') = unat x - unat sp'" using x by (auto simp: unat_sub not_less)
      then show ?thesis using assms(1) by (simp add: sp' word_le_nat_alt)
    qed
    then have "rel m' sp' ?k = rel m sp' ?k" using S(5) [of ?k] unat_lt_64 [of "x - sp'"] by blast
    then show ?thesis by (simp add: rel_def)
  qed
  moreover have "24 + 8 * length argv + 8 * length envp + 16 * i = ?P + 8 + 16 * i"
    "sp' + of_nat (?P + 8 + 16 * i) + 8 = sp' + of_nat (?P + 8 + 16 * i + 8)" for i
    by (simp_all add: add.assoc)
  moreover have "args_at m' (sp' + 8) argv" using S(3) by simp
  ultimately show ?thesis
    using S(2,4,6) sp' unfolding Let_def by (simp only: HOL.simp_thms) blast
qed

definition demo_edata :: elf_data where
  "demo_edata = \<lparr>ed_map_base = 0x10000, ed_map_len = 0x2000, ed_entry_addr = 0x10100, ed_phdr_addr = 0x10040,
     ed_phdr_num = 2, ed_phdr_entsz = 56, ed_interp = None\<rparr>"

theorem initial_stack_layout_witness:
  "let r = SetupStack None 0 [''ls'', ''-l''] [''A=1''] demo_edata 0x8000 (\<lambda>_. 0xff)
   in fst r = 0x7e60 \<and> word_at (snd r) 0x7e60 2 \<and> args_at (snd r) 0x7e68 [''ls'', ''-l''] \<and>
      args_at (snd r) (0x7e60 + of_nat (16 + 8 * length [''ls'', ''-l''])) [''A=1''] \<and> snd r 0x8000 = 0xff"
proof -
  let ?r = "SetupStack None 0 [''ls'', ''-l''] [''A=1''] demo_edata 0x8000 (\<lambda>_. 0xff)"
  have len: "stack_len [''ls'', ''-l''] [''A=1''] = 416" by (simp add: stack_len_def stack_need_def)
  have "SetupStack None 0 [''ls'', ''-l''] [''A=1''] demo_edata 0x8000 (\<lambda>_. 0xff) = (fst ?r, snd ?r)" by simp
  from initial_stack_layout [OF _ _ _ this] len
  have T: "unat (fst ?r) = 0x7e60" "word_at (snd ?r) (fst ?r) (of_nat (length [''ls'', ''-l'']))"
    "args_at (snd ?r) (fst ?r + 8) [''ls'', ''-l'']" "snd ?r 0x8000 = 0xff"
    "args_at (snd ?r) (fst ?r + of_nat (16 + 8 * length [''ls'', ''-l''])) [''A=1'']"
    by simp_all
  have "fst ?r = 0x7e60" using T(1) by (simp add: word_unat_eq_iff)
  then show ?thesis using T by (simp add: Let_def)
qed

section \<open>Scripts\<close>

text \<open>\<open>split\<close> of \<^verbatim>\<open>base/string.h\<close>; \<open>n\<close> is the number of tokens so far.\<close>

lemma split_rest_shorter:
  assumes "sep \<in> set text"
  shows "length (tl (dropWhile (\<lambda>c. c \<noteq> sep) text)) < length text"
proof -
  have "dropWhile (\<lambda>c. c \<noteq> sep) text \<noteq> []" using assms by (auto simp: dropWhile_eq_Nil_conv)
  moreover have "length (dropWhile (\<lambda>c. c \<noteq> sep) text) \<le> length text" by (rule length_dropWhile_le)
  ultimately show ?thesis by (cases "dropWhile (\<lambda>c. c \<noteq> sep) text") auto
qed

function split_str :: "char \<Rightarrow> nat option \<Rightarrow> nat \<Rightarrow> string \<Rightarrow> string list" where
  "split_str sep limit n text =
     (if sep \<notin> set text then [text]
      else
        (let rest = tl (dropWhile (\<lambda>c. c \<noteq> sep) text) in
         takeWhile (\<lambda>c. c \<noteq> sep) text #
         (if (case limit of None \<Rightarrow> False | Some k \<Rightarrow> Suc n \<ge> k) then [rest] else split_str sep limit (Suc n) rest)))"
  by pat_completeness auto
termination
  by (relation "measure (\<lambda>(sep, limit, n, text). length text)") (use split_rest_shorter in \<open>auto simp del: length_tl\<close>)

declare split_str.simps [simp del]

text \<open>The stream over a script: characters that were read and not taken yet, and the file.  \<open>get\<close> refills it.\<close>

definition sb_get :: "loader_env \<Rightarrow> byte list \<times> JunctionFile \<Rightarrow> char option \<times> byte list \<times> JunctionFile" where
  "sb_get env st =
     (case st of
        (c # cs, f) \<Rightarrow> (Some (char_of (unat c)), cs, f)
      | ([], f) \<Rightarrow> (case jf_Read env 256 f of
            (Inr (c # cs), f') \<Rightarrow> (Some (char_of (unat c)), cs, f')
          | (_, f') \<Rightarrow> (None, [], f')))"

partial_function (option) get_line :: "loader_env \<Rightarrow> string \<Rightarrow> byte list \<times> JunctionFile \<Rightarrow> string option" where
  "get_line env acc st =
     (case sb_get env st of
        (None, st') \<Rightarrow> Some acc
      | (Some c, st') \<Rightarrow> if c = CHR 0x0A then Some acc else get_line env (acc @ [c]) st')"

text \<open>The line after the two characters that mark a script; \<open>Some None\<close> is a file that does not have them.\<close>

definition script_line :: "loader_env \<Rightarrow> JunctionFile \<Rightarrow> string option option" where
  "script_line env f =
     (case sb_get env ([], f) of
        (c1, st1) \<Rightarrow>
          if c1 \<noteq> Some CHR ''#'' then Some None
          else case sb_get env st1 of
            (c2, st2) \<Rightarrow>
              if c2 \<noteq> Some CHR ''!'' then Some None
              else map_option Some (get_line env '''' st2))"

record ExecContext =
  ctx_file :: JunctionFile
  ctx_hdr :: elf_header
  argv_own :: "string list"
  argv_view :: "string list"

record exec_env =
  xe_loader :: loader_env
  xe_Lookup :: "string \<Rightarrow> nat Status"
  xe_OpenDent :: "nat \<Rightarrow> nat Status"

definition get_argv_view :: "ExecContext \<Rightarrow> string list" where
  "get_argv_view ctx = (if argv_own ctx \<noteq> [] \<and> argv_view ctx = [] then argv_own ctx else argv_view ctx)"

definition TakeArgvOwnership :: "ExecContext \<Rightarrow> ExecContext" where
  "TakeArgvOwnership ctx =
     ctx\<lparr>argv_own := (if argv_own ctx = [] then argv_view ctx else argv_own ctx), argv_view := []\<rparr>"

definition PrependArgs :: "string list \<Rightarrow> ExecContext \<Rightarrow> ExecContext" where
  "PrependArgs tokens ctx = (let c = TakeArgvOwnership ctx in c\<lparr>argv_own := tokens @ argv_own c\<rparr>)"

fun ResolveElf :: "exec_env \<Rightarrow> bool \<Rightarrow> nat \<Rightarrow> nat \<Rightarrow> ExecContext \<Rightarrow> (unit Status \<times> ExecContext) option" where
  "ResolveElf xe must_be_reloc max_depth dent ctx =
     (case xe_OpenDent xe dent of
        Inl e \<Rightarrow> Some (Inl e, ctx)
      | Inr file \<Rightarrow>
          (case CheckELFLoad (xe_loader xe) must_be_reloc \<lparr>jf_file = file, jf_off = 0\<rparr> of
             None \<Rightarrow> None
           | Some (Inr hdr, f) \<Rightarrow> Some (Inr (), ctx\<lparr>ctx_file := f, ctx_hdr := hdr\<rparr>)
           | Some (Inl _, f) \<Rightarrow>
               (case max_depth of
                  0 \<Rightarrow> Some (Inl ELOOP, ctx)
                | Suc depth \<Rightarrow>
                    (case script_line (xe_loader xe) (snd (jf_Seek (xe_loader xe) 0 f)) of
                       None \<Rightarrow> None
                     | Some None \<Rightarrow> Some (Inl EINVAL, ctx)
                     | Some (Some line) \<Rightarrow>
                         (let tokens = split_str CHR '' '' (Some 1) 0 line in
                          case xe_Lookup xe (hd tokens) of
                            Inl e \<Rightarrow> Some (Inl e, ctx)
                          | Inr path \<Rightarrow> ResolveElf xe must_be_reloc depth path (PrependArgs tokens ctx))))))"

declare ResolveElf.simps [simp del]

section \<open>Replacing a program\<close>

text \<open>The result: stack pointer, entry point and the command line that is recorded in the memory map.\<close>

type_synonym exec_info = "uintptr \<times> uintptr \<times> string"

definition cmd_line_of :: "string list \<Rightarrow> string" where
  "cmd_line_of argv = concat (map (\<lambda>a. a @ [CHR 0x00]) argv)"

definition FinishExec :: "loader_env \<Rightarrow> byte list option \<Rightarrow> u32 \<Rightarrow> ExecContext \<Rightarrow> string list \<Rightarrow> exec_info ld" where
  "FinishExec env random edx ctx envp =
     ld_bind (DoELFLoad env (ctx_hdr ctx) (ctx_file ctx)) (\<lambda>edata.
     ld_bind (MMapAnonymous env 0 (kStackSize + kStackSize) PROT_NONE 0) (\<lambda>guard.
     ld_bind (MMapAnonymous env (guard + kStackSize) kStackSize (PROT_READ OR PROT_WRITE) (MAP_FIXED OR MAP_STACK)) (\<lambda>_ s.
       let (sp, m') = SetupStack random edx (get_argv_view ctx) envp edata (guard + kStackSize + kStackSize) (ld_mem s)
       in ld_return (sp,
            case ed_interp edata of Some i \<Rightarrow> id_entry_addr i | None \<Rightarrow> ed_entry_addr edata,
            cmd_line_of (get_argv_view ctx)) (s\<lparr>ld_mem := m'\<rparr>))))"

definition empty_ctx :: "string list \<Rightarrow> ExecContext" where
  "empty_ctx argv = \<lparr>ctx_file = \<lparr>jf_file = 0, jf_off = 0\<rparr>, ctx_hdr = elf_header_of [], argv_own = [], argv_view = argv\<rparr>"

definition Exec :: "exec_env \<Rightarrow> byte list option \<Rightarrow> u32 \<Rightarrow> string \<Rightarrow> string list \<Rightarrow> string list \<Rightarrow> bool \<Rightarrow> exec_info ld" where
  "Exec xe random edx pathname argv envp must_be_reloc s =
     (case xe_Lookup xe pathname of
        Inl e \<Rightarrow> Some (Inl e, s)
      | Inr path \<Rightarrow>
          (case ResolveElf xe must_be_reloc kMaxInterpFollow path (empty_ctx argv) of
             None \<Rightarrow> None
           | Some (Inl e, _) \<Rightarrow> Some (Inl e, s)
           | Some (Inr _, ctx) \<Rightarrow> FinishExec (xe_loader xe) random edx ctx envp s))"

text \<open>
  What \<open>DoExecve\<close> does to the process besides its memory, in order, and how it ends: with an error for the
  caller, with the exit of the whole process, or with the registers of the new program.
\<close>

datatype exec_event = KillThreadsAndWait | ResetRseq | UnmapOld | ProcFinishExec | ThreadOnExec

datatype exec_outcome = ExecError errno | ExecExit | ExecStart uintptr uintptr

definition kMemoryMappingSize :: u64 where "kMemoryMappingSize = 0x1000000000"

text \<open>Dropping the last reference of a memory map.\<close>

definition drop_map :: "MemoryMap \<Rightarrow> loader \<Rightarrow> loader" where
  "drop_map mm s =
     (case DestroyMemoryMap mm (ld_pool s) (ld_nr_non_reloc s) of (pool, nr) \<Rightarrow> s\<lparr>ld_pool := pool, ld_nr_non_reloc := nr\<rparr>)"

definition exec_must_be_reloc :: "bool \<Rightarrow> loader \<Rightarrow> bool" where
  "exec_must_be_reloc in_vfork s =
     ((if ld_nr_non_reloc s \<noteq> 0 \<and> is_non_reloc (ld_mm s) \<and> \<not> in_vfork then ld_nr_non_reloc s - 1
       else ld_nr_non_reloc s) > 0)"

text \<open>
  The state carries the caller's map.  \<open>exec_finish\<close> is the part of \<open>DoExecve\<close> after the program was found;
  \<open>mm\<close> is the new map.  A map that a parent still uses after a \<open>vfork\<close> is not dropped.
\<close>

definition exec_finish :: "loader_env \<Rightarrow> byte list option \<Rightarrow> u32 \<Rightarrow> bool \<Rightarrow> bool \<Rightarrow> ExecContext \<Rightarrow> string list \<Rightarrow> MemoryMap \<Rightarrow> loader
    \<Rightarrow> (exec_outcome \<times> exec_event list \<times> loader) option" where
  "exec_finish env random edx in_vfork replace ctx envp mm s =
     (let (old, pool) = (if replace then UnmapAll (ld_mm s) (ld_pool s) else (ld_mm s, ld_pool s));
          ctx' = (if replace then TakeArgvOwnership ctx else ctx);
          evs = (if replace then [KillThreadsAndWait, ResetRseq, UnmapOld] else [])
      in case FinishExec env random edx ctx' envp (s\<lparr>ld_mm := mm, ld_pool := pool\<rparr>) of
           None \<Rightarrow> None
         | Some (Inl e, s2) \<Rightarrow>
             if replace then Some (ExecExit, evs, s2\<lparr>ld_mm := old\<rparr>)
             else Some (ExecError e, evs, (drop_map (ld_mm s2) s2)\<lparr>ld_mm := old\<rparr>)
         | Some (Inr (sp, entry, _), s2) \<Rightarrow>
             Some (ExecStart sp entry, evs @ [ResetRseq, ProcFinishExec, ThreadOnExec],
               if in_vfork then s2 else drop_map old s2))"

definition DoExecve :: "exec_env \<Rightarrow> byte list option \<Rightarrow> u32 \<Rightarrow> bool \<Rightarrow> nat \<Rightarrow> string list \<Rightarrow> string list \<Rightarrow> loader
    \<Rightarrow> (exec_outcome \<times> exec_event list \<times> loader) option" where
  "DoExecve xe random edx in_vfork dent argv envp s =
     (case CreateMemoryMap (env_kernel (xe_loader xe)) kMemoryMappingSize (ld_pool s) of
        None \<Rightarrow> None
      | Some (Inl e, pool1) \<Rightarrow> Some (ExecError e, [], s\<lparr>ld_pool := pool1\<rparr>)
      | Some (Inr mm, pool1) \<Rightarrow>
          (case ResolveElf xe (exec_must_be_reloc in_vfork s) kMaxInterpFollow dent (empty_ctx argv) of
             None \<Rightarrow> None
           | Some (Inl e, _) \<Rightarrow> Some (ExecError e, [], drop_map mm (s\<lparr>ld_pool := pool1\<rparr>))
           | Some (Inr _, ctx) \<Rightarrow>
               exec_finish (xe_loader xe) random edx in_vfork
                 (is_non_reloc (ld_mm s) \<and> eh_type (ctx_hdr ctx) \<noteq> kETypeDynamic) ctx envp mm
                 (s\<lparr>ld_pool := pool1\<rparr>)))"

definition usys_execve :: "exec_env \<Rightarrow> byte list option \<Rightarrow> u32 \<Rightarrow> bool \<Rightarrow> string \<Rightarrow> string list \<Rightarrow> string list \<Rightarrow> loader
    \<Rightarrow> (exec_outcome \<times> exec_event list \<times> loader) option" where
  "usys_execve xe random edx in_vfork filename argv envp s =
     (case xe_Lookup xe filename of
        Inl e \<Rightarrow> Some (ExecError e, [], s)
      | Inr dent \<Rightarrow> DoExecve xe random edx in_vfork dent argv envp s)"

section \<open>Resolving scripts ends\<close>

context program_file
begin

lemma get_line_returns:
  "unat off \<le> length contents \<Longrightarrow> \<exists>line. get_line env acc (buf, \<lparr>jf_file = file_id, jf_off = off\<rparr>) = Some line"
proof (induction "length buf + (length contents - unat off)" arbitrary: buf off acc rule: less_induct)
  case less
  show ?case
  proof (cases buf)
    case (Cons c cs)
    show ?thesis
      using less(1) [of cs off] less(2) Cons by (subst get_line.simps) (auto simp: sb_get_def)
  next
    case Nil
    let ?bs = "take 256 (drop (unat off) contents)" and ?n = "min 256 (length contents - unat off)"
    have rd: "env_Read env file_id 256 off = Inr (?bs, off + of_nat ?n)" using reads [OF less(2), of 256] by simp
    have un: "unat (off + of_nat ?n) = unat off + ?n"
      using small less(2) by (subst unat_add_no_wrap) (simp_all add: unat_of_nat take_bit_nat_eq_self)
    show ?thesis
    proof (cases ?bs)
      case Nil
      then show ?thesis
        using rd \<open>buf = []\<close> by (subst get_line.simps) (simp add: sb_get_def jf_Read_def)
    next
      case (Cons c cs)
      have "length ?bs = ?n" by (simp add: min.commute)
      then have len: "length cs + 1 = ?n" by (simp add: Cons)
      then have "length cs + (length contents - unat (off + of_nat ?n)) < length buf + (length contents - unat off)"
        unfolding un using \<open>buf = []\<close> by simp
      moreover have "unat (off + of_nat ?n) \<le> length contents" unfolding un using less(2) by simp
      ultimately have "\<exists>line. get_line env acc' (cs, \<lparr>jf_file = file_id, jf_off = off + of_nat ?n\<rparr>) = Some line" for acc'
        using less(1) by blast
      then show ?thesis
        using rd Cons \<open>buf = []\<close> by (subst get_line.simps) (simp add: sb_get_def jf_Read_def)
    qed
  qed
qed

lemma sb_get_stays:
  assumes "unat off \<le> length contents" "sb_get env (buf, \<lparr>jf_file = file_id, jf_off = off\<rparr>) = (c, buf', f')"
  shows "\<exists>off'. f' = \<lparr>jf_file = file_id, jf_off = off'\<rparr> \<and> unat off' \<le> length contents"
proof (cases buf)
  case Nil
  let ?n = "min 256 (length contents - unat off)"
  have "unat (off + of_nat ?n) = unat off + ?n"
    using small assms(1) by (subst unat_add_no_wrap) (simp_all add: unat_of_nat take_bit_nat_eq_self)
  then have "unat (off + of_nat ?n) \<le> length contents" using assms(1) by simp
  moreover have "env_Read env file_id 256 off = Inr (take 256 (drop (unat off) contents), off + of_nat ?n)"
    using reads [OF assms(1), of 256] by simp
  ultimately show ?thesis
    using assms Nil by (auto simp: sb_get_def jf_Read_def split: list.splits if_splits)
qed (use assms in \<open>auto simp: sb_get_def\<close>)

lemma script_line_returns: "script_line env \<lparr>jf_file = file_id, jf_off = 0\<rparr> \<noteq> None"
proof -
  obtain c1 b1 f1 where 1: "sb_get env ([], \<lparr>jf_file = file_id, jf_off = 0\<rparr>) = (c1, b1, f1)" by (metis prod_cases3)
  then obtain o1 where o1: "f1 = \<lparr>jf_file = file_id, jf_off = o1\<rparr>" "unat o1 \<le> length contents"
    using sb_get_stays [OF _ 1] by auto
  obtain c2 b2 f2 where 2: "sb_get env (b1, f1) = (c2, b2, f2)" by (metis prod_cases3)
  then obtain o2 where o2: "f2 = \<lparr>jf_file = file_id, jf_off = o2\<rparr>" "unat o2 \<le> length contents"
    using sb_get_stays [OF o1(2) 2 [unfolded o1(1)]] by auto
  show ?thesis
    using get_line_returns [OF o2(2), of "''''" b2] by (auto simp: script_line_def 1 2 o2(1))
qed

end

lemma split_str_nonempty: "split_str sep limit n text \<noteq> []"
  by (subst split_str.simps) (simp add: Let_def)

text \<open>What the script resolution expects of the files of the system.\<close>

definition finite_files :: "exec_env \<Rightarrow> bool" where
  "finite_files xe \<longleftrightarrow>
     (\<forall>f. \<exists>contents. program_file (xe_loader xe) f contents) \<and> (\<forall>f off. env_Seek (xe_loader xe) f off = Inr off)"

lemma CheckELFLoad_returns:
  obtains r f where "CheckELFLoad env mbr g = Some (r, f)"
proof -
  obtain q f where "jf_ReadFull env elf_header_size g = Some (q, f)"
    using jf_ReadFull_total [of env elf_header_size g] by fastforce
  then have "\<exists>r. CheckELFLoad env mbr g = Some (r, f)"
    by (cases q) (simp_all add: CheckELFLoad_def ReadHeader_def Let_def)
  then show thesis using that by blast
qed

lemma jf_file_ReadFull: "ReadFull fuel (jf_Read env) n acc f = Some (r, f') \<Longrightarrow> jf_file f' = jf_file f"
proof (induction fuel arbitrary: acc f)
  case (Suc fuel)
  show ?case
  proof (cases "length acc < n")
    case True
    obtain q g where q: "jf_Read env (n - length acc) f = (q, g)" by fastforce
    have "jf_file g = jf_file f" using q by (auto simp: jf_Read_def split: sum.splits prod.splits)
    then show ?thesis using Suc True q by (auto split: sum.splits if_splits)
  qed (use Suc in auto)
qed simp

lemma CheckELFLoad_result:
  assumes "CheckELFLoad env mbr g = Some (r, f)"
  shows "jf_file f = jf_file g"
    "r = Inr hdr \<Longrightarrow> HeaderIsValid hdr \<and> (eh_type hdr = kETypeDynamic \<or> eh_type hdr = kETypeExec \<and> \<not> mbr)"
proof -
  obtain q f0 where q: "jf_ReadFull env elf_header_size g = Some (q, f0)"
    using jf_ReadFull_total [of env elf_header_size g] by fastforce
  have f: "f0 = f" using assms q by (cases q) (simp_all add: CheckELFLoad_def ReadHeader_def Let_def split: if_splits)
  then show "jf_file f = jf_file g" using jf_file_ReadFull [OF q [unfolded jf_ReadFull_def]] by simp
  show "HeaderIsValid hdr \<and> (eh_type hdr = kETypeDynamic \<or> eh_type hdr = kETypeExec \<and> \<not> mbr)" if "r = Inr hdr"
    using assms q that by (cases q) (auto simp: CheckELFLoad_def ReadHeader_def Let_def split: if_splits)
qed

text \<open>The arguments after \<open>PrependArgs\<close>; one of the two lists of a context is always empty.\<close>

definition ctx_ok :: "ExecContext \<Rightarrow> bool" where
  "ctx_ok ctx \<longleftrightarrow> argv_view ctx = [] \<or> argv_own ctx = []"

lemma PrependArgs_view:
  "tokens \<noteq> [] \<Longrightarrow> ctx_ok ctx \<Longrightarrow>
     get_argv_view (PrependArgs tokens ctx) = tokens @ get_argv_view ctx \<and> ctx_ok (PrependArgs tokens ctx)"
  by (auto simp: ctx_ok_def get_argv_view_def PrependArgs_def TakeArgvOwnership_def Let_def)

text \<open>
  A resolved program: a valid ELF file of a supported type, relocatable if it has to be, whose arguments are the
  given ones after the words of at most \<open>depth\<close> interpreter lines, the line of the outermost script last.
\<close>

definition resolved :: "bool \<Rightarrow> nat \<Rightarrow> ExecContext \<Rightarrow> ExecContext \<Rightarrow> bool" where
  "resolved mbr depth ctx ctx' \<longleftrightarrow>
     HeaderIsValid (ctx_hdr ctx') \<and>
     (eh_type (ctx_hdr ctx') = kETypeDynamic \<or> eh_type (ctx_hdr ctx') = kETypeExec \<and> \<not> mbr) \<and>
     (\<exists>lines. length lines \<le> depth \<and>
        get_argv_view ctx' = concat (map (split_str CHR '' '' (Some 1) 0) (rev lines)) @ get_argv_view ctx)"

lemma resolved_elf:
  assumes "CheckELFLoad env mbr g = Some (Inr hdr, f)"
  shows "resolved mbr depth ctx (ctx\<lparr>ctx_file := f, ctx_hdr := hdr\<rparr>)"
  using CheckELFLoad_result(2) [OF assms refl] by (auto simp: resolved_def get_argv_view_def intro: exI [of _ "[]"])

lemma resolved_script:
  assumes "resolved mbr depth (PrependArgs (split_str CHR '' '' (Some 1) 0 line) ctx) ctx'" "ctx_ok ctx"
  shows "resolved mbr (Suc depth) ctx ctx'"
proof -
  obtain lines where "length lines \<le> depth" "get_argv_view ctx' = concat (map (split_str CHR '' '' (Some 1) 0) (rev lines)) @
      split_str CHR '' '' (Some 1) 0 line @ get_argv_view ctx"
    using assms PrependArgs_view [OF split_str_nonempty assms(2)] by (auto simp: resolved_def)
  then have "length (line # lines) \<le> Suc depth"
    "get_argv_view ctx' = concat (map (split_str CHR '' '' (Some 1) 0) (rev (line # lines))) @ get_argv_view ctx"
    by simp_all
  then show ?thesis using assms(1) unfolding resolved_def by blast
qed

lemma script_line_seek:
  assumes "finite_files xe"
  shows "script_line (xe_loader xe) (snd (jf_Seek (xe_loader xe) 0 f)) \<noteq> None"
proof -
  obtain contents where pf: "program_file (xe_loader xe) (jf_file f) contents"
    using assms unfolding finite_files_def by blast
  have "snd (jf_Seek (xe_loader xe) 0 f) = \<lparr>jf_file = jf_file f, jf_off = 0\<rparr>"
    using assms by (simp add: jf_Seek_def finite_files_def)
  then show ?thesis using program_file.script_line_returns [OF pf] by simp
qed

text \<open>
  Resolving a program ends, however the scripts refer to each other, if the files of the system are finite.
  If it succeeds, the program is a valid ELF file of a supported type, relocatable if it has to be, and its
  arguments are the given ones after the words of at most as many interpreter lines as may be followed, the line of the
  outermost script last.
\<close>

theorem script_resolution_ends:
  assumes "finite_files xe" "ctx_ok ctx"
  shows "\<exists>r ctx'. ResolveElf xe mbr depth dent ctx = Some (r, ctx') \<and> (r = Inr () \<longrightarrow> resolved mbr depth ctx ctx')"
  using assms(2)
proof (induction depth arbitrary: dent ctx)
  case 0
  show ?case
  proof (cases "xe_OpenDent xe dent")
    case (Inr g)
    obtain r f where "CheckELFLoad (xe_loader xe) mbr \<lparr>jf_file = g, jf_off = 0\<rparr> = Some (r, f)"
      by (rule CheckELFLoad_returns)
    then show ?thesis using Inr resolved_elf by (cases r) (auto simp: ResolveElf.simps [of xe mbr 0])
  qed (simp add: ResolveElf.simps [of xe mbr 0])
next
  case (Suc depth)
  show ?case
  proof (cases "xe_OpenDent xe dent")
    case (Inr g)
    obtain r f where c: "CheckELFLoad (xe_loader xe) mbr \<lparr>jf_file = g, jf_off = 0\<rparr> = Some (r, f)"
      by (rule CheckELFLoad_returns)
    obtain sl where sl: "script_line (xe_loader xe) (snd (jf_Seek (xe_loader xe) 0 f)) = Some sl"
      using script_line_seek [OF assms(1)] by blast
    show ?thesis
    proof (cases r)
      case (Inl e)
      show ?thesis
      proof (cases sl)
        case (Some line)
        let ?tokens = "split_str CHR '' '' (Some 1) 0 line"
        have ok: "ctx_ok (PrependArgs ?tokens ctx)" using PrependArgs_view [OF split_str_nonempty Suc.prems] by blast
        show ?thesis
        proof (cases "xe_Lookup xe (hd ?tokens)")
          case (Inr path)
          have "ResolveElf xe mbr (Suc depth) dent ctx = ResolveElf xe mbr depth path (PrependArgs ?tokens ctx)"
            using c sl Inl Some Inr \<open>xe_OpenDent xe dent = Inr g\<close> by (subst ResolveElf.simps) simp
          then show ?thesis using Suc.IH [OF ok, of path] resolved_script [OF _ Suc.prems] by metis
        qed (use c sl Inl Some \<open>xe_OpenDent xe dent = Inr g\<close> in \<open>simp add: ResolveElf.simps [of xe mbr "Suc depth"]\<close>)
      qed (use c sl Inl \<open>xe_OpenDent xe dent = Inr g\<close> in \<open>simp add: ResolveElf.simps [of xe mbr "Suc depth"]\<close>)
    next
      case (Inr hdr)
      then show ?thesis
        using c \<open>xe_OpenDent xe dent = Inr g\<close> resolved_elf by (auto simp: ResolveElf.simps [of xe mbr "Suc depth"])
    qed
  qed (simp add: ResolveElf.simps [of xe mbr "Suc depth"])
qed

text \<open>A system with one file in memory, a script that names itself as its interpreter.\<close>

definition demo_xe :: exec_env where
  "demo_xe = \<lparr>xe_loader = memfs_env (\<lambda>f. mf_written (str_bytes ''#!/a.sh'')) (mem_env (\<lambda>_. [])),
     xe_Lookup = (\<lambda>path. Inr 0), xe_OpenDent = (\<lambda>dent. Inr 0)\<rparr>"

lemma demo_xe_finite: "finite_files demo_xe"
proof -
  have "program_file (xe_loader demo_xe) f (mf_contents (mf_written (str_bytes ''#!/a.sh'')))" for f
    unfolding demo_xe_def exec_env.simps
    using memfs_program_file [of "\<lambda>f. mf_written (str_bytes ''#!/a.sh'')", OF mf_written_ok] .
  moreover have "env_Seek (xe_loader demo_xe) f off = Inr off" for f off
    by (simp add: demo_xe_def memfs_env_def mem_env_def)
  ultimately show ?thesis unfolding finite_files_def by blast
qed

theorem script_resolution_ends_witness:
  "\<exists>r ctx'. ResolveElf demo_xe False kMaxInterpFollow 0 (empty_ctx [''a.sh'']) = Some (r, ctx')"
  using script_resolution_ends [OF demo_xe_finite, of "empty_ctx [''a.sh'']" False kMaxInterpFollow 0]
  by (auto simp: ctx_ok_def empty_ctx_def)

text \<open>
  A space after the mark of a script makes the name of the interpreter empty, since the line is split at
  the first space.
\<close>

lemma script_leading_space: "hd (split_str CHR '' '' (Some 1) 0 (CHR '' '' # line)) = ''''"
  by (subst split_str.simps) (simp add: Let_def)

section \<open>What loading keeps\<close>

text \<open>
  A relation between the states before and after that every step of a load respects.  It carries over to sequences,
  conditional steps and loops.
\<close>

locale kept =
  fixes R :: "loader \<Rightarrow> loader \<Rightarrow> bool"
  assumes refl: "R s s" and trans: "R s t \<Longrightarrow> R t u \<Longrightarrow> R s u"
begin

lemma return_keeps: "ld_return x s = Some (r, s') \<Longrightarrow> R s s'"
  by (auto simp: ld_return_def refl)

lemma bind_keeps:
  assumes "ld_bind m f s = Some (r, s')" "\<And>r t. m s = Some (r, t) \<Longrightarrow> R s t"
    "\<And>x t r u. f x t = Some (r, u) \<Longrightarrow> R t u"
  shows "R s s'"
  using assms trans by (auto simp: ld_bind_def split: option.splits sum.splits prod.splits)

lemma when_keeps:
  assumes "ld_when c m s = Some (r, s')" "\<And>r t. m s = Some (r, t) \<Longrightarrow> R s t"
  shows "R s s'"
  using assms by (auto simp: ld_when_def return_keeps split: if_splits elim!: bind_keeps)

end

text \<open>The map stays valid, and its kind and the number of non-relocatable maps stay the same.\<close>

definition same_kind :: "loader_env \<Rightarrow> loader \<Rightarrow> loader \<Rightarrow> bool" where
  "same_kind env s s' \<longleftrightarrow>
     (ld_valid env s \<longrightarrow> ld_valid env s') \<and> is_non_reloc (ld_mm s') = is_non_reloc (ld_mm s) \<and>
     ld_nr_non_reloc s' = ld_nr_non_reloc s"

interpretation same: kept "same_kind env" for env
  by unfold_locales (auto simp: same_kind_def)

lemma MM_MMap_inserts:
  "MM_MMap k cfg intr intr2 addr len prot flags f off mm pool = Some (r, mm', pool') \<Longrightarrow>
     mm' = mm \<or> (\<exists>v. mm' = MM_Insert v mm)"
  by (auto simp: MM_MMap_def mmap_finish_def Let_def split: if_splits option.splits sum.splits prod.splits)

lemma ld_MMap_keeps:
  assumes "ld_MMap env addr len prot flags f off s = Some (r, s')"
  shows "same_kind env s s'"
proof -
  obtain mm' pool' where mm: "MM_MMap (env_kernel env) (env_madv_remap env) (env_intr env (ld_calls s))
      (env_intr2 env (ld_calls s)) addr len prot flags f off (ld_mm s) (ld_pool s) = Some (r, mm', pool')"
    and s': "s' = s\<lparr>ld_mm := mm', ld_pool := pool', ld_calls := Suc (ld_calls s)\<rparr>"
    using assms by (auto simp: ld_MMap_def split: option.splits prod.splits)
  show ?thesis
    using MM_MMap_inserts [OF mm] MM_MMap_valid [OF _ _ mm]
    by (auto simp: same_kind_def ld_valid_def s' MM_Insert_def TraceEnabled_def)
qed

lemma ld_MProtect_keeps:
  assumes "ld_MProtect env addr len prot s = Some (r, s')"
  shows "same_kind env s s'"
proof -
  obtain mm' where mm: "MProtect (env_kernel env) (env_intr env (ld_calls s)) addr len prot (ld_mm s) = (r, mm')"
    and s': "s' = s\<lparr>ld_mm := mm', ld_calls := Suc (ld_calls s)\<rparr>"
    using assms by (auto simp: ld_MProtect_def split: prod.splits)
  have "is_non_reloc mm' = is_non_reloc (ld_mm s)"
    using mm by (auto simp: MProtect_def MM_Modify_def AddressToBounds_def split: if_splits sum.splits)
  then show ?thesis
    using MProtect_valid(1) [OF _ _ mm] TraceEnabled_MProtect [OF mm]
    by (auto simp: same_kind_def ld_valid_def s')
qed

lemma MMapAnonymous_keeps: "MMapAnonymous env addr len prot flags s = Some (r, s') \<Longrightarrow> same_kind env s s'"
  by (simp add: MMapAnonymous_def ld_MMap_keeps)

lemma LoadOneSegment_keeps: "LoadOneSegment env f map_off p s = Some (r, s') \<Longrightarrow> same_kind env s s'"
proof -
  have z: "ld_zero a n s = Some (r, s') \<Longrightarrow> same_kind env s s'" for a n s and r :: "unit Status" and s'
    by (auto simp: ld_zero_def same_kind_def ld_valid_def)
  have f: "MMapFixed env f a n q fl off s = Some (r, s') \<Longrightarrow> same_kind env s s'" for a n q fl off s r s'
    by (auto simp: MMapFixed_def ld_MMap_keeps split: if_splits)
  show "LoadOneSegment env f map_off p s = Some (r, s') \<Longrightarrow> same_kind env s s'"
    unfolding LoadOneSegment_def Let_def
    by (elim same.bind_keeps same.when_keeps z f ld_MProtect_keeps MMapAnonymous_keeps)
qed

lemma load_segments_keeps: "load_segments env f map_off ps s = Some (r, s') \<Longrightarrow> same_kind env s s'"
  by (induction ps arbitrary: s r s')
    (auto simp: same.return_keeps split: if_splits elim!: same.bind_keeps LoadOneSegment_keeps)

lemma LoadSegments_keeps: "LoadSegments env f phdrs reloc s = Some (r, s') \<Longrightarrow> same_kind env s s'"
  unfolding LoadSegments_def Let_def
  by (elim same.bind_keeps) (auto intro: same.return_keeps MMapAnonymous_keeps load_segments_keeps split: if_splits)

lemma LoadInterp_keeps: "LoadInterp env path s = Some (r, s') \<Longrightarrow> same_kind env s s'"
  unfolding LoadInterp_def Let_def
  by (auto intro: same.refl LoadSegments_keeps same.return_keeps split: sum.splits option.splits prod.splits if_splits
      elim!: same.bind_keeps)

lemma load_interp_of_keeps: "load_interp_of env phdrs f s = Some (r, s') \<Longrightarrow> same_kind env s s'"
  unfolding load_interp_of_def
  by (auto intro: same.refl LoadInterp_keeps same.return_keeps split: option.splits sum.splits prod.splits
      elim!: same.bind_keeps)

interpretation valid: kept "\<lambda>s s'. ld_valid env s \<longrightarrow> ld_valid env s'" for env
  by unfold_locales auto

lemma same_kind_valid: "same_kind env s s' \<Longrightarrow> ld_valid env s \<longrightarrow> ld_valid env s'"
  by (simp add: same_kind_def)

lemma mark_non_reloc_valid: "mark_non_reloc s = Some (r, s') \<Longrightarrow> ld_valid env s \<longrightarrow> ld_valid env s'"
  by (auto simp: mark_non_reloc_def ld_valid_def TraceEnabled_def split: if_splits)

lemma DoELFLoad_valid:
  assumes "DoELFLoad env hdr f s = Some (r, s')"
  shows "ld_valid env s \<longrightarrow> ld_valid env s'"
proof (cases "\<exists>phdrs f'. ReadPHDRs env hdr f = Some (Inr phdrs, f')")
  case True
  then obtain phdrs f' where ph: "ReadPHDRs env hdr f = Some (Inr phdrs, f')" by blast
  have mark: "ld_valid env t \<longrightarrow> ld_valid env u"
    if "(if eh_type hdr = kETypeDynamic then ld_return () else mark_non_reloc) t = Some (q, u)" for t q u
    using that mark_non_reloc_valid [of t q u] valid.return_keeps [of "()" t q u] by (auto split: if_splits)
  have fin: "ld_valid env t \<longrightarrow> ld_valid env u" if "(case p of None \<Rightarrow> (\<lambda>_. None) | Some x \<Rightarrow> ld_return (g x)) t = Some (q, u)"
    for p :: "elf_phdr option" and g :: "elf_phdr \<Rightarrow> elf_data" and t q u
    using that by (auto simp: ld_return_def split: option.splits)
  show ?thesis
    using assms unfolding DoELFLoad_def ph option.case prod.case sum.case
    by (elim valid.bind_keeps same_kind_valid [OF load_interp_of_keeps] same_kind_valid [OF LoadSegments_keeps] mark)
      (auto elim!: fin [rule_format] split: prod.splits)
next
  case False
  then show ?thesis
    using assms by (auto simp: DoELFLoad_def split: option.splits sum.splits prod.splits)
qed

text \<open>Loading marks the map of a program that is not relocatable, and counts it.\<close>

lemma DoELFLoad_kind:
  assumes "DoELFLoad env hdr f s = Some (Inr edata, s')"
  shows "if eh_type hdr = kETypeDynamic
       then is_non_reloc (ld_mm s') = is_non_reloc (ld_mm s) \<and> ld_nr_non_reloc s' = ld_nr_non_reloc s
       else \<not> is_non_reloc (ld_mm s) \<and> is_non_reloc (ld_mm s') \<and> ld_nr_non_reloc s' = ld_nr_non_reloc s + 1"
proof -
  obtain phdrs f' where ph: "ReadPHDRs env hdr f = Some (Inr phdrs, f')"
    using assms by (auto simp: DoELFLoad_def split: option.splits sum.splits prod.splits)
  obtain interp t1 t2 base len t3 where r1: "load_interp_of env phdrs f' s = Some (Inr interp, t1)"
    and r2: "(if eh_type hdr = kETypeDynamic then ld_return () else mark_non_reloc) t1 = Some (Inr (), t2)"
    and r3: "LoadSegments env f' phdrs (eh_type hdr = kETypeDynamic) t2 = Some (Inr (base, len), t3)" and "s' = t3"
    using assms unfolding DoELFLoad_def ph
    by (auto simp: ld_bind_ok ld_return_def split: option.splits if_splits)
  then show ?thesis
    using load_interp_of_keeps [OF r1] LoadSegments_keeps [OF r3]
    by (auto simp: same_kind_def ld_return_def mark_non_reloc_def split: if_splits)
qed

section \<open>The stack of a new program\<close>

lemma kStackSize_aligned: "IsPageAligned kStackSize" "PageAlign kStackSize = kStackSize"
    "PageAlign (kStackSize + kStackSize) = kStackSize + kStackSize"
  by (simp_all add: kStackSize_def page_eval)

text \<open>
  A program that was started has a stack of sixteen megabytes that can be read and written, and below it as
  many bytes that cannot be accessed.  If its arguments fit, everything the stack was prepared with lies in it.
\<close>

theorem exec_stack_guarded:
  assumes run: "FinishExec env random edx ctx envp s = Some (Inr (sp, entry, cmd), s')" and valid: "ld_valid env s"
  shows "\<exists>guard. unat guard + 2 * unat kStackSize \<le> 2 ^ 47 \<and>
    (\<forall>x. guard \<le> x \<and> x < guard + kStackSize \<longrightarrow> ld_view s' x = Some (PROT_NONE, False, kNormal, None)) \<and>
    (\<forall>x. guard + kStackSize \<le> x \<and> x < guard + kStackSize + kStackSize \<longrightarrow>
         ld_view s' x = Some (PROT_READ OR PROT_WRITE, False, kStack, None)) \<and>
    (stack_len (get_argv_view ctx) envp \<le> unat kStackSize \<longrightarrow>
       guard + kStackSize \<le> sp \<and> sp < guard + kStackSize + kStackSize)"
proof -
  obtain edata t guard u b v where r1: "DoELFLoad env (ctx_hdr ctx) (ctx_file ctx) s = Some (Inr edata, t)"
    and r2: "MMapAnonymous env 0 (kStackSize + kStackSize) PROT_NONE 0 t = Some (Inr guard, u)"
    and r3: "MMapAnonymous env (guard + kStackSize) kStackSize (PROT_READ OR PROT_WRITE) (MAP_FIXED OR MAP_STACK) u
        = Some (Inr b, v)"
    and r4: "(let (sp, m') = SetupStack random edx (get_argv_view ctx) envp edata (guard + kStackSize + kStackSize) (ld_mem v)
       in ld_return (sp,
            case ed_interp edata of Some i \<Rightarrow> id_entry_addr i | None \<Rightarrow> ed_entry_addr edata,
            cmd_line_of (get_argv_view ctx)) (v\<lparr>ld_mem := m'\<rparr>)) = Some (Inr (sp, entry, cmd), s')"
    using run unfolding FinishExec_def ld_bind_ok by blast
  obtain m' where st: "SetupStack random edx (get_argv_view ctx) envp edata (guard + kStackSize + kStackSize) (ld_mem v)
        = (sp, m')" and s': "ld_mm s' = ld_mm v"
    using r4 by (cases "SetupStack random edx (get_argv_view ctx) envp edata (guard + kStackSize + kStackSize) (ld_mem v)")
      (auto simp: ld_return_def)
  note R = reservation [OF DoELFLoad_valid [OF r1, rule_format, OF valid] r2, unfolded kStackSize_aligned]
  have fl: "((MAP_FIXED OR MAP_STACK) OR (MAP_PRIVATE OR MAP_ANONYMOUS)) AND MAP_FIXED \<noteq> 0"
    "((((MAP_FIXED OR MAP_STACK) OR (MAP_PRIVATE OR MAP_ANONYMOUS)) AND NOT MAP_POPULATE) AND MAP_ANONYMOUS) \<noteq> 0"
    "((((MAP_FIXED OR MAP_STACK) OR (MAP_PRIVATE OR MAP_ANONYMOUS)) AND NOT MAP_POPULATE) AND MAP_STACK) \<noteq> 0"
    by (simp_all add: mm_consts)
  note F = ld_MMap_fixed [OF R(1) fl(1) r3 [unfolded MMapAnonymous_def], unfolded kStackSize_aligned]
  have view: "ld_view s' = (\<lambda>x. if guard + kStackSize \<le> x \<and> x < guard + kStackSize + kStackSize
      then Some (PROT_READ OR PROT_WRITE, False, kStack, None) else ld_view u x)"
    using F fl by (auto simp: ld_view_def s' mmap_area_def VMArea_anon_def vma_obs_def fun_eq_iff split: sum.splits)
  have K: "unat (kStackSize + kStackSize) = 2 * unat kStackSize" "unat kStackSize = 0x1000000"
    by (simp_all add: kStackSize_def)
  have g: "unat guard + 2 * unat kStackSize \<le> 2 ^ 47" using R(3) K by simp
  have g1: "unat (guard + kStackSize) = unat guard + unat kStackSize"
    using g K(2) by (intro unat_add_no_wrap) simp
  have g2: "unat (guard + kStackSize + kStackSize) = unat guard + 2 * unat kStackSize"
    using g g1 K(2) by (subst unat_add_no_wrap) simp_all
  have low: "ld_view s' x = Some (PROT_NONE, False, kNormal, None)" if "guard \<le> x \<and> x < guard + kStackSize" for x
  proof -
    have "x < guard + (kStackSize + kStackSize)" "\<not> guard + kStackSize \<le> x"
      using that g1 g2 by (simp_all add: word_less_nat_alt word_le_nat_alt add.assoc)
    then show ?thesis using that by (simp add: view R(4))
  qed
  have "guard + kStackSize \<le> sp \<and> sp < guard + kStackSize + kStackSize"
    if "stack_len (get_argv_view ctx) envp \<le> unat kStackSize"
  proof -
    let ?L = "stack_len (get_argv_view ctx) envp"
    have pos: "0 < ?L" using stack_len_bounds(1) [of "get_argv_view ctx" envp] by (simp add: stack_need_def)
    have "base = guard + kStackSize + kStackSize - of_nat ?L"
      if "SetupStack random edx (get_argv_view ctx) envp edata (guard + kStackSize + kStackSize) (ld_mem v) = (base, m')" for base m'
      using SetupStack_steps [OF _ that] \<open>?L \<le> unat kStackSize\<close> K(2) by auto
    then have "sp = guard + kStackSize + kStackSize - of_nat ?L" using st by blast
    moreover have "unat (of_nat ?L :: u64) = ?L" using that K(2) by (simp add: unat_of_nat take_bit_nat_eq_self)
    ultimately have "unat sp = unat guard + 2 * unat kStackSize - ?L"
      using g2 that by (simp add: unat_sub word_le_nat_alt)
    then show ?thesis using g1 g2 that pos by (simp add: word_less_nat_alt word_le_nat_alt)
  qed
  then show ?thesis using g low view by (intro exI [of _ guard]) simp
qed

section \<open>Outcomes of a replacement\<close>

lemma FinishExec_kind:
  assumes "FinishExec env random edx ctx envp s = Some (Inr q, s')"
  shows "if eh_type (ctx_hdr ctx) = kETypeDynamic
       then is_non_reloc (ld_mm s') = is_non_reloc (ld_mm s) \<and> ld_nr_non_reloc s' = ld_nr_non_reloc s
       else \<not> is_non_reloc (ld_mm s) \<and> is_non_reloc (ld_mm s') \<and> ld_nr_non_reloc s' = ld_nr_non_reloc s + 1"
proof -
  obtain edata t guard u b v where r1: "DoELFLoad env (ctx_hdr ctx) (ctx_file ctx) s = Some (Inr edata, t)"
    and r2: "MMapAnonymous env 0 (kStackSize + kStackSize) PROT_NONE 0 t = Some (Inr guard, u)"
    and r3: "MMapAnonymous env (guard + kStackSize) kStackSize (PROT_READ OR PROT_WRITE) (MAP_FIXED OR MAP_STACK) u
        = Some (Inr b, v)"
    and r4: "(let (sp, m') = SetupStack random edx (get_argv_view ctx) envp edata (guard + kStackSize + kStackSize) (ld_mem v)
       in ld_return (sp,
            case ed_interp edata of Some i \<Rightarrow> id_entry_addr i | None \<Rightarrow> ed_entry_addr edata,
            cmd_line_of (get_argv_view ctx)) (v\<lparr>ld_mem := m'\<rparr>)) = Some (Inr q, s')"
    using assms unfolding FinishExec_def ld_bind_ok by blast
  have "same_kind env t v" using MMapAnonymous_keeps [OF r2] MMapAnonymous_keeps [OF r3] by (rule same.trans)
  moreover have "is_non_reloc (ld_mm s') = is_non_reloc (ld_mm v)" "ld_nr_non_reloc s' = ld_nr_non_reloc v"
    using r4 by (auto simp: ld_return_def split: prod.splits)
  ultimately show ?thesis using DoELFLoad_kind [OF r1] by (simp add: same_kind_def)
qed

lemma drop_map_fields [simp]:
  "ld_mm (drop_map mm s) = ld_mm s"
  "ld_nr_non_reloc (drop_map mm s) = (if is_non_reloc mm then ld_nr_non_reloc s - 1 else ld_nr_non_reloc s)"
  by (auto simp: drop_map_def DestroyMemoryMap_def Let_def split: prod.splits)

lemma UnmapAll_kind: "UnmapAll mm pool = (mm', pool') \<Longrightarrow> is_non_reloc mm' = is_non_reloc mm"
  by (auto simp: UnmapAll_def)

lemma CreateMemoryMap_kind: "CreateMemoryMap k len pool = Some (Inr mm, pool') \<Longrightarrow> \<not> is_non_reloc mm"
  by (auto simp: CreateMemoryMap_def MemoryMap_new_def split: option.splits sum.splits prod.splits if_splits)

lemma ResolveElf_reloc:
  "ResolveElf xe True depth dent ctx = Some (Inr (), ctx') \<Longrightarrow> eh_type (ctx_hdr ctx') = kETypeDynamic"
proof (induction depth arbitrary: dent ctx)
  case 0
  then show ?case
    by (subst (asm) ResolveElf.simps)
      (auto split: sum.splits option.splits prod.splits dest!: CheckELFLoad_result(2) [OF _ refl])
next
  case (Suc depth)
  from Suc.prems show ?case
    by (subst (asm) ResolveElf.simps)
      (auto split: sum.splits option.splits prod.splits simp: Let_def
        dest!: CheckELFLoad_result(2) [OF _ refl] dest: Suc.IH)
qed

text \<open>How a call of \<open>DoExecve\<close> goes.\<close>

lemma exec_finish_cases:
  assumes "exec_finish env random edx in_vfork replace ctx envp mm s = Some (outcome, evs, s')"
  obtains (fail) e where "\<not> replace" "outcome = ExecError e" "evs = []" "ld_mm s' = ld_mm s"
  | (exit) "replace" "outcome = ExecExit" "evs = [KillThreadsAndWait, ResetRseq, UnmapOld]"
  | (start) sp entry c t u q old where "outcome = ExecStart sp entry" "ctx_hdr c = ctx_hdr ctx"
      "FinishExec env random edx c envp t = Some (Inr q, u)" "ld_mm t = mm" "ld_nr_non_reloc t = ld_nr_non_reloc s"
      "is_non_reloc old = is_non_reloc (ld_mm s)" "s' = (if in_vfork then u else drop_map old u)"
      "evs = (if replace then [KillThreadsAndWait, ResetRseq, UnmapOld] else []) @ [ResetRseq, ProcFinishExec, ThreadOnExec]"
proof -
  obtain old pool where up: "(if replace then UnmapAll (ld_mm s) (ld_pool s) else (ld_mm s, ld_pool s)) = (old, pool)"
    by fastforce
  have old: "is_non_reloc old = is_non_reloc (ld_mm s)" "\<not> replace \<Longrightarrow> old = ld_mm s"
    using up UnmapAll_kind by (auto split: if_splits)
  let ?c = "if replace then TakeArgvOwnership ctx else ctx" and ?t = "s\<lparr>ld_mm := mm, ld_pool := pool\<rparr>"
  obtain fr u where f: "FinishExec env random edx ?c envp ?t = Some (fr, u)"
    using assms by (cases "FinishExec env random edx ?c envp ?t") (auto simp: exec_finish_def up)
  show thesis
  proof (cases fr)
    case (Inl e)
    then show thesis
      using assms f old(2) up fail [of e] exit by (cases replace) (auto simp: exec_finish_def Let_def)
  next
    case (Inr q)
    obtain sp entry cmd where q: "q = (sp, entry, cmd)" by (metis prod_cases3)
    have "outcome = ExecStart sp entry" "s' = (if in_vfork then u else drop_map old u)"
      "evs = (if replace then [KillThreadsAndWait, ResetRseq, UnmapOld] else []) @ [ResetRseq, ProcFinishExec, ThreadOnExec]"
      using assms f by (simp_all add: exec_finish_def up Inr q)
    then show thesis using start [of sp entry ?c ?t q u old] f old(1) by (simp add: Inr TakeArgvOwnership_def)
  qed
qed

lemma DoExecve_cases:
  assumes "DoExecve xe random edx in_vfork dent argv envp s = Some (outcome, evs, s')"
  obtains (early) e where "outcome = ExecError e" "evs = []" "ld_mm s' = ld_mm s"
  | (late) mm ctx s1 where "\<not> is_non_reloc mm" "ld_mm s1 = ld_mm s" "ld_nr_non_reloc s1 = ld_nr_non_reloc s"
      "ResolveElf xe (exec_must_be_reloc in_vfork s) kMaxInterpFollow dent (empty_ctx argv) = Some (Inr (), ctx)"
      "exec_finish (xe_loader xe) random edx in_vfork (is_non_reloc (ld_mm s) \<and> eh_type (ctx_hdr ctx) \<noteq> kETypeDynamic)
         ctx envp mm s1 = Some (outcome, evs, s')"
proof -
  obtain cr pool1 where c: "CreateMemoryMap (env_kernel (xe_loader xe)) kMemoryMappingSize (ld_pool s) = Some (cr, pool1)"
    using assms by (auto simp: DoExecve_def split: option.splits)
  show thesis
  proof (cases cr)
    case (Inl e)
    then show thesis using assms c by (intro early [of e]) (auto simp: DoExecve_def)
  next
    case (Inr mm)
    have mm: "\<not> is_non_reloc mm" using CreateMemoryMap_kind c Inr by blast
    obtain rr ctx where r: "ResolveElf xe (exec_must_be_reloc in_vfork s) kMaxInterpFollow dent (empty_ctx argv) = Some (rr, ctx)"
      using assms c Inr by (auto simp: DoExecve_def split: option.splits)
    show thesis
    proof (cases rr)
      case (Inl e)
      then show thesis using assms c r \<open>cr = Inr mm\<close> by (intro early [of e]) (auto simp: DoExecve_def)
    next
      case (Inr x)
      then show thesis
        using assms c r \<open>cr = Inr mm\<close> mm by (intro late [of mm "s\<lparr>ld_pool := pool1\<rparr>" ctx]) (auto simp: DoExecve_def)
    qed
  qed
qed

text \<open>
  C39: A replacement that fails returns its error to a caller whose memory map, threads and restartable sequence are
  untouched.  When the caller's memory has already been given up, because one non-relocatable program replaces another, a
  failure ends the process instead; and the memory is given up only after the other threads were stopped and
  the restartable sequence was reset.
\<close>

theorem failed_exec_keeps_caller:
  assumes "DoExecve xe random edx in_vfork dent argv envp s = Some (outcome, evs, s')"
  shows "case outcome of
      ExecError e \<Rightarrow> evs = [] \<and> ld_mm s' = ld_mm s
    | ExecExit \<Rightarrow> is_non_reloc (ld_mm s) \<and> evs = [KillThreadsAndWait, ResetRseq, UnmapOld]
    | ExecStart sp entry \<Rightarrow>
        evs = [ResetRseq, ProcFinishExec, ThreadOnExec] \<or>
        is_non_reloc (ld_mm s) \<and> is_non_reloc (ld_mm s') \<and>
          evs = [KillThreadsAndWait, ResetRseq, UnmapOld, ResetRseq, ProcFinishExec, ThreadOnExec]"
  using assms
proof (cases rule: DoExecve_cases)
  case (late mm ctx s1)
  from late(5) show ?thesis
  proof (cases rule: exec_finish_cases)
    case (start sp entry c t u q old)
    have "is_non_reloc (ld_mm u)" if "eh_type (ctx_hdr ctx) \<noteq> kETypeDynamic"
      using FinishExec_kind [OF start(3)] that start(2) by simp
    then show ?thesis using start(1,7,8) by auto
  qed (use late(2) in auto)
qed simp

text \<open>
  No two non-relocatable programs exist at the same time.  A program that is not relocatable is started only if
  there was none before, or if the only one was the caller's, whose memory is not shared with a parent; afterwards it is
  the only one.
\<close>

theorem one_non_relocatable_program:
  assumes "DoExecve xe random edx in_vfork dent argv envp s = Some (ExecStart sp entry, evs, s')"
    and "is_non_reloc (ld_mm s) \<longrightarrow> ld_nr_non_reloc s \<noteq> 0" and "is_non_reloc (ld_mm s')"
  shows "ld_nr_non_reloc s = (if is_non_reloc (ld_mm s) \<and> \<not> in_vfork then 1 else 0) \<and> ld_nr_non_reloc s' = 1"
  using assms(1)
proof (cases rule: DoExecve_cases)
  case (late mm ctx s1)
  from late(5) show ?thesis
  proof (cases rule: exec_finish_cases)
    case (start sp entry c t u q old)
    note K = FinishExec_kind [OF start(3), unfolded start(2,4)]
    have "ld_mm s' = ld_mm u" using start(7) by simp
    then have dyn: "eh_type (ctx_hdr ctx) \<noteq> kETypeDynamic" using K late(1) assms(3) by auto
    then have "\<not> exec_must_be_reloc in_vfork s" using ResolveElf_reloc late(4) by metis
    then have nr: "ld_nr_non_reloc s = (if is_non_reloc (ld_mm s) \<and> \<not> in_vfork then 1 else 0)"
      using assms(2) by (auto simp: exec_must_be_reloc_def word_gt_0 split: if_splits)
    have "ld_nr_non_reloc u = ld_nr_non_reloc s + 1" using K dyn start(5) late(3) by simp
    then have "ld_nr_non_reloc s' = 1" using start(6,7) late(2) nr assms(2) by auto
    then show ?thesis using nr by blast
  qed simp_all
qed simp

section \<open>A run\<close>

text \<open>A non-relocatable program of one segment, at \<open>0x400000\<close>, and a system in which every path leads to it.\<close>

definition demo_elf :: "byte list" where
  "demo_elf = [0x7f, 0x45, 0x4c, 0x46, 2, 1, 1, 0, 0, 0, 0, 0, 0, 0, 0, 0,
     2, 0, 62, 0, 1, 0, 0, 0, 0, 1, 0x40, 0, 0, 0, 0, 0,
     64, 0, 0, 0, 0, 0, 0, 0, 0, 0, 0, 0, 0, 0, 0, 0,
     0, 0, 0, 0, 64, 0, 56, 0, 1, 0, 0, 0, 0, 0, 0, 0,
     1, 0, 0, 0, 5, 0, 0, 0, 0, 0, 0, 0, 0, 0, 0, 0,
     0, 0, 0x40, 0, 0, 0, 0, 0, 0, 0, 0, 0, 0, 0, 0, 0,
     0, 0x10, 0, 0, 0, 0, 0, 0, 0, 0x10, 0, 0, 0, 0, 0, 0,
     0, 0x10, 0, 0, 0, 0, 0, 0]"

definition elf_xe :: exec_env where
  "elf_xe = \<lparr>xe_loader = mem_env (\<lambda>_. demo_elf), xe_Lookup = (\<lambda>path. Inr 0), xe_OpenDent = (\<lambda>dent. Inr 0)\<rparr>"

interpretation elf_file: program_file "mem_env (\<lambda>_. demo_elf)" 0 demo_elf
  by unfold_locales (simp_all add: mem_env_def Let_def demo_elf_def min_def)

lemma demo_header:
  "ReadHeader (mem_env (\<lambda>_. demo_elf)) \<lparr>jf_file = 0, jf_off = 0\<rparr> =
     Some (Inr (elf_header_of (take 64 demo_elf)), \<lparr>jf_file = 0, jf_off = 64\<rparr>)"
  by (subst elf_file.ReadHeader_decodes)
    (simp_all add: HeaderIsValid_def elf_header_of_def le_at_def demo_elf_def elf_header_size_def elf_phdr_size_def)

lemma demo_header_fields:
  "eh_type (elf_header_of (take 64 demo_elf)) = kETypeExec" "eh_phnum (elf_header_of (take 64 demo_elf)) = 1"
  "eh_phoff (elf_header_of (take 64 demo_elf)) = 64" "eh_entry (elf_header_of (take 64 demo_elf)) = 0x400100"
  by (simp_all add: elf_header_of_def le_at_def demo_elf_def kETypeExec_def)

lemma demo_phdrs:
  "ReadPHDRs (mem_env (\<lambda>_. demo_elf)) (elf_header_of (take 64 demo_elf)) \<lparr>jf_file = 0, jf_off = 64\<rparr> =
     Some (Inr [demo_phdr 0x400000 0x1000 0x1000], \<lparr>jf_file = 0, jf_off = 120\<rparr>)"
  using elf_file.read_full [of 64 56]
  apply (simp add: ReadPHDRs_def jf_Seek_def demo_header_fields elf_phdr_size_def mem_env_def)
  apply (simp add: demo_elf_def elf_phdr_of_def le_at_def phdr_valid_def has_single_bit_def demo_phdr_def kPTypeLoad_def)
  done

lemma demo_resolve:
  "ResolveElf elf_xe False kMaxInterpFollow 0 (empty_ctx argv) =
     Some (Inr (), \<lparr>ctx_file = \<lparr>jf_file = 0, jf_off = 64\<rparr>, ctx_hdr = elf_header_of (take 64 demo_elf), argv_own = [],
       argv_view = argv\<rparr>)"
  by (subst ResolveElf.simps) (simp add: elf_xe_def CheckELFLoad_def demo_header demo_header_fields empty_ctx_def
     kETypeExec_def kETypeDynamic_def)

text \<open>The caller runs a non-relocatable program; the new program gets the highest free part of the address space.\<close>

definition demo_caller :: loader where
  "demo_caller = \<lparr>ld_mm = (MemoryMap_new 0x10000 0x100000)\<lparr>is_non_reloc := True\<rparr>, ld_pool = [], ld_mem = (\<lambda>_. 0),
     ld_nr_non_reloc = 1, ld_calls = 0\<rparr>"

definition demo_new :: loader where
  "demo_new = \<lparr>ld_mm = MemoryMap_new 0x4FF000000000 kMemoryMappingSize,
     ld_pool = [(0x500000000000, simple_iv 0x4FF000000000 0x500000000000)],
     ld_mem = (\<lambda>_. 0), ld_nr_non_reloc = 1, ld_calls = 0\<rparr>"

lemma demo_create:
  "CreateMemoryMap demo_kernel kMemoryMappingSize [] = Some (Inr (ld_mm demo_new), ld_pool demo_new)"
  by (simp add: CreateMemoryMap_def AllocateMMRegion_def kMemoryMappingSize_def demo_new_def kVirtualAreaMax_def
      FindFreeRange_def demo_eval mm_consts KernelMMap_def insert_eval Let_def simple_iv_def simple_ops_def)

lemmas run_eval = load_eval FindPHDRByType_def load_interp_of_def mark_non_reloc_def kMemoryMappingSize_def kStackSize_def

definition demo_ctx :: ExecContext where
  "demo_ctx = \<lparr>ctx_file = \<lparr>jf_file = 0, jf_off = 64\<rparr>, ctx_hdr = elf_header_of (take 64 demo_elf), argv_own = [''p''],
     argv_view = []\<rparr>"

definition demo_loaded :: loader where
  "demo_loaded = demo_new\<lparr>ld_mm := (ld_mm demo_new)\<lparr>is_non_reloc := True, vmareas :=
       [(0x401000, \<lparr>va_start = 0x400000, va_end = 0x401000, va_prot = 5, va_traced = False, va_type = kFile,
           va_file = Some 0, va_offset = 0\<rparr>)]\<rparr>,
     ld_nr_non_reloc := 2, ld_calls := 1\<rparr>"

lemma demo_DoELFLoad:
  "DoELFLoad (mem_env (\<lambda>_. demo_elf)) (ctx_hdr demo_ctx) (ctx_file demo_ctx) demo_new =
     Some (Inr \<lparr>ed_map_base = 0, ed_map_len = 0x401000, ed_entry_addr = 0x400100, ed_phdr_addr = 0x400040,
       ed_phdr_num = 1, ed_phdr_entsz = 56, ed_interp = None\<rparr>, demo_loaded)"
  by (simp add: DoELFLoad_def demo_ctx_def demo_phdrs demo_header_fields kETypeExec_def kETypeDynamic_def)
    (simp add: run_eval demo_new_def kPTypeInterp_def kPTypeSelf_def demo_loaded_def demo_elf_def elf_header_of_def le_at_def)

lemma demo_finish:
  "\<exists>sp s'. FinishExec (mem_env (\<lambda>_. demo_elf)) None 0 demo_ctx [] demo_new = Some (Inr (sp, 0x400100, ''p'' @ [CHR 0x00]), s')"
  apply (simp add: FinishExec_def ld_bind_def demo_DoELFLoad)
  apply (simp add: run_eval demo_loaded_def demo_new_def)
  by (simp add: demo_ctx_def get_argv_view_def cmd_line_of_def split: prod.split)

theorem exec_stack_guarded_witness:
  "\<exists>guard sp s'. FinishExec (mem_env (\<lambda>_. demo_elf)) None 0 demo_ctx [] demo_new =
       Some (Inr (sp, 0x400100, ''p'' @ [CHR 0x00]), s') \<and>
     ld_view s' guard = Some (PROT_NONE, False, kNormal, None) \<and>
     ld_view s' (guard + kStackSize) = Some (PROT_READ OR PROT_WRITE, False, kStack, None) \<and>
     guard + kStackSize \<le> sp \<and> sp < guard + kStackSize + kStackSize"
proof -
  obtain sp s' where run: "FinishExec (mem_env (\<lambda>_. demo_elf)) None 0 demo_ctx [] demo_new =
      Some (Inr (sp, 0x400100, ''p'' @ [CHR 0x00]), s')"
    using demo_finish by blast
  have valid: "ld_valid (mem_env (\<lambda>_. demo_elf)) demo_new"
    by (simp add: ld_valid_def mem_env_def demo_kernel_ok demo_new_def MemoryMap_new_def MappingsValid_def TraceEnabled_def)
  obtain guard where G: "unat guard + 2 * unat kStackSize \<le> 2 ^ 47"
    "\<forall>x. guard \<le> x \<and> x < guard + kStackSize \<longrightarrow> ld_view s' x = Some (PROT_NONE, False, kNormal, None)"
    "\<forall>x. guard + kStackSize \<le> x \<and> x < guard + kStackSize + kStackSize \<longrightarrow>
         ld_view s' x = Some (PROT_READ OR PROT_WRITE, False, kStack, None)"
    "stack_len (get_argv_view demo_ctx) [] \<le> unat kStackSize \<longrightarrow>
       guard + kStackSize \<le> sp \<and> sp < guard + kStackSize + kStackSize"
    using exec_stack_guarded [OF run valid] by blast
  have K: "unat kStackSize = 0x1000000" by (simp add: kStackSize_def)
  have g1: "unat (guard + kStackSize) = unat guard + unat kStackSize"
    using G(1) K by (intro unat_add_no_wrap) simp
  have g2: "unat (guard + kStackSize + kStackSize) = unat guard + 2 * unat kStackSize"
    using G(1) g1 K by (subst unat_add_no_wrap) simp_all
  have "stack_len (get_argv_view demo_ctx) [] \<le> unat kStackSize"
    using stack_len_bounds(2) [of "get_argv_view demo_ctx" "[]"]
    by (simp add: K stack_need_def get_argv_view_def demo_ctx_def kNumAuxVectors_def)
  moreover have "ld_view s' guard = Some (PROT_NONE, False, kNormal, None)"
    using G(2) g1 K by (simp add: word_less_nat_alt word_le_nat_alt)
  moreover have "ld_view s' (guard + kStackSize) = Some (PROT_READ OR PROT_WRITE, False, kStack, None)"
    using G(3) g1 g2 K by (simp add: word_less_nat_alt word_le_nat_alt)
  ultimately show ?thesis using run G(4) by blast
qed

lemma demo_execve:
  "\<exists>sp s'. DoExecve elf_xe None 0 False 0 [''p''] [] demo_caller = Some (ExecStart sp 0x400100,
     [KillThreadsAndWait, ResetRseq, UnmapOld, ResetRseq, ProcFinishExec, ThreadOnExec], s') \<and> is_non_reloc (ld_mm s')"
proof -
  obtain sp s' where f: "FinishExec (mem_env (\<lambda>_. demo_elf)) None 0 demo_ctx [] demo_new =
      Some (Inr (sp, 0x400100, ''p'' @ [CHR 0x00]), s')"
    using demo_finish by blast
  then have kind: "is_non_reloc (ld_mm s')"
    using FinishExec_kind [OF f] by (simp add: demo_ctx_def demo_header_fields kETypeExec_def kETypeDynamic_def)
  from f have "exec_finish (mem_env (\<lambda>_. demo_elf)) None 0 False True
      \<lparr>ctx_file = \<lparr>jf_file = 0, jf_off = 64\<rparr>, ctx_hdr = elf_header_of (take 64 demo_elf), argv_own = [], argv_view = [''p'']\<rparr>
      [] (ld_mm demo_new) (demo_caller\<lparr>ld_pool := ld_pool demo_new\<rparr>) = 
      Some (ExecStart sp 0x400100, [KillThreadsAndWait, ResetRseq, UnmapOld, ResetRseq, ProcFinishExec, ThreadOnExec],
        drop_map (ld_mm demo_caller) s')"
    by (simp add: exec_finish_def TakeArgvOwnership_def demo_ctx_def demo_caller_def demo_new_def UnmapAll_def
        MemoryMap_new_def Let_def)
  moreover have "exec_must_be_reloc False demo_caller = False" "is_non_reloc (ld_mm demo_caller)" "ld_pool demo_caller = []"
    "env_kernel (xe_loader elf_xe) = demo_kernel" "xe_loader elf_xe = mem_env (\<lambda>_. demo_elf)"
    by (simp_all add: exec_must_be_reloc_def demo_caller_def elf_xe_def mem_env_def)
  ultimately show ?thesis
    using kind by (simp add: DoExecve_def demo_create demo_resolve demo_header_fields kETypeExec_def kETypeDynamic_def)
qed

theorem failed_exec_keeps_caller_witness:
  "\<exists>sp s'. DoExecve elf_xe None 0 False 0 [''p''] [] demo_caller = Some (ExecStart sp 0x400100,
       [KillThreadsAndWait, ResetRseq, UnmapOld, ResetRseq, ProcFinishExec, ThreadOnExec], s') \<and>
     is_non_reloc (ld_mm demo_caller) \<and> is_non_reloc (ld_mm s')"
  using demo_execve failed_exec_keeps_caller [of elf_xe None 0 False 0 "[''p'']" "[]" demo_caller] by fastforce

theorem one_non_relocatable_program_witness:
  "\<exists>sp s'. DoExecve elf_xe None 0 False 0 [''p''] [] demo_caller = Some (ExecStart sp 0x400100,
       [KillThreadsAndWait, ResetRseq, UnmapOld, ResetRseq, ProcFinishExec, ThreadOnExec], s') \<and>
     ld_nr_non_reloc demo_caller = 1 \<and> ld_nr_non_reloc s' = 1"
proof -
  obtain sp s' where run: "DoExecve elf_xe None 0 False 0 [''p''] [] demo_caller = Some (ExecStart sp 0x400100,
       [KillThreadsAndWait, ResetRseq, UnmapOld, ResetRseq, ProcFinishExec, ThreadOnExec], s')" and "is_non_reloc (ld_mm s')"
    using demo_execve by blast
  moreover have "is_non_reloc (ld_mm demo_caller) \<longrightarrow> ld_nr_non_reloc demo_caller \<noteq> 0" by (simp add: demo_caller_def)
  ultimately show ?thesis using one_non_relocatable_program [OF run] by (auto simp: demo_caller_def)
qed

end
