(* ===== verification/FileIo.thy ===== *)
theory FileIo
  imports FileTable MemFile AdvisoryLock
begin

text \<open>
  Open files and the system calls that transfer data through descriptors (\<^verbatim>\<open>src/junction/fs/file.h\<close>,
  \<^verbatim>\<open>src/junction/fs/file.cc\<close>, \<^verbatim>\<open>src/junction/fs/memfs/memfsfile.h\<close>).

  An open file is a record; the virtual methods of its class are a record of functions on a state \<open>'w\<close> that
  belongs to the files' objects.  The result \<open>None\<close> of a method means that it does not return: it sleeps, or its
  behaviour is undefined.  The methods of files in memory, of directories and of the stub files are given;
  regular files in memory are shown to implement what the manual pages say as long as no offset lies past the end.
\<close>

section \<open>Open files\<close>

datatype FileType = kNormal | kDirectory | kSocket | kSpecial | kSymlink | kInotify | kSignalFd | kPath

datatype FileMode = kRead | kWrite | kReadWrite

definition ToFlags :: "FileMode \<Rightarrow> u32" where
  "ToFlags mode = (case mode of kRead \<Rightarrow> 0 | kWrite \<Rightarrow> 1 | kReadWrite \<Rightarrow> 2)"

record File =
  fl_type :: FileType
  fl_flags :: u32
  fl_mode :: FileMode
  fl_off :: u64
  fl_ino :: "nat option"

definition is_readable :: "File \<Rightarrow> bool" where
  "is_readable f \<longleftrightarrow> fl_mode f \<noteq> kWrite"

definition is_writeable :: "File \<Rightarrow> bool" where
  "is_writeable f \<longleftrightarrow> fl_mode f \<noteq> kRead"

definition is_nonblocking :: "File \<Rightarrow> bool" where
  "is_nonblocking f \<longleftrightarrow> fl_flags f AND kFlagNonblock \<noteq> 0"

record dir_entry =
  de_name :: string
  de_inum :: u64
  de_type :: u32

type_synonym ('r, 'w) vmethod = "'w \<Rightarrow> ('r Status \<times> 'w) option"

text \<open>
  A read returns the bytes and the new offset, a write the count and the new offset.  \<open>v_Dents\<close> are the entries of a
  directory, \<open>v_OnIoctl\<close> is \<open>None\<close> if the class leaves a request to the base class.
\<close>

record 'w vtable =
  v_Read :: "File \<Rightarrow> nat \<Rightarrow> u64 \<Rightarrow> (byte list \<times> u64, 'w) vmethod"
  v_Readv :: "File \<Rightarrow> nat list \<Rightarrow> u64 \<Rightarrow> (byte list \<times> u64, 'w) vmethod"
  v_Write :: "File \<Rightarrow> byte list \<Rightarrow> u64 \<Rightarrow> (nat \<times> u64, 'w) vmethod"
  v_Writev :: "File \<Rightarrow> byte list list \<Rightarrow> u64 \<Rightarrow> (nat \<times> u64, 'w) vmethod"
  v_Seek :: "File \<Rightarrow> u64 \<Rightarrow> int \<Rightarrow> 'w \<Rightarrow> u64 Status"
  v_Sync :: "File \<Rightarrow> (unit, 'w) vmethod"
  v_SetSize :: "nat \<Rightarrow> u64 \<Rightarrow> (unit, 'w) vmethod"
  v_Dents :: "File \<Rightarrow> 'w \<Rightarrow> dir_entry list option"
  v_size :: "File \<Rightarrow> 'w \<Rightarrow> u64"
  v_input_bytes :: "File \<Rightarrow> 'w \<Rightarrow> nat Status"
  v_OnIoctl :: "File \<Rightarrow> nat \<Rightarrow> u32 \<Rightarrow> 'w \<Rightarrow> (int Status \<times> u32 \<times> 'w) option"

subsection \<open>Vectored transfers\<close>

text \<open>The defaults: one transfer per entry that is not empty, until one fails or is short.\<close>

fun writev_loop :: "(byte list \<Rightarrow> u64 \<Rightarrow> (nat \<times> u64, 'w) vmethod) \<Rightarrow> byte list list \<Rightarrow> nat \<Rightarrow> nat \<Rightarrow> u64
    \<Rightarrow> (nat \<times> u64, 'w) vmethod" where
  "writev_loop wr [] total_bytes ret off w = Some (Inr (if total_bytes \<noteq> 0 then total_bytes else ret, off), w)"
| "writev_loop wr (v # vs) total_bytes ret off w =
     (if v = [] then writev_loop wr vs total_bytes ret off w
      else case wr v off w of
          None \<Rightarrow> None
        | Some (Inl e, w') \<Rightarrow> Some (if total_bytes \<noteq> 0 then Inr (total_bytes, off) else Inl e, w')
        | Some (Inr (n, off'), w') \<Rightarrow>
            if n < length v then Some (Inr (if total_bytes + n \<noteq> 0 then total_bytes + n else n, off'), w')
            else writev_loop wr vs (total_bytes + n) n off' w')"

definition File_Writev :: "(byte list \<Rightarrow> u64 \<Rightarrow> (nat \<times> u64, 'w) vmethod) \<Rightarrow> byte list list \<Rightarrow> u64
    \<Rightarrow> (nat \<times> u64, 'w) vmethod" where
  "File_Writev wr vec off = writev_loop wr vec 0 0 off"

text \<open>A file that may block is read once only.\<close>

fun readv_loop :: "(nat \<Rightarrow> u64 \<Rightarrow> (byte list \<times> u64, 'w) vmethod) \<Rightarrow> bool \<Rightarrow> nat list \<Rightarrow> byte list \<Rightarrow> u64
    \<Rightarrow> (byte list \<times> u64, 'w) vmethod" where
  "readv_loop rd nonblocking [] acc off w = Some (Inr (acc, off), w)"
| "readv_loop rd nonblocking (n # ns) acc off w =
     (if n = 0 then readv_loop rd nonblocking ns acc off w
      else case rd n off w of
          None \<Rightarrow> None
        | Some (Inl e, w') \<Rightarrow> Some (if acc \<noteq> [] then Inr (acc, off) else Inl e, w')
        | Some (Inr (bs, off'), w') \<Rightarrow>
            if \<not> nonblocking \<or> length bs < n then Some (Inr (acc @ bs, off'), w')
            else readv_loop rd nonblocking ns (acc @ bs) off' w')"

definition File_Readv :: "(nat \<Rightarrow> u64 \<Rightarrow> (byte list \<times> u64, 'w) vmethod) \<Rightarrow> bool \<Rightarrow> nat list \<Rightarrow> u64
    \<Rightarrow> (byte list \<times> u64, 'w) vmethod" where
  "File_Readv rd nonblocking vec off = readv_loop rd nonblocking vec [] off"

subsection \<open>Seeking\<close>

definition SEEK_SET :: int where "SEEK_SET = 0"
definition SEEK_CUR :: int where "SEEK_CUR = 1"
definition SEEK_END :: int where "SEEK_END = 2"

definition SeekableFile_Seek :: "u64 \<Rightarrow> File \<Rightarrow> u64 \<Rightarrow> int \<Rightarrow> u64 Status" where
  "SeekableFile_Seek sz f off origin =
     (if origin = SEEK_SET then Inr off
      else if origin = SEEK_CUR then Inr (fl_off f + off)
      else if origin = SEEK_END then Inr (sz + off)
      else Inl EINVAL)"

subsection \<open>Directory records\<close>

definition put_at :: "nat \<Rightarrow> byte list \<Rightarrow> byte list \<Rightarrow> byte list" where
  "put_at k bs buf = take k buf @ bs @ drop (k + length bs) buf"

definition name_bytes :: "string \<Rightarrow> byte list" where
  "name_bytes s = map (\<lambda>c. of_nat (of_char c)) s @ [0]"

definition dent_size :: "dir_entry \<Rightarrow> nat" where
  "dent_size ent = (24 + length (de_name ent) + 1 + 7) div 8 * 8"

text \<open>The padding keeps what was in the buffer.  \<open>None\<close> means that the record does not fit.\<close>

definition DirentToDent64 :: "dir_entry \<Rightarrow> byte list \<Rightarrow> u64 \<Rightarrow> (nat \<times> byte list) option" where
  "DirentToDent64 ent dirp off =
     (let ent_size = dent_size ent in
      if ent_size > length dirp then None
      else Some (ent_size,
        put_at 19 (name_bytes (de_name ent))
          (put_at 18 [ucast (drop_bit 12 (de_type ent))]
            (put_at 8 (le_enc 8 (unat off))
              (put_at 16 (le_enc 2 ent_size)
                (put_at 0 (le_enc 8 (unat (de_inum ent))) dirp))))))"

definition DirentToDent :: "dir_entry \<Rightarrow> byte list \<Rightarrow> u64 \<Rightarrow> (nat \<times> byte list) option" where
  "DirentToDent ent dirp off =
     (let ent_size = dent_size ent in
      if ent_size > length dirp then None
      else Some (ent_size,
        put_at (ent_size - 1) [ucast (drop_bit 12 (de_type ent))]
          (put_at 18 (name_bytes (de_name ent))
            (put_at 8 (le_enc 8 (unat off))
              (put_at 16 (le_enc 2 ent_size)
                (put_at 0 (le_enc 8 (unat (de_inum ent))) dirp))))))"

fun dirent_loop :: "(dir_entry \<Rightarrow> byte list \<Rightarrow> u64 \<Rightarrow> (nat \<times> byte list) option) \<Rightarrow> dir_entry list \<Rightarrow> u64
    \<Rightarrow> byte list \<Rightarrow> byte list \<Rightarrow> nat Status \<times> u64 \<times> byte list" where
  "dirent_loop func [] off pre out = (Inr (length pre), off, pre @ out)"
| "dirent_loop func (e # es) off pre out =
     (case func e out off of
        None \<Rightarrow> (if pre = [] then Inl EINVAL else Inr (length pre), off, pre @ out)
      | Some (sz, out') \<Rightarrow> dirent_loop func es (off + 1) (pre @ take sz out') (drop sz out'))"

definition DoDirent :: "(dir_entry \<Rightarrow> byte list \<Rightarrow> u64 \<Rightarrow> (nat \<times> byte list) option) \<Rightarrow> dir_entry list \<Rightarrow> u64
    \<Rightarrow> byte list \<Rightarrow> nat Status \<times> u64 \<times> byte list" where
  "DoDirent func ents off dirp = dirent_loop func (drop (unat off) ents) off [] dirp"

section \<open>System calls\<close>

text \<open>The descriptor table, the open files, the state of their objects and the record locks of the inodes.\<close>

record 'w io_state =
  io_tbl :: FileTable
  io_files :: "nat \<Rightarrow> File"
  io_world :: 'w
  io_locks :: AdvisoryLockMap

definition set_off :: "nat \<Rightarrow> u64 \<Rightarrow> 'w io_state \<Rightarrow> 'w io_state" where
  "set_off f off s = s\<lparr>io_files := (io_files s)(f := (io_files s f)\<lparr>fl_off := off\<rparr>)\<rparr>"

definition file_for :: "(File \<Rightarrow> bool) \<Rightarrow> int \<Rightarrow> 'w io_state \<Rightarrow> nat option" where
  "file_for ok fd s =
     (case ft_Get fd (io_tbl s) of None \<Rightarrow> None | Some f \<Rightarrow> if ok (io_files s f) then Some f else None)"

text \<open>The value of a call; \<open>upd\<close> stores the new offset, in the file or nowhere.\<close>

definition ret_bytes :: "(u64 \<Rightarrow> 'w io_state \<Rightarrow> 'w io_state) \<Rightarrow> 'w io_state \<Rightarrow> ((byte list \<times> u64) Status \<times> 'w) option
    \<Rightarrow> (int \<times> byte list \<times> 'w io_state) option" where
  "ret_bytes upd s r =
     (case r of
        None \<Rightarrow> None
      | Some (Inl e, w) \<Rightarrow> Some (MakeCError e, [], s\<lparr>io_world := w\<rparr>)
      | Some (Inr (bs, off), w) \<Rightarrow> Some (int (length bs), bs, upd off (s\<lparr>io_world := w\<rparr>)))"

definition ret_count :: "(u64 \<Rightarrow> 'w io_state \<Rightarrow> 'w io_state) \<Rightarrow> 'w io_state \<Rightarrow> ((nat \<times> u64) Status \<times> 'w) option
    \<Rightarrow> (int \<times> 'w io_state) option" where
  "ret_count upd s r =
     (case r of
        None \<Rightarrow> None
      | Some (Inl e, w) \<Rightarrow> Some (MakeCError e, s\<lparr>io_world := w\<rparr>)
      | Some (Inr (n, off), w) \<Rightarrow> Some (int n, upd off (s\<lparr>io_world := w\<rparr>)))"

definition usys_ftruncate :: "'w vtable \<Rightarrow> int \<Rightarrow> u64 \<Rightarrow> 'w io_state \<Rightarrow> (int \<times> 'w io_state) option" where
  "usys_ftruncate vt fd len s =
     (case ft_Get fd (io_tbl s) of
        None \<Rightarrow> Some (- EBADF, s)
      | Some f \<Rightarrow>
          (case fl_ino (io_files s f) of
             None \<Rightarrow> Some (MakeCError EINVAL, s)
           | Some ino \<Rightarrow>
               (case v_SetSize vt ino len (io_world s) of
                  None \<Rightarrow> None
                | Some (Inl e, w) \<Rightarrow> Some (MakeCError e, s\<lparr>io_world := w\<rparr>)
                | Some (Inr _, w) \<Rightarrow> Some (0, s\<lparr>io_world := w\<rparr>))))"

definition usys_read :: "'w vtable \<Rightarrow> int \<Rightarrow> nat \<Rightarrow> 'w io_state \<Rightarrow> (int \<times> byte list \<times> 'w io_state) option" where
  "usys_read vt fd len s =
     (case file_for is_readable fd s of
        None \<Rightarrow> Some (- EBADF, [], s)
      | Some f \<Rightarrow> ret_bytes (set_off f) s (v_Read vt (io_files s f) len (fl_off (io_files s f)) (io_world s)))"

text \<open>The count of entries is not checked by \<open>readv\<close> and \<open>preadv\<close>; a negative one makes a span of enormous length.\<close>

definition usys_readv :: "'w vtable \<Rightarrow> int \<Rightarrow> nat list \<Rightarrow> int \<Rightarrow> 'w io_state \<Rightarrow> (int \<times> byte list \<times> 'w io_state) option" where
  "usys_readv vt fd iov iovcnt s =
     (case file_for is_readable fd s of
        None \<Rightarrow> Some (- EBADF, [], s)
      | Some f \<Rightarrow>
          if iovcnt < 0 then None
          else ret_bytes (set_off f) s
            (v_Readv vt (io_files s f) (take (nat iovcnt) iov) (fl_off (io_files s f)) (io_world s)))"

definition usys_write :: "'w vtable \<Rightarrow> int \<Rightarrow> byte list \<Rightarrow> 'w io_state \<Rightarrow> (int \<times> 'w io_state) option" where
  "usys_write vt fd buf s =
     (case file_for is_writeable fd s of
        None \<Rightarrow> Some (- EBADF, s)
      | Some f \<Rightarrow> ret_count (set_off f) s (v_Write vt (io_files s f) buf (fl_off (io_files s f)) (io_world s)))"

definition usys_pread64 :: "'w vtable \<Rightarrow> int \<Rightarrow> nat \<Rightarrow> u64 \<Rightarrow> 'w io_state \<Rightarrow> (int \<times> byte list \<times> 'w io_state) option" where
  "usys_pread64 vt fd len offset s =
     (case file_for is_readable fd s of
        None \<Rightarrow> Some (- EBADF, [], s)
      | Some f \<Rightarrow> ret_bytes (\<lambda>_ s. s) s (v_Read vt (io_files s f) len offset (io_world s)))"

definition usys_preadv :: "'w vtable \<Rightarrow> int \<Rightarrow> nat list \<Rightarrow> int \<Rightarrow> u64 \<Rightarrow> 'w io_state
    \<Rightarrow> (int \<times> byte list \<times> 'w io_state) option" where
  "usys_preadv vt fd iov iovcnt offset s =
     (case file_for is_readable fd s of
        None \<Rightarrow> Some (- EBADF, [], s)
      | Some f \<Rightarrow>
          if iovcnt < 0 then None
          else ret_bytes (\<lambda>_ s. s) s (v_Readv vt (io_files s f) (take (nat iovcnt) iov) offset (io_world s)))"

definition usys_writev :: "'w vtable \<Rightarrow> int \<Rightarrow> byte list list \<Rightarrow> int \<Rightarrow> 'w io_state \<Rightarrow> (int \<times> 'w io_state) option" where
  "usys_writev vt fd iov iovcnt s =
     (if iovcnt \<le> 0 then Some (- EINVAL, s)
      else case file_for is_writeable fd s of
          None \<Rightarrow> Some (- EBADF, s)
        | Some f \<Rightarrow> ret_count (set_off f) s
            (v_Writev vt (io_files s f) (take (nat iovcnt) iov) (fl_off (io_files s f)) (io_world s)))"

text \<open>\<open>pwritev2\<close> ignores its flags.\<close>

definition usys_pwritev :: "'w vtable \<Rightarrow> int \<Rightarrow> byte list list \<Rightarrow> int \<Rightarrow> u64 \<Rightarrow> 'w io_state \<Rightarrow> (int \<times> 'w io_state) option" where
  "usys_pwritev vt fd iov iovcnt offset s =
     (if iovcnt \<le> 0 then Some (- EINVAL, s)
      else case file_for is_writeable fd s of
          None \<Rightarrow> Some (- EBADF, s)
        | Some f \<Rightarrow> ret_count (\<lambda>_ s. s) s (v_Writev vt (io_files s f) (take (nat iovcnt) iov) offset (io_world s)))"

definition usys_pwrite64 :: "'w vtable \<Rightarrow> int \<Rightarrow> byte list \<Rightarrow> u64 \<Rightarrow> 'w io_state \<Rightarrow> (int \<times> 'w io_state) option" where
  "usys_pwrite64 vt fd buf offset s =
     (case file_for is_writeable fd s of
        None \<Rightarrow> Some (- EBADF, s)
      | Some f \<Rightarrow> ret_count (\<lambda>_ s. s) s (v_Write vt (io_files s f) buf offset (io_world s)))"

text \<open>The buffer has the requested size and is zero where the read left it; all of it is written.\<close>

definition usys_sendfile :: "'w vtable \<Rightarrow> int \<Rightarrow> int \<Rightarrow> u64 option \<Rightarrow> nat \<Rightarrow> 'w io_state
    \<Rightarrow> (int \<times> u64 option \<times> 'w io_state) option" where
  "usys_sendfile vt out_fd in_fd offset count s =
     (case file_for is_writeable out_fd s of
        None \<Rightarrow> Some (- EBADF, offset, s)
      | Some fout \<Rightarrow>
          (case file_for (\<lambda>f. is_readable f \<and> fl_type f \<noteq> kSocket) in_fd s of
             None \<Rightarrow> Some (- EBADF, offset, s)
           | Some fin \<Rightarrow>
               (let off = (case offset of None \<Rightarrow> fl_off (io_files s fin) | Some x \<Rightarrow> x) in
                case v_Read vt (io_files s fin) count off (io_world s) of
                  None \<Rightarrow> None
                | Some (Inl e, w) \<Rightarrow> Some (MakeCError e, offset, s\<lparr>io_world := w\<rparr>)
                | Some (Inr (bs, off'), w) \<Rightarrow>
                    (let s1 = (if offset = None then set_off fin off' (s\<lparr>io_world := w\<rparr>) else s\<lparr>io_world := w\<rparr>);
                         buf = bs @ replicate (count - length bs) 0
                     in map_option (\<lambda>(r, s2). (r, map_option (\<lambda>_. off') offset, s2))
                          (ret_count (set_off fout) s1
                            (v_Write vt (io_files s1 fout) buf (fl_off (io_files s1 fout)) (io_world s1)))))))"

definition usys_lseek :: "'w vtable \<Rightarrow> int \<Rightarrow> u64 \<Rightarrow> int \<Rightarrow> 'w io_state \<Rightarrow> int \<times> 'w io_state" where
  "usys_lseek vt fd offset whence s =
     (case ft_Get fd (io_tbl s) of
        None \<Rightarrow> (- EBADF, s)
      | Some f \<Rightarrow>
          (case v_Seek vt (io_files s f) offset whence (io_world s) of
             Inl e \<Rightarrow> (MakeCError e, s)
           | Inr off \<Rightarrow> (sint off, set_off f off s)))"

definition usys_fsync :: "'w vtable \<Rightarrow> int \<Rightarrow> 'w io_state \<Rightarrow> (int \<times> 'w io_state) option" where
  "usys_fsync vt fd s =
     (case ft_Get fd (io_tbl s) of
        None \<Rightarrow> Some (- EBADF, s)
      | Some f \<Rightarrow>
          (case v_Sync vt (io_files s f) (io_world s) of
             None \<Rightarrow> None
           | Some (Inl e, w) \<Rightarrow> Some (MakeCError e, s\<lparr>io_world := w\<rparr>)
           | Some (Inr _, w) \<Rightarrow> Some (0, s\<lparr>io_world := w\<rparr>)))"

text \<open>\<open>getdents\<close> and \<open>getdents64\<close> differ in the record format only.  The buffer is returned with its new contents.\<close>

definition do_getdents :: "(dir_entry \<Rightarrow> byte list \<Rightarrow> u64 \<Rightarrow> (nat \<times> byte list) option) \<Rightarrow> 'w vtable \<Rightarrow> int \<Rightarrow> byte list
    \<Rightarrow> 'w io_state \<Rightarrow> int \<times> byte list \<times> 'w io_state" where
  "do_getdents func vt fd dirp s =
     (case ft_Get fd (io_tbl s) of
        None \<Rightarrow> (- EBADF, dirp, s)
      | Some f \<Rightarrow>
          (case v_Dents vt (io_files s f) (io_world s) of
             None \<Rightarrow> (MakeCError ENOTDIR, dirp, s)
           | Some ents \<Rightarrow>
               (case DoDirent func ents (fl_off (io_files s f)) dirp of
                  (Inl e, off, buf) \<Rightarrow> (MakeCError e, buf, set_off f off s)
                | (Inr n, off, buf) \<Rightarrow> (int n, buf, set_off f off s))))"

definition usys_getdents :: "'w vtable \<Rightarrow> int \<Rightarrow> byte list \<Rightarrow> 'w io_state \<Rightarrow> int \<times> byte list \<times> 'w io_state" where
  "usys_getdents = do_getdents DirentToDent"

definition usys_getdents64 :: "'w vtable \<Rightarrow> int \<Rightarrow> byte list \<Rightarrow> 'w io_state \<Rightarrow> int \<times> byte list \<times> 'w io_state" where
  "usys_getdents64 = do_getdents DirentToDent64"

definition F_DUPFD :: int where "F_DUPFD = 0"
definition F_GETFD :: int where "F_GETFD = 1"
definition F_SETFD :: int where "F_SETFD = 2"
definition F_GETFL :: int where "F_GETFL = 3"
definition F_SETFL :: int where "F_SETFL = 4"
definition F_SETOWN :: int where "F_SETOWN = 8"
definition F_GETOWN :: int where "F_GETOWN = 9"
definition F_DUPFD_CLOEXEC :: int where "F_DUPFD_CLOEXEC = 1030"
definition O_PATH :: u32 where "O_PATH = 0x200000"

definition set_flags :: "nat \<Rightarrow> u32 \<Rightarrow> 'w io_state \<Rightarrow> 'w io_state" where
  "set_flags f flags s = s\<lparr>io_files := (io_files s)(f := (io_files s f)\<lparr>fl_flags := flags\<rparr>)\<rparr>"

text \<open>
  \<open>arg\<close> is the third argument as a number and \<open>fl\<close> the lock it points to for the lock commands; the lock that those
  report is returned.
\<close>

definition usys_fcntl :: "'w vtable \<Rightarrow> int \<Rightarrow> bool \<Rightarrow> int \<Rightarrow> int \<Rightarrow> u64 \<Rightarrow> flock \<Rightarrow> 'w io_state
    \<Rightarrow> (int \<times> flock \<times> 'w io_state) option" where
  "usys_fcntl vt pid interrupted fd cmd arg fl s =
     (case ft_Get fd (io_tbl s) of
        None \<Rightarrow> Some (- EBADF, fl, s)
      | Some f \<Rightarrow>
          if cmd = F_SETOWN \<or> cmd = F_GETOWN then Some (0, fl, s)
          else if cmd = F_DUPFD_CLOEXEC \<or> cmd = F_DUPFD then
            (case ft_Dup fd (io_tbl s) of
               None \<Rightarrow> Some (- EBADF, fl, s)
             | Some fdup \<Rightarrow>
                 (case ft_Insert fdup (cmd = F_DUPFD_CLOEXEC) (unat arg) (io_tbl s) of
                    (nfd, t) \<Rightarrow> Some (int nfd, fl, s\<lparr>io_tbl := t\<rparr>)))
          else if cmd = F_GETFD then Some (if TestCloseOnExec (to_size fd) (io_tbl s) then 1 else 0, fl, s)
          else if cmd = F_SETFD then
            (if arg = 1 then Some (0, fl, s\<lparr>io_tbl := SetCloseOnExec (to_size fd) (io_tbl s)\<rparr>)
             else if arg = 0 then Some (0, fl, s\<lparr>io_tbl := ClearCloseOnExec (to_size fd) (io_tbl s)\<rparr>)
             else Some (- EINVAL, fl, s))
          else if cmd = F_GETFL then
            Some (sint ((ToFlags (fl_mode (io_files s f)) OR fl_flags (io_files s f)) OR
                  (if fl_type (io_files s f) = kPath then O_PATH else 0)), fl, s)
          else if cmd = F_SETFL then
            Some (0, fl, set_flags f ((fl_flags (io_files s f) AND NOT kFlagNonblock) OR (ucast arg AND kFlagNonblock)) s)
          else if cmd = F_SETLK \<or> cmd = F_SETLKW \<or> cmd = F_GETLK then
            (case fl_ino (io_files s f) of
               None \<Rightarrow> Some (- EINVAL, fl, s)
             | Some ino \<Rightarrow>
                 (case GetCtx ino (io_locks s) of
                    (ctx, locks) \<Rightarrow>
                      (case DoFlocks cmd fl interrupted (sint (fl_off (io_files s f)))
                              (uint (v_size vt (io_files s f) (io_world s))) pid ctx of
                         None \<Rightarrow> None
                       | Some FlocksWait \<Rightarrow> None
                       | Some (FlocksRet r fl' ctx') \<Rightarrow> Some (r, fl', s\<lparr>io_locks := locks(ino \<mapsto> ctx')\<rparr>))))
          else Some (- EINVAL, fl, s))"

definition FIOCLEX :: nat where "FIOCLEX = 0x5451"
definition FIONCLEX :: nat where "FIONCLEX = 0x5450"
definition FIOASYNC :: nat where "FIOASYNC = 0x5452"
definition FIONREAD :: nat where "FIONREAD = 0x541B"
definition FIONBIO :: nat where "FIONBIO = 0x5421"
definition TCGETS :: nat where "TCGETS = 0x5401"
definition TIOCGPGRP :: nat where "TIOCGPGRP = 0x540F"

text \<open>\<open>arg\<close> is the integer at the address given to \<open>ioctl\<close>, before and after.\<close>

definition File_Ioctl :: "'w vtable \<Rightarrow> nat \<Rightarrow> nat \<Rightarrow> u32 \<Rightarrow> 'w io_state \<Rightarrow> int Status \<times> u32 \<times> 'w io_state" where
  "File_Ioctl vt f request arg s =
     (case v_OnIoctl vt (io_files s f) request arg (io_world s) of
        Some (r, arg', w) \<Rightarrow> (r, arg', s\<lparr>io_world := w\<rparr>)
      | None \<Rightarrow>
          if request = FIOASYNC then (Inr 0, arg, s)
          else if request = TCGETS \<or> request = TIOCGPGRP then (Inl ENOTTY, arg, s)
          else if request = FIONREAD then
            (case v_input_bytes vt (io_files s f) (io_world s) of
               Inl e \<Rightarrow> (Inl e, arg, s)
             | Inr n \<Rightarrow> (Inr 0, of_nat n, s))
          else if request = FIONBIO then
            (Inr 0, arg, if arg \<noteq> 0 then set_flags f (fl_flags (io_files s f) OR kFlagNonblock) s
               else set_flags f (fl_flags (io_files s f) AND NOT kFlagNonblock) s)
          else (Inl EINVAL, arg, s))"

definition usys_ioctl :: "'w vtable \<Rightarrow> int \<Rightarrow> nat \<Rightarrow> u32 \<Rightarrow> 'w io_state \<Rightarrow> int \<times> u32 \<times> 'w io_state" where
  "usys_ioctl vt fd request arg s =
     (case ft_Get fd (io_tbl s) of
        None \<Rightarrow> (- EBADF, arg, s)
      | Some f \<Rightarrow>
          if request = FIOCLEX then (0, arg, s\<lparr>io_tbl := SetCloseOnExec (to_size fd) (io_tbl s)\<rparr>)
          else if request = FIONCLEX then (0, arg, s\<lparr>io_tbl := ClearCloseOnExec (to_size fd) (io_tbl s)\<rparr>)
          else case File_Ioctl vt f request arg s of
              (Inl e, arg', s') \<Rightarrow> (MakeCError e, arg', s')
            | (Inr r, arg', s') \<Rightarrow> (r, arg', s'))"

subsection \<open>Stub files\<close>

definition NothingFile :: "FileType \<Rightarrow> u32 \<Rightarrow> File" where
  "NothingFile type flags = \<lparr>fl_type = type, fl_flags = flags, fl_mode = kReadWrite, fl_off = 0, fl_ino = None\<rparr>"

text \<open>A blocking read returns only when a signal ends it.\<close>

definition Nothing_Read :: "File \<Rightarrow> (byte list \<times> u64) Status" where
  "Nothing_Read f = (if is_nonblocking f then Inl EAGAIN else Inl EINTR)"

text \<open>\<open>f\<close> is the new object.\<close>

definition new_file :: "nat \<Rightarrow> File \<Rightarrow> bool \<Rightarrow> 'w io_state \<Rightarrow> int \<times> 'w io_state" where
  "new_file f obj cloexec s =
     (case ft_Insert f cloexec 0 (io_tbl s) of
        (fd, t) \<Rightarrow> (int fd, s\<lparr>io_tbl := t, io_files := (io_files s)(f := obj)\<rparr>))"

definition usys_inotify_init1 :: "nat \<Rightarrow> u32 \<Rightarrow> 'w io_state \<Rightarrow> int \<times> 'w io_state" where
  "usys_inotify_init1 f flags s =
     new_file f (NothingFile kInotify (flags AND kFlagNonblock)) (flags AND kFlagCloseExec \<noteq> 0) s"

definition usys_signalfd4 :: "nat \<Rightarrow> int \<Rightarrow> nat \<Rightarrow> 'w io_state \<Rightarrow> int \<times> 'w io_state" where
  "usys_signalfd4 f fd masksize s =
     (if masksize \<noteq> 8 then (- EINVAL, s)
      else if fd = -1 then new_file f (NothingFile kSignalFd 0) False s
      else case ft_Get fd (io_tbl s) of
          None \<Rightarrow> (- EBADF, s)
        | Some g \<Rightarrow> if fl_type (io_files s g) \<noteq> kSignalFd then (- EBADF, s) else (0, s))"

subsection \<open>Files in memory\<close>

record mem_world =
  mw_inodes :: "nat \<Rightarrow> MemInode"
  mw_dirs :: "nat \<Rightarrow> dir_entry list"

definition mw_put :: "nat \<Rightarrow> MemInode \<Rightarrow> mem_world \<Rightarrow> mem_world" where
  "mw_put ino I w = w\<lparr>mw_inodes := (mw_inodes w)(ino := I)\<rparr>"

text \<open>The methods by class: regular files, stubs, and the defaults of the base class.\<close>

definition mem_Read :: "File \<Rightarrow> nat \<Rightarrow> u64 \<Rightarrow> (byte list \<times> u64, mem_world) vmethod" where
  "mem_Read f n off w =
     (if fl_type f = kNormal then
        (case fl_ino f of
           None \<Rightarrow> None
         | Some ino \<Rightarrow> map_option (\<lambda>r. (Inr r, w)) (mf_Read (of_nat n) off (mw_inodes w ino)))
      else if fl_type f = kInotify \<or> fl_type f = kSignalFd then Some (Nothing_Read f, w)
      else Some (Inl EINVAL, w))"

definition mem_Write :: "File \<Rightarrow> byte list \<Rightarrow> u64 \<Rightarrow> (nat \<times> u64, mem_world) vmethod" where
  "mem_Write f buf off w =
     (if fl_type f = kNormal then
        (case fl_ino f of
           None \<Rightarrow> None
         | Some ino \<Rightarrow>
             (case mf_Write buf off (mw_inodes w ino) of
                (Inl e, I) \<Rightarrow> Some (Inl e, mw_put ino I w)
              | (Inr (n, off'), I) \<Rightarrow> Some (Inr (unat n, off'), mw_put ino I w)))
      else Some (Inl EINVAL, w))"

definition mem_size :: "File \<Rightarrow> mem_world \<Rightarrow> u64" where
  "mem_size f w = (case fl_ino f of None \<Rightarrow> 0 | Some ino \<Rightarrow> if fl_type f = kNormal then mi_size (mw_inodes w ino) else 0)"

definition mem_vtable :: "mem_world vtable" where
  "mem_vtable = \<lparr>v_Read = mem_Read, v_Readv = (\<lambda>f. File_Readv (mem_Read f) (is_nonblocking f)),
     v_Write = mem_Write, v_Writev = (\<lambda>f. File_Writev (mem_Write f)),
     v_Seek = (\<lambda>f off origin w. if fl_type f = kNormal then SeekableFile_Seek (mem_size f w) f off origin else Inl ESPIPE),
     v_Sync = (\<lambda>f w. Some (Inr (), w)),
     v_SetSize = (\<lambda>ino len w. case mf_SetSize len (mw_inodes w ino) of (r, I) \<Rightarrow> Some (r, mw_put ino I w)),
     v_Dents = (\<lambda>f w. if fl_type f = kDirectory then map_option (mw_dirs w) (fl_ino f) else None),
     v_size = mem_size, v_input_bytes = (\<lambda>f w. Inl EINVAL), v_OnIoctl = (\<lambda>f request arg w. None)\<rparr>"

section \<open>What regular files promise\<close>

text \<open>
  The state that the manual pages speak of: descriptors refer to open files, an open file has a mode, an inode and an offset, an
  inode has bytes.  Modes and inodes of open files do not change.
\<close>

record posix =
  px_fd :: "nat \<Rightarrow> nat option"
  px_off :: "nat \<Rightarrow> nat"
  px_data :: "nat \<Rightarrow> byte list"

datatype io_call = CRead nat nat | CWrite nat "byte list" | CPread nat nat nat | CPwrite nat "byte list" nat
  | CSeek nat int int | CDup nat | CTruncate nat nat

definition overwrite :: "byte list \<Rightarrow> nat \<Rightarrow> byte list \<Rightarrow> byte list" where
  "overwrite c k bs = take k c @ bs @ drop (k + length bs) c"

definition px_get :: "(nat \<Rightarrow> File) \<Rightarrow> (File \<Rightarrow> bool) \<Rightarrow> nat \<Rightarrow> posix \<Rightarrow> (nat \<times> nat) option" where
  "px_get fs ok fd p =
     (case px_fd p fd of None \<Rightarrow> None | Some f \<Rightarrow> if ok (fs f) then Some (f, the (fl_ino (fs f))) else None)"

definition px_base :: "nat \<Rightarrow> nat \<Rightarrow> int \<Rightarrow> posix \<Rightarrow> int" where
  "px_base f i whence p =
     (if whence = SEEK_SET then 0 else if whence = SEEK_CUR then int (px_off p f) else int (length (px_data p i)))"

fun px_call :: "(nat \<Rightarrow> File) \<Rightarrow> io_call \<Rightarrow> posix \<Rightarrow> int \<times> byte list \<times> posix" where
  "px_call fs (CRead fd n) p =
     (case px_get fs is_readable fd p of
        None \<Rightarrow> (- EBADF, [], p)
      | Some (f, i) \<Rightarrow>
          (let bs = take n (drop (px_off p f) (px_data p i))
           in (int (length bs), bs, p\<lparr>px_off := (px_off p)(f := px_off p f + length bs)\<rparr>)))"
| "px_call fs (CWrite fd bs) p =
     (case px_get fs is_writeable fd p of
        None \<Rightarrow> (- EBADF, [], p)
      | Some (f, i) \<Rightarrow>
          (int (length bs), [], p\<lparr>px_off := (px_off p)(f := px_off p f + length bs),
             px_data := (px_data p)(i := overwrite (px_data p i) (px_off p f) bs)\<rparr>))"
| "px_call fs (CPread fd n off) p =
     (case px_get fs is_readable fd p of
        None \<Rightarrow> (- EBADF, [], p)
      | Some (f, i) \<Rightarrow> (let bs = take n (drop off (px_data p i)) in (int (length bs), bs, p)))"
| "px_call fs (CPwrite fd bs off) p =
     (case px_get fs is_writeable fd p of
        None \<Rightarrow> (- EBADF, [], p)
      | Some (f, i) \<Rightarrow> (int (length bs), [], p\<lparr>px_data := (px_data p)(i := overwrite (px_data p i) off bs)\<rparr>))"
| "px_call fs (CSeek fd off whence) p =
     (case px_get fs (\<lambda>_. True) fd p of
        None \<Rightarrow> (- EBADF, [], p)
      | Some (f, i) \<Rightarrow>
          (px_base f i whence p + off, [], p\<lparr>px_off := (px_off p)(f := nat (px_base f i whence p + off))\<rparr>))"
| "px_call fs (CDup fd) p =
     (case px_fd p fd of
        None \<Rightarrow> (- EBADF, [], p)
      | Some f \<Rightarrow> (let new = (LEAST k. px_fd p k = None) in (int new, [], p\<lparr>px_fd := (px_fd p)(new := Some f)\<rparr>)))"
| "px_call fs (CTruncate fd len) p =
     (case px_get fs (\<lambda>_. True) fd p of
        None \<Rightarrow> (- EBADF, [], p)
      | Some (f, i) \<Rightarrow> (0, [], p\<lparr>px_data := (px_data p)(i := take len (px_data p i))\<rparr>))"

text \<open>
  The calls for which the implementation agrees: transfers start inside the file or at its end and stay below the largest
  size \<open>lim\<close>, offsets stay non-negative, and files are not extended by truncation.
\<close>

definition px_legal :: "(nat \<Rightarrow> File) \<Rightarrow> nat \<Rightarrow> io_call \<Rightarrow> posix \<Rightarrow> bool" where
  "px_legal fs lim c p \<longleftrightarrow>
     (case c of
        CRead fd n \<Rightarrow> fd < 2 ^ 31 \<and> n < 2 ^ 64 \<and>
          (case px_get fs is_readable fd p of None \<Rightarrow> True | Some (f, i) \<Rightarrow> px_off p f \<le> length (px_data p i))
      | CWrite fd bs \<Rightarrow> fd < 2 ^ 31 \<and>
          (case px_get fs is_writeable fd p of None \<Rightarrow> True
           | Some (f, i) \<Rightarrow> px_off p f \<le> length (px_data p i) \<and> px_off p f < lim \<and> px_off p f + length bs \<le> lim)
      | CPread fd n off \<Rightarrow> fd < 2 ^ 31 \<and> n < 2 ^ 64 \<and>
          (case px_get fs is_readable fd p of None \<Rightarrow> True | Some (f, i) \<Rightarrow> off \<le> length (px_data p i))
      | CPwrite fd bs off \<Rightarrow> fd < 2 ^ 31 \<and>
          (case px_get fs is_writeable fd p of None \<Rightarrow> True
           | Some (f, i) \<Rightarrow> off \<le> length (px_data p i) \<and> off < lim \<and> off + length bs \<le> lim)
      | CSeek fd off whence \<Rightarrow> fd < 2 ^ 31 \<and> whence \<in> {SEEK_SET, SEEK_CUR, SEEK_END} \<and>
          (case px_get fs (\<lambda>_. True) fd p of None \<Rightarrow> True
           | Some (f, i) \<Rightarrow> 0 \<le> px_base f i whence p + off \<and> px_base f i whence p + off < 2 ^ 63)
      | CDup fd \<Rightarrow> fd < 2 ^ 31
      | CTruncate fd len \<Rightarrow> fd < 2 ^ 31 \<and>
          (case px_get fs (\<lambda>_. True) fd p of None \<Rightarrow> True | Some (f, i) \<Rightarrow> len \<le> length (px_data p i)))"

text \<open>The system calls in the same form.\<close>

definition no_bytes :: "(int \<times> 'w io_state) option \<Rightarrow> (int \<times> byte list \<times> 'w io_state) option" where
  "no_bytes = map_option (\<lambda>(r, s). (r, [], s))"

fun io_do :: "'w vtable \<Rightarrow> io_call \<Rightarrow> 'w io_state \<Rightarrow> (int \<times> byte list \<times> 'w io_state) option" where
  "io_do vt (CRead fd n) s = usys_read vt (int fd) n s"
| "io_do vt (CWrite fd bs) s = no_bytes (usys_write vt (int fd) bs s)"
| "io_do vt (CPread fd n off) s = usys_pread64 vt (int fd) n (of_nat off) s"
| "io_do vt (CPwrite fd bs off) s = no_bytes (usys_pwrite64 vt (int fd) bs (of_nat off) s)"
| "io_do vt (CSeek fd off whence) s = no_bytes (Some (usys_lseek vt (int fd) (word_of_int off) whence s))"
| "io_do vt (CDup fd) s = no_bytes (Some (case usys_dup (int fd) (io_tbl s) of (r, t) \<Rightarrow> (r, s\<lparr>io_tbl := t\<rparr>)))"
| "io_do vt (CTruncate fd len) s = no_bytes (usys_ftruncate vt (int fd) (of_nat len) s)"

fun io_run :: "'w vtable \<Rightarrow> io_call list \<Rightarrow> 'w io_state \<Rightarrow> ((int \<times> byte list) list \<times> 'w io_state) option" where
  "io_run vt [] s = Some ([], s)"
| "io_run vt (c # cs) s =
     (case io_do vt c s of
        None \<Rightarrow> None
      | Some (r, bs, s') \<Rightarrow> map_option (\<lambda>(out, t). ((r, bs) # out, t)) (io_run vt cs s'))"

fun px_run :: "(nat \<Rightarrow> File) \<Rightarrow> nat \<Rightarrow> io_call list \<Rightarrow> posix \<Rightarrow> ((int \<times> byte list) list \<times> posix) option" where
  "px_run fs lim [] p = Some ([], p)"
| "px_run fs lim (c # cs) p =
     (if \<not> px_legal fs lim c p then None
      else case px_call fs c p of
          (r, bs, p') \<Rightarrow> map_option (\<lambda>(out, q). ((r, bs) # out, q)) (px_run fs lim cs p'))"

subsection \<open>The interface and its client\<close>

definition same_files :: "(nat \<Rightarrow> File) \<Rightarrow> 'w io_state \<Rightarrow> bool" where
  "same_files fs s \<longleftrightarrow> (\<forall>f. (io_files s f)\<lparr>fl_off := 0\<rparr> = (fs f)\<lparr>fl_off := 0\<rparr>)"

definition regular_fds :: "'w io_state \<Rightarrow> bool" where
  "regular_fds s \<longleftrightarrow> ft_ok (io_tbl s) \<and>
     (\<forall>fd f. ft_slot (io_tbl s) fd = Some f \<longrightarrow> fl_type (io_files s f) = kNormal \<and> fl_ino (io_files s f) \<noteq> None)"

definition px_of :: "('w \<Rightarrow> nat \<Rightarrow> byte list) \<Rightarrow> 'w io_state \<Rightarrow> posix" where
  "px_of data s = \<lparr>px_fd = ft_slot (io_tbl s), px_off = (\<lambda>f. unat (fl_off (io_files s f))), px_data = data (io_world s)\<rparr>"

lemma same_files_fields:
  assumes "same_files fs s"
  shows "fl_mode (fs f) = fl_mode (io_files s f)" "fl_type (fs f) = fl_type (io_files s f)" "fl_ino (fs f) = fl_ino (io_files s f)"
    "is_readable (fs f) = is_readable (io_files s f)" "is_writeable (fs f) = is_writeable (io_files s f)"
proof -
  have "(fs f)\<lparr>fl_off := 0\<rparr> = (io_files s f)\<lparr>fl_off := 0\<rparr>" using assms by (simp add: same_files_def)
  from arg_cong [OF this, of fl_mode] arg_cong [OF this, of fl_type] arg_cong [OF this, of fl_ino]
  show "fl_mode (fs f) = fl_mode (io_files s f)" "fl_type (fs f) = fl_type (io_files s f)" "fl_ino (fs f) = fl_ino (io_files s f)"
    "is_readable (fs f) = is_readable (io_files s f)" "is_writeable (fs f) = is_writeable (io_files s f)"
    by (simp_all add: is_readable_def is_writeable_def)
qed

lemma same_files_set_off [simp]: "same_files fs (set_off f off s) = same_files fs s"
  by (simp add: same_files_def set_off_def) (metis File.cases_scheme File.update_convs(4))

lemma set_off_fields [simp]:
  "io_tbl (set_off f off s) = io_tbl s" "io_world (set_off f off s) = io_world s"
  "fl_type (io_files (set_off f off s) g) = fl_type (io_files s g)" "fl_ino (io_files (set_off f off s) g) = fl_ino (io_files s g)"
  "fl_off (io_files (set_off f off s) g) = (if g = f then off else fl_off (io_files s g))"
  by (simp_all add: set_off_def)

lemma ft_Get_slot: "fd < 2 ^ 31 \<Longrightarrow> ft_Get (int fd) t = ft_slot t fd"
  by (simp add: ft_Get_def ft_slot_def to_size_def unat_of_nat take_bit_nat_eq_self)

lemma ft_Dup_slot: "fd < 2 ^ 31 \<Longrightarrow> ft_Dup (int fd) t = ft_slot t fd"
  by (simp add: ft_Dup_def ft_slot_def to_size_def unat_of_nat take_bit_nat_eq_self)

text \<open>A descriptor that passes the test of a call, in both views.\<close>

lemma px_get_cases:
  assumes "same_files fs s" "regular_fds s" "fd < 2 ^ 31" "\<forall>f. ok (fs f) = ok (io_files s f)"
  obtains (bad) "file_for ok (int fd) s = None" "px_get fs ok fd (px_of data s) = None"
  | (good) f i where "file_for ok (int fd) s = Some f" "px_get fs ok fd (px_of data s) = Some (f, i)"
      "fl_type (io_files s f) = kNormal" "fl_ino (io_files s f) = Some i"
proof (cases "file_for ok (int fd) s")
  case None
  then show thesis
    using bad assms(4) by (auto simp: file_for_def px_get_def px_of_def ft_Get_slot [OF assms(3)] split: option.splits if_splits)
next
  case (Some f)
  then have f: "ft_slot (io_tbl s) fd = Some f" "ok (io_files s f)"
    by (auto simp: file_for_def ft_Get_slot [OF assms(3)] split: option.splits if_splits)
  then obtain i where "fl_type (io_files s f) = kNormal" "fl_ino (io_files s f) = Some i"
    using assms(2) by (auto simp: regular_fds_def)
  then show thesis
    using good Some f assms(4) same_files_fields(3) [OF assms(1)] by (auto simp: px_get_def px_of_def)
qed

lemmas state_defs = px_of_def fun_eq_iff Let_def regular_fds_def same_files_def set_off_def no_bytes_def

locale regular_files =
  fixes vt :: "'w vtable" and data :: "'w \<Rightarrow> nat \<Rightarrow> byte list" and ok :: "'w \<Rightarrow> bool" and lim :: nat
  assumes reads: "ok w \<Longrightarrow> fl_type f = kNormal \<Longrightarrow> fl_ino f = Some i \<Longrightarrow> unat off \<le> length (data w i) \<Longrightarrow> n < 2 ^ 64 \<Longrightarrow>
      v_Read vt f n off w = Some (Inr (take n (drop (unat off) (data w i)), off + of_nat (min n (length (data w i) - unat off))), w)"
    and writes: "ok w \<Longrightarrow> fl_type f = kNormal \<Longrightarrow> fl_ino f = Some i \<Longrightarrow> unat off \<le> length (data w i) \<Longrightarrow> unat off < lim \<Longrightarrow>
      unat off + length bs \<le> lim \<Longrightarrow>
      \<exists>w'. v_Write vt f bs off w = Some (Inr (length bs, off + of_nat (length bs)), w') \<and> ok w' \<and>
        data w' = (data w)(i := overwrite (data w i) (unat off) bs)"
    and seeks: "fl_type f = kNormal \<Longrightarrow> fl_ino f = Some i \<Longrightarrow>
      v_Seek vt f off whence w = SeekableFile_Seek (of_nat (length (data w i))) f off whence"
    and shrinks: "ok w \<Longrightarrow> len \<le> length (data w i) \<Longrightarrow>
      \<exists>w'. v_SetSize vt i (of_nat len) w = Some (Inr (), w') \<and> ok w' \<and> data w' = (data w)(i := take len (data w i))"
    and bounded: "ok w \<Longrightarrow> length (data w i) \<le> lim" and small: "lim < 2 ^ 63"
begin

definition refines :: "(nat \<Rightarrow> File) \<Rightarrow> io_call \<Rightarrow> 'w io_state \<Rightarrow> bool" where
  "refines fs c s \<longleftrightarrow> (\<exists>r bs s'. io_do vt c s = Some (r, bs, s') \<and> px_call fs c (px_of data s) = (r, bs, px_of data s') \<and>
     same_files fs s' \<and> regular_fds s' \<and> ok (io_world s'))"

lemma data_small: "ok w \<Longrightarrow> length (data w i) < 2 ^ 63"
  using bounded [of w i] small by linarith

lemma unat_plus: "unat (off :: u64) + n < 2 ^ 64 \<Longrightarrow> unat (off + of_nat n) = unat off + n"
  by (subst unat_add_no_wrap) (simp_all add: unat_of_nat take_bit_nat_eq_self)

lemma read_refines:
  assumes st: "same_files fs s" "regular_fds s" "ok (io_world s)" and legal: "px_legal fs lim (CRead fd n) (px_of data s)"
  shows "refines fs (CRead fd n) s"
proof -
  have fd: "fd < 2 ^ 31" and n: "n < 2 ^ 64" using legal by (auto simp: px_legal_def)
  have same: "\<forall>f. is_readable (fs f) = is_readable (io_files s f)" using same_files_fields(4) [OF st(1)] by blast
  from st(1,2) fd same show ?thesis
  proof (cases rule: px_get_cases [where data = data])
    case bad
    then show ?thesis using st by (simp add: refines_def usys_read_def)
  next
    case (good f i)
    let ?c = "data (io_world s) i" and ?off = "fl_off (io_files s f)"
    have off: "unat ?off \<le> length ?c" using legal good(2) by (simp add: px_legal_def px_of_def)
    have m: "unat (?off + of_nat (min n (length ?c - unat ?off))) = unat ?off + min n (length ?c - unat ?off)"
      using off data_small [OF st(3), of i] by (intro unat_plus) auto
    show ?thesis
      using good st reads [OF st(3) good(3,4) off n] m
      by (auto simp: refines_def usys_read_def ret_bytes_def state_defs)
  qed
qed

lemma write_refines:
  assumes st: "same_files fs s" "regular_fds s" "ok (io_world s)" and legal: "px_legal fs lim (CWrite fd bs) (px_of data s)"
  shows "refines fs (CWrite fd bs) s"
proof -
  have fd: "fd < 2 ^ 31" using legal by (auto simp: px_legal_def)
  have same: "\<forall>f. is_writeable (fs f) = is_writeable (io_files s f)" using same_files_fields(5) [OF st(1)] by blast
  from st(1,2) fd same show ?thesis
  proof (cases rule: px_get_cases [where data = data])
    case bad
    then show ?thesis using st by (simp add: refines_def usys_write_def no_bytes_def)
  next
    case (good f i)
    let ?c = "data (io_world s) i" and ?off = "fl_off (io_files s f)"
    have off: "unat ?off \<le> length ?c" "unat ?off < lim" "unat ?off + length bs \<le> lim"
      using legal good(2) by (simp_all add: px_legal_def px_of_def)
    have m: "unat (?off + of_nat (length bs)) = unat ?off + length bs" using off small by (intro unat_plus) simp
    from writes [OF st(3) good(3,4) off] obtain w' where
      "v_Write vt (io_files s f) bs ?off (io_world s) = Some (Inr (length bs, ?off + of_nat (length bs)), w')" "ok w'"
      "data w' = (data (io_world s))(i := overwrite ?c (unat ?off) bs)" by blast
    then show ?thesis
      using good st m by (auto simp: refines_def usys_write_def ret_count_def state_defs)
  qed
qed

lemma pread_refines:
  assumes st: "same_files fs s" "regular_fds s" "ok (io_world s)" and legal: "px_legal fs lim (CPread fd n off) (px_of data s)"
  shows "refines fs (CPread fd n off) s"
proof -
  have fd: "fd < 2 ^ 31" and n: "n < 2 ^ 64" using legal by (auto simp: px_legal_def)
  have same: "\<forall>f. is_readable (fs f) = is_readable (io_files s f)" using same_files_fields(4) [OF st(1)] by blast
  from st(1,2) fd same show ?thesis
  proof (cases rule: px_get_cases [where data = data])
    case bad
    then show ?thesis using st by (simp add: refines_def usys_pread64_def)
  next
    case (good f i)
    have "off \<le> length (data (io_world s) i)" using legal good(2) by (simp add: px_legal_def px_of_def)
    moreover from this have u: "unat (of_nat off :: u64) = off"
      using data_small [OF st(3), of i] by (simp add: unat_of_nat take_bit_nat_eq_self)
    ultimately show ?thesis
      using good st reads [OF st(3) good(3,4) _ n, of "of_nat off"]
      by (auto simp: refines_def usys_pread64_def ret_bytes_def state_defs)
  qed
qed

lemma pwrite_refines:
  assumes st: "same_files fs s" "regular_fds s" "ok (io_world s)" and legal: "px_legal fs lim (CPwrite fd bs off) (px_of data s)"
  shows "refines fs (CPwrite fd bs off) s"
proof -
  have fd: "fd < 2 ^ 31" using legal by (auto simp: px_legal_def)
  have same: "\<forall>f. is_writeable (fs f) = is_writeable (io_files s f)" using same_files_fields(5) [OF st(1)] by blast
  from st(1,2) fd same show ?thesis
  proof (cases rule: px_get_cases [where data = data])
    case bad
    then show ?thesis using st by (simp add: refines_def usys_pwrite64_def no_bytes_def)
  next
    case (good f i)
    have off: "off \<le> length (data (io_world s) i)" "off < lim" "off + length bs \<le> lim"
      using legal good(2) by (simp_all add: px_legal_def px_of_def)
    have u: "unat (of_nat off :: u64) = off" using off small by (simp add: unat_of_nat take_bit_nat_eq_self)
    from writes [OF st(3) good(3,4), of "of_nat off" bs] off u obtain w' where
      "v_Write vt (io_files s f) bs (of_nat off) (io_world s) = Some (Inr (length bs, of_nat off + of_nat (length bs)), w')" "ok w'"
      "data w' = (data (io_world s))(i := overwrite (data (io_world s) i) off bs)" by auto
    then show ?thesis
      using good st by (auto simp: refines_def usys_pwrite64_def ret_count_def state_defs)
  qed
qed

lemma seek_value:
  assumes "0 \<le> x" "x < 2 ^ 63"
  shows "sint (word_of_int x :: u64) = x" "unat (word_of_int x :: u64) = nat x"
  using assms by (auto simp: signed_of_int signed_take_bit_int_eq_self unat_eq_nat_uint uint_word_of_int_eq take_bit_int_eq_self)

lemma seek_refines:
  assumes st: "same_files fs s" "regular_fds s" "ok (io_world s)" and legal: "px_legal fs lim (CSeek fd off whence) (px_of data s)"
  shows "refines fs (CSeek fd off whence) s"
proof -
  have fd: "fd < 2 ^ 31" and wh: "whence \<in> {SEEK_SET, SEEK_CUR, SEEK_END}" using legal by (auto simp: px_legal_def)
  have same: "\<forall>f. True = True" by simp
  have get: "ft_Get (int fd) (io_tbl s) = file_for (\<lambda>_. True) (int fd) s" by (auto simp: file_for_def split: option.splits)
  from st(1,2) fd same show ?thesis
  proof (cases rule: px_get_cases [where data = data])
    case bad
    then show ?thesis using st by (simp add: refines_def usys_lseek_def no_bytes_def get)
  next
    case (good f i)
    let ?x = "px_base f i whence (px_of data s) + off"
    have x: "0 \<le> ?x" "?x < 2 ^ 63" using legal good(2) by (simp_all add: px_legal_def)
    have "v_Seek vt (io_files s f) (word_of_int off) whence (io_world s) = Inr (word_of_int ?x)"
      using wh by (auto simp: seeks [OF good(3,4)] SeekableFile_Seek_def px_base_def px_of_def SEEK_SET_def SEEK_CUR_def SEEK_END_def)
    then show ?thesis
      using good st seek_value [OF x] by (auto simp: refines_def usys_lseek_def get state_defs)
  qed
qed

lemma truncate_refines:
  assumes st: "same_files fs s" "regular_fds s" "ok (io_world s)" and legal: "px_legal fs lim (CTruncate fd len) (px_of data s)"
  shows "refines fs (CTruncate fd len) s"
proof -
  have fd: "fd < 2 ^ 31" using legal by (auto simp: px_legal_def)
  have same: "\<forall>f. True = True" by simp
  have get: "ft_Get (int fd) (io_tbl s) = file_for (\<lambda>_. True) (int fd) s" by (auto simp: file_for_def split: option.splits)
  from st(1,2) fd same show ?thesis
  proof (cases rule: px_get_cases [where data = data])
    case bad
    then show ?thesis using st by (simp add: refines_def usys_ftruncate_def no_bytes_def get)
  next
    case (good f i)
    have "len \<le> length (data (io_world s) i)" using legal good(2) by (simp add: px_legal_def px_of_def)
    from shrinks [OF st(3) this] obtain w' where "v_SetSize vt i (of_nat len) (io_world s) = Some (Inr (), w')" "ok w'"
      "data w' = (data (io_world s))(i := take len (data (io_world s) i))" by blast
    then show ?thesis
      using good st by (auto simp: refines_def usys_ftruncate_def get state_defs)
  qed
qed

lemma dup_refines:
  assumes st: "same_files fs s" "regular_fds s" "ok (io_world s)" and legal: "px_legal fs lim (CDup fd) (px_of data s)"
  shows "refines fs (CDup fd) s"
proof -
  have fd: "fd < 2 ^ 31" using legal by (auto simp: px_legal_def)
  show ?thesis
  proof (cases "ft_slot (io_tbl s) fd")
    case None
    then show ?thesis using st by (simp add: refines_def usys_dup_def ft_Dup_slot [OF fd] no_bytes_def px_of_def)
  next
    case (Some f)
    obtain k t where r: "ft_Insert f False 0 (io_tbl s) = (k, t)" by fastforce
    have I: "ft_ok t" "ft_slot (io_tbl s) k = None" "\<forall>j<k. ft_slot (io_tbl s) j \<noteq> None"
      "ft_slot t = (ft_slot (io_tbl s))(k := Some f)"
      using ft_Insert_spec [OF _ r] st(2) by (auto simp: regular_fds_def)
    have "(LEAST j. ft_slot (io_tbl s) j = None) = k"
      using I(2,3) by (intro Least_equality) (auto simp: not_le [symmetric])
    then show ?thesis
      using Some r I st by (auto simp: refines_def usys_dup_def ft_Dup_slot [OF fd] state_defs split: if_splits)
  qed
qed

lemma step_refines:
  assumes "same_files fs s" "regular_fds s" "ok (io_world s)" "px_legal fs lim c (px_of data s)"
  shows "refines fs c s"
  using assms read_refines write_refines pread_refines pwrite_refines seek_refines truncate_refines dup_refines
  by (cases c) auto

lemma run_refines:
  assumes "same_files fs s" "regular_fds s" "ok (io_world s)" "px_run fs lim cs (px_of data s) = Some (out, p)"
  shows "\<exists>s'. io_run vt cs s = Some (out, s') \<and> p = px_of data s'"
  using assms
proof (induction cs arbitrary: s out)
  case (Cons c cs)
  have legal: "px_legal fs lim c (px_of data s)" using Cons.prems(4) by (simp split: if_splits)
  from step_refines [OF Cons.prems(1-3) this] obtain r bs s' where 1: "io_do vt c s = Some (r, bs, s')"
    "px_call fs c (px_of data s) = (r, bs, px_of data s')" "same_files fs s'" "regular_fds s'" "ok (io_world s')"
    unfolding refines_def by blast
  from Cons.prems(4) legal 1(2) obtain o1 where "px_run fs lim cs (px_of data s') = Some (o1, p)" "out = (r, bs) # o1"
    by auto
  with Cons.IH [OF 1(3-5)] 1(1) show ?case by auto
qed simp

end

subsection \<open>Files in memory implement it\<close>

definition mem_data :: "mem_world \<Rightarrow> nat \<Rightarrow> byte list" where
  "mem_data w i = mf_contents (mw_inodes w i)"

definition mem_ok :: "mem_world \<Rightarrow> bool" where
  "mem_ok w \<longleftrightarrow> (\<forall>i. mf_ok (mw_inodes w i))"

lemma mf_SetSize_contents:
  assumes "mf_ok I" "len \<le> length (mf_contents I)"
  shows "\<exists>J. mf_SetSize (of_nat len) I = (Inr (), J) \<and> mf_contents J = take len (mf_contents I)"
proof -
  have sz: "unat (mi_size I) \<le> unat kMaxSizeBytes" using assms(1) by (simp add: mf_ok_def word_le_nat_alt)
  have u: "unat (of_nat len :: u64) = len"
    using assms(2) sz by (simp add: length_mf_contents kMax_unat unat_of_nat take_bit_nat_eq_self)
  have fit: "\<not> of_nat len > kMaxSizeBytes" using u sz assms(2) by (simp add: word_less_nat_alt length_mf_contents)
  have "len \<le> unat (PageAlign (of_nat len))"
    using PageAlign_ge [of "of_nat len"] u assms(2) sz by (simp add: length_mf_contents kMax_unat word_le_nat_alt)
  then show ?thesis
    using fit u assms(2) by (auto simp: mf_SetSize_def Let_def mf_contents_def length_mf_contents take_map min_def)
qed

interpretation mem_files: regular_files mem_vtable mem_data mem_ok "unat kMaxSizeBytes"
proof
  fix w and f :: File and i n :: nat and off :: u64
  assume "mem_ok w" "fl_type f = kNormal" "fl_ino f = Some i" "unat off \<le> length (mem_data w i)" "n < 2 ^ 64"
  then show "v_Read mem_vtable f n off w =
      Some (Inr (take n (drop (unat off) (mem_data w i)), off + of_nat (min n (length (mem_data w i) - unat off))), w)"
    using mf_Read_contents [of "mw_inodes w i" off n] by (simp add: mem_vtable_def mem_Read_def mem_data_def mem_ok_def)
next
  fix w and f :: File and i :: nat and off :: u64 and bs :: "byte list"
  assume A: "mem_ok w" "fl_type f = kNormal" "fl_ino f = Some i" "unat off \<le> length (mem_data w i)"
    "unat off < unat kMaxSizeBytes" "unat off + length bs \<le> unat kMaxSizeBytes"
  from mf_Write_contents [of off "mw_inodes w i" bs] A obtain J where J:
    "mf_Write bs off (mw_inodes w i) = (Inr (of_nat (length bs), off + of_nat (length bs)), J)"
    "mf_contents J = overwrite (mem_data w i) (unat off) bs"
    by (auto simp: mem_data_def overwrite_def)
  have "mf_ok J" using mf_Write_ok [of "mw_inodes w i" bs off] A(1) J(1) by (simp add: mem_ok_def)
  moreover have "unat (of_nat (length bs) :: u64) = length bs" using A(6) by (simp add: kMax_unat unat_of_nat take_bit_nat_eq_self)
  ultimately show "\<exists>w'. v_Write mem_vtable f bs off w = Some (Inr (length bs, off + of_nat (length bs)), w') \<and> mem_ok w' \<and>
      mem_data w' = (mem_data w)(i := overwrite (mem_data w i) (unat off) bs)"
    using A J by (auto simp: mem_vtable_def mem_Write_def mw_put_def mem_ok_def mem_data_def fun_eq_iff)
next
  fix f :: File and i :: nat and off :: u64 and whence w
  assume "fl_type f = kNormal" "fl_ino f = Some i"
  then show "v_Seek mem_vtable f off whence w = SeekableFile_Seek (of_nat (length (mem_data w i))) f off whence"
    by (simp add: mem_vtable_def mem_size_def mem_data_def length_mf_contents)
next
  fix w and i len :: nat
  assume A: "mem_ok w" "len \<le> length (mem_data w i)"
  then obtain J where J: "mf_SetSize (of_nat len) (mw_inodes w i) = (Inr (), J)" "mf_contents J = take len (mem_data w i)"
    using mf_SetSize_contents [of "mw_inodes w i" len] by (auto simp: mem_ok_def mem_data_def)
  have "mf_ok J" using mf_SetSize_ok [of "mw_inodes w i" "of_nat len"] A(1) J(1) by (simp add: mem_ok_def)
  then show "\<exists>w'. v_SetSize mem_vtable i (of_nat len) w = Some (Inr (), w') \<and> mem_ok w' \<and>
      mem_data w' = (mem_data w)(i := take len (mem_data w i))"
    using A J by (auto simp: mem_vtable_def mw_put_def mem_ok_def mem_data_def fun_eq_iff)
next
  fix w and i :: nat
  assume "mem_ok w"
  then show "length (mem_data w i) \<le> unat kMaxSizeBytes"
    by (simp add: mem_ok_def mem_data_def mf_ok_def length_mf_contents word_le_nat_alt)
qed (simp add: kMax_unat)


definition demo_io :: "mem_world io_state" where
  "demo_io = \<lparr>io_tbl = snd (ft_Insert 5 False 0 FileTable_new),
     io_files = (\<lambda>_. \<lparr>fl_type = kNormal, fl_flags = 0, fl_mode = kReadWrite, fl_off = 0, fl_ino = Some 7\<rparr>),
     io_world = \<lparr>mw_inodes = (\<lambda>_. mf_empty), mw_dirs = (\<lambda>_. [])\<rparr>, io_locks = (\<lambda>_. None)\<rparr>"

lemma demo_io_slots: "ft_ok (io_tbl demo_io)" "ft_slot (io_tbl demo_io) = [0 \<mapsto> 5]"
proof -
  obtain i t where r: "ft_Insert 5 False 0 FileTable_new = (i, t)" by fastforce
  have slots: "ft_slot FileTable_new = Map.empty" using ft_slot_new by blast
  note I = ft_Insert_spec [OF ft_new_ok r, unfolded slots]
  have "i = 0" using I by (metis bot_nat_0.not_eq_extremum order_refl)
  then show "ft_ok (io_tbl demo_io)" "ft_slot (io_tbl demo_io) = [0 \<mapsto> 5]" using I r by (simp_all add: demo_io_def)
qed


section \<open>Vectored writes\<close>

text \<open>
  A writer for which writing two pieces after each other is writing them together, also when the first piece is cut short or
  the second one fails.
\<close>

definition then_write :: "nat \<Rightarrow> u64 \<Rightarrow> ((nat \<times> u64) Status \<times> 'w) option \<Rightarrow> ((nat \<times> u64) Status \<times> 'w) option" where
  "then_write n off r =
     (case r of None \<Rightarrow> None | Some (Inl e, w) \<Rightarrow> Some (Inr (n, off), w) | Some (Inr (m, off'), w) \<Rightarrow> Some (Inr (n + m, off'), w))"

locale piecewise_writer =
  fixes wr :: "byte list \<Rightarrow> u64 \<Rightarrow> (nat \<times> u64, 'w) vmethod"
  assumes pieces: "a \<noteq> [] \<Longrightarrow> b \<noteq> [] \<Longrightarrow> wr (a @ b) off w =
      (case wr a off w of
         Some (Inr (n, off'), w') \<Rightarrow> if n < length a then Some (Inr (n, off'), w') else then_write n off' (wr b off' w')
       | r \<Rightarrow> r)"
    and count: "wr a off w = Some (Inr (n, off'), w') \<Longrightarrow> n \<le> length a"
begin

lemma loop_writes:
  "0 < t \<Longrightarrow> writev_loop wr vs t r off w =
     (if concat vs = [] then Some (Inr (t, off), w) else then_write t off (wr (concat vs) off w))"
proof (induction vs arbitrary: t r off w)
  case (Cons v vs)
  show ?case
  proof (cases "v = []")
    case False
    show ?thesis
    proof (cases "concat vs = []")
      case True
      then show ?thesis
        using False Cons.prems Cons.IH count
        by (auto simp: then_write_def simp del: concat_eq_Nil_conv split: option.splits sum.splits prod.splits)
    next
      case rest: False
      show ?thesis
        using False rest Cons.prems Cons.IH
        by (auto simp: pieces then_write_def add.assoc simp del: concat_eq_Nil_conv split: option.splits sum.splits prod.splits)
    qed
  qed (use Cons in simp)
qed simp

lemma writev_is_write: "concat vs \<noteq> [] \<Longrightarrow> File_Writev wr vs off w = wr (concat vs) off w"
proof (induction vs)
  case (Cons v vs)
  show ?case
  proof (cases "v = []")
    case True
    then show ?thesis using Cons by (simp add: File_Writev_def)
  next
    case False
    have pos: "\<not> n < length v \<Longrightarrow> 0 < n" for n using False by (cases v) auto
    show ?thesis
    proof (cases "concat vs = []")
      case True
      then show ?thesis
        using False count pos
        by (auto simp: File_Writev_def loop_writes then_write_def simp del: concat_eq_Nil_conv split: option.splits sum.splits prod.splits)
    next
      case rest: False
      then show ?thesis
        using False pos
        by (auto simp: File_Writev_def pieces loop_writes then_write_def simp del: concat_eq_Nil_conv split: option.splits sum.splits prod.splits)
    qed
  qed
qed simp

end

definition mf_put :: "u64 \<Rightarrow> byte list \<Rightarrow> MemInode \<Rightarrow> MemInode" where
  "mf_put off buf I = \<lparr>mi_buf = (\<lambda>j. if unat off \<le> j \<and> j < unat off + length buf then buf ! (j - unat off) else mi_buf I j),
     mi_size = (if off + of_nat (length buf) > mi_size I then off + of_nat (length buf) else mi_size I)\<rparr>"

lemma mf_Write_put:
  "mf_Write data off I =
     (if off \<ge> kMaxSizeBytes then (Inl ENOSPC, I)
      else let buf = take (unat (kMaxSizeBytes - off)) data
        in (Inr (of_nat (length buf), off + of_nat (length buf)), mf_put off buf I))"
  by (simp add: mf_Write_def mf_put_def Let_def)

lemma mf_put_pieces:
  assumes "unat off + length a + length c < 2 ^ 64"
  shows "mf_put (off + of_nat (length a)) c (mf_put off a I) = mf_put off (a @ c) I"
proof -
  have la: "unat (of_nat n :: u64) = n" if "n \<le> length a + length c" for n
    using assms that by (simp add: unat_of_nat take_bit_nat_eq_self)
  have o1: "unat (off + of_nat (length a)) = unat off + length a" using assms la by (subst unat_add_no_wrap) simp_all
  have o2: "unat (off + (of_nat (length a) + of_nat (length c))) = unat off + length a + length c"
    using assms la [of "length a + length c"] by (subst unat_add_no_wrap) simp_all
  have "mi_buf (mf_put (off + of_nat (length a)) c (mf_put off a I)) = mi_buf (mf_put off (a @ c) I)"
    by (rule ext) (auto simp: mf_put_def o1 nth_append)
  moreover have "mi_size (mf_put (off + of_nat (length a)) c (mf_put off a I)) = mi_size (mf_put off (a @ c) I)"
    using o1 o2 by (auto simp: mf_put_def word_less_nat_alt add.assoc)
  ultimately show ?thesis by simp
qed

lemma mf_Write_pieces:
  assumes "a \<noteq> []" "b \<noteq> []"
  shows "mf_Write (a @ b) off I =
    (case mf_Write a off I of
       (Inl e, J) \<Rightarrow> (Inl e, J)
     | (Inr (n, off'), J) \<Rightarrow>
         if unat n < length a then (Inr (n, off'), J)
         else case mf_Write b off' J of
             (Inl e, K) \<Rightarrow> (Inr (n, off'), K)
           | (Inr (m, off''), K) \<Rightarrow> (Inr (n + m, off''), K))"
proof (cases "off < kMaxSizeBytes")
  case True
  define k where "k = unat (kMaxSizeBytes - off)"
  have k: "unat off + k = unat kMaxSizeBytes" "0 < k"
    using True by (simp_all add: k_def unat_sub less_imp_le word_less_nat_alt)
  have W: "mf_Write d off I = (Inr (of_nat (length (take k d)), off + of_nat (length (take k d))), mf_put off (take k d) I)" for d
    using True by (simp add: mf_Write_put k_def Let_def not_le)
  show ?thesis
  proof (cases "k < length a")
    case True
    have "unat (of_nat k :: u64) = k" using k kMax_unat by (simp add: unat_of_nat take_bit_nat_eq_self)
    then show ?thesis using True by (simp add: W)
  next
    case False
    let ?off = "off + of_nat (length a)"
    have la: "unat (of_nat (length a) :: u64) = length a" using False k kMax_unat by (simp add: unat_of_nat take_bit_nat_eq_self)
    have off: "unat ?off = unat off + length a" using False k kMax_unat la by (subst unat_add_no_wrap) simp_all
    show ?thesis
    proof (cases "length a = k")
      case True
      then have "\<not> ?off < kMaxSizeBytes" using off k by (simp add: word_less_nat_alt)
      then show ?thesis using True la by (simp add: W mf_Write_put [of b] not_less)
    next
      case less: False
      have lt: "?off < kMaxSizeBytes" using off k False less by (simp add: word_less_nat_alt)
      have k': "unat (kMaxSizeBytes - ?off) = k - length a"
        using off k lt by (simp add: unat_sub less_imp_le)
      have "mf_put ?off (take (k - length a) b) (mf_put off a I) = mf_put off (a @ take (k - length a) b) I"
        using k kMax_unat False by (intro mf_put_pieces) simp
      then show ?thesis using lt la False by (simp add: W mf_Write_put [of b] k' Let_def not_le add.assoc)
    qed
  qed
qed (simp add: mf_Write_def not_less)

lemma mf_Write_count:
  assumes "mf_Write d off I = (Inr (n, off'), J)"
  shows "unat n \<le> length d" "unat off' = unat off + unat n" "unat off' \<le> unat kMaxSizeBytes"
proof -
  have lt: "off < kMaxSizeBytes" using assms by (auto simp: mf_Write_put Let_def not_le split: if_splits)
  note L = mf_Write_len [OF lt refl, of d]
  have n: "n = of_nat (length (take (unat (kMaxSizeBytes - off)) d))" "off' = off + n"
    using assms by (auto simp: mf_Write_put Let_def split: if_splits)
  then have "unat n = length (take (unat (kMaxSizeBytes - off)) d)" using L(2) by simp
  then show "unat n \<le> length d" "unat off' = unat off + unat n" "unat off' \<le> unat kMaxSizeBytes"
    using L n by simp_all
qed

interpretation mem_writer: piecewise_writer "mem_Write f" for f
proof
  fix a b :: "byte list" and off :: u64 and w
  assume ab: "a \<noteq> []" "b \<noteq> []"
  have upd: "mw_put i K (mw_put i J w) = mw_put i K w" "mw_inodes (mw_put i J w) i = J" for i J K by (simp_all add: mw_put_def)
  have sum: "unat (n + m) = unat n + unat m"
    if "mf_Write a off I = (Inr (n, off'), J)" "mf_Write b off' J = (Inr (m, off''), K)" for I J K n m off' off''
    using mf_Write_count [OF that(1)] mf_Write_count [OF that(2)] by (intro unat_add_no_wrap) (simp add: kMax_unat)
  show "mem_Write f (a @ b) off w =
      (case mem_Write f a off w of
         Some (Inr (n, off'), w') \<Rightarrow> if n < length a then Some (Inr (n, off'), w') else then_write n off' (mem_Write f b off' w')
       | r \<Rightarrow> r)"
    using mf_Write_pieces [OF ab] sum
    by (auto simp: mem_Write_def then_write_def upd split: option.splits prod.splits sum.splits)
next
  fix a :: "byte list" and off off' :: u64 and w w' n
  assume "mem_Write f a off w = Some (Inr (n, off'), w')"
  then show "n \<le> length a"
    using mf_Write_count(1) by (auto simp: mem_Write_def split: if_splits option.splits prod.splits sum.splits)
qed

text \<open>
  A vectored write to a file in memory is the write of the concatenation: the same count, the same offset and the same
  file afterwards, also where the largest size cuts the data short or an entry no longer fits at all.
\<close>

theorem writev_is_one_write:
  assumes "concat iov \<noteq> []" "0 < iovcnt" "length iov = nat iovcnt"
  shows "usys_writev mem_vtable fd iov iovcnt s = usys_write mem_vtable fd (concat iov) s"
  using assms mem_writer.writev_is_write [OF assms(1)]
  by (simp add: usys_writev_def usys_write_def mem_vtable_def split: option.splits)

theorem writev_is_one_write_witness:
  "usys_writev mem_vtable 0 [[1], [], [2, 3]] 3 demo_io = usys_write mem_vtable 0 [1, 2, 3] demo_io"
  using writev_is_one_write [of "[[1], [], [2, 3]]" 3 0 demo_io] by simp

text \<open>A vectored read fills at most one entry of a file that is not marked non-blocking.\<close>

lemma readv_one_entry:
  assumes "\<not> is_nonblocking f" "n \<noteq> 0"
  shows "File_Readv (mem_Read f) (is_nonblocking f) (n # ns) off w = mem_Read f n off w"
  using assms by (auto simp: File_Readv_def split: option.splits sum.splits prod.splits)

section \<open>Listing directories\<close>

text \<open>
  How a program reads the records: number, cookie, type and name of an entry, and the next record after the length at
  offset 16.
\<close>

type_synonym dent_info = "nat \<times> nat \<times> byte \<times> string"

definition c_string :: "byte list \<Rightarrow> string" where
  "c_string bs = map (\<lambda>b. char_of (unat b)) (takeWhile (\<lambda>b. b \<noteq> 0) bs)"

definition dec_dent64 :: "byte list \<Rightarrow> dent_info" where
  "dec_dent64 bs = (le_at bs 0 8, le_at bs 8 8, bs ! 18, c_string (drop 19 bs))"

definition dec_dent :: "byte list \<Rightarrow> dent_info" where
  "dec_dent bs = (le_at bs 0 8, le_at bs 8 8, last bs, c_string (drop 18 bs))"

function parse_dents :: "(byte list \<Rightarrow> dent_info) \<Rightarrow> byte list \<Rightarrow> dent_info list" where
  "parse_dents dec bs =
     (if bs = [] then []
      else let n = max 1 (le_at bs 16 2) in dec (take n bs) # parse_dents dec (drop n bs))"
  by pat_completeness auto
termination by (relation "measure (\<lambda>(dec, bs). length bs)") auto

declare parse_dents.simps [simp del]

definition dent_of :: "nat \<Rightarrow> dir_entry \<Rightarrow> dent_info" where
  "dent_of i e = (unat (de_inum e), i, ucast (drop_bit 12 (de_type e)), de_name e)"

definition dents_of :: "nat \<Rightarrow> dir_entry list \<Rightarrow> dent_info list" where
  "dents_of i es = map (\<lambda>(i, e). dent_of i e) (enumerate i es)"

lemma dents_of_append: "dents_of i (es @ fs) = dents_of i es @ dents_of (i + length es) fs"
  by (simp add: dents_of_def enumerate_append_eq)

definition name_ok :: "dir_entry \<Rightarrow> bool" where
  "name_ok e \<longleftrightarrow> CHR 0x00 \<notin> set (de_name e) \<and> dent_size e < 2 ^ 16"

lemma put_at_mid: "length X = k \<Longrightarrow> length Y = length bs \<Longrightarrow> put_at k bs (X @ Y @ Z) = X @ bs @ Z"
  by (simp add: put_at_def)

lemma c_string_name: "CHR 0x00 \<notin> set s \<Longrightarrow> c_string (name_bytes s @ rest) = s"
proof (induction s)
  case (Cons c s)
  have u: "unat (of_nat (of_char c) :: byte) = of_char c" by (simp add: unat_of_nat take_bit_nat_eq_self)
  have "of_char c \<noteq> (0 :: nat)"
  proof
    assume "of_char c = (0 :: nat)"
    then have "char_of (of_char c :: nat) = CHR 0x00" by (simp add: char_of_def)
    then show False using Cons.prems by simp
  qed
  then have "(of_nat (of_char c) :: byte) \<noteq> 0" using u by (metis unat_0)
  moreover have "char_of (unat (of_nat (of_char c) :: byte)) = c" using u by simp
  ultimately show ?case using Cons by (simp add: c_string_def name_bytes_def)
qed (simp add: c_string_def name_bytes_def)

lemma length_name_bytes [simp]: "length (name_bytes s) = length s + 1"
  by (simp add: name_bytes_def)

lemma dent_size_bounds: "25 + length (de_name e) \<le> dent_size e"
  by (simp add: dent_size_def)

locale dirent_format =
  fixes func :: "dir_entry \<Rightarrow> byte list \<Rightarrow> u64 \<Rightarrow> (nat \<times> byte list) option" and dec :: "byte list \<Rightarrow> dent_info"
  assumes fits: "dent_size e \<le> length dirp \<Longrightarrow> \<exists>r. func e dirp off = Some (dent_size e, r @ drop (dent_size e) dirp) \<and>
      length r = dent_size e \<and> le_at r 16 2 = dent_size e mod 2 ^ 16 \<and>
      (CHR 0x00 \<notin> set (de_name e) \<longrightarrow> dec r = dent_of (unat off) e)"
    and full: "length dirp < dent_size e \<Longrightarrow> func e dirp off = None"

lemma split_at: "n \<le> length xs \<Longrightarrow> \<exists>A R. xs = A @ R \<and> length A = n"
  by (intro exI [of _ "take n xs"] exI [of _ "drop n xs"]) simp

text \<open>A buffer in the pieces that the stores of both formats go to.\<close>

lemma dirp_pieces:
  assumes "dent_size e \<le> length dirp"
  obtains A B C D Z where "dirp = A @ B @ C @ D @ Z" "length A = 8" "length B = 8" "length C = 2" "length D = dent_size e - 18"
proof -
  have b: "25 \<le> dent_size e" using dent_size_bounds [of e] by linarith
  obtain A X1 where 1: "dirp = A @ X1" "length A = 8" using split_at [of 8 dirp] assms b by auto
  obtain B X2 where 2: "X1 = B @ X2" "length B = 8" using split_at [of 8 X1] assms b 1 by auto
  obtain C X3 where 3: "X2 = C @ X3" "length C = 2" using split_at [of 2 X2] assms b 1 2 by auto
  have "dent_size e - 18 \<le> length X3" using assms b 1 2 3 by simp
  then obtain D Z where 4: "X3 = D @ Z" "length D = dent_size e - 18" using split_at by blast
  show thesis using that 1 2 3 4 by simp
qed

lemma le_at_fields:
  assumes "r = le_enc 8 x @ le_enc 8 y @ le_enc 2 z @ rest"
  shows "le_at r 0 8 = x mod 2 ^ 64" "le_at r 8 8 = y mod 2 ^ 64" "le_at r 16 2 = z mod 2 ^ 16"
  by (simp_all add: assms le_at_def)

interpretation dent64: dirent_format DirentToDent64 dec_dent64
proof
  fix e :: dir_entry and dirp :: "byte list" and off :: u64
  assume len: "dent_size e \<le> length dirp"
  let ?n = "name_bytes (de_name e)" and ?t = "[ucast (drop_bit 12 (de_type e))] :: byte list"
  let ?h = "le_enc 8 (unat (de_inum e)) @ le_enc 8 (unat off) @ le_enc 2 (dent_size e)"
  have b: "25 + length (de_name e) \<le> dent_size e" by (rule dent_size_bounds)
  obtain A B C X Z where p: "dirp = A @ B @ C @ X @ Z" "length A = 8" "length B = 8" "length C = 2"
    "length X = dent_size e - 18" using dirp_pieces [OF len] by blast
  have "1 \<le> length X" using p(5) b by linarith
  then obtain D X1 where x: "X = D @ X1" "length D = 1" using split_at by blast
  have "length ?n \<le> length X1" using p(5) b x by simp
  then obtain N R where n: "X1 = N @ R" "length N = length ?n" using split_at by blast
  have z: "drop (dent_size e) dirp = Z" using p b by simp
  let ?r = "?h @ ?t @ ?n @ R"
  have "DirentToDent64 e dirp off = Some (dent_size e, ?r @ Z)"
    using len p(2-4) x(2) n(2) by (simp add: DirentToDent64_def Let_def p(1) x(1) n(1) put_at_def)
  moreover have "length ?r = dent_size e" using p(5) x n b by simp
  moreover have "CHR 0x00 \<notin> set (de_name e) \<longrightarrow> dec_dent64 ?r = dent_of (unat off) e"
    using c_string_name [of "de_name e" R] by (simp add: dec_dent64_def dent_of_def le_at_def nth_append)
  ultimately show "\<exists>r. DirentToDent64 e dirp off = Some (dent_size e, r @ drop (dent_size e) dirp) \<and>
      length r = dent_size e \<and> le_at r 16 2 = dent_size e mod 2 ^ 16 \<and>
      (CHR 0x00 \<notin> set (de_name e) \<longrightarrow> dec_dent64 r = dent_of (unat off) e)"
    unfolding z by (intro exI [of _ ?r]) (simp add: le_at_def)
qed (simp add: DirentToDent64_def Let_def)

interpretation dent: dirent_format DirentToDent dec_dent
proof
  fix e :: dir_entry and dirp :: "byte list" and off :: u64
  assume len: "dent_size e \<le> length dirp"
  let ?n = "name_bytes (de_name e)" and ?t = "[ucast (drop_bit 12 (de_type e))] :: byte list"
  let ?h = "le_enc 8 (unat (de_inum e)) @ le_enc 8 (unat off) @ le_enc 2 (dent_size e)"
  have b: "25 + length (de_name e) \<le> dent_size e" by (rule dent_size_bounds)
  obtain A B C X Z where p: "dirp = A @ B @ C @ X @ Z" "length A = 8" "length B = 8" "length C = 2"
    "length X = dent_size e - 18" using dirp_pieces [OF len] by blast
  have "length ?n \<le> length X" using p(5) b by simp
  then obtain N X1 where n: "X = N @ X1" "length N = length ?n" using split_at by blast
  have "length X = length ?n + length X1" using n by simp
  then have "X1 \<noteq> []" using p(5) b by auto
  then obtain R D where x: "X1 = R @ [D]" by (metis rev_exhaust)
  have z: "drop (dent_size e) dirp = Z" using p b by simp
  let ?r = "?h @ ?n @ R @ ?t"
  have pos: "dent_size e - Suc 0 = 18 + length ?n + length R" using p(5) n x b by simp
  have "DirentToDent e dirp off = Some (dent_size e, ?r @ Z)"
    using len p(2-4) n(2) pos by (simp add: DirentToDent_def Let_def p(1) x n(1) put_at_def)
  moreover have "length ?r = dent_size e" using p(5) x n b by simp
  moreover have "CHR 0x00 \<notin> set (de_name e) \<longrightarrow> dec_dent ?r = dent_of (unat off) e"
    using c_string_name [of "de_name e" "R @ ?t"] by (simp add: dec_dent_def dent_of_def le_at_def)
  ultimately show "\<exists>r. DirentToDent e dirp off = Some (dent_size e, r @ drop (dent_size e) dirp) \<and>
      length r = dent_size e \<and> le_at r 16 2 = dent_size e mod 2 ^ 16 \<and>
      (CHR 0x00 \<notin> set (de_name e) \<longrightarrow> dec_dent r = dent_of (unat off) e)"
    unfolding z by (intro exI [of _ ?r]) (simp add: le_at_def)
qed (simp add: DirentToDent_def Let_def)

context dirent_format
begin

text \<open>One call: some of the remaining entries, in order, as whole records.\<close>

lemma loop_lists:
  assumes "\<forall>e\<in>set es. name_ok e" "unat off + length es < 2 ^ 64" "pre = [] \<longrightarrow> es \<noteq> [] \<longrightarrow> dent_size (hd es) \<le> length out"
  shows "\<exists>k bs rest. k \<le> length es \<and> dirent_loop func es off pre out =
      (Inr (length pre + length bs), off + of_nat k, pre @ bs @ rest) \<and> length bs + length rest = length out \<and>
      parse_dents dec bs = dents_of (unat off) (take k es) \<and> (es \<noteq> [] \<longrightarrow> pre = [] \<longrightarrow> 0 < k) \<and> (bs = [] \<longleftrightarrow> k = 0)"
  using assms
proof (induction es arbitrary: off pre out)
  case Nil
  then show ?case by (simp add: dents_of_def parse_dents.simps)
next
  case (Cons e es)
  show ?case
  proof (cases "dent_size e \<le> length out")
    case False
    then have "pre \<noteq> []" using Cons.prems(3) by auto
    then show ?thesis using full [of out e off] False by (auto simp: dents_of_def parse_dents.simps intro!: exI [of _ 0])
  next
    case True
    obtain r where r: "func e out off = Some (dent_size e, r @ drop (dent_size e) out)" "length r = dent_size e"
      "le_at r 16 2 = dent_size e mod 2 ^ 16" "CHR 0x00 \<notin> set (de_name e) \<longrightarrow> dec r = dent_of (unat off) e"
      using fits [OF True, of off] by blast
    have e: "CHR 0x00 \<notin> set (de_name e)" "dent_size e < 2 ^ 16" using Cons.prems(1) by (auto simp: name_ok_def)
    have d25: "25 \<le> dent_size e" using dent_size_bounds [of e] by linarith
    then have rne: "r \<noteq> []" using r(2) by auto
    have off1: "unat (off + 1) = Suc (unat off)"
      using Cons.prems(2) by (subst unat_add_no_wrap) simp_all
    have "unat (off + 1) + length es < 2 ^ 64" using Cons.prems(2) off1 by simp
    from Cons.IH [of "off + 1" "pre @ r" "drop (dent_size e) out", OF _ this] Cons.prems(1) rne obtain k bs rest where
      IH: "k \<le> length es" "dirent_loop func es (off + 1) (pre @ r) (drop (dent_size e) out) =
        (Inr (length (pre @ r) + length bs), off + 1 + of_nat k, (pre @ r) @ bs @ rest)"
        "length bs + length rest = length (drop (dent_size e) out)" "parse_dents dec bs = dents_of (unat (off + 1)) (take k es)"
      by auto
    have "le_at (r @ bs) 16 2 = dent_size e" using r(2,3) e(2) d25 by (simp add: le_at_def)
    then have "parse_dents dec (r @ bs) = dec r # parse_dents dec bs"
      using rne r(2) d25 by (subst parse_dents.simps) (simp add: Let_def)
    then have "parse_dents dec (r @ bs) = dents_of (unat off) (take (Suc k) (e # es))"
      using r(4) e(1) IH(4) off1 by (simp add: dents_of_def)
    moreover have "dirent_loop func (e # es) off pre out =
        (Inr (length pre + length (r @ bs)), off + of_nat (Suc k), pre @ (r @ bs) @ rest)"
      using r(1,2) IH(2) by (simp add: add.assoc)
    moreover have "length (r @ bs) + length rest = length out" using IH(3) r(2) True by simp
    ultimately show ?thesis using IH(1) rne by (intro exI [of _ "Suc k"] exI [of _ "r @ bs"] exI [of _ rest]) simp
  qed
qed

end

text \<open>How a program lists a directory: it calls until nothing more is returned.\<close>

fun list_dir :: "nat \<Rightarrow> (byte list \<Rightarrow> 'w io_state \<Rightarrow> int \<times> byte list \<times> 'w io_state) \<Rightarrow> (byte list \<Rightarrow> dent_info) \<Rightarrow> byte list
    \<Rightarrow> 'w io_state \<Rightarrow> (dent_info list \<times> 'w io_state) option" where
  "list_dir 0 call dec buf s = None"
| "list_dir (Suc fuel) call dec buf s =
     (case call buf s of
        (r, buf', s') \<Rightarrow>
          if r < 0 then None
          else if r = 0 then Some ([], s')
          else map_option (\<lambda>(es, t). (parse_dents dec (take (nat r) buf') @ es, t)) (list_dir fuel call dec buf' s'))"

context dirent_format
begin

lemma list_dir_complete:
  assumes get: "ft_Get fd (io_tbl s) = Some f" "fl_type (io_files s f) = kDirectory" "fl_ino (io_files s f) = Some d"
    and ents: "mw_dirs (io_world s) d = ents" "\<forall>e\<in>set ents. name_ok e \<and> dent_size e \<le> length buf" "length ents < 2 ^ 63"
    and off: "unat (fl_off (io_files s f)) \<le> length ents" and fuel: "length ents - unat (fl_off (io_files s f)) < fuel"
  shows "\<exists>s'. list_dir fuel (do_getdents func mem_vtable fd) dec buf s =
      Some (dents_of (unat (fl_off (io_files s f))) (drop (unat (fl_off (io_files s f))) ents), s')"
  using assms
proof (induction fuel arbitrary: s buf)
  case (Suc fuel)
  let ?off = "fl_off (io_files s f)" and ?es = "drop (unat (fl_off (io_files s f))) ents"
  have "hd ?es \<in> set ents" if "?es \<noteq> []" using that by (meson hd_in_set in_set_dropD)
  then have "?es \<noteq> [] \<longrightarrow> dent_size (hd ?es) \<le> length buf" using Suc.prems(5) by auto
  moreover have "\<forall>e\<in>set ?es. name_ok e" using Suc.prems(5) by (meson in_set_dropD)
  moreover have "unat ?off + length ?es < 2 ^ 64" using Suc.prems(6,7) by simp
  ultimately obtain k bs rest where L: "k \<le> length ?es" "dirent_loop func ?es ?off [] buf =
      (Inr (length bs), ?off + of_nat k, bs @ rest)" "length bs + length rest = length buf"
      "parse_dents dec bs = dents_of (unat ?off) (take k ?es)" "?es \<noteq> [] \<longrightarrow> 0 < k" "bs = [] \<longleftrightarrow> k = 0"
    using loop_lists [of ?es ?off "[]" buf] by auto
  have call: "do_getdents func mem_vtable fd buf s = (int (length bs), bs @ rest, set_off f (?off + of_nat k) s)"
    using Suc.prems(1-4) L(2) by (simp add: do_getdents_def mem_vtable_def DoDirent_def)
  show ?case
  proof (cases "k = 0")
    case True
    then have "?es = []" using L(5) by auto
    moreover have "bs = []" using True L(6) by simp
    ultimately show ?thesis using call by (simp add: dents_of_def)
  next
    case False
    let ?s = "set_off f (?off + of_nat k) s"
    have o: "unat (?off + of_nat k) = unat ?off + k"
      using L(1) Suc.prems(6,7) by (subst unat_add_no_wrap) (simp_all add: unat_of_nat take_bit_nat_eq_self)
    have "\<exists>s'. list_dir fuel (do_getdents func mem_vtable fd) dec (bs @ rest) ?s =
        Some (dents_of (unat (fl_off (io_files ?s f))) (drop (unat (fl_off (io_files ?s f))) ents), s')"
      using Suc.prems L(1,3) o False by (intro Suc.IH) auto
    moreover have "dents_of (unat ?off) ?es = dents_of (unat ?off) (take k ?es) @ dents_of (unat ?off + k) (drop (unat ?off + k) ents)"
      using dents_of_append [of "unat ?off" "take k ?es" "drop k ?es", unfolded append_take_drop_id] L(1)
      by (simp add: add.commute)
    moreover have "bs \<noteq> []" using False L(6) by simp
    ultimately show ?thesis using call L(4) o by auto
  qed
qed simp

end

text \<open>
  C27: A program that reads a directory until a call returns nothing gets every entry exactly once and in order, with its
  number, its type and its name, in at most as many calls as there are entries and one more, whatever the buffer held
  and however many records fit into it, as long as the largest one does.  The same holds for both record formats.
\<close>

theorem getdents_lists_all:
  assumes "ft_Get fd (io_tbl s) = Some f" "fl_type (io_files s f) = kDirectory" "fl_ino (io_files s f) = Some d"
    and "fl_off (io_files s f) = 0" "mw_dirs (io_world s) d = ents" "length ents < 2 ^ 63"
    and "\<forall>e\<in>set ents. name_ok e \<and> dent_size e \<le> length buf"
  shows "(\<exists>s'. list_dir (length ents + 1) (usys_getdents64 mem_vtable fd) dec_dent64 buf s = Some (dents_of 0 ents, s')) \<and>
    (\<exists>s'. list_dir (length ents + 1) (usys_getdents mem_vtable fd) dec_dent buf s = Some (dents_of 0 ents, s'))"
  using dent64.list_dir_complete [OF assms(1-3,5,7,6), of "length ents + 1"]
    dent.list_dir_complete [OF assms(1-3,5,7,6), of "length ents + 1"] assms(4)
  by (simp add: usys_getdents_def usys_getdents64_def)

definition demo_dir_io :: "mem_world io_state" where
  "demo_dir_io = demo_io\<lparr>io_files := (\<lambda>_. \<lparr>fl_type = kDirectory, fl_flags = 0, fl_mode = kRead, fl_off = 0, fl_ino = Some 7\<rparr>),
     io_world := \<lparr>mw_inodes = (\<lambda>_. mf_empty), mw_dirs = (\<lambda>_. [\<lparr>de_name = ''a'', de_inum = 3, de_type = 0x8000\<rparr>,
       \<lparr>de_name = ''bc'', de_inum = 4, de_type = 0x4000\<rparr>])\<rparr>\<rparr>"

theorem getdents_lists_all_witness:
  "\<exists>s'. list_dir 3 (usys_getdents64 mem_vtable 0) dec_dent64 (replicate 40 1) demo_dir_io =
     Some ([(3, 0, 8, ''a''), (4, 1, 4, ''bc'')], s')"
proof -
  have "ft_Get 0 (io_tbl demo_dir_io) = Some 5"
    using demo_io_slots(2) ft_Get_slot [of 0 "io_tbl demo_io"] by (simp add: demo_dir_io_def)
  note T = getdents_lists_all [OF this, of 7]
  let ?ents = "[\<lparr>de_name = ''a'', de_inum = 3, de_type = 0x8000\<rparr>, \<lparr>de_name = ''bc'', de_inum = 4, de_type = 0x4000\<rparr>]"
  have "dents_of 0 ?ents = [(3, 0, 8, ''a''), (4, 1, 4, ''bc'')]"
    by (simp add: dents_of_def dent_of_def)
  moreover have "\<forall>e\<in>set ?ents. name_ok e \<and> dent_size e \<le> length (replicate 40 (1 :: byte))"
    by (simp add: name_ok_def dent_size_def)
  ultimately show ?thesis using T [of ?ents "replicate 40 1"] by (simp add: demo_dir_io_def numeral_3_eq_3)
qed

section \<open>Where the calls leave the specification\<close>

text \<open>At the end of the file nothing is read, and zeros are sent.\<close>

lemma sendfile_at_end:
  assumes "file_for is_writeable out_fd s = Some fout" "file_for (\<lambda>f. is_readable f \<and> fl_type f \<noteq> kSocket) in_fd s = Some fin"
    and "v_Read vt (io_files s fin) count off (io_world s) = Some (Inr ([], off), io_world s)"
  shows "usys_sendfile vt out_fd in_fd (Some off) count s =
    map_option (\<lambda>(r, t). (r, Some off, t)) (usys_write vt out_fd (replicate count 0) s)"
  using assms by (simp add: usys_sendfile_def usys_write_def Let_def)

text \<open>A seek before the start succeeds with what looks like an error number, and the next read leaves the file's memory.\<close>

lemma lseek_before_start:
  assumes "ft_Get fd (io_tbl s) = Some f" "fl_type (io_files s f) = kNormal" "fl_ino (io_files s f) = Some i"
    and "fl_off (io_files s f) = 0" "is_readable (io_files s f)"
  shows "fst (usys_lseek mem_vtable fd (- 1) SEEK_CUR s) = - 1"
    and "usys_read mem_vtable fd n (snd (usys_lseek mem_vtable fd (- 1) SEEK_CUR s)) = None"
proof -
  have "v_Seek mem_vtable (io_files s f) (- 1) SEEK_CUR (io_world s) = Inr (- 1)"
    using assms by (simp add: mem_vtable_def SeekableFile_Seek_def SEEK_SET_def SEEK_CUR_def)
  then have L: "usys_lseek mem_vtable fd (- 1) SEEK_CUR s = (- 1, set_off f (- 1) s)"
    using assms by (simp add: usys_lseek_def)
  then show "fst (usys_lseek mem_vtable fd (- 1) SEEK_CUR s) = - 1" by simp
  have "mf_Read (of_nat n) (- 1) I = None" for I :: MemInode 
    by (simp add: mf_Read_def Let_def kMax_unat unsigned_minus_1_eq_mask mask_eq_exp_minus_1)
  then show "usys_read mem_vtable fd n (snd (usys_lseek mem_vtable fd (- 1) SEEK_CUR s)) = None"
    using assms L by (simp add: usys_read_def file_for_def ret_bytes_def mem_vtable_def mem_Read_def is_readable_def set_off_def)
qed

end
