(* ===== verification/Snapshot.thy ===== *)
theory Snapshot
  imports Elf
begin

text \<open>
  Snapshots of a process's memory as an ELF image (\<^verbatim>\<open>src/junction/snapshot/snapshot.h\<close>,
  \<^verbatim>\<open>src/junction/snapshot/snapshot.cc\<close>, \<^verbatim>\<open>src/junction/snapshot/snapshot_elf.cc\<close>).

  The memory is a function from addresses to bytes.  Writing an image yields the bytes of the file.  The image is loaded
  by the functions of the theory \<open>Elf\<close>; the theorem says that the loaded process finds its bytes where they were.
  The state of the kernel that is saved next to the memory is not modelled.
\<close>

type_synonym memory = "u64 \<Rightarrow> byte"

section \<open>What is saved\<close>

definition mem_bytes :: "memory \<Rightarrow> u64 \<Rightarrow> nat \<Rightarrow> byte list" where
  "mem_bytes mem p n = map (\<lambda>i. mem (p + of_nat i)) [0 ..< n]"

definition word_zero :: "memory \<Rightarrow> u64 \<Rightarrow> nat \<Rightarrow> bool" where
  "word_zero mem p i \<longleftrightarrow> list_all (\<lambda>b. b = 0) (mem_bytes mem (p + of_nat (8 * i)) 8)"

text \<open>The search for the last word that is not zero, from the end.\<close>

fun min_words :: "memory \<Rightarrow> u64 \<Rightarrow> nat \<Rightarrow> nat" where
  "min_words mem p 0 = 0"
| "min_words mem p (Suc n) = (if word_zero mem p n then min_words mem p n else Suc n)"

definition GetMinSize :: "memory \<Rightarrow> u64 \<Rightarrow> u64 \<Rightarrow> u64" where
  "GetMinSize mem p len = of_nat (8 * min_words mem p ((unat len + 7) div 8))"

record FSMemoryArea =
  fs_ptr :: u64
  fs_in_use :: u64
  fs_max :: u64

text \<open>An area of the memory map or of a file in memory: where it lies, how much of it has data and how long it is.\<close>

record snap_area =
  sa_start :: u64
  sa_prot :: i32
  sa_data :: u64
  sa_len :: u64

definition vma_area :: "(nat \<Rightarrow> u64) \<Rightarrow> VMArea \<Rightarrow> snap_area" where
  "vma_area get_size v = \<lparr>sa_start = va_start v, sa_prot = va_prot v, sa_data = DataLength get_size v, sa_len = Length v\<rparr>"

definition fs_area :: "FSMemoryArea \<Rightarrow> snap_area" where
  "fs_area a = \<lparr>sa_start = fs_ptr a, sa_prot = PROT_READ OR PROT_WRITE, sa_data = fs_in_use a, sa_len = fs_max a\<rparr>"

definition saved_size :: "memory \<Rightarrow> 'a snap_area_scheme \<Rightarrow> u64" where
  "saved_size mem a = PageAlign (GetMinSize mem (sa_start a) (sa_data a))"

definition make_readable :: "kernel \<Rightarrow> snap_area \<Rightarrow> unit Status" where
  "make_readable k a =
     (if sa_data a \<noteq> 0 \<and> sa_prot a AND PROT_READ = 0 then KernelMProtect k (sa_start a) (sa_data a) (sa_prot a OR PROT_READ)
      else Inr ())"

fun RestoreVMAProtections :: "kernel \<Rightarrow> (nat \<Rightarrow> u64) \<Rightarrow> VMArea list \<Rightarrow> unit Status" where
  "RestoreVMAProtections k get_size [] = Inr ()"
| "RestoreVMAProtections k get_size (v # vs) =
     (if va_prot v AND PROT_READ \<noteq> 0 \<or> DataLength get_size v = 0 then RestoreVMAProtections k get_size vs
      else case KernelMProtect k (va_start v) (DataLength get_size v) (va_prot v) of
          Inl e \<Rightarrow> Inl e
        | Inr _ \<Rightarrow> RestoreVMAProtections k get_size vs)"

section \<open>ELF images\<close>

definition elf_flags :: "i32 \<Rightarrow> u32" where
  "elf_flags prot =
     (if prot AND PROT_EXEC \<noteq> 0 then kFlagExec else 0) OR
     (if prot AND PROT_WRITE \<noteq> 0 then kFlagWrite else 0) OR
     (if prot AND PROT_READ \<noteq> 0 then kFlagRead else 0)"

definition snap_phdr :: "memory \<Rightarrow> u64 \<Rightarrow> snap_area \<Rightarrow> elf_phdr" where
  "snap_phdr mem offset a = \<lparr>ph_type = kPTypeLoad, ph_flags = elf_flags (sa_prot a), ph_offset = offset,
     ph_vaddr = sa_start a, ph_paddr = 0, ph_filesz = saved_size mem a, ph_memsz = sa_len a, ph_align = kPageSize\<rparr>"

text \<open>One header and its data per area.  Only the areas of the memory map may have to be made readable.\<close>

fun elf_sections :: "kernel \<Rightarrow> memory \<Rightarrow> bool \<Rightarrow> snap_area list \<Rightarrow> u64 \<Rightarrow> ((elf_phdr \<times> byte list) list \<times> u64) Status" where
  "elf_sections k mem vma [] offset = Inr ([], offset)"
| "elf_sections k mem vma (a # as) offset =
     (case (if vma then make_readable k a else Inr ()) of
        Inl e \<Rightarrow> Inl e
      | Inr _ \<Rightarrow>
          (case elf_sections k mem vma as (offset + saved_size mem a) of
             Inl e \<Rightarrow> Inl e
           | Inr (secs, off) \<Rightarrow>
               Inr ((snap_phdr mem offset a, mem_bytes mem (sa_start a) (unat (saved_size mem a))) # secs, off)))"

definition GetElfPHDRs :: "kernel \<Rightarrow> (nat \<Rightarrow> u64) \<Rightarrow> memory \<Rightarrow> VMArea list \<Rightarrow> FSMemoryArea list
    \<Rightarrow> (elf_phdr \<times> byte list) list Status" where
  "GetElfPHDRs k get_size mem vmas fs =
     (let offset = PageAlign (of_nat ((length vmas + length fs) * elf_phdr_size + elf_header_size)) in
      case elf_sections k mem True (map (vma_area get_size) vmas) offset of
        Inl e \<Rightarrow> Inl e
      | Inr (s1, off) \<Rightarrow>
          (case elf_sections k mem False (map fs_area fs) off of
             Inl e \<Rightarrow> Inl e
           | Inr (s2, _) \<Rightarrow> Inr (s1 @ s2)))"

definition elf_header_bytes :: "elf_header \<Rightarrow> byte list" where
  "elf_header_bytes h = eh_magic h @ le_enc 2 (unat (eh_type h)) @ le_enc 2 (unat (eh_machine h)) @
     le_enc 4 (unat (eh_version h)) @ le_enc 8 (unat (eh_entry h)) @ le_enc 8 (unat (eh_phoff h)) @
     le_enc 8 (unat (eh_shoff h)) @ le_enc 4 (unat (eh_flags h)) @ le_enc 2 (unat (eh_ehsize h)) @
     le_enc 2 (unat (eh_phsize h)) @ le_enc 2 (unat (eh_phnum h)) @ le_enc 2 (unat (eh_shsize h)) @
     le_enc 2 (unat (eh_shnum h)) @ le_enc 2 (unat (eh_shstrndx h))"

definition elf_phdr_bytes :: "elf_phdr \<Rightarrow> byte list" where
  "elf_phdr_bytes p = le_enc 4 (unat (ph_type p)) @ le_enc 4 (unat (ph_flags p)) @ le_enc 8 (unat (ph_offset p)) @
     le_enc 8 (unat (ph_vaddr p)) @ le_enc 8 (unat (ph_paddr p)) @ le_enc 8 (unat (ph_filesz p)) @
     le_enc 8 (unat (ph_memsz p)) @ le_enc 8 (unat (ph_align p))"

definition snap_header :: "nat \<Rightarrow> elf_header" where
  "snap_header n = \<lparr>eh_magic = [0x7f, 0x45, 0x4c, 0x46, 2, 1, 1] @ replicate 9 0, eh_type = kETypeExec, eh_machine = 62,
     eh_version = 1, eh_entry = 0, eh_phoff = of_nat elf_header_size, eh_shoff = 0, eh_flags = 0,
     eh_ehsize = of_nat elf_header_size, eh_phsize = of_nat elf_phdr_size, eh_phnum = of_nat n, eh_shsize = 0, eh_shnum = 0,
     eh_shstrndx = 0\<rparr>"

text \<open>The bytes that \<open>WritevFull\<close> puts into the file.\<close>

definition elf_image :: "(elf_phdr \<times> byte list) list \<Rightarrow> byte list" where
  "elf_image secs =
     (let header_size = elf_header_size + length secs * elf_phdr_size;
          padding = unat (PageAlign (of_nat header_size)) - header_size
      in elf_header_bytes (snap_header (length secs)) @ concat (map (elf_phdr_bytes \<circ> fst) secs) @ replicate padding 0 @
         concat (map snd secs))"

text \<open>
  \<open>opened\<close> and \<open>written\<close> are the outcomes of opening and of writing the file.  The file is \<open>Some\<close> bytes once it was written
  completely.
\<close>

definition SnapshotElf :: "kernel \<Rightarrow> unit Status \<Rightarrow> unit Status \<Rightarrow> (nat \<Rightarrow> u64) \<Rightarrow> memory \<Rightarrow> VMArea list \<Rightarrow> FSMemoryArea list
    \<Rightarrow> unit Status \<times> byte list option" where
  "SnapshotElf k opened written get_size mem vmas fs =
     (case GetElfPHDRs k get_size mem vmas fs of
        Inl e \<Rightarrow> (Inl e, None)
      | Inr secs \<Rightarrow>
          (case opened of
             Inl e \<Rightarrow> (Inl e, None)
           | Inr _ \<Rightarrow>
               (case written of
                  Inl e \<Rightarrow> (Inl e, None)
                | Inr _ \<Rightarrow> (RestoreVMAProtections k get_size vmas, Some (elf_image secs)))))"

text \<open>Loading a program that need not be relocatable; the image of a snapshot is not.\<close>

definition LoadELF :: "loader_env \<Rightarrow> JunctionFile \<Rightarrow> elf_data ld" where
  "LoadELF env f s =
     (case CheckELFLoad env False f of
        None \<Rightarrow> None
      | Some (Inl e, _) \<Rightarrow> Some (Inl e, s)
      | Some (Inr hdr, f') \<Rightarrow> DoELFLoad env hdr f' s)"

section \<open>Trailing zeros\<close>

lemma length_mem_bytes [simp]: "length (mem_bytes mem p n) = n"
  by (simp add: mem_bytes_def)

lemma nth_mem_bytes [simp]: "i < n \<Longrightarrow> mem_bytes mem p n ! i = mem (p + of_nat i)"
  by (simp add: mem_bytes_def)

lemma min_words_zero: "min_words mem p n \<le> n \<and> (\<forall>i. min_words mem p n \<le> i \<and> i < n \<longrightarrow> word_zero mem p i)"
proof (induction n)
  case (Suc n)
  then show ?case by (auto simp: less_Suc_eq)
qed simp

lemma min_words_bound: "8 * min_words mem p ((n + 7) div 8) \<le> n + 7"
proof -
  have "8 * min_words mem p ((n + 7) div 8) \<le> 8 * ((n + 7) div 8)" using min_words_zero by (intro mult_le_mono2) blast
  then show ?thesis by linarith
qed

lemma GetMinSize_spec:
  assumes "unat len + 7 < 2 ^ 64"
  shows "unat (GetMinSize mem p len) \<le> unat len + 7"
    "\<forall>j. unat (GetMinSize mem p len) \<le> j \<and> j < unat len \<longrightarrow> mem (p + of_nat j) = 0"
proof -
  let ?m = "min_words mem p ((unat len + 7) div 8)"
  have le: "8 * ?m \<le> unat len + 7" by (rule min_words_bound)
  then have u: "unat (GetMinSize mem p len) = 8 * ?m"
    using assms by (simp add: GetMinSize_def unat_of_nat take_bit_nat_eq_self del: of_nat_mult)
  then show "unat (GetMinSize mem p len) \<le> unat len + 7" using le by simp
  show "\<forall>j. unat (GetMinSize mem p len) \<le> j \<and> j < unat len \<longrightarrow> mem (p + of_nat j) = 0"
  proof (intro allI impI)
    fix j
    assume j: "unat (GetMinSize mem p len) \<le> j \<and> j < unat len"
    have "?m \<le> j div 8" "j div 8 < (unat len + 7) div 8" using j u by linarith+
    then have "word_zero mem p (j div 8)" using min_words_zero by blast
    then have "mem_bytes mem (p + of_nat (8 * (j div 8))) 8 ! (j mod 8) = 0"
      unfolding word_zero_def list_all_length by simp
    then have "mem (p + of_nat (8 * (j div 8)) + of_nat (j mod 8)) = 0" by simp
    moreover have "p + of_nat (8 * (j div 8)) + of_nat (j mod 8) = p + of_nat j"
      by (metis (no_types, lifting) add.assoc mult_div_mod_eq of_nat_add)
    ultimately show "mem (p + of_nat j) = 0" by metis
  qed
qed

definition area_ok :: "'a snap_area_scheme \<Rightarrow> bool" where
  "area_ok a \<longleftrightarrow> IsPageAligned (sa_start a) \<and> IsPageAligned (sa_len a) \<and> sa_data a \<le> sa_len a \<and> 0 < sa_len a \<and>
     unat (sa_start a) + unat (sa_len a) \<le> 2 ^ 47"

lemma saved_size_spec:
  assumes "area_ok a"
  shows "IsPageAligned (saved_size mem a)" "saved_size mem a \<le> sa_len a"
    "\<forall>j. unat (saved_size mem a) \<le> j \<and> j < unat (sa_data a) \<longrightarrow> mem (sa_start a + of_nat j) = 0"
proof -
  have d: "unat (sa_data a) \<le> unat (sa_len a)" "unat (sa_len a) \<le> 2 ^ 47"
    using assms by (auto simp: area_ok_def word_le_nat_alt)
  note G = GetMinSize_spec [of "sa_data a" mem "sa_start a"]
  have g: "unat (GetMinSize mem (sa_start a) (sa_data a)) \<le> unat (sa_len a) + 7" using G(1) d by simp
  have P: "unat (saved_size mem a) = (unat (GetMinSize mem (sa_start a) (sa_data a)) + 4095) div 4096 * 4096"
    unfolding saved_size_def using g d by (intro PageAlign_unat) simp
  show "IsPageAligned (saved_size mem a)" by (simp add: saved_size_def)
  obtain q where q: "unat (sa_len a) = 4096 * q" using assms by (auto simp: area_ok_def IsPageAligned_unat elim: dvdE)
  have "8 dvd unat (GetMinSize mem (sa_start a) (sa_data a))"
    using d min_words_bound [of mem "sa_start a" "unat (sa_data a)"]
    by (simp add: GetMinSize_def unat_of_nat take_bit_nat_eq_self del: of_nat_mult)
  then obtain r where r: "unat (GetMinSize mem (sa_start a) (sa_data a)) = 8 * r" by (auto elim: dvdE)
  have "8 * r < 8 * Suc (512 * q)" using g q r by simp
  then have "8 * r \<le> 4096 * q" by simp
  then have "unat (GetMinSize mem (sa_start a) (sa_data a)) \<le> unat (sa_len a)" using q r by simp
  then show "saved_size mem a \<le> sa_len a" unfolding word_le_nat_alt P q
    using div_le_mono [of "unat (GetMinSize mem (sa_start a) (sa_data a)) + 4095" "4096 * q + 4095" 4096] by simp
  show "\<forall>j. unat (saved_size mem a) \<le> j \<and> j < unat (sa_data a) \<longrightarrow> mem (sa_start a + of_nat j) = 0"
    using G(2) d P by fastforce
qed

section \<open>The layout of an image\<close>

fun sections_of :: "memory \<Rightarrow> u64 \<Rightarrow> snap_area list \<Rightarrow> (elf_phdr \<times> byte list) list" where
  "sections_of mem offset [] = []"
| "sections_of mem offset (a # as) =
     (snap_phdr mem offset a, mem_bytes mem (sa_start a) (unat (saved_size mem a))) # sections_of mem (offset + saved_size mem a) as"

definition saved_total :: "memory \<Rightarrow> snap_area list \<Rightarrow> nat" where
  "saved_total mem as = sum_list (map (\<lambda>a. unat (saved_size mem a)) as)"

lemma saved_total_simps [simp]:
  "saved_total mem [] = 0" "saved_total mem (a # as) = unat (saved_size mem a) + saved_total mem as"
  "saved_total mem (as @ bs) = saved_total mem as + saved_total mem bs"
  by (simp_all add: saved_total_def)

lemma elf_sections_of:
  "elf_sections k mem vma as offset = Inr (secs, off) \<Longrightarrow>
     secs = sections_of mem offset as \<and> off = offset + of_nat (saved_total mem as)"
proof (induction as arbitrary: offset secs)
  case (Cons a as)
  then obtain s2 where r: "elf_sections k mem vma as (offset + saved_size mem a) = Inr (s2, off)"
    "secs = (snap_phdr mem offset a, mem_bytes mem (sa_start a) (unat (saved_size mem a))) # s2"
    by (auto split: sum.splits prod.splits if_splits)
  show ?case using Cons.IH [OF r(1)] r(2) by (simp add: add.assoc)
qed simp

lemma sections_of_append:
  "sections_of mem offset (as @ bs) = sections_of mem offset as @ sections_of mem (offset + of_nat (saved_total mem as)) bs"
  by (induction as arbitrary: offset) (simp_all add: add.assoc)

lemma length_sections_of [simp]: "length (sections_of mem offset as) = length as"
  by (induction as arbitrary: offset) simp_all

lemma sections_data: "length (concat (map snd (sections_of mem offset as))) = saved_total mem as"
  by (induction as arbitrary: offset) simp_all

definition snap_areas :: "(nat \<Rightarrow> u64) \<Rightarrow> VMArea list \<Rightarrow> FSMemoryArea list \<Rightarrow> snap_area list" where
  "snap_areas get_size vmas fs = map (vma_area get_size) vmas @ map fs_area fs"

definition data_start :: "nat \<Rightarrow> u64" where
  "data_start n = PageAlign (of_nat (n * elf_phdr_size + elf_header_size))"

lemma GetElfPHDRs_sections:
  assumes "GetElfPHDRs k get_size mem vmas fs = Inr secs"
  shows "secs = sections_of mem (data_start (length (snap_areas get_size vmas fs))) (snap_areas get_size vmas fs)"
  using assms
  by (auto simp: GetElfPHDRs_def Let_def snap_areas_def sections_of_append data_start_def
      dest!: elf_sections_of split: sum.splits prod.splits)

lemma length_phdr_bytes [simp]: "length (elf_phdr_bytes p) = 56"
  by (simp add: elf_phdr_bytes_def)

lemma length_header_bytes [simp]: "length (elf_header_bytes (snap_header n)) = 64"
  by (simp add: elf_header_bytes_def snap_header_def)

lemma length_phdrs_bytes [simp]: "length (concat (map (elf_phdr_bytes \<circ> fst) secs)) = 56 * length secs"
  by (induction secs) simp_all

text \<open>Decoding gives back what was encoded.\<close>

lemma le_at_append:
  "length xs = off \<Longrightarrow> len \<le> length ys \<Longrightarrow> le_at (xs @ ys) off len = le_at ys 0 len"
  "k \<le> off \<Longrightarrow> length xs = k \<Longrightarrow> le_at (xs @ ys) off len = le_at ys (off - k) len"
  "le_at (le_enc n x @ ys) 0 n = x mod 256 ^ n"
  by (simp_all add: le_at_def)

lemma elf_header_decodes:
  assumes "n < 2 ^ 16"
  shows "elf_header_of (elf_header_bytes (snap_header n)) = snap_header n" "HeaderIsValid (snap_header n)"
  using assms
  by (simp_all add: elf_header_of_def elf_header_bytes_def snap_header_def le_at_def HeaderIsValid_def elf_header_size_def
      elf_phdr_size_def kETypeExec_def unat_of_nat take_bit_nat_eq_self)

lemma elf_phdr_decodes: "elf_phdr_of (elf_phdr_bytes p @ rest) = p"
  by (simp add: elf_phdr_of_def elf_phdr_bytes_def le_at_def)

lemma elf_phdrs_decode:
  "map (\<lambda>i. elf_phdr_of (drop (i * 56) (concat (map (elf_phdr_bytes \<circ> fst) secs) @ rest))) [0 ..< length secs] = map fst secs"
proof (induction secs)
  case (Cons s secs)
  let ?X = "concat (map (elf_phdr_bytes \<circ> fst) secs) @ rest"
  have d: "drop (Suc i * 56) (elf_phdr_bytes (fst s) @ Y) = drop (i * 56) Y" for i Y by simp
  have "map (\<lambda>i. elf_phdr_of (drop (i * 56) (elf_phdr_bytes (fst s) @ ?X))) [0 ..< Suc (length secs)] =
      elf_phdr_of (elf_phdr_bytes (fst s) @ ?X) # map (\<lambda>i. elf_phdr_of (drop (i * 56) ?X)) [0 ..< length secs]"
    by (simp only: upt_conv_Cons zero_less_Suc map_Suc_upt [symmetric] list.map map_map comp_def d mult_zero_left drop0)
  then show ?case using Cons.IH by (simp only: elf_phdr_decodes length_Cons list.map concat.simps append_assoc comp_def)
qed simp

lemma elf_image_parts:
  assumes "n = length as" "n < 2 ^ 16"
  shows "elf_image (sections_of mem (data_start n) as) =
      elf_header_bytes (snap_header n) @ concat (map (elf_phdr_bytes \<circ> fst) (sections_of mem (data_start n) as)) @
      replicate (unat (data_start n) - (64 + 56 * n)) 0 @ concat (map snd (sections_of mem (data_start n) as))"
    and "64 + 56 * n \<le> unat (data_start n)" "IsPageAligned (data_start n)"
proof -
  have u: "unat (of_nat (n * 56 + 64) :: u64) = n * 56 + 64"
    using assms(2) by (simp add: unat_of_nat take_bit_nat_eq_self del: of_nat_add of_nat_mult)
  have "of_nat (n * 56 + 64) \<le> (PageAlign (of_nat (n * 56 + 64)) :: u64)" using u assms(2) by (intro PageAlign_ge) simp
  then show "64 + 56 * n \<le> unat (data_start n)"
    using u by (simp add: data_start_def elf_phdr_size_def elf_header_size_def word_le_nat_alt del: of_nat_add of_nat_mult)
  show "IsPageAligned (data_start n)" by (simp add: data_start_def)
  have e: "of_nat (64 + n * 56) = (of_nat (n * 56 + 64) :: u64)" by simp
  show "elf_image (sections_of mem (data_start n) as) =
      elf_header_bytes (snap_header n) @ concat (map (elf_phdr_bytes \<circ> fst) (sections_of mem (data_start n) as)) @
      replicate (unat (data_start n) - (64 + 56 * n)) 0 @ concat (map snd (sections_of mem (data_start n) as))"
    unfolding elf_image_def Let_def length_sections_of assms(1) [symmetric] elf_header_size_def elf_phdr_size_def e
    by (simp add: data_start_def elf_phdr_size_def elf_header_size_def mult.commute)
qed

lemma sections_valid:
  assumes "list_all area_ok as" "IsPageAligned off"
  shows "list_all phdr_valid (map fst (sections_of mem off as))"
  using assms
proof (induction as arbitrary: off)
  case (Cons a as)
  have ok: "area_ok a" using Cons.prems by simp
  have al: "x AND 4095 = 0" if "IsPageAligned x" for x :: u64
  proof -
    have "x AND mask 12 = 0"
      using that by (simp add: IsPageAligned_unat word_unat_eq_iff take_bit_eq_mod unat_mod_distrib flip: take_bit_eq_mask)
    then show ?thesis by (simp add: mask_eq_exp_minus_1)
  qed
  have "phdr_valid (snap_phdr mem off a)"
    using saved_size_spec(2) [OF ok, of mem] al [OF Cons.prems(2)] al [of "sa_start a"] ok
    by (simp add: phdr_valid_def snap_phdr_def has_single_bit_def kPageSize_def area_ok_def not_less)
  moreover have "IsPageAligned (off + saved_size mem a)" using Cons.prems(2) saved_size_spec(1) [OF ok] by (rule aligned_add)
  ultimately show ?case using Cons by simp
qed simp


lemma snapshot_header_reads:
  assumes "program_file env f (elf_image (sections_of mem (data_start n) as))" "n = length as" "n < 2 ^ 16"
  shows "CheckELFLoad env False \<lparr>jf_file = f, jf_off = 0\<rparr> = Some (Inr (snap_header n), \<lparr>jf_file = f, jf_off = 64\<rparr>)"
proof -
  let ?I = "elf_image (sections_of mem (data_start n) as)"
  have t: "take 64 (drop (unat (0 :: u64)) ?I) = elf_header_bytes (snap_header n)"
    unfolding elf_image_parts(1) [OF assms(2,3)] by simp
  have l: "64 \<le> length ?I" unfolding elf_image_parts(1) [OF assms(2,3)] by simp
  have "jf_ReadFull env 64 \<lparr>jf_file = f, jf_off = 0\<rparr> =
      Some (Inr (elf_header_bytes (snap_header n)), \<lparr>jf_file = f, jf_off = 64\<rparr>)"
    using program_file.read_full [OF assms(1), of 0 64] l unfolding t by simp
  then show ?thesis
    using elf_header_decodes [OF assms(3)]
    by (simp add: CheckELFLoad_def ReadHeader_def elf_header_size_def) (simp add: snap_header_def)
qed

lemma snapshot_phdrs_read:
  assumes "program_file env f (elf_image (sections_of mem (data_start n) as))" "n = length as" "n < 2 ^ 16"
    "env_Seek env f 64 = Inr 64" "list_all area_ok as"
  shows "\<exists>f'. jf_file f' = f \<and> ReadPHDRs env (snap_header n) \<lparr>jf_file = f, jf_off = 64\<rparr> =
      Some (Inr (map fst (sections_of mem (data_start n) as)), f')"
proof -
  let ?S = "sections_of mem (data_start n) as"
  let ?B = "concat (map (elf_phdr_bytes \<circ> fst) ?S)"
  have t: "take (n * 56) (drop (unat (64 :: u64)) (elf_image ?S)) = ?B"
    unfolding elf_image_parts(1) [OF assms(2,3)] using assms(2) by (simp add: mult.commute)
  have l: "64 + n * 56 \<le> length (elf_image ?S)"
    unfolding elf_image_parts(1) [OF assms(2,3)] using assms(2) by simp
  have "jf_ReadFull env (n * 56) \<lparr>jf_file = f, jf_off = 64\<rparr> =
      Some (Inr ?B, \<lparr>jf_file = f, jf_off = 64 + of_nat (n * 56)\<rparr>)"
    using program_file.read_full [OF assms(1), of 64 "n * 56"] l assms(3) unfolding t by simp
  moreover have "map (\<lambda>i. elf_phdr_of (drop (i * 56) ?B)) [0 ..< n] = map fst ?S"
    using elf_phdrs_decode [of ?S "[]"] assms(2) by simp
  ultimately show ?thesis
    using sections_valid [OF assms(5) elf_image_parts(3) [OF assms(2,3)], of mem] assms(3,4)
    by (simp add: ReadPHDRs_def Let_def jf_Seek_def snap_header_def elf_header_size_def elf_phdr_size_def
        unat_of_nat take_bit_nat_eq_self)
qed


section \<open>Loading an image\<close>

definition apart :: "'a snap_area_scheme \<Rightarrow> 'a snap_area_scheme \<Rightarrow> bool" where
  "apart a b \<longleftrightarrow> unat (sa_start a) + unat (sa_len a) \<le> unat (sa_start b) \<or>
     unat (sa_start b) + unat (sa_len b) \<le> unat (sa_start a)"

lemma fold_segment_view_last:
  assumes "PageAlignDown (ph_vaddr p + m) \<le> x" "x < PageAlign (ph_vaddr p + m + ph_memsz p)"
    "list_all (\<lambda>q. \<not> (PageAlignDown (ph_vaddr q + m) \<le> x \<and> x < PageAlign (ph_vaddr q + m + ph_memsz q))) qs"
  shows "fold (segment_view f m) (ps @ p # qs) view x = Some (segment_info f m p x)"
proof -
  have "fold (segment_view f m) qs v x = v x" for v
    using assms(3) by (induction qs arbitrary: v) (auto simp: segment_view_def)
  then show ?thesis using assms(1,2) by (simp add: segment_view_def)
qed

lemma and_bit_values:
  fixes w :: "32 word"
  shows "w AND 1 = (if bit w 0 then 1 else 0)" "w AND 2 = (if bit w 1 then 2 else 0)" "w AND 4 = (if bit w 2 then 4 else 0)"
proof -
  have e: "w AND 2 ^ n = (if bit w n then 2 ^ n else 0)" for n by (rule bit_eqI) (auto simp: bit_simps)
  show "w AND 1 = (if bit w 0 then 1 else 0)" "w AND 2 = (if bit w 1 then 2 else 0)" "w AND 4 = (if bit w 2 then 4 else 0)"
    using e [of 0] e [of 1] e [of 2] by (simp_all del: bit_0)
qed

lemma elf_flags_prot: "segment_prot (snap_phdr mem off a) = sa_prot a AND 7"
proof -
  have "sa_prot a AND 7 = (sa_prot a AND 1) OR (sa_prot a AND 2) OR (sa_prot a AND 4)"
    by (simp flip: bit.conj_disj_distrib)
  then show ?thesis
    unfolding segment_prot_def snap_phdr_def elf_flags_def mm_consts kFlagExec_def kFlagWrite_def kFlagRead_def
    by (simp add: and_bit_values(1) [of "sa_prot a"] and_bit_values(2,3) del: bit_0)
qed

lemma snap_phdr_range:
  assumes "area_ok a"
  shows "PageAlignDown (ph_vaddr (snap_phdr mem off a) + 0) = sa_start a"
    "PageAlign (ph_vaddr (snap_phdr mem off a) + 0 + ph_memsz (snap_phdr mem off a)) = sa_start a + sa_len a"
    "PageAlign (ph_vaddr (snap_phdr mem off a) + 0 + ph_filesz (snap_phdr mem off a)) = sa_start a + saved_size mem a"
    "segment_fits 0 (snap_phdr mem off a)"
    "unat (sa_start a + sa_len a) = unat (sa_start a) + unat (sa_len a)"
    "unat (sa_start a + saved_size mem a) = unat (sa_start a) + unat (saved_size mem a)"
proof -
  have ok: "IsPageAligned (sa_start a)" "IsPageAligned (sa_len a)" "unat (sa_start a) + unat (sa_len a) \<le> 2 ^ 47"
    using assms by (auto simp: area_ok_def)
  note S = saved_size_spec(1,2) [OF assms, of mem]
  show "PageAlignDown (ph_vaddr (snap_phdr mem off a) + 0) = sa_start a"
    using ok(1) by (simp add: snap_phdr_def IsPageAligned_unat word_unat_eq_iff PageAlignDown_unat)
  show "PageAlign (ph_vaddr (snap_phdr mem off a) + 0 + ph_memsz (snap_phdr mem off a)) = sa_start a + sa_len a"
    using aligned_add [OF ok(1,2)] by (simp add: snap_phdr_def PageAlign_of_aligned)
  show "PageAlign (ph_vaddr (snap_phdr mem off a) + 0 + ph_filesz (snap_phdr mem off a)) = sa_start a + saved_size mem a"
    using aligned_add [OF ok(1) S(1)] by (simp add: snap_phdr_def PageAlign_of_aligned)
  show "segment_fits 0 (snap_phdr mem off a)" using S(2) ok(3) by (simp add: segment_fits_def snap_phdr_def)
  show "unat (sa_start a + sa_len a) = unat (sa_start a) + unat (sa_len a)" using ok(3) by (simp add: unat_add_no_wrap)
  show "unat (sa_start a + saved_size mem a) = unat (sa_start a) + unat (saved_size mem a)"
    using ok(3) S(2) by (simp add: unat_add_no_wrap word_le_nat_alt)
qed

lemma sections_all:
  "list_all area_ok as \<Longrightarrow> (\<And>a off. area_ok a \<Longrightarrow> a \<in> set as \<Longrightarrow> P (snap_phdr mem off a)) \<Longrightarrow> list_all P (map fst (sections_of mem off as))"
  by (induction as arbitrary: off) simp_all


lemma image_data:
  fixes mem :: memory
  assumes "n = length as" "n < 2 ^ 16" "as = as1 @ a # as2" "j < unat (saved_size mem a)"
  defines "I \<equiv> elf_image (sections_of mem (data_start n) as)"
  assumes "length I < 2 ^ 64"
  shows "unat (data_start n + of_nat (saved_total mem as1) + of_nat j) = unat (data_start n) + saved_total mem as1 + j \<and>
    unat (data_start n) + saved_total mem as1 + j < length I \<and>
    I ! (unat (data_start n) + saved_total mem as1 + j) = mem (sa_start a + of_nat j)"
proof -
  let ?d = "unat (data_start n)" and ?t = "saved_total mem as1"
  let ?off = "data_start n + of_nat ?t"
  let ?S = "sections_of mem (data_start n) as"
  define pre where "pre = elf_header_bytes (snap_header n) @ concat (map (elf_phdr_bytes \<circ> fst) ?S) @ replicate (?d - (64 + 56 * n)) 0"
  define d1 where "d1 = concat (map snd (sections_of mem (data_start n) as1))"
  define rest where "rest = concat (map snd (sections_of mem (?off + saved_size mem a) as2))"
  have I: "I = pre @ d1 @ mem_bytes mem (sa_start a) (unat (saved_size mem a)) @ rest"
    unfolding I_def elf_image_parts(1) [OF assms(1,2)] pre_def d1_def rest_def by (simp add: assms(3) sections_of_append)
  have lp: "length pre = ?d" using elf_image_parts(2) [OF assms(1,2)] assms(1) by (simp add: pre_def)
  have ld: "length d1 = ?t" by (simp add: d1_def sections_data)
  have lt: "?d + ?t + j < length I" using assms(4) lp ld by (simp add: I)
  have "I ! (?d + ?t + j) = mem (sa_start a + of_nat j)" unfolding I using assms(4) lp ld by (simp add: nth_append)
  moreover have "unat (?off + of_nat j) = ?d + ?t + j"
  proof -
    have b: "?d + ?t + j < 2 ^ 64" using lt assms(6) by simp
    have "?off + of_nat j = of_nat (?d + ?t + j)" by simp
    then show ?thesis using b by (simp add: unat_of_nat take_bit_nat_eq_self del: of_nat_add)
  qed
  ultimately show ?thesis using lt by simp
qed

text \<open>The protection of an address and the byte that an access to it finds, for a process that maps the image.\<close>

definition found_byte :: "nat \<Rightarrow> byte list \<Rightarrow> (uintptr \<Rightarrow> vma_info option) \<Rightarrow> uintptr \<Rightarrow> (i32 \<times> byte) option" where
  "found_byte f img view x =
     (case view x of
        None \<Rightarrow> None
      | Some (prot, _, _, None) \<Rightarrow> Some (prot, 0)
      | Some (prot, _, _, Some (g, off)) \<Rightarrow>
          if g = Some f \<and> unat off < length img then Some (prot, img ! unat off) else None)"

lemma aligned_offset:
  "IsPageAligned off \<Longrightarrow> list_all area_ok as \<Longrightarrow> IsPageAligned (off + of_nat (saved_total mem as))"
proof (induction as arbitrary: off)
  case (Cons a as)
  show ?case using Cons.IH [of "off + saved_size mem a"] Cons.prems aligned_add saved_size_spec(1) [of a mem] by (simp add: add.assoc)
qed simp

lemma sections_view:
  fixes mem :: memory
  assumes "n = length as" "n < 2 ^ 16" "list_all area_ok as" "sorted_wrt apart as" "a \<in> set as" "j < unat (sa_len a)"
  defines "I \<equiv> elf_image (sections_of mem (data_start n) as)"
  assumes "length I < 2 ^ 64" "jf_file f = fid"
  shows "\<exists>b. found_byte fid I (fold (segment_view f 0) (map fst (sections_of mem (data_start n) as)) view) (sa_start a + of_nat j) =
      Some (sa_prot a AND 7, b) \<and> (j < unat (sa_data a) \<longrightarrow> b = mem (sa_start a + of_nat j))"
proof -
  obtain as1 as2 where as: "as = as1 @ a # as2" using assms(5) by (auto dest: split_list)
  have ok: "area_ok a" "list_all area_ok as2" "\<forall>b \<in> set as2. apart a b" using assms(3,4) as by (auto simp: sorted_wrt_append)
  let ?x = "sa_start a + of_nat j" and ?off = "data_start n + of_nat (saved_total mem as1)"
  let ?p = "snap_phdr mem ?off a"
  note R = snap_phdr_range [OF ok(1)]
  have len: "unat (sa_start a) + unat (sa_len a) \<le> 2 ^ 47" using ok(1) by (simp add: area_ok_def)
  have x: "unat ?x = unat (sa_start a) + j"
    using assms(6) len unat_add_no_wrap [of "sa_start a" "of_nat j"] by (simp add: unat_of_nat take_bit_nat_eq_self)
  have out: "\<not> (PageAlignDown (ph_vaddr q + 0) \<le> ?x \<and> ?x < PageAlign (ph_vaddr q + 0 + ph_memsz q))"
    if "area_ok b" "b \<in> set as2" "q = snap_phdr mem o2 b" for b q o2
    unfolding that(3) snap_phdr_range(1,2) [OF that(1)] using ok(3) that(2) x assms(6) snap_phdr_range(5) [OF that(1)]
    by (auto simp: apart_def word_le_nat_alt word_less_nat_alt)
  have "fold (segment_view f 0) (map fst (sections_of mem (data_start n) as)) view ?x = Some (segment_info f 0 ?p ?x)"
    unfolding as sections_of_append map_append sections_of.simps list.map fst_conv
  proof (rule fold_segment_view_last)
    show "PageAlignDown (ph_vaddr ?p + 0) \<le> ?x" "?x < PageAlign (ph_vaddr ?p + 0 + ph_memsz ?p)"
      unfolding R(1,2) using x assms(6) R(5) by (simp_all add: word_le_nat_alt word_less_nat_alt)
  qed (rule sections_all [OF ok(2)], rule out, auto)
  moreover have "segment_info f 0 ?p ?x =
      (if j < unat (saved_size mem a) then (sa_prot a AND 7, False, kFile, Some (Some fid, ?off + of_nat j))
       else (sa_prot a AND 7, False, kNormal, None))"
  proof -
    have "IsPageAligned ?off" using aligned_offset [OF elf_image_parts(3) [OF assms(1,2)]] assms(3) as by simp
    then have o: "PageAlignDown (ph_offset ?p) = ?off"
      by (simp add: snap_phdr_def IsPageAligned_unat word_unat_eq_iff PageAlignDown_unat)
    have "?x < sa_start a + saved_size mem a \<longleftrightarrow> j < unat (saved_size mem a)"
      using x R(6) by (simp add: word_less_nat_alt)
    then show ?thesis unfolding segment_info_def R(1,3) elf_flags_prot o assms(9) by simp
  qed
  ultimately show ?thesis
    using image_data [OF assms(1,2) as, of j mem] assms(7,8) saved_size_spec(3) [OF ok(1), of mem]
    by (cases "j < unat (saved_size mem a)") (auto simp: found_byte_def I_def)
qed


lemma find_load: "t \<noteq> kPTypeLoad \<Longrightarrow> FindPHDRByType (map fst (sections_of mem off as)) t = None"
  by (induction as arbitrary: off) (simp_all add: FindPHDRByType_def snap_phdr_def)

lemma LoadELF_snapshot:
  assumes I: "program_file env f (elf_image (sections_of mem (data_start n) as))"
    and n: "n = length as" "n < 2 ^ 16" and "env_Seek env f 64 = Inr 64" "list_all area_ok as" "ld_valid env s"
    and load: "LoadELF env \<lparr>jf_file = f, jf_off = 0\<rparr> s = Some (Inr ed, s')"
  shows "\<exists>f'. jf_file f' = f \<and> ld_view s' = fold (segment_view f' 0) (map fst (sections_of mem (data_start n) as)) (ld_view s)"
proof -
  let ?P = "map fst (sections_of mem (data_start n) as)"
  obtain f' where f': "jf_file f' = f" "ReadPHDRs env (snap_header n) \<lparr>jf_file = f, jf_off = 64\<rparr> = Some (Inr ?P, f')"
    using snapshot_phdrs_read [OF I n assms(4,5)] by blast
  have ne: "kPTypeInterp \<noteq> kPTypeLoad" by (simp add: kPTypeInterp_def kPTypeLoad_def)
  have "eh_type (snap_header n) \<noteq> kETypeDynamic" by (simp add: snap_header_def kETypeExec_def kETypeDynamic_def)
  with load obtain s1 where s1: "mark_non_reloc s = Some (Inr (), s1)" "load_segments env f' 0 ?P s1 = Some (Inr (), s')"
    unfolding LoadELF_def snapshot_header_reads [OF I n] DoELFLoad_def
    by (auto simp: f'(2) load_interp_of_def find_load [OF ne] ld_bind_def ld_return_def LoadSegments_def Let_def
        split: option.splits prod.splits sum.splits if_splits)
  have v: "ld_valid env s1" "ld_view s1 = ld_view s"
    using s1(1) assms(6) by (auto simp: mark_non_reloc_def ld_valid_def ld_view_def TraceEnabled_def split: if_splits)
  have "load_phdrs ?P = ?P" using sections_all [OF assms(5), of "\<lambda>p. ph_type p = kPTypeLoad" mem "data_start n"]
    by (simp add: load_phdrs_def filter_id_conv list_all_iff snap_phdr_def)
  moreover have "list_all (segment_fits 0) ?P" by (rule sections_all [OF assms(5)]) (rule snap_phdr_range)
  ultimately show ?thesis using load_segments_view [OF v(1) _ s1(2)] f'(1) v(2) by (intro exI [of _ f']) simp
qed

text \<open>
  C26: a snapshot of a process's memory restores it.  Let the areas of the memory map and of the files in memory be page
  aligned, apart from one another and fewer than 65536, and let a snapshot of them succeed.  When the written image is
  loaded, every address of every area is mapped with the protection it had, and an access to it finds the byte it had.
  Beyond the data of the area, where the mapped file had ended, nothing is said of the byte.
\<close>

theorem elf_snapshot_restores:
  assumes "SnapshotElf k opened written get_size mem vmas fs = (Inr (), Some img)"
    and "list_all area_ok (snap_areas get_size vmas fs)" "sorted_wrt apart (snap_areas get_size vmas fs)"
    and "length (snap_areas get_size vmas fs) < 2 ^ 16"
    and "program_file env f img" "env_Seek env f 64 = Inr 64" "ld_valid env s"
    and "LoadELF env \<lparr>jf_file = f, jf_off = 0\<rparr> s = Some (Inr ed, s')"
    and "a \<in> set (snap_areas get_size vmas fs)" "j < unat (sa_len a)"
  shows "\<exists>b. found_byte f img (ld_view s') (sa_start a + of_nat j) = Some (sa_prot a AND 7, b) \<and>
    (j < unat (sa_data a) \<longrightarrow> b = mem (sa_start a + of_nat j))"
proof -
  let ?as = "snap_areas get_size vmas fs"
  let ?n = "length ?as"
  obtain secs where "GetElfPHDRs k get_size mem vmas fs = Inr secs" "img = elf_image secs"
    using assms(1) by (auto simp: SnapshotElf_def split: sum.splits)
  then have img: "img = elf_image (sections_of mem (data_start ?n) ?as)" using GetElfPHDRs_sections by blast
  obtain f' where "jf_file f' = f"
    "ld_view s' = fold (segment_view f' 0) (map fst (sections_of mem (data_start ?n) ?as)) (ld_view s)"
    using LoadELF_snapshot [OF assms(5) [unfolded img] refl assms(4,6,2,7,8)] by blast
  then show ?thesis
    using sections_view [OF refl assms(4,2,3,9,10), of mem f' f] program_file.small [OF assms(5)] by (simp add: img)
qed


text \<open>A process with two pages of ones, and its image.\<close>

definition demo_vma :: VMArea where
  "demo_vma = \<lparr>va_start = 0x400000, va_end = 0x402000, va_prot = 3, va_traced = False, va_type = kNormal, va_file = None,
     va_offset = 0\<rparr>"

definition demo_img :: "byte list" where
  "demo_img = elf_image (sections_of (\<lambda>_. 1) (data_start 1) (snap_areas (\<lambda>_. 0) [demo_vma] []))"

lemma demo_areas:
  "snap_areas (\<lambda>_. 0) [demo_vma] [] = [\<lparr>sa_start = 0x400000, sa_prot = 3, sa_data = 0x2000, sa_len = 0x2000\<rparr>]"
  by (simp add: snap_areas_def vma_area_def demo_vma_def DataLength_def Length_def)

lemma demo_saved: "saved_size (\<lambda>_. 1) \<lparr>sa_start = 0x400000, sa_prot = 3, sa_data = 0x2000, sa_len = 0x2000\<rparr> = 0x2000"
proof -
  have "\<not> word_zero (\<lambda>_. 1) p i" for p i
    by (simp add: word_zero_def mem_bytes_def upt_rec)
  then have "min_words (\<lambda>_. 1) p n = n" for p n by (cases n) simp_all
  then show ?thesis by (simp add: saved_size_def GetMinSize_def page_eval)
qed

lemma demo_snapshot: "SnapshotElf demo_kernel (Inr ()) (Inr ()) (\<lambda>_. 0) (\<lambda>_. 1) [demo_vma] [] = (Inr (), Some demo_img)"
proof -
  have r: "va_prot demo_vma AND PROT_READ \<noteq> 0" "sa_prot (vma_area (\<lambda>_. 0) demo_vma) AND PROT_READ \<noteq> 0"
    by (simp_all add: demo_vma_def vma_area_def mm_consts)
  show ?thesis
    using r by (simp add: SnapshotElf_def GetElfPHDRs_def Let_def make_readable_def demo_img_def snap_areas_def data_start_def)
qed

lemma demo_img_length: "length demo_img = 0x3000"
  using elf_image_parts(1) [of 1 "snap_areas (\<lambda>_. 0) [demo_vma] []" "\<lambda>_. 1"]
  unfolding demo_img_def
  by (simp add: demo_areas demo_saved data_start_def elf_phdr_size_def elf_header_size_def page_eval)

interpretation image_file: program_file "mem_env (\<lambda>_. demo_img)" 0 demo_img
  by unfold_locales (simp_all add: mem_env_def Let_def demo_img_length min_def)

lemma demo_restore:
  "\<exists>ed s'. LoadELF (mem_env (\<lambda>_. demo_img)) \<lparr>jf_file = 0, jf_off = 0\<rparr> demo_loader = Some (Inr ed, s')"
proof -
  let ?as = "[\<lparr>sa_start = 0x400000, sa_prot = 3, sa_data = 0x2000, sa_len = 0x2000\<rparr>] :: snap_area list"
  have P: "program_file (mem_env (\<lambda>_. demo_img)) 0 (elf_image (sections_of (\<lambda>_. 1) (data_start 1) ?as))"
    using image_file.program_file_axioms by (simp add: demo_img_def demo_areas)
  have ok: "list_all area_ok ?as" by (simp add: area_ok_def page_eval)
  obtain f' where f': "jf_file f' = 0" "ReadPHDRs (mem_env (\<lambda>_. demo_img)) (snap_header 1) \<lparr>jf_file = 0, jf_off = 64\<rparr> =
      Some (Inr (map fst (sections_of (\<lambda>_. 1) (data_start 1) ?as)), f')"
    using snapshot_phdrs_read [OF P _ _ _ ok] by (auto simp: mem_env_def)
  have run: "\<exists>ed s'. DoELFLoad (mem_env (\<lambda>_. demo_img)) (snap_header 1) \<lparr>jf_file = 0, jf_off = 64\<rparr> demo_loader = Some (Inr ed, s')"
    unfolding DoELFLoad_def f'(2)
    by (simp add: load_eval FindPHDRByType_def load_interp_of_def mark_non_reloc_def snap_phdr_def demo_saved elf_flags_def
        kPTypeInterp_def kPTypeSelf_def kETypeDynamic_def kETypeExec_def snap_header_def data_start_def elf_phdr_size_def
        elf_header_size_def)
  show ?thesis unfolding LoadELF_def using snapshot_header_reads [OF P] run by simp
qed


theorem elf_snapshot_restores_witness:
  "\<exists>ed s'. LoadELF (mem_env (\<lambda>_. demo_img)) \<lparr>jf_file = 0, jf_off = 0\<rparr> demo_loader = Some (Inr ed, s') \<and>
     found_byte 0 demo_img (ld_view s') 0x401fff = Some (3, 1)"
proof -
  obtain ed s' where run: "LoadELF (mem_env (\<lambda>_. demo_img)) \<lparr>jf_file = 0, jf_off = 0\<rparr> demo_loader = Some (Inr ed, s')"
    using demo_restore by blast
  have "list_all area_ok (snap_areas (\<lambda>_. 0) [demo_vma] [])" "sorted_wrt apart (snap_areas (\<lambda>_. 0) [demo_vma] [])"
    "length (snap_areas (\<lambda>_. 0) [demo_vma] []) < 2 ^ 16"
    by (simp_all add: demo_areas area_ok_def page_eval)
  from elf_snapshot_restores [OF demo_snapshot this image_file.program_file_axioms _ demo_loader_valid run,
      of "\<lparr>sa_start = 0x400000, sa_prot = 3, sa_data = 0x2000, sa_len = 0x2000\<rparr>" "0x1fff"]
  show ?thesis using run by (auto simp: demo_areas mem_env_def)
qed

end
