(* ===== verification/SnapshotJif.thy ===== *)
theory SnapshotJif
  imports Snapshot
begin

text \<open>
  Snapshots of a process's memory as a JIF image (\<^verbatim>\<open>src/junction/snapshot/jif.h\<close>,
  \<^verbatim>\<open>src/junction/snapshot/jif.cc\<close>, \<^verbatim>\<open>src/junction/snapshot/snapshot_jif.cc\<close>).

  The image is written and read byte for byte.  It is loaded by mapping its parts into the address space of the host,
  which is a state of its own here: the host's calls on it are parameters.  A failed assertion, a \<open>BUG_ON\<close> and
  an access out of range are \<open>None\<close>.
\<close>

section \<open>The format\<close>

definition kJifVersion :: u32 where "kJifVersion = 4"
definition kUInt64Max :: u64 where "kUInt64Max = 0xffffffffffffffff"
definition kUInt32Max :: u32 where "kUInt32Max = 0xffffffff"
definition kJIFFlagExec :: i32 where "kJIFFlagExec = 1"
definition kJIFFlagWrite :: i32 where "kJIFFlagWrite = 2"
definition kJIFFlagRead :: i32 where "kJIFFlagRead = 4"

definition JIFProtToLinuxProt :: "i32 \<Rightarrow> i32" where
  "JIFProtToLinuxProt jprot =
     (if jprot AND kJIFFlagExec \<noteq> 0 then PROT_EXEC else 0) OR
     (if jprot AND kJIFFlagWrite \<noteq> 0 then PROT_WRITE else 0) OR
     (if jprot AND kJIFFlagRead \<noteq> 0 then PROT_READ else 0)"

definition LinuxProtToJIFProt :: "i32 \<Rightarrow> i32" where
  "LinuxProtToJIFProt lprot =
     (if lprot AND PROT_EXEC \<noteq> 0 then kJIFFlagExec else 0) OR
     (if lprot AND PROT_WRITE \<noteq> 0 then kJIFFlagWrite else 0) OR
     (if lprot AND PROT_READ \<noteq> 0 then kJIFFlagRead else 0)"

record jif_phdr =
  jp_vbegin :: u64
  jp_vend :: u64
  jp_ref_offset :: u64
  jp_itree_idx :: u32
  jp_itree_n_nodes :: u32
  jp_pathname_offset :: u32
  jp_prot :: byte

definition HasRefFile :: "jif_phdr \<Rightarrow> bool" where
  "HasRefFile p \<longleftrightarrow> jp_ref_offset p \<noteq> kUInt64Max"

definition jp_is_valid :: "jif_phdr \<Rightarrow> bool" where
  "jp_is_valid p =
     (if \<not> IsPageAligned (jp_vbegin p) \<or> \<not> IsPageAligned (jp_vend p) then False
      else if jp_vbegin p > jp_vend p then False
      else if HasRefFile p \<and> (\<not> IsPageAligned (jp_ref_offset p) \<or> jp_pathname_offset p = kUInt32Max) then False
      else True)"

record jif_header =
  jh_magic :: "byte list"
  jh_n_pheaders :: u32
  jh_strings_size :: u32
  jh_itrees_size :: u32
  jh_ord_size :: u32
  jh_version :: u32
  jh_n_write_prefetch :: u64
  jh_n_total_prefetch :: u64

definition jif_header_size :: nat where "jif_header_size = 40"
definition jif_phdr_size :: nat where "jif_phdr_size = 37"
definition jif_interval_size :: nat where "jif_interval_size = 24"
definition jif_node_size :: nat where "jif_node_size = 72"
definition jif_ord_size :: nat where "jif_ord_size = 24"

definition strings_offset :: "jif_header \<Rightarrow> u64" where
  "strings_offset h = PageAlign (of_nat jif_header_size + ucast (jh_n_pheaders h) * of_nat jif_phdr_size)"

definition itrees_offset :: "jif_header \<Rightarrow> u64" where
  "itrees_offset h = strings_offset h + ucast (jh_strings_size h)"

definition ord_offset :: "jif_header \<Rightarrow> u64" where
  "ord_offset h = itrees_offset h + ucast (jh_itrees_size h)"

definition data_offset :: "jif_header \<Rightarrow> u64" where
  "data_offset h = ord_offset h + ucast (jh_ord_size h)"

record jif_interval =
  ji_start :: u64
  ji_end :: u64
  ji_offset :: u64

text \<open>\<open>IsValid\<close> asserts that an interval without a start has no end.\<close>

definition ji_IsValid :: "jif_interval \<Rightarrow> bool option" where
  "ji_IsValid i = (if ji_start i \<noteq> kUInt64Max \<or> ji_end i = kUInt64Max then Some (ji_start i \<noteq> kUInt64Max) else None)"

definition ji_HasOffset :: "jif_interval \<Rightarrow> bool" where
  "ji_HasOffset i \<longleftrightarrow> ji_offset i \<noteq> kUInt64Max"

type_synonym jif_node = "jif_interval list"

definition InitEmpty :: jif_node where
  "InitEmpty = replicate 3 \<lparr>ji_start = kUInt64Max, ji_end = kUInt64Max, ji_offset = kUInt64Max\<rparr>"

record jif_ord_chunk =
  jo_timestamp_us :: u64
  jo_vaddr :: u64
  jo_n_pages :: u64

record jif_data =
  jd_hdr :: jif_header
  jd_phdrs :: "jif_phdr list"
  jd_strings :: "byte list"
  jd_itrees :: "jif_node list"
  jd_ord :: "jif_ord_chunk list"

subsection \<open>Bytes\<close>

definition jif_header_bytes :: "jif_header \<Rightarrow> byte list" where
  "jif_header_bytes h = jh_magic h @ le_enc 4 (unat (jh_n_pheaders h)) @ le_enc 4 (unat (jh_strings_size h)) @
     le_enc 4 (unat (jh_itrees_size h)) @ le_enc 4 (unat (jh_ord_size h)) @ le_enc 4 (unat (jh_version h)) @
     le_enc 8 (unat (jh_n_write_prefetch h)) @ le_enc 8 (unat (jh_n_total_prefetch h))"

definition jif_header_of :: "byte list \<Rightarrow> jif_header" where
  "jif_header_of bs = \<lparr>jh_magic = take 4 bs, jh_n_pheaders = of_nat (le_at bs 4 4), jh_strings_size = of_nat (le_at bs 8 4),
     jh_itrees_size = of_nat (le_at bs 12 4), jh_ord_size = of_nat (le_at bs 16 4), jh_version = of_nat (le_at bs 20 4),
     jh_n_write_prefetch = of_nat (le_at bs 24 8), jh_n_total_prefetch = of_nat (le_at bs 32 8)\<rparr>"

definition jif_phdr_bytes :: "jif_phdr \<Rightarrow> byte list" where
  "jif_phdr_bytes p = le_enc 8 (unat (jp_vbegin p)) @ le_enc 8 (unat (jp_vend p)) @ le_enc 8 (unat (jp_ref_offset p)) @
     le_enc 4 (unat (jp_itree_idx p)) @ le_enc 4 (unat (jp_itree_n_nodes p)) @ le_enc 4 (unat (jp_pathname_offset p)) @
     [jp_prot p]"

definition jif_phdr_of :: "byte list \<Rightarrow> jif_phdr" where
  "jif_phdr_of bs = \<lparr>jp_vbegin = of_nat (le_at bs 0 8), jp_vend = of_nat (le_at bs 8 8), jp_ref_offset = of_nat (le_at bs 16 8),
     jp_itree_idx = of_nat (le_at bs 24 4), jp_itree_n_nodes = of_nat (le_at bs 28 4),
     jp_pathname_offset = of_nat (le_at bs 32 4), jp_prot = of_nat (le_at bs 36 1)\<rparr>"

definition jif_interval_bytes :: "jif_interval \<Rightarrow> byte list" where
  "jif_interval_bytes i = le_enc 8 (unat (ji_start i)) @ le_enc 8 (unat (ji_end i)) @ le_enc 8 (unat (ji_offset i))"

definition jif_interval_of :: "byte list \<Rightarrow> jif_interval" where
  "jif_interval_of bs = \<lparr>ji_start = of_nat (le_at bs 0 8), ji_end = of_nat (le_at bs 8 8), ji_offset = of_nat (le_at bs 16 8)\<rparr>"

text \<open>A vector of values of \<open>sz\<close> bytes each, filled from bytes.\<close>

definition vec_of :: "nat \<Rightarrow> (byte list \<Rightarrow> 'a) \<Rightarrow> nat \<Rightarrow> byte list \<Rightarrow> 'a list" where
  "vec_of sz dec n bs = map (\<lambda>i. dec (take sz (drop (i * sz) bs))) [0 ..< n]"

definition jif_node_bytes :: "jif_node \<Rightarrow> byte list" where
  "jif_node_bytes node = concat (map jif_interval_bytes node)"

definition jif_node_of :: "byte list \<Rightarrow> jif_node" where
  "jif_node_of = vec_of jif_interval_size jif_interval_of 3"

definition jif_ord_bytes :: "jif_ord_chunk \<Rightarrow> byte list" where
  "jif_ord_bytes c = le_enc 8 (unat (jo_timestamp_us c)) @ le_enc 8 (unat (jo_vaddr c)) @ le_enc 8 (unat (jo_n_pages c))"

definition jif_ord_of :: "byte list \<Rightarrow> jif_ord_chunk" where
  "jif_ord_of bs = \<lparr>jo_timestamp_us = of_nat (le_at bs 0 8), jo_vaddr = of_nat (le_at bs 8 8), jo_n_pages = of_nat (le_at bs 16 8)\<rparr>"


section \<open>Writing an image\<close>

text \<open>The vectors of bytes that will be written, and how many bytes they are.\<close>

record IOVAccumulator =
  ia_vec :: "byte list list"
  ia_size :: u64

definition ia_empty :: IOVAccumulator where
  "ia_empty = \<lparr>ia_vec = [], ia_size = 0\<rparr>"

definition ia_Add :: "byte list \<Rightarrow> IOVAccumulator \<Rightarrow> IOVAccumulator" where
  "ia_Add bs a = \<lparr>ia_vec = ia_vec a @ [bs], ia_size = ia_size a + of_nat (length bs)\<rparr>"

definition ia_Pad :: "u64 \<Rightarrow> IOVAccumulator \<Rightarrow> IOVAccumulator" where
  "ia_Pad alignment a =
     (if ia_size a mod alignment = 0 then a else ia_Add (replicate (unat (alignment - ia_size a mod alignment)) 0) a)"

definition AddPhdr :: "kernel \<Rightarrow> memory \<Rightarrow> byte \<Rightarrow> u64 \<Rightarrow> u64 \<Rightarrow> u64 \<Rightarrow> u64 \<Rightarrow> byte list \<Rightarrow> jif_data \<times> IOVAccumulator
    \<Rightarrow> (unit Status \<times> jif_data \<times> IOVAccumulator) option" where
  "AddPhdr k mem prot start filesz memsz ref_offset name = (\<lambda>(jif, iovs).
     case (if filesz \<noteq> 0 \<and> ucast prot AND PROT_READ = 0 then KernelMProtect k start filesz (ucast prot OR PROT_READ) else Inr ()) of
       Inl e \<Rightarrow> Some (Inl e, jif, iovs)
     | Inr _ \<Rightarrow>
         (let non_zero_sz = PageAlign (GetMinSize mem start filesz);
              ivs = (if non_zero_sz \<noteq> 0
                     then [\<lparr>ji_start = start, ji_end = start + non_zero_sz, ji_offset = ia_size iovs\<rparr>] else []) @
                    (if ref_offset \<noteq> kUInt64Max \<and> filesz > non_zero_sz
                     then [\<lparr>ji_start = start + non_zero_sz, ji_end = start + filesz, ji_offset = kUInt64Max\<rparr>] else []);
              itree = ivs @ drop (length ivs) InitEmpty;
              phdr = \<lparr>jp_vbegin = start, jp_vend = start + memsz, jp_ref_offset = ref_offset,
                jp_itree_idx = of_nat (length (jd_itrees jif)), jp_itree_n_nodes = (if ivs \<noteq> [] then 1 else 0),
                jp_pathname_offset = (if name \<noteq> [] then of_nat (length (jd_strings jif)) else kUInt32Max),
                jp_prot = ucast (LinuxProtToJIFProt (ucast prot))\<rparr>
          in if (name = []) \<noteq> (ref_offset = kUInt64Max) then None
             else Some (Inr (),
               jif\<lparr>jd_itrees := jd_itrees jif @ (if ivs \<noteq> [] then [itree] else []),
                   jd_strings := jd_strings jif @ (if name \<noteq> [] then name @ [0] else []),
                   jd_phdrs := jd_phdrs jif @ [phdr]\<rparr>,
               if non_zero_sz \<noteq> 0 then ia_Add (mem_bytes mem start (unat non_zero_sz)) iovs else iovs)))"

text \<open>
  What a file is to a snapshot: whether other processes may share it, and the name it has in the host's file system.
  An area of the memory map is described by its start, protection, data, length and, if it maps such a file, by the offset
  and the name.
\<close>

record jif_area = snap_area +
  ja_ref_offset :: u64
  ja_name :: "byte list"

definition vma_jif_area :: "(nat \<Rightarrow> u64) \<Rightarrow> (nat \<Rightarrow> bool) \<Rightarrow> (nat \<Rightarrow> byte list) \<Rightarrow> VMArea \<Rightarrow> jif_area option" where
  "vma_jif_area get_size SnapshotShareable get_filename v =
     (if va_type v = kFile then
        (case va_file v of
           None \<Rightarrow> None
         | Some f \<Rightarrow>
             if SnapshotShareable f then
               (if get_filename f = [] then None
                else Some (snap_area.extend (vma_area get_size v) \<lparr>ja_ref_offset = va_offset v, ja_name = get_filename f\<rparr>))
             else Some (snap_area.extend (vma_area get_size v) \<lparr>ja_ref_offset = kUInt64Max, ja_name = []\<rparr>))
      else Some (snap_area.extend (vma_area get_size v) \<lparr>ja_ref_offset = kUInt64Max, ja_name = []\<rparr>))"

definition fs_jif_area :: "FSMemoryArea \<Rightarrow> jif_area" where
  "fs_jif_area a = snap_area.extend (fs_area a) \<lparr>ja_ref_offset = kUInt64Max, ja_name = []\<rparr>"

text \<open>The status of \<open>AddPhdr\<close> is not looked at.\<close>

fun add_phdrs :: "kernel \<Rightarrow> memory \<Rightarrow> jif_area list \<Rightarrow> jif_data \<times> IOVAccumulator \<Rightarrow> (jif_data \<times> IOVAccumulator) option" where
  "add_phdrs k mem [] st = Some st"
| "add_phdrs k mem (a # as) st =
     (case AddPhdr k mem (ucast (sa_prot a)) (sa_start a) (sa_data a) (sa_len a) (ja_ref_offset a) (ja_name a) st of
        None \<Rightarrow> None
      | Some (_, st') \<Rightarrow> add_phdrs k mem as st')"

definition jif_new :: jif_data where
  "jif_new = \<lparr>jd_hdr = \<lparr>jh_magic = [0x77, 0x4a, 0x49, 0x46], jh_n_pheaders = 0, jh_strings_size = 0, jh_itrees_size = 0,
     jh_ord_size = 0, jh_version = kJifVersion, jh_n_write_prefetch = 0, jh_n_total_prefetch = 0\<rparr>,
     jd_phdrs = [], jd_strings = [], jd_itrees = [], jd_ord = []\<rparr>"

definition fix_offsets :: "u64 \<Rightarrow> jif_node \<Rightarrow> jif_node" where
  "fix_offsets off = map (\<lambda>i. if ji_HasOffset i then i\<lparr>ji_offset := ji_offset i + off\<rparr> else i)"

definition GetJifVmaData :: "kernel \<Rightarrow> (nat \<Rightarrow> u64) \<Rightarrow> (nat \<Rightarrow> bool) \<Rightarrow> (nat \<Rightarrow> byte list) \<Rightarrow> memory \<Rightarrow> VMArea list
    \<Rightarrow> FSMemoryArea list \<Rightarrow> (jif_data \<times> IOVAccumulator) option" where
  "GetJifVmaData k get_size shareable get_filename mem vmas fs =
     (case those (map (vma_jif_area get_size shareable get_filename) (sort_key va_start vmas)) of
        None \<Rightarrow> None
      | Some areas \<Rightarrow>
          (case add_phdrs k mem (areas @ map fs_jif_area fs) (jif_new, ia_empty) of
             None \<Rightarrow> None
           | Some (jif, iovs) \<Rightarrow>
               (let hdr = (jd_hdr jif)\<lparr>jh_n_pheaders := of_nat (length (jd_phdrs jif)),
                      jh_strings_size := ucast (PageAlign (of_nat (length (jd_strings jif)))),
                      jh_itrees_size := ucast (PageAlign (of_nat (length (jd_itrees jif) * jif_node_size))),
                      jh_ord_size := 0, jh_n_write_prefetch := 0, jh_n_total_prefetch := 0\<rparr>
                in Some (jif\<lparr>jd_hdr := hdr, jd_itrees := map (fix_offsets (data_offset hdr)) (jd_itrees jif)\<rparr>, iovs))))"

definition jif_metadata :: "jif_data \<Rightarrow> IOVAccumulator" where
  "jif_metadata jif =
     ia_Pad kPageSize (ia_Add (concat (map jif_ord_bytes (jd_ord jif)))
       (ia_Pad kPageSize (ia_Add (concat (map jif_node_bytes (jd_itrees jif)))
         (ia_Pad kPageSize (ia_Add (jd_strings jif)
           (ia_Pad kPageSize (ia_Add (concat (map jif_phdr_bytes (jd_phdrs jif)))
             (ia_Add (jif_header_bytes (jd_hdr jif)) ia_empty))))))))"

text \<open>\<open>opened\<close> and the two \<open>written\<close> are the outcomes of opening the file and of writing the metadata and the data.\<close>

definition SnapshotJIF :: "kernel \<Rightarrow> unit Status \<Rightarrow> unit Status \<Rightarrow> unit Status \<Rightarrow> (nat \<Rightarrow> u64) \<Rightarrow> (nat \<Rightarrow> bool)
    \<Rightarrow> (nat \<Rightarrow> byte list) \<Rightarrow> memory \<Rightarrow> VMArea list \<Rightarrow> FSMemoryArea list \<Rightarrow> (unit Status \<times> byte list option) option" where
  "SnapshotJIF k opened written1 written2 get_size shareable get_filename mem vmas fs =
     (case GetJifVmaData k get_size shareable get_filename mem vmas fs of
        None \<Rightarrow> None
      | Some (jif, iovs) \<Rightarrow>
          (case opened of
             Inl e \<Rightarrow> Some (Inl e, None)
           | Inr _ \<Rightarrow>
               if ia_size (jif_metadata jif) > 0xffffffff then Some (Inl EINVAL, None)
               else (case written1 of
                       Inl e \<Rightarrow> Some (Inl e, None)
                     | Inr _ \<Rightarrow>
                         (case written2 of
                            Inl e \<Rightarrow> Some (Inl e, None)
                          | Inr _ \<Rightarrow> Some (RestoreVMAProtections k get_size vmas,
                              Some (concat (ia_vec (jif_metadata jif)) @ concat (ia_vec iovs)))))))"


section \<open>Reading an image\<close>

text \<open>
  The host: reading a file at an offset, opening a file, mapping memory, and whether mappings are populated.
  A mapping names the file and the offset, or nothing if it is anonymous.
\<close>

record 'h jif_env =
  je_pread :: "nat \<Rightarrow> nat \<Rightarrow> u64 \<Rightarrow> byte list Status"
  je_open :: "byte list \<Rightarrow> nat Status"
  je_mmap :: "u64 \<Rightarrow> u64 \<Rightarrow> i32 \<Rightarrow> i32 \<Rightarrow> (nat \<times> u64) option \<Rightarrow> 'h \<Rightarrow> int \<times> 'h"
  je_populate :: bool

record KernelFile =
  kf_fd :: nat
  kf_off :: u64

definition kf_Read :: "'h jif_env \<Rightarrow> nat \<Rightarrow> KernelFile \<Rightarrow> byte list Status \<times> KernelFile" where
  "kf_Read env n f =
     (case je_pread env (kf_fd f) n (kf_off f) of
        Inl e \<Rightarrow> (Inl e, f)
      | Inr bs \<Rightarrow> if bs = [] then (Inl EUNEXPECTEDEOF, f) else (Inr bs, f\<lparr>kf_off := kf_off f + of_nat (length bs)\<rparr>))"

text \<open>Every round of \<open>ReadFull\<close> fails or reads a byte.\<close>

definition kf_ReadFull :: "'h jif_env \<Rightarrow> nat \<Rightarrow> KernelFile \<Rightarrow> (byte list Status \<times> KernelFile) option" where
  "kf_ReadFull env n f = ReadFull (Suc n) (kf_Read env) n [] f"

definition jif_HeaderIsValid :: "jif_header \<Rightarrow> bool" where
  "jif_HeaderIsValid h \<longleftrightarrow> jh_magic h ! 0 = 0x77 \<and> jh_magic h ! 1 = 0x4a \<and> jh_magic h ! 2 = 0x49 \<and>
     jh_magic h ! 3 = 0x46 \<and> jh_version h = kJifVersion"

definition jif_ReadHeader :: "'h jif_env \<Rightarrow> KernelFile \<Rightarrow> (jif_header Status \<times> KernelFile) option" where
  "jif_ReadHeader env f =
     (case kf_ReadFull env jif_header_size f of
        None \<Rightarrow> None
      | Some (Inl e, f') \<Rightarrow> Some (Inl e, f')
      | Some (Inr bs, f') \<Rightarrow>
          Some (if jif_HeaderIsValid (jif_header_of bs) then Inr (jif_header_of bs) else Inl EINVAL, f'))"

text \<open>Reading \<open>n\<close> values of \<open>sz\<close> bytes each from an absolute offset.\<close>

definition read_table :: "'h jif_env \<Rightarrow> u64 \<Rightarrow> nat \<Rightarrow> (byte list \<Rightarrow> 'a) \<Rightarrow> nat \<Rightarrow> KernelFile
    \<Rightarrow> ('a list Status \<times> KernelFile) option" where
  "read_table env offset sz dec n f =
     (case kf_ReadFull env (n * sz) (f\<lparr>kf_off := offset\<rparr>) of
        None \<Rightarrow> None
      | Some (Inl e, f') \<Rightarrow> Some (Inl e, f')
      | Some (Inr bs, f') \<Rightarrow> Some (Inr (vec_of sz dec n bs), f'))"

definition jif_ReadPHDRs :: "'h jif_env \<Rightarrow> jif_header \<Rightarrow> KernelFile \<Rightarrow> (jif_phdr list Status \<times> KernelFile) option" where
  "jif_ReadPHDRs env hdr f =
     (case read_table env (of_nat jif_header_size) jif_phdr_size jif_phdr_of (unat (jh_n_pheaders hdr)) f of
        None \<Rightarrow> None
      | Some (Inl e, f') \<Rightarrow> Some (Inl e, f')
      | Some (Inr phdrs, f') \<Rightarrow> if list_all jp_is_valid phdrs then Some (Inr phdrs, f') else None)"

definition ReadStrings :: "'h jif_env \<Rightarrow> jif_header \<Rightarrow> KernelFile \<Rightarrow> (byte list Status \<times> KernelFile) option" where
  "ReadStrings env hdr = read_table env (strings_offset hdr) 1 (\<lambda>bs. bs ! 0) (unat (jh_strings_size hdr))"

definition ReadITrees :: "'h jif_env \<Rightarrow> jif_header \<Rightarrow> KernelFile \<Rightarrow> (jif_node list Status \<times> KernelFile) option" where
  "ReadITrees env hdr = read_table env (itrees_offset hdr) jif_node_size jif_node_of (unat (jh_itrees_size hdr) div jif_node_size)"

definition ReadOrd :: "'h jif_env \<Rightarrow> jif_header \<Rightarrow> KernelFile \<Rightarrow> (jif_ord_chunk list Status \<times> KernelFile) option" where
  "ReadOrd env hdr = read_table env (ord_offset hdr) jif_ord_size jif_ord_of (unat (jh_ord_size hdr) div jif_ord_size)"

definition ParseJIF :: "'h jif_env \<Rightarrow> KernelFile \<Rightarrow> jif_data Status option" where
  "ParseJIF env f =
     (case jif_ReadHeader env f of
        None \<Rightarrow> None
      | Some (Inl e, _) \<Rightarrow> Some (Inl e)
      | Some (Inr hdr, f1) \<Rightarrow>
     (case jif_ReadPHDRs env hdr f1 of
        None \<Rightarrow> None
      | Some (Inl e, _) \<Rightarrow> Some (Inl e)
      | Some (Inr phdrs, f2) \<Rightarrow>
     (case ReadStrings env hdr f2 of
        None \<Rightarrow> None
      | Some (Inl e, _) \<Rightarrow> Some (Inl e)
      | Some (Inr strings, f3) \<Rightarrow>
     (case ReadITrees env hdr f3 of
        None \<Rightarrow> None
      | Some (Inl e, _) \<Rightarrow> Some (Inl e)
      | Some (Inr itrees, f4) \<Rightarrow>
     (case ReadOrd env hdr f4 of
        None \<Rightarrow> None
      | Some (Inl e, _) \<Rightarrow> Some (Inl e)
      | Some (Inr ords, _) \<Rightarrow>
          Some (Inr \<lparr>jd_hdr = hdr, jd_phdrs = phdrs, jd_strings = strings, jd_itrees = itrees, jd_ord = ords\<rparr>))))))"

section \<open>Loading an image\<close>

text \<open>
  The tree of a header: the children of node \<open>i\<close> are the nodes from \<open>4 i + 1\<close> on.  The loop over the intervals of a
  node runs along \<open>ivs\<close>; the last child follows it.  The test \<open>child \<le> idx\<close> is there for termination and never holds.
\<close>

function (sequential) ITreeValid_from :: "jif_node list \<Rightarrow> u64 \<Rightarrow> u64 \<Rightarrow> nat \<Rightarrow> nat \<Rightarrow> jif_interval list \<Rightarrow> bool option" where
  "ITreeValid_from tree lo hi idx child [] =
     (if child \<le> idx \<or> length tree \<le> child then Some True
      else ITreeValid_from tree lo hi child (child * 4 + 1) (tree ! child))"
| "ITreeValid_from tree lo hi idx child (ival # ivs) =
     (case (if child \<le> idx \<or> length tree \<le> child then Some True
            else ITreeValid_from tree lo (ji_start ival) child (child * 4 + 1) (tree ! child)) of
        None \<Rightarrow> None
      | Some False \<Rightarrow> Some False
      | Some True \<Rightarrow>
          (case ji_IsValid ival of
             None \<Rightarrow> None
           | Some v \<Rightarrow>
               if v \<and> (ji_start ival < lo \<or> ji_end ival > hi) then Some False
               else ITreeValid_from tree (ji_end ival) hi idx (Suc child) ivs))"
  by pat_completeness auto
termination
  by (relation "measures [\<lambda>(tree, lo, hi, idx, child, ivs). length tree - idx,
      \<lambda>(tree, lo, hi, idx, child, ivs). length ivs]") auto

definition ITreeValid :: "jif_node list \<Rightarrow> u64 \<Rightarrow> u64 \<Rightarrow> nat \<Rightarrow> bool option" where
  "ITreeValid tree lo hi node_idx =
     (if length tree \<le> node_idx then Some True
      else ITreeValid_from tree lo hi node_idx (node_idx * 4 + 1) (tree ! node_idx))"

type_synonym 'h host_op = "'h \<Rightarrow> (unit Status \<times> 'h) option"

definition host_mmap_fixed :: "'h jif_env \<Rightarrow> u64 \<Rightarrow> u64 \<Rightarrow> i32 \<Rightarrow> i32 \<Rightarrow> (nat \<times> u64) option \<Rightarrow> 'h host_op" where
  "host_mmap_fixed env addr len prot flags src h =
     (case je_mmap env addr len prot flags src h of
        (ret, h') \<Rightarrow>
          if ret < 0 then Some (Inl (- ret), h')
          else if word_of_int ret = addr then Some (Inr (), h') else None)"

definition kf_MMapFixed :: "'h jif_env \<Rightarrow> nat \<Rightarrow> u64 \<Rightarrow> u64 \<Rightarrow> i32 \<Rightarrow> i32 \<Rightarrow> u64 \<Rightarrow> 'h host_op" where
  "kf_MMapFixed env fd addr len prot flags off h =
     (if flags AND MAP_ANONYMOUS \<noteq> 0 then None
      else host_mmap_fixed env addr len prot (flags OR (MAP_FIXED OR MAP_PRIVATE)) (Some (fd, off)) h)"

definition jif_KernelMMapFixed :: "'h jif_env \<Rightarrow> u64 \<Rightarrow> u64 \<Rightarrow> i32 \<Rightarrow> i32 \<Rightarrow> 'h host_op" where
  "jif_KernelMMapFixed env addr len prot flags =
     host_mmap_fixed env addr len prot (flags OR (MAP_ANONYMOUS OR MAP_FIXED OR MAP_PRIVATE)) None"

fun load_intervals :: "'h jif_env \<Rightarrow> nat \<Rightarrow> i32 \<Rightarrow> i32 \<Rightarrow> jif_interval list \<Rightarrow> 'h host_op" where
  "load_intervals env fd prot flags [] h = Some (Inr (), h)"
| "load_intervals env fd prot flags (i # is) h =
     (case ji_IsValid i of
        None \<Rightarrow> None
      | Some False \<Rightarrow> load_intervals env fd prot flags is h
      | Some True \<Rightarrow>
          (case (if ji_HasOffset i then kf_MMapFixed env fd (ji_start i) (ji_end i - ji_start i) prot flags (ji_offset i) h
                 else jif_KernelMMapFixed env (ji_start i) (ji_end i - ji_start i) prot flags h) of
             None \<Rightarrow> None
           | Some (Inl e, h') \<Rightarrow> Some (Inl e, h')
           | Some (Inr _, h') \<Rightarrow> load_intervals env fd prot flags is h'))"

text \<open>A name starts at its offset in the table and ends before the next zero.\<close>

definition table_string :: "byte list \<Rightarrow> nat \<Rightarrow> byte list option" where
  "table_string strings off =
     (if 0 \<in> set (drop off strings) then Some (takeWhile (\<lambda>b. b \<noteq> 0) (drop off strings)) else None)"

definition map_backing :: "'h jif_env \<Rightarrow> jif_data \<Rightarrow> jif_phdr \<Rightarrow> i32 \<Rightarrow> i32 \<Rightarrow> 'h host_op" where
  "map_backing env jif p prot flags h =
     (if HasRefFile p then
        (case table_string (jd_strings jif) (unat (jp_pathname_offset p)) of
           None \<Rightarrow> None
         | Some name \<Rightarrow>
             (case je_open env name of
                Inl e \<Rightarrow> Some (Inl e, h)
              | Inr fd \<Rightarrow> kf_MMapFixed env fd (jp_vbegin p) (jp_vend p - jp_vbegin p) prot flags (jp_ref_offset p) h))
      else jif_KernelMMapFixed env (jp_vbegin p) (jp_vend p - jp_vbegin p) prot flags h)"

definition LoadPhdr :: "'h jif_env \<Rightarrow> nat \<Rightarrow> i32 \<Rightarrow> jif_data \<Rightarrow> jif_phdr \<Rightarrow> 'h host_op" where
  "LoadPhdr env fd flags jif p h =
     (let prot = JIFProtToLinuxProt (ucast (jp_prot p));
          idx = unat (jp_itree_idx p); n = unat (jp_itree_n_nodes p) in
      case map_backing env jif p prot flags h of
        None \<Rightarrow> None
      | Some (Inl e, h') \<Rightarrow> Some (Inl e, h')
      | Some (Inr _, h') \<Rightarrow>
          if n = 0 then Some (Inr (), h')
          else if length (jd_itrees jif) < idx + n then None
          else (let tree = take n (drop idx (jd_itrees jif)) in
                if ITreeValid tree (jp_vbegin p) (jp_vend p) 0 \<noteq> Some True then None
                else load_intervals env fd prot flags (concat tree) h'))"

fun load_phdrs_jif :: "'h jif_env \<Rightarrow> nat \<Rightarrow> i32 \<Rightarrow> jif_data \<Rightarrow> jif_phdr list \<Rightarrow> 'h host_op" where
  "load_phdrs_jif env fd flags jif [] h = Some (Inr (), h)"
| "load_phdrs_jif env fd flags jif (p # ps) h =
     (case LoadPhdr env fd flags jif p h of
        None \<Rightarrow> None
      | Some (Inl e, h') \<Rightarrow> Some (Inl e, h')
      | Some (Inr _, h') \<Rightarrow> load_phdrs_jif env fd flags jif ps h')"

definition restore_mmap_flags :: "'h jif_env \<Rightarrow> i32" where
  "restore_mmap_flags env = (if je_populate env then MAP_POPULATE else 0)"

definition LoadJIF :: "'h jif_env \<Rightarrow> KernelFile \<Rightarrow> 'h host_op" where
  "LoadJIF env f h =
     (case ParseJIF env f of
        None \<Rightarrow> None
      | Some (Inl e) \<Rightarrow> Some (Inl e, h)
      | Some (Inr jif) \<Rightarrow> load_phdrs_jif env (kf_fd f) (restore_mmap_flags env) jif (jd_phdrs jif) h)"


section \<open>Tables and their bytes\<close>

lemma length_jif_bytes [simp]:
  "length (jif_phdr_bytes p) = 37" "length (jif_interval_bytes i) = 24"
  "length (jif_header_bytes h) = length (jh_magic h) + 36"
  by (simp_all add: jif_phdr_bytes_def jif_interval_bytes_def jif_header_bytes_def)

lemma length_concat_same: "list_all (\<lambda>x. length (enc x) = sz) xs \<Longrightarrow> length (concat (map enc xs)) = length xs * sz"
  by (induction xs) simp_all

lemma vec_of_Suc:
  "length x = sz \<Longrightarrow> vec_of sz dec (Suc n) (x @ bs) = dec x # vec_of sz dec n bs"
proof -
  assume l: "length x = sz"
  have d: "take sz (drop (Suc i * sz) (x @ bs)) = take sz (drop (i * sz) bs)" for i using l by simp
  have z: "take sz (drop (0 * sz) (x @ bs)) = x" using l by simp
  show ?thesis
    unfolding vec_of_def by (simp only: upt_conv_Cons zero_less_Suc map_Suc_upt [symmetric] list.map map_map comp_def d z)
qed

text \<open>A table that is read further than it was filled starts with what it was filled with.\<close>

lemma vec_of_concat:
  assumes "list_all (\<lambda>x. length (enc x) = sz \<and> dec (enc x) = x) xs" "length xs \<le> n"
  shows "\<exists>ys. vec_of sz dec n (concat (map enc xs) @ rest) = xs @ ys \<and> length ys = n - length xs"
  using assms
proof (induction xs arbitrary: n)
  case Nil
  then show ?case by (simp add: vec_of_def)
next
  case (Cons x xs)
  then obtain m where m: "n = Suc m" by (cases n) simp_all
  then obtain ys where "vec_of sz dec m (concat (map enc xs) @ rest) = xs @ ys" "length ys = m - length xs"
    using Cons.IH [of m] Cons.prems by auto
  moreover have "vec_of sz dec (Suc m) (enc x @ concat (map enc xs) @ rest) = dec (enc x) # vec_of sz dec m (concat (map enc xs) @ rest)"
    using Cons.prems by (intro vec_of_Suc) simp
  ultimately show ?case using Cons.prems m by simp
qed

corollary vec_of_exact:
  assumes "list_all (\<lambda>x. length (enc x) = sz \<and> dec (enc x) = x) xs"
  shows "vec_of sz dec (length xs) (concat (map enc xs)) = xs"
  using vec_of_concat [OF assms, of "length xs" "[]"] by auto

lemma jif_header_decodes: "length (jh_magic h) = 4 \<Longrightarrow> jif_header_of (jif_header_bytes h) = h"
  by (simp add: jif_header_of_def jif_header_bytes_def le_at_def)

lemma jif_phdr_decodes: "jif_phdr_of (jif_phdr_bytes p) = p"
  by (simp add: jif_phdr_of_def jif_phdr_bytes_def le_at_def)

lemma jif_interval_decodes: "jif_interval_of (jif_interval_bytes i) = i"
  by (simp add: jif_interval_of_def jif_interval_bytes_def le_at_def)

lemma jif_node_decodes:
  assumes "length node = 3"
  shows "jif_node_of (jif_node_bytes node) = node" "length (jif_node_bytes node) = 72"
  using vec_of_exact [of jif_interval_bytes 24 jif_interval_of node] length_concat_same [of jif_interval_bytes 24 node] assms
  by (simp_all add: jif_node_of_def jif_node_bytes_def jif_interval_decodes jif_interval_size_def list_all_iff)

lemma vec_of_bytes: "length bs = n \<Longrightarrow> vec_of 1 (\<lambda>b. b ! 0) n bs = bs"
  by (rule nth_equalityI) (simp_all add: vec_of_def)

section \<open>Reading from the host\<close>

text \<open>
  What \<open>pread\<close> promises of a file with given contents: if it succeeds it returns bytes from the offset on, at least one
  unless none is wanted or the file has ended.
\<close>

definition host_file :: "'h jif_env \<Rightarrow> nat \<Rightarrow> byte list \<Rightarrow> bool" where
  "host_file env fd contents \<longleftrightarrow> length contents < 2 ^ 63 \<and>
     (\<forall>n off bs. je_pread env fd n off = Inr bs \<longrightarrow>
        (\<exists>m\<le>n. bs = take m (drop (unat off) contents) \<and> (0 < n \<and> unat off < length contents \<longrightarrow> 0 < m)))"

text \<open>A host that reads, opens and maps whatever it is asked to.\<close>

definition host_willing :: "'h jif_env \<Rightarrow> bool" where
  "host_willing env \<longleftrightarrow> (\<forall>fd n off. \<exists>bs. je_pread env fd n off = Inr bs) \<and> (\<forall>name. \<exists>fd. je_open env name = Inr fd) \<and>
     (\<forall>addr len prot flags src h. 0 < len \<and> flags AND MAP_FIXED \<noteq> 0 \<longrightarrow> 0 \<le> fst (je_mmap env addr len prot flags src h))"

lemma ReadFull_host:
  assumes "host_file env fd contents" "len - length acc < fuel" "length acc \<le> len" "unat off + length acc \<le> length contents"
    "acc = take (length acc) (drop (unat off) contents)"
  shows "\<exists>r f'. ReadFull fuel (kf_Read env) len acc \<lparr>kf_fd = fd, kf_off = off + of_nat (length acc)\<rparr> = Some (r, f') \<and>
    kf_fd f' = fd \<and> (host_willing env \<and> unat off + len \<le> length contents \<longrightarrow> (\<exists>bs. r = Inr bs)) \<and>
    (\<forall>bs. r = Inr bs \<longrightarrow> unat off + len \<le> length contents \<and> bs = take len (drop (unat off) contents))"
  using assms
proof (induction fuel arbitrary: acc)
  case (Suc fuel)
  let ?f = "\<lparr>kf_fd = fd, kf_off = off + of_nat (length acc)\<rparr>"
  have small: "length contents < 2 ^ 63" using Suc.prems(1) by (simp add: host_file_def)
  have u: "unat (off + of_nat (length acc)) = unat off + length acc"
    using Suc.prems(4) small unat_add_no_wrap [of off "of_nat (length acc)"] by (simp add: unat_of_nat take_bit_nat_eq_self)
  show ?case
  proof (cases "length acc < len \<and> (\<exists>bs. kf_Read env (len - length acc) ?f = (Inr bs, ?f\<lparr>kf_off := kf_off ?f + of_nat (length bs)\<rparr>))")
    case False
    have "\<exists>bs. kf_Read env (len - length acc) ?f = (Inr bs, ?f\<lparr>kf_off := kf_off ?f + of_nat (length bs)\<rparr>)"
      if hw: "host_willing env" and lt: "length acc < len" "unat off + len \<le> length contents"
    proof -
      obtain bs where bs: "je_pread env fd (len - length acc) (off + of_nat (length acc)) = Inr bs"
        using hw unfolding host_willing_def by blast
      then obtain m where m: "bs = take m (drop (unat off + length acc) contents)"
          "0 < len - length acc \<and> unat off + length acc < length contents \<longrightarrow> 0 < m"
        using Suc.prems(1) u unfolding host_file_def by metis
      then show ?thesis using bs lt by (auto simp: kf_Read_def)
    qed
    then show ?thesis using False Suc.prems(3,4,5)
      by (auto simp: kf_Read_def split: sum.splits if_splits)
  next
    case True
    then obtain bs where r: "length acc < len" "kf_Read env (len - length acc) ?f = (Inr bs, ?f\<lparr>kf_off := kf_off ?f + of_nat (length bs)\<rparr>)"
      by blast
    then have p: "je_pread env fd (len - length acc) (off + of_nat (length acc)) = Inr bs" "bs \<noteq> []"
      by (auto simp: kf_Read_def split: sum.splits if_splits)
    obtain m where m: "m \<le> len - length acc" "bs = take m (drop (unat off + length acc) contents)"
      using Suc.prems(1) p(1) u unfolding host_file_def by metis
    have lb: "length bs \<le> len - length acc" "unat off + length acc + length bs \<le> length contents" "0 < length bs"
      using m p(2) by auto
    have "acc @ bs = take (length (acc @ bs)) (drop (unat off) contents)"
    proof -
      have "bs = take (length bs) (drop (length acc) (drop (unat off) contents))"
        using m(2) by (simp add: add.commute min_def)
      then show ?thesis using Suc.prems(5) by (metis length_append take_add)
    qed
    moreover have "len - length (acc @ bs) < fuel" unfolding length_append using lb r(1) Suc.prems(2) by linarith
    ultimately have "\<exists>r f'. ReadFull fuel (kf_Read env) len (acc @ bs) \<lparr>kf_fd = fd, kf_off = off + of_nat (length (acc @ bs))\<rparr> = Some (r, f') \<and>
      kf_fd f' = fd \<and> (host_willing env \<and> unat off + len \<le> length contents \<longrightarrow> (\<exists>bs. r = Inr bs)) \<and>
      (\<forall>bs. r = Inr bs \<longrightarrow> unat off + len \<le> length contents \<and> bs = take len (drop (unat off) contents))"
      using lb Suc.prems r(1) by (intro Suc.IH) auto
    then show ?thesis using r p(2) by (simp add: add.assoc)
  qed
qed simp

lemma kf_ReadFull_host:
  assumes "host_file env (kf_fd f) contents" "unat (kf_off f) \<le> length contents"
  shows "\<exists>r f'. kf_ReadFull env n f = Some (r, f') \<and> kf_fd f' = kf_fd f \<and>
    (host_willing env \<and> unat (kf_off f) + n \<le> length contents \<longrightarrow> (\<exists>bs. r = Inr bs)) \<and>
    (\<forall>bs. r = Inr bs \<longrightarrow> unat (kf_off f) + n \<le> length contents \<and> bs = take n (drop (unat (kf_off f)) contents))"
  using ReadFull_host [OF assms(1), of n "[]" "Suc n" "kf_off f"] assms(2) by (cases f) (simp add: kf_ReadFull_def)

lemma read_table_host:
  assumes "host_file env (kf_fd f) contents" "unat off \<le> length contents"
  shows "\<exists>r f'. read_table env off sz dec n f = Some (r, f') \<and> kf_fd f' = kf_fd f \<and>
    (host_willing env \<and> unat off + n * sz \<le> length contents \<longrightarrow> (\<exists>xs. r = Inr xs)) \<and>
    (\<forall>xs. r = Inr xs \<longrightarrow> unat off + n * sz \<le> length contents \<and> xs = vec_of sz dec n (take (n * sz) (drop (unat off) contents)))"
  using kf_ReadFull_host [of env "f\<lparr>kf_off := off\<rparr>" contents "n * sz"] assms
  by (auto simp: read_table_def split: sum.splits)


section \<open>The layout of the metadata\<close>

definition round_up :: "nat \<Rightarrow> nat" where
  "round_up n = (n + 4095) div 4096 * 4096"

lemma round_up_props [simp]: "n \<le> round_up n" "round_up 0 = 0" "4096 dvd round_up n"
  by (simp_all add: round_up_def)

lemma round_up_diff: "round_up n - n = (if n mod 4096 = 0 then 0 else 4096 - n mod 4096)"
proof -
  define q m where "q = n div 4096" and "m = n mod 4096"
  have n: "n = 4096 * q + m" "m < 4096" by (simp_all add: q_def m_def)
  have "(4096 * q + m + 4095) div 4096 = q + (if m = 0 then 0 else 1)" using n(2) by auto
  then show ?thesis unfolding round_up_def m_def [symmetric] unfolding n(1) using n(2) by (simp add: algebra_simps)
qed

lemma round_up_add: "4096 dvd a \<Longrightarrow> round_up (a + b) = a + round_up b"
  by (auto simp: round_up_def elim!: dvdE) (simp add: add.assoc)

lemma PageAlign_round_up: "n + 4095 < 2 ^ 64 \<Longrightarrow> unat (PageAlign (of_nat n)) = round_up n"
  using PageAlign_unat [of "of_nat n"] by (simp add: unat_of_nat take_bit_nat_eq_self round_up_def)

definition ia_bytes :: "IOVAccumulator \<Rightarrow> byte list" where
  "ia_bytes a = concat (ia_vec a)"

definition ia_ok :: "IOVAccumulator \<Rightarrow> bool" where
  "ia_ok a \<longleftrightarrow> ia_size a = of_nat (length (ia_bytes a))"

lemma ia_empty_ok [simp]: "ia_ok ia_empty" "ia_bytes ia_empty = []"
  by (simp_all add: ia_ok_def ia_bytes_def ia_empty_def)

lemma ia_Add_ok [simp]: "ia_ok a \<Longrightarrow> ia_ok (ia_Add bs a)" "ia_bytes (ia_Add bs a) = ia_bytes a @ bs"
  by (simp_all add: ia_ok_def ia_bytes_def ia_Add_def)

lemma ia_Pad_ok:
  assumes "ia_ok a"
  shows "ia_ok (ia_Pad kPageSize a)"
    "ia_bytes (ia_Pad kPageSize a) = ia_bytes a @ replicate (round_up (length (ia_bytes a)) - length (ia_bytes a)) 0"
proof -
  let ?n = "length (ia_bytes a)"
  have u: "unat (ia_size a mod kPageSize) = ?n mod 4096"
    using assms by (simp add: ia_ok_def kPageSize_def unat_mod_distrib unat_of_nat take_bit_eq_mod mod_mod_cancel)
  have z: "ia_size a mod kPageSize = 0 \<longleftrightarrow> ?n mod 4096 = 0" using u by (simp add: word_unat_eq_iff)
  have r: "round_up ?n - ?n = (if ?n mod 4096 = 0 then 0 else 4096 - ?n mod 4096)" by (rule round_up_diff)
  have d: "unat (kPageSize - ia_size a mod kPageSize) = 4096 - ?n mod 4096"
  proof -
    have "?n mod 4096 < 4096" by simp
    then have le: "ia_size a mod kPageSize \<le> kPageSize" unfolding word_le_nat_alt u by (simp add: kPageSize_def)
    show ?thesis using u unat_sub [OF le] by (simp add: kPageSize_def)
  qed
  show "ia_ok (ia_Pad kPageSize a)" using assms by (simp add: ia_Pad_def)
  show "ia_bytes (ia_Pad kPageSize a) = ia_bytes a @ replicate (round_up ?n - ?n) 0"
    unfolding ia_Pad_def r using z d by simp
qed

definition jif_padding :: "nat \<Rightarrow> byte list" where
  "jif_padding n = replicate (round_up n - n) 0"

lemma length_padded [simp]: "length xs = n \<Longrightarrow> length (xs @ jif_padding n) = round_up n"
  by (simp add: jif_padding_def)

text \<open>The three tables, each followed by padding.\<close>

lemma jif_metadata_bytes:
  fixes jif :: jif_data
  assumes "jd_ord jif = []" "length (jh_magic (jd_hdr jif)) = 4" "list_all (\<lambda>t. length t = 3) (jd_itrees jif)"
  defines "P \<equiv> concat (map jif_phdr_bytes (jd_phdrs jif))" and "T \<equiv> concat (map jif_node_bytes (jd_itrees jif))"
  shows "ia_bytes (jif_metadata jif) =
      (jif_header_bytes (jd_hdr jif) @ P @ jif_padding (40 + 37 * length (jd_phdrs jif))) @
      (jd_strings jif @ jif_padding (length (jd_strings jif))) @ (T @ jif_padding (72 * length (jd_itrees jif)))"
    and "ia_ok (jif_metadata jif)"
proof -
  let ?S = "jd_strings jif" and ?H = "jif_header_bytes (jd_hdr jif)"
  have lP: "length P = 37 * length (jd_phdrs jif)"
    using length_concat_same [of jif_phdr_bytes 37 "jd_phdrs jif"] by (simp add: P_def list_all_iff)
  have lT: "length T = 72 * length (jd_itrees jif)"
    using length_concat_same [of jif_node_bytes 72 "jd_itrees jif"] assms(3) jif_node_decodes(2) by (simp add: T_def list_all_iff)
  define A where "A = ?H @ P @ jif_padding (40 + 37 * length (jd_phdrs jif))"
  have A: "ia_bytes (ia_Pad kPageSize (ia_Add P (ia_Add ?H ia_empty))) = A"
    unfolding A_def using assms(2) lP by (simp add: ia_Pad_ok(2) jif_padding_def)
  have lA: "4096 dvd length A"
    using assms(2) lP length_padded [of "?H @ P" "40 + 37 * length (jd_phdrs jif)"] by (simp add: A_def)
  have pad: "ia_bytes (ia_Pad kPageSize (ia_Add bs a)) = ia_bytes a @ bs @ jif_padding (length bs)"
    if "ia_ok a" "4096 dvd length (ia_bytes a)" for bs a
    using that by (simp add: ia_Pad_ok(2) round_up_add jif_padding_def)
  have dvd: "4096 dvd length (ia_bytes (ia_Pad kPageSize a))" if "ia_ok a" for a
    using that by (simp add: ia_Pad_ok(2))
  define a1 where "a1 = ia_Pad kPageSize (ia_Add P (ia_Add ?H ia_empty))"
  define a2 where "a2 = ia_Pad kPageSize (ia_Add ?S a1)"
  define a3 where "a3 = ia_Pad kPageSize (ia_Add T a2)"
  have m: "jif_metadata jif = ia_Pad kPageSize (ia_Add [] a3)"
    by (simp add: jif_metadata_def assms(1) a1_def a2_def a3_def P_def T_def)
  have ok: "ia_ok a1" "ia_ok a2" "ia_ok a3" by (simp_all add: a1_def a2_def a3_def ia_Pad_ok(1))
  have al: "4096 dvd length (ia_bytes a1)" "4096 dvd length (ia_bytes a2)" "4096 dvd length (ia_bytes a3)"
    using ok by (auto simp: a1_def a2_def a3_def intro!: dvd)
  show "ia_ok (jif_metadata jif)" using ok by (simp add: m ia_Pad_ok(1))
  have "ia_bytes (jif_metadata jif) = ia_bytes a1 @ (?S @ jif_padding (length ?S)) @ (T @ jif_padding (length T))"
    unfolding m pad [OF ok(3) al(3)] unfolding a3_def pad [OF ok(2) al(2)] unfolding a2_def pad [OF ok(1) al(1)]
    by (simp add: jif_padding_def)
  then show "ia_bytes (jif_metadata jif) = (?H @ P @ jif_padding (40 + 37 * length (jd_phdrs jif))) @
      (?S @ jif_padding (length ?S)) @ (T @ jif_padding (72 * length (jd_itrees jif)))"
    unfolding lT a1_def A A_def .
qed


section \<open>What the tables say about an area\<close>

definition area_ivs :: "memory \<Rightarrow> jif_area \<Rightarrow> u64 \<Rightarrow> jif_interval list" where
  "area_ivs mem a pos =
     (let nz = saved_size mem a in
      (if nz \<noteq> 0 then [\<lparr>ji_start = sa_start a, ji_end = sa_start a + nz, ji_offset = pos\<rparr>] else []) @
      (if ja_ref_offset a \<noteq> kUInt64Max \<and> sa_data a > nz
       then [\<lparr>ji_start = sa_start a + nz, ji_end = sa_start a + sa_data a, ji_offset = kUInt64Max\<rparr>] else []))"

definition ivs_node :: "jif_interval list \<Rightarrow> jif_node" where
  "ivs_node ivs = ivs @ drop (length ivs) InitEmpty"

lemma length_area_ivs: "length (area_ivs mem a pos) \<le> 2"
  by (simp add: area_ivs_def Let_def)

lemma length_ivs_node: "length ivs \<le> 3 \<Longrightarrow> length (ivs_node ivs) = 3"
  by (simp add: ivs_node_def InitEmpty_def)

definition u8_prot :: "i32 \<Rightarrow> i32" where
  "u8_prot prot = ucast (ucast prot :: byte)"

definition readable :: "kernel \<Rightarrow> jif_area \<Rightarrow> bool" where
  "readable k a \<longleftrightarrow> (sa_data a \<noteq> 0 \<and> u8_prot (sa_prot a) AND PROT_READ = 0 \<longrightarrow>
     KernelMProtect k (sa_start a) (sa_data a) (u8_prot (sa_prot a) OR PROT_READ) = Inr ())"

text \<open>The bytes of an area lie at a position of the data, and its tree is the node at an index.\<close>

definition area_data :: "memory \<Rightarrow> byte list \<Rightarrow> jif_area \<Rightarrow> nat \<Rightarrow> bool" where
  "area_data mem data a pos \<longleftrightarrow> (saved_size mem a \<noteq> 0 \<longrightarrow> pos + unat (saved_size mem a) \<le> length data \<and>
     take (unat (saved_size mem a)) (drop pos data) = mem_bytes mem (sa_start a) (unat (saved_size mem a)))"

definition area_tree :: "memory \<Rightarrow> jif_node list \<Rightarrow> jif_phdr \<Rightarrow> jif_area \<Rightarrow> nat \<Rightarrow> u64 \<Rightarrow> bool" where
  "area_tree mem trees p a i pos \<longleftrightarrow>
     (if area_ivs mem a pos = [] then jp_itree_n_nodes p = 0
      else jp_itree_n_nodes p = 1 \<and> jp_itree_idx p = of_nat i \<and> i < length trees \<and> trees ! i = ivs_node (area_ivs mem a pos))"

definition area_name :: "byte list \<Rightarrow> jif_phdr \<Rightarrow> jif_area \<Rightarrow> bool" where
  "area_name strings p a \<longleftrightarrow> (ja_name a \<noteq> [] \<longrightarrow>
     (\<exists>pre post. strings = pre @ ja_name a @ [0] @ post \<and> jp_pathname_offset p = of_nat (length pre)))"

definition area_fields :: "jif_phdr \<Rightarrow> jif_area \<Rightarrow> bool" where
  "area_fields p a \<longleftrightarrow> jp_vbegin p = sa_start a \<and> jp_vend p = sa_start a + sa_len a \<and> jp_ref_offset p = ja_ref_offset a \<and>
     jp_prot p = ucast (LinuxProtToJIFProt (u8_prot (sa_prot a))) \<and> ((ja_name a = []) = (ja_ref_offset a = kUInt64Max))"

definition phdr_describes :: "memory \<Rightarrow> jif_node list \<Rightarrow> byte list \<Rightarrow> byte list \<Rightarrow> jif_phdr \<Rightarrow> jif_area \<Rightarrow> bool" where
  "phdr_describes mem trees strings data p a \<longleftrightarrow> area_fields p a \<and> area_name strings p a \<and>
     (\<exists>i pos. area_data mem data a pos \<and> area_tree mem trees p a i (of_nat pos))"

lemma phdr_describes_mono:
  assumes "phdr_describes mem trees strings data p a"
  shows "phdr_describes mem (trees @ t) (strings @ s) (data @ d) p a"
proof -
  have "area_name (strings @ s) p a" if "area_name strings p a" using that unfolding area_name_def by fastforce
  moreover have "area_data mem (data @ d) a pos" if "area_data mem data a pos" for pos
    using that by (auto simp: area_data_def)
  moreover have "area_tree mem (trees @ t) p a i pos" if "area_tree mem trees p a i pos" for i pos
    using that by (auto simp: area_tree_def nth_append)
  ultimately show ?thesis using assms unfolding phdr_describes_def by blast
qed

definition jif_describes :: "memory \<Rightarrow> jif_area list \<Rightarrow> jif_data \<Rightarrow> IOVAccumulator \<Rightarrow> bool" where
  "jif_describes mem as jif iovs \<longleftrightarrow> ia_ok iovs \<and> jd_ord jif = [] \<and> jd_hdr jif = jd_hdr jif_new \<and>
     list_all (\<lambda>t. length t = 3) (jd_itrees jif) \<and>
     list_all2 (phdr_describes mem (jd_itrees jif) (jd_strings jif) (ia_bytes iovs)) (jd_phdrs jif) as"

lemma AddPhdr_describes:
  assumes "jif_describes mem as jif iovs" "readable k a"
    and add: "AddPhdr k mem (ucast (sa_prot a)) (sa_start a) (sa_data a) (sa_len a) (ja_ref_offset a) (ja_name a) (jif, iovs) =
      Some (r, jif', iovs')"
  shows "jif_describes mem (as @ [a]) jif' iovs'"
proof -
  let ?ivs = "area_ivs mem a (ia_size iovs)" and ?nz = "saved_size mem a"
  define p where "p = \<lparr>jp_vbegin = sa_start a, jp_vend = sa_start a + sa_len a, jp_ref_offset = ja_ref_offset a,
      jp_itree_idx = of_nat (length (jd_itrees jif)), jp_itree_n_nodes = (if ?ivs \<noteq> [] then 1 else 0),
      jp_pathname_offset = (if ja_name a \<noteq> [] then of_nat (length (jd_strings jif)) else kUInt32Max),
      jp_prot = ucast (LinuxProtToJIFProt (u8_prot (sa_prot a)))\<rparr>"
  define t where "t = (if ?ivs \<noteq> [] then [ivs_node ?ivs] else [])"
  define s where "s = (if ja_name a \<noteq> [] then ja_name a @ [0] else [])"
  define d where "d = (if ?nz \<noteq> 0 then mem_bytes mem (sa_start a) (unat ?nz) else [])"
  have nm: "(ja_name a = []) = (ja_ref_offset a = kUInt64Max)"
    and jif': "jif' = jif\<lparr>jd_itrees := jd_itrees jif @ t, jd_strings := jd_strings jif @ s, jd_phdrs := jd_phdrs jif @ [p]\<rparr>"
    and iovs': "iovs' = (if ?nz \<noteq> 0 then ia_Add (mem_bytes mem (sa_start a) (unat ?nz)) iovs else iovs)"
    using add assms(2)
    unfolding AddPhdr_def readable_def p_def t_def s_def u8_prot_def area_ivs_def ivs_node_def saved_size_def Let_def
    by (auto split: sum.splits if_splits)
  have d: "ia_bytes iovs' = ia_bytes iovs @ d" "ia_ok iovs'" using assms(1) by (simp_all add: iovs' d_def jif_describes_def)
  have i: "ia_size iovs = of_nat (length (ia_bytes iovs))" using assms(1) by (simp add: jif_describes_def ia_ok_def)
  have "area_fields p a" using nm by (simp add: area_fields_def p_def)
  moreover have "area_name (jd_strings jif @ s) p a" by (auto simp: area_name_def s_def p_def)
  moreover have "area_data mem (ia_bytes iovs @ d) a (length (ia_bytes iovs))" by (simp add: area_data_def d_def)
  moreover have "area_tree mem (jd_itrees jif @ t) p a (length (jd_itrees jif)) (of_nat (length (ia_bytes iovs)))"
    unfolding i [symmetric] by (simp add: area_tree_def p_def t_def)
  ultimately have "phdr_describes mem (jd_itrees jif @ t) (jd_strings jif @ s) (ia_bytes iovs @ d) p a"
    unfolding phdr_describes_def by blast
  moreover have "list_all2 (phdr_describes mem (jd_itrees jif @ t) (jd_strings jif @ s) (ia_bytes iovs @ d)) (jd_phdrs jif) as"
    using assms(1) phdr_describes_mono unfolding jif_describes_def by (auto elim: list_all2_mono)
  ultimately have "list_all2 (phdr_describes mem (jd_itrees jif @ t) (jd_strings jif @ s) (ia_bytes iovs @ d))
      (jd_phdrs jif @ [p]) (as @ [a])"
    by (intro list_all2_appendI) simp_all
  then show ?thesis
    using assms(1) d length_ivs_node [of ?ivs] length_area_ivs [of mem a "ia_size iovs"]
    unfolding jif_describes_def jif' by (auto simp: t_def)
qed

lemma add_phdrs_describes:
  "jif_describes mem bs jif iovs \<Longrightarrow> list_all (readable k) as \<Longrightarrow> add_phdrs k mem as (jif, iovs) = Some (jif', iovs') \<Longrightarrow>
     jif_describes mem (bs @ as) jif' iovs'"
proof (induction as arbitrary: bs jif iovs)
  case (Cons a as)
  then obtain r jif1 iovs1 where
    "AddPhdr k mem (ucast (sa_prot a)) (sa_start a) (sa_data a) (sa_len a) (ja_ref_offset a) (ja_name a) (jif, iovs) =
       Some (r, jif1, iovs1)" "add_phdrs k mem as (jif1, iovs1) = Some (jif', iovs')"
    by (auto split: option.splits)
  then show ?case using AddPhdr_describes Cons.IH Cons.prems by fastforce
qed simp


text \<open>An area that cannot be made readable is left out, and the snapshot goes on.\<close>

lemma unreadable_area_dropped:
  assumes "sa_data a \<noteq> 0" "u8_prot (sa_prot a) AND PROT_READ = 0"
    "KernelMProtect k (sa_start a) (sa_data a) (u8_prot (sa_prot a) OR PROT_READ) = Inl e"
  shows "add_phdrs k mem (a # as) st = add_phdrs k mem as st"
  using assms by (cases st) (simp add: AddPhdr_def u8_prot_def)

section \<open>The image of a snapshot\<close>

definition jif_areas :: "(nat \<Rightarrow> u64) \<Rightarrow> (nat \<Rightarrow> bool) \<Rightarrow> (nat \<Rightarrow> byte list) \<Rightarrow> VMArea list \<Rightarrow> FSMemoryArea list \<Rightarrow> jif_area list" where
  "jif_areas get_size shareable get_filename vmas fs =
     map (the \<circ> vma_jif_area get_size shareable get_filename) (sort_key va_start vmas) @ map fs_jif_area fs"

lemma those_Some: "those xs = Some ys \<Longrightarrow> ys = map the xs"
  by (induction xs arbitrary: ys) (auto split: option.splits)

definition final_hdr :: "jif_data \<Rightarrow> jif_header" where
  "final_hdr jif = (jd_hdr jif)\<lparr>jh_n_pheaders := of_nat (length (jd_phdrs jif)),
     jh_strings_size := ucast (PageAlign (of_nat (length (jd_strings jif)))),
     jh_itrees_size := ucast (PageAlign (of_nat (length (jd_itrees jif) * jif_node_size))),
     jh_ord_size := 0, jh_n_write_prefetch := 0, jh_n_total_prefetch := 0\<rparr>"

definition final_jif :: "jif_data \<Rightarrow> jif_data" where
  "final_jif jif = jif\<lparr>jd_hdr := final_hdr jif, jd_itrees := map (fix_offsets (data_offset (final_hdr jif))) (jd_itrees jif)\<rparr>"

lemma GetJifVmaData_describes:
  assumes "GetJifVmaData k get_size shareable get_filename mem vmas fs = Some (jif', iovs)"
    and "list_all (readable k) (jif_areas get_size shareable get_filename vmas fs)"
  shows "\<exists>jif. jif_describes mem (jif_areas get_size shareable get_filename vmas fs) jif iovs \<and> jif' = final_jif jif"
proof -
  have "jif_describes mem [] jif_new ia_empty" by (simp add: jif_describes_def jif_new_def)
  note D = add_phdrs_describes [OF this assms(2)]
  obtain as jif where *: "those (map (vma_jif_area get_size shareable get_filename) (sort_key va_start vmas)) = Some as"
    "add_phdrs k mem (as @ map fs_jif_area fs) (jif_new, ia_empty) = Some (jif, iovs)" "jif' = final_jif jif"
    using assms(1) unfolding GetJifVmaData_def Let_def final_jif_def final_hdr_def by (auto split: option.splits prod.splits)
  have "as @ map fs_jif_area fs = jif_areas get_size shareable get_filename vmas fs"
    using those_Some [OF *(1)] by (simp add: jif_areas_def)
  then show ?thesis using D *(2,3) by auto
qed

lemma unat_ucast_small: "unat x < 2 ^ 32 \<Longrightarrow> unat (ucast (x :: u64) :: u32) = unat x"
  by (simp add: unsigned_ucast_eq take_bit_nat_eq_self)

lemma unat_ucast_up: "unat (ucast (x :: u32) :: u64) = unat x"
  using unsigned_less [of x, where 'a = nat] by (simp add: unsigned_ucast_eq take_bit_nat_eq_self)

text \<open>If the metadata is shorter than four gigabytes, the header's numbers are exact.\<close>

lemma final_hdr_exact:
  fixes jif :: jif_data
  defines "n \<equiv> length (jd_phdrs jif)" and "l \<equiv> length (jd_strings jif)" and "m \<equiv> length (jd_itrees jif)"
  assumes "round_up (40 + 37 * n) + round_up l + round_up (72 * m) < 2 ^ 32"
  shows "unat (jh_n_pheaders (final_hdr jif)) = n" "unat (jh_strings_size (final_hdr jif)) = round_up l"
    "unat (jh_itrees_size (final_hdr jif)) = round_up (72 * m)" "jh_ord_size (final_hdr jif) = 0"
    "unat (strings_offset (final_hdr jif)) = round_up (40 + 37 * n)"
    "unat (itrees_offset (final_hdr jif)) = round_up (40 + 37 * n) + round_up l"
    "unat (ord_offset (final_hdr jif)) = round_up (40 + 37 * n) + round_up l + round_up (72 * m)"
    "data_offset (final_hdr jif) = ord_offset (final_hdr jif)"
proof -
  have "40 + 37 * n \<le> round_up (40 + 37 * n)" "l \<le> round_up l" "72 * m \<le> round_up (72 * m)" "(2 :: nat) ^ 32 + 4096 \<le> 2 ^ 64"
    by simp_all
  then have le: "n < 2 ^ 32" "40 + 37 * n + 4095 < 2 ^ 64" "l + 4095 < 2 ^ 64" "72 * m + 4095 < 2 ^ 64"
    using assms(4) by linarith+
  show n: "unat (jh_n_pheaders (final_hdr jif)) = n"
    using le(1) by (simp add: final_hdr_def n_def unat_of_nat take_bit_nat_eq_self)
  have "unat (PageAlign (of_nat l)) = round_up l" "unat (PageAlign (of_nat (m * 72))) = round_up (72 * m)"
    using PageAlign_round_up [OF le(3)] PageAlign_round_up [OF le(4)] by (simp_all only: mult.commute)
  then show l: "unat (jh_strings_size (final_hdr jif)) = round_up l"
    and m: "unat (jh_itrees_size (final_hdr jif)) = round_up (72 * m)"
    using assms(4) by (simp_all add: final_hdr_def l_def m_def jif_node_size_def unat_ucast_small del: of_nat_mult)
  show o: "jh_ord_size (final_hdr jif) = 0" by (simp add: final_hdr_def)
  have "of_nat jif_header_size + ucast (jh_n_pheaders (final_hdr jif)) * of_nat jif_phdr_size = (of_nat (40 + 37 * n) :: u64)"
  proof -
    have "ucast (jh_n_pheaders (final_hdr jif)) = (of_nat n :: u64)"
      using n le(1) by (simp add: word_unat_eq_iff unat_ucast_up unat_of_nat take_bit_nat_eq_self)
    then show ?thesis by (simp add: jif_header_size_def jif_phdr_size_def mult.commute)
  qed
  then show s: "unat (strings_offset (final_hdr jif)) = round_up (40 + 37 * n)"
    using PageAlign_round_up [OF le(2)] by (simp only: strings_offset_def)
  show i: "unat (itrees_offset (final_hdr jif)) = round_up (40 + 37 * n) + round_up l"
    using assms(4) s l unat_add_no_wrap [of "strings_offset (final_hdr jif)" "ucast (jh_strings_size (final_hdr jif))"]
    by (simp add: itrees_offset_def unat_ucast_up)
  show "unat (ord_offset (final_hdr jif)) = round_up (40 + 37 * n) + round_up l + round_up (72 * m)"
    using assms(4) i m unat_add_no_wrap [of "itrees_offset (final_hdr jif)" "ucast (jh_itrees_size (final_hdr jif))"]
    by (simp add: ord_offset_def unat_ucast_up)
  show "data_offset (final_hdr jif) = ord_offset (final_hdr jif)" by (simp add: data_offset_def o)
qed


text \<open>What \<open>ParseJIF\<close> finds in the tables of an image.  Padding may follow the names and the trees.\<close>

definition parsed_from :: "jif_data \<Rightarrow> jif_data \<Rightarrow> bool" where
  "parsed_from jif jif' \<longleftrightarrow> jd_phdrs jif' = jd_phdrs jif \<and> (\<exists>z. jd_strings jif' = jd_strings jif @ z) \<and>
     (\<exists>ts. jd_itrees jif' = jd_itrees jif @ ts)"

lemma read_table_part:
  assumes "host_file env (kf_fd f) contents" "contents = pre @ body @ post" "length pre = unat off" "length body = n * sz"
  shows "\<exists>r f'. read_table env off sz dec n f = Some (r, f') \<and> kf_fd f' = kf_fd f \<and>
    (host_willing env \<longrightarrow> (\<exists>xs. r = Inr xs)) \<and> (\<forall>xs. r = Inr xs \<longrightarrow> xs = vec_of sz dec n body)"
  using read_table_host [OF assms(1), of off sz dec n] assms(2-4) by simp

text \<open>The parts of an image.\<close>

definition well_sized :: "jif_data \<Rightarrow> bool" where
  "well_sized jif \<longleftrightarrow> jd_ord jif = [] \<and> jd_hdr jif = jd_hdr jif_new \<and> list_all (\<lambda>t. length t = 3) (jd_itrees jif) \<and>
     round_up (40 + 37 * length (jd_phdrs jif)) + round_up (length (jd_strings jif)) + round_up (72 * length (jd_itrees jif)) < 2 ^ 32"

definition im_phdrs :: "jif_data \<Rightarrow> byte list" where
  "im_phdrs jif = concat (map jif_phdr_bytes (jd_phdrs jif))"

definition im_strings :: "jif_data \<Rightarrow> byte list" where
  "im_strings jif = jd_strings jif @ jif_padding (length (jd_strings jif))"

definition im_trees :: "jif_data \<Rightarrow> byte list" where
  "im_trees jif = concat (map jif_node_bytes (jd_itrees (final_jif jif))) @ jif_padding (72 * length (jd_itrees jif))"

definition im_head :: "jif_data \<Rightarrow> byte list" where
  "im_head jif = jif_header_bytes (final_hdr jif) @ im_phdrs jif @ jif_padding (40 + 37 * length (jd_phdrs jif))"

definition jif_image :: "jif_data \<Rightarrow> byte list \<Rightarrow> byte list" where
  "jif_image jif data = im_head jif @ im_strings jif @ im_trees jif @ data"

lemma final_hdr_fields:
  assumes "well_sized jif"
  shows "jh_magic (final_hdr jif) = [0x77, 0x4a, 0x49, 0x46]" "jif_HeaderIsValid (final_hdr jif)"
    "length (jif_header_bytes (final_hdr jif)) = 40"
  using assms by (simp_all add: final_hdr_def jif_new_def well_sized_def jif_HeaderIsValid_def)

lemma final_jif_fields:
  assumes "well_sized jif"
  shows "jd_hdr (final_jif jif) = final_hdr jif" "jd_phdrs (final_jif jif) = jd_phdrs jif" "jd_strings (final_jif jif) = jd_strings jif"
    "jd_ord (final_jif jif) = []" "length (jd_itrees (final_jif jif)) = length (jd_itrees jif)"
    "list_all (\<lambda>t. length (jif_node_bytes t) = 72 \<and> jif_node_of (jif_node_bytes t) = t) (jd_itrees (final_jif jif))"
    "list_all (\<lambda>t. length t = 3) (jd_itrees (final_jif jif))"
  using assms jif_node_decodes by (simp_all add: final_jif_def well_sized_def list_all_iff fix_offsets_def)

lemma length_im:
  assumes "well_sized jif"
  shows "length (im_phdrs jif) = length (jd_phdrs jif) * 37" "length (im_head jif) = round_up (40 + 37 * length (jd_phdrs jif))"
    "length (im_strings jif) = round_up (length (jd_strings jif))" "length (im_trees jif) = round_up (72 * length (jd_itrees jif))"
proof -
  show P: "length (im_phdrs jif) = length (jd_phdrs jif) * 37"
    using length_concat_same [of jif_phdr_bytes 37 "jd_phdrs jif"] by (simp add: im_phdrs_def list_all_iff)
  show "length (im_head jif) = round_up (40 + 37 * length (jd_phdrs jif))"
    using length_padded [of "jif_header_bytes (final_hdr jif) @ im_phdrs jif" "40 + 37 * length (jd_phdrs jif)"] P
      final_hdr_fields(3) [OF assms] by (simp add: im_head_def)
  show "length (im_strings jif) = round_up (length (jd_strings jif))" unfolding im_strings_def by (intro length_padded) simp
  show "length (im_trees jif) = round_up (72 * length (jd_itrees jif))"
    using length_concat_same [of jif_node_bytes 72 "jd_itrees (final_jif jif)"] final_jif_fields(5,6) [OF assms]
    unfolding im_trees_def by (intro length_padded) (simp add: list_all_iff)
qed

lemma jif_metadata_image: "well_sized jif \<Longrightarrow> ia_bytes (jif_metadata (final_jif jif)) @ data = jif_image jif data"
  using jif_metadata_bytes(1) [of "final_jif jif"] final_jif_fields [of jif] final_hdr_fields(1) [of jif]
  by (simp add: jif_image_def im_head_def im_phdrs_def im_strings_def im_trees_def)

lemma well_sized_hdr:
  assumes "well_sized jif"
  defines "n \<equiv> length (jd_phdrs jif)" and "l \<equiv> length (jd_strings jif)" and "m \<equiv> length (jd_itrees jif)"
  shows "unat (jh_n_pheaders (final_hdr jif)) = n" "unat (jh_strings_size (final_hdr jif)) = round_up l"
    "unat (jh_itrees_size (final_hdr jif)) = round_up (72 * m)" "jh_ord_size (final_hdr jif) = 0"
    "unat (strings_offset (final_hdr jif)) = length (im_head jif)"
    "unat (itrees_offset (final_hdr jif)) = length (im_head jif) + length (im_strings jif)"
    "unat (ord_offset (final_hdr jif)) = length (im_head jif) + length (im_strings jif) + length (im_trees jif)"
    "data_offset (final_hdr jif) = ord_offset (final_hdr jif)"
  unfolding length_im [OF assms(1)] n_def l_def m_def using assms(1) final_hdr_exact [of jif] by (simp_all add: well_sized_def)

text \<open>Each reading returns, and if it succeeds it finds its part.\<close>

lemma ReadHeader_image:
  assumes "well_sized jif" "host_file env fd (jif_image jif data)"
  shows "\<exists>r f1. jif_ReadHeader env \<lparr>kf_fd = fd, kf_off = 0\<rparr> = Some (r, f1) \<and> kf_fd f1 = fd \<and>
    (host_willing env \<longrightarrow> (\<exists>x. r = Inr x)) \<and> (\<forall>h. r = Inr h \<longrightarrow> h = final_hdr jif)"
proof -
  have "take 40 (drop (unat (0 :: u64)) (jif_image jif data)) = jif_header_bytes (final_hdr jif)"
    using final_hdr_fields(3) [OF assms(1)] by (simp add: jif_image_def im_head_def)
  then show ?thesis
    using kf_ReadFull_host [of env "\<lparr>kf_fd = fd, kf_off = 0\<rparr>" "jif_image jif data" 40] assms(2)
      jif_header_decodes [of "final_hdr jif"] final_hdr_fields(1,2) [OF assms(1)]
    by (auto simp: jif_ReadHeader_def jif_header_size_def split: sum.splits)
qed

lemma ReadPHDRs_image:
  assumes "well_sized jif" "host_file env (kf_fd f) (jif_image jif data)" "list_all jp_is_valid (jd_phdrs jif)"
  shows "\<exists>r f'. jif_ReadPHDRs env (final_hdr jif) f = Some (r, f') \<and> kf_fd f' = kf_fd f \<and>
    (host_willing env \<longrightarrow> (\<exists>x. r = Inr x)) \<and> (\<forall>ps. r = Inr ps \<longrightarrow> ps = jd_phdrs jif)"
proof -
  have "vec_of 37 jif_phdr_of (length (jd_phdrs jif)) (im_phdrs jif) = jd_phdrs jif"
    unfolding im_phdrs_def by (rule vec_of_exact) (simp add: list_all_iff jif_phdr_decodes)
  then show ?thesis
    using read_table_part [of env f _ "jif_header_bytes (final_hdr jif)" "im_phdrs jif"
        "jif_padding (40 + 37 * length (jd_phdrs jif)) @ im_strings jif @ im_trees jif @ data" 40
        "length (jd_phdrs jif)" 37 jif_phdr_of, OF assms(2)] final_hdr_fields(3) [OF assms(1)] length_im(1) [OF assms(1)] assms(3)
    by (auto simp: jif_ReadPHDRs_def well_sized_hdr [OF assms(1)] jif_header_size_def jif_phdr_size_def jif_image_def im_head_def
        split: sum.splits)
qed

lemma ReadStrings_image:
  assumes "well_sized jif" "host_file env (kf_fd f) (jif_image jif data)"
  shows "\<exists>r f'. ReadStrings env (final_hdr jif) f = Some (r, f') \<and> kf_fd f' = kf_fd f \<and>
    (host_willing env \<longrightarrow> (\<exists>x. r = Inr x)) \<and> (\<forall>xs. r = Inr xs \<longrightarrow> xs = im_strings jif)"
  using read_table_part [OF assms(2) [unfolded jif_image_def] refl, of "strings_offset (final_hdr jif)"
      "round_up (length (jd_strings jif))" 1 "\<lambda>bs. bs ! 0"] length_im(3) [OF assms(1)] vec_of_bytes [of "im_strings jif"]
  by (simp add: ReadStrings_def well_sized_hdr [OF assms(1)])

lemma ReadITrees_image:
  assumes "well_sized jif" "host_file env (kf_fd f) (jif_image jif data)"
  shows "\<exists>r f'. ReadITrees env (final_hdr jif) f = Some (r, f') \<and> kf_fd f' = kf_fd f \<and>
    (host_willing env \<longrightarrow> (\<exists>x. r = Inr x)) \<and> 
    (\<forall>xs. r = Inr xs \<longrightarrow> (\<exists>ts. xs = jd_itrees (final_jif jif) @ ts))"
proof -
  let ?m = "length (jd_itrees jif)" and ?N = "concat (map jif_node_bytes (jd_itrees (final_jif jif)))"
  define c where "c = round_up (72 * ?m) div 72"
  have "72 * ?m \<le> round_up (72 * ?m)" by simp
  then have c: "?m \<le> c" "c * 72 \<le> round_up (72 * ?m)" unfolding c_def using div_le_mono [of "72 * ?m" _ 72] by simp_all
  have lN: "length ?N = ?m * 72"
    using length_concat_same [of jif_node_bytes 72 "jd_itrees (final_jif jif)"] final_jif_fields(5,6) [OF assms(1)]
    by (simp add: list_all_iff)
  have body: "take (c * 72) (im_trees jif) = ?N @ take (c * 72 - ?m * 72) (jif_padding (72 * ?m))"
    using lN c(1) by (simp add: im_trees_def)
  obtain ts where "vec_of 72 jif_node_of c (take (c * 72) (im_trees jif)) = jd_itrees (final_jif jif) @ ts"
    using vec_of_concat [OF final_jif_fields(6) [OF assms(1)]] c(1) final_jif_fields(5) [OF assms(1)] unfolding body by metis
  moreover have "jif_image jif data = (im_head jif @ im_strings jif) @ take (c * 72) (im_trees jif) @ drop (c * 72) (im_trees jif) @ data"
    by (simp add: jif_image_def)
  ultimately show ?thesis
    using read_table_part [OF assms(2), of "im_head jif @ im_strings jif" "take (c * 72) (im_trees jif)"
        "drop (c * 72) (im_trees jif) @ data" "itrees_offset (final_hdr jif)" c 72 jif_node_of] c(2) length_im(4) [OF assms(1)]
    by (auto simp: ReadITrees_def well_sized_hdr [OF assms(1)] jif_node_size_def c_def)
qed

lemma ReadOrd_image:
  assumes "well_sized jif" "host_file env (kf_fd f) (jif_image jif data)"
  shows "\<exists>r f'. ReadOrd env (final_hdr jif) f = Some (r, f') \<and> (host_willing env \<longrightarrow> (\<exists>x. r = Inr x))"
  using read_table_part [OF assms(2), of "im_head jif @ im_strings jif @ im_trees jif" "[]" data "ord_offset (final_hdr jif)" 0 24 jif_ord_of]
  by (auto simp: ReadOrd_def well_sized_hdr [OF assms(1)] jif_image_def jif_ord_size_def)

lemma ParseJIF_image:
  assumes ws: "well_sized jif" and hf: "host_file env fd (jif_image jif data)" and valid: "list_all jp_is_valid (jd_phdrs jif)"
  shows "\<exists>r. ParseJIF env \<lparr>kf_fd = fd, kf_off = 0\<rparr> = Some r \<and> (host_willing env \<longrightarrow> (\<exists>x. r = Inr x)) \<and> 
    (\<forall>jif'. r = Inr jif' \<longrightarrow> parsed_from (final_jif jif) jif')"
proof -
  obtain r1 f1 where 1: "jif_ReadHeader env \<lparr>kf_fd = fd, kf_off = 0\<rparr> = Some (r1, f1)" "kf_fd f1 = fd" "host_willing env \<longrightarrow> (\<exists>x. r1 = Inr x)"
      "\<forall>h. r1 = Inr h \<longrightarrow> h = final_hdr jif"
    using ReadHeader_image [OF ws hf] by blast
  obtain r2 f2 where 2: "jif_ReadPHDRs env (final_hdr jif) f1 = Some (r2, f2)" "kf_fd f2 = fd" "host_willing env \<longrightarrow> (\<exists>x. r2 = Inr x)"
      "\<forall>ps. r2 = Inr ps \<longrightarrow> ps = jd_phdrs jif"
    using ReadPHDRs_image [OF ws _ valid, of env f1 data] hf 1(2) by auto
  obtain r3 f3 where 3: "ReadStrings env (final_hdr jif) f2 = Some (r3, f3)" "kf_fd f3 = fd" "host_willing env \<longrightarrow> (\<exists>x. r3 = Inr x)"
      "\<forall>xs. r3 = Inr xs \<longrightarrow> xs = im_strings jif"
    using ReadStrings_image [OF ws, of env f2 data] hf 2(2) by auto
  obtain r4 f4 where 4: "ReadITrees env (final_hdr jif) f3 = Some (r4, f4)" "kf_fd f4 = fd"
      "host_willing env \<longrightarrow> (\<exists>x. r4 = Inr x)" "\<forall>xs. r4 = Inr xs \<longrightarrow> (\<exists>ts. xs = jd_itrees (final_jif jif) @ ts)"
    using ReadITrees_image [OF ws, of env f3 data] hf 3(2) by auto
  obtain r5 f5 where 5: "ReadOrd env (final_hdr jif) f4 = Some (r5, f5)" "host_willing env \<longrightarrow> (\<exists>x. r5 = Inr x)"
    using ReadOrd_image [OF ws, of env f4 data] hf 4(2) by auto
  show ?thesis
    using 1(1,3,4) 2(1,3,4) 3(1,3,4) 4(1,3,4) 5 final_jif_fields(2,3) [OF ws] unfolding ParseJIF_def parsed_from_def
    by (auto simp: im_strings_def split: sum.splits)
qed


section \<open>Mapping an image\<close>

type_synonym host_view = "u64 \<Rightarrow> (i32 \<times> (nat \<times> u64) option) option"

definition map_view :: "u64 \<Rightarrow> u64 \<Rightarrow> i32 \<Rightarrow> (nat \<times> u64) option \<Rightarrow> host_view \<Rightarrow> host_view" where
  "map_view addr len prot src v =
     (\<lambda>x. if unat addr \<le> unat x \<and> unat x < unat addr + round_up (unat len)
          then Some (prot, map_option (\<lambda>(fd, off). (fd, off + (x - addr))) src) else v x)"

text \<open>
  What the host promises of \<open>mmap\<close> at a fixed address: if it does not fail, it returns the address and the pages of the
  range are mapped as wanted, in place of what was there.
\<close>

definition host_maps :: "'h jif_env \<Rightarrow> ('h \<Rightarrow> host_view) \<Rightarrow> bool" where
  "host_maps env view \<longleftrightarrow> (\<forall>addr len prot flags src h ret h'.
     je_mmap env addr len prot flags src h = (ret, h') \<and> flags AND MAP_FIXED \<noteq> 0 \<and> 0 \<le> ret \<longrightarrow>
       ret = uint addr \<and> view h' = map_view addr len prot src (view h))"

lemma mmap_fixed_view:
  assumes "host_maps env view"
  shows "\<exists>r h'. kf_MMapFixed env fd addr len prot (restore_mmap_flags env) off h = Some (r, h') \<and>
      (host_willing env \<and> 0 < len \<longrightarrow> r = Inr ()) \<and> (r = Inr () \<longrightarrow> view h' = map_view addr len prot (Some (fd, off)) (view h))"
    "\<exists>r h'. jif_KernelMMapFixed env addr len prot (restore_mmap_flags env) h = Some (r, h') \<and>
      (host_willing env \<and> 0 < len \<longrightarrow> r = Inr ()) \<and> (r = Inr () \<longrightarrow> view h' = map_view addr len prot None (view h))"
proof -
  have f: "(restore_mmap_flags env OR (MAP_FIXED OR MAP_PRIVATE)) AND MAP_FIXED \<noteq> 0"
    "(restore_mmap_flags env OR (MAP_ANONYMOUS OR MAP_FIXED OR MAP_PRIVATE)) AND MAP_FIXED \<noteq> 0"
    "restore_mmap_flags env AND MAP_ANONYMOUS = 0"
    by (simp_all add: restore_mmap_flags_def mm_consts)
  have "\<exists>r h'. host_mmap_fixed env addr len prot flags src h = Some (r, h') \<and>
      (host_willing env \<and> 0 < len \<longrightarrow> r = Inr ()) \<and> (r = Inr () \<longrightarrow> view h' = map_view addr len prot src (view h))"
    if fl: "flags AND MAP_FIXED \<noteq> 0" for flags src
  proof (cases "je_mmap env addr len prot flags src h")
    case (Pair ret h')
    have "host_willing env \<and> 0 < len \<Longrightarrow> 0 \<le> ret" using fl Pair unfolding host_willing_def by (metis fst_conv)
    moreover have "0 \<le> ret \<Longrightarrow> ret = uint addr \<and> view h' = map_view addr len prot src (view h)"
      using assms fl Pair unfolding host_maps_def by blast
    ultimately show ?thesis by (cases "ret < 0") (auto simp: host_mmap_fixed_def Pair)
  qed
  then show "\<exists>r h'. kf_MMapFixed env fd addr len prot (restore_mmap_flags env) off h = Some (r, h') \<and>
      (host_willing env \<and> 0 < len \<longrightarrow> r = Inr ()) \<and> (r = Inr () \<longrightarrow> view h' = map_view addr len prot (Some (fd, off)) (view h))"
    "\<exists>r h'. jif_KernelMMapFixed env addr len prot (restore_mmap_flags env) h = Some (r, h') \<and>
      (host_willing env \<and> 0 < len \<longrightarrow> r = Inr ()) \<and> (r = Inr () \<longrightarrow> view h' = map_view addr len prot None (view h))"
    using f by (simp_all add: kf_MMapFixed_def jif_KernelMMapFixed_def)
qed

definition jif_iv_view :: "nat \<Rightarrow> i32 \<Rightarrow> jif_interval \<Rightarrow> host_view \<Rightarrow> host_view" where
  "jif_iv_view fd prot i v =
     (if ji_start i = kUInt64Max then v
      else map_view (ji_start i) (ji_end i - ji_start i) prot (if ji_HasOffset i then Some (fd, ji_offset i) else None) v)"

definition iv_loadable :: "jif_interval \<Rightarrow> bool" where
  "iv_loadable i \<longleftrightarrow> ji_IsValid i \<noteq> None \<and> (ji_start i = kUInt64Max \<or> ji_end i \<noteq> ji_start i)"

lemma load_intervals_view:
  assumes "host_maps env view" "list_all iv_loadable is"
  shows "\<exists>r h'. load_intervals env fd prot (restore_mmap_flags env) is h = Some (r, h') \<and>
    (host_willing env \<longrightarrow> r = Inr ()) \<and> (r = Inr () \<longrightarrow> view h' = fold (jif_iv_view fd prot) is (view h))"
  using assms(2)
proof (induction "is" arbitrary: h)
  case (Cons i "is")
  have ok: "list_all iv_loadable is" using Cons.prems by simp
  let ?m = "if ji_HasOffset i then kf_MMapFixed env fd (ji_start i) (ji_end i - ji_start i) prot (restore_mmap_flags env) (ji_offset i) h
      else jif_KernelMMapFixed env (ji_start i) (ji_end i - ji_start i) prot (restore_mmap_flags env) h"
  show ?case
  proof (cases "ji_start i = kUInt64Max")
    case True
    then have "ji_IsValid i = Some False" using Cons.prems by (auto simp: iv_loadable_def ji_IsValid_def split: if_splits)
    then show ?thesis using Cons.IH [OF ok, of h] True by (simp add: jif_iv_view_def)
  next
    case False
    then have "0 < ji_end i - ji_start i" using Cons.prems by (simp add: iv_loadable_def word_gt_0)
    then obtain r h1 where m: "?m = Some (r, h1)" "host_willing env \<longrightarrow> r = Inr ()"
        "r = Inr () \<longrightarrow> view h1 = jif_iv_view fd prot i (view h)"
      using mmap_fixed_view(1) [OF assms(1), of fd "ji_start i" "ji_end i - ji_start i" prot "ji_offset i" h]
        mmap_fixed_view(2) [OF assms(1), of "ji_start i" "ji_end i - ji_start i" prot h] False
      by (cases "ji_HasOffset i") (auto simp: jif_iv_view_def)
    show ?thesis using Cons.IH [OF ok, of h1] m False by (cases r) (auto simp: ji_IsValid_def)
  qed
qed simp

subsection \<open>The tree of an area\<close>

definition jif_area_ok :: "jif_area \<Rightarrow> bool" where
  "jif_area_ok a \<longleftrightarrow> area_ok a \<and> 0 \<notin> set (ja_name a) \<and>
     (ja_ref_offset a \<noteq> kUInt64Max \<longrightarrow> IsPageAligned (ja_ref_offset a) \<and> IsPageAligned (sa_data a))"

lemma fix_area_ivs:
  assumes "saved_size mem a \<noteq> 0 \<longrightarrow> pos \<noteq> kUInt64Max"
  shows "fix_offsets off (ivs_node (area_ivs mem a pos)) = ivs_node (area_ivs mem a (pos + off))"
  using assms by (simp add: fix_offsets_def ivs_node_def area_ivs_def Let_def ji_HasOffset_def InitEmpty_def numeral_3_eq_3)

lemma area_bounds:
  assumes "area_ok a"
  shows "unat (sa_start a) + unat (sa_len a) \<le> 2 ^ 47" "unat (saved_size mem a) \<le> unat (sa_len a)" "unat (sa_data a) \<le> unat (sa_len a)"
    "unat (sa_start a + saved_size mem a) = unat (sa_start a) + unat (saved_size mem a)"
    "unat (sa_start a + sa_data a) = unat (sa_start a) + unat (sa_data a)"
    "unat (sa_start a + sa_len a) = unat (sa_start a) + unat (sa_len a)"
proof -
  show b: "unat (sa_start a) + unat (sa_len a) \<le> 2 ^ 47" "unat (saved_size mem a) \<le> unat (sa_len a)" "unat (sa_data a) \<le> unat (sa_len a)"
    using assms saved_size_spec(2) [OF assms, of mem] by (simp_all add: area_ok_def word_le_nat_alt)
  show "unat (sa_start a + saved_size mem a) = unat (sa_start a) + unat (saved_size mem a)"
    "unat (sa_start a + sa_data a) = unat (sa_start a) + unat (sa_data a)"
    "unat (sa_start a + sa_len a) = unat (sa_start a) + unat (sa_len a)"
    using b by (auto intro!: unat_add_no_wrap)
qed

lemma area_not_max: "area_ok a \<Longrightarrow> sa_start a \<noteq> kUInt64Max" "area_ok a \<Longrightarrow> sa_start a + saved_size mem a \<noteq> kUInt64Max"
proof -
  assume ok: "area_ok a"
  have "unat kUInt64Max = 2 ^ 64 - 1" by (simp add: kUInt64Max_def)
  then show "sa_start a \<noteq> kUInt64Max" "sa_start a + saved_size mem a \<noteq> kUInt64Max"
    using area_bounds(1) [OF ok] area_bounds(2,4) [OF ok, of mem] by (auto simp: word_unat_eq_iff)
qed

lemma area_tree_valid:
  assumes "area_ok a"
  shows "ITreeValid [ivs_node (area_ivs mem a pos)] (sa_start a) (sa_start a + sa_len a) 0 = Some True"
    "list_all iv_loadable (ivs_node (area_ivs mem a pos))"
proof -
  note b = area_bounds(1,3,5,6) [OF assms] area_bounds(2,4) [OF assms, of mem]
    and nm = area_not_max(1) [OF assms] area_not_max(2) [OF assms, of mem]
  show "list_all iv_loadable (ivs_node (area_ivs mem a pos))"
    using nm by (auto simp: ivs_node_def area_ivs_def Let_def InitEmpty_def numeral_3_eq_3 ji_IsValid_def iv_loadable_def)
  show "ITreeValid [ivs_node (area_ivs mem a pos)] (sa_start a) (sa_start a + sa_len a) 0 = Some True"
    using nm b
    by (auto simp: ITreeValid_def ivs_node_def area_ivs_def Let_def InitEmpty_def numeral_3_eq_3 ji_IsValid_def
        word_less_nat_alt word_le_nat_alt)
qed


lemma jif_prot_round_trip: "JIFProtToLinuxProt (ucast (ucast (LinuxProtToJIFProt (u8_prot p)) :: byte)) = p AND 7"
proof -
  have b: "bit (u8_prot p) 0 = bit p 0" "bit (u8_prot p) 1 = bit p 1" "bit (u8_prot p) 2 = bit p 2"
    by (simp_all add: u8_prot_def bit_simps del: bit_0)
  have "p AND 7 = (p AND 1) OR (p AND 2) OR (p AND 4)" by (simp flip: bit.conj_disj_distrib)
  then show ?thesis
    unfolding JIFProtToLinuxProt_def LinuxProtToJIFProt_def kJIFFlagExec_def kJIFFlagWrite_def kJIFFlagRead_def mm_consts
    unfolding and_bit_values(1) [of "u8_prot p"] and_bit_values(2,3) [of "u8_prot p"] and_bit_values(1) [of p] and_bit_values(2,3) [of p] b
    by simp
qed

lemma table_string_found:
  assumes "strings = pre @ name @ [0] @ post" "0 \<notin> set name"
  shows "table_string strings (length pre) = Some name"
proof -
  have "takeWhile (\<lambda>b. b \<noteq> 0) (name @ 0 # post) = name" using assms(2) by (induction name) auto
  then show ?thesis by (simp add: table_string_def assms(1))
qed

definition backing :: "'h jif_env \<Rightarrow> jif_area \<Rightarrow> (nat \<times> u64) option \<Rightarrow> bool" where
  "backing env a src \<longleftrightarrow>
     (if ja_ref_offset a = kUInt64Max then src = None
      else (\<exists>g. je_open env (ja_name a) = Inr g \<and> src = Some (g, ja_ref_offset a)))"

lemma map_backing_area:
  assumes "host_maps env view" "jif_area_ok a" "area_fields p a" "area_name strings p a" "length strings < 2 ^ 32"
    "jd_strings jif' = strings @ z"
  shows "\<exists>r h'. map_backing env jif' p prot (restore_mmap_flags env) h = Some (r, h') \<and>
    (host_willing env \<longrightarrow> r = Inr ()) \<and> (r = Inr () \<longrightarrow> (\<exists>src. backing env a src \<and> view h' = map_view (sa_start a) (sa_len a) prot src (view h)))"
proof (cases "ja_ref_offset a = kUInt64Max")
  case True
  have "0 < sa_len a" using assms(2) by (simp add: jif_area_ok_def area_ok_def)
  with True show ?thesis
    using mmap_fixed_view(2) [OF assms(1), of "sa_start a" "sa_len a" prot h] assms(3)
    by (auto simp: map_backing_def HasRefFile_def area_fields_def backing_def)
next
  case False
  then have "ja_name a \<noteq> []" using assms(3) by (simp add: area_fields_def)
  then obtain pre post where s: "strings = pre @ ja_name a @ [0] @ post" "jp_pathname_offset p = of_nat (length pre)"
    using assms(4) by (auto simp: area_name_def)
  have "unat (jp_pathname_offset p) = length pre" using s assms(5) by (simp add: unat_of_nat take_bit_nat_eq_self)
  moreover have "table_string (jd_strings jif') (length pre) = Some (ja_name a)"
    using table_string_found [of "jd_strings jif'" pre "ja_name a" "post @ z"] s(1) assms(2,6) by (simp add: jif_area_ok_def)
  moreover have "host_willing env \<longrightarrow> (\<exists>g. je_open env (ja_name a) = Inr g)" unfolding host_willing_def by blast
  moreover have "0 < sa_len a" using assms(2) by (simp add: jif_area_ok_def area_ok_def)
  ultimately show ?thesis
    using mmap_fixed_view(1) [OF assms(1), of _ "sa_start a" "sa_len a" prot "ja_ref_offset a" h] assms(3) False
    by (cases "je_open env (ja_name a)") (fastforce simp: map_backing_def HasRefFile_def area_fields_def backing_def)+
qed

lemma fold_ivs_node: "fold (jif_iv_view fd prot) (ivs_node ivs) v = fold (jif_iv_view fd prot) ivs v"
proof -
  have "fold (jif_iv_view fd prot) (drop n InitEmpty) v = v" for n v
  proof -
    have "list_all (\<lambda>i. ji_start i = kUInt64Max) (drop n InitEmpty)"
      unfolding InitEmpty_def drop_replicate by (simp add: list_all_iff)
    moreover have "fold (jif_iv_view fd prot) is v = v" if "list_all (\<lambda>i. ji_start i = kUInt64Max) is" for "is" v
      using that by (induction "is" arbitrary: v) (simp_all add: jif_iv_view_def)
    ultimately show ?thesis by blast
  qed
  then show ?thesis by (simp add: ivs_node_def)
qed

text \<open>What the host maps for an area whose bytes lie at a position of the image.\<close>

definition area_view :: "memory \<Rightarrow> nat \<Rightarrow> jif_area \<Rightarrow> (nat \<times> u64) option \<Rightarrow> u64 \<Rightarrow> host_view \<Rightarrow> host_view" where
  "area_view mem fd a src pos v =
     fold (jif_iv_view fd (sa_prot a AND 7)) (area_ivs mem a pos) (map_view (sa_start a) (sa_len a) (sa_prot a AND 7) src v)"

lemma LoadPhdr_area:
  assumes hm: "host_maps env view" and ok: "jif_area_ok a" and ws: "well_sized jif" and small: "length data < 2 ^ 63"
    and d: "phdr_describes mem (jd_itrees jif) (jd_strings jif) data p a" and parsed: "parsed_from (final_jif jif) jif'"
  shows "\<exists>r h'. LoadPhdr env fd (restore_mmap_flags env) jif' p h = Some (r, h') \<and>
    (host_willing env \<longrightarrow> r = Inr ()) \<and> (r = Inr () \<longrightarrow> (\<exists>src pos. backing env a src \<and> area_data mem data a pos \<and>
       view h' = area_view mem fd a src (of_nat pos + data_offset (final_hdr jif)) (view h)))"
proof -
  let ?off = "data_offset (final_hdr jif)" and ?prot = "sa_prot a AND 7" and ?fl = "restore_mmap_flags env"
  have sz: "length (jd_strings jif) < 2 ^ 32" "length (jd_itrees jif) < 2 ^ 32"
  proof -
    have "length (jd_strings jif) \<le> round_up (length (jd_strings jif))" "72 * length (jd_itrees jif) \<le> round_up (72 * length (jd_itrees jif))"
      by simp_all
    then show "length (jd_strings jif) < 2 ^ 32" "length (jd_itrees jif) < 2 ^ 32" using ws unfolding well_sized_def by linarith+
  qed
  obtain i pos where f: "area_fields p a" "area_name (jd_strings jif) p a" and ip: "area_data mem data a pos"
    "area_tree mem (jd_itrees jif) p a i (of_nat pos)"
    using d unfolding phdr_describes_def by blast
  obtain z ts where P: "jd_strings jif' = jd_strings jif @ z" "jd_itrees jif' = jd_itrees (final_jif jif) @ ts"
    using parsed final_jif_fields(3) [OF ws] by (auto simp: parsed_from_def)
  have prot: "JIFProtToLinuxProt (ucast (jp_prot p)) = ?prot" using f(1) by (simp add: area_fields_def jif_prot_round_trip)
  obtain r h1 where m: "map_backing env jif' p ?prot ?fl h = Some (r, h1)"
    "r = Inr () \<longrightarrow> (\<exists>src. backing env a src \<and> view h1 = map_view (sa_start a) (sa_len a) ?prot src (view h))"
    "host_willing env \<longrightarrow> r = Inr ()"
    using map_backing_area [OF hm ok f sz(1) P(1)] by blast
  have fixed: "fix_offsets ?off (ivs_node (area_ivs mem a (of_nat pos))) = ivs_node (area_ivs mem a (of_nat pos + ?off))"
  proof (rule fix_area_ivs, rule impI)
    assume "saved_size mem a \<noteq> 0"
    then have "pos < 2 ^ 63" using ip(1) small by (auto simp: area_data_def)
    then show "of_nat pos \<noteq> kUInt64Max" by (simp add: word_unat_eq_iff kUInt64Max_def unat_of_nat take_bit_nat_eq_self)
  qed
  show ?thesis
  proof (cases "r = Inr () \<and> area_ivs mem a (of_nat pos) \<noteq> []")
    case False
    have e: "area_ivs mem a x = []" if "area_ivs mem a y = []" for x y
      using that by (auto simp: area_ivs_def Let_def split: if_splits)
    have none: "r = Inr () \<longrightarrow> jp_itree_n_nodes p = 0 \<and> area_ivs mem a (of_nat pos + ?off) = []" using False ip(2) e by (auto simp: area_tree_def)
    show ?thesis
    proof (cases "r = Inr ()")
      case True
      then obtain src where "backing env a src" "view h1 = area_view mem fd a src (of_nat pos + ?off) (view h)"
        using m(2) none unfolding area_view_def by auto
      then show ?thesis using m(1) True none ip(1) unfolding LoadPhdr_def Let_def prot by auto
    qed (use m(1,3) in \<open>auto simp: LoadPhdr_def Let_def prot split: sum.splits\<close>)
  next
    case True
    then have t: "jp_itree_n_nodes p = 1" "jp_itree_idx p = of_nat i" "i < length (jd_itrees jif)"
      "jd_itrees jif ! i = ivs_node (area_ivs mem a (of_nat pos))" using ip(2) by (auto simp: area_tree_def)
    have idx: "unat (jp_itree_idx p) = i" using t(2,3) sz(2) by (simp add: unat_of_nat take_bit_nat_eq_self)
    let ?node = "ivs_node (area_ivs mem a (of_nat pos + ?off))"
    have "jd_itrees (final_jif jif) ! i = ?node" using t(3,4) fixed by (simp add: final_jif_def)
    then have tree: "take 1 (drop i (jd_itrees jif')) = [?node]"
      using t(3) final_jif_fields(5) [OF ws] P(2) by (simp add: take_Suc_conv_app_nth hd_drop_conv_nth nth_append take_Suc)
    have ao: "area_ok a" using ok by (simp add: jif_area_ok_def)
    obtain r2 h2 where l: "load_intervals env fd ?prot ?fl ?node h1 = Some (r2, h2)"
      "r2 = Inr () \<longrightarrow> view h2 = fold (jif_iv_view fd ?prot) (area_ivs mem a (of_nat pos + ?off)) (view h1)"
      "host_willing env \<longrightarrow> r2 = Inr ()"
      using load_intervals_view [OF hm area_tree_valid(2) [OF ao], of fd ?prot mem "of_nat pos + ?off" h1] fold_ivs_node by auto
    have "LoadPhdr env fd ?fl jif' p h = Some (r2, h2)"
      using True m(1) l(1) t(1,3) idx tree P(2) final_jif_fields(5) [OF ws] f(1) area_tree_valid(1) [OF ao, of mem "of_nat pos + ?off"]
      unfolding LoadPhdr_def Let_def prot by (simp add: area_fields_def)
    moreover obtain src where "backing env a src" "r2 = Inr () \<longrightarrow> view h2 = area_view mem fd a src (of_nat pos + ?off) (view h)"
      using l(2) m(2) True unfolding area_view_def by auto
    ultimately show ?thesis using ip(1) l(3) by blast
  qed
qed


subsection \<open>What the process finds\<close>

lemma round_up_aligned: "4096 dvd n \<Longrightarrow> round_up n = n"
  using round_up_add [of n 0] by simp

lemma IsPageAligned_round_up: "IsPageAligned x \<Longrightarrow> round_up (unat x) = unat x"
  by (simp add: IsPageAligned_unat round_up_aligned)

definition in_area :: "'a snap_area_scheme \<Rightarrow> u64 \<Rightarrow> bool" where
  "in_area a x \<longleftrightarrow> unat (sa_start a) \<le> unat x \<and> unat x < unat (sa_start a) + unat (sa_len a)"

lemma area_view_at:
  assumes ok: "jif_area_ok a" and pos: "saved_size mem a \<noteq> 0 \<longrightarrow> pos \<noteq> kUInt64Max"
  shows "area_view mem fd a src pos v x =
    (if \<not> in_area a x then v x
     else Some (sa_prot a AND 7,
       if unat x < unat (sa_start a) + unat (saved_size mem a) then Some (fd, pos + (x - sa_start a))
       else if ja_ref_offset a \<noteq> kUInt64Max \<and> unat x < unat (sa_start a) + unat (sa_data a) then None
       else map_option (\<lambda>(g, off). (g, off + (x - sa_start a))) src))"
proof -
  have ao: "area_ok a" using ok by (simp add: jif_area_ok_def)
  let ?nz = "saved_size mem a"
  note b = area_bounds(1,3,5,6) [OF ao] area_bounds(2,4) [OF ao, of mem] and nm = area_not_max(1) [OF ao] area_not_max(2) [OF ao, of mem]
  have r: "round_up (unat (sa_len a)) = unat (sa_len a)" "round_up (unat ?nz) = unat ?nz"
    using ao saved_size_spec(1) [OF ao, of mem] by (simp_all add: area_ok_def IsPageAligned_round_up)
  have v0: "map_view (sa_start a) (sa_len a) prot src v x =
      (if in_area a x then Some (prot, map_option (\<lambda>(g, off). (g, off + (x - sa_start a))) src) else v x)" for prot
    by (simp add: map_view_def in_area_def r)
  have v1: "jif_iv_view fd prot \<lparr>ji_start = sa_start a, ji_end = sa_start a + ?nz, ji_offset = pos\<rparr> w x =
      (if unat (sa_start a) \<le> unat x \<and> unat x < unat (sa_start a) + unat ?nz then Some (prot, Some (fd, pos + (x - sa_start a))) else w x)"
    if "?nz \<noteq> 0" for prot w
    using that pos nm(1) r(2) by (simp add: jif_iv_view_def map_view_def ji_HasOffset_def)
  have v2: "jif_iv_view fd prot \<lparr>ji_start = sa_start a + ?nz, ji_end = sa_start a + sa_data a, ji_offset = kUInt64Max\<rparr> w x =
      (if unat (sa_start a) + unat ?nz \<le> unat x \<and> unat x < unat (sa_start a) + unat (sa_data a) then Some (prot, None) else w x)"
    if "ja_ref_offset a \<noteq> kUInt64Max" "sa_data a > ?nz" for prot w
  proof -
    have le: "?nz \<le> sa_data a" using that(2) by simp
    have al: "IsPageAligned (sa_data a - ?nz)"
      using ok that(1) saved_size_spec(1) [OF ao, of mem] le by (auto simp: jif_area_ok_def intro: aligned_diff)
    then have "round_up (unat (sa_start a + sa_data a - (sa_start a + ?nz))) = unat (sa_data a) - unat ?nz"
      using unat_sub [OF le] IsPageAligned_round_up [OF al] by simp
    moreover have "unat ?nz \<le> unat (sa_data a)" using le by (simp add: word_le_nat_alt)
    ultimately show ?thesis using nm(2) b(6) by (simp add: jif_iv_view_def map_view_def ji_HasOffset_def)
  qed
  have lt: "?nz < sa_data a \<longleftrightarrow> unat ?nz < unat (sa_data a)" by (simp add: word_less_nat_alt)
  have z: "unat ?nz = 0" if "?nz = 0" using that by simp
  show ?thesis
  proof (cases "?nz = 0")
    case True
    show ?thesis
      unfolding area_view_def area_ivs_def Let_def
      by (cases "ja_ref_offset a \<noteq> kUInt64Max \<and> sa_data a > ?nz")
        (use b(2) lt in \<open>auto simp: v0 v2 [unfolded True, simplified] True in_area_def\<close>)
  next
    case False
    show ?thesis
      unfolding area_view_def area_ivs_def Let_def
      by (cases "ja_ref_offset a \<noteq> kUInt64Max \<and> sa_data a > ?nz")
        (use b(2,5) lt False in \<open>auto simp: v0 v1 v2 in_area_def\<close>)
  qed
qed


text \<open>
  The protection of an address and the byte that an access to it finds.  An area is restored if every address of it has
  its protection, every byte of its data is found, and what lies beyond the data is the mapped file again.
\<close>

definition jif_found :: "nat \<Rightarrow> byte list \<Rightarrow> host_view \<Rightarrow> u64 \<Rightarrow> (i32 \<times> byte) option" where
  "jif_found fd img v x =
     (case v x of
        None \<Rightarrow> None
      | Some (prot, None) \<Rightarrow> Some (prot, 0)
      | Some (prot, Some (g, off)) \<Rightarrow> if g = fd \<and> unat off < length img then Some (prot, img ! unat off) else None)"

definition area_restored :: "'h jif_env \<Rightarrow> nat \<Rightarrow> byte list \<Rightarrow> memory \<Rightarrow> host_view \<Rightarrow> jif_area \<Rightarrow> bool" where
  "area_restored env fd img mem v a \<longleftrightarrow> (\<forall>x. in_area a x \<longrightarrow>
     (if unat x < unat (sa_start a) + unat (sa_data a) then jif_found fd img v x = Some (sa_prot a AND 7, mem x)
      else if ja_ref_offset a = kUInt64Max then (\<exists>b. jif_found fd img v x = Some (sa_prot a AND 7, b))
      else (\<exists>g. je_open env (ja_name a) = Inr g \<and> v x = Some (sa_prot a AND 7, Some (g, ja_ref_offset a + (x - sa_start a))))))"

lemma area_restored_cong: "(\<And>x. in_area a x \<Longrightarrow> v x = w x) \<Longrightarrow> area_restored env fd img mem v a = area_restored env fd img mem w a"
  unfolding area_restored_def jif_found_def by simp

lemma image_byte:
  assumes "well_sized jif" "length (jif_image jif data) < 2 ^ 63" "area_data mem data a pos" "in_area a x" "area_ok a"
    "unat x < unat (sa_start a) + unat (saved_size mem a)"
  shows "unat (of_nat pos + data_offset (final_hdr jif) + (x - sa_start a)) < length (jif_image jif data) \<and>
    jif_image jif data ! unat (of_nat pos + data_offset (final_hdr jif) + (x - sa_start a)) = mem x"
proof -
  let ?nz = "saved_size mem a"
  define m where "m = length (im_head jif) + length (im_strings jif) + length (im_trees jif)"
  define j where "j = unat x - unat (sa_start a)"
  have x: "unat (x - sa_start a) = j" "j < unat ?nz" "x = sa_start a + of_nat j"
    using assms(4,6) unat_sub [of "sa_start a" x] by (auto simp: in_area_def j_def word_le_nat_alt)
  have d: "pos + unat ?nz \<le> length data" "take (unat ?nz) (drop pos data) = mem_bytes mem (sa_start a) (unat ?nz)"
    using assms(3,6) x(2) by (auto simp: area_data_def)
  have off: "unat (data_offset (final_hdr jif)) = m" using well_sized_hdr(7,8) [OF assms(1)] by (simp add: m_def)
  have len: "length (jif_image jif data) = m + length data" by (simp add: jif_image_def m_def)
  have "of_nat pos + data_offset (final_hdr jif) + (x - sa_start a) = of_nat (m + pos + j)"
    unfolding off [symmetric] x(1) [symmetric] by simp
  moreover have "m + pos + j < 2 ^ 64" using len assms(2) d(1) x(2) by simp
  ultimately have u: "unat (of_nat pos + data_offset (final_hdr jif) + (x - sa_start a)) = m + pos + j"
    by (simp add: unat_of_nat take_bit_nat_eq_self del: of_nat_add)
  have "data ! (pos + j) = mem x"
    using arg_cong [OF d(2), of "\<lambda>l. l ! j"] x(2,3) d(1) by simp
  moreover have "jif_image jif data ! (m + pos + j) = data ! (pos + j)"
    by (simp add: jif_image_def m_def nth_append)
  ultimately show ?thesis using u len d(1) x(2) by simp
qed


lemma saved_size_le_data:
  assumes "area_ok a" "IsPageAligned (sa_data a)"
  shows "saved_size mem a \<le> sa_data a"
proof (cases "sa_data a = 0")
  case True
  then show ?thesis by (simp add: saved_size_def GetMinSize_def page_eval)
next
  case False
  then have "area_ok (a\<lparr>sa_len := sa_data a\<rparr>)"
    using assms by (auto simp: area_ok_def word_le_nat_alt word_gt_0)
  from saved_size_spec(2) [OF this, of mem] show ?thesis by (simp add: saved_size_def)
qed

lemma area_view_restored:
  assumes ok: "jif_area_ok a" and ws: "well_sized jif" and small: "length (jif_image jif data) < 2 ^ 63"
    and src: "backing env a src" and data: "area_data mem data a pos"
  shows "area_restored env fd (jif_image jif data) mem (area_view mem fd a src (of_nat pos + data_offset (final_hdr jif)) v) a"
    "\<not> in_area a x \<Longrightarrow> area_view mem fd a src (of_nat pos + data_offset (final_hdr jif)) v x = v x"
proof -
  let ?pos = "of_nat pos + data_offset (final_hdr jif)" and ?img = "jif_image jif data"
  have ao: "area_ok a" using ok by (simp add: jif_area_ok_def)
  have "?pos \<noteq> kUInt64Max" if nz: "saved_size mem a \<noteq> 0"
  proof -
    have "0 < unat (saved_size mem a)" "0 < unat (sa_len a)" using nz ao by (auto simp: area_ok_def unat_gt_0)
    then have "unat ?pos < length ?img"
      using image_byte [OF ws small data _ ao, of "sa_start a"] by (simp add: in_area_def)
    then show ?thesis using small by (auto simp: kUInt64Max_def)
  qed
  note V = area_view_at [OF ok, of mem ?pos fd src v, OF impI, OF this]
  then show "\<not> in_area a x \<Longrightarrow> area_view mem fd a src ?pos v x = v x" by simp
  have zero: "mem x = 0" if "in_area a x" "unat (sa_start a) + unat (saved_size mem a) \<le> unat x"
    "unat x < unat (sa_start a) + unat (sa_data a)" for x
  proof -
    have "x = sa_start a + of_nat (unat x - unat (sa_start a))" using that(1) by (simp add: in_area_def)
    then show ?thesis using saved_size_spec(3) [OF ao, of mem] that by (metis (no_types, lifting) less_diff_conv2 le_add1 le_diff_conv2 add.commute le_trans)
  qed
  show "area_restored env fd ?img mem (area_view mem fd a src ?pos v) a"
    unfolding area_restored_def
  proof (intro allI impI)
    fix x
    assume x: "in_area a x"
    show "if unat x < unat (sa_start a) + unat (sa_data a)
        then jif_found fd ?img (area_view mem fd a src ?pos v) x = Some (sa_prot a AND 7, mem x)
        else if ja_ref_offset a = kUInt64Max then \<exists>b. jif_found fd ?img (area_view mem fd a src ?pos v) x = Some (sa_prot a AND 7, b)
        else \<exists>g. je_open env (ja_name a) = Inr g \<and> area_view mem fd a src ?pos v x =
          Some (sa_prot a AND 7, Some (g, ja_ref_offset a + (x - sa_start a)))"
    proof (cases "unat x < unat (sa_start a) + unat (saved_size mem a)")
      case True
      have "unat (saved_size mem a) \<le> unat (sa_data a)" if "ja_ref_offset a \<noteq> kUInt64Max"
        using saved_size_le_data [OF ao] ok that by (simp add: jif_area_ok_def word_le_nat_alt)
      then show ?thesis using V [of x] x True image_byte [OF ws small data x ao True] by (auto simp: jif_found_def)
    next
      case False
      then show ?thesis using V [of x] x zero [OF x] src by (auto simp: jif_found_def backing_def)
    qed
  qed
qed


lemma load_phdrs_restores:
  assumes hm: "host_maps env view" and ws: "well_sized jif" and small: "length (jif_image jif data) < 2 ^ 63"
    and parsed: "parsed_from (final_jif jif) jif'"
    and "list_all2 (phdr_describes mem (jd_itrees jif) (jd_strings jif) data) ps as" "list_all jif_area_ok as" "sorted_wrt apart as"
  shows "\<exists>r h'. load_phdrs_jif env fd (restore_mmap_flags env) jif' ps h = Some (r, h') \<and>
    (host_willing env \<longrightarrow> r = Inr ()) \<and>
    (r = Inr () \<longrightarrow> list_all (area_restored env fd (jif_image jif data) mem (view h')) as \<and>
       (\<forall>x. list_all (\<lambda>a. \<not> in_area a x) as \<longrightarrow> view h' x = view h x))"
  using assms(5-7)
proof (induction ps as arbitrary: h rule: list_all2_induct)
  case (Cons p ps a as)
  have "length data \<le> length (jif_image jif data)" by (simp add: jif_image_def)
  then have sd: "length data < 2 ^ 63" using small by linarith
  have ok: "jif_area_ok a" "list_all jif_area_ok as" "sorted_wrt apart as" "list_all (apart a) as"
    using Cons.prems by (simp_all add: list_all_iff)
  obtain r h1 where l: "LoadPhdr env fd (restore_mmap_flags env) jif' p h = Some (r, h1)"
    "r = Inr () \<longrightarrow> (\<exists>src pos. backing env a src \<and> area_data mem data a pos \<and>
       view h1 = area_view mem fd a src (of_nat pos + data_offset (final_hdr jif)) (view h))" "host_willing env \<longrightarrow> r = Inr ()"
    using LoadPhdr_area [OF hm ok(1) ws sd Cons.hyps(1) parsed] by blast
  show ?case
  proof (cases "r = Inr ()")
    case True
    have h1: "area_restored env fd (jif_image jif data) mem (view h1) a" "\<And>x. \<not> in_area a x \<Longrightarrow> view h1 x = view h x"
      using l(2) True area_view_restored [OF ok(1) ws small] by auto
    obtain r2 h2 where l2: "load_phdrs_jif env fd (restore_mmap_flags env) jif' ps h1 = Some (r2, h2)"
      "r2 = Inr () \<longrightarrow> list_all (area_restored env fd (jif_image jif data) mem (view h2)) as \<and>
         (\<forall>x. list_all (\<lambda>a. \<not> in_area a x) as \<longrightarrow> view h2 x = view h1 x)" "host_willing env \<longrightarrow> r2 = Inr ()"
      using Cons.IH [OF ok(2,3), of h1] by blast
    have out: "list_all (\<lambda>b. \<not> in_area b x) as" if "in_area a x" for x
      using ok(4) that by (auto simp: list_all_iff apart_def in_area_def)
    have "area_restored env fd (jif_image jif data) mem (view h2) a" if "r2 = Inr ()"
      using area_restored_cong [of a "view h2" "view h1"] h1(1) l2(2) that out by auto
    then show ?thesis using l(1) l2 True h1(2) by auto
  qed (use l(1,3) in \<open>auto split: sum.splits\<close>)
qed simp

lemma phdrs_valid:
  assumes "list_all2 (phdr_describes mem trees strings data) ps as" "list_all jif_area_ok as" "length strings < 2 ^ 32"
  shows "list_all jp_is_valid ps"
  using assms(1,2)
proof (induction ps as rule: list_all2_induct)
  case (Cons p ps a as)
  have ok: "jif_area_ok a" "area_ok a" using Cons.prems by (simp_all add: jif_area_ok_def)
  have f: "area_fields p a" "area_name strings p a" using Cons.hyps(1) by (auto simp: phdr_describes_def)
  have "jp_pathname_offset p \<noteq> kUInt32Max" if "ja_ref_offset a \<noteq> kUInt64Max"
  proof -
    have "ja_name a \<noteq> []" using that f(1) by (simp add: area_fields_def)
    then obtain pre post where s: "strings = pre @ ja_name a @ [0] @ post" "jp_pathname_offset p = of_nat (length pre)"
      using f(2) by (auto simp: area_name_def)
    have "length pre + 1 < 2 ^ 32" using s(1) assms(3) by simp
    then show ?thesis unfolding s(2) by (simp add: word_unat_eq_iff kUInt32Max_def unat_of_nat take_bit_nat_eq_self)
  qed
  moreover have "sa_start a \<le> sa_start a + sa_len a" using area_bounds(6) [OF ok(2)] by (simp add: word_le_nat_alt)
  ultimately have "jp_is_valid p"
    using f(1) ok aligned_add [of "sa_start a" "sa_len a"]
    by (auto simp: jp_is_valid_def HasRefFile_def area_fields_def jif_area_ok_def area_ok_def not_less)
  then show ?case using Cons by simp
qed simp

lemma jif_well_sized:
  assumes d: "jif_describes mem as jif iovs" and "\<not> ia_size (jif_metadata (final_jif jif)) > 0xffffffff"
    and small: "length (ia_bytes (jif_metadata (final_jif jif))) < 2 ^ 63"
  shows "well_sized jif"
proof -
  let ?F = "final_jif jif"
  have j: "jd_ord jif = []" "jd_hdr jif = jd_hdr jif_new" "list_all (\<lambda>t. length t = 3) (jd_itrees jif)"
    using d by (simp_all add: jif_describes_def)
  have F: "jd_ord ?F = []" "length (jh_magic (jd_hdr ?F)) = 4" "list_all (\<lambda>t. length t = 3) (jd_itrees ?F)"
    "jd_phdrs ?F = jd_phdrs jif" "jd_strings ?F = jd_strings jif" "length (jd_itrees ?F) = length (jd_itrees jif)"
    using j by (simp_all add: final_jif_def final_hdr_def jif_new_def fix_offsets_def list_all_iff)
  have lP: "length (concat (map jif_phdr_bytes (jd_phdrs jif))) = length (jd_phdrs jif) * 37"
    using length_concat_same [of jif_phdr_bytes 37 "jd_phdrs jif"] by (simp add: list_all_iff)
  have lT: "length (concat (map jif_node_bytes (jd_itrees ?F))) = length (jd_itrees jif) * 72"
    using length_concat_same [of jif_node_bytes 72 "jd_itrees ?F"] F(3,6) jif_node_decodes(2) by (simp add: list_all_iff)
  have p: "n + length (jif_padding n) = round_up n" for n by (simp add: jif_padding_def)
  have "length (ia_bytes (jif_metadata ?F)) =
      round_up (40 + 37 * length (jd_phdrs jif)) + round_up (length (jd_strings jif)) + round_up (72 * length (jd_itrees jif))"
    unfolding jif_metadata_bytes(1) [OF F(1-3)] F(4-6)
    using F(2) lP lT p [of "40 + 37 * length (jd_phdrs jif)"] p [of "length (jd_strings jif)"] p [of "72 * length (jd_itrees jif)"]
    by simp
  moreover have "length (ia_bytes (jif_metadata ?F)) < 2 ^ 32"
    using assms(2) small jif_metadata_bytes(2) [OF F(1-3)]
    by (simp add: ia_ok_def word_less_nat_alt unat_of_nat take_bit_nat_eq_self)
  ultimately show ?thesis using j by (simp add: well_sized_def)
qed

text \<open>
  C9: A snapshot in the JIF format restores the memory of a process.  Let the areas be page aligned and apart from one another,
  let the memory of each be readable, and let a snapshot of them succeed.  Loading the written file never fails an assertion.
  It succeeds if the host does all it is asked to, and whenever it succeeds every address of every area has the protection
  it had, every byte of its data is found, and the pages beyond the data of a shared file map that file again.
\<close>

theorem jif_snapshot_restores:
  assumes "SnapshotJIF k opened written1 written2 get_size shareable get_filename mem vmas fs = Some (Inr (), Some img)"
    and "list_all jif_area_ok (jif_areas get_size shareable get_filename vmas fs)"
    and "sorted_wrt apart (jif_areas get_size shareable get_filename vmas fs)"
    and "list_all (readable k) (jif_areas get_size shareable get_filename vmas fs)"
    and "host_file env fd img" "host_maps env view"
  shows "\<exists>r h'. LoadJIF env \<lparr>kf_fd = fd, kf_off = 0\<rparr> h = Some (r, h') \<and>
    (host_willing env \<longrightarrow> r = Inr ()) \<and>
    (r = Inr () \<longrightarrow> list_all (area_restored env fd img mem (view h')) (jif_areas get_size shareable get_filename vmas fs))"
proof -
  let ?as = "jif_areas get_size shareable get_filename vmas fs"
  obtain jif' iovs where g: "GetJifVmaData k get_size shareable get_filename mem vmas fs = Some (jif', iovs)"
    "\<not> ia_size (jif_metadata jif') > 0xffffffff" "img = ia_bytes (jif_metadata jif') @ ia_bytes iovs"
    using assms(1) unfolding SnapshotJIF_def ia_bytes_def by (auto split: option.splits sum.splits if_splits)
  obtain jif where d: "jif_describes mem ?as jif iovs" "jif' = final_jif jif"
    using GetJifVmaData_describes [OF g(1) assms(4)] by blast
  have small: "length img < 2 ^ 63" using assms(5) by (simp add: host_file_def)
  have ws: "well_sized jif" using jif_well_sized [OF d(1)] g(2,3) d(2) small by simp
  have img: "img = jif_image jif (ia_bytes iovs)" using g(3) d(2) jif_metadata_image [OF ws] by simp
  have l2: "list_all2 (phdr_describes mem (jd_itrees jif) (jd_strings jif) (ia_bytes iovs)) (jd_phdrs jif) ?as"
    using d(1) by (simp add: jif_describes_def)
  have "length (jd_strings jif) \<le> round_up (length (jd_strings jif))" by simp
  then have "length (jd_strings jif) < 2 ^ 32" using ws unfolding well_sized_def by linarith
  then have "list_all jp_is_valid (jd_phdrs jif)" using phdrs_valid [OF l2 assms(2)] by blast
  then obtain r where r: "ParseJIF env \<lparr>kf_fd = fd, kf_off = 0\<rparr> = Some r" "\<forall>j. r = Inr j \<longrightarrow> parsed_from (final_jif jif) j"
      "host_willing env \<longrightarrow> (\<exists>j. r = Inr j)"
    using ParseJIF_image [OF ws assms(5) [unfolded img]] by blast
  show ?thesis
  proof (cases r)
    case (Inr j)
    have "jd_phdrs j = jd_phdrs jif" using r(2) Inr final_jif_fields(2) [OF ws] by (simp add: parsed_from_def)
    then show ?thesis
      using load_phdrs_restores [OF assms(6) ws small [unfolded img] _ l2 assms(2,3), of j fd h] r Inr by (auto simp: LoadJIF_def img)
  qed (use r in \<open>auto simp: LoadJIF_def\<close>)
qed


text \<open>Two pages of ones again, and a host that keeps its mappings as they are shown.\<close>

definition demo_jif :: jif_data where
  "demo_jif = jif_new\<lparr>jd_itrees := [ivs_node [\<lparr>ji_start = 0x400000, ji_end = 0x402000, ji_offset = 0\<rparr>]],
     jd_phdrs := [\<lparr>jp_vbegin = 0x400000, jp_vend = 0x402000, jp_ref_offset = kUInt64Max, jp_itree_idx = 0, jp_itree_n_nodes = 1,
       jp_pathname_offset = kUInt32Max, jp_prot = 6\<rparr>]\<rparr>"

definition demo_jif_img :: "byte list" where
  "demo_jif_img = ia_bytes (jif_metadata (final_jif demo_jif)) @ replicate 0x2000 1"

definition demo_host :: "host_view jif_env" where
  "demo_host = \<lparr>je_pread = (\<lambda>fd n off. Inr (take n (drop (unat off) demo_jif_img))), je_open = (\<lambda>_. Inr 8),
     je_mmap = (\<lambda>addr len prot flags src h. (uint addr, map_view addr len prot src h)), je_populate = False\<rparr>"

lemma demo_jif_areas:
  "jif_areas (\<lambda>_. 0) (\<lambda>_. False) (\<lambda>_. []) [demo_vma] [] =
     [\<lparr>sa_start = 0x400000, sa_prot = 3, sa_data = 0x2000, sa_len = 0x2000, ja_ref_offset = kUInt64Max, ja_name = []\<rparr>]"
  by (simp add: jif_areas_def vma_jif_area_def vma_area_def demo_vma_def DataLength_def Length_def snap_area.extend_def)

lemma demo_add:
  "add_phdrs demo_kernel (\<lambda>_. 1) (jif_areas (\<lambda>_. 0) (\<lambda>_. False) (\<lambda>_. []) [demo_vma] []) (jif_new, ia_empty) =
     Some (demo_jif, ia_Add (mem_bytes (\<lambda>_. 1) 0x400000 0x2000) ia_empty)"
  using demo_saved
  by (simp add: demo_jif_areas AddPhdr_def Let_def saved_size_def mm_consts demo_jif_def jif_new_def ivs_node_def ia_empty_def
      LinuxProtToJIFProt_def kJIFFlagExec_def kJIFFlagWrite_def kJIFFlagRead_def)

lemma demo_jif_well_sized: "well_sized demo_jif"
  by (simp add: well_sized_def demo_jif_def jif_new_def round_up_def ivs_node_def InitEmpty_def)

lemma demo_jif_length: "length (ia_bytes (jif_metadata (final_jif demo_jif))) = 0x2000"
  using arg_cong [OF jif_metadata_image [OF demo_jif_well_sized, of "[]"], of length] length_im [OF demo_jif_well_sized]
  by (simp add: jif_image_def) (simp add: demo_jif_def jif_new_def round_up_def)

lemma demo_SnapshotJIF:
  "SnapshotJIF demo_kernel (Inr ()) (Inr ()) (Inr ()) (\<lambda>_. 0) (\<lambda>_. False) (\<lambda>_. []) (\<lambda>_. 1) [demo_vma] [] =
     Some (Inr (), Some demo_jif_img)"
proof -
  have "GetJifVmaData demo_kernel (\<lambda>_. 0) (\<lambda>_. False) (\<lambda>_. []) (\<lambda>_. 1) [demo_vma] [] =
      Some (final_jif demo_jif, ia_Add (mem_bytes (\<lambda>_. 1) 0x400000 0x2000) ia_empty)"
    using demo_add by (simp add: GetJifVmaData_def jif_areas_def Let_def final_jif_def final_hdr_def vma_jif_area_def demo_vma_def)
  moreover have "ia_size (jif_metadata (final_jif demo_jif)) = 0x2000"
    using jif_metadata_bytes(2) [of "final_jif demo_jif"] final_jif_fields [OF demo_jif_well_sized]
      final_hdr_fields(1) [OF demo_jif_well_sized] demo_jif_length by (simp add: ia_ok_def)
  moreover have "RestoreVMAProtections demo_kernel (\<lambda>_. 0) [demo_vma] = Inr ()"
    by (simp add: demo_vma_def mm_consts)
  moreover have "mem_bytes (\<lambda>_. 1) 0x400000 0x2000 = replicate 0x2000 1"
    by (simp add: mem_bytes_def map_replicate_const)
  ultimately show ?thesis
    by (simp add: SnapshotJIF_def demo_jif_img_def ia_bytes_def ia_Add_def ia_empty_def)
qed

theorem jif_snapshot_restores_witness:
  "\<exists>v. LoadJIF demo_host \<lparr>kf_fd = 7, kf_off = 0\<rparr> (\<lambda>_. None) = Some (Inr (), v) \<and>
     jif_found 7 demo_jif_img v 0x401fff = Some (3, 1)"
proof -
  have areas: "list_all jif_area_ok (jif_areas (\<lambda>_. 0) (\<lambda>_. False) (\<lambda>_. []) [demo_vma] [])"
    "sorted_wrt apart (jif_areas (\<lambda>_. 0) (\<lambda>_. False) (\<lambda>_. []) [demo_vma] [])"
    "list_all (readable demo_kernel) (jif_areas (\<lambda>_. 0) (\<lambda>_. False) (\<lambda>_. []) [demo_vma] [])"
    by (simp_all add: demo_jif_areas jif_area_ok_def area_ok_def page_eval readable_def u8_prot_def mm_consts)
  have "length demo_jif_img = 0x4000" by (simp add: demo_jif_img_def demo_jif_length)
  then have hf: "host_file demo_host 7 demo_jif_img" by (auto simp: host_file_def demo_host_def)
  have hm: "host_maps demo_host id" by (auto simp: host_maps_def demo_host_def)
  have hw: "host_willing demo_host" by (simp add: host_willing_def demo_host_def)
  from jif_snapshot_restores [OF demo_SnapshotJIF areas hf hm, of "\<lambda>_. None"] hw
  obtain v where v: "LoadJIF demo_host \<lparr>kf_fd = 7, kf_off = 0\<rparr> (\<lambda>_. None) = Some (Inr (), v)"
    "list_all (area_restored demo_host 7 demo_jif_img (\<lambda>_. 1) v) (jif_areas (\<lambda>_. 0) (\<lambda>_. False) (\<lambda>_. []) [demo_vma] [])"
    by auto
  from v(2) have "jif_found 7 demo_jif_img v 0x401fff = Some (3, 1)"
    by (auto simp: demo_jif_areas area_restored_def in_area_def dest!: spec [where x = "0x401fff"])
  then show ?thesis using v(1) by blast
qed

end
