(* ===== verification/Sync.thy ===== *)
theory Sync
  imports Prelude
begin

text \<open>
  Wait queues, wakers and the primitives built on them (\<^verbatim>\<open>src/junction/bindings/sync.h\<close>,
  \<^verbatim>\<open>src/junction/bindings/sync.cc\<close>): the mutex, the condition variable and the latch.

  A spin lock protects the state of each primitive, so what runs under it is one step.  Threads are numbers.  The runtime below,
  which parks and resumes threads, is not part of the sources: a thread runs, is parked (and a signal may wake it or
  not), was made ready, or was woken by a signal.  Whether a signal is pending when a thread asks is an argument.
\<close>

section \<open>Threads and wait queues\<close>

datatype run = Running | Parked bool | Ready | Signalled

text \<open>
  A thread has one link, so it is in at most one queue.  Queues are numbered; \<open>sy_armed\<close> is the flag \<open>link_armed\<close>.
\<close>

record sync =
  sy_q :: "nat \<Rightarrow> nat list"
  sy_armed :: "nat \<Rightarrow> bool"
  sy_run :: "nat \<Rightarrow> run"

definition ThreadReady :: "nat \<Rightarrow> 'a sync_scheme \<Rightarrow> 'a sync_scheme" where
  "ThreadReady th s =
     (case sy_run s th of Parked _ \<Rightarrow> s\<lparr>sy_run := (sy_run s)(th := Ready)\<rparr> | _ \<Rightarrow> s)"

definition park :: "bool \<Rightarrow> nat \<Rightarrow> 'a sync_scheme \<Rightarrow> 'a sync_scheme" where
  "park interruptible th s = s\<lparr>sy_run := (sy_run s)(th := Parked interruptible)\<rparr>"

definition list_del :: "nat \<Rightarrow> 'a sync_scheme \<Rightarrow> 'a sync_scheme" where
  "list_del th s = s\<lparr>sy_q := (\<lambda>q. removeAll th (sy_q s q)), sy_armed := (sy_armed s)(th := False)\<rparr>"

definition wq_Arm :: "nat \<Rightarrow> nat \<Rightarrow> 'a sync_scheme \<Rightarrow> 'a sync_scheme option" where
  "wq_Arm q th s =
     (if sy_armed s th then None
      else Some (s\<lparr>sy_armed := (sy_armed s)(th := True), sy_q := (sy_q s)(q := sy_q s q @ [th])\<rparr>))"

definition wq_Disarm :: "nat \<Rightarrow> 'a sync_scheme \<Rightarrow> bool \<times> 'a sync_scheme" where
  "wq_Disarm th s = (if \<not> sy_armed s th then (False, s) else (True, list_del th s))"

definition wq_Pop :: "nat \<Rightarrow> 'a sync_scheme \<Rightarrow> nat option \<times> 'a sync_scheme" where
  "wq_Pop q s =
     (case sy_q s q of
        [] \<Rightarrow> (None, s)
      | th # ths \<Rightarrow> (Some th, s\<lparr>sy_q := (sy_q s)(q := ths), sy_armed := (sy_armed s)(th := False)\<rparr>))"

definition wq_WakeOne :: "nat \<Rightarrow> 'a sync_scheme \<Rightarrow> bool \<times> 'a sync_scheme" where
  "wq_WakeOne q s =
     (case wq_Pop q s of (None, s') \<Rightarrow> (False, s') | (Some th, s') \<Rightarrow> (True, ThreadReady th s'))"

fun wq_wake_loop :: "nat \<Rightarrow> nat \<Rightarrow> bool \<Rightarrow> 'a sync_scheme \<Rightarrow> bool \<times> 'a sync_scheme" where
  "wq_wake_loop 0 q did s = (did, s)"
| "wq_wake_loop (Suc n) q did s =
     (case wq_Pop q s of (None, s') \<Rightarrow> (did, s') | (Some th, s') \<Rightarrow> wq_wake_loop n q True (ThreadReady th s'))"

text \<open>Every round removes a thread, so as many rounds as there are threads are enough.\<close>

definition wq_WakeAll :: "nat \<Rightarrow> 'a sync_scheme \<Rightarrow> bool \<times> 'a sync_scheme" where
  "wq_WakeAll q s = wq_wake_loop (Suc (length (sy_q s q))) q False s"

definition wq_WakeThread :: "nat \<Rightarrow> 'a sync_scheme \<Rightarrow> bool \<times> 'a sync_scheme" where
  "wq_WakeThread th s = (if \<not> sy_armed s th then (False, s) else (True, ThreadReady th (list_del th s)))"

definition wq_Splice :: "nat \<Rightarrow> nat \<Rightarrow> 'a sync_scheme \<Rightarrow> 'a sync_scheme" where
  "wq_Splice dst src s = s\<lparr>sy_q := (sy_q s)(dst := sy_q s dst @ sy_q s src, src := [])\<rparr>"

section \<open>Waiting\<close>

datatype outcome = Returns bool | Sleeps

definition WaitNoRecheck :: "nat \<Rightarrow> nat \<Rightarrow> 'a sync_scheme \<Rightarrow> (outcome \<times> 'a sync_scheme) option" where
  "WaitNoRecheck th q s = map_option (\<lambda>s'. (Sleeps, park False th s')) (wq_Arm q th s)"

text \<open>\<open>intr\<close> is the answer of \<open>SetInterruptible\<close>: a signal is pending and the thread must not block.\<close>

definition WaitInterruptibleNoRecheck :: "bool \<Rightarrow> nat \<Rightarrow> nat \<Rightarrow> 'a sync_scheme \<Rightarrow> (outcome \<times> 'a sync_scheme) option" where
  "WaitInterruptibleNoRecheck intr th q s =
     (if intr then Some (Returns False, s) else map_option (\<lambda>s'. (Sleeps, park True th s')) (wq_Arm q th s))"

text \<open>The rest of it, after the thread was resumed; \<open>signalled\<close> is whether the status says that a signal is pending.\<close>

definition WaitInterruptibleNoRecheck_resume :: "bool \<Rightarrow> nat \<Rightarrow> 'a sync_scheme \<Rightarrow> bool \<times> 'a sync_scheme" where
  "WaitInterruptibleNoRecheck_resume signalled th s =
     (if signalled then (case wq_Disarm th s of (d, s') \<Rightarrow> (\<not> d, s')) else (True, s))"

section \<open>The mutex and the condition variable\<close>

text \<open>
  Queue 0 is the mutex's and queue 1 the condition variable's.  \<open>cv_lock\<close> is whether the condition variable has been used with the
  mutex.
\<close>

record mutex = sync +
  mx_held :: bool
  cv_lock :: bool

definition mx_Lock :: "nat \<Rightarrow> mutex \<Rightarrow> (outcome \<times> mutex) option" where
  "mx_Lock th s = (if mx_held s then WaitNoRecheck th 0 s else Some (Returns True, s\<lparr>mx_held := True\<rparr>))"

definition mx_TryLock :: "mutex \<Rightarrow> bool \<times> mutex" where
  "mx_TryLock s = (if mx_held s then (False, s) else (True, s\<lparr>mx_held := True\<rparr>))"

definition mx_InterruptibleLock :: "bool \<Rightarrow> nat \<Rightarrow> mutex \<Rightarrow> (outcome \<times> mutex) option" where
  "mx_InterruptibleLock intr th s =
     (if mx_held s then WaitInterruptibleNoRecheck intr th 0 s else Some (Returns True, s\<lparr>mx_held := True\<rparr>))"

definition mx_Unlock :: "mutex \<Rightarrow> mutex" where
  "mx_Unlock s = (if sy_q s 0 \<noteq> [] then snd (wq_WakeOne 0 s) else s\<lparr>mx_held := False\<rparr>)"

text \<open>\<open>timeout\<close> is the flag that the timer sets, if there is a timer.\<close>

definition cv_DoWait :: "nat \<Rightarrow> bool \<Rightarrow> bool \<Rightarrow> bool option \<Rightarrow> mutex \<Rightarrow> (outcome \<times> mutex) option" where
  "cv_DoWait th block intr timeout s =
     (if \<not> mx_held s then None
      else if timeout = Some True then Some (Returns True, s)
      else (let s' = (if sy_q s 0 \<noteq> [] then snd (wq_WakeOne 0 s) else s\<lparr>mx_held := False\<rparr>) in
            if block then WaitInterruptibleNoRecheck intr th 1 s' else WaitNoRecheck th 1 s'))"

definition cv_Wait :: "nat \<Rightarrow> bool \<Rightarrow> bool \<Rightarrow> bool option \<Rightarrow> mutex \<Rightarrow> (outcome \<times> mutex) option" where
  "cv_Wait th block intr timeout s = cv_DoWait th block intr timeout (s\<lparr>cv_lock := True\<rparr>)"

text \<open>What the timed variants make of the answer of \<open>DoWait\<close> and the flag of the timer.\<close>

definition cv_WaitFor_result :: "bool \<Rightarrow> bool" where
  "cv_WaitFor_result timeout = (if timeout then False else True)"

definition cv_WaitInterruptibleFor_result :: "bool \<Rightarrow> bool \<Rightarrow> unit Status" where
  "cv_WaitInterruptibleFor_result notified timeout =
     (if \<not> notified then Inl EINTR else if timeout then Inl ETIMEDOUT else Inr ())"

definition cv_Notify :: "mutex \<Rightarrow> mutex option" where
  "cv_Notify s =
     (if \<not> cv_lock s then Some s
      else if mx_held s then
        (case wq_Pop 1 s of (None, s') \<Rightarrow> Some s' | (Some th, s') \<Rightarrow> wq_Arm 0 th s')
      else (case wq_WakeOne 1 s of (w, s') \<Rightarrow> Some (if w then s'\<lparr>mx_held := True\<rparr> else s')))"

definition cv_NotifyAll :: "mutex \<Rightarrow> mutex" where
  "cv_NotifyAll s =
     (if \<not> cv_lock s then s
      else (let s1 = wq_Splice 0 1 s in
            if mx_held s1 then s1
            else (case wq_WakeOne 0 s1 of (w, s2) \<Rightarrow> if w then s2\<lparr>mx_held := True\<rparr> else s2)))"

text \<open>The handler of the timer returns whether it set the flag.\<close>

definition cv_TimeoutHandler :: "nat \<Rightarrow> mutex \<Rightarrow> (bool \<times> mutex) option" where
  "cv_TimeoutHandler th s =
     (case wq_Disarm th s of
        (False, s') \<Rightarrow> Some (False, s')
      | (True, s') \<Rightarrow>
          if mx_held s' then map_option (Pair True) (wq_Arm 0 th s')
          else Some (True, ThreadReady th (s'\<lparr>mx_held := True\<rparr>)))"

section \<open>The latch\<close>

record latch = sync +
  lt_cnt :: int

definition lt_CountDown :: "int \<Rightarrow> latch \<Rightarrow> latch option" where
  "lt_CountDown count s =
     (if count < 0 then None
      else (let s' = s\<lparr>lt_cnt := lt_cnt s - count\<rparr> in Some (if lt_cnt s' \<le> 0 then snd (wq_WakeAll 0 s') else s')))"

definition lt_Wait :: "nat \<Rightarrow> latch \<Rightarrow> (outcome \<times> latch) option" where
  "lt_Wait th s = (if lt_cnt s \<le> 0 then Some (Returns True, s) else WaitNoRecheck th 0 s)"

definition lt_ArriveAndWait :: "int \<Rightarrow> nat \<Rightarrow> latch \<Rightarrow> (outcome \<times> latch) option" where
  "lt_ArriveAndWait count th s =
     (if count < 0 then None
      else (let s' = s\<lparr>lt_cnt := lt_cnt s - count\<rparr> in
            if lt_cnt s' \<le> 0 then Some (Returns True, snd (wq_WakeAll 0 s')) else WaitNoRecheck th 0 s'))"

definition lt_WaitInterruptible :: "bool \<Rightarrow> nat \<Rightarrow> latch \<Rightarrow> (outcome \<times> latch) option" where
  "lt_WaitInterruptible intr th s = (if lt_cnt s \<le> 0 then Some (Returns True, s) else WaitInterruptibleNoRecheck intr th 0 s)"

definition lt_ArriveAndWaitInterruptible :: "bool \<Rightarrow> int \<Rightarrow> nat \<Rightarrow> latch \<Rightarrow> (outcome \<times> latch) option" where
  "lt_ArriveAndWaitInterruptible intr count th s =
     (if count < 0 then None
      else (let s' = s\<lparr>lt_cnt := lt_cnt s - count\<rparr> in
            if lt_cnt s' \<le> 0 then Some (Returns True, snd (wq_WakeAll 0 s')) else WaitInterruptibleNoRecheck intr th 0 s'))"

text \<open>\<open>POSIXWaitInterruptible\<close> also returns whether the thread is the serial one.\<close>

definition lt_POSIXWait :: "bool \<Rightarrow> nat \<Rightarrow> latch \<Rightarrow> (outcome \<times> bool \<times> latch) option" where
  "lt_POSIXWait intr th s =
     (let s' = s\<lparr>lt_cnt := lt_cnt s - 1\<rparr> in
      if lt_cnt s' \<le> 0 then Some (Returns True, True, snd (wq_WakeAll 0 s'))
      else map_option (\<lambda>(r, s''). (r, False, s'')) (WaitInterruptibleNoRecheck intr th 0 s'))"

end
