(* ===== verification/SyncSteps.thy ===== *)
theory SyncSteps
  imports Sync
begin

text \<open>
  The interleavings of threads on a mutex and a condition variable (\<^verbatim>\<open>src/junction/bindings/sync.cc\<close>).  A thread
  unlocks the mutex or waits on the condition variable only while it holds the mutex; signals and timers come at any time.
\<close>

section \<open>Steps\<close>

datatype mx_pc = Idle | Holds | Blocked bool

definition after :: "bool \<Rightarrow> outcome \<Rightarrow> mx_pc" where
  "after interruptible r =
     (case r of Returns ok \<Rightarrow> if ok then Holds else Idle | Sleeps \<Rightarrow> Blocked interruptible)"

type_synonym mx_state = "mutex \<times> (nat \<Rightarrow> mx_pc)"

definition running :: "nat \<Rightarrow> 'a sync_scheme \<Rightarrow> 'a sync_scheme" where
  "running th s = s\<lparr>sy_run := (sy_run s)(th := Running)\<rparr>"

inductive mx_step :: "mx_state \<Rightarrow> mx_state \<Rightarrow> bool" where
  lock: "pc th = Idle \<Longrightarrow> mx_Lock th s = Some (r, s') \<Longrightarrow> mx_step (s, pc) (s', pc(th := after False r))"
| try_lock: "pc th = Idle \<Longrightarrow> mx_TryLock s = (b, s') \<Longrightarrow> mx_step (s, pc) (s', pc(th := after False (Returns b)))"
| interruptible_lock: "pc th = Idle \<Longrightarrow> mx_InterruptibleLock intr th s = Some (r, s') \<Longrightarrow>
    mx_step (s, pc) (s', pc(th := after True r))"
| unlock: "pc th = Holds \<Longrightarrow> mx_step (s, pc) (mx_Unlock s, pc(th := Idle))"
| wait: "pc th = Holds \<Longrightarrow> cv_Wait th block intr timeout s = Some (r, s') \<Longrightarrow> mx_step (s, pc) (s', pc(th := after block r))"
| notify: "cv_Notify s = Some s' \<Longrightarrow> mx_step (s, pc) (s', pc)"
| notify_all: "mx_step (s, pc) (cv_NotifyAll s, pc)"
| timer: "cv_TimeoutHandler th s = Some (b, s') \<Longrightarrow> mx_step (s, pc) (s', pc)"
| signal: "sy_run s th = Parked True \<Longrightarrow> mx_step (s, pc) (s\<lparr>sy_run := (sy_run s)(th := Signalled)\<rparr>, pc)"
| resume: "pc th = Blocked False \<Longrightarrow> sy_run s th = Ready \<Longrightarrow> mx_step (s, pc) (running th s, pc(th := Holds))"
| resume_interruptible: "pc th = Blocked True \<Longrightarrow> sy_run s th = Ready \<or> sy_run s th = Signalled \<and> signalled \<Longrightarrow>
    WaitInterruptibleNoRecheck_resume signalled th (running th s) = (b, s') \<Longrightarrow>
    mx_step (s, pc) (s', pc(th := after True (Returns b)))"

definition mx_init :: mx_state where
  "mx_init = (\<lparr>sy_q = (\<lambda>_. []), sy_armed = (\<lambda>_. False), sy_run = (\<lambda>_. Running), mx_held = False, cv_lock = False\<rparr>, \<lambda>_. Idle)"

inductive mx_reach :: "mx_state \<Rightarrow> bool" where
  start: "mx_reach mx_init"
| step: "mx_reach x \<Longrightarrow> mx_step x y \<Longrightarrow> mx_reach y"

section \<open>The invariant\<close>

lemma ThreadReady_fields [simp]:
  "sy_q (ThreadReady th s) = sy_q s" "sy_armed (ThreadReady th s) = sy_armed s"
  "sy_run (ThreadReady th s) t = (if t = th \<and> (\<exists>b. sy_run s th = Parked b) then Ready else sy_run s t)"
  "mx_held (ThreadReady th m) = mx_held m" "cv_lock (ThreadReady th m) = cv_lock m"
  by (auto simp: ThreadReady_def split: run.splits)

text \<open>A thread owns the mutex if it holds it or has been handed it and has not run since.\<close>

fun own :: "mx_pc \<Rightarrow> bool \<Rightarrow> bool" where
  "own Idle armed = False"
| "own Holds armed = True"
| "own (Blocked b) armed = (\<not> armed)"

definition owns :: "mx_state \<Rightarrow> nat \<Rightarrow> bool" where
  "owns x th \<longleftrightarrow> own (snd x th) (sy_armed (fst x) th)"

definition links_ok :: "'a sync_scheme \<Rightarrow> bool" where
  "links_ok s \<longleftrightarrow> distinct (sy_q s 0 @ sy_q s 1) \<and> (\<forall>th. sy_armed s th \<longleftrightarrow> th \<in> set (sy_q s 0) \<union> set (sy_q s 1)) \<and>
     (\<forall>q. 1 < q \<longrightarrow> sy_q s q = [])"

fun thread_ok :: "mx_pc \<Rightarrow> bool \<Rightarrow> run \<Rightarrow> bool" where
  "thread_ok Idle armed r = (\<not> armed \<and> r = Running)"
| "thread_ok Holds armed r = (\<not> armed \<and> r = Running)"
| "thread_ok (Blocked b) armed r = ((if armed then r = Parked b else r = Ready) \<or> b \<and> r = Signalled)"

definition mx_inv :: "mx_state \<Rightarrow> bool" where
  "mx_inv x \<longleftrightarrow> links_ok (fst x) \<and> (\<forall>th. thread_ok (snd x th) (sy_armed (fst x) th) (sy_run (fst x) th)) \<and>
     (if mx_held (fst x) then \<exists>t. \<forall>th. owns x th \<longleftrightarrow> th = t else sy_q (fst x) 0 = [] \<and> (\<forall>th. \<not> owns x th))"

lemma mx_init_inv: "mx_inv mx_init"
  by (simp add: mx_inv_def mx_init_def links_ok_def owns_def)

lemmas mx_inv_defs = mx_inv_def links_ok_def owns_def

lemma mx_inv_thread: "mx_inv (s, pc) \<Longrightarrow> thread_ok (pc th) (sy_armed s th) (sy_run s th)"
  by (simp add: mx_inv_def)

text \<open>A thread that neither waits nor holds the mutex queues up.\<close>

lemma arm_inv:
  assumes "mx_inv (s, pc)" "pc th = Idle" "q = 0 \<and> mx_held s \<or> q = 1"
  shows "\<exists>s'. wq_Arm q th s = Some s' \<and> mx_inv (park b th s', pc(th := Blocked b))"
proof -
  have na: "\<not> sy_armed s th" using mx_inv_thread [OF assms(1), of th] assms(2) by simp
  let ?s = "s\<lparr>sy_armed := (sy_armed s)(th := True), sy_q := (sy_q s)(q := sy_q s q @ [th])\<rparr>"
  have o: "owns (park b th ?s, pc(th := Blocked b)) t \<longleftrightarrow> owns (s, pc) t" for t
    using assms(2) by (simp add: owns_def park_def)
  have "links_ok (park b th ?s)" using assms(1,3) na by (auto simp: mx_inv_def links_ok_def park_def)
  then have "mx_inv (park b th ?s, pc(th := Blocked b))"
    using assms(1,3) unfolding mx_inv_def o by (auto simp: park_def)
  then show ?thesis using na by (simp add: wq_Arm_def)
qed

text \<open>The head of the mutex's queue is woken and takes the place of the owner.\<close>

lemma mx_wake_inv:
  assumes "mx_inv (s, pc)" "sy_q s q = th # ths" "q = 0 \<or> q = 1"
  defines "s' \<equiv> s\<lparr>sy_q := (sy_q s)(q := ths), sy_armed := (sy_armed s)(th := False)\<rparr>"
  shows "wq_WakeOne q s = (True, ThreadReady th s')" "links_ok (ThreadReady th s')"
    "\<forall>t. thread_ok (pc t) (sy_armed (ThreadReady th s') t) (sy_run (ThreadReady th s') t)"
    "\<forall>t. owns (ThreadReady th s', pc) t \<longleftrightarrow> owns (s, pc) t \<or> t = th" "\<not> owns (s, pc) th"
proof -
  show "wq_WakeOne q s = (True, ThreadReady th s')" using assms(2) by (simp add: wq_WakeOne_def wq_Pop_def s'_def)
  have arm: "sy_armed s th" using assms(1-3) by (auto simp: mx_inv_def links_ok_def)
  then obtain b where b: "pc th = Blocked b" using mx_inv_thread [OF assms(1), of th] by (cases "pc th") auto
  show "links_ok (ThreadReady th s')" using assms(1-3) by (auto simp: mx_inv_def links_ok_def s'_def)
  show "\<forall>t. owns (ThreadReady th s', pc) t \<longleftrightarrow> owns (s, pc) t \<or> t = th" "\<not> owns (s, pc) th"
    using b arm by (auto simp: owns_def s'_def)
  show "\<forall>t. thread_ok (pc t) (sy_armed (ThreadReady th s') t) (sy_run (ThreadReady th s') t)"
  proof
    fix t
    show "thread_ok (pc t) (sy_armed (ThreadReady th s') t) (sy_run (ThreadReady th s') t)"
      using mx_inv_thread [OF assms(1), of t] mx_inv_thread [OF assms(1), of th] b arm
      by (cases "t = th") (auto simp: s'_def)
  qed
qed

lemma unlock_inv:
  assumes "mx_inv (s, pc)" "pc th = Holds"
  shows "mx_inv (mx_Unlock s, pc(th := Idle))"
proof -
  have o: "owns (s, pc) th" using assms(2) by (simp add: owns_def)
  then have held: "mx_held s" "\<forall>t. owns (s, pc) t \<longleftrightarrow> t = th" using assms(1) by (auto simp: mx_inv_def split: if_splits)
  have t: "\<not> sy_armed s th" "sy_run s th = Running" using mx_inv_thread [OF assms(1), of th] assms(2) by simp_all
  show ?thesis
  proof (cases "sy_q s 0")
    case Nil
    then show ?thesis using assms held t by (auto simp: mx_Unlock_def mx_inv_defs split: if_splits)
  next
    case (Cons w ws)
    note W = mx_wake_inv [OF assms(1) Cons disjI1 [OF refl]]
    define s2 where "s2 = ThreadReady w (s\<lparr>sy_q := (sy_q s)(0 := ws), sy_armed := (sy_armed s)(w := False)\<rparr>)"
    have "owns (s2, pc(th := Idle)) x \<longleftrightarrow> x = w" for x
      using W(4) [folded s2_def] W(5) held(2) by (cases "x = th") (auto simp: owns_def)
    moreover have "thread_ok ((pc(th := Idle)) x) (sy_armed s2 x) (sy_run s2 x)" for x
    proof (cases "x = th")
      case True
      then have "th \<noteq> w" using W(5) o by auto
      then show ?thesis using True t by (simp add: s2_def)
    qed (use W(3) [folded s2_def] in simp)
    ultimately show ?thesis
      using W(1) [folded s2_def] W(2) [folded s2_def] Cons held(1) by (auto simp: mx_inv_def mx_Unlock_def s2_def)
  qed
qed

lemma disarm_inv:
  assumes "mx_inv (s, pc)" "sy_armed s th"
  shows "links_ok (list_del th s)" "\<forall>t. owns (list_del th s, pc) t \<longleftrightarrow> owns (s, pc) t \<or> t = th" "\<not> owns (s, pc) th"
    "\<exists>b. pc th = Blocked b"
proof -
  obtain b where b: "pc th = Blocked b" using mx_inv_thread [OF assms(1), of th] assms(2) by (cases "pc th") auto
  then show "\<exists>b. pc th = Blocked b" ..
  show "links_ok (list_del th s)" using assms by (auto simp: mx_inv_def links_ok_def list_del_def distinct_removeAll)
  show "\<forall>t. owns (list_del th s, pc) t \<longleftrightarrow> owns (s, pc) t \<or> t = th" "\<not> owns (s, pc) th"
    using b assms(2) by (auto simp: owns_def list_del_def)
qed

text \<open>A waiter that gives up leaves its queue and the others where they are.\<close>

lemma give_up_inv:
  assumes "mx_inv (s, pc)" "sy_armed s th"
  shows "mx_inv (running th (list_del th s), pc(th := Idle))"
proof -
  note D = disarm_inv [OF assms]
  have "owns (running th (list_del th s), pc(th := Idle)) t \<longleftrightarrow> owns (s, pc) t" for t
    using D(2,3) by (cases "t = th") (auto simp: owns_def running_def)
  moreover have "thread_ok ((pc(th := Idle)) t) (sy_armed (running th (list_del th s)) t) (sy_run (running th (list_del th s)) t)" for t
    using mx_inv_thread [OF assms(1), of t] by (simp add: running_def list_del_def)
  ultimately show ?thesis using assms(1) D(1) unfolding mx_inv_def by (auto simp: running_def list_del_def links_ok_def)
qed

text \<open>A waiter that was handed the mutex runs and holds it.\<close>

lemma handed_inv:
  assumes "mx_inv (s, pc)" "\<not> sy_armed s th" "pc th = Blocked b"
  shows "mx_inv (running th s, pc(th := Holds))"
proof -
  have "owns (running th s, pc(th := Holds)) t \<longleftrightarrow> owns (s, pc) t" for t
    using assms(2,3) by (cases "t = th") (auto simp: owns_def running_def)
  then show ?thesis using assms unfolding mx_inv_def by (auto simp: running_def links_ok_def)
qed

text \<open>A waiter of the condition variable that is notified queues up for the mutex.\<close>

lemma requeue_inv:
  assumes "mx_inv (s, pc)" "sy_armed s th" "mx_held s"
  shows "\<exists>s'. wq_Arm 0 th (list_del th s) = Some s' \<and> mx_inv (s', pc)"
proof -
  note D = disarm_inv [OF assms(1,2)]
  define s' where "s' = (list_del th s)\<lparr>sy_armed := (sy_armed (list_del th s))(th := True),
      sy_q := (sy_q (list_del th s))(0 := sy_q (list_del th s) 0 @ [th])\<rparr>"
  have a: "sy_armed s' = sy_armed s" "sy_run s' = sy_run s" "mx_held s'"
    using assms(2,3) by (auto simp: s'_def list_del_def fun_upd_idem)
  have "links_ok s'" using D(1) assms(1,2) unfolding links_ok_def a s'_def by (auto simp: mx_inv_def links_ok_def list_del_def)
  moreover have "owns (s', pc) t \<longleftrightarrow> owns (s, pc) t" for t by (simp add: owns_def a)
  ultimately have "mx_inv (s', pc)" using assms(1,3) by (auto simp: mx_inv_def a)
  moreover have "wq_Arm 0 th (list_del th s) = Some s'" by (simp add: wq_Arm_def s'_def list_del_def)
  ultimately show ?thesis by blast
qed

text \<open>While nobody owns the mutex, a waiter can be handed it.\<close>

lemma grant_inv:
  assumes "mx_inv (s, pc)" "sy_armed s th" "\<not> mx_held s"
  shows "mx_inv (ThreadReady th ((list_del th s)\<lparr>mx_held := True\<rparr>), pc)"
proof -
  note D = disarm_inv [OF assms(1,2)]
  define s' where "s' = ThreadReady th ((list_del th s)\<lparr>mx_held := True\<rparr>)"
  have a: "sy_q s' = sy_q (list_del th s)" "sy_armed s' = sy_armed (list_del th s)" "mx_held s'" by (simp_all add: s'_def)
  have "owns (s', pc) t \<longleftrightarrow> t = th" for t
    using D(2,3) assms(1,3) by (auto simp: owns_def a mx_inv_def)
  moreover have "thread_ok (pc t) (sy_armed s' t) (sy_run s' t)" for t
    using mx_inv_thread [OF assms(1), of t] D(4) assms(2) by (cases "t = th") (auto simp: s'_def list_del_def)
  ultimately show ?thesis using D(1) unfolding s'_def [symmetric] by (auto simp: mx_inv_def a links_ok_def)
qed

lemma pop_list_del:
  assumes "links_ok s" "sy_q s q = th # ths" "q = 0 \<or> q = 1"
  shows "wq_Pop q s = (Some th, list_del th s)" "sy_armed s th"
proof -
  have "removeAll th (sy_q s x) = ((sy_q s)(q := ths)) x" for x
  proof (cases "x \<le> 1")
    case True
    then have "x = 0 \<or> x = 1" by auto
    then show ?thesis using assms by (auto simp: links_ok_def)
  next
    case False
    then have "sy_q s x = []" using assms(1) by (simp add: links_ok_def)
    then show ?thesis using False assms(3) by auto
  qed
  then show "wq_Pop q s = (Some th, list_del th s)" using assms(2) by (simp add: wq_Pop_def list_del_def fun_eq_iff)
  show "sy_armed s th" using assms by (auto simp: links_ok_def)
qed

lemma wake_list_del:
  assumes "links_ok s" "sy_q s q = th # ths" "q = 0 \<or> q = 1"
  shows "wq_WakeOne q s = (True, ThreadReady th (list_del th s))"
  using pop_list_del [OF assms] by (simp add: wq_WakeOne_def)

lemma ready_held: "(ThreadReady th s)\<lparr>mx_held := b\<rparr> = ThreadReady th (s\<lparr>mx_held := b\<rparr>)"
  by (simp add: ThreadReady_def split: run.splits)

lemma splice_inv:
  assumes "mx_inv (s, pc)" "mx_held s"
  shows "mx_inv (wq_Splice 0 1 s, pc)"
  using assms by (auto simp: mx_inv_def links_ok_def owns_def wq_Splice_def)

lemma mx_notify_inv:
  assumes "mx_inv (s, pc)"
  shows "\<exists>s'. cv_Notify s = Some s' \<and> mx_inv (s', pc)"
proof (cases "cv_lock s \<and> sy_q s 1 \<noteq> []")
  case True
  then obtain th ths where q: "sy_q s 1 = th # ths" by (cases "sy_q s 1") auto
  have l: "links_ok s" using assms by (simp add: mx_inv_def)
  note P = pop_list_del [OF l q disjI2 [OF refl]]
  show ?thesis
  proof (cases "mx_held s")
    case True
    then show ?thesis using requeue_inv [OF assms P(2)] P(1) \<open>cv_lock s \<and> _\<close> by (simp add: cv_Notify_def)
  next
    case False
    then show ?thesis
      using grant_inv [OF assms P(2)] wake_list_del [OF l q] \<open>cv_lock s \<and> _\<close> by (simp add: cv_Notify_def ready_held)
  qed
next
  case False
  then show ?thesis using assms by (auto simp: cv_Notify_def wq_Pop_def wq_WakeOne_def)
qed

lemma notify_all_inv:
  assumes "mx_inv (s, pc)"
  shows "mx_inv (cv_NotifyAll s, pc)"
proof (cases "cv_lock s \<and> \<not> mx_held s")
  case True
  then have q0: "sy_q s 0 = []" using assms by (simp add: mx_inv_def)
  have l: "links_ok s" using assms by (simp add: mx_inv_def)
  show ?thesis
  proof (cases "sy_q s 1")
    case Nil
    then have "wq_Splice 0 1 s = s" using q0 by (simp add: wq_Splice_def fun_upd_idem)
    then show ?thesis using assms True q0 by (simp add: cv_NotifyAll_def wq_WakeOne_def wq_Pop_def)
  next
    case (Cons th ths)
    note P = pop_list_del [OF l Cons disjI2 [OF refl]]
    let ?s = "ThreadReady th ((list_del th s)\<lparr>mx_held := True\<rparr>)"
    have "links_ok (wq_Splice 0 1 s)" using l by (auto simp: links_ok_def wq_Splice_def)
    moreover have "sy_q (wq_Splice 0 1 s) 0 = th # ths" using q0 Cons by (simp add: wq_Splice_def)
    ultimately have w: "wq_WakeOne 0 (wq_Splice 0 1 s) = (True, ThreadReady th (list_del th (wq_Splice 0 1 s)))"
      by (intro wake_list_del) auto
    have "list_del th (wq_Splice 0 1 s) = wq_Splice 0 1 (list_del th s)"
      by (simp add: list_del_def wq_Splice_def fun_eq_iff)
    then have "cv_NotifyAll s = wq_Splice 0 1 ?s"
      using True w by (auto simp: cv_NotifyAll_def Let_def wq_Splice_def ThreadReady_def list_del_def split: run.splits)
    then show ?thesis using splice_inv [OF grant_inv [OF assms P(2)]] True by simp
  qed
qed (use assms splice_inv in \<open>auto simp: cv_NotifyAll_def Let_def wq_Splice_def\<close>)


lemma timer_inv:
  assumes "mx_inv (s, pc)"
  shows "\<exists>b s'. cv_TimeoutHandler th s = Some (b, s') \<and> mx_inv (s', pc)"
proof (cases "sy_armed s th")
  case True
  show ?thesis
  proof (cases "mx_held s")
    case held: True
    then have "mx_held (list_del th s)" by (simp add: list_del_def)
    then show ?thesis using requeue_inv [OF assms True held] True by (auto simp: cv_TimeoutHandler_def wq_Disarm_def)
  next
    case False
    then show ?thesis using grant_inv [OF assms True] True by (auto simp: cv_TimeoutHandler_def wq_Disarm_def list_del_def)
  qed
qed (use assms in \<open>auto simp: cv_TimeoutHandler_def wq_Disarm_def\<close>)

lemma take_inv:
  assumes "mx_inv (s, pc)" "pc th = Idle" "\<not> mx_held s"
  shows "mx_inv (s\<lparr>mx_held := True\<rparr>, pc(th := Holds))"
  using assms by (auto simp: mx_inv_def links_ok_def owns_def intro!: exI [of _ th] dest: spec [of _ th])

lemma mx_wait_inv:
  assumes "mx_inv (s, pc)" "pc th = Holds"
  shows "\<exists>r s'. cv_Wait th block intr timeout s = Some (r, s') \<and> mx_inv (s', pc(th := after block r))"
proof -
  let ?s = "s\<lparr>cv_lock := True\<rparr>"
  have i: "mx_inv (?s, pc)" using assms(1) by (auto simp: mx_inv_def links_ok_def owns_def split: if_splits)
  have held: "mx_held s" using assms by (auto simp: mx_inv_def owns_def split: if_splits) (metis own.simps(2))
  show ?thesis
  proof (cases "timeout = Some True")
    case True
    then show ?thesis using i assms(2) held by (simp add: cv_Wait_def cv_DoWait_def after_def fun_upd_idem)
  next
    case False
    note u = unlock_inv [OF i assms(2)]
    obtain s' where "wq_Arm 1 th (mx_Unlock ?s) = Some s'" "mx_inv (park block th s', (pc(th := Idle))(th := Blocked block))"
      using arm_inv [OF u, of th 1 block] by auto
    then show ?thesis
      using u held False unfolding mx_Unlock_def
      by (cases block; cases intr) (auto simp: cv_Wait_def cv_DoWait_def WaitInterruptibleNoRecheck_def WaitNoRecheck_def after_def Let_def)
  qed
qed

lemma lock_inv:
  assumes "mx_inv (s, pc)" "pc th = Idle"
  shows "\<exists>r s'. mx_Lock th s = Some (r, s') \<and> mx_inv (s', pc(th := after False r))"
    "\<exists>r s'. mx_InterruptibleLock intr th s = Some (r, s') \<and> mx_inv (s', pc(th := after True r))"
proof -
  show "\<exists>r s'. mx_Lock th s = Some (r, s') \<and> mx_inv (s', pc(th := after False r))"
    using arm_inv [OF assms, of 0 False] take_inv [OF assms]
    by (cases "mx_held s") (auto simp: mx_Lock_def WaitNoRecheck_def after_def)
  show "\<exists>r s'. mx_InterruptibleLock intr th s = Some (r, s') \<and> mx_inv (s', pc(th := after True r))"
    using arm_inv [OF assms, of 0 True] take_inv [OF assms] assms
    by (cases "mx_held s"; cases intr)
      (auto simp: mx_InterruptibleLock_def WaitInterruptibleNoRecheck_def after_def fun_upd_idem)
qed

lemma mx_resume_inv:
  assumes "mx_inv (s, pc)" "pc th = Blocked True" "sy_run s th = Ready \<or> sy_run s th = Signalled \<and> signalled"
    "WaitInterruptibleNoRecheck_resume signalled th (running th s) = (b, s')"
  shows "mx_inv (s', pc(th := after True (Returns b)))"
proof (cases "sy_armed s th")
  case True
  then have "signalled" using mx_inv_thread [OF assms(1), of th] assms(2,3) by auto
  moreover have "list_del th (running th s) = running th (list_del th s)" by (simp add: list_del_def running_def)
  moreover have "sy_armed (running th s) th" using True by (simp add: running_def)
  ultimately show ?thesis using assms(4) give_up_inv [OF assms(1) True]
    by (auto simp: WaitInterruptibleNoRecheck_resume_def wq_Disarm_def after_def)
next
  case False
  then have "\<not> sy_armed (running th s) th" by (simp add: running_def)
  then have "b" "s' = running th s"
    using assms(4) by (auto simp: WaitInterruptibleNoRecheck_resume_def wq_Disarm_def split: if_splits)
  then show ?thesis using handed_inv [OF assms(1) False assms(2)] by (simp add: after_def)
qed

lemma mx_step_inv: "mx_step x y \<Longrightarrow> mx_inv x \<Longrightarrow> mx_inv y"
proof (induction rule: mx_step.induct)
  case (lock pc th s r s')
  then show ?case using lock_inv(1) [of s pc th] by auto
next
  case (try_lock pc th s b s')
  then show ?case using take_inv [of s pc th] by (auto simp: mx_TryLock_def after_def fun_upd_idem split: if_splits)
next
  case (interruptible_lock pc th intr s r s')
  then show ?case using lock_inv(2) [of s pc th intr] by auto
next
  case (unlock pc th s)
  then show ?case by (auto intro: unlock_inv)
next
  case (wait pc th block intr timeout s r s')
  then show ?case using mx_wait_inv [of s pc th block intr timeout] by auto
next
  case (notify s s' pc)
  then show ?case using mx_notify_inv [of s pc] by auto
next
  case (notify_all s pc)
  then show ?case by (rule notify_all_inv)
next
  case (timer th s b s' pc)
  then show ?case using timer_inv [of s pc th] by auto
next
  case (signal s th pc)
  have "thread_ok (pc t) (sy_armed s t) (((sy_run s)(th := Signalled)) t)" for t
    using mx_inv_thread [OF signal(2), of t] signal(1) by (cases "t = th"; cases "pc th") (auto split: if_splits)
  then show ?case using signal(2) by (auto simp: mx_inv_def links_ok_def owns_def)
next
  case (resume pc th s)
  then have "\<not> sy_armed s th" using mx_inv_thread [of s pc th] by (auto split: if_splits)
  then show ?case using handed_inv resume by blast
next
  case (resume_interruptible pc th s signalled b s')
  then show ?case using mx_resume_inv by blast
qed

lemma mx_reach_inv: "mx_reach x \<Longrightarrow> mx_inv x"
  by (induction rule: mx_reach.induct) (auto intro: mx_init_inv mx_step_inv)


section \<open>Mutual exclusion\<close>

text \<open>
  C15: In every interleaving of threads that lock, try to lock, unlock, wait on the condition variable (with and without signals
  and time limits) and notify: while the mutex is held exactly one thread owns it, and that thread is not
  parked; while it is not held no thread owns it and none queues for it.  No assertion of the operations fails.
\<close>

theorem mutex_exclusive:
  assumes "mx_reach (s, pc)"
  shows "(if mx_held s then \<exists>t. (\<forall>u. owns (s, pc) u \<longleftrightarrow> u = t) \<and> (\<forall>b. sy_run s t \<noteq> Parked b)
      else sy_q s 0 = [] \<and> (\<forall>u. \<not> owns (s, pc) u)) \<and>
    (\<forall>th intr. pc th = Idle \<longrightarrow> mx_Lock th s \<noteq> None \<and> mx_InterruptibleLock intr th s \<noteq> None) \<and>
    (\<forall>th block intr timeout. pc th = Holds \<longrightarrow> cv_Wait th block intr timeout s \<noteq> None) \<and>
    cv_Notify s \<noteq> None \<and> (\<forall>th. cv_TimeoutHandler th s \<noteq> None)"
proof (intro conjI allI impI)
  note i = mx_reach_inv [OF assms]
  have "\<forall>b. sy_run s t \<noteq> Parked b" if "owns (s, pc) t" for t
    using mx_inv_thread [OF i, of t] that by (cases "pc t") (auto simp: owns_def)
  then show "if mx_held s then \<exists>t. (\<forall>u. owns (s, pc) u \<longleftrightarrow> u = t) \<and> (\<forall>b. sy_run s t \<noteq> Parked b)
     else sy_q s 0 = [] \<and> (\<forall>u. \<not> owns (s, pc) u)"
    using i by (auto simp: mx_inv_def split: if_splits)
  show "mx_Lock th s \<noteq> None" "mx_InterruptibleLock intr th s \<noteq> None" if "pc th = Idle" for th intr
    using lock_inv [OF i that] by fastforce+
  show "cv_Wait th block intr timeout s \<noteq> None" if "pc th = Holds" for th block intr timeout
    using mx_wait_inv [OF i that] by fastforce
  show "cv_Notify s \<noteq> None" "cv_TimeoutHandler th s \<noteq> None" for th using mx_notify_inv [OF i] timer_inv [OF i, of th] by auto
qed

text \<open>Thread 0 holds the mutex, thread 1 queues up, thread 0 unlocks and thread 1 has been handed the mutex.\<close>

definition handed_over :: mx_state where
  "handed_over = (\<lparr>sy_q = (\<lambda>_. []), sy_armed = (\<lambda>_. False), sy_run = (\<lambda>_. Running)(1 := Ready), mx_held = True, cv_lock = False\<rparr>,
     (\<lambda>_. Idle)(1 := Blocked False))"

lemma handed_over_reached: "mx_reach handed_over"
proof -
  let ?i = "\<lparr>sy_q = (\<lambda>_. []), sy_armed = (\<lambda>_. False), sy_run = (\<lambda>_. Running), mx_held = True, cv_lock = False\<rparr>"
  let ?q = "\<lparr>sy_q = (\<lambda>_. [])(0 := [1]), sy_armed = (\<lambda>_. False)(1 := True), sy_run = (\<lambda>_. Running)(1 := Parked False),
      mx_held = True, cv_lock = False\<rparr>"
  have "mx_step mx_init (?i, (\<lambda>_. Idle)(0 := after False (Returns True)))"
    unfolding mx_init_def by (rule mx_step.lock) (simp_all add: mx_Lock_def)
  then have 1: "mx_reach (?i, (\<lambda>_. Idle)(0 := Holds))" using mx_reach.step [OF mx_reach.start] by (simp add: after_def)
  have "mx_step (?i, (\<lambda>_. Idle)(0 := Holds)) (?q, ((\<lambda>_. Idle)(0 := Holds))(1 := after False Sleeps))"
    by (rule mx_step.lock) (simp_all add: mx_Lock_def WaitNoRecheck_def wq_Arm_def park_def)
  then have 2: "mx_reach (?q, ((\<lambda>_. Idle)(0 := Holds))(1 := Blocked False))" using mx_reach.step [OF 1] by (simp add: after_def)
  have "mx_step (?q, ((\<lambda>_. Idle)(0 := Holds))(1 := Blocked False))
      (mx_Unlock ?q, (((\<lambda>_. Idle)(0 := Holds))(1 := Blocked False))(0 := Idle))"
    by (rule mx_step.unlock) simp
  moreover have "mx_Unlock ?q = fst handed_over" "(((\<lambda>_. Idle)(0 := Holds))(1 := Blocked False))(0 := Idle) = snd handed_over"
    by (auto simp: mx_Unlock_def wq_WakeOne_def wq_Pop_def ThreadReady_def handed_over_def fun_eq_iff)
  ultimately show ?thesis using mx_reach.step [OF 2] by (simp add: prod_eq_iff)
qed

theorem mutex_exclusive_witness:
  "mx_reach handed_over \<and> mx_held (fst handed_over) \<and>
   (\<exists>t. (\<forall>u. owns handed_over u \<longleftrightarrow> u = t) \<and> (\<forall>b. sy_run (fst handed_over) t \<noteq> Parked b)) \<and>
   mx_Lock 0 (fst handed_over) \<noteq> None"
proof -
  have "mx_reach (fst handed_over, snd handed_over)" using handed_over_reached by simp
  from mutex_exclusive [OF this] show ?thesis using handed_over_reached by (simp add: handed_over_def)
qed

section \<open>What waiting on the condition variable does not do\<close>

text \<open>
  An interrupted wait returns without the mutex.  A timer that runs out before its thread waits has no effect, so the thread
  waits without a limit.  A thread that was notified and queues for the mutex is said to have timed out.
\<close>

lemma interrupted_wait_unlocks:
  assumes "mx_held s" "sy_q s 0 = []"
  shows "\<exists>s'. cv_Wait th True True timeout (s\<lparr>cv_lock := True\<rparr>) = Some (Returns False, s') \<and> \<not> mx_held s' \<or> timeout = Some True"
  using assms by (auto simp: cv_Wait_def cv_DoWait_def WaitInterruptibleNoRecheck_def Let_def)

lemma early_timer_lost: "\<not> sy_armed s th \<Longrightarrow> cv_TimeoutHandler th s = Some (False, s)"
  by (simp add: cv_TimeoutHandler_def wq_Disarm_def)

lemma notified_times_out:
  assumes "mx_held s" "cv_lock s" "sy_q s 1 = [th]" "sy_q s 0 = []" "sy_armed s th"
  shows "\<exists>s' s''. cv_Notify s = Some s' \<and> sy_q s' 0 = [th] \<and> cv_TimeoutHandler th s' = Some (True, s'')"
  using assms by (auto simp: cv_Notify_def wq_Pop_def wq_Arm_def cv_TimeoutHandler_def wq_Disarm_def list_del_def)


section \<open>The latch\<close>

text \<open>The control points are those of the mutex: \<open>Holds\<close> is a thread that passed the latch.\<close>

type_synonym lt_state = "latch \<times> (nat \<Rightarrow> mx_pc)"

inductive lt_step :: "lt_state \<Rightarrow> lt_state \<Rightarrow> bool" where
  count_down: "lt_CountDown count s = Some s' \<Longrightarrow> lt_step (s, pc) (s', pc)"
| wait: "pc th = Idle \<Longrightarrow> lt_Wait th s = Some (r, s') \<Longrightarrow> lt_step (s, pc) (s', pc(th := after False r))"
| arrive: "pc th = Idle \<Longrightarrow> lt_ArriveAndWait count th s = Some (r, s') \<Longrightarrow> lt_step (s, pc) (s', pc(th := after False r))"
| wait_interruptible: "pc th = Idle \<Longrightarrow> lt_WaitInterruptible intr th s = Some (r, s') \<Longrightarrow>
    lt_step (s, pc) (s', pc(th := after True r))"
| arrive_interruptible: "pc th = Idle \<Longrightarrow> lt_ArriveAndWaitInterruptible intr count th s = Some (r, s') \<Longrightarrow>
    lt_step (s, pc) (s', pc(th := after True r))"
| posix_wait: "pc th = Idle \<Longrightarrow> lt_POSIXWait intr th s = Some (r, serial, s') \<Longrightarrow> lt_step (s, pc) (s', pc(th := after True r))"
| signal: "sy_run s th = Parked True \<Longrightarrow> lt_step (s, pc) (s\<lparr>sy_run := (sy_run s)(th := Signalled)\<rparr>, pc)"
| resume: "pc th = Blocked False \<Longrightarrow> sy_run s th = Ready \<Longrightarrow> lt_step (s, pc) (running th s, pc(th := Holds))"
| resume_interruptible: "pc th = Blocked True \<Longrightarrow> sy_run s th = Ready \<or> sy_run s th = Signalled \<and> signalled \<Longrightarrow>
    WaitInterruptibleNoRecheck_resume signalled th (running th s) = (b, s') \<Longrightarrow>
    lt_step (s, pc) (s', pc(th := after True (Returns b)))"

definition lt_init :: "int \<Rightarrow> lt_state" where
  "lt_init count = (\<lparr>sy_q = (\<lambda>_. []), sy_armed = (\<lambda>_. False), sy_run = (\<lambda>_. Running), lt_cnt = count\<rparr>, \<lambda>_. Idle)"

inductive lt_reach :: "int \<Rightarrow> lt_state \<Rightarrow> bool" where
  start: "lt_reach count (lt_init count)"
| step: "lt_reach count x \<Longrightarrow> lt_step x y \<Longrightarrow> lt_reach count y"

definition lt_inv :: "lt_state \<Rightarrow> bool" where
  "lt_inv x \<longleftrightarrow> links_ok (fst x) \<and> sy_q (fst x) 1 = [] \<and>
     (\<forall>th. thread_ok (snd x th) (sy_armed (fst x) th) (sy_run (fst x) th)) \<and>
     (if lt_cnt (fst x) \<le> 0 then sy_q (fst x) 0 = [] else \<forall>th. \<not> own (snd x th) (sy_armed (fst x) th))"

lemma lt_cnt_ThreadReady [simp]: "lt_cnt (ThreadReady th s) = lt_cnt s"
  by (simp add: ThreadReady_def split: run.splits)

lemma wake_loop_effect:
  fixes s :: latch
  assumes "wq_wake_loop n q did s = (w, s')" "length (sy_q s q) < n" "distinct (sy_q s q)"
  shows "sy_q s' = (sy_q s)(q := []) \<and> lt_cnt s' = lt_cnt s \<and>
    sy_armed s' = (\<lambda>t. sy_armed s t \<and> t \<notin> set (sy_q s q)) \<and>
    sy_run s' = (\<lambda>t. if t \<in> set (sy_q s q) \<and> (\<exists>b. sy_run s t = Parked b) then Ready else sy_run s t)"
  using assms
proof (induction n arbitrary: s did)
  case (Suc n)
  show ?case
  proof (cases "sy_q s q")
    case Nil
    then show ?thesis using Suc.prems(1) by (simp add: wq_Pop_def fun_eq_iff)
  next
    case (Cons th ths)
    let ?s = "ThreadReady th (s\<lparr>sy_q := (sy_q s)(q := ths), sy_armed := (sy_armed s)(th := False)\<rparr>)"
    have "wq_wake_loop n q True ?s = (w, s')" using Suc.prems(1) Cons by (simp add: wq_Pop_def)
    from Suc.IH [OF this] Suc.prems(2,3) Cons show ?thesis by (auto simp: fun_eq_iff)
  qed
qed simp

lemma wake_all_inv:
  assumes "links_ok s" "sy_q s 1 = []" "\<forall>th. thread_ok (pc th) (sy_armed s th) (sy_run s th)" "lt_cnt s \<le> 0"
  shows "lt_inv (snd (wq_WakeAll 0 s), pc)"
proof -
  obtain w s' where w: "wq_WakeAll 0 s = (w, s')" by (cases "wq_WakeAll 0 s")
  have d: "distinct (sy_q s 0)" "\<And>t. sy_armed s t \<longleftrightarrow> t \<in> set (sy_q s 0)" using assms(1,2) by (auto simp: links_ok_def)
  note E = wake_loop_effect [OF w [unfolded wq_WakeAll_def] _ d(1)]
  have "thread_ok (pc t) (sy_armed s' t) (sy_run s' t)" for t
    using spec [OF assms(3), of t] E d(2) by (cases "pc t") (auto split: if_splits)
  then show ?thesis using E assms by (auto simp: lt_inv_def w links_ok_def)
qed

lemma lt_arm_inv:
  assumes "lt_inv (s, pc)" "pc th = Idle" "0 < lt_cnt s"
  shows "\<exists>s'. wq_Arm 0 th s = Some s' \<and> lt_inv (park b th s', pc(th := Blocked b))"
proof -
  have na: "\<not> sy_armed s th" using assms(1,2) by (auto simp: lt_inv_def dest: spec [of _ th])
  then show ?thesis using assms by (auto simp: lt_inv_def links_ok_def wq_Arm_def park_def)
qed

lemma lt_count_inv:
  assumes "lt_inv (s, pc)" "c \<ge> 0"
  shows "0 < lt_cnt s - c \<Longrightarrow> lt_inv (s\<lparr>lt_cnt := lt_cnt s - c\<rparr>, pc)"
    "lt_cnt s - c \<le> 0 \<Longrightarrow> lt_inv (snd (wq_WakeAll 0 (s\<lparr>lt_cnt := lt_cnt s - c\<rparr>)), pc)"
proof -
  show "0 < lt_cnt s - c \<Longrightarrow> lt_inv (s\<lparr>lt_cnt := lt_cnt s - c\<rparr>, pc)"
    using assms by (auto simp: lt_inv_def links_ok_def)
  show "lt_cnt s - c \<le> 0 \<Longrightarrow> lt_inv (snd (wq_WakeAll 0 (s\<lparr>lt_cnt := lt_cnt s - c\<rparr>)), pc)"
    using assms(1) by (intro wake_all_inv) (auto simp: lt_inv_def links_ok_def)
qed

lemma lt_pass_inv:
  assumes "lt_inv (s, pc)" "pc th = Idle" "lt_cnt s \<le> 0"
  shows "lt_inv (s, pc(th := Holds))"
proof -
  have "\<not> sy_armed s th" "sy_run s th = Running" using assms(1,2) by (auto simp: lt_inv_def dest: spec [of _ th])
  then show ?thesis using assms by (auto simp: lt_inv_def)
qed


lemma wq_wake_loop_cnt: "lt_cnt (snd (wq_wake_loop n q did s)) = lt_cnt s"
  by (induction n q did s rule: wq_wake_loop.induct) (auto simp: wq_Pop_def split: list.splits)

lemma lt_arrive_inv:
  assumes "lt_inv (s, pc)" "pc th = Idle" "c \<ge> 0"
  defines "s1 \<equiv> s\<lparr>lt_cnt := lt_cnt s - c\<rparr>"
  shows "lt_cnt s1 \<le> 0 \<Longrightarrow> lt_inv (snd (wq_WakeAll 0 s1), pc(th := Holds))"
    "0 < lt_cnt s1 \<Longrightarrow> \<exists>s'. wq_Arm 0 th s1 = Some s' \<and> lt_inv (park b th s', pc(th := Blocked b))"
    "0 < lt_cnt s1 \<Longrightarrow> lt_inv (s1, pc)"
proof -
  assume le: "lt_cnt s1 \<le> 0"
  then have "lt_inv (snd (wq_WakeAll 0 s1), pc)" using lt_count_inv(2) [OF assms(1,3)] by (simp add: s1_def)
  then show "lt_inv (snd (wq_WakeAll 0 s1), pc(th := Holds))"
    using assms(2) le by (intro lt_pass_inv) (simp_all only: wq_WakeAll_def wq_wake_loop_cnt)
next
  assume gt: "0 < lt_cnt s1"
  then show i: "lt_inv (s1, pc)" using lt_count_inv(1) [OF assms(1,3)] by (simp add: s1_def)
  show "\<exists>s'. wq_Arm 0 th s1 = Some s' \<and> lt_inv (park b th s', pc(th := Blocked b))" using lt_arm_inv [OF i assms(2) gt] .
qed

lemma lt_resume_inv:
  assumes "lt_inv (s, pc)" "pc th = Blocked True" "sy_run s th = Ready \<or> sy_run s th = Signalled \<and> signalled"
    "WaitInterruptibleNoRecheck_resume signalled th (running th s) = (b, s')"
  shows "lt_inv (s', pc(th := after True (Returns b)))"
proof -
  have t: "thread_ok (pc th) (sy_armed s th) (sy_run s th)" using assms(1) by (simp add: lt_inv_def)
  show ?thesis
  proof (cases "sy_armed s th")
    case True
    then have "signalled" using t assms(2,3) by auto
    then have "s' = list_del th (running th s)" "\<not> b"
      using True assms(4) by (auto simp: WaitInterruptibleNoRecheck_resume_def wq_Disarm_def running_def)
    then show ?thesis using assms(1) by (auto simp: lt_inv_def links_ok_def list_del_def running_def after_def distinct_removeAll)
  next
    case False
    then have "s' = running th s" "b"
      using assms(4) by (auto simp: WaitInterruptibleNoRecheck_resume_def wq_Disarm_def running_def split: if_splits)
    moreover have "lt_cnt s \<le> 0" using assms(1,2) False by (auto simp: lt_inv_def split: if_splits) (metis own.simps(3))
    ultimately show ?thesis using assms(1,2) False by (auto simp: lt_inv_def links_ok_def running_def after_def)
  qed
qed

lemma lt_step_inv: "lt_step x y \<Longrightarrow> lt_inv x \<Longrightarrow> lt_inv y"
proof (induction rule: lt_step.induct)
  case (count_down count s s' pc)
  then show ?case using lt_count_inv [of s pc count] by (auto simp: lt_CountDown_def Let_def split: if_splits)
next
  case (wait pc th s r s')
  then show ?case using lt_arm_inv [of s pc th False] lt_pass_inv [of s pc th]
    by (auto simp: lt_Wait_def WaitNoRecheck_def after_def split: if_splits)
next
  case (arrive pc th count s r s')
  then show ?case using lt_arrive_inv(1) [of s pc th count] lt_arrive_inv(2) [of s pc th count False]
    by (auto simp: lt_ArriveAndWait_def Let_def WaitNoRecheck_def after_def split: if_splits)
next
  case (wait_interruptible pc th intr s r s')
  then show ?case using lt_arm_inv [of s pc th True] lt_pass_inv [of s pc th]
    by (auto simp: lt_WaitInterruptible_def WaitInterruptibleNoRecheck_def after_def fun_upd_idem split: if_splits)
next
  case (arrive_interruptible pc th intr count s r s')
  then show ?case using lt_arrive_inv(1,3) [of s pc th count] lt_arrive_inv(2) [of s pc th count True]
    by (auto simp: lt_ArriveAndWaitInterruptible_def Let_def WaitInterruptibleNoRecheck_def after_def fun_upd_idem split: if_splits)
next
  case (posix_wait pc th intr s r serial s')
  then show ?case using lt_arrive_inv(1,3) [of s pc th 1] lt_arrive_inv(2) [of s pc th 1 True]
    by (auto simp: lt_POSIXWait_def Let_def WaitInterruptibleNoRecheck_def after_def fun_upd_idem split: if_splits)
next
  case (signal s th pc)
  have "thread_ok (pc t) (sy_armed s t) (((sy_run s)(th := Signalled)) t)" for t
    using signal by (cases "t = th"; cases "pc th") (auto simp: lt_inv_def dest: spec [of _ t] split: if_splits)
  then show ?case using signal(2) by (auto simp: lt_inv_def links_ok_def)
next
  case (resume pc th s)
  then have "\<not> sy_armed s th" by (auto simp: lt_inv_def dest!: spec [of _ th] split: if_splits)
  moreover from this have "lt_cnt s \<le> 0" using resume by (auto simp: lt_inv_def split: if_splits) (metis own.simps(3))
  ultimately show ?case using resume by (auto simp: lt_inv_def links_ok_def running_def)
next
  case (resume_interruptible pc th s signalled b s')
  then show ?case using lt_resume_inv by blast
qed

text \<open>
  A thread passes the latch only after the counter has reached zero, and from then on no thread queues there: every waiter
  has been woken.
\<close>

theorem latch_opens:
  assumes "lt_reach count (s, pc)"
  shows "(0 < lt_cnt s \<longrightarrow> (\<forall>th. pc th \<noteq> Holds)) \<and>
    (lt_cnt s \<le> 0 \<longrightarrow> sy_q s 0 = [] \<and> (\<forall>th b. sy_run s th \<noteq> Parked b))"
proof -
  have i: "lt_inv x" if "lt_reach count x" for x
    using that
  proof (induction rule: lt_reach.induct)
    case (start count)
    then show ?case by (simp add: lt_inv_def lt_init_def links_ok_def)
  next
    case (step count x y)
    then show ?case using lt_step_inv by blast
  qed
  have "\<forall>b. sy_run s th \<noteq> Parked b" if "lt_cnt s \<le> 0" for th
    using i [OF assms] that by (cases "pc th") (auto simp: lt_inv_def links_ok_def dest!: spec [of _ th])
  moreover have "pc th \<noteq> Holds" if "0 < lt_cnt s" for th
    using i [OF assms] that by (auto simp: lt_inv_def dest: spec [of _ th])
  ultimately show ?thesis using i [OF assms] by (auto simp: lt_inv_def)
qed


theorem latch_opens_witness:
  "\<exists>s pc. lt_reach 1 (s, pc) \<and> lt_cnt s = 0 \<and> sy_q s 0 = [] \<and> pc 0 = Blocked False \<and> sy_run s 0 \<noteq> Parked False"
proof -
  let ?i = "\<lparr>sy_q = (\<lambda>_. [])(0 := [0]), sy_armed = (\<lambda>_. False)(0 := True), sy_run = (\<lambda>_. Running)(0 := Parked False), lt_cnt = 1\<rparr>"
  let ?d = "snd (wq_WakeAll 0 (?i\<lparr>lt_cnt := 0\<rparr>))"
  have "lt_step (lt_init 1) (?i, (\<lambda>_. Idle)(0 := after False Sleeps))"
    unfolding lt_init_def by (rule lt_step.wait) (simp_all add: lt_Wait_def WaitNoRecheck_def wq_Arm_def park_def)
  then have 1: "lt_reach 1 (?i, (\<lambda>_. Idle)(0 := Blocked False))" using lt_reach.step [OF lt_reach.start] by (simp add: after_def)
  have "lt_step (?i, (\<lambda>_. Idle)(0 := Blocked False)) (?d, (\<lambda>_. Idle)(0 := Blocked False))"
    by (rule lt_step.count_down [where count = 1]) (simp add: lt_CountDown_def)
  then have 2: "lt_reach 1 (?d, (\<lambda>_. Idle)(0 := Blocked False))" by (rule lt_reach.step [OF 1])
  have c: "lt_cnt ?d = 0" by (simp only: wq_WakeAll_def wq_wake_loop_cnt) simp
  then have "sy_q ?d 0 = []" "sy_run ?d 0 \<noteq> Parked False" using latch_opens [OF 2] by auto
  then show ?thesis using 2 c by (intro exI [of _ ?d] exI [of _ "(\<lambda>_. Idle)(0 := Blocked False)"]) simp
qed


text \<open>The timed waits report one of the three outcomes.\<close>

lemma timed_wait_results:
  "cv_WaitInterruptibleFor_result False timeout = Inl EINTR"
  "cv_WaitInterruptibleFor_result True timeout = (if cv_WaitFor_result timeout then Inr () else Inl ETIMEDOUT)"
  by (simp_all add: cv_WaitInterruptibleFor_result_def cv_WaitFor_result_def)

end
