(* ===== verification/RwLock.thy ===== *)
theory RwLock
  imports Sync
begin

text \<open>
  The shared mutex (\<^verbatim>\<open>src/junction/bindings/sync.h\<close>, \<^verbatim>\<open>src/junction/bindings/sync.cc\<close>) and the interleavings of readers and
  writers on it.

  Queue 0 holds the waiting writers and queue 1 the waiting readers.  A thread that releases the lock moves the
  threads it will wake to a queue on its own stack, here queue \<open>2 + th\<close>, and wakes them after it has
  left the spin lock.
\<close>

record shared_mutex = sync +
  sm_cnt :: int
  sm_shared_cnt :: int

definition WakeAllShared :: "nat \<Rightarrow> shared_mutex \<Rightarrow> shared_mutex" where
  "WakeAllShared dst s = wq_Splice dst 1 (s\<lparr>sm_cnt := sm_shared_cnt s, sm_shared_cnt := 0\<rparr>)"

definition WakeOneExclusive :: "nat \<Rightarrow> shared_mutex \<Rightarrow> shared_mutex option" where
  "WakeOneExclusive dst s =
     (let s' = s\<lparr>sm_cnt := - 1\<rparr> in
      case wq_Pop 0 s' of (None, s'') \<Rightarrow> Some s'' | (Some th, s'') \<Rightarrow> wq_Arm dst th s'')"

definition sm_Lock :: "nat \<Rightarrow> shared_mutex \<Rightarrow> (outcome \<times> shared_mutex) option" where
  "sm_Lock th s = (if sm_cnt s \<noteq> 0 then WaitNoRecheck th 0 s else Some (Returns True, s\<lparr>sm_cnt := - 1\<rparr>))"

definition sm_TryLock :: "shared_mutex \<Rightarrow> bool \<times> shared_mutex" where
  "sm_TryLock s = (if sm_cnt s \<noteq> 0 then (False, s) else (True, s\<lparr>sm_cnt := - 1\<rparr>))"

definition sm_InterruptibleLock :: "bool \<Rightarrow> nat \<Rightarrow> shared_mutex \<Rightarrow> (outcome \<times> shared_mutex) option" where
  "sm_InterruptibleLock intr th s =
     (if sm_cnt s \<noteq> 0 then WaitInterruptibleNoRecheck intr th 0 s else Some (Returns True, s\<lparr>sm_cnt := - 1\<rparr>))"

text \<open>The parts of the operations that run under the spin lock; waking the threads of the own queue follows.\<close>

definition sm_Unlock :: "nat \<Rightarrow> shared_mutex \<Rightarrow> shared_mutex option" where
  "sm_Unlock th s =
     (if sm_cnt s \<noteq> - 1 then None
      else if sy_q s 1 \<noteq> [] then Some (WakeAllShared (2 + th) s)
      else if sy_q s 0 \<noteq> [] then WakeOneExclusive (2 + th) s
      else Some (s\<lparr>sm_cnt := 0\<rparr>))"

definition sm_LockShared :: "nat \<Rightarrow> shared_mutex \<Rightarrow> (outcome \<times> shared_mutex) option" where
  "sm_LockShared th s =
     (if sm_cnt s < 0 then WaitNoRecheck th 1 (s\<lparr>sm_shared_cnt := sm_shared_cnt s + 1\<rparr>)
      else Some (Returns True, s\<lparr>sm_cnt := sm_cnt s + 1\<rparr>))"

definition sm_TryLockShared :: "shared_mutex \<Rightarrow> bool \<times> shared_mutex" where
  "sm_TryLockShared s = (if sm_cnt s < 0 then (False, s) else (True, s\<lparr>sm_cnt := sm_cnt s + 1\<rparr>))"

definition sm_InterruptibleLockShared :: "bool \<Rightarrow> nat \<Rightarrow> shared_mutex \<Rightarrow> (outcome \<times> shared_mutex) option" where
  "sm_InterruptibleLockShared intr th s =
     (if sm_cnt s < 0 then WaitInterruptibleNoRecheck intr th 1 (s\<lparr>sm_shared_cnt := sm_shared_cnt s + 1\<rparr>)
      else Some (Returns True, s\<lparr>sm_cnt := sm_cnt s + 1\<rparr>))"

definition sm_UnlockShared :: "nat \<Rightarrow> shared_mutex \<Rightarrow> shared_mutex option" where
  "sm_UnlockShared th s =
     (if \<not> sm_cnt s > 0 then None
      else (let s' = s\<lparr>sm_cnt := sm_cnt s - 1\<rparr> in
            if sm_cnt s' > 0 then Some s'
            else if sy_q s' 0 \<noteq> [] then WakeOneExclusive (2 + th) s'
            else Some s'))"

definition sm_UpgradeLock :: "nat \<Rightarrow> shared_mutex \<Rightarrow> (outcome \<times> shared_mutex) option" where
  "sm_UpgradeLock th s =
     (if \<not> sm_cnt s > 0 then None
      else (let s' = s\<lparr>sm_cnt := sm_cnt s - 1\<rparr> in
            if sm_cnt s' > 0 then WaitNoRecheck th 0 s' else Some (Returns True, s'\<lparr>sm_cnt := - 1\<rparr>)))"

definition sm_DowngradeLock :: "nat \<Rightarrow> shared_mutex \<Rightarrow> shared_mutex option" where
  "sm_DowngradeLock th s =
     (if sm_cnt s \<noteq> - 1 then None
      else (let s' = WakeAllShared (2 + th) s in Some (s'\<lparr>sm_cnt := sm_cnt s' + 1\<rparr>)))"

section \<open>Steps\<close>

text \<open>
  A thread reads, writes, waits for either, or wakes the threads of its queue before it goes on to idle or to
  read.
\<close>

datatype sm_pc = SIdle | SRead | SWrite | SWaitS | SWaitX | SWake bool

definition sm_after :: "sm_pc \<Rightarrow> sm_pc \<Rightarrow> outcome \<Rightarrow> sm_pc" where
  "sm_after got waiting r = (case r of Returns ok \<Rightarrow> if ok then got else SIdle | Sleeps \<Rightarrow> waiting)"

type_synonym sm_state = "shared_mutex \<times> (nat \<Rightarrow> sm_pc)"

inductive sm_step :: "sm_state \<Rightarrow> sm_state \<Rightarrow> bool" where
  lock: "pc th = SIdle \<Longrightarrow> sm_Lock th s = Some (r, s') \<Longrightarrow> sm_step (s, pc) (s', pc(th := sm_after SWrite SWaitX r))"
| try_lock: "pc th = SIdle \<Longrightarrow> sm_TryLock s = (b, s') \<Longrightarrow> sm_step (s, pc) (s', pc(th := sm_after SWrite SWaitX (Returns b)))"
| unlock: "pc th = SWrite \<Longrightarrow> sm_Unlock th s = Some s' \<Longrightarrow> sm_step (s, pc) (s', pc(th := SWake False))"
| lock_shared: "pc th = SIdle \<Longrightarrow> sm_LockShared th s = Some (r, s') \<Longrightarrow> sm_step (s, pc) (s', pc(th := sm_after SRead SWaitS r))"
| try_lock_shared: "pc th = SIdle \<Longrightarrow> sm_TryLockShared s = (b, s') \<Longrightarrow>
    sm_step (s, pc) (s', pc(th := sm_after SRead SWaitS (Returns b)))"
| unlock_shared: "pc th = SRead \<Longrightarrow> sm_UnlockShared th s = Some s' \<Longrightarrow> sm_step (s, pc) (s', pc(th := SWake False))"
| upgrade: "pc th = SRead \<Longrightarrow> sm_UpgradeLock th s = Some (r, s') \<Longrightarrow> sm_step (s, pc) (s', pc(th := sm_after SWrite SWaitX r))"
| downgrade: "pc th = SWrite \<Longrightarrow> sm_DowngradeLock th s = Some s' \<Longrightarrow> sm_step (s, pc) (s', pc(th := SWake True))"
| wake: "pc th = SWake r \<Longrightarrow> wq_WakeOne (2 + th) s = (True, s') \<Longrightarrow> sm_step (s, pc) (s', pc)"
| woken_all: "pc th = SWake r \<Longrightarrow> wq_WakeOne (2 + th) s = (False, s') \<Longrightarrow>
    sm_step (s, pc) (s', pc(th := if r then SRead else SIdle))"
| resume: "sy_run s th = Ready \<Longrightarrow> pc th = SWaitX \<and> p = SWrite \<or> pc th = SWaitS \<and> p = SRead \<Longrightarrow>
    sm_step (s, pc) (s\<lparr>sy_run := (sy_run s)(th := Running)\<rparr>, pc(th := p))"

definition sm_init :: sm_state where
  "sm_init = (\<lparr>sy_q = (\<lambda>_. []), sy_armed = (\<lambda>_. False), sy_run = (\<lambda>_. Running), sm_cnt = 0, sm_shared_cnt = 0\<rparr>, \<lambda>_. SIdle)"

inductive sm_reach :: "sm_state \<Rightarrow> bool" where
  start: "sm_reach sm_init"
| step: "sm_reach x \<Longrightarrow> sm_step x y \<Longrightarrow> sm_reach y"


section \<open>The invariant\<close>

definition waiting :: "sm_pc \<Rightarrow> bool" where
  "waiting p \<longleftrightarrow> p = SWaitX \<or> p = SWaitS"

text \<open>Every thread is in one queue at most, in the right one, and runs if it does not wait.\<close>

definition links :: "'a sync_scheme \<Rightarrow> bool" where
  "links s \<longleftrightarrow> (\<forall>q. distinct (sy_q s q)) \<and> (\<forall>q q' t. t \<in> set (sy_q s q) \<and> t \<in> set (sy_q s q') \<longrightarrow> q = q') \<and>
     (\<forall>t. sy_armed s t \<longleftrightarrow> (\<exists>q. t \<in> set (sy_q s q)))"

definition place :: "nat \<Rightarrow> sm_pc \<Rightarrow> bool" where
  "place q p \<longleftrightarrow> (if q = 0 then p = SWaitX else if q = 1 then p = SWaitS else waiting p)"

definition run_of :: "sm_pc \<Rightarrow> bool \<Rightarrow> run" where
  "run_of p armed = (if armed then Parked False else if waiting p then Ready else Running)"

definition sm_struct :: "sm_state \<Rightarrow> bool" where
  "sm_struct x \<longleftrightarrow> links (fst x) \<and> (\<forall>q t. t \<in> set (sy_q (fst x) q) \<longrightarrow> place q (snd x t)) \<and>
     (\<forall>u. sy_q (fst x) (2 + u) \<noteq> [] \<longrightarrow> (\<exists>r. snd x u = SWake r)) \<and>
     (\<forall>t. sy_run (fst x) t = run_of (snd x t) (sy_armed (fst x) t))"

text \<open>Readers and writers include the threads that were given the lock and have not run since.\<close>

definition readers :: "(nat \<Rightarrow> sm_pc) \<Rightarrow> nat list \<Rightarrow> nat set" where
  "readers pc q1 = {t. pc t = SRead \<or> pc t = SWake True \<or> pc t = SWaitS \<and> t \<notin> set q1}"

definition writers :: "(nat \<Rightarrow> sm_pc) \<Rightarrow> nat list \<Rightarrow> nat set" where
  "writers pc q0 = {t. pc t = SWrite \<or> pc t = SWaitX \<and> t \<notin> set q0}"

definition counts :: "(nat \<Rightarrow> sm_pc) \<Rightarrow> nat list \<Rightarrow> nat list \<Rightarrow> int \<Rightarrow> int \<Rightarrow> bool" where
  "counts pc q0 q1 c n \<longleftrightarrow> finite (readers pc q1) \<and> n = int (length q1) \<and>
     (if writers pc q0 = {} then c = int (card (readers pc q1)) \<and> q1 = [] \<and> (readers pc q1 = {} \<longrightarrow> q0 = [])
      else c = - 1 \<and> readers pc q1 = {} \<and> (\<exists>w. writers pc q0 = {w}))"

definition sm_counts :: "sm_state \<Rightarrow> bool" where
  "sm_counts x \<longleftrightarrow>
     counts (snd x) (sy_q (fst x) 0) (sy_q (fst x) 1) (sm_cnt (fst x)) (sm_shared_cnt (fst x))"

definition sm_inv :: "sm_state \<Rightarrow> bool" where
  "sm_inv x \<longleftrightarrow> sm_struct x \<and> sm_counts x"

lemma sm_init_inv: "sm_inv sm_init"
  by (simp add: sm_inv_def sm_struct_def links_def run_of_def sm_counts_def counts_def readers_def writers_def sm_init_def waiting_def)

subsection \<open>Queues\<close>

lemma linksI:
  assumes "\<And>q. distinct (sy_q s q)" "\<And>q q' t. t \<in> set (sy_q s q) \<Longrightarrow> t \<in> set (sy_q s q') \<Longrightarrow> q = q'"
    "\<And>t. sy_armed s t \<longleftrightarrow> (\<exists>q. t \<in> set (sy_q s q))"
  shows "links s"
  using assms unfolding links_def by blast

lemma linksD:
  assumes "links s"
  shows "distinct (sy_q s q)" "t \<in> set (sy_q s q) \<Longrightarrow> t \<in> set (sy_q s q') \<Longrightarrow> q = q'"
    "t \<in> set (sy_q s q) \<Longrightarrow> sy_armed s t" "sy_armed s t \<Longrightarrow> \<exists>q. t \<in> set (sy_q s q)"
  using assms unfolding links_def by blast+

lemma links_run [simp]: "links (s\<lparr>sy_run := r\<rparr>) = links s"
  by (simp add: links_def)

lemma links_arm:
  assumes "links s" "\<forall>q. th \<notin> set (sy_q s q)"
  shows "links (s\<lparr>sy_armed := (sy_armed s)(th := True), sy_q := (sy_q s)(q := sy_q s q @ [th])\<rparr>)"
proof (rule linksI, goal_cases)
  case (1 p)
  then show ?case using linksD(1) [OF assms(1)] assms(2) by simp
next
  case (2 p p' t)
  then show ?case using linksD(2) [OF assms(1)] assms(2) by (auto split: if_splits)
next
  case (3 t)
  then show ?case using linksD(3,4) [OF assms(1), of t] by (cases "t = th") (auto split: if_splits)
qed

lemma links_move:
  assumes "links s" "sy_q s q = t # ts" "q \<noteq> d"
  shows "links (s\<lparr>sy_q := (sy_q s)(q := ts, d := sy_q s d @ [t])\<rparr>)"
proof (rule linksI, goal_cases)
  case (1 p)
  have "t \<notin> set (sy_q s d)" using linksD(2) [OF assms(1), of t q d] assms(2,3) by auto
  then show ?case using linksD(1) [OF assms(1), of p] linksD(1) [OF assms(1), of q] assms(2) by auto
next
  case (2 p p' x)
  have "t \<notin> set ts" using linksD(1) [OF assms(1), of q] assms(2) by simp
  moreover have "t \<in> set (sy_q s q)" "\<And>x. x \<in> set ts \<Longrightarrow> x \<in> set (sy_q s q)" using assms(2) by simp_all
  ultimately show ?case using 2 linksD(2) [OF assms(1)] assms(3) by (auto split: if_splits)
next
  case (3 x)
  have "(\<exists>p. x \<in> set (sy_q s p)) \<longleftrightarrow> (\<exists>p. x \<in> set (((sy_q s)(q := ts, d := sy_q s d @ [t])) p))" (is "?l = ?r")
  proof
    assume ?l
    then obtain p where p: "x \<in> set (sy_q s p)" ..
    show ?r using p assms(2,3) by (cases "p = q"; cases "x = t"; cases "p = d") (auto intro: exI [of _ p] exI [of _ d])
  next
    assume ?r
    then obtain p where "x \<in> set (((sy_q s)(q := ts, d := sy_q s d @ [t])) p)" ..
    then show ?l using assms(2) by (auto split: if_splits intro: exI [of _ q] exI [of _ d] exI [of _ p])
  qed
  then show ?case using assms(1) by (auto simp: links_def)
qed

lemma links_splice:
  assumes "links s" "q \<noteq> d"
  shows "links (wq_Splice d q s)"
proof (rule linksI, goal_cases)
  case (1 p)
  have "set (sy_q s d) \<inter> set (sy_q s q) = {}" using linksD(2) [OF assms(1), of _ q d] assms(2) by auto
  then show ?case using linksD(1) [OF assms(1)] by (auto simp: wq_Splice_def)
next
  case (2 p p' x)
  then show ?case using linksD(2) [OF assms(1)] assms(2) by (auto simp: wq_Splice_def split: if_splits)
next
  case (3 x)
  have "(\<exists>p. x \<in> set (sy_q s p)) \<longleftrightarrow> (\<exists>p. x \<in> set (sy_q (wq_Splice d q s) p))" (is "?l = ?r")
  proof
    assume ?l
    then obtain p where p: "x \<in> set (sy_q s p)" ..
    show ?r using p assms(2) by (cases "p = q"; cases "p = d") (auto simp: wq_Splice_def intro: exI [of _ p] exI [of _ d])
  next
    assume ?r
    then obtain p where "x \<in> set (sy_q (wq_Splice d q s) p)" ..
    then show ?l by (auto simp: wq_Splice_def split: if_splits intro: exI [of _ q] exI [of _ d] exI [of _ p])
  qed
  then show ?case using assms(1) by (auto simp: links_def wq_Splice_def)
qed

lemma links_pop:
  assumes "links s" "sy_q s q = t # ts"
  shows "links (s\<lparr>sy_q := (sy_q s)(q := ts), sy_armed := (sy_armed s)(t := False)\<rparr>)"
proof (rule linksI, goal_cases)
  case (1 p)
  then show ?case using linksD(1) [OF assms(1), of p] linksD(1) [OF assms(1), of q] assms(2) by auto
next
  case (2 p p' x)
  have "\<And>x. x \<in> set ts \<Longrightarrow> x \<in> set (sy_q s q)" using assms(2) by simp
  then show ?case using 2 linksD(2) [OF assms(1)] by (auto split: if_splits)
next
  case (3 x)
  have t: "t \<notin> set ts" using linksD(1) [OF assms(1), of q] assms(2) by simp
  have only: "p = q" if "t \<in> set (sy_q s p)" for p using linksD(2) [OF assms(1) that, of q] assms(2) by simp
  have "(\<exists>p. x \<in> set (((sy_q s)(q := ts)) p)) \<longleftrightarrow> (\<exists>p. x \<in> set (sy_q s p)) \<and> x \<noteq> t" (is "?l = ?r")
  proof
    assume ?l
    then obtain p where p: "x \<in> set (((sy_q s)(q := ts)) p)" ..
    then have "x \<noteq> t" using t only [of p] by (auto split: if_splits)
    moreover have "x \<in> set (sy_q s p)" using p assms(2) by (auto split: if_splits)
    ultimately show ?r by blast
  next
    assume r: ?r
    then obtain p where "x \<in> set (sy_q s p)" by blast
    then have "x \<in> set (((sy_q s)(q := ts)) p)" using r assms(2) by auto
    then show ?l ..
  qed
  then show ?case using assms(1) by (auto simp: links_def)
qed


subsection \<open>Structure\<close>

lemma structI:
  assumes "links s" "\<And>q t. t \<in> set (sy_q s q) \<Longrightarrow> place q (pc t)" "\<And>u. sy_q s (2 + u) \<noteq> [] \<Longrightarrow> \<exists>r. pc u = SWake r"
    "\<And>t. sy_run s t = run_of (pc t) (sy_armed s t)"
  shows "sm_struct (s, pc)"
  using assms unfolding sm_struct_def by simp

lemma structD:
  assumes "sm_struct (s, pc)"
  shows "links s" "t \<in> set (sy_q s q) \<Longrightarrow> place q (pc t)" "sy_q s (2 + u) \<noteq> [] \<Longrightarrow> \<exists>r. pc u = SWake r"
    "sy_run s t = run_of (pc t) (sy_armed s t)"
  using assms unfolding sm_struct_def by simp_all

lemma place_waiting: "place q p \<Longrightarrow> waiting p"
  by (auto simp: place_def waiting_def split: if_splits)

lemma place_own [simp]: "place (Suc (Suc n)) p = waiting p"
  by (simp add: place_def)

lemma waiting_simps [simp]:
  "waiting SWaitX" "waiting SWaitS" "\<not> waiting SIdle" "\<not> waiting SRead" "\<not> waiting SWrite" "\<not> waiting (SWake r)"
  by (simp_all add: waiting_def)

lemma struct_not_queued: "sm_struct (s, pc) \<Longrightarrow> \<not> waiting (pc th) \<Longrightarrow> th \<notin> set (sy_q s q)"
  using structD(2) place_waiting by blast

lemma arm_struct:
  assumes st: "sm_struct (s, pc)" and idle: "\<not> waiting (pc th)" "\<forall>r. pc th \<noteq> SWake r"
    and q: "q = 0 \<and> w = SWaitX \<or> q = 1 \<and> w = SWaitS"
  shows "\<exists>s'. wq_Arm q th s = Some s' \<and> sm_struct (park False th s', pc(th := w)) \<and>
    sy_q s' = (sy_q s)(q := sy_q s q @ [th]) \<and> sm_cnt s' = sm_cnt s \<and> sm_shared_cnt s' = sm_shared_cnt s"
proof -
  have nin: "\<forall>x. th \<notin> set (sy_q s x)" using struct_not_queued [OF st idle(1)] by blast
  note l = structD(1) [OF st]
  have na: "\<not> sy_armed s th" using linksD(4) [OF l] nin by blast
  define s' where "s' = s\<lparr>sy_armed := (sy_armed s)(th := True), sy_q := (sy_q s)(q := sy_q s q @ [th])\<rparr>"
  have "sm_struct (park False th s', pc(th := w))"
  proof (rule structI, goal_cases)
    case 1
    show ?case using links_arm [OF l nin, of q] unfolding s'_def park_def links_run .
  next
    case (2 p t)
    have q': "sy_q (park False th s') p = (if p = q then sy_q s q @ [th] else sy_q s p)" by (simp add: s'_def park_def)
    show ?case
    proof (cases "t = th")
      case True
      then have "p = q" using 2 q' nin by (simp split: if_splits)
      then show ?thesis using q True by (auto simp: place_def)
    next
      case False
      then have "t \<in> set (sy_q s p)" using 2 q' by (auto split: if_splits)
      then show ?thesis using structD(2) [OF st, of t p] False by simp
    qed
  next
    case (3 u)
    then show ?case using structD(3) [OF st, of u] q idle by (auto simp: s'_def park_def)
  next
    case (4 t)
    then show ?case using structD(4) [OF st, of t] by (simp add: s'_def park_def run_of_def)
  qed
  then show ?thesis using na by (simp add: wq_Arm_def s'_def)
qed

text \<open>A thread that does not wait changes its control point.\<close>

lemma pc_struct:
  assumes "sm_struct (s, pc)" "\<not> waiting (pc th)" "\<not> waiting p" "sy_q s (2 + th) = [] \<or> (\<exists>r. p = SWake r)"
  shows "sm_struct (s, pc(th := p))"
proof (rule structI, goal_cases)
  case 1
  show ?case by (rule structD(1) [OF assms(1)])
next
  case (2 q t)
  then show ?case using structD(2) [OF assms(1) 2] struct_not_queued [OF assms(1,2), of q] by auto
next
  case (3 u)
  then show ?case using structD(3) [OF assms(1) 3] assms(4) by auto
next
  case (4 t)
  show ?case using structD(4) [OF assms(1), of t] assms(2,3) by (auto simp: run_of_def)
qed

lemma struct_fields [simp]:
  "sm_struct (s\<lparr>sm_cnt := c\<rparr>, pc) = sm_struct (s, pc)" "sm_struct (s\<lparr>sm_shared_cnt := d\<rparr>, pc) = sm_struct (s, pc)"
  by (simp_all add: sm_struct_def links_def)

lemma move_struct:
  assumes st: "sm_struct (s, pc)" and q: "sy_q s 0 = w # ws" and th: "pc th = SWake r"
  shows "sm_struct (s\<lparr>sy_q := (sy_q s)(0 := ws, 2 + th := sy_q s (2 + th) @ [w])\<rparr>, pc)"
proof (rule structI, goal_cases)
  case 1
  show ?case using links_move [OF structD(1) [OF st] q, of "2 + th"] by simp
next
  case (2 p t)
  have *: "place 0 (pc t)" if "t \<in> set (w # ws)" for t using structD(2) [OF st, of t 0] q that by simp
  show ?case
  proof (cases "p = 2 + th \<and> t = w")
    case True
    then show ?thesis using place_waiting [OF * [of w]] by simp
  next
    case False
    then show ?thesis using 2 structD(2) [OF st, of t p] * [of t] by (auto split: if_splits)
  qed
next
  case (3 u)
  then show ?case using structD(3) [OF st, of u] th by (auto split: if_splits)
next
  case (4 t)
  then show ?case using structD(4) [OF st, of t] by simp
qed

lemma splice_struct:
  assumes st: "sm_struct (s, pc)" and th: "pc th = SWake r"
  shows "sm_struct (wq_Splice (2 + th) 1 s, pc)"
proof (rule structI, goal_cases)
  case 1
  show ?case using links_splice [OF structD(1) [OF st], of 1 "2 + th"] by simp
next
  case (2 p t)
  show ?case
  proof (cases "p = 2 + th \<and> t \<in> set (sy_q s 1)")
    case True
    then show ?thesis using place_waiting [OF structD(2) [OF st, of t 1]] by simp
  next
    case False
    then show ?thesis using 2 structD(2) [OF st, of t p] by (auto simp: wq_Splice_def split: if_splits)
  qed
next
  case (3 u)
  then show ?case using structD(3) [OF st, of u] th by (auto simp: wq_Splice_def split: if_splits)
next
  case (4 t)
  then show ?case using structD(4) [OF st, of t] by (simp add: wq_Splice_def)
qed

lemma pop_struct:
  assumes st: "sm_struct (s, pc)" and q: "sy_q s (2 + th) = t # ts"
  shows "\<exists>s'. wq_WakeOne (2 + th) s = (True, s') \<and> sm_struct (s', pc) \<and> sy_q s' = (sy_q s)(2 + th := ts) \<and>
    sm_cnt s' = sm_cnt s \<and> sm_shared_cnt s' = sm_shared_cnt s"
proof -
  define s1 where "s1 = s\<lparr>sy_q := (sy_q s)(2 + th := ts), sy_armed := (sy_armed s)(t := False)\<rparr>"
  note l = structD(1) [OF st]
  have t: "t \<in> set (sy_q s (2 + th))" using q by simp
  have w: "sy_armed s t" "waiting (pc t)" using linksD(3) [OF l t] place_waiting [OF structD(2) [OF st t]] .
  have r: "sy_run s t = Parked False" using structD(4) [OF st, of t] w by (simp add: run_of_def)
  then have T: "ThreadReady t s1 = s1\<lparr>sy_run := (sy_run s)(t := Ready)\<rparr>" by (simp add: ThreadReady_def s1_def)
  have "sm_struct (s1\<lparr>sy_run := (sy_run s)(t := Ready)\<rparr>, pc)"
  proof (rule structI, goal_cases)
    case 1
    show ?case using links_pop [OF l q] unfolding s1_def links_run .
  next
    case (2 p x)
    then have "x \<in> set (sy_q s p)" using q by (cases "p = 2 + th") (simp_all add: s1_def)
    then show ?case by (rule structD(2) [OF st])
  next
    case (3 u)
    then show ?case using structD(3) [OF st, of u] q by (auto simp: s1_def split: if_splits)
  next
    case (4 x)
    then show ?case using structD(4) [OF st, of x] w by (simp add: s1_def run_of_def)
  qed
  then show ?thesis using q T by (simp add: wq_WakeOne_def wq_Pop_def s1_def)
qed


subsection \<open>Counts\<close>

lemma counts_writer: "counts pc q0 q1 c n \<Longrightarrow> t \<in> writers pc q0 \<Longrightarrow> c = - 1 \<and> readers pc q1 = {} \<and> writers pc q0 = {t}"
  unfolding counts_def by (auto split: if_splits)

lemma counts_no_writer:
  "counts pc q0 q1 c n \<Longrightarrow> c \<noteq> - 1 \<Longrightarrow>
   writers pc q0 = {} \<and> c = int (card (readers pc q1)) \<and> finite (readers pc q1) \<and> q1 = [] \<and> n = 0"
  unfolding counts_def by (auto split: if_splits)

lemma counts_reader:
  assumes "counts pc q0 q1 c n" "t \<in> readers pc q1"
  shows "c > 0 \<and> writers pc q0 = {} \<and> c = int (card (readers pc q1)) \<and> finite (readers pc q1) \<and> q1 = [] \<and> n = 0"
proof -
  have "c \<noteq> - 1" using assms unfolding counts_def by (auto split: if_splits)
  moreover have "finite (readers pc q1)" using assms(1) by (simp add: counts_def)
  ultimately show ?thesis using counts_no_writer [OF assms(1)] assms(2) by (auto simp: card_gt_0_iff)
qed

lemma counts_writerI:
  "writers pc q0 = {w} \<Longrightarrow> readers pc q1 = {} \<Longrightarrow> n = int (length q1) \<Longrightarrow> counts pc q0 q1 (- 1) n"
  by (simp add: counts_def)

lemma counts_readersI:
  "writers pc q0 = {} \<Longrightarrow> finite (readers pc []) \<Longrightarrow> c = int (card (readers pc [])) \<Longrightarrow>
   (readers pc [] = {} \<Longrightarrow> q0 = []) \<Longrightarrow> counts pc q0 [] c 0"
  by (simp add: counts_def)

lemma next_writer:
  assumes "writers pc (w # ws) = {}" "pc w = SWaitX" "distinct (w # ws)"
  shows "writers pc ws = {w}"
proof (rule set_eqI)
  fix t
  have "t \<notin> writers pc (w # ws)" using assms(1) by simp
  then show "t \<in> writers pc ws \<longleftrightarrow> t \<in> {w}" using assms(2,3) by (auto simp: writers_def)
qed

lemma lock_counts:
  assumes k: "counts pc q0 q1 c n" and th: "pc th = SIdle"
  shows "c \<noteq> 0 \<Longrightarrow> counts (pc(th := SWaitX)) (q0 @ [th]) q1 c n"
    "c = 0 \<Longrightarrow> counts (pc(th := SWrite)) q0 q1 (- 1) n"
proof -
  have R: "readers (pc(th := SWaitX)) q1 = readers pc q1" "readers (pc(th := SWrite)) q1 = readers pc q1"
    using th by (auto simp: readers_def)
  have W: "writers (pc(th := SWaitX)) (q0 @ [th]) = writers pc q0" using th by (auto simp: writers_def)
  show "counts (pc(th := SWaitX)) (q0 @ [th]) q1 c n" if "c \<noteq> 0"
    using k that unfolding counts_def R W by (auto split: if_splits)
  show "counts (pc(th := SWrite)) q0 q1 (- 1) n" if "c = 0"
  proof (rule counts_writerI)
    note z = counts_no_writer [OF k]
    show "readers (pc(th := SWrite)) q1 = {}" using z that R by auto
    show "n = int (length q1)" using k by (simp add: counts_def)
    show "writers (pc(th := SWrite)) q0 = {th}" using z that th by (auto simp: writers_def)
  qed
qed

lemma unlock_counts:
  assumes k: "counts pc q0 q1 c n" and th: "pc th = SWrite" and d: "distinct q1"
    and q: "\<forall>t\<in>set q0. pc t = SWaitX" "\<forall>t\<in>set q1. pc t = SWaitS"
  shows "q1 \<noteq> [] \<Longrightarrow> counts (pc(th := SWake False)) q0 [] n 0"
    "q1 = [] \<Longrightarrow> q0 = w # ws \<Longrightarrow> distinct q0 \<Longrightarrow> counts (pc(th := SWake False)) ws q1 (- 1) n"
    "q1 = [] \<Longrightarrow> q0 = [] \<Longrightarrow> counts (pc(th := SWake False)) q0 q1 0 n"
proof -
  have "th \<in> writers pc q0" using th by (simp add: writers_def)
  note z = counts_writer [OF k this]
  have n: "n = int (length q1)" using k by (simp add: counts_def)
  have R: "readers (pc(th := SWake False)) [] = set q1" using z q(2) th by (auto simp: readers_def)
  have W: "writers (pc(th := SWake False)) q0 = {}" using z th by (auto simp: writers_def)
  show "counts (pc(th := SWake False)) q0 [] n 0" if "q1 \<noteq> []"
    using that n d by (intro counts_readersI) (simp_all add: R W distinct_card)
  show "counts (pc(th := SWake False)) ws q1 (- 1) n" if "q1 = []" "q0 = w # ws" "distinct q0"
  proof (rule counts_writerI)
    show "readers (pc(th := SWake False)) q1 = {}" using R that by simp
    show "writers (pc(th := SWake False)) ws = {w}" using W that q(1) th next_writer [of "pc(th := SWake False)" w ws] by (cases "w = th") auto
  qed (rule n)
  show "counts (pc(th := SWake False)) q0 q1 0 n" if "q1 = []" "q0 = []"
    using that n counts_readersI [of "pc(th := SWake False)" q0 0] R W by simp
qed

lemma lock_shared_counts:
  assumes k: "counts pc q0 q1 c n" and th: "pc th = SIdle"
  shows "c < 0 \<Longrightarrow> counts (pc(th := SWaitS)) q0 (q1 @ [th]) c (n + 1)"
    "\<not> c < 0 \<Longrightarrow> counts (pc(th := SRead)) q0 q1 (c + 1) n"
proof -
  have W: "writers (pc(th := p)) q0 = writers pc q0" if "p = SRead \<or> p = SWaitS" for p
    using th that by (auto simp: writers_def)
  have R: "readers (pc(th := SWaitS)) (q1 @ [th]) = readers pc q1" using th by (auto simp: readers_def)
  show "counts (pc(th := SWaitS)) q0 (q1 @ [th]) c (n + 1)" if "c < 0"
    using k that unfolding counts_def R by (auto simp: W split: if_splits)
  have S: "readers (pc(th := SRead)) q1 = insert th (readers pc q1)" "th \<notin> readers pc q1"
    using th by (auto simp: readers_def)
  show "counts (pc(th := SRead)) q0 q1 (c + 1) n" if "\<not> c < 0"
    using k that S(2) unfolding counts_def S(1) by (auto simp: W split: if_splits)
qed

lemma leave_counts:
  assumes k: "counts pc q0 q1 c n" and th: "pc th = SRead" and q: "\<forall>t\<in>set q0. pc t = SWaitX"
  shows "c - 1 > 0 \<Longrightarrow> counts (pc(th := SWake False)) q0 q1 (c - 1) n"
    "c - 1 > 0 \<Longrightarrow> counts (pc(th := SWaitX)) (q0 @ [th]) q1 (c - 1) n"
    "\<not> c - 1 > 0 \<Longrightarrow> q0 = w # ws \<Longrightarrow> distinct q0 \<Longrightarrow> counts (pc(th := SWake False)) ws q1 (- 1) n"
    "\<not> c - 1 > 0 \<Longrightarrow> q0 = [] \<Longrightarrow> counts (pc(th := SWake False)) q0 q1 (c - 1) n"
    "\<not> c - 1 > 0 \<Longrightarrow> counts (pc(th := SWrite)) q0 q1 (- 1) n"
proof -
  have i: "th \<in> readers pc q1" using th by (simp add: readers_def)
  note z = counts_reader [OF k i]
  have R: "readers (pc(th := p)) q1 = readers pc q1 - {th}" if "p = SWake False \<or> p = SWaitX \<or> p = SWrite" for p
    using that th by (auto simp: readers_def)
  have W: "writers (pc(th := SWake False)) q0 = {}" "writers (pc(th := SWaitX)) (q0 @ [th]) = {}"
    "writers (pc(th := SWrite)) q0 = {th}"
    using z th by (auto simp: writers_def)
  have f: "finite (readers pc q1)" using z by blast
  have c: "int (card (readers pc q1 - {th})) = c - 1" using z i card_Suc_Diff1 [OF f i] by linarith
  have e: "readers pc q1 - {th} = {}" if "\<not> c - 1 > 0"
  proof -
    have "card (readers pc q1 - {th}) = 0" using c that by linarith
    then show ?thesis using f by simp
  qed
  have ne: "readers pc q1 - {th} \<noteq> {}" if "c - 1 > 0"
  proof
    assume "readers pc q1 - {th} = {}"
    then show False using c that unfolding \<open>readers pc q1 - {th} = {}\<close> by simp
  qed
  show "counts (pc(th := SWake False)) q0 q1 (c - 1) n" if "c - 1 > 0"
    unfolding counts_def R [of "SWake False", simplified] W(1) using z c ne [OF that] f by auto
  show "counts (pc(th := SWaitX)) (q0 @ [th]) q1 (c - 1) n" if "c - 1 > 0"
    unfolding counts_def R [of SWaitX, simplified] W(2) using z c ne [OF that] f by auto
  show "counts (pc(th := SWake False)) q0 q1 (c - 1) n" if "\<not> c - 1 > 0" "q0 = []"
    unfolding counts_def R [of "SWake False", simplified] W(1) using z c that f by auto
  show "counts (pc(th := SWrite)) q0 q1 (- 1) n" if "\<not> c - 1 > 0"
    unfolding counts_def R [of SWrite, simplified] W(3) using z e [OF that] f by auto
  show "counts (pc(th := SWake False)) ws q1 (- 1) n" if "\<not> c - 1 > 0" "q0 = w # ws" "distinct q0"
  proof (rule counts_writerI)
    show "readers (pc(th := SWake False)) q1 = {}" using R e that by simp
    show "writers (pc(th := SWake False)) ws = {w}" using W that q th next_writer [of "pc(th := SWake False)" w ws] by (cases "w = th") auto
  qed (use z in simp)
qed

lemma downgrade_counts:
  assumes k: "counts pc q0 q1 c n" and th: "pc th = SWrite" and d: "distinct q1" and q: "\<forall>t\<in>set q1. pc t = SWaitS"
  shows "counts (pc(th := SWake True)) q0 [] (n + 1) 0"
proof -
  have "th \<in> writers pc q0" using th by (simp add: writers_def)
  note z = counts_writer [OF k this]
  have n: "n = int (length q1)" using k by (simp add: counts_def)
  have "th \<notin> set q1" using q th by auto
  moreover have R: "readers (pc(th := SWake True)) [] = insert th (set q1)" using z q th by (auto simp: readers_def)
  moreover have W: "writers (pc(th := SWake True)) q0 = {}" using z th by (auto simp: writers_def)
  ultimately show ?thesis using n d by (intro counts_readersI) (simp_all add: distinct_card)
qed

text \<open>The steps that only move a thread on keep both sets.\<close>

lemma move_counts:
  "counts pc q0 q1 c n \<Longrightarrow> pc th = SWake r \<Longrightarrow> counts (pc(th := if r then SRead else SIdle)) q0 q1 c n"
  "counts pc q0 q1 c n \<Longrightarrow> pc th = SWaitX \<Longrightarrow> th \<notin> set q0 \<Longrightarrow> counts (pc(th := SWrite)) q0 q1 c n"
  "counts pc q0 q1 c n \<Longrightarrow> pc th = SWaitS \<Longrightarrow> th \<notin> set q1 \<Longrightarrow> counts (pc(th := SRead)) q0 q1 c n"
proof -
  have *: "counts pc q0 q1 c n \<Longrightarrow> readers pc' q1 = readers pc q1 \<Longrightarrow> writers pc' q0 = writers pc q0 \<Longrightarrow> counts pc' q0 q1 c n"
    for pc' unfolding counts_def by metis
  show "counts pc q0 q1 c n \<Longrightarrow> pc th = SWake r \<Longrightarrow> counts (pc(th := if r then SRead else SIdle)) q0 q1 c n"
    by (rule *) (auto simp: readers_def writers_def)
  show "counts pc q0 q1 c n \<Longrightarrow> pc th = SWaitX \<Longrightarrow> th \<notin> set q0 \<Longrightarrow> counts (pc(th := SWrite)) q0 q1 c n"
    by (rule *) (auto simp: readers_def writers_def)
  show "counts pc q0 q1 c n \<Longrightarrow> pc th = SWaitS \<Longrightarrow> th \<notin> set q1 \<Longrightarrow> counts (pc(th := SRead)) q0 q1 c n"
    by (rule *) (auto simp: readers_def writers_def)
qed


subsection \<open>Operations\<close>

lemma invI: "sm_struct (s, pc) \<Longrightarrow> counts pc (sy_q s 0) (sy_q s 1) (sm_cnt s) (sm_shared_cnt s) \<Longrightarrow> sm_inv (s, pc)"
  by (simp add: sm_inv_def sm_counts_def)

lemma invD:
  assumes "sm_inv (s, pc)"
  shows "sm_struct (s, pc)" "counts pc (sy_q s 0) (sy_q s 1) (sm_cnt s) (sm_shared_cnt s)"
    "\<forall>t\<in>set (sy_q s 0). pc t = SWaitX" "\<forall>t\<in>set (sy_q s 1). pc t = SWaitS" "distinct (sy_q s q)"
proof -
  show st: "sm_struct (s, pc)" using assms by (simp add: sm_inv_def)
  show "\<forall>t\<in>set (sy_q s 0). pc t = SWaitX" "\<forall>t\<in>set (sy_q s 1). pc t = SWaitS"
    using structD(2) [OF st, of _ 0] structD(2) [OF st, of _ 1] by (auto simp: place_def)
  show "distinct (sy_q s q)" by (rule linksD(1) [OF structD(1) [OF st]])
  show "counts pc (sy_q s 0) (sy_q s 1) (sm_cnt s) (sm_shared_cnt s)" using assms by (simp add: sm_inv_def sm_counts_def)
qed

lemma reader_cnt: "sm_inv (s, pc) \<Longrightarrow> pc th = SRead \<Longrightarrow> sm_cnt s > 0"
  using counts_reader [OF invD(2), of s pc th] unfolding readers_def by blast

lemma sm_wait_inv:
  assumes "sm_struct (s, pc)" "\<not> waiting (pc th)" "\<forall>r. pc th \<noteq> SWake r" "q = 0 \<and> w = SWaitX \<or> q = 1 \<and> w = SWaitS"
    "counts (pc(th := w)) (((sy_q s)(q := sy_q s q @ [th])) 0) (((sy_q s)(q := sy_q s q @ [th])) 1) (sm_cnt s) (sm_shared_cnt s)"
  shows "\<exists>s'. WaitNoRecheck th q s = Some (Sleeps, s') \<and> sm_inv (s', pc(th := w))"
proof -
  obtain s' where s': "wq_Arm q th s = Some s'" "sm_struct (park False th s', pc(th := w))"
    "sy_q s' = (sy_q s)(q := sy_q s q @ [th])" "sm_cnt s' = sm_cnt s" "sm_shared_cnt s' = sm_shared_cnt s"
    using arm_struct [OF assms(1-4)] by blast
  have "sm_inv (park False th s', pc(th := w))" using s'(2-5) assms(5) by (intro invI) (simp_all add: park_def)
  then show ?thesis using s'(1) by (simp add: WaitNoRecheck_def)
qed

lemma WakeOneExclusive_moves:
  assumes "sm_struct (s, pc)" "sy_q s 0 = w # ws"
  shows "WakeOneExclusive (2 + th) s = Some (s\<lparr>sm_cnt := - 1, sy_q := (sy_q s)(0 := ws, 2 + th := sy_q s (2 + th) @ [w])\<rparr>)"
proof -
  have "sy_armed s w" using linksD(3) [OF structD(1) [OF assms(1)], of w 0] assms(2) by simp
  then have "(sy_armed s)(w := True) = sy_armed s" by (intro ext) simp
  then show ?thesis using assms(2) by (simp add: WakeOneExclusive_def wq_Pop_def wq_Arm_def)
qed

lemma exclusive_inv:
  assumes st: "sm_struct (s, pc)" and q: "sy_q s 0 = w # ws" and th: "pc th = SWake r"
    and k: "counts pc ws (sy_q s 1) (- 1) (sm_shared_cnt s)"
  shows "\<exists>s'. WakeOneExclusive (2 + th) s = Some s' \<and> sm_inv (s', pc)"
proof -
  define s' where "s' = s\<lparr>sm_cnt := - 1, sy_q := (sy_q s)(0 := ws, 2 + th := sy_q s (2 + th) @ [w])\<rparr>"
  have "sm_struct (s\<lparr>sm_cnt := - 1\<rparr>, pc)" using st by simp
  from move_struct [OF this _ th] q have "sm_struct (s', pc)" by (simp add: s'_def)
  then have "sm_inv (s', pc)" using k by (intro invI) (simp_all add: s'_def)
  then show ?thesis using WakeOneExclusive_moves [OF st q] by (simp add: s'_def)
qed

lemma shared_struct:
  "sm_struct (s, pc) \<Longrightarrow> pc th = SWake r \<Longrightarrow> sm_struct (WakeAllShared (2 + th) s, pc)"
  unfolding WakeAllShared_def by (rule splice_struct) simp_all

lemma sm_Lock_inv:
  assumes "sm_inv (s, pc)" "pc th = SIdle"
  shows "\<exists>r s'. sm_Lock th s = Some (r, s') \<and> sm_inv (s', pc(th := sm_after SWrite SWaitX r))"
proof (cases "sm_cnt s = 0")
  case True
  have "sm_struct (s, pc(th := SWrite))" using pc_struct [OF invD(1) [OF assms(1)], of th SWrite]
      structD(3) [OF invD(1) [OF assms(1)], of th] assms(2) by auto
  then show ?thesis using True lock_counts(2) [OF invD(2) [OF assms(1)] assms(2)]
    by (simp add: sm_Lock_def sm_after_def sm_inv_def sm_counts_def)
next
  case False
  then show ?thesis using sm_wait_inv [OF invD(1) [OF assms(1)], of th 0 SWaitX] assms(2)
      lock_counts(1) [OF invD(2) [OF assms(1)] assms(2)]
    by (auto simp: sm_Lock_def sm_after_def)
qed

lemma sm_LockShared_inv:
  assumes "sm_inv (s, pc)" "pc th = SIdle"
  shows "\<exists>r s'. sm_LockShared th s = Some (r, s') \<and> sm_inv (s', pc(th := sm_after SRead SWaitS r))"
proof (cases "sm_cnt s < 0")
  case False
  have "sm_struct (s, pc(th := SRead))" using pc_struct [OF invD(1) [OF assms(1)], of th SRead]
      structD(3) [OF invD(1) [OF assms(1)], of th] assms(2) by auto
  then show ?thesis using False lock_shared_counts(2) [OF invD(2) [OF assms(1)] assms(2)]
    by (simp add: sm_LockShared_def sm_after_def sm_inv_def sm_counts_def)
next
  case True
  then show ?thesis using sm_wait_inv [of "s\<lparr>sm_shared_cnt := sm_shared_cnt s + 1\<rparr>" pc th 1 SWaitS] assms(2)
      lock_shared_counts(1) [OF invD(2) [OF assms(1)] assms(2)] invD(1) [OF assms(1)]
    by (auto simp: sm_LockShared_def sm_after_def)
qed

lemma sm_Unlock_inv:
  assumes i: "sm_inv (s, pc)" and th: "pc th = SWrite"
  shows "\<exists>s'. sm_Unlock th s = Some s' \<and> sm_inv (s', pc(th := SWake False))"
proof -
  let ?pc = "pc(th := SWake False)"
  have st: "sm_struct (s, ?pc)" using pc_struct [OF invD(1) [OF i], of th "SWake False"] th by auto
  have c: "sm_cnt s = - 1" using counts_writer [OF invD(2) [OF i], of th] th by (simp add: writers_def)
  note K = unlock_counts [OF invD(2) [OF i] th invD(5) [OF i] invD(3) [OF i] invD(4) [OF i]]
  consider "sy_q s 1 \<noteq> []" | w ws where "sy_q s 1 = []" "sy_q s 0 = w # ws" | "sy_q s 1 = []" "sy_q s 0 = []"
    by (meson list.exhaust)
  then show ?thesis
  proof cases
    case 1
    then have "sm_inv (WakeAllShared (2 + th) s, ?pc)"
      using shared_struct [OF st] K(1) by (intro invI) (simp_all add: WakeAllShared_def wq_Splice_def)
    then show ?thesis using 1 c by (simp add: sm_Unlock_def)
  next
    case 2
    then show ?thesis using exclusive_inv [OF st 2(2), of th False] K(2) [OF 2 invD(5) [OF i]] c by (simp add: sm_Unlock_def)
  next
    case 3
    then have "sm_inv (s\<lparr>sm_cnt := 0\<rparr>, ?pc)" using st K(3) by (intro invI) simp_all
    then show ?thesis using 3 c by (simp add: sm_Unlock_def)
  qed
qed

lemma sm_UnlockShared_inv:
  assumes i: "sm_inv (s, pc)" and th: "pc th = SRead"
  shows "\<exists>s'. sm_UnlockShared th s = Some s' \<and> sm_inv (s', pc(th := SWake False))"
proof -
  let ?pc = "pc(th := SWake False)"
  let ?s = "s\<lparr>sm_cnt := sm_cnt s - 1\<rparr>"
  have st: "sm_struct (?s, ?pc)" using pc_struct [OF invD(1) [OF i], of th "SWake False"] th by auto
  have c: "sm_cnt s > 0" by (rule reader_cnt [OF i th])
  note K = leave_counts [OF invD(2) [OF i] th invD(3) [OF i]]
  consider "sm_cnt s - 1 > 0" | w ws where "\<not> sm_cnt s - 1 > 0" "sy_q s 0 = w # ws" | "\<not> sm_cnt s - 1 > 0" "sy_q s 0 = []"
    by (meson list.exhaust)
  then show ?thesis
  proof cases
    case 1
    then have "sm_inv (?s, ?pc)" using st K(1) by (intro invI) simp_all
    then show ?thesis using 1 c by (simp add: sm_UnlockShared_def)
  next
    case 2
    then show ?thesis using exclusive_inv [OF st, of w ws th False] K(3) [OF 2 invD(5) [OF i]] c
      by (simp add: sm_UnlockShared_def)
  next
    case 3
    then have "sm_inv (?s, ?pc)" using st K(4) by (intro invI) simp_all
    then show ?thesis using 3 c by (simp add: sm_UnlockShared_def)
  qed
qed


lemma sm_UpgradeLock_inv:
  assumes i: "sm_inv (s, pc)" and th: "pc th = SRead"
  shows "\<exists>r s'. sm_UpgradeLock th s = Some (r, s') \<and> sm_inv (s', pc(th := sm_after SWrite SWaitX r))"
proof -
  let ?s = "s\<lparr>sm_cnt := sm_cnt s - 1\<rparr>"
  have c: "sm_cnt s > 0" by (rule reader_cnt [OF i th])
  note K = leave_counts [OF invD(2) [OF i] th invD(3) [OF i]]
  show ?thesis
  proof (cases "sm_cnt s - 1 > 0")
    case True
    then show ?thesis using sm_wait_inv [of ?s pc th 0 SWaitX] invD(1) [OF i] th K(2) c
      by (auto simp: sm_UpgradeLock_def sm_after_def)
  next
    case False
    have "sm_struct (s, pc(th := SWrite))" using pc_struct [OF invD(1) [OF i], of th SWrite]
        structD(3) [OF invD(1) [OF i], of th] th by auto
    then show ?thesis using False K(5) c by (simp add: sm_UpgradeLock_def sm_after_def sm_inv_def sm_counts_def)
  qed
qed

lemma sm_DowngradeLock_inv:
  assumes i: "sm_inv (s, pc)" and th: "pc th = SWrite"
  shows "\<exists>s'. sm_DowngradeLock th s = Some s' \<and> sm_inv (s', pc(th := SWake True))"
proof -
  have st: "sm_struct (s, pc(th := SWake True))" using pc_struct [OF invD(1) [OF i], of th "SWake True"] th by auto
  have c: "sm_cnt s = - 1" using counts_writer [OF invD(2) [OF i], of th] th by (simp add: writers_def)
  let ?s = "WakeAllShared (2 + th) s"
  have "sm_struct (?s\<lparr>sm_cnt := sm_cnt ?s + 1\<rparr>, pc(th := SWake True))" using shared_struct [OF st] by simp
  note s' = invI [OF this]
  have "sm_inv (?s\<lparr>sm_cnt := sm_cnt ?s + 1\<rparr>, pc(th := SWake True))"
    using downgrade_counts [OF invD(2) [OF i] th invD(5) [OF i] invD(4) [OF i]]
    by (intro s') (simp add: WakeAllShared_def wq_Splice_def)
  then show ?thesis using c by (simp add: sm_DowngradeLock_def Let_def)
qed

lemma sm_resume_inv:
  assumes i: "sm_inv (s, pc)" and r: "sy_run s th = Ready" and p: "pc th = SWaitX \<and> p = SWrite \<or> pc th = SWaitS \<and> p = SRead"
  shows "sm_inv (s\<lparr>sy_run := (sy_run s)(th := Running)\<rparr>, pc(th := p))"
proof (rule invI)
  note st = invD(1) [OF i]
  have na: "\<not> sy_armed s th" using r structD(4) [OF st, of th] by (auto simp: run_of_def split: if_splits)
  have nin: "th \<notin> set (sy_q s q)" for q using linksD(3) [OF structD(1) [OF st]] na by blast
  show "counts (pc(th := p)) (sy_q (s\<lparr>sy_run := (sy_run s)(th := Running)\<rparr>) 0) (sy_q (s\<lparr>sy_run := (sy_run s)(th := Running)\<rparr>) 1)
     (sm_cnt (s\<lparr>sy_run := (sy_run s)(th := Running)\<rparr>)) (sm_shared_cnt (s\<lparr>sy_run := (sy_run s)(th := Running)\<rparr>))"
    using move_counts(2,3) [OF invD(2) [OF i], of th] p nin by auto
  show "sm_struct (s\<lparr>sy_run := (sy_run s)(th := Running)\<rparr>, pc(th := p))"
  proof (rule structI, goal_cases)
    case 1
    show ?case using structD(1) [OF st] by simp
  next
    case (2 q t)
    then have t: "t \<in> set (sy_q s q)" by simp
    then have "t \<noteq> th" using nin by blast
    then show ?case using structD(2) [OF st t] by simp
  next
    case (3 u)
    then show ?case using structD(3) [OF st, of u] p by auto
  next
    case (4 t)
    then show ?case using structD(4) [OF st, of t] p na by (auto simp: run_of_def)
  qed
qed

lemma sm_wake_inv:
  assumes i: "sm_inv (s, pc)" and th: "pc th = SWake r" and w: "wq_WakeOne (2 + th) s = (b, s')"
  shows "if b then sm_inv (s', pc) else sm_inv (s', pc(th := if r then SRead else SIdle))"
proof (cases "sy_q s (2 + th)")
  case Nil
  then have "s' = s" "\<not> b" using w by (simp_all add: wq_WakeOne_def wq_Pop_def)
  moreover have "sm_struct (s, pc(th := if r then SRead else SIdle))"
    using pc_struct [OF invD(1) [OF i]] Nil th by simp
  ultimately show ?thesis using move_counts(1) [OF invD(2) [OF i] th] by (simp add: sm_inv_def sm_counts_def)
next
  case (Cons t ts)
  then show ?thesis using pop_struct [OF invD(1) [OF i] Cons] w invD(2) [OF i]
    by (auto simp: sm_inv_def sm_counts_def)
qed

lemma try_ops:
  "sm_TryLock s = (b, s') \<Longrightarrow> b \<and> sm_Lock th s = Some (Returns True, s') \<or> \<not> b \<and> s' = s"
  "sm_TryLockShared s = (b, s') \<Longrightarrow> b \<and> sm_LockShared th s = Some (Returns True, s') \<or> \<not> b \<and> s' = s"
  by (auto simp: sm_TryLock_def sm_Lock_def sm_TryLockShared_def sm_LockShared_def split: if_splits)

lemma sm_step_inv: "sm_step x y \<Longrightarrow> sm_inv x \<Longrightarrow> sm_inv y"
proof (induction rule: sm_step.induct)
  case (lock pc th s r s')
  then show ?case using sm_Lock_inv [of s pc th] by auto
next
  case (try_lock pc th s b s')
  then show ?case using sm_Lock_inv [of s pc th] try_ops(1) [of s b s' th] by (auto simp: sm_after_def fun_upd_idem)
next
  case (unlock pc th s s')
  then show ?case using sm_Unlock_inv [of s pc th] by auto
next
  case (lock_shared pc th s r s')
  then show ?case using sm_LockShared_inv [of s pc th] by auto
next
  case (try_lock_shared pc th s b s')
  then show ?case using sm_LockShared_inv [of s pc th] try_ops(2) [of s b s' th] by (auto simp: sm_after_def fun_upd_idem)
next
  case (unlock_shared pc th s s')
  then show ?case using sm_UnlockShared_inv [of s pc th] by auto
next
  case (upgrade pc th s r s')
  then show ?case using sm_UpgradeLock_inv [of s pc th] by auto
next
  case (downgrade pc th s s')
  then show ?case using sm_DowngradeLock_inv [of s pc th] by auto
next
  case (wake pc th r s s')
  then show ?case using sm_wake_inv [of s pc th r True s'] by simp
next
  case (woken_all pc th r s s')
  then show ?case using sm_wake_inv [of s pc th r False s'] by simp
next
  case (resume s th pc p)
  then show ?case by (intro sm_resume_inv)
qed

lemma sm_reach_inv: "sm_reach x \<Longrightarrow> sm_inv x"
  by (induction rule: sm_reach.induct) (auto intro: sm_init_inv sm_step_inv)


text \<open>A thread that was given the lock and does not run yet is ready, or the queue of a thread that wakes holds it.\<close>

lemma given_moves:
  assumes st: "sm_struct (s, pc)" and w: "waiting (pc t)" and q: "t \<notin> set (sy_q s 0)" "t \<notin> set (sy_q s 1)"
  shows "sy_run s t = Ready \<or> (\<exists>u r. pc u = SWake r)"
proof (cases "sy_armed s t")
  case False
  then show ?thesis using structD(4) [OF st, of t] w by (simp add: run_of_def)
next
  case True
  then obtain p where p: "t \<in> set (sy_q s p)" using linksD(4) [OF structD(1) [OF st]] by blast
  then have "p \<noteq> 0" "p \<noteq> 1" using q by metis+
  then obtain u where "p = 2 + u" by (metis One_nat_def add_2_eq_Suc not0_implies_Suc)
  then show ?thesis using structD(3) [OF st, of u] p by (metis list.set_cases list.distinct(1))
qed

lemma someone_moves:
  assumes i: "sm_inv (s, pc)" and w: "waiting (pc t)"
  shows "\<exists>u. pc u = SRead \<or> pc u = SWrite \<or> pc u = SWake False \<or> pc u = SWake True \<or> sy_run s u = Ready"
proof -
  note st = invD(1) [OF i] and k = invD(2) [OF i]
  have W: ?thesis if "x \<in> writers pc (sy_q s 0)" for x
  proof -
    have "pc x = SWrite \<or> pc x = SWaitX \<and> x \<notin> set (sy_q s 0)" using that by (simp add: writers_def)
    then show ?thesis using given_moves [OF st, of x] invD(4) [OF i] by (metis sm_pc.distinct(25) waiting_def)
  qed
  have R: ?thesis if "x \<in> readers pc (sy_q s 1)" for x
  proof -
    have "pc x = SRead \<or> pc x = SWake True \<or> pc x = SWaitS \<and> x \<notin> set (sy_q s 1)" using that by (simp add: readers_def)
    then show ?thesis using given_moves [OF st, of x] invD(3) [OF i] by (metis sm_pc.distinct(25) waiting_def)
  qed
  have "?thesis" if "t \<in> set (sy_q s 0) \<or> t \<in> set (sy_q s 1)"
  proof (rule ccontr)
    assume "\<not> ?thesis"
    then have "writers pc (sy_q s 0) = {}" "readers pc (sy_q s 1) = {}" using W R by blast+
    then show False using k that by (auto simp: counts_def)
  qed
  then show ?thesis using given_moves [OF st w] by metis
qed

lemma free_nobody_waits:
  assumes i: "sm_inv (s, pc)" and c: "sm_cnt s = 0"
  shows "pc t = SIdle \<or> pc t = SWake False"
proof -
  note z = counts_no_writer [OF invD(2) [OF i]]
  have e: "writers pc (sy_q s 0) = {}" "readers pc (sy_q s 1) = {}" "sy_q s 1 = []" using z c by auto
  then have "sy_q s 0 = []" using invD(2) [OF i] by (simp add: counts_def)
  moreover have "t \<notin> writers pc (sy_q s 0)" "t \<notin> readers pc (sy_q s 1)" using e by auto
  ultimately show ?thesis using e(3) by (cases "pc t") (auto simp: writers_def readers_def)
qed

section \<open>Readers and writers\<close>

text \<open>C14: However the threads interleave that lock, try, unlock, upgrade and downgrade a shared mutex without
  being interrupted, a writer excludes every other writer and every reader, none of the assertions of the four releasing
  operations fails, a free lock has nobody waiting for it, and as long as a thread waits some thread holds
  the lock, is waking others or is ready to run.\<close>

theorem rwlock_exclusive:
  assumes "sm_reach (s, pc)"
  shows "(pc a = SWrite \<and> pc b = SWrite \<longrightarrow> a = b) \<and>
    (pc a = SWrite \<longrightarrow> pc b \<noteq> SRead \<and> pc b \<noteq> SWake True \<and> sm_Unlock a s \<noteq> None \<and> sm_DowngradeLock a s \<noteq> None) \<and>
    (pc a = SRead \<longrightarrow> sm_UnlockShared a s \<noteq> None \<and> sm_UpgradeLock a s \<noteq> None) \<and>
    (pc a = SIdle \<longrightarrow> sm_Lock a s \<noteq> None \<and> sm_LockShared a s \<noteq> None) \<and>
    (sm_cnt s = 0 \<longrightarrow> pc a = SIdle \<or> pc a = SWake False) \<and>
    (pc a = SWaitX \<or> pc a = SWaitS \<longrightarrow>
       (\<exists>u. pc u = SRead \<or> pc u = SWrite \<or> pc u = SWake False \<or> pc u = SWake True \<or> sy_run s u = Ready))"
proof -
  have i: "sm_inv (s, pc)" by (rule sm_reach_inv [OF assms])
  have x: "writers pc (sy_q s 0) = {a} \<and> readers pc (sy_q s 1) = {}" if "pc a = SWrite"
    using counts_writer [OF invD(2) [OF i], of a] that by (simp add: writers_def)
  have "pc a = SWrite \<and> pc b = SWrite \<longrightarrow> a = b" using x by (auto simp: writers_def)
  moreover have "pc a = SWrite \<longrightarrow> pc b \<noteq> SRead \<and> pc b \<noteq> SWake True" using x by (auto simp: readers_def)
  ultimately show ?thesis
    using sm_Unlock_inv [OF i, of a] sm_DowngradeLock_inv [OF i, of a] sm_UnlockShared_inv [OF i, of a] sm_UpgradeLock_inv [OF i, of a]
      sm_Lock_inv [OF i, of a] sm_LockShared_inv [OF i, of a] free_nobody_waits [OF i, of a] someone_moves [OF i, of a]
    by (auto simp: waiting_def)
qed


text \<open>Thread 0 reads, thread 1 waits to write, thread 0 unlocks and has yet to wake thread 1.\<close>

abbreviation lock_with :: "(nat \<Rightarrow> nat list) \<Rightarrow> (nat \<Rightarrow> bool) \<Rightarrow> (nat \<Rightarrow> run) \<Rightarrow> int \<Rightarrow> int \<Rightarrow> shared_mutex" where
  "lock_with q a r c n \<equiv> \<lparr>sy_q = q, sy_armed = a, sy_run = r, sm_cnt = c, sm_shared_cnt = n\<rparr>"

definition handing_over :: sm_state where
  "handing_over =
     (lock_with ((\<lambda>_. [])(2 := [1])) ((\<lambda>_. False)(1 := True)) ((\<lambda>_. Running)(1 := Parked False)) (- 1) 0,
      (\<lambda>_. SIdle)(0 := SWake False, 1 := SWaitX))"

lemmas sm_ops = sm_Lock_def sm_LockShared_def sm_Unlock_def sm_UnlockShared_def sm_InterruptibleLock_def
  sm_InterruptibleLockShared_def WaitNoRecheck_def WaitInterruptibleNoRecheck_def WakeAllShared_def WakeOneExclusive_def
  wq_Arm_def wq_Pop_def wq_Splice_def wq_WakeOne_def wq_Disarm_def list_del_def park_def ThreadReady_def

lemma sm_reach_to: "sm_reach x \<Longrightarrow> sm_step x y \<Longrightarrow> y = z \<Longrightarrow> sm_reach z"
  using sm_reach.step by blast

lemma handing_over_reached: "sm_reach handing_over"
proof -
  let ?pc = "(\<lambda>_. SIdle)(0 := SRead)" and ?n = "\<lambda>_. []" and ?q = "(\<lambda>_. [])(0 := [1])" and ?a = "(\<lambda>_. False)(1 := True)" and ?r = "(\<lambda>_. Running)(1 := Parked False)"
  have 1: "sm_reach (lock_with ?n (\<lambda>_. False) (\<lambda>_. Running) 1 0, ?pc)"
    by (rule sm_reach_to [OF sm_reach.start [unfolded sm_init_def] sm_step.lock_shared [of _ 0]])
      (auto simp: sm_ops sm_after_def)
  have 2: "sm_reach (lock_with ?q ?a ?r 1 0, ?pc(1 := SWaitX))"
    by (rule sm_reach_to [OF 1 sm_step.lock [of _ 1]]) (auto simp: sm_ops sm_after_def)
  show ?thesis unfolding handing_over_def
    by (rule sm_reach_to [OF 2 sm_step.unlock_shared [of _ 0]]) (auto simp: sm_ops fun_eq_iff)
qed

theorem rwlock_exclusive_witness:
  "sm_reach handing_over \<and> sm_cnt (fst handing_over) = - 1 \<and> snd handing_over 1 = SWaitX \<and>
   (\<exists>u. snd handing_over u = SRead \<or> snd handing_over u = SWrite \<or> snd handing_over u = SWake False \<or>
      snd handing_over u = SWake True \<or> sy_run (fst handing_over) u = Ready) \<and>
   sm_Lock 5 (fst handing_over) \<noteq> None"
proof -
  have "sm_reach (fst handing_over, snd handing_over)" using handing_over_reached by simp
  from rwlock_exclusive [OF this, of 1] rwlock_exclusive [OF this, of 5] show ?thesis
    using handing_over_reached by (simp add: handing_over_def)
qed

section \<open>Interrupted waits\<close>

text \<open>
  The interruptible operations as further steps: a signal makes an interruptibly parked thread go on, and the thread then takes
  itself off whatever queue it is in.
\<close>

inductive smi_step :: "sm_state \<Rightarrow> sm_state \<Rightarrow> bool" where
  plain: "sm_step x y \<Longrightarrow> smi_step x y"
| ilock: "pc th = SIdle \<Longrightarrow> sm_InterruptibleLock intr th s = Some (r, s') \<Longrightarrow>
    smi_step (s, pc) (s', pc(th := sm_after SWrite SWaitX r))"
| ilock_shared: "pc th = SIdle \<Longrightarrow> sm_InterruptibleLockShared intr th s = Some (r, s') \<Longrightarrow>
    smi_step (s, pc) (s', pc(th := sm_after SRead SWaitS r))"
| signal: "sy_run s th = Parked True \<Longrightarrow> smi_step (s, pc) (s\<lparr>sy_run := (sy_run s)(th := Signalled)\<rparr>, pc)"
| iresume: "sy_run s th = Signalled \<Longrightarrow> pc th = SWaitX \<and> p = SWrite \<or> pc th = SWaitS \<and> p = SRead \<Longrightarrow>
    WaitInterruptibleNoRecheck_resume True th (s\<lparr>sy_run := (sy_run s)(th := Running)\<rparr>) = (b, s') \<Longrightarrow>
    smi_step (s, pc) (s', pc(th := if b then p else SIdle))"

inductive smi_reach :: "sm_state \<Rightarrow> bool" where
  start: "smi_reach sm_init"
| step: "smi_reach x \<Longrightarrow> smi_step x y \<Longrightarrow> smi_reach y"

lemma smi_reach_to: "smi_reach x \<Longrightarrow> smi_step x y \<Longrightarrow> y = z \<Longrightarrow> smi_reach z"
  using smi_reach.step by blast

lemma interrupted_writer:
  "smi_reach (lock_with (\<lambda>_. []) (\<lambda>_. False) (\<lambda>_. Running) (- 1) 0, \<lambda>_. SIdle)"
proof -
  let ?pc = "(\<lambda>_. SIdle)(0 := SWrite)" and ?n = "\<lambda>_. []" and ?q = "(\<lambda>_. [])(0 := [1])" and ?q2 = "(\<lambda>_. [])(2 := [1])"
    and ?a = "(\<lambda>_. False)(1 := True)" and ?r = "(\<lambda>_. Running)(1 := Parked True)" and ?g = "(\<lambda>_. Running)(1 := Signalled)"
    and ?wk = "(\<lambda>_. SIdle)(0 := SWake False, 1 := SWaitX)"
  have 1: "smi_reach (lock_with ?n (\<lambda>_. False) (\<lambda>_. Running) (- 1) 0, ?pc)"
    by (rule smi_reach_to [OF smi_reach.start [unfolded sm_init_def] plain [OF sm_step.lock [of _ 0]]])
      (auto simp: sm_ops sm_after_def)
  have 2: "smi_reach (lock_with ?q ?a ?r (- 1) 0, ?pc(1 := SWaitX))"
    by (rule smi_reach_to [OF 1 ilock [of _ 1 False]]) (auto simp: sm_ops sm_after_def)
  have 3: "smi_reach (lock_with ?q2 ?a ?r (- 1) 0, ?wk)"
    by (rule smi_reach_to [OF 2 plain [OF sm_step.unlock [of _ 0]]]) (auto simp: sm_ops fun_eq_iff)
  have 4: "smi_reach (lock_with ?q2 ?a ?g (- 1) 0, ?wk)"
    by (rule smi_reach_to [OF 3 signal [of _ 1]]) simp_all
  have 5: "smi_reach (lock_with ?n (\<lambda>_. False) (\<lambda>_. Running) (- 1) 0, ?wk(1 := SIdle))"
    by (rule smi_reach_to [OF 4 iresume [of _ 1 _ SWrite]])
      (auto simp: WaitInterruptibleNoRecheck_resume_def sm_ops fun_eq_iff)
  show ?thesis
    by (rule smi_reach_to [OF 5 plain [OF sm_step.woken_all [of _ 0 False]]]) (auto simp: sm_ops fun_eq_iff)
qed


lemma interrupted_reader:
  "smi_reach (lock_with (\<lambda>_. []) (\<lambda>_. False) (\<lambda>_. Running) 1 0, \<lambda>_. SIdle)"
proof -
  let ?n = "\<lambda>_. []" and ?f = "\<lambda>_. False" and ?run = "\<lambda>_. Running" and ?a = "(\<lambda>_. False)(2 := True)"
    and ?r = "(\<lambda>_. Running)(2 := Parked False)" and ?rd = "(\<lambda>_. Running)(2 := Ready)"
    and ?wk = "(\<lambda>_. SIdle)(0 := SWake False, 2 := SWaitS)"
  have 1: "smi_reach (lock_with ?n ?f ?run (- 1) 0, (\<lambda>_. SIdle)(0 := SWrite))"
    by (rule smi_reach_to [OF smi_reach.start [unfolded sm_init_def] plain [OF sm_step.lock [of _ 0]]])
      (auto simp: sm_ops sm_after_def)
  have 2: "smi_reach (lock_with ?n ?f ?run (- 1) 1, (\<lambda>_. SIdle)(0 := SWrite))"
    by (rule smi_reach_to [OF 1 ilock_shared [of _ 1 True]]) (auto simp: sm_ops sm_after_def)
  have 3: "smi_reach (lock_with ((\<lambda>_. [])(1 := [2])) ?a ?r (- 1) 2, (\<lambda>_. SIdle)(0 := SWrite, 2 := SWaitS))"
    by (rule smi_reach_to [OF 2 plain [OF sm_step.lock_shared [of _ 2]]]) (auto simp: sm_ops sm_after_def)
  have 4: "smi_reach (lock_with ((\<lambda>_. [])(2 := [2])) ?a ?r 2 0, ?wk)"
    by (rule smi_reach_to [OF 3 plain [OF sm_step.unlock [of _ 0]]]) (auto simp: sm_ops fun_eq_iff)
  have 5: "smi_reach (lock_with ?n ?f ?rd 2 0, ?wk)"
    by (rule smi_reach_to [OF 4 plain [OF sm_step.wake [of _ 0 False]]]) (auto simp: sm_ops fun_eq_iff)
  have 6: "smi_reach (lock_with ?n ?f ?rd 2 0, (\<lambda>_. SIdle)(2 := SWaitS))"
    by (rule smi_reach_to [OF 5 plain [OF sm_step.woken_all [of _ 0 False]]]) (auto simp: sm_ops fun_eq_iff)
  have 7: "smi_reach (lock_with ?n ?f ?run 2 0, (\<lambda>_. SIdle)(2 := SRead))"
    by (rule smi_reach_to [OF 6 plain [OF sm_step.resume [of _ 2 _ SRead]]]) (auto simp: fun_eq_iff)
  have 8: "smi_reach (lock_with ?n ?f ?run 1 0, (\<lambda>_. SIdle)(2 := SWake False))"
    by (rule smi_reach_to [OF 7 plain [OF sm_step.unlock_shared [of _ 2]]]) (auto simp: sm_ops fun_eq_iff)
  show ?thesis
    by (rule smi_reach_to [OF 8 plain [OF sm_step.woken_all [of _ 2 False]]]) (auto simp: sm_ops fun_eq_iff)
qed


end
