(* ===== verification/Sigframe.thy ===== *)
theory Sigframe
  imports Signal IoVec Bits
begin

text \<open>
  Trap frames and signal frames: \<^verbatim>\<open>src/junction/kernel/sigframe.h\<close>, \<^verbatim>\<open>src/junction/kernel/sigframe.cc\<close>,
  \<^verbatim>\<open>src/junction/kernel/trapframe.h\<close>, \<^verbatim>\<open>src/junction/kernel/trapframe.cc\<close>, the stack helpers of
  \<^verbatim>\<open>src/junction/bindings/stack.h\<close> and the frame operations of \<^verbatim>\<open>src/junction/kernel/signal.cc\<close>.

  Memory is a function from addresses to bytes.  The layouts of \<open>k_sigframe\<close> and \<open>JunctionSigframe\<close> are those of the
  sources; the layout of the runtime's register frame \<open>thread_tf\<close>, the bytes of a \<open>siginfo_t\<close>, the size of an object that
  wraps a frame and the alignment and size of an area of extended state are parameters.
\<close>

section \<open>Memory\<close>

type_synonym memory = "u64 \<Rightarrow> byte"

definition store :: "u64 \<Rightarrow> byte list \<Rightarrow> memory \<Rightarrow> memory" where
  "store a bs m = (\<lambda>x. if unat (x - a) < length bs then bs ! unat (x - a) else m x)"

definition fetch :: "u64 \<Rightarrow> nat \<Rightarrow> memory \<Rightarrow> byte list" where
  "fetch a n m = map (\<lambda>i. m (a + of_nat i)) [0 ..< n]"

definition store64 :: "u64 \<Rightarrow> u64 \<Rightarrow> memory \<Rightarrow> memory" where
  "store64 a v = store a (le_enc 8 (unat v))"

definition store32 :: "u64 \<Rightarrow> u32 \<Rightarrow> memory \<Rightarrow> memory" where
  "store32 a v = store a (le_enc 4 (unat v))"

definition fetch64 :: "u64 \<Rightarrow> memory \<Rightarrow> u64" where
  "fetch64 a m = of_nat (le_nat (fetch a 8 m))"

definition fetch32 :: "u64 \<Rightarrow> memory \<Rightarrow> u32" where
  "fetch32 a m = of_nat (le_nat (fetch a 4 m))"

section \<open>Layouts\<close>

text \<open>The registers that the sources name, and the rest.\<close>

record thread_tf =
  tf_rdi :: u64
  tf_rsi :: u64
  tf_rdx :: u64
  tf_rax :: u64
  tf_rsp :: u64
  tf_rip :: u64
  tf_rflags :: u64
  tf_xsave_area :: u64
  tf_orig_rax :: u64
  tf_others :: "u64 list"

record layout =
  ly_tf_size :: nat
  ly_tf_enc :: "thread_tf \<Rightarrow> byte list"
  ly_tf_dec :: "byte list \<Rightarrow> thread_tf"
  ly_others :: nat
  ly_si_enc :: "siginfo \<Rightarrow> byte list"
  ly_wrap :: nat
  ly_xalign :: nat
  ly_GetXSaveSize :: "byte list \<Rightarrow> nat"

text \<open>
  The globals of \<open>InitXsave\<close>, and of the running thread the address and use of its own area for extended state and the
  bounds of its stack for system calls.
\<close>

record frame_env = layout +
  xsave_enabled_bitmap :: u64
  xsave_max_sizes :: "u32 list"
  th_xsave_area :: u64
  xsave_area_in_use :: bool
  xsave_area_size :: nat
  sys_top :: u64
  sys_bottom :: u64
  sys_rsp :: u64

abbreviation xalign :: "frame_env \<Rightarrow> u64" where
  "xalign E \<equiv> of_nat (2 ^ ly_xalign E)"

text \<open>Offsets in \<open>k_sigframe\<close>.\<close>

definition k_size :: nat where "k_size = 440"
definition k_uc :: u64 where "k_uc = 8"
definition k_uc_flags :: u64 where "k_uc_flags = 8"
definition k_uc_link :: u64 where "k_uc_link = 16"
definition k_ss_sp :: u64 where "k_ss_sp = 24"
definition k_ss_flags :: u64 where "k_ss_flags = 32"
definition k_ss_size :: u64 where "k_ss_size = 40"
definition k_rax :: u64 where "k_rax = 152"
definition k_rsp :: u64 where "k_rsp = 168"
definition k_rip :: u64 where "k_rip = 176"
definition k_trapno :: u64 where "k_trapno = 208"
definition k_fpstate :: u64 where "k_fpstate = 232"
definition k_mask :: u64 where "k_mask = 304"
definition k_info :: u64 where "k_info = 312"
definition siginfo_size :: nat where "siginfo_size = 128"
definition jframe_size :: nat where "jframe_size = 32"

lemmas k_offsets = k_size_def k_uc_def k_uc_flags_def k_uc_link_def k_ss_sp_def k_ss_flags_def k_ss_size_def k_rax_def
  k_rsp_def k_rip_def k_trapno_def k_fpstate_def k_mask_def k_info_def siginfo_size_def jframe_size_def

definition kUCFpXstate :: u64 where "kUCFpXstate = 1"
definition kFpXstateMagic1 :: u32 where "kFpXstateMagic1 = 0x46505853"
definition kFpXstateMagic2 :: u32 where "kFpXstateMagic2 = 0x46505845"
definition kJunctionFrameMagic :: u64 where "kJunctionFrameMagic = 0x696e63656e64696f"
definition kStackAlign :: u64 where "kStackAlign = 16"
definition kRedzoneSize :: u64 where "kRedzoneSize = 128"

text \<open>Linux keeps its description of the saved state in the reserved bytes of the legacy area, at byte 464.\<close>

definition fpx_magic1 :: "u64 \<Rightarrow> memory \<Rightarrow> u32" where "fpx_magic1 xs = fetch32 (xs + 464)"
definition fpx_extended_size :: "u64 \<Rightarrow> memory \<Rightarrow> nat" where "fpx_extended_size xs m = unat (fetch32 (xs + 468) m)"
definition fpx_xstate_size :: "u64 \<Rightarrow> memory \<Rightarrow> nat" where "fpx_xstate_size xs m = unat (fetch32 (xs + 480) m)"

definition put_stack_t :: "u64 \<Rightarrow> stack_t \<Rightarrow> memory \<Rightarrow> memory" where
  "put_stack_t k ss = store64 (k + k_ss_size) (ss_size ss) \<circ> store32 (k + k_ss_flags) (ss_flags ss) \<circ> store64 (k + k_ss_sp) (ss_sp ss)"

definition get_stack_t :: "u64 \<Rightarrow> memory \<Rightarrow> stack_t" where
  "get_stack_t k m = \<lparr>ss_sp = fetch64 (k + k_ss_sp) m, ss_flags = fetch32 (k + k_ss_flags) m, ss_size = fetch64 (k + k_ss_size) m\<rparr>"

definition get_tf :: "frame_env \<Rightarrow> u64 \<Rightarrow> memory \<Rightarrow> thread_tf" where
  "get_tf E a m = ly_tf_dec E (fetch a (ly_tf_size E) m)"

definition put_tf :: "frame_env \<Rightarrow> u64 \<Rightarrow> thread_tf \<Rightarrow> memory \<Rightarrow> memory" where
  "put_tf E a t = store a (ly_tf_enc E t)"

section \<open>Operations\<close>

definition AllocateOnStack :: "nat \<Rightarrow> u64 \<Rightarrow> u64 \<Rightarrow> u64 option" where
  "AllocateOnStack n align rsp =
     (if rsp mod 8 \<noteq> 0 then None
      else Some (if align > 8 then AlignDown (rsp - of_nat n) align else rsp - of_nat n))"

definition PushToStack :: "nat \<Rightarrow> u64 \<Rightarrow> u64 \<Rightarrow> byte list \<Rightarrow> memory \<Rightarrow> (u64 \<times> memory) option" where
  "PushToStack n align rsp src m = map_option (\<lambda>a. (a, store a src m)) (AllocateOnStack n align rsp)"

definition AlignForFunctionEntry :: "u64 \<Rightarrow> u64" where
  "AlignForFunctionEntry val = ((val - 8) AND NOT 15) OR 8"

text \<open>The index of the highest bit that is set, of a word that is not zero.\<close>

definition msb_index :: "u64 \<Rightarrow> nat" where
  "msb_index w = fold (\<lambda>i k. if bit w i then i else k) [0 ..< 64] 0"

definition GetXsaveAreaSize_features :: "frame_env \<Rightarrow> u64 \<Rightarrow> nat option" where
  "GetXsaveAreaSize_features E features =
     (if xsave_enabled_bitmap E = 0 then None
      else let i = (if features = 0 then 0 else msb_index features) in
           if i < length (xsave_max_sizes E) then Some (unat (xsave_max_sizes E ! i)) else None)"

text \<open>\<open>xcomp_bv\<close> is the second word of the header that follows the legacy area of 512 bytes.\<close>

definition GetXsaveAreaSize :: "frame_env \<Rightarrow> u64 \<Rightarrow> memory \<Rightarrow> nat option" where
  "GetXsaveAreaSize E xs m =
     (let bv = fetch64 (xs + 520) m in
      if bit bv 63 then GetXsaveAreaSize_features E (bv AND NOT (push_bit 63 1))
      else GetXsaveAreaSize_features E (xsave_enabled_bitmap E))"

definition CopyXstateToStack :: "frame_env \<Rightarrow> u64 \<Rightarrow> u64 \<Rightarrow> memory \<Rightarrow> (u64 \<times> memory) option" where
  "CopyXstateToStack E k rsp m =
     (if fetch64 (k + k_uc_flags) m AND kUCFpXstate = 0 then None
      else let xs = fetch64 (k + k_fpstate) m in
        if fpx_magic1 xs m \<noteq> kFpXstateMagic1 then None
        else if fetch32 (xs + of_nat (fpx_xstate_size xs m)) m \<noteq> kFpXstateMagic2 then None
        else let n = fpx_extended_size xs m;
                 rsp' = AlignDown (rsp - of_nat n) (xalign E)
             in Some (rsp', store rsp' (fetch xs n m) m))"

definition k_CopyToStack_at :: "u64 \<Rightarrow> u64 \<Rightarrow> u64 \<Rightarrow> memory \<Rightarrow> (u64 \<times> memory) option" where
  "k_CopyToStack_at k rsp fx_buf m =
     map_option (\<lambda>(a, m'). (a, store64 (a + k_fpstate) fx_buf m')) (PushToStack k_size 8 rsp (fetch k k_size m) m)"

definition k_CopyToStack :: "frame_env \<Rightarrow> u64 \<Rightarrow> u64 \<Rightarrow> memory \<Rightarrow> (u64 \<times> memory) option" where
  "k_CopyToStack E k rsp m =
     Option.bind (CopyXstateToStack E k rsp m) (\<lambda>(fx_buf, m'). k_CopyToStack_at k fx_buf fx_buf m')"

text \<open>The two ways of copying a register frame differ in the size of the area, the alignment of the frame and in that an
  interrupt frame does not copy the thread's own area.\<close>

definition push_tf :: "frame_env \<Rightarrow> u64 \<Rightarrow> byte list \<Rightarrow> u64 \<Rightarrow> u64 \<Rightarrow> memory \<Rightarrow> (u64 \<times> memory) option" where
  "push_tf E align tf rsp new_xarea m =
     map_option (\<lambda>(a, m'). (a, put_tf E a ((get_tf E a m')\<lparr>tf_xsave_area := new_xarea\<rparr>) m')) (PushToStack (ly_tf_size E) align rsp tf m)"

definition CopyRawToStack :: "frame_env \<Rightarrow> u64 \<Rightarrow> u64 \<Rightarrow> memory \<Rightarrow> (u64 \<times> memory) option" where
  "CopyRawToStack E tf rsp m =
     (let xa = tf_xsave_area (get_tf E tf m) in
      Option.bind
        (if xa \<noteq> 0 then
           map_option (\<lambda>len. let rsp' = AlignDown (rsp - of_nat len) (xalign E) in (rsp', rsp', store rsp' (fetch xa len m) m))
             (GetXsaveAreaSize E xa m)
         else Some (rsp, 0, m))
        (\<lambda>(rsp1, new_xarea, m1). push_tf E kStackAlign (fetch tf (ly_tf_size E) m1) rsp1 new_xarea m1))"

definition u_CopyToStack :: "frame_env \<Rightarrow> u64 \<Rightarrow> u64 \<Rightarrow> memory \<Rightarrow> (u64 \<times> memory) option" where
  "u_CopyToStack E tf rsp m =
     (let xa = tf_xsave_area (get_tf E tf m) in
      Option.bind
        (if xa \<noteq> 0 then
           if xa = th_xsave_area E then if xsave_area_in_use E then Some (rsp, xa, m) else None
           else let len = ly_GetXSaveSize E (fetch xa 576 m);
                    rsp' = AlignDown (rsp - of_nat len) (xalign E)
                in Some (rsp', rsp', store rsp' (fetch xa len m) m)
         else Some (rsp, 0, m))
        (\<lambda>(rsp1, new_xarea, m1). push_tf E 8 (fetch tf (ly_tf_size E) m1) rsp1 new_xarea m1))"

text \<open>A trap frame refers to a frame in memory.\<close>

datatype Trapframe = KernelSignalTf u64 | UintrTf u64 | FunctionCallTf u64

fun sigframe_type :: "Trapframe \<Rightarrow> u64" where
  "sigframe_type (KernelSignalTf _) = 0"
| "sigframe_type (UintrTf _) = 1"
| "sigframe_type (FunctionCallTf _) = 2"

fun tf_addr :: "Trapframe \<Rightarrow> u64" where
  "tf_addr (KernelSignalTf a) = a"
| "tf_addr (UintrTf a) = a"
| "tf_addr (FunctionCallTf a) = a"

fun CopyFrame :: "frame_env \<Rightarrow> Trapframe \<Rightarrow> u64 \<Rightarrow> memory \<Rightarrow> (Trapframe \<times> memory) option" where
  "CopyFrame E (KernelSignalTf a) rsp m = map_option (\<lambda>(b, m'). (KernelSignalTf b, m')) (k_CopyToStack E a rsp m)"
| "CopyFrame E (UintrTf a) rsp m = map_option (\<lambda>(b, m'). (UintrTf b, m')) (u_CopyToStack E a rsp m)"
| "CopyFrame E (FunctionCallTf a) rsp m = map_option (\<lambda>(b, m'). (FunctionCallTf b, m')) (CopyRawToStack E a rsp m)"

definition put_jframe :: "u64 \<Rightarrow> Trapframe \<Rightarrow> memory \<Rightarrow> memory" where
  "put_jframe j tf = store64 (j + 16) kJunctionFrameMagic \<circ> store64 (j + 8) (tf_addr tf) \<circ> store64 j (sigframe_type tf)"

definition CloneSigframe :: "frame_env \<Rightarrow> Trapframe \<Rightarrow> u64 \<Rightarrow> memory \<Rightarrow> (u64 \<times> memory) option" where
  "CloneSigframe E tf rsp m =
     Option.bind (CopyFrame E tf rsp m) (\<lambda>(tf', m').
       map_option (\<lambda>j. (j, put_jframe j tf' m')) (AllocateOnStack jframe_size 16 (tf_addr tf')))"

text \<open>\<open>CloneTo\<close> also returns where the object that wraps the frame lies.\<close>

definition CloneTo :: "frame_env \<Rightarrow> Trapframe \<Rightarrow> u64 \<Rightarrow> memory \<Rightarrow> (u64 \<times> Trapframe \<times> memory) option" where
  "CloneTo E tf rsp m =
     Option.bind (AllocateOnStack (ly_wrap E) 8 rsp) (\<lambda>w. map_option (Pair w) (CopyFrame E tf w m))"

definition get_jframe :: "u64 \<Rightarrow> memory \<Rightarrow> Trapframe option" where
  "get_jframe j m =
     (let t = fetch64 j m; a = fetch64 (j + 8) m in
      if t = 0 then Some (KernelSignalTf a) else if t = 1 then Some (UintrTf a)
      else if t = 2 then Some (FunctionCallTf a) else None)"


section \<open>Signal delivery\<close>

fun GetRsp :: "frame_env \<Rightarrow> Trapframe \<Rightarrow> memory \<Rightarrow> u64" where
  "GetRsp E (KernelSignalTf a) m = fetch64 (a + k_rsp) m"
| "GetRsp E (UintrTf a) m = tf_rsp (get_tf E a m)"
| "GetRsp E (FunctionCallTf a) m = tf_rsp (get_tf E a m)"

definition NewThreadTf :: "frame_env \<Rightarrow> u64 \<Rightarrow> memory \<Rightarrow> memory" where
  "NewThreadTf E a m = put_tf E a ((get_tf E a m)\<lparr>tf_rflags := 0, tf_xsave_area := 0, tf_orig_rax := - 1\<rparr>) m"

definition fake_kframe :: "u64 \<Rightarrow> DeliveredSignal \<Rightarrow> memory \<Rightarrow> memory" where
  "fake_kframe k sig =
     store64 (k + k_fpstate) 0 \<circ> store64 (k + k_mask) (ds_prev_blocked sig) \<circ> put_stack_t k (ds_ss sig) \<circ>
     store64 (k + k_uc_link) 0 \<circ> store64 (k + k_uc_flags) 0 \<circ> store64 k (restorer (ds_act sig))"

definition handler_tf :: "DeliveredSignal \<Rightarrow> u64 \<Rightarrow> u64 \<Rightarrow> thread_tf \<Rightarrow> thread_tf" where
  "handler_tf sig k info t =
     t\<lparr>tf_rsp := k, tf_rip := handler (ds_act sig), tf_rdi := of_int (si_signo (ds_info sig)), tf_rsi := info, tf_rdx := k + k_uc\<rparr>"

definition PushUserSigFrame ::
    "frame_env \<Rightarrow> DeliveredSignal \<Rightarrow> u64 \<Rightarrow> Trapframe \<Rightarrow> u64 \<Rightarrow> memory \<Rightarrow> (u64 \<times> memory) option" where
  "PushUserSigFrame E sig rsp prev_frame new_frame m =
     Option.bind (PushToStack siginfo_size 8 (FixRspAltstack sig rsp) (ly_si_enc E (ds_info sig)) m) (\<lambda>(info, m1).
     Option.bind (CloneSigframe E prev_frame info m1) (\<lambda>(j, m2).
     Option.bind (AllocateOnStack k_size 8 j) (\<lambda>k.
       let m3 = fake_kframe k sig m2 in
       if k mod 16 \<noteq> 8 then None
       else Some (k, put_tf E new_frame (handler_tf sig k info (get_tf E new_frame m3)) m3))))"

text \<open>The signals that are found one after the other; every frame but the first one saves the entry of the previous handler.\<close>

fun push_frames :: "frame_env \<Rightarrow> Trapframe \<Rightarrow> DeliveredSignal list \<Rightarrow> u64 \<Rightarrow> u64 \<Rightarrow> memory \<Rightarrow> (u64 \<times> memory) option" where
  "push_frames E prev [] rsp new_frame m = Some (rsp, m)"
| "push_frames E prev (d # ds) rsp new_frame m =
     Option.bind (PushUserSigFrame E d rsp prev new_frame m) (\<lambda>(rsp', m').
       push_frames E (FunctionCallTf new_frame) ds rsp' new_frame m')"

definition RewindIndirectSystemCall :: "u64 \<Rightarrow> memory \<Rightarrow> u64 option" where
  "RewindIndirectSystemCall rip m =
     (let is_reg_operand = (m (rip - 2) = 0xff);
          is_imm_operand = (fetch (rip - 7) 3 m = [0xff, 0x14, 0x25])
      in if is_reg_operand then None else if is_imm_operand = is_reg_operand then None else Some (rip - 7))"

fun GetOrigRax :: "frame_env \<Rightarrow> Trapframe \<Rightarrow> memory \<Rightarrow> u64" where
  "GetOrigRax E (KernelSignalTf a) m = fetch64 (a + k_trapno) m"
| "GetOrigRax E (UintrTf a) m = tf_orig_rax (get_tf E a m)"
| "GetOrigRax E (FunctionCallTf a) m = tf_orig_rax (get_tf E a m)"

fun SetRax :: "frame_env \<Rightarrow> Trapframe \<Rightarrow> u64 \<Rightarrow> u64 option \<Rightarrow> memory \<Rightarrow> memory" where
  "SetRax E (KernelSignalTf a) rax rsp m =
     (let m1 = store64 (a + k_rax) rax m in case rsp of None \<Rightarrow> m1 | Some r \<Rightarrow> store64 (a + k_rsp) r m1)"
| "SetRax E (UintrTf a) rax rsp m = m"
| "SetRax E (FunctionCallTf a) rax rsp m =
     put_tf E a (let t = (get_tf E a m)\<lparr>tf_rax := rax\<rparr> in case rsp of None \<Rightarrow> t | Some r \<Rightarrow> t\<lparr>tf_rsp := r\<rparr>) m"

text \<open>Only the two kinds of system call frames are reset or given a result.\<close>

fun tf_ResetToSyscallStart :: "frame_env \<Rightarrow> Trapframe \<Rightarrow> memory \<Rightarrow> memory option" where
  "tf_ResetToSyscallStart E (KernelSignalTf a) m =
     (let m1 = store64 (a + k_rip) (fetch64 (a + k_rip) m - 2) m in
      Some (store64 (a + k_rax) (fetch64 (a + k_trapno) m1) m1))"
| "tf_ResetToSyscallStart E (UintrTf a) m = None"
| "tf_ResetToSyscallStart E (FunctionCallTf a) m =
     map_option (\<lambda>rip. put_tf E a ((get_tf E a m)\<lparr>tf_rip := rip, tf_rax := tf_orig_rax (get_tf E a m)\<rparr>) m)
       (RewindIndirectSystemCall (tf_rip (get_tf E a m)) m)"

definition apply_restart :: "frame_env \<Rightarrow> Trapframe \<Rightarrow> restart_action option \<Rightarrow> memory \<Rightarrow> memory option" where
  "apply_restart E entry act m =
     (case act of
        None \<Rightarrow> Some m
      | Some SetRaxEINTR \<Rightarrow> Some (SetRax E entry (- of_int EINTR) None m)
      | Some ResetToSyscallStart \<Rightarrow> tf_ResetToSyscallStart E entry m)"

text \<open>The part of \<open>DeliverSignals\<close> that runs the handlers \<open>ds\<close>; \<open>sighand\<close> is the address of the local frame on the stack for system
  calls.\<close>

definition run_handlers ::
    "frame_env \<Rightarrow> restart_action option \<Rightarrow> Trapframe \<Rightarrow> DeliveredSignal list \<Rightarrow> u64 \<Rightarrow> memory \<Rightarrow> (u64 \<times> memory) option" where
  "run_handlers E act entry ds sighand m =
     Option.bind (apply_restart E entry act m) (\<lambda>m1.
       push_frames E entry ds (GetRsp E entry m1 - max kRedzoneSize (of_nat (2 * ly_tf_size E))) sighand (NewThreadTf E sighand m1))"

section \<open>Return from a handler\<close>

datatype unwinder = kframe_unwind_loop | fncall_return_exit_loop | UintrLoopReturn

record unwind_tf =
  un_rip :: unwinder
  un_rsp :: u64
  un_rdi :: u64

definition rsp_on_syscall_stack :: "frame_env \<Rightarrow> u64 \<Rightarrow> bool" where
  "rsp_on_syscall_stack E rsp = IsOnStack rsp (sys_top E) (sys_bottom E)"

text \<open>The assertions of \<open>SetTrapframe\<close> and of \<open>ReplaceEntryRegs\<close>, for a frame that is not yet the entry frame.\<close>

definition SetTrapframe_ok :: "frame_env \<Rightarrow> u64 \<Rightarrow> Trapframe \<Rightarrow> memory \<Rightarrow> bool" where
  "SetTrapframe_ok E w tf m \<longleftrightarrow> rsp_on_syscall_stack E w \<and> \<not> rsp_on_syscall_stack E (GetRsp E tf m)"

definition ReplaceEntryRegs_ok :: "frame_env \<Rightarrow> u64 \<Rightarrow> bool" where
  "ReplaceEntryRegs_ok E a \<longleftrightarrow> rsp_on_syscall_stack E a \<and> a mod kStackAlign = 0"

fun MakeUnwinderSysret :: "frame_env \<Rightarrow> u64 \<Rightarrow> Trapframe \<Rightarrow> memory \<Rightarrow> unwind_tf option" where
  "MakeUnwinderSysret E w (KernelSignalTf a) m =
     (if \<not> SetTrapframe_ok E w (KernelSignalTf a) m then None
      else if (a + k_uc) mod kStackAlign \<noteq> 0 then None
      else Some \<lparr>un_rip = kframe_unwind_loop, un_rsp = a + k_uc,
                 un_rdi = (if fetch64 (a + k_trapno) m \<noteq> - 1 then fetch64 (a + k_rax) m else 0)\<rparr>)"
| "MakeUnwinderSysret E w (UintrTf a) m =
     (if \<not> SetTrapframe_ok E w (UintrTf a) m then None
      else Some \<lparr>un_rip = UintrLoopReturn, un_rsp = AlignForFunctionEntry a, un_rdi = w\<rparr>)"
| "MakeUnwinderSysret E w (FunctionCallTf a) m =
     (if \<not> ReplaceEntryRegs_ok E a then None
      else Some \<lparr>un_rip = fncall_return_exit_loop, un_rsp = a,
                 un_rdi = (let t = get_tf E a m in if tf_orig_rax t \<noteq> - 1 then tf_rax t else 0)\<rparr>)"

datatype sigreturn = SigAbort | SigResume Trapframe unwind_tf ThreadSignalHandler memory

definition usys_rt_sigreturn_finish ::
    "frame_env \<Rightarrow> SignalQueue \<Rightarrow> ThreadSignalHandler \<Rightarrow> u64 \<Rightarrow> memory \<Rightarrow> sigreturn option" where
  "usys_rt_sigreturn_finish E sh h rsp m =
     (if rsp mod 16 \<noteq> 0 then None
      else let k = rsp - 8; j = rsp - 8 + of_nat k_size in
        if fetch64 (j + 16) m \<noteq> kJunctionFrameMagic then Some SigAbort
        else let h' = snd (SigAltStack (Some (get_stack_t k m)) (ReplaceMask sh (fetch64 (k + k_mask) m) h)) in
          Option.bind (get_jframe j m) (\<lambda>tf.
          Option.bind (CloneTo E tf (sys_rsp E) m) (\<lambda>(w, tf', m').
            map_option (\<lambda>u. SigResume tf' u h' m') (MakeUnwinderSysret E w tf' m'))))"

section \<open>Faults\<close>

definition PushUserVisibleFrame :: "frame_env \<Rightarrow> u64 \<Rightarrow> u64 \<Rightarrow> memory \<Rightarrow> (u64 \<times> memory) option" where
  "PushUserVisibleFrame E k rsp m =
     Option.bind (CopyXstateToStack E k rsp m) (\<lambda>(fx_buf, m1).
     Option.bind (AllocateOnStack jframe_size 16 fx_buf) (\<lambda>j.
       let m2 = store64 (j + 16) kJunctionFrameMagic m1 in
       map_option (\<lambda>(n, m3). (n, store64 (j + 8) n (store64 j 0 m3))) (k_CopyToStack_at k j fx_buf m2)))"

definition CreateOnSyscallStack :: "frame_env \<Rightarrow> memory \<Rightarrow> (u64 \<times> memory) option" where
  "CreateOnSyscallStack E m =
     Option.bind (AllocateOnStack (ly_wrap E) 8 (sys_rsp E)) (\<lambda>w.
       map_option (\<lambda>a. (a, NewThreadTf E a m)) (AllocateOnStack ((ly_tf_size E + 15) div 16 * 16) 16 w))"

datatype kernel_sig = SynchronousKill | RunHandler u64 u64 ThreadSignalHandler memory

text \<open>What follows the choice of the action \<open>tmp\<close>; \<open>kill\<close> is the address of the handler that ends the process.\<close>

definition run_kernel_sig ::
    "frame_env \<Rightarrow> uintptr \<Rightarrow> SignalQueue \<Rightarrow> int \<Rightarrow> k_sigaction option \<Rightarrow> u64 \<Rightarrow> ThreadSignalHandler \<Rightarrow> memory \<Rightarrow> kernel_sig option" where
  "run_kernel_sig E kill sh signo tmp k h m =
     (case tmp of
        None \<Rightarrow> Some SynchronousKill
      | Some act \<Rightarrow>
          if handler act = kill then Some SynchronousKill
          else
            let rsp0 = fetch64 (k + k_rsp) m - kRedzoneSize;
                ss = sigaltstack h;
                rsp = (if wants_altstack act \<and> has_altstack h \<and> \<not> IsOnSigStack rsp0 ss then ss_sp ss + ss_size ss else rsp0)
            in Option.bind (PushUserVisibleFrame E k rsp m) (\<lambda>(n, m1).
                 let m2 = put_stack_t n ss (store64 n (restorer act) m1);
                     h1 = (if ss_flags ss AND kSigStackAutoDisarm \<noteq> 0 then DisableAltStack h else h);
                     (r, old, h2) = SigProcMask sh SIG_BLOCK (Some (sa_mask act)) h1;
                     m3 = store64 (n + k_mask) old m2
                 in Option.bind (CreateOnSyscallStack E m3) (\<lambda>(a, m4).
                      let m5 = put_tf E a ((get_tf E a m4)\<lparr>tf_rsp := n, tf_rip := handler act, tf_rdi := of_int signo,
                                 tf_rsi := n + k_info, tf_rdx := n + k_uc\<rparr>) m4
                      in if ReplaceEntryRegs_ok E a then Some (RunHandler a n h2 m5) else None)))"

definition DeliverKernelSigToUser ::
    "frame_env \<Rightarrow> uintptr \<Rightarrow> int \<Rightarrow> int \<Rightarrow> u64 \<Rightarrow> SigProcess \<Rightarrow> memory \<Rightarrow> (kernel_sig \<times> SigProcess) option" where
  "DeliverKernelSigToUser E kill tid signo k P m =
     Option.bind (threads P tid) (\<lambda>h.
       let (tmp, P1) = (if \<not> is_sig_blocked signo h then GetAction kill signo P else (None, P))
       in Option.bind (threads P1 tid) (\<lambda>h1.
            map_option (\<lambda>r. case r of SynchronousKill \<Rightarrow> (r, P1) | RunHandler a n h2 m' \<Rightarrow> (r, th_map tid (\<lambda>_. h2) P1))
              (run_kernel_sig E kill (shared_q P1) signo tmp k h1 m)))"


section \<open>Sizes of areas of extended state\<close>

text \<open>
  \<open>cpuid\<close> answers the eax and ecx registers for a component of extended state, \<open>max_size\<close> is the size of an area with all components and
  \<open>n\<close> the number of components of the table.  The result is the bitmap and the table, or nothing if the processor cannot save extended state.
\<close>

fun xsave_loop :: "(nat \<Rightarrow> u32 \<times> u32) \<Rightarrow> bool \<Rightarrow> u64 \<Rightarrow> u32 \<Rightarrow> nat list \<Rightarrow> nat \<Rightarrow> u32 list \<Rightarrow> nat \<times> u32 list" where
  "xsave_loop cpuid xsavec enabled max_size [] last_size sizes = (last_size, sizes)"
| "xsave_loop cpuid xsavec enabled max_size (i # is) last_size sizes =
     (if \<not> bit enabled i then xsave_loop cpuid xsavec enabled max_size is last_size sizes
      else if \<not> xsavec then xsave_loop cpuid xsavec enabled max_size is last_size (sizes[i := max_size])
      else let (eax, ecx) = cpuid i;
               aligned = (if bit ecx 1 then (last_size + 63) div 64 * 64 else last_size);
               last_size' = aligned + unat eax
           in xsave_loop cpuid xsavec enabled max_size is last_size' (sizes[i := of_nat last_size']))"

definition InitXsave ::
    "bool \<Rightarrow> bool \<Rightarrow> (nat \<Rightarrow> u32 \<times> u32) \<Rightarrow> u64 \<Rightarrow> u32 \<Rightarrow> nat \<Rightarrow> nat \<Rightarrow> (u64 \<times> u32 list) option Status" where
  "InitXsave supported xsavec cpuid enabled max_size area_size n =
     (if \<not> supported then Inr None
      else let last0 = (if xsavec then 576 else unat max_size);
               sizes = (replicate n 0)[0 := of_nat last0, 1 := of_nat last0];
               (last_size, sizes') = xsave_loop cpuid xsavec enabled max_size [2 ..< n] last0 sizes
           in if last_size > area_size then Inl EINVAL else Inr (Some (enabled, sizes')))"

section \<open>Lemmas on memory\<close>

text \<open>\<open>only lo hi m m'\<close>: the memories differ at most at addresses from \<open>lo\<close> up to \<open>hi\<close>.\<close>

definition only :: "nat \<Rightarrow> nat \<Rightarrow> memory \<Rightarrow> memory \<Rightarrow> bool" where
  "only lo hi m m' \<longleftrightarrow> (\<forall>x. unat x < lo \<or> hi \<le> unat x \<longrightarrow> m' x = m x)"

text \<open>\<open>same a n m m'\<close>: they agree on \<open>n\<close> bytes from \<open>a\<close>.\<close>

definition same :: "u64 \<Rightarrow> nat \<Rightarrow> memory \<Rightarrow> memory \<Rightarrow> bool" where
  "same a n m m' \<longleftrightarrow> fetch a n m' = fetch a n m"

lemma length_fetch [simp]: "length (fetch a n m) = n"
  by (simp add: fetch_def)

lemma nth_fetch [simp]: "i < n \<Longrightarrow> fetch a n m ! i = m (a + of_nat i)"
  by (simp add: fetch_def)

lemma unat_offset: "unat (a :: u64) + i < 2 ^ 64 \<Longrightarrow> unat (a + of_nat i) = unat a + i"
  by (simp add: unat_add_no_wrap unat_of_nat take_bit_nat_eq_self)

lemma fetch_store_same: "length bs < 2 ^ 64 \<Longrightarrow> fetch a (length bs) (store a bs m) = bs"
  by (rule nth_equalityI) (simp_all add: store_def unat_of_nat take_bit_nat_eq_self)

lemma only_refl [simp]: "only lo hi m m"
  by (simp add: only_def)

lemma only_trans: "only lo hi m m' \<Longrightarrow> only lo hi m' m'' \<Longrightarrow> only lo hi m m''"
  by (simp add: only_def)

lemma only_mono: "only lo hi m m' \<Longrightarrow> lo' \<le> lo \<Longrightarrow> hi \<le> hi' \<Longrightarrow> only lo' hi' m m'"
  unfolding only_def by (meson le_trans less_le_trans)

lemma store_only:
  assumes "lo \<le> unat a" "unat a + length bs \<le> hi" "hi \<le> 2 ^ 64"
  shows "only lo hi m (store a bs m)"
  unfolding only_def
proof (intro allI impI)
  fix x :: u64
  assume x: "unat x < lo \<or> hi \<le> unat x"
  have "\<not> unat (x - a) < length bs"
  proof
    assume l: "unat (x - a) < length bs"
    have "unat (a + of_nat (unat (x - a))) = unat a + unat (x - a)" using l assms by (intro unat_offset) linarith
    then show False using x l assms by simp
  qed
  then show "store a bs m x = m x" by (simp add: store_def)
qed

lemma only_fetch:
  assumes "only lo hi m m'" "unat a + n \<le> lo \<or> hi \<le> unat a" "unat a + n \<le> 2 ^ 64"
  shows "fetch a n m' = fetch a n m"
proof (rule nth_equalityI)
  fix i assume "i < length (fetch a n m')"
  then have i: "i < n" by simp
  then have "unat (a + of_nat i) = unat a + i" using assms(3) by (intro unat_offset) linarith
  then show "fetch a n m' ! i = fetch a n m ! i" using assms(1,2) i by (auto simp: only_def)
qed simp

lemma fetch_sub: "k + n \<le> l \<Longrightarrow> fetch (a + of_nat k) n m = take n (drop k (fetch a l m))"
  by (rule nth_equalityI) (simp_all add: add.assoc)

lemma same_sub: "same a l m m' \<Longrightarrow> k + n \<le> l \<Longrightarrow> same (a + of_nat k) n m m'"
  by (simp add: same_def fetch_sub)

lemma same_le: "same a l m m' \<Longrightarrow> n \<le> l \<Longrightarrow> same a n m m'"
  using same_sub [of a l m m' 0 n] by simp

lemma fetch_store_off:
  assumes "k + n \<le> length bs" "length bs < 2 ^ 64"
  shows "fetch (a + of_nat k) n (store a bs m) = take n (drop k bs)"
  using fetch_sub [OF assms(1)] fetch_store_same [OF assms(2)] by simp

lemma fetch64_store64 [simp]: "fetch64 a (store64 a v m) = v"
  using fetch_store_same [of "le_enc 8 (unat v)" a m] by (simp add: fetch64_def store64_def)

lemma fetch32_store32 [simp]: "fetch32 a (store32 a v m) = v"
  using fetch_store_same [of "le_enc 4 (unat v)" a m] by (simp add: fetch32_def store32_def)

lemma store64_only: "lo \<le> unat a \<Longrightarrow> unat a + 8 \<le> hi \<Longrightarrow> hi \<le> 2 ^ 64 \<Longrightarrow> only lo hi m (store64 a v m)"
  unfolding store64_def by (rule store_only) simp_all

lemma store32_only: "lo \<le> unat a \<Longrightarrow> unat a + 4 \<le> hi \<Longrightarrow> hi \<le> 2 ^ 64 \<Longrightarrow> only lo hi m (store32 a v m)"
  unfolding store32_def by (rule store_only) simp_all

text \<open>Reading beside a write, both at offsets from the same address.\<close>

lemma fetch_store_beside:
  assumes "unat a + k + n \<le> 2 ^ 64" "unat a + l + length bs \<le> 2 ^ 64" "k + n \<le> l \<or> l + length bs \<le> k"
  shows "fetch (a + of_nat k) n (store (a + of_nat l) bs m) = fetch (a + of_nat k) n m"
proof (cases "n = 0 \<or> bs = []")
  case True
  then show ?thesis by (auto simp: fetch_def store_def)
next
  case False
  then have "0 < n" "0 < length bs" by auto
  then have u: "unat (a + of_nat k) = unat a + k" "unat (a + of_nat l) = unat a + l"
    using assms(1,2) by (intro unat_offset, linarith)+
  have "only (unat a + l) (unat a + l + length bs) m (store (a + of_nat l) bs m)"
    using assms(2) u by (intro store_only) simp_all
  then show ?thesis using assms u by (intro only_fetch) auto
qed

lemma fetch64_cong: "same a 8 m m' \<Longrightarrow> fetch64 a m' = fetch64 a m"
  by (simp add: same_def fetch64_def)

lemma fetch32_cong: "same a 4 m m' \<Longrightarrow> fetch32 a m' = fetch32 a m"
  by (simp add: same_def fetch32_def)

lemma AlignDown_unat: "k < 64 \<Longrightarrow> unat (AlignDown a (of_nat (2 ^ k))) = unat a div 2 ^ k * 2 ^ k"
  using and_not_mask_unat [of a k] by (simp add: AlignDown_def mask_eq_exp_minus_1)


section \<open>Frames\<close>

text \<open>What is assumed of the layouts.\<close>

definition layout_ok :: "frame_env \<Rightarrow> bool" where
  "layout_ok E \<longleftrightarrow> 8 dvd ly_tf_size E \<and> ly_tf_size E \<le> 4096 \<and> 8 dvd ly_wrap E \<and> ly_wrap E \<le> 4096 \<and>
     4 \<le> ly_xalign E \<and> ly_xalign E \<le> 12 \<and>
     (\<forall>bs. length bs = ly_tf_size E \<longrightarrow> length (tf_others (ly_tf_dec E bs)) = ly_others E) \<and>
     (\<forall>t. length (tf_others t) = ly_others E \<longrightarrow> ly_tf_dec E (ly_tf_enc E t) = t \<and> length (ly_tf_enc E t) = ly_tf_size E) \<and>
     (\<forall>i. length (ly_si_enc E i) = siginfo_size) \<and> (\<forall>bs. 576 \<le> ly_GetXSaveSize E bs)"

lemma layout_okD:
  assumes "layout_ok E"
  shows "8 dvd ly_tf_size E" "ly_tf_size E \<le> 4096" "8 dvd ly_wrap E" "ly_wrap E \<le> 4096" "4 \<le> ly_xalign E" "ly_xalign E \<le> 12"
    "length (ly_si_enc E i) = 128" "576 \<le> ly_GetXSaveSize E bs"
  using assms by (simp_all add: layout_ok_def siginfo_size_def)

text \<open>The area of extended state that belongs to a frame, and its size.\<close>

fun xarea :: "frame_env \<Rightarrow> Trapframe \<Rightarrow> memory \<Rightarrow> (u64 \<times> nat) option" where
  "xarea E (KernelSignalTf a) m = (let xs = fetch64 (a + k_fpstate) m in Some (xs, fpx_extended_size xs m))"
| "xarea E (UintrTf a) m =
     (let xa = tf_xsave_area (get_tf E a m) in if xa = 0 then None else Some (xa, ly_GetXSaveSize E (fetch xa 576 m)))"
| "xarea E (FunctionCallTf a) m =
     (let xa = tf_xsave_area (get_tf E a m) in if xa = 0 then None else map_option (Pair xa) (GetXsaveAreaSize E xa m))"

fun frame_size :: "frame_env \<Rightarrow> Trapframe \<Rightarrow> nat" where
  "frame_size E (KernelSignalTf a) = k_size"
| "frame_size E (UintrTf a) = ly_tf_size E"
| "frame_size E (FunctionCallTf a) = ly_tf_size E"

text \<open>What a frame saves: the registers without the pointer to the area, and the bytes of the area.\<close>

fun registers :: "frame_env \<Rightarrow> Trapframe \<Rightarrow> memory \<Rightarrow> byte list + thread_tf" where
  "registers E (KernelSignalTf a) m = Inl (fetch a 232 m @ fetch (a + 240) 200 m)"
| "registers E (UintrTf a) m = Inr ((get_tf E a m)\<lparr>tf_xsave_area := 0\<rparr>)"
| "registers E (FunctionCallTf a) m = Inr ((get_tf E a m)\<lparr>tf_xsave_area := 0\<rparr>)"

definition saved :: "frame_env \<Rightarrow> Trapframe \<Rightarrow> memory \<Rightarrow> u64 \<times> (byte list + thread_tf) \<times> byte list option" where
  "saved E tf m = (sigframe_type tf, registers E tf m, map_option (\<lambda>(x, n). fetch x n m) (xarea E tf m))"

text \<open>A frame as the processor, the kernel or the library leave it.\<close>

fun frame_ok :: "frame_env \<Rightarrow> Trapframe \<Rightarrow> memory \<Rightarrow> bool" where
  "frame_ok E (KernelSignalTf a) m =
     (let xs = fetch64 (a + k_fpstate) m in
      unat a + k_size \<le> 2 ^ 64 \<and> fetch64 (a + k_uc_flags) m AND kUCFpXstate \<noteq> 0 \<and> fpx_magic1 xs m = kFpXstateMagic1 \<and>
      fetch32 (xs + of_nat (fpx_xstate_size xs m)) m = kFpXstateMagic2 \<and> 576 \<le> fpx_extended_size xs m \<and>
      fpx_xstate_size xs m + 4 \<le> fpx_extended_size xs m \<and> unat xs + fpx_extended_size xs m \<le> 2 ^ 64)"
| "frame_ok E (UintrTf a) m =
     (let xa = tf_xsave_area (get_tf E a m) in
      unat a + ly_tf_size E \<le> 2 ^ 64 \<and>
      (xa \<noteq> 0 \<longrightarrow> unat xa + ly_GetXSaveSize E (fetch xa 576 m) \<le> 2 ^ 64 \<and> 
        (xa = th_xsave_area E \<longrightarrow> xsave_area_in_use E \<and> ly_GetXSaveSize E (fetch xa 576 m) \<le> xsave_area_size E)))"
| "frame_ok E (FunctionCallTf a) m =
     (let xa = tf_xsave_area (get_tf E a m) in
      unat a + ly_tf_size E \<le> 2 ^ 64 \<and>
      (xa \<noteq> 0 \<longrightarrow> (\<exists>n. GetXsaveAreaSize E xa m = Some n \<and> 576 \<le> n \<and> unat xa + n \<le> 2 ^ 64)))"

text \<open>The memories agree where the frame and its area lie.\<close>

definition same_frame :: "frame_env \<Rightarrow> Trapframe \<Rightarrow> memory \<Rightarrow> memory \<Rightarrow> bool" where
  "same_frame E tf m m' \<longleftrightarrow> same (tf_addr tf) (frame_size E tf) m m' \<and>
     (case xarea E tf m of None \<Rightarrow> True | Some (x, n) \<Rightarrow> same x n m m')"

lemma same_fetch64: "same a l m m' \<Longrightarrow> k + 8 \<le> l \<Longrightarrow> fetch64 (a + of_nat k) m' = fetch64 (a + of_nat k) m"
  by (rule fetch64_cong [OF same_sub])

lemma same_fetch32: "same a l m m' \<Longrightarrow> k + 4 \<le> l \<Longrightarrow> fetch32 (a + of_nat k) m' = fetch32 (a + of_nat k) m"
  by (rule fetch32_cong [OF same_sub])

lemma same_get_tf: "same a (ly_tf_size E) m m' \<Longrightarrow> get_tf E a m' = get_tf E a m"
  by (simp add: same_def get_tf_def)

lemma same_fpx:
  assumes "same xs n m m'" "576 \<le> n"
  shows "fpx_magic1 xs m' = fpx_magic1 xs m" "fpx_extended_size xs m' = fpx_extended_size xs m"
    "fpx_xstate_size xs m' = fpx_xstate_size xs m"
  using same_fetch32 [OF assms(1), of 464] same_fetch32 [OF assms(1), of 468] same_fetch32 [OF assms(1), of 480] assms(2)
  by (simp_all add: fpx_magic1_def fpx_extended_size_def fpx_xstate_size_def)

lemma same_xsize:
  assumes "same xs n m m'" "576 \<le> n"
  shows "GetXsaveAreaSize E xs m' = GetXsaveAreaSize E xs m" "fetch xs 576 m' = fetch xs 576 m"
  using same_fetch64 [OF assms(1), of 520] same_le [OF assms(1), of 576] assms(2) by (simp_all add: GetXsaveAreaSize_def same_def)

lemma same_k:
  assumes "same a k_size m m'"
  shows "fetch64 (a + k_fpstate) m' = fetch64 (a + k_fpstate) m" "fetch64 (a + k_uc_flags) m' = fetch64 (a + k_uc_flags) m"
    "fetch a 232 m' = fetch a 232 m" "fetch (a + 240) 200 m' = fetch (a + 240) 200 m" "fetch64 (a + k_rsp) m' = fetch64 (a + k_rsp) m"
  using same_fetch64 [OF assms, of 232] same_fetch64 [OF assms, of 8] same_fetch64 [OF assms, of 168]
    same_le [OF assms, of 232] same_sub [OF assms, of 240 200]
  by (simp_all add: k_offsets same_def)

lemma frame_cong:
  assumes L: "layout_ok E" and ok: "frame_ok E tf m" and s: "same_frame E tf m m'"
  shows "frame_ok E tf m' \<and> saved E tf m' = saved E tf m \<and> xarea E tf m' = xarea E tf m \<and> GetRsp E tf m' = GetRsp E tf m"
proof (cases tf)
  case (KernelSignalTf a)
  let ?xs = "fetch64 (a + k_fpstate) m"
  have k: "same a k_size m m'" and x: "same ?xs (fpx_extended_size ?xs m) m m'"
    using s KernelSignalTf by (simp_all add: same_frame_def Let_def)
  have n: "576 \<le> fpx_extended_size ?xs m" "fpx_xstate_size ?xs m + 4 \<le> fpx_extended_size ?xs m"
    using ok KernelSignalTf by (simp_all add: Let_def)
  note K = same_k [OF k] and F = same_fpx [OF x n(1)]
  have M: "fetch32 (?xs + of_nat (fpx_xstate_size ?xs m)) m' = fetch32 (?xs + of_nat (fpx_xstate_size ?xs m)) m"
    by (rule same_fetch32 [OF x n(2)])
  have X: "fetch ?xs (fpx_extended_size ?xs m) m' = fetch ?xs (fpx_extended_size ?xs m) m" using x by (simp add: same_def)
  show ?thesis using ok KernelSignalTf by (simp add: saved_def Let_def K F M X)
next
  case (UintrTf a)
  have t: "get_tf E a m' = get_tf E a m" using s UintrTf by (simp add: same_frame_def same_get_tf)
  have x: "same xa (ly_GetXSaveSize E (fetch xa 576 m)) m m'" if "xa = tf_xsave_area (get_tf E a m)" "xa \<noteq> 0" for xa
    using s UintrTf that by (simp add: same_frame_def Let_def)
  show ?thesis
  proof (cases "tf_xsave_area (get_tf E a m) = 0")
    case True
    then show ?thesis using ok UintrTf by (simp add: saved_def Let_def t)
  next
    case False
    note X = x [OF refl False]
    note S = same_xsize(2) [OF X layout_okD(8) [OF L]]
    have "fetch (th_xsave_area E) 576 m' = fetch (th_xsave_area E) 576 m" if "tf_xsave_area (get_tf E a m) = th_xsave_area E"
      using S that by simp
    then show ?thesis using ok UintrTf X by (simp add: saved_def Let_def t S same_def)
  qed
next
  case (FunctionCallTf a)
  have t: "get_tf E a m' = get_tf E a m" using s FunctionCallTf by (simp add: same_frame_def same_get_tf)
  show ?thesis
  proof (cases "tf_xsave_area (get_tf E a m) = 0")
    case True
    then show ?thesis using ok FunctionCallTf by (simp add: saved_def Let_def t)
  next
    case False
    let ?xa = "tf_xsave_area (get_tf E a m)"
    obtain n where n: "GetXsaveAreaSize E ?xa m = Some n" "576 \<le> n" using ok FunctionCallTf False by (auto simp: Let_def)
    have X: "same ?xa n m m'" using s FunctionCallTf False n by (simp add: same_frame_def Let_def)
    note S = same_xsize(1) [OF X n(2), of E]
    show ?thesis using ok FunctionCallTf X n by (simp add: saved_def Let_def t S same_def)
  qed
qed


section \<open>Copies on a stack\<close>

lemma mod_dvd: "(x :: u64) mod 8 = 0 \<longleftrightarrow> 8 dvd unat x" "(x :: u64) mod 16 = 0 \<longleftrightarrow> 16 dvd unat x"
  by (simp_all add: word_unat_eq_iff unat_mod_distrib dvd_eq_mod_eq_0)

lemma unat_minus_nat: "n \<le> unat (x :: u64) \<Longrightarrow> unat (x - of_nat n) = unat x - n"
proof -
  assume n: "n \<le> unat x"
  then have "n < 2 ^ 64" using unat_lt_64 [of x] by linarith
  then have u: "unat (of_nat n :: u64) = n" by (simp add: unat_of_nat take_bit_nat_eq_self)
  then show ?thesis using n by (simp add: unat_sub word_le_nat_alt)
qed

lemma alloc8:
  assumes "8 dvd unat rsp" "n \<le> unat rsp"
  shows "\<exists>a. AllocateOnStack n 8 rsp = Some a \<and> unat a = unat rsp - n"
  using assms unat_minus_nat [OF assms(2)] by (simp add: AllocateOnStack_def mod_dvd)

lemma align_bounds: "0 < d \<Longrightarrow> d * (x div d) \<le> x \<and> x < d * (x div d) + (d::nat)"
  using mult_div_mod_eq [of d x] mod_less_divisor [of d x] by linarith

text \<open>Rounding down after making room.\<close>

lemma align_down_room:
  assumes "n + 2 ^ k \<le> unat rsp" "k < 64"
  shows "2 ^ k dvd unat (AlignDown (rsp - of_nat n) (of_nat (2 ^ k))) \<and>
    unat (AlignDown (rsp - of_nat n) (of_nat (2 ^ k))) + n \<le> unat rsp \<and>
    unat rsp < unat (AlignDown (rsp - of_nat n) (of_nat (2 ^ k))) + n + 2 ^ k"
proof -
  have n: "n \<le> unat rsp" using assms(1) by linarith
  have "unat (AlignDown (rsp - of_nat n) (of_nat (2 ^ k))) = 2 ^ k * ((unat rsp - n) div 2 ^ k)"
    using AlignDown_unat [OF assms(2)] unat_minus_nat [OF n] by (simp add: mult.commute)
  moreover define q where "q = 2 ^ k * ((unat rsp - n) div 2 ^ k)"
  ultimately have u: "unat (AlignDown (rsp - of_nat n) (of_nat (2 ^ k))) = q" by simp
  have "q \<le> unat rsp - n" "unat rsp - n < q + 2 ^ k" using align_bounds [of "2 ^ k" "unat rsp - n"] by (simp_all add: q_def)
  then have "q + n \<le> unat rsp" "unat rsp < q + n + 2 ^ k" using n by linarith+
  then show ?thesis unfolding u by (simp add: q_def)
qed

lemma alloc16:
  assumes "8 dvd unat rsp" "n + 16 \<le> unat rsp"
  shows "\<exists>a. AllocateOnStack n 16 rsp = Some a \<and> 16 dvd unat a \<and> unat a + n \<le> unat rsp \<and> unat rsp < unat a + n + 16"
  using align_down_room [of n 4 rsp] assms by (simp add: AllocateOnStack_def mod_dvd)

lemma tf_bytes:
  assumes "layout_ok E"
  shows "length (tf_others (get_tf E a m)) = ly_others E"
    "length (tf_others t) = ly_others E \<Longrightarrow> unat a + ly_tf_size E \<le> 2 ^ 64 \<Longrightarrow> get_tf E a (put_tf E a t m) = t"
    "length (tf_others t) = ly_others E \<Longrightarrow> unat a + ly_tf_size E \<le> 2 ^ 64 \<Longrightarrow> only (unat a) (unat a + ly_tf_size E) m (put_tf E a t m)"
proof -
  show "length (tf_others (get_tf E a m)) = ly_others E" using assms by (simp add: layout_ok_def get_tf_def)
  show "get_tf E a (put_tf E a t m) = t" if "length (tf_others t) = ly_others E" "unat a + ly_tf_size E \<le> 2 ^ 64"
  proof -
    have e: "ly_tf_dec E (ly_tf_enc E t) = t" "length (ly_tf_enc E t) = ly_tf_size E"
      using assms that(1) by (simp_all add: layout_ok_def)
    then show ?thesis using fetch_store_same [of "ly_tf_enc E t" a m] layout_okD(2) [OF assms] by (simp add: get_tf_def put_tf_def)
  qed
  show "only (unat a) (unat a + ly_tf_size E) m (put_tf E a t m)"
    if "length (tf_others t) = ly_others E" "unat a + ly_tf_size E \<le> 2 ^ 64"
    using assms that unfolding put_tf_def by (intro store_only) (simp_all add: layout_ok_def)
qed

lemma push_tf_spec:
  assumes L: "layout_ok E" and al: "align = 8 \<or> align = 16" and r: "8 dvd unat rsp" "ly_tf_size E + 16 \<le> unat rsp" and bs: "length bs = ly_tf_size E"
  shows "\<exists>a m'. push_tf E align bs rsp nx m = Some (a, m') \<and> only (unat a) (unat a + ly_tf_size E) m m' \<and>
    unat a + ly_tf_size E \<le> unat rsp \<and> unat rsp < unat a + ly_tf_size E + 16 \<and> unat align dvd unat a \<and> 8 dvd unat a \<and>
    get_tf E a m' = (ly_tf_dec E bs)\<lparr>tf_xsave_area := nx\<rparr>"
proof -
  obtain a where a: "AllocateOnStack (ly_tf_size E) align rsp = Some a" "unat a + ly_tf_size E \<le> unat rsp"
    "unat rsp < unat a + ly_tf_size E + 16" "unat align dvd unat a" "8 dvd unat a"
  proof (cases "align = 8")
    case True
    then show thesis using that alloc8 [OF r(1), of "ly_tf_size E"] r layout_okD(1) [OF L] by fastforce
  next
    case False
    then have "align = 16" using al by simp
    then show thesis using that alloc16 [OF r] by (auto elim: dvd_trans [rotated])
  qed
  have b: "unat a + ly_tf_size E \<le> 2 ^ 64" using a(2) unat_lt_64 [of rsp] by linarith
  define m1 where "m1 = store a bs m"
  have f: "get_tf E a m1 = ly_tf_dec E bs"
    using fetch_store_same [of bs a m] layout_okD(2) [OF L] bs by (simp add: get_tf_def m1_def)
  define t where "t = (ly_tf_dec E bs)\<lparr>tf_xsave_area := nx\<rparr>"
  have o: "length (tf_others t) = ly_others E" using tf_bytes(1) [OF L, of a m1] by (simp add: t_def f)
  have "only (unat a) (unat a + ly_tf_size E) m m1" unfolding m1_def using b bs by (intro store_only) simp_all
  then have "only (unat a) (unat a + ly_tf_size E) m (put_tf E a t m1)" using tf_bytes(3) [OF L o b] only_trans by blast
  then show ?thesis using a tf_bytes(2) [OF L o b] by (simp add: push_tf_def PushToStack_def m1_def [symmetric] f t_def [symmetric])
qed


text \<open>Equal bytes at two addresses read the same.\<close>

lemma fetch_at: "fetch a' l m' = fetch a l m \<Longrightarrow> k + n \<le> l \<Longrightarrow> fetch (a' + of_nat k) n m' = fetch (a + of_nat k) n m"
  by (simp add: fetch_sub)

lemma fetch64_at: "fetch a' l m' = fetch a l m \<Longrightarrow> k + 8 \<le> l \<Longrightarrow> fetch64 (a' + of_nat k) m' = fetch64 (a + of_nat k) m"
  using fetch_at [of a' l m' a m k 8] by (simp add: fetch64_def)

lemma fetch32_at: "fetch a' l m' = fetch a l m \<Longrightarrow> k + 4 \<le> l \<Longrightarrow> fetch32 (a' + of_nat k) m' = fetch32 (a + of_nat k) m"
  using fetch_at [of a' l m' a m k 4] by (simp add: fetch32_def)

lemma fpx_at:
  assumes "fetch x n m' = fetch xs n m" "576 \<le> n"
  shows "fpx_magic1 x m' = fpx_magic1 xs m" "fpx_extended_size x m' = fpx_extended_size xs m"
    "fpx_xstate_size x m' = fpx_xstate_size xs m"
  using fetch32_at [OF assms(1), of 464] fetch32_at [OF assms(1), of 468] fetch32_at [OF assms(1), of 480] assms(2)
  by (simp_all add: fpx_magic1_def fpx_extended_size_def fpx_xstate_size_def)

lemma xsize_at:
  assumes "fetch x n m' = fetch xs n m" "576 \<le> n"
  shows "GetXsaveAreaSize E x m' = GetXsaveAreaSize E xs m" "fetch x 576 m' = fetch xs 576 m"
  using fetch64_at [OF assms(1), of 520] fetch_at [OF assms(1), of 0 576] assms(2) by (simp_all add: GetXsaveAreaSize_def)

definition need :: "frame_env \<Rightarrow> Trapframe \<Rightarrow> memory \<Rightarrow> nat" where
  "need E tf m = (case xarea E tf m of None \<Rightarrow> 0 | Some (x, n) \<Rightarrow> n) + 8704"

text \<open>A frame and its area lie outside a range of addresses.\<close>

definition beside :: "frame_env \<Rightarrow> Trapframe \<Rightarrow> nat \<Rightarrow> nat \<Rightarrow> memory \<Rightarrow> bool" where
  "beside E tf lo hi m \<longleftrightarrow> (unat (tf_addr tf) + frame_size E tf \<le> lo \<or> hi \<le> unat (tf_addr tf)) \<and>
     (case xarea E tf m of None \<Rightarrow> True | Some (x, n) \<Rightarrow> unat x + n \<le> lo \<or> hi \<le> unat x)"

text \<open>The area of a copy lies between the copy and the stack pointer, or it is the thread's own.\<close>

definition placed :: "frame_env \<Rightarrow> Trapframe \<Rightarrow> nat \<Rightarrow> memory \<Rightarrow> bool" where
  "placed E tf hi m \<longleftrightarrow> (case xarea E tf m of None \<Rightarrow> True
     | Some (x, n) \<Rightarrow> unat (tf_addr tf) \<le> unat x \<and> unat x + n \<le> hi \<or> sigframe_type tf = 1 \<and> x = th_xsave_area E)"

fun frame_aligned :: "Trapframe \<Rightarrow> bool" where
  "frame_aligned (KernelSignalTf a) = (unat a mod 16 = 8)"
| "frame_aligned (UintrTf a) = True"
| "frame_aligned (FunctionCallTf a) = (16 dvd unat a)"

text \<open>\<open>tf'\<close> in \<open>m'\<close> is a copy of \<open>tf\<close> in \<open>m0\<close>, made below \<open>rsp\<close> in \<open>m\<close>.\<close>

definition copied :: "frame_env \<Rightarrow> Trapframe \<Rightarrow> memory \<Rightarrow> memory \<Rightarrow> u64 \<Rightarrow> Trapframe \<Rightarrow> memory \<Rightarrow> bool" where
  "copied E tf m0 m rsp tf' m' \<longleftrightarrow> only (unat (tf_addr tf')) (unat rsp) m m' \<and> unat rsp \<le> unat (tf_addr tf') + need E tf m0 \<and>
     unat (tf_addr tf') + frame_size E tf' \<le> unat rsp \<and> 8 dvd unat (tf_addr tf') \<and> frame_ok E tf' m' \<and>
     saved E tf' m' = saved E tf m0 \<and> GetRsp E tf' m' = GetRsp E tf m0 \<and> placed E tf' (unat rsp) m' \<and> frame_aligned tf'"

lemma pow_xalign: "layout_ok E \<Longrightarrow> ly_xalign E < 64 \<and> 2 ^ ly_xalign E \<le> (4096::nat) \<and> 16 dvd (2::nat) ^ ly_xalign E"
proof -
  assume L: "layout_ok E"
  have "(2::nat) ^ ly_xalign E \<le> 2 ^ 12" using layout_okD(6) [OF L] by (intro power_increasing) simp_all
  moreover have "(2::nat) ^ 4 dvd 2 ^ ly_xalign E" using layout_okD(5) [OF L] by (rule le_imp_power_dvd)
  ultimately show ?thesis using layout_okD(6) [OF L] by simp
qed

lemma x_room:
  assumes "layout_ok E" "n + 4096 \<le> unat rsp"
  shows "16 dvd unat (AlignDown (rsp - of_nat n) (xalign E)) \<and> unat (AlignDown (rsp - of_nat n) (xalign E)) + n \<le> unat rsp \<and>
    unat rsp < unat (AlignDown (rsp - of_nat n) (xalign E)) + n + 4096"
proof -
  note P = pow_xalign [OF assms(1)]
  have "n + 2 ^ ly_xalign E \<le> unat rsp" using P assms(2) by linarith
  note A = align_down_room [OF this P [THEN conjunct1]]
  have "16 dvd unat (AlignDown (rsp - of_nat n) (xalign E))" using A P dvd_trans by blast
  moreover have "unat rsp < unat (AlignDown (rsp - of_nat n) (xalign E)) + n + 4096" using A P by linarith
  ultimately show ?thesis using A by blast
qed

lemma k_copy:
  assumes "unat a + 440 \<le> 2 ^ 64"
  shows "fetch a 232 (store64 (a + k_fpstate) v m) = fetch a 232 m" "fetch (a + 240) 200 (store64 (a + k_fpstate) v m) = fetch (a + 240) 200 m"
    "fetch64 (a + k_uc_flags) (store64 (a + k_fpstate) v m) = fetch64 (a + k_uc_flags) m"
    "fetch64 (a + k_rsp) (store64 (a + k_fpstate) v m) = fetch64 (a + k_rsp) m"
  using assms fetch_store_beside [of a 0 232 232 "le_enc 8 (unat v)" m] fetch_store_beside [of a 240 200 232 "le_enc 8 (unat v)" m]
    fetch_store_beside [of a 8 8 232 "le_enc 8 (unat v)" m] fetch_store_beside [of a 168 8 232 "le_enc 8 (unat v)" m]
  by (simp_all add: k_offsets store64_def fetch64_def)

lemma k_align: "16 dvd X \<Longrightarrow> a + 440 = X \<Longrightarrow> a mod 16 = (8::nat)"
proof -
  assume "16 dvd X" "a + 440 = X"
  then obtain q where "a + 440 = 16 * q" by (auto elim: dvdE)
  then have "a = 16 * (q - 28) + 8" by linarith
  then show ?thesis by simp
qed

lemma k_place:
  assumes L: "layout_ok E" and ok: "frame_ok E (KernelSignalTf k) m0" and r: "need E (KernelSignalTf k) m0 \<le> unat rsp"
    and xs: "xs = fetch64 (k + k_fpstate) m0" and nn: "n = fpx_extended_size xs m0" and XX: "X = AlignDown (rsp - of_nat n) (xalign E)"
    and m1: "m1 = store X (fetch xs n m0) m"
  shows "\<exists>a. AllocateOnStack k_size 8 X = Some a \<and>
    copied E (KernelSignalTf k) m0 m rsp (KernelSignalTf a) (store64 (a + k_fpstate) X (store a (fetch k k_size m0) m1))"
proof -
  have r': "n + 8704 \<le> unat rsp" using r by (simp add: need_def Let_def xs nn)
  have X: "16 dvd unat X" "unat X + n \<le> unat rsp" "unat rsp < unat X + n + 4096" using x_room [OF L, of n rsp] r' by (simp_all add: XX)
  have n: "576 \<le> n" "fpx_xstate_size xs m0 + 4 \<le> n" and flags: "fetch64 (k + k_uc_flags) m0 AND kUCFpXstate \<noteq> 0" "fpx_magic1 xs m0 = kFpXstateMagic1"
    "fetch32 (xs + of_nat (fpx_xstate_size xs m0)) m0 = kFpXstateMagic2" and top: "unat rsp < 2 ^ 64"
    using ok unat_lt_64 [of rsp] by (simp_all add: Let_def xs nn k_size_def)
  have X8: "8 dvd unat X" using X(1) by presburger
  then obtain a where a: "AllocateOnStack k_size 8 X = Some a" "unat a = unat X - 440"
    using alloc8 [of X k_size] X r' by (auto simp: k_size_def)
  define m2 m3 where "m2 = store a (fetch k k_size m0) m1" and "m3 = store64 (a + k_fpstate) X m2"
  have aX: "unat a + 440 = unat X" using a X r' by linarith
  have o1: "only (unat X) (unat rsp) m m1" unfolding m1 using X top by (intro store_only) simp_all
  have o2: "only (unat a) (unat X) m1 m2" unfolding m2_def using aX top X by (intro store_only) (simp_all add: k_size_def)
  have u: "unat (a + k_fpstate) = unat a + 232" using unat_offset [of a 232] aX top X by (simp add: k_fpstate_def)
  have o3: "only (unat a) (unat X) m2 m3" unfolding m3_def using aX top X u by (intro store64_only) simp_all
  have f2: "fetch a 440 m2 = fetch k 440 m0"
    using fetch_store_same [of "fetch k 440 m0" a m1] by (simp add: m2_def k_size_def)
  have fX: "fetch X n m3 = fetch xs n m0"
  proof -
    have "fetch X n m1 = fetch xs n m0" using fetch_store_same [of "fetch xs n m0" X m] X top by (simp add: m1)
    then show ?thesis using only_fetch [OF only_trans [OF o2 o3], of X n] X top by simp
  qed
  have a64: "unat a + 440 \<le> 2 ^ 64" using aX top X by linarith
  note K = k_copy [OF a64, of X m2, folded m3_def]
  have p: "fetch64 (a + k_fpstate) m3 = X" by (simp add: m3_def)
  note F = fpx_at [OF fX n(1)]
  have M: "fetch32 (X + of_nat (fpx_xstate_size xs m0)) m3 = kFpXstateMagic2" using fetch32_at [OF fX n(2)] flags(3) by simp
  have E: "fetch a 232 m2 = fetch k 232 m0" "fetch (a + 240) 200 m2 = fetch (k + 240) 200 m0"
    "fetch64 (a + k_uc_flags) m2 = fetch64 (k + k_uc_flags) m0" "fetch64 (a + k_rsp) m2 = fetch64 (k + k_rsp) m0"
    using fetch_at [OF f2, of 0 232] fetch_at [OF f2, of 240 200] fetch64_at [OF f2, of 8] fetch64_at [OF f2, of 168]
    by (simp_all add: k_offsets)
  have ne: "fpx_extended_size xs m0 = n" by (simp add: nn)
  have o: "only (unat a) (unat rsp) m m3"
  proof (rule only_trans)
    show "only (unat a) (unat rsp) m m1" using aX by (intro only_mono [OF o1]) linarith+
    show "only (unat a) (unat rsp) m1 m3" using X(2) by (intro only_mono [OF only_trans [OF o2 o3]]) linarith+
  qed
  have al: "unat a mod 16 = 8" by (rule k_align [OF X(1) aX])
  have "xarea E (KernelSignalTf a) m3 = Some (X, n)" "xarea E (KernelSignalTf k) m0 = Some (xs, n)"
    by (simp_all only: xarea.simps Let_def p F(2) xs [symmetric] ne)
  moreover have "registers E (KernelSignalTf a) m3 = registers E (KernelSignalTf k) m0" by (simp only: registers.simps K E)
  ultimately have "saved E (KernelSignalTf a) m3 = saved E (KernelSignalTf k) m0" by (simp add: saved_def fX)
  moreover have "frame_ok E (KernelSignalTf a) m3" using flags n a64 X top by (simp add: Let_def p F E K M ne k_size_def)
  moreover have "placed E (KernelSignalTf a) (unat rsp) m3" using aX X(2) by (simp add: placed_def Let_def p F ne)
  moreover have "unat rsp \<le> unat a + need E (KernelSignalTf k) m0" using aX X(3) by (simp add: need_def Let_def xs [symmetric] ne)
  moreover have "8 dvd unat a" using al by presburger
  moreover have "unat a + 440 \<le> unat rsp" using aX X(2) by linarith
  ultimately have "copied E (KernelSignalTf k) m0 m rsp (KernelSignalTf a) m3"
    unfolding copied_def using o al by (simp add: E K k_size_def)
  then show ?thesis using a(1) by (simp add: m2_def m3_def)
qed

lemma k_CopyToStack_spec:
  assumes L: "layout_ok E" and ok: "frame_ok E (KernelSignalTf k) m" and r: "need E (KernelSignalTf k) m \<le> unat rsp"
    and b: "beside E (KernelSignalTf k) (unat rsp - need E (KernelSignalTf k) m) (unat rsp) m"
  shows "\<exists>a m'. k_CopyToStack E k rsp m = Some (a, m') \<and> copied E (KernelSignalTf k) m m rsp (KernelSignalTf a) m'"
proof -
  define xs n where "xs = fetch64 (k + k_fpstate) m" and "n = fpx_extended_size xs m"
  define X m1 where "X = AlignDown (rsp - of_nat n) (xalign E)" and "m1 = store X (fetch xs n m) m"
  obtain a where a: "AllocateOnStack k_size 8 X = Some a"
    "copied E (KernelSignalTf k) m m rsp (KernelSignalTf a) (store64 (a + k_fpstate) X (store a (fetch k k_size m) m1))"
    using k_place [OF L ok r xs_def n_def X_def m1_def] by blast
  have nd: "need E (KernelSignalTf k) m = n + 8704" by (simp add: need_def Let_def xs_def n_def)
  have X: "unat X + n \<le> unat rsp" "unat rsp < unat X + n + 4096" using x_room [OF L, of n rsp] r by (simp_all add: X_def nd)
  have top: "unat k + 440 \<le> 2 ^ 64" "unat rsp < 2 ^ 64" using ok unat_lt_64 [of rsp] by (simp_all add: Let_def k_size_def)
  have o1: "only (unat X) (unat rsp) m m1" unfolding m1_def using X top by (intro store_only) simp_all
  have "unat k + 440 \<le> unat rsp - (n + 8704) \<or> unat rsp \<le> unat k" using b nd by (simp add: beside_def k_size_def)
  then have "fetch k k_size m1 = fetch k k_size m" using only_fetch [OF o1, of k 440] X top r nd unfolding k_size_def by linarith
  moreover have "CopyXstateToStack E k rsp m = Some (X, m1)"
    using ok unfolding m1_def X_def by (simp add: CopyXstateToStack_def Let_def xs_def [symmetric] n_def [symmetric])
  ultimately show ?thesis using a by (auto simp: k_CopyToStack_def k_CopyToStack_at_def PushToStack_def)
qed


text \<open>Placing the area of a register frame, then the frame.\<close>

lemma area_place:
  assumes L: "layout_ok E" and r: "n + 8704 \<le> unat rsp" and X: "X = AlignDown (rsp - of_nat n) (xalign E)"
    and m1: "m1 = store X (fetch xa n m0) m"
  shows "8 dvd unat X" "unat X + n \<le> unat rsp" "unat rsp < unat X + n + 4096" "only (unat X) (unat rsp) m m1"
    "fetch X n m1 = fetch xa n m0" "X \<noteq> 0"
proof -
  have x: "16 dvd unat X" "unat X + n \<le> unat rsp" "unat rsp < unat X + n + 4096" using x_room [OF L, of n rsp] r by (simp_all add: X)
  then show "unat X + n \<le> unat rsp" "unat rsp < unat X + n + 4096" by simp_all
  show "8 dvd unat X" using x(1) by presburger
  have top: "unat rsp < 2 ^ 64" by (rule unat_lt_64)
  show "only (unat X) (unat rsp) m m1" unfolding m1 using x top by (intro store_only) simp_all
  show "fetch X n m1 = fetch xa n m0" using fetch_store_same [of "fetch xa n m0" X m] x top by (simp add: m1)
  show "X \<noteq> 0" using x r by auto
qed

lemma area_beside:
  assumes "layout_ok E" "n + 8704 \<le> unat rsp" "X = AlignDown (rsp - of_nat n) (xalign E)" "m1 = store X (fetch xa n m0) m"
    and tb: "unat tf + ly_tf_size E \<le> unat rsp - (n + 8704) \<or> unat rsp \<le> unat tf" and t64: "unat tf + ly_tf_size E \<le> 2 ^ 64"
  shows "fetch tf (ly_tf_size E) m1 = fetch tf (ly_tf_size E) m"
proof -
  note A = area_place [OF assms(1-4)]
  have "unat tf + ly_tf_size E \<le> unat X \<or> unat rsp \<le> unat tf" using tb A(2,3) assms(2) by linarith
  then show ?thesis using only_fetch [OF A(4) _ t64] by simp
qed

lemma tf_place:
  assumes L: "layout_ok E" and al: "align = 8 \<or> align = 16" and r: "n + 8704 \<le> unat rsp"
    and X: "8 dvd unat X" "unat X + n \<le> unat rsp" "unat rsp < unat X + n + 4096"
    and o: "only (unat X) (unat rsp) m m1"
  shows "\<exists>a m'. push_tf E align (fetch tf (ly_tf_size E) m0) X nx m1 = Some (a, m') \<and> only (unat a) (unat rsp) m m' \<and> only (unat a) (unat X) m1 m' \<and>
    unat rsp \<le> unat a + n + 8704 \<and> unat a + ly_tf_size E \<le> unat X \<and> unat align dvd unat a \<and> 8 dvd unat a \<and>
    get_tf E a m' = (get_tf E tf m0)\<lparr>tf_xsave_area := nx\<rparr>"
proof -
  have s: "ly_tf_size E + 16 \<le> unat X" using layout_okD(2) [OF L] X(3) r by linarith
  obtain a m' where a: "push_tf E align (fetch tf (ly_tf_size E) m0) X nx m1 = Some (a, m')" "only (unat a) (unat a + ly_tf_size E) m1 m'"
    "unat a + ly_tf_size E \<le> unat X" "unat X < unat a + ly_tf_size E + 16" "unat align dvd unat a" "8 dvd unat a"
    "get_tf E a m' = (get_tf E tf m0)\<lparr>tf_xsave_area := nx\<rparr>"
    using push_tf_spec [OF L al X(1) s, of "fetch tf (ly_tf_size E) m0" nx m1] unfolding get_tf_def [of E tf m0] by auto
  have o1: "only (unat a) (unat X) m1 m'" using a(3) by (intro only_mono [OF a(2)]) simp_all
  have "only (unat a) (unat rsp) m m'"
  proof (rule only_trans)
    show "only (unat a) (unat rsp) m m1" using a(3) by (intro only_mono [OF o]) linarith+
    show "only (unat a) (unat rsp) m1 m'" using X(2) by (intro only_mono [OF o1]) linarith+
  qed
  moreover have "unat rsp \<le> unat a + n + 8704" using a(4) X(3) layout_okD(2) [OF L] by linarith
  ultimately show ?thesis using a o1 by auto
qed

lemma F_place_bare:
  assumes L: "layout_ok E" and r8: "8 dvd unat rsp" and r: "8704 \<le> unat rsp" and xa: "tf_xsave_area (get_tf E tf m0) = 0"
  shows "\<exists>a m'. push_tf E 16 (fetch tf (ly_tf_size E) m0) rsp 0 m = Some (a, m') \<and> copied E (FunctionCallTf tf) m0 m rsp (FunctionCallTf a) m'"
proof -
  have rr: "0 + 8704 \<le> unat rsp" using r by simp
  obtain a m' where a: "push_tf E 16 (fetch tf (ly_tf_size E) m0) rsp 0 m = Some (a, m')" "only (unat a) (unat rsp) m m'" "unat rsp \<le> unat a + 0 + 8704"
    "unat a + ly_tf_size E \<le> unat rsp" "unat (16::u64) dvd unat a" "8 dvd unat a" "get_tf E a m' = (get_tf E tf m0)\<lparr>tf_xsave_area := 0\<rparr>"
    using tf_place [OF L _ rr r8 _ _ only_refl, of 16 tf m0 0 m] by auto
  have "unat a + ly_tf_size E \<le> 2 ^ 64" using a(4) unat_lt_64 [of rsp] by linarith
  then have "copied E (FunctionCallTf tf) m0 m rsp (FunctionCallTf a) m'"
    using a(2-6) xa by (simp add: copied_def need_def placed_def saved_def Let_def a(7))
  then show ?thesis using a(1) by blast
qed

lemma F_place:
  assumes L: "layout_ok E" and n: "GetXsaveAreaSize E xa m0 = Some n" "576 \<le> n" and r: "n + 8704 \<le> unat rsp"
    and xa: "xa = tf_xsave_area (get_tf E tf m0)" "xa \<noteq> 0" and X: "X = AlignDown (rsp - of_nat n) (xalign E)" and m1: "m1 = store X (fetch xa n m0) m"
  shows "\<exists>a m'. push_tf E 16 (fetch tf (ly_tf_size E) m0) X X m1 = Some (a, m') \<and> copied E (FunctionCallTf tf) m0 m rsp (FunctionCallTf a) m'"
proof -
  note A = area_place [OF L r X m1]
  obtain a m' where a: "push_tf E 16 (fetch tf (ly_tf_size E) m0) X X m1 = Some (a, m')" "only (unat a) (unat rsp) m m'" "only (unat a) (unat X) m1 m'"
    "unat rsp \<le> unat a + n + 8704" "unat a + ly_tf_size E \<le> unat X" "unat (16::u64) dvd unat a" "8 dvd unat a"
    "get_tf E a m' = (get_tf E tf m0)\<lparr>tf_xsave_area := X\<rparr>"
    using tf_place [OF L _ r A(1-4), of 16 tf m0 X] by auto
  have top: "unat X + n \<le> 2 ^ 64" using A(2) unat_lt_64 [of rsp] by linarith
  have fX: "fetch X n m' = fetch xa n m0" using only_fetch [OF a(3), of X n] A(5) top by simp
  have S: "GetXsaveAreaSize E X m' = Some n" using xsize_at(1) [OF fX n(2)] n(1) by simp
  have "xarea E (FunctionCallTf a) m' = Some (X, n)" "xarea E (FunctionCallTf tf) m0 = Some (xa, n)"
    using A(6) xa(2) n(1) by (simp_all add: Let_def a(8) S xa(1) [symmetric])
  moreover have "unat a + ly_tf_size E \<le> 2 ^ 64" "unat a + ly_tf_size E \<le> unat rsp" "unat a \<le> unat X" using a(5) top A(2) by linarith+
  ultimately have "copied E (FunctionCallTf tf) m0 m rsp (FunctionCallTf a) m'"
    using a(2,4,6,7) A(2,6) n(2) top by (simp add: copied_def need_def placed_def saved_def Let_def a(8) S fX)
  then show ?thesis using a(1) by blast
qed

lemma CopyRawToStack_spec:
  assumes L: "layout_ok E" and ok: "frame_ok E (FunctionCallTf tf) m" and r8: "8 dvd unat rsp"
    and r: "need E (FunctionCallTf tf) m \<le> unat rsp"
    and b: "beside E (FunctionCallTf tf) (unat rsp - need E (FunctionCallTf tf) m) (unat rsp) m"
  shows "\<exists>a m'. CopyRawToStack E tf rsp m = Some (a, m') \<and> copied E (FunctionCallTf tf) m m rsp (FunctionCallTf a) m'"
proof (cases "tf_xsave_area (get_tf E tf m) = 0")
  case True
  have "8704 \<le> unat rsp" using r True by (simp add: need_def Let_def)
  from F_place_bare [OF L r8 this True, of m] True show ?thesis by (simp add: CopyRawToStack_def Let_def kStackAlign_def)
next
  case False
  define xa where "xa = tf_xsave_area (get_tf E tf m)"
  obtain n where n: "GetXsaveAreaSize E xa m = Some n" "576 \<le> n" and t64: "unat tf + ly_tf_size E \<le> 2 ^ 64"
    using ok False by (auto simp: Let_def xa_def)
  define X m1 where "X = AlignDown (rsp - of_nat n) (xalign E)" and "m1 = store X (fetch xa n m) m"
  have rr: "n + 8704 \<le> unat rsp" using r False n by (simp add: need_def Let_def xa_def)
  have tb: "unat tf + ly_tf_size E \<le> unat rsp - (n + 8704) \<or> unat rsp \<le> unat tf"
    using b False n by (simp add: beside_def need_def Let_def xa_def)
  note B = area_beside [OF L rr X_def m1_def tb t64]
  from F_place [OF L n rr xa_def False [folded xa_def] X_def m1_def]
  show ?thesis using n(1) False unfolding X_def m1_def
    by (simp add: CopyRawToStack_def Let_def kStackAlign_def xa_def [symmetric] B [unfolded m1_def X_def, simplified])
qed


text \<open>The thread's own area is outside a range of addresses.\<close>

definition own_beside :: "frame_env \<Rightarrow> nat \<Rightarrow> nat \<Rightarrow> bool" where
  "own_beside E lo hi \<longleftrightarrow> unat (th_xsave_area E) + xsave_area_size E \<le> lo \<or> hi \<le> unat (th_xsave_area E)"

lemma u_CopyToStack_keep:
  assumes L: "layout_ok E" and ok: "frame_ok E (UintrTf tf) m" and r8: "8 dvd unat rsp" and r: "need E (UintrTf tf) m \<le> unat rsp"
    and b: "beside E (UintrTf tf) (unat rsp - need E (UintrTf tf) m) (unat rsp) m"
    and xa: "tf_xsave_area (get_tf E tf m) = 0 \<or> tf_xsave_area (get_tf E tf m) = th_xsave_area E"
  shows "\<exists>a m'. u_CopyToStack E tf rsp m = Some (a, m') \<and> copied E (UintrTf tf) m m rsp (UintrTf a) m'"
proof -
  define x where "x = tf_xsave_area (get_tf E tf m)"
  have rr: "0 + 8704 \<le> unat rsp" using r by (simp add: need_def)
  obtain a m' where a: "push_tf E 8 (fetch tf (ly_tf_size E) m) rsp x m = Some (a, m')" "only (unat a) (unat rsp) m m'" "unat rsp \<le> unat a + 0 + 8704"
    "unat a + ly_tf_size E \<le> unat rsp" "8 dvd unat a" "get_tf E a m' = (get_tf E tf m)\<lparr>tf_xsave_area := x\<rparr>"
    using tf_place [OF L _ rr r8 _ _ only_refl, of 8 tf m x m] by auto
  have t: "get_tf E a m' = get_tf E tf m" using a(6) by (simp add: x_def)
  have a64: "unat a + ly_tf_size E \<le> 2 ^ 64" using a(4) unat_lt_64 [of rsp] by linarith
  have c: "u_CopyToStack E tf rsp m = Some (a, m')" using a(1) ok xa by (auto simp: u_CopyToStack_def Let_def x_def)
  have "copied E (UintrTf tf) m m rsp (UintrTf a) m'"
  proof (cases "x = 0")
    case True
    then show ?thesis using a(2-5) a64 by (simp add: copied_def need_def placed_def saved_def Let_def t x_def)
  next
    case False
    define n where "n = ly_GetXSaveSize E (fetch x 576 m)"
    have n: "576 \<le> n" using layout_okD(8) [OF L] by (simp add: n_def)
    have xb: "unat x + n \<le> unat rsp - (n + 8704) \<or> unat rsp \<le> unat x" "unat x + n \<le> 2 ^ 64"
      using b ok False by (simp_all add: beside_def need_def Let_def x_def n_def)
    have rn: "n + 8704 \<le> unat rsp" using r False by (simp add: need_def Let_def x_def n_def)
    have f: "fetch x n m' = fetch x n m" using only_fetch [OF a(2), of x n] xb rn a(3) by linarith
    note S = xsize_at(2) [OF f n]
    have "xarea E (UintrTf a) m' = Some (x, n)" "xarea E (UintrTf tf) m = Some (x, n)"
      using False by (simp_all add: Let_def t x_def [symmetric] S n_def)
    moreover have "th_xsave_area E = x" using xa False by (simp add: x_def)
    ultimately show ?thesis using a(2-5) a64 ok False f
      by (simp add: copied_def need_def placed_def saved_def Let_def t x_def [symmetric] S)
  qed
  then show ?thesis using c by blast
qed

lemma U_place:
  assumes L: "layout_ok E" and n: "n = ly_GetXSaveSize E (fetch xa 576 m0)" and r: "n + 8704 \<le> unat rsp"
    and xa: "xa = tf_xsave_area (get_tf E tf m0)" "xa \<noteq> 0" and X: "X = AlignDown (rsp - of_nat n) (xalign E)" and m1: "m1 = store X (fetch xa n m0) m"
    and own: "own_beside E (unat rsp - (n + 8704)) (unat rsp)"
  shows "\<exists>a m'. push_tf E 8 (fetch tf (ly_tf_size E) m0) X X m1 = Some (a, m') \<and> copied E (UintrTf tf) m0 m rsp (UintrTf a) m'"
proof -
  have n5: "576 \<le> n" using layout_okD(8) [OF L] by (simp add: n)
  note A = area_place [OF L r X m1]
  obtain a m' where a: "push_tf E 8 (fetch tf (ly_tf_size E) m0) X X m1 = Some (a, m')" "only (unat a) (unat rsp) m m'" "only (unat a) (unat X) m1 m'"
    "unat rsp \<le> unat a + n + 8704" "unat a + ly_tf_size E \<le> unat X" "8 dvd unat a"
    "get_tf E a m' = (get_tf E tf m0)\<lparr>tf_xsave_area := X\<rparr>"
    using tf_place [OF L _ r A(1-4), of 8 tf m0 X] by auto
  have top: "unat X + n \<le> 2 ^ 64" using A(2) unat_lt_64 [of rsp] by linarith
  have fX: "fetch X n m' = fetch xa n m0" using only_fetch [OF a(3), of X n] A(5) top by simp
  have S: "ly_GetXSaveSize E (fetch X 576 m') = n" using xsize_at(2) [OF fX n5] by (simp add: n)
  have "X \<noteq> th_xsave_area E"
  proof
    assume "X = th_xsave_area E"
    then have "unat X \<le> unat rsp - (n + 8704) \<or> unat rsp \<le> unat X" using own by (auto simp: own_beside_def)
    then show False using A(2,3) r n5 by linarith
  qed
  moreover have "xarea E (UintrTf a) m' = Some (X, n)" "xarea E (UintrTf tf) m0 = Some (xa, n)"
    using A(6) xa(2) by (simp_all add: Let_def a(7) S xa(1) [symmetric] n)
  moreover have "unat a + ly_tf_size E \<le> 2 ^ 64" "unat a + ly_tf_size E \<le> unat rsp" "unat a \<le> unat X" using a(5) top A(2) by linarith+
  ultimately have "copied E (UintrTf tf) m0 m rsp (UintrTf a) m'"
    using a(2,4,6) A(2,6) top by (simp add: copied_def need_def placed_def saved_def Let_def a(7) S fX)
  then show ?thesis using a(1) by blast
qed

lemma u_CopyToStack_copy:
  assumes L: "layout_ok E" and ok: "frame_ok E (UintrTf tf) m" and r8: "8 dvd unat rsp" and r: "need E (UintrTf tf) m \<le> unat rsp"
    and b: "beside E (UintrTf tf) (unat rsp - need E (UintrTf tf) m) (unat rsp) m"
    and own: "own_beside E (unat rsp - need E (UintrTf tf) m) (unat rsp)"
    and nz: "tf_xsave_area (get_tf E tf m) \<noteq> 0" "tf_xsave_area (get_tf E tf m) \<noteq> th_xsave_area E"
  shows "\<exists>a m'. u_CopyToStack E tf rsp m = Some (a, m') \<and> copied E (UintrTf tf) m m rsp (UintrTf a) m'"
proof -
  define xa n where "xa = tf_xsave_area (get_tf E tf m)" and "n = ly_GetXSaveSize E (fetch xa 576 m)"
  define X m1 where "X = AlignDown (rsp - of_nat n) (xalign E)" and "m1 = store X (fetch xa n m) m"
  have nd: "need E (UintrTf tf) m = n + 8704" using nz(1) by (simp add: need_def Let_def xa_def n_def)
  have rr: "n + 8704 \<le> unat rsp" using r nd by simp
  have t64: "unat tf + ly_tf_size E \<le> 2 ^ 64" using ok by (simp add: Let_def)
  have tb: "unat tf + ly_tf_size E \<le> unat rsp - (n + 8704) \<or> unat rsp \<le> unat tf" using b nd by (simp add: beside_def)
  note B = area_beside [OF L rr X_def m1_def tb t64]
  from U_place [OF L n_def rr xa_def nz(1) [folded xa_def] X_def m1_def own [unfolded nd]]
  show ?thesis using nz unfolding X_def m1_def
    by (simp add: u_CopyToStack_def Let_def xa_def [symmetric] n_def [symmetric] B [unfolded m1_def X_def, simplified])
qed

lemma CopyFrame_spec:
  assumes "layout_ok E" "frame_ok E tf m" "8 dvd unat rsp" "need E tf m \<le> unat rsp"
    "beside E tf (unat rsp - need E tf m) (unat rsp) m" "own_beside E (unat rsp - need E tf m) (unat rsp)"
  shows "\<exists>tf' m'. CopyFrame E tf rsp m = Some (tf', m') \<and> copied E tf m m rsp tf' m' \<and> sigframe_type tf' = sigframe_type tf"
proof (cases tf)
  case (KernelSignalTf a)
  then show ?thesis using k_CopyToStack_spec [of E a m rsp] assms by fastforce
next
  case (UintrTf a)
  then show ?thesis using u_CopyToStack_keep [of E a m rsp] u_CopyToStack_copy [of E a m rsp] assms
    by (cases "tf_xsave_area (get_tf E a m) = 0 \<or> tf_xsave_area (get_tf E a m) = th_xsave_area E") fastforce+
next
  case (FunctionCallTf a)
  then show ?thesis using CopyRawToStack_spec [of E a m rsp] assms by fastforce
qed


section \<open>A signal on the stack\<close>

text \<open>\<open>keeps lo hi m m'\<close>: the memories agree at addresses from \<open>lo\<close> up to \<open>hi\<close>.\<close>

definition keeps :: "nat \<Rightarrow> nat \<Rightarrow> memory \<Rightarrow> memory \<Rightarrow> bool" where
  "keeps lo hi m m' \<longleftrightarrow> (\<forall>x. lo \<le> unat x \<and> unat x < hi \<longrightarrow> m' x = m x)"

definition own_kept :: "frame_env \<Rightarrow> memory \<Rightarrow> memory \<Rightarrow> bool" where
  "own_kept E m m' \<longleftrightarrow> same (th_xsave_area E) (xsave_area_size E) m m'"

lemma keeps_same:
  assumes "keeps lo hi m m'" "lo \<le> unat a" "unat a + n \<le> hi" "hi \<le> 2 ^ 64"
  shows "same a n m m'"
  unfolding same_def
proof (rule nth_equalityI)
  fix i assume "i < length (fetch a n m')"
  then have i: "i < n" by simp
  then have "unat (a + of_nat i) = unat a + i" using assms by (intro unat_offset) linarith
  then show "fetch a n m' ! i = fetch a n m ! i" using assms i by (simp add: keeps_def)
qed simp

lemma only_keeps: "only lo hi m m' \<Longrightarrow> hi' \<le> lo \<or> hi \<le> lo' \<Longrightarrow> keeps lo' hi' m m'"
  unfolding only_def keeps_def by (meson le_trans less_le_trans)

lemma keeps_trans: "keeps lo hi m m' \<Longrightarrow> keeps lo hi m' m'' \<Longrightarrow> keeps lo hi m m''"
  by (simp add: keeps_def)

lemma keeps_sub: "keeps lo hi m m' \<Longrightarrow> lo \<le> lo' \<Longrightarrow> hi' \<le> hi \<Longrightarrow> keeps lo' hi' m m'"
  unfolding keeps_def by (meson le_trans less_le_trans)

definition need_of :: "u64 \<times> (byte list + thread_tf) \<times> byte list option \<Rightarrow> nat" where
  "need_of S = (case snd (snd S) of None \<Rightarrow> 0 | Some bs \<Rightarrow> length bs) + 8704"

lemma need_saved: "need E tf m = need_of (saved E tf m)"
  by (auto simp: need_def need_of_def saved_def split: option.splits)

text \<open>The frame of a signal at \<open>k\<close>, whose bytes lie below \<open>hi\<close>: it saves the mask, the alternate stack and a trap frame
  with contents \<open>S\<close> and stack pointer \<open>r\<close>.\<close>

definition sig_on_stack ::
    "frame_env \<Rightarrow> DeliveredSignal \<Rightarrow> u64 \<Rightarrow> nat \<Rightarrow> u64 \<times> (byte list + thread_tf) \<times> byte list option \<Rightarrow> u64 \<Rightarrow> memory \<Rightarrow> bool" where
  "sig_on_stack E sig k hi S r m \<longleftrightarrow> unat k mod 16 = 8 \<and> hi \<le> 2 ^ 64 \<and> fetch64 k m = restorer (ds_act sig) \<and>
     fetch64 (k + k_mask) m = ds_prev_blocked sig \<and> get_stack_t k m = ds_ss sig \<and>
     fetch64 (k + 440 + 16) m = kJunctionFrameMagic \<and> unat k + 472 \<le> hi \<and>
     (\<exists>tf. get_jframe (k + 440) m = Some tf \<and> frame_ok E tf m \<and> saved E tf m = S \<and> GetRsp E tf m = r \<and> placed E tf hi m \<and>
        unat k \<le> unat (tf_addr tf) \<and> unat (tf_addr tf) + frame_size E tf \<le> hi)"

lemma placed_same_frame:
  assumes L: "layout_ok E" and ok: "frame_ok E tf m" and p: "placed E tf hi m" and a: "lo \<le> unat (tf_addr tf)" "unat (tf_addr tf) + frame_size E tf \<le> hi"
    and h: "hi \<le> 2 ^ 64" and k: "keeps lo hi m m'" and o: "own_kept E m m'"
  shows "same_frame E tf m m'"
proof -
  have "same (tf_addr tf) (frame_size E tf) m m'" by (rule keeps_same [OF k a h])
  moreover have "same x n m m'" if x: "xarea E tf m = Some (x, n)" for x n
  proof (cases "sigframe_type tf = 1 \<and> x = th_xsave_area E")
    case True
    then have "n \<le> xsave_area_size E" using x ok by (cases tf) (auto simp: Let_def split: if_splits)
    then show ?thesis using o True same_le by (auto simp: own_kept_def)
  next
    case False
    then have "lo \<le> unat x" "unat x + n \<le> hi" using p x a by (auto simp: placed_def)
    then show ?thesis by (rule keeps_same [OF k _ _ h])
  qed
  ultimately show ?thesis by (auto simp: same_frame_def split: option.splits)
qed

lemma sig_on_stack_kept:
  assumes L: "layout_ok E" and s: "sig_on_stack E sig k hi S r m" and k: "keeps (unat k) hi m m'" and o: "own_kept E m m'"
  shows "sig_on_stack E sig k hi S r m'"
proof -
  obtain tf where tf: "get_jframe (k + 440) m = Some tf" "frame_ok E tf m" "saved E tf m = S" "GetRsp E tf m = r" "placed E tf hi m"
    "unat k \<le> unat (tf_addr tf)" "unat (tf_addr tf) + frame_size E tf \<le> hi" and h: "hi \<le> 2 ^ 64" and kh: "unat k + 472 \<le> hi"
    using s by (auto simp: sig_on_stack_def)
  have sf: "same_frame E tf m m'" by (rule placed_same_frame [OF L tf(2,5,6,7) h k o])
  note F = frame_cong [OF L tf(2) sf]
  have p: "placed E tf hi m'" using F tf(5) by (simp add: placed_def)
  have b: "same k 472 m m'" using kh by (intro keeps_same [OF k _ _ h]) linarith+
  have w: "fetch64 (k + of_nat i) m' = fetch64 (k + of_nat i) m" if "i + 8 \<le> 472" for i using same_fetch64 [OF b that] .
  have d: "fetch32 (k + of_nat i) m' = fetch32 (k + of_nat i) m" if "i + 4 \<le> 472" for i using same_fetch32 [OF b that] .
  have "get_stack_t k m' = get_stack_t k m" using w [of 24] w [of 40] d [of 32] by (simp add: get_stack_t_def k_offsets)
  moreover have "get_jframe (k + 440) m' = get_jframe (k + 440) m" using w [of 440] w [of 448] by (simp add: get_jframe_def add.assoc)
  moreover have "fetch64 (k + 440 + 16) m' = fetch64 (k + 440 + 16) m" using w [of 456] by (simp add: add.assoc)
  moreover have "fetch64 (k + k_mask) m' = fetch64 (k + k_mask) m" "fetch64 k m' = fetch64 k m"
    using w [of 304] w [of 0] by (simp_all add: k_mask_def)
  ultimately show ?thesis using s tf F p by (auto simp: sig_on_stack_def)
qed


section \<open>Pushing a signal\<close>

lemma beside_64_64:
  assumes "unat k + 440 \<le> 2 ^ 64" "i + 8 \<le> 440" "j + 8 \<le> 440" "i + 8 \<le> j \<or> j + 8 \<le> i"
  shows "fetch64 (k + of_nat i) (store64 (k + of_nat j) v m) = fetch64 (k + of_nat i) m"
  unfolding fetch64_def store64_def using assms by (subst fetch_store_beside) simp_all

lemma beside_32_64:
  assumes "unat k + 440 \<le> 2 ^ 64" "i + 4 \<le> 440" "j + 8 \<le> 440" "i + 4 \<le> j \<or> j + 8 \<le> i"
  shows "fetch32 (k + of_nat i) (store64 (k + of_nat j) v m) = fetch32 (k + of_nat i) m"
  unfolding fetch32_def store64_def using assms by (subst fetch_store_beside) simp_all

lemma beside_64_32:
  assumes "unat k + 440 \<le> 2 ^ 64" "i + 8 \<le> 440" "j + 4 \<le> 440" "i + 8 \<le> j \<or> j + 4 \<le> i"
  shows "fetch64 (k + of_nat i) (store32 (k + of_nat j) v m) = fetch64 (k + of_nat i) m"
  unfolding fetch64_def store32_def using assms by (subst fetch_store_beside) simp_all

lemma beside_0:
  assumes "unat k + 440 \<le> 2 ^ 64" "8 \<le> j"
  shows "j + 8 \<le> 440 \<Longrightarrow> fetch64 k (store64 (k + of_nat j) v m) = fetch64 k m"
    "j + 4 \<le> 440 \<Longrightarrow> fetch64 k (store32 (k + of_nat j) w m) = fetch64 k m"
  using beside_64_64 [of k 0 j v m] beside_64_32 [of k 0 j w m] assms by simp_all

lemmas besides = beside_64_64 [where i = "numeral i" and j = "numeral j", unfolded of_nat_numeral]
  beside_0 [where j = "numeral j", unfolded of_nat_numeral]
  beside_32_64 [where i = "numeral i" and j = "numeral j", unfolded of_nat_numeral]
  beside_64_32 [where i = "numeral i" and j = "numeral j", unfolded of_nat_numeral] for i j

lemma store64_off_only:
  assumes "unat k + 440 \<le> 2 ^ 64" "j + 8 \<le> 440"
  shows "only (unat k) (unat k + 440) m (store64 (k + of_nat j) v m)"
proof -
  have "unat (k + of_nat j) = unat k + j" using assms by (intro unat_offset) linarith
  then show ?thesis using assms by (intro store64_only) linarith+
qed

lemma store32_off_only:
  assumes "unat k + 440 \<le> 2 ^ 64" "j + 4 \<le> 440"
  shows "only (unat k) (unat k + 440) m (store32 (k + of_nat j) v m)"
proof -
  have "unat (k + of_nat j) = unat k + j" using assms by (intro unat_offset) linarith
  then show ?thesis using assms by (intro store32_only) linarith+
qed

lemmas off_only = store64_off_only [where j = "numeral j", unfolded of_nat_numeral]
  store32_off_only [where j = "numeral j", unfolded of_nat_numeral] for j

lemma fake_kframe_fields:
  assumes "unat k + 440 \<le> 2 ^ 64"
  shows "fetch64 k (fake_kframe k sig m) = restorer (ds_act sig)" "fetch64 (k + k_mask) (fake_kframe k sig m) = ds_prev_blocked sig"
    "get_stack_t k (fake_kframe k sig m) = ds_ss sig" "only (unat k) (unat k + 440) m (fake_kframe k sig m)"
proof -
  show "fetch64 k (fake_kframe k sig m) = restorer (ds_act sig)" "fetch64 (k + k_mask) (fake_kframe k sig m) = ds_prev_blocked sig"
    "get_stack_t k (fake_kframe k sig m) = ds_ss sig"
    using assms by (simp_all add: fake_kframe_def put_stack_t_def get_stack_t_def k_offsets besides)
  have z: "only (unat k) (unat k + 440) m (store64 k v m)" for m v using assms by (intro store64_only) simp_all
  show "only (unat k) (unat k + 440) m (fake_kframe k sig m)"
    unfolding fake_kframe_def put_stack_t_def k_offsets comp_apply
    by (intro only_trans [OF _ off_only(1) [OF assms]] only_trans [OF _ off_only(2) [OF assms]] z) simp_all
qed

lemma put_jframe_fields:
  assumes "unat j + 32 \<le> 2 ^ 64"
  shows "get_jframe j (put_jframe j tf m) = Some tf" "fetch64 (j + 16) (put_jframe j tf m) = kJunctionFrameMagic"
    "only (unat j) (unat j + 32) m (put_jframe j tf m)"
proof -
  have b: "fetch64 j (store64 (j + 8) v m) = fetch64 j m" "fetch64 j (store64 (j + 16) v m) = fetch64 j m"
    "fetch64 (j + 8) (store64 (j + 16) v m) = fetch64 (j + 8) m" for v m
    using assms fetch_store_beside [of j 0 8 8 "le_enc 8 (unat v)" m] fetch_store_beside [of j 0 8 16 "le_enc 8 (unat v)" m]
      fetch_store_beside [of j 8 8 16 "le_enc 8 (unat v)" m] by (simp_all add: fetch64_def store64_def)
  show "get_jframe j (put_jframe j tf m) = Some tf" by (cases tf) (simp_all add: get_jframe_def put_jframe_def b)
  show "fetch64 (j + 16) (put_jframe j tf m) = kJunctionFrameMagic" by (simp add: put_jframe_def)
  have "only (unat j) (unat j + 32) m (store64 j v m)" "only (unat j) (unat j + 32) m (store64 (j + 8) v m)"
    "only (unat j) (unat j + 32) m (store64 (j + 16) v m)" for v m
    using assms unat_offset [of j 8] unat_offset [of j 16] by (intro store64_only; simp)+
  then show "only (unat j) (unat j + 32) m (put_jframe j tf m)" unfolding put_jframe_def comp_apply by (meson only_trans)
qed


lemma beside_mono: "beside E tf lo hi m \<Longrightarrow> lo \<le> lo' \<Longrightarrow> hi' \<le> hi \<Longrightarrow> beside E tf lo' hi' m"
  unfolding beside_def by (auto split: option.splits)

lemma own_beside_mono: "own_beside E lo hi \<Longrightarrow> lo \<le> lo' \<Longrightarrow> hi' \<le> hi \<Longrightarrow> own_beside E lo' hi'"
  unfolding own_beside_def by linarith

text \<open>The own area ends in the address space.\<close>

definition own_ok :: "frame_env \<Rightarrow> bool" where
  "own_ok E \<longleftrightarrow> unat (th_xsave_area E) + xsave_area_size E \<le> 2 ^ 64"

lemma only_own_kept: "own_ok E \<Longrightarrow> only lo hi m m' \<Longrightarrow> own_beside E lo hi \<Longrightarrow> own_kept E m m'"
  unfolding own_kept_def same_def by (rule only_fetch) (auto simp: own_beside_def own_ok_def)

lemma beside_same_frame:
  assumes "frame_ok E tf m" "beside E tf lo hi m" "only lo hi m m'"
  shows "same_frame E tf m m'"
proof -
  have "unat (tf_addr tf) + frame_size E tf \<le> 2 ^ 64" using assms(1) by (cases tf) (simp_all add: Let_def)
  moreover have "unat x + n \<le> 2 ^ 64" if "xarea E tf m = Some (x, n)" for x n
    using assms(1) that by (cases tf) (auto simp: Let_def split: if_splits)
  ultimately show ?thesis using assms(2) only_fetch [OF assms(3)]
    by (auto simp: same_frame_def beside_def same_def split: option.splits)
qed

lemma CloneSigframe_spec:
  assumes L: "layout_ok E" and ok: "frame_ok E tf m" and r8: "8 dvd unat rsp" and r: "lo + need E tf m + 48 \<le> unat rsp"
    and b: "beside E tf lo (unat rsp) m" and own: "own_beside E lo (unat rsp)" "own_ok E"
  shows "\<exists>j tf' m'. CloneSigframe E tf rsp m = Some (j, m') \<and> only (unat j) (unat rsp) m m' \<and> 16 dvd unat j \<and>
    unat j + 32 \<le> unat (tf_addr tf') \<and> unat rsp \<le> unat j + need E tf m + 48 \<and> get_jframe j m' = Some tf' \<and>
    fetch64 (j + 16) m' = kJunctionFrameMagic \<and> frame_ok E tf' m' \<and> saved E tf' m' = saved E tf m \<and> GetRsp E tf' m' = GetRsp E tf m \<and>
    placed E tf' (unat rsp) m' \<and> unat (tf_addr tf') + frame_size E tf' \<le> unat rsp"
proof -
  have "beside E tf (unat rsp - need E tf m) (unat rsp) m" "own_beside E (unat rsp - need E tf m) (unat rsp)"
    using r beside_mono [OF b] own_beside_mono [OF own(1)] by simp_all
  then obtain tf' m1 where c: "CopyFrame E tf rsp m = Some (tf', m1)" "copied E tf m m rsp tf' m1"
    using CopyFrame_spec [OF L ok r8] r by auto
  note C = c(2) [unfolded copied_def]
  have cO: "only (unat (tf_addr tf')) (unat rsp) m m1" and cB: "unat (tf_addr tf') + frame_size E tf' \<le> unat rsp" using C by blast+
  have t8: "8 dvd unat (tf_addr tf')" "32 + 16 \<le> unat (tf_addr tf')" using C r by linarith+
  obtain j where j: "AllocateOnStack 32 16 (tf_addr tf') = Some j" "16 dvd unat j" "unat j + 32 \<le> unat (tf_addr tf')" "unat (tf_addr tf') < unat j + 32 + 16"
    using alloc16 [OF t8] by auto
  have top: "unat rsp \<le> 2 ^ 64" using unat_lt_64 [of rsp] by linarith
  have j64: "unat j + 32 \<le> 2 ^ 64" using j(3) cB top by linarith
  have jlo: "unat rsp \<le> unat j + need E tf m + 48" "lo \<le> unat j" using C j(4) r by linarith+
  define m' where "m' = put_jframe j tf' m1"
  note P = put_jframe_fields [OF j64, where tf = tf' and m = m1, folded m'_def]
  have k: "keeps (unat (tf_addr tf')) (unat rsp) m1 m'" using only_keeps [OF P(3)] j(3) by simp
  have o: "own_kept E m1 m'" using only_own_kept [OF own(2) P(3)] own_beside_mono [OF own(1), of "unat j" "unat j + 32"] jlo j(3) cB by simp
  have ok1: "frame_ok E tf' m1" "placed E tf' (unat rsp) m1" using C by blast+
  have "same_frame E tf' m1 m'" by (rule placed_same_frame [OF L ok1 le_refl cB top k o])
  note F = frame_cong [OF L ok1(1) this]
  have "only (unat j) (unat rsp) m m'"
  proof (rule only_trans)
    show "only (unat j) (unat rsp) m m1" using j(3) by (intro only_mono [OF cO]) linarith+
    show "only (unat j) (unat rsp) m1 m'" using cB j(3) by (intro only_mono [OF P(3)]) linarith+
  qed
  moreover have "CloneSigframe E tf rsp m = Some (j, m')" using c(1) j(1) by (simp add: CloneSigframe_def jframe_size_def m'_def)
  moreover have "placed E tf' (unat rsp) m'" using F ok1(2) by (simp add: placed_def)
  moreover have "saved E tf' m' = saved E tf m" "GetRsp E tf' m' = GetRsp E tf m" using F C by simp_all
  ultimately show ?thesis using j(2,3) jlo(1) P(1,2) F cB by blast
qed


lemma placed_mono: "placed E tf hi m \<Longrightarrow> hi \<le> hi' \<Longrightarrow> placed E tf hi' m"
  unfolding placed_def by (auto split: option.splits)

lemma fake_frame_spec:
  assumes L: "layout_ok E" and j: "16 dvd unat j" "lo + 440 \<le> unat j" "unat j + 32 \<le> unat (tf_addr tf)"
    and g: "get_jframe j m = Some tf" "fetch64 (j + 16) m = kJunctionFrameMagic" and ok: "frame_ok E tf m"
    and pl: "placed E tf hi m" and bd: "unat (tf_addr tf) + frame_size E tf \<le> hi" and top: "hi \<le> 2 ^ 64"
    and own: "own_beside E lo hi" "own_ok E"
  shows "\<exists>k. AllocateOnStack k_size 8 j = Some k \<and> unat k + 440 = unat j \<and> k mod 16 = 8 \<and>
    only (unat k) (unat j) m (fake_kframe k sig m) \<and> keeps (unat j) hi m (fake_kframe k sig m) \<and>
    sig_on_stack E sig k hi (saved E tf m) (GetRsp E tf m) (fake_kframe k sig m)"
proof -
  have j8: "8 dvd unat j" using j(1) by presburger
  obtain k where k: "AllocateOnStack k_size 8 j = Some k" "unat k = unat j - 440"
    using alloc8 [OF j8, of k_size] j(2) by (auto simp: k_size_def)
  have kj: "unat k + 440 = unat j" "lo \<le> unat k" using k(2) j(2) by linarith+
  have jk: "j = k + 440"
  proof -
    have "unat (k + 440) = unat j" using unat_offset [of k 440] kj unat_lt_64 [of j] by simp
    then show ?thesis by (simp add: word_unat_eq_iff)
  qed
  have k64: "unat k + 440 \<le> 2 ^ 64" using kj unat_lt_64 [of j] by linarith
  define m' where "m' = fake_kframe k sig m"
  note K = fake_kframe_fields [OF k64, where sig = sig and m = m, folded m'_def]
  have k16: "unat k mod 16 = 8" by (rule k_align [OF j(1) kj(1)])
  have kp: "keeps (unat j) hi m m'" using only_keeps [OF K(4)] kj by simp
  have jhi: "unat j + 32 \<le> hi" using j(3) bd by linarith
  have ok2: "own_kept E m m'" using only_own_kept [OF own(2) K(4)] own_beside_mono [OF own(1), of "unat k" "unat k + 440"] kj jhi by simp
  have aj: "unat j \<le> unat (tf_addr tf)" using j(3) by linarith
  note F2 = frame_cong [OF L ok placed_same_frame [OF L ok pl aj bd top kp ok2]]
  have sj: "same j 32 m m'" using jhi by (intro keeps_same [OF kp _ _ top]) linarith+
  have "get_jframe j m' = Some tf" "fetch64 (j + 16) m' = kJunctionFrameMagic"
    using same_fetch64 [OF sj, of 0] same_fetch64 [OF sj, of 8] same_fetch64 [OF sj, of 16] g by (simp_all add: get_jframe_def)
  moreover have "placed E tf hi m'" using pl F2 by (simp add: placed_def)
  moreover have "unat k \<le> unat (tf_addr tf)" "unat k + 472 \<le> hi" using kj j(3) jhi by linarith+
  ultimately have "sig_on_stack E sig k hi (saved E tf m) (GetRsp E tf m) m'"
    unfolding sig_on_stack_def using k16 top K F2 bd jk by auto
  moreover have "k mod 16 = 8" using k16 by (simp add: word_unat_eq_iff unat_mod_distrib)
  ultimately show ?thesis using k(1) kj K(4) kp unfolding m'_def by auto
qed

lemma PushUserSigFrame_spec:
  assumes L: "layout_ok E" and ok: "frame_ok E prev m" and rsp0: "rsp0 = FixRspAltstack sig rsp" and r8: "8 dvd unat rsp0"
    and r: "lo + need E prev m + 640 \<le> unat rsp0" and b: "beside E prev lo (unat rsp0) m" and own: "own_beside E lo (unat rsp0)" "own_ok E"
    and nf: "unat nf + ly_tf_size E \<le> 2 ^ 64" "unat nf + ly_tf_size E \<le> lo \<or> unat rsp0 \<le> unat nf"
  shows "\<exists>k info m3. PushUserSigFrame E sig rsp prev nf m = Some (k, put_tf E nf (handler_tf sig k info (get_tf E nf m)) m3) \<and>
    only (unat k) (unat rsp0) m m3 \<and> sig_on_stack E sig k (unat rsp0) (saved E prev m) (GetRsp E prev m) m3 \<and>
    unat rsp0 \<le> unat k + need E prev m + 640 \<and> unat k + 472 \<le> unat rsp0 \<and> unat info = unat rsp0 - 128 \<and>
    fetch info 128 m3 = ly_si_enc E (ds_info sig)"
proof -
  have top: "unat rsp0 < 2 ^ 64" by (rule unat_lt_64)
  obtain info where i: "AllocateOnStack siginfo_size 8 rsp0 = Some info" "unat info = unat rsp0 - 128"
    using alloc8 [OF r8, of siginfo_size] r by (auto simp: siginfo_size_def need_def)
  have ir: "unat info + 128 = unat rsp0" "lo \<le> unat info" using i(2) r by (simp_all add: need_def)
  define m1 where "m1 = store info (ly_si_enc E (ds_info sig)) m"
  have o1: "only (unat info) (unat rsp0) m m1" unfolding m1_def using ir top layout_okD(7) [OF L] by (intro store_only) simp_all
  have f1: "fetch info 128 m1 = ly_si_enc E (ds_info sig)"
    using fetch_store_same [of "ly_si_enc E (ds_info sig)" info m] layout_okD(7) [OF L] by (simp add: m1_def)
  have "same_frame E prev m m1" using ir by (intro beside_same_frame [OF ok b] only_mono [OF o1]) simp_all
  note F1 = frame_cong [OF L ok this]
  have ok1: "frame_ok E prev m1" and n1: "need E prev m1 = need E prev m" and S1: "saved E prev m1 = saved E prev m" "GetRsp E prev m1 = GetRsp E prev m"
    using F1 by (simp_all add: need_saved)
  have i8: "8 dvd unat info" using r8 ir by presburger
  have b1: "beside E prev lo (unat info) m1" using F1 b ir unfolding beside_def by (auto split: option.splits)
  have r1: "lo + need E prev m1 + 48 \<le> unat info" using r ir n1 by linarith
  have ow1: "own_beside E lo (unat info)" using ir by (intro own_beside_mono [OF own(1)]) simp_all
  obtain j tf' m2 where c: "CloneSigframe E prev info m1 = Some (j, m2)" "only (unat j) (unat info) m1 m2" "16 dvd unat j"
    "unat j + 32 \<le> unat (tf_addr tf')" "unat info \<le> unat j + need E prev m1 + 48" "get_jframe j m2 = Some tf'" "fetch64 (j + 16) m2 = kJunctionFrameMagic"
    "frame_ok E tf' m2" "saved E tf' m2 = saved E prev m1" "GetRsp E tf' m2 = GetRsp E prev m1" "placed E tf' (unat info) m2"
    "unat (tf_addr tf') + frame_size E tf' \<le> unat info"
    using CloneSigframe_spec [OF L ok1 i8 r1 b1 ow1 own(2)] by metis
  have top': "unat rsp0 \<le> 2 ^ 64" and j440: "lo + 440 \<le> unat j" using top c(5) r ir n1 by linarith+
  have pl: "placed E tf' (unat rsp0) m2" using ir by (intro placed_mono [OF c(11)]) simp
  have bd: "unat (tf_addr tf') + frame_size E tf' \<le> unat rsp0" using c(12) ir by linarith
  obtain k where k: "AllocateOnStack k_size 8 j = Some k" "unat k + 440 = unat j" "k mod 16 = 8"
    "only (unat k) (unat j) m2 (fake_kframe k sig m2)" "keeps (unat j) (unat rsp0) m2 (fake_kframe k sig m2)"
    "sig_on_stack E sig k (unat rsp0) (saved E prev m) (GetRsp E prev m) (fake_kframe k sig m2)"
    using fake_frame_spec [OF L c(3) j440 c(4,6,7,8) pl bd top' own] unfolding c(9,10) S1 by blast
  define m3 where "m3 = fake_kframe k sig m2"
  have o3: "only (unat k) (unat rsp0) m m3"
  proof (rule only_trans [OF only_trans])
    show "only (unat k) (unat rsp0) m m1" using k(2) c(4,12) by (intro only_mono [OF o1]) linarith+
    show "only (unat k) (unat rsp0) m1 m2" using k(2) ir by (intro only_mono [OF c(2)]) linarith+
    show "only (unat k) (unat rsp0) m2 m3" unfolding m3_def using c(4) bd by (intro only_mono [OF k(4)]) linarith+
  qed
  have "fetch info 128 m2 = fetch info 128 m1" using only_fetch [OF c(2), of info 128] ir top by simp
  moreover have "same info 128 m2 m3" unfolding m3_def using ir c(4,12) by (intro keeps_same [OF k(5) _ _ top']) linarith+
  ultimately have fi: "fetch info 128 m3 = ly_si_enc E (ds_info sig)" using f1 by (simp add: same_def)
  have "get_tf E nf m3 = get_tf E nf m" using only_fetch [OF o3, of nf "ly_tf_size E"] nf k(2) j440 by (auto simp: get_tf_def)
  then have "PushUserSigFrame E sig rsp prev nf m = Some (k, put_tf E nf (handler_tf sig k info (get_tf E nf m)) m3)"
    using i(1) c(1) k(1,3) by (simp add: PushUserSigFrame_def PushToStack_def rsp0 [symmetric] m1_def [symmetric] m3_def [symmetric] Let_def)
  moreover have "unat rsp0 \<le> unat k + need E prev m + 640" "unat k + 472 \<le> unat rsp0" using c(5,4) k(2) ir n1 bd by linarith+
  ultimately show ?thesis using o3 k(6) i(2) fi unfolding m3_def by blast
qed


section \<open>Returning\<close>

text \<open>The stack for system calls has room for a copy of a frame.\<close>

definition sys_ok :: "frame_env \<Rightarrow> nat \<Rightarrow> bool" where
  "sys_ok E n \<longleftrightarrow> 8 dvd unat (sys_rsp E) \<and> unat (sys_top E) + ly_wrap E + n < unat (sys_rsp E) \<and> sys_rsp E \<le> sys_bottom E \<and>
     own_beside E (unat (sys_top E)) (unat (sys_rsp E))"

lemma placed_beside:
  assumes "frame_ok E tf m" "placed E tf hi m" "lo \<le> unat (tf_addr tf)" "unat (tf_addr tf) + frame_size E tf \<le> hi"
    "hi \<le> lo' \<or> hi' \<le> lo" "own_beside E lo' hi'"
  shows "beside E tf lo' hi' m"
proof -
  have "unat x + n \<le> lo' \<or> hi' \<le> unat x" if x: "xarea E tf m = Some (x, n)" for x n
  proof (cases "sigframe_type tf = 1 \<and> x = th_xsave_area E")
    case True
    then have "n \<le> xsave_area_size E" using x assms(1) by (cases tf) (auto simp: Let_def split: if_splits)
    then show ?thesis using True assms(6) by (auto simp: own_beside_def)
  next
    case False
    then show ?thesis using assms(2,3,5) x by (auto simp: placed_def)
  qed
  then show ?thesis using assms(3-5) by (auto simp: beside_def split: option.splits)
qed

fun unwinder_of :: "Trapframe \<Rightarrow> unwinder" where
  "unwinder_of (KernelSignalTf _) = kframe_unwind_loop"
| "unwinder_of (UintrTf _) = UintrLoopReturn"
| "unwinder_of (FunctionCallTf _) = fncall_return_exit_loop"

lemma MakeUnwinderSysret_spec:
  assumes "rsp_on_syscall_stack E w" "rsp_on_syscall_stack E (tf_addr tf)" "frame_aligned tf" "frame_ok E tf m"
    "sigframe_type tf \<noteq> 2 \<longrightarrow> \<not> rsp_on_syscall_stack E (GetRsp E tf m)"
  shows "\<exists>u. MakeUnwinderSysret E w tf m = Some u \<and> un_rip u = unwinder_of tf"
proof (cases tf)
  case (KernelSignalTf a)
  have "unat (a + 8) = unat a + 8" using unat_offset [of a 8] assms(4) KernelSignalTf by (simp add: Let_def k_size_def)
  moreover have "16 dvd unat a + 8" using assms(3) KernelSignalTf by simp presburger
  ultimately have "(a + k_uc) mod kStackAlign = 0" by (simp add: k_uc_def kStackAlign_def mod_dvd)
  then show ?thesis using assms KernelSignalTf by (simp add: SetTrapframe_ok_def)
next
  case (UintrTf a)
  then show ?thesis using assms by (simp add: SetTrapframe_ok_def)
next
  case (FunctionCallTf a)
  then show ?thesis using assms by (simp add: ReplaceEntryRegs_ok_def kStackAlign_def mod_dvd)
qed

lemma sys_wrap:
  assumes L: "layout_ok E" and s: "sys_ok E n"
  shows "\<exists>w. AllocateOnStack (ly_wrap E) 8 (sys_rsp E) = Some w \<and> 8 dvd unat w \<and> unat (sys_top E) + n < unat w \<and> unat w \<le> unat (sys_rsp E) \<and>
    rsp_on_syscall_stack E w \<and> own_beside E (unat w - n) (unat w)"
proof -
  have s8: "8 dvd unat (sys_rsp E)" and room: "unat (sys_top E) + ly_wrap E + n < unat (sys_rsp E)"
    and bot: "sys_rsp E \<le> sys_bottom E" and own: "own_beside E (unat (sys_top E)) (unat (sys_rsp E))" using s by (simp_all add: sys_ok_def)
  obtain w where w: "AllocateOnStack (ly_wrap E) 8 (sys_rsp E) = Some w" "unat w = unat (sys_rsp E) - ly_wrap E"
    using alloc8 [OF s8, of "ly_wrap E"] room by auto
  have w8: "8 dvd unat w" using s8 layout_okD(3) [OF L] w(2) by (simp add: dvd_diff_nat)
  have nw: "unat (sys_top E) + n < unat w" "unat w \<le> unat (sys_rsp E)" using w(2) room by linarith+
  have "own_beside E (unat w - n) (unat w)" using nw by (intro own_beside_mono [OF own]) linarith+
  moreover have "rsp_on_syscall_stack E w"
    using bot nw unfolding rsp_on_syscall_stack_def IsOnStack_def word_less_nat_alt word_le_nat_alt by linarith
  ultimately show ?thesis using w(1) w8 nw by blast
qed

lemma copied_sys:
  assumes "sys_ok E (need E tf m0)" "unat (sys_top E) + need E tf m0 < unat w" "unat w \<le> unat (sys_rsp E)" "copied E tf m0 m w tf' m'"
  shows "rsp_on_syscall_stack E (tf_addr tf') \<and> only (unat (sys_top E)) (unat (sys_rsp E)) m m'"
proof -
  have bot: "sys_rsp E \<le> sys_bottom E" using assms(1) by (simp add: sys_ok_def)
  have a: "unat w \<le> unat (tf_addr tf') + need E tf m0" "unat (tf_addr tf') + frame_size E tf' \<le> unat w" and o: "only (unat (tf_addr tf')) (unat w) m m'"
    using assms(4) unfolding copied_def by blast+
  have lt: "unat (sys_top E) < unat (tf_addr tf')" using a(1) assms(2) by linarith
  have "only (unat (sys_top E)) (unat (sys_rsp E)) m m'" using lt assms(3) by (intro only_mono [OF o]) linarith+
  then show ?thesis using bot lt a assms(3)
    unfolding rsp_on_syscall_stack_def IsOnStack_def word_less_nat_alt word_le_nat_alt by linarith
qed

lemma CloneTo_spec:
  assumes L: "layout_ok E" and ok: "frame_ok E tf m" and s: "sys_ok E (need E tf m)" and b: "beside E tf (unat (sys_top E)) (unat (sys_rsp E)) m"
  shows "\<exists>w tf' m'. CloneTo E tf (sys_rsp E) m = Some (w, tf', m') \<and> rsp_on_syscall_stack E w \<and> rsp_on_syscall_stack E (tf_addr tf') \<and>
    only (unat (sys_top E)) (unat (sys_rsp E)) m m' \<and> saved E tf' m' = saved E tf m \<and> GetRsp E tf' m' = GetRsp E tf m \<and>
    frame_aligned tf' \<and> frame_ok E tf' m' \<and> sigframe_type tf' = sigframe_type tf"
proof -
  obtain w where w: "AllocateOnStack (ly_wrap E) 8 (sys_rsp E) = Some w" "8 dvd unat w" "unat (sys_top E) + need E tf m < unat w"
    "unat w \<le> unat (sys_rsp E)" "rsp_on_syscall_stack E w" "own_beside E (unat w - need E tf m) (unat w)"
    using sys_wrap [OF L s] by blast
  have nw: "need E tf m \<le> unat w" using w(3) by linarith
  have bw: "beside E tf (unat w - need E tf m) (unat w) m" using w(3,4) by (intro beside_mono [OF b]) linarith+
  obtain tf' m' where c: "CopyFrame E tf w m = Some (tf', m')" "copied E tf m m w tf' m'" "sigframe_type tf' = sigframe_type tf"
    using CopyFrame_spec [OF L ok w(2) nw bw w(6)] by blast
  have "CloneTo E tf (sys_rsp E) m = Some (w, tf', m')" using c(1) w(1) by (simp add: CloneTo_def)
  then show ?thesis using w(5) copied_sys [OF s w(3,4) c(2)] c(2,3) unfolding copied_def by blast
qed

lemma sigreturn_spec:
  assumes L: "layout_ok E" and s: "sig_on_stack E sig k hi S r m" and y: "sys_ok E (need_of S)"
    and off: "hi \<le> unat (sys_top E) \<or> unat (sys_rsp E) \<le> unat k" and u: "fst S \<noteq> 2 \<longrightarrow> \<not> rsp_on_syscall_stack E r"
  shows "\<exists>tf' u m'. usys_rt_sigreturn_finish E sh h (k + 8) m =
      Some (SigResume tf' u (snd (SigAltStack (Some (ds_ss sig)) (ReplaceMask sh (ds_prev_blocked sig) h))) m') \<and>
    saved E tf' m' = S \<and> un_rip u = unwinder_of tf' \<and> only (unat (sys_top E)) (unat (sys_rsp E)) m m'"
proof -
  obtain tf where tf: "get_jframe (k + 440) m = Some tf" "frame_ok E tf m" "saved E tf m = S" "GetRsp E tf m = r" "placed E tf hi m"
    "unat k \<le> unat (tf_addr tf)" "unat (tf_addr tf) + frame_size E tf \<le> hi" and kh: "unat k + 472 \<le> hi" "hi \<le> 2 ^ 64"
    and k: "unat k mod 16 = 8" "fetch64 (k + k_mask) m = ds_prev_blocked sig" "get_stack_t k m = ds_ss sig" "fetch64 (k + 440 + 16) m = kJunctionFrameMagic"
    using s by (auto simp: sig_on_stack_def)
  have own: "own_beside E (unat (sys_top E)) (unat (sys_rsp E))" using y by (simp add: sys_ok_def)
  have b: "beside E tf (unat (sys_top E)) (unat (sys_rsp E)) m" by (rule placed_beside [OF tf(2,5,6,7) off own])
  have y': "sys_ok E (need E tf m)" using y tf(3) by (simp add: need_saved)
  obtain w tf' m' where c: "CloneTo E tf (sys_rsp E) m = Some (w, tf', m')" "rsp_on_syscall_stack E w" "rsp_on_syscall_stack E (tf_addr tf')"
    "only (unat (sys_top E)) (unat (sys_rsp E)) m m'" "saved E tf' m' = S" "GetRsp E tf' m' = r" "frame_aligned tf'" "frame_ok E tf' m'"
    "sigframe_type tf' = sigframe_type tf"
    using CloneTo_spec [OF L tf(2) y' b] unfolding tf(3,4) by blast
  have "sigframe_type tf' = fst S" using c(9) tf(3) by (auto simp: saved_def)
  then have "sigframe_type tf' \<noteq> 2 \<longrightarrow> \<not> rsp_on_syscall_stack E (GetRsp E tf' m')" using u c(6) by simp
  then obtain v where v: "MakeUnwinderSysret E w tf' m' = Some v" "un_rip v = unwinder_of tf'"
    using MakeUnwinderSysret_spec [OF c(2,3,7,8)] by blast
  have "unat (k + 8) = unat k + 8" using unat_offset [of k 8] kh by simp
  moreover have "16 dvd unat k + 8" using k(1) by presburger
  ultimately have "(k + 8) mod 16 = 0" by (simp add: mod_dvd)
  then show ?thesis using tf(1) c(1,4,5) v k(2-4) by (simp add: usys_rt_sigreturn_finish_def k_size_def)
qed


section \<open>The table of sizes\<close>

lemma msb_index_bit: "w \<noteq> 0 \<Longrightarrow> bit w (msb_index w) \<and> msb_index w < 64"
proof -
  have f: "(\<exists>i<n. bit w i) \<Longrightarrow> bit w (fold (\<lambda>i k. if bit w i then i else k) [0 ..< n] 0) \<and> fold (\<lambda>i k. if bit w i then i else k) [0 ..< n] 0 < n" for n
  proof (induction n)
    case (Suc n)
    then show ?case by (cases "bit w n") (auto simp: less_Suc_eq)
  qed simp
  assume "w \<noteq> 0"
  then obtain i where "bit w i" by (auto simp: bit_eq_iff)
  then have "\<exists>i<64. bit w i" using bit_imp_le_length by fastforce
  then show ?thesis using f unfolding msb_index_def by blast
qed

lemma xsave_loop_spec:
  assumes "xsave_loop cpuid xsavec enabled max_size is l sizes = (l', sizes')" "\<forall>i\<in>set is. i < length sizes" "576 \<le> l" "\<not> xsavec \<longrightarrow> l = unat max_size"
    "l' < 2 ^ 32" "distinct is"
  shows "l \<le> l' \<and> length sizes' = length sizes \<and> (\<forall>i. i \<notin> set is \<longrightarrow> sizes' ! i = sizes ! i) \<and>
    (\<forall>i\<in>set is. bit enabled i \<longrightarrow> 576 \<le> unat (sizes' ! i) \<and> unat (sizes' ! i) \<le> l')"
  using assms
proof (induction cpuid xsavec enabled max_size "is" l sizes rule: xsave_loop.induct)
  case (2 cpuid xsavec enabled max_size i "is" l sizes)
  consider "\<not> bit enabled i" | "bit enabled i" "\<not> xsavec" | "bit enabled i" "xsavec" by blast
  then show ?case
  proof cases
    case 1
    then show ?thesis using "2.IH"(1) "2.prems" by auto
  next
    case 2
    have "l \<le> l' \<and> length sizes' = length sizes \<and> (\<forall>j. j \<notin> set is \<longrightarrow> sizes' ! j = sizes[i := max_size] ! j) \<and>
      (\<forall>j\<in>set is. bit enabled j \<longrightarrow> 576 \<le> unat (sizes' ! j) \<and> unat (sizes' ! j) \<le> l')"
      using "2.IH"(2) "2.prems" 2 by simp
    then show ?thesis using 2 "2.prems" by (auto simp: nth_list_update)
  next
    case 3
    obtain eax ecx where e: "cpuid i = (eax, ecx)" by force
    define b where "b = (if bit ecx 1 then (l + 63) div 64 * 64 else l) + unat eax"
    have "l \<le> (l + 63) div 64 * 64" using align_bounds [of 64 "l + 63"] by linarith
    then have lb: "l \<le> b" by (simp add: b_def)
    have st: "xsave_loop cpuid xsavec enabled max_size is b (sizes[i := of_nat b]) = (l', sizes')"
      using "2.prems"(1) 3 by (simp add: Let_def e b_def)
    have R: "b \<le> l' \<and> length sizes' = length sizes \<and> (\<forall>j. j \<notin> set is \<longrightarrow> sizes' ! j = sizes[i := of_nat b] ! j) \<and>
      (\<forall>j\<in>set is. bit enabled j \<longrightarrow> 576 \<le> unat (sizes' ! j) \<and> unat (sizes' ! j) \<le> l')"
      using "2.IH"(3) [OF _ _ refl e [symmetric] refl refl, folded b_def] st "2.prems" 3 lb by simp
    then have "unat (of_nat b :: u32) = b" using "2.prems"(5) by (simp add: unat_of_nat take_bit_nat_eq_self)
    then show ?thesis using R lb "2.prems"(2,3,6) by (auto simp: nth_list_update)
  qed
qed simp

text \<open>After \<open>InitXsave\<close>, an area for any set of enabled components has a size that includes the header and fits the area of a thread.\<close>

lemma InitXsave_sizes:
  assumes i: "InitXsave True xsavec cpuid enabled max_size area_size n = Inr (Some (bitmap, sizes))" and n: "2 \<le> n" and m: "576 \<le> unat max_size"
    and a: "area_size < 2 ^ 32" and e: "enabled \<noteq> 0" and f: "\<And>j. bit features j \<Longrightarrow> bit enabled j" "\<And>j. bit features j \<Longrightarrow> j < n"
    and E: "xsave_enabled_bitmap E = bitmap" "xsave_max_sizes E = sizes"
  shows "\<exists>z. GetXsaveAreaSize_features E features = Some z \<and> 576 \<le> z \<and> z \<le> area_size"
proof -
  define l0 where "l0 = (if xsavec then 576 else unat max_size)"
  define s0 where "s0 = (replicate n (0::u32))[0 := of_nat l0, 1 := of_nat l0]"
  obtain l' where r: "xsave_loop cpuid xsavec enabled max_size [2 ..< n] l0 s0 = (l', sizes)" "l' \<le> area_size" "bitmap = enabled"
    using i by (auto simp: InitXsave_def Let_def l0_def s0_def split: prod.splits if_splits)
  have l: "576 \<le> l0" "\<not> xsavec \<longrightarrow> l0 = unat max_size" "l' < 2 ^ 32" using m r(2) a by (auto simp: l0_def)
  have bound: "\<forall>i\<in>set [2 ..< n]. i < length s0" by (simp add: s0_def)
  note S = xsave_loop_spec [OF r(1) bound l distinct_upt]
  have len: "length sizes = n" using S by (simp add: s0_def)
  have l0: "unat (of_nat l0 :: u32) = l0" using S l(3) by (simp add: unat_of_nat take_bit_nat_eq_self)
  have "s0 ! j = of_nat l0" if "j < 2" for j using n that by (auto simp: s0_def less_2_cases_iff)
  then have low: "unat (sizes ! j) = l0" if "j < 2" for j using S that l0 by simp
  have "576 \<le> unat (sizes ! j) \<and> unat (sizes ! j) \<le> area_size" if "j < n" "j < 2 \<or> bit enabled j" for j
  proof (cases "j < 2")
    case True
    then show ?thesis using low S l(1) r(2) by simp
  next
    case False
    then have "576 \<le> unat (sizes ! j) \<and> unat (sizes ! j) \<le> l'" using S that by simp
    then show ?thesis using r(2) by linarith
  qed
  moreover have "msb_index features < n \<and> bit enabled (msb_index features)" if "features \<noteq> 0" using msb_index_bit [OF that] f by blast
  ultimately show ?thesis using E r(3) e len n by (auto simp: GetXsaveAreaSize_features_def Let_def)
qed

end
