(* ===== verification/SigReturn.thy ===== *)
theory SigReturn
  imports Sigframe
begin

text \<open>
  Nested signals: the frames that \<open>ApplyAllSignals\<close> and \<open>DeliverSignals\<close> push for several signals
  (\<^verbatim>\<open>src/junction/kernel/signal.cc\<close>) and the returns from their handlers, and the frame of a signal that the host
  delivers for a fault.
\<close>

section \<open>Nested signals\<close>

text \<open>The registers with which the handlers start.\<close>

fun entries :: "DeliveredSignal list \<Rightarrow> u64 list \<Rightarrow> nat \<Rightarrow> thread_tf \<Rightarrow> thread_tf list" where
  "entries (d # ds) (k # ks) hi t = (let t' = handler_tf d k (of_nat (hi - 128)) t in t' # entries ds ks (unat k) t')"
| "entries ds ks hi t = []"

definition entry_saved :: "thread_tf \<Rightarrow> u64 \<times> (byte list + thread_tf) \<times> byte list option" where
  "entry_saved t = (2, Inr t, None)"

text \<open>The frames of all signals are on the stack, each one below the one before and saving the entry of its handler.\<close>

fun unwinds ::
    "frame_env \<Rightarrow> DeliveredSignal list \<Rightarrow> u64 list \<Rightarrow> nat \<Rightarrow> u64 \<times> (byte list + thread_tf) \<times> byte list option \<Rightarrow> u64 \<Rightarrow> thread_tf \<Rightarrow> memory \<Rightarrow> bool" where
  "unwinds E [] [] hi S r t m = True"
| "unwinds E (d # ds) (k # ks) hi S r t m = (sig_on_stack E d k hi S r m \<and> unat k < hi \<and>
     (let t' = handler_tf d k (of_nat (hi - 128)) t in unwinds E ds ks (unat k) (entry_saved t') k t' m))"
| "unwinds E ds ks hi S r t m = False"

lemma unwinds_length: "unwinds E ds ks hi S r t m \<Longrightarrow> length ks = length ds \<and> length (entries ds ks hi t) = length ds"
  by (induction E ds ks hi S r t m rule: unwinds.induct) (auto simp: Let_def)

lemma unwinds_last: "unwinds E ds ks hi S r t m \<Longrightarrow> ks \<noteq> [] \<Longrightarrow> unat (last ks) < hi"
proof (induction E ds ks hi S r t m rule: unwinds.induct)
  case (2 E d ds k ks hi S r t m)
  then show ?case by (cases "ks = []") (auto simp: Let_def)
qed simp_all

lemma unwinds_kept:
  assumes L: "layout_ok E" and "unwinds E ds ks hi S r t m" "keeps (unat (last ks)) hi m m'" "own_kept E m m'"
  shows "unwinds E ds ks hi S r t m'"
  using assms(2-4) L
proof (induction E ds ks hi S r t m rule: unwinds.induct)
  case (2 E d ds k ks hi S r t m)
  have u: "sig_on_stack E d k hi S r m" "unat k < hi" "unwinds E ds ks (unat k) (entry_saved (handler_tf d k (of_nat (hi - 128)) t)) k (handler_tf d k (of_nat (hi - 128)) t) m"
    using "2.prems"(1) by (simp_all add: Let_def)
  have l: "unat (last (k # ks)) \<le> unat k" using unwinds_last [OF u(3)] by (cases "ks = []") auto
  have "sig_on_stack E d k hi S r m'"
    using l by (intro sig_on_stack_kept [OF "2.prems"(4) u(1) _ "2.prems"(3)] keeps_sub [OF "2.prems"(2)]) simp_all
  moreover have "unwinds E ds ks (unat k) (entry_saved (handler_tf d k (of_nat (hi - 128)) t)) k (handler_tf d k (of_nat (hi - 128)) t) m'"
  proof (cases "ks = []")
    case True
    then show ?thesis using u(3) by (cases ds) simp_all
  next
    case False
    then have "keeps (unat (last ks)) (unat k) m m'" using u(2) by (intro keeps_sub [OF "2.prems"(2)]) simp_all
    then show ?thesis using "2.IH" [OF refl u(3) _ "2.prems"(3,4)] by simp
  qed
  ultimately show ?case using u(2) by (simp add: Let_def)
qed simp_all

lemma unwinds_nth:
  assumes "unwinds E ds ks hi S r t m" "i < length ds"
  shows "\<exists>hi'. hi' \<le> hi \<and> unat (last ks) \<le> unat (ks ! i) \<and>
    sig_on_stack E (ds ! i) (ks ! i) hi' (if i = 0 then S else entry_saved (entries ds ks hi t ! (i - 1))) (if i = 0 then r else ks ! (i - 1)) m"
  using assms
proof (induction E ds ks hi S r t m arbitrary: i rule: unwinds.induct)
  case (2 E d ds k ks hi S r t m)
  define t' where "t' = handler_tf d k (of_nat (hi - 128)) t"
  have u: "sig_on_stack E d k hi S r m" "unat k < hi" "unwinds E ds ks (unat k) (entry_saved t') k t' m"
    using "2.prems"(1) by (simp_all add: Let_def t'_def)
  have l: "unat (last (k # ks)) \<le> unat k" using unwinds_last [OF u(3)] by (cases "ks = []") auto
  show ?case
  proof (cases i)
    case 0
    then show ?thesis using u(1) l by auto
  next
    case (Suc n)
    then have n: "n < length ds" using "2.prems"(2) by simp
    then have "ks \<noteq> []" using unwinds_length [OF u(3)] by auto
    obtain hi' where h: "hi' \<le> unat k" "unat (last ks) \<le> unat (ks ! n)"
      "sig_on_stack E (ds ! n) (ks ! n) hi' (if n = 0 then entry_saved t' else entry_saved (entries ds ks (unat k) t' ! (n - 1)))
         (if n = 0 then k else ks ! (n - 1)) m"
      using "2.IH" [OF t'_def u(3) n] by blast
    then show ?thesis using Suc u(2) \<open>ks \<noteq> []\<close>
      by (cases n) (auto simp: Let_def t'_def [symmetric] intro!: exI [of _ hi'])
  qed
qed simp_all


text \<open>
  The addresses from \<open>lo\<close> up to \<open>hi\<close> are those of the handlers' stack.  The frame \<open>nf\<close> that is set up for the handler lies
  elsewhere, as does the thread's own area.
\<close>

definition handler_stack :: "frame_env \<Rightarrow> u64 \<Rightarrow> nat \<Rightarrow> nat \<Rightarrow> bool" where
  "handler_stack E nf lo hi \<longleftrightarrow> own_ok E \<and> own_beside E lo hi \<and> hi \<le> 2 ^ 64 \<and> unat nf + ly_tf_size E \<le> 2 ^ 64 \<and>
     (unat nf + ly_tf_size E \<le> lo \<or> hi \<le> unat nf) \<and>
     (unat nf + ly_tf_size E \<le> unat (th_xsave_area E) \<or> unat (th_xsave_area E) + xsave_area_size E \<le> unat nf)"

lemma handler_stackD:
  assumes "handler_stack E nf lo hi"
  shows "own_ok E" "own_beside E lo hi" "hi \<le> 2 ^ 64" "unat nf + ly_tf_size E \<le> 2 ^ 64" "unat nf + ly_tf_size E \<le> lo \<or> hi \<le> unat nf"
    "unat nf + ly_tf_size E \<le> unat (th_xsave_area E) \<or> unat (th_xsave_area E) + xsave_area_size E \<le> unat nf"
  using assms by (simp_all add: handler_stack_def)

text \<open>One more signal, on a stack on which \<open>rsp\<close> is the limit so far.\<close>

lemma push_one:
  assumes L: "layout_ok E" and H: "handler_stack E nf lo hi" and ok: "frame_ok E prev m" and rsp0: "rsp0 = FixRspAltstack d rsp"
    and r8: "8 dvd unat rsp0" and r: "lo + need E prev m + 640 \<le> unat rsp0" "unat rsp0 \<le> hi" and b: "beside E prev lo hi m"
    and x: "tf_xsave_area (get_tf E nf m) = 0"
  shows "\<exists>k m'. PushUserSigFrame E d rsp prev nf m = Some (k, m') \<and> keeps (unat rsp0) hi m m' \<and> own_kept E m m' \<and>
    sig_on_stack E d k (unat rsp0) (saved E prev m) (GetRsp E prev m) m' \<and> unat rsp0 \<le> unat k + need E prev m + 640 \<and> unat k < unat rsp0 \<and>
    get_tf E nf m' = handler_tf d k (of_nat (unat rsp0 - 128)) (get_tf E nf m) \<and> 8 dvd unat k"
proof -
  note h = handler_stackD [OF H]
  have b': "beside E prev lo (unat rsp0) m" using r(2) by (intro beside_mono [OF b]) simp_all
  have o': "own_beside E lo (unat rsp0)" using r(2) by (intro own_beside_mono [OF h(2)]) simp_all
  have n': "unat nf + ly_tf_size E \<le> lo \<or> unat rsp0 \<le> unat nf" using h(5) r(2) by linarith
  obtain k info m3 where p: "PushUserSigFrame E d rsp prev nf m = Some (k, put_tf E nf (handler_tf d k info (get_tf E nf m)) m3)"
    "only (unat k) (unat rsp0) m m3" "sig_on_stack E d k (unat rsp0) (saved E prev m) (GetRsp E prev m) m3"
    "unat rsp0 \<le> unat k + need E prev m + 640" "unat k + 472 \<le> unat rsp0" "unat info = unat rsp0 - 128"
    using PushUserSigFrame_spec [OF L ok rsp0 r8 r(1) b' o' h(1) h(4) n'] by blast
  define m' where "m' = put_tf E nf (handler_tf d k info (get_tf E nf m)) m3"
  have oth: "length (tf_others (handler_tf d k info (get_tf E nf m))) = ly_others E" using tf_bytes(1) [OF L, of nf m] by (simp add: handler_tf_def)
  note P = tf_bytes(2,3) [OF L oth h(4), of m3, folded m'_def]
  have kl: "lo \<le> unat k" using p(4) r(1) by linarith
  have kp: "keeps lo hi m3 m'" using h(5) by (intro only_keeps [OF P(2)]) auto
  have ow: "own_kept E m3 m'" unfolding own_kept_def same_def using h(1,6) by (intro only_fetch [OF P(2)]) (auto simp: own_ok_def)
  have ow1: "own_kept E m m3" using kl by (intro only_own_kept [OF h(1) p(2)] own_beside_mono [OF o']) simp_all
  have "own_kept E m m'" using ow ow1 by (simp add: own_kept_def same_def)
  moreover have "keeps (unat rsp0) hi m m'"
  proof (rule keeps_trans)
    show "keeps (unat rsp0) hi m m3" by (rule only_keeps [OF p(2)]) simp
    show "keeps (unat rsp0) hi m3 m'" using p(5) kl by (intro keeps_sub [OF kp]) simp_all
  qed
  moreover have "sig_on_stack E d k (unat rsp0) (saved E prev m) (GetRsp E prev m) m'"
    using kl r(2) by (intro sig_on_stack_kept [OF L p(3) _ ow] keeps_sub [OF kp]) simp_all
  moreover have "unat k mod 16 = 8" using p(3) by (simp add: sig_on_stack_def)
  then have "8 dvd unat k" by presburger
  moreover have "info = of_nat (unat rsp0 - 128)" unfolding p(6) [symmetric] by simp
  ultimately show ?thesis using p(1,4,5) P(1) m'_def by auto
qed

lemma push_frames_spec:
  assumes L: "layout_ok E" and H: "handler_stack E nf lo hi" and ok: "frame_ok E prev m" and r8: "8 dvd unat rsp"
    and r: "lo + need E prev m + 640 + 9344 * (length ds - 1) \<le> unat rsp" "unat rsp \<le> hi" and b: "beside E prev lo hi m"
    and x: "tf_xsave_area (get_tf E nf m) = 0" and st: "\<forall>d\<in>set ds. \<forall>y. lo \<le> unat y \<and> unat y \<le> hi \<longrightarrow> FixRspAltstack d y = y"
  shows "\<exists>ks m'. push_frames E prev ds rsp nf m = Some (last (rsp # ks), m') \<and> lo \<le> unat (last (rsp # ks)) \<and> keeps (unat rsp) hi m m' \<and> own_kept E m m' \<and>
    unwinds E ds ks (unat rsp) (saved E prev m) (GetRsp E prev m) (get_tf E nf m) m' \<and>
    get_tf E nf m' = last (get_tf E nf m # entries ds ks (unat rsp) (get_tf E nf m))"
  using ok r8 r b x st
proof (induction ds arbitrary: prev rsp m)
  case Nil
  then show ?case by (intro exI [of _ "[]"] exI [of _ m]) (simp add: keeps_def own_kept_def same_def)
next
  case (Cons d ds)
  have fx: "rsp = FixRspAltstack d rsp" using Cons.prems(3,4,7) by (simp add: need_def)
  have r1: "lo + need E prev m + 640 \<le> unat rsp" using Cons.prems(3) by simp
  obtain k m1 where p: "PushUserSigFrame E d rsp prev nf m = Some (k, m1)" "keeps (unat rsp) hi m m1" "own_kept E m m1"
    "sig_on_stack E d k (unat rsp) (saved E prev m) (GetRsp E prev m) m1" "unat rsp \<le> unat k + need E prev m + 640" "unat k < unat rsp"
    "get_tf E nf m1 = handler_tf d k (of_nat (unat rsp - 128)) (get_tf E nf m)" "8 dvd unat k"
    using push_one [OF L H Cons.prems(1) fx Cons.prems(2) r1 Cons.prems(4,5,6)] by blast
  define t' where "t' = handler_tf d k (of_nat (unat rsp - 128)) (get_tf E nf m)"
  have x1: "tf_xsave_area (get_tf E nf m1) = 0" using p(7) Cons.prems(6) by (simp add: handler_tf_def)
  have ok1: "frame_ok E (FunctionCallTf nf) m1" and n1: "need E (FunctionCallTf nf) m1 = 8704" and b1: "beside E (FunctionCallTf nf) lo hi m1"
    and S1: "saved E (FunctionCallTf nf) m1 = entry_saved t'" and R1: "GetRsp E (FunctionCallTf nf) m1 = k"
    using x1 handler_stackD(4,5) [OF H] p(7)
    by (simp_all add: Let_def need_def beside_def saved_def entry_saved_def t'_def handler_tf_def)
  show ?case
  proof (cases "ds = []")
    case True
    then show ?thesis using p r1 by (intro exI [of _ "[k]"] exI [of _ m1]) simp
  next
    case False
    then have l: "length (d # ds) - 1 = Suc (length ds - 1)" by (cases ds) simp_all
    have r2: "lo + need E (FunctionCallTf nf) m1 + 640 + 9344 * (length ds - 1) \<le> unat k" using p(5) Cons.prems(3) n1 unfolding l by simp
    have k2: "unat k \<le> hi" using p(6) Cons.prems(4) by linarith
    have st2: "\<forall>d\<in>set ds. \<forall>y. lo \<le> unat y \<and> unat y \<le> hi \<longrightarrow> FixRspAltstack d y = y" using Cons.prems(7) by simp
    obtain ks m' where q: "push_frames E (FunctionCallTf nf) ds k nf m1 = Some (last (k # ks), m')" and ql: "lo \<le> unat (last (k # ks))" and q': "keeps (unat k) hi m1 m'" "own_kept E m1 m'"
      "unwinds E ds ks (unat k) (entry_saved t') k t' m'" "get_tf E nf m' = last (t' # entries ds ks (unat k) t')"
      using Cons.IH [OF ok1 p(8) r2 k2 b1 x1 st2] unfolding S1 R1 p(7) t'_def [symmetric] by blast
    have "sig_on_stack E d k (unat rsp) (saved E prev m) (GetRsp E prev m) m'"
      using Cons.prems(4) by (intro sig_on_stack_kept [OF L p(4) _ q'(2)] keeps_sub [OF q'(1)]) simp_all
    moreover have "keeps (unat rsp) hi m m'" using p(6) by (intro keeps_trans [OF p(2)] keeps_sub [OF q'(1)]) simp_all
    moreover have "own_kept E m m'" using p(3) q'(2) by (simp add: own_kept_def same_def)
    ultimately show ?thesis using p(1,6) q q'(3,4) ql
      by (intro exI [of _ "k # ks"] exI [of _ m']) (simp add: Let_def t'_def [symmetric])
  qed
qed


section \<open>Handlers return to what they interrupted\<close>

text \<open>The frames of all signals on a stack that only the first one may switch to.\<close>

lemma push_all_spec:
  assumes L: "layout_ok E" and H: "handler_stack E nf lo (unat (FixRspAltstack d rsp))" and ok: "frame_ok E prev m"
    and r8: "8 dvd unat (FixRspAltstack d rsp)" and r: "lo + need E prev m + 640 + 9344 * length ds \<le> unat (FixRspAltstack d rsp)"
    and b: "beside E prev lo (unat (FixRspAltstack d rsp)) m" and x: "tf_xsave_area (get_tf E nf m) = 0"
    and st: "\<forall>d'\<in>set ds. \<forall>y. lo \<le> unat y \<and> unat y \<le> unat (FixRspAltstack d rsp) \<longrightarrow> FixRspAltstack d' y = y"
  shows "\<exists>ks m'. push_frames E prev (d # ds) rsp nf m = Some (last ks, m') \<and> length ks = Suc (length ds) \<and> lo \<le> unat (last ks) \<and>
    unwinds E (d # ds) ks (unat (FixRspAltstack d rsp)) (saved E prev m) (GetRsp E prev m) (get_tf E nf m) m' \<and>
    get_tf E nf m' = last (entries (d # ds) ks (unat (FixRspAltstack d rsp)) (get_tf E nf m))"
proof -
  define rsp0 where "rsp0 = FixRspAltstack d rsp"
  have r1: "lo + need E prev m + 640 \<le> unat rsp0" using r by (simp add: rsp0_def)
  obtain k m1 where p: "PushUserSigFrame E d rsp prev nf m = Some (k, m1)"
    "sig_on_stack E d k (unat rsp0) (saved E prev m) (GetRsp E prev m) m1" "unat rsp0 \<le> unat k + need E prev m + 640" "unat k < unat rsp0"
    "get_tf E nf m1 = handler_tf d k (of_nat (unat rsp0 - 128)) (get_tf E nf m)" "8 dvd unat k"
    using push_one [OF L H [folded rsp0_def] ok rsp0_def r8 [folded rsp0_def] r1 le_refl b [folded rsp0_def] x] by blast
  define t' where "t' = handler_tf d k (of_nat (unat rsp0 - 128)) (get_tf E nf m)"
  have x1: "tf_xsave_area (get_tf E nf m1) = 0" using p(5) x by (simp add: handler_tf_def)
  have ok1: "frame_ok E (FunctionCallTf nf) m1" and n1: "need E (FunctionCallTf nf) m1 = 8704" and b1: "beside E (FunctionCallTf nf) lo (unat rsp0) m1"
    and S1: "saved E (FunctionCallTf nf) m1 = entry_saved t'" and R1: "GetRsp E (FunctionCallTf nf) m1 = k"
    using x1 handler_stackD(4,5) [OF H] p(5)
    by (simp_all add: Let_def need_def beside_def saved_def entry_saved_def t'_def handler_tf_def rsp0_def)
  show ?thesis
  proof (cases "ds = []")
    case True
    then show ?thesis using p r1 by (intro exI [of _ "[k]"] exI [of _ m1]) (simp add: rsp0_def)
  next
    case False
    then have r2: "lo + need E (FunctionCallTf nf) m1 + 640 + 9344 * (length ds - 1) \<le> unat k"
      using p(3) r n1 by (cases ds) (simp_all add: rsp0_def)
    obtain ks m' where q: "push_frames E (FunctionCallTf nf) ds k nf m1 = Some (last (k # ks), m')" and ql: "lo \<le> unat (last (k # ks))" and q': "keeps (unat k) (unat rsp0) m1 m'" "own_kept E m1 m'"
      "unwinds E ds ks (unat k) (entry_saved t') k t' m'" "get_tf E nf m' = last (t' # entries ds ks (unat k) t')"
      using push_frames_spec [OF L H [folded rsp0_def] ok1 p(6) r2 less_imp_le [OF p(4)] b1 x1 st [folded rsp0_def]]
      unfolding S1 R1 p(5) t'_def [symmetric] by blast
    have "sig_on_stack E d k (unat rsp0) (saved E prev m) (GetRsp E prev m) m'" by (rule sig_on_stack_kept [OF L p(2) q'(1,2)])
    then show ?thesis using p(1,4) q q'(3,4) ql unwinds_length [OF q'(3)]
      by (intro exI [of _ "k # ks"] exI [of _ m']) (simp add: Let_def t'_def [symmetric] rsp0_def [symmetric])
  qed
qed

text \<open>C8: Every handler returns to what its signal interrupted.  The signals \<open>d # ds\<close> are pushed on one stack with enough room, over the trap
  frame \<open>prev\<close> of any of the three kinds.  Whatever the handlers do to memory but for the frames above the innermost one and the thread's own
  area, the return from the \<open>i\<close>-th handler passes every assertion, restores the mask and the alternate stack that the signal had
  saved, and resumes a copy, byte for byte, of the interrupted frame with its extended state, or of the entry of the handler before.\<close>

theorem nested_signals_unwind:
  assumes L: "layout_ok E" and H: "handler_stack E nf lo (unat (FixRspAltstack d rsp))" and ok: "frame_ok E prev m"
    and r8: "8 dvd unat (FixRspAltstack d rsp)" and r: "lo + need E prev m + 640 + 9344 * length ds \<le> unat (FixRspAltstack d rsp)"
    and b: "beside E prev lo (unat (FixRspAltstack d rsp)) m" and x: "tf_xsave_area (get_tf E nf m) = 0"
    and st: "\<forall>d'\<in>set ds. \<forall>y. lo \<le> unat y \<and> unat y \<le> unat (FixRspAltstack d rsp) \<longrightarrow> FixRspAltstack d' y = y"
    and y: "sys_ok E (need E prev m)" and off: "unat (FixRspAltstack d rsp) \<le> unat (sys_top E) \<or> unat (sys_rsp E) \<le> lo"
    and u: "\<not> rsp_on_syscall_stack E (GetRsp E prev m)"
  shows "\<exists>ks m'. push_frames E prev (d # ds) rsp nf m = Some (last ks, m') \<and> length ks = Suc (length ds) \<and>
    (let es = entries (d # ds) ks (unat (FixRspAltstack d rsp)) (get_tf E nf m) in
     get_tf E nf m' = last es \<and>
     (\<forall>m'' i sh h. keeps (unat (last ks)) (unat (FixRspAltstack d rsp)) m' m'' \<longrightarrow> own_kept E m' m'' \<longrightarrow> i < length ks \<longrightarrow>
        (\<exists>tf un m3. usys_rt_sigreturn_finish E sh h (ks ! i + 8) m'' =
           Some (SigResume tf un (snd (SigAltStack (Some (ds_ss ((d # ds) ! i))) (ReplaceMask sh (ds_prev_blocked ((d # ds) ! i)) h))) m3) \<and>
           saved E tf m3 = (if i = 0 then saved E prev m else entry_saved (es ! (i - 1))) \<and> un_rip un = unwinder_of tf)))"
proof -
  define hi where "hi = unat (FixRspAltstack d rsp)"
  obtain ks m' where p: "push_frames E prev (d # ds) rsp nf m = Some (last ks, m')" "length ks = Suc (length ds)" "lo \<le> unat (last ks)"
    "unwinds E (d # ds) ks hi (saved E prev m) (GetRsp E prev m) (get_tf E nf m) m'"
    "get_tf E nf m' = last (entries (d # ds) ks hi (get_tf E nf m))"
    using push_all_spec [OF L H ok r8 r b x st] unfolding hi_def by blast
  define es where "es = entries (d # ds) ks hi (get_tf E nf m)"
  have "\<exists>tf un m3. usys_rt_sigreturn_finish E sh h (ks ! i + 8) m'' =
           Some (SigResume tf un (snd (SigAltStack (Some (ds_ss ((d # ds) ! i))) (ReplaceMask sh (ds_prev_blocked ((d # ds) ! i)) h))) m3) \<and>
           saved E tf m3 = (if i = 0 then saved E prev m else entry_saved (es ! (i - 1))) \<and> un_rip un = unwinder_of tf"
    if k: "keeps (unat (last ks)) hi m' m''" and o: "own_kept E m' m''" and i: "i < length ks" for m'' i sh h
  proof -
    define S where "S = (if i = 0 then saved E prev m else entry_saved (es ! (i - 1)))"
    define v where "v = (if i = 0 then GetRsp E prev m else ks ! (i - 1))"
    have "i < length (d # ds)" using i p(2) by simp
    from unwinds_nth [OF unwinds_kept [OF L p(4) k o] this] obtain hi' where h: "hi' \<le> hi" "unat (last ks) \<le> unat (ks ! i)"
      "sig_on_stack E ((d # ds) ! i) (ks ! i) hi' S v m''"
      unfolding es_def [symmetric] S_def v_def by blast
    have "need_of S \<le> need E prev m" by (simp add: S_def need_saved entry_saved_def) (simp add: need_of_def)
    then have y': "sys_ok E (need_of S)" using y by (simp add: sys_ok_def)
    have off': "hi' \<le> unat (sys_top E) \<or> unat (sys_rsp E) \<le> unat (ks ! i)" using off h(1,2) p(3) unfolding hi_def by linarith
    have u': "fst S \<noteq> 2 \<longrightarrow> \<not> rsp_on_syscall_stack E v" using u by (simp add: S_def v_def entry_saved_def)
    show ?thesis using sigreturn_spec [OF L h(3) y' off' u'] unfolding S_def by blast
  qed
  then show ?thesis using p(1,2,5) unfolding es_def hi_def Let_def by blast
qed


text \<open>A register frame of nine words, and a thread that two signals interrupt.\<close>

definition demo_enc :: "thread_tf \<Rightarrow> byte list" where
  "demo_enc t = concat (map (\<lambda>w. le_enc 8 (unat w))
     [tf_rdi t, tf_rsi t, tf_rdx t, tf_rax t, tf_rsp t, tf_rip t, tf_rflags t, tf_xsave_area t, tf_orig_rax t])"

definition demo_word :: "byte list \<Rightarrow> nat \<Rightarrow> u64" where
  "demo_word bs i = of_nat (le_nat (take 8 (drop (8 * i) bs)))"

definition demo_dec :: "byte list \<Rightarrow> thread_tf" where
  "demo_dec bs = \<lparr>tf_rdi = demo_word bs 0, tf_rsi = demo_word bs 1, tf_rdx = demo_word bs 2, tf_rax = demo_word bs 3, tf_rsp = demo_word bs 4,
     tf_rip = demo_word bs 5, tf_rflags = demo_word bs 6, tf_xsave_area = demo_word bs 7, tf_orig_rax = demo_word bs 8, tf_others = []\<rparr>"

definition demo_env :: frame_env where
  "demo_env = \<lparr>ly_tf_size = 72, ly_tf_enc = demo_enc, ly_tf_dec = demo_dec, ly_others = 0, ly_si_enc = (\<lambda>i. replicate 128 0), ly_wrap = 16,
     ly_xalign = 6, ly_GetXSaveSize = (\<lambda>_. 576), xsave_enabled_bitmap = 7, xsave_max_sizes = [576, 576, 832], th_xsave_area = 0x30000,
     xsave_area_in_use = False, xsave_area_size = 4096, sys_top = 0x10000, sys_bottom = 0x20000, sys_rsp = 0x20000\<rparr>"

definition demo_tf :: thread_tf where
  "demo_tf = \<lparr>tf_rdi = 1, tf_rsi = 2, tf_rdx = 3, tf_rax = 4, tf_rsp = 0x100000, tf_rip = 0x401000, tf_rflags = 0x202, tf_xsave_area = 0,
     tf_orig_rax = - 1, tf_others = []\<rparr>"

definition demo_sig :: "int \<Rightarrow> u64 \<Rightarrow> DeliveredSignal" where
  "demo_sig n msk = \<lparr>ds_act = \<lparr>handler = 0x402000, sa_flags = 0, restorer = 0x403000, sa_mask = 0\<rparr>,
     ds_info = \<lparr>si_signo = n, si_code = 0, si_pid = 0, si_status = 0\<rparr>, ds_ss = \<lparr>ss_sp = 0, ss_flags = SS_DISABLE, ss_size = 0\<rparr>, ds_prev_blocked = msk\<rparr>"

definition demo_mem :: memory where
  "demo_mem = put_tf demo_env 0x22000 demo_tf (\<lambda>_. 0)"

lemma demo_layout: "layout_ok demo_env"
proof -
  have "demo_dec (demo_enc t) = t" if "tf_others t = []" for t :: thread_tf
    using that by (cases t) (simp add: demo_dec_def demo_enc_def demo_word_def)
  then show ?thesis by (simp add: layout_ok_def demo_env_def siginfo_size_def demo_enc_def demo_dec_def)
qed

lemma demo_fields:
  "ly_tf_size demo_env = 72" "ly_wrap demo_env = 16" "th_xsave_area demo_env = 0x30000" "xsave_area_size demo_env = 4096"
  "sys_top demo_env = 0x10000" "sys_bottom demo_env = 0x20000" "sys_rsp demo_env = 0x20000"
  by (simp_all add: demo_env_def)

lemma demo_frame: "get_tf demo_env 0x22000 demo_mem = demo_tf" "get_tf demo_env 0x21000 demo_mem = demo_dec (replicate 72 0)"
proof -
  have o: "length (tf_others demo_tf) = ly_others demo_env" and b: "unat (0x22000 :: u64) + ly_tf_size demo_env \<le> 2 ^ 64"
    by (simp_all add: demo_tf_def demo_env_def)
  show "get_tf demo_env 0x22000 demo_mem = demo_tf" unfolding demo_mem_def by (rule tf_bytes(2) [OF demo_layout o b])
  have "fetch 0x21000 72 demo_mem = fetch 0x21000 72 (\<lambda>_. 0)"
    unfolding demo_mem_def by (rule only_fetch [OF tf_bytes(3) [OF demo_layout o b]]) (simp_all add: demo_env_def)
  then show "get_tf demo_env 0x21000 demo_mem = demo_dec (replicate 72 0)"
    by (simp add: get_tf_def demo_env_def fetch_def map_replicate_const)
qed

theorem nested_signals_unwind_witness:
  "\<exists>ks m' tf un h' m3. push_frames demo_env (FunctionCallTf 0x22000) [demo_sig 10 5, demo_sig 12 7] (0x100000 - 144) 0x21000 demo_mem = Some (last ks, m') \<and>
     length ks = 2 \<and>
     usys_rt_sigreturn_finish demo_env SignalQueue_new (ThreadSignalHandler_new 0) (ks ! 0 + 8) m' = Some (SigResume tf un h' m3) \<and>
     saved demo_env tf m3 = (2, Inr demo_tf, None) \<and> blocked h' = 5"
proof -
  have fx: "FixRspAltstack (demo_sig n msk) y = y" for n msk y by (simp add: FixRspAltstack_def demo_sig_def wants_altstack_def)
  have x: "tf_xsave_area (get_tf demo_env 0x21000 demo_mem) = 0" "tf_xsave_area (get_tf demo_env 0x22000 demo_mem) = 0"
    by (simp_all add: demo_frame demo_tf_def demo_dec_def demo_word_def numeral_eq_Suc)
  have nd: "need demo_env (FunctionCallTf 0x22000) demo_mem = 8704" using x(2) by (simp add: need_def)
  have sv: "saved demo_env (FunctionCallTf 0x22000) demo_mem = (2, Inr demo_tf, None)"
    using x(2) by (simp add: saved_def demo_frame(1) demo_tf_def)
  define d where "d = demo_sig 10 5"
  have fd: "FixRspAltstack d (0x100000 - 144) = 0x100000 - 144" by (simp add: d_def fx)
  have H: "handler_stack demo_env 0x21000 0xF0000 (unat (FixRspAltstack d (0x100000 - 144)))" unfolding fd
    by (simp add: handler_stack_def own_ok_def own_beside_def demo_fields)
  have ok: "frame_ok demo_env (FunctionCallTf 0x22000) demo_mem" using x(2) by (simp add: demo_fields)
  have r8: "8 dvd unat (FixRspAltstack d (0x100000 - 144))" unfolding fd by simp
  have r: "0xF0000 + need demo_env (FunctionCallTf 0x22000) demo_mem + 640 + 9344 * length [demo_sig 12 7] \<le> unat (FixRspAltstack d (0x100000 - 144))"
    unfolding fd nd by simp
  have b: "beside demo_env (FunctionCallTf 0x22000) 0xF0000 (unat (FixRspAltstack d (0x100000 - 144))) demo_mem"
    using x(2) by (simp add: beside_def demo_fields)
  have st: "\<forall>d'\<in>set [demo_sig 12 7]. \<forall>y. 0xF0000 \<le> unat y \<and> unat y \<le> unat (FixRspAltstack d (0x100000 - 144)) \<longrightarrow> FixRspAltstack d' y = y"
    by (simp add: fx)
  have y: "sys_ok demo_env (need demo_env (FunctionCallTf 0x22000) demo_mem)" unfolding nd by (simp add: sys_ok_def own_beside_def demo_fields)
  have off: "unat (FixRspAltstack d (0x100000 - 144)) \<le> unat (sys_top demo_env) \<or> unat (sys_rsp demo_env) \<le> 0xF0000" by (simp add: demo_fields)
  have u: "\<not> rsp_on_syscall_stack demo_env (GetRsp demo_env (FunctionCallTf 0x22000) demo_mem)"
    by (simp add: demo_frame(1)) (simp add: rsp_on_syscall_stack_def IsOnStack_def demo_fields demo_tf_def)
  obtain ks m' where p: "push_frames demo_env (FunctionCallTf 0x22000) (d # [demo_sig 12 7]) (0x100000 - 144) 0x21000 demo_mem = Some (last ks, m')"
    "length ks = Suc (length [demo_sig 12 7])"
    and q: "\<And>m'' i sh h. keeps (unat (last ks)) (unat (FixRspAltstack d (0x100000 - 144))) m' m'' \<Longrightarrow> own_kept demo_env m' m'' \<Longrightarrow> i < length ks \<Longrightarrow>
        \<exists>tf un m3. usys_rt_sigreturn_finish demo_env sh h (ks ! i + 8) m'' =
           Some (SigResume tf un (snd (SigAltStack (Some (ds_ss ((d # [demo_sig 12 7]) ! i))) (ReplaceMask sh (ds_prev_blocked ((d # [demo_sig 12 7]) ! i)) h))) m3) \<and>
           saved demo_env tf m3 = (if i = 0 then saved demo_env (FunctionCallTf 0x22000) demo_mem
             else entry_saved (entries (d # [demo_sig 12 7]) ks (unat (FixRspAltstack d (0x100000 - 144))) (get_tf demo_env 0x21000 demo_mem) ! (i - 1))) \<and> un_rip un = unwinder_of tf"
    using nested_signals_unwind [OF demo_layout H ok r8 r b x(1) st y off u] unfolding Let_def by blast
  have "keeps (unat (last ks)) (unat (FixRspAltstack d (0x100000 - 144))) m' m'" "own_kept demo_env m' m'" by (simp_all add: keeps_def own_kept_def same_def)
  from q [OF this, of 0 SignalQueue_new "ThreadSignalHandler_new 0"] p(2) obtain tf un m3 where
    t: "usys_rt_sigreturn_finish demo_env SignalQueue_new (ThreadSignalHandler_new 0) (ks ! 0 + 8) m' =
      Some (SigResume tf un (snd (SigAltStack (Some (ds_ss d)) (ReplaceMask SignalQueue_new 5 (ThreadSignalHandler_new 0)))) m3)"
    "saved demo_env tf m3 = (2, Inr demo_tf, None)"
    unfolding sv by (auto simp: d_def demo_sig_def)
  have "blocked (snd (SigAltStack (Some (ds_ss d)) (ReplaceMask SignalQueue_new 5 (ThreadSignalHandler_new 0)))) = 5"
  proof -
    have "(5 :: u64) AND NOT kSignalKernelOnlyMask = 5" by code_simp
    then show ?thesis by (simp add: SigAltStack_def ReplaceMask_def Let_def SetInterruptFlagIfNeeded_def ThreadSignalHandler_new_def)
  qed
  then show ?thesis using p t unfolding d_def by (metis One_nat_def Suc_1 length_Cons list.size(3))
qed


section \<open>Signals for faults\<close>

lemma k_CopyToStack_at_spec:
  assumes p: "8 dvd unat p" "440 \<le> unat p"
  shows "\<exists>a m'. k_CopyToStack_at k p X m = Some (a, m') \<and> unat a + 440 = unat p \<and> only (unat a) (unat p) m m' \<and>
    fetch a 232 m' = fetch k 232 m \<and> fetch (a + 240) 200 m' = fetch (k + 240) 200 m \<and> fetch64 (a + k_fpstate) m' = X"
proof -
  obtain a where a: "AllocateOnStack k_size 8 p = Some a" "unat a = unat p - 440" using alloc8 [OF p(1), of k_size] p(2) by (auto simp: k_size_def)
  have ap: "unat a + 440 = unat p" using a(2) p(2) by linarith
  have a64: "unat a + 440 \<le> 2 ^ 64" using ap unat_lt_64 [of p] by linarith
  define m1 m' where "m1 = store a (fetch k 440 m) m" and "m' = store64 (a + k_fpstate) X m1"
  have f1: "fetch a 440 m1 = fetch k 440 m" using fetch_store_same [of "fetch k 440 m" a m] by (simp add: m1_def)
  have o1: "only (unat a) (unat p) m m1" unfolding m1_def using ap a64 by (intro store_only) simp_all
  have o2: "only (unat a) (unat p) m1 m'" unfolding m'_def ap [symmetric] k_fpstate_def by (rule off_only(1) [OF a64]) simp
  note K = k_copy(1,2) [OF a64, of X m1, folded m'_def]
  have "fetch a 232 m' = fetch k 232 m" "fetch (a + 240) 200 m' = fetch (k + 240) 200 m"
    using K fetch_at [OF f1, of 0 232] fetch_at [OF f1, of 240 200] by simp_all
  moreover have "k_CopyToStack_at k p X m = Some (a, m')" using a(1) by (simp add: k_CopyToStack_at_def PushToStack_def k_size_def m1_def m'_def)
  moreover have "fetch64 (a + k_fpstate) m' = X" by (simp add: m'_def)
  ultimately show ?thesis using ap only_trans [OF o1 o2] by blast
qed

text \<open>What the user sees: the frame, the mark of the library directly above it, and the extended state above that.\<close>

definition visible :: "frame_env \<Rightarrow> u64 \<Rightarrow> memory \<Rightarrow> u64 \<Rightarrow> nat \<Rightarrow> u64 \<Rightarrow> memory \<Rightarrow> bool" where
  "visible E k m n hi X m' \<longleftrightarrow> unat n mod 16 = 8 \<and> hi \<le> 2 ^ 64 \<and> unat n + 472 \<le> unat X \<and>
     unat X + fpx_extended_size (fetch64 (k + k_fpstate) m) m \<le> hi \<and>
     fetch X (fpx_extended_size (fetch64 (k + k_fpstate) m) m) m' = fetch (fetch64 (k + k_fpstate) m) (fpx_extended_size (fetch64 (k + k_fpstate) m) m) m \<and>
     fetch64 (n + k_fpstate) m' = X \<and> fetch64 (n + k_uc_flags) m' = fetch64 (k + k_uc_flags) m \<and>
     fetch (n + 48) 184 m' = fetch (k + 48) 184 m \<and> fetch (n + 312) 128 m' = fetch (k + 312) 128 m \<and>
     fetch64 (n + 440 + 16) m' = kJunctionFrameMagic \<and> get_jframe (n + 440) m' = Some (KernelSignalTf n)"

lemma PushUserVisibleFrame_spec:
  assumes L: "layout_ok E" and ok: "frame_ok E (KernelSignalTf k) m" and r: "lo + need E (KernelSignalTf k) m + 640 \<le> unat rsp"
    and b: "beside E (KernelSignalTf k) lo (unat rsp) m"
  shows "\<exists>n X m'. PushUserVisibleFrame E k rsp m = Some (n, m') \<and> only (unat n) (unat rsp) m m' \<and> lo \<le> unat n \<and>
    visible E k m n (unat rsp) X m'"
proof -
  define xs z where "xs = fetch64 (k + k_fpstate) m" and "z = fpx_extended_size xs m"
  define X m1 where "X = AlignDown (rsp - of_nat z) (xalign E)" and "m1 = store X (fetch xs z m) m"
  have r': "lo + z + 9344 \<le> unat rsp" using r by (simp add: need_def Let_def xs_def z_def)
  have X: "16 dvd unat X" "unat X + z \<le> unat rsp" "unat rsp < unat X + z + 4096" using x_room [OF L, of z rsp] r' by (simp_all add: X_def)
  have top: "unat k + 440 \<le> 2 ^ 64" "unat rsp < 2 ^ 64" using ok unat_lt_64 [of rsp] by (simp_all add: Let_def k_size_def)
  have c1: "CopyXstateToStack E k rsp m = Some (X, m1)"
    using ok unfolding m1_def X_def by (simp add: CopyXstateToStack_def Let_def xs_def [symmetric] z_def [symmetric])
  have o1: "only (unat X) (unat rsp) m m1" unfolding m1_def using X top by (intro store_only) simp_all
  have fX: "fetch X z m1 = fetch xs z m" using fetch_store_same [of "fetch xs z m" X m] X top by (simp add: m1_def)
  have X8: "8 dvd unat X" "32 + 16 \<le> unat X" using X(1,3) r' by (presburger, linarith)
  obtain j where j: "AllocateOnStack jframe_size 16 X = Some j" "16 dvd unat j" "unat j + 32 \<le> unat X" "unat X < unat j + 32 + 16"
    using alloc16 [OF X8] by (auto simp: jframe_size_def)
  define m2 where "m2 = store64 (j + 16) kJunctionFrameMagic m1"
  have j64: "unat j + 32 \<le> 2 ^ 64" using j(3) X(2) top by linarith
  have u: "unat (j + 16) = unat j + 16" "unat (j + 8) = unat j + 8" using unat_offset [of j 16] unat_offset [of j 8] j64 by simp_all
  have o2: "only (unat j) (unat j + 32) m1 m2" unfolding m2_def using u j64 by (intro store64_only) simp_all
  have j8: "8 dvd unat j" "440 \<le> unat j" using j(2,4) X(3) r' by (presburger, linarith)
  obtain n m3 where n: "k_CopyToStack_at k j X m2 = Some (n, m3)" "unat n + 440 = unat j" "only (unat n) (unat j) m2 m3"
    "fetch n 232 m3 = fetch k 232 m2" "fetch (n + 240) 200 m3 = fetch (k + 240) 200 m2" "fetch64 (n + k_fpstate) m3 = X"
    using k_CopyToStack_at_spec [OF j8] by blast
  define m' where "m' = store64 (j + 8) n (store64 j 0 m3)"
  have c: "PushUserVisibleFrame E k rsp m = Some (n, m')" using c1 j(1) n(1) by (simp add: PushUserVisibleFrame_def m2_def [symmetric] Let_def m'_def)
  have nlo: "lo \<le> unat n" and n64: "unat n + 440 \<le> 2 ^ 64" and nX: "unat n + 472 \<le> unat X" using n(2) j X(3) r' j64 by linarith+
  have jn: "j = n + 440"
  proof -
    have "unat (n + 440) = unat j" using unat_offset [of n 440] n(2) unat_lt_64 [of j] by simp
    then show ?thesis by (simp add: word_unat_eq_iff)
  qed
  have o4: "only (unat j) (unat j + 32) m3 m'"
    unfolding m'_def using u j64 by (intro only_trans [OF store64_only store64_only]) simp_all
  have o24: "only (unat n) (unat j + 32) m1 m'"
    using n(2) by (intro only_trans [OF only_mono [OF o2] only_trans [OF only_mono [OF n(3)] only_mono [OF o4]]]) simp_all
  have o: "only (unat n) (unat rsp) m m'"
    using nX j(3) X(2) n(2) by (intro only_trans [OF only_mono [OF o1] only_mono [OF o24]]) simp_all
  have kb: "unat k + 440 \<le> lo \<or> unat rsp \<le> unat k" using b by (simp add: beside_def k_size_def)
  have "only lo (unat rsp) m m2" using nlo n(2) j(3) X(2) by (intro only_trans [OF only_mono [OF o1] only_mono [OF o2]]) linarith+
  then have k2: "fetch k 440 m2 = fetch k 440 m" using only_fetch [of lo "unat rsp" m m2 k 440] kb top(1) by simp
  have n3: "fetch n 440 m' = fetch n 440 m3" using only_fetch [OF o4, of n 440] n(2) n64 by simp
  have f: "fetch n 232 m' = fetch k 232 m" "fetch (n + 240) 200 m' = fetch (k + 240) 200 m"
    using fetch_at [OF n3, of 0 232] fetch_at [OF n3, of 240 200] fetch_at [OF k2, of 0 232] fetch_at [OF k2, of 240 200] n(4,5) by simp_all
  have fp: "fetch64 (n + k_fpstate) m' = X" using fetch64_at [OF n3, of 232] n(6) by (simp add: k_fpstate_def)
  have fX': "fetch X z m' = fetch xs z m" using only_fetch [OF o24, of X z] j(3) X(2) top fX by simp
  have st: "fetch64 j (store64 (j + 8) v mm) = fetch64 j mm" "fetch64 (j + 16) (store64 (j + 8) v mm) = fetch64 (j + 16) mm"
    "fetch64 (j + 16) (store64 j v mm) = fetch64 (j + 16) mm" for v mm
    using j64 fetch_store_beside [of j 0 8 8 "le_enc 8 (unat v)" mm] fetch_store_beside [of j 16 8 8 "le_enc 8 (unat v)" mm]
      fetch_store_beside [of j 16 8 0 "le_enc 8 (unat v)" mm] by (simp_all add: fetch64_def store64_def)
  have "fetch64 (j + 16) m3 = fetch64 (j + 16) m2" unfolding fetch64_def using u j64 by (subst only_fetch [OF n(3)]) simp_all
  then have mg: "fetch64 (j + 16) m' = kJunctionFrameMagic" by (simp add: m'_def st m2_def)
  have gj: "get_jframe j m' = Some (KernelSignalTf n)" by (simp add: get_jframe_def m'_def st)
  have "visible E k m n (unat rsp) X m'"
    unfolding visible_def xs_def [symmetric] z_def [symmetric]
    using k_align [OF j(2) n(2)] top nX X(2) fX' fp mg gj fetch_at [OF f(1), of 48 184] fetch64_at [OF f(1), of 8] fetch_at [OF f(2), of 72 128]
    by (simp add: jn k_uc_flags_def add.assoc)
  then show ?thesis using c o nlo by blast
qed


definition edit_frame :: "u64 \<Rightarrow> u64 \<Rightarrow> stack_t \<Rightarrow> u64 \<Rightarrow> memory \<Rightarrow> memory" where
  "edit_frame n rest ss old m = store64 (n + k_mask) old (put_stack_t n ss (store64 n rest m))"

lemma edit_frame_fields:
  assumes n: "unat n + 440 \<le> 2 ^ 64"
  shows "fetch64 n (edit_frame n rest ss old m) = rest" "fetch64 (n + k_mask) (edit_frame n rest ss old m) = old"
    "get_stack_t n (edit_frame n rest ss old m) = ss" "only (unat n) (unat n + 440) m (edit_frame n rest ss old m)"
    "fetch64 (n + k_uc_flags) (edit_frame n rest ss old m) = fetch64 (n + k_uc_flags) m"
    "fetch64 (n + k_fpstate) (edit_frame n rest ss old m) = fetch64 (n + k_fpstate) m"
    "fetch (n + 48) 184 (edit_frame n rest ss old m) = fetch (n + 48) 184 m"
proof -
  show "fetch64 n (edit_frame n rest ss old m) = rest" "fetch64 (n + k_mask) (edit_frame n rest ss old m) = old"
    "get_stack_t n (edit_frame n rest ss old m) = ss"
    "fetch64 (n + k_fpstate) (edit_frame n rest ss old m) = fetch64 (n + k_fpstate) m"
    using n beside_64_64 [of n 232 0 rest m] by (simp_all add: edit_frame_def put_stack_t_def get_stack_t_def k_offsets besides)
  show "fetch64 (n + k_uc_flags) (edit_frame n rest ss old m) = fetch64 (n + k_uc_flags) m"
    using n beside_64_64 [of n 8 0 rest m] by (simp add: edit_frame_def put_stack_t_def k_offsets besides)
  have z: "only (unat n) (unat n + 440) m (store64 n v m)" for m v using n by (intro store64_only) simp_all
  show "only (unat n) (unat n + 440) m (edit_frame n rest ss old m)"
    unfolding edit_frame_def put_stack_t_def k_offsets comp_apply
    by (intro only_trans [OF _ off_only(1) [OF n]] only_trans [OF _ off_only(2) [OF n]] z) simp_all
  have w: "fetch (n + 48) 184 (store (n + of_nat j) bs m) = fetch (n + 48) 184 m" if "j + length bs \<le> 48 \<or> j = 304 \<and> length bs = 8" for j bs m
    using fetch_store_beside [of n 48 184 j bs m] n that by auto
  show "fetch (n + 48) 184 (edit_frame n rest ss old m) = fetch (n + 48) 184 m"
    using w [of 0] w [of 24] w [of 32] w [of 40] w [of 304]
    by (simp add: edit_frame_def put_stack_t_def k_offsets store64_def store32_def)
qed

text \<open>The frame as it is when the handler starts.\<close>

lemma visible_edited:
  assumes L: "layout_ok E" and ok: "frame_ok E (KernelSignalTf k) m" and v: "visible E k m n hi X m'"
    and m2: "m2 = edit_frame n (restorer (ds_act d)) (ds_ss d) (ds_prev_blocked d) m'" and xs: "xs = fetch64 (k + k_fpstate) m"
  shows "sig_on_stack E d n hi (saved E (KernelSignalTf n) m2) (fetch64 (k + k_rsp) m) m2"
    "xarea E (KernelSignalTf n) m2 = Some (X, fpx_extended_size xs m)" "fetch X (fpx_extended_size xs m) m2 = fetch xs (fpx_extended_size xs m) m"
    "fetch (n + 48) 184 m2 = fetch (k + 48) 184 m"
proof -
  define z where "z = fpx_extended_size xs m"
  note V = v [unfolded visible_def xs [symmetric] z_def [symmetric]]
  have n64: "unat n + 440 \<le> 2 ^ 64" and nX: "unat n + 440 \<le> unat X" "unat X + z \<le> hi" "hi \<le> 2 ^ 64" using V by linarith+
  note F = edit_frame_fields [OF n64, where rest = "restorer (ds_act d)" and ss = "ds_ss d" and old = "ds_prev_blocked d" and m = m', folded m2]
  have "fetch X z m2 = fetch X z m'" using only_fetch [OF F(4), of X z] nX by simp
  then have fX: "fetch X z m2 = fetch xs z m" using V by simp
  have K: "576 \<le> z" "fpx_xstate_size xs m + 4 \<le> z" "fpx_magic1 xs m = kFpXstateMagic1"
    "fetch32 (xs + of_nat (fpx_xstate_size xs m)) m = kFpXstateMagic2" "fetch64 (k + k_uc_flags) m AND kUCFpXstate \<noteq> 0"
    using ok by (simp_all add: Let_def xs [symmetric] z_def)
  note P = fpx_at [OF fX K(1)]
  have fp: "fetch64 (n + k_fpstate) m2 = X" and fl: "fetch64 (n + k_uc_flags) m2 = fetch64 (k + k_uc_flags) m"
    and mc: "fetch (n + 48) 184 m2 = fetch (k + 48) 184 m" using F(5-7) V by simp_all
  have xa: "xarea E (KernelSignalTf n) m2 = Some (X, z)" by (simp add: fp P(2) z_def)
  have okn: "frame_ok E (KernelSignalTf n) m2"
    using K n64 nX fetch32_at [OF fX K(2)] by (simp add: Let_def fp fl P z_def [symmetric] k_size_def)
  have pl: "placed E (KernelSignalTf n) hi m2" using nX unfolding placed_def xa by simp
  have rs: "fetch64 (n + k_rsp) m2 = fetch64 (k + k_rsp) m" using fetch64_at [OF mc, of 120] by (simp add: k_rsp_def add.assoc)
  have j: "fetch64 (n + 440 + 16) m2 = kJunctionFrameMagic" "get_jframe (n + 440) m2 = Some (KernelSignalTf n)"
  proof -
    have u: "unat (n + 440) = unat n + 440" using unat_offset [of n 440] V unat_lt_64 [of X] by simp
    have "fetch (n + 440) 32 m2 = fetch (n + 440) 32 m'" using V u unat_lt_64 [of X] by (intro only_fetch [OF F(4)]) auto
    from fetch64_at [OF this, of 0] fetch64_at [OF this, of 8] fetch64_at [OF this, of 16]
    show "fetch64 (n + 440 + 16) m2 = kJunctionFrameMagic" "get_jframe (n + 440) m2 = Some (KernelSignalTf n)"
      using V by (simp_all add: get_jframe_def)
  qed
  show "sig_on_stack E d n hi (saved E (KernelSignalTf n) m2) (fetch64 (k + k_rsp) m) m2"
    unfolding sig_on_stack_def using V F(1-3) j okn pl rs nX by (auto simp: k_size_def)
  show "xarea E (KernelSignalTf n) m2 = Some (X, fpx_extended_size xs m)" "fetch X (fpx_extended_size xs m) m2 = fetch xs (fpx_extended_size xs m) m"
    "fetch (n + 48) 184 m2 = fetch (k + 48) 184 m" using xa fX mc by (simp_all add: z_def)
qed


lemma CreateOnSyscallStack_spec:
  assumes L: "layout_ok E" and y: "sys_ok E n" "8704 \<le> n"
  shows "\<exists>a m'. CreateOnSyscallStack E m = Some (a, m') \<and> ReplaceEntryRegs_ok E a \<and> unat (sys_top E) < unat a \<and>
    unat a + ly_tf_size E \<le> unat (sys_rsp E) \<and> only (unat a) (unat a + ly_tf_size E) m m' \<and> tf_xsave_area (get_tf E a m') = 0"
proof -
  have s8: "8 dvd unat (sys_rsp E)" and room: "unat (sys_top E) + ly_wrap E + 8704 < unat (sys_rsp E)" and bot: "sys_rsp E \<le> sys_bottom E"
    using y by (simp_all add: sys_ok_def)
  obtain w where w: "AllocateOnStack (ly_wrap E) 8 (sys_rsp E) = Some w" "unat w = unat (sys_rsp E) - ly_wrap E"
    using alloc8 [OF s8, of "ly_wrap E"] room by auto
  have w8: "8 dvd unat w" using s8 layout_okD(3) [OF L] w(2) by (simp add: dvd_diff_nat)
  define s where "s = (ly_tf_size E + 15) div 16 * 16"
  have s: "ly_tf_size E \<le> s" "s \<le> 4111" using layout_okD(2) [OF L] align_bounds [of 16 "ly_tf_size E + 15"] unfolding s_def by linarith+
  have ws: "s + 16 \<le> unat w" using s(2) w(2) room by linarith
  obtain a where a: "AllocateOnStack s 16 w = Some a" "16 dvd unat a" "unat a + s \<le> unat w" "unat w < unat a + s + 16" using alloc16 [OF w8 ws] by blast
  have lt: "unat (sys_top E) < unat a" "unat a + ly_tf_size E \<le> unat (sys_rsp E)" using a(3,4) s w(2) room by linarith+
  then have a64: "unat a + ly_tf_size E \<le> 2 ^ 64" using unat_lt_64 [of "sys_rsp E"] by linarith
  define t where "t = (get_tf E a m)\<lparr>tf_rflags := 0, tf_xsave_area := 0, tf_orig_rax := - 1\<rparr>"
  have o: "length (tf_others t) = ly_others E" using tf_bytes(1) [OF L] by (simp add: t_def)
  have "ReplaceEntryRegs_ok E a" using bot lt a(2)
    unfolding ReplaceEntryRegs_ok_def rsp_on_syscall_stack_def IsOnStack_def word_less_nat_alt word_le_nat_alt kStackAlign_def mod_dvd by linarith
  moreover have "CreateOnSyscallStack E m = Some (a, put_tf E a t m)"
    using w(1) a(1) by (simp add: CreateOnSyscallStack_def s_def NewThreadTf_def t_def)
  moreover have "tf_xsave_area (get_tf E a (put_tf E a t m)) = 0" using tf_bytes(2) [OF L o a64] by (simp add: t_def)
  ultimately show ?thesis using lt tf_bytes(3) [OF L o a64] by blast
qed

lemma ReplaceMask_blocked: "blocked (ReplaceMask sh v h) = v AND NOT kSignalKernelOnlyMask" "sigaltstack (ReplaceMask sh v h) = sigaltstack h"
  by (simp_all add: ReplaceMask_def Let_def SetInterruptFlagIfNeeded_def)

lemma saved_K_at:
  assumes "saved E tf m = saved E (KernelSignalTf n) m'"
  shows "\<exists>b. tf = KernelSignalTf b \<and> fetch (b + 48) 184 m = fetch (n + 48) 184 m' \<and>
    map_option (\<lambda>(x, l). fetch x l m) (xarea E tf m) = map_option (\<lambda>(x, l). fetch x l m') (xarea E (KernelSignalTf n) m')"
proof -
  obtain b where b: "tf = KernelSignalTf b" using assms by (cases tf) (auto simp: saved_def)
  then have "fetch b 232 m = fetch n 232 m'" using assms by (simp add: saved_def)
  then show ?thesis using fetch_at [of b 232 m n m' 48 184] b assms by (simp add: saved_def)
qed

definition fault_rsp :: "k_sigaction \<Rightarrow> ThreadSignalHandler \<Rightarrow> u64 \<Rightarrow> u64" where
  "fault_rsp act h r =
     (if wants_altstack act \<and> has_altstack h \<and> \<not> IsOnSigStack (r - kRedzoneSize) (sigaltstack h)
      then ss_sp (sigaltstack h) + ss_size (sigaltstack h) else r - kRedzoneSize)"

lemma deliver_fault:
  assumes L: "layout_ok E" and ok: "frame_ok E (KernelSignalTf k) m" and act: "handler act \<noteq> kill" and rsp: "rsp = fault_rsp act h (fetch64 (k + k_rsp) m)"
    and r: "lo + need E (KernelSignalTf k) m + 640 \<le> unat rsp" and b: "beside E (KernelSignalTf k) lo (unat rsp) m"
    and own: "own_ok E" and y: "sys_ok E (need E (KernelSignalTf k) m)" and off: "unat rsp \<le> unat (sys_top E) \<or> unat (sys_rsp E) \<le> lo"
  shows "\<exists>a n d m2 m'. run_kernel_sig E kill sh signo (Some act) k h m =
      Some (RunHandler a n (snd (snd (SigProcMask sh SIG_BLOCK (Some (sa_mask act))
        (if ss_flags (sigaltstack h) AND kSigStackAutoDisarm \<noteq> 0 then DisableAltStack h else h)))) m') \<and>
    get_tf E a m' = (get_tf E a m')\<lparr>tf_rsp := n, tf_rip := handler act, tf_rdi := of_int signo, tf_rsi := n + k_info, tf_rdx := n + k_uc\<rparr> \<and>
    ds_ss d = sigaltstack h \<and> ds_prev_blocked d = blocked h \<and> lo \<le> unat n \<and>
    sig_on_stack E d n (unat rsp) (saved E (KernelSignalTf n) m2) (fetch64 (k + k_rsp) m) m' \<and>
    fetch (n + 48) 184 m2 = fetch (k + 48) 184 m \<and>
    map_option (\<lambda>(x, l). fetch x l m2) (xarea E (KernelSignalTf n) m2) = map_option (\<lambda>(x, l). fetch x l m) (xarea E (KernelSignalTf k) m)"
proof -
  obtain n X m1 where n: "PushUserVisibleFrame E k rsp m = Some (n, m1)" "only (unat n) (unat rsp) m m1" "lo \<le> unat n" "visible E k m n (unat rsp) X m1"
    using PushUserVisibleFrame_spec [OF L ok r b] by blast
  define d where "d = \<lparr>ds_act = act, ds_info = \<lparr>si_signo = signo, si_code = 0, si_pid = 0, si_status = 0\<rparr>, ds_ss = sigaltstack h, ds_prev_blocked = blocked h\<rparr>"
  define m2 where "m2 = edit_frame n (restorer (ds_act d)) (ds_ss d) (ds_prev_blocked d) m1"
  note V = visible_edited [OF L ok n(4) m2_def refl]
  obtain a m4 where a: "CreateOnSyscallStack E m2 = Some (a, m4)" "ReplaceEntryRegs_ok E a" "unat (sys_top E) < unat a" "unat a + ly_tf_size E \<le> unat (sys_rsp E)"
    "only (unat a) (unat a + ly_tf_size E) m2 m4"
    using CreateOnSyscallStack_spec [OF L y, of m2] by (auto simp: need_def)
  define t where "t = (get_tf E a m4)\<lparr>tf_rsp := n, tf_rip := handler act, tf_rdi := of_int signo, tf_rsi := n + k_info, tf_rdx := n + k_uc\<rparr>"
  have a64: "unat a + ly_tf_size E \<le> 2 ^ 64" using a(4) unat_lt_64 [of "sys_rsp E"] by linarith
  have o: "length (tf_others t) = ly_others E" using tf_bytes(1) [OF L] by (simp add: t_def)
  define m' where "m' = put_tf E a t m4"
  have oa: "only (unat (sys_top E)) (unat (sys_rsp E)) m2 m'"
    unfolding m'_def using a(3,4) by (intro only_trans [OF only_mono [OF a(5)] only_mono [OF tf_bytes(3) [OF L o a64]]]) simp_all
  have "keeps (unat n) (unat rsp) m2 m'" using off n(3) by (intro only_keeps [OF oa]) linarith
  moreover have "own_kept E m2 m'" using y by (intro only_own_kept [OF own oa]) (simp add: sys_ok_def)
  ultimately have "sig_on_stack E d n (unat rsp) (saved E (KernelSignalTf n) m2) (fetch64 (k + k_rsp) m) m'"
    by (rule sig_on_stack_kept [OF L V(1)])
  moreover have "get_tf E a m' = t" unfolding m'_def by (rule tf_bytes(2) [OF L o a64])
  then have "get_tf E a m' = (get_tf E a m')\<lparr>tf_rsp := n, tf_rip := handler act, tf_rdi := of_int signo, tf_rsi := n + k_info, tf_rdx := n + k_uc\<rparr>"
    by (simp add: t_def)
  moreover have "run_kernel_sig E kill sh signo (Some act) k h m =
      Some (RunHandler a n (snd (snd (SigProcMask sh SIG_BLOCK (Some (sa_mask act))
        (if ss_flags (sigaltstack h) AND kSigStackAutoDisarm \<noteq> 0 then DisableAltStack h else h)))) m')"
    using act n(1) a(1,2)
    by (simp add: run_kernel_sig_def rsp fault_rsp_def SigProcMask_def SIG_BLOCK_def DisableAltStack_def m'_def t_def m2_def edit_frame_def d_def Let_def)
  moreover have "ds_ss d = sigaltstack h" "ds_prev_blocked d = blocked h" by (simp_all add: d_def)
  moreover have "map_option (\<lambda>(x, l). fetch x l m2) (xarea E (KernelSignalTf n) m2) = map_option (\<lambda>(x, l). fetch x l m) (xarea E (KernelSignalTf k) m)"
    unfolding V(2) using V(3) by (simp add: Let_def)
  ultimately show ?thesis using V(4) n(3) by blast
qed

lemma run_kernel_sig_unwinds:
  assumes L: "layout_ok E" and ok: "frame_ok E (KernelSignalTf k) m" and act: "handler act \<noteq> kill" and rsp: "rsp = fault_rsp act h (fetch64 (k + k_rsp) m)"
    and r: "lo + need E (KernelSignalTf k) m + 640 \<le> unat rsp" and b: "beside E (KernelSignalTf k) lo (unat rsp) m"
    and own: "own_ok E" and y: "sys_ok E (need E (KernelSignalTf k) m)"
    and off: "unat rsp \<le> unat (sys_top E) \<or> unat (sys_rsp E) \<le> lo" and u: "\<not> rsp_on_syscall_stack E (fetch64 (k + k_rsp) m)"
  shows "\<exists>a n h' m'. run_kernel_sig E kill sh signo (Some act) k h m = Some (RunHandler a n h' m') \<and>
    (let t = get_tf E a m' in tf_rsp t = n \<and> tf_rip t = handler act \<and> tf_rdi t = of_int signo \<and> tf_rsi t = n + k_info \<and> tf_rdx t = n + k_uc) \<and>
    blocked h' = (blocked h OR sa_mask act) AND NOT kSignalKernelOnlyMask \<and>
    (\<forall>m'' sh' h1. keeps (unat n) (unat rsp) m' m'' \<longrightarrow> own_kept E m' m'' \<longrightarrow>
       (\<exists>c un h2 m3. usys_rt_sigreturn_finish E sh' h1 (n + 8) m'' = Some (SigResume (KernelSignalTf c) un h2 m3) \<and>
          blocked h2 = blocked h AND NOT kSignalKernelOnlyMask \<and> sigaltstack h2 = sigaltstack h \<and>
          fetch (c + 48) 184 m3 = fetch (k + 48) 184 m \<and>
          map_option (\<lambda>(x, l). fetch x l m3) (xarea E (KernelSignalTf c) m3) = map_option (\<lambda>(x, l). fetch x l m) (xarea E (KernelSignalTf k) m)))"
proof -
  obtain a n d m2 m' where D: "run_kernel_sig E kill sh signo (Some act) k h m =
      Some (RunHandler a n (snd (snd (SigProcMask sh SIG_BLOCK (Some (sa_mask act))
        (if ss_flags (sigaltstack h) AND kSigStackAutoDisarm \<noteq> 0 then DisableAltStack h else h)))) m')"
    and t: "get_tf E a m' = (get_tf E a m')\<lparr>tf_rsp := n, tf_rip := handler act, tf_rdi := of_int signo, tf_rsi := n + k_info, tf_rdx := n + k_uc\<rparr>"
    and d: "ds_ss d = sigaltstack h" "ds_prev_blocked d = blocked h" "lo \<le> unat n"
    and g: "sig_on_stack E d n (unat rsp) (saved E (KernelSignalTf n) m2) (fetch64 (k + k_rsp) m) m'"
    and c: "fetch (n + 48) 184 m2 = fetch (k + 48) 184 m"
      "map_option (\<lambda>(x, l). fetch x l m2) (xarea E (KernelSignalTf n) m2) = map_option (\<lambda>(x, l). fetch x l m) (xarea E (KernelSignalTf k) m)"
    using deliver_fault [OF L ok act rsp r b own y off, of sh signo] by blast
  define S where "S = saved E (KernelSignalTf n) m2"
  have "\<exists>c un h2 m3. usys_rt_sigreturn_finish E sh' h1 (n + 8) m'' = Some (SigResume (KernelSignalTf c) un h2 m3) \<and>
          blocked h2 = blocked h AND NOT kSignalKernelOnlyMask \<and> sigaltstack h2 = sigaltstack h \<and>
          fetch (c + 48) 184 m3 = fetch (k + 48) 184 m \<and>
          map_option (\<lambda>(x, l). fetch x l m3) (xarea E (KernelSignalTf c) m3) = map_option (\<lambda>(x, l). fetch x l m) (xarea E (KernelSignalTf k) m)"
    if kp: "keeps (unat n) (unat rsp) m' m''" and o: "own_kept E m' m''" for m'' sh' h1
  proof -
    note g' = sig_on_stack_kept [OF L g kp o, folded S_def]
    have "snd (snd S) = snd (snd (saved E (KernelSignalTf k) m))" unfolding S_def saved_def snd_conv by (rule c(2))
    then have "need_of S = need E (KernelSignalTf k) m" by (simp only: need_saved need_of_def)
    then have y': "sys_ok E (need_of S)" using y by simp
    have off': "unat rsp \<le> unat (sys_top E) \<or> unat (sys_rsp E) \<le> unat n" using off d(3) by linarith
    obtain tf un m3 where s: "usys_rt_sigreturn_finish E sh' h1 (n + 8) m'' =
        Some (SigResume tf un (snd (SigAltStack (Some (ds_ss d)) (ReplaceMask sh' (ds_prev_blocked d) h1))) m3)" "saved E tf m3 = S"
      using sigreturn_spec [OF L g' y' off'] u by blast
    then show ?thesis using saved_K_at [OF s(2) [unfolded S_def]] c d(1,2) by (auto simp: SigAltStack_def ReplaceMask_blocked)
  qed
  moreover have "blocked (snd (snd (SigProcMask sh SIG_BLOCK (Some (sa_mask act))
        (if ss_flags (sigaltstack h) AND kSigStackAutoDisarm \<noteq> 0 then DisableAltStack h else h)))) = (blocked h OR sa_mask act) AND NOT kSignalKernelOnlyMask"
    by (simp add: SigProcMask_def ReplaceMask_blocked DisableAltStack_def)
  moreover have "let t = get_tf E a m' in tf_rsp t = n \<and> tf_rip t = handler act \<and> tf_rdi t = of_int signo \<and> tf_rsi t = n + k_info \<and> tf_rdx t = n + k_uc"
    unfolding Let_def by (subst t, simp)+
  ultimately show ?thesis using D by blast
qed


lemma GetAction_normal: "GetAction kill signo P = (Some act, P1) \<Longrightarrow> handler act \<noteq> kill \<Longrightarrow> threads P1 = threads P"
  by (auto simp: GetAction_def SigKillAction_def Let_def split: prod.splits SignalAction.splits)

text \<open>C11: A fault in user code, with a handler for its signal, starts the handler on the stack that its action asks for, with the
  arguments of a signal handler and the signals of the action blocked.  When the handler returns, whatever it did to memory but for its frame, the
  interrupted registers and the extended state are resumed unchanged, with the mask and the alternate stack of before, even if the alternate stack was
  disarmed meanwhile.\<close>

theorem fault_signal_unwinds:
  assumes th: "threads P tid = Some h" "\<not> is_sig_blocked signo h" "GetAction kill signo P = (Some act, P1)"
    and L: "layout_ok E" and ok: "frame_ok E (KernelSignalTf k) m" and act: "handler act \<noteq> kill" and rsp: "rsp = fault_rsp act h (fetch64 (k + k_rsp) m)"
    and r: "lo + need E (KernelSignalTf k) m + 640 \<le> unat rsp" and b: "beside E (KernelSignalTf k) lo (unat rsp) m"
    and own: "own_ok E" and y: "sys_ok E (need E (KernelSignalTf k) m)"
    and off: "unat rsp \<le> unat (sys_top E) \<or> unat (sys_rsp E) \<le> lo" and u: "\<not> rsp_on_syscall_stack E (fetch64 (k + k_rsp) m)"
  shows "\<exists>a n h' m'. DeliverKernelSigToUser E kill tid signo k P m = Some (RunHandler a n h' m', th_map tid (\<lambda>_. h') P1) \<and>
    (let t = get_tf E a m' in tf_rsp t = n \<and> tf_rip t = handler act \<and> tf_rdi t = of_int signo \<and> tf_rsi t = n + k_info \<and> tf_rdx t = n + k_uc) \<and>
    blocked h' = (blocked h OR sa_mask act) AND NOT kSignalKernelOnlyMask \<and>
    (\<forall>m'' sh' h1. keeps (unat n) (unat rsp) m' m'' \<longrightarrow> own_kept E m' m'' \<longrightarrow>
       (\<exists>c un h2 m3. usys_rt_sigreturn_finish E sh' h1 (n + 8) m'' = Some (SigResume (KernelSignalTf c) un h2 m3) \<and>
          blocked h2 = blocked h AND NOT kSignalKernelOnlyMask \<and> sigaltstack h2 = sigaltstack h \<and>
          fetch (c + 48) 184 m3 = fetch (k + 48) 184 m \<and>
          map_option (\<lambda>(x, l). fetch x l m3) (xarea E (KernelSignalTf c) m3) = map_option (\<lambda>(x, l). fetch x l m) (xarea E (KernelSignalTf k) m)))"
    (is "\<exists>a n h' m'. ?R a n h' m' \<and> ?Q a n h' m'")
proof -
  have "DeliverKernelSigToUser E kill tid signo k P m = Some (RunHandler a n h' m', th_map tid (\<lambda>_. h') P1)"
    if "run_kernel_sig E kill (shared_q P1) signo (Some act) k h m = Some (RunHandler a n h' m')" for a n h' m'
    using that th GetAction_normal [OF th(3) act] by (simp add: DeliverKernelSigToUser_def)
  note D = this
  obtain a n h' m' where R: "run_kernel_sig E kill (shared_q P1) signo (Some act) k h m = Some (RunHandler a n h' m') \<and> ?Q a n h' m'"
    using run_kernel_sig_unwinds [OF L ok act rsp r b own y off u, of "shared_q P1" signo] by (elim exE)
  from D [OF conjunct1 [OF R]] conjunct2 [OF R] have "?R a n h' m' \<and> ?Q a n h' m'" by (rule conjI)
  then show ?thesis by (intro exI)
qed

definition demo_kmem :: memory where
  "demo_kmem = store64 (0x23000 + 8) 1 (store64 (0x23000 + 232) 0x24000 (store64 (0x23000 + 168) 0x100000
     (store32 (0x24000 + 464) kFpXstateMagic1 (store32 (0x24000 + 468) 644 (store32 (0x24000 + 480) 640 (store32 (0x24000 + 640) kFpXstateMagic2 (\<lambda>_. 0)))))))"

lemma fetch_far:
  assumes "unat a + length bs \<le> unat b \<or> unat b + n \<le> unat a" "unat a + length bs \<le> 2 ^ 64" "unat b + n \<le> 2 ^ 64"
  shows "fetch b n (store a bs m) = fetch b n m"
  using assms by (intro only_fetch [OF store_only [OF le_refl le_refl assms(2)]]) auto

lemma far:
  "unat a + 8 \<le> unat b \<or> unat b + 8 \<le> unat a \<Longrightarrow> unat a + 8 \<le> 2 ^ 64 \<Longrightarrow> unat b + 8 \<le> 2 ^ 64 \<Longrightarrow> fetch64 b (store64 a v m) = fetch64 b m"
  "unat a + 4 \<le> unat b \<or> unat b + 4 \<le> unat a \<Longrightarrow> unat a + 4 \<le> 2 ^ 64 \<Longrightarrow> unat b + 4 \<le> 2 ^ 64 \<Longrightarrow> fetch32 b (store32 a w m) = fetch32 b m"
  "unat a + 8 \<le> unat b \<or> unat b + 4 \<le> unat a \<Longrightarrow> unat a + 8 \<le> 2 ^ 64 \<Longrightarrow> unat b + 4 \<le> 2 ^ 64 \<Longrightarrow> fetch32 b (store64 a v m) = fetch32 b m"
  by (simp_all add: fetch64_def fetch32_def store64_def store32_def fetch_far)

lemma demo_kfields:
  "fetch64 (0x23000 + k_uc_flags) demo_kmem = 1" "fetch64 (0x23000 + k_fpstate) demo_kmem = 0x24000" "fetch64 (0x23000 + k_rsp) demo_kmem = 0x100000"
  "fpx_magic1 0x24000 demo_kmem = kFpXstateMagic1" "fpx_extended_size 0x24000 demo_kmem = 644" "fpx_xstate_size 0x24000 demo_kmem = 640"
  "fetch32 (0x24000 + 640) demo_kmem = kFpXstateMagic2"
  by (simp_all add: demo_kmem_def k_offsets fpx_magic1_def fpx_extended_size_def fpx_xstate_size_def far)


lemma demo_kframe: "frame_ok demo_env (KernelSignalTf 0x23000) demo_kmem"
  by (simp only: frame_ok.simps Let_def demo_kfields k_size_def kUCFpXstate_def) (simp add: demo_kfields(7) [simplified])

lemma demo_kneed: "need demo_env (KernelSignalTf 0x23000) demo_kmem = 644 + 8704"
  by (simp only: need_def xarea.simps Let_def demo_kfields) simp

definition demo_process :: SigProcess where
  "demo_process = \<lparr>threads = (\<lambda>tid. if tid = 7 then Some (ThreadSignalHandler_new 4) else None), shared_q = SignalQueue_new,
     signal_tbl = SignalTable_new[10 := ds_act (demo_sig 11 0)], stopped_gen = 0, stop_cnt = 0\<rparr>"

lemma demo_action:
  "threads demo_process 7 = Some (ThreadSignalHandler_new 4)" "\<not> is_sig_blocked 11 (ThreadSignalHandler_new 4)"
  "\<exists>P1. GetAction 0x999000 11 demo_process = (Some (ds_act (demo_sig 11 0)), P1)"
proof -
  show "threads demo_process 7 = Some (ThreadSignalHandler_new 4)" by (simp add: demo_process_def)
  show "\<not> is_sig_blocked 11 (ThreadSignalHandler_new 4)" by code_simp
  have "fst (GetAction 0x999000 11 demo_process) = Some (ds_act (demo_sig 11 0))"
    by (simp add: GetAction_def demo_process_def get_action_def SignalTable_new_def demo_sig_def ParseAction_def kDefaultHandler_def Let_def)
  then show "\<exists>P1. GetAction 0x999000 11 demo_process = (Some (ds_act (demo_sig 11 0)), P1)" by (metis prod.collapse)
qed

theorem fault_signal_unwinds_witness:
  "\<exists>a n h' m' P' c un h2 m3. DeliverKernelSigToUser demo_env 0x999000 7 11 0x23000 demo_process demo_kmem = Some (RunHandler a n h' m', P') \<and> tf_rip (get_tf demo_env a m') = 0x402000 \<and>
     usys_rt_sigreturn_finish demo_env SignalQueue_new h' (n + 8) m' = Some (SigResume (KernelSignalTf c) un h2 m3) \<and>
     fetch (c + 48) 184 m3 = fetch (0x23000 + 48) 184 demo_kmem"
proof -
  define act where "act = ds_act (demo_sig 11 0)"
  define h where "h = ThreadSignalHandler_new 4"
  have rsp: "fault_rsp act h (fetch64 (0x23000 + k_rsp) demo_kmem) = 0xFFF80"
    unfolding demo_kfields by (simp add: fault_rsp_def act_def demo_sig_def wants_altstack_def kRedzoneSize_def)
  note ok = demo_kframe and nd = demo_kneed
  have act': "handler act \<noteq> 0x999000" by (simp add: act_def demo_sig_def)
  have b: "beside demo_env (KernelSignalTf 0x23000) 0xF0000 (unat (0xFFF80 :: u64)) demo_kmem"
    by (simp only: beside_def xarea.simps Let_def demo_kfields tf_addr.simps frame_size.simps k_size_def) simp
  have r: "0xF0000 + need demo_env (KernelSignalTf 0x23000) demo_kmem + 640 \<le> unat (0xFFF80 :: u64)" unfolding nd by simp
  have own: "own_ok demo_env" by (simp add: own_ok_def demo_fields)
  have y: "sys_ok demo_env (need demo_env (KernelSignalTf 0x23000) demo_kmem)" unfolding nd by (simp add: sys_ok_def own_beside_def demo_fields)
  have off: "unat (0xFFF80 :: u64) \<le> unat (sys_top demo_env) \<or> unat (sys_rsp demo_env) \<le> 0xF0000" by (simp add: demo_fields)
  have u: "\<not> rsp_on_syscall_stack demo_env (fetch64 (0x23000 + k_rsp) demo_kmem)"
    unfolding demo_kfields by (simp add: rsp_on_syscall_stack_def IsOnStack_def demo_fields)
  obtain P1 where P1: "threads demo_process 7 = Some h" "\<not> is_sig_blocked 11 h" "GetAction 0x999000 11 demo_process = (Some act, P1)"
    using demo_action unfolding act_def h_def by blast
  obtain a n h' m' where D: "DeliverKernelSigToUser demo_env 0x999000 7 11 0x23000 demo_process demo_kmem = Some (RunHandler a n h' m', th_map 7 (\<lambda>_. h') P1)"
    and t: "tf_rip (get_tf demo_env a m') = handler act"
    and q: "\<And>m'' sh' h1. keeps (unat n) (unat (0xFFF80 :: u64)) m' m'' \<Longrightarrow> own_kept demo_env m' m'' \<Longrightarrow>
      \<exists>c un h2 m3. usys_rt_sigreturn_finish demo_env sh' h1 (n + 8) m'' = Some (SigResume (KernelSignalTf c) un h2 m3) \<and>
        blocked h2 = blocked h AND NOT kSignalKernelOnlyMask \<and> sigaltstack h2 = sigaltstack h \<and>
        fetch (c + 48) 184 m3 = fetch (0x23000 + 48) 184 demo_kmem \<and>
        map_option (\<lambda>(x, l). fetch x l m3) (xarea demo_env (KernelSignalTf c) m3) =
          map_option (\<lambda>(x, l). fetch x l demo_kmem) (xarea demo_env (KernelSignalTf 0x23000) demo_kmem)"
    using fault_signal_unwinds [OF P1 demo_layout ok act' rsp [symmetric] r b own y off u] unfolding Let_def by blast
  have "keeps (unat n) (unat (0xFFF80 :: u64)) m' m'" "own_kept demo_env m' m'" by (simp_all add: keeps_def own_kept_def same_def)
  from q [OF this, of SignalQueue_new h'] D t show ?thesis unfolding h_def act_def by (auto simp: demo_sig_def)
qed

end
