(* ===== verification/TrapSnapshot.thy ===== *)
theory TrapSnapshot
  imports SigReturn
begin

text \<open>
  Trap frames in a snapshot: the \<open>DoSave\<close> and \<open>DoLoad\<close> functions of \<^verbatim>\<open>src/junction/kernel/sigframe.cc\<close>,
  \<^verbatim>\<open>src/junction/kernel/trapframe.h\<close> and \<^verbatim>\<open>src/junction/kernel/trapframe.cc\<close>, and \<open>LoadTrapframe\<close>.

  A binary archive is the list of bytes written so far, or still to be read; a word is in little-endian order.
\<close>

section \<open>Archives\<close>

type_synonym archive = "byte list"

definition ar_get :: "nat \<Rightarrow> archive \<Rightarrow> (byte list \<times> archive) option" where
  "ar_get n ar = (if length ar < n then None else Some (take n ar, drop n ar))"

definition ar_u32 :: "archive \<Rightarrow> (nat \<times> archive) option" where
  "ar_u32 ar = map_option (\<lambda>(b, r). (le_nat b, r)) (ar_get 4 ar)"

definition ar_u64 :: "archive \<Rightarrow> (nat \<times> archive) option" where
  "ar_u64 ar = map_option (\<lambda>(b, r). (le_nat b, r)) (ar_get 8 ar)"

text \<open>A word of a structure that is held as a list of bytes.\<close>

definition word_at :: "byte list \<Rightarrow> u64 \<Rightarrow> u64" where
  "word_at bs off = of_nat (le_at bs (unat off) 8)"

definition put_word :: "u64 \<Rightarrow> u64 \<Rightarrow> byte list \<Rightarrow> byte list" where
  "put_word off v bs = take (unat off) bs @ le_enc 8 (unat v) @ drop (unat off + 8) bs"

section \<open>Operations\<close>

definition k_DoSave :: "byte list \<Rightarrow> memory \<Rightarrow> archive option" where
  "k_DoSave frame m =
     (let xs = word_at frame k_fpstate in
      if fpx_magic1 xs m \<noteq> kFpXstateMagic1 then None
      else if fetch32 (xs + of_nat (fpx_xstate_size xs m)) m \<noteq> kFpXstateMagic2 then None
      else let n = fpx_extended_size xs m in Some (le_enc 4 n @ fetch xs n m @ frame))"

definition k_DoLoad :: "frame_env \<Rightarrow> u64 \<Rightarrow> archive \<Rightarrow> memory \<Rightarrow> (u64 \<times> archive \<times> memory) option" where
  "k_DoLoad E rsp ar m =
     Option.bind (ar_u32 ar) (\<lambda>(n, ar1).
       let rsp' = AlignDown (rsp - of_nat n) (xalign E) in
       Option.bind (ar_get n ar1) (\<lambda>(xb, ar2).
       Option.bind (AllocateOnStack k_size 8 rsp') (\<lambda>a.
         map_option (\<lambda>(fb, ar3). (a, ar3, store64 (a + k_fpstate) rsp' (store a fb (store rsp' xb m)))) (ar_get k_size ar2))))"

definition u_DoSave :: "frame_env \<Rightarrow> u64 \<Rightarrow> memory \<Rightarrow> archive option" where
  "u_DoSave E tf m =
     (let xa = tf_xsave_area (get_tf E tf m) in
      if xa = 0 then None
      else let len = ly_GetXSaveSize E (fetch xa 576 m) in
        if len = 0 then None else Some (le_enc 8 len @ fetch xa len m @ fetch tf (ly_tf_size E) m))"

definition u_DoLoad :: "frame_env \<Rightarrow> u64 \<Rightarrow> archive \<Rightarrow> memory \<Rightarrow> (u64 \<times> archive \<times> memory) option" where
  "u_DoLoad E rsp ar m =
     Option.bind (ar_u64 ar) (\<lambda>(len, ar1).
       let rsp' = AlignDown (rsp - of_nat len) (xalign E) in
       Option.bind (ar_get len ar1) (\<lambda>(xb, ar2).
       Option.bind (ar_get (ly_tf_size E) ar2) (\<lambda>(fb, ar3).
         map_option (\<lambda>(a, m'). (a, ar3, m')) (push_tf E 8 fb rsp' rsp' (store rsp' xb m)))))"

definition f_DoSave :: "frame_env \<Rightarrow> int \<Rightarrow> u64 \<Rightarrow> memory \<Rightarrow> archive option" where
  "f_DoSave E rax tf m =
     (let t = get_tf E tf m; xa = tf_xsave_area t in
      Option.bind
        (if xa \<noteq> 0 then map_option (\<lambda>len. le_enc 8 len @ fetch xa len m) (GetXsaveAreaSize E xa m) else Some (le_enc 8 0))
        (\<lambda>ar.
          if IsRestartSys rax then
            map_option (\<lambda>rip. ar @ ly_tf_enc E (t\<lparr>tf_rax := tf_orig_rax t, tf_rip := rip\<rparr>)) (RewindIndirectSystemCall (tf_rip t) m)
          else Some (ar @ fetch tf (ly_tf_size E) m)))"

definition f_DoLoad :: "frame_env \<Rightarrow> u64 \<Rightarrow> archive \<Rightarrow> memory \<Rightarrow> (u64 \<times> archive \<times> memory) option" where
  "f_DoLoad E rsp ar m =
     Option.bind (ar_u64 ar) (\<lambda>(xlen, ar1).
     Option.bind
       (if xlen \<noteq> 0 then
          let rsp' = AlignDown (rsp - of_nat xlen) (xalign E)
          in map_option (\<lambda>(xb, ar2). (rsp', rsp', ar2, store rsp' xb m)) (ar_get xlen ar1)
        else Some (rsp, 0, ar1, m))
       (\<lambda>(rsp', new_xarea, ar2, m1).
         Option.bind (ar_get (ly_tf_size E) ar2) (\<lambda>(fb, ar3).
           map_option (\<lambda>(a, m'). (a, ar3, m')) (push_tf E kStackAlign fb rsp' new_xarea m1))))"

text \<open>A frame is saved behind the number of its kind.  A frame of a system call that is to be restarted is saved as it was at the start of
  the call.\<close>

fun tf_DoSave :: "frame_env \<Rightarrow> Trapframe \<Rightarrow> int \<Rightarrow> memory \<Rightarrow> archive option" where
  "tf_DoSave E (KernelSignalTf a) rax m =
     map_option (append (le_enc 8 0))
       (let sigframe = fetch a k_size m in
        if IsRestartSys rax then
          let c = put_word k_rax (fetch64 (a + k_trapno) m) sigframe in k_DoSave (put_word k_rip (word_at c k_rip - 2) c) m
        else k_DoSave sigframe m)"
| "tf_DoSave E (UintrTf a) rax m = (if IsRestartSys rax then None else map_option (append (le_enc 8 1)) (u_DoSave E a m))"
| "tf_DoSave E (FunctionCallTf a) rax m = map_option (append (le_enc 8 2)) (f_DoSave E rax a m)"

definition load_frame :: "frame_env \<Rightarrow> nat \<Rightarrow> u64 \<Rightarrow> archive \<Rightarrow> memory \<Rightarrow> (Trapframe \<times> archive \<times> memory) option" where
  "load_frame E trapframe_type rsp ar m =
     (if trapframe_type = 0 then map_option (\<lambda>(a, r). (KernelSignalTf a, r)) (k_DoLoad E rsp ar m)
      else if trapframe_type = 1 then map_option (\<lambda>(a, r). (UintrTf a, r)) (u_DoLoad E rsp ar m)
      else if trapframe_type = 2 then map_option (\<lambda>(a, r). (FunctionCallTf a, r)) (f_DoLoad E rsp ar m)
      else None)"

definition LoadTrapframe :: "frame_env \<Rightarrow> archive \<Rightarrow> memory \<Rightarrow> (Trapframe \<times> unwind_tf \<times> archive \<times> memory) option" where
  "LoadTrapframe E ar m =
     Option.bind (ar_u64 ar) (\<lambda>(trapframe_type, ar1).
     Option.bind (AllocateOnStack (ly_wrap E) 8 (sys_rsp E)) (\<lambda>w.
     Option.bind (load_frame E trapframe_type w ar1 m) (\<lambda>(tf, ar2, m1).
       map_option (\<lambda>u. (tf, u, ar2, m1)) (MakeUnwinderSysret E w tf m1))))"

section \<open>Loading what was saved\<close>

lemma ar_get_append [simp]: "length bs = n \<Longrightarrow> ar_get n (bs @ ar) = Some (bs, ar)"
  by (simp add: ar_get_def)

lemma ar_u64_append [simp]: "n < 2 ^ 64 \<Longrightarrow> ar_u64 (le_enc 8 n @ ar) = Some (n, ar)"
  by (simp add: ar_u64_def)

lemma ar_u32_append [simp]: "n < 2 ^ 32 \<Longrightarrow> ar_u32 (le_enc 4 n @ ar) = Some (n, ar)"
  by (simp add: ar_u32_def)

text \<open>What the archive holds of a frame.\<close>

fun body :: "frame_env \<Rightarrow> Trapframe \<Rightarrow> memory \<Rightarrow> archive" where
  "body E (KernelSignalTf a) m = (let xs = fetch64 (a + k_fpstate) m; n = fpx_extended_size xs m in le_enc 4 n @ fetch xs n m @ fetch a k_size m)"
| "body E (UintrTf a) m = (let xa = tf_xsave_area (get_tf E a m); n = ly_GetXSaveSize E (fetch xa 576 m) in le_enc 8 n @ fetch xa n m @ fetch a (ly_tf_size E) m)"
| "body E (FunctionCallTf a) m =
     (let xa = tf_xsave_area (get_tf E a m) in
      (if xa = 0 then le_enc 8 0 else let n = the (GetXsaveAreaSize E xa m) in le_enc 8 n @ fetch xa n m) @ fetch a (ly_tf_size E) m)"

lemma load_frame_spec:
  assumes L: "layout_ok E" and ok: "sigframe_type tf \<noteq> 1 \<longrightarrow> frame_ok E tf m0" and x: "sigframe_type tf = 1 \<longrightarrow> xarea E tf m0 \<noteq> None"
    and w: "8 dvd unat w" "need E tf m0 \<le> unat w" and own: "own_beside E (unat w - need E tf m0) (unat w)"
  shows "\<exists>tf' m'. load_frame E (unat (sigframe_type tf)) w (body E tf m0 @ rest) m = Some (tf', rest, m') \<and>
    copied E tf m0 m w tf' m' \<and> sigframe_type tf' = sigframe_type tf"
proof (cases tf)
  case (KernelSignalTf k)
  define xs n where "xs = fetch64 (k + k_fpstate) m0" and "n = fpx_extended_size xs m0"
  have "n < 2 ^ 32" using unsigned_less [of "fetch32 (xs + 468) m0"] by (simp add: n_def fpx_extended_size_def)
  then show ?thesis using k_place [of E k m0 w, OF L _ _ refl refl refl refl, of m] ok w KernelSignalTf
    by (auto simp: load_frame_def k_DoLoad_def Let_def xs_def n_def)
next
  case (UintrTf a)
  define xa n where "xa = tf_xsave_area (get_tf E a m0)" and "n = ly_GetXSaveSize E (fetch xa 576 m0)"
  have xa: "xa \<noteq> 0" using x UintrTf by (auto simp: xa_def Let_def split: if_splits)
  have nd: "need E tf m0 = n + 8704" using UintrTf xa by (simp add: need_def Let_def xa_def n_def)
  have r: "n + 8704 \<le> unat w" "n < 2 ^ 64" using w nd unat_lt_64 [of w] by linarith+
  show ?thesis using U_place [OF L n_def r(1) xa_def xa refl refl own [unfolded nd], of m] r(2) UintrTf
    by (auto simp: load_frame_def u_DoLoad_def Let_def xa_def [symmetric] n_def [symmetric])
next
  case (FunctionCallTf a)
  define xa where "xa = tf_xsave_area (get_tf E a m0)"
  show ?thesis
  proof (cases "xa = 0")
    case True
    have "8704 \<le> unat w" using w(2) by (simp add: need_def)
    then show ?thesis using F_place_bare [OF L w(1), of a m0 m] True FunctionCallTf
      by (auto simp: load_frame_def f_DoLoad_def Let_def xa_def kStackAlign_def)
  next
    case False
    obtain n where n: "GetXsaveAreaSize E xa m0 = Some n" "576 \<le> n" using ok False FunctionCallTf by (auto simp: Let_def xa_def)
    have r: "n + 8704 \<le> unat w" "n < 2 ^ 64" using w False n FunctionCallTf unat_lt_64 [of w] by (simp_all add: need_def Let_def xa_def)
    show ?thesis using F_place [OF L n r(1) xa_def False refl refl, of m] r(2) n False FunctionCallTf
      by (auto simp: load_frame_def f_DoLoad_def Let_def xa_def [symmetric] kStackAlign_def)
  qed
qed

lemma LoadTrapframe_spec:
  assumes L: "layout_ok E" and ok: "sigframe_type tf \<noteq> 1 \<longrightarrow> frame_ok E tf m0" and x: "sigframe_type tf = 1 \<longrightarrow> xarea E tf m0 \<noteq> None"
    and s: "sys_ok E (need E tf m0)" and u: "sigframe_type tf \<noteq> 2 \<longrightarrow> \<not> rsp_on_syscall_stack E (GetRsp E tf m0)"
  shows "\<exists>tf' un m'. LoadTrapframe E (le_enc 8 (unat (sigframe_type tf)) @ body E tf m0 @ rest) m = Some (tf', un, rest, m') \<and>
    saved E tf' m' = saved E tf m0 \<and> un_rip un = unwinder_of tf' \<and> only (unat (sys_top E)) (unat (sys_rsp E)) m m'"
proof -
  obtain w where w: "AllocateOnStack (ly_wrap E) 8 (sys_rsp E) = Some w" "8 dvd unat w" "unat (sys_top E) + need E tf m0 < unat w"
    "unat w \<le> unat (sys_rsp E)" "rsp_on_syscall_stack E w" "own_beside E (unat w - need E tf m0) (unat w)"
    using sys_wrap [OF L s] by blast
  have nw: "need E tf m0 \<le> unat w" using w(3) by linarith
  obtain tf' m' where c: "load_frame E (unat (sigframe_type tf)) w (body E tf m0 @ rest) m = Some (tf', rest, m')"
      "copied E tf m0 m w tf' m'" "sigframe_type tf' = sigframe_type tf"
    using load_frame_spec [OF L ok x w(2) nw w(6)] by blast
  note S = copied_sys [OF s w(3,4) c(2)]
  have C: "frame_aligned tf'" "frame_ok E tf' m'" "GetRsp E tf' m' = GetRsp E tf m0" "saved E tf' m' = saved E tf m0"
    using c(2) unfolding copied_def by blast+
  then obtain un where un: "MakeUnwinderSysret E w tf' m' = Some un" "un_rip un = unwinder_of tf'"
    using MakeUnwinderSysret_spec [OF w(5) S [THEN conjunct1] C(1,2)] u c(3) by auto
  have "unat (sigframe_type tf) < 2 ^ 64" by (rule unat_lt_64)
  then have "LoadTrapframe E (le_enc 8 (unat (sigframe_type tf)) @ body E tf m0 @ rest) m = Some (tf', un, rest, m')"
    using w(1) c(1) un(1) by (simp add: LoadTrapframe_def)
  then show ?thesis using un(2) C(4) S by blast
qed

section \<open>Saving\<close>

lemma length_put_word [simp]: "unat off + 8 \<le> length bs \<Longrightarrow> length (put_word off v bs) = length bs"
  by (simp add: put_word_def)

lemma word_at_fetch: "unat off + 8 \<le> l \<Longrightarrow> word_at (fetch a l m) off = fetch64 (a + off) m"
  using fetch_sub [of "unat off" 8 l a m] by (simp add: word_at_def le_at_def fetch64_def)

lemma fetch_put_word:
  assumes "unat off + 8 \<le> l" "unat a + l \<le> 2 ^ 64"
  shows "fetch a l (store64 (a + off) v m) = put_word off v (fetch a l m)"
proof (rule nth_equalityI)
  show "length (fetch a l (store64 (a + off) v m)) = length (put_word off v (fetch a l m))" using assms(1) by simp
  fix i assume "i < length (fetch a l (store64 (a + off) v m))"
  then have i: "i < l" by simp
  have d: "a + of_nat i - (a + off) = of_nat i - off" by simp
  have "unat (of_nat i :: u64) = i" using i assms(2) by (simp add: unat_of_nat take_bit_nat_eq_self)
  then have "unat (of_nat i - off :: u64) = (if unat off \<le> i then i - unat off else i + 2 ^ 64 - unat off)"
    using unat_sub_if' [of "of_nat i :: u64" off] by (simp add: word_le_nat_alt)
  then show "fetch a l (store64 (a + off) v m) ! i = put_word off v (fetch a l m) ! i"
    using i assms unat_lt_64 [of off] by (auto simp: store64_def store_def d put_word_def nth_append)
qed

lemma put_word_commute:
  assumes "unat p + 8 \<le> unat q" "unat q + 8 \<le> length bs"
  shows "put_word p v (put_word q w bs) = put_word q w (put_word p v bs)"
  using assms by (intro nth_equalityI) (auto simp: put_word_def nth_append min_def)

text \<open>The memory in which a frame of a system call that is to be restarted is back at the start of the call.\<close>

definition rewound :: "frame_env \<Rightarrow> Trapframe \<Rightarrow> int \<Rightarrow> memory \<Rightarrow> memory option" where
  "rewound E tf rax m = (if IsRestartSys rax then tf_ResetToSyscallStart E tf m else Some m)"

definition area_apart :: "frame_env \<Rightarrow> Trapframe \<Rightarrow> memory \<Rightarrow> bool" where
  "area_apart E tf m = (case xarea E tf m of None \<Rightarrow> True
     | Some (x, n) \<Rightarrow> unat x + n \<le> unat (tf_addr tf) \<or> unat (tf_addr tf) + frame_size E tf \<le> unat x)"

lemma rewind_K:
  assumes ok: "frame_ok E (KernelSignalTf k) m" and ap: "area_apart E (KernelSignalTf k) m"
    and m1: "m1 = store64 (k + k_rip) (fetch64 (k + k_rip) m - 2) m" and mr: "mr = store64 (k + k_rax) (fetch64 (k + k_trapno) m1) m1"
    and xs: "xs = fetch64 (k + k_fpstate) m" and nn: "n = fpx_extended_size xs m"
  shows "frame_ok E (KernelSignalTf k) mr" "fetch64 (k + k_fpstate) mr = xs" "fpx_extended_size xs mr = n" "fetch xs n mr = fetch xs n m"
    "GetRsp E (KernelSignalTf k) mr = GetRsp E (KernelSignalTf k) m"
    "fetch k k_size mr = put_word k_rip (fetch64 (k + k_rip) m - 2) (put_word k_rax (fetch64 (k + k_trapno) m) (fetch k k_size m))"
proof -
  have k: "unat k + 440 \<le> 2 ^ 64" and n: "576 \<le> n" "fpx_xstate_size xs m + 4 \<le> n" "unat xs + n \<le> 2 ^ 64"
    using ok by (simp_all add: Let_def k_size_def xs nn)
  have o: "only (unat k) (unat k + 440) m mr"
    unfolding mr m1 k_offsets by (intro only_trans [OF _ off_only(1) [OF k]] off_only(1) [OF k]) simp_all
  have "unat xs + n \<le> unat k \<or> unat k + 440 \<le> unat xs" using ap by (simp add: area_apart_def Let_def xs nn k_size_def)
  then have x: "same xs n m mr" using only_fetch [OF o, of xs n] n(3) by (simp add: same_def)
  then show "fetch xs n mr = fetch xs n m" by (simp add: same_def)
  have f: "fetch64 (k + k_fpstate) mr = xs" "fetch64 (k + k_uc_flags) mr = fetch64 (k + k_uc_flags) m" "fetch64 (k + k_rsp) mr = fetch64 (k + k_rsp) m"
    "fetch64 (k + k_trapno) m1 = fetch64 (k + k_trapno) m"
    unfolding mr m1 xs using k by (simp_all add: k_offsets besides)
  then show "fetch64 (k + k_fpstate) mr = xs" "GetRsp E (KernelSignalTf k) mr = GetRsp E (KernelSignalTf k) m" by simp_all
  note F = same_fpx [OF x n(1)] and M = same_fetch32 [OF x n(2)]
  show "fpx_extended_size xs mr = n" using F nn by simp
  show "frame_ok E (KernelSignalTf k) mr" using ok by (simp add: Let_def f F M xs [symmetric])
  have "fetch k 440 mr = put_word k_rax (fetch64 (k + k_trapno) m) (put_word k_rip (fetch64 (k + k_rip) m - 2) (fetch k 440 m))"
    unfolding mr f(4) unfolding m1 using k by (simp add: fetch_put_word k_offsets)
  also have "\<dots> = put_word k_rip (fetch64 (k + k_rip) m - 2) (put_word k_rax (fetch64 (k + k_trapno) m) (fetch k 440 m))"
    by (rule put_word_commute) (simp_all add: k_offsets)
  finally show "fetch k k_size mr = put_word k_rip (fetch64 (k + k_rip) m - 2) (put_word k_rax (fetch64 (k + k_trapno) m) (fetch k k_size m))"
    by (simp add: k_size_def)
qed

lemma save_K:
  assumes ok: "frame_ok E (KernelSignalTf k) m" and ap: "area_apart E (KernelSignalTf k) m" and mr: "rewound E (KernelSignalTf k) rax m = Some mr"
  shows "tf_DoSave E (KernelSignalTf k) rax m = Some (le_enc 8 0 @ body E (KernelSignalTf k) mr) \<and> frame_ok E (KernelSignalTf k) mr \<and>
    xarea E (KernelSignalTf k) mr = xarea E (KernelSignalTf k) m \<and> GetRsp E (KernelSignalTf k) mr = GetRsp E (KernelSignalTf k) m"
proof -
  define xs n where "xs = fetch64 (k + k_fpstate) m" and "n = fpx_extended_size xs m"
  have mg: "fpx_magic1 xs m = kFpXstateMagic1" "fetch32 (xs + of_nat (fpx_xstate_size xs m)) m = kFpXstateMagic2"
    using ok by (simp_all add: Let_def xs_def)
  have sv: "k_DoSave fb m = Some (le_enc 4 n @ fetch xs n m @ fb)" if "word_at fb k_fpstate = xs" for fb
    using that mg by (simp add: k_DoSave_def n_def Let_def)
  show ?thesis
  proof (cases "IsRestartSys rax")
    case False
    have "word_at (fetch k k_size m) k_fpstate = xs" by (simp add: word_at_fetch k_offsets xs_def)
    then have "tf_DoSave E (KernelSignalTf k) rax m = Some (le_enc 8 0 @ body E (KernelSignalTf k) m)"
      using False sv by (simp add: Let_def xs_def [symmetric] n_def [symmetric])
    then show ?thesis using False mr ok by (simp add: rewound_def)
  next
    case True
    define m1 where "m1 = store64 (k + k_rip) (fetch64 (k + k_rip) m - 2) m"
    have mr': "mr = store64 (k + k_rax) (fetch64 (k + k_trapno) m1) m1" using mr True by (simp add: rewound_def Let_def m1_def)
    note R = rewind_K [OF ok ap m1_def mr' xs_def n_def]
    define c where "c = put_word k_rax (fetch64 (k + k_trapno) m) (fetch k k_size m)"
    have "word_at c k_rip = word_at (fetch k k_size m) k_rip"
      unfolding c_def word_at_def le_at_def put_word_def by (simp add: k_offsets)
    then have rip: "word_at c k_rip = fetch64 (k + k_rip) m" by (simp add: word_at_fetch k_offsets)
    have fb: "fetch k k_size mr = put_word k_rip (word_at c k_rip - 2) c" unfolding R(6) rip c_def [symmetric] by (rule refl)
    have "word_at (fetch k k_size mr) k_fpstate = fetch64 (k + k_fpstate) mr" by (rule word_at_fetch) (simp add: k_offsets)
    then have "tf_DoSave E (KernelSignalTf k) rax m = Some (le_enc 8 0 @ le_enc 4 n @ fetch xs n m @ fetch k k_size mr)"
      using True R(2) by (simp add: sv c_def [symmetric] fb [symmetric])
    moreover have "body E (KernelSignalTf k) mr = le_enc 4 n @ fetch xs n m @ fetch k k_size mr" by (simp add: R(2-4))
    moreover have "xarea E (KernelSignalTf k) mr = xarea E (KernelSignalTf k) m" by (simp add: R(2,3) xs_def [symmetric] n_def [symmetric])
    ultimately show ?thesis using R(1,5) by simp
  qed
qed


lemma save_F:
  assumes L: "layout_ok E" and ok: "frame_ok E (FunctionCallTf a) m" and ap: "area_apart E (FunctionCallTf a) m"
    and mr: "rewound E (FunctionCallTf a) rax m = Some mr"
  shows "tf_DoSave E (FunctionCallTf a) rax m = Some (le_enc 8 2 @ body E (FunctionCallTf a) mr) \<and> frame_ok E (FunctionCallTf a) mr \<and>
    xarea E (FunctionCallTf a) mr = xarea E (FunctionCallTf a) m"
proof -
  define t xa where "t = get_tf E a m" and "xa = tf_xsave_area t"
  have a64: "unat a + ly_tf_size E \<le> 2 ^ 64" using ok by (simp add: Let_def)
  show ?thesis
  proof (cases "IsRestartSys rax")
    case False
    then have "mr = m" using mr by (simp add: rewound_def)
    moreover have "tf_DoSave E (FunctionCallTf a) rax m = Some (le_enc 8 2 @ body E (FunctionCallTf a) m)"
      using False ok by (auto simp: f_DoSave_def Let_def)
    ultimately show ?thesis using ok by simp
  next
    case True
    then obtain rip where rip: "RewindIndirectSystemCall (tf_rip t) m = Some rip" and
      mr': "mr = put_tf E a (t\<lparr>tf_rip := rip, tf_rax := tf_orig_rax t\<rparr>) m"
      using mr by (auto simp: rewound_def t_def)
    define t' where "t' = t\<lparr>tf_rip := rip, tf_rax := tf_orig_rax t\<rparr>"
    have l: "length (tf_others t') = ly_others E" using tf_bytes(1) [OF L] by (simp add: t'_def t_def)
    have g: "get_tf E a mr = t'" and o: "only (unat a) (unat a + ly_tf_size E) m mr"
      unfolding mr' t'_def [symmetric] by (rule tf_bytes(2,3) [OF L l a64])+
    have e: "length (ly_tf_enc E t') = ly_tf_size E" using L l by (simp add: layout_ok_def)
    have fb: "fetch a (ly_tf_size E) mr = ly_tf_enc E t'"
      using fetch_store_same [of "ly_tf_enc E t'" a m] e layout_okD(2) [OF L] by (simp add: mr' t'_def [symmetric] put_tf_def)
    have x': "tf_xsave_area t' = xa" by (simp add: t'_def xa_def)
    have t'': "t\<lparr>tf_rax := tf_orig_rax t, tf_rip := rip\<rparr> = t'" by (simp add: t'_def)
    show ?thesis
    proof (cases "xa = 0")
      case True
      then show ?thesis using \<open>IsRestartSys rax\<close> rip a64
        by (simp add: f_DoSave_def Let_def t_def [symmetric] xa_def [symmetric] g x' fb t'')
    next
      case False
      obtain n where n: "GetXsaveAreaSize E xa m = Some n" "576 \<le> n" "unat xa + n \<le> 2 ^ 64" using ok False by (auto simp: Let_def xa_def t_def)
      have "unat xa + n \<le> unat a \<or> unat a + ly_tf_size E \<le> unat xa"
        using ap False n(1) by (simp add: area_apart_def Let_def xa_def t_def)
      then have s: "same xa n m mr" using only_fetch [OF o, of xa n] n(3) by (simp add: same_def)
      have "GetXsaveAreaSize E xa mr = Some n" using same_xsize(1) [OF s n(2), of E] n(1) by simp
      then show ?thesis using \<open>IsRestartSys rax\<close> rip a64 n False s
        by (simp add: f_DoSave_def Let_def t_def [symmetric] xa_def [symmetric] g x' fb t'' same_def)
    qed
  qed
qed

lemma save_U:
  assumes L: "layout_ok E" and x: "xarea E (UintrTf a) m \<noteq> None" and mr: "rewound E (UintrTf a) rax m = Some mr"
  shows "tf_DoSave E (UintrTf a) rax m = Some (le_enc 8 1 @ body E (UintrTf a) mr) \<and> mr = m"
proof -
  define xa where "xa = tf_xsave_area (get_tf E a m)"
  have r: "\<not> IsRestartSys rax" "mr = m" using mr by (auto simp: rewound_def split: if_splits)
  have "xa \<noteq> 0" using x by (auto simp: xa_def Let_def)
  moreover have "ly_GetXSaveSize E (fetch xa 576 m) \<noteq> 0" using layout_okD(8) [OF L, of "fetch xa 576 m"] by linarith
  ultimately show ?thesis using r by (simp add: u_DoSave_def Let_def xa_def)
qed


lemma save_frame:
  assumes L: "layout_ok E" and ok: "frame_ok E tf m" and ap: "area_apart E tf m" and x: "sigframe_type tf = 1 \<longrightarrow> xarea E tf m \<noteq> None"
    and mr: "rewound E tf rax m = Some mr"
  shows "tf_DoSave E tf rax m = Some (le_enc 8 (unat (sigframe_type tf)) @ body E tf mr) \<and> (sigframe_type tf \<noteq> 1 \<longrightarrow> frame_ok E tf mr) \<and>
    xarea E tf mr = xarea E tf m \<and> (sigframe_type tf \<noteq> 2 \<longrightarrow> GetRsp E tf mr = GetRsp E tf m)"
proof (cases tf)
  case (KernelSignalTf a)
  show ?thesis using save_K [OF ok [unfolded KernelSignalTf] ap [unfolded KernelSignalTf] mr [unfolded KernelSignalTf]]
    unfolding KernelSignalTf sigframe_type.simps by simp
next
  case (UintrTf a)
  have "xarea E (UintrTf a) m \<noteq> None" using x unfolding UintrTf sigframe_type.simps by blast
  from save_U [OF L this mr [unfolded UintrTf]] show ?thesis unfolding UintrTf sigframe_type.simps by auto
next
  case (FunctionCallTf a)
  show ?thesis using save_F [OF L ok [unfolded FunctionCallTf] ap [unfolded FunctionCallTf] mr [unfolded FunctionCallTf]]
    unfolding FunctionCallTf sigframe_type.simps by simp
qed

section \<open>Round trip\<close>

text \<open>The thread that loads a frame has its own stack and its own area.\<close>

lemma other_thread:
  assumes "E' = E\<lparr>th_xsave_area := x, xsave_area_in_use := b, sys_top := t, sys_bottom := bt, sys_rsp := r\<rparr>"
  shows "layout_ok E' = layout_ok E" "body E' tf m = body E tf m" "saved E' tf m = saved E tf m" "xarea E' tf m = xarea E tf m"
    "need E' tf m = need E tf m" "GetRsp E' tf m = GetRsp E tf m" "sigframe_type tf \<noteq> 1 \<Longrightarrow> frame_ok E' tf m = frame_ok E tf m"
proof -
  have f: "GetXsaveAreaSize E' xs m = GetXsaveAreaSize E xs m" for xs by (simp add: assms GetXsaveAreaSize_def GetXsaveAreaSize_features_def Let_def)
  have g: "get_tf E' a m = get_tf E a m" for a by (simp add: assms get_tf_def)
  have l: "ly_tf_size E' = ly_tf_size E" "ly_GetXSaveSize E' = ly_GetXSaveSize E" by (simp_all add: assms)
  show "layout_ok E' = layout_ok E" by (simp add: assms layout_ok_def)
  show x: "xarea E' tf m = xarea E tf m" by (cases tf) (simp_all add: f g l Let_def)
  show "body E' tf m = body E tf m" by (cases tf) (simp_all add: f g l Let_def)
  show "GetRsp E' tf m = GetRsp E tf m" by (cases tf) (simp_all add: g)
  have "registers E' tf m = registers E tf m" by (cases tf) (simp_all add: g)
  then show "saved E' tf m = saved E tf m" by (simp add: saved_def x)
  show "need E' tf m = need E tf m" by (simp add: need_def x)
  show "frame_ok E' tf m = frame_ok E tf m" if "sigframe_type tf \<noteq> 1" using that by (cases tf) (simp_all add: f g l Let_def)
qed

text \<open>C10: A trap frame in a snapshot is restored: the archive written for it, whatever follows it, is read back on the stack for system calls of
  another thread, within its bounds, with the same registers and the same extended state, and the thread resumes through the unwinder for that kind of
  frame.  The frame of a system call that is to be restarted is the one of the start of the call, as \<open>ResetToSyscallStart\<close> would make it.\<close>

theorem trapframe_snapshot_restores:
  assumes L: "layout_ok E" and ok: "frame_ok E tf m" and ap: "area_apart E tf m" and x: "sigframe_type tf = 1 \<longrightarrow> xarea E tf m \<noteq> None"
    and mr: "rewound E tf rax m = Some mr"
    and E': "E' = E\<lparr>th_xsave_area := xa, xsave_area_in_use := b, sys_top := t, sys_bottom := bt, sys_rsp := r\<rparr>"
    and s: "sys_ok E' (need E tf m)" and u: "sigframe_type tf \<noteq> 2 \<longrightarrow> \<not> rsp_on_syscall_stack E' (GetRsp E tf m)"
  shows "\<exists>ar. tf_DoSave E tf rax m = Some ar \<and>
    (\<forall>rest m1. \<exists>tf' un m2. LoadTrapframe E' (ar @ rest) m1 = Some (tf', un, rest, m2) \<and> saved E' tf' m2 = saved E tf mr \<and>
       un_rip un = unwinder_of tf' \<and> only (unat t) (unat r) m1 m2)"
proof -
  note S = save_frame [OF L ok ap x mr]
  note O = other_thread [OF E']
  have nd: "need E' tf mr = need E tf m" using S by (simp add: O(4) need_def)
  have y: "sys_ok E' (need E' tf mr)" using s by (simp only: nd)
  have u': "sigframe_type tf \<noteq> 2 \<longrightarrow> \<not> rsp_on_syscall_stack E' (GetRsp E' tf mr)" using u S by (simp add: O(6))
  have o': "sigframe_type tf \<noteq> 1 \<longrightarrow> frame_ok E' tf mr" using S O(7) by simp
  have x': "sigframe_type tf = 1 \<longrightarrow> xarea E' tf mr \<noteq> None" using x S by (simp add: O(4))
  note R = LoadTrapframe_spec [OF L [folded O(1)] o' x' y u', unfolded O(2) O(3) [of tf]]
  have t: "sys_top E' = t" "sys_rsp E' = r" by (simp_all add: E')
  show ?thesis using S R [unfolded t] by (intro exI [of _ "le_enc 8 (unat (sigframe_type tf)) @ body E tf mr"]) simp
qed

theorem trapframe_snapshot_restores_witness:
  "\<exists>ar mr tf' un m2. IsRestartSys (- 512) \<and> tf_DoSave demo_env (KernelSignalTf 0x23000) (- 512) demo_kmem = Some ar \<and>
     tf_ResetToSyscallStart demo_env (KernelSignalTf 0x23000) demo_kmem = Some mr \<and>
     LoadTrapframe demo_env (ar @ [1, 2, 3]) (\<lambda>_. 0) = Some (tf', un, [1, 2, 3], m2) \<and> saved demo_env tf' m2 = saved demo_env (KernelSignalTf 0x23000) mr"
proof -
  have rs: "IsRestartSys (- 512)" by code_simp
  obtain mr where mr: "tf_ResetToSyscallStart demo_env (KernelSignalTf 0x23000) demo_kmem = Some mr" by (simp add: Let_def)
  then have w: "rewound demo_env (KernelSignalTf 0x23000) (- 512) demo_kmem = Some mr" using rs by (simp add: rewound_def)
  have ap: "area_apart demo_env (KernelSignalTf 0x23000) demo_kmem"
    by (simp only: area_apart_def xarea.simps Let_def demo_kfields tf_addr.simps frame_size.simps k_size_def) simp
  have y: "sys_ok demo_env (need demo_env (KernelSignalTf 0x23000) demo_kmem)" unfolding demo_kneed by (simp add: sys_ok_def own_beside_def demo_fields)
  have u: "\<not> rsp_on_syscall_stack demo_env (GetRsp demo_env (KernelSignalTf 0x23000) demo_kmem)"
    unfolding GetRsp.simps demo_kfields by (simp add: rsp_on_syscall_stack_def IsOnStack_def demo_fields)
  have e: "demo_env = demo_env\<lparr>th_xsave_area := th_xsave_area demo_env, xsave_area_in_use := xsave_area_in_use demo_env,
      sys_top := sys_top demo_env, sys_bottom := sys_bottom demo_env, sys_rsp := sys_rsp demo_env\<rparr>" by simp
  obtain ar where ar: "tf_DoSave demo_env (KernelSignalTf 0x23000) (- 512) demo_kmem = Some ar"
    and ld: "\<And>rest m1. \<exists>tf' un m2. LoadTrapframe demo_env (ar @ rest) m1 = Some (tf', un, rest, m2) \<and>
      saved demo_env tf' m2 = saved demo_env (KernelSignalTf 0x23000) mr"
    using trapframe_snapshot_restores [OF demo_layout demo_kframe ap _ w e y] u by fastforce
  from ld [of "[1, 2, 3]" "\<lambda>_. 0"] show ?thesis using rs ar mr by blast
qed

end
