(* ===== verification/NetRuntime.thy ===== *)
theory NetRuntime
  imports IoVec
begin

text \<open>
  The wrappers of \<^verbatim>\<open>src/junction/bindings/net.h\<close> around the connections, listener queues and port reservations of the
  runtime's network stack.

  The network stack itself is not part of the sources.  It is a parameter: a function from the calls made so far, with their
  answers, to the answer of the next call.  Every operation appends its calls to that history, so that the history says which
  objects of the network stack are alive.  A null pointer is \<open>None\<close>; the use of a null pointer is the result \<open>None\<close> of an operation.
\<close>

section \<open>The runtime\<close>

type_synonym u16 = "16 word"

record netaddr =
  na_ip :: u32
  na_port :: u16

definition no_addr :: netaddr where "no_addr = \<lparr>na_ip = 0, na_port = 0\<rparr>"

text \<open>The objects of the network stack.\<close>

datatype handle = HConn nat | HQueue nat | HToken nat | HUdp nat

text \<open>The calls that make an object, the calls on an object, and the limit for the waits of the calling thread.  A call whose name
  in the runtime ends in 2 takes flags.\<close>

datatype open_call =
    tcp_dial netaddr netaddr
  | tcp_dial_nonblocking netaddr netaddr
  | tcp_dial_token netaddr bool nat
  | tcp_listen netaddr int
  | tcp_listen_token int nat
  | tcp_accept nat
  | trans_reserve_port netaddr nat bool
  | udp_dial netaddr netaddr
  | udp_listen netaddr
  | udp_listen_token nat

datatype object_call =
    get_status
  | get_input_bytes
  | local_addr
  | remote_addr
  | read_call nat
  | read2 nat bool bool
  | readv "nat list"
  | readv2 "nat list" bool bool
  | write_call "byte list"
  | write2 "byte list" "netaddr option" bool
  | writev "byte list list"
  | writev2 "byte list list" "netaddr option" bool "byte option"
  | shutdown int
  | shutdown_all
  | set_nonblocking bool
  | poll_install bool

datatype rt_call = Open open_call | Close handle | On handle object_call | waitq_micros u64

record rt_ans =
  an_ret :: int
  an_ptr :: nat
  an_bytes :: "byte list"
  an_addr :: netaddr
  an_tos :: "byte option"

type_synonym rt_log = "(rt_call \<times> rt_ans) list"

type_synonym runtime = "rt_log \<Rightarrow> rt_call \<Rightarrow> rt_ans"

definition rt_do :: "runtime \<Rightarrow> rt_call \<Rightarrow> rt_log \<Rightarrow> rt_ans \<times> rt_log" where
  "rt_do R c l = (R l c, l @ [(c, R l c)])"

section \<open>The wrappers\<close>

definition open_ret :: "rt_ans \<Rightarrow> nat Status" where
  "open_ret a = (if an_ret a \<noteq> 0 then Inl (- an_ret a) else Inr (an_ptr a))"

definition UDPConn_Dial :: "runtime \<Rightarrow> netaddr \<Rightarrow> netaddr \<Rightarrow> rt_log \<Rightarrow> nat Status \<times> rt_log" where
  "UDPConn_Dial R laddr raddr l = (case rt_do R (Open (udp_dial laddr raddr)) l of (a, l') \<Rightarrow> (open_ret a, l'))"

definition UDPConn_Listen :: "runtime \<Rightarrow> netaddr \<Rightarrow> rt_log \<Rightarrow> nat Status \<times> rt_log" where
  "UDPConn_Listen R laddr l = (case rt_do R (Open (udp_listen laddr)) l of (a, l') \<Rightarrow> (open_ret a, l'))"

definition TCPConn_Dial :: "runtime \<Rightarrow> netaddr \<Rightarrow> netaddr \<Rightarrow> rt_log \<Rightarrow> nat Status \<times> rt_log" where
  "TCPConn_Dial R laddr raddr l = (case rt_do R (Open (tcp_dial laddr raddr)) l of (a, l') \<Rightarrow> (open_ret a, l'))"

definition TCPConn_DialNonBlocking :: "runtime \<Rightarrow> netaddr \<Rightarrow> netaddr \<Rightarrow> rt_log \<Rightarrow> nat Status \<times> rt_log" where
  "TCPConn_DialNonBlocking R laddr raddr l =
     (case rt_do R (Open (tcp_dial_nonblocking laddr raddr)) l of (a, l') \<Rightarrow>
        (if an_ret a \<noteq> 0 \<and> an_ret a \<noteq> - EINPROGRESS then Inl (- an_ret a) else Inr (an_ptr a), l'))"

definition TCPConn_GetStatus :: "runtime \<Rightarrow> nat \<Rightarrow> rt_log \<Rightarrow> unit Status \<times> rt_log" where
  "TCPConn_GetStatus R c l =
     (case rt_do R (On (HConn c) get_status) l of (a, l') \<Rightarrow> (if an_ret a \<noteq> 0 then Inl (- an_ret a) else Inr (), l'))"

text \<open>The reads and writes of a connection are calls whose negative answer is an error.\<close>

definition conn_read :: "runtime \<Rightarrow> rt_call \<Rightarrow> rt_log \<Rightarrow> (byte list \<times> rt_ans) Status \<times> rt_log" where
  "conn_read R c l =
     (case rt_do R c l of (a, l') \<Rightarrow>
        (if an_ret a < 0 then Inl (- an_ret a) else Inr (take (nat (an_ret a)) (an_bytes a), a), l'))"

definition conn_write :: "runtime \<Rightarrow> rt_call \<Rightarrow> rt_log \<Rightarrow> nat Status \<times> rt_log" where
  "conn_write R c l = (case rt_do R c l of (a, l') \<Rightarrow> (if an_ret a < 0 then Inl (- an_ret a) else Inr (nat (an_ret a)), l'))"

definition TCPConn_Shutdown :: "runtime \<Rightarrow> nat \<Rightarrow> int \<Rightarrow> rt_log \<Rightarrow> unit Status \<times> rt_log" where
  "TCPConn_Shutdown R c how l =
     (case rt_do R (On (HConn c) (shutdown how)) l of (a, l') \<Rightarrow> (if an_ret a < 0 then Inl (- an_ret a) else Inr (), l'))"

definition TCPQueue_Listen :: "runtime \<Rightarrow> netaddr \<Rightarrow> int \<Rightarrow> rt_log \<Rightarrow> nat Status \<times> rt_log" where
  "TCPQueue_Listen R laddr backlog l = (case rt_do R (Open (tcp_listen laddr backlog)) l of (a, l') \<Rightarrow> (open_ret a, l'))"

definition TCPQueue_Accept :: "runtime \<Rightarrow> nat \<Rightarrow> rt_log \<Rightarrow> nat Status \<times> rt_log" where
  "TCPQueue_Accept R q l = (case rt_do R (Open (tcp_accept q)) l of (a, l') \<Rightarrow> (open_ret a, l'))"

definition BindToken_Allocate :: "runtime \<Rightarrow> netaddr \<Rightarrow> nat \<Rightarrow> bool \<Rightarrow> rt_log \<Rightarrow> nat Status \<times> rt_log" where
  "BindToken_Allocate R laddr proto reuse_port l = (case rt_do R (Open (trans_reserve_port laddr proto reuse_port)) l of (a, l') \<Rightarrow> (open_ret a, l'))"

text \<open>A token that is used is consumed if the call succeeds; the second component is what is left of it.\<close>

definition BindToken_DialTCP :: "runtime \<Rightarrow> nat option \<Rightarrow> netaddr \<Rightarrow> bool \<Rightarrow> rt_log \<Rightarrow> nat Status \<times> nat option \<times> rt_log" where
  "BindToken_DialTCP R token raddr nonblocking l =
     (case token of
        None \<Rightarrow> (Inl EINVAL, None, l)
      | Some t \<Rightarrow>
          (case rt_do R (Open (tcp_dial_token raddr nonblocking t)) l of (a, l') \<Rightarrow>
             if an_ret a \<noteq> 0 \<and> \<not> (nonblocking \<and> an_ret a = - EINPROGRESS) then (Inl (- an_ret a), Some t, l')
             else (Inr (an_ptr a), None, l')))"

definition BindToken_ListenTCP :: "runtime \<Rightarrow> nat option \<Rightarrow> int \<Rightarrow> rt_log \<Rightarrow> nat Status \<times> nat option \<times> rt_log" where
  "BindToken_ListenTCP R token backlog l =
     (case token of
        None \<Rightarrow> (Inl EINVAL, None, l)
      | Some t \<Rightarrow>
          (case rt_do R (Open (tcp_listen_token backlog t)) l of (a, l') \<Rightarrow>
             if an_ret a \<noteq> 0 then (Inl (- an_ret a), Some t, l') else (Inr (an_ptr a), None, l')))"

definition BindToken_ListenUDP :: "runtime \<Rightarrow> nat option \<Rightarrow> rt_log \<Rightarrow> nat Status \<times> nat option \<times> rt_log" where
  "BindToken_ListenUDP R token l =
     (case token of
        None \<Rightarrow> (Inl EINVAL, None, l)
      | Some t \<Rightarrow>
          (case rt_do R (Open (udp_listen_token t)) l of (a, l') \<Rightarrow>
             if an_ret a \<noteq> 0 then (Inl (- an_ret a), Some t, l') else (Inr (an_ptr a), None, l')))"

text \<open>The destructors.\<close>

definition UDPConn_destroy :: "runtime \<Rightarrow> nat option \<Rightarrow> rt_log \<Rightarrow> rt_log" where
  "UDPConn_destroy R c l = (case c of None \<Rightarrow> l | Some p \<Rightarrow> snd (rt_do R (Close (HUdp p)) l))"

definition TCPConn_destroy :: "runtime \<Rightarrow> nat option \<Rightarrow> rt_log \<Rightarrow> rt_log" where
  "TCPConn_destroy R c l = (case c of None \<Rightarrow> l | Some p \<Rightarrow> snd (rt_do R (Close (HConn p)) l))"

definition TCPQueue_destroy :: "runtime \<Rightarrow> nat option \<Rightarrow> rt_log \<Rightarrow> rt_log" where
  "TCPQueue_destroy R q l = (case q of None \<Rightarrow> l | Some p \<Rightarrow> snd (rt_do R (Close (HQueue p)) l))"

definition BindToken_destroy :: "runtime \<Rightarrow> nat option \<Rightarrow> rt_log \<Rightarrow> rt_log" where
  "BindToken_destroy R t l = (case t of None \<Rightarrow> l | Some p \<Rightarrow> snd (rt_do R (Close (HToken p)) l))"

section \<open>Which objects are alive\<close>

fun makes :: "open_call \<Rightarrow> nat \<Rightarrow> handle" where
  "makes (tcp_dial _ _) p = HConn p"
| "makes (tcp_dial_nonblocking _ _) p = HConn p"
| "makes (tcp_dial_token _ _ _) p = HConn p"
| "makes (tcp_listen _ _) p = HQueue p"
| "makes (tcp_listen_token _ _) p = HQueue p"
| "makes (tcp_accept _) p = HConn p"
| "makes (trans_reserve_port _ _ _) p = HToken p"
| "makes (udp_dial _ _) p = HUdp p"
| "makes (udp_listen _) p = HUdp p"
| "makes (udp_listen_token _) p = HUdp p"

text \<open>A connection is also made if it is still being set up.\<close>

definition succeeded :: "open_call \<Rightarrow> int \<Rightarrow> bool" where
  "succeeded c ret \<longleftrightarrow> ret = 0 \<or>
     (case c of tcp_dial_nonblocking _ _ \<Rightarrow> ret = - EINPROGRESS | tcp_dial_token _ nb _ \<Rightarrow> nb \<and> ret = - EINPROGRESS | _ \<Rightarrow> False)"

text \<open>A call that makes an object of a token consumes the token.\<close>

fun token_of :: "open_call \<Rightarrow> handle option" where
  "token_of (tcp_dial_token _ _ t) = Some (HToken t)"
| "token_of (tcp_listen_token _ t) = Some (HToken t)"
| "token_of (udp_listen_token t) = Some (HToken t)"
| "token_of _ = None"

fun opens :: "rt_call \<Rightarrow> rt_ans \<Rightarrow> handle option" where
  "opens (Open c) a = (if succeeded c (an_ret a) then Some (makes c (an_ptr a)) else None)"
| "opens _ a = None"

fun closes :: "rt_call \<Rightarrow> rt_ans \<Rightarrow> handle option" where
  "closes (Open c) a = (if succeeded c (an_ret a) then token_of c else None)"
| "closes (Close h) a = Some h"
| "closes _ a = None"

fun uses :: "rt_call \<Rightarrow> handle list" where
  "uses (Open c) = (case c of tcp_accept q \<Rightarrow> [HQueue q] | _ \<Rightarrow> (case token_of c of None \<Rightarrow> [] | Some h \<Rightarrow> [h]))"
| "uses (Close h) = [h]"
| "uses (On h _) = [h]"
| "uses (waitq_micros _) = []"

text \<open>The objects alive after a history, and that every call of it was given objects alive at that time.\<close>

definition alive_step :: "rt_call \<times> rt_ans \<Rightarrow> handle list \<Rightarrow> handle list" where
  "alive_step e hs = (case e of (c, a) \<Rightarrow>
     (case opens c a of None \<Rightarrow> [] | Some h \<Rightarrow> [h]) @ (case closes c a of None \<Rightarrow> hs | Some h \<Rightarrow> removeAll h hs))"

definition alive :: "rt_log \<Rightarrow> handle list" where
  "alive l = fold alive_step l []"

fun used_from :: "handle list \<Rightarrow> rt_log \<Rightarrow> bool" where
  "used_from hs [] \<longleftrightarrow> True"
| "used_from hs (e # l) \<longleftrightarrow> set (uses (fst e)) \<subseteq> set hs \<and> used_from (alive_step e hs) l"

definition well_used :: "rt_log \<Rightarrow> bool" where
  "well_used l = used_from [] l"

text \<open>What is expected of the network stack: a new object is none of those alive.\<close>

definition runtime_ok :: "runtime \<Rightarrow> bool" where
  "runtime_ok R \<longleftrightarrow> (\<forall>l c h. opens c (R l c) = Some h \<longrightarrow> h \<notin> set (alive l))"

lemma alive_snoc: "alive (l @ [e]) = alive_step e (alive l)"
  by (simp add: alive_def)

lemma used_from_append: "used_from hs (l @ [e]) \<longleftrightarrow> used_from hs l \<and> set (uses (fst e)) \<subseteq> set (fold alive_step l hs)"
  by (induction l arbitrary: hs) auto

lemma well_used_snoc: "well_used (l @ [e]) \<longleftrightarrow> well_used l \<and> set (uses (fst e)) \<subseteq> set (alive l)"
  by (simp add: well_used_def alive_def used_from_append)


section \<open>Ownership\<close>

text \<open>\<open>turn A H l\<close>: of the objects alive, those of \<open>H\<close> are the ones the current operation may use and dispose of, those of \<open>A\<close> belong to
  others.\<close>

definition turn :: "handle set \<Rightarrow> handle set \<Rightarrow> rt_log \<Rightarrow> bool" where
  "turn A H l \<longleftrightarrow> well_used l \<and> A \<inter> H = {} \<and> set (alive l) = A \<union> H"

lemma turn_on: "turn A H l \<Longrightarrow> h \<in> H \<Longrightarrow> turn A H (snd (rt_do R (On h c) l))"
  by (auto simp: turn_def rt_do_def alive_snoc well_used_snoc alive_step_def)

lemma turn_wait: "turn A H l \<Longrightarrow> turn A H (snd (rt_do R (waitq_micros u) l))"
  by (auto simp: turn_def rt_do_def alive_snoc well_used_snoc alive_step_def)

lemma turn_close: "turn A H l \<Longrightarrow> h \<in> H \<Longrightarrow> turn A (H - {h}) (snd (rt_do R (Close h) l))"
  by (auto simp: turn_def rt_do_def alive_snoc well_used_snoc alive_step_def)

lemma turn_failed:
  "turn A H l \<Longrightarrow> set (uses (Open c)) \<subseteq> H \<Longrightarrow> \<not> succeeded c (an_ret (R l (Open c))) \<Longrightarrow> turn A H (snd (rt_do R (Open c) l))"
  by (auto simp: turn_def rt_do_def alive_snoc well_used_snoc alive_step_def)

lemma turn_opened:
  assumes "runtime_ok R" "turn A H l" "set (uses (Open c)) \<subseteq> H" "succeeded c (an_ret (R l (Open c)))"
  shows "turn A (insert (makes c (an_ptr (R l (Open c)))) (case token_of c of None \<Rightarrow> H | Some h \<Rightarrow> H - {h})) (snd (rt_do R (Open c) l))"
proof -
  have "makes c (an_ptr (R l (Open c))) \<notin> set (alive l)" using assms(1,4) unfolding runtime_ok_def by (metis opens.simps(1))
  moreover have "token_of c = Some h \<Longrightarrow> h \<in> H" for h using assms(3) by (cases c) auto
  ultimately show ?thesis using assms(2-4)
    by (auto simp: turn_def rt_do_def alive_snoc well_used_snoc alive_step_def split: option.splits)
qed


text \<open>A wrapper that may make an object.\<close>

definition got :: "(nat \<Rightarrow> handle) \<Rightarrow> handle set \<Rightarrow> handle set \<Rightarrow> nat Status \<Rightarrow> rt_log \<Rightarrow> bool" where
  "got mk A H r l = (case r of Inl _ \<Rightarrow> turn A H l | Inr p \<Rightarrow> turn A (insert (mk p) H) l)"

lemma open_got:
  assumes "runtime_ok R" "turn A H l" "set (uses (Open c)) \<subseteq> H" "token_of c = None" "\<And>p. makes c p = mk p"
  shows "got mk A H (if succeeded c (an_ret (R l (Open c))) then Inr (an_ptr (R l (Open c))) else Inl e) (snd (rt_do R (Open c) l))"
  using turn_opened [OF assms(1-3)] turn_failed [OF assms(2,3)] assms(4,5) by (simp add: got_def)

lemma wrapper_got:
  assumes "runtime_ok R" "turn A H l"
  shows "UDPConn_Dial R la ra l = (r, l') \<Longrightarrow> got HUdp A H r l'" "UDPConn_Listen R la l = (r, l') \<Longrightarrow> got HUdp A H r l'"
    "TCPConn_Dial R la ra l = (r, l') \<Longrightarrow> got HConn A H r l'" "TCPConn_DialNonBlocking R la ra l = (r, l') \<Longrightarrow> got HConn A H r l'"
    "TCPQueue_Listen R la b l = (r, l') \<Longrightarrow> got HQueue A H r l'" "BindToken_Allocate R la pr ru l = (r, l') \<Longrightarrow> got HToken A H r l'"
    "TCPQueue_Accept R q l = (r, l') \<Longrightarrow> HQueue q \<in> H \<Longrightarrow> got HConn A H r l'"
  using open_got [OF assms, of "udp_dial la ra" HUdp] open_got [OF assms, of "udp_listen la" HUdp] open_got [OF assms, of "tcp_dial la ra" HConn]
    open_got [OF assms, of "tcp_dial_nonblocking la ra" HConn] open_got [OF assms, of "tcp_listen la b" HQueue]
    open_got [OF assms, of "trans_reserve_port la pr ru" HToken] open_got [OF assms, of "tcp_accept q" HConn]
  by (auto simp: UDPConn_Dial_def UDPConn_Listen_def TCPConn_Dial_def TCPConn_DialNonBlocking_def TCPQueue_Listen_def BindToken_Allocate_def
      TCPQueue_Accept_def open_ret_def succeeded_def rt_do_def split: if_splits)

text \<open>A wrapper that may make an object of a token: the token is then gone.\<close>

definition traded :: "(nat \<Rightarrow> handle) \<Rightarrow> handle set \<Rightarrow> nat \<Rightarrow> nat Status \<Rightarrow> nat option \<Rightarrow> rt_log \<Rightarrow> bool" where
  "traded mk A t r t' l =
     (case r of Inl _ \<Rightarrow> t' = Some t \<and> turn A {HToken t} l | Inr p \<Rightarrow> t' = None \<and> turn A {mk p} l)"

lemma open_traded:
  assumes "runtime_ok R" "turn A {HToken t} l" "token_of c = Some (HToken t)" "uses (Open c) = [HToken t]" "\<And>p. makes c p = mk p"
  shows "succeeded c (an_ret (R l (Open c))) \<Longrightarrow> turn A {mk (an_ptr (R l (Open c)))} (snd (rt_do R (Open c) l))"
    "\<not> succeeded c (an_ret (R l (Open c))) \<Longrightarrow> turn A {HToken t} (snd (rt_do R (Open c) l))"
  using turn_opened [OF assms(1,2), of c] turn_failed [OF assms(2), of c] assms(3-5) by simp_all

lemma wrapper_traded:
  assumes "runtime_ok R" "turn A {HToken t} l"
  shows "BindToken_DialTCP R (Some t) ra nb l = (r, t', l') \<Longrightarrow> traded HConn A t r t' l'"
    "BindToken_ListenTCP R (Some t) b l = (r, t', l') \<Longrightarrow> traded HQueue A t r t' l'"
    "BindToken_ListenUDP R (Some t) l = (r, t', l') \<Longrightarrow> traded HUdp A t r t' l'"
  using open_traded [OF assms, of "tcp_dial_token ra nb t" HConn] open_traded [OF assms, of "tcp_listen_token b t" HQueue]
    open_traded [OF assms, of "udp_listen_token t" HUdp]
  by (auto simp: BindToken_DialTCP_def BindToken_ListenTCP_def BindToken_ListenUDP_def traded_def succeeded_def rt_do_def split: if_splits)

text \<open>Reads, writes and queries.\<close>

lemma wrapper_turn:
  assumes "turn A H l" "h \<in> H"
  shows "conn_read R (On h c) l = (x, l') \<Longrightarrow> turn A H l'" "conn_write R (On h c) l = (y, l') \<Longrightarrow> turn A H l'"
    "rt_do R (On h c) l = (z, l') \<Longrightarrow> turn A H l'"
  using turn_on [OF assms, of R c] by (auto simp: conn_read_def conn_write_def rt_do_def)

lemma conn_turn:
  assumes "turn A H l" "HConn p \<in> H"
  shows "TCPConn_GetStatus R p l = (u, l') \<Longrightarrow> turn A H l'" "TCPConn_Shutdown R p how l = (w, l') \<Longrightarrow> turn A H l'"
  using turn_on [OF assms, of R get_status] turn_on [OF assms, of R "shutdown how"]
  by (auto simp: TCPConn_GetStatus_def TCPConn_Shutdown_def rt_do_def)

lemma destroy_turn:
  "turn A H l \<Longrightarrow> (\<And>p. c = Some p \<Longrightarrow> HUdp p \<in> H) \<Longrightarrow> turn A (H - HUdp ` set_option c) (UDPConn_destroy R c l)"
  "turn A H l \<Longrightarrow> (\<And>p. c = Some p \<Longrightarrow> HConn p \<in> H) \<Longrightarrow> turn A (H - HConn ` set_option c) (TCPConn_destroy R c l)"
  "turn A H l \<Longrightarrow> (\<And>p. c = Some p \<Longrightarrow> HQueue p \<in> H) \<Longrightarrow> turn A (H - HQueue ` set_option c) (TCPQueue_destroy R c l)"
  "turn A H l \<Longrightarrow> (\<And>p. c = Some p \<Longrightarrow> HToken p \<in> H) \<Longrightarrow> turn A (H - HToken ` set_option c) (BindToken_destroy R c l)"
  by (cases c; simp add: UDPConn_destroy_def TCPConn_destroy_def TCPQueue_destroy_def BindToken_destroy_def turn_close)+

end
