(* ===== verification/InetSocket.thy ===== *)
theory InetSocket
  imports NetRuntime UnixSocket FileTable
begin

text \<open>
  Sockets of the Internet domain: addresses (\<^verbatim>\<open>src/junction/net/net.cc\<close>), options
  (\<^verbatim>\<open>src/junction/net/socket.h\<close>, \<^verbatim>\<open>src/junction/net/socket.cc\<close>, with the durations of \<^verbatim>\<open>src/junction/base/time.h\<close>), \<open>TCPSocket\<close>
  (\<^verbatim>\<open>src/junction/net/tcp_socket.h\<close>) and \<open>UDPSocket\<close> (\<^verbatim>\<open>src/junction/net/udp_socket.h\<close>) over the wrappers of the theory
  \<open>NetRuntime\<close>.

  An operation returns its result, the socket and the history of calls; a failed assertion, the wrong alternative of a variant and the
  use of a null pointer are the result \<open>None\<close>.
\<close>

section \<open>Addresses\<close>

definition AF_INET :: nat where "AF_INET = 2"

text \<open>The pointer, if any, to the bytes of an address that the caller gives, and its length.\<close>

type_synonym addr_in = "(nat \<Rightarrow> byte) option \<times> nat"

definition ToNetAddr :: "addr_in \<Rightarrow> netaddr Status" where
  "ToNetAddr p =
     (case fst p of
        None \<Rightarrow> Inl EINVAL
      | Some b \<Rightarrow>
          if le_nat [b 0, b 1] \<noteq> AF_INET \<or> snd p < 16 then Inl EINVAL
          else Inr \<lparr>na_ip = of_nat (le_nat [b 7, b 6, b 5, b 4]), na_port = of_nat (le_nat [b 3, b 2])\<rparr>)"

text \<open>The bytes written to a buffer of length \<open>len\<close> and the new length; \<open>sin_zero\<close> are the bytes that are never initialised.\<close>

definition FromNetAddr :: "byte list \<Rightarrow> netaddr \<Rightarrow> nat \<Rightarrow> byte list \<times> nat" where
  "FromNetAddr sin_zero naddr len =
     (let sin = le_enc 2 AF_INET @ rev (le_enc 2 (unat (na_port naddr))) @ rev (le_enc 4 (unat (na_ip naddr))) @ sin_zero
      in (take (min 16 len) sin, 16))"

section \<open>Sockets and options\<close>

definition timeval_to_us :: "u64 \<times> u64 \<Rightarrow> u64" where
  "timeval_to_us tv = fst tv * 1000000 + snd tv"

definition us_to_timeval :: "u64 \<Rightarrow> u64 \<times> u64" where
  "us_to_timeval us = (us div 1000000, us mod 1000000)"

record Socket =
  so_flags :: u32
  so_reuse_port :: bool
  so_read_timeout :: u64
  so_write_timeout :: u64
  so_options :: u64
  so_poll_setup :: bool

definition Socket_new :: "u32 \<Rightarrow> Socket" where
  "Socket_new flags = \<lparr>so_flags = flags, so_reuse_port = False, so_read_timeout = 0, so_write_timeout = 0, so_options = 0, so_poll_setup = False\<rparr>"

definition is_nonblocking :: "'a Socket_scheme \<Rightarrow> bool" where
  "is_nonblocking s \<longleftrightarrow> so_flags s AND kFlagNonblock \<noteq> 0"

definition IPPROTO_IP :: int where "IPPROTO_IP = 0"
definition SOL_SOCKET :: int where "SOL_SOCKET = 1"
definition IPPROTO_TCP :: int where "IPPROTO_TCP = 6"
definition IPPROTO_UDP :: int where "IPPROTO_UDP = 17"
definition SO_REUSEADDR :: int where "SO_REUSEADDR = 2"
definition SO_TYPE :: int where "SO_TYPE = 3"
definition SO_ERROR :: int where "SO_ERROR = 4"
definition SO_REUSEPORT :: int where "SO_REUSEPORT = 15"
definition SO_RCVTIMEO :: int where "SO_RCVTIMEO = 20"
definition SO_SNDTIMEO :: int where "SO_SNDTIMEO = 21"
definition SO_ACCEPTCONN :: int where "SO_ACCEPTCONN = 30"
definition SO_PROTOCOL :: int where "SO_PROTOCOL = 38"
definition SO_DOMAIN :: int where "SO_DOMAIN = 39"
definition IP_PKTINFO :: int where "IP_PKTINFO = 8"
definition IP_MTU_DISCOVER :: int where "IP_MTU_DISCOVER = 10"
definition IP_RECVTOS :: int where "IP_RECVTOS = 13"
definition IP_MTU :: int where "IP_MTU = 14"
definition kSockOptPktInfo :: u64 where "kSockOptPktInfo = 1"
definition kSockOptRecvTos :: u64 where "kSockOptRecvTos = 2"

lemmas sockopt_defs = IPPROTO_IP_def SOL_SOCKET_def IPPROTO_TCP_def IPPROTO_UDP_def SO_REUSEADDR_def SO_TYPE_def SO_ERROR_def
  SO_REUSEPORT_def SO_RCVTIMEO_def SO_SNDTIMEO_def SO_ACCEPTCONN_def SO_PROTOCOL_def SO_DOMAIN_def IP_PKTINFO_def
  IP_MTU_DISCOVER_def IP_RECVTOS_def IP_MTU_def kSockOptPktInfo_def kSockOptRecvTos_def

text \<open>Integers and times in the bytes of an option.\<close>

definition int_bytes :: "nat \<Rightarrow> byte list" where
  "int_bytes n = le_enc 4 n"

definition timeval_bytes :: "u64 \<Rightarrow> byte list" where
  "timeval_bytes us = (case us_to_timeval us of (sec, usec) \<Rightarrow> le_enc 8 (unat sec) @ le_enc 8 (unat usec))"

definition bytes_timeval :: "byte list \<Rightarrow> u64" where
  "bytes_timeval v = timeval_to_us (of_nat (le_nat (take 8 v)), of_nat (le_nat (take 8 (drop 8 v))))"

definition SetIPSocketOptions :: "int \<Rightarrow> byte list \<Rightarrow> 'a Socket_scheme \<Rightarrow> unit Status \<times> 'a Socket_scheme" where
  "SetIPSocketOptions optname v s =
     (if length v < 4 then (Inl EINVAL, s)
      else let val = le_nat (take 4 v) in
        if optname = IP_RECVTOS then
          (Inr (), s\<lparr>so_options := (if val = 0 then so_options s AND NOT kSockOptRecvTos else so_options s OR kSockOptRecvTos)\<rparr>)
        else if optname = IP_PKTINFO then
          (Inr (), s\<lparr>so_options := (if val = 0 then so_options s AND NOT kSockOptPktInfo else so_options s OR kSockOptPktInfo)\<rparr>)
        else if optname = IP_MTU_DISCOVER then (Inr (), s)
        else (Inl EINVAL, s))"

definition GetIPSocketOptions :: "nat \<Rightarrow> int \<Rightarrow> nat \<Rightarrow> 'a Socket_scheme \<Rightarrow> byte list Status" where
  "GetIPSocketOptions payload_size optname len s =
     (if len < 4 then Inl EINVAL
      else if optname = IP_RECVTOS then Inr (int_bytes (if so_options s AND kSockOptRecvTos \<noteq> 0 then 1 else 0))
      else if optname = IP_PKTINFO then Inr (int_bytes (if so_options s AND kSockOptPktInfo \<noteq> 0 then 1 else 0))
      else if optname = IP_MTU then Inr (int_bytes payload_size)
      else Inl EINVAL)"

text \<open>The sockets of the Internet domain do not override \<open>SetSockOptImpl\<close>.\<close>

definition SetSockOpt :: "int \<Rightarrow> int \<Rightarrow> byte list \<Rightarrow> 'a Socket_scheme \<Rightarrow> (unit Status \<times> 'a Socket_scheme) option" where
  "SetSockOpt level optname v s =
     (if level = IPPROTO_TCP \<or> level = IPPROTO_UDP then Some (Inl EINVAL, s)
      else if level = IPPROTO_IP then Some (SetIPSocketOptions optname v s)
      else if level \<noteq> SOL_SOCKET then Some (Inl EINVAL, s)
      else if optname = SO_REUSEADDR \<or> optname = SO_REUSEPORT then
        (if length v < 4 then None else Some (Inr (), s\<lparr>so_reuse_port := le_nat (take 4 v) \<noteq> 0\<rparr>))
      else if optname = SO_RCVTIMEO then
        Some (if length v < 16 then (Inl EINVAL, s) else (Inr (), s\<lparr>so_read_timeout := bytes_timeval v\<rparr>))
      else if optname = SO_SNDTIMEO then
        Some (if length v < 16 then (Inl EINVAL, s) else (Inr (), s\<lparr>so_write_timeout := bytes_timeval v\<rparr>))
      else Some (Inl EINVAL, s))"

text \<open>\<open>impl\<close> is what the method \<open>GetSockOptImpl\<close> of the subclass does for the same arguments; \<open>ret\<close> returns without calling it.\<close>

definition GetSockOpt :: "(byte list Status \<Rightarrow> 'r) \<Rightarrow> 'r \<Rightarrow> nat \<Rightarrow> int \<Rightarrow> int \<Rightarrow> nat \<Rightarrow> 'a Socket_scheme \<Rightarrow> 'r" where
  "GetSockOpt ret impl payload_size level optname len s =
     (if level = IPPROTO_TCP \<or> level = IPPROTO_UDP then impl
      else if level = IPPROTO_IP then ret (GetIPSocketOptions payload_size optname len s)
      else if level \<noteq> SOL_SOCKET then ret (Inl EINVAL)
      else if optname = SO_REUSEPORT then ret (if len < 4 then Inl EINVAL else Inr (int_bytes (if so_reuse_port s then 1 else 0)))
      else if optname = SO_RCVTIMEO then ret (if len < 16 then Inl EINVAL else Inr (timeval_bytes (so_read_timeout s)))
      else if optname = SO_SNDTIMEO then ret (if len < 16 then Inl EINVAL else Inr (timeval_bytes (so_write_timeout s)))
      else impl)"


section \<open>TCP sockets\<close>

text \<open>\<open>RuntimeWaitqTimeout\<close>: the limit of the thread's waits is set around an operation.\<close>

definition with_timeout :: "runtime \<Rightarrow> u64 \<Rightarrow> (rt_log \<Rightarrow> 'a \<times> rt_log) \<Rightarrow> rt_log \<Rightarrow> 'a \<times> rt_log" where
  "with_timeout R us f l =
     (case f (snd (rt_do R (waitq_micros us) l)) of (r, l') \<Rightarrow> (r, snd (rt_do R (waitq_micros 0) l')))"

datatype tcp_variant = VConn "nat option" | VQueue "nat option" | VToken "nat option"

record TCPSocket = Socket +
  tc_state :: SocketState
  tc_backlog :: int
  tc_is_shut :: bool
  tc_v :: tcp_variant

definition TCPSocket_new :: "u32 \<Rightarrow> int \<Rightarrow> TCPSocket" where
  "TCPSocket_new flags backlog_junk =
     Socket.extend (Socket_new flags) \<lparr>tc_state = kSockUnbound, tc_backlog = backlog_junk, tc_is_shut = False, tc_v = VConn None\<rparr>"

definition TCPSocket_conn :: "nat \<Rightarrow> u32 \<Rightarrow> int \<Rightarrow> TCPSocket" where
  "TCPSocket_conn c flags backlog_junk =
     Socket.extend (Socket_new flags) \<lparr>tc_state = kSockConnected, tc_backlog = backlog_junk, tc_is_shut = False, tc_v = VConn (Some c)\<rparr>"

definition TcpConn :: "TCPSocket \<Rightarrow> nat option" where
  "TcpConn s = (if tc_state s \<noteq> kSockConnected then None else case tc_v s of VConn c \<Rightarrow> c | _ \<Rightarrow> None)"

definition TcpQueue :: "TCPSocket \<Rightarrow> nat option" where
  "TcpQueue s = (if tc_state s \<noteq> kSockListening then None else case tc_v s of VQueue q \<Rightarrow> q | _ \<Rightarrow> None)"

definition BindToken :: "TCPSocket \<Rightarrow> nat option" where
  "BindToken s = (if tc_state s \<noteq> kSockBound then None else case tc_v s of VToken t \<Rightarrow> t | _ \<Rightarrow> None)"

fun v_destroy :: "runtime \<Rightarrow> tcp_variant \<Rightarrow> rt_log \<Rightarrow> rt_log" where
  "v_destroy R (VConn c) l = TCPConn_destroy R c l"
| "v_destroy R (VQueue q) l = TCPQueue_destroy R q l"
| "v_destroy R (VToken t) l = BindToken_destroy R t l"

text \<open>Assigning to the variant destroys or closes what it held, unless a token is assigned over a token.\<close>

definition v_assign :: "runtime \<Rightarrow> tcp_variant \<Rightarrow> TCPSocket \<Rightarrow> rt_log \<Rightarrow> TCPSocket \<times> rt_log" where
  "v_assign R v s l =
     (s\<lparr>tc_v := v\<rparr>, case (tc_v s, v) of (VToken _, VToken _) \<Rightarrow> l | (old, _) \<Rightarrow> v_destroy R old l)"

type_synonym 'a tcp_result = "('a Status \<times> TCPSocket \<times> rt_log) option"

definition tcp_Bind :: "runtime \<Rightarrow> addr_in \<Rightarrow> TCPSocket \<Rightarrow> rt_log \<Rightarrow> unit tcp_result" where
  "tcp_Bind R addr s l =
     Some (if tc_state s \<noteq> kSockUnbound then (Inl EINVAL, s, l)
           else case ToNetAddr addr of
             Inl e \<Rightarrow> (Inl e, s, l)
           | Inr na \<Rightarrow>
               (case BindToken_Allocate R na (nat IPPROTO_TCP) (so_reuse_port s) l of
                  (Inl e, l1) \<Rightarrow> (Inl e, s, l1)
                | (Inr t, l1) \<Rightarrow>
                    (case v_assign R (VToken (Some t)) s l1 of (s1, l2) \<Rightarrow> (Inr (), s1\<lparr>tc_state := kSockBound\<rparr>, l2))))"

definition tcp_SetupPollSource :: "runtime \<Rightarrow> TCPSocket \<Rightarrow> rt_log \<Rightarrow> rt_log option" where
  "tcp_SetupPollSource R s l =
     (if tc_state s = kSockListening then
        map_option (\<lambda>q. snd (rt_do R (On (HQueue q) (poll_install True)) l)) (TcpQueue s)
      else if tc_state s = kSockConnected then
        map_option (\<lambda>c. snd (rt_do R (On (HConn c) (poll_install True)) l)) (TcpConn s)
      else Some l)"

definition tcp_get_poll_source :: "runtime \<Rightarrow> TCPSocket \<Rightarrow> rt_log \<Rightarrow> (TCPSocket \<times> rt_log) option" where
  "tcp_get_poll_source R s l =
     (if so_poll_setup s then Some (s, l)
      else let s1 = s\<lparr>so_poll_setup := True\<rparr> in map_option (Pair s1) (tcp_SetupPollSource R s1 l))"

definition if_setup :: "runtime \<Rightarrow> 'a \<Rightarrow> TCPSocket \<Rightarrow> rt_log \<Rightarrow> ('a \<times> TCPSocket \<times> rt_log) option" where
  "if_setup R r s l = map_option (\<lambda>l'. (r, s, l')) (if so_poll_setup s then tcp_SetupPollSource R s l else Some l)"

definition tcp_Listen :: "runtime \<Rightarrow> int \<Rightarrow> TCPSocket \<Rightarrow> rt_log \<Rightarrow> unit tcp_result" where
  "tcp_Listen R blog s l =
     Option.bind
       (if tc_state s = kSockBound then
          (case tc_v s of
             VToken t \<Rightarrow> (case BindToken_ListenTCP R t blog l of (r, t', l1) \<Rightarrow> Some (r, s\<lparr>tc_v := VToken t'\<rparr>, l1))
           | _ \<Rightarrow> None)
        else if tc_state s = kSockUnbound then (case TCPQueue_Listen R no_addr blog l of (r, l1) \<Rightarrow> Some (r, s, l1))
        else Some (Inl EINVAL, s, l))
       (\<lambda>(r, s1, l1).
         case r of
           Inl e \<Rightarrow> Some (Inl e, s1, l1)
         | Inr q \<Rightarrow>
             let l2 = (if is_nonblocking s1 then snd (rt_do R (On (HQueue q) (set_nonblocking True)) l1) else l1) in
             (case v_assign R (VQueue (Some q)) s1 l2 of (s2, l3) \<Rightarrow>
                if_setup R (Inr ()) (s2\<lparr>tc_state := kSockListening, tc_backlog := blog\<rparr>) l3))"

definition tcp_Connect :: "runtime \<Rightarrow> addr_in \<Rightarrow> TCPSocket \<Rightarrow> rt_log \<Rightarrow> unit tcp_result" where
  "tcp_Connect R addr s l =
     (if tc_state s = kSockConnected then
        (if \<not> is_nonblocking s then Some (Inl EISCONN, s, l)
         else map_option (\<lambda>c. case TCPConn_GetStatus R c l of (r, l1) \<Rightarrow> (r, s, l1)) (TcpConn s))
      else if tc_state s = kSockListening then Some (Inl EINVAL, s, l)
      else case ToNetAddr addr of
        Inl e \<Rightarrow> Some (Inl e, s, l)
      | Inr na \<Rightarrow>
          Option.bind
            (if tc_state s = kSockBound then
               (case tc_v s of
                  VToken t \<Rightarrow> (case BindToken_DialTCP R t na (is_nonblocking s) l of (r, t', l1) \<Rightarrow> Some (r, s\<lparr>tc_v := VToken t'\<rparr>, l1))
                | _ \<Rightarrow> None)
             else if is_nonblocking s then (case TCPConn_DialNonBlocking R no_addr na l of (r, l1) \<Rightarrow> Some (r, s, l1))
             else (case TCPConn_Dial R no_addr na l of (r, l1) \<Rightarrow> Some (r, s, l1)))
            (\<lambda>(r, s1, l1).
              case r of
                Inl e \<Rightarrow> Some (Inl e, s1, l1)
              | Inr c \<Rightarrow>
                  (case v_assign R (VConn (Some c)) s1 l1 of (s2, l2) \<Rightarrow>
                     Option.bind (if_setup R () (s2\<lparr>tc_state := kSockConnected\<rparr>) l2) (\<lambda>(_, s3, l3).
                       if is_nonblocking s3 then
                         map_option (\<lambda>c. case TCPConn_GetStatus R c l3 of (st, l4) \<Rightarrow> (st, s3, l4)) (TcpConn s3)
                       else Some (Inr (), s3, l3)))))"

text \<open>\<open>out\<close> is the length of the caller's buffer for an address, if both pointers to it are given.  The result has the new socket and what
  is written to the buffer.\<close>

definition tcp_Accept :: "runtime \<Rightarrow> byte list \<Rightarrow> nat option \<Rightarrow> u32 \<Rightarrow> int \<Rightarrow> TCPSocket \<Rightarrow> rt_log \<Rightarrow> (TCPSocket \<times> (byte list \<times> nat) option) tcp_result" where
  "tcp_Accept R junk out flags backlog_junk s l =
     (if tc_state s \<noteq> kSockListening then Some (Inl EINVAL, s, l)
      else map_option (\<lambda>q.
        case TCPQueue_Accept R q l of
          (Inl e, l1) \<Rightarrow> (Inl e, s, l1)
        | (Inr c, l1) \<Rightarrow>
            let l2 = (if flags AND kFlagNonblock \<noteq> 0 then snd (rt_do R (On (HConn c) (set_nonblocking True)) l1) else l1);
                (w, l3) = (case out of
                   None \<Rightarrow> (None, l2)
                 | Some n \<Rightarrow> (case rt_do R (On (HConn c) remote_addr) l2 of (a, l') \<Rightarrow> (Some (FromNetAddr junk (an_addr a) n), l')))
            in (Inr (TCPSocket_conn c flags backlog_junk, w), s, l3)) (TcpQueue s))"

definition tcp_get_input_bytes :: "runtime \<Rightarrow> TCPSocket \<Rightarrow> rt_log \<Rightarrow> nat tcp_result" where
  "tcp_get_input_bytes R s l =
     (if tc_state s \<noteq> kSockConnected then Some (Inl EINVAL, s, l)
      else map_option (\<lambda>c. case rt_do R (On (HConn c) get_input_bytes) l of (a, l1) \<Rightarrow> (Inr (nat (an_ret a)), s, l1)) (TcpConn s))"

definition tcp_Shutdown :: "runtime \<Rightarrow> int \<Rightarrow> TCPSocket \<Rightarrow> rt_log \<Rightarrow> unit tcp_result" where
  "tcp_Shutdown R how s l =
     (if tc_state s = kSockConnected then map_option (\<lambda>c. case TCPConn_Shutdown R c how l of (r, l1) \<Rightarrow> (r, s, l1)) (TcpConn s)
      else if tc_state s = kSockListening then
        (if tc_is_shut s then Some (Inr (), s, l)
         else map_option (\<lambda>q. (Inr (), s\<lparr>tc_is_shut := True\<rparr>, snd (rt_do R (On (HQueue q) shutdown_all) l))) (TcpQueue s))
      else Some (Inl ENOTCONN, s, l))"

text \<open>The address that is written for \<open>getpeername\<close> and \<open>getsockname\<close>.\<close>

definition tcp_RemoteAddr :: "runtime \<Rightarrow> byte list \<Rightarrow> nat option \<Rightarrow> TCPSocket \<Rightarrow> rt_log \<Rightarrow> (byte list \<times> nat) tcp_result" where
  "tcp_RemoteAddr R junk out s l =
     (if tc_state s \<noteq> kSockConnected then Some (Inl ENOTCONN, s, l)
      else case out of
        None \<Rightarrow> Some (Inl EINVAL, s, l)
      | Some n \<Rightarrow>
          map_option (\<lambda>c. case rt_do R (On (HConn c) remote_addr) l of (a, l1) \<Rightarrow> (Inr (FromNetAddr junk (an_addr a) n), s, l1)) (TcpConn s))"

definition tcp_LocalAddr :: "runtime \<Rightarrow> byte list \<Rightarrow> nat option \<Rightarrow> TCPSocket \<Rightarrow> rt_log \<Rightarrow> (byte list \<times> nat) tcp_result" where
  "tcp_LocalAddr R junk out s l =
     (case out of
        None \<Rightarrow> Some (Inl EINVAL, s, l)
      | Some n \<Rightarrow>
          map_option (\<lambda>h. case rt_do R (On h local_addr) l of (a, l1) \<Rightarrow> (Inr (FromNetAddr junk (an_addr a) n), s, l1))
            (case tc_state s of
               kSockUnbound \<Rightarrow> map_option HToken (BindToken s)
             | kSockBound \<Rightarrow> map_option HToken (BindToken s)
             | kSockConnected \<Rightarrow> map_option HConn (TcpConn s)
             | kSockListening \<Rightarrow> map_option HQueue (TcpQueue s)))"

text \<open>The transfers ask for a connected socket and forward to its connection.\<close>

definition on_conn :: "(nat \<Rightarrow> rt_log \<Rightarrow> 'a Status \<times> rt_log) \<Rightarrow> TCPSocket \<Rightarrow> rt_log \<Rightarrow> 'a tcp_result" where
  "on_conn f s l =
     (if tc_state s \<noteq> kSockConnected then Some (Inl EINVAL, s, l)
      else map_option (\<lambda>c. case f c l of (r, l1) \<Rightarrow> (r, s, l1)) (TcpConn s))"

definition data_of :: "(byte list \<times> rt_ans) Status \<times> rt_log \<Rightarrow> byte list Status \<times> rt_log" where
  "data_of x = (map_sum id fst (fst x), snd x)"

definition tcp_Read :: "runtime \<Rightarrow> nat \<Rightarrow> TCPSocket \<Rightarrow> rt_log \<Rightarrow> byte list tcp_result" where
  "tcp_Read R n = on_conn (\<lambda>c l. data_of (conn_read R (On (HConn c) (read_call n)) l))"

definition tcp_Write :: "runtime \<Rightarrow> byte list \<Rightarrow> TCPSocket \<Rightarrow> rt_log \<Rightarrow> nat tcp_result" where
  "tcp_Write R buf s = on_conn (\<lambda>c. with_timeout R (so_write_timeout s) (conn_write R (On (HConn c) (write_call buf)))) s"

definition tcp_Writev :: "runtime \<Rightarrow> byte list list \<Rightarrow> TCPSocket \<Rightarrow> rt_log \<Rightarrow> nat tcp_result" where
  "tcp_Writev R iov s = on_conn (\<lambda>c. with_timeout R (so_write_timeout s) (conn_write R (On (HConn c) (writev iov)))) s"

definition tcp_Readv :: "runtime \<Rightarrow> nat list \<Rightarrow> TCPSocket \<Rightarrow> rt_log \<Rightarrow> byte list tcp_result" where
  "tcp_Readv R iov s = on_conn (\<lambda>c. with_timeout R (so_read_timeout s) (\<lambda>l. data_of (conn_read R (On (HConn c) (readv iov)) l))) s"

text \<open>A receive also tells the address of the peer if it is asked for, and for datagrams the type of service; what is stored in the buffer
  for the address is part of the result of a receive that succeeds.\<close>

definition peer_addr :: "runtime \<Rightarrow> byte list \<Rightarrow> nat option \<Rightarrow> nat \<Rightarrow> rt_log \<Rightarrow> (byte list \<times> nat) option \<times> rt_log" where
  "peer_addr R junk out c l =
     (case out of
        None \<Rightarrow> (None, l)
      | Some n \<Rightarrow> (case rt_do R (On (HConn c) remote_addr) l of (a, l1) \<Rightarrow> (Some (FromNetAddr junk (an_addr a) n), l1)))"

definition tcp_ReadFrom :: "runtime \<Rightarrow> byte list \<Rightarrow> nat \<Rightarrow> nat option \<Rightarrow> bool \<Rightarrow> bool \<Rightarrow> TCPSocket \<Rightarrow> rt_log \<Rightarrow> (byte list \<times> (byte list \<times> nat) option \<times> byte option) tcp_result" where
  "tcp_ReadFrom R junk n raddr peek nonblocking s =
     on_conn (\<lambda>c l. case peer_addr R junk raddr c l of (w, l1) \<Rightarrow>
       with_timeout R (so_read_timeout s)
         (\<lambda>l. case conn_read R (On (HConn c) (read2 n peek nonblocking)) l of (r, l') \<Rightarrow> (map_sum id (\<lambda>(d, _). (d, w, None)) r, l')) l1) s"

definition tcp_ReadvFrom :: "runtime \<Rightarrow> byte list \<Rightarrow> nat list \<Rightarrow> nat option \<Rightarrow> bool \<Rightarrow> bool \<Rightarrow> TCPSocket \<Rightarrow> rt_log \<Rightarrow> (byte list \<times> (byte list \<times> nat) option \<times> byte option) tcp_result" where
  "tcp_ReadvFrom R junk iov raddr peek nonblocking s =
     on_conn (\<lambda>c l. case peer_addr R junk raddr c l of (w, l1) \<Rightarrow>
       with_timeout R (so_read_timeout s)
         (\<lambda>l. case conn_read R (On (HConn c) (readv2 iov peek nonblocking)) l of (r, l') \<Rightarrow> (map_sum id (\<lambda>(d, _). (d, w, None)) r, l')) l1) s"

text \<open>\<open>raddr\<close>: whether an address is given.\<close>

definition tcp_WriteTo :: "runtime \<Rightarrow> byte list \<Rightarrow> bool \<Rightarrow> bool \<Rightarrow> TCPSocket \<Rightarrow> rt_log \<Rightarrow> nat tcp_result" where
  "tcp_WriteTo R buf raddr nonblocking s =
     on_conn (\<lambda>c l. if raddr then (Inl EISCONN, l)
       else with_timeout R (so_write_timeout s) (conn_write R (On (HConn c) (write2 buf None nonblocking))) l) s"

definition tcp_WritevTo :: "runtime \<Rightarrow> byte list list \<Rightarrow> bool \<Rightarrow> bool \<Rightarrow> TCPSocket \<Rightarrow> rt_log \<Rightarrow> nat tcp_result" where
  "tcp_WritevTo R iov raddr nonblocking s =
     on_conn (\<lambda>c l. if raddr then (Inl EISCONN, l)
       else with_timeout R (so_write_timeout s) (conn_write R (On (HConn c) (writev2 iov None nonblocking None))) l) s"

definition tcp_GetSockOptImpl :: "runtime \<Rightarrow> int \<Rightarrow> int \<Rightarrow> nat \<Rightarrow> TCPSocket \<Rightarrow> rt_log \<Rightarrow> byte list tcp_result" where
  "tcp_GetSockOptImpl R level optname len s l =
     (let ans = (\<lambda>v l'. (if len < 4 then Inl EINVAL else Inr (int_bytes v), s, l')) in
      if level \<noteq> SOL_SOCKET then Some (Inl EINVAL, s, l)
      else if optname = SO_ACCEPTCONN then Some (ans (if tc_state s = kSockListening then 1 else 0) l)
      else if optname = SO_DOMAIN then Some (ans AF_INET l)
      else if optname = SO_PROTOCOL then Some (ans (nat IPPROTO_TCP) l)
      else if optname = SO_TYPE then Some (ans 1 l)
      else if optname = SO_ERROR then
        (if tc_state s \<noteq> kSockConnected then Some (Inl EINVAL, s, l)
         else map_option (\<lambda>c. case TCPConn_GetStatus R c l of
             (Inr _, l1) \<Rightarrow> ans 0 l1 | (Inl e, l1) \<Rightarrow> ans (nat e) l1) (TcpConn s))
      else Some (Inl EINVAL, s, l))"

definition tcp_GetSockOpt :: "runtime \<Rightarrow> nat \<Rightarrow> int \<Rightarrow> int \<Rightarrow> nat \<Rightarrow> TCPSocket \<Rightarrow> rt_log \<Rightarrow> byte list tcp_result" where
  "tcp_GetSockOpt R payload_size level optname len s l =
     GetSockOpt (\<lambda>r. Some (r, s, l)) (tcp_GetSockOptImpl R level optname len s l) payload_size level optname len s"

text \<open>\<open>set_flags\<close>: the runtime is told when the flag for non-blocking operation changes.\<close>

definition tcp_set_flags :: "runtime \<Rightarrow> u32 \<Rightarrow> TCPSocket \<Rightarrow> rt_log \<Rightarrow> (TCPSocket \<times> rt_log) option" where
  "tcp_set_flags R newflags s l =
     map_option (Pair (s\<lparr>so_flags := newflags\<rparr>))
       (if so_flags s AND kFlagNonblock = newflags AND kFlagNonblock then Some l
        else let nb = (newflags AND kFlagNonblock \<noteq> 0) in
          if tc_state s = kSockListening then map_option (\<lambda>q. snd (rt_do R (On (HQueue q) (set_nonblocking nb)) l)) (TcpQueue s)
          else if tc_state s = kSockConnected then map_option (\<lambda>c. snd (rt_do R (On (HConn c) (set_nonblocking nb)) l)) (TcpConn s)
          else Some l)"

definition tcp_destroy :: "runtime \<Rightarrow> TCPSocket \<Rightarrow> rt_log \<Rightarrow> rt_log" where
  "tcp_destroy R s l = v_destroy R (tc_v s) l"


section \<open>UDP sockets\<close>

record UDPSocket = Socket +
  ud_conn :: "nat option"
  ud_is_shut :: bool

definition UDPSocket_new :: "u32 \<Rightarrow> UDPSocket" where
  "UDPSocket_new flags = Socket.extend (Socket_new flags) \<lparr>ud_conn = None, ud_is_shut = False\<rparr>"

type_synonym 'a udp_result = "('a Status \<times> UDPSocket \<times> rt_log) option"

definition udp_SetupPollSource :: "runtime \<Rightarrow> UDPSocket \<Rightarrow> rt_log \<Rightarrow> rt_log option" where
  "udp_SetupPollSource R s l = map_option (\<lambda>c. snd (rt_do R (On (HUdp c) (poll_install True)) l)) (ud_conn s)"

definition udp_get_poll_source :: "runtime \<Rightarrow> UDPSocket \<Rightarrow> rt_log \<Rightarrow> (UDPSocket \<times> rt_log) option" where
  "udp_get_poll_source R s l =
     (if so_poll_setup s then Some (s, l)
      else let s1 = s\<lparr>so_poll_setup := True\<rparr> in map_option (Pair s1) (udp_SetupPollSource R s1 l))"

definition InstallConn :: "runtime \<Rightarrow> nat \<Rightarrow> UDPSocket \<Rightarrow> rt_log \<Rightarrow> (UDPSocket \<times> rt_log) option" where
  "InstallConn R c s l =
     (let l1 = (case ud_conn s of Some old \<Rightarrow> if so_poll_setup s then snd (rt_do R (On (HUdp old) (poll_install False)) l) else l | None \<Rightarrow> l);
          l2 = UDPConn_destroy R (ud_conn s) l1;
          s1 = s\<lparr>ud_conn := Some c\<rparr>;
          l3 = (if is_nonblocking s1 then snd (rt_do R (On (HUdp c) (set_nonblocking True)) l2) else l2)
      in map_option (Pair s1) (if so_poll_setup s1 then udp_SetupPollSource R s1 l3 else Some l3))"

definition installed :: "runtime \<Rightarrow> nat Status \<times> rt_log \<Rightarrow> UDPSocket \<Rightarrow> unit udp_result" where
  "installed R x s =
     (case x of (Inl e, l) \<Rightarrow> Some (Inl e, s, l) | (Inr c, l) \<Rightarrow> map_option (\<lambda>(s1, l1). (Inr (), s1, l1)) (InstallConn R c s l))"

text \<open>The token of \<open>Bind\<close> is released at the end if it was not consumed.\<close>

definition udp_Bind :: "runtime \<Rightarrow> addr_in \<Rightarrow> UDPSocket \<Rightarrow> rt_log \<Rightarrow> unit udp_result" where
  "udp_Bind R addr s l =
     (if fst addr = None then None
      else if ud_conn s \<noteq> None then Some (Inl EINVAL, s, l)
      else case ToNetAddr addr of
        Inl e \<Rightarrow> Some (Inl e, s, l)
      | Inr na \<Rightarrow>
          (case BindToken_Allocate R na (nat IPPROTO_UDP) (so_reuse_port s) l of
             (Inl e, l1) \<Rightarrow> Some (Inl e, s, l1)
           | (Inr t, l1) \<Rightarrow>
               (case BindToken_ListenUDP R (Some t) l1 of (r, t', l2) \<Rightarrow>
                  map_option (\<lambda>(r', s1, l3). (r', s1, BindToken_destroy R t' l3)) (installed R (r, l2) s))))"

definition udp_Connect :: "runtime \<Rightarrow> addr_in \<Rightarrow> UDPSocket \<Rightarrow> rt_log \<Rightarrow> unit udp_result" where
  "udp_Connect R addr s l =
     (let (connected, laddr, l1) =
        (case ud_conn s of
           None \<Rightarrow> (False, no_addr, l)
         | Some c \<Rightarrow>
             (case rt_do R (On (HUdp c) remote_addr) l of (a, l') \<Rightarrow>
                if na_ip (an_addr a) \<noteq> 0 \<or> na_port (an_addr a) \<noteq> 0 then (True, no_addr, l')
                else case rt_do R (On (HUdp c) local_addr) l' of (b, l'') \<Rightarrow> (False, an_addr b, l'')))
      in if connected then Some (Inl EISCONN, s, l1)
         else case ToNetAddr addr of Inl e \<Rightarrow> Some (Inl e, s, l1) | Inr ra \<Rightarrow> installed R (UDPConn_Dial R laddr ra l1) s)"

definition on_udp :: "errno \<Rightarrow> (nat \<Rightarrow> rt_log \<Rightarrow> 'a Status \<times> rt_log) \<Rightarrow> UDPSocket \<Rightarrow> rt_log \<Rightarrow> 'a udp_result" where
  "on_udp e f s l = (case ud_conn s of None \<Rightarrow> Some (Inl e, s, l) | Some c \<Rightarrow> (case f c l of (r, l1) \<Rightarrow> Some (r, s, l1)))"

definition udp_Read :: "runtime \<Rightarrow> nat \<Rightarrow> UDPSocket \<Rightarrow> rt_log \<Rightarrow> byte list udp_result" where
  "udp_Read R n s =
     on_udp EINVAL (\<lambda>c. with_timeout R (so_read_timeout s) (\<lambda>l. data_of (conn_read R (On (HUdp c) (read2 n False False)) l))) s"

definition udp_Write :: "runtime \<Rightarrow> byte list \<Rightarrow> UDPSocket \<Rightarrow> rt_log \<Rightarrow> nat udp_result" where
  "udp_Write R buf s = on_udp EDESTADDRREQ (\<lambda>c. with_timeout R (so_write_timeout s) (conn_write R (On (HUdp c) (write_call buf)))) s"

definition udp_Writev :: "runtime \<Rightarrow> byte list list \<Rightarrow> UDPSocket \<Rightarrow> rt_log \<Rightarrow> nat udp_result" where
  "udp_Writev R iov s =
     on_udp EDESTADDRREQ (\<lambda>c. with_timeout R (so_write_timeout s) (conn_write R (On (HUdp c) (writev2 iov None (is_nonblocking s) None)))) s"

definition from_addr :: "byte list \<Rightarrow> nat option \<Rightarrow> (byte list \<times> rt_ans) Status \<Rightarrow> (byte list \<times> (byte list \<times> nat) option \<times> byte option) Status" where
  "from_addr junk raddr r = map_sum id (\<lambda>(d, a). (d, map_option (FromNetAddr junk (an_addr a)) raddr, an_tos a)) r"

definition udp_ReadFrom :: "runtime \<Rightarrow> byte list \<Rightarrow> nat \<Rightarrow> nat option \<Rightarrow> bool \<Rightarrow> bool \<Rightarrow> UDPSocket \<Rightarrow> rt_log \<Rightarrow> (byte list \<times> (byte list \<times> nat) option \<times> byte option) udp_result" where
  "udp_ReadFrom R junk n raddr peek nonblocking s =
     on_udp EINVAL (\<lambda>c. with_timeout R (so_read_timeout s)
       (\<lambda>l. case conn_read R (On (HUdp c) (read2 n peek nonblocking)) l of (r, l') \<Rightarrow> (from_addr junk raddr r, l'))) s"

definition udp_ReadvFrom :: "runtime \<Rightarrow> byte list \<Rightarrow> nat list \<Rightarrow> nat option \<Rightarrow> bool \<Rightarrow> bool \<Rightarrow> UDPSocket \<Rightarrow> rt_log \<Rightarrow> (byte list \<times> (byte list \<times> nat) option \<times> byte option) udp_result" where
  "udp_ReadvFrom R junk iov raddr peek nonblocking s =
     on_udp EINVAL (\<lambda>c. with_timeout R (so_read_timeout s)
       (\<lambda>l. case conn_read R (On (HUdp c) (readv2 iov peek nonblocking)) l of (r, l') \<Rightarrow> (from_addr junk raddr r, l'))) s"

definition TrySetupConn :: "runtime \<Rightarrow> UDPSocket \<Rightarrow> rt_log \<Rightarrow> unit udp_result" where
  "TrySetupConn R s l = (if ud_conn s \<noteq> None then None else installed R (UDPConn_Listen R no_addr l) s)"

text \<open>A send without a connection first makes one.  \<open>call\<close> builds the runtime's call for the destination.\<close>

definition udp_send :: "runtime \<Rightarrow> (netaddr option \<Rightarrow> object_call) \<Rightarrow> addr_in option \<Rightarrow> UDPSocket \<Rightarrow> rt_log \<Rightarrow> nat udp_result" where
  "udp_send R call raddr s l =
     Option.bind (if ud_conn s = None then TrySetupConn R s l else Some (Inr (), s, l)) (\<lambda>(r, s1, l1).
       case r of
         Inl e \<Rightarrow> Some (Inl e, s1, l1)
       | Inr _ \<Rightarrow>
           map_option (\<lambda>c.
             case with_timeout R (so_write_timeout s1)
                 (\<lambda>l. case (case raddr of None \<Rightarrow> Inr None | Some a \<Rightarrow> map_sum id Some (ToNetAddr a)) of
                    Inl e \<Rightarrow> (Inl e, l) | Inr dst \<Rightarrow> conn_write R (On (HUdp c) (call dst)) l) l1 of
               (r', l2) \<Rightarrow> (r', s1, l2)) (ud_conn s1))"

definition udp_WriteTo :: "runtime \<Rightarrow> byte list \<Rightarrow> addr_in option \<Rightarrow> bool \<Rightarrow> UDPSocket \<Rightarrow> rt_log \<Rightarrow> nat udp_result" where
  "udp_WriteTo R buf raddr nonblocking = udp_send R (\<lambda>dst. write2 buf dst nonblocking) raddr"

definition udp_WritevTo :: "runtime \<Rightarrow> byte list list \<Rightarrow> addr_in option \<Rightarrow> bool \<Rightarrow> byte option \<Rightarrow> UDPSocket \<Rightarrow> rt_log \<Rightarrow> nat udp_result" where
  "udp_WritevTo R iov raddr nonblocking ecn = udp_send R (\<lambda>dst. writev2 iov dst nonblocking ecn) raddr"

definition udp_Shutdown :: "runtime \<Rightarrow> UDPSocket \<Rightarrow> rt_log \<Rightarrow> unit udp_result" where
  "udp_Shutdown R s l =
     Some (case ud_conn s of
        None \<Rightarrow> (Inl EINVAL, s, l)
      | Some c \<Rightarrow> if ud_is_shut s then (Inr (), s, l) else (Inr (), s\<lparr>ud_is_shut := True\<rparr>, snd (rt_do R (On (HUdp c) shutdown_all) l)))"

definition udp_addr :: "object_call \<Rightarrow> runtime \<Rightarrow> byte list \<Rightarrow> nat option \<Rightarrow> UDPSocket \<Rightarrow> rt_log \<Rightarrow> (byte list \<times> nat) udp_result" where
  "udp_addr call R junk out s l =
     (case ud_conn s of
        None \<Rightarrow> Some (Inl EINVAL, s, l)
      | Some c \<Rightarrow> (case out of
            None \<Rightarrow> None
          | Some n \<Rightarrow> (case rt_do R (On (HUdp c) call) l of (a, l1) \<Rightarrow> Some (Inr (FromNetAddr junk (an_addr a) n), s, l1))))"

definition udp_RemoteAddr :: "runtime \<Rightarrow> byte list \<Rightarrow> nat option \<Rightarrow> UDPSocket \<Rightarrow> rt_log \<Rightarrow> (byte list \<times> nat) udp_result" where
  "udp_RemoteAddr = udp_addr remote_addr"

definition udp_LocalAddr :: "runtime \<Rightarrow> byte list \<Rightarrow> nat option \<Rightarrow> UDPSocket \<Rightarrow> rt_log \<Rightarrow> (byte list \<times> nat) udp_result" where
  "udp_LocalAddr R junk out s l = (if out = None then None else udp_addr local_addr R junk out s l)"

definition udp_GetSockOptImpl :: "int \<Rightarrow> int \<Rightarrow> nat \<Rightarrow> byte list Status" where
  "udp_GetSockOptImpl level optname len =
     (let ans = (\<lambda>v. if len < 4 then Inl EINVAL else Inr (int_bytes v)) in
      if level \<noteq> SOL_SOCKET then Inl EINVAL
      else if optname = SO_DOMAIN then ans AF_INET
      else if optname = SO_PROTOCOL then ans (nat IPPROTO_UDP)
      else if optname = SO_TYPE then ans 2
      else Inl EINVAL)"

definition udp_GetSockOpt :: "runtime \<Rightarrow> nat \<Rightarrow> int \<Rightarrow> int \<Rightarrow> nat \<Rightarrow> UDPSocket \<Rightarrow> rt_log \<Rightarrow> byte list udp_result" where
  "udp_GetSockOpt R payload_size level optname len s l =
     GetSockOpt (\<lambda>r. Some (r, s, l)) (Some (udp_GetSockOptImpl level optname len, s, l)) payload_size level optname len s"

definition udp_set_flags :: "runtime \<Rightarrow> u32 \<Rightarrow> UDPSocket \<Rightarrow> rt_log \<Rightarrow> UDPSocket \<times> rt_log" where
  "udp_set_flags R newflags s l =
     (s\<lparr>so_flags := newflags\<rparr>,
      case ud_conn s of
        None \<Rightarrow> l
      | Some c \<Rightarrow> if so_flags s AND kFlagNonblock = newflags AND kFlagNonblock then l
                  else snd (rt_do R (On (HUdp c) (set_nonblocking (newflags AND kFlagNonblock \<noteq> 0))) l))"

definition udp_destroy :: "runtime \<Rightarrow> UDPSocket \<Rightarrow> rt_log \<Rightarrow> rt_log" where
  "udp_destroy R s l = UDPConn_destroy R (ud_conn s) l"


section \<open>Ownership\<close>

text \<open>What a socket holds, and that its state and its variant agree.\<close>

definition tcp_held :: "TCPSocket \<Rightarrow> handle set" where
  "tcp_held s = (case tc_v s of VConn c \<Rightarrow> HConn ` set_option c | VQueue q \<Rightarrow> HQueue ` set_option q | VToken t \<Rightarrow> HToken ` set_option t)"

definition udp_held :: "UDPSocket \<Rightarrow> handle set" where
  "udp_held s = HUdp ` set_option (ud_conn s)"

definition tcp_ok :: "TCPSocket \<Rightarrow> bool" where
  "tcp_ok s =
     (case tc_state s of
        kSockUnbound \<Rightarrow> tc_v s = VConn None
      | kSockBound \<Rightarrow> (case tc_v s of VToken (Some _) \<Rightarrow> True | _ \<Rightarrow> False)
      | kSockListening \<Rightarrow> (case tc_v s of VQueue (Some _) \<Rightarrow> True | _ \<Rightarrow> False)
      | kSockConnected \<Rightarrow> (case tc_v s of VConn (Some _) \<Rightarrow> True | _ \<Rightarrow> False))"

lemma tcp_ok_cases:
  assumes "tcp_ok s"
  obtains "tc_state s = kSockUnbound" "tc_v s = VConn None"
  | t where "tc_state s = kSockBound" "tc_v s = VToken (Some t)"
  | q where "tc_state s = kSockListening" "tc_v s = VQueue (Some q)"
  | c where "tc_state s = kSockConnected" "tc_v s = VConn (Some c)"
  using assms unfolding tcp_ok_def by (auto split: SocketState.splits tcp_variant.splits option.splits)

lemma tcp_cong:
  assumes "tc_state s' = tc_state s" "tc_v s' = tc_v s"
  shows "tcp_ok s' = tcp_ok s" "tcp_held s' = tcp_held s"
  unfolding tcp_ok_def tcp_held_def assms by (rule refl)+

lemma v_assign_empty: "tcp_held s = {} \<Longrightarrow> v_assign R v s l = (s\<lparr>tc_v := v\<rparr>, l)"
  by (cases "tc_v s") (auto simp: tcp_held_def v_assign_def TCPConn_destroy_def TCPQueue_destroy_def BindToken_destroy_def
      split: option.splits tcp_variant.splits)

text \<open>An operation of a socket leaves it well formed, uses only what the socket holds, and holds afterwards exactly what is its own.\<close>

locale socket_op =
  fixes op :: "runtime \<Rightarrow> 's \<Rightarrow> rt_log \<Rightarrow> ('r \<times> 's \<times> rt_log) option"
    and held :: "'s \<Rightarrow> handle set" and ok :: "'s \<Rightarrow> bool"
  assumes keeps: "runtime_ok R \<Longrightarrow> ok s \<Longrightarrow> turn A (held s) l \<Longrightarrow> op R s l = Some (r, s', l') \<Longrightarrow> ok s' \<and> turn A (held s') l'"

interpretation tcp_bind: socket_op "\<lambda>R. tcp_Bind R addr" tcp_held tcp_ok for addr
proof unfold_locales
  fix R s A l r s' l'
  assume R: "runtime_ok R" and ok: "tcp_ok s" and t: "turn A (tcp_held s) l" and op: "tcp_Bind R addr s l = Some (r, s', l')"
  show "tcp_ok s' \<and> turn A (tcp_held s') l'"
  proof (cases "tc_state s = kSockUnbound \<and> (\<exists>na. ToNetAddr addr = Inr na)")
    case False
    then show ?thesis using op ok t by (auto simp: tcp_Bind_def split: if_splits sum.splits)
  next
    case True
    then obtain na where na: "ToNetAddr addr = Inr na" and u: "tc_state s = kSockUnbound" by blast
    have v: "tc_v s = VConn None" using ok u by (simp add: tcp_ok_def)
    then have e: "tcp_held s = {}" by (simp add: tcp_held_def)
    obtain x l1 where b: "BindToken_Allocate R na (nat IPPROTO_TCP) (so_reuse_port s) l = (x, l1)" by force
    show ?thesis using wrapper_got(6) [OF R t b] op ok u na b e
      by (cases x) (auto simp: tcp_Bind_def got_def v_assign_empty tcp_ok_def tcp_held_def)
  qed
qed

lemma tcp_SetupPollSource_turn:
  assumes "tcp_ok s" "turn A (tcp_held s) l" "tcp_SetupPollSource R s l = Some l'"
  shows "turn A (tcp_held s) l'"
  using assms(1)
proof (cases rule: tcp_ok_cases)
  case (3 q)
  then show ?thesis using assms(2,3) turn_on [of A "tcp_held s" l "HQueue q" R] by (auto simp: tcp_SetupPollSource_def TcpQueue_def tcp_held_def)
next
  case (4 c)
  then show ?thesis using assms(2,3) turn_on [of A "tcp_held s" l "HConn c" R] by (auto simp: tcp_SetupPollSource_def TcpConn_def tcp_held_def)
qed (use assms in \<open>simp_all add: tcp_SetupPollSource_def\<close>)

lemma if_setup_turn:
  assumes "tcp_ok s" "turn A (tcp_held s) l" "if_setup R r s l = Some (r', s', l')"
  shows "r' = r \<and> s' = s \<and> turn A (tcp_held s) l'"
  using assms tcp_SetupPollSource_turn by (auto simp: if_setup_def split: if_splits)

interpretation tcp_listen: socket_op "\<lambda>R. tcp_Listen R blog" tcp_held tcp_ok for blog
proof unfold_locales
  fix R s A l r s' l'
  assume R: "runtime_ok R" and ok: "tcp_ok s" and t: "turn A (tcp_held s) l" and op: "tcp_Listen R blog s l = Some (r, s', l')"
  have fin: "tcp_ok s' \<and> turn A (tcp_held s') l'"
    if e: "tcp_held s1 = {}" and q: "turn A {HQueue q} l1"
      and o: "(let l2 = (if is_nonblocking s1 then snd (rt_do R (On (HQueue q) (set_nonblocking True)) l1) else l1) in
             (case v_assign R (VQueue (Some q)) s1 l2 of (s2, l3) \<Rightarrow>
                if_setup R (Inr ()) (s2\<lparr>tc_state := kSockListening, tc_backlog := blog\<rparr>) l3)) = Some (r, s', l')" for s1 q l1
  proof -
    define l2 s2 where "l2 = (if is_nonblocking s1 then snd (rt_do R (On (HQueue q) (set_nonblocking True)) l1) else l1)"
      and "s2 = s1\<lparr>tc_v := VQueue (Some q), tc_state := kSockListening, tc_backlog := blog\<rparr>"
    have "turn A {HQueue q} l2" using turn_on [OF q, of "HQueue q" R] q by (simp add: l2_def)
    moreover have h: "tcp_held s2 = {HQueue q}" "tcp_ok s2" by (simp_all add: s2_def tcp_held_def tcp_ok_def)
    moreover have "if_setup R (Inr ()) s2 l2 = Some (r, s', l')" using o by (simp add: v_assign_empty [OF e] l2_def s2_def Let_def)
    ultimately have "s' = s2 \<and> turn A (tcp_held s2) l'" using if_setup_turn [of s2 A l2 R "Inr ()" r s' l'] by simp
    then show ?thesis using h by simp
  qed
  show "tcp_ok s' \<and> turn A (tcp_held s') l'" using ok
  proof (cases rule: tcp_ok_cases)
    case 1
    obtain x l1 where b: "TCPQueue_Listen R no_addr blog l = (x, l1)" by force
    have e: "tcp_held s = {}" using 1 by (simp add: tcp_held_def)
    show ?thesis
    proof (cases x)
      case Inl
      then show ?thesis using wrapper_got(5) [OF R t b] op ok b 1 by (simp add: tcp_Listen_def got_def)
    next
      case (Inr q)
      then have "turn A {HQueue q} l1" using wrapper_got(5) [OF R t b] e by (simp add: got_def)
      then show ?thesis using fin [OF e] op b 1 Inr by (simp add: tcp_Listen_def)
    qed
  next
    case (2 tk)
    obtain x t' l1 where b: "BindToken_ListenTCP R (Some tk) blog l = (x, t', l1)" using prod_cases3 by blast
    have tt: "turn A {HToken tk} l" using t 2 by (simp add: tcp_held_def)
    note w = wrapper_traded(2) [OF R tt b]
    show ?thesis
    proof (cases x)
      case Inl
      then show ?thesis using w op ok b 2 by (auto simp: tcp_Listen_def traded_def tcp_held_def tcp_ok_def)
    next
      case (Inr q)
      then have t': "t' = None" "turn A {HQueue q} l1" using w by (simp_all add: traded_def)
      then have "tcp_held (s\<lparr>tc_v := VToken t'\<rparr>) = {}" by (simp add: tcp_held_def)
      from fin [OF this t'(2)] show ?thesis using op b 2 Inr by (simp add: tcp_Listen_def)
    qed
  qed (use op ok t in \<open>auto simp: tcp_Listen_def\<close>)
qed

lemma tcp_conn_held: "TcpConn s = Some c \<Longrightarrow> HConn c \<in> tcp_held s"
  by (auto simp: TcpConn_def tcp_held_def split: if_splits tcp_variant.splits)

lemma tcp_queue_held: "TcpQueue s = Some q \<Longrightarrow> HQueue q \<in> tcp_held s"
  by (auto simp: TcpQueue_def tcp_held_def split: if_splits tcp_variant.splits)

lemma tcp_token_held: "BindToken s = Some t \<Longrightarrow> HToken t \<in> tcp_held s"
  by (auto simp: BindToken_def tcp_held_def split: if_splits tcp_variant.splits)

lemmas tcp_holds = tcp_conn_held tcp_queue_held tcp_token_held

lemma tcp_status_turn:
  assumes "map_option (\<lambda>c. case TCPConn_GetStatus R c l of (st, l4) \<Rightarrow> (st, s, l4)) (TcpConn s) = Some (w, s', l')" "turn A (tcp_held s) l"
  shows "s' = s \<and> turn A (tcp_held s) l'"
proof -
  obtain c where c: "TcpConn s = Some c" using assms(1) by auto
  obtain st l4 where g: "TCPConn_GetStatus R c l = (st, l4)" by force
  show ?thesis using conn_turn(1) [OF assms(2) tcp_conn_held [OF c] g] assms(1) c g by simp
qed

interpretation tcp_connect: socket_op "\<lambda>R. tcp_Connect R addr" tcp_held tcp_ok for addr
proof unfold_locales
  fix R s A l r s' l'
  assume R: "runtime_ok R" and ok: "tcp_ok s" and t: "turn A (tcp_held s) l" and op: "tcp_Connect R addr s l = Some (r, s', l')"
  have fin: "tcp_ok s' \<and> turn A (tcp_held s') l'"
    if e: "tcp_held s1 = {}" and q: "turn A {HConn c} l1"
      and o: "(case v_assign R (VConn (Some c)) s1 l1 of (s2, l2) \<Rightarrow>
                     Option.bind (if_setup R () (s2\<lparr>tc_state := kSockConnected\<rparr>) l2) (\<lambda>(_, s3, l3).
                       if is_nonblocking s3 then
                         map_option (\<lambda>c. case TCPConn_GetStatus R c l3 of (st, l4) \<Rightarrow> (st, s3, l4)) (TcpConn s3)
                       else Some (Inr (), s3, l3))) = Some (r, s', l')" for s1 c l1
  proof -
    define s2 where "s2 = s1\<lparr>tc_v := VConn (Some c), tc_state := kSockConnected\<rparr>"
    have h: "tcp_held s2 = {HConn c}" "tcp_ok s2" by (simp_all add: s2_def tcp_held_def tcp_ok_def)
    obtain s3 l3 where i: "if_setup R () s2 l1 = Some ((), s3, l3)"
      and z: "(if is_nonblocking s3 then map_option (\<lambda>c. case TCPConn_GetStatus R c l3 of (st, l4) \<Rightarrow> (st, s3, l4)) (TcpConn s3)
        else Some (Inr (), s3, l3)) = Some (r, s', l')"
      using o by (auto simp: v_assign_empty [OF e] s2_def bind_eq_Some_conv)
    have s3: "s3 = s2" "turn A (tcp_held s2) l3" using if_setup_turn [OF h(2) _ i] q h(1) by simp_all
    then show ?thesis using z tcp_status_turn [where s = s3 and l = l3 and w = r and s' = s' and l' = l' and A = A] h(2) by (auto split: if_splits)
  qed
  show "tcp_ok s' \<and> turn A (tcp_held s') l'" using ok
  proof (cases rule: tcp_ok_cases)
    case 1
    have e: "tcp_held s = {}" using 1 by (simp add: tcp_held_def)
    have g: "tcp_ok s' \<and> turn A (tcp_held s') l'"
      if "got HConn A (tcp_held s) x l1" "ToNetAddr addr = Inr na"
        "(if is_nonblocking s then TCPConn_DialNonBlocking R no_addr na l else TCPConn_Dial R no_addr na l) = (x, l1)" for x l1 na
      using that op ok 1 e fin [OF e, of _ l1] by (cases x) (auto simp: tcp_Connect_def got_def split: if_splits)
    show ?thesis
    proof (cases "ToNetAddr addr")
      case Inl
      then show ?thesis using op ok t 1 by (simp add: tcp_Connect_def)
    next
      case (Inr na)
      obtain x l1 where b: "(if is_nonblocking s then TCPConn_DialNonBlocking R no_addr na l else TCPConn_Dial R no_addr na l) = (x, l1)" by force
      then have "got HConn A (tcp_held s) x l1" using wrapper_got(3,4) [OF R t] by (auto split: if_splits)
      then show ?thesis using g Inr b by blast
    qed
  next
    case (2 tk)
    show ?thesis
    proof (cases "ToNetAddr addr")
      case Inl
      then show ?thesis using op ok t 2 by (simp add: tcp_Connect_def)
    next
      case (Inr na)
      obtain x t' l1 where b: "BindToken_DialTCP R (Some tk) na (is_nonblocking s) l = (x, t', l1)" using prod_cases3 by blast
      have tt: "turn A {HToken tk} l" using t 2 by (simp add: tcp_held_def)
      note w = wrapper_traded(1) [OF R tt b]
      show ?thesis
      proof (cases x)
        case Inl
        then show ?thesis using w op ok b 2 Inr by (auto simp: tcp_Connect_def traded_def tcp_held_def tcp_ok_def)
      next
        case x: (Inr c)
        then have t': "t' = None" "turn A {HConn c} l1" using w by (simp_all add: traded_def)
        then have "tcp_held (s\<lparr>tc_v := VToken t'\<rparr>) = {}" by (simp add: tcp_held_def)
        from fin [OF this t'(2)] show ?thesis using op b 2 Inr x by (simp add: tcp_Connect_def)
      qed
    qed
  next
    case (3 q)
    then show ?thesis using op ok t by (simp add: tcp_Connect_def)
  next
    case (4 c)
    then show ?thesis using op ok t tcp_status_turn [where s = s and l = l and w = r and s' = s' and l' = l' and A = A] by (auto simp: tcp_Connect_def split: if_splits)
  qed
qed


lemma with_timeout_turn:
  assumes "turn A H l" "\<And>l1 r1 l2. turn A H l1 \<Longrightarrow> f l1 = (r1, l2) \<Longrightarrow> turn A H l2" "with_timeout R u f l = (r, l')"
  shows "turn A H l'"
proof -
  obtain l2 where f: "f (snd (rt_do R (waitq_micros u) l)) = (r, l2)" "l' = snd (rt_do R (waitq_micros 0) l2)"
    using assms(3) by (auto simp: with_timeout_def split: prod.splits)
  show ?thesis unfolding f(2) by (rule turn_wait [OF assms(2) [OF turn_wait [OF assms(1)] f(1)]])
qed

text \<open>An operation that forwards to the connection.\<close>

lemma on_conn_keeps:
  assumes "\<And>c r1 l1. HConn c \<in> tcp_held s \<Longrightarrow> f c l = (r1, l1) \<Longrightarrow> turn A (tcp_held s) l1"
    and "tcp_ok s" "turn A (tcp_held s) l" "on_conn f s l = Some (r, s', l')"
  shows "tcp_ok s' \<and> turn A (tcp_held s') l'"
proof (cases "tc_state s = kSockConnected")
  case True
  then obtain c where c: "TcpConn s = Some c" using assms(4) by (auto simp: on_conn_def)
  obtain r1 l1 where f: "f c l = (r1, l1)" by force
  show ?thesis using assms(1) [OF tcp_conn_held [OF c] f] assms(2,4) c f True by (simp add: on_conn_def)
qed (use assms in \<open>simp add: on_conn_def\<close>)

lemma peer_addr_turn: "turn A H l \<Longrightarrow> HConn c \<in> H \<Longrightarrow> peer_addr R junk out c l = (w, l') \<Longrightarrow> turn A H l'"
  using turn_on [of A H l "HConn c" R remote_addr] by (auto simp: peer_addr_def rt_do_def split: option.splits)

lemma tcp_transfer_turn:
  assumes "turn A H l" "h \<in> H"
  shows "data_of (conn_read R (On h c) l) = (x, l') \<Longrightarrow> turn A H l'"
    "(case conn_read R (On h c) l of (r, l2) \<Rightarrow> (g r, l2)) = (y, l') \<Longrightarrow> turn A H l'"
  using wrapper_turn(1) [OF assms] by (auto simp: data_of_def split: prod.splits) (metis prod.collapse)

interpretation tcp_read: socket_op "\<lambda>R. tcp_Read R n" tcp_held tcp_ok for n
  by unfold_locales (unfold tcp_Read_def, erule (2) on_conn_keeps [rotated], rule tcp_transfer_turn(1))

interpretation tcp_write: socket_op "\<lambda>R. tcp_Write R buf" tcp_held tcp_ok for buf
  by unfold_locales (unfold tcp_Write_def, erule (2) on_conn_keeps [rotated], erule (1) with_timeout_turn [rotated, rotated], erule (2) wrapper_turn(2))


interpretation tcp_writev: socket_op "\<lambda>R. tcp_Writev R iov" tcp_held tcp_ok for iov
  by unfold_locales (unfold tcp_Writev_def, erule (2) on_conn_keeps [rotated], erule (1) with_timeout_turn [rotated, rotated], erule (2) wrapper_turn(2))

interpretation tcp_readv: socket_op "\<lambda>R. tcp_Readv R iov" tcp_held tcp_ok for iov
  by unfold_locales (unfold tcp_Readv_def, erule (2) on_conn_keeps [rotated], erule (1) with_timeout_turn [rotated, rotated], erule (2) tcp_transfer_turn(1))

lemma received_turn:
  assumes "turn A H l" "HConn c \<in> H"
    and "(case peer_addr R junk out c l of (w, l1) \<Rightarrow>
       with_timeout R u (\<lambda>l. case conn_read R (On (HConn c) x) l of (r, l') \<Rightarrow> (map_sum id (\<lambda>(d, _). (d, w, None)) r, l')) l1) = (y, l')"
  shows "turn A H l'"
proof -
  obtain w l1 where p: "peer_addr R junk out c l = (w, l1)" by force
  note t = peer_addr_turn [OF assms(1,2) p]
  show ?thesis
  proof (rule with_timeout_turn [OF t])
    show "with_timeout R u (\<lambda>l. case conn_read R (On (HConn c) x) l of (r, l') \<Rightarrow> (map_sum id (\<lambda>(d, _). (d, w, None)) r, l')) l1 = (y, l')"
      using assms(3) p by simp
  qed (erule tcp_transfer_turn(2) [OF _ assms(2)])
qed

interpretation tcp_readfrom: socket_op "\<lambda>R. tcp_ReadFrom R junk n raddr peek nb" tcp_held tcp_ok for junk n raddr peek nb
  by unfold_locales (unfold tcp_ReadFrom_def, erule (2) on_conn_keeps [rotated], erule (2) received_turn)

interpretation tcp_readvfrom: socket_op "\<lambda>R. tcp_ReadvFrom R junk iov raddr peek nb" tcp_held tcp_ok for junk iov raddr peek nb
  by unfold_locales (unfold tcp_ReadvFrom_def, erule (2) on_conn_keeps [rotated], erule (2) received_turn)

lemma sent_turn:
  assumes "turn A H l" "HConn c \<in> H" "(if raddr then (Inl EISCONN, l) else with_timeout R u (conn_write R (On (HConn c) x)) l) = (y, l')"
  shows "turn A H l'"
  using assms with_timeout_turn [OF assms(1), of "conn_write R (On (HConn c) x)" R u y l'] wrapper_turn(2) [OF _ assms(2)] by (auto split: if_splits)

interpretation tcp_writeto: socket_op "\<lambda>R. tcp_WriteTo R buf raddr nb" tcp_held tcp_ok for buf raddr nb
  by unfold_locales (unfold tcp_WriteTo_def, erule (2) on_conn_keeps [rotated], erule (2) sent_turn)

interpretation tcp_writevto: socket_op "\<lambda>R. tcp_WritevTo R iov raddr nb" tcp_held tcp_ok for iov raddr nb
  by unfold_locales (unfold tcp_WritevTo_def, erule (2) on_conn_keeps [rotated], erule (2) sent_turn)

interpretation tcp_input: socket_op tcp_get_input_bytes tcp_held tcp_ok
  by unfold_locales (auto simp: tcp_get_input_bytes_def rt_do_def split: if_splits dest: tcp_holds turn_on [where R = R and c = get_input_bytes for R, unfolded rt_do_def])

interpretation tcp_shut: socket_op "\<lambda>R. tcp_Shutdown R how" tcp_held tcp_ok for how
proof unfold_locales
  fix R s A l r s' l'
  assume R: "runtime_ok R" and ok: "tcp_ok s" and t: "turn A (tcp_held s) l" and op: "tcp_Shutdown R how s l = Some (r, s', l')"
  have k: "tcp_ok (s\<lparr>tc_is_shut := b\<rparr>) = tcp_ok s" "tcp_held (s\<lparr>tc_is_shut := b\<rparr>) = tcp_held s" for b by (rule tcp_cong; simp)+
  show "tcp_ok s' \<and> turn A (tcp_held s') l'"
  proof (cases "tc_state s = kSockConnected")
    case True
    then obtain c where "TcpConn s = Some c" using op by (auto simp: tcp_Shutdown_def)
    moreover obtain x l1 where "TCPConn_Shutdown R c how l = (x, l1)" by force
    ultimately have c: "TcpConn s = Some c" "TCPConn_Shutdown R c how l = (x, l1)" by simp_all
    then show ?thesis using conn_turn(2) [OF t tcp_conn_held [OF c(1)] c(2)] op ok True by (simp add: tcp_Shutdown_def)
  next
    case False
    then show ?thesis using op ok t k tcp_queue_held turn_on [OF t, of _ R shutdown_all] by (auto simp: tcp_Shutdown_def split: if_splits)
  qed
qed


interpretation tcp_remote: socket_op "\<lambda>R. tcp_RemoteAddr R junk out" tcp_held tcp_ok for junk out
  by unfold_locales (auto simp: tcp_RemoteAddr_def rt_do_def split: if_splits option.splits
      dest: tcp_holds turn_on [where R = R and c = remote_addr for R, unfolded rt_do_def])

interpretation tcp_local: socket_op "\<lambda>R. tcp_LocalAddr R junk out" tcp_held tcp_ok for junk out
proof unfold_locales
  fix R s A l r s' l'
  assume ok: "tcp_ok s" and t: "turn A (tcp_held s) l" and op: "tcp_LocalAddr R junk out s l = Some (r, s', l')"
  show "tcp_ok s' \<and> turn A (tcp_held s') l'"
  proof (cases out)
    case None
    then show ?thesis using ok t op by (simp add: tcp_LocalAddr_def)
  next
    case (Some n)
    then obtain h where h: "s' = s" "l' = snd (rt_do R (On h local_addr) l)" "h \<in> tcp_held s"
      using op tcp_holds by (auto simp: tcp_LocalAddr_def rt_do_def split: SocketState.splits)
    then show ?thesis using ok turn_on [OF t h(3)] by simp
  qed
qed

interpretation tcp_optimpl: socket_op "\<lambda>R. tcp_GetSockOptImpl R level optname len" tcp_held tcp_ok for level optname len
proof unfold_locales
  fix R s A l r s' l'
  assume ok: "tcp_ok s" and t: "turn A (tcp_held s) l" and op: "tcp_GetSockOptImpl R level optname len s l = Some (r, s', l')"
  have "s' = s \<and> turn A (tcp_held s) l'"
  proof (cases "level = SOL_SOCKET \<and> optname = SO_ERROR \<and> tc_state s = kSockConnected")
    case True
    then obtain c where c: "TcpConn s = Some c" using op by (auto simp: tcp_GetSockOptImpl_def Let_def sockopt_defs)
    obtain x l1 where g: "TCPConn_GetStatus R c l = (x, l1)" by force
    show ?thesis using conn_turn(1) [OF t tcp_conn_held [OF c] g] True op c g
      by (cases x) (simp_all add: tcp_GetSockOptImpl_def Let_def sockopt_defs)
  qed (use op t in \<open>auto simp: tcp_GetSockOptImpl_def Let_def split: if_splits\<close>)
  then show "tcp_ok s' \<and> turn A (tcp_held s') l'" using ok by simp
qed

interpretation tcp_getopt: socket_op "\<lambda>R. tcp_GetSockOpt R payload_size level optname len" tcp_held tcp_ok for payload_size level optname len
  by unfold_locales (unfold tcp_GetSockOpt_def GetSockOpt_def, auto split: if_splits dest: tcp_optimpl.keeps)

text \<open>Setting the flags, an option and the event source.\<close>

definition plain :: "('s \<times> rt_log) option \<Rightarrow> (unit Status \<times> 's \<times> rt_log) option" where
  "plain x = map_option (Pair (Inr ())) x"

interpretation tcp_flags: socket_op "\<lambda>R s l. plain (tcp_set_flags R fl s l)" tcp_held tcp_ok for fl
proof unfold_locales
  fix R s A l r s' l'
  assume ok: "tcp_ok s" and t: "turn A (tcp_held s) l" and op: "plain (tcp_set_flags R fl s l) = Some (r, s', l')"
  have s': "s' = s\<lparr>so_flags := fl\<rparr>" using op by (auto simp: plain_def tcp_set_flags_def)
  have "tcp_ok s'" "tcp_held s' = tcp_held s" using tcp_cong [of s' s] ok by (simp_all add: s')
  moreover have "turn A (tcp_held s) l'"
    using op t turn_on [OF t, of _ R] tcp_holds by (auto simp: plain_def tcp_set_flags_def Let_def split: if_splits)
  ultimately show "tcp_ok s' \<and> turn A (tcp_held s') l'" by simp
qed

interpretation tcp_poll: socket_op "\<lambda>R s l. plain (tcp_get_poll_source R s l)" tcp_held tcp_ok
proof unfold_locales
  fix R s A l r s' l'
  assume ok: "tcp_ok s" and t: "turn A (tcp_held s) l" and op: "plain (tcp_get_poll_source R s l) = Some (r, s', l')"
  define s1 where "s1 = s\<lparr>so_poll_setup := True\<rparr>"
  have k: "tcp_ok s1" "tcp_held s1 = tcp_held s" using tcp_cong [of s1 s] ok by (simp_all add: s1_def)
  show "tcp_ok s' \<and> turn A (tcp_held s') l'"
    using op t ok k tcp_SetupPollSource_turn [OF k(1), of A l R] by (auto simp: plain_def tcp_get_poll_source_def s1_def [symmetric] Let_def split: if_splits)
qed

lemma SetSockOpt_tcp:
  fixes s :: TCPSocket
  assumes "SetSockOpt level optname v s = Some (r, s')"
  shows "tc_state s' = tc_state s" "tc_v s' = tc_v s"
  using assms by (auto simp: SetSockOpt_def SetIPSocketOptions_def Let_def split: if_splits)

interpretation tcp_setopt: socket_op "\<lambda>R s l. map_option (\<lambda>(r, s'). (r, s', l)) (SetSockOpt level optname v s)" tcp_held tcp_ok for level optname v
proof unfold_locales
  fix R s A l r s' l'
  assume ok: "tcp_ok s" and t: "turn A (tcp_held s) l" and "map_option (\<lambda>(r, s'). (r, s', l)) (SetSockOpt level optname v s) = Some (r, s', l')"
  then have o: "SetSockOpt level optname v s = Some (r, s')" "l' = l" by auto
  show "tcp_ok s' \<and> turn A (tcp_held s') l'" using tcp_cong [OF SetSockOpt_tcp [OF o(1)]] ok t o(2) by simp
qed


text \<open>A UDP socket is well formed whatever it holds.\<close>

definition udp_ok :: "UDPSocket \<Rightarrow> bool" where "udp_ok s = True"

lemma InstallConn_turn:
  assumes "runtime_ok R" "turn A (insert (HUdp c) (udp_held s)) l" "HUdp c \<notin> udp_held s" "InstallConn R c s l = Some (s', l')"
  shows "turn A (udp_held s') l'"
proof -
  define l1 where "l1 = (case ud_conn s of Some old \<Rightarrow> if so_poll_setup s then snd (rt_do R (On (HUdp old) (poll_install False)) l) else l | None \<Rightarrow> l)"
  define l2 where "l2 = UDPConn_destroy R (ud_conn s) l1"
  define s1 where "s1 = s\<lparr>ud_conn := Some c\<rparr>"
  define l3 where "l3 = (if is_nonblocking s1 then snd (rt_do R (On (HUdp c) (set_nonblocking True)) l2) else l2)"
  have "turn A (insert (HUdp c) (udp_held s)) l1"
    using assms(2) turn_on [OF assms(2)] by (auto simp: l1_def udp_held_def split: option.splits)
  from destroy_turn(1) [OF this, of "ud_conn s" R] have "turn A {HUdp c} l2"
    using assms(3) by (auto simp: l2_def udp_held_def insert_Diff_if)
  then have t3: "turn A {HUdp c} l3" using turn_on [of A "{HUdp c}" l2 "HUdp c" R] by (simp add: l3_def)
  have h: "udp_held s1 = {HUdp c}" by (simp add: s1_def udp_held_def)
  have "s' = s1 \<and> (l' = l3 \<or> l' = snd (rt_do R (On (HUdp c) (poll_install True)) l3))"
  proof -
    have "InstallConn R c s l = map_option (Pair s1) (if so_poll_setup s1 then udp_SetupPollSource R s1 l3 else Some l3)"
      unfolding InstallConn_def Let_def l3_def l2_def l1_def s1_def by (rule refl)
    moreover have "ud_conn s1 = Some c" by (simp add: s1_def)
    ultimately show ?thesis using assms(4) by (auto simp: udp_SetupPollSource_def split: if_splits)
  qed
  then show ?thesis using t3 h turn_on [OF t3, of "HUdp c" R] by auto
qed

text \<open>A connection just made is new.\<close>

lemma got_new: "runtime_ok R \<Longrightarrow> turn A H l \<Longrightarrow> set (uses (Open c)) \<subseteq> H \<Longrightarrow> succeeded c (an_ret (R l (Open c))) \<Longrightarrow> makes c (an_ptr (R l (Open c))) \<notin> H"
  unfolding runtime_ok_def turn_def by (metis UnCI opens.simps(1))

lemma installed_turn:
  assumes R: "runtime_ok R" and t: "turn A (udp_held s) l" and d: "(x = UDPConn_Dial R la ra l) \<or> (x = UDPConn_Listen R la l)"
    and i: "installed R x s = Some (r, s', l')"
  shows "turn A (udp_held s') l'"
proof -
  obtain y l1 where x: "x = (y, l1)" by force
  have g: "got HUdp A (udp_held s) y l1" using d x wrapper_got(1,2) [OF R t] by auto
  have n: "HUdp c \<notin> udp_held s" if "y = Inr c" for c
    using d x that got_new [OF R t, of "udp_dial la ra"] got_new [OF R t, of "udp_listen la"]
    by (auto simp: UDPConn_Dial_def UDPConn_Listen_def rt_do_def open_ret_def succeeded_def split: if_splits)
  show ?thesis using i x g n InstallConn_turn [OF R] by (cases y) (auto simp: installed_def got_def)
qed

interpretation udp_bind: socket_op "\<lambda>R. udp_Bind R addr" udp_held udp_ok for addr
proof unfold_locales
  fix R s A l r s' l'
  assume R: "runtime_ok R" and t: "turn A (udp_held s) l" and op: "udp_Bind R addr s l = Some (r, s', l')"
  show "udp_ok s' \<and> turn A (udp_held s') l'"
  proof (cases "ud_conn s = None \<and> (\<exists>na. ToNetAddr addr = Inr na)")
    case False
    then show ?thesis using op t by (auto simp: udp_Bind_def udp_ok_def split: if_splits sum.splits)
  next
    case True
    then obtain na where na: "ToNetAddr addr = Inr na" and u: "ud_conn s = None" by blast
    have e: "udp_held s = {}" using u by (simp add: udp_held_def)
    obtain x l1 where b: "BindToken_Allocate R na (nat IPPROTO_UDP) (so_reuse_port s) l = (x, l1)" by force
    note g = wrapper_got(6) [OF R t b, unfolded e got_def]
    show ?thesis
    proof (cases x)
      case Inl
      then show ?thesis using op g na u b e by (auto simp: udp_Bind_def udp_ok_def split: if_splits)
    next
      case (Inr tk)
      then have t1: "turn A {HToken tk} l1" using g by simp
      obtain y t' l2 where c: "BindToken_ListenUDP R (Some tk) l1 = (y, t', l2)" using prod_cases3 by blast
      note w = wrapper_traded(3) [OF R t1 c, unfolded traded_def]
      obtain l3 where i: "installed R (y, l2) s = Some (r, s', l3)" "l' = BindToken_destroy R t' l3"
        using op na u b c Inr by (auto simp: udp_Bind_def split: if_splits)
      show ?thesis
      proof (cases y)
        case y: (Inl e)
        then have "l3 = l2" "s' = s" "t' = Some tk" "turn A {HToken tk} l2" using i(1) w by (simp_all add: installed_def)
        then show ?thesis using destroy_turn(4) [of A "{HToken tk}" l2 "Some tk" R] i(2) e by (simp add: udp_ok_def)
      next
        case y: (Inr c)
        then have "InstallConn R c s l2 = Some (s', l3)" "t' = None" "turn A {HUdp c} l2" using i(1) w by (auto simp: installed_def)
        then show ?thesis using InstallConn_turn [OF R, of A c s l2 s' l3] i(2) e by (simp add: udp_ok_def BindToken_destroy_def)
      qed
    qed
  qed
qed


interpretation udp_connect: socket_op "\<lambda>R. udp_Connect R addr" udp_held udp_ok for addr
proof unfold_locales
  fix R s A l r s' l'
  assume R: "runtime_ok R" and t: "turn A (udp_held s) l" and op: "udp_Connect R addr s l = Some (r, s', l')"
  define pre where "pre = (case ud_conn s of
           None \<Rightarrow> (False, no_addr, l)
         | Some c \<Rightarrow>
             (case rt_do R (On (HUdp c) remote_addr) l of (a, l') \<Rightarrow>
                if na_ip (an_addr a) \<noteq> 0 \<or> na_port (an_addr a) \<noteq> 0 then (True, no_addr, l')
                else case rt_do R (On (HUdp c) local_addr) l' of (b, l'') \<Rightarrow> (False, an_addr b, l'')))"
  obtain b la l1 where p: "pre = (b, la, l1)" using prod_cases3 by blast
  have t1: "turn A (udp_held s) l1"
  proof (cases "ud_conn s")
    case None
    then show ?thesis using p t by (simp add: pre_def)
  next
    case (Some c)
    then have h: "HUdp c \<in> udp_held s" by (simp add: udp_held_def)
    note t2 = turn_on [OF t h, of R remote_addr]
    show ?thesis using p Some t2 turn_on [OF t2 h, of R local_addr] by (auto simp: pre_def rt_do_def split: if_splits)
  qed
  have "udp_Connect R addr s l = (if b then Some (Inl EISCONN, s, l1)
      else case ToNetAddr addr of Inl e \<Rightarrow> Some (Inl e, s, l1) | Inr ra \<Rightarrow> installed R (UDPConn_Dial R la ra l1) s)"
    unfolding udp_Connect_def pre_def [symmetric] p by simp
  then show "udp_ok s' \<and> turn A (udp_held s') l'"
    using op t1 installed_turn [OF R t1 disjI1 [OF refl]] by (auto simp: udp_ok_def split: if_splits sum.splits) metis
qed

lemma on_udp_keeps:
  assumes "\<And>c r1 l1. HUdp c \<in> udp_held s \<Longrightarrow> f c l = (r1, l1) \<Longrightarrow> turn A (udp_held s) l1"
    and "turn A (udp_held s) l" "on_udp e f s l = Some (r, s', l')"
  shows "udp_ok s' \<and> turn A (udp_held s') l'"
proof (cases "ud_conn s")
  case (Some c)
  then have h: "HUdp c \<in> udp_held s" by (simp add: udp_held_def)
  obtain r1 l1 where f: "f c l = (r1, l1)" by force
  show ?thesis using assms(1) [OF h f] assms(3) Some f by (simp add: on_udp_def udp_ok_def)
qed (use assms in \<open>simp add: on_udp_def udp_ok_def\<close>)

interpretation udp_read: socket_op "\<lambda>R. udp_Read R n" udp_held udp_ok for n
  by unfold_locales (unfold udp_Read_def, erule on_udp_keeps [rotated 2], erule (1) with_timeout_turn [rotated, rotated], erule (2) tcp_transfer_turn(1))

interpretation udp_write: socket_op "\<lambda>R. udp_Write R buf" udp_held udp_ok for buf
  by unfold_locales (unfold udp_Write_def, erule on_udp_keeps [rotated 2], erule (1) with_timeout_turn [rotated, rotated], erule (2) wrapper_turn(2))

interpretation udp_writev: socket_op "\<lambda>R. udp_Writev R iov" udp_held udp_ok for iov
  by unfold_locales (unfold udp_Writev_def, erule on_udp_keeps [rotated 2], erule (1) with_timeout_turn [rotated, rotated], erule (2) wrapper_turn(2))

interpretation udp_readfrom: socket_op "\<lambda>R. udp_ReadFrom R junk n raddr peek nb" udp_held udp_ok for junk n raddr peek nb
  by unfold_locales (unfold udp_ReadFrom_def, erule on_udp_keeps [rotated 2], erule (1) with_timeout_turn [rotated, rotated], erule (2) tcp_transfer_turn(2))

interpretation udp_readvfrom: socket_op "\<lambda>R. udp_ReadvFrom R junk iov raddr peek nb" udp_held udp_ok for junk iov raddr peek nb
  by unfold_locales (unfold udp_ReadvFrom_def, erule on_udp_keeps [rotated 2], erule (1) with_timeout_turn [rotated, rotated], erule (2) tcp_transfer_turn(2))


lemma udp_send_keeps:
  assumes R: "runtime_ok R" and t: "turn A (udp_held s) l" and op: "udp_send R call raddr s l = Some (r, s', l')"
  shows "udp_ok s' \<and> turn A (udp_held s') l'"
proof -
  obtain r1 s1 l1 where f: "(if ud_conn s = None then TrySetupConn R s l else Some (Inr (), s, l)) = Some (r1, s1, l1)"
    using op by (auto simp: udp_send_def bind_eq_Some_conv)
  have t1: "turn A (udp_held s1) l1"
    using f t installed_turn [OF R t disjI2 [OF refl]] by (auto simp: TrySetupConn_def split: if_splits)
  show ?thesis
  proof (cases r1)
    case Inl
    then show ?thesis using op f t1 by (simp add: udp_send_def udp_ok_def)
  next
    case (Inr u)
    define g where "g = (\<lambda>c l. case (case raddr of None \<Rightarrow> Inr None | Some a \<Rightarrow> map_sum id Some (ToNetAddr a)) of
        Inl e \<Rightarrow> (Inl e, l) | Inr dst \<Rightarrow> conn_write R (On (HUdp c) (call dst)) l)"
    obtain c where c: "ud_conn s1 = Some c" using op f Inr by (auto simp: udp_send_def)
    then have h: "HUdp c \<in> udp_held s1" by (simp add: udp_held_def)
    obtain r2 l2 where w: "with_timeout R (so_write_timeout s1) (g c) l1 = (r2, l2)" by force
    have "turn A (udp_held s1) l2"
    proof (rule with_timeout_turn [OF t1 _ w])
      show "turn A (udp_held s1) l4" if "turn A (udp_held s1) l3" "g c l3 = (r3, l4)" for l3 r3 l4
        using that wrapper_turn(2) [OF that(1) h] by (auto simp: g_def split: sum.splits)
    qed
    moreover have "s' = s1 \<and> l' = l2" using op f Inr c w by (simp add: udp_send_def g_def)
    ultimately show ?thesis by (simp add: udp_ok_def)
  qed
qed

interpretation udp_writeto: socket_op "\<lambda>R. udp_WriteTo R buf raddr nb" udp_held udp_ok for buf raddr nb
  by unfold_locales (unfold udp_WriteTo_def, erule (2) udp_send_keeps)

interpretation udp_writevto: socket_op "\<lambda>R. udp_WritevTo R iov raddr nb ecn" udp_held udp_ok for iov raddr nb ecn
  by unfold_locales (unfold udp_WritevTo_def, erule (2) udp_send_keeps)

lemma udp_held_cong: "ud_conn s' = ud_conn s \<Longrightarrow> udp_held s' = udp_held s"
  by (simp add: udp_held_def)

interpretation udp_shut: socket_op udp_Shutdown udp_held udp_ok
  by unfold_locales (auto simp: udp_Shutdown_def udp_ok_def udp_held_def split: option.splits if_splits intro: turn_on)

lemma udp_addr_keeps: "turn A (udp_held s) l \<Longrightarrow> udp_addr call R junk out s l = Some (r, s', l') \<Longrightarrow> udp_ok s' \<and> turn A (udp_held s') l'"
  using turn_on [of A "udp_held s" l "HUdp c" R call for c] by (auto simp: udp_addr_def udp_ok_def udp_held_def rt_do_def split: option.splits)

interpretation udp_remote: socket_op "\<lambda>R. udp_RemoteAddr R junk out" udp_held udp_ok for junk out
  by unfold_locales (unfold udp_RemoteAddr_def, erule (1) udp_addr_keeps)

interpretation udp_local: socket_op "\<lambda>R. udp_LocalAddr R junk out" udp_held udp_ok for junk out
  by unfold_locales (auto simp: udp_LocalAddr_def split: if_splits dest: udp_addr_keeps)

interpretation udp_flags: socket_op "\<lambda>R s l. plain (Some (udp_set_flags R fl s l))" udp_held udp_ok for fl
  by unfold_locales (auto simp: plain_def udp_set_flags_def udp_ok_def udp_held_def split: option.splits intro: turn_on)

interpretation udp_poll: socket_op "\<lambda>R s l. plain (udp_get_poll_source R s l)" udp_held udp_ok
  by unfold_locales (auto simp: plain_def udp_get_poll_source_def udp_SetupPollSource_def udp_ok_def udp_held_def Let_def split: if_splits intro: turn_on)

interpretation udp_setopt: socket_op "\<lambda>R s l. map_option (\<lambda>(r, s'). (r, s', l)) (SetSockOpt level optname v s)" udp_held udp_ok for level optname v
proof unfold_locales
  fix R A l r l' and s s' :: UDPSocket
  assume t: "turn A (udp_held s) l" and "map_option (\<lambda>(r, s'). (r, s', l)) (SetSockOpt level optname v s) = Some (r, s', l')"
  then have o: "SetSockOpt level optname v s = Some (r, s')" "l' = l" by auto
  then have "ud_conn s' = ud_conn s" by (simp add: SetSockOpt_def SetIPSocketOptions_def Let_def split: if_splits) auto
  from udp_held_cong [OF this] show "udp_ok s' \<and> turn A (udp_held s') l'" using t o(2) by (simp add: udp_ok_def)
qed

interpretation udp_getopt: socket_op "\<lambda>R. udp_GetSockOpt R payload_size level optname len" udp_held udp_ok for payload_size level optname len
  by unfold_locales (auto simp: udp_GetSockOpt_def GetSockOpt_def split: if_splits)

end
