(* ===== verification/SockCalls.thy ===== *)
theory SockCalls
  imports InetSocket
begin

text \<open>
  The socket system calls of \<^verbatim>\<open>src/junction/net/net.cc\<close> over the sockets of the theory \<open>InetSocket\<close> and the descriptor table of the
  theory \<open>FileTable\<close>: how a descriptor becomes a socket, the virtual call, and what is returned and written to the guest.

  The state is a process's descriptor table, the files it refers to, and the history of the calls to the runtime's network stack.  A
  system call is the value \<open>None\<close> if a method has undefined behaviour.  Sockets of other domains are files whose methods answer with
  a value that is an argument of the call.
\<close>

section \<open>Files and dispatch\<close>

datatype nfile = NotSocket | OtherSocket | TCP TCPSocket | UDP UDPSocket

record net_world =
  nw_ft :: FileTable
  nw_files :: "nat \<Rightarrow> nfile option"
  nw_next :: nat
  nw_log :: rt_log

definition net_new :: net_world where
  "net_new = \<lparr>nw_ft = FileTable_new, nw_files = (\<lambda>_. None), nw_next = 0, nw_log = []\<rparr>"

text \<open>A virtual method of \<open>Socket\<close>: those of the two classes, and the answer of the others.\<close>

definition virt :: "(runtime \<Rightarrow> TCPSocket \<Rightarrow> rt_log \<Rightarrow> ('r \<times> TCPSocket \<times> rt_log) option) \<Rightarrow>
    (runtime \<Rightarrow> UDPSocket \<Rightarrow> rt_log \<Rightarrow> ('r \<times> UDPSocket \<times> rt_log) option) \<Rightarrow> 'r \<Rightarrow>
    runtime \<Rightarrow> nfile \<Rightarrow> rt_log \<Rightarrow> ('r \<times> nfile \<times> rt_log) option" where
  "virt t u x R f l =
     (case f of
        NotSocket \<Rightarrow> None
      | OtherSocket \<Rightarrow> Some (x, OtherSocket, l)
      | TCP s \<Rightarrow> map_option (\<lambda>(r, s', l'). (r, TCP s', l')) (t R s l)
      | UDP s \<Rightarrow> map_option (\<lambda>(r, s', l'). (r, UDP s', l')) (u R s l))"

text \<open>A method that the class does not override.\<close>

definition default :: "errno \<Rightarrow> runtime \<Rightarrow> 's \<Rightarrow> rt_log \<Rightarrow> ('a Status \<times> 's \<times> rt_log) option" where
  "default e R s l = Some (Inl e, s, l)"

definition FDToSocket :: "int \<Rightarrow> net_world \<Rightarrow> (nat \<times> nfile) Status" where
  "FDToSocket fd w =
     (case ft_Get fd (nw_ft w) of
        None \<Rightarrow> Inl EBADF
      | Some f \<Rightarrow> (case nw_files w f of None \<Rightarrow> Inl EBADF | Some NotSocket \<Rightarrow> Inl ENOTSOCK | Some s \<Rightarrow> Inr (f, s)))"

definition put_sock :: "nat \<Rightarrow> nfile \<Rightarrow> rt_log \<Rightarrow> net_world \<Rightarrow> net_world" where
  "put_sock f s l w = w\<lparr>nw_files := (nw_files w)(f \<mapsto> s), nw_log := l\<rparr>"

text \<open>The part that the system calls share: find the socket and call a method of it.\<close>

definition on_socket :: "runtime \<Rightarrow> (runtime \<Rightarrow> nfile \<Rightarrow> rt_log \<Rightarrow> ('a Status \<times> nfile \<times> rt_log) option) \<Rightarrow> int \<Rightarrow> net_world \<Rightarrow>
    ('a Status \<times> net_world) option" where
  "on_socket R op fd w =
     (case FDToSocket fd w of
        Inl e \<Rightarrow> Some (Inl e, w)
      | Inr (f, s) \<Rightarrow> map_option (\<lambda>(r, s', l'). (r, put_sock f s' l' w)) (op R s (nw_log w)))"

definition ret0 :: "unit Status \<Rightarrow> int" where
  "ret0 r = (case r of Inl e \<Rightarrow> MakeCError e | Inr _ \<Rightarrow> 0)"

text \<open>A new file gets a descriptor.\<close>

definition add_file :: "nfile \<Rightarrow> bool \<Rightarrow> net_world \<Rightarrow> nat \<times> net_world" where
  "add_file s cloexec w =
     (case ft_Insert (nw_next w) cloexec 0 (nw_ft w) of (fd, t) \<Rightarrow>
        (fd, w\<lparr>nw_ft := t, nw_files := (nw_files w)(nw_next w \<mapsto> s), nw_next := nw_next w + 1\<rparr>))"

section \<open>Making, binding and connecting\<close>

definition AF_NETLINK :: int where "AF_NETLINK = 16"
definition SOCK_STREAM :: u32 where "SOCK_STREAM = 1"
definition SOCK_DGRAM :: u32 where "SOCK_DGRAM = 2"
definition SOL_IPV6 :: int where "SOL_IPV6 = 41"
definition IP_OPTIONS :: int where "IP_OPTIONS = 4"

text \<open>\<open>other\<close> says whether a socket of another domain can be made; \<open>junk\<close> is the uninitialised member \<open>backlog_\<close>.\<close>

definition CreateSocket :: "(int \<Rightarrow> u32 \<Rightarrow> int \<Rightarrow> u32 \<Rightarrow> unit Status) \<Rightarrow> int \<Rightarrow> int \<Rightarrow> u32 \<Rightarrow> int \<Rightarrow> nfile Status" where
  "CreateSocket other junk domain type0 protocol =
     (let flags = type0 AND kFlagNonblock;
          type = type0 AND NOT (kFlagCloseExec OR kFlagNonblock)
      in if domain = AF_NETLINK \<or> domain = AF_UNIX then map_sum id (\<lambda>_. OtherSocket) (other domain type protocol flags)
         else if domain \<noteq> int AF_INET then Inl EAFNOSUPPORT
         else if type = SOCK_STREAM then Inr (TCP (TCPSocket_new flags junk))
         else if type = SOCK_DGRAM then Inr (UDP (UDPSocket_new flags))
         else Inl EINVAL)"

definition usys_socket :: "(int \<Rightarrow> u32 \<Rightarrow> int \<Rightarrow> u32 \<Rightarrow> unit Status) \<Rightarrow> int \<Rightarrow> int \<Rightarrow> u32 \<Rightarrow> int \<Rightarrow> net_world \<Rightarrow> int \<times> net_world" where
  "usys_socket other junk domain type0 protocol w =
     (case CreateSocket other junk domain type0 protocol of
        Inl e \<Rightarrow> (MakeCError e, w)
      | Inr s \<Rightarrow> (case add_file s (type0 AND kFlagCloseExec \<noteq> 0) w of (fd, w') \<Rightarrow> (int fd, w')))"

definition usys_bind :: "runtime \<Rightarrow> unit Status \<Rightarrow> int \<Rightarrow> addr_in \<Rightarrow> net_world \<Rightarrow> (int \<times> net_world) option" where
  "usys_bind R x fd addr w =
     map_option (map_prod ret0 id) (on_socket R (virt (\<lambda>R. tcp_Bind R addr) (\<lambda>R. udp_Bind R addr) x) fd w)"

definition usys_connect :: "runtime \<Rightarrow> unit Status \<Rightarrow> int \<Rightarrow> addr_in \<Rightarrow> net_world \<Rightarrow> (int \<times> net_world) option" where
  "usys_connect R x fd addr w =
     map_option (map_prod ret0 id) (on_socket R (virt (\<lambda>R. tcp_Connect R addr) (\<lambda>R. udp_Connect R addr) x) fd w)"

definition usys_listen :: "runtime \<Rightarrow> unit Status \<Rightarrow> int \<Rightarrow> int \<Rightarrow> net_world \<Rightarrow> (int \<times> net_world) option" where
  "usys_listen R x fd blog w =
     map_option (map_prod ret0 id) (on_socket R (virt (\<lambda>R. tcp_Listen R blog) (default ENOTCONN) x) fd w)"

definition usys_shutdown :: "runtime \<Rightarrow> unit Status \<Rightarrow> int \<Rightarrow> int \<Rightarrow> net_world \<Rightarrow> (int \<times> net_world) option" where
  "usys_shutdown R x fd how w =
     map_option (map_prod ret0 id) (on_socket R (virt (\<lambda>R. tcp_Shutdown R how) udp_Shutdown x) fd w)"

text \<open>What is written for an address, with the result.\<close>

definition ret_out :: "'a Status \<Rightarrow> int \<times> 'a option" where
  "ret_out r = (case r of Inl e \<Rightarrow> (MakeCError e, None) | Inr v \<Rightarrow> (0, Some v))"

definition usys_getpeername :: "runtime \<Rightarrow> byte list \<Rightarrow> (byte list \<times> nat) Status \<Rightarrow> int \<Rightarrow> nat option \<Rightarrow> net_world \<Rightarrow>
    ((int \<times> (byte list \<times> nat) option) \<times> net_world) option" where
  "usys_getpeername R junk x fd out w =
     map_option (map_prod ret_out id) (on_socket R (virt (\<lambda>R. tcp_RemoteAddr R junk out) (\<lambda>R. udp_RemoteAddr R junk out) x) fd w)"

definition usys_getsockname :: "runtime \<Rightarrow> byte list \<Rightarrow> (byte list \<times> nat) Status \<Rightarrow> int \<Rightarrow> nat option \<Rightarrow> net_world \<Rightarrow>
    ((int \<times> (byte list \<times> nat) option) \<times> net_world) option" where
  "usys_getsockname R junk x fd out w =
     map_option (map_prod ret_out id) (on_socket R (virt (\<lambda>R. tcp_LocalAddr R junk out) (\<lambda>R. udp_LocalAddr R junk out) x) fd w)"

section \<open>Accepting\<close>

definition DoAccept :: "runtime \<Rightarrow> byte list \<Rightarrow> int \<Rightarrow> unit Status \<Rightarrow> int \<Rightarrow> nat option \<Rightarrow> u32 \<Rightarrow> net_world \<Rightarrow>
    ((int \<times> (byte list \<times> nat) option) \<times> net_world) option" where
  "DoAccept R junk backlog_junk x fd out flags w =
     (let insert = (\<lambda>s a w1. case add_file s (flags AND kFlagCloseExec \<noteq> 0) w1 of (nfd, w2) \<Rightarrow> ((int nfd, a), w2))
      in case FDToSocket fd w of
        Inl e \<Rightarrow> Some ((MakeCError e, None), w)
      | Inr (f, NotSocket) \<Rightarrow> None
      | Inr (f, OtherSocket) \<Rightarrow> (case x of Inl e \<Rightarrow> Some ((MakeCError e, None), w) | Inr _ \<Rightarrow> Some (insert OtherSocket None w))
      | Inr (f, UDP s) \<Rightarrow> Some ((MakeCError ENOTCONN, None), w)
      | Inr (f, TCP s) \<Rightarrow>
          map_option (\<lambda>(r, s', l').
            let w1 = put_sock f (TCP s') l' w
            in case r of Inl e \<Rightarrow> ((MakeCError e, None), w1) | Inr (ns, a) \<Rightarrow> insert (TCP ns) a w1)
            (tcp_Accept R junk out flags backlog_junk s (nw_log w)))"

definition usys_accept :: "runtime \<Rightarrow> byte list \<Rightarrow> int \<Rightarrow> unit Status \<Rightarrow> int \<Rightarrow> nat option \<Rightarrow> net_world \<Rightarrow>
    ((int \<times> (byte list \<times> nat) option) \<times> net_world) option" where
  "usys_accept R junk backlog_junk x fd out w = DoAccept R junk backlog_junk x fd out 0 w"

definition usys_accept4 :: "runtime \<Rightarrow> byte list \<Rightarrow> int \<Rightarrow> unit Status \<Rightarrow> int \<Rightarrow> nat option \<Rightarrow> u32 \<Rightarrow> net_world \<Rightarrow>
    ((int \<times> (byte list \<times> nat) option) \<times> net_world) option" where
  "usys_accept4 R junk backlog_junk x fd out flags w =
     (if flags AND NOT (kFlagNonblock OR kFlagCloseExec) \<noteq> 0 then Some ((- EINVAL, None), w)
      else DoAccept R junk backlog_junk x fd out (flags AND kFlagNonblock) w)"

section \<open>Options\<close>

definition usys_setsockopt :: "runtime \<Rightarrow> unit Status \<Rightarrow> int \<Rightarrow> int \<Rightarrow> int \<Rightarrow> byte list \<Rightarrow> net_world \<Rightarrow> (int \<times> net_world) option" where
  "usys_setsockopt R x fd level optname v w =
     (case FDToSocket fd w of
        Inl e \<Rightarrow> Some (MakeCError e, w)
      | Inr _ \<Rightarrow>
          if level = SOL_IPV6 then Some (- ENOPROTOOPT, w)
          else map_option (map_prod ret0 id)
            (on_socket R (virt (\<lambda>R s l. map_option (\<lambda>(r, s'). (r, s', l)) (SetSockOpt level optname v s))
                               (\<lambda>R s l. map_option (\<lambda>(r, s'). (r, s', l)) (SetSockOpt level optname v s)) x) fd w))"

text \<open>\<open>optlen\<close> is the length that the caller gives, if its pointer is not null; the result has the option's bytes.\<close>

definition usys_getsockopt :: "runtime \<Rightarrow> nat \<Rightarrow> byte list Status \<Rightarrow> int \<Rightarrow> int \<Rightarrow> int \<Rightarrow> nat option \<Rightarrow> net_world \<Rightarrow>
    ((int \<times> byte list option) \<times> net_world) option" where
  "usys_getsockopt R payload_size x fd level optname optlen w =
     (case FDToSocket fd w of
        Inl e \<Rightarrow> Some ((MakeCError e, None), w)
      | Inr _ \<Rightarrow>
          if level = IPPROTO_IP \<and> optname = IP_OPTIONS then
            Some (if optlen = None then (- EINVAL, None) else (0, Some []), w)
          else
            let len = (case optlen of None \<Rightarrow> 0 | Some n \<Rightarrow> n)
            in Option.bind
                 (on_socket R (virt (\<lambda>R. tcp_GetSockOpt R payload_size level optname len) (\<lambda>R. udp_GetSockOpt R payload_size level optname len) x) fd w)
                 (\<lambda>(r, w'). case r of
                    Inl e \<Rightarrow> Some ((MakeCError e, None), w')
                  | Inr v \<Rightarrow> if optlen = None then None else Some ((0, Some v), w')))"

section \<open>Receiving\<close>

definition kMsgPeek :: u32 where "kMsgPeek = 2"
definition kMsgDontWait :: u32 where "kMsgDontWait = 0x40"
definition kMsgNoSignal :: u32 where "kMsgNoSignal = 0x4000"
definition kMsgWaitOne :: u32 where "kMsgWaitOne = 0x10000"
definition MSG_CTRUNC :: u32 where "MSG_CTRUNC = 8"
definition IP_TOS :: nat where "IP_TOS = 1"

lemmas msg_defs = kMsgPeek_def kMsgDontWait_def kMsgNoSignal_def kMsgWaitOne_def MSG_CTRUNC_def IP_TOS_def

type_synonym received = "byte list \<times> (byte list \<times> nat) option \<times> byte option"

text \<open>The result, the bytes stored, and the address that is written.\<close>

definition usys_recvfrom :: "runtime \<Rightarrow> byte list \<Rightarrow> received Status \<Rightarrow> int \<Rightarrow> nat \<Rightarrow> u32 \<Rightarrow> nat option \<Rightarrow> net_world \<Rightarrow>
    ((int \<times> byte list \<times> (byte list \<times> nat) option) \<times> net_world) option" where
  "usys_recvfrom R junk x fd len flags src w =
     (let peek = flags AND kMsgPeek \<noteq> 0; nonblocking = flags AND kMsgDontWait \<noteq> 0
      in if flags AND NOT (kMsgNoSignal OR kMsgPeek OR kMsgDontWait) \<noteq> 0 then Some ((- EINVAL, [], None), w)
         else map_option (\<lambda>(r, w'). (case r of Inl e \<Rightarrow> (MakeCError e, [], None) | Inr (d, a, _) \<Rightarrow> (int (length d), d, a), w'))
           (on_socket R (virt (\<lambda>R. tcp_ReadFrom R junk len src peek nonblocking) (\<lambda>R. udp_ReadFrom R junk len src peek nonblocking) x) fd w))"

text \<open>A message header as it is given to a receive: the length of the buffer for the name if there is one, the lengths of the buffers,
  whether there is a buffer for control data, and its length; and what a receive stores: the bytes, the name, \<open>msg_flags\<close>,
  \<open>msg_controllen\<close> and the control data.\<close>

record rcv_hdr =
  rh_name :: "nat option"
  rh_iov :: "nat list"
  rh_control :: bool
  rh_controllen :: nat

record rcv_out =
  ro_data :: "byte list"
  ro_name :: "(byte list \<times> nat) option"
  ro_flags :: u32
  ro_controllen :: nat
  ro_control :: "byte list"

definition CMSG_ALIGN :: "nat \<Rightarrow> nat" where
  "CMSG_ALIGN n = (n + 7) div 8 * 8"

definition CMSG_SPACE :: "nat \<Rightarrow> nat" where
  "CMSG_SPACE n = CMSG_ALIGN n + CMSG_ALIGN 16"

definition tos_cmsg :: "byte \<Rightarrow> byte list" where
  "tos_cmsg tos = le_enc 8 (CMSG_SPACE 1) @ le_enc 4 (nat IPPROTO_IP) @ le_enc 4 IP_TOS @ [tos]"

text \<open>What is stored after the transfer; \<open>opts\<close> are the options of the socket.\<close>

definition rcv_finish :: "u64 \<Rightarrow> rcv_hdr \<Rightarrow> received \<Rightarrow> rcv_out option" where
  "rcv_finish opts h v =
     (case v of (d, a, tos) \<Rightarrow>
        let o0 = \<lparr>ro_data = d, ro_name = a, ro_flags = 0, ro_controllen = rh_controllen h, ro_control = []\<rparr>
        in case tos of
             None \<Rightarrow> Some o0
           | Some b \<Rightarrow>
               if rh_controllen h = 0 \<or> opts AND kSockOptRecvTos = 0 then Some o0
               else if rh_controllen h < CMSG_SPACE 1 then Some (o0\<lparr>ro_controllen := 0, ro_flags := MSG_CTRUNC\<rparr>)
               else if \<not> rh_control h then None
               else Some (o0\<lparr>ro_controllen := CMSG_SPACE 1, ro_control := tos_cmsg b\<rparr>))"

definition socket_options :: "nfile \<Rightarrow> u64" where
  "socket_options f = (case f of TCP s \<Rightarrow> so_options s | UDP s \<Rightarrow> so_options s | _ \<Rightarrow> 0)"

definition DoRecvMsg :: "byte list \<Rightarrow> received Status \<Rightarrow> rcv_hdr \<Rightarrow> bool \<Rightarrow> bool \<Rightarrow> runtime \<Rightarrow> nfile \<Rightarrow> rt_log \<Rightarrow>
    (rcv_out Status \<times> nfile \<times> rt_log) option" where
  "DoRecvMsg junk x h peek nonblocking R s l =
     Option.bind
       (virt (\<lambda>R. tcp_ReadvFrom R junk (rh_iov h) (rh_name h) peek nonblocking)
             (\<lambda>R. udp_ReadvFrom R junk (rh_iov h) (rh_name h) peek nonblocking) x R s l)
       (\<lambda>(r, s', l'). case r of
          Inl e \<Rightarrow> Some (Inl e, s', l')
        | Inr v \<Rightarrow> map_option (\<lambda>out. (Inr out, s', l')) (rcv_finish (socket_options s') h v))"

definition usys_recvmsg :: "runtime \<Rightarrow> byte list \<Rightarrow> received Status \<Rightarrow> int \<Rightarrow> rcv_hdr \<Rightarrow> u32 \<Rightarrow> net_world \<Rightarrow>
    ((int \<times> rcv_out option) \<times> net_world) option" where
  "usys_recvmsg R junk x fd h flags w =
     (let peek = flags AND kMsgPeek \<noteq> 0; nonblocking = flags AND kMsgDontWait \<noteq> 0
      in if flags AND NOT (kMsgNoSignal OR kMsgPeek OR kMsgDontWait) \<noteq> 0 then Some ((- EINVAL, None), w)
         else map_option (\<lambda>(r, w'). (case r of Inl e \<Rightarrow> (MakeCError e, None) | Inr out \<Rightarrow> (int (length (ro_data out)), Some out), w'))
           (on_socket R (DoRecvMsg junk x h peek nonblocking) fd w))"

text \<open>The loop of \<open>recvmmsg\<close>: \<open>late i\<close> says whether the time limit has passed before message \<open>i\<close>, \<open>x i\<close> what a socket of another
  domain answers for it.  The result is the return value and what was stored for the messages received.\<close>

fun recv_loop :: "byte list \<Rightarrow> (nat \<Rightarrow> received Status) \<Rightarrow> (nat \<Rightarrow> bool) \<Rightarrow> bool \<Rightarrow> bool \<Rightarrow> nat \<Rightarrow> rcv_hdr list \<Rightarrow> bool \<Rightarrow>
    runtime \<Rightarrow> nfile \<Rightarrow> rt_log \<Rightarrow> ((int \<times> rcv_out list) \<times> nfile \<times> rt_log) option" where
  "recv_loop junk x late wait_for_one peek i [] nonblocking R s l = Some ((int i, []), s, l)"
| "recv_loop junk x late wait_for_one peek i (h # hs) nonblocking R s l =
     (if late i then Some ((int i, []), s, l)
      else let nb = (nonblocking \<or> (i > 0 \<and> wait_for_one))
        in Option.bind (DoRecvMsg junk (x i) h peek nb R s l) (\<lambda>(r, s1, l1).
             case r of
               Inl e \<Rightarrow> Some ((if i > 0 then int i else MakeCError e, []), s1, l1)
             | Inr out \<Rightarrow>
                 map_option (\<lambda>((n, outs), s2, l2). ((n, out # outs), s2, l2))
                   (recv_loop junk x late wait_for_one peek (i + 1) hs nb R s1 l1)))"

text \<open>\<open>clock i\<close> are the successive readings of the clock.\<close>

definition usys_recvmmsg :: "runtime \<Rightarrow> byte list \<Rightarrow> (nat \<Rightarrow> received Status) \<Rightarrow> (nat \<Rightarrow> nat) \<Rightarrow> int \<Rightarrow> rcv_hdr list \<Rightarrow> u32 \<Rightarrow> nat option \<Rightarrow> net_world \<Rightarrow>
    ((int \<times> rcv_out list) \<times> net_world) option" where
  "usys_recvmmsg R junk x clock fd hs flags timeout w =
     (let peek = flags AND kMsgPeek \<noteq> 0; nonblocking = flags AND kMsgDontWait \<noteq> 0; wait_for_one = flags AND kMsgWaitOne \<noteq> 0;
          late = (\<lambda>i. case timeout of None \<Rightarrow> False | Some d \<Rightarrow> clock (i + 1) \<ge> clock 0 + d)
      in if flags AND NOT (kMsgNoSignal OR kMsgPeek OR kMsgDontWait OR kMsgWaitOne) \<noteq> 0 then Some ((- EINVAL, []), w)
         else map_option (\<lambda>(r, w'). (case r of Inl e \<Rightarrow> (MakeCError e, []) | Inr out \<Rightarrow> out, w'))
           (on_socket R (\<lambda>R s l. map_option (\<lambda>(o', s', l'). (Inr o', s', l')) (recv_loop junk x late wait_for_one peek 0 hs nonblocking R s l)) fd w))"

section \<open>Sending\<close>

definition opt_addr :: "addr_in \<Rightarrow> addr_in option" where
  "opt_addr a = (if fst a = None then None else Some a)"

definition usys_sendto :: "runtime \<Rightarrow> nat Status \<Rightarrow> int \<Rightarrow> byte list \<Rightarrow> u32 \<Rightarrow> addr_in \<Rightarrow> net_world \<Rightarrow> (int \<times> net_world) option" where
  "usys_sendto R x fd buf flags dest w =
     (let nonblocking = flags AND kMsgDontWait \<noteq> 0
      in if flags AND NOT (kMsgNoSignal OR kMsgDontWait) \<noteq> 0 then Some (- EINVAL, w)
         else map_option (\<lambda>(r, w'). (case r of Inl e \<Rightarrow> MakeCError e | Inr n \<Rightarrow> int n, w'))
           (on_socket R (virt (\<lambda>R. tcp_WriteTo R buf (opt_addr dest \<noteq> None) nonblocking) (\<lambda>R. udp_WriteTo R buf (opt_addr dest) nonblocking) x) fd w))"

record snd_hdr =
  sh_name :: addr_in
  sh_iov :: "byte list list"
  sh_control :: "(nat \<Rightarrow> byte) option"
  sh_controllen :: nat

text \<open>The loop over the control messages with \<open>CMSG_FIRSTHDR\<close> and \<open>CMSG_NXTHDR\<close>: the last message that sets the type of service
  counts.\<close>

definition bytes_at :: "(nat \<Rightarrow> byte) \<Rightarrow> nat \<Rightarrow> nat \<Rightarrow> byte list" where
  "bytes_at c pos n = map (\<lambda>i. c (pos + i)) [0..<n]"

function ecn_loop :: "(nat \<Rightarrow> byte) \<Rightarrow> nat \<Rightarrow> nat \<Rightarrow> byte option \<Rightarrow> byte option" where
  "ecn_loop c len pos ecn =
     (if len < pos + 16 then ecn
      else let clen = le_nat (bytes_at c pos 8);
               ecn' = (if le_nat (bytes_at c (pos + 8) 4) = nat IPPROTO_IP \<and> le_nat (bytes_at c (pos + 12) 4) = IP_TOS then Some (c (pos + 16)) else ecn);
               next = pos + CMSG_ALIGN clen
           in if clen < 16 \<or> len < next + 16 \<or> len < next + CMSG_ALIGN (le_nat (bytes_at c next 8)) then ecn'
              else ecn_loop c len next ecn')"
  by pat_completeness auto

lemma CMSG_ALIGN_ge: "n \<le> CMSG_ALIGN n"
  by (simp add: CMSG_ALIGN_def)

lemma cmsg_advances: "16 \<le> n \<Longrightarrow> pos + 16 \<le> len \<Longrightarrow> len - (pos + CMSG_ALIGN n) < len - pos"
  using CMSG_ALIGN_ge [of n] by linarith

termination ecn_loop
  by (relation "measure (\<lambda>(c, len, pos, ecn). len - pos)") (simp, simp add: cmsg_advances not_less)

declare ecn_loop.simps [simp del]

text \<open>The call of \<open>WritevTo\<close>, with the type of service of the control messages.\<close>

definition snd_transfer :: "nat Status \<Rightarrow> snd_hdr \<Rightarrow> bool \<Rightarrow> runtime \<Rightarrow> nfile \<Rightarrow> rt_log \<Rightarrow> (nat Status \<times> nfile \<times> rt_log) option" where
  "snd_transfer x h nonblocking =
     (let raddr = opt_addr (sh_name h);
          ecn = (case sh_control h of None \<Rightarrow> None | Some c \<Rightarrow> if sh_controllen h = 0 then None else ecn_loop c (sh_controllen h) 0 None)
      in virt (\<lambda>R. tcp_WritevTo R (sh_iov h) (raddr \<noteq> None) nonblocking) (\<lambda>R. udp_WritevTo R (sh_iov h) raddr nonblocking ecn) x)"

text \<open>An error of the transfer is returned as a number: the status of the function is then a success.\<close>

definition DoSendMsg :: "nat Status \<Rightarrow> snd_hdr \<Rightarrow> bool \<Rightarrow> runtime \<Rightarrow> nfile \<Rightarrow> rt_log \<Rightarrow> (u64 Status \<times> nfile \<times> rt_log) option" where
  "DoSendMsg x h nonblocking R s l =
     map_option (\<lambda>(r, s', l'). (Inr (case r of Inl e \<Rightarrow> word_of_int (MakeCError e) | Inr n \<Rightarrow> of_nat n), s', l')) (snd_transfer x h nonblocking R s l)"

definition usys_sendmsg :: "runtime \<Rightarrow> nat Status \<Rightarrow> int \<Rightarrow> snd_hdr \<Rightarrow> u32 \<Rightarrow> net_world \<Rightarrow> (int \<times> net_world) option" where
  "usys_sendmsg R x fd h flags w =
     (let nonblocking = flags AND kMsgDontWait \<noteq> 0
      in if flags AND NOT (kMsgNoSignal OR kMsgDontWait) \<noteq> 0 then Some (- EINVAL, w)
         else map_option (\<lambda>(r, w'). (case r of Inl e \<Rightarrow> MakeCError e | Inr n \<Rightarrow> sint n, w')) (on_socket R (DoSendMsg x h nonblocking) fd w))"

text \<open>The result is the return value and the numbers stored in \<open>msg_len\<close>.\<close>

fun send_loop :: "(nat \<Rightarrow> nat Status) \<Rightarrow> nat \<Rightarrow> snd_hdr list \<Rightarrow> bool \<Rightarrow> runtime \<Rightarrow> nfile \<Rightarrow> rt_log \<Rightarrow> ((int \<times> u32 list) \<times> nfile \<times> rt_log) option" where
  "send_loop x i [] nonblocking R s l = Some ((int i, []), s, l)"
| "send_loop x i (h # hs) nonblocking R s l =
     Option.bind (DoSendMsg (x i) h nonblocking R s l) (\<lambda>(r, s1, l1).
       case r of
         Inl e \<Rightarrow> Some ((if i > 0 then int i else MakeCError e, []), s1, l1)
       | Inr n \<Rightarrow> map_option (\<lambda>((k, lens), s2, l2). ((k, ucast n # lens), s2, l2)) (send_loop x (i + 1) hs nonblocking R s1 l1))"

definition usys_sendmmsg :: "runtime \<Rightarrow> (nat \<Rightarrow> nat Status) \<Rightarrow> int \<Rightarrow> snd_hdr list \<Rightarrow> u32 \<Rightarrow> net_world \<Rightarrow> ((int \<times> u32 list) \<times> net_world) option" where
  "usys_sendmmsg R x fd hs flags w =
     (let nonblocking = flags AND kMsgDontWait \<noteq> 0
      in if flags AND NOT (kMsgNoSignal OR kMsgDontWait) \<noteq> 0 then Some ((- EINVAL, []), w)
         else map_option (\<lambda>(r, w'). (case r of Inl e \<Rightarrow> (MakeCError e, []) | Inr out \<Rightarrow> out, w'))
           (on_socket R (\<lambda>R s l. map_option (\<lambda>(o', s', l'). (Inr o', s', l')) (send_loop x 0 hs nonblocking R s l)) fd w))"

section \<open>Descriptors\<close>

text \<open>A file goes with its last descriptor: the destructor of a socket releases what the socket holds.\<close>

definition destroy_file :: "runtime \<Rightarrow> nfile \<Rightarrow> rt_log \<Rightarrow> rt_log" where
  "destroy_file R f l = (case f of TCP s \<Rightarrow> tcp_destroy R s l | UDP s \<Rightarrow> udp_destroy R s l | _ \<Rightarrow> l)"

definition drop_ref :: "runtime \<Rightarrow> nat \<Rightarrow> net_world \<Rightarrow> net_world" where
  "drop_ref R f w =
     (if Some f \<in> set (fa_files (ft_arr (nw_ft w))) then w
      else case nw_files w f of
        None \<Rightarrow> w
      | Some s \<Rightarrow> w\<lparr>nw_files := (nw_files w)(f := None), nw_log := destroy_file R s (nw_log w)\<rparr>)"

definition net_close :: "runtime \<Rightarrow> int \<Rightarrow> net_world \<Rightarrow> int \<times> net_world" where
  "net_close R fd w =
     (case usys_close fd (nw_ft w) of (r, closed, t) \<Rightarrow> (r, fold (drop_ref R) (map snd closed) (w\<lparr>nw_ft := t\<rparr>)))"

definition net_dup :: "int \<Rightarrow> net_world \<Rightarrow> int \<times> net_world" where
  "net_dup fd w = (case usys_dup fd (nw_ft w) of (r, t) \<Rightarrow> (r, w\<lparr>nw_ft := t\<rparr>))"

definition net_dup2 :: "runtime \<Rightarrow> int \<Rightarrow> int \<Rightarrow> net_world \<Rightarrow> (int \<times> net_world) option" where
  "net_dup2 R oldfd newfd w =
     map_option (\<lambda>(r, closed, t). (r, fold (drop_ref R) (map snd closed) (w\<lparr>nw_ft := t\<rparr>))) (usys_dup2 oldfd newfd (nw_ft w))"


section \<open>Ownership\<close>

definition nf_held :: "nfile \<Rightarrow> handle set" where
  "nf_held f = (case f of TCP s \<Rightarrow> tcp_held s | UDP s \<Rightarrow> udp_held s | _ \<Rightarrow> {})"

definition nf_ok :: "nfile \<Rightarrow> bool" where
  "nf_ok f = (case f of TCP s \<Rightarrow> tcp_ok s | _ \<Rightarrow> True)"

text \<open>If the methods of both classes keep to what their socket holds, so does the virtual call.\<close>

locale virtual_op =
  t: socket_op top_op tcp_held tcp_ok + u: socket_op udp_op udp_held udp_ok
  for top_op :: "runtime \<Rightarrow> TCPSocket \<Rightarrow> rt_log \<Rightarrow> ('r \<times> TCPSocket \<times> rt_log) option"
    and udp_op :: "runtime \<Rightarrow> UDPSocket \<Rightarrow> rt_log \<Rightarrow> ('r \<times> UDPSocket \<times> rt_log) option"

sublocale virtual_op \<subseteq> v: socket_op "virt top_op udp_op x" nf_held nf_ok for x
proof unfold_locales
  fix R s A l r s' l'
  assume R: "runtime_ok R" and ok: "nf_ok s" and t: "turn A (nf_held s) l" and op: "virt top_op udp_op x R s l = Some (r, s', l')"
  show "nf_ok s' \<and> turn A (nf_held s') l'"
  proof (cases s)
    case (TCP a)
    then obtain b where "s' = TCP b" and k: "top_op R a l = Some (r, b, l')" using op by (auto simp: virt_def)
    then show ?thesis using t.keeps [OF R _ _ k, of A] ok t TCP by (simp add: nf_ok_def nf_held_def)
  next
    case (UDP a)
    then obtain b where "s' = UDP b" and k: "udp_op R a l = Some (r, b, l')" using op by (auto simp: virt_def)
    then show ?thesis using u.keeps [OF R _ _ k, of A] t UDP by (simp add: nf_ok_def nf_held_def udp_ok_def)
  qed (use op ok t in \<open>simp_all add: virt_def\<close>)
qed

interpretation default_op: socket_op "default e" held ok for e held ok
  by unfold_locales (simp add: default_def)

interpretation v_bind: virtual_op "\<lambda>R. tcp_Bind R addr" "\<lambda>R. udp_Bind R addr" for addr ..

interpretation v_connect: virtual_op "\<lambda>R. tcp_Connect R addr" "\<lambda>R. udp_Connect R addr" for addr ..

interpretation v_listen: virtual_op "\<lambda>R. tcp_Listen R blog" "default ENOTCONN" for blog ..

interpretation v_shutdown: virtual_op "\<lambda>R. tcp_Shutdown R how" udp_Shutdown for how ..

interpretation v_remote: virtual_op "\<lambda>R. tcp_RemoteAddr R junk out" "\<lambda>R. udp_RemoteAddr R junk out" for junk out ..

interpretation v_local: virtual_op "\<lambda>R. tcp_LocalAddr R junk out" "\<lambda>R. udp_LocalAddr R junk out" for junk out ..

interpretation v_setopt: virtual_op "\<lambda>R s l. map_option (\<lambda>(r, s'). (r, s', l)) (SetSockOpt level optname v s)"
  "\<lambda>R s l. map_option (\<lambda>(r, s'). (r, s', l)) (SetSockOpt level optname v s)" for level optname v ..

interpretation v_getopt: virtual_op "\<lambda>R. tcp_GetSockOpt R payload_size level optname len" "\<lambda>R. udp_GetSockOpt R payload_size level optname len"
  for payload_size level optname len ..

interpretation v_readfrom: virtual_op "\<lambda>R. tcp_ReadFrom R junk n raddr peek nb" "\<lambda>R. udp_ReadFrom R junk n raddr peek nb" for junk n raddr peek nb ..

interpretation v_readvfrom: virtual_op "\<lambda>R. tcp_ReadvFrom R junk iov raddr peek nb" "\<lambda>R. udp_ReadvFrom R junk iov raddr peek nb"
  for junk iov raddr peek nb ..

interpretation v_writeto: virtual_op "\<lambda>R. tcp_WriteTo R buf given nb" "\<lambda>R. udp_WriteTo R buf raddr nb" for buf given raddr nb ..

interpretation v_writevto: virtual_op "\<lambda>R. tcp_WritevTo R iov given nb" "\<lambda>R. udp_WritevTo R iov raddr nb ecn" for iov given raddr nb ecn ..

interpretation v_read: virtual_op "\<lambda>R. tcp_Read R n" "\<lambda>R. udp_Read R n" for n ..

interpretation v_write: virtual_op "\<lambda>R. tcp_Write R buf" "\<lambda>R. udp_Write R buf" for buf ..

interpretation v_writev: virtual_op "\<lambda>R. tcp_Writev R iov" "\<lambda>R. udp_Writev R iov" for iov ..

interpretation v_flags: virtual_op "\<lambda>R s l. plain (tcp_set_flags R fl s l)" "\<lambda>R s l. plain (Some (udp_set_flags R fl s l))" for fl ..

interpretation v_poll: virtual_op "\<lambda>R s l. plain (tcp_get_poll_source R s l)" "\<lambda>R s l. plain (udp_get_poll_source R s l)" ..


text \<open>Messages and sequences of messages.\<close>

lemma result_mapped:
  "map_option (\<lambda>(r, s', l'). (f r, s', l')) q = Some (r, s', l') \<Longrightarrow> \<exists>y. q = Some (y, s', l')"
  "Option.bind q (\<lambda>(r, s', l'). case r of Inl e \<Rightarrow> Some (Inl e, s', l') | Inr v \<Rightarrow> map_option (\<lambda>out. (Inr out, s', l')) (g s' v)) = Some (z, s', l') \<Longrightarrow>
    \<exists>y. q = Some (y, s', l')"
  by (cases q; auto split: sum.split_asm)+

interpretation recv_msg: socket_op "DoRecvMsg junk x h peek nb" nf_held nf_ok for junk x h peek nb
proof unfold_locales
  fix R s A l r s' l'
  assume R: "runtime_ok R" and ok: "nf_ok s" and t: "turn A (nf_held s) l" and op: "DoRecvMsg junk x h peek nb R s l = Some (r, s', l')"
  obtain y where "virt (\<lambda>R. tcp_ReadvFrom R junk (rh_iov h) (rh_name h) peek nb)
      (\<lambda>R. udp_ReadvFrom R junk (rh_iov h) (rh_name h) peek nb) x R s l = Some (y, s', l')"
    using result_mapped(2) [OF op [unfolded DoRecvMsg_def]] by blast
  from v_readvfrom.v.keeps [OF R ok t this] show "nf_ok s' \<and> turn A (nf_held s') l'" .
qed

interpretation send_msg: socket_op "DoSendMsg x h nb" nf_held nf_ok for x h nb
proof unfold_locales
  fix R s A l r s' l'
  assume R: "runtime_ok R" and ok: "nf_ok s" and t: "turn A (nf_held s) l" and op: "DoSendMsg x h nb R s l = Some (r, s', l')"
  obtain ra ecn y where "virt (\<lambda>R. tcp_WritevTo R (sh_iov h) (ra \<noteq> None) nb) (\<lambda>R. udp_WritevTo R (sh_iov h) ra nb ecn) x R s l = Some (y, s', l')"
    using result_mapped(1) [OF op [unfolded DoSendMsg_def]] unfolding snd_transfer_def Let_def by blast
  from v_writevto.v.keeps [OF R ok t this] show "nf_ok s' \<and> turn A (nf_held s') l'" .
qed

lemma recv_loop_keeps:
  assumes "runtime_ok R"
  shows "nf_ok s \<Longrightarrow> turn A (nf_held s) l \<Longrightarrow> recv_loop junk x late one peek i hs nb R s l = Some (r, s', l') \<Longrightarrow>
    nf_ok s' \<and> turn A (nf_held s') l'"
proof (induction hs arbitrary: i nb s l r)
  case (Cons h hs)
  show ?case
  proof (cases "late i")
    case False
    then obtain y s1 l1 where d: "DoRecvMsg junk (x i) h peek (nb \<or> (i > 0 \<and> one)) R s l = Some (y, s1, l1)"
      using Cons.prems(3) by (auto simp: bind_eq_Some_conv Let_def)
    note k = recv_msg.keeps [OF assms Cons.prems(1,2) d]
    show ?thesis
    proof (cases y)
      case (Inr out)
      then obtain r' where "recv_loop junk x late one peek (i + 1) hs (nb \<or> (i > 0 \<and> one)) R s1 l1 = Some (r', s', l')"
        using Cons.prems(3) d False by (auto simp: Let_def)
      from Cons.IH [OF _ _ this] k show ?thesis by simp
    qed (use Cons.prems(3) d False k in \<open>auto simp: Let_def\<close>)
  qed (use Cons.prems in simp)
qed simp

lemma send_loop_keeps:
  assumes "runtime_ok R"
  shows "nf_ok s \<Longrightarrow> turn A (nf_held s) l \<Longrightarrow> send_loop x i hs nb R s l = Some (r, s', l') \<Longrightarrow> nf_ok s' \<and> turn A (nf_held s') l'"
proof (induction hs arbitrary: i s l r)
  case (Cons h hs)
  obtain y s1 l1 where d: "DoSendMsg (x i) h nb R s l = Some (y, s1, l1)" using Cons.prems(3) by (auto simp: bind_eq_Some_conv)
  note k = send_msg.keeps [OF assms Cons.prems(1,2) d]
  show ?case
  proof (cases y)
    case (Inr n)
    then obtain r' where "send_loop x (i + 1) hs nb R s1 l1 = Some (r', s', l')" using Cons.prems(3) d by auto
    from Cons.IH [OF _ _ this] k show ?thesis by simp
  qed (use Cons.prems(3) d k in auto)
qed simp

interpretation recv_msgs: socket_op "\<lambda>R s l. map_option (\<lambda>(o', s', l'). (Inr o', s', l')) (recv_loop junk x late one peek i hs nb R s l)" nf_held nf_ok
  for junk x late one peek i hs nb
  by unfold_locales (auto dest: recv_loop_keeps)

interpretation send_msgs: socket_op "\<lambda>R s l. map_option (\<lambda>(o', s', l'). (Inr o', s', l')) (send_loop x i hs nb R s l)" nf_held nf_ok for x i hs nb
  by unfold_locales (auto dest: send_loop_keeps)


section \<open>The invariant\<close>

definition nw_held :: "net_world \<Rightarrow> nat \<Rightarrow> handle set" where
  "nw_held w f = (case nw_files w f of None \<Rightarrow> {} | Some s \<Rightarrow> nf_held s)"

text \<open>In the middle of an operation the files of \<open>F\<close> may have lost their descriptors, and the objects of \<open>H\<close> belong to no file yet.\<close>

definition files_ok :: "nat set \<Rightarrow> net_world \<Rightarrow> bool" where
  "files_ok F w \<longleftrightarrow> ft_ok (nw_ft w) \<and> (\<forall>i f. ft_slot (nw_ft w) i = Some f \<longrightarrow> nw_files w f \<noteq> None) \<and>
     (\<forall>f s. nw_files w f = Some s \<longrightarrow> f < nw_next w \<and> nf_ok s \<and> (f \<notin> F \<longrightarrow> (\<exists>i. ft_slot (nw_ft w) i = Some f)))"

definition owned :: "handle set \<Rightarrow> (nat \<Rightarrow> handle set) \<Rightarrow> rt_log \<Rightarrow> bool" where
  "owned H h l \<longleftrightarrow> well_used l \<and> (\<forall>f g. f \<noteq> g \<longrightarrow> h f \<inter> h g = {}) \<and> (\<forall>f. h f \<inter> H = {}) \<and> set (alive l) = (\<Union>f. h f) \<union> H"

definition net_inv :: "net_world \<Rightarrow> bool" where
  "net_inv w \<longleftrightarrow> files_ok {} w \<and> owned {} (nw_held w) (nw_log w)"

lemma net_new_inv: "net_inv net_new"
  by (simp add: net_inv_def files_ok_def owned_def net_new_def ft_new_ok ft_slot_new nw_held_def well_used_def alive_def)

lemma Union_split: "(\<Union>g. h g) = (\<Union>g \<in> - {f}. h g) \<union> h f"
  by auto

text \<open>The objects of a file are those it may use in its turn, and what it then holds can be put back.\<close>

lemma owned_turn: "owned {} h l \<Longrightarrow> turn (\<Union>g \<in> - {f}. h g) (h f) l"
  unfolding owned_def turn_def Union_split [of h f] by auto

lemma turn_owned:
  assumes "owned {} h l" "turn (\<Union>g \<in> - {f}. h g) (K \<union> H) l'" "K \<inter> H = {}"
  shows "owned H (h(f := K)) l'"
proof -
  have u: "(\<Union>g. (h(f := K)) g) = (\<Union>g \<in> - {f}. h g) \<union> K" by auto
  have "h g \<inter> (K \<union> H) = {}" "(K \<union> H) \<inter> h g = {}" if "g \<noteq> f" for g using assms(2) that by (auto simp: turn_def)
  moreover have "h a \<inter> h b = {}" if "a \<noteq> b" for a b using assms(1) that by (simp add: owned_def)
  ultimately have d: "(h(f := K)) a \<inter> (h(f := K)) b = {}" "(h(f := K)) a \<inter> H = {}" if "a \<noteq> b" for a b
    using assms(3) that by (auto simp: Int_Un_distrib Int_Un_distrib2)
  have "(h(f := K)) a \<inter> H = {}" for a using d(2) [of a "Suc a"] by simp
  then show ?thesis using assms(2) u d(1) by (simp add: owned_def turn_def Un_assoc)
qed

lemma held_put: "nw_held (put_sock f s l w) = (nw_held w)(f := nf_held s)"
  by (simp add: fun_eq_iff nw_held_def put_sock_def)

lemma files_put: "files_ok F w \<Longrightarrow> nw_files w f = Some s \<Longrightarrow> nf_ok s' \<Longrightarrow> files_ok F (put_sock f s' l w)"
  unfolding files_ok_def put_sock_def by simp

lemma FDToSocket_file: "FDToSocket fd w = Inr (f, s) \<Longrightarrow> nw_files w f = Some s"
  by (auto simp: FDToSocket_def split: option.splits nfile.splits)

lemma on_socket_inv:
  assumes "socket_op op nf_held nf_ok" "runtime_ok R" "net_inv w" "on_socket R op fd w = Some (r, w')"
  shows "net_inv w'"
proof (cases "FDToSocket fd w")
  case (Inr p)
  obtain f s where p: "FDToSocket fd w = Inr (f, s)" using Inr by (cases p) simp
  then obtain s' l' where o: "op R s (nw_log w) = Some (r, s', l')" and w': "w' = put_sock f s' l' w"
    using assms(4) by (auto simp: on_socket_def)
  have f: "nw_files w f = Some s" by (rule FDToSocket_file [OF p])
  have i: "files_ok {} w" "owned {} (nw_held w) (nw_log w)" using assms(3) by (simp_all add: net_inv_def)
  have h: "nw_held w f = nf_held s" by (simp add: nw_held_def f)
  have "nf_ok s" using i(1) f by (auto simp: files_ok_def)
  from socket_op.keeps [OF assms(1,2) this owned_turn [OF i(2), of f, unfolded h] o]
  have "nf_ok s'" "turn (\<Union>g \<in> - {f}. nw_held w g) (nf_held s') l'" by simp_all
  then show ?thesis using files_put [OF i(1) f] turn_owned [OF i(2), of f "nf_held s'" "{}" l']
    unfolding net_inv_def w' held_put by (simp add: put_sock_def)
qed (use assms in \<open>simp add: on_socket_def\<close>)


text \<open>A new file takes what belonged to no file.\<close>

lemma add_file_inv:
  assumes "files_ok {} w" "owned (nf_held s) (nw_held w) (nw_log w)" "nf_ok s" "add_file s c w = (fd, w')"
  shows "net_inv w'"
proof -
  let ?n = "nw_next w"
  obtain t where ins: "ft_Insert ?n c 0 (nw_ft w) = (fd, t)"
    and w': "w' = w\<lparr>nw_ft := t, nw_files := (nw_files w)(?n \<mapsto> s), nw_next := ?n + 1\<rparr>"
    using assms(4) by (auto simp: add_file_def split: prod.splits)
  have "ft_ok (nw_ft w)" using assms(1) by (simp add: files_ok_def)
  note I = ft_Insert_spec [OF this ins]
  have n: "nw_files w ?n = None" using assms(1) unfolding files_ok_def by (metis less_irrefl option.exhaust)
  have h: "nw_held w' = (nw_held w)(?n := nf_held s)" and e: "nw_held w ?n = {}" by (auto simp: fun_eq_iff nw_held_def w' n)
  have slots: "ft_slot t i = Some f \<longleftrightarrow> (if i = fd then f = ?n else ft_slot (nw_ft w) i = Some f)" for i f using I by auto
  have fr: "ft_slot (nw_ft w) fd = None" using I by simp
  have "\<exists>i. ft_slot t i = Some f" if "f = ?n \<or> (\<exists>i. ft_slot (nw_ft w) i = Some f)" for f
    using that fr by (metis slots option.distinct(1))
  then have "files_ok {} w'" using assms(1,3) I by (auto simp: files_ok_def w' slots less_Suc_eq)
  moreover have "owned {} (nw_held w') (nw_log w')"
  proof -
    have "(\<Union>f. nw_held w' f) = (\<Union>f. nw_held w f) \<union> nf_held s" unfolding h Union_split [of "nw_held w" ?n] e by auto
    then show ?thesis using assms(2) unfolding owned_def h by (auto simp: w' Int_commute)
  qed
  ultimately show ?thesis by (simp add: net_inv_def)
qed

lemma tcp_Accept_turn:
  assumes "runtime_ok R" "tcp_ok s" "turn A (tcp_held s) l" "tcp_Accept R junk out flags bj s l = Some (r, s', l')"
  shows "s' = s \<and> (case r of Inl _ \<Rightarrow> turn A (tcp_held s) l'
    | Inr (ns, _) \<Rightarrow> tcp_ok ns \<and> turn A (tcp_held s \<union> tcp_held ns) l' \<and> tcp_held s \<inter> tcp_held ns = {})"
proof (cases "tc_state s = kSockListening")
  case True
  then obtain q where v: "tc_v s = VQueue (Some q)" using assms(2) by (auto elim: tcp_ok_cases)
  then have q: "TcpQueue s = Some q" "tcp_held s = {HQueue q}" using True by (simp_all add: TcpQueue_def tcp_held_def)
  obtain x l1 where a: "TCPQueue_Accept R q l = (x, l1)" by force
  note g = wrapper_got(7) [OF assms(1,3) a]
  show ?thesis
  proof (cases x)
    case (Inl e)
    then show ?thesis using assms(4) True q(1) a g [unfolded q(2)] unfolding tcp_Accept_def q(2) by (simp add: got_def) auto
  next
    case (Inr c)
    have t: "turn A {HConn c, HQueue q} l1" using g q Inr by (simp add: got_def)
    define l2 where "l2 = (if flags AND kFlagNonblock \<noteq> 0 then snd (rt_do R (On (HConn c) (set_nonblocking True)) l1) else l1)"
    have t2: "turn A {HConn c, HQueue q} l2" using t turn_on [OF t] by (simp add: l2_def)
    have t3: "turn A {HConn c, HQueue q} (snd (rt_do R (On (HConn c) remote_addr) l2))" using turn_on [OF t2] by simp
    have ns: "tcp_ok (TCPSocket_conn c flags bj)" "tcp_held (TCPSocket_conn c flags bj) = {HConn c}"
      by (simp_all add: TCPSocket_conn_def tcp_ok_def tcp_held_def Socket.defs Socket_new_def)
    obtain y l3 where y: "peer_addr R junk out c l2 = (y, l3)" and t4: "turn A {HQueue q, HConn c} l3"
      using t2 t3 by (cases out) (auto simp: peer_addr_def rt_do_def insert_commute)
    have "tcp_Accept R junk out flags bj s l = Some (Inr (TCPSocket_conn c flags bj, y), s, l3)"
      using True by (simp add: tcp_Accept_def q(1) a Inr Let_def l2_def [symmetric] peer_addr_def [symmetric] y)
    then show ?thesis using assms(4) t4 ns unfolding q(2) by auto
  qed
qed (use assms in \<open>auto simp: tcp_Accept_def\<close>)


lemma DoAccept_inv:
  assumes "runtime_ok R" "net_inv w" "DoAccept R junk bj x fd out flags w = Some (r, w')"
  shows "net_inv w'"
proof (cases "FDToSocket fd w")
  case (Inr p)
  obtain f s where p: "FDToSocket fd w = Inr (f, s)" using Inr by (cases p) simp
  have i: "files_ok {} w" "owned {} (nw_held w) (nw_log w)" using assms(2) by (simp_all add: net_inv_def)
  show ?thesis
  proof (cases s)
    case OtherSocket
    have "net_inv w2" if "add_file OtherSocket c w = (n, w2)" for c n w2
      using add_file_inv [OF i(1) _ _ that] i(2) by (simp add: nf_held_def nf_ok_def)
    then show ?thesis using assms(2,3) p OtherSocket by (auto simp: DoAccept_def Let_def split: sum.splits prod.splits)
  next
    case (TCP a)
    have f: "nw_files w f = Some (TCP a)" using FDToSocket_file [OF p] TCP by simp
    have h: "nw_held w f = tcp_held a" by (simp add: nw_held_def f nf_held_def)
    have ok: "tcp_ok a" using i(1) f by (force simp: files_ok_def nf_ok_def)
    obtain y a' l' where acc: "tcp_Accept R junk out flags bj a (nw_log w) = Some (y, a', l')"
      using assms(3) p TCP by (auto simp: DoAccept_def Let_def)
    note t = tcp_Accept_turn [OF assms(1) ok owned_turn [OF i(2), of f, unfolded h] acc]
    have nf: "nf_ok (TCP a)" "nf_held (TCP a) = tcp_held a" using ok by (simp_all add: nf_ok_def nf_held_def)
    show ?thesis
    proof (cases y)
      case (Inl e)
      then have "w' = put_sock f (TCP a) l' w" using assms(3) p TCP acc t by (auto simp: DoAccept_def Let_def)
      then show ?thesis using t Inl files_put [OF i(1) f nf(1)] turn_owned [OF i(2), of f "tcp_held a" "{}" l']
        unfolding net_inv_def by (simp add: held_put nf(2)) (simp add: put_sock_def)
    next
      case (Inr v)
      obtain ns z where v: "v = (ns, z)" by force
      let ?w1 = "put_sock f (TCP a) l' w"
      obtain n where add: "add_file (TCP ns) (flags AND kFlagCloseExec \<noteq> 0) ?w1 = (n, w')"
        using assms(3) p TCP acc t Inr v by (auto simp: DoAccept_def Let_def split: prod.splits)
      have "owned (tcp_held ns) (nw_held ?w1) (nw_log ?w1)"
        using t Inr v turn_owned [OF i(2), of f "tcp_held a" "tcp_held ns" l'] by (simp add: held_put nf(2)) (simp add: put_sock_def)
      then show ?thesis using add_file_inv [OF files_put [OF i(1) f nf(1)] _ _ add] t Inr v by (simp add: nf_held_def nf_ok_def)
    qed
  qed (use assms p in \<open>auto simp: DoAccept_def Let_def\<close>)
qed (use assms in \<open>simp add: DoAccept_def\<close>)

lemma map_sum_const: "map_sum id (\<lambda>_. c) x = Inr s \<Longrightarrow> s = c"
  by (cases x) auto

lemma usys_socket_inv:
  assumes "net_inv w" "usys_socket other junk domain type0 protocol w = (r, w')"
  shows "net_inv w'"
proof (cases "CreateSocket other junk domain type0 protocol")
  case (Inr s)
  then obtain fd where add: "add_file s (type0 AND kFlagCloseExec \<noteq> 0) w = (fd, w')"
    using assms(2) by (auto simp: usys_socket_def split: prod.splits)
  have "nf_ok s \<and> nf_held s = {}" using Inr
    by (auto simp: CreateSocket_def Let_def nf_ok_def nf_held_def tcp_ok_def tcp_held_def udp_held_def TCPSocket_new_def UDPSocket_new_def
        Socket.defs Socket_new_def split: if_splits dest!: map_sum_const)
  then show ?thesis using add_file_inv [OF _ _ _ add] assms(1) by (simp add: net_inv_def)
qed (use assms in \<open>simp add: usys_socket_def\<close>)

text \<open>Losing a descriptor, and perhaps the file with it.\<close>

lemma destroy_file_turn: "turn A (nf_held s) l \<Longrightarrow> turn A {} (destroy_file R s l)"
proof (cases s)
  case (TCP a)
  assume "turn A (nf_held s) l"
  then have t: "turn A (tcp_held a) l" by (simp add: TCP nf_held_def)
  show ?thesis
  proof (cases "tc_v a")
    case (VConn c)
    then show ?thesis using t destroy_turn(2) [of A "tcp_held a" l c R] by (simp add: TCP tcp_held_def destroy_file_def tcp_destroy_def)
  next
    case (VQueue c)
    then show ?thesis using t destroy_turn(3) [of A "tcp_held a" l c R] by (simp add: TCP tcp_held_def destroy_file_def tcp_destroy_def)
  next
    case (VToken c)
    then show ?thesis using t destroy_turn(4) [of A "tcp_held a" l c R] by (simp add: TCP tcp_held_def destroy_file_def tcp_destroy_def)
  qed
next
  case (UDP a)
  assume "turn A (nf_held s) l"
  then show ?thesis using destroy_turn(1) [of A "udp_held a" l "ud_conn a" R] UDP
    by (auto simp: nf_held_def udp_held_def destroy_file_def udp_destroy_def)
qed (auto simp: nf_held_def destroy_file_def)

lemma slot_in_table: "ft_ok t \<Longrightarrow> Some f \<in> set (fa_files (ft_arr t)) \<longleftrightarrow> (\<exists>i. ft_slot t i = Some f)"
  unfolding ft_ok_def ft_slot_def in_set_conv_nth by (metis leI less_le_trans option.distinct(1))

lemma files_restored: "files_ok {f} w \<Longrightarrow> nw_files w f = None \<or> (\<exists>i. ft_slot (nw_ft w) i = Some f) \<Longrightarrow> files_ok {} w"
  unfolding files_ok_def by (metis empty_iff insertE option.distinct(1))

lemma drop_ref_inv:
  assumes "files_ok {f} w" "owned {} (nw_held w) (nw_log w)"
  shows "net_inv (drop_ref R f w)"
proof (cases "nw_files w f")
  case None
  then have "files_ok {} w" using files_restored [OF assms(1)] by simp
  then show ?thesis using None assms(2) by (simp add: drop_ref_def net_inv_def)
next
  case (Some s)
  have ft: "ft_ok (nw_ft w)" using assms(1) by (simp add: files_ok_def)
  show ?thesis
  proof (cases "\<exists>i. ft_slot (nw_ft w) i = Some f")
    case True
    then have "files_ok {} w" using files_restored [OF assms(1)] by blast
    then show ?thesis using True assms(2) by (simp add: drop_ref_def net_inv_def slot_in_table [OF ft])
  next
    case False
    define l where "l = destroy_file R s (nw_log w)"
    let ?w = "w\<lparr>nw_files := (nw_files w)(f := None), nw_log := l\<rparr>"
    have h: "nw_held w f = nf_held s" "nw_held ?w = (nw_held w)(f := {})" by (auto simp: nw_held_def Some fun_eq_iff)
    have "turn (\<Union>g \<in> - {f}. nw_held w g) ({} \<union> {}) l"
      using destroy_file_turn [OF owned_turn [OF assms(2), of f, unfolded h(1)]] by (simp add: l_def)
    then have "owned {} (nw_held ?w) l" unfolding h(2) by (rule turn_owned [OF assms(2)]) simp
    moreover have "files_ok {} ?w" using assms(1) False by (auto simp: files_ok_def)
    ultimately show ?thesis using False Some by (simp add: drop_ref_def net_inv_def slot_in_table [OF ft] l_def)
  qed
qed


lemma nw_held_ft [simp]: "nw_held (w\<lparr>nw_ft := t\<rparr>) = nw_held w"
  by (simp add: fun_eq_iff nw_held_def)

lemma ft_Get_at: "ft_Get fd t = ft_slot t (to_size fd)"
  by (simp add: ft_Get_def ft_slot_def)

text \<open>A table in which one descriptor has changed: the file it referred to may have lost its last one.\<close>

lemma files_slot_changed:
  assumes "files_ok {} w" "ft_ok t" "ft_slot t = (ft_slot (nw_ft w))(i := v)" "v = None \<or> (\<exists>j. ft_slot (nw_ft w) j = v)"
  shows "case ft_slot (nw_ft w) i of None \<Rightarrow> files_ok {} (w\<lparr>nw_ft := t\<rparr>) | Some f \<Rightarrow> files_ok {f} (w\<lparr>nw_ft := t\<rparr>)"
proof -
  have a: "nw_files w f \<noteq> None" if "ft_slot t j = Some f" for j f
    using assms that unfolding files_ok_def by (auto split: if_splits)
  have b: "\<exists>j. ft_slot t j = Some f" if "nw_files w f = Some s" "ft_slot (nw_ft w) i \<noteq> Some f" for f s
  proof -
    obtain j where "ft_slot (nw_ft w) j = Some f" using assms(1) \<open>nw_files w f = Some s\<close> unfolding files_ok_def by blast
    then show ?thesis using that(2) assms(3) by (intro exI [of _ j]) auto
  qed
  have c: "nw_files w f = Some s \<Longrightarrow> f < nw_next w \<and> nf_ok s" for f s using assms(1) by (simp add: files_ok_def)
  show ?thesis using a b c assms(2) by (auto simp: files_ok_def split: option.split)
qed

lemma net_close_inv:
  assumes "net_inv w" "net_close R fd w = (r, w')"
  shows "net_inv w'"
proof -
  have i: "files_ok {} w" "owned {} (nw_held w) (nw_log w)" "ft_ok (nw_ft w)" using assms(1) by (simp_all add: net_inv_def files_ok_def)
  show ?thesis
  proof (cases "ft_Get fd (nw_ft w)")
    case None
    then show ?thesis using assms ft_Remove_spec [OF i(3), of fd] by (simp add: net_close_def usys_close_def)
  next
    case (Some f)
    then obtain t where t: "ft_Remove fd (nw_ft w) = (True, [(fd, f)], t)" "ft_ok t" "ft_slot t = (ft_slot (nw_ft w))(to_size fd := None)"
      using ft_Remove_spec [OF i(3), of fd] by auto
    have "files_ok {f} (w\<lparr>nw_ft := t\<rparr>)" using files_slot_changed [OF i(1) t(2,3)] Some by (simp add: ft_Get_at)
    then show ?thesis using drop_ref_inv [of f "w\<lparr>nw_ft := t\<rparr>" R] i(2) assms(2) t(1) by (simp add: net_close_def usys_close_def)
  qed
qed


lemma net_dup_inv:
  assumes "net_inv w" "net_dup fd w = (r, w')"
  shows "net_inv w'"
proof -
  have i: "files_ok {} w" "owned {} (nw_held w) (nw_log w)" "ft_ok (nw_ft w)" using assms(1) by (simp_all add: net_inv_def files_ok_def)
  show ?thesis
  proof (cases "ft_Dup fd (nw_ft w)")
    case (Some f)
    then have s: "ft_slot (nw_ft w) (to_size fd) = Some f" by (simp add: ft_Dup_def ft_slot_def split: if_splits)
    obtain n t where ins: "ft_Insert f False 0 (nw_ft w) = (n, t)" by force
    note I = ft_Insert_spec [OF i(3) ins]
    have "files_ok {} (w\<lparr>nw_ft := t\<rparr>)" using files_slot_changed [OF i(1), of t n "Some f"] I s by auto
    then show ?thesis using assms(2) i(2) Some ins by (auto simp: net_dup_def usys_dup_def net_inv_def)
  qed (use assms in \<open>simp add: net_dup_def usys_dup_def\<close>)
qed

lemma net_dup2_inv:
  assumes "net_inv w" "net_dup2 R oldfd newfd w = Some (r, w')"
  shows "net_inv w'"
proof -
  have i: "files_ok {} w" "owned {} (nw_held w) (nw_log w)" "ft_ok (nw_ft w)" using assms(1) by (simp_all add: net_inv_def files_ok_def)
  show ?thesis
  proof (cases "oldfd \<noteq> newfd \<and> ft_Dup oldfd (nw_ft w) \<noteq> None")
    case True
    then obtain f where f: "ft_Dup oldfd (nw_ft w) = Some f" by auto
    have "0 \<le> newfd" using assms(2) True f by (auto simp: net_dup2_def usys_dup2_def ft_InsertAt_def split: if_splits)
    from ft_InsertAt_spec [OF i(3) this, of f False] obtain t where
      t: "ft_InsertAt newfd f False (nw_ft w) = Some (case ft_slot (nw_ft w) (nat newfd) of None \<Rightarrow> [] | Some g \<Rightarrow> [(newfd, g)], t)"
        "ft_ok t" "ft_slot t = (ft_slot (nw_ft w))(nat newfd := Some f)" by blast
    have s: "ft_slot (nw_ft w) (to_size oldfd) = Some f" using f by (simp add: ft_Dup_def ft_slot_def split: if_splits)
    note c = files_slot_changed [OF i(1) t(2,3)]
    show ?thesis
    proof (cases "ft_slot (nw_ft w) (nat newfd)")
      case None
      then show ?thesis using c s assms(2) True f t(1) i(2) by (auto simp: net_dup2_def usys_dup2_def net_inv_def)
    next
      case (Some g)
      then have "files_ok {g} (w\<lparr>nw_ft := t\<rparr>)" using c s by auto
      then show ?thesis using drop_ref_inv [of g "w\<lparr>nw_ft := t\<rparr>" R] assms(2) True f t(1) i(2) Some by (auto simp: net_dup2_def usys_dup2_def)
    qed
  qed (use assms in \<open>auto simp: net_dup2_def usys_dup2_def split: if_splits\<close>)
qed

section \<open>Runs\<close>

text \<open>The steps of a process: the socket calls, the methods that reading, writing, \<open>fcntl\<close> and polling reach through a descriptor,
  and the calls that copy and close descriptors.\<close>

inductive net_step :: "runtime \<Rightarrow> net_world \<Rightarrow> net_world \<Rightarrow> bool" for R :: runtime where
  Socket: "usys_socket other junk domain type0 protocol w = (r, w') \<Longrightarrow> net_step R w w'"
| Bind: "usys_bind R x fd addr w = Some (r, w') \<Longrightarrow> net_step R w w'"
| Connect: "usys_connect R x fd addr w = Some (r, w') \<Longrightarrow> net_step R w w'"
| Listen: "usys_listen R x fd blog w = Some (r, w') \<Longrightarrow> net_step R w w'"
| Shutdown: "usys_shutdown R x fd how w = Some (r, w') \<Longrightarrow> net_step R w w'"
| Getpeername: "usys_getpeername R junk y fd out w = Some (v, w') \<Longrightarrow> net_step R w w'"
| Getsockname: "usys_getsockname R junk y fd out w = Some (v, w') \<Longrightarrow> net_step R w w'"
| Accept: "usys_accept R junk bj x fd out w = Some (v, w') \<Longrightarrow> net_step R w w'"
| Accept4: "usys_accept4 R junk bj x fd out flags w = Some (v, w') \<Longrightarrow> net_step R w w'"
| Setsockopt: "usys_setsockopt R x fd level optname optval w = Some (r, w') \<Longrightarrow> net_step R w w'"
| Getsockopt: "usys_getsockopt R payload_size b fd level optname optlen w = Some (u, w') \<Longrightarrow> net_step R w w'"
| Recvfrom: "usys_recvfrom R junk q fd len flags src w = Some (a, w') \<Longrightarrow> net_step R w w'"
| Recvmsg: "usys_recvmsg R junk q fd h flags w = Some (c, w') \<Longrightarrow> net_step R w w'"
| Recvmmsg: "usys_recvmmsg R junk qs clock fd hs flags timeout w = Some (d, w') \<Longrightarrow> net_step R w w'"
| Sendto: "usys_sendto R n fd buf flags dest w = Some (r, w') \<Longrightarrow> net_step R w w'"
| Sendmsg: "usys_sendmsg R n fd sh flags w = Some (r, w') \<Longrightarrow> net_step R w w'"
| Sendmmsg: "usys_sendmmsg R ns fd shs flags w = Some (e, w') \<Longrightarrow> net_step R w w'"
| Read: "on_socket R (virt (\<lambda>R. tcp_Read R len) (\<lambda>R. udp_Read R len) b) fd w = Some (b', w') \<Longrightarrow> net_step R w w'"
| Write: "on_socket R (virt (\<lambda>R. tcp_Write R buf) (\<lambda>R. udp_Write R buf) n) fd w = Some (n', w') \<Longrightarrow> net_step R w w'"
| Writev: "on_socket R (virt (\<lambda>R. tcp_Writev R iov) (\<lambda>R. udp_Writev R iov) n) fd w = Some (n', w') \<Longrightarrow> net_step R w w'"
| Set_flags: "on_socket R (virt (\<lambda>R s l. plain (tcp_set_flags R fl s l)) (\<lambda>R s l. plain (Some (udp_set_flags R fl s l))) x) fd w = Some (x', w') \<Longrightarrow>
    net_step R w w'"
| Poll: "on_socket R (virt (\<lambda>R s l. plain (tcp_get_poll_source R s l)) (\<lambda>R s l. plain (udp_get_poll_source R s l)) x) fd w = Some (x', w') \<Longrightarrow>
    net_step R w w'"
| Dup: "net_dup fd w = (r, w') \<Longrightarrow> net_step R w w'"
| Dup2: "net_dup2 R oldfd newfd w = Some (r, w') \<Longrightarrow> net_step R w w'"
| Close: "net_close R fd w = (r, w') \<Longrightarrow> net_step R w w'"


lemma call_result:
  "map_option (map_prod g id) q = Some (r, w') \<Longrightarrow> \<exists>y. q = Some (y, w')"
  "Option.bind q (\<lambda>(r, w'). case r of Inl e \<Rightarrow> Some (a e, w') | Inr v \<Rightarrow> if b then None else Some (c v, w')) = Some (r, w') \<Longrightarrow> \<exists>y. q = Some (y, w')"
  by (cases q; auto split: sum.split_asm if_splits)+

lemma called_inv:
  assumes "socket_op op nf_held nf_ok" "runtime_ok R" "net_inv w"
  shows "map_option (map_prod g id) (on_socket R op fd w) = Some (r, w') \<Longrightarrow> net_inv w'"
    "(if b then Some (v, w) else map_option (\<lambda>(r, w'). (h r, w')) (on_socket R op fd w)) = Some (x, w') \<Longrightarrow> net_inv w'"
  using on_socket_inv [OF assms] assms(3) by (auto split: if_splits)

lemma setsockopt_inv:
  assumes "runtime_ok R" "net_inv w" "usys_setsockopt R x fd level optname v w = Some (r, w')"
  shows "net_inv w'"
proof (cases "w' = w")
  case False
  then have "\<exists>y. on_socket R (virt (\<lambda>R s l. map_option (\<lambda>(r, s'). (r, s', l)) (SetSockOpt level optname v s))
      (\<lambda>R s l. map_option (\<lambda>(r, s'). (r, s', l)) (SetSockOpt level optname v s)) x) fd w = Some (y, w')"
    using assms(3) by (intro call_result(1)) (auto simp: usys_setsockopt_def split: sum.splits if_splits)
  then show ?thesis using on_socket_inv [OF v_setopt.v.socket_op_axioms assms(1,2)] by blast
qed (use assms in simp)

lemma getsockopt_inv:
  assumes "runtime_ok R" "net_inv w" "usys_getsockopt R payload_size x fd level optname optlen w = Some (r, w')"
  shows "net_inv w'"
proof (cases "w' = w")
  case False
  let ?n = "case optlen of None \<Rightarrow> 0 | Some n \<Rightarrow> n"
  have "\<exists>y. on_socket R (virt (\<lambda>R. tcp_GetSockOpt R payload_size level optname ?n) (\<lambda>R. udp_GetSockOpt R payload_size level optname ?n) x)
      fd w = Some (y, w')"
    using assms(3) False unfolding usys_getsockopt_def Let_def
    by (cases "FDToSocket fd w") (auto simp only: sum.case option.inject prod.inject split: if_split_asm dest!: call_result(2))
  then show ?thesis using on_socket_inv [OF v_getopt.v.socket_op_axioms assms(1,2)] by blast
qed (use assms in simp)

lemma transfer_inv:
  assumes "runtime_ok R" "net_inv w"
  shows "usys_recvfrom R junk q fd len flags src w = Some (a, w') \<Longrightarrow> net_inv w'"
    "usys_recvmsg R junk q fd h flags w = Some (c, w') \<Longrightarrow> net_inv w'"
    "usys_recvmmsg R junk qs clock fd hs flags timeout w = Some (d, w') \<Longrightarrow> net_inv w'"
    "usys_sendto R n fd buf flags dest w = Some (r, w') \<Longrightarrow> net_inv w'"
    "usys_sendmsg R n fd sh flags w = Some (r, w') \<Longrightarrow> net_inv w'"
    "usys_sendmmsg R ns fd shs flags w = Some (e, w') \<Longrightarrow> net_inv w'"
  unfolding usys_recvfrom_def usys_recvmsg_def usys_recvmmsg_def usys_sendto_def usys_sendmsg_def usys_sendmmsg_def Let_def
  by (erule called_inv(2) [OF v_readfrom.v.socket_op_axioms assms] called_inv(2) [OF recv_msg.socket_op_axioms assms]
      called_inv(2) [OF recv_msgs.socket_op_axioms assms] called_inv(2) [OF v_writeto.v.socket_op_axioms assms]
      called_inv(2) [OF send_msg.socket_op_axioms assms] called_inv(2) [OF send_msgs.socket_op_axioms assms])+

lemma simple_call_inv:
  assumes "runtime_ok R" "net_inv w"
  shows "usys_bind R x fd addr w = Some (r, w') \<Longrightarrow> net_inv w'"
    "usys_connect R x fd addr w = Some (r, w') \<Longrightarrow> net_inv w'"
    "usys_listen R x fd blog w = Some (r, w') \<Longrightarrow> net_inv w'"
    "usys_shutdown R x fd how w = Some (r, w') \<Longrightarrow> net_inv w'"
    "usys_getpeername R junk y fd out w = Some (v, w') \<Longrightarrow> net_inv w'"
    "usys_getsockname R junk y fd out w = Some (v, w') \<Longrightarrow> net_inv w'"
  unfolding usys_bind_def usys_connect_def usys_listen_def usys_shutdown_def usys_getpeername_def usys_getsockname_def
  by (erule called_inv(1) [OF v_bind.v.socket_op_axioms assms] called_inv(1) [OF v_connect.v.socket_op_axioms assms]
      called_inv(1) [OF v_listen.v.socket_op_axioms assms] called_inv(1) [OF v_shutdown.v.socket_op_axioms assms]
      called_inv(1) [OF v_remote.v.socket_op_axioms assms] called_inv(1) [OF v_local.v.socket_op_axioms assms])+

lemma net_step_inv:
  assumes "net_step R w w'" "runtime_ok R" "net_inv w"
  shows "net_inv w'"
  using assms(1)
proof cases
  case Accept4
  then show ?thesis using DoAccept_inv [OF assms(2,3)] assms(3) by (auto simp: usys_accept4_def split: if_splits)
qed (use assms(2,3) in \<open>auto simp: usys_accept_def dest: usys_socket_inv DoAccept_inv setsockopt_inv getsockopt_inv simple_call_inv transfer_inv
    on_socket_inv [OF v_read.v.socket_op_axioms] on_socket_inv [OF v_write.v.socket_op_axioms] on_socket_inv [OF v_writev.v.socket_op_axioms]
    on_socket_inv [OF v_flags.v.socket_op_axioms] on_socket_inv [OF v_poll.v.socket_op_axioms] net_dup_inv net_dup2_inv net_close_inv\<close>)

lemma net_steps_inv: "(net_step R)\<^sup>*\<^sup>* net_new w \<Longrightarrow> runtime_ok R \<Longrightarrow> net_inv w"
  by (induction rule: rtranclp_induct) (auto simp: net_new_inv dest: net_step_inv)


text \<open>C7: For every network stack whose new objects are not among those alive, and for every sequence of system calls of a process
  that starts with no files: every call to the stack was given objects that had been made and not yet released; the objects alive are
  exactly those held by the sockets, no object is held by two sockets, and every file has a descriptor.  So every connection, queue
  and reservation is released exactly once, at the latest when the last descriptor of its socket is closed.\<close>

theorem socket_objects_owned:
  assumes "runtime_ok R" "(net_step R)\<^sup>*\<^sup>* net_new w"
  shows "well_used (nw_log w) \<and> set (alive (nw_log w)) = (\<Union>f. nw_held w f) \<and>
    (\<forall>f g. f \<noteq> g \<longrightarrow> nw_held w f \<inter> nw_held w g = {}) \<and> (\<forall>f. nw_files w f \<noteq> None \<longrightarrow> (\<exists>fd. ft_slot (nw_ft w) fd = Some f))"
  using net_steps_inv [OF assms(2,1)] by (auto simp: net_inv_def owned_def files_ok_def)

text \<open>A stack that always succeeds and numbers its objects.\<close>

fun hid :: "handle \<Rightarrow> nat" where
  "hid (HConn p) = p"
| "hid (HQueue p) = p"
| "hid (HToken p) = p"
| "hid (HUdp p) = p"

definition rt0 :: runtime where
  "rt0 l c = \<lparr>an_ret = 0, an_ptr = Suc (sum_list (map hid (alive l))), an_bytes = [], an_addr = no_addr, an_tos = None\<rparr>"

lemma hid_makes: "hid (makes c p) = p"
  by (cases c) simp_all

lemma rt0_ok: "runtime_ok rt0"
proof (unfold runtime_ok_def, intro allI impI)
  fix l c h
  assume "opens c (rt0 l c) = Some h"
  then have "hid h = Suc (sum_list (map hid (alive l)))" by (cases c) (auto simp: hid_makes rt0_def split: if_splits)
  moreover have "hid k \<le> sum_list (map hid (alive l))" if "k \<in> set (alive l)" for k using member_le_sum_list [of "hid k" "map hid (alive l)"] that by simp
  ultimately show "h \<notin> set (alive l)" by fastforce
qed

definition demo_addr :: addr_in where
  "demo_addr = (Some (\<lambda>i. [2, 0, 0, 80, 10, 0, 0, 1, 0, 0, 0, 0, 0, 0, 0, 0] ! i), 16)"

definition demo_socket :: net_world where
  "demo_socket = snd (usys_socket (\<lambda>_ _ _ _. Inl EINVAL) 0 2 2 0 net_new)"

lemma demo_ToNetAddr: "ToNetAddr demo_addr = Inr \<lparr>na_ip = 0x0a000001, na_port = 80\<rparr>"
  by (simp add: ToNetAddr_def demo_addr_def AF_INET_def)

lemma demo_Create: "CreateSocket other junk 2 2 0 = Inr (UDP (UDPSocket_new 0))"
  by (simp add: CreateSocket_def Let_def kFlagNonblock_def kFlagCloseExec_def AF_NETLINK_def AF_UNIX_def AF_INET_def SOCK_STREAM_def SOCK_DGRAM_def)

lemma demo_FDToSocket: "FDToSocket 0 demo_socket = Inr (0, UDP (UDPSocket_new 0))" "nw_log demo_socket = []"
proof -
  obtain i t where ins: "ft_Insert 0 False 0 FileTable_new = (i, t)" by force
  note I = ft_Insert_spec [OF ft_new_ok ins]
  have "i = 0" using I by (auto simp: ft_slot_new)
  then have s: "ft_slot t 0 = Some 0" using I by simp
  have w: "demo_socket = \<lparr>nw_ft = t, nw_files = [0 \<mapsto> UDP (UDPSocket_new 0)], nw_next = 1, nw_log = []\<rparr>"
    by (simp add: demo_socket_def usys_socket_def demo_Create add_file_def net_new_def kFlagCloseExec_def ins)
  show "FDToSocket 0 demo_socket = Inr (0, UDP (UDPSocket_new 0))" "nw_log demo_socket = []"
    by (simp_all add: w FDToSocket_def ft_Get_at to_size_def s)
qed

lemma demo_Connect:
  "\<exists>l. udp_Connect rt0 demo_addr (UDPSocket_new 0) [] = Some (Inr (), (UDPSocket_new 0)\<lparr>ud_conn := Some 1\<rparr>, l)"
  by (simp add: udp_Connect_def demo_ToNetAddr UDPSocket_new_def Socket_new_def Socket.defs UDPConn_Dial_def installed_def InstallConn_def
      rt_do_def rt0_def open_ret_def alive_def UDPConn_destroy_def is_nonblocking_def)

text \<open>The world after a datagram socket has been connected.\<close>

definition demo_world :: net_world where
  "demo_world = snd (the (usys_connect rt0 (Inr ()) 0 demo_addr demo_socket))"

lemma demo_steps: "(net_step rt0)\<^sup>*\<^sup>* net_new demo_world" "nw_held demo_world 0 = {HUdp 1}"
proof -
  obtain l where c: "udp_Connect rt0 demo_addr (UDPSocket_new 0) [] = Some (Inr (), (UDPSocket_new 0)\<lparr>ud_conn := Some 1\<rparr>, l)"
    using demo_Connect by blast
  have "net_step rt0 net_new demo_socket" by (rule Socket [of _ _ _ _ _ _ "fst (usys_socket (\<lambda>_ _ _ _. Inl EINVAL) 0 2 2 0 net_new)"]) (simp add: demo_socket_def)
  moreover have u: "usys_connect rt0 (Inr ()) 0 demo_addr demo_socket = Some (0, put_sock 0 (UDP ((UDPSocket_new 0)\<lparr>ud_conn := Some 1\<rparr>)) l demo_socket)"
    by (simp add: usys_connect_def on_socket_def demo_FDToSocket virt_def c ret0_def)
  then have "net_step rt0 demo_socket demo_world" by (intro Connect) (simp add: demo_world_def)
  ultimately show "(net_step rt0)\<^sup>*\<^sup>* net_new demo_world" by simp
  show "nw_held demo_world 0 = {HUdp 1}" by (simp add: demo_world_def u held_put nf_held_def udp_held_def)
qed

theorem socket_objects_owned_witness:
  "runtime_ok rt0 \<and> (net_step rt0)\<^sup>*\<^sup>* net_new demo_world \<and> well_used (nw_log demo_world) \<and> HUdp 1 \<in> set (alive (nw_log demo_world))"
  using socket_objects_owned [OF rt0_ok demo_steps(1)] rt0_ok demo_steps by blast

end
