(* ===== verification/SockProps.thy ===== *)
theory SockProps
  imports SockCalls
begin

text \<open>
  Properties of the socket calls of the theory \<open>SockCalls\<close>: which of them can have undefined behaviour, what becomes of the errors of a
  transfer, and that addresses and control messages survive the way through the guest's memory.
\<close>

section \<open>Calls with undefined behaviour\<close>

lemma if_defined: "(b \<Longrightarrow> x \<noteq> None) \<Longrightarrow> (\<not> b \<Longrightarrow> y \<noteq> None) \<Longrightarrow> (if b then x else y) \<noteq> None"
  by simp

lemma tcp_setup_defined: "tcp_ok s \<Longrightarrow> tcp_SetupPollSource R s l \<noteq> None"
  by (erule tcp_ok_cases) (simp_all add: tcp_SetupPollSource_def TcpQueue_def TcpConn_def)

lemma if_setup_defined: "tcp_ok s \<Longrightarrow> if_setup R r s l = Some (r, s, if so_poll_setup s then the (tcp_SetupPollSource R s l) else l)"
  using tcp_setup_defined [of s R l] by (auto simp: if_setup_def)

lemma on_conn_defined: "tcp_ok s \<Longrightarrow> on_conn f s l \<noteq> None"
  by (erule tcp_ok_cases) (simp_all add: on_conn_def TcpConn_def)

lemma tcp_Listen_defined:
  assumes "tcp_ok s"
  shows "tcp_Listen R blog s l \<noteq> None"
proof -
  have k: "tcp_ok (s'\<lparr>tc_v := VQueue (Some q), tc_state := kSockListening, tc_backlog := blog\<rparr>)" for s' q by (simp add: tcp_ok_def)
  show ?thesis using assms
    by (rule tcp_ok_cases) (auto simp: tcp_Listen_def v_assign_def Let_def if_setup_defined [OF k] split: sum.split prod.split)
qed

lemma tcp_Connect_defined:
  assumes "tcp_ok s"
  shows "tcp_Connect R addr s l \<noteq> None"
proof -
  have k: "tcp_ok (s'\<lparr>tc_v := VConn (Some c), tc_state := kSockConnected\<rparr>)" for s' c by (simp add: tcp_ok_def)
  show ?thesis using assms
    by (rule tcp_ok_cases) (auto simp: tcp_Connect_def v_assign_def TcpConn_def if_setup_defined [OF k] split: sum.split prod.split)
qed

lemma tcp_defined:
  assumes "tcp_ok s"
  shows "tcp_Shutdown R how s l \<noteq> None" "tcp_Accept R junk out flags bj s l \<noteq> None" "tcp_RemoteAddr R junk out s l \<noteq> None"
    "tcp_LocalAddr R junk (Some n) s l = None \<longleftrightarrow> tc_state s = kSockUnbound" "tcp_GetSockOpt R payload_size level optname len s l \<noteq> None"
    "tcp_get_poll_source R s l \<noteq> None"
proof -
  show "tcp_get_poll_source R s l \<noteq> None"
    using tcp_setup_defined [of "s\<lparr>so_poll_setup := True\<rparr>" R l] tcp_cong(1) [of "s\<lparr>so_poll_setup := True\<rparr>" s] assms
    by (simp add: tcp_get_poll_source_def Let_def)
  show "tcp_Shutdown R how s l \<noteq> None" using assms by (rule tcp_ok_cases) (simp_all add: tcp_Shutdown_def TcpConn_def TcpQueue_def)
  show "tcp_Accept R junk out flags bj s l \<noteq> None" using assms by (rule tcp_ok_cases) (simp_all add: tcp_Accept_def TcpQueue_def)
  show "tcp_RemoteAddr R junk out s l \<noteq> None" using assms by (rule tcp_ok_cases) (simp_all add: tcp_RemoteAddr_def TcpConn_def split: option.split del: not_None_eq)
  show "tcp_LocalAddr R junk (Some n) s l = None \<longleftrightarrow> tc_state s = kSockUnbound"
    using assms by (rule tcp_ok_cases) (simp_all add: tcp_LocalAddr_def TcpConn_def TcpQueue_def BindToken_def)
  have "tc_state s = kSockConnected \<Longrightarrow> TcpConn s \<noteq> None" using assms by (elim tcp_ok_cases) (simp_all add: TcpConn_def)
  then show "tcp_GetSockOpt R payload_size level optname len s l \<noteq> None"
    unfolding tcp_GetSockOpt_def GetSockOpt_def tcp_GetSockOptImpl_def Let_def by (intro if_defined) simp_all
qed

lemma InstallConn_defined: "InstallConn R c s l \<noteq> None"
  by (simp add: InstallConn_def Let_def udp_SetupPollSource_def)

lemma installed_defined: "installed R x s \<noteq> None"
  using InstallConn_defined by (auto simp: installed_def split: prod.split sum.split)

lemma InstallConn_conn: "InstallConn R c s l = Some (s', l') \<Longrightarrow> ud_conn s' = Some c"
  by (auto simp: InstallConn_def Let_def split: if_splits)

lemma udp_send_defined: "udp_send R call raddr s l \<noteq> None"
proof (cases "ud_conn s")
  case None
  then obtain r s1 l1 where t: "TrySetupConn R s l = Some (r, s1, l1)" using installed_defined [of R "UDPConn_Listen R no_addr l" s]
    by (auto simp: TrySetupConn_def)
  have "r = Inr u \<Longrightarrow> ud_conn s1 \<noteq> None" for u
    using t None by (auto simp: TrySetupConn_def installed_def dest: InstallConn_conn split: prod.splits sum.splits)
  then show ?thesis using None t by (cases r) (auto simp: udp_send_def)
qed (simp add: udp_send_def)

lemma udp_defined:
  "udp_Connect R addr s l \<noteq> None" "udp_Shutdown R s l \<noteq> None" "udp_GetSockOpt R payload_size level optname len s l \<noteq> None"
  "udp_get_poll_source R s l = None \<longleftrightarrow> \<not> so_poll_setup s \<and> ud_conn s = None" "on_udp e f s l \<noteq> None"
  "udp_RemoteAddr R junk (Some n) s l \<noteq> None" "udp_LocalAddr R junk (Some n) s l \<noteq> None"
  using installed_defined
  by (auto simp: udp_Connect_def udp_Shutdown_def udp_GetSockOpt_def GetSockOpt_def udp_get_poll_source_def udp_SetupPollSource_def Let_def on_udp_def
      udp_RemoteAddr_def udp_LocalAddr_def udp_addr_def split: option.split prod.split sum.split)


lemma on_socket_defined:
  assumes "net_inv w" "\<And>f s. FDToSocket fd w = Inr (f, s) \<Longrightarrow> nf_ok s \<Longrightarrow> s \<noteq> NotSocket \<Longrightarrow> op R s (nw_log w) \<noteq> None"
  shows "on_socket R op fd w \<noteq> None"
proof (cases "FDToSocket fd w")
  case (Inr p)
  obtain f s where p: "FDToSocket fd w = Inr (f, s)" using Inr by (cases p) simp
  then have "s \<noteq> NotSocket" by (auto simp: FDToSocket_def split: option.splits nfile.splits)
  moreover have "nf_ok s" using FDToSocket_file [OF p] assms(1) by (auto simp: net_inv_def files_ok_def)
  ultimately show ?thesis using assms(2) [OF p] p by (simp add: on_socket_def del: not_None_eq)
qed (simp add: on_socket_def)

lemma virt_defined:
  assumes "nf_ok s" "s \<noteq> NotSocket" "\<And>a. s = TCP a \<Longrightarrow> tcp_ok a \<Longrightarrow> t R a l \<noteq> None" "\<And>a. s = UDP a \<Longrightarrow> u R a l \<noteq> None"
  shows "virt t u x R s l \<noteq> None"
  using assms by (cases s) (simp_all add: virt_def nf_ok_def del: not_None_eq)

lemma virt_on_socket_defined:
  assumes "net_inv w" "\<And>s l. tcp_ok s \<Longrightarrow> t R s l \<noteq> None" "\<And>s l. u R s l \<noteq> None"
  shows "on_socket R (virt t u x) fd w \<noteq> None"
  by (rule on_socket_defined [OF assms(1)], rule virt_defined) (use assms(2,3) in auto)

lemma DoSendMsg_defined: "nf_ok s \<Longrightarrow> s \<noteq> NotSocket \<Longrightarrow> DoSendMsg x h nb R s l \<noteq> None"
  unfolding DoSendMsg_def snd_transfer_def Let_def
  by (subst option.map_disc_iff, rule virt_defined) (simp_all add: tcp_WritevTo_def udp_WritevTo_def on_conn_defined udp_send_defined del: not_None_eq)

lemma DoSendMsg_kind: "DoSendMsg x h nb R s l = Some (r, s', l') \<Longrightarrow> s \<noteq> NotSocket \<Longrightarrow> s' \<noteq> NotSocket"
  by (auto simp: DoSendMsg_def snd_transfer_def virt_def Let_def split: nfile.splits)

lemma send_loop_defined: "runtime_ok R \<Longrightarrow> turn A (nf_held s) l \<Longrightarrow> nf_ok s \<Longrightarrow> s \<noteq> NotSocket \<Longrightarrow> send_loop x i hs nb R s l \<noteq> None"
proof (induction hs arbitrary: i s l)
  case (Cons h hs)
  obtain r s1 l1 where d: "DoSendMsg (x i) h nb R s l = Some (r, s1, l1)" using DoSendMsg_defined [OF Cons.prems(3,4)] by (metis not_None_eq prod_cases3)
  note k = send_msg.keeps [OF Cons.prems(1,3,2) d]
  show ?case using Cons.IH [OF Cons.prems(1) _ _ DoSendMsg_kind [OF d Cons.prems(4)]] k d by (cases r) (auto simp del: not_None_eq)
qed simp


lemma DoAccept_defined:
  assumes "net_inv w"
  shows "DoAccept R junk bj x fd out flags w \<noteq> None"
proof (cases "FDToSocket fd w")
  case (Inr p)
  obtain f s where p: "FDToSocket fd w = Inr (f, s)" using Inr by (cases p) simp
  then have s: "s \<noteq> NotSocket" by (auto simp: FDToSocket_def split: option.splits nfile.splits)
  have "nf_ok s" using FDToSocket_file [OF p] assms by (auto simp: net_inv_def files_ok_def)
  then have "s = TCP a \<Longrightarrow> tcp_Accept R junk out flags bj a (nw_log w) \<noteq> None" for a using tcp_defined(2) by (simp add: nf_ok_def)
  then show ?thesis using p s by (cases s) (simp_all add: DoAccept_def Let_def split: sum.split del: not_None_eq)
qed (simp add: DoAccept_def)

lemma sends_defined:
  assumes "runtime_ok R" "net_inv w"
  shows "usys_sendto R n fd buf flags dest w \<noteq> None" "usys_sendmsg R n fd h flags w \<noteq> None" "usys_sendmmsg R ns fd hs flags w \<noteq> None"
proof -
  show "usys_sendto R n fd buf flags dest w \<noteq> None" unfolding usys_sendto_def Let_def
    by (rule if_defined, simp, subst option.map_disc_iff, rule virt_on_socket_defined [OF assms(2)])
      (simp_all add: tcp_WriteTo_def udp_WriteTo_def on_conn_defined udp_send_defined del: not_None_eq)
  show "usys_sendmsg R n fd h flags w \<noteq> None" unfolding usys_sendmsg_def Let_def
    by (rule if_defined, simp, subst option.map_disc_iff, rule on_socket_defined [OF assms(2)]) (rule DoSendMsg_defined)
  have "turn (\<Union>g \<in> - {f}. nw_held w g) (nf_held s) (nw_log w)" if "FDToSocket fd w = Inr (f, s)" for f s
    using owned_turn [of "nw_held w" "nw_log w" f] assms(2) FDToSocket_file [OF that] by (simp add: net_inv_def nw_held_def)
  then show "usys_sendmmsg R ns fd hs flags w \<noteq> None" unfolding usys_sendmmsg_def Let_def
    by (intro if_defined, simp, subst option.map_disc_iff, intro on_socket_defined [OF assms(2)])
      (simp add: send_loop_defined [OF assms(1)] del: not_None_eq)
qed

text \<open>When a call through a descriptor is undefined.\<close>

lemma on_socket_None:
  assumes "net_inv w"
  shows "on_socket R (virt t u x) fd w = None \<longleftrightarrow>
    (\<exists>f s. FDToSocket fd w = Inr (f, TCP s) \<and> tcp_ok s \<and> t R s (nw_log w) = None) \<or>
    (\<exists>f s. FDToSocket fd w = Inr (f, UDP s) \<and> u R s (nw_log w) = None)"
proof (cases "FDToSocket fd w")
  case (Inr p)
  obtain f s where p: "FDToSocket fd w = Inr (f, s)" using Inr by (cases p) simp
  then have "s \<noteq> NotSocket" by (auto simp: FDToSocket_def split: option.splits nfile.splits)
  moreover have "nf_ok s" using FDToSocket_file [OF p] assms by (auto simp: net_inv_def files_ok_def)
  ultimately show ?thesis using p by (cases s) (simp_all add: on_socket_def virt_def nf_ok_def)
qed (simp add: on_socket_def)

lemma ok_socket: "net_inv w \<Longrightarrow> FDToSocket fd w = Inr (f, TCP s) \<Longrightarrow> tcp_ok s"
  by (drule FDToSocket_file) (force simp: net_inv_def files_ok_def nf_ok_def)

lemma simple_defined:
  assumes "net_inv w"
  shows "usys_connect R x fd addr w \<noteq> None" "usys_listen R x fd blog w \<noteq> None" "usys_shutdown R x fd how w \<noteq> None"
    "usys_getpeername R junk y fd (Some k) w \<noteq> None"
  unfolding usys_connect_def usys_listen_def usys_shutdown_def usys_getpeername_def option.map_disc_iff
  by (rule virt_on_socket_defined [OF assms];
      simp add: tcp_Connect_defined tcp_Listen_defined tcp_defined udp_defined default_def del: not_None_eq)+

lemma recvfrom_defined:
  assumes "net_inv w"
  shows "usys_recvfrom R junk q fd len flags src w \<noteq> None"
  unfolding usys_recvfrom_def Let_def
  by (rule if_defined, simp, subst option.map_disc_iff, rule virt_on_socket_defined [OF assms])
    (simp_all add: tcp_ReadFrom_def udp_ReadFrom_def on_conn_defined udp_defined(5) del: not_None_eq)

lemma getsockopt_defined:
  assumes "net_inv w"
  shows "usys_getsockopt R payload_size b fd level optname (Some optlen) w \<noteq> None"
proof -
  have "on_socket R (virt (\<lambda>R. tcp_GetSockOpt R payload_size level optname optlen) (\<lambda>R. udp_GetSockOpt R payload_size level optname optlen) b) fd w \<noteq> None"
    by (rule virt_on_socket_defined [OF assms]) (simp_all add: tcp_defined udp_defined del: not_None_eq)
  then obtain r w' where "on_socket R (virt (\<lambda>R. tcp_GetSockOpt R payload_size level optname optlen)
      (\<lambda>R. udp_GetSockOpt R payload_size level optname optlen) b) fd w = Some (r, w')" by (metis not_None_eq surj_pair)
  then show ?thesis by (cases r; cases "FDToSocket fd w") (simp_all add: usys_getsockopt_def)
qed



section \<open>Errors of a send\<close>

text \<open>C40: If sending a message fails with a small error number, \<open>sendmsg\<close> returns the negated number, but \<open>sendmmsg\<close> with that message
  returns 1 as if it had been sent, and stores the negated number, cut to 32 bits, as the number of bytes sent.\<close>

theorem sendmmsg_hides_errors:
  assumes "FDToSocket fd w = Inr (f, s)" "flags AND NOT (kMsgNoSignal OR kMsgDontWait) = 0"
    and "snd_transfer x h (flags AND kMsgDontWait \<noteq> 0) R s (nw_log w) = Some (Inl e, s', l')" "0 < e" "e < 4096"
  shows "usys_sendmsg R x fd h flags w = Some (- e, put_sock f s' l' w) \<and>
    usys_sendmmsg R (\<lambda>_. x) fd [h] flags w = Some ((1, [word_of_int (- e)]), put_sock f s' l' w)"
proof -
  have d: "DoSendMsg x h (flags AND kMsgDontWait \<noteq> 0) R s (nw_log w) = Some (Inr (word_of_int (- e)), s', l')"
    using assms(3) by (simp add: DoSendMsg_def MakeCError_def)
  have "sint (word_of_int (- e) :: u64) = - e"
    using assms(4,5) by (transfer, intro signed_take_bit_int_eq_self) simp_all
  moreover have "ucast (word_of_int (- e) :: u64) = (word_of_int (- e) :: u32)" by transfer simp
  ultimately show ?thesis using assms(1,2) d by (simp add: usys_sendmsg_def usys_sendmmsg_def on_socket_def Let_def del: of_int_minus)
qed

text \<open>A stack that refuses everything, and a message to a datagram socket without a connection.\<close>

definition rt_fail :: runtime where
  "rt_fail l c = \<lparr>an_ret = - EINVAL, an_ptr = 0, an_bytes = [], an_addr = no_addr, an_tos = None\<rparr>"

definition demo_msg :: snd_hdr where
  "demo_msg = \<lparr>sh_name = demo_addr, sh_iov = [[1, 2, 3]], sh_control = None, sh_controllen = 0\<rparr>"

lemma demo_transfer: "\<exists>s' l'. snd_transfer x demo_msg False rt_fail (UDP (UDPSocket_new 0)) [] = Some (Inl EINVAL, s', l')"
  by (simp add: snd_transfer_def Let_def virt_def udp_WritevTo_def udp_send_def TrySetupConn_def installed_def UDPConn_Listen_def rt_do_def rt_fail_def
      open_ret_def UDPSocket_new_def Socket_new_def Socket.defs errno_defs)

theorem sendmmsg_hides_errors_witness:
  "\<exists>w'. usys_sendmsg rt_fail (Inl EINVAL) 0 demo_msg 0 demo_socket = Some (- 22, w') \<and>
    usys_sendmmsg rt_fail (\<lambda>_. Inl EINVAL) 0 [demo_msg] 0 demo_socket = Some ((1, [- 22]), w')"
proof -
  obtain s' l' where t: "snd_transfer (Inl EINVAL) demo_msg False rt_fail (UDP (UDPSocket_new 0)) [] = Some (Inl EINVAL, s', l')"
    using demo_transfer by blast
  show ?thesis
    using sendmmsg_hides_errors [OF demo_FDToSocket(1), of 0 "Inl EINVAL" demo_msg rt_fail EINVAL s' l'] t
    by (simp add: demo_FDToSocket(2) errno_defs)
qed

section \<open>Round trips\<close>

lemma le_enc_explicit: "le_enc 2 x = [of_nat x, of_nat (x div 256)]" "le_enc 4 x = [of_nat x, of_nat (x div 256), of_nat (x div 65536), of_nat (x div 16777216)]"
  by (simp_all add: le_enc_def upt_conv_Cons)

lemma bytes_atI: "length xs = n \<Longrightarrow> (\<And>i. i < n \<Longrightarrow> c (pos + i) = xs ! i) \<Longrightarrow> bytes_at c pos n = xs"
  by (rule nth_equalityI) (simp_all add: bytes_at_def)

text \<open>An address that the system stores in a buffer of sufficient size is read back from there as the same address.\<close>

theorem netaddr_roundtrip:
  assumes "length junk = 8" "16 \<le> len"
  shows "\<exists>bytes. FromNetAddr junk a len = (bytes, 16) \<and> ToNetAddr (Some (\<lambda>i. bytes ! i), 16) = Inr a"
proof -
  let ?p = "unat (na_port a)" and ?i = "unat (na_ip a)"
  have "le_nat (le_enc 2 AF_INET) = AF_INET" "le_nat (le_enc 2 ?p) = ?p" "le_nat (le_enc 4 ?i) = ?i"
    using unsigned_less [of "na_port a", where ?'a = nat] unsigned_less [of "na_ip a", where ?'a = nat] by (simp_all add: AF_INET_def)
  then show ?thesis using assms by (simp add: FromNetAddr_def ToNetAddr_def Let_def le_enc_explicit del: le_nat.simps)
qed

theorem netaddr_roundtrip_witness:
  "\<exists>bytes. FromNetAddr (replicate 8 0) \<lparr>na_ip = 0x0a000001, na_port = 80\<rparr> 28 = (bytes, 16) \<and>
    ToNetAddr (Some (\<lambda>i. bytes ! i), 16) = Inr \<lparr>na_ip = 0x0a000001, na_port = 80\<rparr>"
  by (rule netaddr_roundtrip) simp_all

text \<open>The control message of a receive is understood by a send.\<close>

lemma tos_roundtrip:
  assumes "rcv_finish opts h (d, nm, Some tos) = Some out" "rh_controllen h \<ge> CMSG_SPACE 1" "opts AND kSockOptRecvTos \<noteq> 0"
  shows "ecn_loop (\<lambda>i. if i < length (ro_control out) then ro_control out ! i else mem i) (ro_controllen out) 0 None = Some tos"
proof -
  have o: "ro_control out = tos_cmsg tos" "ro_controllen out = 24"
    using assms by (auto simp: rcv_finish_def Let_def CMSG_SPACE_def CMSG_ALIGN_def split: if_splits)
  define c where "c = (\<lambda>i. if i < length (tos_cmsg tos) then tos_cmsg tos ! i else mem i)"
  have b: "bytes_at c 0 8 = le_enc 8 24" "bytes_at c 8 4 = le_enc 4 0" "bytes_at c 12 4 = le_enc 4 1"
    by (rule bytes_atI; simp add: c_def tos_cmsg_def nth_append CMSG_SPACE_def CMSG_ALIGN_def IPPROTO_IP_def IP_TOS_def)+
  have "c 16 = tos" by (simp add: c_def tos_cmsg_def nth_append)
  then show ?thesis unfolding o c_def [symmetric]
    by (subst ecn_loop.simps) (simp add: b Let_def CMSG_ALIGN_def IPPROTO_IP_def IP_TOS_def)
qed

end
