(* ===== verification/Spec2Isabelle.thy ===== *)
theory Spec2Isabelle
  imports PipeSteps PollSelect FileTable AdvisoryLock SignalSteps Credential PidRefs Futex EventFd FullPath UnixSteps Seccomp Exec FileIo SnapshotJif SyncSteps RwLock TrapSnapshot SockProps
begin

text \<open>
  Verification development for Junction, a library operating system that runs unmodified Linux
  programs in user space.  The guest's system calls arrive as calls of functions \<open>usys_...\<close>; they work on
  the state of the guest's processes (memory map, descriptor table, signals, credentials, namespace),
  on the files those processes share (pipes, event counters, in-memory files) and on a few global
  tables (process identifiers, futexes, record locks).  The development models this state and the
  operations on it.

  \<^bold>\<open>How the code is modelled.\<close>  A class is a record and an enumeration a datatype; a method is
  a function from the state to the state.  Methods that run under one lock are one step.  Where threads
  wait for each other the points at which they block are explicit outcomes, and a step relation
  interleaves the threads.  An error is the left side of a sum (\<open>Status\<close>), with the numbers of Linux.
  Machine integers whose overflow matters are words; an assertion that fails, a null pointer that is
  dereferenced or an access out of bounds is the result \<open>None\<close>.  The host's system calls, the memory at
  guest addresses, the hash functions and the clock are parameters.

  \<^bold>\<open>The theories.\<close>

  \<^item> \<open>Prelude\<close>: types, error codes of \<^verbatim>\<open>base/error.h\<close>, lemmas on lists and words.
  \<^item> \<open>Bits\<close>: alignment and pages (\<^verbatim>\<open>base/bits.h\<close>, \<^verbatim>\<open>base/arch.h\<close>).
  \<^item> \<open>IntervalSet\<close>: the exclusive interval set (\<^verbatim>\<open>base/interval_set.h\<close>).  A locale states what the
    element type must provide for splitting and merging; the insertions, removals and searches are proved
    once in it, and it is interpreted for plain intervals and for memory areas.
  \<^item> \<open>MemoryMap\<close>: areas, \<open>mmap\<close>, \<open>munmap\<close>, \<open>mprotect\<close>, \<open>brk\<close> and page tracing (\<^verbatim>\<open>kernel/mm.h\<close>,
    \<^verbatim>\<open>kernel/mm.cc\<close>).  Reachable maps satisfy \<open>MappingsValid\<close>; each call refines the change of a function
    from pages to protections.
  \<^item> \<open>IoVec\<close>: vectored copies and the loops that write everything (\<^verbatim>\<open>base/io.h\<close>, \<^verbatim>\<open>base/io.cc\<close>), with a locale
    for the writers those loops call.
  \<^item> \<open>Ring\<close>, \<open>ByteChannel\<close>, \<open>MessageChannel\<close>: the ring buffers (\<^verbatim>\<open>base/byte_channel.h\<close>,
    \<^verbatim>\<open>base/message_channel.h\<close>); both refine bounded queues, and saving and loading keeps the contents.
  \<^item> \<open>Pipe\<close>, \<open>PipeSteps\<close>: the blocking channel of \<^verbatim>\<open>fs/pipe.h\<close> and the interleavings of a reader and a
    writer.  One locale states what the channel provides, a second one adds that it is a byte stream; they
    are interpreted for the two ring buffers.  The bytes arrive in order, no wake-up is lost, the poll
    events are exact.
  \<^item> \<open>Poll\<close>, \<open>PollSelect\<close>: event sources, \<open>epoll\<close>, \<open>poll\<close> and \<open>select\<close> (\<^verbatim>\<open>fs/poll.h\<close>, \<^verbatim>\<open>fs/poll.cc\<close>).
  \<^item> \<open>Bitmap\<close>: bit sets and the identifier generator (\<^verbatim>\<open>base/bitmap.h\<close>, \<^verbatim>\<open>base/uid.h\<close>); the search by
    words is equal to a search by bits.
  \<^item> \<open>FileTable\<close>: descriptors (\<^verbatim>\<open>fs/file.h\<close>, \<^verbatim>\<open>fs/file.cc\<close>).
  \<^item> \<open>AdvisoryLock\<close>: record locks (\<^verbatim>\<open>fs/advisory_lock.h\<close>, \<^verbatim>\<open>fs/advisory_lock.cc\<close>) against the relation of who
    holds which byte.
  \<^item> \<open>SignalQueue\<close>, \<open>Signal\<close>, \<open>SignalSteps\<close>: signal numbers, queues, masks, delivery
    (\<^verbatim>\<open>kernel/signal.h\<close>, \<^verbatim>\<open>kernel/signal.cc\<close>); queues are bounded and ordered, and a deliverable signal has
    always been notified.
  \<^item> \<open>Credential\<close>: capabilities, identifiers of users, limits (\<^verbatim>\<open>kernel/proc.h\<close>, \<^verbatim>\<open>kernel/misc.cc\<close>).
  \<^item> \<open>Process\<close>, \<open>PidRefs\<close>: process identifiers, groups, sessions and waiting (\<^verbatim>\<open>kernel/proc.cc\<close>); the
    identifiers in use are those that are carried.
  \<^item> \<open>Futex\<close>: \<^verbatim>\<open>kernel/futex.h\<close>, \<^verbatim>\<open>kernel/futex.cc\<close>.  \<open>EventFd\<close>: \<^verbatim>\<open>fs/eventfd.cc\<close>.
  \<^item> \<open>Fs\<close>, \<open>PathWalk\<close>, \<open>FsSyscalls\<close>: inodes, directory entries, in-memory directories, path resolution and
    the system calls on paths (\<^verbatim>\<open>fs/fs.h\<close>, \<^verbatim>\<open>fs/core.cc\<close>, \<^verbatim>\<open>fs/memfs/dir.cc\<close>, \<^verbatim>\<open>base/string.h\<close>).  Inodes
    and entries live in a store of numbered objects, since entries, parents and directories refer to each
    other.
  \<^item> \<open>FsInv\<close>, \<open>FsSteps\<close>, \<open>FsSafe\<close>: the invariant of the namespace, its preservation through attaching,
    detaching and moving an entry, and the resolution of paths in it.  A locale states what a system call
    expects of the operation on the entry its path names; it is interpreted for unlinking, removing a
    directory and linking symbolically, and used for creating.
  \<^item> \<open>FullPath\<close>: the path of an entry (\<open>GetFullPath\<close>) and that it leads back to the entry.
  \<^item> \<open>UnixSocket\<close>, \<open>UnixSteps\<close>: stream sockets of the local domain and the table of abstract names
    (\<^verbatim>\<open>net/unix_socket.cc\<close>, \<^verbatim>\<open>net/net.cc\<close>), over the pipes of the theory \<open>Pipe\<close>.  States and variants agree and
    connected sockets face each other in pairs.
  \<^item> \<open>NetRuntime\<close>, \<open>InetSocket\<close>, \<open>SockCalls\<close>, \<open>SockProps\<close>: the wrappers of the network stack, TCP and UDP sockets and the system
    calls on sockets (\<^verbatim>\<open>bindings/net.h\<close>, \<^verbatim>\<open>net/tcp_socket.h\<close>, \<^verbatim>\<open>net/udp_socket.h\<close>, \<^verbatim>\<open>net/socket.h\<close>, \<^verbatim>\<open>net/socket.cc\<close>,
    \<^verbatim>\<open>net/net.cc\<close>).  The network stack is a parameter, a function of the history of calls made to it, and of it only
    is expected that a new object is none of those alive.  A locale states that a method uses and keeps what its socket holds;
    it is interpreted for every method of both classes, and a second one lifts it to the virtual calls.  Every
    object is used only while it is alive and belongs to one open socket; two calls have undefined behaviour, the others
    never.
  \<^item> \<open>MemFile\<close>: the contents of in-memory files (\<^verbatim>\<open>fs/memfs/memfs.h\<close>, \<^verbatim>\<open>fs/memfs/memfs.cc\<close>).
  \<^item> \<open>FileIo\<close>: open files with their virtual methods and the system calls that transfer, seek, list and control
    through a descriptor (\<^verbatim>\<open>fs/file.h\<close>, \<^verbatim>\<open>fs/file.cc\<close>, \<^verbatim>\<open>fs/memfs/memfsfile.h\<close>).  Locales state what a
    regular file, a writer of parts and a format of directory records provide; they are interpreted for files
    in memory and the two formats.  Files in memory refine files that are lists of bytes.
  \<^item> \<open>Seccomp\<close>: the program that filters system calls, assembled instruction by instruction and run by a model
    of the machine (\<^verbatim>\<open>syscall/seccomp_bpf.h\<close>, \<^verbatim>\<open>syscall/seccomp.cc\<close>).
  \<^item> \<open>Elf\<close>, \<open>Exec\<close>: reading and mapping programs, interpreter lines, the initial stack and \<open>execve\<close>
    (\<^verbatim>\<open>kernel/elf.h\<close>, \<^verbatim>\<open>kernel/elf.cc\<close>, \<^verbatim>\<open>kernel/exec.cc\<close>, \<^verbatim>\<open>fs/junction_file.h\<close>), over the theory
    \<open>MemoryMap\<close>.  A locale states what reading a program file provides; it is interpreted for files in memory.
  \<^item> \<open>Snapshot\<close>, \<open>SnapshotJif\<close>: the images of a process's memory, byte for byte, and their loaders
    (\<^verbatim>\<open>snapshot/snapshot_elf.cc\<close>, \<^verbatim>\<open>snapshot/snapshot_jif.cc\<close>, \<^verbatim>\<open>snapshot/jif.h\<close>, \<^verbatim>\<open>snapshot/jif.cc\<close>).
    What is loaded is what was saved.
  \<^item> \<open>Sync\<close>, \<open>SyncSteps\<close>, \<open>RwLock\<close>: wait queues, the mutex, the condition variable, the latch and the shared mutex
    (\<^verbatim>\<open>bindings/sync.h\<close>, \<^verbatim>\<open>bindings/sync.cc\<close>) and the interleavings of threads, signals and timers on
    them.  The runtime's thread state is a parameter of each thread: running, parked, ready or signalled.
  \<^item> \<open>Sigframe\<close>, \<open>SigReturn\<close>, \<open>TrapSnapshot\<close>: trap frames and signal frames as bytes in memory (\<^verbatim>\<open>kernel/sigframe.h\<close>,
    \<^verbatim>\<open>kernel/sigframe.cc\<close>, \<^verbatim>\<open>kernel/trapframe.h\<close>, \<^verbatim>\<open>kernel/trapframe.cc\<close>, \<^verbatim>\<open>bindings/stack.h\<close>, \<^verbatim>\<open>kernel/signal.cc\<close>).
    The handlers of any number of signals, or of a fault, are stacked over the interrupted frame and unwound in turn, and
    a frame in a snapshot is loaded on another stack.  The layout of the runtime's register frame is a parameter.

  \<^bold>\<open>Termination and bounds.\<close>  Loops that end are functions with a termination proof; path resolution
  ends by the number of links that may still be followed and the rest of the path.  Loops that retry take
  fuel: the loops that read or write everything (one round per byte is enough), the visit of the bits of a
  bitmap (one round per bit) and the attempts of a blocking read or write (one is enough for at least one
  byte: a failed attempt then sleeps or returns).  The walk to the root is a partial function.  The
  theorems say that the fuel is enough or when the walk returns; lemmas show inputs for which a loop does not
  return.  Capacities are those of the code: ring positions and addresses are 64-bit words, a queue of
  real-time signals holds 1024 entries, 8 links are followed.

  \<^bold>\<open>What the sources show.\<close>  Several theorems and lemmas describe behaviour that is not what the code or
  the manual pages intend, among them a break that gets stuck, a read of zero bytes that spins, a one-shot
  registration that is lost, a waiting lock that reports an error, a notification that is lost, a listener
  that loses its name when a connection is closed, a path through a removed working directory, and the full path of the root;
  a shared mutex that stays locked by nobody after an interrupted wait, and a send of several messages that
  hides every error.

  \<^bold>\<open>Not modelled.\<close>  The runtime below (scheduling of threads, spin locks, timers, network stack) and the host, which are not part
  of the sources; assembly and the interception of system calls; the part of a snapshot
  that holds the state of the kernel but for trap frames, whose serialisation library is not part of the sources; netlink sockets, host directories,
  the process file system and devices, which forward to the host or format text; datagram sockets
  of the local domain; the control interface and the preloaded libraries.
  Creation and exit of threads and processes is modelled only as far as identifiers, waiting and signals
  are concerned.  Data races between operations that take no common lock are outside the model.
\<close>

end
